(* ===== verification/PbPrelude.thy ===== *)
theory PbPrelude
  imports Main "HOL-Library.Word" "HOL-Library.Monad_Syntax"
begin

text \<open>
  Shared vocabulary of the development: bytes, the little-endian reading of a byte list and
  its inverse, list access that fails instead of being unspecified, and the lemmas on
  words, bits and lists the components use. The collection \<open>pb_simps\<close> gathers the
  characteristic equations of the models; \<open>le_simps\<close> those of the byte codec.
\<close>

unbundle bit_operations_syntax

named_theorems pb_simps "characteristic equations of the modelled operations"
named_theorems le_simps "laws of the little-endian byte codec"

type_synonym byte = "8 word"

section \<open>Lists\<close>

text \<open>Array access as C has it: an index outside the array has no defined result.\<close>

definition nth_opt :: "'a list \<Rightarrow> nat \<Rightarrow> 'a option" where
  "nth_opt xs i = (if i < length xs then Some (xs ! i) else None)"

lemma nth_opt_Some [simp]: "nth_opt xs i = Some x \<longleftrightarrow> i < length xs \<and> xs ! i = x"
  by (auto simp: nth_opt_def)

lemma nth_opt_None [simp]: "nth_opt xs i = None \<longleftrightarrow> length xs \<le> i"
  by (auto simp: nth_opt_def)

lemma nth_opt_Cons_0: "nth_opt (x # xs) 0 = Some x"
  by simp

lemma nth_opt_Cons_Suc: "nth_opt (x # xs) (Suc i) = nth_opt xs i"
  by (simp add: nth_opt_def)

lemma upt_add_split: "[a..<a + (m + n)] = [a..<a + m] @ [a + m..<a + m + n]"
  using upt_add_eq_append [of a "a + m" n] by (simp add: add.assoc)

lemma map_upt_shift: "map f [a..<a + n] = map (\<lambda>i. f (a + i)) [0..<n]"
  by (rule nth_equalityI) auto

lemma map_upt_eq_iff:
  "map f [a..<a + n] = map g [a..<a + n] \<longleftrightarrow> (\<forall>i<n. f (a + i) = g (a + i))"
  by (auto simp: map_upt_shift)

text \<open>Walking round a cycle of \<open>n\<close> does not come back early.\<close>

lemma cycle_ne: "start < n \<Longrightarrow> Suc k < n \<Longrightarrow> (start + Suc k) mod n \<noteq> start"
proof (cases "start + Suc k < n")
  case False
  assume "start < n" "Suc k < n"
  with False have "(start + Suc k) mod n = start + Suc k - n" by (simp add: mod_if)
  with False \<open>Suc k < n\<close> show ?thesis by simp
qed simp

section \<open>Option binds\<close>

lemma bind_Some_iff: "Option.bind m f = Some y \<longleftrightarrow> (\<exists>x. m = Some x \<and> f x = Some y)"
  by (cases m) auto

lemma bind_eq_None_iff: "Option.bind m f = None \<longleftrightarrow> (m = None \<or> (\<exists>x. m = Some x \<and> f x = None))"
  by (cases m) auto

section \<open>Little-endian byte codec\<close>

primrec le_nat :: "byte list \<Rightarrow> nat" where
  "le_nat [] = 0"
| "le_nat (b # bs) = unat b + 256 * le_nat bs"

primrec nat_le :: "nat \<Rightarrow> nat \<Rightarrow> byte list" where
  "nat_le 0 v = []"
| "nat_le (Suc n) v = of_nat v # nat_le n (v div 256)"

lemma length_nat_le [simp, le_simps]: "length (nat_le n v) = n"
  by (induction n arbitrary: v) auto

lemma unat_byte_less [simp]: "unat (b :: byte) < 256"
  using unsigned_less [of b] by simp

lemma unat_of_nat_byte [simp]: "unat (of_nat v :: byte) = v mod 256"
  by (simp add: unat_of_nat)

lemma le_nat_nat_le [le_simps]: "le_nat (nat_le n v) = v mod 256 ^ n"
proof (induction n arbitrary: v)
  case 0
  then show ?case by simp
next
  case (Suc n)
  have "v mod 256 ^ Suc n = v mod 256 + 256 * (v div 256 mod 256 ^ n)"
    by (simp add: mod_mult2_eq)
  with Suc show ?case by simp
qed

lemma le_nat_bound: "le_nat bs < 256 ^ length bs"
proof (induction bs)
  case Nil
  then show ?case by simp
next
  case (Cons b bs)
  have "unat b \<le> 255" using unat_byte_less [of b] by linarith
  moreover have "le_nat bs \<le> 256 ^ length bs - 1" using Cons by simp
  moreover have "(1::nat) \<le> 256 ^ length bs" by simp
  ultimately have "unat b + 256 * le_nat bs \<le> 255 + 256 * (256 ^ length bs - 1)"
    by (meson add_mono mult_le_mono2)
  also have "\<dots> < 256 * 256 ^ length bs"
    using \<open>1 \<le> 256 ^ length bs\<close> by (simp add: diff_mult_distrib2)
  finally show ?case by simp
qed

lemma nat_le_le_nat [le_simps]: "nat_le (length bs) (le_nat bs) = bs"
proof (induction bs)
  case Nil
  then show ?case by simp
next
  case (Cons b bs)
  have "(unat b + 256 * le_nat bs) div 256 = le_nat bs"
    using unat_byte_less [of b] by simp
  moreover have "(of_nat (unat b + 256 * le_nat bs) :: byte) = b"
  proof -
    have "(256 :: byte) = 0" by simp
    then have "(of_nat (256 * le_nat bs) :: byte) = 0"
      by (metis mult_zero_left of_nat_mult of_nat_numeral)
    then show ?thesis by simp
  qed
  ultimately show ?case using Cons by simp
qed

lemma le_nat_replicate_0 [simp]: "le_nat (replicate n 0) = 0"
  by (induction n) auto

lemma le_nat_eq_0_iff: "le_nat bs = 0 \<longleftrightarrow> (\<forall>b \<in> set bs. b = 0)"
  by (induction bs) (auto simp: unat_eq_0)

lemma nat_le_0 [simp]: "nat_le n 0 = replicate n 0"
  by (induction n) auto

section \<open>Shift-and-mask stores and loads\<close>

lemma mask8_word: "(0xFF :: 'a::len word) = mask 8"
  by (simp add: mask_eq_exp_minus_1)

lemma ucast_byte_of_nat:
  assumes "n + 8 \<le> LENGTH('a::len)"
  shows "(ucast (drop_bit n (of_nat v :: 'a word) AND 0xFF) :: byte) = of_nat (v div 2 ^ n)"
proof (rule bit_eqI)
  fix i assume "possible_bit TYPE(byte) i"
  then have "i < 8" by simp
  with assms show "bit (ucast (drop_bit n (of_nat v :: 'a word) AND 0xFF) :: byte) i \<longleftrightarrow>
      bit (of_nat (v div 2 ^ n) :: byte) i"
    unfolding mask8_word by (auto simp: bit_simps simp flip: drop_bit_nat_def)
qed

lemma nat_le_4:
  "nat_le 4 v = [of_nat v, of_nat (v div 256), of_nat (v div 65536), of_nat (v div 16777216)]"
proof -
  have "(4::nat) = Suc (Suc (Suc (Suc 0)))" by simp
  then show ?thesis by (simp only: nat_le.simps) (simp add: div_mult2_eq [symmetric])
qed

lemma nat_le_8: "nat_le 8 v = nat_le 4 v @ nat_le 4 (v div 4294967296)"
proof -
  have "(8::nat) = Suc (Suc (Suc (Suc 4)))" by simp
  then have "nat_le 8 v = of_nat v # of_nat (v div 256) # of_nat (v div 256 div 256) #
      of_nat (v div 256 div 256 div 256) # nat_le 4 (v div 256 div 256 div 256 div 256)"
    by (simp only: nat_le.simps)
  then show ?thesis by (simp add: nat_le_4 div_mult2_eq [symmetric])
qed

lemma fixed32_bytes:
  "[ucast ((of_nat v :: 32 word) AND 0xFF), ucast (drop_bit 8 (of_nat v :: 32 word) AND 0xFF),
    ucast (drop_bit 16 (of_nat v :: 32 word) AND 0xFF),
    ucast (drop_bit 24 (of_nat v :: 32 word) AND 0xFF)] = nat_le 4 v"
  using ucast_byte_of_nat [where 'a = 32, of 0 v] ucast_byte_of_nat [where 'a = 32, of 8 v]
    ucast_byte_of_nat [where 'a = 32, of 16 v] ucast_byte_of_nat [where 'a = 32, of 24 v]
  by (simp add: nat_le_4)

lemma fixed64_bytes:
  "[ucast ((of_nat v :: 64 word) AND 0xFF), ucast (drop_bit 8 (of_nat v :: 64 word) AND 0xFF),
    ucast (drop_bit 16 (of_nat v :: 64 word) AND 0xFF),
    ucast (drop_bit 24 (of_nat v :: 64 word) AND 0xFF),
    ucast (drop_bit 32 (of_nat v :: 64 word) AND 0xFF),
    ucast (drop_bit 40 (of_nat v :: 64 word) AND 0xFF),
    ucast (drop_bit 48 (of_nat v :: 64 word) AND 0xFF),
    ucast (drop_bit 56 (of_nat v :: 64 word) AND 0xFF)] = nat_le 8 v"
  using ucast_byte_of_nat [where 'a = 64, of 0 v] ucast_byte_of_nat [where 'a = 64, of 8 v]
    ucast_byte_of_nat [where 'a = 64, of 16 v] ucast_byte_of_nat [where 'a = 64, of 24 v]
    ucast_byte_of_nat [where 'a = 64, of 32 v] ucast_byte_of_nat [where 'a = 64, of 40 v]
    ucast_byte_of_nat [where 'a = 64, of 48 v] ucast_byte_of_nat [where 'a = 64, of 56 v]
  by (simp add: nat_le_8 nat_le_4 div_mult2_eq [symmetric])

lemma of_nat_le_Cons:
  "of_nat (le_nat (b # bs)) = (ucast b OR push_bit 8 (of_nat (le_nat bs)) :: 'a::len word)"
proof -
  have b: "take_bit 8 (uint b) = uint b"
    using uint_lt2p [of b] by (intro take_bit_int_eq_self) simp_all
  have "int (le_nat (b # bs)) = take_bit 8 (uint b) + push_bit 8 (int (le_nat bs))"
    by (simp add: push_bit_eq_mult b)
  also have "\<dots> = concat_bit 8 (uint b) (int (le_nat bs))"
    by (simp only: concat_bit_eq)
  finally have "int (le_nat (b # bs)) = take_bit 8 (uint b) OR push_bit 8 (int (le_nat bs))"
    by (simp only: concat_bit_def)
  then have "(of_int (int (le_nat (b # bs))) :: 'a word) =
      of_int (take_bit 8 (uint b)) OR push_bit 8 (of_int (int (le_nat bs)))"
    by (simp only: of_int_or_eq push_bit_of_int)
  then show ?thesis by (simp add: b)
qed

end
