(* ===== verification/CMemory.thy ===== *)
theory CMemory
  imports PbPrelude
begin

text \<open>
  The part of the C abstract machine the modelled sources rely on: a byte-addressed store,
  the objects and heap blocks that are live in it, loads and stores through pointers, and
  the C library's \<open>realloc\<close> and \<open>free\<close>. An address is a \<open>nat\<close>, the null pointer is 0, a
  pointer is stored as eight little-endian bytes (the 64-bit little-endian targets the Pod
  is built for).

  \<open>None\<close> as the result of an operation means that C gives it no defined result: an access
  outside every live object, or a \<open>realloc\<close>/\<open>free\<close> of an address that is not the start of
  a live heap block. Alignment, effective types and uninitialised bytes are not modelled.
\<close>

record cstate =
  c_mem :: "nat \<Rightarrow> byte"
  c_objs :: "(nat \<times> nat) list"
  c_heap :: "(nat \<times> nat) list"

section \<open>Live ranges, loads and stores\<close>

definition valid :: "cstate \<Rightarrow> nat \<Rightarrow> nat \<Rightarrow> bool" where
  "valid s a n \<longleftrightarrow>
     n = 0 \<or> list_ex (\<lambda>(b, sz). b \<le> a \<and> a + n \<le> b + sz) (c_objs s @ c_heap s)"

definition load_bytes :: "cstate \<Rightarrow> nat \<Rightarrow> nat \<Rightarrow> byte list option" where
  "load_bytes s a n = (if valid s a n then Some (map (c_mem s) [a..<a + n]) else None)"

definition overwrite :: "(nat \<Rightarrow> byte) \<Rightarrow> nat \<Rightarrow> byte list \<Rightarrow> nat \<Rightarrow> byte" where
  "overwrite m a bs = (\<lambda>x. if a \<le> x \<and> x < a + length bs then bs ! (x - a) else m x)"

definition store_bytes :: "cstate \<Rightarrow> nat \<Rightarrow> byte list \<Rightarrow> cstate option" where
  "store_bytes s a bs =
     (if valid s a (length bs) then Some (s\<lparr>c_mem := overwrite (c_mem s) a bs\<rparr>) else None)"

definition load_uint :: "nat \<Rightarrow> cstate \<Rightarrow> nat \<Rightarrow> nat option" where
  "load_uint n s a = map_option le_nat (load_bytes s a n)"

definition store_uint :: "nat \<Rightarrow> cstate \<Rightarrow> nat \<Rightarrow> nat \<Rightarrow> cstate option" where
  "store_uint n s a v = store_bytes s a (nat_le n v)"

text \<open>Pointers, \<open>pb_size_t\<close> counters and \<open>bool\<close> flags in memory.\<close>

abbreviation load_ptr :: "cstate \<Rightarrow> nat \<Rightarrow> nat option" where
  "load_ptr \<equiv> load_uint 8"

abbreviation store_ptr :: "cstate \<Rightarrow> nat \<Rightarrow> nat \<Rightarrow> cstate option" where
  "store_ptr \<equiv> store_uint 8"

abbreviation load_u32 :: "cstate \<Rightarrow> nat \<Rightarrow> nat option" where
  "load_u32 \<equiv> load_uint 4"

abbreviation store_u32 :: "cstate \<Rightarrow> nat \<Rightarrow> nat \<Rightarrow> cstate option" where
  "store_u32 \<equiv> store_uint 4"

definition load_bool :: "cstate \<Rightarrow> nat \<Rightarrow> bool option" where
  "load_bool s a = map_option (\<lambda>v. v \<noteq> 0) (load_uint 1 s a)"

definition store_bool :: "cstate \<Rightarrow> nat \<Rightarrow> bool \<Rightarrow> cstate option" where
  "store_bool s a v = store_uint 1 s a (if v then 1 else 0)"

text \<open>Pointer plus a signed offset.\<close>

definition ptr_add :: "nat \<Rightarrow> int \<Rightarrow> nat" where
  "ptr_add p off = nat (int p + off)"

lemma ptr_add_0 [simp]: "ptr_add p 0 = p"
  by (simp add: ptr_add_def)

section \<open>Buffers handed to a callee\<close>

text \<open>
  The \<open>const pb_byte_t *buf\<close> argument of a writer: the null pointer, an array local to the
  caller, or an address in memory. Byte \<open>i\<close> is read when the callee reads it.
\<close>

datatype cbuf = BufNull | BufLocal "byte list" | BufMem nat

definition buf_byte :: "cstate \<Rightarrow> cbuf \<Rightarrow> nat \<Rightarrow> byte option" where
  "buf_byte s buf i =
     (case buf of
        BufNull \<Rightarrow> None
      | BufLocal bs \<Rightarrow> nth_opt bs i
      | BufMem a \<Rightarrow> (case load_bytes s (a + i) 1 of Some [b] \<Rightarrow> Some b | _ \<Rightarrow> None))"

text \<open>\<open>for (i = 0; i < count; i++) dest[i] = buf[i];\<close>, from index \<open>i\<close> for \<open>n\<close> bytes.\<close>

primrec copy_loop :: "cstate \<Rightarrow> nat \<Rightarrow> cbuf \<Rightarrow> nat \<Rightarrow> nat \<Rightarrow> cstate option" where
  "copy_loop s dest buf i 0 = Some s"
| "copy_loop s dest buf i (Suc n) =
     do { b \<leftarrow> buf_byte s buf i;
          s' \<leftarrow> store_bytes s (dest + i) [b];
          copy_loop s' dest buf (Suc i) n }"

definition buf_bytes :: "cstate \<Rightarrow> cbuf \<Rightarrow> nat \<Rightarrow> byte list option" where
  "buf_bytes s buf n =
     (case buf of
        BufNull \<Rightarrow> (if n = 0 then Some [] else None)
      | BufLocal bs \<Rightarrow> (if n \<le> length bs then Some (take n bs) else None)
      | BufMem a \<Rightarrow> load_bytes s a n)"

section \<open>The C heap\<close>

text \<open>
  \<open>realloc\<close> and \<open>free\<close> of the C library. Where the new block goes, and whether there is
  memory for it, is decided by the allocator \<open>al\<close>, a parameter; the block moved from is
  free again when it is asked, so growing in place is allowed.
\<close>

definition heap_remove :: "nat \<Rightarrow> cstate \<Rightarrow> cstate" where
  "heap_remove p s = s\<lparr>c_heap := filter (\<lambda>(b, _). b \<noteq> p) (c_heap s)\<rparr>"

definition heap_add :: "nat \<Rightarrow> nat \<Rightarrow> cstate \<Rightarrow> cstate" where
  "heap_add b n s = s\<lparr>c_heap := (b, n) # c_heap s\<rparr>"

definition c_realloc ::
  "(cstate \<Rightarrow> nat \<Rightarrow> nat option) \<Rightarrow> cstate \<Rightarrow> nat \<Rightarrow> nat \<Rightarrow> (nat \<times> cstate) option" where
  "c_realloc al s p n =
     (if p = 0 then
        (case al s n of
           None \<Rightarrow> Some (0, s)
         | Some b \<Rightarrow> Some (b, heap_add b n s))
      else
        (case map_of (c_heap s) p of
           None \<Rightarrow> None
         | Some old \<Rightarrow>
             (case al (heap_remove p s) n of
                None \<Rightarrow> Some (0, s)
              | Some b \<Rightarrow>
                  Some (b, heap_add b n (heap_remove p s)
                       \<lparr>c_mem := overwrite (c_mem s) b (map (c_mem s) [p..<p + min old n])\<rparr>))))"

definition c_free :: "cstate \<Rightarrow> nat \<Rightarrow> cstate option" where
  "c_free s p =
     (if p = 0 then Some s
      else case map_of (c_heap s) p of None \<Rightarrow> None | Some _ \<Rightarrow> Some (heap_remove p s))"

section \<open>Laws of loads and stores\<close>

lemma valid_0 [simp]: "valid s a 0"
  by (simp add: valid_def)

lemma valid_iff:
  "valid s a n \<longleftrightarrow> n = 0 \<or>
     (\<exists>b sz. (b, sz) \<in> set (c_objs s) \<union> set (c_heap s) \<and> b \<le> a \<and> a + n \<le> b + sz)"
  by (auto simp: valid_def list_ex_iff)

lemma valid_sub: "valid s a n \<Longrightarrow> a \<le> a' \<Longrightarrow> a' + n' \<le> a + n \<Longrightarrow> valid s a' n'"
  by (fastforce simp: valid_iff)

lemma valid_byte: "valid s a n \<Longrightarrow> i < n \<Longrightarrow> valid s (a + i) 1"
  by (erule valid_sub) auto

lemma valid_mem_update [simp]: "valid (s\<lparr>c_mem := m\<rparr>) a n = valid s a n"
  by (simp add: valid_def)

lemma length_load_bytes: "load_bytes s a n = Some bs \<Longrightarrow> length bs = n"
  by (auto simp: load_bytes_def split: if_splits)

lemma load_bytes_0 [simp]: "load_bytes s a 0 = Some []"
  by (simp add: load_bytes_def)

lemma load_bytes_split:
  assumes "load_bytes s a (m + n) = Some bs"
  shows "load_bytes s a m = Some (take m bs)" and "load_bytes s (a + m) n = Some (drop m bs)"
proof -
  from assms have v: "valid s a (m + n)" and bs: "bs = map (c_mem s) [a..<a + (m + n)]"
    by (auto simp: load_bytes_def split: if_splits)
  have "valid s a m" "valid s (a + m) n" by (rule valid_sub [OF v]; simp)+
  moreover have "bs = map (c_mem s) [a..<a + m] @ map (c_mem s) [a + m..<a + m + n]"
    by (simp only: bs upt_add_split map_append)
  ultimately show "load_bytes s a m = Some (take m bs)" "load_bytes s (a + m) n = Some (drop m bs)"
    by (simp_all add: load_bytes_def)
qed

lemma load_bytes_Cons:
  assumes "load_bytes s a (Suc n) = Some bs"
  obtains b bs' where "bs = b # bs'" "load_bytes s a 1 = Some [b]" "load_bytes s (a + 1) n = Some bs'"
proof -
  have *: "load_bytes s a (1 + n) = Some bs" using assms by simp
  have "length bs = Suc n" using assms by (rule length_load_bytes)
  then obtain b bs' where "bs = b # bs'" by (cases bs) auto
  with load_bytes_split [OF *] that show ?thesis by simp
qed

lemma overwrite_Nil [simp]: "overwrite m a [] = m"
  by (rule ext) (auto simp: overwrite_def)

lemma overwrite_outside: "x < a \<or> a + length bs \<le> x \<Longrightarrow> overwrite m a bs x = m x"
  by (auto simp: overwrite_def)

lemma overwrite_inside: "i < length bs \<Longrightarrow> overwrite m a bs (a + i) = bs ! i"
  by (simp add: overwrite_def)

lemma overwrite_append:
  "overwrite m a (bs @ cs) = overwrite (overwrite m a bs) (a + length bs) cs"
  by (rule ext) (auto simp: overwrite_def nth_append)

lemma map_overwrite [simp]: "map (overwrite m a bs) [a..<a + length bs] = bs"
  by (rule nth_equalityI) (auto simp: overwrite_inside)

lemma map_overwrite_disjoint:
  "a + n \<le> b \<or> b + length bs \<le> a \<Longrightarrow> map (overwrite m b bs) [a..<a + n] = map m [a..<a + n]"
  by (auto simp: overwrite_def)

lemma store_bytes_Some:
  "store_bytes s a bs = Some s' \<longleftrightarrow>
     valid s a (length bs) \<and> s' = s\<lparr>c_mem := overwrite (c_mem s) a bs\<rparr>"
  by (auto simp: store_bytes_def)

lemma load_store_same:
  "store_bytes s a bs = Some s' \<Longrightarrow> load_bytes s' a (length bs) = Some bs"
  by (auto simp: store_bytes_Some load_bytes_def)

lemma load_store_disjoint:
  "store_bytes s a bs = Some s' \<Longrightarrow> b + n \<le> a \<or> a + length bs \<le> b \<Longrightarrow>
     load_bytes s' b n = load_bytes s b n"
  by (auto simp: store_bytes_Some load_bytes_def map_overwrite_disjoint)

lemma load_uint_store_uint:
  "store_uint n s a v = Some s' \<Longrightarrow> load_uint n s' a = Some (v mod 256 ^ n)"
  using load_store_same [of s a "nat_le n v" s']
  by (simp add: load_uint_def store_uint_def le_simps)

lemma load_uint_bound: "load_uint n s a = Some v \<Longrightarrow> v < 256 ^ n"
  using le_nat_bound by (auto simp: load_uint_def dest: length_load_bytes)

section \<open>Stores that extend one another\<close>

text \<open>
  \<open>extends s0 s\<close>: every range that is live in \<open>s0\<close> is live in \<open>s\<close> and holds the same
  bytes, so whatever can be read in \<open>s0\<close> reads the same in \<open>s\<close>. A component that writes
  only outside the live ranges of \<open>s0\<close> keeps the relation.
\<close>

definition extends :: "cstate \<Rightarrow> cstate \<Rightarrow> bool" where
  "extends s0 s \<longleftrightarrow> (\<forall>a n. valid s0 a n \<longrightarrow>
     valid s a n \<and> map (c_mem s) [a..<a + n] = map (c_mem s0) [a..<a + n])"

definition untouched :: "cstate \<Rightarrow> nat \<Rightarrow> nat \<Rightarrow> bool" where
  "untouched s0 a n \<longleftrightarrow> (\<forall>i<n. \<not> valid s0 (a + i) 1)"

lemma extends_refl [simp, intro]: "extends s s"
  by (simp add: extends_def)

lemma extends_load: "extends s0 s \<Longrightarrow> load_bytes s0 a n = Some bs \<Longrightarrow> load_bytes s a n = Some bs"
  by (auto simp: extends_def load_bytes_def split: if_splits)

lemma extends_load_uint: "extends s0 s \<Longrightarrow> load_uint n s0 a = Some v \<Longrightarrow> load_uint n s a = Some v"
  by (auto simp: load_uint_def dest: extends_load)

lemma extends_load_bool: "extends s0 s \<Longrightarrow> load_bool s0 a = Some v \<Longrightarrow> load_bool s a = Some v"
  by (auto simp: load_bool_def dest: extends_load_uint)

lemma untouched_mono: "untouched s0 a n \<Longrightarrow> m \<le> n \<Longrightarrow> untouched s0 a m"
  by (simp add: untouched_def)

lemma untouched_drop: "untouched s0 a (m + n) \<Longrightarrow> untouched s0 (a + m) n"
  by (auto simp: untouched_def add.assoc)

lemma extends_overwrite:
  assumes e: "extends s0 s" and u: "untouched s0 a (length bs)"
  shows "extends s0 (s\<lparr>c_mem := overwrite (c_mem s) a bs\<rparr>)"
  unfolding extends_def
proof (intro allI impI conjI)
  fix x n assume v: "valid s0 x n"
  from e v show "valid (s\<lparr>c_mem := overwrite (c_mem s) a bs\<rparr>) x n"
    by (simp add: extends_def)
  have "overwrite (c_mem s) a bs (x + i) = c_mem s (x + i)" if "i < n" for i
  proof (rule overwrite_outside, rule ccontr)
    assume "\<not> (x + i < a \<or> a + length bs \<le> x + i)"
    then have "x + i - a < length bs" "a + (x + i - a) = x + i" by auto
    with u have "\<not> valid s0 (x + i) 1" by (metis untouched_def)
    with valid_byte [OF v that] show False by simp
  qed
  moreover from e v have "map (c_mem s) [x..<x + n] = map (c_mem s0) [x..<x + n]"
    by (simp add: extends_def)
  ultimately show "map (c_mem (s\<lparr>c_mem := overwrite (c_mem s) a bs\<rparr>)) [x..<x + n]
      = map (c_mem s0) [x..<x + n]"
    by (simp add: map_upt_eq_iff del: map_eq_conv)
qed

section \<open>Copy loops\<close>

lemma extends_buf_byte: "extends s0 s \<Longrightarrow> buf_byte s0 buf i = Some b \<Longrightarrow> buf_byte s buf i = Some b"
  by (auto simp: buf_byte_def split: cbuf.splits option.splits list.splits
      dest: extends_load)

lemma buf_bytes_length: "buf_bytes s buf n = Some bs \<Longrightarrow> length bs = n"
  by (auto simp: buf_bytes_def split: cbuf.splits if_splits dest: length_load_bytes)

lemma buf_bytes_nth:
  assumes "buf_bytes s buf n = Some bs" and "i < n"
  shows "buf_byte s buf i = Some (bs ! i)"
proof (cases buf)
  case (BufMem a)
  from assms(1) BufMem have v: "valid s a n" and bs: "bs = map (c_mem s) [a..<a + n]"
    by (auto simp: buf_bytes_def load_bytes_def split: if_splits)
  from valid_byte [OF v assms(2)] bs assms(2) BufMem show ?thesis
    by (simp add: buf_byte_def load_bytes_def)
qed (use assms in \<open>auto simp: buf_bytes_def buf_byte_def split: if_splits\<close>)

text \<open>
  The forward copy writes exactly the source bytes when the destination is live and does
  not overlap what is live for the source.
\<close>

lemma copy_loop_eq:
  assumes "extends s0 s" and "buf_bytes s0 buf (i + n) = Some bs"
    and "valid s (dest + i) n" and "untouched s0 (dest + i) n"
  shows "copy_loop s dest buf i n =
     Some (s\<lparr>c_mem := overwrite (c_mem s) (dest + i) (drop i bs)\<rparr>)"
  using assms
proof (induction n arbitrary: s i)
  case 0
  then have "length bs = i" by (auto dest: buf_bytes_length)
  then show ?case by simp
next
  case (Suc n)
  have len: "length bs = i + Suc n" using Suc.prems(2) by (rule buf_bytes_length)
  have b0: "buf_byte s0 buf i = Some (bs ! i)"
    by (rule buf_bytes_nth [OF Suc.prems(2)]) simp
  have b: "buf_byte s buf i = Some (bs ! i)"
    by (rule extends_buf_byte [OF Suc.prems(1) b0])
  define s' where "s' = s\<lparr>c_mem := overwrite (c_mem s) (dest + i) [bs ! i]\<rparr>"
  have st: "store_bytes s (dest + i) [bs ! i] = Some s'"
    using valid_sub [OF Suc.prems(3), of "dest + i" 1] by (simp add: store_bytes_Some s'_def)
  have e': "extends s0 s'"
    unfolding s'_def by (rule extends_overwrite [OF Suc.prems(1)])
      (use untouched_mono [OF Suc.prems(4), of 1] in simp)
  have "copy_loop s' dest buf (Suc i) n =
      Some (s'\<lparr>c_mem := overwrite (c_mem s') (dest + Suc i) (drop (Suc i) bs)\<rparr>)"
  proof (rule Suc.IH [OF e'])
    show "buf_bytes s0 buf (Suc i + n) = Some bs" using Suc.prems(2) by simp
    show "valid s' (dest + Suc i) n"
      using valid_sub [OF Suc.prems(3), of "dest + Suc i" n] by (simp add: s'_def)
    show "untouched s0 (dest + Suc i) n"
      using untouched_drop [of s0 "dest + i" 1 n] Suc.prems(4) by (simp add: ac_simps)
  qed
  moreover have "drop i bs = [bs ! i] @ drop (Suc i) bs"
    using len by (simp add: Cons_nth_drop_Suc)
  ultimately show ?case
    using overwrite_append [of "c_mem s" "dest + i" "[bs ! i]" "drop (Suc i) bs"]
    by (simp add: b st s'_def)
qed

text \<open>What the heap primitives leave alone.\<close>

lemma heap_add_sel [simp]:
  "c_mem (heap_add b n s) = c_mem s" "c_objs (heap_add b n s) = c_objs s"
  "c_heap (heap_add b n s) = (b, n) # c_heap s"
  by (simp_all add: heap_add_def)

lemma heap_remove_sel [simp]:
  "c_mem (heap_remove p s) = c_mem s" "c_objs (heap_remove p s) = c_objs s"
  "c_heap (heap_remove p s) = filter (\<lambda>(b, _). b \<noteq> p) (c_heap s)"
  by (simp_all add: heap_remove_def)

section \<open>A store with given objects\<close>

text \<open>The store that holds the given byte strings at the given addresses, and nothing else.\<close>

definition store_with :: "(nat \<times> byte list) list \<Rightarrow> cstate" where
  "store_with objs =
     \<lparr>c_mem = foldr (\<lambda>(a, bs) m. overwrite m a bs) objs (\<lambda>_. 0),
      c_objs = map (\<lambda>(a, bs). (a, length bs)) objs, c_heap = []\<rparr>"

lemma load_store_with:
  "load_bytes (store_with ((a, bs) # objs)) a (length bs) = Some bs"
  by (simp add: load_bytes_def store_with_def valid_iff) blast

end
