(* ===== verification/PbTypes.thy ===== *)
theory PbTypes
  imports CMemory
begin

text \<open>
  The types and constants of nanopb's \<open>pb.h\<close>, \<open>pb_encode.h\<close>, \<open>pb_decode.h\<close> and
  \<open>pb_common.h\<close>, in the configuration the Pod is built with
  (\<open>PB_FIELD_32BIT\<close>, \<open>PB_NO_PACKED_STRUCTS\<close>, \<open>PB_ENABLE_MALLOC\<close>, with error messages,
  64-bit integers and custom streams). A struct is a record, a function pointer kept in a
  stream is a datatype whose last constructor stands for a function of the application,
  and \<open>pb_env\<close> holds the functions and tables the library is linked with: the generated
  descriptor tables, the application's callbacks and the allocator.
\<close>

section \<open>Field types (pb.h)\<close>

type_synonym pb_type = "8 word"

abbreviation (input) PB_LTYPE_VARINT :: pb_type where "PB_LTYPE_VARINT \<equiv> 0x00"
abbreviation (input) PB_LTYPE_UVARINT :: pb_type where "PB_LTYPE_UVARINT \<equiv> 0x01"
abbreviation (input) PB_LTYPE_SVARINT :: pb_type where "PB_LTYPE_SVARINT \<equiv> 0x02"
abbreviation (input) PB_LTYPE_FIXED32 :: pb_type where "PB_LTYPE_FIXED32 \<equiv> 0x03"
abbreviation (input) PB_LTYPE_FIXED64 :: pb_type where "PB_LTYPE_FIXED64 \<equiv> 0x04"
abbreviation (input) PB_LTYPE_LAST_PACKABLE :: pb_type where "PB_LTYPE_LAST_PACKABLE \<equiv> 0x04"
abbreviation (input) PB_LTYPE_BYTES :: pb_type where "PB_LTYPE_BYTES \<equiv> 0x05"
abbreviation (input) PB_LTYPE_STRING :: pb_type where "PB_LTYPE_STRING \<equiv> 0x06"
abbreviation (input) PB_LTYPE_SUBMESSAGE :: pb_type where "PB_LTYPE_SUBMESSAGE \<equiv> 0x07"
abbreviation (input) PB_LTYPE_EXTENSION :: pb_type where "PB_LTYPE_EXTENSION \<equiv> 0x08"
abbreviation (input) PB_LTYPE_FIXED_LENGTH_BYTES :: pb_type where "PB_LTYPE_FIXED_LENGTH_BYTES \<equiv> 0x09"

abbreviation (input) PB_HTYPE_REQUIRED :: pb_type where "PB_HTYPE_REQUIRED \<equiv> 0x00"
abbreviation (input) PB_HTYPE_OPTIONAL :: pb_type where "PB_HTYPE_OPTIONAL \<equiv> 0x10"
abbreviation (input) PB_HTYPE_REPEATED :: pb_type where "PB_HTYPE_REPEATED \<equiv> 0x20"
abbreviation (input) PB_HTYPE_ONEOF :: pb_type where "PB_HTYPE_ONEOF \<equiv> 0x30"

abbreviation (input) PB_ATYPE_STATIC :: pb_type where "PB_ATYPE_STATIC \<equiv> 0x00"
abbreviation (input) PB_ATYPE_POINTER :: pb_type where "PB_ATYPE_POINTER \<equiv> 0x80"
abbreviation (input) PB_ATYPE_CALLBACK :: pb_type where "PB_ATYPE_CALLBACK \<equiv> 0x40"

definition PB_LTYPE :: "pb_type \<Rightarrow> pb_type" where "PB_LTYPE x = x AND 0x0F"
definition PB_HTYPE :: "pb_type \<Rightarrow> pb_type" where "PB_HTYPE x = x AND 0x30"
definition PB_ATYPE :: "pb_type \<Rightarrow> pb_type" where "PB_ATYPE x = x AND 0xC0"

text \<open>\<open>PB_SIZE_MAX\<close> is \<open>(pb_size_t)-1\<close> with the 32-bit \<open>pb_size_t\<close>.\<close>

abbreviation (input) PB_SIZE_MAX :: nat where "PB_SIZE_MAX \<equiv> 0xFFFFFFFF"

text \<open>\<open>sizeof(void*)\<close> and \<open>offsetof(pb_bytes_array_t, bytes)\<close> of the 64-bit targets.\<close>

abbreviation (input) SIZEOF_PTR :: nat where "SIZEOF_PTR \<equiv> 8"

definition PB_BYTES_ARRAY_T_ALLOCSIZE :: "nat \<Rightarrow> nat" where
  "PB_BYTES_ARRAY_T_ALLOCSIZE n = (n + 4) mod 2 ^ 64"

abbreviation (input) PB_MAX_REQUIRED_FIELDS :: nat where "PB_MAX_REQUIRED_FIELDS \<equiv> 64"

text \<open>
  \<open>struct pb_field_s\<close>. The wire tag keeps its 32 bits; offsets and sizes are numbers.
  \<open>f_ptr\<close> is an address: of a descriptor table for a submessage, of the default value
  otherwise, or null.
\<close>

record pb_field =
  f_tag :: "32 word"
  f_type :: pb_type
  f_data_offset :: nat
  f_size_offset :: int
  f_data_size :: nat
  f_array_size :: nat
  f_ptr :: nat

definition PB_LAST_FIELD :: pb_field where
  "PB_LAST_FIELD = \<lparr>f_tag = 0, f_type = 0, f_data_offset = 0, f_size_offset = 0,
     f_data_size = 0, f_array_size = 0, f_ptr = 0\<rparr>"

text \<open>Wire types. A decoded wire type can be any of the values 0 to 7.\<close>

type_synonym pb_wire_type = "32 word"

abbreviation (input) PB_WT_VARINT :: pb_wire_type where "PB_WT_VARINT \<equiv> 0"
abbreviation (input) PB_WT_64BIT :: pb_wire_type where "PB_WT_64BIT \<equiv> 1"
abbreviation (input) PB_WT_STRING :: pb_wire_type where "PB_WT_STRING \<equiv> 2"
abbreviation (input) PB_WT_32BIT :: pb_wire_type where "PB_WT_32BIT \<equiv> 5"

text \<open>
  Member offsets of \<open>pb_callback_t\<close>, \<open>pb_extension_type_t\<close> and \<open>pb_extension_t\<close>, which
  live in the application's memory.
\<close>

abbreviation (input) CB_FUNCS :: nat where "CB_FUNCS \<equiv> 0"
abbreviation (input) CB_ARG :: nat where "CB_ARG \<equiv> 8"
abbreviation (input) EXTTYPE_DECODE :: nat where "EXTTYPE_DECODE \<equiv> 0"
abbreviation (input) EXTTYPE_ENCODE :: nat where "EXTTYPE_ENCODE \<equiv> 8"
abbreviation (input) EXTTYPE_ARG :: nat where "EXTTYPE_ARG \<equiv> 16"
abbreviation (input) EXT_TYPE :: nat where "EXT_TYPE \<equiv> 0"
abbreviation (input) EXT_DEST :: nat where "EXT_DEST \<equiv> 8"
abbreviation (input) EXT_NEXT :: nat where "EXT_NEXT \<equiv> 16"
abbreviation (input) EXT_FOUND :: nat where "EXT_FOUND \<equiv> 24"

section \<open>Streams (pb\_encode.h, pb\_decode.h)\<close>

datatype ocallback = OCB_NULL | OCB_BUF_WRITE | OCB_USER nat

record pb_ostream =
  o_callback :: ocallback
  o_state :: nat
  o_max_size :: nat
  o_bytes_written :: nat
  o_errmsg :: "string option"

definition PB_OSTREAM_SIZING :: pb_ostream where
  "PB_OSTREAM_SIZING = \<lparr>o_callback = OCB_NULL, o_state = 0, o_max_size = 0,
     o_bytes_written = 0, o_errmsg = None\<rparr>"

datatype icallback = ICB_NULL | ICB_BUF_READ | ICB_USER nat

record pb_istream =
  i_callback :: icallback
  i_state :: nat
  i_bytes_left :: nat
  i_errmsg :: "string option"

text \<open>The destination of a read: null, an array local to the caller, or memory.\<close>

datatype ibuf = INull | ILocal | IMem nat

text \<open>\<open>PB_SET_ERROR\<close> keeps the first message.\<close>

definition o_set_error :: "pb_ostream \<Rightarrow> string \<Rightarrow> pb_ostream" where
  "o_set_error str msg =
     str\<lparr>o_errmsg := (case o_errmsg str of Some m \<Rightarrow> Some m | None \<Rightarrow> Some msg)\<rparr>"

definition i_set_error :: "pb_istream \<Rightarrow> string \<Rightarrow> pb_istream" where
  "i_set_error str msg =
     str\<lparr>i_errmsg := (case i_errmsg str of Some m \<Rightarrow> Some m | None \<Rightarrow> Some msg)\<rparr>"

text \<open>\<open>PB_GET_ERROR\<close>: always a string.\<close>

definition o_get_error :: "pb_ostream \<Rightarrow> string" where
  "o_get_error str = (case o_errmsg str of Some m \<Rightarrow> m | None \<Rightarrow> ''(none)'')"

definition i_get_error :: "pb_istream \<Rightarrow> string" where
  "i_get_error str = (case i_errmsg str of Some m \<Rightarrow> m | None \<Rightarrow> ''(none)'')"

text \<open>
  The results of the operations. The outer option is \<open>None\<close> when C gives the run no
  defined result (or it does not return); inside it are the C return value, the memory
  and the stream as the call leaves them. An operation that stores a value through an
  out-parameter only on success returns it as \<open>Some\<close> value, and \<open>None\<close> for \<open>false\<close>.
\<close>

type_synonym ores = "(bool \<times> cstate \<times> pb_ostream) option"
type_synonym ires = "(bool \<times> cstate \<times> pb_istream) option"
type_synonym 'a iout = "('a option \<times> cstate \<times> pb_istream) option"

text \<open>\<open>PB_RETURN_ERROR\<close>.\<close>

definition o_fail :: "cstate \<Rightarrow> pb_ostream \<Rightarrow> string \<Rightarrow> ores" where
  "o_fail s str msg = Some (False, s, o_set_error str msg)"

definition i_fail :: "cstate \<Rightarrow> pb_istream \<Rightarrow> string \<Rightarrow> ires" where
  "i_fail s str msg = Some (False, s, i_set_error str msg)"

text \<open>\<open>if (!call) return false;\<close> followed by the rest of the function.\<close>

definition then_ok :: "(bool \<times> cstate \<times> 'st) option \<Rightarrow>
    (cstate \<Rightarrow> 'st \<Rightarrow> (bool \<times> cstate \<times> 'st) option) \<Rightarrow> (bool \<times> cstate \<times> 'st) option" where
  "then_ok r k =
     (case r of None \<Rightarrow> None
      | Some (ok, s, str) \<Rightarrow> if ok then k s str else Some (False, s, str))"

lemma then_ok_simps [simp]:
  "then_ok None k = None"
  "then_ok (Some (True, s, str)) k = k s str"
  "then_ok (Some (False, s, str)) k = Some (False, s, str)"
  by (simp_all add: then_ok_def)

lemma then_ok_True_pair [simp]: "then_ok (Some (True, p)) k = k (fst p) (snd p)"
  by (cases p) simp

section \<open>What the library is linked with\<close>

text \<open>
  \<open>e_alloc\<close> places heap blocks, \<open>e_local\<close> the one local array whose address is taken;
  \<open>e_descr\<close> gives the descriptor table at an address; the other members are the functions
  of the application, by address.
\<close>

record pb_env =
  e_alloc :: "cstate \<Rightarrow> nat \<Rightarrow> nat option"
  e_local :: "cstate \<Rightarrow> nat \<Rightarrow> nat"
  e_descr :: "nat \<Rightarrow> pb_field list"
  e_ostream_cb :: "nat \<Rightarrow> cstate \<Rightarrow> pb_ostream \<Rightarrow> cbuf \<Rightarrow> nat \<Rightarrow> ores"
  e_istream_cb :: "nat \<Rightarrow> cstate \<Rightarrow> pb_istream \<Rightarrow> ibuf \<Rightarrow> nat \<Rightarrow>
     (bool \<times> byte list \<times> cstate \<times> pb_istream) option"
  e_field_encode :: "nat \<Rightarrow> cstate \<Rightarrow> pb_ostream \<Rightarrow> pb_field \<Rightarrow> nat \<Rightarrow> ores"
  e_field_decode :: "nat \<Rightarrow> cstate \<Rightarrow> pb_istream \<Rightarrow> pb_field \<Rightarrow> nat \<Rightarrow> ires"
  e_ext_encode :: "nat \<Rightarrow> cstate \<Rightarrow> pb_ostream \<Rightarrow> nat \<Rightarrow> ores"
  e_ext_decode :: "nat \<Rightarrow> cstate \<Rightarrow> pb_istream \<Rightarrow> nat \<Rightarrow> 32 word \<Rightarrow> pb_wire_type \<Rightarrow> ires"

text \<open>A program without callbacks, descriptor tables or heap.\<close>

definition plain_env :: pb_env where
  "plain_env = \<lparr>e_alloc = (\<lambda>_ _. None), e_local = (\<lambda>_ _. 0), e_descr = (\<lambda>_. []),
     e_ostream_cb = (\<lambda>_ _ _ _ _. None), e_istream_cb = (\<lambda>_ _ _ _ _. None),
     e_field_encode = (\<lambda>_ _ _ _ _. None), e_field_decode = (\<lambda>_ _ _ _ _. None),
     e_ext_encode = (\<lambda>_ _ _ _. None), e_ext_decode = (\<lambda>_ _ _ _ _ _. None)\<rparr>"

lemma o_set_error_sel [simp]:
  "o_callback (o_set_error str m) = o_callback str"
  "o_state (o_set_error str m) = o_state str"
  "o_max_size (o_set_error str m) = o_max_size str"
  "o_bytes_written (o_set_error str m) = o_bytes_written str"
  by (simp_all add: o_set_error_def)

lemma i_set_error_sel [simp]:
  "i_callback (i_set_error str m) = i_callback str"
  "i_state (i_set_error str m) = i_state str"
  "i_bytes_left (i_set_error str m) = i_bytes_left str"
  by (simp_all add: i_set_error_def)

text \<open>A field type is determined by its three parts, and each part lies under its mask.\<close>

lemma PB_TYPE_split: "PB_ATYPE t OR PB_HTYPE t OR PB_LTYPE t = t"
proof -
  have "PB_ATYPE t OR PB_HTYPE t OR PB_LTYPE t = t AND (0xC0 OR 0x30 OR 0x0F)"
    by (simp only: PB_ATYPE_def PB_HTYPE_def PB_LTYPE_def bit.conj_disj_distrib)
  also have "(0xC0 OR 0x30 OR 0x0F :: 8 word) = - 1" by simp
  finally show ?thesis by simp
qed

lemma PB_LTYPE_le: "PB_LTYPE t \<le> 0x0F"
  by (simp add: PB_LTYPE_def word_and_le1)

lemma htype_cases:
  "PB_HTYPE t = PB_HTYPE_REQUIRED \<or> PB_HTYPE t = PB_HTYPE_OPTIONAL \<or>
   PB_HTYPE t = PB_HTYPE_REPEATED \<or> PB_HTYPE t = PB_HTYPE_ONEOF"
proof -
  have "PB_HTYPE t = push_bit 4 (take_bit 2 (drop_bit 4 t))"
  proof (rule bit_eqI)
    fix n
    have "(0x30 :: 8 word) = push_bit 4 (mask 2)" by (simp add: mask_eq_exp_minus_1)
    then show "bit (PB_HTYPE t) n = bit (push_bit 4 (take_bit 2 (drop_bit 4 t))) n"
      unfolding PB_HTYPE_def
      by (simp only: bit_and_iff bit_push_bit_iff bit_mask_iff bit_take_bit_iff bit_drop_bit_eq)
        (auto dest: bit_imp_le_length)
  qed
  moreover have "take_bit 2 (drop_bit 4 t) \<in> {0, 1, 2, 3}"
  proof -
    have "unat (take_bit 2 (drop_bit 4 t)) = take_bit 2 (unat (drop_bit 4 t))"
      by (rule unsigned_take_bit_eq)
    also have "\<dots> < 2 ^ 2" by (rule take_bit_nat_less_exp)
    finally have "unat (take_bit 2 (drop_bit 4 t)) < 4" by simp
    then consider "unat (take_bit 2 (drop_bit 4 t)) = 0" | "unat (take_bit 2 (drop_bit 4 t)) = 1"
      | "unat (take_bit 2 (drop_bit 4 t)) = 2" | "unat (take_bit 2 (drop_bit 4 t)) = 3" by linarith
    then show ?thesis by cases (auto simp: word_unat_eq_iff)
  qed
  ultimately show ?thesis by auto
qed

end
