(* ===== verification/PbIstream.thy ===== *)
theory PbIstream
  imports PbTypes
begin

text \<open>
  Input streams and the primitive decoders of \<open>pb_decode.c\<close>: \<open>buf_read\<close>, \<open>pb_read\<close>,
  \<open>pb_readbyte\<close>, the varint decoders, tags, skipping, raw values, substreams and
  fixed-width integers. The locale \<open>byte_source\<close> states what a decoder relies on in the
  stream it reads from; \<open>parses\<close> is the contract of a decoder. Buffer streams satisfy
  it (\<open>bufsrc\<close>).
\<close>

section \<open>The stream operations\<close>

text \<open>The list is what a buffer local to the caller has received.\<close>

definition buf_read :: "cstate \<Rightarrow> pb_istream \<Rightarrow> ibuf \<Rightarrow> nat \<Rightarrow>
    (bool \<times> byte list \<times> cstate \<times> pb_istream) option" where
  "buf_read s str buf count =
     (let source = i_state str; str' = str\<lparr>i_state := source + count\<rparr>
      in case buf of
           INull \<Rightarrow> Some (True, [], s, str')
         | ILocal \<Rightarrow> do { bs \<leftarrow> load_bytes s source count; Some (True, bs, s, str') }
         | IMem a \<Rightarrow> do { s' \<leftarrow> copy_loop s a (BufMem source) 0 count; Some (True, [], s', str') })"

text \<open>\<open>stream->callback(stream, buf, count)\<close>.\<close>

definition i_call :: "pb_env \<Rightarrow> cstate \<Rightarrow> pb_istream \<Rightarrow> ibuf \<Rightarrow> nat \<Rightarrow>
    (bool \<times> byte list \<times> cstate \<times> pb_istream) option" where
  "i_call env s str buf count =
     (case i_callback str of
        ICB_NULL \<Rightarrow> None
      | ICB_BUF_READ \<Rightarrow> buf_read s str buf count
      | ICB_USER k \<Rightarrow> e_istream_cb env k s str buf count)"

text \<open>\<open>pb_read\<close> past its first test: the part that calls the stream's callback.\<close>

definition pb_read_direct :: "pb_env \<Rightarrow> cstate \<Rightarrow> pb_istream \<Rightarrow> ibuf \<Rightarrow> nat \<Rightarrow>
    (bool \<times> byte list \<times> cstate \<times> pb_istream) option" where
  "pb_read_direct env s str buf count =
     (if i_bytes_left str < count
      then Some (False, [], s, i_set_error str ''end-of-stream'')
      else do { (ok, bs, s, str) \<leftarrow> i_call env s str buf count;
                if \<not> ok then Some (False, bs, s, i_set_error str ''io error'')
                else Some (True, bs, s,
                       str\<lparr>i_bytes_left := (i_bytes_left str + 2 ^ 64 - count) mod 2 ^ 64\<rparr>) })"

text \<open>The loop that skips input of a custom stream through a sixteen-byte local array.\<close>

fun pb_read_skip :: "pb_env \<Rightarrow> cstate \<Rightarrow> pb_istream \<Rightarrow> nat \<Rightarrow>
    (bool \<times> byte list \<times> cstate \<times> pb_istream) option" where
  "pb_read_skip env s str count =
     (if count > 16 then
        do { (ok, _, s, str) \<leftarrow> pb_read_direct env s str ILocal 16;
             if \<not> ok then Some (False, [], s, str)
             else pb_read_skip env s str (count - 16) }
      else do { (ok, _, s, str) \<leftarrow> pb_read_direct env s str ILocal count;
                Some (ok, [], s, str) })"

declare pb_read_skip.simps [simp del]

definition pb_read :: "pb_env \<Rightarrow> cstate \<Rightarrow> pb_istream \<Rightarrow> ibuf \<Rightarrow> nat \<Rightarrow>
    (bool \<times> byte list \<times> cstate \<times> pb_istream) option" where
  "pb_read env s str buf count =
     (if buf = INull \<and> i_callback str \<noteq> ICB_BUF_READ then pb_read_skip env s str count
      else pb_read_direct env s str buf count)"

definition pb_readbyte :: "pb_env \<Rightarrow> cstate \<Rightarrow> pb_istream \<Rightarrow> byte iout" where
  "pb_readbyte env s str =
     (if i_bytes_left str = 0
      then Some (None, s, i_set_error str ''end-of-stream'')
      else do { (ok, bs, s, str) \<leftarrow> i_call env s str ILocal 1;
                if \<not> ok then Some (None, s, i_set_error str ''io error'')
                else (case bs of
                        [b] \<Rightarrow> Some (Some b, s,
                          str\<lparr>i_bytes_left := (i_bytes_left str + 2 ^ 64 - 1) mod 2 ^ 64\<rparr>)
                      | _ \<Rightarrow> None) })"

definition pb_istream_from_buffer :: "nat \<Rightarrow> nat \<Rightarrow> pb_istream" where
  "pb_istream_from_buffer buf bufsize =
     \<lparr>i_callback = ICB_BUF_READ, i_state = buf, i_bytes_left = bufsize, i_errmsg = None\<rparr>"

section \<open>Varints\<close>

text \<open>
  The multi-byte loop of \<open>pb_decode_varint32_eof\<close> with its closing test. \<open>bitpos\<close> is a
  \<open>uint_fast8_t\<close>, an 8-bit integer on the targets, so it wraps at 256.
\<close>

partial_function (option) varint32_loop ::
  "pb_env \<Rightarrow> cstate \<Rightarrow> pb_istream \<Rightarrow> nat \<Rightarrow> 32 word \<Rightarrow> (32 word option \<times> cstate \<times> pb_istream) option"
where
  "varint32_loop env s str bitpos result =
     do { (r, s, str) \<leftarrow> pb_readbyte env s str;
          case r of
            None \<Rightarrow> Some (None, s, str)
          | Some byte \<Rightarrow>
              (let sign_extension = (if bitpos < 63 then 0xFF else 0x01);
                   overflow = (bitpos \<ge> 32 \<and> byte AND 0x7F \<noteq> 0x00 \<and>
                                (drop_bit 31 result = 0 \<or> byte \<noteq> sign_extension));
                   result = (if bitpos \<ge> 32 then result
                             else result OR push_bit bitpos (ucast (byte AND 0x7F)));
                   bitpos = (bitpos + 7) mod 256
               in if overflow then Some (None, s, i_set_error str ''varint overflow'')
                  else if byte AND 0x80 \<noteq> 0 then varint32_loop env s str bitpos result
                  else if bitpos = 35 \<and> byte AND 0x70 \<noteq> 0
                  then Some (None, s, i_set_error str ''varint overflow'')
                  else Some (Some result, s, str)) }"

text \<open>The flag tells whether \<open>*eof\<close> is set to true.\<close>

definition pb_decode_varint32_eof ::
  "pb_env \<Rightarrow> cstate \<Rightarrow> pb_istream \<Rightarrow> (32 word option \<times> bool \<times> cstate \<times> pb_istream) option" where
  "pb_decode_varint32_eof env s str =
     do { (r, s, str) \<leftarrow> pb_readbyte env s str;
          case r of
            None \<Rightarrow> Some (None, i_bytes_left str = 0, s, str)
          | Some byte \<Rightarrow>
              (if byte AND 0x80 = 0 then Some (Some (ucast byte), False, s, str)
               else do { (r, s, str) \<leftarrow> varint32_loop env s str 7 (ucast (byte AND 0x7F));
                         Some (r, False, s, str) }) }"

definition pb_decode_varint32 :: "pb_env \<Rightarrow> cstate \<Rightarrow> pb_istream \<Rightarrow> 32 word iout" where
  "pb_decode_varint32 env s str =
     do { (r, _, s, str) \<leftarrow> pb_decode_varint32_eof env s str; Some (r, s, str) }"

partial_function (option) varint_loop ::
  "pb_env \<Rightarrow> cstate \<Rightarrow> pb_istream \<Rightarrow> nat \<Rightarrow> 64 word \<Rightarrow> (64 word option \<times> cstate \<times> pb_istream) option"
where
  "varint_loop env s str bitpos result =
     (if bitpos \<ge> 64 then Some (None, s, i_set_error str ''varint overflow'')
      else do { (r, s, str) \<leftarrow> pb_readbyte env s str;
                case r of
                  None \<Rightarrow> Some (None, s, str)
                | Some byte \<Rightarrow>
                    (let result = result OR push_bit bitpos (ucast (byte AND 0x7F));
                         bitpos = (bitpos + 7) mod 256
                     in if byte AND 0x80 \<noteq> 0 then varint_loop env s str bitpos result
                        else Some (Some result, s, str)) })"

definition pb_decode_varint :: "pb_env \<Rightarrow> cstate \<Rightarrow> pb_istream \<Rightarrow> 64 word iout" where
  "pb_decode_varint env s str = varint_loop env s str 0 0"

definition unzigzag :: "64 word \<Rightarrow> 64 word" where
  "unzigzag v = (if v AND 1 \<noteq> 0 then NOT (drop_bit 1 v) else drop_bit 1 v)"

definition pb_decode_svarint :: "pb_env \<Rightarrow> cstate \<Rightarrow> pb_istream \<Rightarrow> 64 word iout" where
  "pb_decode_svarint env s str =
     do { (r, s, str) \<leftarrow> pb_decode_varint env s str;
          case r of None \<Rightarrow> Some (None, s, str)
          | Some v \<Rightarrow> Some (Some (unzigzag v), s, str) }"

section \<open>Tags and skipping\<close>

text \<open>\<open>*wire_type\<close>, \<open>*tag\<close> and \<open>*eof\<close> are always written.\<close>

definition pb_decode_tag :: "pb_env \<Rightarrow> cstate \<Rightarrow> pb_istream \<Rightarrow>
    (bool \<times> pb_wire_type \<times> 32 word \<times> bool \<times> cstate \<times> pb_istream) option" where
  "pb_decode_tag env s str =
     do { (r, eof, s, str) \<leftarrow> pb_decode_varint32_eof env s str;
          case r of
            None \<Rightarrow> Some (False, 0, 0, eof, s, str)
          | Some temp \<Rightarrow>
              (if temp = 0 then Some (False, 0, 0, True, s, str)
               else Some (True, temp AND 7, drop_bit 3 temp, eof, s, str)) }"

partial_function (option) pb_skip_varint :: "pb_env \<Rightarrow> cstate \<Rightarrow> pb_istream \<Rightarrow> (bool \<times> cstate \<times> pb_istream) option"
where
  "pb_skip_varint env s str =
     do { (ok, bs, s, str) \<leftarrow> pb_read env s str ILocal 1;
          if \<not> ok then Some (False, s, str)
          else do { byte \<leftarrow> nth_opt bs 0;
                    if byte AND 0x80 \<noteq> 0 then pb_skip_varint env s str
                    else Some (True, s, str) } }"

definition pb_skip_bytes :: "pb_env \<Rightarrow> cstate \<Rightarrow> pb_istream \<Rightarrow> nat \<Rightarrow> ires" where
  "pb_skip_bytes env s str n =
     do { (ok, _, s, str) \<leftarrow> pb_read env s str INull n; Some (ok, s, str) }"

definition pb_skip_string :: "pb_env \<Rightarrow> cstate \<Rightarrow> pb_istream \<Rightarrow> ires" where
  "pb_skip_string env s str =
     do { (r, s, str) \<leftarrow> pb_decode_varint32 env s str;
          case r of None \<Rightarrow> Some (False, s, str)
          | Some len \<Rightarrow> pb_skip_bytes env s str (unat len) }"

definition pb_skip_field :: "pb_env \<Rightarrow> cstate \<Rightarrow> pb_istream \<Rightarrow> pb_wire_type \<Rightarrow> ires" where
  "pb_skip_field env s str wire_type =
     (if wire_type = PB_WT_VARINT then pb_skip_varint env s str
      else if wire_type = PB_WT_64BIT then pb_skip_bytes env s str 8
      else if wire_type = PB_WT_STRING then pb_skip_string env s str
      else if wire_type = PB_WT_32BIT then pb_skip_bytes env s str 4
      else i_fail s str ''invalid wire_type'')"

text \<open>
  \<open>read_raw_value\<close>: the bytes stored in \<open>buf\<close> so far and the final \<open>*size\<close>. \<open>sz\<close> is the
  value of \<open>*size\<close> before the round of the loop.
\<close>

partial_function (option) raw_varint_loop ::
  "pb_env \<Rightarrow> cstate \<Rightarrow> pb_istream \<Rightarrow> nat \<Rightarrow> nat \<Rightarrow> byte list \<Rightarrow>
   (bool \<times> byte list \<times> nat \<times> cstate \<times> pb_istream) option"
where
  "raw_varint_loop env s str max_size sz buf =
     (if sz + 1 > max_size then Some (False, buf, sz + 1, s, str)
      else do { (ok, bs, s, str) \<leftarrow> pb_read env s str ILocal 1;
                if \<not> ok then Some (False, buf, sz + 1, s, str)
                else do { byte \<leftarrow> nth_opt bs 0;
                          if byte AND 0x80 \<noteq> 0
                          then raw_varint_loop env s str max_size (sz + 1) (buf @ [byte])
                          else Some (True, buf @ [byte], sz + 1, s, str) } })"

definition read_raw_value :: "pb_env \<Rightarrow> cstate \<Rightarrow> pb_istream \<Rightarrow> pb_wire_type \<Rightarrow> nat \<Rightarrow>
    (bool \<times> byte list \<times> nat \<times> cstate \<times> pb_istream) option" where
  "read_raw_value env s str wire_type max_size =
     (if wire_type = PB_WT_VARINT then raw_varint_loop env s str max_size 0 []
      else if wire_type = PB_WT_64BIT then
        do { (ok, bs, s, str) \<leftarrow> pb_read env s str ILocal 8; Some (ok, bs, 8, s, str) }
      else if wire_type = PB_WT_32BIT then
        do { (ok, bs, s, str) \<leftarrow> pb_read env s str ILocal 4; Some (ok, bs, 4, s, str) }
      else Some (False, [], max_size, s, i_set_error str ''invalid wire_type''))"

section \<open>Substreams\<close>

text \<open>The substream on success, and the parent stream.\<close>

definition pb_make_string_substream :: "pb_env \<Rightarrow> cstate \<Rightarrow> pb_istream \<Rightarrow> pb_istream iout" where
  "pb_make_string_substream env s str =
     do { (r, s, str) \<leftarrow> pb_decode_varint32 env s str;
          case r of None \<Rightarrow> Some (None, s, str)
          | Some sz \<Rightarrow>
              (if i_bytes_left str < unat sz
               then Some (None, s, i_set_error str ''parent stream too short'')
               else Some (Some (str\<lparr>i_bytes_left := unat sz\<rparr>), s,
                      str\<lparr>i_bytes_left := i_bytes_left str - unat sz\<rparr>)) }"

definition pb_close_string_substream ::
  "pb_env \<Rightarrow> cstate \<Rightarrow> pb_istream \<Rightarrow> pb_istream \<Rightarrow> ires" where
  "pb_close_string_substream env s str sub =
     do { (ok, s, sub) \<leftarrow> (if i_bytes_left sub \<noteq> 0
                            then pb_skip_bytes env s sub (i_bytes_left sub)
                            else Some (True, s, sub));
          if \<not> ok then Some (False, s, str)
          else Some (True, s, str\<lparr>i_state := i_state sub, i_errmsg := i_errmsg sub\<rparr>) }"

section \<open>Fixed-width integers\<close>

definition bytes_u32 :: "byte list \<Rightarrow> 32 word" where
  "bytes_u32 bs = push_bit 0 (ucast (bs ! 0)) OR push_bit 8 (ucast (bs ! 1)) OR
     push_bit 16 (ucast (bs ! 2)) OR push_bit 24 (ucast (bs ! 3))"

definition bytes_u64 :: "byte list \<Rightarrow> 64 word" where
  "bytes_u64 bs = push_bit 0 (ucast (bs ! 0)) OR push_bit 8 (ucast (bs ! 1)) OR
     push_bit 16 (ucast (bs ! 2)) OR push_bit 24 (ucast (bs ! 3)) OR
     push_bit 32 (ucast (bs ! 4)) OR push_bit 40 (ucast (bs ! 5)) OR
     push_bit 48 (ucast (bs ! 6)) OR push_bit 56 (ucast (bs ! 7))"

definition pb_decode_fixed32 :: "pb_env \<Rightarrow> cstate \<Rightarrow> pb_istream \<Rightarrow> nat \<Rightarrow> ires" where
  "pb_decode_fixed32 env s str dest =
     do { (ok, bs, s, str) \<leftarrow> pb_read env s str ILocal 4;
          if \<not> ok then Some (False, s, str)
          else if length bs \<noteq> 4 then None
          else do { s \<leftarrow> store_uint 4 s dest (unat (bytes_u32 bs)); Some (True, s, str) } }"

definition pb_decode_fixed64 :: "pb_env \<Rightarrow> cstate \<Rightarrow> pb_istream \<Rightarrow> nat \<Rightarrow> ires" where
  "pb_decode_fixed64 env s str dest =
     do { (ok, bs, s, str) \<leftarrow> pb_read env s str ILocal 8;
          if \<not> ok then Some (False, s, str)
          else if length bs \<noteq> 8 then None
          else do { s \<leftarrow> store_uint 8 s dest (unat (bytes_u64 bs)); Some (True, s, str) } }"

end
