(* ===== verification/PbCommon.thy ===== *)
theory PbCommon
  imports PbTypes
begin

text \<open>
  Descriptor tables and the field iterator: the table macros of \<open>pb.h\<close> as functions of the
  C layout of a struct, and \<open>pb_common.c\<close>. A table is the list of its entries, the
  terminator included; reading past it is undefined. The lemmas show that the iterator
  visits the entries in order, that \<open>pData\<close> and \<open>pSize\<close> are then the addresses the macros
  took the offsets of, and that a search ends and finds a field iff there is one.
\<close>

section \<open>The iterator\<close>

text \<open>\<open>pSize\<close> points into the struct, or (set by the decoder) to a local counter.\<close>

datatype psize = PSMem nat | PSLocal

record pb_field_iter =
  it_start :: "pb_field list"
  it_pos :: nat
  it_required_field_index :: nat
  it_dest_struct :: nat
  it_pData :: nat
  it_pSize :: psize

definition pb_field_iter_begin :: "pb_field list \<Rightarrow> nat \<Rightarrow> (bool \<times> pb_field_iter) option" where
  "pb_field_iter_begin flds dest_struct =
     do { f \<leftarrow> nth_opt flds 0;
          let pData = dest_struct + f_data_offset f;
          Some (f_tag f \<noteq> 0,
            \<lparr>it_start = flds, it_pos = 0, it_required_field_index = 0,
             it_dest_struct = dest_struct, it_pData = pData,
             it_pSize = PSMem (ptr_add pData (f_size_offset f))\<rparr>) }"

text \<open>The size of the previous field in the struct.\<close>

definition prev_field_size :: "pb_field \<Rightarrow> nat" where
  "prev_field_size prev =
     (if PB_ATYPE (f_type prev) = PB_ATYPE_STATIC \<and> PB_HTYPE (f_type prev) = PB_HTYPE_REPEATED
      then f_data_size prev * f_array_size prev
      else if PB_ATYPE (f_type prev) = PB_ATYPE_POINTER then SIZEOF_PTR
      else f_data_size prev)"

definition same_union :: "pb_field \<Rightarrow> pb_field \<Rightarrow> bool" where
  "same_union prev pos \<longleftrightarrow> PB_HTYPE (f_type prev) = PB_HTYPE_ONEOF \<and>
     PB_HTYPE (f_type pos) = PB_HTYPE_ONEOF \<and> f_data_offset pos = PB_SIZE_MAX"

definition pb_field_iter_next :: "pb_field_iter \<Rightarrow> (bool \<times> pb_field_iter) option" where
  "pb_field_iter_next iter =
     do { prev \<leftarrow> nth_opt (it_start iter) (it_pos iter);
          if f_tag prev = 0 then Some (False, iter)
          else do {
            pos \<leftarrow> nth_opt (it_start iter) (Suc (it_pos iter));
            if f_tag pos = 0 then
              do { (_, iter) \<leftarrow> pb_field_iter_begin (it_start iter) (it_dest_struct iter);
                   Some (False, iter) }
            else (let iter = iter\<lparr>it_pos := Suc (it_pos iter)\<rparr>
                  in if same_union prev pos then Some (True, iter)
                     else (let req = (if PB_HTYPE (f_type prev) = PB_HTYPE_REQUIRED
                                      then Suc (it_required_field_index iter) mod 2 ^ 32
                                      else it_required_field_index iter);
                               pData = it_pData iter + prev_field_size prev + f_data_offset pos
                           in Some (True, iter\<lparr>it_required_field_index := req, it_pData := pData,
                                it_pSize := PSMem (ptr_add pData (f_size_offset pos))\<rparr>))) } }"

partial_function (option) iter_find_loop ::
  "nat \<Rightarrow> pb_field_iter \<Rightarrow> 32 word \<Rightarrow> (bool \<times> pb_field_iter) option" where
  "iter_find_loop start iter tag =
     do { f \<leftarrow> nth_opt (it_start iter) (it_pos iter);
          if f_tag f = tag \<and> PB_LTYPE (f_type f) \<noteq> PB_LTYPE_EXTENSION then Some (True, iter)
          else do { (_, iter) \<leftarrow> pb_field_iter_next iter;
                    if it_pos iter \<noteq> start then iter_find_loop start iter tag
                    else Some (False, iter) } }"

definition pb_field_iter_find :: "pb_field_iter \<Rightarrow> 32 word \<Rightarrow> (bool \<times> pb_field_iter) option" where
  "pb_field_iter_find iter tag = iter_find_loop (it_pos iter) iter tag"

text \<open>A \<open>pb_field_t*\<close> as an address; the null pointer has no table.\<close>

definition descr :: "pb_env \<Rightarrow> nat \<Rightarrow> pb_field list" where
  "descr env p = (if p = 0 then [] else e_descr env p)"

section \<open>Descriptor macros\<close>

text \<open>
  A struct member as \<open>offsetof\<close> and \<open>sizeof\<close> see it: its offset and size, the size of
  \<open>m[0]\<close>, and the offset of its \<open>has_\<close>, \<open>_count\<close> or \<open>which_\<close> companion.
\<close>

record pb_member =
  m_offset :: nat
  m_size :: nat
  m_elem_size :: nat
  m_aux_offset :: nat

definition pb_membersize :: "pb_member \<Rightarrow> nat" where "pb_membersize m = m_size m"
definition pb_arraysize :: "pb_member \<Rightarrow> nat" where "pb_arraysize m = m_size m div m_elem_size m"
definition pb_delta :: "nat \<Rightarrow> nat \<Rightarrow> int" where "pb_delta a b = int a - int b"

text \<open>The computed offsets are stored in a 32-bit \<open>pb_size_t\<close>.\<close>

definition dataoffset_first :: "pb_member \<Rightarrow> nat" where
  "dataoffset_first m1 = m_offset m1 mod 2 ^ 32"

definition dataoffset_other :: "pb_member \<Rightarrow> pb_member \<Rightarrow> nat" where
  "dataoffset_other m1 m2 =
     nat ((int (m_offset m1) - int (m_offset m2) - int (pb_membersize m2)) mod 2 ^ 32)"

datatype pb_placement = PB_DATAOFFSET_FIRST | PB_DATAOFFSET_OTHER | PB_DATAOFFSET_UNION
  | PB_DATAOFFSET_CHOOSE

definition pb_dataoffset :: "pb_placement \<Rightarrow> pb_member \<Rightarrow> pb_member \<Rightarrow> nat" where
  "pb_dataoffset placement m1 m2 =
     (case placement of
        PB_DATAOFFSET_FIRST \<Rightarrow> dataoffset_first m1
      | PB_DATAOFFSET_OTHER \<Rightarrow> dataoffset_other m1 m2
      | PB_DATAOFFSET_UNION \<Rightarrow> PB_SIZE_MAX
      | PB_DATAOFFSET_CHOOSE \<Rightarrow>
          (if m_offset m1 = m_offset m2 then dataoffset_first m1 else dataoffset_other m1 m2))"

definition mk_field :: "32 word \<Rightarrow> pb_type \<Rightarrow> nat \<Rightarrow> int \<Rightarrow> nat \<Rightarrow> nat \<Rightarrow> nat \<Rightarrow> pb_field" where
  "mk_field tag ty fd so ds as ptr = \<lparr>f_tag = tag, f_type = ty, f_data_offset = fd,
     f_size_offset = so, f_data_size = ds, f_array_size = as, f_ptr = ptr\<rparr>"

definition PB_REQUIRED_STATIC where
  "PB_REQUIRED_STATIC tag m fd ltype ptr =
     mk_field tag (PB_ATYPE_STATIC OR PB_HTYPE_REQUIRED OR ltype) fd 0 (pb_membersize m) 0 ptr"
definition PB_OPTIONAL_STATIC where
  "PB_OPTIONAL_STATIC tag m fd ltype ptr =
     mk_field tag (PB_ATYPE_STATIC OR PB_HTYPE_OPTIONAL OR ltype) fd
       (pb_delta (m_aux_offset m) (m_offset m)) (pb_membersize m) 0 ptr"
definition PB_SINGULAR_STATIC where
  "PB_SINGULAR_STATIC tag m fd ltype ptr =
     mk_field tag (PB_ATYPE_STATIC OR PB_HTYPE_OPTIONAL OR ltype) fd 0 (pb_membersize m) 0 ptr"
definition PB_REPEATED_STATIC where
  "PB_REPEATED_STATIC tag m fd ltype ptr =
     mk_field tag (PB_ATYPE_STATIC OR PB_HTYPE_REPEATED OR ltype) fd
       (pb_delta (m_aux_offset m) (m_offset m)) (m_elem_size m) (pb_arraysize m) ptr"
definition PB_REQUIRED_POINTER where
  "PB_REQUIRED_POINTER tag m fd ltype ptr =
     mk_field tag (PB_ATYPE_POINTER OR PB_HTYPE_REQUIRED OR ltype) fd 0 (m_elem_size m) 0 ptr"
definition PB_OPTIONAL_POINTER where
  "PB_OPTIONAL_POINTER tag m fd ltype ptr =
     mk_field tag (PB_ATYPE_POINTER OR PB_HTYPE_OPTIONAL OR ltype) fd 0 (m_elem_size m) 0 ptr"
definition PB_SINGULAR_POINTER where
  "PB_SINGULAR_POINTER tag m fd ltype ptr =
     mk_field tag (PB_ATYPE_POINTER OR PB_HTYPE_OPTIONAL OR ltype) fd 0 (m_elem_size m) 0 ptr"
definition PB_REPEATED_POINTER where
  "PB_REPEATED_POINTER tag m fd ltype ptr =
     mk_field tag (PB_ATYPE_POINTER OR PB_HTYPE_REPEATED OR ltype) fd
       (pb_delta (m_aux_offset m) (m_offset m)) (m_elem_size m) 0 ptr"
definition PB_REQUIRED_CALLBACK where
  "PB_REQUIRED_CALLBACK tag m fd ltype ptr =
     mk_field tag (PB_ATYPE_CALLBACK OR PB_HTYPE_REQUIRED OR ltype) fd 0 (pb_membersize m) 0 ptr"
definition PB_OPTIONAL_CALLBACK where
  "PB_OPTIONAL_CALLBACK tag m fd ltype ptr =
     mk_field tag (PB_ATYPE_CALLBACK OR PB_HTYPE_OPTIONAL OR ltype) fd 0 (pb_membersize m) 0 ptr"
definition PB_SINGULAR_CALLBACK where
  "PB_SINGULAR_CALLBACK tag m fd ltype ptr =
     mk_field tag (PB_ATYPE_CALLBACK OR PB_HTYPE_OPTIONAL OR ltype) fd 0 (pb_membersize m) 0 ptr"
definition PB_REPEATED_CALLBACK where
  "PB_REPEATED_CALLBACK tag m fd ltype ptr =
     mk_field tag (PB_ATYPE_CALLBACK OR PB_HTYPE_REPEATED OR ltype) fd 0 (pb_membersize m) 0 ptr"
definition PB_OPTEXT_STATIC where
  "PB_OPTEXT_STATIC tag m fd ltype ptr =
     mk_field tag (PB_ATYPE_STATIC OR PB_HTYPE_REQUIRED OR ltype) 0 0 (pb_membersize m) 0 ptr"
definition PB_OPTEXT_POINTER where
  "PB_OPTEXT_POINTER tag m fd ltype ptr = PB_OPTIONAL_POINTER tag m fd ltype ptr"
definition PB_OPTEXT_CALLBACK where
  "PB_OPTEXT_CALLBACK tag m fd ltype ptr = PB_OPTIONAL_CALLBACK tag m fd ltype ptr"

text \<open>\<open>PB_ONEOF_*\<close> and \<open>PB_ANONYMOUS_ONEOF_*\<close> differ only in how they name the member.\<close>

definition PB_ONEOF_STATIC where
  "PB_ONEOF_STATIC tag m fd ltype ptr =
     mk_field tag (PB_ATYPE_STATIC OR PB_HTYPE_ONEOF OR ltype) fd
       (pb_delta (m_aux_offset m) (m_offset m)) (pb_membersize m) 0 ptr"
definition PB_ONEOF_POINTER where
  "PB_ONEOF_POINTER tag m fd ltype ptr =
     mk_field tag (PB_ATYPE_POINTER OR PB_HTYPE_ONEOF OR ltype) fd
       (pb_delta (m_aux_offset m) (m_offset m)) (m_elem_size m) 0 ptr"

datatype proto_type = T_BOOL | T_BYTES | T_DOUBLE | T_ENUM | T_UENUM | T_FIXED32 | T_FIXED64
  | T_FLOAT | T_INT32 | T_INT64 | T_MESSAGE | T_SFIXED32 | T_SFIXED64 | T_SINT32 | T_SINT64
  | T_STRING | T_UINT32 | T_UINT64 | T_EXTENSION | T_FIXED_LENGTH_BYTES

fun PB_LTYPE_MAP :: "proto_type \<Rightarrow> pb_type" where
  "PB_LTYPE_MAP T_BOOL = PB_LTYPE_VARINT"
| "PB_LTYPE_MAP T_BYTES = PB_LTYPE_BYTES"
| "PB_LTYPE_MAP T_DOUBLE = PB_LTYPE_FIXED64"
| "PB_LTYPE_MAP T_ENUM = PB_LTYPE_VARINT"
| "PB_LTYPE_MAP T_UENUM = PB_LTYPE_UVARINT"
| "PB_LTYPE_MAP T_FIXED32 = PB_LTYPE_FIXED32"
| "PB_LTYPE_MAP T_FIXED64 = PB_LTYPE_FIXED64"
| "PB_LTYPE_MAP T_FLOAT = PB_LTYPE_FIXED32"
| "PB_LTYPE_MAP T_INT32 = PB_LTYPE_VARINT"
| "PB_LTYPE_MAP T_INT64 = PB_LTYPE_VARINT"
| "PB_LTYPE_MAP T_MESSAGE = PB_LTYPE_SUBMESSAGE"
| "PB_LTYPE_MAP T_SFIXED32 = PB_LTYPE_FIXED32"
| "PB_LTYPE_MAP T_SFIXED64 = PB_LTYPE_FIXED64"
| "PB_LTYPE_MAP T_SINT32 = PB_LTYPE_SVARINT"
| "PB_LTYPE_MAP T_SINT64 = PB_LTYPE_SVARINT"
| "PB_LTYPE_MAP T_STRING = PB_LTYPE_STRING"
| "PB_LTYPE_MAP T_UINT32 = PB_LTYPE_UVARINT"
| "PB_LTYPE_MAP T_UINT64 = PB_LTYPE_UVARINT"
| "PB_LTYPE_MAP T_EXTENSION = PB_LTYPE_EXTENSION"
| "PB_LTYPE_MAP T_FIXED_LENGTH_BYTES = PB_LTYPE_FIXED_LENGTH_BYTES"

datatype pb_rules = R_REQUIRED | R_OPTIONAL | R_SINGULAR | R_REPEATED | R_OPTEXT
datatype pb_alloc = A_STATIC | A_POINTER | A_CALLBACK

fun pb_field_macro :: "pb_rules \<Rightarrow> pb_alloc \<Rightarrow>
    32 word \<Rightarrow> pb_member \<Rightarrow> nat \<Rightarrow> pb_type \<Rightarrow> nat \<Rightarrow> pb_field" where
  "pb_field_macro R_REQUIRED A_STATIC = PB_REQUIRED_STATIC"
| "pb_field_macro R_REQUIRED A_POINTER = PB_REQUIRED_POINTER"
| "pb_field_macro R_REQUIRED A_CALLBACK = PB_REQUIRED_CALLBACK"
| "pb_field_macro R_OPTIONAL A_STATIC = PB_OPTIONAL_STATIC"
| "pb_field_macro R_OPTIONAL A_POINTER = PB_OPTIONAL_POINTER"
| "pb_field_macro R_OPTIONAL A_CALLBACK = PB_OPTIONAL_CALLBACK"
| "pb_field_macro R_SINGULAR A_STATIC = PB_SINGULAR_STATIC"
| "pb_field_macro R_SINGULAR A_POINTER = PB_SINGULAR_POINTER"
| "pb_field_macro R_SINGULAR A_CALLBACK = PB_SINGULAR_CALLBACK"
| "pb_field_macro R_REPEATED A_STATIC = PB_REPEATED_STATIC"
| "pb_field_macro R_REPEATED A_POINTER = PB_REPEATED_POINTER"
| "pb_field_macro R_REPEATED A_CALLBACK = PB_REPEATED_CALLBACK"
| "pb_field_macro R_OPTEXT A_STATIC = PB_OPTEXT_STATIC"
| "pb_field_macro R_OPTEXT A_POINTER = PB_OPTEXT_POINTER"
| "pb_field_macro R_OPTEXT A_CALLBACK = PB_OPTEXT_CALLBACK"

definition PB_FIELD where
  "PB_FIELD tag ty rules alloc placement field prevfield ptr =
     pb_field_macro rules alloc tag field (pb_dataoffset placement field prevfield)
       (PB_LTYPE_MAP ty) ptr"

definition PB_REPEATED_FIXED_COUNT where
  "PB_REPEATED_FIXED_COUNT tag ty placement field prevfield ptr =
     mk_field tag (PB_ATYPE_STATIC OR PB_HTYPE_REPEATED OR PB_LTYPE_MAP ty)
       (pb_dataoffset placement field prevfield) 0 (m_elem_size field) (pb_arraysize field) ptr"

datatype pb_oneof_alloc = O_STATIC | O_POINTER

definition PB_ONEOF_FIELD where
  "PB_ONEOF_FIELD tag ty alloc placement field prevfield ptr =
     (case alloc of O_STATIC \<Rightarrow> PB_ONEOF_STATIC | O_POINTER \<Rightarrow> PB_ONEOF_POINTER) tag field
       (pb_dataoffset placement field prevfield) (PB_LTYPE_MAP ty) ptr"

section \<open>Where the iterator is\<close>

text \<open>
  A table is \<open>terminated\<close>; \<open>field_count\<close> entries precede the terminator. \<open>data_at i\<close> and
  \<open>size_at i\<close> are the offsets, within the struct, of entry \<open>i\<close>'s data and companion.
\<close>

definition terminated :: "pb_field list \<Rightarrow> bool" where
  "terminated flds \<longleftrightarrow> (\<exists>f \<in> set flds. f_tag f = 0)"

definition field_count :: "pb_field list \<Rightarrow> nat" where
  "field_count flds = length (takeWhile (\<lambda>f. f_tag f \<noteq> 0) flds)"

primrec data_at :: "pb_field list \<Rightarrow> nat \<Rightarrow> nat" where
  "data_at flds 0 = f_data_offset (flds ! 0)"
| "data_at flds (Suc i) =
     (if same_union (flds ! i) (flds ! Suc i) then data_at flds i
      else data_at flds i + prev_field_size (flds ! i) + f_data_offset (flds ! Suc i))"

primrec size_owner :: "pb_field list \<Rightarrow> nat \<Rightarrow> nat" where
  "size_owner flds 0 = 0"
| "size_owner flds (Suc i) = (if same_union (flds ! i) (flds ! Suc i) then size_owner flds i else Suc i)"

definition size_at :: "pb_field list \<Rightarrow> nat \<Rightarrow> nat \<Rightarrow> nat" where
  "size_at flds dest i = ptr_add (dest + data_at flds i) (f_size_offset (flds ! size_owner flds i))"

definition required_before :: "pb_field list \<Rightarrow> nat \<Rightarrow> nat" where
  "required_before flds i =
     length (filter (\<lambda>f. PB_HTYPE (f_type f) = PB_HTYPE_REQUIRED) (take i flds))"

definition iter_at :: "pb_field list \<Rightarrow> nat \<Rightarrow> nat \<Rightarrow> pb_field_iter" where
  "iter_at flds dest i =
     \<lparr>it_start = flds, it_pos = i, it_required_field_index = required_before flds i mod 2 ^ 32,
      it_dest_struct = dest, it_pData = dest + data_at flds i,
      it_pSize = PSMem (size_at flds dest i)\<rparr>"

lemma iter_at_sel [simp]:
  "it_start (iter_at flds dest i) = flds" "it_pos (iter_at flds dest i) = i"
  "it_required_field_index (iter_at flds dest i) = required_before flds i mod 2 ^ 32"
  "it_dest_struct (iter_at flds dest i) = dest" "it_pData (iter_at flds dest i) = dest + data_at flds i"
  "it_pSize (iter_at flds dest i) = PSMem (size_at flds dest i)"
  by (simp_all add: iter_at_def)

lemma field_count_less: "terminated flds \<Longrightarrow> field_count flds < length flds"
proof -
  assume "terminated flds"
  then obtain f where "f \<in> set flds" "f_tag f = 0" by (auto simp: terminated_def)
  then have "takeWhile (\<lambda>f. f_tag f \<noteq> 0) flds \<noteq> flds"
    by (auto simp: takeWhile_eq_all_conv)
  then have "length (takeWhile (\<lambda>f. f_tag f \<noteq> 0) flds) \<noteq> length flds"
    by (metis takeWhile_eq_take take_all_iff order_refl)
  then show ?thesis
    using length_takeWhile_le [of "\<lambda>f. f_tag f \<noteq> 0" flds] by (simp add: field_count_def)
qed

lemma field_count_tag: "terminated flds \<Longrightarrow> f_tag (flds ! field_count flds) = 0"
  using nth_length_takeWhile [of "\<lambda>f. f_tag f \<noteq> 0" flds] field_count_less [of flds]
  unfolding field_count_def by blast

lemma before_count_tag: "i < field_count flds \<Longrightarrow> f_tag (flds ! i) \<noteq> 0"
  unfolding field_count_def
  using nth_mem [of i "takeWhile (\<lambda>f. f_tag f \<noteq> 0) flds"] takeWhile_nth [of i "\<lambda>f. f_tag f \<noteq> 0" flds]
  by (auto dest: set_takeWhileD)

lemma iter_begin_at:
  assumes "terminated flds"
  shows "pb_field_iter_begin flds dest = Some (field_count flds \<noteq> 0, iter_at flds dest 0)"
proof -
  have "0 < length flds" using field_count_less [OF assms] by linarith
  moreover have "f_tag (flds ! 0) \<noteq> 0 \<longleftrightarrow> field_count flds \<noteq> 0"
    using field_count_tag [OF assms] before_count_tag [of 0 flds] by (cases "field_count flds") auto
  ultimately show ?thesis
    by (simp add: pb_field_iter_begin_def iter_at_def nth_opt_def required_before_def size_at_def
        Let_def)
qed

lemma iter_next_at:
  assumes t: "terminated flds" and i: "i < field_count flds"
  shows "pb_field_iter_next (iter_at flds dest i) =
     Some (Suc i < field_count flds, iter_at flds dest (Suc i mod field_count flds))"
proof (cases "Suc i = field_count flds")
  case True
  with i field_count_less [OF t] field_count_tag [OF t] before_count_tag [OF i]
  show ?thesis
    by (simp add: pb_field_iter_next_def nth_opt_def iter_begin_at [OF t])
next
  case False
  with i have i': "Suc i < field_count flds" by simp
  have len: "Suc i < length flds" "i < length flds" using i' field_count_less [OF t] by simp_all
  have req: "required_before flds (Suc i) = required_before flds i +
      (if PB_HTYPE (f_type (flds ! i)) = PB_HTYPE_REQUIRED then 1 else 0)"
    using len by (simp add: required_before_def take_Suc_conv_app_nth)
  have "PB_HTYPE (f_type (flds ! i)) \<noteq> PB_HTYPE_REQUIRED" if "same_union (flds ! i) (flds ! Suc i)"
    using that by (simp add: same_union_def)
  with i' len before_count_tag [OF i] before_count_tag [OF i'] req show ?thesis
    by (simp add: pb_field_iter_next_def nth_opt_def iter_at_def size_at_def Let_def mod_Suc_eq ac_simps)
qed

lemma iter_next_empty:
  "terminated flds \<Longrightarrow> field_count flds = 0 \<Longrightarrow>
     pb_field_iter_next (iter_at flds dest 0) = Some (False, iter_at flds dest 0)"
  using field_count_less [of flds] field_count_tag [of flds]
  by (cases flds) (auto simp: pb_field_iter_next_def nth_opt_def)

section \<open>Searching\<close>

definition field_matches :: "pb_field list \<Rightarrow> 32 word \<Rightarrow> nat \<Rightarrow> bool" where
  "field_matches flds tag i \<longleftrightarrow>
     f_tag (flds ! i) = tag \<and> PB_LTYPE (f_type (flds ! i)) \<noteq> PB_LTYPE_EXTENSION"

text \<open>
  From entry \<open>i\<close> the search looks at the entries in cyclic order; \<open>d\<close> is the distance to the
  first that matches.
\<close>

lemma find_loop_hit:
  assumes t: "terminated flds" and start: "start < field_count flds"
    and d: "d < field_count flds - k" and hit: "field_matches flds tag ((start + k + d) mod field_count flds)"
    and first: "\<forall>e<d. \<not> field_matches flds tag ((start + k + e) mod field_count flds)"
  shows "iter_find_loop start (iter_at flds dest ((start + k) mod field_count flds)) tag =
     Some (True, iter_at flds dest ((start + k + d) mod field_count flds))"
  using d hit first
proof (induction d arbitrary: k)
  case 0
  let ?n = "field_count flds"
  have "(start + k) mod ?n < length flds" using start field_count_less [OF t]
    by (metis less_nat_zero_code mod_less_divisor order.strict_trans zero_less_iff_neq_zero)
  with 0 show ?case
    by (subst iter_find_loop.simps) (simp add: nth_opt_def field_matches_def)
next
  case (Suc d)
  let ?n = "field_count flds"
  let ?i = "(start + k) mod ?n"
  have n: "0 < ?n" using start by simp
  then have i: "?i < ?n" by simp
  then have len: "?i < length flds" using field_count_less [OF t] by simp
  have miss: "\<not> field_matches flds tag ?i" using Suc.prems(3) by (metis add.right_neutral zero_less_Suc)
  have nxt: "Suc ?i mod ?n = (start + Suc k) mod ?n" by (simp add: mod_Suc_eq)
  have k: "Suc k < ?n" using Suc.prems(1) by simp
  have ne: "(start + Suc k) mod ?n \<noteq> start" by (rule cycle_ne [OF start k])
  have "iter_find_loop start (iter_at flds dest ((start + Suc k) mod ?n)) tag =
      Some (True, iter_at flds dest ((start + Suc k + d) mod ?n))"
    using Suc.prems by (intro Suc.IH) auto
  with miss len ne show ?case
    by (subst iter_find_loop.simps)
      (auto simp: nth_opt_def iter_next_at [OF t i] nxt field_matches_def)
qed

lemma find_loop_miss:
  assumes t: "terminated flds" and start: "start < field_count flds"
    and k: "k < field_count flds"
    and miss: "\<forall>i<field_count flds. \<not> field_matches flds tag i"
  shows "iter_find_loop start (iter_at flds dest ((start + k) mod field_count flds)) tag =
     Some (False, iter_at flds dest start)"
  using k
proof (induction "field_count flds - Suc k" arbitrary: k)
  case 0
  let ?n = "field_count flds" and ?i = "(start + k) mod field_count flds"
  have i: "?i < ?n" using start by simp
  then have len: "?i < length flds" using field_count_less [OF t] by simp
  have "Suc k = ?n" using 0 by simp
  then have "Suc ?i mod ?n = start" using start by (simp add: mod_Suc_eq flip: add_Suc_right)
  with miss i len show ?case
    by (subst iter_find_loop.simps) (simp add: nth_opt_def iter_next_at [OF t i] field_matches_def)
next
  case (Suc d)
  let ?n = "field_count flds" and ?i = "(start + k) mod field_count flds"
  have i: "?i < ?n" using start by simp
  then have len: "?i < length flds" using field_count_less [OF t] by simp
  have nxt: "Suc ?i mod ?n = (start + Suc k) mod ?n" by (simp add: mod_Suc_eq)
  have k: "Suc k < ?n" using Suc.hyps(2) by simp
  have "iter_find_loop start (iter_at flds dest ((start + Suc k) mod ?n)) tag =
      Some (False, iter_at flds dest start)"
    using Suc.hyps k by (intro Suc.hyps(1)) auto
  with miss i len show ?case
    by (subst iter_find_loop.simps)
      (simp add: nth_opt_def iter_next_at [OF t i] nxt field_matches_def)
qed

text \<open>
  The search returns for every tag, and finds an entry exactly if the table has one: the
  first in cyclic order from where the iterator is, or else it is back where it was.
\<close>

lemma iter_find_miss:
  assumes t: "terminated flds" and i: "i < field_count flds"
    and miss: "\<forall>j<field_count flds. \<not> field_matches flds tag j"
  shows "pb_field_iter_find (iter_at flds dest i) tag = Some (False, iter_at flds dest i)"
  using find_loop_miss [OF t i _ miss, of 0 dest] i by (simp add: pb_field_iter_find_def)

lemma iter_find_hit:
  assumes t: "terminated flds" and i: "i < field_count flds"
    and j: "j < field_count flds" "field_matches flds tag j"
  obtains d where "d < field_count flds" "field_matches flds tag ((i + d) mod field_count flds)"
    "\<forall>e<d. \<not> field_matches flds tag ((i + e) mod field_count flds)"
    "pb_field_iter_find (iter_at flds dest i) tag =
       Some (True, iter_at flds dest ((i + d) mod field_count flds))"
proof -
  let ?n = "field_count flds"
  define d where "d = (LEAST d. field_matches flds tag ((i + d) mod ?n))"
  have "(i + (j + ?n - i)) mod ?n = j" using i j(1) by simp
  have ex: "\<exists>d<?n. field_matches flds tag ((i + d) mod ?n)"
  proof (rule exI [of _ "(j + ?n - i) mod ?n"], intro conjI)
    show "(j + ?n - i) mod ?n < ?n" using i by simp
    have "(i + (j + ?n - i) mod ?n) mod ?n = j"
      using i j(1) by (simp add: mod_add_right_eq)
    then show "field_matches flds tag ((i + (j + ?n - i) mod ?n) mod ?n)" using j(2) by simp
  qed
  then obtain d' where d': "d' < ?n" "field_matches flds tag ((i + d') mod ?n)" by blast
  have hit: "field_matches flds tag ((i + d) mod ?n)" unfolding d_def using d'(2) by (rule LeastI)
  have "d \<le> d'" unfolding d_def using d'(2) by (rule Least_le)
  with d' have d: "d < ?n" by simp
  have first: "\<forall>e<d. \<not> field_matches flds tag ((i + e) mod ?n)"
    unfolding d_def using not_less_Least by blast
  have "pb_field_iter_find (iter_at flds dest i) tag = Some (True, iter_at flds dest ((i + d) mod ?n))"
    using find_loop_hit [OF t i, of d 0 tag dest] d hit first i by (simp add: pb_field_iter_find_def)
  with d hit first show ?thesis by (rule that)
qed

section \<open>Tables the macros build\<close>

text \<open>
  An entry of a message description, as the generator writes it: an ordinary field, a static
  array without a count, the first member of a oneof, or a further member of the same oneof.
\<close>

datatype pb_decl =
    D_FIELD "32 word" proto_type pb_rules pb_alloc pb_member nat
  | D_FIXED_COUNT "32 word" proto_type pb_member nat
  | D_ONEOF "32 word" proto_type pb_oneof_alloc pb_member nat
  | D_ONEOF_NEXT "32 word" proto_type pb_oneof_alloc pb_member nat

fun d_member :: "pb_decl \<Rightarrow> pb_member" where
  "d_member (D_FIELD _ _ _ _ m _) = m"
| "d_member (D_FIXED_COUNT _ _ m _) = m"
| "d_member (D_ONEOF _ _ _ m _) = m"
| "d_member (D_ONEOF_NEXT _ _ _ m _) = m"

fun d_entry :: "pb_placement \<Rightarrow> pb_member \<Rightarrow> pb_decl \<Rightarrow> pb_field" where
  "d_entry pl prev (D_FIELD tag ty r a m p) = PB_FIELD tag ty r a pl m prev p"
| "d_entry pl prev (D_FIXED_COUNT tag ty m p) = PB_REPEATED_FIXED_COUNT tag ty pl m prev p"
| "d_entry pl prev (D_ONEOF tag ty a m p) = PB_ONEOF_FIELD tag ty a pl m prev p"
| "d_entry pl prev (D_ONEOF_NEXT tag ty a m p) = PB_ONEOF_FIELD tag ty a PB_DATAOFFSET_UNION m prev p"

definition message_table :: "pb_decl list \<Rightarrow> pb_field list" where
  "message_table ds =
     map (\<lambda>i. d_entry (if i = 0 then PB_DATAOFFSET_FIRST else PB_DATAOFFSET_OTHER)
                (d_member (ds ! (i - 1))) (ds ! i)) [0..<length ds] @ [PB_LAST_FIELD]"

text \<open>What C guarantees of the members and the generator of the entries.\<close>

fun wf_decl :: "pb_decl \<Rightarrow> bool" where
  "wf_decl (D_FIELD tag ty r a m p) \<longleftrightarrow> tag \<noteq> 0 \<and> r \<noteq> R_OPTEXT \<and>
     (a = A_POINTER \<longrightarrow> m_size m = SIZEOF_PTR) \<and>
     (r = R_REPEATED \<and> a = A_STATIC \<longrightarrow> m_elem_size m dvd m_size m)"
| "wf_decl (D_FIXED_COUNT tag ty m p) \<longleftrightarrow> tag \<noteq> 0 \<and> m_elem_size m dvd m_size m"
| "wf_decl (D_ONEOF tag ty a m p) \<longleftrightarrow> tag \<noteq> 0 \<and> (a = O_POINTER \<longrightarrow> m_size m = SIZEOF_PTR)"
| "wf_decl (D_ONEOF_NEXT tag ty a m p) \<longleftrightarrow> tag \<noteq> 0 \<and> (a = O_POINTER \<longrightarrow> m_size m = SIZEOF_PTR)"

fun follows :: "pb_decl \<Rightarrow> pb_decl \<Rightarrow> bool" where
  "follows d (D_ONEOF_NEXT tag ty a m p) \<longleftrightarrow>
     (case d of D_ONEOF _ _ _ m' _ \<Rightarrow> m_offset m = m_offset m' \<and> m_aux_offset m = m_aux_offset m'
      | D_ONEOF_NEXT _ _ _ m' _ \<Rightarrow> m_offset m = m_offset m' \<and> m_aux_offset m = m_aux_offset m'
      | _ \<Rightarrow> False)"
| "follows d d' \<longleftrightarrow> m_offset (d_member d) + m_size (d_member d) \<le> m_offset (d_member d')"

definition wf_layout :: "pb_decl list \<Rightarrow> bool" where
  "wf_layout ds \<longleftrightarrow> ds \<noteq> [] \<and> (\<forall>i<length ds. wf_decl (ds ! i) \<and> m_offset (d_member (ds ! i)) < 2 ^ 31) \<and>
     (\<forall>i. Suc i < length ds \<longrightarrow> follows (ds ! i) (ds ! Suc i)) \<and>
     (case ds ! 0 of D_ONEOF_NEXT _ _ _ _ _ \<Rightarrow> False | _ \<Rightarrow> True)"

lemma macro_types [simp]:
  "PB_ATYPE (PB_LTYPE_MAP ty) = 0" "PB_HTYPE (PB_LTYPE_MAP ty) = 0"
  "PB_ATYPE (0x10 OR PB_LTYPE_MAP ty) = 0" "PB_HTYPE (0x10 OR PB_LTYPE_MAP ty) = 0x10"
  "PB_ATYPE (0x20 OR PB_LTYPE_MAP ty) = 0" "PB_HTYPE (0x20 OR PB_LTYPE_MAP ty) = 0x20"
  "PB_ATYPE (0x30 OR PB_LTYPE_MAP ty) = 0" "PB_HTYPE (0x30 OR PB_LTYPE_MAP ty) = 0x30"
  "PB_ATYPE (0x80 OR PB_LTYPE_MAP ty) = 0x80" "PB_HTYPE (0x80 OR PB_LTYPE_MAP ty) = 0"
  "PB_ATYPE (0x80 OR 0x10 OR PB_LTYPE_MAP ty) = 0x80" "PB_HTYPE (0x80 OR 0x10 OR PB_LTYPE_MAP ty) = 0x10"
  "PB_ATYPE (0x80 OR 0x20 OR PB_LTYPE_MAP ty) = 0x80" "PB_HTYPE (0x80 OR 0x20 OR PB_LTYPE_MAP ty) = 0x20"
  "PB_ATYPE (0x80 OR 0x30 OR PB_LTYPE_MAP ty) = 0x80" "PB_HTYPE (0x80 OR 0x30 OR PB_LTYPE_MAP ty) = 0x30"
  "PB_ATYPE (0x40 OR PB_LTYPE_MAP ty) = 0x40" "PB_HTYPE (0x40 OR PB_LTYPE_MAP ty) = 0"
  "PB_ATYPE (0x40 OR 0x10 OR PB_LTYPE_MAP ty) = 0x40" "PB_HTYPE (0x40 OR 0x10 OR PB_LTYPE_MAP ty) = 0x10"
  "PB_ATYPE (0x40 OR 0x20 OR PB_LTYPE_MAP ty) = 0x40" "PB_HTYPE (0x40 OR 0x20 OR PB_LTYPE_MAP ty) = 0x20"
  by (cases ty; simp add: PB_ATYPE_def PB_HTYPE_def)+

lemmas macro_defs = PB_FIELD_def PB_REPEATED_FIXED_COUNT_def PB_ONEOF_FIELD_def
  PB_REQUIRED_STATIC_def PB_OPTIONAL_STATIC_def PB_SINGULAR_STATIC_def PB_REPEATED_STATIC_def
  PB_REQUIRED_POINTER_def PB_OPTIONAL_POINTER_def PB_SINGULAR_POINTER_def PB_REPEATED_POINTER_def
  PB_REQUIRED_CALLBACK_def PB_OPTIONAL_CALLBACK_def PB_SINGULAR_CALLBACK_def
  PB_REPEATED_CALLBACK_def PB_ONEOF_STATIC_def PB_ONEOF_POINTER_def PB_OPTEXT_POINTER_def
  PB_OPTEXT_CALLBACK_def mk_field_def pb_membersize_def pb_arraysize_def

text \<open>The iterator steps over an entry by the size of its member.\<close>

lemma entry_size: "wf_decl d \<Longrightarrow> prev_field_size (d_entry pl prev d) = m_size (d_member d)"
proof (cases d)
  case (D_FIELD tag ty r a m p)
  assume "wf_decl d"
  with D_FIELD show ?thesis
    by (cases r; cases a) (simp_all add: prev_field_size_def macro_defs)
next
  case (D_ONEOF tag ty a m p)
  assume "wf_decl d"
  with D_ONEOF show ?thesis by (cases a) (simp_all add: prev_field_size_def macro_defs)
next
  case (D_ONEOF_NEXT tag ty a m p)
  assume "wf_decl d"
  with D_ONEOF_NEXT show ?thesis by (cases a) (simp_all add: prev_field_size_def macro_defs)
qed (simp add: prev_field_size_def macro_defs)

fun is_oneof :: "pb_decl \<Rightarrow> bool" where
  "is_oneof (D_ONEOF _ _ _ _ _) = True"
| "is_oneof (D_ONEOF_NEXT _ _ _ _ _) = True"
| "is_oneof _ = False"

fun is_oneof_next :: "pb_decl \<Rightarrow> bool" where
  "is_oneof_next (D_ONEOF_NEXT _ _ _ _ _) = True"
| "is_oneof_next _ = False"

lemma entry_oneof: "wf_decl d \<Longrightarrow> PB_HTYPE (f_type (d_entry pl prev d)) = PB_HTYPE_ONEOF \<longleftrightarrow> is_oneof d"
proof (cases d)
  case (D_FIELD tag ty r a m p)
  assume "wf_decl d"
  with D_FIELD show ?thesis by (cases r; cases a) (simp_all add: macro_defs)
next
  case (D_ONEOF tag ty a m p)
  then show ?thesis by (cases a) (simp_all add: macro_defs)
next
  case (D_ONEOF_NEXT tag ty a m p)
  then show ?thesis by (cases a) (simp_all add: macro_defs)
qed (simp add: macro_defs)

lemma entry_offset:
  "wf_decl d \<Longrightarrow> f_data_offset (d_entry pl prev d) =
     (if is_oneof_next d then PB_SIZE_MAX else pb_dataoffset pl (d_member d) prev)"
proof (cases d)
  case (D_FIELD tag ty r a m p)
  assume "wf_decl d"
  with D_FIELD show ?thesis by (cases r; cases a) (simp_all add: macro_defs)
next
  case (D_ONEOF tag ty a m p)
  then show ?thesis by (cases a) (simp_all add: macro_defs)
next
  case (D_ONEOF_NEXT tag ty a m p)
  then show ?thesis by (cases a) (simp_all add: macro_defs pb_dataoffset_def)
qed (simp add: macro_defs)

lemma entry_tag: "wf_decl d \<Longrightarrow> f_tag (d_entry pl prev d) \<noteq> 0"
proof (cases d)
  case (D_FIELD tag ty r a m p)
  assume "wf_decl d"
  with D_FIELD show ?thesis by (cases r; cases a) (simp_all add: macro_defs)
next
  case (D_ONEOF tag ty a m p)
  assume "wf_decl d"
  with D_ONEOF show ?thesis by (cases a) (simp_all add: macro_defs)
next
  case (D_ONEOF_NEXT tag ty a m p)
  assume "wf_decl d"
  with D_ONEOF_NEXT show ?thesis by (cases a) (simp_all add: macro_defs)
qed (simp add: macro_defs)

lemma follows_next_iff:
  "follows d d' \<Longrightarrow> is_oneof_next d' \<Longrightarrow> is_oneof d \<and> m_offset (d_member d') = m_offset (d_member d)
     \<and> m_aux_offset (d_member d') = m_aux_offset (d_member d)"
  by (cases d'; cases d) auto

lemma follows_other:
  "follows d d' \<Longrightarrow> \<not> is_oneof_next d' \<Longrightarrow>
     m_offset (d_member d) + m_size (d_member d) \<le> m_offset (d_member d')"
  by (cases d') auto

lemma dataoffset_other_eq:
  assumes "m_offset m2 + m_size m2 \<le> m_offset m1" and "m_offset m1 < 2 ^ 31"
  shows "dataoffset_other m1 m2 = m_offset m1 - (m_offset m2 + m_size m2)"
    and "dataoffset_other m1 m2 \<noteq> PB_SIZE_MAX"
proof -
  have "(int (m_offset m1) - int (m_offset m2) - int (m_size m2)) mod 2 ^ 32 =
      int (m_offset m1 - (m_offset m2 + m_size m2))"
    using assms by (simp add: mod_pos_pos_trivial)
  then show "dataoffset_other m1 m2 = m_offset m1 - (m_offset m2 + m_size m2)"
    by (simp add: dataoffset_other_def pb_membersize_def)
  with assms show "dataoffset_other m1 m2 \<noteq> PB_SIZE_MAX" by simp
qed

lemma table_nth:
  "i < length ds \<Longrightarrow> message_table ds ! i =
     d_entry (if i = 0 then PB_DATAOFFSET_FIRST else PB_DATAOFFSET_OTHER) (d_member (ds ! (i - 1))) (ds ! i)"
  by (simp add: message_table_def nth_append)

lemma table_terminated: "terminated (message_table ds)"
  by (simp add: message_table_def terminated_def PB_LAST_FIELD_def)

lemma table_count:
  assumes "wf_layout ds"
  shows "field_count (message_table ds) = length ds"
proof -
  have "f_tag f \<noteq> 0" if "f \<in> set (butlast (message_table ds))" for f
    using that assms by (auto simp: message_table_def wf_layout_def entry_tag)
  then have "takeWhile (\<lambda>f. f_tag f \<noteq> 0) (butlast (message_table ds) @ [PB_LAST_FIELD]) =
      butlast (message_table ds) @ takeWhile (\<lambda>f. f_tag f \<noteq> 0) [PB_LAST_FIELD]"
    by (rule takeWhile_append2)
  moreover have "butlast (message_table ds) @ [PB_LAST_FIELD] = message_table ds"
    by (simp add: message_table_def)
  ultimately have "takeWhile (\<lambda>f. f_tag f \<noteq> 0) (message_table ds) = butlast (message_table ds)"
    by (simp add: PB_LAST_FIELD_def)
  then show ?thesis by (simp add: field_count_def message_table_def)
qed

lemma table_same_union:
  assumes "wf_layout ds" and "Suc i < length ds"
  shows "same_union (message_table ds ! i) (message_table ds ! Suc i) = is_oneof_next (ds ! Suc i)"
proof -
  have d: "wf_decl (ds ! i)" "wf_decl (ds ! Suc i)" "follows (ds ! i) (ds ! Suc i)"
    "m_offset (d_member (ds ! Suc i)) < 2 ^ 31"
    using assms by (auto simp: wf_layout_def)
  show ?thesis
  proof (cases "is_oneof_next (ds ! Suc i)")
    case True
    moreover have "is_oneof (ds ! Suc i)" using True by (cases "ds ! Suc i") auto
    ultimately show ?thesis using assms(2) d follows_next_iff [OF d(3) True]
      by (simp add: same_union_def table_nth entry_oneof entry_offset)
  next
    case False
    have "f_data_offset (message_table ds ! Suc i) \<noteq> PB_SIZE_MAX"
      using assms(2) d False dataoffset_other_eq(2) [OF follows_other [OF d(3) False] d(4)]
      by (simp add: table_nth entry_offset pb_dataoffset_def)
    with False show ?thesis by (simp add: same_union_def)
  qed
qed

text \<open>
  The table describes the struct it was made for: at entry \<open>i\<close> the data pointer is the
  member's address.
\<close>

lemma table_data_at:
  assumes "wf_layout ds" and "i < length ds"
  shows "data_at (message_table ds) i = m_offset (d_member (ds ! i))"
  using assms(2)
proof (induction i)
  case 0
  with assms(1) have "wf_decl (ds ! 0)" "\<not> is_oneof_next (ds ! 0)" "m_offset (d_member (ds ! 0)) < 2 ^ 31"
    by (auto simp: wf_layout_def split: pb_decl.splits)
  with 0 show ?case by (simp add: table_nth entry_offset pb_dataoffset_def dataoffset_first_def)
next
  case (Suc i)
  have d: "wf_decl (ds ! i)" "wf_decl (ds ! Suc i)" "follows (ds ! i) (ds ! Suc i)"
    "m_offset (d_member (ds ! Suc i)) < 2 ^ 31"
    using assms Suc.prems by (auto simp: wf_layout_def)
  have IH: "data_at (message_table ds) i = m_offset (d_member (ds ! i))" using Suc by simp
  show ?case
  proof (cases "is_oneof_next (ds ! Suc i)")
    case True
    with IH follows_next_iff [OF d(3) True] show ?thesis
      by (simp add: table_same_union [OF assms(1) Suc.prems])
  next
    case False
    then have "data_at (message_table ds) (Suc i) = data_at (message_table ds) i +
        prev_field_size (message_table ds ! i) + f_data_offset (message_table ds ! Suc i)"
      by (simp add: table_same_union [OF assms(1) Suc.prems])
    also have "\<dots> = m_offset (d_member (ds ! i)) + m_size (d_member (ds ! i)) +
        dataoffset_other (d_member (ds ! Suc i)) (d_member (ds ! i))"
      using IH d Suc.prems False
      by (simp add: table_nth entry_offset entry_size pb_dataoffset_def)
    also have "\<dots> = m_offset (d_member (ds ! Suc i))"
      using dataoffset_other_eq(1) [OF follows_other [OF d(3) False] d(4)]
        follows_other [OF d(3) False] by simp
    finally show ?thesis .
  qed
qed

text \<open>
  The entries that have a \<open>has_\<close>, \<open>_count\<close> or \<open>which_\<close> companion; for these the size pointer
  is the companion's address.
\<close>

fun has_companion :: "pb_decl \<Rightarrow> bool" where
  "has_companion (D_FIELD _ _ r a _ _) \<longleftrightarrow>
     r = R_OPTIONAL \<and> a = A_STATIC \<or> r = R_REPEATED \<and> a \<noteq> A_CALLBACK"
| "has_companion (D_FIXED_COUNT _ _ _ _) = False"
| "has_companion _ = True"

lemma entry_companion:
  "has_companion d \<Longrightarrow> f_size_offset (d_entry pl prev d) =
     int (m_aux_offset (d_member d)) - int (m_offset (d_member d))"
proof (cases d)
  case (D_FIELD tag ty r a m p)
  assume "has_companion d"
  with D_FIELD show ?thesis by (cases r; cases a) (simp_all add: macro_defs pb_delta_def)
next
  case (D_ONEOF tag ty a m p)
  then show ?thesis by (cases a) (simp_all add: macro_defs pb_delta_def)
next
  case (D_ONEOF_NEXT tag ty a m p)
  then show ?thesis by (cases a) (simp_all add: macro_defs pb_delta_def)
qed simp

lemma oneof_companion: "is_oneof d \<Longrightarrow> has_companion d"
  by (cases d) auto

lemma table_size_owner:
  assumes "wf_layout ds" and "i < length ds" and "has_companion (ds ! i)"
  shows "f_size_offset (message_table ds ! size_owner (message_table ds) i) =
     int (m_aux_offset (d_member (ds ! i))) - int (m_offset (d_member (ds ! i)))"
  using assms(2,3)
proof (induction i)
  case 0
  then show ?case by (simp add: table_nth entry_companion)
next
  case (Suc i)
  show ?case
  proof (cases "is_oneof_next (ds ! Suc i)")
    case True
    have f: "follows (ds ! i) (ds ! Suc i)" using assms Suc.prems by (auto simp: wf_layout_def)
    note n = follows_next_iff [OF f True]
    with Suc oneof_companion [of "ds ! i"] True show ?thesis
      by (simp add: table_same_union [OF assms(1) Suc.prems(1)])
  next
    case False
    with Suc.prems show ?thesis
      by (simp only: size_owner.simps table_same_union [OF assms(1) Suc.prems(1)] if_False)
        (simp add: table_nth entry_companion)
  qed
qed

lemma table_size_at:
  assumes "wf_layout ds" and "i < length ds" and "has_companion (ds ! i)"
  shows "size_at (message_table ds) dest i = dest + m_aux_offset (d_member (ds ! i))"
  using table_size_owner [OF assms] table_data_at [OF assms(1,2)]
  by (simp add: size_at_def ptr_add_def)

end
