(* ===== verification/PbRelease.thy ===== *)
theory PbRelease
  imports PbIstream PbCommon
begin

text \<open>
  The parts of \<open>pb_decode.c\<close> that set up and take down a message structure: the iterator for
  an extension, \<open>pb_field_set_to_default\<close>, \<open>pb_message_set_to_defaults\<close>,
  \<open>pb_release_single_field\<close>, \<open>pb_release\<close>, \<open>pb_release_union_field\<close>, \<open>allocate_field\<close> and
  \<open>initialize_pointer_field\<close>. They recurse through submessages and extensions; the first
  argument of the recursive functions bounds the nesting, and their bodies take the
  recursive call on a field as the argument \<open>rf\<close>.
\<close>

section \<open>Counters and flags behind pSize\<close>

text \<open>
  \<open>*(pb_size_t*)iter->pSize\<close>: in the struct, or the decoder's local \<open>fixed_count_size\<close>, whose
  value is \<open>fc\<close>.
\<close>

definition read_size :: "cstate \<Rightarrow> nat \<Rightarrow> psize \<Rightarrow> nat option" where
  "read_size s fc pSize = (case pSize of PSMem a \<Rightarrow> load_u32 s a | PSLocal \<Rightarrow> Some fc)"

definition write_size :: "cstate \<Rightarrow> nat \<Rightarrow> psize \<Rightarrow> nat \<Rightarrow> (cstate \<times> nat) option" where
  "write_size s fc pSize v =
     (case pSize of
        PSMem a \<Rightarrow> do { s \<leftarrow> store_u32 s a v; Some (s, fc) }
      | PSLocal \<Rightarrow> Some (s, v mod 2 ^ 32))"

definition load_size :: "cstate \<Rightarrow> psize \<Rightarrow> nat option" where
  "load_size s pSize = (case pSize of PSMem a \<Rightarrow> load_u32 s a | PSLocal \<Rightarrow> None)"

definition store_size :: "cstate \<Rightarrow> psize \<Rightarrow> nat \<Rightarrow> cstate option" where
  "store_size s pSize v = (case pSize of PSMem a \<Rightarrow> store_u32 s a v | PSLocal \<Rightarrow> None)"

definition store_has :: "cstate \<Rightarrow> psize \<Rightarrow> bool \<Rightarrow> cstate option" where
  "store_has s pSize v = (case pSize of PSMem a \<Rightarrow> store_bool s a v | PSLocal \<Rightarrow> None)"

definition memset0 :: "cstate \<Rightarrow> nat \<Rightarrow> nat \<Rightarrow> cstate option" where
  "memset0 s p n = store_bytes s p (replicate n 0)"

text \<open>\<open>iter.pSize == iter.pData\<close>, and \<open>*iter->pos\<close>.\<close>

definition size_is_data :: "pb_field_iter \<Rightarrow> bool" where
  "size_is_data iter \<longleftrightarrow> it_pSize iter = PSMem (it_pData iter)"

definition it_field :: "pb_field_iter \<Rightarrow> pb_field option" where
  "it_field iter = nth_opt (it_start iter) (it_pos iter)"

definition iter_from_extension :: "pb_env \<Rightarrow> cstate \<Rightarrow> nat \<Rightarrow> pb_field_iter option" where
  "iter_from_extension env s extension =
     do { type \<leftarrow> load_ptr s (extension + EXT_TYPE);
          arg \<leftarrow> load_ptr s (type + EXTTYPE_ARG);
          dest \<leftarrow> load_ptr s (extension + EXT_DEST);
          (_, iter) \<leftarrow> pb_field_iter_begin (descr env arg) dest;
          field \<leftarrow> nth_opt (descr env arg) 0;
          Some (iter\<lparr>it_pData := (if PB_ATYPE (f_type field) = PB_ATYPE_POINTER
                                  then extension + EXT_DEST else dest),
                     it_pSize := PSMem (extension + EXT_FOUND)\<rparr>) }"

text \<open>\<open>do { f(&iter); } while (pb_field_iter_next(&iter));\<close>\<close>

partial_function (option) each_field_loop ::
  "(cstate \<Rightarrow> pb_field_iter \<Rightarrow> cstate option) \<Rightarrow> cstate \<Rightarrow> pb_field_iter \<Rightarrow> cstate option" where
  "each_field_loop f s iter =
     do { s \<leftarrow> f s iter;
          (more, iter) \<leftarrow> pb_field_iter_next iter;
          if more then each_field_loop f s iter else Some s }"

section \<open>Default values\<close>

definition message_set_to_defaults :: "(cstate \<Rightarrow> pb_field_iter \<Rightarrow> cstate option) \<Rightarrow>
    cstate \<Rightarrow> pb_field list \<Rightarrow> nat \<Rightarrow> cstate option" where
  "message_set_to_defaults rf s flds dest_struct =
     do { (some, iter) \<leftarrow> pb_field_iter_begin flds dest_struct;
          if \<not> some then Some s else each_field_loop rf s iter }"

partial_function (option) default_extension_loop :: "pb_env \<Rightarrow>
    (cstate \<Rightarrow> pb_field_iter \<Rightarrow> cstate option) \<Rightarrow> cstate \<Rightarrow> nat \<Rightarrow> cstate option" where
  "default_extension_loop env rf s ext =
     (if ext = 0 then Some s
      else do { s \<leftarrow> store_bool s (ext + EXT_FOUND) False;
                ext_iter \<leftarrow> iter_from_extension env s ext;
                s \<leftarrow> rf s ext_iter;
                next \<leftarrow> load_ptr s (ext + EXT_NEXT);
                default_extension_loop env rf s next })"

text \<open>\<open>init_data\<close> and the code under it.\<close>

definition set_data_to_default :: "pb_env \<Rightarrow> (cstate \<Rightarrow> pb_field_iter \<Rightarrow> cstate option) \<Rightarrow>
    cstate \<Rightarrow> pb_field \<Rightarrow> nat \<Rightarrow> cstate option" where
  "set_data_to_default env rf s pos pData =
     (if PB_LTYPE (f_type pos) = PB_LTYPE_SUBMESSAGE
      then message_set_to_defaults rf s (descr env (f_ptr pos)) pData
      else if f_ptr pos \<noteq> 0
      then do { bs \<leftarrow> load_bytes s (f_ptr pos) (f_data_size pos); store_bytes s pData bs }
      else memset0 s pData (f_data_size pos))"

definition set_to_default_body :: "pb_env \<Rightarrow> (cstate \<Rightarrow> pb_field_iter \<Rightarrow> cstate option) \<Rightarrow>
    cstate \<Rightarrow> pb_field_iter \<Rightarrow> cstate option" where
  "set_to_default_body env rf s iter =
     do { pos \<leftarrow> it_field iter;
          let ty = f_type pos;
          let ht = PB_HTYPE ty;
          let pData = it_pData iter;
          if PB_LTYPE ty = PB_LTYPE_EXTENSION then
            do { ext \<leftarrow> load_ptr s pData; default_extension_loop env rf s ext }
          else if PB_ATYPE ty = PB_ATYPE_STATIC then
            (if ht = PB_HTYPE_OPTIONAL \<and> \<not> size_is_data iter then
               do { s \<leftarrow> store_has s (it_pSize iter) False; set_data_to_default env rf s pos pData }
             else if ht = PB_HTYPE_REPEATED \<or> ht = PB_HTYPE_ONEOF then store_size s (it_pSize iter) 0
             else set_data_to_default env rf s pos pData)
          else if PB_ATYPE ty = PB_ATYPE_POINTER then
            do { s \<leftarrow> store_ptr s pData 0;
                 if ht = PB_HTYPE_REPEATED \<or> ht = PB_HTYPE_ONEOF
                 then store_size s (it_pSize iter) 0 else Some s }
          else Some s }"

primrec pb_field_set_to_default :: "nat \<Rightarrow> pb_env \<Rightarrow> cstate \<Rightarrow> pb_field_iter \<Rightarrow> cstate option" where
  "pb_field_set_to_default 0 env s iter = None"
| "pb_field_set_to_default (Suc d) env s iter =
     set_to_default_body env (pb_field_set_to_default d env) s iter"

definition pb_message_set_to_defaults ::
  "nat \<Rightarrow> pb_env \<Rightarrow> cstate \<Rightarrow> pb_field list \<Rightarrow> nat \<Rightarrow> cstate option" where
  "pb_message_set_to_defaults d env s flds dest_struct =
     message_set_to_defaults (pb_field_set_to_default d env) s flds dest_struct"

section \<open>Releasing\<close>

definition release_with :: "(cstate \<Rightarrow> pb_field_iter \<Rightarrow> cstate option) \<Rightarrow>
    cstate \<Rightarrow> pb_field list \<Rightarrow> nat \<Rightarrow> cstate option" where
  "release_with rf s flds dest_struct =
     (if dest_struct = 0 then Some s
      else do { (some, iter) \<leftarrow> pb_field_iter_begin flds dest_struct;
                if \<not> some then Some s else each_field_loop rf s iter })"

partial_function (option) release_extension_loop :: "pb_env \<Rightarrow>
    (cstate \<Rightarrow> pb_field_iter \<Rightarrow> cstate option) \<Rightarrow> cstate \<Rightarrow> nat \<Rightarrow> cstate option" where
  "release_extension_loop env rf s ext =
     (if ext = 0 then Some s
      else do { ext_iter \<leftarrow> iter_from_extension env s ext;
                s \<leftarrow> rf s ext_iter;
                next \<leftarrow> load_ptr s (ext + EXT_NEXT);
                release_extension_loop env rf s next })"

text \<open>The two \<open>while (count--)\<close> loops.\<close>

primrec release_items :: "(cstate \<Rightarrow> nat \<Rightarrow> cstate option) \<Rightarrow> nat \<Rightarrow> cstate \<Rightarrow> nat \<Rightarrow> nat \<Rightarrow> cstate option" where
  "release_items rel data_size s pItem 0 = Some s"
| "release_items rel data_size s pItem (Suc count) =
     do { s \<leftarrow> rel s pItem; release_items rel data_size s (pItem + data_size) count }"

primrec free_items :: "cstate \<Rightarrow> nat \<Rightarrow> nat \<Rightarrow> cstate option" where
  "free_items s pItem 0 = Some s"
| "free_items s pItem (Suc count) =
     do { p \<leftarrow> load_ptr s pItem;
          s \<leftarrow> c_free s p;
          s \<leftarrow> store_ptr s pItem 0;
          free_items s (pItem + SIZEOF_PTR) count }"

definition release_submessages :: "pb_env \<Rightarrow> (cstate \<Rightarrow> pb_field_iter \<Rightarrow> cstate option) \<Rightarrow>
    cstate \<Rightarrow> pb_field \<Rightarrow> pb_field_iter \<Rightarrow> cstate option" where
  "release_submessages env rf s pos iter =
     (let ty = f_type pos; static = (PB_ATYPE ty = PB_ATYPE_STATIC) in
      do { pItem \<leftarrow> (if PB_ATYPE ty = PB_ATYPE_POINTER then load_ptr s (it_pData iter)
                     else Some (it_pData iter));
           count \<leftarrow> (if PB_HTYPE ty = PB_HTYPE_REPEATED then
                       do { count \<leftarrow> (if static \<and> size_is_data iter then Some (f_array_size pos)
                                      else load_size s (it_pSize iter));
                            Some (if static \<and> count > f_array_size pos then f_array_size pos else count) }
                     else Some 1);
           if pItem \<noteq> 0
           then release_items (\<lambda>s p. release_with rf s (descr env (f_ptr pos)) p)
                  (f_data_size pos) s pItem count
           else Some s })"

definition release_pointer :: "cstate \<Rightarrow> pb_field \<Rightarrow> pb_field_iter \<Rightarrow> cstate option" where
  "release_pointer s pos iter =
     (let ty = f_type pos in
      do { s \<leftarrow> (if PB_HTYPE ty = PB_HTYPE_REPEATED \<and>
                    (PB_LTYPE ty = PB_LTYPE_STRING \<or> PB_LTYPE ty = PB_LTYPE_BYTES) then
                  do { pItem \<leftarrow> load_ptr s (it_pData iter);
                       count \<leftarrow> load_size s (it_pSize iter);
                       free_items s pItem count }
                 else Some s);
           s \<leftarrow> (if PB_HTYPE ty = PB_HTYPE_REPEATED then store_size s (it_pSize iter) 0 else Some s);
           p \<leftarrow> load_ptr s (it_pData iter);
           s \<leftarrow> c_free s p;
           store_ptr s (it_pData iter) 0 })"

definition release_field_body :: "pb_env \<Rightarrow> (cstate \<Rightarrow> pb_field_iter \<Rightarrow> cstate option) \<Rightarrow>
    cstate \<Rightarrow> pb_field_iter \<Rightarrow> cstate option" where
  "release_field_body env rf s iter =
     do { pos \<leftarrow> it_field iter;
          let ty = f_type pos;
          current \<leftarrow> (if PB_HTYPE ty = PB_HTYPE_ONEOF
                      then do { which \<leftarrow> load_size s (it_pSize iter); Some (which = unat (f_tag pos)) }
                      else Some True);
          if \<not> current then Some s
          else do {
            s \<leftarrow> (if PB_LTYPE ty = PB_LTYPE_EXTENSION
                  then do { ext \<leftarrow> load_ptr s (it_pData iter); release_extension_loop env rf s ext }
                  else if PB_LTYPE ty = PB_LTYPE_SUBMESSAGE then release_submessages env rf s pos iter
                  else Some s);
            if PB_ATYPE ty = PB_ATYPE_POINTER then release_pointer s pos iter else Some s } }"

primrec pb_release_single_field :: "nat \<Rightarrow> pb_env \<Rightarrow> cstate \<Rightarrow> pb_field_iter \<Rightarrow> cstate option" where
  "pb_release_single_field 0 env s iter = None"
| "pb_release_single_field (Suc d) env s iter =
     release_field_body env (pb_release_single_field d env) s iter"

definition pb_release :: "nat \<Rightarrow> pb_env \<Rightarrow> cstate \<Rightarrow> pb_field list \<Rightarrow> nat \<Rightarrow> cstate option" where
  "pb_release d env s flds dest_struct = release_with (pb_release_single_field d env) s flds dest_struct"

text \<open>The iterator is the caller's: it is returned as the call leaves it.\<close>

definition pb_release_union_field :: "(cstate \<Rightarrow> pb_field_iter \<Rightarrow> cstate option) \<Rightarrow>
    cstate \<Rightarrow> pb_istream \<Rightarrow> pb_field_iter \<Rightarrow> (bool \<times> cstate \<times> pb_istream \<times> pb_field_iter) option" where
  "pb_release_union_field rf s str iter =
     do { old_tag \<leftarrow> load_size s (it_pSize iter);
          pos \<leftarrow> it_field iter;
          let new_tag = f_tag pos;
          if old_tag = 0 then Some (True, s, str, iter)
          else if old_tag = unat new_tag then Some (True, s, str, iter)
          else do {
            (found, iter) \<leftarrow> pb_field_iter_find iter (of_nat old_tag);
            if \<not> found then Some (False, s, i_set_error str ''invalid union tag'', iter)
            else do {
              s \<leftarrow> rf s iter;
              (found, iter) \<leftarrow> pb_field_iter_find iter new_tag;
              if \<not> found then Some (False, s, i_set_error str ''iterator error'', iter)
              else Some (True, s, str, iter) } } }"

section \<open>Allocation\<close>

definition allocate_field :: "pb_env \<Rightarrow> cstate \<Rightarrow> pb_istream \<Rightarrow> nat \<Rightarrow> nat \<Rightarrow> nat \<Rightarrow> ires" where
  "allocate_field env s str pData data_size array_size =
     do { ptr \<leftarrow> load_ptr s pData;
          if data_size = 0 \<or> array_size = 0 then i_fail s str ''invalid size''
          else if (data_size \<ge> 2 ^ 32 \<or> array_size \<ge> 2 ^ 32) \<and>
                  (2 ^ 64 - 1) div array_size < data_size
          then i_fail s str ''size too large''
          else do {
            (ptr, s) \<leftarrow> c_realloc (e_alloc env) s ptr ((array_size * data_size) mod 2 ^ 64);
            if ptr = 0 then i_fail s str ''realloc failed''
            else do { s \<leftarrow> store_ptr s pData ptr; Some (True, s, str) } } }"

definition initialize_pointer_field :: "pb_env \<Rightarrow> (cstate \<Rightarrow> pb_field_iter \<Rightarrow> cstate option) \<Rightarrow>
    cstate \<Rightarrow> nat \<Rightarrow> pb_field \<Rightarrow> cstate option" where
  "initialize_pointer_field env rf s pItem pos =
     (if PB_LTYPE (f_type pos) = PB_LTYPE_STRING \<or> PB_LTYPE (f_type pos) = PB_LTYPE_BYTES
      then store_ptr s pItem 0
      else if PB_LTYPE (f_type pos) = PB_LTYPE_SUBMESSAGE
      then do { s \<leftarrow> memset0 s pItem (f_data_size pos);
                message_set_to_defaults rf s (descr env (f_ptr pos)) pItem }
      else Some s)"

end
