(* ===== verification/PbDecode.thy ===== *)
theory PbDecode
  imports PbRelease
begin

text \<open>
  The message decoder of \<open>pb_decode.c\<close>: the field decoders, the three ways a field can be
  stored, extensions, the main loop with its bookkeeping of required and fixed-count
  fields, and the entry points. \<open>pb_decode_noinit d\<close> decodes messages of nesting depth at
  most \<open>d\<close>; what it calls back for a submessage is passed in the record \<open>pb_rec\<close>.
\<close>

text \<open>
  What a field decoder may call recursively: \<open>pb_decode_noinit\<close>, \<open>pb_field_set_to_default\<close>
  and \<open>pb_release_single_field\<close>.
\<close>

record pb_rec =
  r_noinit :: "cstate \<Rightarrow> pb_istream \<Rightarrow> pb_field list \<Rightarrow> nat \<Rightarrow> ires"
  r_default :: "cstate \<Rightarrow> pb_field_iter \<Rightarrow> cstate option"
  r_release :: "cstate \<Rightarrow> pb_field_iter \<Rightarrow> cstate option"

type_synonym pb_decoder = "cstate \<Rightarrow> pb_istream \<Rightarrow> pb_field \<Rightarrow> nat \<Rightarrow> ires"

text \<open>\<open>pb_decode\<close>: defaults, the fields, and on failure the release of what was allocated.\<close>

definition decode_with :: "pb_rec \<Rightarrow> cstate \<Rightarrow> pb_istream \<Rightarrow> pb_field list \<Rightarrow> nat \<Rightarrow> ires" where
  "decode_with rec s str flds dest_struct =
     do { s \<leftarrow> message_set_to_defaults (r_default rec) s flds dest_struct;
          (status, s, str) \<leftarrow> r_noinit rec s str flds dest_struct;
          s \<leftarrow> (if \<not> status then release_with (r_release rec) s flds dest_struct else Some s);
          Some (status, s, str) }"

section \<open>Field decoders\<close>

text \<open>The destination pointer of a \<open>pb_read\<close>: null means skipping.\<close>

definition ibuf_at :: "nat \<Rightarrow> ibuf" where
  "ibuf_at p = (if p = 0 then INull else IMem p)"

definition read_into :: "pb_env \<Rightarrow> cstate \<Rightarrow> pb_istream \<Rightarrow> nat \<Rightarrow> nat \<Rightarrow> ires" where
  "read_into env s str p n =
     do { (ok, _, s, str) \<leftarrow> pb_read env s str (ibuf_at p) n; Some (ok, s, str) }"

text \<open>
  The assignment \<open>clamped = *(T*)dest = (T)v\<close> for a signed, or unsigned, T of
  \<open>data_size\<close> bytes: the memory after it and the value converted back to 64 bits.
\<close>

definition clamp_signed :: "nat \<Rightarrow> 64 word \<Rightarrow> 64 word option" where
  "clamp_signed data_size v =
     (if data_size = 8 then Some v
      else if data_size = 4 then Some (scast (ucast v :: 32 word))
      else if data_size = 2 then Some (scast (ucast v :: 16 word))
      else if data_size = 1 then Some (scast (ucast v :: 8 word))
      else None)"

definition clamp_unsigned :: "nat \<Rightarrow> 64 word \<Rightarrow> 64 word option" where
  "clamp_unsigned data_size v =
     (if data_size = 8 then Some v
      else if data_size = 4 then Some (ucast (ucast v :: 32 word))
      else if data_size = 2 then Some (ucast (ucast v :: 16 word))
      else if data_size = 1 then Some (ucast (ucast v :: 8 word))
      else None)"

definition store_clamped :: "cstate \<Rightarrow> pb_istream \<Rightarrow> nat \<Rightarrow> nat \<Rightarrow> 64 word option \<Rightarrow> 64 word \<Rightarrow> ires" where
  "store_clamped s str data_size dest clamped v =
     (case clamped of
        None \<Rightarrow> i_fail s str ''invalid data_size''
      | Some c \<Rightarrow>
          do { s \<leftarrow> store_uint data_size s dest (unat v);
               if c \<noteq> v then i_fail s str ''integer too large'' else Some (True, s, str) })"

definition pb_dec_varint :: "pb_env \<Rightarrow> pb_decoder" where
  "pb_dec_varint env s str field dest =
     do { (r, s, str) \<leftarrow> pb_decode_varint env s str;
          case r of
            None \<Rightarrow> Some (False, s, str)
          | Some value \<Rightarrow>
              (let svalue = (if f_data_size field = 8 then value else scast (ucast value :: 32 word))
               in store_clamped s str (f_data_size field) dest
                    (clamp_signed (f_data_size field) svalue) svalue) }"

definition pb_dec_uvarint :: "pb_env \<Rightarrow> pb_decoder" where
  "pb_dec_uvarint env s str field dest =
     do { (r, s, str) \<leftarrow> pb_decode_varint env s str;
          case r of
            None \<Rightarrow> Some (False, s, str)
          | Some value \<Rightarrow>
              store_clamped s str (f_data_size field) dest
                (clamp_unsigned (f_data_size field) value) value }"

definition pb_dec_svarint :: "pb_env \<Rightarrow> pb_decoder" where
  "pb_dec_svarint env s str field dest =
     do { (r, s, str) \<leftarrow> pb_decode_svarint env s str;
          case r of
            None \<Rightarrow> Some (False, s, str)
          | Some value \<Rightarrow>
              store_clamped s str (f_data_size field) dest
                (clamp_signed (f_data_size field) value) value }"

definition pb_dec_fixed32 :: "pb_env \<Rightarrow> pb_decoder" where
  "pb_dec_fixed32 env s str field dest = pb_decode_fixed32 env s str dest"

definition pb_dec_fixed64 :: "pb_env \<Rightarrow> pb_decoder" where
  "pb_dec_fixed64 env s str field dest = pb_decode_fixed64 env s str dest"

text \<open>\<open>size > PB_SIZE_MAX\<close> and \<open>size > alloc_size\<close> are tests on a 32-bit \<open>size\<close>.\<close>

definition pb_dec_bytes :: "pb_env \<Rightarrow> pb_decoder" where
  "pb_dec_bytes env s str field dest =
     do { (r, s, str) \<leftarrow> pb_decode_varint32 env s str;
          case r of
            None \<Rightarrow> Some (False, s, str)
          | Some sz \<Rightarrow>
              (let n = unat sz; alloc_size = PB_BYTES_ARRAY_T_ALLOCSIZE n;
                   store = (\<lambda>s str bdest.
                     do { s \<leftarrow> store_u32 s bdest n; read_into env s str (bdest + 4) n })
               in if n > PB_SIZE_MAX then i_fail s str ''bytes overflow''
                  else if n > alloc_size then i_fail s str ''size too large''
                  else if PB_ATYPE (f_type field) = PB_ATYPE_POINTER then
                    then_ok (allocate_field env s str dest alloc_size 1) (\<lambda>s str.
                      do { bdest \<leftarrow> load_ptr s dest; store s str bdest })
                  else if alloc_size > f_data_size field then i_fail s str ''bytes overflow''
                  else store s str dest) }"

text \<open>\<open>size + 1\<close> is a 32-bit sum.\<close>

definition pb_dec_string :: "pb_env \<Rightarrow> pb_decoder" where
  "pb_dec_string env s str field dest =
     do { (r, s, str) \<leftarrow> pb_decode_varint32 env s str;
          case r of
            None \<Rightarrow> Some (False, s, str)
          | Some sz \<Rightarrow>
              (let n = unat sz; alloc_size = unat (sz + 1);
                   store = (\<lambda>s str dest.
                     do { (status, s, str) \<leftarrow> read_into env s str dest n;
                          s \<leftarrow> store_bytes s (dest + n) [0];
                          Some (status, s, str) })
               in if alloc_size < n then i_fail s str ''size too large''
                  else if PB_ATYPE (f_type field) = PB_ATYPE_POINTER then
                    then_ok (allocate_field env s str dest alloc_size 1) (\<lambda>s str.
                      do { dest \<leftarrow> load_ptr s dest; store s str dest })
                  else if alloc_size > f_data_size field then i_fail s str ''string overflow''
                  else store s str dest) }"

text \<open>Closing a substream, and then returning \<open>status\<close>.\<close>

definition close_and_return :: "pb_env \<Rightarrow> cstate \<Rightarrow> pb_istream \<Rightarrow> pb_istream \<Rightarrow> bool \<Rightarrow> ires" where
  "close_and_return env s str sub status =
     do { (ok, s, str) \<leftarrow> pb_close_string_substream env s str sub;
          if \<not> ok then Some (False, s, str) else Some (status, s, str) }"

definition pb_dec_submessage :: "pb_env \<Rightarrow> pb_rec \<Rightarrow> pb_decoder" where
  "pb_dec_submessage env rec s str field dest =
     do { (r, s, str) \<leftarrow> pb_make_string_substream env s str;
          case r of
            None \<Rightarrow> Some (False, s, str)
          | Some sub \<Rightarrow>
              (if f_ptr field = 0 then i_fail s str ''invalid field descriptor''
               else do {
                 (status, s, sub) \<leftarrow>
                   (if PB_HTYPE (f_type field) = PB_HTYPE_REPEATED
                    then decode_with rec s sub (descr env (f_ptr field)) dest
                    else r_noinit rec s sub (descr env (f_ptr field)) dest);
                 close_and_return env s str sub status }) }"

definition pb_dec_fixed_length_bytes :: "pb_env \<Rightarrow> pb_decoder" where
  "pb_dec_fixed_length_bytes env s str field dest =
     do { (r, s, str) \<leftarrow> pb_decode_varint32 env s str;
          case r of
            None \<Rightarrow> Some (False, s, str)
          | Some sz \<Rightarrow>
              (if unat sz > PB_SIZE_MAX then i_fail s str ''bytes overflow''
               else if sz = 0
               then do { s \<leftarrow> memset0 s dest (f_data_size field); Some (True, s, str) }
               else if unat sz \<noteq> f_data_size field
               then i_fail s str ''incorrect fixed length bytes size''
               else read_into env s str dest (f_data_size field)) }"

definition PB_DECODERS :: "pb_env \<Rightarrow> pb_rec \<Rightarrow> pb_type \<Rightarrow> pb_decoder option" where
  "PB_DECODERS env rec lt =
     nth_opt [pb_dec_varint env, pb_dec_uvarint env, pb_dec_svarint env, pb_dec_fixed32 env,
       pb_dec_fixed64 env, pb_dec_bytes env, pb_dec_string env, pb_dec_submessage env rec,
       (\<lambda>_ _ _ _. None), pb_dec_fixed_length_bytes env] (unat lt)"

section \<open>Static fields\<close>

text \<open>
  A function that can change the local fixed-count counter returns its value last. The
  product \<open>data_size * *size\<close> is computed in 32 bits.
\<close>

type_synonym fres = "(bool \<times> cstate \<times> pb_istream \<times> nat) option"

definition item_at :: "nat \<Rightarrow> pb_field \<Rightarrow> nat \<Rightarrow> nat" where
  "item_at base pos n = base + (f_data_size pos * n) mod 2 ^ 32"

definition with_fc :: "ires \<Rightarrow> nat \<Rightarrow> fres" where
  "with_fc r fc = do { (ok, s, str) \<leftarrow> r; Some (ok, s, str, fc) }"

partial_function (option) static_packed_loop :: "(cstate \<Rightarrow> pb_istream \<Rightarrow> nat \<Rightarrow> ires) \<Rightarrow>
    pb_field \<Rightarrow> nat \<Rightarrow> psize \<Rightarrow> cstate \<Rightarrow> pb_istream \<Rightarrow> nat \<Rightarrow> (bool \<times> cstate \<times> pb_istream \<times> nat) option"
where
  "static_packed_loop func pos pData pSize s sub fc =
     (if i_bytes_left sub = 0 then Some (True, s, sub, fc)
      else do { n \<leftarrow> read_size s fc pSize;
                if \<not> n < f_array_size pos then Some (True, s, sub, fc)
                else do {
                  (ok, s, sub) \<leftarrow> func s sub (item_at pData pos n);
                  if \<not> ok then Some (False, s, sub, fc)
                  else do {
                    n \<leftarrow> read_size s fc pSize;
                    (s, fc) \<leftarrow> write_size s fc pSize (n + 1);
                    static_packed_loop func pos pData pSize s sub fc } } })"

definition decode_static_field ::
  "pb_env \<Rightarrow> pb_rec \<Rightarrow> cstate \<Rightarrow> pb_istream \<Rightarrow> pb_wire_type \<Rightarrow> pb_field_iter \<Rightarrow> nat \<Rightarrow> fres" where
  "decode_static_field env rec s str wire_type iter fc =
     do { pos \<leftarrow> it_field iter;
          let ty = f_type pos;
          let ht = PB_HTYPE ty;
          let pData = it_pData iter;
          let pSize = it_pSize iter;
          func \<leftarrow> PB_DECODERS env rec (PB_LTYPE ty);
          if ht = PB_HTYPE_REQUIRED then with_fc (func s str pos pData) fc
          else if ht = PB_HTYPE_OPTIONAL then
            do { s \<leftarrow> (if \<not> size_is_data iter then store_has s pSize True else Some s);
                 with_fc (func s str pos pData) fc }
          else if ht = PB_HTYPE_REPEATED then
            (if wire_type = PB_WT_STRING \<and> PB_LTYPE ty \<le> PB_LTYPE_LAST_PACKABLE then
               do { (r, s, str) \<leftarrow> pb_make_string_substream env s str;
                    case r of
                      None \<Rightarrow> Some (False, s, str, fc)
                    | Some sub \<Rightarrow>
                        do { (status, s, sub, fc) \<leftarrow>
                               static_packed_loop (\<lambda>s str p. func s str pos p) pos pData pSize s sub fc;
                             if i_bytes_left sub \<noteq> 0
                             then with_fc (i_fail s str ''array overflow'') fc
                             else with_fc (close_and_return env s str sub status) fc } }
             else
               do { n \<leftarrow> read_size s fc pSize;
                    let pItem = item_at pData pos n;
                    (s, fc) \<leftarrow> write_size s fc pSize (n + 1);
                    if n \<ge> f_array_size pos then with_fc (i_fail s str ''array overflow'') fc
                    else with_fc (func s str pos pItem) fc })
          else if ht = PB_HTYPE_ONEOF then
            do { s \<leftarrow> store_size s pSize (unat (f_tag pos));
                 s \<leftarrow> (if PB_LTYPE ty = PB_LTYPE_SUBMESSAGE then
                         do { s \<leftarrow> memset0 s pData (f_data_size pos);
                              message_set_to_defaults (r_default rec) s (descr env (f_ptr pos)) pData }
                       else Some s);
                 with_fc (func s str pos pData) fc }
          else with_fc (i_fail s str ''invalid field type'') fc }"

section \<open>Pointer fields\<close>

partial_function (option) pointer_packed_loop ::
  "pb_env \<Rightarrow> pb_rec \<Rightarrow> (cstate \<Rightarrow> pb_istream \<Rightarrow> nat \<Rightarrow> ires) \<Rightarrow> pb_field \<Rightarrow> nat \<Rightarrow> psize \<Rightarrow> nat \<Rightarrow>
   cstate \<Rightarrow> pb_istream \<Rightarrow> pb_istream \<Rightarrow> nat \<Rightarrow>
   (bool \<times> cstate \<times> pb_istream \<times> pb_istream \<times> nat) option"
where
  "pointer_packed_loop env rec func pos pData pSize allocated_size s str sub fc =
     (if i_bytes_left sub = 0 then Some (True, s, str, sub, fc)
      else do {
        n \<leftarrow> read_size s fc pSize;
        (ok, allocated_size, s, sub) \<leftarrow>
          (if n + 1 > allocated_size then
             (if f_data_size pos = 0 then None
              else (let allocated_size =
                          (allocated_size + ((i_bytes_left sub - 1) div f_data_size pos + 1)) mod 2 ^ 64
                    in do { (ok, s, sub) \<leftarrow>
                              allocate_field env s sub pData (f_data_size pos) allocated_size;
                            Some (ok, allocated_size, s, sub) }))
           else Some (True, allocated_size, s, sub));
        if \<not> ok then Some (False, s, str, sub, fc)
        else do {
          base \<leftarrow> load_ptr s pData;
          n \<leftarrow> read_size s fc pSize;
          let pItem = item_at base pos n;
          s \<leftarrow> initialize_pointer_field env (r_default rec) s pItem pos;
          (ok, s, sub) \<leftarrow> func s sub pItem;
          if \<not> ok then Some (False, s, str, sub, fc)
          else do {
            n \<leftarrow> read_size s fc pSize;
            if n = PB_SIZE_MAX
            then Some (False, s, str\<lparr>i_errmsg := Some ''too many array entries''\<rparr>, sub, fc)
            else do {
              (s, fc) \<leftarrow> write_size s fc pSize (n + 1);
              pointer_packed_loop env rec func pos pData pSize allocated_size s str sub fc } } } })"

text \<open>The branch for required, optional and oneof fields.\<close>

definition decode_pointer_single :: "pb_env \<Rightarrow> pb_rec \<Rightarrow> cstate \<Rightarrow> pb_istream \<Rightarrow>
    pb_field_iter \<Rightarrow> pb_field \<Rightarrow> pb_decoder \<Rightarrow> ires" where
  "decode_pointer_single env rec s str iter pos func =
     (let ty = f_type pos; pData = it_pData iter in
      do { p \<leftarrow> (if PB_LTYPE ty = PB_LTYPE_SUBMESSAGE then load_ptr s pData else Some 0);
           s \<leftarrow> (if PB_LTYPE ty = PB_LTYPE_SUBMESSAGE \<and> p \<noteq> 0 then r_release rec s iter else Some s);
           s \<leftarrow> (if PB_HTYPE ty = PB_HTYPE_ONEOF
                 then store_size s (it_pSize iter) (unat (f_tag pos)) else Some s);
           if PB_LTYPE ty = PB_LTYPE_STRING \<or> PB_LTYPE ty = PB_LTYPE_BYTES
           then func s str pos pData
           else then_ok (allocate_field env s str pData (f_data_size pos) 1) (\<lambda>s str.
                  do { p \<leftarrow> load_ptr s pData;
                       s \<leftarrow> initialize_pointer_field env (r_default rec) s p pos;
                       p \<leftarrow> load_ptr s pData;
                       func s str pos p }) })"

definition decode_pointer_field ::
  "pb_env \<Rightarrow> pb_rec \<Rightarrow> cstate \<Rightarrow> pb_istream \<Rightarrow> pb_wire_type \<Rightarrow> pb_field_iter \<Rightarrow> nat \<Rightarrow> fres" where
  "decode_pointer_field env rec s str wire_type iter fc =
     do { pos \<leftarrow> it_field iter;
          let ty = f_type pos;
          let ht = PB_HTYPE ty;
          let pData = it_pData iter;
          let pSize = it_pSize iter;
          func \<leftarrow> PB_DECODERS env rec (PB_LTYPE ty);
          if ht = PB_HTYPE_REQUIRED \<or> ht = PB_HTYPE_OPTIONAL \<or> ht = PB_HTYPE_ONEOF
          then with_fc (decode_pointer_single env rec s str iter pos func) fc
          else if ht = PB_HTYPE_REPEATED then
            (if wire_type = PB_WT_STRING \<and> PB_LTYPE ty \<le> PB_LTYPE_LAST_PACKABLE then
               do { allocated_size \<leftarrow> read_size s fc pSize;
                    (r, s, str) \<leftarrow> pb_make_string_substream env s str;
                    case r of
                      None \<Rightarrow> Some (False, s, str, fc)
                    | Some sub \<Rightarrow>
                        do { (status, s, str, sub, fc) \<leftarrow>
                               pointer_packed_loop env rec (\<lambda>s str p. func s str pos p) pos pData pSize
                                 allocated_size s str sub fc;
                             with_fc (close_and_return env s str sub status) fc } }
             else
               do { n \<leftarrow> read_size s fc pSize;
                    if n = PB_SIZE_MAX then with_fc (i_fail s str ''too many array entries'') fc
                    else do {
                      (s, fc) \<leftarrow> write_size s fc pSize (n + 1);
                      n \<leftarrow> read_size s fc pSize;
                      (ok, s, str) \<leftarrow> allocate_field env s str pData (f_data_size pos) n;
                      if \<not> ok then Some (False, s, str, fc)
                      else do {
                        base \<leftarrow> load_ptr s pData;
                        n \<leftarrow> read_size s fc pSize;
                        let pItem = item_at base pos (n - 1);
                        s \<leftarrow> initialize_pointer_field env (r_default rec) s pItem pos;
                        with_fc (func s str pos pItem) fc } } })
          else with_fc (i_fail s str ''invalid field type'') fc }"

section \<open>Callback fields\<close>

partial_function (option) callback_loop :: "(cstate \<Rightarrow> pb_istream \<Rightarrow> ires) \<Rightarrow> cstate \<Rightarrow> pb_istream \<Rightarrow>
    (bool \<times> cstate \<times> pb_istream) option" where
  "callback_loop cb s sub =
     do { (ok, s, sub) \<leftarrow> cb s sub;
          if \<not> ok then Some (False, s, sub)
          else if i_bytes_left sub \<noteq> 0 then callback_loop cb s sub
          else Some (True, s, sub) }"

text \<open>
  The local \<open>buffer[10]\<close> is an object that lives during the callback, at the address
  \<open>e_local\<close> gives it.
\<close>

definition enter_local :: "nat \<Rightarrow> nat \<Rightarrow> cstate \<Rightarrow> cstate" where
  "enter_local p n s = s\<lparr>c_objs := (p, n) # c_objs s\<rparr>"

definition leave_local :: "nat \<Rightarrow> nat \<Rightarrow> cstate \<Rightarrow> cstate" where
  "leave_local p n s = s\<lparr>c_objs := remove1 (p, n) (c_objs s)\<rparr>"

definition decode_callback_field ::
  "pb_env \<Rightarrow> cstate \<Rightarrow> pb_istream \<Rightarrow> pb_wire_type \<Rightarrow> pb_field_iter \<Rightarrow> ires" where
  "decode_callback_field env s str wire_type iter =
     do { pos \<leftarrow> it_field iter;
          let pCallback = it_pData iter;
          let arg = pCallback + CB_ARG;
          func \<leftarrow> (if pCallback = 0 then Some 0 else load_ptr s (pCallback + CB_FUNCS));
          if func = 0 then pb_skip_field env s str wire_type
          else if wire_type = PB_WT_STRING then
            do { (r, s, str) \<leftarrow> pb_make_string_substream env s str;
                 case r of
                   None \<Rightarrow> Some (False, s, str)
                 | Some sub \<Rightarrow>
                     do { (ok, s, sub) \<leftarrow>
                            callback_loop (\<lambda>s sub.
                              do { func \<leftarrow> load_ptr s (pCallback + CB_FUNCS);
                                   e_field_decode env func s sub pos arg }) s sub;
                          if \<not> ok then i_fail s str ''callback failed''
                          else close_and_return env s str sub True } }
          else
            do { (ok, buffer, sz, s, str) \<leftarrow> read_raw_value env s str wire_type 10;
                 if \<not> ok then Some (False, s, str)
                 else do {
                   let p = e_local env s 10;
                   s \<leftarrow> store_bytes (enter_local p 10 s) p buffer;
                   func \<leftarrow> load_ptr s (pCallback + CB_FUNCS);
                   (ok, s, _) \<leftarrow> e_field_decode env func s (pb_istream_from_buffer p sz) pos arg;
                   Some (ok, leave_local p 10 s, str) } } }"

section \<open>Any field\<close>

definition decode_field :: "pb_env \<Rightarrow> pb_rec \<Rightarrow> cstate \<Rightarrow> pb_istream \<Rightarrow> pb_wire_type \<Rightarrow>
    pb_field_iter \<Rightarrow> nat \<Rightarrow> (bool \<times> cstate \<times> pb_istream \<times> pb_field_iter \<times> nat) option" where
  "decode_field env rec s str wire_type iter fc =
     do { pos \<leftarrow> it_field iter;
          (ok, s, str, iter) \<leftarrow>
            (if PB_HTYPE (f_type pos) = PB_HTYPE_ONEOF
             then pb_release_union_field (r_release rec) s str iter
             else Some (True, s, str, iter));
          if \<not> ok then Some (False, s, str, iter, fc)
          else do {
            pos \<leftarrow> it_field iter;
            let at = PB_ATYPE (f_type pos);
            (ok, s, str, fc) \<leftarrow>
              (if at = PB_ATYPE_STATIC then decode_static_field env rec s str wire_type iter fc
               else if at = PB_ATYPE_POINTER then decode_pointer_field env rec s str wire_type iter fc
               else if at = PB_ATYPE_CALLBACK
               then with_fc (decode_callback_field env s str wire_type iter) fc
               else with_fc (i_fail s str ''invalid field type'') fc);
            Some (ok, s, str, iter, fc) } }"

section \<open>Extensions\<close>

definition default_extension_decoder :: "pb_env \<Rightarrow> pb_rec \<Rightarrow> cstate \<Rightarrow> pb_istream \<Rightarrow> nat \<Rightarrow>
    32 word \<Rightarrow> pb_wire_type \<Rightarrow> ires" where
  "default_extension_decoder env rec s str extension tag wire_type =
     do { type \<leftarrow> load_ptr s (extension + EXT_TYPE);
          arg \<leftarrow> load_ptr s (type + EXTTYPE_ARG);
          field \<leftarrow> nth_opt (descr env arg) 0;
          if f_tag field \<noteq> tag then Some (True, s, str)
          else do {
            iter \<leftarrow> iter_from_extension env s extension;
            s \<leftarrow> store_bool s (extension + EXT_FOUND) True;
            (ok, s, str, _, _) \<leftarrow> decode_field env rec s str wire_type iter 0;
            Some (ok, s, str) } }"

partial_function (option) decode_extension_loop :: "pb_env \<Rightarrow> pb_rec \<Rightarrow> nat \<Rightarrow> 32 word \<Rightarrow>
    pb_wire_type \<Rightarrow> cstate \<Rightarrow> pb_istream \<Rightarrow> nat \<Rightarrow> (bool \<times> cstate \<times> pb_istream) option" where
  "decode_extension_loop env rec pos tag wire_type s str extension =
     (if extension \<noteq> 0 \<and> pos = i_bytes_left str then
        do { type \<leftarrow> load_ptr s (extension + EXT_TYPE);
             decode \<leftarrow> load_ptr s (type + EXTTYPE_DECODE);
             (status, s, str) \<leftarrow>
               (if decode \<noteq> 0 then e_ext_decode env decode s str extension tag wire_type
                else default_extension_decoder env rec s str extension tag wire_type);
             if \<not> status then Some (False, s, str)
             else do { next \<leftarrow> load_ptr s (extension + EXT_NEXT);
                       decode_extension_loop env rec pos tag wire_type s str next } }
      else Some (True, s, str))"

definition decode_extension :: "pb_env \<Rightarrow> pb_rec \<Rightarrow> cstate \<Rightarrow> pb_istream \<Rightarrow> 32 word \<Rightarrow>
    pb_wire_type \<Rightarrow> pb_field_iter \<Rightarrow> ires" where
  "decode_extension env rec s str tag wire_type iter =
     do { extension \<leftarrow> load_ptr s (it_pData iter);
          decode_extension_loop env rec (i_bytes_left str) tag wire_type s str extension }"

partial_function (option) find_extension_loop :: "nat \<Rightarrow> pb_field_iter \<Rightarrow> (bool \<times> pb_field_iter) option"
where
  "find_extension_loop start iter =
     do { f \<leftarrow> it_field iter;
          if PB_LTYPE (f_type f) = PB_LTYPE_EXTENSION then Some (True, iter)
          else do { (_, iter) \<leftarrow> pb_field_iter_next iter;
                    if it_pos iter \<noteq> start then find_extension_loop start iter
                    else Some (False, iter) } }"

definition find_extension_field :: "pb_field_iter \<Rightarrow> (bool \<times> pb_field_iter) option" where
  "find_extension_field iter = find_extension_loop (it_pos iter) iter"

end
