(* ===== verification/PbDecodeMain.thy ===== *)
theory PbDecodeMain
  imports PbDecode
begin

text \<open>
  \<open>pb_decode_noinit\<close>, its entry points, and the bookkeeping of its main loop: which required
  fields have been seen, the extension range, and the one fixed-count array in progress.
\<close>

section \<open>The main loop\<close>

text \<open>
  The local variables of \<open>pb_decode_noinit\<close>. \<open>d_seen\<close> is the two-word array \<open>fields_seen\<close>;
  \<open>d_fcf\<close> is \<open>fixed_count_field\<close> as an index of the descriptor table.
\<close>

record decode_locals =
  d_iter :: pb_field_iter
  d_seen :: "32 word list"
  d_ext_start :: "32 word"
  d_fcf :: "nat option"
  d_fcs :: nat

definition initial_locals :: "pb_field_iter \<Rightarrow> decode_locals" where
  "initial_locals iter =
     \<lparr>d_iter = iter, d_seen = [0, 0], d_ext_start = 0, d_fcf = None, d_fcs = 0\<rparr>"

text \<open>\<open>fixed_count_field != NULL && fixed_count_size != fixed_count_field->array_size\<close>.\<close>

definition fixed_count_short :: "pb_field list \<Rightarrow> nat option \<Rightarrow> nat \<Rightarrow> bool option" where
  "fixed_count_short flds fcf fcs =
     (case fcf of None \<Rightarrow> Some False
      | Some i \<Rightarrow> do { f \<leftarrow> nth_opt flds i; Some (fcs \<noteq> f_array_size f) })"

text \<open>
  The unsuccessful search: \<open>Some None\<close> goes on to skip the field, \<open>Some (Some \<dots>)\<close> is the end
  of this round, with \<open>false\<close> for a \<open>return false\<close>.
\<close>

definition unknown_field :: "pb_env \<Rightarrow> pb_rec \<Rightarrow> cstate \<Rightarrow> pb_istream \<Rightarrow> decode_locals \<Rightarrow> 32 word \<Rightarrow>
    pb_wire_type \<Rightarrow> (bool \<times> cstate \<times> pb_istream \<times> decode_locals) option" where
  "unknown_field env rec s str l tag wire_type =
     (let skip = (\<lambda>s str l. do { (ok, s, str) \<leftarrow> pb_skip_field env s str wire_type;
                                 Some (ok, s, str, l) })
      in if tag \<ge> d_ext_start l then
           do { (found, iter) \<leftarrow> find_extension_field (d_iter l);
                start \<leftarrow> (if \<not> found then Some (- 1)
                          else do { f \<leftarrow> it_field iter; Some (f_tag f) });
                let l = l\<lparr>d_iter := iter, d_ext_start := start\<rparr>;
                if tag \<ge> start then
                  do { let pos = i_bytes_left str;
                       (ok, s, str) \<leftarrow> decode_extension env rec s str tag wire_type iter;
                       if \<not> ok then Some (False, s, str, l)
                       else if pos \<noteq> i_bytes_left str then Some (True, s, str, l)
                       else skip s str l }
                else skip s str l }
         else skip s str l)"

text \<open>The switch to a new fixed-count array; \<open>Some None\<close> is the error.\<close>

definition note_fixed_count :: "pb_field list \<Rightarrow> decode_locals \<Rightarrow> pb_field \<Rightarrow> decode_locals option option"
where
  "note_fixed_count flds l pos =
     (if PB_HTYPE (f_type pos) = PB_HTYPE_REPEATED \<and> size_is_data (d_iter l) then
        do { (short, l) \<leftarrow>
               (if d_fcf l \<noteq> Some (it_pos (d_iter l)) then
                  do { short \<leftarrow> fixed_count_short flds (d_fcf l) (d_fcs l);
                       Some (short, l\<lparr>d_fcf := Some (it_pos (d_iter l)), d_fcs := 0\<rparr>) }
                else Some (False, l));
             if short then Some None
             else Some (Some (l\<lparr>d_iter := (d_iter l)\<lparr>it_pSize := PSLocal\<rparr>\<rparr>)) }
      else Some (Some l))"

definition mark_seen :: "decode_locals \<Rightarrow> pb_field \<Rightarrow> decode_locals" where
  "mark_seen l pos =
     (let i = it_required_field_index (d_iter l)
      in if PB_HTYPE (f_type pos) = PB_HTYPE_REQUIRED \<and> i < PB_MAX_REQUIRED_FIELDS
         then l\<lparr>d_seen := (d_seen l)[i div 32 := d_seen l ! (i div 32) OR push_bit (i mod 32) 1]\<rparr>
         else l)"

definition known_field :: "pb_env \<Rightarrow> pb_rec \<Rightarrow> pb_field list \<Rightarrow> cstate \<Rightarrow> pb_istream \<Rightarrow> decode_locals \<Rightarrow>
    pb_wire_type \<Rightarrow> (bool \<times> cstate \<times> pb_istream \<times> decode_locals) option" where
  "known_field env rec flds s str l wire_type =
     do { pos \<leftarrow> it_field (d_iter l);
          r \<leftarrow> note_fixed_count flds l pos;
          case r of
            None \<Rightarrow> Some (False, s, i_set_error str ''wrong size for fixed count field'', l)
          | Some l \<Rightarrow>
              do { let l = mark_seen l pos;
                   (ok, s, str, iter, fcs) \<leftarrow>
                     decode_field env rec s str wire_type (d_iter l) (d_fcs l);
                   Some (ok, s, str, l\<lparr>d_iter := iter, d_fcs := fcs\<rparr>) } }"

text \<open>One round of the loop.\<close>

datatype round = Next cstate pb_istream decode_locals | Break cstate pb_istream decode_locals
  | Fail cstate pb_istream

definition decode_round :: "pb_env \<Rightarrow> pb_rec \<Rightarrow> pb_field list \<Rightarrow> cstate \<Rightarrow> pb_istream \<Rightarrow> decode_locals \<Rightarrow>
    round option" where
  "decode_round env rec flds s str l =
     do { (ok, wire_type, tag, eof, s, str) \<leftarrow> pb_decode_tag env s str;
          if \<not> ok then Some (if eof then Break s str l else Fail s str)
          else do {
            (found, iter) \<leftarrow> pb_field_iter_find (d_iter l) tag;
            let l = l\<lparr>d_iter := iter\<rparr>;
            (ok, s, str, l) \<leftarrow>
              (if \<not> found then unknown_field env rec s str l tag wire_type
               else known_field env rec flds s str l wire_type);
            Some (if ok then Next s str l else Fail s str) } }"

partial_function (option) decode_loop :: "pb_env \<Rightarrow> pb_rec \<Rightarrow> pb_field list \<Rightarrow> cstate \<Rightarrow> pb_istream \<Rightarrow>
    decode_locals \<Rightarrow> (bool \<times> cstate \<times> pb_istream \<times> decode_locals) option" where
  "decode_loop env rec flds s str l =
     (if i_bytes_left str = 0 then Some (True, s, str, l)
      else do { r \<leftarrow> decode_round env rec flds s str l;
                case r of
                  Next s str l \<Rightarrow> decode_loop env rec flds s str l
                | Break s str l \<Rightarrow> Some (True, s, str, l)
                | Fail s str \<Rightarrow> Some (False, s, str, l) })"

section \<open>The check of required fields\<close>

text \<open>The seek to the end of the table: the last index and type seen, and the iterator.\<close>

partial_function (option) seek_end :: "pb_field_iter \<Rightarrow> (nat \<times> pb_type \<times> pb_field_iter) option" where
  "seek_end iter =
     do { f \<leftarrow> it_field iter;
          (more, iter') \<leftarrow> pb_field_iter_next iter;
          if more then seek_end iter'
          else Some (it_required_field_index iter, f_type f, iter') }"

definition req_field_count :: "pb_field_iter \<Rightarrow> nat option" where
  "req_field_count iter =
     do { (n, last_type, iter) \<leftarrow> seek_end iter;
          f \<leftarrow> it_field iter;
          let n = (if PB_HTYPE last_type = PB_HTYPE_REQUIRED \<and> f_tag f \<noteq> 0
                   then (n + 1) mod 2 ^ 32 else n);
          Some (if n > PB_MAX_REQUIRED_FIELDS then PB_MAX_REQUIRED_FIELDS else n) }"

definition required_seen :: "nat \<Rightarrow> 32 word list \<Rightarrow> bool" where
  "required_seen n seen \<longleftrightarrow>
     (\<forall>i \<in> set [0..<n div 32]. seen ! i = - 1) \<and>
     (n mod 32 \<noteq> 0 \<longrightarrow> seen ! (n div 32) = drop_bit (32 - n mod 32) (- 1))"

section \<open>Entry points\<close>

definition decode_noinit_body :: "pb_env \<Rightarrow> pb_rec \<Rightarrow> cstate \<Rightarrow> pb_istream \<Rightarrow> pb_field list \<Rightarrow> nat \<Rightarrow> ires" where
  "decode_noinit_body env rec s str flds dest_struct =
     do { (_, iter) \<leftarrow> pb_field_iter_begin flds dest_struct;
          (ok, s, str, l) \<leftarrow> decode_loop env rec flds s str (initial_locals iter);
          if \<not> ok then Some (False, s, str)
          else do {
            short \<leftarrow> fixed_count_short flds (d_fcf l) (d_fcs l);
            if short then i_fail s str ''wrong size for fixed count field''
            else do {
              n \<leftarrow> req_field_count (d_iter l);
              if \<not> required_seen n (d_seen l) then i_fail s str ''missing required field''
              else Some (True, s, str) } } }"

text \<open>The recursive calls available to messages of nesting depth \<open>Suc d\<close>.\<close>

definition rec_at :: "nat \<Rightarrow> pb_env \<Rightarrow> (cstate \<Rightarrow> pb_istream \<Rightarrow> pb_field list \<Rightarrow> nat \<Rightarrow> ires) \<Rightarrow> pb_rec" where
  "rec_at d env noinit = \<lparr>r_noinit = noinit, r_default = pb_field_set_to_default d env,
     r_release = pb_release_single_field d env\<rparr>"

primrec pb_decode_noinit ::
  "nat \<Rightarrow> pb_env \<Rightarrow> cstate \<Rightarrow> pb_istream \<Rightarrow> pb_field list \<Rightarrow> nat \<Rightarrow> ires" where
  "pb_decode_noinit 0 env s str flds dest_struct = None"
| "pb_decode_noinit (Suc d) env s str flds dest_struct =
     decode_noinit_body env (rec_at (Suc d) env (pb_decode_noinit d env)) s str flds dest_struct"

definition pb_decode :: "nat \<Rightarrow> pb_env \<Rightarrow> cstate \<Rightarrow> pb_istream \<Rightarrow> pb_field list \<Rightarrow> nat \<Rightarrow> ires" where
  "pb_decode d env s str flds dest_struct =
     decode_with (rec_at d env (pb_decode_noinit d env)) s str flds dest_struct"

text \<open>A message behind its length, decoded by \<open>dec\<close>.\<close>

definition decode_delimited_with :: "pb_env \<Rightarrow> (cstate \<Rightarrow> pb_istream \<Rightarrow> ires) \<Rightarrow>
    cstate \<Rightarrow> pb_istream \<Rightarrow> ires" where
  "decode_delimited_with env dec s str =
     do { (r, s, str) \<leftarrow> pb_make_string_substream env s str;
          case r of
            None \<Rightarrow> Some (False, s, str)
          | Some sub \<Rightarrow>
              do { (status, s, sub) \<leftarrow> dec s sub; close_and_return env s str sub status } }"

definition pb_decode_delimited_noinit ::
  "nat \<Rightarrow> pb_env \<Rightarrow> cstate \<Rightarrow> pb_istream \<Rightarrow> pb_field list \<Rightarrow> nat \<Rightarrow> ires" where
  "pb_decode_delimited_noinit d env s str flds dest_struct =
     decode_delimited_with env (\<lambda>s sub. pb_decode_noinit d env s sub flds dest_struct) s str"

definition pb_decode_delimited ::
  "nat \<Rightarrow> pb_env \<Rightarrow> cstate \<Rightarrow> pb_istream \<Rightarrow> pb_field list \<Rightarrow> nat \<Rightarrow> ires" where
  "pb_decode_delimited d env s str flds dest_struct =
     decode_delimited_with env (\<lambda>s sub. pb_decode d env s sub flds dest_struct) s str"

definition pb_decode_nullterminated ::
  "nat \<Rightarrow> pb_env \<Rightarrow> cstate \<Rightarrow> pb_istream \<Rightarrow> pb_field list \<Rightarrow> nat \<Rightarrow> ires" where
  "pb_decode_nullterminated = pb_decode"

end
