(* ===== verification/PbRequired.thy ===== *)
theory PbRequired
  imports PbDecodeMain
begin

text \<open>
  The bookkeeping of required fields in \<open>pb_decode_noinit\<close>: what \<open>mark_seen\<close> records, how many
  fields \<open>req_field_count\<close> finds from wherever the iterator is, and that the two word
  comparisons of \<open>required_seen\<close> ask for every one of them.
\<close>

section \<open>The bit set\<close>

definition seen_bit :: "32 word list \<Rightarrow> nat \<Rightarrow> bool" where
  "seen_bit seen i \<longleftrightarrow> bit (seen ! (i div 32)) (i mod 32)"

lemma seen_bit_initial: "i < 64 \<Longrightarrow> \<not> seen_bit [0, 0] i"
proof -
  assume "i < 64"
  then have "i div 32 = 0 \<or> i div 32 = 1" by auto
  then show ?thesis by (auto simp: seen_bit_def)
qed

lemma seen_bit_mark:
  assumes "length (d_seen l) = 2" and "i < 64"
  shows "seen_bit (d_seen (mark_seen l pos)) i \<longleftrightarrow> seen_bit (d_seen l) i \<or>
     PB_HTYPE (f_type pos) = PB_HTYPE_REQUIRED \<and> it_required_field_index (d_iter l) = i"
proof (cases "PB_HTYPE (f_type pos) = PB_HTYPE_REQUIRED \<and> it_required_field_index (d_iter l) < 64")
  case True
  let ?j = "it_required_field_index (d_iter l)"
  have j: "?j div 32 < 2" "?j mod 32 < 32" using True by auto
  have b: "bit (push_bit (?j mod 32) 1 :: 32 word) (i mod 32) \<longleftrightarrow> i mod 32 = ?j mod 32"
    using j(2) by (auto simp: bit_simps)
  then have b: "bit (2 ^ (?j mod 32) :: 32 word) (i mod 32) \<longleftrightarrow> i mod 32 = ?j mod 32"
    by (simp add: push_bit_eq_mult)
  have eq: "?j = i \<longleftrightarrow> ?j div 32 = i div 32 \<and> ?j mod 32 = i mod 32"
    by (metis div_mult_mod_eq)
  show ?thesis
  proof (cases "?j div 32 = i div 32")
    case same: True
    with True j assms show ?thesis
      by (simp add: seen_bit_def mark_seen_def bit_or_iff b eq) (use b in auto)
  next
    case False
    with True show ?thesis by (auto simp: seen_bit_def mark_seen_def eq Let_def)
  qed
next
  case False
  with assms(2) show ?thesis by (auto simp: mark_seen_def)
qed

lemma length_mark_seen [simp]: "length (d_seen (mark_seen l pos)) = length (d_seen l)"
  by (simp add: mark_seen_def Let_def)

section \<open>The comparison\<close>

lemma word_all_bits: "(w :: 32 word) = - 1 \<longleftrightarrow> (\<forall>i<32. bit w i)"
  by (auto simp: bit_eq_iff)

lemma low_bits: "k \<le> 32 \<Longrightarrow> bit (drop_bit (32 - k) (- 1 :: 32 word)) i \<longleftrightarrow> i < k"
  by (auto simp: bit_simps simp flip: mask_eq_decr_exp)

lemma word_low_bits:
  assumes "k \<le> 32" and "\<forall>i<32. k \<le> i \<longrightarrow> \<not> bit w i"
  shows "(w :: 32 word) = drop_bit (32 - k) (- 1) \<longleftrightarrow> (\<forall>i<k. bit w i)"
proof -
  have "w = drop_bit (32 - k) (- 1) \<longleftrightarrow>
      (\<forall>i<32. bit w i \<longleftrightarrow> bit (drop_bit (32 - k) (- 1) :: 32 word) i)"
    by (auto intro!: bit_word_eqI simp del: drop_bit_minus_one)
  also have "\<dots> \<longleftrightarrow> (\<forall>i<32. bit w i \<longleftrightarrow> i < k)" by (simp only: low_bits [OF assms(1)])
  also have "\<dots> \<longleftrightarrow> (\<forall>i<k. bit w i)" using assms by fastforce
  finally show ?thesis .
qed

text \<open>
  With no bit from \<open>n\<close> on set, the two comparisons hold exactly if all bits below \<open>n\<close> are set.
\<close>

lemma required_seen_iff:
  assumes "length seen = 2" and "n \<le> 64" and "\<forall>i<64. n \<le> i \<longrightarrow> \<not> seen_bit seen i"
  shows "required_seen n seen \<longleftrightarrow> (\<forall>i<n. seen_bit seen i)"
proof -
  define q r where "q = n div 32" and "r = n mod 32"
  have n: "n = 32 * q + r" and r: "r < 32" and q: "q \<le> 2" using assms(2) by (auto simp: q_def r_def)
  have bit_at: "seen_bit seen (32 * w + i) = bit (seen ! w) i" if "i < 32" for w i
    using that by (simp add: seen_bit_def)
  have words: "(\<forall>i<n. seen_bit seen i) \<longleftrightarrow>
      (\<forall>w<q. \<forall>i<32. bit (seen ! w) i) \<and> (\<forall>i<r. bit (seen ! q) i)" (is "?L \<longleftrightarrow> ?R")
  proof
    assume L: ?L
    show ?R
    proof (intro conjI allI impI)
      fix w i :: nat assume "w < q" "i < 32"
      then have "32 * w + i < n" using n by auto
      with L bit_at [OF \<open>i < 32\<close>] show "bit (seen ! w) i" by blast
    next
      fix i assume "i < r"
      with L n r bit_at [of i q] show "bit (seen ! q) i" by auto
    qed
  next
    assume R: ?R
    show ?L
    proof (intro allI impI)
      fix i assume "i < n"
      then have "i div 32 < q \<or> i div 32 = q \<and> i mod 32 < r"
        using n r by (metis div_le_mono le_neq_implies_less less_imp_le_nat mod_less_divisor
            mult_div_mod_eq nat_add_left_cancel_less q_def)
      with R show "seen_bit seen i" by (auto simp: seen_bit_def)
    qed
  qed
  have "(\<forall>i \<in> set [0..<q]. seen ! i = - 1) \<longleftrightarrow> (\<forall>w<q. \<forall>i<32. bit (seen ! w) i)"
    by (auto simp: word_all_bits)
  moreover have "(r \<noteq> 0 \<longrightarrow> seen ! q = drop_bit (32 - r) (- 1)) \<longleftrightarrow> (\<forall>i<r. bit (seen ! q) i)"
  proof (cases "r = 0")
    case False
    then have "q < 2" using assms(2) n by auto
    have "\<not> bit (seen ! q) i" if "i < 32" "r \<le> i" for i
      using assms(3) that n \<open>q < 2\<close> bit_at [OF that(1), of q] by auto
    then show ?thesis using False word_low_bits [of r "seen ! q"] r by simp
  qed simp
  ultimately show ?thesis unfolding words by (simp add: required_seen_def flip: q_def r_def)
qed

section \<open>The number of required fields\<close>

lemma required_before_Suc:
  assumes "i < length flds"
  shows "required_before flds (Suc i) =
     required_before flds i + (if PB_HTYPE (f_type (flds ! i)) = PB_HTYPE_REQUIRED then 1 else 0)"
  using assms by (simp add: required_before_def take_Suc_conv_app_nth)

lemma seek_end_at:
  assumes t: "terminated flds" and "i < field_count flds"
  shows "seek_end (iter_at flds dest i) =
     Some (required_before flds (field_count flds - 1) mod 2 ^ 32, f_type (flds ! (field_count flds - 1)),
       iter_at flds dest 0)"
  using assms(2)
proof (induction "field_count flds - i" arbitrary: i)
  case 0
  then show ?case by simp
next
  case (Suc k)
  have l: "i < length flds" using Suc.prems field_count_less [OF t] by simp
  show ?case
  proof (cases "Suc i < field_count flds")
    case True
    then have "seek_end (iter_at flds dest (Suc i)) =
        Some (required_before flds (field_count flds - 1) mod 2 ^ 32, f_type (flds ! (field_count flds - 1)),
          iter_at flds dest 0)"
      using Suc.hyps by (intro Suc.hyps(1)) simp_all
    with True l show ?thesis
      by (subst seek_end.simps) (simp add: it_field_def nth_opt_def iter_next_at [OF t Suc.prems])
  next
    case False
    then have "Suc i = field_count flds" using Suc.prems by simp
    with l show ?thesis
      by (subst seek_end.simps)
        (auto simp: it_field_def nth_opt_def iter_next_at [OF t Suc.prems] simp flip: \<open>Suc i = field_count flds\<close>)
  qed
qed

text \<open>Wherever the iterator stands, the count is that of the whole table, capped at 64.\<close>

lemma req_field_count_at:
  assumes t: "terminated flds" and i: "i < field_count flds \<or> i = 0"
    and small: "length flds < 2 ^ 32"
  shows "req_field_count (iter_at flds dest i) = Some (min 64 (required_before flds (field_count flds)))"
proof (cases "field_count flds")
  case 0
  with i have "i = 0" by simp
  have l: "0 < length flds" using field_count_less [OF t] by (cases flds) simp_all
  have tag: "f_tag (flds ! 0) = 0" using field_count_tag [OF t] 0 by simp
  have "seek_end (iter_at flds dest 0) = Some (0, f_type (flds ! 0), iter_at flds dest 0)"
    using l by (subst seek_end.simps) (simp add: it_field_def nth_opt_def iter_next_empty [OF t 0] required_before_def)
  with tag l \<open>i = 0\<close> 0 show ?thesis
    by (simp add: req_field_count_def it_field_def nth_opt_def required_before_def)
next
  case (Suc n)
  then have i: "i < field_count flds" using i by auto
  have l: "n < length flds" "0 < length flds" using field_count_less [OF t] Suc by (cases flds; simp)+
  have tag: "f_tag (flds ! 0) \<noteq> 0" using before_count_tag [of 0 flds] Suc by simp
  have "required_before flds n \<le> n"
    unfolding required_before_def using length_filter_le [of _ "take n flds"] by (rule order_trans) simp
  then have b: "required_before flds n + 1 < 2 ^ 32" using small l by simp
  have "required_before flds (Suc n) = required_before flds n +
      (if PB_HTYPE (f_type (flds ! n)) = PB_HTYPE_REQUIRED then 1 else 0)"
    by (rule required_before_Suc [OF l(1)])
  with b l(2) show ?thesis
    by (auto simp: req_field_count_def seek_end_at [OF t i] Suc it_field_def nth_opt_def tag min_def Let_def)
qed

end
