(* ===== verification/PbSafe.thy ===== *)
theory PbSafe
  imports PbRequired
begin

text \<open>
  What a decoder may do to memory and to its stream, for any input. \<open>only_in p n\<close>: memory
  changes only in the \<open>n\<close> bytes at \<open>p\<close>, no object appears or goes. The locale
  \<open>bounded_source\<close> states what the decoders rely on in a stream that may hold anything:
  \<open>live\<close> tells which ranges of memory are live; \<open>inp e\<close> says that a stream is good for exactly
  the bytes up to its end \<open>e\<close>, \<open>pend e m\<close> that
  its substream up to \<open>m\<close> is open, \<open>weak\<close> what is left after an error. A decoder \<open>safe p n\<close>
  always returns, stays within \<open>p\<close> and its stream, and on success leaves a good stream.
\<close>

section \<open>Changes confined to a range\<close>

definition only_in :: "nat \<Rightarrow> nat \<Rightarrow> cstate \<Rightarrow> cstate \<Rightarrow> bool" where
  "only_in p n s s' \<longleftrightarrow> c_objs s' = c_objs s \<and> c_heap s' = c_heap s \<and>
     (\<forall>x. x < p \<or> p + n \<le> x \<longrightarrow> c_mem s' x = c_mem s x)"

lemma only_in_refl [simp]: "only_in p n s s"
  by (simp add: only_in_def)

lemma only_in_trans: "only_in p n s s' \<Longrightarrow> only_in p n s' s'' \<Longrightarrow> only_in p n s s''"
  by (auto simp: only_in_def)

lemma only_in_mono: "only_in q m s s' \<Longrightarrow> p \<le> q \<Longrightarrow> q + m \<le> p + n \<Longrightarrow> only_in p n s s'"
  by (fastforce simp: only_in_def)

lemma valid_only_in: "only_in p n s s' \<Longrightarrow> valid s' a k = valid s a k"
  by (simp add: only_in_def valid_def)

lemma store_only_in:
  assumes "valid s a (length bs)"
  obtains s' where "store_bytes s a bs = Some s'" "only_in a (length bs) s s'"
proof
  show "store_bytes s a bs = Some (s\<lparr>c_mem := overwrite (c_mem s) a bs\<rparr>)"
    using assms by (simp add: store_bytes_def)
  show "only_in a (length bs) s (s\<lparr>c_mem := overwrite (c_mem s) a bs\<rparr>)"
    by (auto simp: only_in_def overwrite_outside)
qed

lemma store_uint_only_in:
  assumes "valid s a n"
  obtains s' where "store_uint n s a v = Some s'" "only_in a n s s'"
  using store_only_in [of s a "nat_le n v"] assms by (auto simp: store_uint_def)

lemma load_uint_valid: "valid s a n \<Longrightarrow> \<exists>v. load_uint n s a = Some v"
  by (simp add: load_uint_def load_bytes_def)

section \<open>The contract of a bounded stream\<close>

locale bounded_source =
  fixes env :: pb_env
    and live :: "nat \<Rightarrow> nat \<Rightarrow> bool"
    and inp :: "nat \<Rightarrow> cstate \<Rightarrow> pb_istream \<Rightarrow> bool"
    and pend :: "nat \<Rightarrow> nat \<Rightarrow> cstate \<Rightarrow> pb_istream \<Rightarrow> bool"
    and weak :: "pb_istream \<Rightarrow> bool"
  assumes inp_live: "inp e s str \<Longrightarrow> valid s a k = live a k"
    and inp_weak: "inp e s str \<Longrightarrow> weak str"
    and pend_weak: "pend e m s str \<Longrightarrow> weak str"
    and weak_error: "weak str \<Longrightarrow> weak (i_set_error str msg)"
    and weak_update: "weak str \<Longrightarrow> weak (str\<lparr>i_state := x, i_errmsg := y\<rparr>)"
    and inp_error: "inp e s str \<Longrightarrow> inp e s (i_set_error str msg)"
    and inp_only: "inp e s str \<Longrightarrow> only_in p n s s' \<Longrightarrow> inp e s' str"
    and pend_only: "pend e m s str \<Longrightarrow> only_in p n s s' \<Longrightarrow> pend e m s' str"
    and inp_byte: "inp e s str \<Longrightarrow> i_bytes_left str \<noteq> 0 \<Longrightarrow>
        \<exists>b str'. pb_readbyte env s str = Some (Some b, s, str') \<and> inp e s str' \<and>
          Suc (i_bytes_left str') = i_bytes_left str"
    and inp_read: "inp e s str \<Longrightarrow> n \<le> i_bytes_left str \<Longrightarrow>
        \<exists>str'. inp e s str' \<and> i_bytes_left str' + n = i_bytes_left str \<and>
          (\<exists>bs. length bs = n \<and> pb_read env s str ILocal n = Some (True, bs, s, str')) \<and>
          pb_read env s str INull n = Some (True, [], s, str') \<and>
          (\<forall>a. valid s a n \<longrightarrow> (\<exists>s'. pb_read env s str (IMem a) n = Some (True, [], s', str') \<and>
             only_in a n s s'))"
    and inp_short: "inp e s str \<Longrightarrow> i_bytes_left str < n \<Longrightarrow>
        \<exists>str'. pb_read env s str buf n = Some (False, [], s, str') \<and> weak str'"
    and weak_skip: "weak str \<Longrightarrow>
        \<exists>ok str'. pb_read env s str INull (i_bytes_left str) = Some (ok, [], s, str') \<and> weak str'"
    and inp_open: "inp e s str \<Longrightarrow> n \<le> i_bytes_left str \<Longrightarrow>
        \<exists>m. inp m s (str\<lparr>i_bytes_left := n\<rparr>) \<and> pend e m s (str\<lparr>i_bytes_left := i_bytes_left str - n\<rparr>)"
    and inp_close: "pend e m s par \<Longrightarrow> inp m s sub \<Longrightarrow> i_bytes_left sub = 0 \<Longrightarrow>
        inp e s (par\<lparr>i_state := i_state sub, i_errmsg := i_errmsg sub\<rparr>)"
begin

text \<open>Scanners leave memory alone, and take at least one byte when they succeed.\<close>

definition scanned :: "nat \<Rightarrow> cstate \<Rightarrow> pb_istream \<Rightarrow> ('a option \<times> cstate \<times> pb_istream) option \<Rightarrow> bool" where
  "scanned e s str res \<longleftrightarrow> (\<exists>r str'. res = Some (r, s, str') \<and>
     (case r of None \<Rightarrow> weak str'
      | Some _ \<Rightarrow> inp e s str' \<and> i_bytes_left str' < i_bytes_left str))"

definition scans :: "(cstate \<Rightarrow> pb_istream \<Rightarrow> 'a iout) \<Rightarrow> bool" where
  "scans f \<longleftrightarrow> (\<forall>e s str. inp e s str \<longrightarrow> scanned e s str (f s str))"

lemma scanned_fail: "weak str' \<Longrightarrow> scanned e s str (Some (None, s, str'))"
  by (simp add: scanned_def)

lemma scanned_ok: "inp e s str' \<Longrightarrow> i_bytes_left str' < i_bytes_left str \<Longrightarrow>
    scanned e s str (Some (Some v, s, str'))"
  by (simp add: scanned_def)

lemma scannedE:
  assumes "scanned e s str res"
  obtains (fail) str' where "res = Some (None, s, str')" "weak str'"
  | (ok) v str' where "res = Some (Some v, s, str')" "inp e s str'"
      "i_bytes_left str' < i_bytes_left str"
  using assms unfolding scanned_def by (fastforce split: option.splits)

lemma scanned_step: "scanned e s str' res \<Longrightarrow> i_bytes_left str' \<le> i_bytes_left str \<Longrightarrow> scanned e s str res"
  by (erule scannedE) (simp_all add: scanned_fail scanned_ok)

lemma scansE:
  assumes "scans f" and "inp e s str"
  obtains (fail) str' where "f s str = Some (None, s, str')" "weak str'"
  | (ok) v str' where "f s str = Some (Some v, s, str')" "inp e s str'"
      "i_bytes_left str' < i_bytes_left str"
  using assms unfolding scans_def by (blast elim: scannedE)

definition outcome :: "nat \<Rightarrow> nat \<Rightarrow> nat \<Rightarrow> cstate \<Rightarrow> pb_istream \<Rightarrow> bool \<Rightarrow> cstate \<Rightarrow> pb_istream \<Rightarrow> bool" where
  "outcome e p n s str ok s' str' \<longleftrightarrow> only_in p n s s' \<and>
     (if ok then inp e s' str' \<and> i_bytes_left str' \<le> i_bytes_left str else weak str')"

definition safe_on :: "nat \<Rightarrow> nat \<Rightarrow> nat \<Rightarrow> cstate \<Rightarrow> pb_istream \<Rightarrow> ires \<Rightarrow> bool" where
  "safe_on e p n s str r \<longleftrightarrow> (\<exists>ok s' str'. r = Some (ok, s', str') \<and> outcome e p n s str ok s' str')"

definition safe :: "nat \<Rightarrow> nat \<Rightarrow> (cstate \<Rightarrow> pb_istream \<Rightarrow> ires) \<Rightarrow> bool" where
  "safe p n f \<longleftrightarrow> (\<forall>e s str. inp e s str \<longrightarrow> valid s p n \<longrightarrow> safe_on e p n s str (f s str))"

lemma safe_on_fail: "inp e s str \<Longrightarrow> safe_on e p n s str (i_fail s str msg)"
  using inp_weak weak_error by (auto simp: safe_on_def outcome_def i_fail_def)

lemma safe_on_weak: "only_in p n s s' \<Longrightarrow> weak str' \<Longrightarrow> safe_on e p n s str (Some (False, s', str'))"
  by (auto simp: safe_on_def outcome_def intro!: exI [of _ False])

lemma safe_on_weak_fail: "only_in p n s s' \<Longrightarrow> weak str' \<Longrightarrow> safe_on e p n s str (i_fail s' str' msg)"
  using weak_error by (auto simp: safe_on_def outcome_def i_fail_def intro!: exI [of _ False])

lemma safe_on_ok: "only_in p n s s' \<Longrightarrow> inp e s' str' \<Longrightarrow> i_bytes_left str' \<le> i_bytes_left str \<Longrightarrow>
    safe_on e p n s str (Some (True, s', str'))"
  by (auto simp: safe_on_def outcome_def intro!: exI [of _ True])

lemma safe_onE:
  assumes "safe_on e p n s str r"
  obtains (fail) s' str' where "r = Some (False, s', str')" "only_in p n s s'" "weak str'"
  | (ok) s' str' where "r = Some (True, s', str')" "only_in p n s s'" "inp e s' str'"
      "i_bytes_left str' \<le> i_bytes_left str"
  using assms unfolding safe_on_def outcome_def by (metis (full_types))

text \<open>What follows a step taken is safe after it if it is safe from where the step led.\<close>

lemma safe_on_step:
  assumes "safe_on e q m s' str' r" and "only_in p n s s'" and "i_bytes_left str' \<le> i_bytes_left str"
    and "p \<le> q" "q + m \<le> p + n"
  shows "safe_on e p n s str r"
  using assms(1)
proof (cases rule: safe_onE)
  case (fail s'' str'')
  with assms(2) only_in_mono [OF fail(2) assms(4,5)] show ?thesis
    by (auto intro: safe_on_weak only_in_trans)
next
  case (ok s'' str'')
  with assms(2,3) only_in_mono [OF ok(2) assms(4,5)] show ?thesis
    by (auto intro: safe_on_ok only_in_trans)
qed

lemma safeD: "safe p n f \<Longrightarrow> inp e s str \<Longrightarrow> valid s p n \<Longrightarrow> safe_on e p n s str (f s str)"
  by (simp add: safe_def)

lemma safeI: "(\<And>e s str. inp e s str \<Longrightarrow> valid s p n \<Longrightarrow> safe_on e p n s str (f s str)) \<Longrightarrow> safe p n f"
  by (simp add: safe_def)

text \<open>A scan, and then a use of what was scanned.\<close>

lemma safe_scan:
  assumes "scans f" and "\<And>v. safe p n (g v)"
  shows "safe p n (\<lambda>s str. f s str \<bind> (\<lambda>(r, s, str).
     case r of None \<Rightarrow> Some (False, s, str) | Some v \<Rightarrow> g v s str))"
proof (rule safeI)
  fix e s str assume i: "inp e s str" and v: "valid s p n"
  from assms(1) i show "safe_on e p n s str (f s str \<bind> (\<lambda>(r, s, str).
     case r of None \<Rightarrow> Some (False, s, str) | Some v \<Rightarrow> g v s str))"
  proof (cases rule: scansE)
    case (fail str')
    then show ?thesis by (simp add: safe_on_weak)
  next
    case (ok x str')
    with safe_on_step [OF safeD [OF assms(2) ok(2) v], of p n s str x] show ?thesis by simp
  qed
qed

section \<open>The scanners\<close>

lemma readbyte_inp:
  assumes "inp e s str"
  obtains (eof) "i_bytes_left str = 0"
      "pb_readbyte env s str = Some (None, s, i_set_error str ''end-of-stream'')"
  | (byte) b str' where "pb_readbyte env s str = Some (Some b, s, str')" "inp e s str'"
      "Suc (i_bytes_left str') = i_bytes_left str"
  using inp_byte [OF assms] by (cases "i_bytes_left str = 0") (auto simp: pb_readbyte_def)

lemma varint_loop_inp:
  assumes "inp e s str"
  shows "scanned e s str (varint_loop env s str bitpos result)"
  using assms
proof (induction "i_bytes_left str" arbitrary: str bitpos result rule: less_induct)
  case less
  note i = less.prems
  from i show ?case
  proof (cases rule: readbyte_inp)
    case eof
    then show ?thesis
      using weak_error [OF inp_weak [OF i]]
      by (simp add: varint_loop.simps [of env s str bitpos result] scanned_fail)
  next
    case (byte b str')
    have "scanned e s str (varint_loop env s str' bp res)" for bp res
      by (rule scanned_step [OF less.hyps [OF _ byte(2)]]) (use byte(3) in simp_all)
    with byte weak_error [OF inp_weak [OF i]] show ?thesis
      by (simp add: varint_loop.simps [of env s str bitpos result] Let_def scanned_fail scanned_ok)
  qed
qed

lemma scans_varint: "scans (pb_decode_varint env)"
  using varint_loop_inp by (simp add: scans_def pb_decode_varint_def)

lemma scans_svarint: "scans (pb_decode_svarint env)"
  unfolding scans_def
proof (intro allI impI)
  fix e s str assume "inp e s str"
  with scans_varint show "scanned e s str (pb_decode_svarint env s str)"
    by (cases rule: scansE) (simp_all add: pb_decode_svarint_def scanned_fail scanned_ok)
qed

lemma varint32_loop_inp:
  assumes "inp e s str"
  shows "scanned e s str (varint32_loop env s str bitpos result)"
  using assms
proof (induction "i_bytes_left str" arbitrary: str bitpos result rule: less_induct)
  case less
  note i = less.prems
  from i show ?case
  proof (cases rule: readbyte_inp)
    case eof
    then show ?thesis
      using weak_error [OF inp_weak [OF i]]
      by (simp add: varint32_loop.simps [of env s str bitpos result] scanned_fail)
  next
    case (byte b str')
    have "scanned e s str (varint32_loop env s str' bp res)" for bp res
      by (rule scanned_step [OF less.hyps [OF _ byte(2)]]) (use byte(3) in simp_all)
    with byte weak_error [OF inp_weak [OF byte(2)]] show ?thesis
      by (simp add: varint32_loop.simps [of env s str bitpos result] Let_def scanned_fail scanned_ok)
  qed
qed

lemma varint32_eof_inp:
  assumes "inp e s str"
  obtains (fail) eof str' where "pb_decode_varint32_eof env s str = Some (None, eof, s, str')" "weak str'"
      "eof \<Longrightarrow> i_bytes_left str = 0"
  | (ok) v str' where "pb_decode_varint32_eof env s str = Some (Some v, False, s, str')" "inp e s str'"
      "i_bytes_left str' < i_bytes_left str"
  using assms
proof (cases rule: readbyte_inp)
  case eof
  then show thesis
    using weak_error [OF inp_weak [OF assms]] by (intro fail) (auto simp: pb_decode_varint32_eof_def)
next
  case (byte b str')
  show thesis
  proof (cases "b AND 0x80 = 0")
    case True
    with byte show thesis by (intro ok) (auto simp: pb_decode_varint32_eof_def)
  next
    case False
    from varint32_loop_inp [OF byte(2), of 7 "ucast (b AND 0x7F)"] show thesis
    proof (cases rule: scannedE)
      case (fail str'')
      with False byte show thesis
        by (intro that(1)) (auto simp: pb_decode_varint32_eof_def)
    next
      case (ok v str'')
      with False byte show thesis
        by (intro that(2) [of v str'']) (auto simp: pb_decode_varint32_eof_def)
    qed
  qed
qed

lemma scans_varint32: "scans (pb_decode_varint32 env)"
  unfolding scans_def
proof (intro allI impI)
  fix e s str assume "inp e s str"
  then show "scanned e s str (pb_decode_varint32 env s str)"
    by (cases rule: varint32_eof_inp) (simp_all add: pb_decode_varint32_def scanned_fail scanned_ok)
qed

lemma decode_tag_inp:
  assumes "inp e s str" and "i_bytes_left str \<noteq> 0"
  obtains (fail) str' where "pb_decode_tag env s str = Some (False, 0, 0, False, s, str')" "weak str'"
  | (stop) str' where "pb_decode_tag env s str = Some (False, 0, 0, True, s, str')" "inp e s str'"
      "i_bytes_left str' < i_bytes_left str"
  | (tag) wt t str' where "pb_decode_tag env s str = Some (True, wt, t, False, s, str')" "inp e s str'"
      "i_bytes_left str' < i_bytes_left str" "unat t < 2 ^ 29"
  using assms(1)
proof (cases rule: varint32_eof_inp)
  case (fail eof str')
  with assms(2) that(1) show thesis by (auto simp: pb_decode_tag_def)
next
  case (ok v str')
  have "unat v < 2 ^ 32" using unsigned_less [of v] by simp
  then have "unat (drop_bit 3 v) < 2 ^ 29"
    by (simp add: unat_drop_bit_eq drop_bit_nat_def less_mult_imp_div_less)
  with ok that(2,3) show thesis by (cases "v = 0") (auto simp: pb_decode_tag_def)
qed

section \<open>Reads, skips and substreams\<close>

lemma safe_skip_bytes: "safe p n (\<lambda>s str. pb_skip_bytes env s str k)"
proof (rule safeI)
  fix e s str assume i: "inp e s str"
  show "safe_on e p n s str (pb_skip_bytes env s str k)"
  proof (cases "k \<le> i_bytes_left str")
    case True
    from inp_read [OF i this] show ?thesis by (auto simp: pb_skip_bytes_def intro!: safe_on_ok)
  next
    case False
    then show ?thesis using inp_short [OF i, of k INull] by (auto simp: pb_skip_bytes_def intro!: safe_on_weak)
  qed
qed

lemma skip_varint_inp:
  assumes "inp e s str"
  shows "safe_on e p n s str (pb_skip_varint env s str)"
  using assms
proof (induction "i_bytes_left str" arbitrary: str rule: less_induct)
  case less
  note i = less.prems
  show ?case
  proof (cases "1 \<le> i_bytes_left str")
    case False
    then obtain str' where "pb_read env s str ILocal 1 = Some (False, [], s, str')" "weak str'"
      using inp_short [OF i, of 1 ILocal] by auto
    then show ?thesis by (simp add: pb_skip_varint.simps [of env s str] safe_on_weak)
  next
    case True
    obtain str' bs where r: "inp e s str'" "i_bytes_left str' + 1 = i_bytes_left str" "length bs = 1"
        "pb_read env s str ILocal 1 = Some (True, bs, s, str')"
      using inp_read [OF i True] by blast
    then obtain b where b: "bs = [b]" by (cases bs) auto
    have "safe_on e p n s str' (pb_skip_varint env s str')"
      by (rule less.hyps [OF _ r(1)]) (use r(2) in simp)
    then have "safe_on e p n s str (pb_skip_varint env s str')"
      by (rule safe_on_step) (use r(2) in simp_all)
    moreover have "safe_on e p n s str (Some (True, s, str'))"
      using r(1,2) by (intro safe_on_ok) simp_all
    moreover have "nth_opt [b] 0 = Some b" by simp
    ultimately show ?thesis
      using r(4) b by (simp add: pb_skip_varint.simps [of env s str] del: nth_opt_Some)
  qed
qed

lemma safe_skip_string: "safe p n (pb_skip_string env)"
  unfolding pb_skip_string_def by (intro safe_scan scans_varint32 safe_skip_bytes)

lemma safe_skip_field: "safe p n (\<lambda>s str. pb_skip_field env s str wt)"
proof (rule safeI)
  fix e s str assume i: "inp e s str" and v: "valid s p n"
  from safeD [OF safe_skip_bytes i v] safeD [OF safe_skip_string i v] skip_varint_inp [OF i]
    safe_on_fail [OF i]
  show "safe_on e p n s str (pb_skip_field env s str wt)"
    by (auto simp: pb_skip_field_def)
qed

text \<open>Reading into memory.\<close>

lemma safe_read_into:
  assumes "p \<le> a" "a + k \<le> p + n"
  shows "safe p n (\<lambda>s str. read_into env s str a k)"
proof (rule safeI)
  fix e s str assume i: "inp e s str" and v: "valid s p n"
  show "safe_on e p n s str (read_into env s str a k)"
  proof (cases "k \<le> i_bytes_left str")
    case False
    then show ?thesis
      using inp_short [OF i, of k "ibuf_at a"] by (auto simp: read_into_def intro!: safe_on_weak)
  next
    case True
    have "valid s a k" by (rule valid_sub [OF v assms])
    with inp_read [OF i True] obtain str' s' where r: "inp e s str'" "i_bytes_left str' + k = i_bytes_left str"
        "pb_read env s str INull k = Some (True, [], s, str')"
        "pb_read env s str (IMem a) k = Some (True, [], s', str')" "only_in a k s s'"
      by blast
    show ?thesis
    proof (cases "a = 0")
      case True
      with r show ?thesis by (auto simp: read_into_def ibuf_at_def intro!: safe_on_ok)
    next
      case False
      with r inp_only [OF r(1,5)] only_in_mono [OF r(5) assms] show ?thesis
        by (auto simp: read_into_def ibuf_at_def intro!: safe_on_ok)
    qed
  qed
qed

text \<open>Storing, and going on.\<close>

lemma safe_store:
  assumes "p \<le> a" "a + length bs \<le> p + n" and "safe p n f"
  shows "safe p n (\<lambda>s str. store_bytes s a bs \<bind> (\<lambda>s. f s str))"
proof (rule safeI)
  fix e s str assume i: "inp e s str" and v: "valid s p n"
  have "valid s a (length bs)" by (rule valid_sub [OF v assms(1,2)])
  then obtain s' where s': "store_bytes s a bs = Some s'" "only_in a (length bs) s s'"
    by (rule store_only_in)
  have "safe_on e p n s' str (f s' str)"
    using s'(2) v by (intro safeD [OF assms(3)] inp_only [OF i s'(2)]) (simp add: valid_only_in [OF s'(2)])
  then have "safe_on e p n s str (f s' str)"
    by (rule safe_on_step [OF _ only_in_mono [OF s'(2) assms(1,2)]]) simp_all
  with s' show "safe_on e p n s str (store_bytes s a bs \<bind> (\<lambda>s. f s str))" by simp
qed

lemma safe_store_uint:
  assumes "p \<le> a" "a + k \<le> p + n" and "safe p n f"
  shows "safe p n (\<lambda>s str. store_uint k s a v \<bind> (\<lambda>s. f s str))"
  unfolding store_uint_def using assms by (intro safe_store) auto

lemma safe_done: "safe p n (\<lambda>s str. Some (True, s, str))"
  by (rule safeI) (rule safe_on_ok; simp)

lemma safe_fail: "safe p n (\<lambda>s str. i_fail s str msg)"
  by (rule safeI) (rule safe_on_fail)

lemma safe_if: "(c \<Longrightarrow> safe p n f) \<Longrightarrow> (\<not> c \<Longrightarrow> safe p n g) \<Longrightarrow> safe p n (\<lambda>s str. if c then f s str else g s str)"
  by (cases c) simp_all

end

end
