(* ===== verification/PbSafeField.thy ===== *)
theory PbSafeField
  imports PbSafe
begin

text \<open>
  The field decoders are \<open>safe\<close> within the data of their field: integers, fixed-width values,
  bytes, strings, fixed-length bytes, and submessages relative to the decoder of their
  messages. The packable ones take at least one byte when they succeed, which is why the
  loop over a packed array ends.
\<close>

context bounded_source
begin

lemma safe_mono:
  assumes "safe q m f" and "p \<le> q" "q + m \<le> p + n"
  shows "safe p n f"
proof (rule safeI)
  fix e s str assume i: "inp e s str" and v: "valid s p n"
  have "safe_on e q m s str (f s str)"
    by (rule safeD [OF assms(1) i valid_sub [OF v assms(2,3)]])
  then show "safe_on e p n s str (f s str)"
    by (rule safe_on_step) (use assms in simp_all)
qed

text \<open>Success takes at least one byte.\<close>

definition eats :: "nat \<Rightarrow> nat \<Rightarrow> (cstate \<Rightarrow> pb_istream \<Rightarrow> ires) \<Rightarrow> bool" where
  "eats p n f \<longleftrightarrow> (\<forall>e s str s' str'. inp e s str \<longrightarrow> valid s p n \<longrightarrow> f s str = Some (True, s', str') \<longrightarrow>
     i_bytes_left str' < i_bytes_left str)"

lemma eatsD: "eats p n f \<Longrightarrow> inp e s str \<Longrightarrow> valid s p n \<Longrightarrow> f s str = Some (True, s', str') \<Longrightarrow>
    i_bytes_left str' < i_bytes_left str"
  by (simp add: eats_def)

lemma eats_scan:
  assumes f: "scans f" and g: "\<And>v. safe p n (g v)"
  shows "eats p n (\<lambda>s str. f s str \<bind> (\<lambda>(r, s, str).
     case r of None \<Rightarrow> Some (False, s, str) | Some v \<Rightarrow> g v s str))"
  unfolding eats_def
proof (intro allI impI)
  fix e s str s' str'
  assume i: "inp e s str" and v: "valid s p n"
    and eq: "f s str \<bind> (\<lambda>(r, s, str). case r of None \<Rightarrow> Some (False, s, str) | Some v \<Rightarrow> g v s str) =
      Some (True, s', str')"
  from f i show "i_bytes_left str' < i_bytes_left str"
  proof (cases rule: scansE)
    case (fail str1)
    with eq show ?thesis by simp
  next
    case (ok x str1)
    from safeD [OF g ok(2) v, of x] show ?thesis
      by (cases rule: safe_onE) (use ok eq in simp_all)
  qed
qed

section \<open>Scalars\<close>

lemma safe_store_clamped: "safe a w (\<lambda>s str. store_clamped s str w a c v)"
proof (cases c)
  case None
  then show ?thesis by (simp add: store_clamped_def safe_fail)
next
  case (Some x)
  have "safe a w (\<lambda>s str. store_uint w s a (unat v) \<bind>
      (\<lambda>s. if x \<noteq> v then i_fail s str ''integer too large'' else Some (True, s, str)))"
    by (intro safe_store_uint safe_if safe_fail safe_done) simp_all
  with Some show ?thesis by (simp add: store_clamped_def)
qed

lemma safe_dec_varint:
  "safe a (f_data_size f) (\<lambda>s str. pb_dec_varint env s str f a)"
  "eats a (f_data_size f) (\<lambda>s str. pb_dec_varint env s str f a)"
  unfolding pb_dec_varint_def Let_def
  by (intro safe_scan eats_scan scans_varint safe_store_clamped)+

lemma safe_dec_uvarint:
  "safe a (f_data_size f) (\<lambda>s str. pb_dec_uvarint env s str f a)"
  "eats a (f_data_size f) (\<lambda>s str. pb_dec_uvarint env s str f a)"
  unfolding pb_dec_uvarint_def Let_def
  by (intro safe_scan eats_scan scans_varint safe_store_clamped)+

lemma safe_dec_svarint:
  "safe a (f_data_size f) (\<lambda>s str. pb_dec_svarint env s str f a)"
  "eats a (f_data_size f) (\<lambda>s str. pb_dec_svarint env s str f a)"
  unfolding pb_dec_svarint_def Let_def
  by (intro safe_scan eats_scan scans_svarint safe_store_clamped)+

text \<open>The fixed-width reads: some bytes into a local array, then one store.\<close>

lemma safe_read_local:
  assumes "\<And>bs. length bs = k \<Longrightarrow> safe p n (g bs)" and "0 < k"
  defines "h \<equiv> (\<lambda>s str. pb_read env s str ILocal k \<bind> (\<lambda>(ok, bs, s, str).
     if \<not> ok then Some (False, s, str) else if length bs \<noteq> k then None else g bs s str))"
  shows "safe p n h" and "eats p n h"
proof -
  have *: "safe_on e p n s str (h s str) \<and>
      (\<forall>s' str'. h s str = Some (True, s', str') \<longrightarrow> i_bytes_left str' < i_bytes_left str)"
    if i: "inp e s str" and v: "valid s p n" for e s str
  proof (cases "k \<le> i_bytes_left str")
    case False
    then obtain str' where "pb_read env s str ILocal k = Some (False, [], s, str')" "weak str'"
      using inp_short [OF i, of k ILocal] by auto
    then show ?thesis by (simp add: h_def safe_on_weak)
  next
    case True
    obtain str' bs where r: "inp e s str'" "i_bytes_left str' + k = i_bytes_left str" "length bs = k"
        "pb_read env s str ILocal k = Some (True, bs, s, str')"
      using inp_read [OF i True] by blast
    have g: "safe_on e p n s str' (g bs s str')" by (rule safeD [OF assms(1) [OF r(3)] r(1) v])
    then have "safe_on e p n s str (g bs s str')" by (rule safe_on_step) (use r in simp_all)
    moreover have "\<forall>s' str''. g bs s str' = Some (True, s', str'') \<longrightarrow> i_bytes_left str'' < i_bytes_left str"
      using g by (cases rule: safe_onE) (use r assms(2) in auto)
    ultimately show ?thesis using r by (simp add: h_def)
  qed
  then show "safe p n h" by (intro safeI) blast
  show "eats p n h" unfolding eats_def using * by blast
qed

lemma safe_dec_fixed32:
  assumes "4 \<le> w"
  shows "safe a w (\<lambda>s str. pb_dec_fixed32 env s str f a)" "eats a w (\<lambda>s str. pb_dec_fixed32 env s str f a)"
proof -
  have "safe a w (\<lambda>s str. store_uint 4 s a (unat (bytes_u32 bs)) \<bind> (\<lambda>s. Some (True, s, str)))" for bs
    using assms by (intro safe_store_uint safe_done) simp_all
  then show "safe a w (\<lambda>s str. pb_dec_fixed32 env s str f a)" "eats a w (\<lambda>s str. pb_dec_fixed32 env s str f a)"
    unfolding pb_dec_fixed32_def pb_decode_fixed32_def by (intro safe_read_local; simp)+
qed

lemma safe_dec_fixed64:
  assumes "8 \<le> w"
  shows "safe a w (\<lambda>s str. pb_dec_fixed64 env s str f a)" "eats a w (\<lambda>s str. pb_dec_fixed64 env s str f a)"
proof -
  have "safe a w (\<lambda>s str. store_uint 8 s a (unat (bytes_u64 bs)) \<bind> (\<lambda>s. Some (True, s, str)))" for bs
    using assms by (intro safe_store_uint safe_done) simp_all
  then show "safe a w (\<lambda>s str. pb_dec_fixed64 env s str f a)" "eats a w (\<lambda>s str. pb_dec_fixed64 env s str f a)"
    unfolding pb_dec_fixed64_def pb_decode_fixed64_def by (intro safe_read_local; simp)+
qed

section \<open>Bytes and strings in static storage\<close>

lemma safe_dec_bytes:
  assumes "PB_ATYPE (f_type f) = PB_ATYPE_STATIC"
  shows "safe a (f_data_size f) (\<lambda>s str. pb_dec_bytes env s str f a)"
proof -
  have "safe a (f_data_size f) (\<lambda>s str. store_u32 s a n \<bind> (\<lambda>s. read_into env s str (a + 4) n))"
    if "\<not> PB_BYTES_ARRAY_T_ALLOCSIZE n > f_data_size f" "n < 2 ^ 32" for n
    using that by (intro safe_store_uint safe_read_into) (simp_all add: PB_BYTES_ARRAY_T_ALLOCSIZE_def)
  moreover have "unat (sz :: 32 word) < 2 ^ 32" for sz using unsigned_less [of sz] by simp
  ultimately show ?thesis
    unfolding pb_dec_bytes_def Let_def
    by (intro safe_scan scans_varint32 safe_if safe_fail) (simp_all add: assms)
qed

text \<open>The terminating zero is stored whether the read succeeded or not.\<close>

lemma safe_read_string:
  assumes "Suc k \<le> n"
  shows "safe a n (\<lambda>s str. do { (status, s, str) \<leftarrow> read_into env s str a k;
     s \<leftarrow> store_bytes s (a + k) [0]; Some (status, s, str) })"
proof (rule safeI)
  fix e s str assume i: "inp e s str" and v: "valid s a n"
  let ?h = "\<lambda>(status, s, str). store_bytes s (a + k) [0] \<bind> (\<lambda>s. Some (status, s, str))"
  have st: "\<exists>s2. store_bytes s' (a + k) [0] = Some s2 \<and> only_in a n s' s2" if "only_in a n s s'" for s'
  proof -
    have "valid s' (a + k) (length [0 :: byte])"
      unfolding valid_only_in [OF that] by (rule valid_sub [OF v]) (use assms in simp_all)
    then obtain s2 where s2: "store_bytes s' (a + k) [0] = Some s2" "only_in (a + k) (length [0 :: byte]) s' s2"
      by (rule store_only_in)
    have "only_in a n s' s2" by (rule only_in_mono [OF s2(2)]) (use assms in simp_all)
    with s2(1) show ?thesis by blast
  qed
  have "safe a n (\<lambda>s str. read_into env s str a k)" using assms by (intro safe_read_into) simp_all
  from safeD [OF this i v] show "safe_on e a n s str (read_into env s str a k \<bind> ?h)"
  proof (cases rule: safe_onE)
    case (fail s' str')
    obtain s2 where s2: "store_bytes s' (a + k) [0] = Some s2" "only_in a n s' s2" using st [OF fail(2)] by blast
    from fail s2(1) safe_on_weak [OF only_in_trans [OF fail(2) s2(2)] fail(3)] show ?thesis by simp
  next
    case (ok s' str')
    obtain s2 where s2: "store_bytes s' (a + k) [0] = Some s2" "only_in a n s' s2" using st [OF ok(2)] by blast
    with ok inp_only [OF ok(3) s2(2)] only_in_trans [OF ok(2) s2(2)] show ?thesis
      by (auto intro!: safe_on_ok)
  qed
qed

lemma safe_dec_string:
  assumes "PB_ATYPE (f_type f) = PB_ATYPE_STATIC"
  shows "safe a (f_data_size f) (\<lambda>s str. pb_dec_string env s str f a)"
proof -
  have "Suc (unat sz) \<le> f_data_size f"
    if "\<not> unat (sz + 1) < unat sz" "\<not> unat (sz + 1) > f_data_size f" for sz :: "32 word"
  proof -
    have "sz + 1 \<noteq> 0"
    proof
      assume z: "sz + 1 = 0"
      with that(1) have "unat sz = 0" by simp
      then have "sz = 0" by (simp add: unat_eq_0)
      with z show False by simp
    qed
    then have "unat (sz + 1) = Suc (unat sz)" by (simp add: unatSuc add.commute)
    with that(2) show ?thesis by simp
  qed
  then show ?thesis
    unfolding pb_dec_string_def Let_def
    by (intro safe_scan scans_varint32 safe_if safe_fail safe_read_string) (simp_all add: assms)
qed

lemma safe_dec_fixed_length_bytes:
  "safe a (f_data_size f) (\<lambda>s str. pb_dec_fixed_length_bytes env s str f a)"
  unfolding pb_dec_fixed_length_bytes_def memset0_def
  by (intro safe_scan scans_varint32 safe_if safe_fail safe_read_into safe_store safe_done) simp_all

section \<open>Substreams\<close>

lemma close_safe:
  assumes p: "pend e m s par" and o: "outcome m p n s0 sub0 status s sub" and l: "i_bytes_left par \<le> i_bytes_left str"
  shows "safe_on e p n s0 str (close_and_return env s par sub status)"
proof (cases status)
  case True
  with o have i: "inp m s sub" and ch: "only_in p n s0 s" by (simp_all add: outcome_def)
  obtain sub' where s': "inp m s sub'" "i_bytes_left sub' = 0"
      "i_bytes_left sub \<noteq> 0 \<longrightarrow> pb_read env s sub INull (i_bytes_left sub) = Some (True, [], s, sub')"
      "i_bytes_left sub = 0 \<longrightarrow> sub' = sub"
    using inp_read [OF i order_refl] i by (cases "i_bytes_left sub = 0") auto
  have "safe_on e p n s0 str (Some (True, s, par\<lparr>i_state := i_state sub', i_errmsg := i_errmsg sub'\<rparr>))"
    using ch inp_close [OF p s'(1,2)] l by (intro safe_on_ok) simp_all
  with s' True show ?thesis
    by (cases "i_bytes_left sub = 0") (simp_all add: close_and_return_def pb_close_string_substream_def pb_skip_bytes_def)
next
  case False
  with o have w: "weak sub" and ch: "only_in p n s0 s" by (simp_all add: outcome_def)
  obtain ok sub' where "pb_read env s sub INull (i_bytes_left sub) = Some (ok, [], s, sub')"
    using weak_skip [OF w] by blast
  with False ch pend_weak [OF p] weak_update [OF pend_weak [OF p]] show ?thesis
    by (cases "i_bytes_left sub = 0"; cases ok)
      (auto simp: close_and_return_def pb_close_string_substream_def pb_skip_bytes_def intro!: safe_on_weak)
qed

text \<open>Opening a substream.\<close>

lemma open_safe:
  assumes "inp e s str"
  obtains (fail) str' where "pb_make_string_substream env s str = Some (None, s, str')" "weak str'"
  | (ok) m sub par where "pb_make_string_substream env s str = Some (Some sub, s, par)"
      "inp m s sub" "pend e m s par" "i_bytes_left par < i_bytes_left str"
  using scans_varint32 assms
proof (cases rule: scansE)
  case (fail str')
  then show thesis by (intro that(1)) (simp_all add: pb_make_string_substream_def)
next
  case (ok sz str')
  show thesis
  proof (cases "unat sz \<le> i_bytes_left str'")
    case True
    from inp_open [OF ok(2) this] obtain m where "inp m s (str'\<lparr>i_bytes_left := unat sz\<rparr>)"
      "pend e m s (str'\<lparr>i_bytes_left := i_bytes_left str' - unat sz\<rparr>)" by blast
    with ok True show thesis
      by (intro that(2) [of "str'\<lparr>i_bytes_left := unat sz\<rparr>" "str'\<lparr>i_bytes_left := i_bytes_left str' - unat sz\<rparr>" m])
        (auto simp: pb_make_string_substream_def)
  next
    case False
    with ok weak_error [OF inp_weak [OF ok(2)]] show thesis
      by (intro that(1)) (auto simp: pb_make_string_substream_def)
  qed
qed

lemma safe_substream:
  assumes "safe p n dec"
  shows "safe p n (decode_delimited_with env dec)"
proof (rule safeI)
  fix e s str assume i: "inp e s str" and v: "valid s p n"
  from i show "safe_on e p n s str (decode_delimited_with env dec s str)"
  proof (cases rule: open_safe)
    case (fail str')
    then show ?thesis by (simp add: decode_delimited_with_def safe_on_weak)
  next
    case (ok m sub par)
    from safeD [OF assms ok(2) v] obtain st s' sub' where d: "dec s sub = Some (st, s', sub')"
        "outcome m p n s sub st s' sub'" unfolding safe_on_def by blast
    have "only_in p n s s'" using d(2) by (simp add: outcome_def)
    from close_safe [OF pend_only [OF ok(3) this] d(2)] ok d(1) show ?thesis
      by (simp add: decode_delimited_with_def)
  qed
qed

lemma safe_dec_submessage:
  assumes "f_ptr f \<noteq> 0"
    and "PB_HTYPE (f_type f) = PB_HTYPE_REPEATED \<Longrightarrow>
      safe a n (\<lambda>s str. decode_with rec s str (descr env (f_ptr f)) a)"
    and "PB_HTYPE (f_type f) \<noteq> PB_HTYPE_REPEATED \<Longrightarrow>
      safe a n (\<lambda>s str. r_noinit rec s str (descr env (f_ptr f)) a)"
  shows "safe a n (\<lambda>s str. pb_dec_submessage env rec s str f a)"
proof -
  have "safe a n (decode_delimited_with env (\<lambda>s sub.
      if PB_HTYPE (f_type f) = PB_HTYPE_REPEATED then decode_with rec s sub (descr env (f_ptr f)) a
      else r_noinit rec s sub (descr env (f_ptr f)) a))"
    using assms by (intro safe_substream safe_if)
  with assms(1) show ?thesis
    by (simp only: pb_dec_submessage_def decode_delimited_with_def [abs_def] if_False)
qed

end

end
