(* ===== verification/PbStatic.thy ===== *)
theory PbStatic
  imports PbSafe
begin

text \<open>
  Descriptor tables of messages kept entirely in their struct: every field static (scalars,
  bytes, strings, submessages; required, optional, repeated, oneof), every member and
  companion inside the struct, submessages to a bounded depth. For such a table the defaults
  are set without leaving the struct, and releasing has nothing to do.
\<close>

section \<open>Static tables\<close>

definition size_rel :: "pb_field list \<Rightarrow> nat \<Rightarrow> int" where
  "size_rel flds i = int (data_at flds i) + f_size_offset (flds ! size_owner flds i)"

definition data_width :: "pb_field \<Rightarrow> nat" where
  "data_width f = (if PB_HTYPE (f_type f) = PB_HTYPE_REPEATED then f_data_size f * f_array_size f
     else f_data_size f)"

text \<open>
  \<open>sub ds flds\<close> says that \<open>flds\<close> is a static table for a struct of \<open>ds\<close> bytes, \<open>live a k\<close> that
  the \<open>k\<close> bytes at \<open>a\<close> are live. A repeated field needs four bytes at its size pointer even
  when it has no counter: \<open>pb_field_set_to_default\<close> stores a zero there.
\<close>

definition static_entry :: "(nat \<Rightarrow> pb_field list \<Rightarrow> bool) \<Rightarrow> pb_env \<Rightarrow> (nat \<Rightarrow> nat \<Rightarrow> bool) \<Rightarrow>
    pb_field list \<Rightarrow> nat \<Rightarrow> nat \<Rightarrow> bool" where
  "static_entry sub env live flds sz i \<longleftrightarrow>
     (let f = flds ! i; lt = PB_LTYPE (f_type f); ht = PB_HTYPE (f_type f); ds = f_data_size f in
      PB_ATYPE (f_type f) = PB_ATYPE_STATIC \<and> lt \<in> {0, 1, 2, 3, 4, 5, 6, 7, 9} \<and>
      data_at flds i + data_width f \<le> sz \<and> data_width f < 2 ^ 32 \<and>
      (lt = PB_LTYPE_FIXED32 \<longrightarrow> 4 \<le> ds) \<and> (lt = PB_LTYPE_FIXED64 \<longrightarrow> 8 \<le> ds) \<and>
      (lt = PB_LTYPE_SUBMESSAGE \<longrightarrow> f_ptr f \<noteq> 0 \<and> sub ds (descr env (f_ptr f))) \<and>
      (lt \<noteq> PB_LTYPE_SUBMESSAGE \<and> f_ptr f \<noteq> 0 \<longrightarrow> live (f_ptr f) ds) \<and>
      (ht = PB_HTYPE_OPTIONAL \<and> size_rel flds i \<noteq> int (data_at flds i) \<longrightarrow>
         0 \<le> size_rel flds i \<and> size_rel flds i + 1 \<le> int sz) \<and>
      (ht = PB_HTYPE_REPEATED \<or> ht = PB_HTYPE_ONEOF \<longrightarrow>
         0 \<le> size_rel flds i \<and> size_rel flds i + 4 \<le> int sz))"

primrec static_table :: "nat \<Rightarrow> pb_env \<Rightarrow> (nat \<Rightarrow> nat \<Rightarrow> bool) \<Rightarrow> nat \<Rightarrow> pb_field list \<Rightarrow> bool" where
  "static_table 0 env live sz flds = False"
| "static_table (Suc d) env live sz flds \<longleftrightarrow>
     terminated flds \<and> length flds < 2 ^ 32 \<and> (field_count flds = 0 \<longrightarrow> flds ! 0 = PB_LAST_FIELD) \<and>
     distinct (map f_tag (take (field_count flds) flds)) \<and>
     (\<forall>i<field_count flds. static_entry (static_table d env live) env live flds sz i)"

lemma static_entryD:
  assumes "static_entry sub env live flds sz i"
  shows "PB_ATYPE (f_type (flds ! i)) = PB_ATYPE_STATIC"
    and "PB_LTYPE (f_type (flds ! i)) \<in> {0, 1, 2, 3, 4, 5, 6, 7, 9}"
    and "data_at flds i + data_width (flds ! i) \<le> sz"
    and "data_width (flds ! i) < 2 ^ 32"
    and "PB_LTYPE (f_type (flds ! i)) = PB_LTYPE_FIXED32 \<Longrightarrow> 4 \<le> f_data_size (flds ! i)"
    and "PB_LTYPE (f_type (flds ! i)) = PB_LTYPE_FIXED64 \<Longrightarrow> 8 \<le> f_data_size (flds ! i)"
    and "PB_LTYPE (f_type (flds ! i)) = PB_LTYPE_SUBMESSAGE \<Longrightarrow>
      f_ptr (flds ! i) \<noteq> 0 \<and> sub (f_data_size (flds ! i)) (descr env (f_ptr (flds ! i)))"
    and "PB_LTYPE (f_type (flds ! i)) \<noteq> PB_LTYPE_SUBMESSAGE \<Longrightarrow> f_ptr (flds ! i) \<noteq> 0 \<Longrightarrow>
      live (f_ptr (flds ! i)) (f_data_size (flds ! i))"
    and "PB_HTYPE (f_type (flds ! i)) = PB_HTYPE_OPTIONAL \<Longrightarrow> size_rel flds i \<noteq> int (data_at flds i) \<Longrightarrow>
      0 \<le> size_rel flds i \<and> size_rel flds i + 1 \<le> int sz"
    and "PB_HTYPE (f_type (flds ! i)) = PB_HTYPE_REPEATED \<or> PB_HTYPE (f_type (flds ! i)) = PB_HTYPE_ONEOF \<Longrightarrow>
      0 \<le> size_rel flds i \<and> size_rel flds i + 4 \<le> int sz"
  using assms unfolding static_entry_def by (auto simp: Let_def)

lemma size_at_rel: "0 \<le> size_rel flds i \<Longrightarrow> size_at flds p i = p + nat (size_rel flds i)"
proof -
  assume r: "0 \<le> size_rel flds i"
  have "int (p + data_at flds i) + f_size_offset (flds ! size_owner flds i) = int p + size_rel flds i"
    by (simp add: size_rel_def)
  then have "size_at flds p i = nat (int p + size_rel flds i)" by (simp only: size_at_def ptr_add_def)
  with r show ?thesis by (simp add: nat_add_distrib)
qed

text \<open>The size pointer of an entry that has a counter or flag lies in the struct.\<close>

lemma size_at_in:
  assumes "0 \<le> size_rel flds i \<and> size_rel flds i + k \<le> int sz" "0 \<le> k"
  shows "p \<le> size_at flds p i" "size_at flds p i + nat k \<le> p + sz"
  using assms by (simp_all add: size_at_rel) linarith

lemma size_is_data_at: "size_is_data (iter_at flds p i) \<longleftrightarrow> size_at flds p i = p + data_at flds i"
  by (simp add: size_is_data_def)

lemma size_is_data_rel:
  assumes "\<not> size_is_data (iter_at flds p i)"
  shows "size_rel flds i \<noteq> int (data_at flds i)"
  using assms size_at_rel [of flds i p] by (auto simp: size_is_data_at)

section \<open>The loop over the fields of a message\<close>

lemma each_field_at:
  assumes t: "terminated flds" and i: "i < field_count flds"
    and step: "\<And>j s. j < field_count flds \<Longrightarrow> Q s \<Longrightarrow> \<exists>s'. rf s (iter_at flds p j) = Some s' \<and> Q s'"
    and Q: "Q s"
  shows "\<exists>s'. each_field_loop rf s (iter_at flds p i) = Some s' \<and> Q s'"
  using i Q
proof (induction "field_count flds - i" arbitrary: i s)
  case 0
  then show ?case by simp
next
  case (Suc k)
  from step [OF Suc.prems] obtain s' where s': "rf s (iter_at flds p i) = Some s'" "Q s'" by blast
  show ?case
  proof (cases "Suc i < field_count flds")
    case True
    with Suc.hyps s' have "\<exists>s''. each_field_loop rf s' (iter_at flds p (Suc i)) = Some s'' \<and> Q s''"
      by (intro Suc.hyps(1)) simp_all
    with True s' show ?thesis
      by (simp add: each_field_loop.simps [of rf s] iter_next_at [OF t Suc.prems(1)])
  next
    case False
    with s' show ?thesis
      by (simp add: each_field_loop.simps [of rf s] iter_next_at [OF t Suc.prems(1)])
  qed
qed

lemma it_field_at: "i < length flds \<Longrightarrow> it_field (iter_at flds p i) = Some (flds ! i)"
  by (simp add: it_field_def)

section \<open>Setting defaults\<close>

text \<open>\<open>in_struct\<close>: what a message at \<open>p\<close> of \<open>sz\<close> bytes needs of memory.\<close>

definition in_struct :: "(nat \<Rightarrow> nat \<Rightarrow> bool) \<Rightarrow> nat \<Rightarrow> nat \<Rightarrow> cstate \<Rightarrow> bool" where
  "in_struct live p sz s \<longleftrightarrow> (\<forall>a k. valid s a k = live a k) \<and> live p sz"

lemma in_struct_only: "in_struct live p sz s \<Longrightarrow> only_in q k s s' \<Longrightarrow> in_struct live p sz s'"
  by (auto simp: in_struct_def valid_only_in)

lemma in_struct_sub: "in_struct live p sz s \<Longrightarrow> p \<le> q \<Longrightarrow> q + k \<le> p + sz \<Longrightarrow> in_struct live q k s"
  unfolding in_struct_def by (metis valid_sub)

lemma in_struct_valid: "in_struct live p sz s \<Longrightarrow> p \<le> q \<Longrightarrow> q + k \<le> p + sz \<Longrightarrow> valid s q k"
  using in_struct_sub [of live p sz s q k] by (auto simp: in_struct_def)

lemma store_in_struct:
  assumes "in_struct live p sz s" "p \<le> a" "a + length bs \<le> p + sz"
  shows "\<exists>s'. store_bytes s a bs = Some s' \<and> only_in p sz s s'"
proof -
  have "valid s a (length bs)" by (rule in_struct_valid [OF assms])
  then show ?thesis by (rule store_only_in) (use only_in_mono assms in blast)
qed

lemma defaults_at:
  assumes "static_table d env live sz flds" and "d \<le> D" and "in_struct live p sz s"
  shows "\<exists>s'. message_set_to_defaults (pb_field_set_to_default D env) s flds p = Some s' \<and> only_in p sz s s'"
  using assms
proof (induction D arbitrary: d sz flds p s)
  case 0
  then show ?case by simp
next
  case (Suc D)
  then obtain d' where d: "d = Suc d'" "d' \<le> D" by (cases d) auto
  have t: "terminated flds" and e: "\<And>i. i < field_count flds \<Longrightarrow> static_entry (static_table d' env live) env live flds sz i"
    using Suc.prems(1) d by simp_all
  have entry: "\<exists>s'. set_to_default_body env (pb_field_set_to_default D env) s (iter_at flds p i) = Some s' \<and>
      only_in p sz s s'"
    if i: "i < field_count flds" and s: "in_struct live p sz s" for i s
  proof -
    let ?f = "flds ! i"
    note E = static_entryD [OF e [OF i]]
    have l: "i < length flds" using i field_count_less [OF t] by simp
    have ext: "PB_LTYPE (f_type ?f) \<noteq> PB_LTYPE_EXTENSION" using E(2) by auto
    let ?a = "p + data_at flds i"
    have data: "\<exists>s'. set_data_to_default env (pb_field_set_to_default D env) s ?f ?a = Some s' \<and> only_in p sz s s'"
      if r: "PB_HTYPE (f_type ?f) \<noteq> PB_HTYPE_REPEATED" and s: "in_struct live p sz s" for s
    proof -
      have w: "?a + f_data_size ?f \<le> p + sz" using E(3) r by (simp add: data_width_def)
      show ?thesis
      proof (cases "PB_LTYPE (f_type ?f) = PB_LTYPE_SUBMESSAGE")
        case True
        with Suc.IH [OF _ d(2) in_struct_sub [OF s _ w]] E(7) obtain s' where
          "message_set_to_defaults (pb_field_set_to_default D env) s (descr env (f_ptr ?f)) ?a = Some s'"
          "only_in ?a (f_data_size ?f) s s'" by auto
        with True only_in_mono [OF this(2) _ w] show ?thesis by (simp add: set_data_to_default_def)
      next
        case False
        show ?thesis
        proof (cases "f_ptr ?f = 0")
          case True
          with False store_in_struct [OF s, of ?a "replicate (f_data_size ?f) 0"] w show ?thesis
            by (simp add: set_data_to_default_def memset0_def)
        next
          case ptr: False
          with False E(8) s obtain bs where bs: "load_bytes s (f_ptr ?f) (f_data_size ?f) = Some bs"
            by (auto simp: in_struct_def load_bytes_def)
          then have "length bs = f_data_size ?f" by (rule length_load_bytes)
          with False ptr bs store_in_struct [OF s, of ?a bs] w show ?thesis
            by (simp add: set_data_to_default_def)
        qed
      qed
    qed
    have size: "\<exists>s'. store_uint k s (size_at flds p i) v = Some s' \<and> only_in p sz s s'"
      if "0 \<le> size_rel flds i \<and> size_rel flds i + int k \<le> int sz" for k v
      using size_at_in [OF that, of p] store_in_struct [OF s, of "size_at flds p i" "nat_le k v"]
      by (simp add: store_uint_def)
    show ?thesis
    proof (cases "PB_HTYPE (f_type ?f) = PB_HTYPE_REPEATED \<or> PB_HTYPE (f_type ?f) = PB_HTYPE_ONEOF")
      case True
      with size [of 4 0] E(1,10) ext l show ?thesis
        by (auto simp: set_to_default_body_def it_field_at Let_def store_size_def)
    next
      case False
      show ?thesis
      proof (cases "PB_HTYPE (f_type ?f) = PB_HTYPE_OPTIONAL \<and> \<not> size_is_data (iter_at flds p i)")
        case True
        with size [of 1 0] E(9) size_is_data_rel obtain s1 where s1:
          "store_bool s (size_at flds p i) False = Some s1" "only_in p sz s s1"
          by (auto simp: store_bool_def)
        from data [OF _ in_struct_only [OF s s1(2)]] False obtain s2 where
          "set_data_to_default env (pb_field_set_to_default D env) s1 ?f ?a = Some s2" "only_in p sz s1 s2" by blast
        with True False s1 E(1) ext l only_in_trans [OF s1(2) this(2)] show ?thesis
          by (simp add: set_to_default_body_def it_field_at Let_def store_has_def)
      next
        case no: False
        from data [OF _ s] False no E(1) ext l show ?thesis
          by (auto simp: set_to_default_body_def it_field_at Let_def)
      qed
    qed
  qed
  show ?case
  proof (cases "field_count flds = 0")
    case True
    with iter_begin_at [OF t, of p] show ?thesis by (simp add: message_set_to_defaults_def)
  next
    case False
    have "\<exists>s'. each_field_loop (pb_field_set_to_default (Suc D) env) s (iter_at flds p 0) = Some s' \<and>
        only_in p sz s s'"
    proof (rule each_field_at [OF t])
      fix j s1 assume "j < field_count flds" and "only_in p sz s s1"
      with entry [OF _ in_struct_only [OF Suc.prems(3)]] only_in_trans
      show "\<exists>s'. pb_field_set_to_default (Suc D) env s1 (iter_at flds p j) = Some s' \<and> only_in p sz s s'"
        by fastforce
    qed (use False in simp_all)
    with False iter_begin_at [OF t, of p] show ?thesis
      by (simp add: message_set_to_defaults_def del: pb_field_set_to_default.simps)
  qed
qed

section \<open>Releasing\<close>

text \<open>A static message owns no heap block: releasing it changes nothing.\<close>

lemma release_items_id:
  "(\<And>j. j < n \<Longrightarrow> rel s (a + j * w) = Some s) \<Longrightarrow> release_items rel w s a n = Some s"
proof (induction n arbitrary: a)
  case (Suc n)
  have "rel s (a + w + j * w) = Some s" if "j < n" for j
    using Suc.prems [of "Suc j"] that by (simp add: add.assoc)
  with Suc.IH [of "a + w"] Suc.prems [of 0] show ?case by simp
qed simp

lemma release_entry:
  assumes sub: "\<And>flds sz a. static_table d env live sz flds \<Longrightarrow> in_struct live a sz s \<Longrightarrow>
      release_with rf s flds a = Some s"
    and e: "static_entry (static_table d env live) env live flds sz i"
    and s: "in_struct live p sz s" and l: "i < length flds"
  shows "release_field_body env rf s (iter_at flds p i) = Some s"
proof -
  let ?f = "flds ! i" and ?a = "p + data_at flds i"
  note E = static_entryD [OF e]
  have ext: "PB_LTYPE (f_type ?f) \<noteq> PB_LTYPE_EXTENSION" using E(2) by auto
  have count: "\<exists>v. load_u32 s (size_at flds p i) = Some v"
    if "PB_HTYPE (f_type ?f) = PB_HTYPE_REPEATED \<or> PB_HTYPE (f_type ?f) = PB_HTYPE_ONEOF"
  proof (rule load_uint_valid)
    show "valid s (size_at flds p i) 4"
      using size_at_in [OF E(10) [OF that]] by (intro in_struct_valid [OF s]) simp_all
  qed
  have subs: "release_submessages env rf s ?f (iter_at flds p i) = Some s"
    if m: "PB_LTYPE (f_type ?f) = PB_LTYPE_SUBMESSAGE"
  proof -
    have item: "release_with rf s (descr env (f_ptr ?f)) (?a + j * f_data_size ?f) = Some s"
      if "Suc j * f_data_size ?f \<le> data_width ?f" for j
    proof (rule sub)
      show "static_table d env live (f_data_size ?f) (descr env (f_ptr ?f))" using E(7) [OF m] by simp
      show "in_struct live (?a + j * f_data_size ?f) (f_data_size ?f) s"
        by (rule in_struct_sub [OF s]) (use that E(3) in simp_all)
    qed
    have all: "release_items (\<lambda>s a. release_with rf s (descr env (f_ptr ?f)) a) (f_data_size ?f) s ?a n = Some s"
      if "n * f_data_size ?f \<le> data_width ?f" for n
    proof (rule release_items_id, rule item)
      fix j assume "j < n"
      then have "Suc j * f_data_size ?f \<le> n * f_data_size ?f" by (intro mult_le_mono1) simp
      with that show "Suc j * f_data_size ?f \<le> data_width ?f" by simp
    qed
    show ?thesis
    proof (cases "PB_HTYPE (f_type ?f) = PB_HTYPE_REPEATED")
      case True
      obtain v where v: "load_u32 s (size_at flds p i) = Some v" using count True by blast
      have "n * f_data_size ?f \<le> data_width ?f" if "n \<le> f_array_size ?f" for n
        using that True mult_le_mono1 [OF that, of "f_data_size ?f"] by (simp add: data_width_def mult.commute)
      with True v E(1) all show ?thesis
        by (simp add: release_submessages_def load_size_def)
    next
      case False
      with E(1) all [of 1] show ?thesis
        by (simp add: release_submessages_def data_width_def)
    qed
  qed
  show ?thesis
  proof (cases "PB_HTYPE (f_type ?f) = PB_HTYPE_ONEOF")
    case True
    then obtain v where "load_u32 s (size_at flds p i) = Some v" using count by blast
    with True ext E(1) subs show ?thesis
      by (simp add: release_field_body_def it_field_at [OF l] load_size_def Let_def)
  next
    case False
    with ext E(1) subs show ?thesis
      by (simp add: release_field_body_def it_field_at [OF l] Let_def)
  qed
qed

lemma release_message:
  assumes t: "terminated flds"
    and e: "\<And>i. i < field_count flds \<Longrightarrow> rf s (iter_at flds p i) = Some s"
  shows "release_with rf s flds p = Some s"
proof (cases "field_count flds = 0")
  case True
  with iter_begin_at [OF t, of p] show ?thesis by (simp add: release_with_def)
next
  case False
  have "\<exists>s'. each_field_loop rf s (iter_at flds p 0) = Some s' \<and> s' = s"
    by (rule each_field_at [OF t]) (use False e in auto)
  with False iter_begin_at [OF t, of p] show ?thesis by (simp add: release_with_def)
qed

lemma release_at:
  assumes "static_table d env live sz flds" and "d \<le> D" and "in_struct live p sz s"
  shows "(\<forall>i<field_count flds. pb_release_single_field D env s (iter_at flds p i) = Some s) \<and>
     release_with (pb_release_single_field D env) s flds p = Some s"
  using assms
proof (induction D arbitrary: d sz flds p)
  case (Suc D)
  then obtain d' where d: "d = Suc d'" "d' \<le> D" by (cases d) auto
  with Suc.prems(1) have t: "terminated flds"
    and e: "\<And>i. i < field_count flds \<Longrightarrow> static_entry (static_table d' env live) env live flds sz i"
    by simp_all
  have *: "pb_release_single_field (Suc D) env s (iter_at flds p i) = Some s" if "i < field_count flds" for i
    using release_entry [OF _ e [OF that] Suc.prems(3)] Suc.IH [OF _ d(2)] that field_count_less [OF t] by simp
  show ?case using release_message [where rf = "pb_release_single_field (Suc D) env", OF t *] * by blast
qed simp

end
