(* ===== verification/PbSafeMessage.thy ===== *)
theory PbSafeMessage
  imports PbSafeField PbStatic
begin

text \<open>
  The message decoder on static tables: for every input it returns, and it changes nothing
  outside the struct. The loops end because every round takes at least one byte. The
  interpretation at the end is for streams over a buffer.
\<close>

section \<open>Searching static tables\<close>

lemma static_find:
  assumes t: "terminated flds" and ext: "\<forall>j<field_count flds. PB_LTYPE (f_type (flds ! j)) \<noteq> PB_LTYPE_EXTENSION"
    and i: "i < field_count flds"
  obtains (miss) "pb_field_iter_find (iter_at flds p i) tag = Some (False, iter_at flds p i)"
      "\<And>j. j < field_count flds \<Longrightarrow> f_tag (flds ! j) \<noteq> tag"
  | (hit) j where "pb_field_iter_find (iter_at flds p i) tag = Some (True, iter_at flds p j)"
      "j < field_count flds" "f_tag (flds ! j) = tag"
proof (cases "\<exists>j<field_count flds. f_tag (flds ! j) = tag")
  case False
  then show thesis
    using iter_find_miss [OF t i, of tag p] by (intro miss) (auto simp: field_matches_def)
next
  case True
  then obtain j where j: "j < field_count flds" "field_matches flds tag j"
    using ext by (auto simp: field_matches_def)
  obtain d where "field_matches flds tag ((i + d) mod field_count flds)"
    "pb_field_iter_find (iter_at flds p i) tag = Some (True, iter_at flds p ((i + d) mod field_count flds))"
    by (rule iter_find_hit [OF t i j, of p])
  then show thesis using i by (intro hit [of "(i + d) mod field_count flds"]) (auto simp: field_matches_def)
qed

lemma distinct_tags:
  assumes "distinct (map f_tag (take (field_count flds) flds))" and "terminated flds"
    and "i < field_count flds" "j < field_count flds" "f_tag (flds ! i) = f_tag (flds ! j)"
  shows "i = j"
proof -
  have l: "field_count flds < length flds" by (rule field_count_less [OF assms(2)])
  have "map f_tag (take (field_count flds) flds) ! i = map f_tag (take (field_count flds) flds) ! j"
    using assms(3-5) l by simp
  with assms(1,3,4) l show ?thesis by (subst (asm) nth_eq_iff_index_eq) auto
qed

context bounded_source
begin

text \<open>What a decoder may call back, for tables of depth \<open>d\<close>.\<close>

definition rec_ok :: "nat \<Rightarrow> pb_rec \<Rightarrow> bool" where
  "rec_ok d rec \<longleftrightarrow> (\<forall>flds sz a. static_table d env live sz flds \<longrightarrow>
     safe a sz (\<lambda>s str. r_noinit rec s str flds a) \<and>
     (\<forall>s. in_struct live a sz s \<longrightarrow>
        (\<exists>s'. message_set_to_defaults (r_default rec) s flds a = Some s' \<and> only_in a sz s s') \<and>
        release_with (r_release rec) s flds a = Some s))"

lemma inp_struct: "inp e s str \<Longrightarrow> valid s p n \<Longrightarrow> in_struct live p n s"
  using inp_live by (auto simp: in_struct_def)

lemma safe_decode_with:
  assumes "rec_ok d rec" and "static_table d env live sz flds"
  shows "safe a sz (\<lambda>s str. decode_with rec s str flds a)"
proof (rule safeI)
  fix e s str assume i: "inp e s str" and v: "valid s a sz"
  obtain s1 where s1: "message_set_to_defaults (r_default rec) s flds a = Some s1" "only_in a sz s s1"
    using assms inp_struct [OF i v] unfolding rec_ok_def by blast
  have f: "safe a sz (\<lambda>s str. r_noinit rec s str flds a)" using assms unfolding rec_ok_def by blast
  have "valid s1 a sz" using v by (simp add: valid_only_in [OF s1(2)])
  from safeD [OF f inp_only [OF i s1(2)] this]
  show "safe_on e a sz s str (decode_with rec s str flds a)"
  proof (cases rule: safe_onE)
    case (fail s2 str2)
    have "only_in a sz s s2" by (rule only_in_trans [OF s1(2) fail(2)])
    moreover from this have "in_struct live a sz s2" by (rule in_struct_only [OF inp_struct [OF i v]])
    then have "release_with (r_release rec) s2 flds a = Some s2"
      using assms unfolding rec_ok_def by blast
    ultimately show ?thesis using s1 fail by (simp add: decode_with_def safe_on_weak)
  next
    case (ok s2 str2)
    with s1 only_in_trans [OF s1(2) ok(2)] show ?thesis by (simp add: decode_with_def safe_on_ok)
  qed
qed

lemma decoder_safe:
  assumes e: "static_entry (static_table d env live) env live flds sz i" and r: "rec_ok d rec"
  obtains func where "PB_DECODERS env rec (PB_LTYPE (f_type (flds ! i))) = Some func"
    "\<And>a. safe a (f_data_size (flds ! i)) (\<lambda>s str. func s str (flds ! i) a)"
    "\<And>a. PB_LTYPE (f_type (flds ! i)) \<le> PB_LTYPE_LAST_PACKABLE \<Longrightarrow>
       eats a (f_data_size (flds ! i)) (\<lambda>s str. func s str (flds ! i) a)"
proof -
  let ?f = "flds ! i"
  note E = static_entryD [OF e]
  have sub: "safe a (f_data_size ?f) (\<lambda>s str. pb_dec_submessage env rec s str ?f a)"
    if "PB_LTYPE (f_type ?f) = PB_LTYPE_SUBMESSAGE" for a
  proof (rule safe_dec_submessage)
    show "f_ptr ?f \<noteq> 0" using E(7) [OF that] by simp
    show "safe a (f_data_size ?f) (\<lambda>s str. decode_with rec s str (descr env (f_ptr ?f)) a)"
      using E(7) [OF that] by (intro safe_decode_with [OF r]) simp
    show "safe a (f_data_size ?f) (\<lambda>s str. r_noinit rec s str (descr env (f_ptr ?f)) a)"
      using E(7) [OF that] r unfolding rec_ok_def by blast
  qed
  consider "PB_LTYPE (f_type ?f) = 0" | "PB_LTYPE (f_type ?f) = 1" | "PB_LTYPE (f_type ?f) = 2"
    | "PB_LTYPE (f_type ?f) = 3" | "PB_LTYPE (f_type ?f) = 4" | "PB_LTYPE (f_type ?f) = 5"
    | "PB_LTYPE (f_type ?f) = 6" | "PB_LTYPE (f_type ?f) = 7" | "PB_LTYPE (f_type ?f) = 9"
    using E(2) by auto
  then show thesis
  proof cases
    case 1 then show thesis using safe_dec_varint by (intro that [of "pb_dec_varint env"]) (simp_all add: PB_DECODERS_def)
  next
    case 2 then show thesis using safe_dec_uvarint by (intro that [of "pb_dec_uvarint env"]) (simp_all add: PB_DECODERS_def)
  next
    case 3 then show thesis using safe_dec_svarint by (intro that [of "pb_dec_svarint env"]) (simp_all add: PB_DECODERS_def)
  next
    case 4 then show thesis using safe_dec_fixed32 [OF E(5)] by (intro that [of "pb_dec_fixed32 env"]) (simp_all add: PB_DECODERS_def)
  next
    case 5 then show thesis using safe_dec_fixed64 [OF E(6)] by (intro that [of "pb_dec_fixed64 env"]) (simp_all add: PB_DECODERS_def)
  next
    case 6 then show thesis using safe_dec_bytes [OF E(1)] by (intro that [of "pb_dec_bytes env"]) (simp_all add: PB_DECODERS_def)
  next
    case 7 then show thesis using safe_dec_string [OF E(1)] by (intro that [of "pb_dec_string env"]) (simp_all add: PB_DECODERS_def)
  next
    case 8 then show thesis using sub by (intro that [of "pb_dec_submessage env rec"]) (simp_all add: PB_DECODERS_def)
  next
    case 9 then show thesis using safe_dec_fixed_length_bytes
      by (intro that [of "pb_dec_fixed_length_bytes env"]) (simp_all add: PB_DECODERS_def)
  qed
qed

section \<open>Packed arrays\<close>

definition safe_fc_on :: "nat \<Rightarrow> nat \<Rightarrow> nat \<Rightarrow> cstate \<Rightarrow> pb_istream \<Rightarrow> fres \<Rightarrow> bool" where
  "safe_fc_on e p n s str r \<longleftrightarrow> (\<exists>ok s' str' fc'. r = Some (ok, s', str', fc') \<and> outcome e p n s str ok s' str')"

lemma safe_fc_with: "safe_on e p n s str r \<Longrightarrow> safe_fc_on e p n s str (with_fc r fc)"
  by (auto simp: safe_on_def safe_fc_on_def with_fc_def)

lemma safe_fc_Some: "safe_fc_on e p n s str (Some (ok, s', str', fc)) \<longleftrightarrow> safe_on e p n s str (Some (ok, s', str'))"
  by (simp add: safe_on_def safe_fc_on_def)

lemma outcome_step:
  assumes "outcome e p n s' str' ok s'' str''" and "only_in p n s s'" and "i_bytes_left str' \<le> i_bytes_left str"
  shows "outcome e p n s str ok s'' str''"
  using assms only_in_trans [OF assms(2)] by (simp add: outcome_def split: if_splits)

lemma safe_fc_step:
  assumes "safe_fc_on e p n s' str' r" and "only_in p n s s'" and "i_bytes_left str' \<le> i_bytes_left str"
  shows "safe_fc_on e p n s str r"
proof -
  from assms(1) obtain ok s'' str'' fc where "r = Some (ok, s'', str'', fc)" "outcome e p n s' str' ok s'' str''"
    unfolding safe_fc_on_def by blast
  with outcome_step [OF this(2) assms(2,3)] show ?thesis unfolding safe_fc_on_def by blast
qed

text \<open>A counter in the struct, or the decoder's local one, can be read and written.\<close>

definition counter_in :: "nat \<Rightarrow> nat \<Rightarrow> psize \<Rightarrow> bool" where
  "counter_in p n pSize \<longleftrightarrow> (case pSize of PSLocal \<Rightarrow> True | PSMem a \<Rightarrow> p \<le> a \<and> a + 4 \<le> p + n)"

lemma counter_read: "counter_in p n pSize \<Longrightarrow> valid s p n \<Longrightarrow> \<exists>v. read_size s fc pSize = Some v"
  by (cases pSize) (auto simp: counter_in_def read_size_def intro!: load_uint_valid elim: valid_sub)

lemma counter_write:
  assumes "counter_in p n pSize" and "valid s p n"
  shows "\<exists>s' fc'. write_size s fc pSize v = Some (s', fc') \<and> only_in p n s s'"
proof (cases pSize)
  case (PSMem a)
  with assms have r: "p \<le> a" "a + 4 \<le> p + n" by (simp_all add: counter_in_def)
  obtain s' where "store_u32 s a v = Some s'" "only_in a 4 s s'"
    by (rule store_uint_only_in [OF valid_sub [OF assms(2) r]])
  with PSMem only_in_mono [OF this(2) r] show ?thesis by (simp add: write_size_def)
qed (simp add: write_size_def)

lemma packed_loop_safe:
  assumes f: "\<And>k. k < f_array_size pos \<Longrightarrow> safe p n (\<lambda>s str. func s str (item_at pData pos k)) \<and>
      eats p n (\<lambda>s str. func s str (item_at pData pos k))"
    and c: "counter_in p n pSize"
    and "inp e s sub" and "valid s p n"
  shows "safe_fc_on e p n s sub (static_packed_loop func pos pData pSize s sub fc)"
  using assms(3,4)
proof (induction "i_bytes_left sub" arbitrary: s sub fc rule: less_induct)
  case less
  note i = less.prems(1) and v = less.prems(2)
  obtain k where k: "read_size s fc pSize = Some k" using counter_read [OF c v] by blast
  show ?case
  proof (cases "i_bytes_left sub = 0 \<or> \<not> k < f_array_size pos")
    case True
    with k i show ?thesis
      by (auto simp: static_packed_loop.simps [of func pos pData pSize s sub] safe_fc_Some intro!: safe_on_ok)
  next
    case False
    then have fk: "safe p n (\<lambda>s str. func s str (item_at pData pos k))"
      "eats p n (\<lambda>s str. func s str (item_at pData pos k))" using f by blast+
    from safeD [OF fk(1) i v] show ?thesis
    proof (cases rule: safe_onE)
      case (fail s1 sub1)
      with False k show ?thesis
        by (simp add: static_packed_loop.simps [of func pos pData pSize s sub] safe_fc_Some safe_on_weak)
    next
      case (ok s1 sub1)
      have less1: "i_bytes_left sub1 < i_bytes_left sub" by (rule eatsD [OF fk(2) i v ok(1)])
      have v1: "valid s1 p n" using v by (simp add: valid_only_in [OF ok(2)])
      obtain k1 where k1: "read_size s1 fc pSize = Some k1" using counter_read [OF c v1] by blast
      obtain s2 fc2 where w: "write_size s1 fc pSize (k1 + 1) = Some (s2, fc2)" "only_in p n s1 s2"
        using counter_write [OF c v1] by blast
      have v2: "valid s2 p n" using v1 by (simp add: valid_only_in [OF w(2)])
      have "safe_fc_on e p n s2 sub1 (static_packed_loop func pos pData pSize s2 sub1 fc2)"
        by (rule less.hyps [OF less1 inp_only [OF ok(3) w(2)] v2])
      then have "safe_fc_on e p n s sub (static_packed_loop func pos pData pSize s2 sub1 fc2)"
        by (rule safe_fc_step [OF _ only_in_trans [OF ok(2) w(2)]]) (use less1 in simp)
      with False k ok(1) k1 w(1) show ?thesis
        by (simp add: static_packed_loop.simps [of func pos pData pSize s sub])
    qed
  qed
qed

section \<open>One field\<close>

text \<open>The iterator at an entry, its size pointer perhaps redirected to the local counter.\<close>

definition at_entry :: "pb_field list \<Rightarrow> nat \<Rightarrow> nat \<Rightarrow> pb_field_iter \<Rightarrow> bool" where
  "at_entry flds p i iter \<longleftrightarrow> iter = iter_at flds p i \<or>
     PB_HTYPE (f_type (flds ! i)) = PB_HTYPE_REPEATED \<and> iter = (iter_at flds p i)\<lparr>it_pSize := PSLocal\<rparr>"

lemma at_entry_sel:
  assumes "at_entry flds p i iter"
  shows "it_start iter = flds" "it_pos iter = i" "it_pData iter = p + data_at flds i"
    "it_required_field_index iter = required_before flds i mod 2 ^ 32"
    "i < length flds \<Longrightarrow> it_field iter = Some (flds ! i)"
  using assms by (auto simp: at_entry_def it_field_def)

lemma item_in:
  assumes "k < f_array_size f" "f_data_size f * f_array_size f < 2 ^ 32"
  shows "item_at base f k = base + f_data_size f * k"
    and "f_data_size f * k + f_data_size f \<le> f_data_size f * f_array_size f"
proof -
  have "f_data_size f * Suc k \<le> f_data_size f * f_array_size f" using assms(1) by (intro mult_le_mono2) simp
  then show le: "f_data_size f * k + f_data_size f \<le> f_data_size f * f_array_size f" by simp
  then have "f_data_size f * k < 2 ^ 32" using assms(2) by linarith
  then show "item_at base f k = base + f_data_size f * k" by (simp add: item_at_def)
qed

lemma static_field_safe:
  assumes e: "static_entry (static_table d env live) env live flds sz i" and r: "rec_ok d rec"
    and l: "i < length flds" and it: "at_entry flds p i iter"
    and inp: "inp e s str" and v: "valid s p sz"
  shows "safe_fc_on e p sz s str (decode_static_field env rec s str wt iter fc)"
proof -
  let ?f = "flds ! i" and ?a = "p + data_at flds i"
  let ?ht = "PB_HTYPE (f_type ?f)"
  note E = static_entryD [OF e] and I = at_entry_sel [OF it]
  obtain func where fn: "PB_DECODERS env rec (PB_LTYPE (f_type ?f)) = Some func"
    and fs: "\<And>a. safe a (f_data_size ?f) (\<lambda>s str. func s str ?f a)"
    and fe: "\<And>a. PB_LTYPE (f_type ?f) \<le> PB_LTYPE_LAST_PACKABLE \<Longrightarrow>
       eats a (f_data_size ?f) (\<lambda>s str. func s str ?f a)"
    by (rule decoder_safe [OF e r]) blast
  have whole: "?ht \<noteq> PB_HTYPE_REPEATED \<Longrightarrow> ?a + f_data_size ?f \<le> p + sz"
    using E(3) by (simp add: data_width_def)
  have one: "safe p sz (\<lambda>s str. func s str ?f ?a)" if "?ht \<noteq> PB_HTYPE_REPEATED"
    by (rule safe_mono [OF fs _ whole [OF that]]) simp
  have after: "safe_on e p sz s str (func s' str ?f ?a)"
    if "?ht \<noteq> PB_HTYPE_REPEATED" "only_in p sz s s'" for s'
    by (rule safe_on_step [OF safeD [OF one [OF that(1)] inp_only [OF inp that(2)]] that(2)])
      (use v in \<open>simp_all add: valid_only_in [OF that(2)]\<close>)
  have S: "in_struct live p sz s" by (rule inp_struct [OF inp v])
  consider (req) "?ht = PB_HTYPE_REQUIRED" | (opt) "?ht = PB_HTYPE_OPTIONAL"
    | (rep) "?ht = PB_HTYPE_REPEATED" | (one) "?ht = PB_HTYPE_ONEOF"
    using htype_cases by blast
  then show ?thesis
  proof cases
    case req
    with safe_fc_with [OF safeD [OF one inp v]] fn I(3) l I(5) show ?thesis
      by (simp add: decode_static_field_def)
  next
    case opt
    then have iter: "iter = iter_at flds p i" using it by (simp add: at_entry_def)
    have "\<exists>s'. (if \<not> size_is_data iter then store_has s (it_pSize iter) True else Some s) = Some s' \<and>
        only_in p sz s s'"
    proof (cases "size_is_data iter")
      case False
      then have n: "0 \<le> size_rel flds i \<and> size_rel flds i + 1 \<le> int sz"
        using E(9) [OF opt size_is_data_rel] iter by simp
      from size_at_in [OF n, of p] store_in_struct [OF S, of "size_at flds p i" "nat_le 1 1"] False iter
      show ?thesis by (simp add: store_has_def store_bool_def store_uint_def)
    qed simp
    then obtain s' where s': "(if \<not> size_is_data iter then store_has s (it_pSize iter) True else Some s) = Some s'"
      "only_in p sz s s'" by blast
    from safe_fc_with [OF after [OF _ s'(2)]] opt fn I(3) l I(5) s'(1) show ?thesis
      by (simp add: decode_static_field_def)
  next
    case one
    then have iter: "iter = iter_at flds p i" using it by (simp add: at_entry_def)
    have n: "0 \<le> size_rel flds i \<and> size_rel flds i + 4 \<le> int sz" using E(10) one by blast
    from size_at_in [OF n, of p] store_in_struct [OF S, of "size_at flds p i" "nat_le 4 (unat (f_tag ?f))"] iter
    obtain s1 where s1: "store_size s (it_pSize iter) (unat (f_tag ?f)) = Some s1" "only_in p sz s s1"
      by (auto simp: store_size_def store_uint_def)
    have "\<exists>s2. (if PB_LTYPE (f_type ?f) = PB_LTYPE_SUBMESSAGE then
         do { s \<leftarrow> memset0 s1 ?a (f_data_size ?f);
              message_set_to_defaults (r_default rec) s (descr env (f_ptr ?f)) ?a }
       else Some s1) = Some s2 \<and> only_in p sz s s2"
    proof (cases "PB_LTYPE (f_type ?f) = PB_LTYPE_SUBMESSAGE")
      case True
      have w: "?a + f_data_size ?f \<le> p + sz" using whole one by simp
      obtain s2 where s2: "memset0 s1 ?a (f_data_size ?f) = Some s2" "only_in p sz s1 s2"
        using store_in_struct [OF in_struct_only [OF S s1(2)], of ?a "replicate (f_data_size ?f) 0"] w
        by (auto simp: memset0_def)
      have c: "only_in p sz s s2" by (rule only_in_trans [OF s1(2) s2(2)])
      have "in_struct live ?a (f_data_size ?f) s2"
        by (rule in_struct_sub [OF in_struct_only [OF S c] _ w]) simp
      then obtain s3 where s3: "message_set_to_defaults (r_default rec) s2 (descr env (f_ptr ?f)) ?a = Some s3"
        "only_in ?a (f_data_size ?f) s2 s3" using r E(7) [OF True] unfolding rec_ok_def by blast
      with True s2 only_in_trans [OF c only_in_mono [OF s3(2) _ w]] show ?thesis by simp
    qed (use s1(2) in simp)
    then obtain s2 where s2: "(if PB_LTYPE (f_type ?f) = PB_LTYPE_SUBMESSAGE then
         do { s \<leftarrow> memset0 s1 ?a (f_data_size ?f);
              message_set_to_defaults (r_default rec) s (descr env (f_ptr ?f)) ?a }
       else Some s1) = Some s2" "only_in p sz s s2" by blast
    from safe_fc_with [OF after [OF _ s2(2)], of fc] one fn I(3) l I(5) s1(1) s2(1) show ?thesis
      by (simp add: decode_static_field_def Let_def)
  next
    case rep
    have w: "f_data_size ?f * f_array_size ?f < 2 ^ 32" "?a + f_data_size ?f * f_array_size ?f \<le> p + sz"
      using E(3,4) rep by (simp_all add: data_width_def)
    have item: "p \<le> item_at ?a ?f k" "item_at ?a ?f k + f_data_size ?f \<le> p + sz" if "k < f_array_size ?f" for k
      using item_in [OF that w(1)] w(2) by simp_all
    have fk: "safe p sz (\<lambda>s str. func s str ?f (item_at ?a ?f k))" if "k < f_array_size ?f" for k
      by (rule safe_mono [OF fs item [OF that]])
    have c: "counter_in p sz (it_pSize iter)"
      using it E(10) rep size_at_in [of flds i 4 sz p] by (auto simp: at_entry_def counter_in_def)
    show ?thesis
    proof (cases "wt = PB_WT_STRING \<and> PB_LTYPE (f_type ?f) \<le> PB_LTYPE_LAST_PACKABLE")
      case True
      from inp show ?thesis
      proof (cases rule: open_safe)
        case (fail str')
        with True rep fn I l show ?thesis
          by (simp add: decode_static_field_def Let_def safe_fc_Some safe_on_weak)
      next
        case (ok m sub par)
        have fek: "eats p sz (\<lambda>s str. func s str ?f (item_at ?a ?f k))" if "k < f_array_size ?f" for k
          unfolding eats_def
        proof (intro allI impI)
          fix e s str s' str'
          assume "inp e s str" "valid s p sz" "func s str ?f (item_at ?a ?f k) = Some (True, s', str')"
          with eatsD [OF fe] True valid_sub [OF _ item [OF that]] show "i_bytes_left str' < i_bytes_left str" by blast
        qed
        have "safe_fc_on m p sz s sub (static_packed_loop (\<lambda>s str p. func s str ?f p) ?f ?a (it_pSize iter) s sub fc)"
          by (rule packed_loop_safe [OF _ c ok(2) v]) (use fk fek in blast)
        then obtain st s' sub' fc' where loop: "static_packed_loop (\<lambda>s str p. func s str ?f p) ?f ?a (it_pSize iter) s sub fc =
            Some (st, s', sub', fc')" "outcome m p sz s sub st s' sub'"
          unfolding safe_fc_on_def by blast
        have ch: "only_in p sz s s'" using loop(2) by (simp add: outcome_def)
        have "safe_on e p sz s str (i_fail s' par ''array overflow'')"
          by (rule safe_on_weak_fail [OF ch pend_weak [OF ok(3)]])
        moreover have "safe_on e p sz s str (close_and_return env s' par sub' st)"
          using close_safe [OF pend_only [OF ok(3) ch] loop(2)] ok(4) by simp
        ultimately show ?thesis
          using True rep fn I l ok(1) loop(1) by (simp add: decode_static_field_def Let_def safe_fc_with)
      qed
    next
      case False
      obtain n where n: "read_size s fc (it_pSize iter) = Some n" using counter_read [OF c v] by blast
      obtain s' fc' where w': "write_size s fc (it_pSize iter) (n + 1) = Some (s', fc')" "only_in p sz s s'"
        using counter_write [OF c v] by blast
      have "safe_on e p sz s str (i_fail s' str ''array overflow'')"
        by (rule safe_on_weak_fail [OF w'(2) inp_weak [OF inp]])
      moreover have "safe_on e p sz s str (func s' str ?f (item_at ?a ?f n))" if "n < f_array_size ?f"
        by (rule safe_on_step [OF safeD [OF fk [OF that] inp_only [OF inp w'(2)]] w'(2)])
          (use v in \<open>simp_all add: valid_only_in [OF w'(2)]\<close>)
      ultimately show ?thesis
        using False rep fn I l n w'(1) by (auto simp: decode_static_field_def Let_def safe_fc_with)
    qed
  qed
qed

text \<open>A oneof gives up its old member first; static members have nothing to release.\<close>

definition quiet :: "pb_rec \<Rightarrow> pb_field list \<Rightarrow> nat \<Rightarrow> nat \<Rightarrow> bool" where
  "quiet rec flds p sz \<longleftrightarrow> (\<forall>s. in_struct live p sz s \<longrightarrow>
     (\<forall>j<field_count flds. r_release rec s (iter_at flds p j) = Some s))"

lemma static_tableD:
  assumes "static_table (Suc d) env live sz flds"
  shows "terminated flds" "length flds < 2 ^ 32" "field_count flds = 0 \<Longrightarrow> flds ! 0 = PB_LAST_FIELD"
    "distinct (map f_tag (take (field_count flds) flds))"
    "\<And>i. i < field_count flds \<Longrightarrow> static_entry (static_table d env live) env live flds sz i"
    "\<forall>i<field_count flds. PB_LTYPE (f_type (flds ! i)) \<noteq> PB_LTYPE_EXTENSION"
    "\<And>i. i < field_count flds \<Longrightarrow> i < length flds"
proof -
  show t: "terminated flds" and "length flds < 2 ^ 32" "field_count flds = 0 \<Longrightarrow> flds ! 0 = PB_LAST_FIELD"
    "distinct (map f_tag (take (field_count flds) flds))"
    and e: "\<And>i. i < field_count flds \<Longrightarrow> static_entry (static_table d env live) env live flds sz i"
    using assms by simp_all
  show "\<forall>i<field_count flds. PB_LTYPE (f_type (flds ! i)) \<noteq> PB_LTYPE_EXTENSION"
    using static_entryD(2) [OF e] by fastforce
  show "i < length flds" if "i < field_count flds" for i using that field_count_less [OF t] by simp
qed

lemma release_union_safe:
  assumes t: "static_table (Suc d) env live sz flds" and q: "quiet rec flds p sz"
    and i: "i < field_count flds" and one: "PB_HTYPE (f_type (flds ! i)) = PB_HTYPE_ONEOF"
    and inp: "inp e s str" and v: "valid s p sz"
  obtains (fail) str' iter where
    "pb_release_union_field (r_release rec) s str (iter_at flds p i) = Some (False, s, str', iter)" "weak str'"
  | (ok) "pb_release_union_field (r_release rec) s str (iter_at flds p i) = Some (True, s, str, iter_at flds p i)"
proof -
  note T = static_tableD [OF t]
  have S: "in_struct live p sz s" by (rule inp_struct [OF inp v])
  have n: "0 \<le> size_rel flds i \<and> size_rel flds i + 4 \<le> int sz"
    using static_entryD(10) [OF T(5) [OF i]] one by blast
  have "valid s (size_at flds p i) 4"
    using size_at_in [OF n, of p] by (intro in_struct_valid [OF S]) simp_all
  then obtain old where old: "load_u32 s (size_at flds p i) = Some old" using load_uint_valid by blast
  note defs = pb_release_union_field_def load_size_def old it_field_at [OF T(7) [OF i]] Let_def
  show thesis
  proof (cases "old = 0 \<or> old = unat (f_tag (flds ! i))")
    case True
    then show thesis by (intro ok) (auto simp: defs)
  next
    case False
    note w = weak_error [OF inp_weak [OF inp]]
    show thesis
    proof (cases rule: static_find [OF T(1) T(6) i, of p "of_nat old", consumes 0, case_names miss hit])
      case miss
      with False w show thesis by (intro fail) (auto simp: defs)
    next
      case (hit j)
      have rel: "r_release rec s (iter_at flds p j) = Some s" using q S hit(2) unfolding quiet_def by blast
      note found = hit(1)
      show thesis
      proof (cases rule: static_find [OF T(1) T(6) hit(2), of p "f_tag (flds ! i)", consumes 0, case_names miss hit])
        case miss
        with False w hit rel show thesis by (intro fail) (auto simp: defs)
      next
        case (hit k)
        have "k = i" by (rule distinct_tags [OF T(4,1) hit(2) i hit(3)])
        with False hit(1) found rel
        show thesis by (intro ok) (auto simp: defs)
      qed
    qed
  qed
qed

definition field_result :: "nat \<Rightarrow> pb_field list \<Rightarrow> nat \<Rightarrow> nat \<Rightarrow> nat \<Rightarrow> cstate \<Rightarrow> pb_istream \<Rightarrow>
    (bool \<times> cstate \<times> pb_istream \<times> pb_field_iter \<times> nat) option \<Rightarrow> bool" where
  "field_result e flds i p n s str r \<longleftrightarrow> (\<exists>ok s' str' iter' fc'. r = Some (ok, s', str', iter', fc') \<and>
     outcome e p n s str ok s' str' \<and> (ok \<longrightarrow> at_entry flds p i iter'))"

lemma decode_field_safe:
  assumes t: "static_table (Suc d) env live sz flds" and r: "rec_ok d rec" and q: "quiet rec flds p sz"
    and i: "i < field_count flds" and it: "at_entry flds p i iter"
    and inp: "inp e s str" and v: "valid s p sz"
  shows "field_result e flds i p sz s str (decode_field env rec s str wt iter fc)"
proof -
  note T = static_tableD [OF t] and I = at_entry_sel [OF it]
  have l: "i < length flds" by (rule T(7) [OF i])
  have st: "PB_ATYPE (f_type (flds ! i)) = PB_ATYPE_STATIC" by (rule static_entryD(1) [OF T(5) [OF i]])
  obtain ok s' str' fc' where d: "decode_static_field env rec s str wt iter fc = Some (ok, s', str', fc')"
      "outcome e p sz s str ok s' str'"
    using static_field_safe [OF T(5) [OF i] r l it inp v, of wt fc] unfolding safe_fc_on_def by blast
  show ?thesis
  proof (cases "PB_HTYPE (f_type (flds ! i)) = PB_HTYPE_ONEOF")
    case False
    with d st it I l show ?thesis by (simp add: field_result_def decode_field_def)
  next
    case True
    then have iter: "iter = iter_at flds p i" using it by (simp add: at_entry_def)
    from t q i True inp v show ?thesis
    proof (cases rule: release_union_safe)
      case (fail str1 iter1)
      with True iter l show ?thesis
        by (auto simp: field_result_def decode_field_def it_field_at outcome_def intro!: exI [of _ False])
    next
      case ok
      with True iter l d st it show ?thesis
        by (auto simp: field_result_def decode_field_def it_field_at)
    qed
  qed
qed

end

end
