(* ===== verification/Leb128.thy ===== *)
theory Leb128
  imports PbPrelude
begin

text \<open>
  The base-128 varint of protocol buffers and of LevelDB as a reference: \<open>varint_bytes\<close>, the
  bits of its bytes, its length and the number it stands for. Both encoders and both
  decoders of the program are compared with it.
\<close>

section \<open>The LEB128 reference encoding\<close>

text \<open>
  The textbook base-128 encoding: low seven bits first, the top bit of every byte but the
  last set.
\<close>

function varint_bytes :: "64 word \<Rightarrow> byte list" where
  "varint_bytes v =
     (if v \<le> 0x7F then [ucast v]
      else (ucast (v AND 0x7F) OR 0x80) # varint_bytes (drop_bit 7 v))"
  by pat_completeness auto
termination
proof (relation "measure unat")
  fix v :: "64 word" assume "\<not> v \<le> 0x7F"
  then have "0 < unat v" by (auto simp: word_le_nat_alt)
  then show "(drop_bit 7 v, v) \<in> measure unat"
    by (simp add: unat_drop_bit_eq drop_bit_nat_def)
qed simp

declare varint_bytes.simps [simp del]

lemma varint_bytes_nonempty [simp]: "varint_bytes v \<noteq> []"
  by (subst varint_bytes.simps) simp

lemma varint_bytes_small: "v \<le> 0x7F \<Longrightarrow> varint_bytes v = [ucast v]"
  by (subst varint_bytes.simps) simp

lemma varint_bytes_large:
  "\<not> v \<le> 0x7F \<Longrightarrow> varint_bytes v = (ucast (v AND 0x7F) OR 0x80) # varint_bytes (drop_bit 7 v)"
  by (subst varint_bytes.simps) simp

lemma drop7_zero_iff: "drop_bit 7 (v :: 64 word) = 0 \<longleftrightarrow> v \<le> 0x7F"
proof -
  have "drop_bit 7 v = 0 \<longleftrightarrow> unat v div 128 = 0"
    by (simp add: word_unat_eq_iff unat_drop_bit_eq drop_bit_nat_def)
  also have "\<dots> \<longleftrightarrow> v \<le> 0x7F" by (auto simp: word_le_nat_alt)
  finally show ?thesis .
qed

lemma mask7_64: "(0x7F :: 64 word) = mask 7" and mask7_8: "(0x7F :: byte) = mask 7"
  by (simp_all add: mask_eq_exp_minus_1)

lemma ucast_or_0x80: "(ucast ((v AND 0x7F) OR 0x80 :: 64 word) :: byte) = ucast (v AND 0x7F) OR 0x80"
  by (simp add: unsigned_or_eq)

lemma fixup_last: "v \<le> 0x7F \<Longrightarrow> (ucast (v AND 0x7F) OR 0x80 :: byte) AND 0x7F = ucast (v :: 64 word)"
proof -
  assume "v \<le> 0x7F"
  then have "v AND 0x7F = v"
    using mask_eq_iff [of v 7] by (simp add: mask7_64 [symmetric] word_le_def)
  moreover have "(w OR 0x80) AND 0x7F = w AND 0x7F" for w :: byte
    by (simp add: bit.conj_disj_distrib2)
  moreover have "(ucast (v AND 0x7F) :: byte) = ucast v AND 0x7F"
    unfolding mask7_64 mask7_8 by (rule bit_eqI) (auto simp: bit_simps)
  ultimately show ?thesis by simp
qed

lemma unat_drop7: "unat (drop_bit 7 (v :: 64 word)) = unat v div 128"
  by (simp add: unat_drop_bit_eq drop_bit_nat_def)

lemma varint_bytes_length_le: "unat v < 2 ^ (7 * Suc k) \<Longrightarrow> length (varint_bytes v) \<le> Suc k"
proof (induction k arbitrary: v)
  case 0
  then show ?case by (simp add: varint_bytes_small word_le_nat_alt)
next
  case (Suc k)
  have "unat (drop_bit 7 v) < 2 ^ (7 * Suc k)"
    using Suc.prems by (simp add: unat_drop7 power_add less_mult_imp_div_less)
  then have "length (varint_bytes (drop_bit 7 v)) \<le> Suc k" by (rule Suc.IH)
  then show ?case
    by (cases "v \<le> 0x7F") (simp_all add: varint_bytes_small varint_bytes_large)
qed

lemma varint_bytes_length_10: "length (varint_bytes v) \<le> 10"
proof -
  have "unat v < 2 ^ 64" using unsigned_less [of v] by simp
  also have "(2::nat) ^ 64 \<le> 2 ^ (7 * Suc 9)" by simp
  finally have "length (varint_bytes v) \<le> Suc 9" by (rule varint_bytes_length_le)
  then show ?thesis by simp
qed

section \<open>Bits of varint bytes\<close>

lemma bit_0x80: "bit (0x80 :: byte) i \<longleftrightarrow> i = 7"
proof -
  have "(0x80 :: byte) = push_bit 7 1" by simp
  then show ?thesis by (simp only: bit_push_bit_iff bit_1_iff) auto
qed

lemma bit_0x7F: "bit (0x7F :: byte) i \<longleftrightarrow> i < 7" "bit (0x7F :: 64 word) i \<longleftrightarrow> i < 7"
  unfolding mask7_8 mask7_64 by (auto simp: bit_simps)

lemma bit_127_128_int: "bit (127 :: int) i \<longleftrightarrow> i < 7" "bit (128 :: int) i \<longleftrightarrow> i = 7"
proof -
  have "(127 :: int) = mask 7" by (simp add: mask_eq_exp_minus_1)
  then show "bit (127 :: int) i \<longleftrightarrow> i < 7" by (simp only: bit_mask_iff) simp
  have "(128 :: int) = push_bit 7 1" by simp
  then show "bit (128 :: int) i \<longleftrightarrow> i = 7" by (simp only: bit_push_bit_iff bit_1_iff) auto
qed

lemmas byte_bits = bit_0x80 bit_0x7F bit_127_128_int bit_unsigned_iff bit_and_iff bit_or_iff
  bit_push_bit_iff bit_drop_bit_eq

lemma byte_and_0x80: "(b :: byte) AND 0x80 \<noteq> 0 \<longleftrightarrow> bit b 7"
proof
  assume "bit b 7"
  then have "bit (b AND 0x80) 7" by (simp only: bit_and_iff bit_0x80 simp_thms)
  then show "b AND 0x80 \<noteq> 0" by auto
next
  assume "b AND 0x80 \<noteq> 0"
  then obtain i where "bit (b AND 0x80) i" by (metis bit_eq_iff bit_0_eq bot_apply bot_bool_def)
  then show "bit b 7" by (simp only: bit_and_iff bit_0x80) auto
qed

lemma small_word_bits: "w \<le> 0x7F \<Longrightarrow> w AND 0x7F = (w :: 64 word)"
  using mask_eq_iff [of w 7] by (simp add: mask7_64 [symmetric] word_le_def)

lemma small_word_bit: "(w :: 64 word) \<le> 0x7F \<Longrightarrow> bit w i \<Longrightarrow> i < 7"
  using small_word_bits [of w] by (metis bit_and_iff bit_0x7F(2))

text \<open>What the two shapes of varint bytes give a decoder.\<close>

lemma varint_bytes_step:
  assumes "\<not> w \<le> 0x7F"
  obtains b where "varint_bytes w = b # varint_bytes (drop_bit 7 w)" "b AND 0x80 \<noteq> 0"
    "ucast (b AND 0x7F) = w AND 0x7F" "ucast (b AND 0x7F) = (ucast (w AND 0x7F) :: 32 word)"
    "\<forall>i<7. bit b i = bit w i"
proof
  let ?b = "ucast (w AND 0x7F) OR 0x80 :: byte"
  show "varint_bytes w = ?b # varint_bytes (drop_bit 7 w)" using assms by (rule varint_bytes_large)
  show "?b AND 0x80 \<noteq> 0" unfolding byte_and_0x80 by (simp only: bit_or_iff bit_0x80) simp
  show "\<forall>i<7. bit ?b i = bit w i" by (simp add: byte_bits)
  show "ucast (?b AND 0x7F) = w AND 0x7F"
    by (rule bit_eqI) (auto simp: byte_bits)
  show "ucast (?b AND 0x7F) = (ucast (w AND 0x7F) :: 32 word)"
    by (rule bit_eqI) (auto simp: byte_bits)
qed

lemma varint_bytes_last:
  assumes "w \<le> 0x7F"
  obtains b where "varint_bytes w = [b]" "b AND 0x80 = 0" "ucast (b AND 0x7F) = w"
    "ucast (b AND 0x7F) = (ucast w :: 32 word)" "ucast b = (ucast w :: 32 word)"
    "\<And>i. bit b i = bit w i"
proof
  let ?b = "ucast w :: byte"
  note w = small_word_bit [OF assms]
  show "varint_bytes w = [?b]" using assms by (rule varint_bytes_small)
  show b: "bit ?b i = bit w i" for i
    using w [of i] by (auto simp: bit_unsigned_iff)
  show "?b AND 0x80 = 0" using byte_and_0x80 [of ?b] b [of 7] w [of 7] by auto
  show "ucast (?b AND 0x7F) = w"
    by (rule bit_eqI) (auto simp: byte_bits dest: w)
  show "ucast (?b AND 0x7F) = (ucast w :: 32 word)"
    by (rule bit_eqI) (auto simp: byte_bits dest: w)
  show "ucast ?b = (ucast w :: 32 word)"
    by (rule bit_eqI) (auto simp: bit_unsigned_iff dest: w)
qed

lemma split_low7: "(w AND 0x7F) OR push_bit 7 (drop_bit 7 w) = (w :: 64 word)"
proof (rule bit_eqI)
  fix n
  show "bit ((w AND 0x7F) OR push_bit 7 (drop_bit 7 w)) n \<longleftrightarrow> bit w n"
    by (cases "n < 7") (auto simp: byte_bits dest: bit_imp_le_length)
qed

lemma push_split_low7:
  "push_bit n (w AND 0x7F) OR push_bit (n + 7) (drop_bit 7 w) = push_bit n (w :: 64 word)"
proof -
  have "push_bit n ((w AND 0x7F) OR push_bit 7 (drop_bit 7 w)) = push_bit n w"
    by (simp only: split_low7)
  then show ?thesis by (simp only: push_bit_or push_bit_push_bit add.commute)
qed

lemma push_split_low7_32:
  "push_bit n (ucast (w AND 0x7F)) OR push_bit (n + 7) (ucast (drop_bit 7 w)) =
     push_bit n (ucast (w :: 64 word) :: 32 word)"
proof (rule bit_eqI)
  fix i
  show "bit (push_bit n (ucast (w AND 0x7F)) OR push_bit (n + 7) (ucast (drop_bit 7 w)) :: 32 word) i
      \<longleftrightarrow> bit (push_bit n (ucast w :: 32 word)) i"
    by (cases "i < n + 7") (auto simp: byte_bits dest: bit_imp_le_length)
qed

section \<open>What the reference encoding is\<close>

text \<open>The value of base-128 digits, least significant first.\<close>

primrec leb_value :: "byte list \<Rightarrow> nat" where
  "leb_value [] = 0"
| "leb_value (b # bs) = unat (b AND 0x7F) + 128 * leb_value bs"

lemma unat_and_7F: "unat ((v :: 64 word) AND 0x7F) = unat v mod 128"
  using take_bit_eq_mask [of 7 v] unsigned_take_bit_eq [of 7 v] by (simp add: mask7_64 take_bit_eq_mod flip: mask7_64)

lemma unat_digit: "ucast (b AND 0x7F) = (w :: 64 word) AND 0x7F \<Longrightarrow> unat (b AND 0x7F :: byte) = unat w mod 128"
proof -
  assume "ucast (b AND 0x7F) = w AND 0x7F"
  then have "unat (ucast (b AND 0x7F) :: 64 word) = unat w mod 128" by (simp only: unat_and_7F)
  moreover have "unat (ucast (b AND 0x7F) :: 64 word) = unat (b AND 0x7F)"
    by (simp add: unsigned_ucast_eq take_bit_nat_eq_self less_trans [OF unsigned_less])
  ultimately show ?thesis by simp
qed

lemma leb_value_varint: "leb_value (varint_bytes v) = unat v"
proof (induction v rule: varint_bytes.induct)
  case (1 v)
  show ?case
  proof (cases "v \<le> 0x7F")
    case True
    obtain b where "varint_bytes v = [b]" "ucast (b AND 0x7F) = v"
      by (rule varint_bytes_last [OF True])
    moreover have "unat (b AND 0x7F) = unat v mod 128"
      using calculation(2) small_word_bits [OF True] by (intro unat_digit) simp
    ultimately show ?thesis using True by (simp add: word_le_nat_alt)
  next
    case False
    obtain b where b: "varint_bytes v = b # varint_bytes (drop_bit 7 v)" "ucast (b AND 0x7F) = v AND 0x7F"
      by (rule varint_bytes_step [OF False])
    have "unat v = unat v mod 128 + 128 * (unat v div 128)" by simp
    with b False 1 show ?thesis by (simp add: unat_digit [OF b(2)] unat_drop7)
  qed
qed

lemma continuation_bits: "i < length (varint_bytes v) \<Longrightarrow>
    bit (varint_bytes v ! i) 7 \<longleftrightarrow> Suc i < length (varint_bytes v)"
proof (induction v arbitrary: i rule: varint_bytes.induct)
  case (1 v)
  show ?case
  proof (cases "v \<le> 0x7F")
    case True
    obtain b where b: "varint_bytes v = [b]" "b AND 0x80 = 0" by (rule varint_bytes_last [OF True])
    then show ?thesis using 1(2) byte_and_0x80 [of b] by simp
  next
    case False
    obtain b where b: "varint_bytes v = b # varint_bytes (drop_bit 7 v)" "b AND 0x80 \<noteq> 0"
      by (rule varint_bytes_step [OF False])
    then show ?thesis using 1 False byte_and_0x80 [of b] by (cases i) auto
  qed
qed

end
