(* ===== verification/PbOstream.thy ===== *)
theory PbOstream
  imports PbTypes Leb128
begin

text \<open>
  Output streams and the primitive encoders of \<open>pb_encode.c\<close>: \<open>buf_write\<close>, \<open>pb_write\<close>,
  varints, zig-zag varints, fixed-width integers, tags and strings. The locale
  \<open>byte_sink\<close> states what an encoder relies on in the stream it writes to; \<open>emits\<close>
  is the contract of an encoder, composed over the code's \<open>if (!...) return false;\<close>
  sequences. Buffer streams and sizing streams satisfy it (\<open>std\<close>).
\<close>

section \<open>The stream operations\<close>

definition buf_write :: "cstate \<Rightarrow> pb_ostream \<Rightarrow> cbuf \<Rightarrow> nat \<Rightarrow> ores" where
  "buf_write s str buf count =
     do { let dest = o_state str;
          s' \<leftarrow> copy_loop s dest buf 0 count;
          Some (True, s', str\<lparr>o_state := dest + count\<rparr>) }"

definition pb_ostream_from_buffer :: "nat \<Rightarrow> nat \<Rightarrow> pb_ostream" where
  "pb_ostream_from_buffer buf bufsize =
     \<lparr>o_callback = OCB_BUF_WRITE, o_state = buf, o_max_size = bufsize,
      o_bytes_written = 0, o_errmsg = None\<rparr>"

text \<open>\<open>stream->callback(stream, buf, count)\<close>.\<close>

definition o_call :: "pb_env \<Rightarrow> cstate \<Rightarrow> pb_ostream \<Rightarrow> cbuf \<Rightarrow> nat \<Rightarrow> ores" where
  "o_call env s str buf count =
     (case o_callback str of
        OCB_NULL \<Rightarrow> None
      | OCB_BUF_WRITE \<Rightarrow> buf_write s str buf count
      | OCB_USER k \<Rightarrow> e_ostream_cb env k s str buf count)"

text \<open>The additions on \<open>size_t\<close> wrap at 64 bits.\<close>

definition pb_write :: "pb_env \<Rightarrow> cstate \<Rightarrow> pb_ostream \<Rightarrow> cbuf \<Rightarrow> nat \<Rightarrow> ores" where
  "pb_write env s str buf count =
     (let finish = (\<lambda>s str. Some (True, s,
                      str\<lparr>o_bytes_written := (o_bytes_written str + count) mod 2 ^ 64\<rparr>))
      in if o_callback str \<noteq> OCB_NULL then
           (if (o_bytes_written str + count) mod 2 ^ 64 > o_max_size str
            then o_fail s str ''stream full''
            else do { (ok, s, str) \<leftarrow> o_call env s str buf count;
                      if \<not> ok then o_fail s str ''io error'' else finish s str })
         else finish s str)"

section \<open>Varints\<close>

text \<open>
  The loop \<open>while (value) { buffer[i] = (value & 0x7F) | 0x80; value >>= 7; i++; }\<close>: what it
  stores from index \<open>i\<close> on. \<open>buffer\<close> has ten entries.
\<close>

function varint_fill :: "nat \<Rightarrow> 64 word \<Rightarrow> byte list option" where
  "varint_fill i value =
     (if value = 0 then Some []
      else if i \<ge> 10 then None
      else do { rest \<leftarrow> varint_fill (Suc i) (drop_bit 7 value);
                Some (ucast ((value AND 0x7F) OR 0x80) # rest) })"
  by pat_completeness auto
termination
proof (relation "measure (\<lambda>(i, v). unat v)")
  fix v :: "64 word" assume "v \<noteq> 0"
  then have "0 < unat v" by (simp add: unat_gt_0)
  then show "((Suc i, drop_bit 7 v), (i, v)) \<in> measure (\<lambda>(i, v). unat v)" for i
    by (simp add: unat_drop_bit_eq drop_bit_nat_def)
qed simp

declare varint_fill.simps [simp del]

definition pb_encode_varint :: "pb_env \<Rightarrow> cstate \<Rightarrow> pb_ostream \<Rightarrow> 64 word \<Rightarrow> ores" where
  "pb_encode_varint env s str value =
     (if value \<le> 0x7F then pb_write env s str (BufLocal [ucast value]) 1
      else do { buffer \<leftarrow> varint_fill 0 value;
                let i = length buffer;
                let buffer = butlast buffer @ [last buffer AND 0x7F];
                pb_write env s str (BufLocal buffer) i })"

definition zigzag :: "64 word \<Rightarrow> 64 word" where
  "zigzag value = (if sint value < 0 then NOT (push_bit 1 value) else push_bit 1 value)"

definition pb_encode_svarint :: "pb_env \<Rightarrow> cstate \<Rightarrow> pb_ostream \<Rightarrow> 64 word \<Rightarrow> ores" where
  "pb_encode_svarint env s str value = pb_encode_varint env s str (zigzag value)"

section \<open>Fixed-width integers, tags and strings\<close>

text \<open>\<open>value\<close> is the address of the C variable.\<close>

definition pb_encode_fixed32 :: "pb_env \<Rightarrow> cstate \<Rightarrow> pb_ostream \<Rightarrow> nat \<Rightarrow> ores" where
  "pb_encode_fixed32 env s str value =
     do { v \<leftarrow> load_uint 4 s value;
          let val = (of_nat v :: 32 word);
          let bytes = [ucast (val AND 0xFF),
                       ucast (drop_bit 8 val AND 0xFF),
                       ucast (drop_bit 16 val AND 0xFF),
                       ucast (drop_bit 24 val AND 0xFF)];
          pb_write env s str (BufLocal bytes) 4 }"

definition pb_encode_fixed64 :: "pb_env \<Rightarrow> cstate \<Rightarrow> pb_ostream \<Rightarrow> nat \<Rightarrow> ores" where
  "pb_encode_fixed64 env s str value =
     do { v \<leftarrow> load_uint 8 s value;
          let val = (of_nat v :: 64 word);
          let bytes = [ucast (val AND 0xFF),
                       ucast (drop_bit 8 val AND 0xFF),
                       ucast (drop_bit 16 val AND 0xFF),
                       ucast (drop_bit 24 val AND 0xFF),
                       ucast (drop_bit 32 val AND 0xFF),
                       ucast (drop_bit 40 val AND 0xFF),
                       ucast (drop_bit 48 val AND 0xFF),
                       ucast (drop_bit 56 val AND 0xFF)];
          pb_write env s str (BufLocal bytes) 8 }"

definition tag_value :: "pb_wire_type \<Rightarrow> 32 word \<Rightarrow> 64 word" where
  "tag_value wiretype field_number = push_bit 3 (ucast field_number) OR ucast wiretype"

definition pb_encode_tag ::
  "pb_env \<Rightarrow> cstate \<Rightarrow> pb_ostream \<Rightarrow> pb_wire_type \<Rightarrow> 32 word \<Rightarrow> ores" where
  "pb_encode_tag env s str wiretype field_number =
     pb_encode_varint env s str (tag_value wiretype field_number)"

text \<open>The switch of \<open>pb_encode_tag_for_field\<close>; \<open>None\<close> is its default branch.\<close>

definition wire_type_of :: "pb_type \<Rightarrow> pb_wire_type option" where
  "wire_type_of lt =
     (if lt = PB_LTYPE_VARINT \<or> lt = PB_LTYPE_UVARINT \<or> lt = PB_LTYPE_SVARINT
      then Some PB_WT_VARINT
      else if lt = PB_LTYPE_FIXED32 then Some PB_WT_32BIT
      else if lt = PB_LTYPE_FIXED64 then Some PB_WT_64BIT
      else if lt = PB_LTYPE_BYTES \<or> lt = PB_LTYPE_STRING \<or> lt = PB_LTYPE_SUBMESSAGE \<or>
              lt = PB_LTYPE_FIXED_LENGTH_BYTES
      then Some PB_WT_STRING
      else None)"

definition pb_encode_tag_for_field ::
  "pb_env \<Rightarrow> cstate \<Rightarrow> pb_ostream \<Rightarrow> pb_field \<Rightarrow> ores" where
  "pb_encode_tag_for_field env s str field =
     (case wire_type_of (PB_LTYPE (f_type field)) of
        None \<Rightarrow> o_fail s str ''invalid field type''
      | Some wiretype \<Rightarrow> pb_encode_tag env s str wiretype (f_tag field))"

definition pb_encode_string ::
  "pb_env \<Rightarrow> cstate \<Rightarrow> pb_ostream \<Rightarrow> cbuf \<Rightarrow> nat \<Rightarrow> ores" where
  "pb_encode_string env s str buffer len =
     then_ok (pb_encode_varint env s str (of_nat len))
       (\<lambda>s str. pb_write env s str buffer len)"

section \<open>The encoder against the reference\<close>

text \<open>
  The loop never runs past the ten entries of \<open>buffer\<close>, and clearing the top bit of its last
  byte gives the reference encoding.
\<close>

lemma varint_fill_leb128:
  assumes "unat v < 2 ^ (7 * k)" and "i + k = 10" and "v \<noteq> 0"
  shows "\<exists>bs. varint_fill i v = Some bs \<and> bs \<noteq> [] \<and> length bs \<le> k \<and>
     butlast bs @ [last bs AND 0x7F] = varint_bytes v"
  using assms
proof (induction k arbitrary: i v)
  case 0
  then show ?case by (simp add: unat_eq_0)
next
  case (Suc k)
  let ?b = "(ucast (v AND 0x7F) OR 0x80) :: byte"
  have i: "\<not> i \<ge> 10" using Suc.prems(2) by simp
  show ?case
  proof (cases "v \<le> 0x7F")
    case True
    then have "varint_fill i v = Some [?b]"
      using Suc.prems(3) i
      by (simp add: varint_fill.simps [of i v] varint_fill.simps [of "Suc i" 0]
          drop7_zero_iff [THEN iffD2] ucast_or_0x80)
    with True show ?thesis by (simp add: varint_bytes_small fixup_last)
  next
    case False
    have "unat (drop_bit 7 v) < 2 ^ (7 * k)"
      using Suc.prems(1) by (simp add: unat_drop7 power_add less_mult_imp_div_less)
    moreover have "drop_bit 7 v \<noteq> 0" using False by (simp add: drop7_zero_iff)
    ultimately obtain bs where bs: "varint_fill (Suc i) (drop_bit 7 v) = Some bs" "bs \<noteq> []"
        "length bs \<le> k" "butlast bs @ [last bs AND 0x7F] = varint_bytes (drop_bit 7 v)"
      using Suc.IH [of "drop_bit 7 v" "Suc i"] Suc.prems(2) by auto
    then have "varint_fill i v = Some (?b # bs)"
      using Suc.prems(3) i by (simp add: varint_fill.simps [of i v] ucast_or_0x80)
    with bs False show ?thesis by (simp add: varint_bytes_large)
  qed
qed

text \<open>The code's encoder writes the reference encoding with one \<open>pb_write\<close>.\<close>

lemma pb_encode_varint_leb128 [pb_simps]:
  "pb_encode_varint env s str v =
     pb_write env s str (BufLocal (varint_bytes v)) (length (varint_bytes v))"
proof (cases "v \<le> 0x7F")
  case True
  then show ?thesis by (simp add: pb_encode_varint_def varint_bytes_small)
next
  case False
  have "unat v < 2 ^ 64" using unsigned_less [of v] by simp
  also have "(2::nat) ^ 64 \<le> 2 ^ (7 * 10)" by simp
  finally have "unat v < 2 ^ (7 * 10)" .
  moreover have "v \<noteq> 0" using False by auto
  ultimately obtain bs where "varint_fill 0 v = Some bs" "bs \<noteq> []"
      "butlast bs @ [last bs AND 0x7F] = varint_bytes v"
    using varint_fill_leb128 [of v 10 0] by auto
  moreover from this have "length bs = length (varint_bytes v)"
    by (metis append_butlast_last_id length_append_singleton)
  ultimately show ?thesis using False by (simp add: pb_encode_varint_def)
qed

text \<open>The shift-and-mask byte stores are the little-endian bytes of the value.\<close>

lemma pb_encode_fixed32_le [pb_simps]:
  "load_uint 4 s a = Some v \<Longrightarrow>
     pb_encode_fixed32 env s str a = pb_write env s str (BufLocal (nat_le 4 v)) 4"
  unfolding pb_encode_fixed32_def Let_def fixed32_bytes by simp

lemma pb_encode_fixed64_le [pb_simps]:
  "load_uint 8 s a = Some v \<Longrightarrow>
     pb_encode_fixed64 env s str a = pb_write env s str (BufLocal (nat_le 8 v)) 8"
  unfolding pb_encode_fixed64_def Let_def fixed64_bytes by simp

section \<open>The contract of a sink\<close>

text \<open>
  \<open>room s0 s str n\<close>: in memory \<open>s\<close> the stream accepts \<open>n\<close> more bytes, and what is live in
  \<open>s0\<close> is not where they go. \<open>put s str bs\<close>: memory and stream after \<open>bs\<close> have been
  written. An encoder \<open>emits s0 f bs\<close> if, on every such stream with room for \<open>bs\<close>, it
  succeeds having written exactly \<open>bs\<close>; its reads are of what is live in \<open>s0\<close>.
\<close>

locale byte_sink =
  fixes env :: pb_env
    and room :: "cstate \<Rightarrow> cstate \<Rightarrow> pb_ostream \<Rightarrow> nat \<Rightarrow> bool"
    and put :: "cstate \<Rightarrow> pb_ostream \<Rightarrow> byte list \<Rightarrow> cstate \<times> pb_ostream"
  assumes room_extends: "room s0 s str n \<Longrightarrow> extends s0 s"
    and room_mono: "room s0 s str (m + n) \<Longrightarrow> room s0 s str m"
    and room_put: "room s0 s str (length bs + n) \<Longrightarrow>
        room s0 (fst (put s str bs)) (snd (put s str bs)) n"
    and put_Nil: "put s str [] = (s, str)"
    and put_append: "put s str (as @ bs) = put (fst (put s str as)) (snd (put s str as)) bs"
    and room_write: "room s0 s str (length bs) \<Longrightarrow> buf_bytes s0 buf (length bs) = Some bs \<Longrightarrow>
        pb_write env s str buf (length bs) = Some (True, put s str bs)"
    and null_write: "room s0 s str (length bs) \<Longrightarrow> o_callback str = OCB_NULL \<Longrightarrow>
        pb_write env s str buf (length bs) = Some (True, put s str bs)"
    and put_callback: "o_callback (snd (put s str bs)) = o_callback str"
begin

definition emits :: "cstate \<Rightarrow> (cstate \<Rightarrow> pb_ostream \<Rightarrow> ores) \<Rightarrow> byte list \<Rightarrow> bool" where
  "emits s0 f bs \<longleftrightarrow> (\<forall>s str. room s0 s str (length bs) \<longrightarrow> f s str = Some (True, put s str bs))"

lemma emitsI:
  "(\<And>s str. room s0 s str (length bs) \<Longrightarrow> f s str = Some (True, put s str bs)) \<Longrightarrow> emits s0 f bs"
  by (simp add: emits_def)

lemma emitsD: "emits s0 f bs \<Longrightarrow> room s0 s str (length bs) \<Longrightarrow> f s str = Some (True, put s str bs)"
  by (simp add: emits_def)

lemma emits_done: "emits s0 (\<lambda>s str. Some (True, s, str)) []"
  by (rule emitsI) (simp add: put_Nil)

lemma emits_seq:
  assumes f: "emits s0 f as" and g: "emits s0 g bs"
  shows "emits s0 (\<lambda>s str. then_ok (f s str) g) (as @ bs)"
proof (rule emitsI)
  fix s str assume r: "room s0 s str (length (as @ bs))"
  then have "f s str = Some (True, put s str as)"
    by (intro emitsD [OF f]) (auto intro: room_mono)
  moreover have "g (fst (put s str as)) (snd (put s str as)) =
      Some (True, put (fst (put s str as)) (snd (put s str as)) bs)"
    by (rule emitsD [OF g], rule room_put) (use r in simp)
  ultimately show "then_ok (f s str) g = Some (True, put s str (as @ bs))"
    by (simp add: put_append)
qed

lemma emits_write: "buf_bytes s0 buf n = Some bs \<Longrightarrow> emits s0 (\<lambda>s str. pb_write env s str buf n) bs"
  using buf_bytes_length [of s0 buf n bs] by (auto intro!: emitsI room_write)

lemma emits_local: "emits s0 (\<lambda>s str. pb_write env s str (BufLocal bs) (length bs)) bs"
  by (rule emits_write) (simp add: buf_bytes_def)

lemma emits_varint: "emits s0 (\<lambda>s str. pb_encode_varint env s str v) (varint_bytes v)"
  by (simp add: pb_simps emits_local)

lemma emits_svarint: "emits s0 (\<lambda>s str. pb_encode_svarint env s str v) (varint_bytes (zigzag v))"
  by (simp add: pb_encode_svarint_def emits_varint)

lemma emits_tag:
  "emits s0 (\<lambda>s str. pb_encode_tag env s str wt n) (varint_bytes (tag_value wt n))"
  by (simp add: pb_encode_tag_def emits_varint)

lemma emits_tag_for_field:
  "wire_type_of (PB_LTYPE (f_type field)) = Some wt \<Longrightarrow>
   emits s0 (\<lambda>s str. pb_encode_tag_for_field env s str field)
     (varint_bytes (tag_value wt (f_tag field)))"
  by (simp add: pb_encode_tag_for_field_def emits_tag)

lemma emits_string:
  "buf_bytes s0 buf n = Some bs \<Longrightarrow>
   emits s0 (\<lambda>s str. pb_encode_string env s str buf n) (varint_bytes (of_nat n) @ bs)"
  unfolding pb_encode_string_def by (intro emits_seq emits_varint emits_write)

lemma emits_fixed32:
  assumes "load_uint 4 s0 a = Some v"
  shows "emits s0 (\<lambda>s str. pb_encode_fixed32 env s str a) (nat_le 4 v)"
proof (rule emitsI)
  fix s str assume r: "room s0 s str (length (nat_le 4 v))"
  then have "load_uint 4 s a = Some v" using assms by (blast intro: extends_load_uint room_extends)
  with emitsD [OF emits_local r] show "pb_encode_fixed32 env s str a = Some (True, put s str (nat_le 4 v))"
    by (simp add: pb_simps)
qed

lemma emits_fixed64:
  assumes "load_uint 8 s0 a = Some v"
  shows "emits s0 (\<lambda>s str. pb_encode_fixed64 env s str a) (nat_le 8 v)"
proof (rule emitsI)
  fix s str assume r: "room s0 s str (length (nat_le 8 v))"
  then have "load_uint 8 s a = Some v" using assms by (blast intro: extends_load_uint room_extends)
  with emitsD [OF emits_local r] show "pb_encode_fixed64 env s str a = Some (True, put s str (nat_le 8 v))"
    by (simp add: pb_simps)
qed

end

section \<open>Buffer streams and sizing streams are sinks\<close>

definition std_room :: "cstate \<Rightarrow> cstate \<Rightarrow> pb_ostream \<Rightarrow> nat \<Rightarrow> bool" where
  "std_room s0 s str n \<longleftrightarrow>
     extends s0 s \<and> o_errmsg str = None \<and> o_bytes_written str + n < 2 ^ 64 \<and>
     (case o_callback str of
        OCB_NULL \<Rightarrow> True
      | OCB_BUF_WRITE \<Rightarrow> o_bytes_written str + n \<le> o_max_size str \<and>
          valid s (o_state str) n \<and> untouched s0 (o_state str) n
      | OCB_USER _ \<Rightarrow> False)"

definition std_put :: "cstate \<Rightarrow> pb_ostream \<Rightarrow> byte list \<Rightarrow> cstate \<times> pb_ostream" where
  "std_put s str bs =
     (if o_callback str = OCB_NULL
      then (s, str\<lparr>o_bytes_written := o_bytes_written str + length bs\<rparr>)
      else (s\<lparr>c_mem := overwrite (c_mem s) (o_state str) bs\<rparr>,
            str\<lparr>o_state := o_state str + length bs,
                o_bytes_written := o_bytes_written str + length bs\<rparr>))"

lemma std_put_Nil: "std_put s str [] = (s, str)"
  by (simp add: std_put_def)

lemma std_put_append:
  "std_put s str (as @ bs) = std_put (fst (std_put s str as)) (snd (std_put s str as)) bs"
  by (simp add: std_put_def overwrite_append add.assoc)

lemma std_put_callback: "o_callback (snd (std_put s str bs)) = o_callback str"
  by (simp add: std_put_def)

lemma std_room_mono: "std_room s0 s str (m + n) \<Longrightarrow> std_room s0 s str m"
  by (auto simp: std_room_def split: ocallback.splits intro: valid_sub untouched_mono)

lemma std_room_put:
  assumes "std_room s0 s str (length bs + n)"
  shows "std_room s0 (fst (std_put s str bs)) (snd (std_put s str bs)) n"
proof (cases "o_callback str")
  case OCB_NULL
  with assms show ?thesis by (simp add: std_room_def std_put_def)
next
  case OCB_BUF_WRITE
  with assms have e: "extends s0 s" and u: "untouched s0 (o_state str) (length bs + n)"
    and v: "valid s (o_state str) (length bs + n)"
    by (auto simp: std_room_def)
  have "valid s (o_state str + length bs) n" by (rule valid_sub [OF v]) simp_all
  with assms OCB_BUF_WRITE extends_overwrite [OF e untouched_mono [OF u]] untouched_drop [OF u]
  show ?thesis by (simp add: std_room_def std_put_def)
next
  case (OCB_USER k)
  with assms show ?thesis by (simp add: std_room_def)
qed

lemma std_room_write:
  assumes r: "std_room s0 s str (length bs)" and b: "buf_bytes s0 buf (length bs) = Some bs"
  shows "pb_write env s str buf (length bs) = Some (True, std_put s str bs)"
proof (cases "o_callback str")
  case OCB_NULL
  with r show ?thesis by (simp add: std_room_def std_put_def pb_write_def)
next
  case OCB_BUF_WRITE
  with r have "copy_loop s (o_state str) buf 0 (length bs) =
      Some (s\<lparr>c_mem := overwrite (c_mem s) (o_state str) bs\<rparr>)"
    using copy_loop_eq [of s0 s buf 0 "length bs" bs "o_state str"] b by (simp add: std_room_def)
  with r OCB_BUF_WRITE show ?thesis
    by (simp add: std_room_def std_put_def pb_write_def o_call_def buf_write_def Let_def)
next
  case (OCB_USER k)
  with r show ?thesis by (simp add: std_room_def)
qed

lemma std_null_write:
  "std_room s0 s str (length bs) \<Longrightarrow> o_callback str = OCB_NULL \<Longrightarrow>
     pb_write env s str buf (length bs) = Some (True, std_put s str bs)"
  by (simp add: std_room_def std_put_def pb_write_def)

interpretation std: byte_sink env std_room std_put for env
  by unfold_locales
    (auto simp: std_room_put std_put_Nil std_put_append std_room_write std_null_write
      std_put_callback std_room_def [where n = 0] std_room_def [THEN iffD1] intro: std_room_mono)

end
