(* ===== verification/PbVarint.thy ===== *)
theory PbVarint
  imports PbOstream PbIstream
begin

text \<open>
  The contract of an input stream and the round trips of the primitive codecs. In the
  locale \<open>byte_source\<close>, \<open>view s str bs\<close> says that the stream will deliver \<open>bs\<close>, \<open>adv\<close> is
  the stream after some bytes have been taken. A decoder \<open>parses\<close> an encoding if it takes
  exactly the encoding and returns the value; it is \<open>total\<close> if on every input it returns,
  taking no more than there is. Both hold for arbitrary bytes behind the encoding.
\<close>

section \<open>Zig-zag and sign extension\<close>

lemma sint_neg_iff_bit: "sint (v :: 64 word) < 0 \<longleftrightarrow> bit v 63"
  by (simp add: sint_uint signed_take_bit_negative_iff bit_uint_iff)

lemma bit_zigzag: "bit (zigzag v) i \<longleftrightarrow> i < 64 \<and> (if i = 0 then bit v 63 else bit v 63 \<noteq> bit v (i - 1))"
  by (cases "bit v 63")
    (auto simp: zigzag_def sint_neg_iff_bit bit_not_iff bit_double_iff mult.commute [of v 2]
      dest: bit_imp_le_length)

lemma and_1_iff: "(w :: 64 word) AND 1 \<noteq> 0 \<longleftrightarrow> bit w 0"
  by (simp add: and_one_eq bit_0 odd_iff_mod_2_eq_one)

lemma bit_unzigzag: "bit (unzigzag v) i \<longleftrightarrow> i < 64 \<and> (bit v 0 \<noteq> bit v (i + 1))"
  by (auto simp: unzigzag_def and_1_iff bit_not_iff bit_drop_bit_eq dest: bit_imp_le_length)

lemma unzigzag_zigzag [simp]: "unzigzag (zigzag v) = v"
proof (rule bit_eqI)
  fix i assume "possible_bit TYPE(64 word) i"
  then have "i < 64" by simp
  then show "bit (unzigzag (zigzag v)) i = bit v i"
    by (cases "i = 63") (auto simp: bit_unzigzag bit_zigzag)
qed

lemma zigzag_unzigzag [simp]: "zigzag (unzigzag v) = v"
proof (rule bit_eqI)
  fix i assume "possible_bit TYPE(64 word) i"
  then have "i < 64" by simp
  then show "bit (zigzag (unzigzag v)) i = bit v i"
    by (cases i) (auto simp: bit_unzigzag bit_zigzag dest: bit_imp_le_length)
qed

text \<open>The 64-bit values a 32-bit varint can stand for: unsigned, or sign-extended negative.\<close>

definition fits32 :: "64 word \<Rightarrow> bool" where
  "fits32 v \<longleftrightarrow> unat v < 2 ^ 32 \<or> (\<forall>i \<in> {31..<64}. bit v i)"

lemma bit_0x70: "bit (0x70 :: byte) i \<longleftrightarrow> 4 \<le> i \<and> i < 7"
proof -
  have "(0x70 :: byte) = push_bit 4 (mask 3)" by (simp add: mask_eq_exp_minus_1)
  then show ?thesis by (simp only: bit_push_bit_iff bit_mask_iff) auto
qed

lemma unat_less_bit:
  assumes w: "unat (w :: 'a::len word) < 2 ^ n" and b: "bit w i"
  shows "i < n"
proof (rule ccontr)
  assume "\<not> i < n"
  then have "(2::nat) ^ n \<le> 2 ^ i" by simp
  with w have "unat w div 2 ^ i = 0" by (intro div_less) linarith
  moreover from b have "odd (unat w div 2 ^ i)" 
    by (simp add: bit_unsigned_iff flip: bit_iff_odd)
  ultimately show False by simp
qed

lemma bit_7_32: "bit (7 :: 32 word) i \<longleftrightarrow> i < 3" "bit (7 :: int) i \<longleftrightarrow> i < 3"
proof -
  have "(7 :: 32 word) = mask 3" "(7 :: int) = mask 3" by (simp_all add: mask_eq_exp_minus_1)
  then show "bit (7 :: 32 word) i \<longleftrightarrow> i < 3" "bit (7 :: int) i \<longleftrightarrow> i < 3"
    by (simp_all only: bit_mask_iff) auto
qed

text \<open>A tag keeps its field number (29 bits) and its wire type (3 bits).\<close>

lemma tag_value_parts:
  assumes "unat n < 2 ^ 29" and "unat wt < 2 ^ 3"
  shows "unat (tag_value wt n) < 2 ^ 32"
    and "(ucast (tag_value wt n) :: 32 word) AND 7 = wt"
    and "drop_bit 3 (ucast (tag_value wt n) :: 32 word) = n"
proof -
  note n = unat_less_bit [OF assms(1)] and wt = unat_less_bit [OF assms(2)]
  have "tag_value wt n = take_bit 32 (tag_value wt n)"
  proof (rule bit_eqI)
    fix i
    show "bit (tag_value wt n) i = bit (take_bit 32 (tag_value wt n)) i"
      using n [of "i - 3"] wt [of i]
      by (auto simp: tag_value_def byte_bits bit_take_bit_iff)
  qed
  then have "unat (tag_value wt n) = take_bit 32 (unat (tag_value wt n))"
    by (metis unsigned_take_bit_eq)
  then show "unat (tag_value wt n) < 2 ^ 32"
    by (metis take_bit_nat_less_exp)
  show "(ucast (tag_value wt n) :: 32 word) AND 7 = wt"
    by (rule bit_eqI) (auto simp: tag_value_def byte_bits bit_7_32 dest: wt)
  show "drop_bit 3 (ucast (tag_value wt n) :: 32 word) = n"
  proof (rule bit_eqI)
    fix i
    show "bit (drop_bit 3 (ucast (tag_value wt n) :: 32 word)) i = bit n i"
      using n [of i] wt [of "i + 3"]
      by (auto simp: tag_value_def byte_bits add.commute)
  qed
qed

text \<open>The decoders' shift-and-or of bytes is the little-endian reading.\<close>

lemma div_as_drop:
  "v div 256 = drop_bit 8 (v :: nat)" "v div 65536 = drop_bit 16 v" "v div 16777216 = drop_bit 24 v"
  "v div 4294967296 = drop_bit 32 v"
  by (simp_all add: drop_bit_eq_div)

lemma bytes_u32_nat_le: "bytes_u32 (nat_le 4 v) = of_nat v"
proof (rule bit_eqI)
  fix i assume "possible_bit TYPE(32 word) i"
  then have "i < 32" by simp
  then consider "i < 8" | "8 \<le> i" "i < 16" | "16 \<le> i" "i < 24" | "24 \<le> i" "i < 32" by linarith
  then show "bit (bytes_u32 (nat_le 4 v)) i = bit (of_nat v :: 32 word) i"
    by cases (auto simp: bytes_u32_def nat_le_4 div_as_drop byte_bits bit_of_nat_iff)
qed

lemma bytes_u64_nat_le: "bytes_u64 (nat_le 8 v) = of_nat v"
proof (rule bit_eqI)
  fix i assume "possible_bit TYPE(64 word) i"
  then have "i < 64" by simp
  then consider "i < 8" | "8 \<le> i" "i < 16" | "16 \<le> i" "i < 24" | "24 \<le> i" "i < 32"
    | "32 \<le> i" "i < 40" | "40 \<le> i" "i < 48" | "48 \<le> i" "i < 56" | "56 \<le> i" "i < 64" by linarith
  then show "bit (bytes_u64 (nat_le 8 v)) i = bit (of_nat v :: 64 word) i"
    by cases (auto simp: bytes_u64_def nat_le_8 nat_le_4 div_as_drop byte_bits bit_of_nat_iff)
qed

lemma unat_bytes_u32: "length bs = 4 \<Longrightarrow> unat (bytes_u32 bs) = le_nat bs"
  using bytes_u32_nat_le [of "le_nat bs"] nat_le_le_nat [of bs] le_nat_bound [of bs]
  by (simp add: unat_of_nat)

lemma unat_bytes_u64: "length bs = 8 \<Longrightarrow> unat (bytes_u64 bs) = le_nat bs"
  using bytes_u64_nat_le [of "le_nat bs"] nat_le_le_nat [of bs] le_nat_bound [of bs]
  by (simp add: unat_of_nat)

section \<open>What a wire type is followed by\<close>

definition wire_payload :: "pb_wire_type \<Rightarrow> byte list \<Rightarrow> bool" where
  "wire_payload wt bs \<longleftrightarrow>
     wt = PB_WT_VARINT \<and> (\<exists>v. bs = varint_bytes v) \<or>
     wt = PB_WT_64BIT \<and> length bs = 8 \<or>
     wt = PB_WT_32BIT \<and> length bs = 4 \<or>
     wt = PB_WT_STRING \<and> (\<exists>cs. length cs < 2 ^ 32 \<and> bs = varint_bytes (of_nat (length cs)) @ cs)"

section \<open>The contract of a source\<close>

locale byte_source =
  fixes env :: pb_env
    and view :: "cstate \<Rightarrow> pb_istream \<Rightarrow> byte list \<Rightarrow> bool"
    and adv :: "pb_istream \<Rightarrow> nat \<Rightarrow> pb_istream"
  assumes view_left: "view s str bs \<Longrightarrow> i_bytes_left str = length bs"
    and view_adv: "view s str bs \<Longrightarrow> n \<le> length bs \<Longrightarrow> view s (adv str n) (drop n bs)"
    and adv_0: "adv str 0 = str"
    and adv_adv: "adv (adv str m) n = adv str (m + n)"
    and view_error: "view s (i_set_error str msg) bs = view s str bs"
    and view_readbyte: "view s str (b # bs) \<Longrightarrow>
        pb_readbyte env s str = Some (Some b, s, adv str 1)"
    and view_read: "view s str bs \<Longrightarrow> n \<le> length bs \<Longrightarrow>
        pb_read env s str ILocal n = Some (True, take n bs, s, adv str n)"
    and view_skip: "view s str bs \<Longrightarrow> n \<le> length bs \<Longrightarrow>
        pb_read env s str INull n = Some (True, [], s, adv str n)"
    and view_skip_short: "view s str bs \<Longrightarrow> length bs < n \<Longrightarrow>
        \<exists>str' k. pb_read env s str INull n = Some (False, [], s, str') \<and> k \<le> length bs \<and>
          view s str' (drop k bs)"
    and view_window: "view s str bs \<Longrightarrow> n \<le> length bs \<Longrightarrow>
        view s (str\<lparr>i_bytes_left := n\<rparr>) (take n bs)"
    and adv_window: "view s str bs \<Longrightarrow> n \<le> length bs \<Longrightarrow>
        str\<lparr>i_bytes_left := i_bytes_left str - n,
            i_state := i_state (adv (str\<lparr>i_bytes_left := n\<rparr>) n)\<rparr> = adv str n"
    and adv_errmsg: "i_errmsg (adv str n) = i_errmsg str"
begin

definition parses :: "(cstate \<Rightarrow> pb_istream \<Rightarrow> 'a iout) \<Rightarrow> byte list \<Rightarrow> 'a \<Rightarrow> bool" where
  "parses f bs v \<longleftrightarrow> (\<forall>s str rest. view s str (bs @ rest) \<longrightarrow>
     f s str = Some (Some v, s, adv str (length bs)))"

lemma parsesD: "parses f bs v \<Longrightarrow> view s str (bs @ rest) \<Longrightarrow>
    f s str = Some (Some v, s, adv str (length bs))"
  unfolding parses_def by blast

definition skips :: "(cstate \<Rightarrow> pb_istream \<Rightarrow> ires) \<Rightarrow> byte list \<Rightarrow> bool" where
  "skips f bs \<longleftrightarrow> (\<forall>s str rest. view s str (bs @ rest) \<longrightarrow>
     f s str = Some (True, s, adv str (length bs)))"

lemma view_cons_adv: "view s str (b # bs) \<Longrightarrow> view s (adv str 1) bs"
  using view_adv [of s str "b # bs" 1] by simp

text \<open>The 64-bit decoder inverts the reference encoding.\<close>

lemma varint_loop_leb128:
  assumes "view s str (varint_bytes w @ rest)" and "bitpos + 7 * length (varint_bytes w) \<le> 70"
  shows "varint_loop env s str bitpos result =
     Some (Some (result OR push_bit bitpos w), s, adv str (length (varint_bytes w)))"
  using assms
proof (induction w arbitrary: str bitpos result rule: varint_bytes.induct)
  case (1 w)
  show ?case
  proof (cases "w \<le> 0x7F")
    case True
    then obtain b where b: "varint_bytes w = [b]" "b AND 0x80 = 0" "ucast (b AND 0x7F) = w"
      by (rule varint_bytes_last)
    with "1.prems" have "view s str (b # rest)" "bitpos < 64" by auto
    with b show ?thesis by (simp add: varint_loop.simps view_readbyte)
  next
    case False
    then obtain b where e: "varint_bytes w = b # varint_bytes (drop_bit 7 w)"
      and b: "b AND 0x80 \<noteq> 0" "ucast (b AND 0x7F) = w AND 0x7F"
      by (rule varint_bytes_step)
    have v: "view s str (b # varint_bytes (drop_bit 7 w) @ rest)"
      using "1.prems"(1) by (simp add: e)
    have len: "bitpos + 7 + 7 * length (varint_bytes (drop_bit 7 w)) \<le> 70"
      using "1.prems"(2) by (simp add: e)
    have "0 < length (varint_bytes (drop_bit 7 w))" by simp
    with len have bp: "bitpos < 64" "(bitpos + 7) mod 256 = bitpos + 7" by auto
    have "varint_loop env s str bitpos result =
        varint_loop env s (adv str 1) (bitpos + 7) (result OR push_bit bitpos (w AND 0x7F))"
      by (subst varint_loop.simps)
        (use bp b in \<open>simp add: view_readbyte [OF v] Let_def\<close>)
    also have "\<dots> = Some (Some ((result OR push_bit bitpos (w AND 0x7F)) OR
        push_bit (bitpos + 7) (drop_bit 7 w)), s,
        adv (adv str 1) (length (varint_bytes (drop_bit 7 w))))"
      by (rule "1.IH" [OF False view_cons_adv [OF v] len])
    finally show ?thesis
      by (simp only: adv_adv e or.assoc push_split_low7 list.size plus_1_eq_Suc)
        (simp add: adv_adv)
  qed
qed

lemma parses_varint: "parses (pb_decode_varint env) (varint_bytes v) v"
  unfolding parses_def pb_decode_varint_def
  using varint_bytes_length_10 [of v] by (auto simp: varint_loop_leb128)

lemma parses_svarint: "parses (pb_decode_svarint env) (varint_bytes (zigzag v)) v"
  using parsesD [OF parses_varint] by (auto simp: parses_def pb_decode_svarint_def)

text \<open>
  The 32-bit decoder, on values below \<open>2^32\<close> and on sign-extended negative ones (which are
  ten bytes long): it returns the value cut to 32 bits.
\<close>

lemma varint32_step_more:
  "view s str (b # bs) \<Longrightarrow> bp < 32 \<Longrightarrow> b AND 0x80 \<noteq> 0 \<Longrightarrow> varint32_loop env s str bp r =
     varint32_loop env s (adv str 1) (bp + 7) (r OR push_bit bp (ucast (b AND 0x7F)))"
  by (subst varint32_loop.simps) (simp add: view_readbyte Let_def)

lemma varint32_step_last:
  "view s str (b # bs) \<Longrightarrow> bp < 32 \<Longrightarrow> b AND 0x80 = 0 \<Longrightarrow> bp = 28 \<longrightarrow> b AND 0x70 = 0 \<Longrightarrow>
     varint32_loop env s str bp r =
     Some (Some (r OR push_bit bp (ucast (b AND 0x7F))), s, adv str 1)"
  by (subst varint32_loop.simps) (simp add: view_readbyte Let_def)

lemma varint32_step_sign:
  "view s str (0xFF # bs) \<Longrightarrow> 32 \<le> bp \<Longrightarrow> bp < 63 \<Longrightarrow> drop_bit 31 r \<noteq> 0 \<Longrightarrow>
     varint32_loop env s str bp r = varint32_loop env s (adv str 1) (bp + 7) r"
  by (subst varint32_loop.simps) (simp add: view_readbyte Let_def)

lemma varint32_step_sign_last:
  "view s str (0x01 # bs) \<Longrightarrow> drop_bit 31 r \<noteq> 0 \<Longrightarrow>
     varint32_loop env s str 63 r = Some (Some r, s, adv str 1)"
  by (subst varint32_loop.simps) (simp add: view_readbyte Let_def)

lemma varint32_loop_pos:
  assumes "view s str (varint_bytes w @ rest)" and "bp \<in> {7, 14, 21, 28}"
    and "unat w < 2 ^ (32 - bp)"
  shows "varint32_loop env s str bp result =
     Some (Some (result OR push_bit bp (ucast w)), s, adv str (length (varint_bytes w)))"
  using assms
proof (induction w arbitrary: str bp result rule: varint_bytes.induct)
  case (1 w)
  show ?case
  proof (cases "w \<le> 0x7F")
    case True
    then obtain b where b: "varint_bytes w = [b]" "b AND 0x80 = 0"
        "ucast (b AND 0x7F) = (ucast w :: 32 word)" and bits: "\<And>i. bit b i = bit w i"
      by (rule varint_bytes_last) auto
    have v: "view s str (b # rest)" using "1.prems"(1) b by simp
    have low: "b AND 0x70 = 0" if "bp = 28"
    proof (rule bit_eqI)
      fix i
      from that "1.prems"(3) have "unat w < 2 ^ 4" by simp
      then have "bit w i \<Longrightarrow> i < 4" by (rule unat_less_bit)
      then show "bit (b AND 0x70) i = bit 0 i" by (simp only: bit_and_iff bit_0x70 bits) auto
    qed
    have "varint32_loop env s str bp result =
        Some (Some (result OR push_bit bp (ucast (b AND 0x7F))), s, adv str 1)"
    proof (rule varint32_step_last [OF v _ b(2)])
      show "bp < 32" using "1.prems"(2) by auto
    qed (intro impI low)
    then show ?thesis by (simp only: b(1,3)) simp
  next
    case False
    then obtain b where e: "varint_bytes w = b # varint_bytes (drop_bit 7 w)"
      and b: "b AND 0x80 \<noteq> 0" "ucast (b AND 0x7F) = (ucast (w AND 0x7F) :: 32 word)"
      by (rule varint_bytes_step)
    have v: "view s str (b # varint_bytes (drop_bit 7 w) @ rest)"
      using "1.prems"(1) by (simp add: e)
    have bp: "bp \<in> {7, 14, 21}" using "1.prems"(2,3) False by (auto simp: word_le_nat_alt)
    have "unat (drop_bit 7 w) < 2 ^ (32 - (bp + 7))"
      using bp "1.prems"(3) by (auto simp: unat_drop7)
    from "1.IH" [OF False view_cons_adv [OF v] _ this]
    have "varint32_loop env s (adv str 1) (bp + 7) (result OR push_bit bp (ucast (w AND 0x7F))) =
        Some (Some ((result OR push_bit bp (ucast (w AND 0x7F))) OR
          push_bit (bp + 7) (ucast (drop_bit 7 w))), s,
          adv (adv str 1) (length (varint_bytes (drop_bit 7 w))))"
      using bp by auto
    moreover have "bp < 32" using bp by auto
    ultimately have "varint32_loop env s str bp result =
        Some (Some ((result OR push_bit bp (ucast (w AND 0x7F))) OR
          push_bit (bp + 7) (ucast (drop_bit 7 w))), s,
          adv (adv str 1) (length (varint_bytes (drop_bit 7 w))))"
      by (simp only: varint32_step_more [OF v _ b(1)] b(2))
    then show ?thesis
      by (simp only: or.assoc push_split_low7_32) (simp add: adv_adv e)
  qed
qed

lemma varint32_loop_neg:
  assumes "view s str (varint_bytes w @ rest)" and "bp \<in> {7, 14, 21, 28, 35, 42, 49, 56, 63}"
    and "w = drop_bit bp x" and "\<forall>i \<in> {31..<64}. bit x i" and "bp \<ge> 32 \<Longrightarrow> bit result 31"
  shows "varint32_loop env s str bp result =
     Some (Some (result OR push_bit bp (ucast w)), s, adv str (length (varint_bytes w)))"
  using assms
proof (induction w arbitrary: str bp result rule: varint_bytes.induct)
  case (1 w)
  have r31: "drop_bit 31 result \<noteq> 0" if "bp \<ge> 32"
  proof
    assume z: "drop_bit 31 result = 0"
    have "bit (drop_bit 31 result) 0" using "1.prems"(5) [OF that] by (simp only: bit_drop_bit_eq) simp
    then show False by (simp only: z bit_0_eq) simp
  qed
  have high: "bp + i \<ge> 31 \<Longrightarrow> bp + i < 64 \<Longrightarrow> bit w i" for i
    using "1.prems"(3,4) by (simp add: bit_drop_bit_eq)
  have big: "bp \<ge> 32 \<Longrightarrow> push_bit bp (y :: 32 word) = 0" for y
    by (rule bit_eqI) (auto simp: bit_push_bit_iff)
  show ?case
  proof (cases "bp = 63")
    case True
    have w1: "w = 1"
    proof (rule bit_eqI)
      fix i assume "possible_bit TYPE(64 word) i"
      then have "i < 64" by simp
      show "bit w i = bit 1 i"
      proof (cases "i = 0")
        case True
        with high [of 0] \<open>bp = 63\<close> show ?thesis by (simp only: bit_1_iff) simp
      next
        case False
        have "\<not> bit x (63 + i)" using False bit_imp_le_length [of x "63 + i"] by auto
        with False \<open>bp = 63\<close> "1.prems"(3) show ?thesis
          by (simp only: bit_1_iff bit_drop_bit_eq comp_def simp_thms)
      qed
    qed
    then have "view s str (0x01 # rest)" using "1.prems"(1) by (simp add: varint_bytes_small)
    from varint32_step_sign_last [OF this, of result] True r31
    have "varint32_loop env s str bp result = Some (Some result, s, adv str 1)" by simp
    moreover have "result OR push_bit bp (ucast w) = result"
      using True by (simp only: big) simp
    moreover have "length (varint_bytes w) = 1" by (simp add: w1 varint_bytes_small)
    ultimately show ?thesis by simp
  next
    case False
    then have bp: "bp \<in> {7, 14, 21, 28, 35, 42, 49, 56}" using "1.prems"(2) by auto
    have large: "\<not> w \<le> 0x7F" using small_word_bit [of w "63 - bp"] high [of "63 - bp"] bp by auto
    then obtain b where e: "varint_bytes w = b # varint_bytes (drop_bit 7 w)"
      and b0: "b AND 0x80 \<noteq> 0" "ucast (b AND 0x7F) = w AND 0x7F"
      and b1: "ucast (b AND 0x7F) = (ucast (w AND 0x7F) :: 32 word)"
      and bits: "\<forall>i<7. bit b i = bit w i"
      by (rule varint_bytes_step)
    note b = b0(1) b1
    have v: "view s str (b # varint_bytes (drop_bit 7 w) @ rest)"
      using "1.prems"(1) by (simp add: e)
    have ff: "b = 0xFF" if "bp \<ge> 32"
    proof -
      have "b = mask 8"
      proof (rule bit_eqI)
        fix i assume "possible_bit TYPE(byte) i"
        then have "i < 8" by simp
        then show "bit b i = bit (mask 8 :: byte) i"
          using that bp bits high [of i] b(1) byte_and_0x80 [of b]
          by (cases "i = 7") (auto simp: bit_mask_iff)
      qed
      then show ?thesis by (simp add: mask_eq_exp_minus_1)
    qed
    define r where "r = (if bp \<ge> 32 then result else result OR push_bit bp (ucast (w AND 0x7F)))"
    have r: "r = result OR push_bit bp (ucast (w AND 0x7F))"
      by (simp add: r_def big)
    have "bit r 31" if "bp + 7 \<ge> 32"
    proof (cases "bp \<ge> 32")
      case True
      with "1.prems"(5) show ?thesis by (simp add: r_def)
    next
      case False
      with that bp have "bp = 28" by auto
      with high [of 3] show ?thesis by (simp add: r byte_bits)
    qed
    moreover have "drop_bit 7 w = drop_bit (bp + 7) x"
      by (simp add: "1.prems"(3) add.commute)
    moreover have "bp + 7 \<in> {7, 14, 21, 28, 35, 42, 49, 56, 63}" using bp by auto
    ultimately have "varint32_loop env s (adv str 1) (bp + 7) r =
        Some (Some (r OR push_bit (bp + 7) (ucast (drop_bit 7 w))), s,
          adv (adv str 1) (length (varint_bytes (drop_bit 7 w))))"
      using "1.IH" [OF large view_cons_adv [OF v]] "1.prems"(4) by blast
    moreover have "varint32_loop env s str bp result = varint32_loop env s (adv str 1) (bp + 7) r"
    proof (cases "bp \<ge> 32")
      case True
      moreover have "bp < 63" using bp by auto
      ultimately show ?thesis
        using varint32_step_sign [OF v [unfolded ff [OF True]], of bp result] r31 [OF True]
        by (simp only: r_def if_True simp_thms)
    next
      case False
      then have "bp < 32" by simp
      then show ?thesis
        using varint32_step_more [OF v _ b(1), of bp result] by (simp only: r b)
    qed
    ultimately show ?thesis
      by (simp only: r or.assoc push_split_low7_32) (simp add: adv_adv e)
  qed
qed

lemma varint32_eof_leb128:
  assumes v: "view s str (varint_bytes x @ rest)" and f: "fits32 x"
  shows "pb_decode_varint32_eof env s str =
     Some (Some (ucast x), False, s, adv str (length (varint_bytes x)))"
proof (cases "x \<le> 0x7F")
  case True
  then obtain b where b: "varint_bytes x = [b]" "b AND 0x80 = 0" "ucast b = (ucast x :: 32 word)"
    by (rule varint_bytes_last)
  with v have "view s str (b # rest)" by simp
  with b show ?thesis by (simp add: pb_decode_varint32_eof_def view_readbyte)
next
  case False
  then obtain b where e: "varint_bytes x = b # varint_bytes (drop_bit 7 x)"
    and b: "b AND 0x80 \<noteq> 0" "ucast (b AND 0x7F) = (ucast (x AND 0x7F) :: 32 word)"
    by (rule varint_bytes_step)
  have v': "view s str (b # varint_bytes (drop_bit 7 x) @ rest)" using v by (simp add: e)
  have "varint32_loop env s (adv str 1) 7 (ucast (x AND 0x7F)) =
      Some (Some (ucast (x AND 0x7F) OR push_bit 7 (ucast (drop_bit 7 x))), s,
        adv (adv str 1) (length (varint_bytes (drop_bit 7 x))))"
  proof (cases "unat x < 2 ^ 32")
    case True
    then have "unat (drop_bit 7 x) < 2 ^ (32 - 7)" by (simp add: unat_drop7)
    then show ?thesis by (intro varint32_loop_pos [OF view_cons_adv [OF v']]) simp_all
  next
    case False
    with f have "\<forall>i \<in> {31..<64}. bit x i" by (simp add: fits32_def)
    then show ?thesis by (intro varint32_loop_neg [OF view_cons_adv [OF v']]) simp_all
  qed
  with b show ?thesis
    using push_split_low7_32 [of 0 x]
    by (simp add: pb_decode_varint32_eof_def view_readbyte [OF v'] e adv_adv)
qed

lemma parses_varint32: "fits32 v \<Longrightarrow> parses (pb_decode_varint32 env) (varint_bytes v) (ucast v)"
  by (auto simp: parses_def pb_decode_varint32_def varint32_eof_leb128)

lemma decode_tag_leb128:
  assumes v: "view s str (varint_bytes (tag_value wt n) @ rest)"
    and n: "unat n < 2 ^ 29" "n \<noteq> 0" and wt: "unat wt < 2 ^ 3"
  shows "pb_decode_tag env s str =
     Some (True, wt, n, False, s, adv str (length (varint_bytes (tag_value wt n))))"
proof -
  note parts = tag_value_parts [OF n(1) wt]
  have "fits32 (tag_value wt n)" using parts(1) by (simp add: fits32_def)
  note d = varint32_eof_leb128 [OF v this]
  have "(ucast (tag_value wt n) :: 32 word) \<noteq> 0" using parts(3) n(2) by auto
  with d parts(2,3) show ?thesis by (simp add: pb_decode_tag_def)
qed

section \<open>Skipping\<close>

lemma skips_bytes: "length bs = n \<Longrightarrow> skips (\<lambda>s str. pb_skip_bytes env s str n) bs"
  by (auto simp: skips_def pb_skip_bytes_def view_skip)

lemma view_read_1: "view s str (b # bs) \<Longrightarrow> pb_read env s str ILocal 1 = Some (True, [b], s, adv str 1)"
  using view_read [of s str "b # bs" 1] by simp

lemmas view_read_Suc_0 = view_read_1 [simplified]

lemma skips_varint: "skips (pb_skip_varint env) (varint_bytes w)"
  unfolding skips_def
proof (intro allI impI)
  fix s str rest assume "view s str (varint_bytes w @ rest)"
  then show "pb_skip_varint env s str = Some (True, s, adv str (length (varint_bytes w)))"
  proof (induction w arbitrary: str rule: varint_bytes.induct)
    case (1 w)
    show ?case
    proof (cases "w \<le> 0x7F")
      case True
      then obtain b where b: "varint_bytes w = [b]" "b AND 0x80 = 0" by (rule varint_bytes_last)
      with "1.prems" have v: "view s str (b # rest)" by simp
      with b show ?thesis
        by (subst pb_skip_varint.simps) (simp add: view_read_Suc_0 [OF v] nth_opt_def)
    next
      case False
      then obtain b where e: "varint_bytes w = b # varint_bytes (drop_bit 7 w)" "b AND 0x80 \<noteq> 0"
        by (rule varint_bytes_step)
      then have v: "view s str (b # varint_bytes (drop_bit 7 w) @ rest)" using "1.prems" by simp
      from e "1.IH" [OF False view_cons_adv [OF v]] show ?thesis
        by (subst pb_skip_varint.simps) (simp add: view_read_Suc_0 [OF v] nth_opt_def adv_adv)
    qed
  qed
qed

lemma fits32_of_nat: "n < 2 ^ 32 \<Longrightarrow> fits32 (of_nat n)"
  by (simp add: fits32_def unat_of_nat)

lemma ucast_of_nat_32: "n < 2 ^ 32 \<Longrightarrow> unat (ucast (of_nat n :: 64 word) :: 32 word) = n"
  by (simp add: unat_of_nat unsigned_ucast_eq unsigned_take_bit_eq take_bit_nat_eq_self)

lemma parses_length: "n < 2 ^ 32 \<Longrightarrow>
    parses (pb_decode_varint32 env) (varint_bytes (of_nat n)) (ucast (of_nat n :: 64 word))"
  by (rule parses_varint32 [OF fits32_of_nat])

lemma view_after: "view s str (as @ bs) \<Longrightarrow> view s (adv str (length as)) bs"
  using view_adv [of s str "as @ bs" "length as"] by simp

lemma skips_string:
  assumes "length bs < 2 ^ 32"
  shows "skips (pb_skip_string env) (varint_bytes (of_nat (length bs)) @ bs)"
  unfolding skips_def
proof (intro allI impI)
  fix s str rest assume v: "view s str ((varint_bytes (of_nat (length bs)) @ bs) @ rest)"
  then have v1: "view s str (varint_bytes (of_nat (length bs)) @ bs @ rest)" by simp
  from view_skip [OF view_after [OF v1], of "length bs"]
  show "pb_skip_string env s str =
      Some (True, s, adv str (length (varint_bytes (of_nat (length bs)) @ bs)))"
    by (simp add: pb_skip_string_def parsesD [OF parses_length [OF assms] v1]
        ucast_of_nat_32 [OF assms] pb_skip_bytes_def adv_adv)
qed

text \<open>What can follow a tag with a given wire type.\<close>

lemma skips_field:
  assumes "wire_payload wt bs"
  shows "skips (\<lambda>s str. pb_skip_field env s str wt) bs"
proof -
  consider "wt = PB_WT_VARINT" "\<exists>v. bs = varint_bytes v" | "wt = PB_WT_64BIT" "length bs = 8"
    | "wt = PB_WT_32BIT" "length bs = 4"
    | cs where "wt = PB_WT_STRING" "length cs < 2 ^ 32" "bs = varint_bytes (of_nat (length cs)) @ cs"
    using assms unfolding wire_payload_def by blast
  then show ?thesis
    unfolding pb_skip_field_def
    by cases (use skips_varint skips_bytes [of bs 8] skips_bytes [of bs 4] skips_string in
        \<open>simp_all, blast\<close>)
qed

section \<open>Substreams\<close>

lemma make_substream:
  assumes v: "view s str (varint_bytes (of_nat (length bs)) @ bs @ rest)" and l: "length bs < 2 ^ 32"
  defines "sub \<equiv> (adv str (length (varint_bytes (of_nat (length bs)))))\<lparr>i_bytes_left := length bs\<rparr>"
  shows "view s sub bs"
    and "\<exists>par. pb_make_string_substream env s str = Some (Some sub, s, par) \<and>
       (\<forall>k \<le> length bs. pb_close_string_substream env s par (adv sub k) =
          Some (True, s, adv str (length (varint_bytes (of_nat (length bs)) @ bs))))"
proof -
  let ?n = "length (varint_bytes (of_nat (length bs)))" and ?str = "adv str (length (varint_bytes (of_nat (length bs))))"
  have va: "view s ?str (bs @ rest)" using v by (rule view_after)
  from view_window [OF va, of "length bs"] show vs: "view s sub bs" by (simp add: sub_def)
  let ?par = "?str\<lparr>i_bytes_left := i_bytes_left ?str - length bs\<rparr>"
  have "pb_make_string_substream env s str = Some (Some sub, s, ?par)"
    using view_left [OF va]
    by (simp add: pb_make_string_substream_def parsesD [OF parses_length [OF l] v]
        ucast_of_nat_32 [OF l] sub_def)
  moreover have "pb_close_string_substream env s ?par (adv sub k) =
      Some (True, s, adv str (length (varint_bytes (of_nat (length bs)) @ bs)))" if k: "k \<le> length bs" for k
  proof -
    have vk: "view s (adv sub k) (drop k bs)" by (rule view_adv [OF vs k])
    have "adv (adv sub k) (length bs - k) = adv sub (length bs)" using k by (simp add: adv_adv)
    moreover have "(if i_bytes_left (adv sub k) \<noteq> 0
        then pb_skip_bytes env s (adv sub k) (i_bytes_left (adv sub k))
        else Some (True, s, adv sub k)) = Some (True, s, adv (adv sub k) (length bs - k))"
      using view_left [OF vk] view_skip [OF vk, of "length bs - k"]
      by (auto simp: pb_skip_bytes_def adv_0)
    moreover have "i_errmsg (adv sub (length bs)) = i_errmsg ?str"
      by (simp add: adv_errmsg sub_def)
    moreover have "?par\<lparr>i_state := i_state (adv sub (length bs))\<rparr> = adv ?str (length bs)"
      using adv_window [OF va, of "length bs"] by (simp add: sub_def)
    ultimately show ?thesis
      by (simp add: pb_close_string_substream_def adv_adv) (metis adv_errmsg pb_istream.surjective
          pb_istream.update_convs(4) pb_istream.select_convs(4))
  qed
  ultimately show "\<exists>par. pb_make_string_substream env s str = Some (Some sub, s, par) \<and>
      (\<forall>k \<le> length bs. pb_close_string_substream env s par (adv sub k) =
        Some (True, s, adv str (length (varint_bytes (of_nat (length bs)) @ bs))))" by blast
qed

end

end
