(* ===== verification/PbTotal.thy ===== *)
theory PbTotal
  imports PbVarint
begin

text \<open>
  Every primitive decoder returns on every input, well-formed or not, within the bytes the
  stream has: \<open>reads\<close>, proved in \<open>byte_source\<close> from rules for the code's constructs; the
  loops are shown to end by induction on the number of bytes left. Then the interpretation
  of \<open>byte_source\<close> on buffer streams.
\<close>

context byte_source
begin

definition reads_on :: "nat \<Rightarrow> (cstate \<Rightarrow> pb_istream \<Rightarrow> ('r \<times> cstate \<times> pb_istream) option) \<Rightarrow> bool" where
  "reads_on n f \<longleftrightarrow> (\<forall>s str bs. length bs \<le> n \<and> view s str bs \<longrightarrow>
     (\<exists>r str' k. f s str = Some (r, s, str') \<and> k \<le> length bs \<and> view s str' (drop k bs)))"

definition reads :: "(cstate \<Rightarrow> pb_istream \<Rightarrow> ('r \<times> cstate \<times> pb_istream) option) \<Rightarrow> bool" where
  "reads f \<longleftrightarrow> (\<forall>n. reads_on n f)"

named_theorems reads_rules

lemma reads_onD:
  assumes "reads_on n f" and "view s str bs" and "length bs \<le> n"
  obtains r str' k where "f s str = Some (r, s, str')" "k \<le> length bs" "view s str' (drop k bs)"
  using assms unfolding reads_on_def by blast

lemma readsD:
  assumes "reads f" and "view s str bs"
  obtains r str' k where "f s str = Some (r, s, str')" "k \<le> length bs" "view s str' (drop k bs)"
  using assms reads_onD [of "length bs" f s str bs] unfolding reads_def by blast

lemma reads_onI: "reads f \<Longrightarrow> reads_on n f"
  by (simp add: reads_def)

lemma readsI: "(\<And>n. reads_on n f) \<Longrightarrow> reads f"
  by (simp add: reads_def)

lemma reads_on_pure [reads_rules]: "reads_on n (\<lambda>s str. Some (r str, s, str))"
  unfolding reads_on_def by (auto intro: exI [of _ "0::nat"])

lemma reads_on_error [reads_rules]: "reads_on n (\<lambda>s str. Some (r str, s, i_set_error str msg))"
  unfolding reads_on_def by (auto simp: view_error intro: exI [of _ "0::nat"])

lemma reads_on_if [reads_rules]:
  "(c \<Longrightarrow> reads_on n f) \<Longrightarrow> (\<not> c \<Longrightarrow> reads_on n g) \<Longrightarrow> reads_on n (\<lambda>s str. if c then f s str else g s str)"
  by (cases c) simp_all

lemma reads_on_if_str [reads_rules]:
  "reads_on n f \<Longrightarrow> reads_on n g \<Longrightarrow> reads_on n (\<lambda>s str. if c str then f s str else g s str)"
  unfolding reads_on_def by simp

lemma reads_on_case_option [reads_rules]:
  "(x = None \<Longrightarrow> reads_on n f) \<Longrightarrow> (\<And>y. x = Some y \<Longrightarrow> reads_on n (g y)) \<Longrightarrow>
   reads_on n (\<lambda>s str. case x of None \<Rightarrow> f s str | Some y \<Rightarrow> g y s str)"
  by (cases x) simp_all

lemma reads_on_bind [reads_rules]:
  assumes f: "reads_on n f" and g: "\<And>r. reads_on n (g r)"
  shows "reads_on n (\<lambda>s str. f s str \<bind> (\<lambda>(r, s, str). g r s str))"
  unfolding reads_on_def
proof (intro allI impI, elim conjE)
  fix s str bs assume len: "length bs \<le> n" and v: "view s str bs"
  obtain r str' k where f': "f s str = Some (r, s, str')" "k \<le> length bs" "view s str' (drop k bs)"
    using f v len by (rule reads_onD)
  have len': "length (drop k bs) \<le> n" using len by simp
  obtain r' str'' k' where "g r s str' = Some (r', s, str'')" "k' \<le> length (drop k bs)"
      "view s str'' (drop k' (drop k bs))"
    using g f'(3) len' by (rule reads_onD)
  with f' show "\<exists>r str' k. f s str \<bind> (\<lambda>(r, s, str). g r s str) = Some (r, s, str') \<and>
      k \<le> length bs \<and> view s str' (drop k bs)"
    by (intro exI [of _ r'] exI [of _ str''] exI [of _ "k + k'"]) (simp add: add.commute)
qed

text \<open>Reading a byte either fails at the end of the input or leaves one byte less.\<close>

lemma readbyte_cases:
  assumes "view s str bs"
  obtains "bs = []" "pb_readbyte env s str = Some (None, s, i_set_error str ''end-of-stream'')"
    | b bs' where "bs = b # bs'" "pb_readbyte env s str = Some (Some b, s, adv str 1)"
        "view s (adv str 1) bs'"
proof (cases bs)
  case Nil
  with view_left [OF assms] that(1) show ?thesis by (simp add: pb_readbyte_def)
next
  case (Cons b bs')
  with assms have v: "view s str (b # bs')" by simp
  show ?thesis by (rule that(2) [OF Cons view_readbyte [OF v] view_cons_adv [OF v]])
qed

lemma read_1_cases:
  assumes "view s str bs"
  obtains "bs = []"
      "pb_read env s str ILocal (Suc 0) = Some (False, [], s, i_set_error str ''end-of-stream'')"
    | b bs' where "bs = b # bs'" "pb_read env s str ILocal (Suc 0) = Some (True, [b], s, adv str 1)"
        "view s (adv str 1) bs'"
proof (cases bs)
  case Nil
  with view_left [OF assms] that(1) show ?thesis by (simp add: pb_read_def pb_read_direct_def)
next
  case (Cons b bs')
  with assms have v: "view s str (b # bs')" by simp
  from view_read_Suc_0 [OF v] view_cons_adv [OF v] Cons show ?thesis
    by (intro that(2)) simp_all
qed

lemma reads_on_byte:
  assumes f: "\<And>n. reads_on n (\<lambda>s str. f None s str)"
    and g: "\<And>b m. m < n \<Longrightarrow> reads_on m (\<lambda>s str. f (Some b) s str)"
  shows "reads_on n (\<lambda>s str. pb_readbyte env s str \<bind> (\<lambda>(r, s, str). f r s str))"
  unfolding reads_on_def
proof (intro allI impI, elim conjE)
  fix s str bs assume len: "length bs \<le> n" and v: "view s str bs"
  from v show "\<exists>r str' k. pb_readbyte env s str \<bind> (\<lambda>(r, s, str). f r s str) = Some (r, s, str') \<and>
      k \<le> length bs \<and> view s str' (drop k bs)"
  proof (cases rule: readbyte_cases)
    case 1
    from v 1 view_error have "view s (i_set_error str ''end-of-stream'') []" by simp
    from reads_onD [OF f this, of 0] 1 show ?thesis by fastforce
  next
    case (2 b bs')
    then have m: "length bs' < n" using len by simp
    obtain r str' k where "f (Some b) s (adv str 1) = Some (r, s, str')" "k \<le> length bs'"
        "view s str' (drop k bs')"
      using g [OF m] 2(3) by (rule reads_onD) simp
    with 2 show ?thesis by (intro exI [of _ r] exI [of _ str'] exI [of _ "Suc k"]) simp
  qed
qed

lemma reads_readbyte: "reads (pb_readbyte env)"
proof (rule readsI)
  fix n
  have "reads_on n (\<lambda>s str. pb_readbyte env s str \<bind> (\<lambda>(r, s, str). Some (r, s, str)))"
    by (rule reads_on_byte) (rule reads_rules)+
  then show "reads_on n (pb_readbyte env)"
    by (simp add: case_prod_beta' cong: option.case_cong)
qed

lemma reads_on_varint_loop: "reads_on n (\<lambda>s str. varint_loop env s str bitpos result)"
proof (induction n arbitrary: bitpos result rule: less_induct)
  case (less n)
  have "reads_on n (\<lambda>s str. if bitpos \<ge> 64 then Some (None, s, i_set_error str ''varint overflow'')
      else pb_readbyte env s str \<bind> (\<lambda>(r, s, str). case r of None \<Rightarrow> Some (None, s, str)
        | Some byte \<Rightarrow> (if byte AND 0x80 \<noteq> 0
            then varint_loop env s str ((bitpos + 7) mod 256) (result OR push_bit bitpos (ucast (byte AND 0x7F)))
            else Some (Some (result OR push_bit bitpos (ucast (byte AND 0x7F))), s, str))))"
    by (intro reads_on_if reads_on_error reads_on_byte; simp only: option.case)
      (intro reads_rules less | assumption)+
  then show ?case by (subst varint_loop.simps [abs_def]) (simp only: Let_def)
qed

lemma reads_varint: "reads (pb_decode_varint env)"
  unfolding pb_decode_varint_def [abs_def] by (intro readsI reads_on_varint_loop)

lemma reads_svarint: "reads (pb_decode_svarint env)"
  unfolding pb_decode_svarint_def [abs_def]
  by (rule readsI) (intro reads_rules reads_onI [OF reads_varint])

lemma reads_on_varint32_loop: "reads_on n (\<lambda>s str. varint32_loop env s str bitpos result)"
proof (induction n arbitrary: bitpos result rule: less_induct)
  case (less n)
  show ?case
    by (subst varint32_loop.simps [abs_def], simp only: Let_def,
        (rule reads_on_byte; simp only: option.case)) (intro reads_rules less | assumption)+
qed

text \<open>\<open>pb_decode_varint32_eof\<close> with its end-of-file flag as part of the result.\<close>

lemma reads_varint32_eof:
  "reads (\<lambda>s str. pb_decode_varint32_eof env s str \<bind> (\<lambda>(r, eof, s, str). Some ((r, eof), s, str)))"
proof (rule readsI)
  fix n
  have "reads_on n (\<lambda>s str. pb_readbyte env s str \<bind> (\<lambda>(r, s, str). case r of
      None \<Rightarrow> Some ((None, i_bytes_left str = 0), s, str)
    | Some byte \<Rightarrow> (if byte AND 0x80 = 0 then Some ((Some (ucast byte), False), s, str)
        else varint32_loop env s str 7 (ucast (byte AND 0x7F)) \<bind>
          (\<lambda>(r, s, str). Some ((r, False), s, str)))))"
    by (rule reads_on_byte; simp only: option.case)
      (intro reads_rules reads_on_varint32_loop | assumption)+
  moreover have "pb_decode_varint32_eof env s str \<bind> (\<lambda>(r, eof, s, str). Some ((r, eof), s, str)) =
      pb_readbyte env s str \<bind> (\<lambda>(r, s, str). case r of
      None \<Rightarrow> Some ((None, i_bytes_left str = 0), s, str)
    | Some byte \<Rightarrow> (if byte AND 0x80 = 0 then Some ((Some (ucast byte), False), s, str)
        else varint32_loop env s str 7 (ucast (byte AND 0x7F)) \<bind>
          (\<lambda>(r, s, str). Some ((r, False), s, str))))" for s str
    by (cases "pb_readbyte env s str")
      (auto simp: pb_decode_varint32_eof_def case_prod_beta' split: option.splits)
  ultimately show "reads_on n (\<lambda>s str. pb_decode_varint32_eof env s str \<bind>
      (\<lambda>(r, eof, s, str). Some ((r, eof), s, str)))" by (simp only:)
qed

lemma varint32_eof_cases:
  assumes "view s str bs"
  obtains r eof str' k where "pb_decode_varint32_eof env s str = Some (r, eof, s, str')"
    "k \<le> length bs" "view s str' (drop k bs)"
proof -
  obtain p str' k where *: "pb_decode_varint32_eof env s str \<bind>
      (\<lambda>(r, eof, s, str). Some ((r, eof), s, str)) = Some (p, s, str')"
      "k \<le> length bs" "view s str' (drop k bs)"
    using reads_varint32_eof assms by (rule readsD)
  then obtain r eof where "pb_decode_varint32_eof env s str = Some (r, eof, s, str')"
    by (auto simp: bind_Some_iff)
  with * show ?thesis by (intro that)
qed

lemma reads_varint32: "reads (pb_decode_varint32 env)"
proof (rule readsI, unfold reads_on_def, intro allI impI, elim conjE)
  fix s str bs assume "view s str bs"
  then show "\<exists>r str' k. pb_decode_varint32 env s str = Some (r, s, str') \<and> k \<le> length bs \<and>
      view s str' (drop k bs)"
    by (rule varint32_eof_cases) (auto simp: pb_decode_varint32_def)
qed

section \<open>Tags make progress\<close>

text \<open>
  \<open>pb_decode_tag\<close> returns on every input; when it succeeds at least one byte is taken, when
  it meets the end of the input, and only then, it sets \<open>eof\<close> with no byte taken.
\<close>

lemma decode_tag_cases:
  assumes v: "view s str bs"
  obtains
    (fail) eof str' k where "pb_decode_tag env s str = Some (False, 0, 0, eof, s, str')"
      "k \<le> length bs" "view s str' (drop k bs)"
  | (tag) wt t eof str' k where "pb_decode_tag env s str = Some (True, wt, t, eof, s, str')"
      "0 < k" "k \<le> length bs" "view s str' (drop k bs)" "wt = wt AND 7"
proof -
  from v show ?thesis
  proof (cases rule: readbyte_cases)
    case 1
    with v show ?thesis
      by (intro fail [of True "i_set_error str ''end-of-stream''" 0])
        (simp_all add: pb_decode_tag_def pb_decode_varint32_eof_def view_error view_left)
  next
    case (2 b bs')
    show ?thesis
    proof (cases "b AND 0x80 = 0")
      case True
      with 2 have "pb_decode_varint32_eof env s str = Some (Some (ucast b), False, s, adv str 1)"
        by (simp add: pb_decode_varint32_eof_def)
      with 2 tag [of "ucast b AND 7" "drop_bit 3 (ucast b)" False "adv str 1" 1]
        fail [of True "adv str 1" 1]
      show ?thesis by (cases "(ucast b :: 32 word) = 0") (simp_all add: pb_decode_tag_def and.assoc)
    next
      case False
      obtain r str' k where l: "varint32_loop env s (adv str 1) 7 (ucast (b AND 0x7F)) = Some (r, s, str')"
          "k \<le> length bs'" "view s str' (drop k bs')"
        using reads_on_varint32_loop 2(3) order_refl by (rule reads_onD)
      with 2 False have e: "pb_decode_varint32_eof env s str = Some (r, False, s, str')"
        by (simp add: pb_decode_varint32_eof_def)
      show ?thesis
      proof (cases "r = None \<or> r = Some 0")
        case True
        with e l 2 fail [of "r \<noteq> None" str' "Suc k"] show ?thesis by (auto simp: pb_decode_tag_def)
      next
        case False
        then obtain t where "r = Some t" "t \<noteq> 0" by auto
        with e l 2 tag [of "t AND 7" "drop_bit 3 t" False str' "Suc k"] show ?thesis
          by (simp add: pb_decode_tag_def and.assoc)
      qed
    qed
  qed
qed

section \<open>Skipping and substreams\<close>

lemma reads_skip_bytes: "reads (\<lambda>s str. pb_skip_bytes env s str m)"
proof (rule readsI, unfold reads_on_def, intro allI impI, elim conjE)
  fix s str bs assume v: "view s str bs"
  show "\<exists>r str' k. pb_skip_bytes env s str m = Some (r, s, str') \<and> k \<le> length bs \<and>
      view s str' (drop k bs)"
    using view_skip [OF v, of m] view_skip_short [OF v, of m] view_adv [OF v, of m]
    by (cases "m \<le> length bs") (auto simp: pb_skip_bytes_def)
qed

lemma reads_on_skip_varint: "reads_on n (pb_skip_varint env)"
proof (induction n rule: less_induct)
  case (less n)
  show ?case
    unfolding reads_on_def
  proof (intro allI impI, elim conjE)
    fix s str bs assume len: "length bs \<le> n" and v: "view s str bs"
    from v show "\<exists>r str' k. pb_skip_varint env s str = Some (r, s, str') \<and> k \<le> length bs \<and>
        view s str' (drop k bs)"
    proof (cases rule: read_1_cases)
      case 1
      with v show ?thesis by (subst pb_skip_varint.simps) (auto simp: view_error)
    next
      case (2 b bs')
      then have m: "length bs' < n" using len by simp
      obtain r str' k where "pb_skip_varint env s (adv str 1) = Some (r, s, str')" "k \<le> length bs'"
          "view s str' (drop k bs')"
        using less [OF m] 2(3) order_refl by (rule reads_onD)
      with 2 show ?thesis
        by (subst pb_skip_varint.simps)
          (auto simp: nth_opt_def intro: exI [of _ "Suc k"] exI [of _ "Suc 0"])
    qed
  qed
qed

lemma reads_skip_string: "reads (pb_skip_string env)"
  unfolding pb_skip_string_def [abs_def]
  by (rule readsI) (intro reads_rules reads_onI [OF reads_varint32] reads_onI [OF reads_skip_bytes])

lemma reads_skip_field: "reads (\<lambda>s str. pb_skip_field env s str wt)"
  unfolding pb_skip_field_def i_fail_def
  by (rule readsI)
    (intro reads_rules reads_on_skip_varint reads_onI [OF reads_skip_string]
      reads_onI [OF reads_skip_bytes])

text \<open>
  A substream shows a prefix of what its parent shows, and the parent then shows the rest:
  reading the substream cannot reach past its length.
\<close>

lemma make_substream_cases:
  assumes v: "view s str bs"
  obtains
    (fail) str' k where "pb_make_string_substream env s str = Some (None, s, str')"
      "k \<le> length bs" "view s str' (drop k bs)"
  | (sub) sub par k n where "pb_make_string_substream env s str = Some (Some sub, s, par)"
      "k + n \<le> length bs" "view s sub (take n (drop k bs))"
proof -
  obtain r str' k where d: "pb_decode_varint32 env s str = Some (r, s, str')" "k \<le> length bs"
      "view s str' (drop k bs)"
    using reads_varint32 v by (rule readsD)
  show ?thesis
  proof (cases r)
    case None
    with d fail show ?thesis by (simp add: pb_make_string_substream_def)
  next
    case (Some n)
    show ?thesis
    proof (cases "length (drop k bs) < unat n")
      case True
      with d Some fail [of "i_set_error str' ''parent stream too short''" k] show ?thesis
        by (simp add: pb_make_string_substream_def view_left [OF d(3)] view_error)
    next
      case False
      with d Some view_window [OF d(3), of "unat n"] show ?thesis
        by (intro sub [of "str'\<lparr>i_bytes_left := unat n\<rparr>" _ k "unat n"])
          (auto simp: pb_make_string_substream_def view_left [OF d(3)])
    qed
  qed
qed

end

section \<open>Buffer streams\<close>

definition buf_view :: "cstate \<Rightarrow> pb_istream \<Rightarrow> byte list \<Rightarrow> bool" where
  "buf_view s str bs \<longleftrightarrow> i_callback str = ICB_BUF_READ \<and> i_bytes_left str < 2 ^ 64 \<and>
     load_bytes s (i_state str) (i_bytes_left str) = Some bs"

definition buf_adv :: "pb_istream \<Rightarrow> nat \<Rightarrow> pb_istream" where
  "buf_adv str n = str\<lparr>i_state := i_state str + n, i_bytes_left := i_bytes_left str - n\<rparr>"

lemma size_sub: "n \<le> m \<Longrightarrow> m < 2 ^ 64 \<Longrightarrow> (m + 2 ^ 64 - n) mod 2 ^ 64 = m - (n :: nat)"
  by (metis Nat.diff_add_assoc2 add_lessD1 le_add_diff_inverse2 mod_add_self2 mod_less)

lemma load_bytes_prefix:
  "load_bytes s a m = Some bs \<Longrightarrow> n \<le> m \<Longrightarrow> load_bytes s a n = Some (take n bs)"
  using load_bytes_split [of s a n "m - n" bs] by simp

lemma load_bytes_suffix:
  "load_bytes s a m = Some bs \<Longrightarrow> n \<le> m \<Longrightarrow> load_bytes s (a + n) (m - n) = Some (drop n bs)"
  using load_bytes_split [of s a n "m - n" bs] by simp

lemma buf_read_direct:
  assumes "buf_view s str bs" and "n \<le> length bs"
  shows "pb_read_direct env s str ILocal n = Some (True, take n bs, s, buf_adv str n)"
    and "pb_read_direct env s str INull n = Some (True, [], s, buf_adv str n)"
proof -
  from assms have l: "load_bytes s (i_state str) (i_bytes_left str) = Some bs"
    and c: "i_callback str = ICB_BUF_READ" "i_bytes_left str < 2 ^ 64"
    by (auto simp: buf_view_def)
  from l have n: "n \<le> i_bytes_left str" using assms(2) by (auto dest: length_load_bytes)
  from c n load_bytes_prefix [OF l n] size_sub [OF n]
  show "pb_read_direct env s str ILocal n = Some (True, take n bs, s, buf_adv str n)"
    "pb_read_direct env s str INull n = Some (True, [], s, buf_adv str n)"
    by (simp_all add: pb_read_direct_def i_call_def buf_read_def buf_adv_def Let_def)
qed

interpretation bufsrc: byte_source env buf_view buf_adv for env
proof unfold_locales
  fix s str bs n assume v: "buf_view s str bs" and n: "n \<le> length bs"
  from v have l: "load_bytes s (i_state str) (i_bytes_left str) = Some bs"
    by (simp add: buf_view_def)
  from l n have n': "n \<le> i_bytes_left str" by (auto dest: length_load_bytes)
  from v load_bytes_suffix [OF l n'] show "buf_view s (buf_adv str n) (drop n bs)"
    by (auto simp: buf_view_def buf_adv_def)
  from v load_bytes_prefix [OF l n'] n' show "buf_view s (str\<lparr>i_bytes_left := n\<rparr>) (take n bs)"
    by (simp add: buf_view_def)
  show "pb_read env s str ILocal n = Some (True, take n bs, s, buf_adv str n)"
    "pb_read env s str INull n = Some (True, [], s, buf_adv str n)"
    using v buf_read_direct [OF v n] by (simp_all add: pb_read_def buf_view_def)
next
  fix s str b bs assume v: "buf_view s str (b # bs)"
  then have l: "load_bytes s (i_state str) (i_bytes_left str) = Some (b # bs)"
    and c: "i_callback str = ICB_BUF_READ" and lt: "i_bytes_left str < 2 ^ 64"
    by (simp_all add: buf_view_def)
  have n: "i_bytes_left str = Suc (length bs)" using length_load_bytes [OF l] by simp
  have "load_bytes s (i_state str) (Suc 0) = Some [b]"
    using load_bytes_prefix [OF l, of "Suc 0"] n by simp
  moreover have "(i_bytes_left str + 2 ^ 64 - 1) mod 2 ^ 64 = i_bytes_left str - 1"
    by (rule size_sub [OF _ lt]) (simp add: n)
  ultimately show "pb_readbyte env s str = Some (Some b, s, buf_adv str 1)"
    using n c by (simp add: pb_readbyte_def i_call_def buf_read_def buf_adv_def)
next
  fix s str bs n assume v: "buf_view s str bs" and n: "length bs < n"
  then have "pb_read env s str INull n = Some (False, [], s, i_set_error str ''end-of-stream'')"
    by (auto simp: pb_read_def pb_read_direct_def buf_view_def dest: length_load_bytes)
  moreover have "buf_view s (i_set_error str ''end-of-stream'') (drop 0 bs)"
    using v by (simp add: buf_view_def)
  ultimately show "\<exists>str' k. pb_read env s str INull n = Some (False, [], s, str') \<and> k \<le> length bs \<and>
      buf_view s str' (drop k bs)" by blast
qed (auto simp: buf_view_def buf_adv_def dest: length_load_bytes)

lemma buf_view_from_buffer:
  "load_bytes s buf n = Some bs \<Longrightarrow> n < 2 ^ 64 \<Longrightarrow> buf_view s (pb_istream_from_buffer buf n) bs"
  by (simp add: buf_view_def pb_istream_from_buffer_def)

end
