(* ===== verification/PbEncode.thy ===== *)
theory PbEncode
  imports PbOstream PbCommon
begin

text \<open>
  The message encoder of \<open>pb_encode.c\<close>. A message can nest, so the functions that call
  \<open>pb_encode\<close> back take it as the argument \<open>enc\<close>, and \<open>pb_encode d\<close> ties the knot for
  messages of nesting depth at most \<open>d\<close>: with less fuel than the nesting needs the result
  is \<open>None\<close>. The loops over fields and over the extension list are recursions in the
  option monad.
\<close>

section \<open>Field encoders\<close>

type_synonym pb_encoder = "cstate \<Rightarrow> pb_ostream \<Rightarrow> pb_field \<Rightarrow> nat \<Rightarrow> ores"
type_synonym msg_encoder = "cstate \<Rightarrow> pb_ostream \<Rightarrow> pb_field list \<Rightarrow> nat \<Rightarrow> ores"

text \<open>
  The integer at \<open>src\<close>, sign-extended or zero-extended to 64 bits; \<open>Some None\<close> is a
  \<open>data_size\<close> that is no integer width.
\<close>

definition load_signed :: "cstate \<Rightarrow> nat \<Rightarrow> nat \<Rightarrow> 64 word option option" where
  "load_signed s src data_size =
     (if data_size = 1 then do { v \<leftarrow> load_uint 1 s src; Some (Some (scast (of_nat v :: 8 word))) }
      else if data_size = 2 then do { v \<leftarrow> load_uint 2 s src; Some (Some (scast (of_nat v :: 16 word))) }
      else if data_size = 4 then do { v \<leftarrow> load_uint 4 s src; Some (Some (scast (of_nat v :: 32 word))) }
      else if data_size = 8 then do { v \<leftarrow> load_uint 8 s src; Some (Some (of_nat v)) }
      else Some None)"

definition load_unsigned :: "cstate \<Rightarrow> nat \<Rightarrow> nat \<Rightarrow> 64 word option option" where
  "load_unsigned s src data_size =
     (if data_size = 1 \<or> data_size = 2 \<or> data_size = 4 \<or> data_size = 8
      then do { v \<leftarrow> load_uint data_size s src; Some (Some (of_nat v)) }
      else Some None)"

definition pb_enc_varint :: "pb_env \<Rightarrow> pb_encoder" where
  "pb_enc_varint env s str field src =
     do { r \<leftarrow> load_signed s src (f_data_size field);
          case r of None \<Rightarrow> o_fail s str ''invalid data_size''
          | Some value \<Rightarrow> pb_encode_varint env s str value }"

definition pb_enc_uvarint :: "pb_env \<Rightarrow> pb_encoder" where
  "pb_enc_uvarint env s str field src =
     do { r \<leftarrow> load_unsigned s src (f_data_size field);
          case r of None \<Rightarrow> o_fail s str ''invalid data_size''
          | Some value \<Rightarrow> pb_encode_varint env s str value }"

definition pb_enc_svarint :: "pb_env \<Rightarrow> pb_encoder" where
  "pb_enc_svarint env s str field src =
     do { r \<leftarrow> load_signed s src (f_data_size field);
          case r of None \<Rightarrow> o_fail s str ''invalid data_size''
          | Some value \<Rightarrow> pb_encode_svarint env s str value }"

definition pb_enc_fixed64 :: "pb_env \<Rightarrow> pb_encoder" where
  "pb_enc_fixed64 env s str field src = pb_encode_fixed64 env s str src"

definition pb_enc_fixed32 :: "pb_env \<Rightarrow> pb_encoder" where
  "pb_enc_fixed32 env s str field src = pb_encode_fixed32 env s str src"

definition pb_enc_bytes :: "pb_env \<Rightarrow> pb_encoder" where
  "pb_enc_bytes env s str field src =
     (if src = 0 then pb_encode_string env s str BufNull 0
      else do { n \<leftarrow> load_u32 s src;
                if PB_ATYPE (f_type field) = PB_ATYPE_STATIC \<and>
                   PB_BYTES_ARRAY_T_ALLOCSIZE n > f_data_size field
                then o_fail s str ''bytes size exceeded''
                else pb_encode_string env s str (BufMem (src + 4)) n })"

text \<open>\<open>while (size < max_size && *p != '\0')\<close>, \<open>p\<close> being \<open>src + size\<close>.\<close>

function strnlen_loop :: "cstate \<Rightarrow> nat \<Rightarrow> nat \<Rightarrow> nat \<Rightarrow> nat option" where
  "strnlen_loop s src max_size sz =
     (if sz < max_size then
        do { c \<leftarrow> load_uint 1 s (src + sz);
             if c \<noteq> 0 then strnlen_loop s src max_size (sz + 1) else Some sz }
      else Some sz)"
  by pat_completeness auto
termination by (relation "measure (\<lambda>(s, src, max_size, sz). max_size - sz)") auto

declare strnlen_loop.simps [simp del]

definition pb_enc_string :: "pb_env \<Rightarrow> pb_encoder" where
  "pb_enc_string env s str field src =
     (let max_size = (if PB_ATYPE (f_type field) = PB_ATYPE_POINTER then 2 ^ 64 - 1
                      else f_data_size field)
      in if src = 0 then pb_encode_string env s str BufNull 0
         else do { n \<leftarrow> strnlen_loop s src max_size 0;
                   pb_encode_string env s str (BufMem src) n })"

definition pb_encode_submessage :: "pb_env \<Rightarrow> msg_encoder \<Rightarrow> msg_encoder" where
  "pb_encode_submessage env enc s str flds src =
     do { (ok, s, substream) \<leftarrow> enc s PB_OSTREAM_SIZING flds src;
          if \<not> ok then Some (False, s, str\<lparr>o_errmsg := o_errmsg substream\<rparr>)
          else (let sz = o_bytes_written substream
                in then_ok (pb_encode_varint env s str (of_nat sz)) (\<lambda>s str.
                   if o_callback str = OCB_NULL then pb_write env s str BufNull sz
                   else if (o_bytes_written str + sz) mod 2 ^ 64 > o_max_size str
                   then o_fail s str ''stream full''
                   else do {
                     (status, s, substream) \<leftarrow>
                       enc s \<lparr>o_callback = o_callback str, o_state = o_state str, o_max_size = sz,
                              o_bytes_written = 0, o_errmsg = None\<rparr> flds src;
                     let str = str\<lparr>o_bytes_written :=
                                   (o_bytes_written str + o_bytes_written substream) mod 2 ^ 64,
                                 o_state := o_state substream, o_errmsg := o_errmsg substream\<rparr>;
                     if o_bytes_written substream \<noteq> sz then o_fail s str ''submsg size changed''
                     else Some (status, s, str) })) }"

definition pb_enc_submessage :: "pb_env \<Rightarrow> msg_encoder \<Rightarrow> pb_encoder" where
  "pb_enc_submessage env enc s str field src =
     (if f_ptr field = 0 then o_fail s str ''invalid field descriptor''
      else pb_encode_submessage env enc s str (descr env (f_ptr field)) src)"

definition pb_enc_fixed_length_bytes :: "pb_env \<Rightarrow> pb_encoder" where
  "pb_enc_fixed_length_bytes env s str field src =
     pb_encode_string env s str (BufMem src) (f_data_size field)"

text \<open>
  The table indexed by \<open>PB_LTYPE\<close>: \<open>None\<close> outside its ten entries. Calling the null entry of
  extensions is undefined.
\<close>

definition PB_ENCODERS :: "pb_env \<Rightarrow> msg_encoder \<Rightarrow> pb_type \<Rightarrow> pb_encoder option" where
  "PB_ENCODERS env enc lt =
     nth_opt [pb_enc_varint env, pb_enc_uvarint env, pb_enc_svarint env, pb_enc_fixed32 env,
       pb_enc_fixed64 env, pb_enc_bytes env, pb_enc_string env, pb_enc_submessage env enc,
       (\<lambda>_ _ _ _. None), pb_enc_fixed_length_bytes env] (unat lt)"

section \<open>Arrays\<close>

text \<open>\<open>for (i = 0; i < count; i++) { if (!f(p)) return false; p += data_size; }\<close>\<close>

primrec array_loop ::
  "(cstate \<Rightarrow> pb_ostream \<Rightarrow> nat \<Rightarrow> ores) \<Rightarrow> nat \<Rightarrow> nat \<Rightarrow> nat \<Rightarrow> cstate \<Rightarrow> pb_ostream \<Rightarrow> ores" where
  "array_loop f data_size 0 p s str = Some (True, s, str)"
| "array_loop f data_size (Suc n) p s str =
     then_ok (f s str p) (array_loop f data_size n (p + data_size))"

definition encode_array :: "pb_env \<Rightarrow> cstate \<Rightarrow> pb_ostream \<Rightarrow> pb_field \<Rightarrow> nat \<Rightarrow> nat \<Rightarrow>
    pb_encoder \<Rightarrow> ores" where
  "encode_array env s str field pData count func =
     (let lt = PB_LTYPE (f_type field); at = PB_ATYPE (f_type field) in
      if count = 0 then Some (True, s, str)
      else if at \<noteq> PB_ATYPE_POINTER \<and> count > f_array_size field
      then o_fail s str ''array max size exceeded''
      else if lt \<le> PB_LTYPE_LAST_PACKABLE then
        then_ok (pb_encode_tag env s str PB_WT_STRING (f_tag field)) (\<lambda>s str.
          do { (ok, sz, s) \<leftarrow>
                 (if lt = PB_LTYPE_FIXED32 then Some (True, 4 * count, s)
                  else if lt = PB_LTYPE_FIXED64 then Some (True, 8 * count, s)
                  else do { (ok, s, sizestream) \<leftarrow>
                              array_loop (\<lambda>s str p. func s str field p) (f_data_size field) count pData
                                s PB_OSTREAM_SIZING;
                            Some (ok, o_bytes_written sizestream, s) });
               if \<not> ok then Some (False, s, str)
               else then_ok (pb_encode_varint env s str (of_nat sz)) (\<lambda>s str.
                 if o_callback str = OCB_NULL then pb_write env s str BufNull sz
                 else array_loop (\<lambda>s str p. func s str field p) (f_data_size field) count pData s str) })
      else
        array_loop (\<lambda>s str p.
            then_ok (pb_encode_tag_for_field env s str field) (\<lambda>s str.
              if at = PB_ATYPE_POINTER \<and> (lt = PB_LTYPE_STRING \<or> lt = PB_LTYPE_BYTES)
              then do { q \<leftarrow> load_ptr s p; func s str field q }
              else func s str field p))
          (f_data_size field) count pData s str)"

section \<open>Proto3 default values\<close>

text \<open>\<open>for (i = 0; i < data_size; i++) if (p[i] != 0) return false; return true;\<close>\<close>

primrec all_zero_loop :: "cstate \<Rightarrow> nat \<Rightarrow> nat \<Rightarrow> bool option" where
  "all_zero_loop s p 0 = Some True"
| "all_zero_loop s p (Suc n) =
     do { b \<leftarrow> load_uint 1 s p; if b \<noteq> 0 then Some False else all_zero_loop s (p + 1) n }"

partial_function (option) default_fields_loop ::
  "(pb_field \<Rightarrow> nat \<Rightarrow> bool option) \<Rightarrow> pb_field_iter \<Rightarrow> bool option" where
  "default_fields_loop chk iter =
     do { pos \<leftarrow> nth_opt (it_start iter) (it_pos iter);
          z \<leftarrow> chk pos (it_pData iter);
          if \<not> z then Some False
          else do { (more, iter) \<leftarrow> pb_field_iter_next iter;
                    if more then default_fields_loop chk iter else Some True } }"

definition check_default_body :: "pb_env \<Rightarrow> (pb_field \<Rightarrow> nat \<Rightarrow> bool option) \<Rightarrow>
    cstate \<Rightarrow> pb_field \<Rightarrow> nat \<Rightarrow> bool option" where
  "check_default_body env chk s field pData =
     (let ty = f_type field; pSize = ptr_add pData (f_size_offset field) in
      if PB_HTYPE ty = PB_HTYPE_REQUIRED then Some False
      else if PB_HTYPE ty = PB_HTYPE_REPEATED then do { n \<leftarrow> load_u32 s pSize; Some (n = 0) }
      else if PB_HTYPE ty = PB_HTYPE_ONEOF then do { n \<leftarrow> load_u32 s pSize; Some (n = 0) }
      else if PB_HTYPE ty = PB_HTYPE_OPTIONAL \<and> f_size_offset field \<noteq> 0
      then do { b \<leftarrow> load_bool s pSize; Some (b = False) }
      else if PB_ATYPE ty = PB_ATYPE_STATIC \<and> PB_LTYPE ty = PB_LTYPE_BYTES
      then do { n \<leftarrow> load_u32 s pData; Some (n = 0) }
      else if PB_ATYPE ty = PB_ATYPE_STATIC \<and> PB_LTYPE ty = PB_LTYPE_STRING
      then do { c \<leftarrow> load_uint 1 s pData; Some (c = 0) }
      else if PB_ATYPE ty = PB_ATYPE_STATIC \<and> PB_LTYPE ty = PB_LTYPE_FIXED_LENGTH_BYTES
      then Some (f_data_size field = 0)
      else if PB_ATYPE ty = PB_ATYPE_STATIC \<and> PB_LTYPE ty = PB_LTYPE_SUBMESSAGE
      then do { (some, iter) \<leftarrow> pb_field_iter_begin (descr env (f_ptr field)) pData;
                if some then default_fields_loop chk iter else Some True }
      else all_zero_loop s pData (f_data_size field))"

primrec pb_check_proto3_default_value ::
  "nat \<Rightarrow> pb_env \<Rightarrow> cstate \<Rightarrow> pb_field \<Rightarrow> nat \<Rightarrow> bool option" where
  "pb_check_proto3_default_value 0 env s field pData = None"
| "pb_check_proto3_default_value (Suc d) env s field pData =
     check_default_body env (pb_check_proto3_default_value d env s) s field pData"

section \<open>One field\<close>

text \<open>
  \<open>pSize\<close> is the address of the companion, or of the local \<open>implicit_has\<close>, which is one byte:
  reading a \<open>pb_size_t\<close> there is undefined.
\<close>

datatype has_src = HasLocal bool | HasAt nat

definition load_has :: "cstate \<Rightarrow> has_src \<Rightarrow> bool option" where
  "load_has s pSize = (case pSize of HasLocal b \<Rightarrow> Some b | HasAt a \<Rightarrow> load_bool s a)"

definition load_count :: "cstate \<Rightarrow> has_src \<Rightarrow> nat option" where
  "load_count s pSize = (case pSize of HasLocal b \<Rightarrow> None | HasAt a \<Rightarrow> load_u32 s a)"

text \<open>The switch on the repetition rule.\<close>

definition encode_by_rule :: "pb_env \<Rightarrow> pb_encoder \<Rightarrow> has_src \<Rightarrow> pb_encoder" where
  "encode_by_rule env func pSize s str field pData =
     (let ht = PB_HTYPE (f_type field);
          encode = (\<lambda>s str. then_ok (pb_encode_tag_for_field env s str field)
                      (\<lambda>s str. func s str field pData))
      in if ht = PB_HTYPE_REQUIRED then
           (if pData = 0 then o_fail s str ''missing required field'' else encode s str)
         else if ht = PB_HTYPE_OPTIONAL then
           do { has \<leftarrow> load_has s pSize; if has then encode s str else Some (True, s, str) }
         else if ht = PB_HTYPE_REPEATED then
           do { count \<leftarrow> (if f_size_offset field \<noteq> 0 then load_count s pSize
                          else Some (f_array_size field));
                encode_array env s str field pData count func }
         else if ht = PB_HTYPE_ONEOF then
           do { which \<leftarrow> load_count s pSize;
                if which = unat (f_tag field) then encode s str else Some (True, s, str) }
         else o_fail s str ''invalid field type'')"

definition implicit_has :: "(cstate \<Rightarrow> pb_field \<Rightarrow> nat \<Rightarrow> bool option) \<Rightarrow> cstate \<Rightarrow> pb_field \<Rightarrow> nat \<Rightarrow>
    bool option" where
  "implicit_has chk s field pData =
     (if f_size_offset field \<noteq> 0 then Some False
      else if PB_HTYPE (f_type field) = PB_HTYPE_OPTIONAL
      then do { z \<leftarrow> chk s field pData; Some (\<not> z) }
      else Some True)"

definition encode_basic_field :: "pb_env \<Rightarrow> msg_encoder \<Rightarrow> (cstate \<Rightarrow> pb_field \<Rightarrow> nat \<Rightarrow> bool option) \<Rightarrow>
    pb_encoder" where
  "encode_basic_field env enc chk s str field pData =
     do { func \<leftarrow> PB_ENCODERS env enc (PB_LTYPE (f_type field));
          has \<leftarrow> implicit_has chk s field pData;
          src \<leftarrow> (if PB_ATYPE (f_type field) = PB_ATYPE_POINTER then load_ptr s pData else Some pData);
          let has = (if PB_ATYPE (f_type field) = PB_ATYPE_POINTER then src \<noteq> 0 else has);
          let pSize = (if f_size_offset field \<noteq> 0 then HasAt (ptr_add pData (f_size_offset field))
                       else HasLocal has);
          encode_by_rule env func pSize s str field src }"

definition encode_callback_field :: "pb_env \<Rightarrow> pb_encoder" where
  "encode_callback_field env s str field pData =
     do { func \<leftarrow> load_ptr s (pData + CB_FUNCS);
          if func \<noteq> 0 then
            do { (ok, s, str) \<leftarrow> e_field_encode env func s str field (pData + CB_ARG);
                 if \<not> ok then o_fail s str ''callback error'' else Some (True, s, str) }
          else Some (True, s, str) }"

definition encode_field :: "pb_env \<Rightarrow> msg_encoder \<Rightarrow> (cstate \<Rightarrow> pb_field \<Rightarrow> nat \<Rightarrow> bool option) \<Rightarrow>
    pb_encoder" where
  "encode_field env enc chk s str field pData =
     (if PB_ATYPE (f_type field) = PB_ATYPE_STATIC \<or> PB_ATYPE (f_type field) = PB_ATYPE_POINTER
      then encode_basic_field env enc chk s str field pData
      else if PB_ATYPE (f_type field) = PB_ATYPE_CALLBACK
      then encode_callback_field env s str field pData
      else o_fail s str ''invalid field type'')"

definition default_extension_encoder :: "pb_env \<Rightarrow> msg_encoder \<Rightarrow>
    (cstate \<Rightarrow> pb_field \<Rightarrow> nat \<Rightarrow> bool option) \<Rightarrow> cstate \<Rightarrow> pb_ostream \<Rightarrow> nat \<Rightarrow> ores" where
  "default_extension_encoder env enc chk s str extension =
     do { type \<leftarrow> load_ptr s (extension + EXT_TYPE);
          arg \<leftarrow> load_ptr s (type + EXTTYPE_ARG);
          field \<leftarrow> nth_opt (descr env arg) 0;
          if PB_ATYPE (f_type field) = PB_ATYPE_POINTER
          then encode_field env enc chk s str field (extension + EXT_DEST)
          else do { dest \<leftarrow> load_ptr s (extension + EXT_DEST);
                    encode_field env enc chk s str field dest } }"

partial_function (option) extension_loop :: "pb_env \<Rightarrow> msg_encoder \<Rightarrow>
    (cstate \<Rightarrow> pb_field \<Rightarrow> nat \<Rightarrow> bool option) \<Rightarrow> cstate \<Rightarrow> pb_ostream \<Rightarrow> nat \<Rightarrow>
    (bool \<times> cstate \<times> pb_ostream) option" where
  "extension_loop env enc chk s str extension =
     (if extension = 0 then Some (True, s, str)
      else do { type \<leftarrow> load_ptr s (extension + EXT_TYPE);
                encode \<leftarrow> load_ptr s (type + EXTTYPE_ENCODE);
                (status, s, str) \<leftarrow>
                  (if encode \<noteq> 0 then e_ext_encode env encode s str extension
                   else default_extension_encoder env enc chk s str extension);
                if \<not> status then Some (False, s, str)
                else do { next \<leftarrow> load_ptr s (extension + EXT_NEXT);
                          extension_loop env enc chk s str next } })"

definition encode_extension_field :: "pb_env \<Rightarrow> msg_encoder \<Rightarrow>
    (cstate \<Rightarrow> pb_field \<Rightarrow> nat \<Rightarrow> bool option) \<Rightarrow> pb_encoder" where
  "encode_extension_field env enc chk s str field pData =
     do { extension \<leftarrow> load_ptr s pData; extension_loop env enc chk s str extension }"

section \<open>Whole messages\<close>

text \<open>The \<open>do \<dots> while (pb_field_iter_next(&iter))\<close> of \<open>pb_encode\<close>; \<open>f\<close> encodes one entry.\<close>

partial_function (option) fields_loop ::
  "pb_encoder \<Rightarrow> cstate \<Rightarrow> pb_ostream \<Rightarrow> pb_field_iter \<Rightarrow> (bool \<times> cstate \<times> pb_ostream) option" where
  "fields_loop f s str iter =
     do { pos \<leftarrow> nth_opt (it_start iter) (it_pos iter);
          (ok, s, str) \<leftarrow> f s str pos (it_pData iter);
          if \<not> ok then Some (False, s, str)
          else do { (more, iter) \<leftarrow> pb_field_iter_next iter;
                    if more then fields_loop f s str iter else Some (True, s, str) } }"

definition encode_entry :: "pb_env \<Rightarrow> msg_encoder \<Rightarrow> (cstate \<Rightarrow> pb_field \<Rightarrow> nat \<Rightarrow> bool option) \<Rightarrow>
    pb_encoder" where
  "encode_entry env enc chk s str pos pData =
     (if PB_LTYPE (f_type pos) = PB_LTYPE_EXTENSION
      then encode_extension_field env enc chk s str pos pData
      else encode_field env enc chk s str pos pData)"

primrec pb_encode :: "nat \<Rightarrow> pb_env \<Rightarrow> cstate \<Rightarrow> pb_ostream \<Rightarrow> pb_field list \<Rightarrow> nat \<Rightarrow> ores" where
  "pb_encode 0 env s str flds src = None"
| "pb_encode (Suc d) env s str flds src =
     do { (some, iter) \<leftarrow> pb_field_iter_begin flds src;
          if \<not> some then Some (True, s, str)
          else fields_loop (encode_entry env (pb_encode d env)
                 (pb_check_proto3_default_value (Suc d) env)) s str iter }"

definition pb_encode_delimited :: "nat \<Rightarrow> pb_env \<Rightarrow> cstate \<Rightarrow> pb_ostream \<Rightarrow> pb_field list \<Rightarrow> nat \<Rightarrow> ores" where
  "pb_encode_delimited d env s str flds src = pb_encode_submessage env (pb_encode d env) s str flds src"

definition pb_encode_nullterminated ::
  "nat \<Rightarrow> pb_env \<Rightarrow> cstate \<Rightarrow> pb_ostream \<Rightarrow> pb_field list \<Rightarrow> nat \<Rightarrow> ores" where
  "pb_encode_nullterminated d env s str flds src =
     then_ok (pb_encode d env s str flds src) (\<lambda>s str. pb_write env s str (BufLocal [0]) 1)"

definition pb_get_encoded_size ::
  "nat \<Rightarrow> pb_env \<Rightarrow> cstate \<Rightarrow> pb_field list \<Rightarrow> nat \<Rightarrow> (nat option \<times> cstate) option" where
  "pb_get_encoded_size d env s flds src =
     do { (ok, s, str) \<leftarrow> pb_encode d env s PB_OSTREAM_SIZING flds src;
          Some (if ok then Some (o_bytes_written str) else None, s) }"

end
