(* ===== verification/PbEncodeSpec.thy ===== *)
theory PbEncodeSpec
  imports PbEncode
begin

text \<open>
  The message encoder against its specification. \<open>message_bytes\<close> is the wire form of a
  message as a function of memory: no streams, no sizing passes, no substreams, the entries
  one after the other. The locale \<open>msg_sink\<close> adds to \<open>byte_sink\<close> what the substreams of
  \<open>pb_encode_submessage\<close> rely on; in it every encoder \<open>emits\<close> its specification, so a
  message is written exactly, its length prefixes are right, and the error
  ``submsg size changed'' does not occur.
\<close>

section \<open>The wire form of a message\<close>

primrec concat_opt :: "'a list option list \<Rightarrow> 'a list option" where
  "concat_opt [] = Some []"
| "concat_opt (x # xs) = do { a \<leftarrow> x; b \<leftarrow> concat_opt xs; Some (a @ b) }"

definition prefixed :: "byte list \<Rightarrow> byte list" where
  "prefixed bs = varint_bytes (of_nat (length bs)) @ bs"

type_synonym msg_bytes = "cstate \<Rightarrow> pb_field list \<Rightarrow> nat \<Rightarrow> byte list option"

text \<open>The bytes that follow the tag of a single value at \<open>src\<close>.\<close>

definition value_bytes :: "pb_env \<Rightarrow> msg_bytes \<Rightarrow> cstate \<Rightarrow> pb_field \<Rightarrow> nat \<Rightarrow> byte list option" where
  "value_bytes env sub s field src =
     (let lt = PB_LTYPE (f_type field) in
      if lt = PB_LTYPE_VARINT then
        do { r \<leftarrow> load_signed s src (f_data_size field); v \<leftarrow> r; Some (varint_bytes v) }
      else if lt = PB_LTYPE_UVARINT then
        do { r \<leftarrow> load_unsigned s src (f_data_size field); v \<leftarrow> r; Some (varint_bytes v) }
      else if lt = PB_LTYPE_SVARINT then
        do { r \<leftarrow> load_signed s src (f_data_size field); v \<leftarrow> r; Some (varint_bytes (zigzag v)) }
      else if lt = PB_LTYPE_FIXED32 then load_bytes s src 4
      else if lt = PB_LTYPE_FIXED64 then load_bytes s src 8
      else if lt = PB_LTYPE_BYTES then
        (if src = 0 then Some (prefixed [])
         else do { n \<leftarrow> load_u32 s src;
                   if PB_ATYPE (f_type field) = PB_ATYPE_STATIC \<and>
                      PB_BYTES_ARRAY_T_ALLOCSIZE n > f_data_size field then None
                   else do { bs \<leftarrow> load_bytes s (src + 4) n; Some (prefixed bs) } })
      else if lt = PB_LTYPE_STRING then
        (if src = 0 then Some (prefixed [])
         else do { n \<leftarrow> strnlen_loop s src (if PB_ATYPE (f_type field) = PB_ATYPE_POINTER
                                            then 2 ^ 64 - 1 else f_data_size field) 0;
                   bs \<leftarrow> load_bytes s src n; Some (prefixed bs) })
      else if lt = PB_LTYPE_SUBMESSAGE then
        (if f_ptr field = 0 then None
         else do { bs \<leftarrow> sub s (descr env (f_ptr field)) src; Some (prefixed bs) })
      else if lt = PB_LTYPE_FIXED_LENGTH_BYTES then
        do { bs \<leftarrow> load_bytes s src (f_data_size field); Some (prefixed bs) }
      else None)"

definition tag_bytes :: "pb_field \<Rightarrow> byte list option" where
  "tag_bytes field =
     do { wt \<leftarrow> wire_type_of (PB_LTYPE (f_type field));
          Some (varint_bytes (tag_value wt (f_tag field))) }"

definition tagged_bytes :: "pb_env \<Rightarrow> msg_bytes \<Rightarrow> cstate \<Rightarrow> pb_field \<Rightarrow> nat \<Rightarrow> byte list option" where
  "tagged_bytes env sub s field src = concat_opt [tag_bytes field, value_bytes env sub s field src]"

definition array_bytes :: "pb_env \<Rightarrow> msg_bytes \<Rightarrow> cstate \<Rightarrow> pb_field \<Rightarrow> nat \<Rightarrow> nat \<Rightarrow> byte list option" where
  "array_bytes env sub s field pData count =
     (let lt = PB_LTYPE (f_type field); at = PB_ATYPE (f_type field);
          elem = (\<lambda>i. pData + i * f_data_size field) in
      if count = 0 then Some []
      else if at \<noteq> PB_ATYPE_POINTER \<and> count > f_array_size field then None
      else if lt \<le> PB_LTYPE_LAST_PACKABLE then
        do { bs \<leftarrow> concat_opt (map (\<lambda>i. value_bytes env sub s field (elem i)) [0..<count]);
             Some (varint_bytes (tag_value PB_WT_STRING (f_tag field)) @ prefixed bs) }
      else concat_opt (map (\<lambda>i.
             if at = PB_ATYPE_POINTER \<and> (lt = PB_LTYPE_STRING \<or> lt = PB_LTYPE_BYTES)
             then do { q \<leftarrow> load_ptr s (elem i); tagged_bytes env sub s field q }
             else tagged_bytes env sub s field (elem i)) [0..<count]))"

text \<open>A field: absent fields have no bytes; a missing required pointer has no wire form.\<close>

definition rule_bytes :: "pb_env \<Rightarrow> msg_bytes \<Rightarrow> has_src \<Rightarrow> cstate \<Rightarrow> pb_field \<Rightarrow> nat \<Rightarrow> byte list option" where
  "rule_bytes env sub pSize s field src =
     (let ht = PB_HTYPE (f_type field) in
      if ht = PB_HTYPE_REQUIRED then (if src = 0 then None else tagged_bytes env sub s field src)
      else if ht = PB_HTYPE_OPTIONAL then
        do { has \<leftarrow> load_has s pSize; if has then tagged_bytes env sub s field src else Some [] }
      else if ht = PB_HTYPE_REPEATED then
        do { count \<leftarrow> (if f_size_offset field = 0 then Some (f_array_size field) else load_count s pSize);
             array_bytes env sub s field src count }
      else
        do { which \<leftarrow> load_count s pSize;
             if which = unat (f_tag field) then tagged_bytes env sub s field src else Some [] })"

definition field_bytes :: "pb_env \<Rightarrow> msg_bytes \<Rightarrow> (cstate \<Rightarrow> pb_field \<Rightarrow> nat \<Rightarrow> bool option) \<Rightarrow>
    cstate \<Rightarrow> pb_field \<Rightarrow> nat \<Rightarrow> byte list option" where
  "field_bytes env sub chk s field pData =
     (let at = PB_ATYPE (f_type field) in
      if at = PB_ATYPE_CALLBACK then
        do { func \<leftarrow> load_ptr s (pData + CB_FUNCS); if func = 0 then Some [] else None }
      else if at \<noteq> PB_ATYPE_STATIC \<and> at \<noteq> PB_ATYPE_POINTER
        \<or> PB_LTYPE (f_type field) > PB_LTYPE_FIXED_LENGTH_BYTES then None
      else do {
        has \<leftarrow> implicit_has chk s field pData;
        src \<leftarrow> (if at = PB_ATYPE_POINTER then load_ptr s pData else Some pData);
        rule_bytes env sub
          (if f_size_offset field \<noteq> 0 then HasAt (ptr_add pData (f_size_offset field))
           else HasLocal (if at = PB_ATYPE_POINTER then src \<noteq> 0 else has)) s field src })"

text \<open>Where the data of an extension is: a pointer extension keeps it in the list node.\<close>

definition ext_dest :: "cstate \<Rightarrow> pb_field \<Rightarrow> nat \<Rightarrow> nat option" where
  "ext_dest s field ext =
     (if PB_ATYPE (f_type field) = PB_ATYPE_POINTER then Some (ext + EXT_DEST)
      else load_ptr s (ext + EXT_DEST))"

text \<open>The extension list, extensions with an encoder of the application excepted.\<close>

partial_function (option) extension_bytes ::
  "(cstate \<Rightarrow> pb_field \<Rightarrow> nat \<Rightarrow> byte list option) \<Rightarrow> pb_env \<Rightarrow> cstate \<Rightarrow> nat \<Rightarrow> byte list option" where
  "extension_bytes f env s extension =
     (if extension = 0 then Some []
      else do { type \<leftarrow> load_ptr s (extension + EXT_TYPE);
                encode \<leftarrow> load_ptr s (type + EXTTYPE_ENCODE);
                arg \<leftarrow> load_ptr s (type + EXTTYPE_ARG);
                field \<leftarrow> nth_opt (descr env arg) 0;
                dest \<leftarrow> ext_dest s field extension;
                bs \<leftarrow> (if encode = 0 then f s field dest else None);
                next \<leftarrow> load_ptr s (extension + EXT_NEXT);
                rest \<leftarrow> extension_bytes f env s next;
                Some (bs @ rest) })"

definition entry_bytes :: "pb_env \<Rightarrow> msg_bytes \<Rightarrow> (cstate \<Rightarrow> pb_field \<Rightarrow> nat \<Rightarrow> bool option) \<Rightarrow>
    cstate \<Rightarrow> pb_field \<Rightarrow> nat \<Rightarrow> byte list option" where
  "entry_bytes env sub chk s field pData =
     (if PB_LTYPE (f_type field) = PB_LTYPE_EXTENSION
      then do { ext \<leftarrow> load_ptr s pData; extension_bytes (field_bytes env sub chk) env s ext }
      else field_bytes env sub chk s field pData)"

primrec message_bytes :: "nat \<Rightarrow> pb_env \<Rightarrow> cstate \<Rightarrow> pb_field list \<Rightarrow> nat \<Rightarrow> byte list option" where
  "message_bytes 0 env s flds src = None"
| "message_bytes (Suc d) env s flds src =
     (if terminated flds
      then concat_opt (map (\<lambda>i. entry_bytes env (message_bytes d env)
               (pb_check_proto3_default_value (Suc d) env) s (flds ! i) (src + data_at flds i))
             [0..<field_count flds])
      else None)"

section \<open>Reads are stable under output\<close>

text \<open>\<open>stable f\<close>: what \<open>f\<close> reads in a memory it reads in every memory that extends it.\<close>

definition stable :: "(cstate \<Rightarrow> 'a option) \<Rightarrow> bool" where
  "stable f \<longleftrightarrow> (\<forall>s0 s v. extends s0 s \<longrightarrow> f s0 = Some v \<longrightarrow> f s = Some v)"

named_theorems stable_rules

lemma stableD: "stable f \<Longrightarrow> extends s0 s \<Longrightarrow> f s0 = Some v \<Longrightarrow> f s = Some v"
  unfolding stable_def by blast

lemma stable_load [stable_rules]: "stable (\<lambda>s. load_uint n s a)"
  unfolding stable_def by (blast intro: extends_load_uint)

lemma stable_load_bool [stable_rules]: "stable (\<lambda>s. load_bool s a)"
  unfolding stable_def by (blast intro: extends_load_bool)

lemma stable_const [stable_rules]: "stable (\<lambda>s. x)"
  by (simp add: stable_def)

lemma stable_bind [stable_rules]:
  "stable f \<Longrightarrow> (\<And>v. stable (g v)) \<Longrightarrow> stable (\<lambda>s. f s \<bind> (\<lambda>v. g v s))"
  unfolding stable_def by (auto simp: bind_Some_iff)

lemma stable_bind_pair [stable_rules]:
  "stable f \<Longrightarrow> (\<And>v w. stable (g v w)) \<Longrightarrow> stable (\<lambda>s. f s \<bind> (\<lambda>(v, w). g v w s))"
  unfolding stable_def by (auto simp: bind_Some_iff)

lemma stable_if [stable_rules]:
  "(c \<Longrightarrow> stable f) \<Longrightarrow> (\<not> c \<Longrightarrow> stable g) \<Longrightarrow> stable (\<lambda>s. if c then f s else g s)"
  by (cases c) simp_all

lemma stable_load_has [stable_rules]: "stable (\<lambda>s. load_has s p)"
  unfolding load_has_def by (cases p) (simp_all add: stable_rules)

lemma stable_load_count [stable_rules]: "stable (\<lambda>s. load_count s p)"
  unfolding load_count_def by (cases p) (simp_all add: stable_rules)

lemma stable_load_signed [stable_rules]: "stable (\<lambda>s. load_signed s a n)"
  unfolding load_signed_def by (intro stable_rules)

lemma stable_load_unsigned [stable_rules]: "stable (\<lambda>s. load_unsigned s a n)"
  unfolding load_unsigned_def by (intro stable_rules)

lemma stable_all_zero [stable_rules]: "stable (\<lambda>s. all_zero_loop s p n)"
proof (induction n arbitrary: p)
  case (Suc n)
  show ?case unfolding all_zero_loop.simps by (intro stable_rules Suc)
qed (simp add: stable_rules)

lemma stable_strnlen [stable_rules]: "stable (\<lambda>s. strnlen_loop s src m n)"
proof (induction "m - n" arbitrary: n rule: less_induct)
  case less
  have "stable (\<lambda>s. if n < m then do { c \<leftarrow> load_uint 1 s (src + n);
      if c \<noteq> 0 then strnlen_loop s src m (n + 1) else Some n } else Some n)"
    by (intro stable_rules less) simp
  then show ?case by (simp add: strnlen_loop.simps [of _ src m n])
qed

lemmas default_fields_induct = default_fields_loop.raw_induct [rotated, consumes 1, case_names step]

lemma default_fields_loop_mono:
  assumes "default_fields_loop f iter = Some r" and "\<forall>pos p v. f pos p = Some v \<longrightarrow> g pos p = Some v"
  shows "default_fields_loop g iter = Some r"
  using assms
proof (induction rule: default_fields_induct)
  case (step loop f iter r)
  from step.hyps obtain pos z where pos: "nth_opt (it_start iter) (it_pos iter) = Some pos"
      "f pos (it_pData iter) = Some z" by (auto simp: bind_Some_iff simp del: nth_opt_Some)
  from pos(2) step.prems have g: "g pos (it_pData iter) = Some z" by blast
  show ?case
  proof (cases z)
    case False
    with step.hyps pos g show ?thesis
      by (subst default_fields_loop.simps) (simp del: nth_opt_Some)
  next
    case True
    with step.hyps pos obtain more iter' where n: "pb_field_iter_next iter = Some (more, iter')"
      by (auto simp: bind_Some_iff simp del: nth_opt_Some)
    have "default_fields_loop g iter' = Some r" if more
      using step.IH [OF _ step.prems] step.hyps pos True n that by (simp del: nth_opt_Some)
    with step.hyps pos g True n show ?thesis
      by (subst default_fields_loop.simps) (cases more; simp del: nth_opt_Some)
  qed
qed

lemma stable_check_default [stable_rules]:
  "stable (\<lambda>s. pb_check_proto3_default_value d env s field p)"
proof (induction d arbitrary: field p)
  case (Suc d)
  have "stable (\<lambda>s. default_fields_loop (pb_check_proto3_default_value d env s) iter)" for iter
    unfolding stable_def
  proof (intro allI impI)
    fix s0 s v assume e: "extends s0 s" and
      l: "default_fields_loop (pb_check_proto3_default_value d env s0) iter = Some v"
    from l show "default_fields_loop (pb_check_proto3_default_value d env s) iter = Some v"
      by (rule default_fields_loop_mono) (use stableD [OF Suc e] in blast)
  qed
  then show ?case
    unfolding pb_check_proto3_default_value.simps check_default_body_def Let_def
    by (intro stable_rules)
qed (simp add: stable_rules)

section \<open>The contract of a sink with substreams\<close>

definition substream_of :: "pb_ostream \<Rightarrow> nat \<Rightarrow> pb_ostream" where
  "substream_of str n = \<lparr>o_callback = o_callback str, o_state = o_state str, o_max_size = n,
     o_bytes_written = 0, o_errmsg = None\<rparr>"

locale msg_sink = byte_sink +
  assumes room_sizing: "room s0 s str n \<Longrightarrow> room s0 s PB_OSTREAM_SIZING n"
    and put_sizing: "put s PB_OSTREAM_SIZING bs = (s, PB_OSTREAM_SIZING\<lparr>o_bytes_written := length bs\<rparr>)"
    and room_limit: "room s0 s str n \<Longrightarrow> o_callback str \<noteq> OCB_NULL \<Longrightarrow>
        (o_bytes_written str + n) mod 2 ^ 64 \<le> o_max_size str"
    and room_sub: "room s0 s str n \<Longrightarrow> o_callback str \<noteq> OCB_NULL \<Longrightarrow> room s0 s (substream_of str n) n"
    and put_sub: "room s0 s str (length bs) \<Longrightarrow> o_callback str \<noteq> OCB_NULL \<Longrightarrow>
        put s (substream_of str (length bs)) bs = (s', sub) \<Longrightarrow>
        o_bytes_written sub = length bs \<and>
        put s str bs = (s', str\<lparr>o_bytes_written := (o_bytes_written str + length bs) mod 2 ^ 64,
          o_state := o_state sub, o_errmsg := o_errmsg sub\<rparr>)"
begin

text \<open>An encoder that first reads memory.\<close>

lemma emits_read:
  assumes "stable g" and "g s0 = Some v" and "emits s0 (f v) bs"
  shows "emits s0 (\<lambda>s str. g s \<bind> (\<lambda>v. f v s str)) bs"
proof (rule emitsI)
  fix s str assume r: "room s0 s str (length bs)"
  have "g s = Some v" using assms(1) room_extends [OF r] assms(2) by (rule stableD)
  with emitsD [OF assms(3) r] show "g s \<bind> (\<lambda>v. f v s str) = Some (True, put s str bs)" by simp
qed

lemma emits_if:
  "(c \<Longrightarrow> emits s0 f bs) \<Longrightarrow> (\<not> c \<Longrightarrow> emits s0 g bs) \<Longrightarrow> emits s0 (\<lambda>s str. if c then f s str else g s str) bs"
  by (cases c) simp_all

lemma emits_array:
  assumes "\<forall>i<n. \<exists>bs. bss i = Some bs \<and> emits s0 (\<lambda>s str. f s str (p + i * ds)) bs"
    and "concat_opt (map bss [0..<n]) = Some cs"
  shows "emits s0 (array_loop f ds n p) cs"
  using assms
proof (induction n arbitrary: p bss cs)
  case 0
  then show ?case by (simp add: emits_done)
next
  case (Suc n)
  have "map bss [0..<Suc n] = bss 0 # map (\<lambda>i. bss (Suc i)) [0..<n]"
    by (simp add: map_upt_Suc del: upt_Suc)
  with Suc.prems(2) obtain a b where ab: "bss 0 = Some a"
      "concat_opt (map (\<lambda>i. bss (Suc i)) [0..<n]) = Some b" "cs = a @ b"
    by (auto simp: bind_Some_iff)
  from Suc.prems(1) ab(1) have "emits s0 (\<lambda>s str. f s str p) a" by force
  moreover have "emits s0 (array_loop f ds n (p + ds)) b"
  proof (rule Suc.IH [OF _ ab(2)], intro allI impI)
    fix i assume "i < n"
    with Suc.prems(1) [THEN spec, of "Suc i"]
    show "\<exists>bs. bss (Suc i) = Some bs \<and> emits s0 (\<lambda>s str. f s str (p + ds + i * ds)) bs"
      by (simp add: add.assoc)
  qed
  ultimately show ?case
    unfolding array_loop.simps ab(3) by (rule emits_seq)
qed

text \<open>
  Two passes, one result: the sizing pass finds the length of what the second pass writes.
\<close>

lemma emits_submessage:
  assumes e: "emits s0 (\<lambda>s str. enc s str flds src) bs"
  shows "emits s0 (\<lambda>s str. pb_encode_submessage env enc s str flds src) (prefixed bs)"
proof (rule emitsI)
  fix s str assume r: "room s0 s str (length (prefixed bs))"
  let ?v = "varint_bytes (of_nat (length bs))"
  have rv: "room s0 s str (length ?v)" using r by (auto simp: prefixed_def intro: room_mono)
  have "room s0 s str (length bs)"
    by (rule room_mono [of _ _ _ _ "length ?v"]) (use r in \<open>simp add: prefixed_def add.commute\<close>)
  from emitsD [OF e room_sizing [OF this]]
  have size_pass: "enc s PB_OSTREAM_SIZING flds src =
      Some (True, s, PB_OSTREAM_SIZING\<lparr>o_bytes_written := length bs\<rparr>)"
    by (simp add: put_sizing)
  obtain s1 str1 where p1: "put s str ?v = (s1, str1)" by fastforce
  have v: "pb_encode_varint env s str (of_nat (length bs)) = Some (True, s1, str1)"
    using emitsD [OF emits_varint rv] by (simp add: p1)
  have r1: "room s0 s1 str1 (length bs)"
    using room_put [of s0 s str ?v "length bs"] r by (simp add: prefixed_def p1)
  have goal: "put s str (prefixed bs) = put s1 str1 bs"
    by (simp add: prefixed_def put_append p1)
  show "pb_encode_submessage env enc s str flds src = Some (True, put s str (prefixed bs))"
  proof (cases "o_callback str1 = OCB_NULL")
    case True
    with null_write [OF r1 True] show ?thesis
      by (simp add: pb_encode_submessage_def size_pass v goal)
  next
    case False
    obtain s2 sub where p2: "put s1 (substream_of str1 (length bs)) bs = (s2, sub)" by fastforce
    from emitsD [OF e room_sub [OF r1 False]]
    have second: "enc s1 (substream_of str1 (length bs)) flds src = Some (True, s2, sub)"
      by (simp add: p2)
    from put_sub [OF r1 False p2] room_limit [OF r1 False] False second show ?thesis
      by (simp add: pb_encode_submessage_def size_pass v goal substream_of_def Let_def not_less)
  qed
qed

lemma emits_fields_loop:
  assumes t: "terminated flds" and "k < field_count flds"
    and "concat_opt (map bss [k..<field_count flds]) = Some cs"
    and "\<forall>i<field_count flds. \<forall>bs. bss i = Some bs \<longrightarrow>
      emits s0 (\<lambda>s str. f s str (flds ! i) (dest + data_at flds i)) bs"
  shows "emits s0 (\<lambda>s str. fields_loop f s str (iter_at flds dest k)) cs"
  using assms(2,3)
proof (induction "field_count flds - k" arbitrary: k cs)
  case 0
  then show ?case by simp
next
  case (Suc m)
  from Suc.prems(1) have "[k..<field_count flds] = k # [Suc k..<field_count flds]"
    by (simp add: upt_conv_Cons)
  with Suc.prems(2) obtain a b where ab: "bss k = Some a"
      "concat_opt (map bss [Suc k..<field_count flds]) = Some b" "cs = a @ b"
    by (auto simp: bind_Some_iff)
  have len: "k < length flds" using Suc.prems(1) field_count_less [OF t] by simp
  have step: "fields_loop f s str (iter_at flds dest k) =
      then_ok (f s str (flds ! k) (dest + data_at flds k)) (\<lambda>s str.
        if Suc k < field_count flds then fields_loop f s str (iter_at flds dest (Suc k))
        else Some (True, s, str))" for s str
    using len Suc.prems(1) by (subst fields_loop.simps)
      (cases "f s str (flds ! k) (dest + data_at flds k)";
        auto simp: nth_opt_def iter_next_at [OF t Suc.prems(1)] then_ok_def)
  have "emits s0 (\<lambda>s str. if Suc k < field_count flds
      then fields_loop f s str (iter_at flds dest (Suc k)) else Some (True, s, str)) b"
  proof (rule emits_if)
    assume "Suc k < field_count flds"
    then show "emits s0 (\<lambda>s str. fields_loop f s str (iter_at flds dest (Suc k))) b"
      using ab(2) Suc.hyps(2) by (intro Suc.hyps(1)) simp_all
  next
    assume "\<not> Suc k < field_count flds"
    with ab(2) show "emits s0 (\<lambda>s str. Some (True, s, str)) b" by (simp add: emits_done)
  qed
  moreover have "emits s0 (\<lambda>s str. f s str (flds ! k) (dest + data_at flds k)) a"
    using assms(4) Suc.prems(1) ab(1) by blast
  ultimately show ?case unfolding step ab(3) by (intro emits_seq)
qed

section \<open>Values and fields\<close>

definition spec_of :: "cstate \<Rightarrow> msg_encoder \<Rightarrow> msg_bytes \<Rightarrow> bool" where
  "spec_of s0 enc sub \<longleftrightarrow> (\<forall>flds src bs. sub s0 flds src = Some bs \<longrightarrow>
     emits s0 (\<lambda>s str. enc s str flds src) bs)"

lemma emits_prefixed:
  "buf_bytes s0 buf n = Some bs \<Longrightarrow> emits s0 (\<lambda>s str. pb_encode_string env s str buf n) (prefixed bs)"
  using emits_string [of s0 buf n bs] buf_bytes_length [of s0 buf n bs] by (simp add: prefixed_def)

lemma fixed_bytes: "load_bytes s0 a n = Some bs \<Longrightarrow> \<exists>v. load_uint n s0 a = Some v \<and> nat_le n v = bs"
  using nat_le_le_nat [of bs] by (auto simp: load_uint_def dest: length_load_bytes)

lemma emits_enc_varint:
  assumes "load_signed s0 src (f_data_size field) = Some (Some v)"
  shows "emits s0 (\<lambda>s str. pb_enc_varint env s str field src) (varint_bytes v)"
  unfolding pb_enc_varint_def
  by (rule emits_read [OF stable_load_signed assms]) (simp add: emits_varint)

lemma emits_enc_uvarint:
  assumes "load_unsigned s0 src (f_data_size field) = Some (Some v)"
  shows "emits s0 (\<lambda>s str. pb_enc_uvarint env s str field src) (varint_bytes v)"
  unfolding pb_enc_uvarint_def
  by (rule emits_read [OF stable_load_unsigned assms]) (simp add: emits_varint)

lemma emits_enc_svarint:
  assumes "load_signed s0 src (f_data_size field) = Some (Some v)"
  shows "emits s0 (\<lambda>s str. pb_enc_svarint env s str field src) (varint_bytes (zigzag v))"
  unfolding pb_enc_svarint_def
  by (rule emits_read [OF stable_load_signed assms]) (simp add: emits_svarint)

lemma emits_enc_fixed32:
  "load_bytes s0 src 4 = Some bs \<Longrightarrow> emits s0 (\<lambda>s str. pb_enc_fixed32 env s str field src) bs"
  using fixed_bytes [of s0 src 4 bs] emits_fixed32 [of s0 src] by (auto simp: pb_enc_fixed32_def)

lemma emits_enc_fixed64:
  "load_bytes s0 src 8 = Some bs \<Longrightarrow> emits s0 (\<lambda>s str. pb_enc_fixed64 env s str field src) bs"
  using fixed_bytes [of s0 src 8 bs] emits_fixed64 [of s0 src] by (auto simp: pb_enc_fixed64_def)

lemma emits_enc_bytes:
  assumes "src \<noteq> 0" "load_u32 s0 src = Some n" "load_bytes s0 (src + 4) n = Some bs"
    and "\<not> (PB_ATYPE (f_type field) = PB_ATYPE_STATIC \<and> PB_BYTES_ARRAY_T_ALLOCSIZE n > f_data_size field)"
  shows "emits s0 (\<lambda>s str. pb_enc_bytes env s str field src) (prefixed bs)"
  unfolding pb_enc_bytes_def using assms
  by (simp only: if_False) (rule emits_read [OF stable_load assms(2)],
      simp add: emits_prefixed buf_bytes_def if_not_P)

lemma emits_enc_string:
  assumes "src \<noteq> 0" "strnlen_loop s0 src (if PB_ATYPE (f_type field) = PB_ATYPE_POINTER
      then 2 ^ 64 - 1 else f_data_size field) 0 = Some n" "load_bytes s0 src n = Some bs"
  shows "emits s0 (\<lambda>s str. pb_enc_string env s str field src) (prefixed bs)"
  unfolding pb_enc_string_def Let_def using assms(1)
  by (simp only: if_False) (rule emits_read [OF stable_strnlen assms(2)],
      simp add: emits_prefixed buf_bytes_def assms(3))

lemma emits_null_string:
  "emits s0 (\<lambda>s str. pb_enc_string env s str field 0) (prefixed [])"
  "emits s0 (\<lambda>s str. pb_enc_bytes env s str field 0) (prefixed [])"
  using emits_prefixed [of s0 BufNull 0 "[]"]
  by (simp_all add: pb_enc_string_def pb_enc_bytes_def buf_bytes_def)

lemma emits_value:
  assumes sub: "spec_of s0 enc sub" and v: "value_bytes env sub s0 field src = Some bs"
  obtains func where "PB_ENCODERS env enc (PB_LTYPE (f_type field)) = Some func"
    "emits s0 (\<lambda>s str. func s str field src) bs"
proof -
  let ?lt = "PB_LTYPE (f_type field)"
  from v consider
      "?lt = PB_LTYPE_VARINT" | "?lt = PB_LTYPE_UVARINT" | "?lt = PB_LTYPE_SVARINT"
    | "?lt = PB_LTYPE_FIXED32" | "?lt = PB_LTYPE_FIXED64" | "?lt = PB_LTYPE_BYTES"
    | "?lt = PB_LTYPE_STRING" | "?lt = PB_LTYPE_SUBMESSAGE" | "?lt = PB_LTYPE_FIXED_LENGTH_BYTES"
    unfolding value_bytes_def Let_def by (auto split: if_splits)
  then show ?thesis
  proof cases
    case 1
    with v have "emits s0 (\<lambda>s str. pb_enc_varint env s str field src) bs"
      by (auto simp: value_bytes_def bind_Some_iff intro: emits_enc_varint)
    with 1 show ?thesis by (intro that) (simp_all add: PB_ENCODERS_def nth_opt_def)
  next
    case 2
    with v have "emits s0 (\<lambda>s str. pb_enc_uvarint env s str field src) bs"
      by (auto simp: value_bytes_def bind_Some_iff intro: emits_enc_uvarint)
    with 2 show ?thesis by (intro that) (simp_all add: PB_ENCODERS_def nth_opt_def)
  next
    case 3
    with v have "emits s0 (\<lambda>s str. pb_enc_svarint env s str field src) bs"
      by (auto simp: value_bytes_def bind_Some_iff intro: emits_enc_svarint)
    with 3 show ?thesis by (intro that) (simp_all add: PB_ENCODERS_def nth_opt_def)
  next
    case 4
    with v have "emits s0 (\<lambda>s str. pb_enc_fixed32 env s str field src) bs"
      by (simp add: value_bytes_def emits_enc_fixed32)
    with 4 show ?thesis by (intro that) (simp_all add: PB_ENCODERS_def nth_opt_def)
  next
    case 5
    with v have "emits s0 (\<lambda>s str. pb_enc_fixed64 env s str field src) bs"
      by (simp add: value_bytes_def emits_enc_fixed64)
    with 5 show ?thesis by (intro that) (simp_all add: PB_ENCODERS_def nth_opt_def)
  next
    case 6
    with v have "emits s0 (\<lambda>s str. pb_enc_bytes env s str field src) bs"
      by (cases "src = 0") (auto simp: value_bytes_def bind_Some_iff emits_null_string
          split: if_splits intro: emits_enc_bytes)
    with 6 show ?thesis by (intro that) (simp_all add: PB_ENCODERS_def nth_opt_def)
  next
    case 7
    with v have "emits s0 (\<lambda>s str. pb_enc_string env s str field src) bs"
      by (cases "src = 0") (auto simp: value_bytes_def bind_Some_iff emits_null_string
          intro: emits_enc_string)
    with 7 show ?thesis by (intro that) (simp_all add: PB_ENCODERS_def nth_opt_def)
  next
    case 8
    with v obtain cs where cs: "sub s0 (descr env (f_ptr field)) src = Some cs" "bs = prefixed cs"
        "f_ptr field \<noteq> 0"
      by (auto simp: value_bytes_def bind_Some_iff split: if_splits)
    with sub have "emits s0 (\<lambda>s str. enc s str (descr env (f_ptr field)) src) cs"
      unfolding spec_of_def by blast
    with cs have "emits s0 (\<lambda>s str. pb_enc_submessage env enc s str field src) bs"
      by (simp add: pb_enc_submessage_def emits_submessage)
    with 8 show ?thesis by (intro that) (simp_all add: PB_ENCODERS_def nth_opt_def)
  next
    case 9
    with v have "emits s0 (\<lambda>s str. pb_enc_fixed_length_bytes env s str field src) bs"
      by (auto simp: value_bytes_def bind_Some_iff pb_enc_fixed_length_bytes_def buf_bytes_def
          intro: emits_prefixed)
    with 9 show ?thesis by (intro that) (simp_all add: PB_ENCODERS_def nth_opt_def)
  qed
qed

lemma emits_tagged:
  assumes sub: "spec_of s0 enc sub" and v: "tagged_bytes env sub s0 field src = Some bs"
  obtains func where "PB_ENCODERS env enc (PB_LTYPE (f_type field)) = Some func"
    "emits s0 (\<lambda>s str. then_ok (pb_encode_tag_for_field env s str field)
       (\<lambda>s str. func s str field src)) bs"
proof -
  from v obtain wt b where b: "wire_type_of (PB_LTYPE (f_type field)) = Some wt"
      "value_bytes env sub s0 field src = Some b"
      "bs = varint_bytes (tag_value wt (f_tag field)) @ b"
    by (auto simp: tagged_bytes_def tag_bytes_def bind_Some_iff)
  obtain func where f: "PB_ENCODERS env enc (PB_LTYPE (f_type field)) = Some func"
      "emits s0 (\<lambda>s str. func s str field src) b"
    using sub b(2) by (rule emits_value)
  have "emits s0 (\<lambda>s str. then_ok (pb_encode_tag_for_field env s str field)
       (\<lambda>s str. func s str field src)) bs"
    unfolding b(3) by (rule emits_seq [OF emits_tag_for_field [OF b(1)] f(2)])
  with f(1) show ?thesis by (rule that)
qed

lemma emits_or_size:
  assumes "emits s0 f bs"
  shows "emits s0 (\<lambda>s str. if o_callback str = OCB_NULL then pb_write env s str BufNull (length bs)
    else f s str) bs"
  by (rule emitsI) (simp add: null_write emitsD [OF assms])

lemma concat_opt_nth:
  "concat_opt (map g [0..<n]) = Some bs \<Longrightarrow> i < n \<Longrightarrow> \<exists>b. g i = Some b"
proof (induction n arbitrary: g i bs)
  case (Suc n)
  have "map g [0..<Suc n] = g 0 # map (\<lambda>i. g (Suc i)) [0..<n]"
    by (simp add: map_upt_Suc del: upt_Suc)
  with Suc.prems(1) obtain a b where "g 0 = Some a" "concat_opt (map (\<lambda>i. g (Suc i)) [0..<n]) = Some b"
    by (auto simp: bind_Some_iff)
  with Suc.IH [of "\<lambda>i. g (Suc i)" b "i - 1"] Suc.prems(2) show ?case by (cases i) auto
qed simp

lemma concat_opt_length:
  "concat_opt (map g [0..<n]) = Some bs \<Longrightarrow> \<forall>i<n. \<forall>b. g i = Some b \<longrightarrow> length b = m \<Longrightarrow>
     length bs = m * n"
proof (induction n arbitrary: g bs)
  case (Suc n)
  have "map g [0..<Suc n] = g 0 # map (\<lambda>i. g (Suc i)) [0..<n]"
    by (simp add: map_upt_Suc del: upt_Suc)
  with Suc.prems(1) obtain a b where ab: "g 0 = Some a" "concat_opt (map (\<lambda>i. g (Suc i)) [0..<n]) = Some b"
      "bs = a @ b"
    by (auto simp: bind_Some_iff)
  from ab(2) have "length b = m * n" by (rule Suc.IH) (use Suc.prems(2) in auto)
  moreover have "length a = m" using Suc.prems(2) ab(1) by auto
  ultimately show ?case by (simp add: ab(3))
qed simp

lemma emits_encode_array:
  assumes sub: "spec_of s0 enc sub" and v: "array_bytes env sub s0 field pData count = Some bs"
    and func: "PB_ENCODERS env enc (PB_LTYPE (f_type field)) = Some func"
  shows "emits s0 (\<lambda>s str. encode_array env s str field pData count func) bs"
proof -
  let ?lt = "PB_LTYPE (f_type field)" and ?at = "PB_ATYPE (f_type field)" and ?ds = "f_data_size field"
  consider "count = 0" "bs = []"
    | (packed) cs where "count \<noteq> 0" "\<not> (?at \<noteq> PB_ATYPE_POINTER \<and> count > f_array_size field)"
        "?lt \<le> PB_LTYPE_LAST_PACKABLE"
        "concat_opt (map (\<lambda>i. value_bytes env sub s0 field (pData + i * ?ds)) [0..<count]) = Some cs"
        "bs = varint_bytes (tag_value PB_WT_STRING (f_tag field)) @ prefixed cs"
    | (plain) "count \<noteq> 0" "\<not> (?at \<noteq> PB_ATYPE_POINTER \<and> count > f_array_size field)"
        "\<not> ?lt \<le> PB_LTYPE_LAST_PACKABLE"
        "concat_opt (map (\<lambda>i.
             if ?at = PB_ATYPE_POINTER \<and> (?lt = PB_LTYPE_STRING \<or> ?lt = PB_LTYPE_BYTES)
             then do { q \<leftarrow> load_ptr s0 (pData + i * ?ds); tagged_bytes env sub s0 field q }
             else tagged_bytes env sub s0 field (pData + i * ?ds)) [0..<count]) = Some bs"
    using v unfolding array_bytes_def Let_def by (auto simp: bind_Some_iff split: if_splits)
  then show ?thesis
  proof cases
    case 1
    then show ?thesis by (simp add: encode_array_def emits_done)
  next
    case packed
    let ?loop = "array_loop (\<lambda>s str p. func s str field p) ?ds count pData"
    have e: "emits s0 ?loop cs"
    proof (rule emits_array [OF _ packed(4)], intro allI impI)
      fix i assume i: "i < count"
      obtain b where b: "value_bytes env sub s0 field (pData + i * ?ds) = Some b"
        using concat_opt_nth [OF packed(4) i] by blast
      with emits_value [OF sub b] func
      show "\<exists>b. value_bytes env sub s0 field (pData + i * ?ds) = Some b \<and>
          emits s0 (\<lambda>s str. func s str field (pData + i * ?ds)) b" by auto
    qed
    have len: "length cs = 4 * count" if "?lt = PB_LTYPE_FIXED32"
      by (rule concat_opt_length [OF packed(4)])
        (use that in \<open>auto simp: value_bytes_def dest: length_load_bytes\<close>)
    have len': "length cs = 8 * count" if "?lt = PB_LTYPE_FIXED64"
      by (rule concat_opt_length [OF packed(4)])
        (use that in \<open>auto simp: value_bytes_def dest: length_load_bytes\<close>)
    let ?rest = "\<lambda>s str. then_ok (pb_encode_varint env s str (of_nat (length cs))) (\<lambda>s str.
        if o_callback str = OCB_NULL then pb_write env s str BufNull (length cs) else ?loop s str)"
    have rest: "emits s0 ?rest (prefixed cs)"
      unfolding prefixed_def by (rule emits_seq [OF emits_varint emits_or_size [OF e]])
    have sizing: "?loop s PB_OSTREAM_SIZING = Some (True, s, PB_OSTREAM_SIZING\<lparr>o_bytes_written := length cs\<rparr>)"
      if r: "room s0 s str (length (prefixed cs))" for s str
    proof -
      have "room s0 s str (length cs)"
        by (rule room_mono [of _ _ _ _ "length (varint_bytes (of_nat (length cs)))"])
          (use r in \<open>simp add: prefixed_def add.commute\<close>)
      from emitsD [OF e room_sizing [OF this]] show ?thesis by (simp add: put_sizing)
    qed
    have "emits s0 (\<lambda>s str. do { (ok, sz, s) \<leftarrow>
                 (if ?lt = PB_LTYPE_FIXED32 then Some (True, 4 * count, s)
                  else if ?lt = PB_LTYPE_FIXED64 then Some (True, 8 * count, s)
                  else do { (ok, s, sizestream) \<leftarrow> ?loop s PB_OSTREAM_SIZING;
                            Some (ok, o_bytes_written sizestream, s) });
               if \<not> ok then Some (False, s, str)
               else then_ok (pb_encode_varint env s str (of_nat sz)) (\<lambda>s str.
                 if o_callback str = OCB_NULL then pb_write env s str BufNull sz
                 else ?loop s str) }) (prefixed cs)" (is "emits s0 ?f _")
    proof (rule emitsI)
      fix s str assume r: "room s0 s str (length (prefixed cs))"
      have "(if ?lt = PB_LTYPE_FIXED32 then Some (True, 4 * count, s)
          else if ?lt = PB_LTYPE_FIXED64 then Some (True, 8 * count, s)
          else do { (ok, s, sizestream) \<leftarrow> ?loop s PB_OSTREAM_SIZING;
                    Some (ok, o_bytes_written sizestream, s) }) = Some (True, length cs, s)"
        using len len' sizing [OF r] by simp
      then have "?f s str = ?rest s str" by (simp only: bind.bind_lunit split_conv simp_thms if_False)
      with emitsD [OF rest r] show "?f s str = Some (True, put s str (prefixed cs))" by simp
    qed
    note body = emits_seq [OF emits_tag this]
    from packed(1-3) have "(count = 0) = False" "(?lt \<le> PB_LTYPE_LAST_PACKABLE) = True"
      "(?at \<noteq> PB_ATYPE_POINTER \<and> count > f_array_size field) = False" by auto
    then show ?thesis
      unfolding encode_array_def Let_def packed(5) by (simp only: if_False if_True) (rule body)
  next
    case plain
    have "emits s0 (array_loop (\<lambda>s str p.
            then_ok (pb_encode_tag_for_field env s str field) (\<lambda>s str.
              if ?at = PB_ATYPE_POINTER \<and> (?lt = PB_LTYPE_STRING \<or> ?lt = PB_LTYPE_BYTES)
              then do { q \<leftarrow> load_ptr s p; func s str field q }
              else func s str field p))
          ?ds count pData) bs"
    proof (rule emits_array [OF _ plain(4)], intro allI impI)
      fix i assume i: "i < count"
      let ?p = "pData + i * ?ds"
      obtain b where b: "(if ?at = PB_ATYPE_POINTER \<and> (?lt = PB_LTYPE_STRING \<or> ?lt = PB_LTYPE_BYTES)
             then do { q \<leftarrow> load_ptr s0 ?p; tagged_bytes env sub s0 field q }
             else tagged_bytes env sub s0 field ?p) = Some b"
        using concat_opt_nth [OF plain(4) i] by blast
      have direct: "emits s0 (\<lambda>s str. then_ok (pb_encode_tag_for_field env s str field)
          (\<lambda>s str. func s str field q)) b" if "tagged_bytes env sub s0 field q = Some b" for q
        using emits_tagged [OF sub that] func by auto
      have "emits s0 (\<lambda>s str. then_ok (pb_encode_tag_for_field env s str field) (\<lambda>s str.
              if ?at = PB_ATYPE_POINTER \<and> (?lt = PB_LTYPE_STRING \<or> ?lt = PB_LTYPE_BYTES)
              then do { q \<leftarrow> load_ptr s ?p; func s str field q }
              else func s str field ?p)) b"
      proof (cases "?at = PB_ATYPE_POINTER \<and> (?lt = PB_LTYPE_STRING \<or> ?lt = PB_LTYPE_BYTES)")
        case False
        with b direct [of ?p] show ?thesis by (simp only: if_False)
      next
        case True
        with b obtain q where q: "load_ptr s0 ?p = Some q" "tagged_bytes env sub s0 field q = Some b"
          by (auto simp: bind_Some_iff)
        then obtain wt vb where vb: "wire_type_of ?lt = Some wt" "value_bytes env sub s0 field q = Some vb"
            "b = varint_bytes (tag_value wt (f_tag field)) @ vb"
          by (auto simp: tagged_bytes_def tag_bytes_def bind_Some_iff)
        have "emits s0 (\<lambda>s str. func s str field q) vb" using emits_value [OF sub vb(2)] func by auto
        then have "emits s0 (\<lambda>s str. load_ptr s ?p \<bind> (\<lambda>q. func s str field q)) vb"
          by (rule emits_read [OF stable_load q(1)])
        from emits_seq [OF emits_tag_for_field [OF vb(1)] this] True
        show ?thesis by (simp only: vb(3) if_True simp_thms)
      qed
      with b show "\<exists>b. (if ?at = PB_ATYPE_POINTER \<and> (?lt = PB_LTYPE_STRING \<or> ?lt = PB_LTYPE_BYTES)
             then do { q \<leftarrow> load_ptr s0 ?p; tagged_bytes env sub s0 field q }
             else tagged_bytes env sub s0 field ?p) = Some b \<and>
          emits s0 (\<lambda>s str. then_ok (pb_encode_tag_for_field env s str field) (\<lambda>s str.
              if ?at = PB_ATYPE_POINTER \<and> (?lt = PB_LTYPE_STRING \<or> ?lt = PB_LTYPE_BYTES)
              then do { q \<leftarrow> load_ptr s ?p; func s str field q }
              else func s str field ?p)) b" by blast
    qed
    note body = this
    from plain(1-3) have "(count = 0) = False" "(?lt \<le> PB_LTYPE_LAST_PACKABLE) = False"
      "(?at \<noteq> PB_ATYPE_POINTER \<and> count > f_array_size field) = False" by auto
    then show ?thesis
      unfolding encode_array_def Let_def by (simp only: if_False if_True) (rule body)
  qed
qed

lemma ltype_in_table:
  "\<not> PB_LTYPE t > PB_LTYPE_FIXED_LENGTH_BYTES \<Longrightarrow> \<exists>func. PB_ENCODERS env enc (PB_LTYPE t) = Some func"
  by (auto simp: PB_ENCODERS_def word_less_nat_alt)

lemma emits_by_rule:
  assumes sub: "spec_of s0 enc sub" and func: "PB_ENCODERS env enc (PB_LTYPE (f_type field)) = Some func"
    and v: "rule_bytes env sub pSize s0 field src = Some bs"
  shows "emits s0 (\<lambda>s str. encode_by_rule env func pSize s str field src) bs"
proof -
  let ?ht = "PB_HTYPE (f_type field)"
  let ?enc = "\<lambda>s str. then_ok (pb_encode_tag_for_field env s str field) (\<lambda>s str. func s str field src)"
  have present: "emits s0 (\<lambda>s str. if c then ?enc s str else Some (True, s, str)) bs"
    if "(if c then tagged_bytes env sub s0 field src else Some []) = Some bs" for c
  proof (cases c)
    case True
    with that emits_tagged [OF sub, of field src bs] func show ?thesis by auto
  next
    case False
    with that emits_done show ?thesis by auto
  qed
  consider "?ht = PB_HTYPE_REQUIRED" | "?ht = PB_HTYPE_OPTIONAL" | "?ht = PB_HTYPE_REPEATED"
    | "?ht = PB_HTYPE_ONEOF" using htype_cases by blast
  then show ?thesis
  proof cases
    case 1
    with v present [of True] show ?thesis
      by (cases "src = 0") (simp_all add: rule_bytes_def encode_by_rule_def)
  next
    case 2
    with v obtain has where has: "load_has s0 pSize = Some has"
        "(if has then tagged_bytes env sub s0 field src else Some []) = Some bs"
      by (auto simp: rule_bytes_def bind_Some_iff)
    have "emits s0 (\<lambda>s str. load_has s pSize \<bind> (\<lambda>has. if has then ?enc s str else Some (True, s, str))) bs"
      by (rule emits_read [OF stable_load_has has(1)]) (rule present [OF has(2)])
    with 2 show ?thesis by (simp add: encode_by_rule_def)
  next
    case 3
    let ?count = "\<lambda>s. if f_size_offset field \<noteq> 0 then load_count s pSize else Some (f_array_size field)"
    have st: "stable ?count" by (intro stable_rules)
    from 3 v obtain count where c: "?count s0 = Some count" "array_bytes env sub s0 field src count = Some bs"
      by (auto simp: rule_bytes_def bind_Some_iff split: if_splits)
    have "emits s0 (\<lambda>s str. ?count s \<bind> (\<lambda>count. encode_array env s str field src count func)) bs"
      by (rule emits_read [OF st c(1)]) (rule emits_encode_array [OF sub c(2) func])
    with 3 show ?thesis by (simp add: encode_by_rule_def)
  next
    case 4
    with v obtain which where w: "load_count s0 pSize = Some which"
        "(if which = unat (f_tag field) then tagged_bytes env sub s0 field src else Some []) = Some bs"
      by (auto simp: rule_bytes_def bind_Some_iff)
    have "emits s0 (\<lambda>s str. load_count s pSize \<bind>
        (\<lambda>which. if which = unat (f_tag field) then ?enc s str else Some (True, s, str))) bs"
      by (rule emits_read [OF stable_load_count w(1)]) (rule present [OF w(2)])
    with 4 show ?thesis by (simp add: encode_by_rule_def)
  qed
qed

lemma stable_implicit_has:
  "(\<And>field p. stable (\<lambda>s. chk s field p)) \<Longrightarrow> stable (\<lambda>s. implicit_has chk s field p)"
  unfolding implicit_has_def by (intro stable_rules) assumption

lemma emits_callback:
  assumes "load_ptr s0 (pData + CB_FUNCS) = Some 0"
  shows "emits s0 (\<lambda>s str. encode_callback_field env s str field pData) []"
  unfolding encode_callback_field_def
  by (rule emits_read [OF stable_load assms]) (simp add: emits_done)

lemma emits_field:
  assumes sub: "spec_of s0 enc sub" and st: "\<And>field p. stable (\<lambda>s. chk s field p)"
    and v: "field_bytes env sub chk s0 field pData = Some bs"
  shows "emits s0 (\<lambda>s str. encode_field env enc chk s str field pData) bs"
proof (cases "PB_ATYPE (f_type field) = PB_ATYPE_CALLBACK")
  case True
  with v have "load_ptr s0 (pData + CB_FUNCS) = Some 0" "bs = []"
    by (auto simp: field_bytes_def bind_Some_iff Let_def split: if_splits)
  with emits_callback True show ?thesis by (simp add: encode_field_def)
next
  case False
  let ?src = "\<lambda>s. if PB_ATYPE (f_type field) = PB_ATYPE_POINTER then load_ptr s pData else Some pData"
  let ?pSize = "\<lambda>has src. if f_size_offset field \<noteq> 0 then HasAt (ptr_add pData (f_size_offset field))
    else HasLocal (if PB_ATYPE (f_type field) = PB_ATYPE_POINTER then src \<noteq> 0 else has)"
  from v False have at: "PB_ATYPE (f_type field) = PB_ATYPE_STATIC \<or> PB_ATYPE (f_type field) = PB_ATYPE_POINTER"
    and lt: "\<not> PB_LTYPE (f_type field) > PB_LTYPE_FIXED_LENGTH_BYTES"
    by (auto simp: field_bytes_def Let_def split: if_splits)
  from v False at lt obtain has src where h: "implicit_has chk s0 field pData = Some has"
    and src: "?src s0 = Some src"
    and r: "rule_bytes env sub (?pSize has src) s0 field src = Some bs"
    unfolding field_bytes_def Let_def by (auto simp: bind_Some_iff simp del: nth_opt_Some)
  from lt obtain func where func: "PB_ENCODERS env enc (PB_LTYPE (f_type field)) = Some func"
    using ltype_in_table by blast
  have st_src: "stable ?src" by (intro stable_rules)
  have "emits s0 (\<lambda>s str. encode_basic_field env enc chk s str field pData) bs"
    unfolding encode_basic_field_def func bind.bind_lunit Let_def
    by (rule emits_read [OF stable_implicit_has [OF st], OF h],
        rule emits_read [OF st_src, OF src], rule emits_by_rule [OF sub func r])
  with at False show ?thesis by (simp add: encode_field_def)
qed

lemmas extension_bytes_induct = extension_bytes.raw_induct [rotated, consumes 1, case_names step]

text \<open>The default encoder of one extension, as \<open>extension_bytes\<close> reads it.\<close>

lemma emits_default_extension:
  assumes f: "\<And>bs. f s0 field dest = Some bs \<Longrightarrow>
      emits s0 (\<lambda>s str. encode_field env enc chk s str field dest) bs"
    and r: "load_ptr s0 (ext + EXT_TYPE) = Some ty" "load_ptr s0 (ty + EXTTYPE_ARG) = Some arg"
      "nth_opt (descr env arg) 0 = Some field"
      "ext_dest s0 field ext = Some dest"
    and b: "f s0 field dest = Some bs"
  shows "emits s0 (\<lambda>s str. default_extension_encoder env enc chk s str ext) bs"
proof -
  have "emits s0 (\<lambda>s str. if PB_ATYPE (f_type field) = PB_ATYPE_POINTER
          then encode_field env enc chk s str field (ext + EXT_DEST)
          else load_ptr s (ext + EXT_DEST) \<bind> (\<lambda>dest. encode_field env enc chk s str field dest)) bs"
  proof (rule emits_if)
    assume "PB_ATYPE (f_type field) = PB_ATYPE_POINTER"
    with r(4) f [OF b] show "emits s0 (\<lambda>s str. encode_field env enc chk s str field (ext + EXT_DEST)) bs"
      by (simp add: ext_dest_def)
  next
    assume "PB_ATYPE (f_type field) \<noteq> PB_ATYPE_POINTER"
    with r(4) have "load_ptr s0 (ext + EXT_DEST) = Some dest" by (simp add: ext_dest_def)
    then show "emits s0 (\<lambda>s str. load_ptr s (ext + EXT_DEST) \<bind>
        (\<lambda>dest. encode_field env enc chk s str field dest)) bs"
      by (rule emits_read [OF stable_load]) (rule f [OF b])
  qed
  then show ?thesis
    unfolding default_extension_encoder_def
    by (intro emits_read [OF stable_load r(1)] emits_read [OF stable_load r(2)])
      (simp only: r(3) bind.bind_lunit)
qed

lemma emits_extension:
  assumes "extension_bytes f env' s0 ext = Some bs" and "env' = env"
    and "\<And>field p bs. f s0 field p = Some bs \<Longrightarrow>
      emits s0 (\<lambda>s str. encode_field env enc chk s str field p) bs"
  shows "emits s0 (\<lambda>s str. extension_loop env enc chk s str ext) bs"
  using assms
proof (induction rule: extension_bytes_induct)
  case (step loop f env' s0 ext bs)
  show ?case
  proof (cases "ext = 0")
    case True
    with step.hyps show ?thesis by (simp add: extension_loop.simps emits_done)
  next
    case False
    with step.hyps step.prems(1) obtain ty arg field dest b nxt rest where
        r: "load_ptr s0 (ext + EXT_TYPE) = Some ty" "load_ptr s0 (ty + EXTTYPE_ENCODE) = Some 0"
          "load_ptr s0 (ty + EXTTYPE_ARG) = Some arg" "nth_opt (descr env arg) 0 = Some field"
          "ext_dest s0 field ext = Some dest"
      and b: "f s0 field dest = Some b" and nxt: "load_ptr s0 (ext + EXT_NEXT) = Some nxt"
      and rest: "loop f env s0 nxt = Some rest" "bs = b @ rest"
      by (auto simp: bind_Some_iff split: if_splits simp del: nth_opt_Some)
    have tail: "emits s0 (\<lambda>s str. load_ptr s (ext + EXT_NEXT) \<bind>
        (\<lambda>next. extension_loop env enc chk s str next)) rest"
      by (rule emits_read [OF stable_load nxt])
        (rule step.IH [OF _ refl step.prems(2)], use rest step.prems(1) in auto)
    have head: "emits s0 (\<lambda>s str. default_extension_encoder env enc chk s str ext) b"
      by (rule emits_default_extension [where f = f, OF _ r(1,3-5) b]) (rule step.prems(2))
    have e: "extension_loop env enc chk s str ext =
        load_ptr s (ext + EXT_TYPE) \<bind> (\<lambda>ty. load_ptr s (ty + EXTTYPE_ENCODE) \<bind> (\<lambda>encode.
          then_ok (if encode \<noteq> 0 then e_ext_encode env encode s str ext
                   else default_extension_encoder env enc chk s str ext)
            (\<lambda>s str. load_ptr s (ext + EXT_NEXT) \<bind> (\<lambda>next. extension_loop env enc chk s str next))))"
      for s str
      using False by (subst extension_loop.simps)
        (auto simp: then_ok_def bind_eq_None_iff split: option.splits intro!: Option.bind_cong)
    show ?thesis
      unfolding e rest(2)
      by (rule emits_read [OF stable_load r(1)], rule emits_read [OF stable_load r(2)])
        (simp add: emits_seq [OF head tail])
  qed
qed

lemma emits_entry:
  assumes sub: "spec_of s0 enc sub" and st: "\<And>field p. stable (\<lambda>s. chk s field p)"
    and v: "entry_bytes env sub chk s0 field pData = Some bs"
  shows "emits s0 (\<lambda>s str. encode_entry env enc chk s str field pData) bs"
proof (cases "PB_LTYPE (f_type field) = PB_LTYPE_EXTENSION")
  case True
  with v obtain ext where e: "load_ptr s0 pData = Some ext"
      "extension_bytes (field_bytes env sub chk) env s0 ext = Some bs"
    by (auto simp: entry_bytes_def bind_Some_iff)
  have "emits s0 (\<lambda>s str. encode_extension_field env enc chk s str field pData) bs"
    unfolding encode_extension_field_def
    by (rule emits_read [OF stable_load e(1)], rule emits_extension [OF e(2) refl])
      (rule emits_field [OF sub st])
  with True show ?thesis by (simp add: encode_entry_def)
next
  case False
  with v emits_field [OF sub st] show ?thesis by (simp add: encode_entry_def entry_bytes_def)
qed

text \<open>The message encoder writes the wire form, whatever the stream.\<close>

theorem emits_message:
  "message_bytes d env s0 flds src = Some bs \<Longrightarrow> emits s0 (\<lambda>s str. pb_encode d env s str flds src) bs"
proof (induction d arbitrary: flds src bs)
  case 0
  then show ?case by simp
next
  case (Suc d)
  let ?chk = "pb_check_proto3_default_value (Suc d) env"
  let ?entry = "entry_bytes env (message_bytes d env) ?chk s0"
  from Suc.prems have t: "terminated flds"
    and c: "concat_opt (map (\<lambda>i. ?entry (flds ! i) (src + data_at flds i)) [0..<field_count flds]) = Some bs"
    by (auto split: if_splits)
  have sub: "spec_of s0 (pb_encode d env) (message_bytes d env)"
    using Suc.IH by (simp add: spec_of_def)
  show ?case
  proof (cases "field_count flds = 0")
    case True
    with c show ?thesis by (simp add: iter_begin_at [OF t] emits_done)
  next
    case False
    have "emits s0 (\<lambda>s str. fields_loop (encode_entry env (pb_encode d env) ?chk) s str (iter_at flds src 0)) bs"
      by (rule emits_fields_loop [OF t _ c])
        (use False in \<open>auto intro: emits_entry [OF sub stable_check_default]\<close>)
    with False show ?thesis by (simp add: iter_begin_at [OF t])
  qed
qed

text \<open>The delimited and the null-terminated forms.\<close>

lemma emits_delimited:
  "message_bytes d env s0 flds src = Some bs \<Longrightarrow>
     emits s0 (\<lambda>s str. pb_encode_delimited d env s str flds src) (prefixed bs)"
  unfolding pb_encode_delimited_def by (intro emits_submessage emits_message)

lemma emits_nullterminated:
  assumes "message_bytes d env s0 flds src = Some bs"
  shows "emits s0 (\<lambda>s str. pb_encode_nullterminated d env s str flds src) (bs @ [0])"
proof -
  have "emits s0 (\<lambda>s str. pb_write env s str (BufLocal [0]) 1) [0]"
    using emits_local [of s0 "[0]"] by simp
  with emits_seq [OF emits_message [OF assms]] show ?thesis
    unfolding pb_encode_nullterminated_def by blast
qed

lemma get_encoded_size:
  assumes "message_bytes d env s0 flds src = Some bs" and "room s0 s str (length bs)"
  shows "pb_get_encoded_size d env s flds src = Some (Some (length bs), s)"
  using emitsD [OF emits_message [OF assms(1)] room_sizing [OF assms(2)]]
  by (simp add: pb_get_encoded_size_def put_sizing)

end

section \<open>Buffer and sizing streams\<close>

interpretation stdm: msg_sink env std_room std_put for env
proof unfold_locales
  fix s0 s s' :: cstate and str sub :: pb_ostream and bs :: "byte list" and n :: nat
  show "std_room s0 s str n \<Longrightarrow> std_room s0 s PB_OSTREAM_SIZING n"
    by (simp add: std_room_def PB_OSTREAM_SIZING_def)
  show "std_put s PB_OSTREAM_SIZING bs = (s, PB_OSTREAM_SIZING\<lparr>o_bytes_written := length bs\<rparr>)"
    by (simp add: std_put_def PB_OSTREAM_SIZING_def)
  show "std_room s0 s str n \<Longrightarrow> o_callback str \<noteq> OCB_NULL \<Longrightarrow>
      (o_bytes_written str + n) mod 2 ^ 64 \<le> o_max_size str"
    by (auto simp: std_room_def split: ocallback.splits)
  show "std_room s0 s str n \<Longrightarrow> o_callback str \<noteq> OCB_NULL \<Longrightarrow> std_room s0 s (substream_of str n) n"
    by (auto simp: std_room_def substream_of_def split: ocallback.splits)
  show "std_room s0 s str (length bs) \<Longrightarrow> o_callback str \<noteq> OCB_NULL \<Longrightarrow>
      std_put s (substream_of str (length bs)) bs = (s', sub) \<Longrightarrow>
      o_bytes_written sub = length bs \<and>
      std_put s str bs = (s', str\<lparr>o_bytes_written := (o_bytes_written str + length bs) mod 2 ^ 64,
        o_state := o_state sub, o_errmsg := o_errmsg sub\<rparr>)"
    by (auto simp: std_put_def substream_of_def std_room_def)
qed

end
