(* ===== verification/PbCodec.thy ===== *)
theory PbCodec
  imports PbTotal PbEncodeSpec
begin

text \<open>
  Encoders and decoders together: what an encoder has put into a buffer is what an input
  stream over that buffer shows, so the contracts \<open>emits\<close> and \<open>parses\<close> compose to round
  trips through memory.
\<close>

section \<open>From an output buffer to an input stream\<close>

definition no_objects :: "cstate \<Rightarrow> cstate" where
  "no_objects s = s\<lparr>c_objs := [], c_heap := []\<rparr>"

lemma extends_no_objects: "extends (no_objects s) s'"
  by (auto simp: extends_def valid_def no_objects_def)

lemma untouched_no_objects: "untouched (no_objects s) a n"
  by (simp add: untouched_def valid_def no_objects_def)

text \<open>The stream and the memory after \<open>bs\<close> have been written to a fresh buffer.\<close>

definition written :: "cstate \<Rightarrow> nat \<Rightarrow> byte list \<Rightarrow> cstate" where
  "written s buf bs = s\<lparr>c_mem := overwrite (c_mem s) buf bs\<rparr>"

definition full_to :: "nat \<Rightarrow> nat \<Rightarrow> nat \<Rightarrow> pb_ostream" where
  "full_to buf n k = (pb_ostream_from_buffer buf n)\<lparr>o_state := buf + k, o_bytes_written := k\<rparr>"

lemma std_room_buffer:
  assumes "extends s0 s" "k \<le> n" "n < 2 ^ 64" "valid s buf n" "untouched s0 buf n"
  shows "std_room s0 s (pb_ostream_from_buffer buf n) k"
  using assms valid_sub [of s buf n buf k] untouched_mono [of s0 buf n k]
  by (simp add: std_room_def pb_ostream_from_buffer_def)

lemma std_put_buffer:
  "std_put s (pb_ostream_from_buffer buf n) bs = (written s buf bs, full_to buf n (length bs))"
  by (simp add: std_put_def pb_ostream_from_buffer_def written_def full_to_def)

lemma emits_to_buffer:
  assumes "std.emits s0 f bs"
    and "extends s0 s" "length bs \<le> n" "n < 2 ^ 64" "valid s buf n" "untouched s0 buf n"
  shows "f s (pb_ostream_from_buffer buf n) = Some (True, written s buf bs, full_to buf n (length bs))"
  using std.emitsD [OF assms(1) std_room_buffer [OF assms(2-6)]] by (simp add: std_put_buffer)

lemmas emits_anywhere = emits_to_buffer [OF _ extends_no_objects _ _ _ untouched_no_objects]

lemma load_written:
  assumes "valid s buf n" and "length bs \<le> n"
  shows "\<exists>rest. load_bytes (written s buf bs) buf n = Some (bs @ rest) \<and> length bs + length rest = n"
proof -
  let ?m = "overwrite (c_mem s) buf bs"
  have "map ?m [buf..<buf + (length bs + (n - length bs))] =
      map ?m [buf..<buf + length bs] @ map ?m [buf + length bs..<buf + length bs + (n - length bs)]"
    by (simp only: upt_add_split map_append)
  moreover have "map ?m [buf..<buf + length bs] = bs" by (rule map_overwrite)
  ultimately have "map ?m [buf..<buf + n] =
      bs @ map ?m [buf + length bs..<buf + length bs + (n - length bs)]"
    using assms(2) by (simp only: le_add_diff_inverse)
  with assms show ?thesis by (simp add: load_bytes_def written_def)
qed

lemma view_written:
  assumes "valid s buf n" and "length bs \<le> n" and "n < 2 ^ 64"
  obtains rest where "buf_view (written s buf bs) (pb_istream_from_buffer buf n) (bs @ rest)"
  using load_written [OF assms(1,2)] buf_view_from_buffer assms(3) by blast

lemma valid_written [simp]: "valid (written s buf bs) a n = valid s a n"
  by (simp add: written_def)

lemma buf_adv_from_buffer:
  "buf_adv (pb_istream_from_buffer buf n) k =
     \<lparr>i_callback = ICB_BUF_READ, i_state = buf + k, i_bytes_left = n - k, i_errmsg = None\<rparr>"
  by (simp add: buf_adv_def pb_istream_from_buffer_def)

section \<open>Round trips\<close>

text \<open>A decoder that parses what an encoder emits inverts it through a buffer.\<close>

lemma roundtrip_buffer:
  assumes e: "std.emits (no_objects s) f bs" and p: "bufsrc.parses g bs v"
    and n: "length bs \<le> n" "n < 2 ^ 64" and v: "valid s buf n"
  shows "\<exists>s'. f s (pb_ostream_from_buffer buf n) = Some (True, s', full_to buf n (length bs)) \<and>
     g s' (pb_istream_from_buffer buf n) =
       Some (Some v, s', buf_adv (pb_istream_from_buffer buf n) (length bs))"
proof -
  obtain rest where "buf_view (written s buf bs) (pb_istream_from_buffer buf n) (bs @ rest)"
    by (rule view_written [OF v n])
  from bufsrc.parsesD [OF p this] emits_anywhere [OF e n v] show ?thesis by blast
qed

lemma length_zigzag_varint: "length (varint_bytes v) \<le> n" if "10 \<le> n"
  using varint_bytes_length_10 [of v] that by simp

text \<open>Fixed-width integers go from one variable to another.\<close>

lemma load_bytes_written_other:
  assumes "extends s0 s" "load_bytes s0 a k = Some bs" "untouched s0 buf (length cs)"
  shows "load_bytes (written s buf cs) a k = Some bs"
  using extends_load [OF extends_overwrite [OF assms(1,3)] assms(2)] by (simp add: written_def)

lemma decode_fixed32_view:
  assumes "buf_view s str (bs @ rest)" "length bs = 4" "valid s dest 4"
  shows "pb_decode_fixed32 env s str dest = Some (True, written s dest bs, buf_adv str 4)"
proof -
  have "pb_read env s str ILocal 4 = Some (True, bs, s, buf_adv str 4)"
    using bufsrc.view_read [OF assms(1), of 4 env] assms(2) by simp
  moreover have "nat_le 4 (unat (bytes_u32 bs)) = bs"
    using nat_le_le_nat [of bs] assms(2) by (simp add: unat_bytes_u32)
  ultimately show ?thesis
    using assms(2,3) by (simp add: pb_decode_fixed32_def store_uint_def store_bytes_def written_def)
qed

lemma decode_fixed64_view:
  assumes "buf_view s str (bs @ rest)" "length bs = 8" "valid s dest 8"
  shows "pb_decode_fixed64 env s str dest = Some (True, written s dest bs, buf_adv str 8)"
proof -
  have "pb_read env s str ILocal 8 = Some (True, bs, s, buf_adv str 8)"
    using bufsrc.view_read [OF assms(1), of 8 env] assms(2) by simp
  moreover have "nat_le 8 (unat (bytes_u64 bs)) = bs"
    using nat_le_le_nat [of bs] assms(2) by (simp add: unat_bytes_u64)
  ultimately show ?thesis
    using assms(2,3) by (simp add: pb_decode_fixed64_def store_uint_def store_bytes_def written_def)
qed

text \<open>Encoding the variable at \<open>a\<close> and decoding into \<open>dest\<close> copies its bytes.\<close>

lemma roundtrip_fixed:
  assumes e: "std.emits s0 (\<lambda>s str. enc env s str a) bs" and bs: "load_bytes s0 a (length bs) = Some bs"
    and d: "\<And>s str rest. buf_view s str (bs @ rest) \<Longrightarrow> valid s dest (length bs) \<Longrightarrow>
       dec env s str dest = Some (True, written s dest bs, buf_adv str (length bs))"
    and m: "extends s0 s" "length bs \<le> n" "n < 2 ^ 64" "valid s buf n" "untouched s0 buf n"
      "valid s dest (length bs)"
  shows "\<exists>s1 s2. enc env s (pb_ostream_from_buffer buf n) a = Some (True, s1, full_to buf n (length bs)) \<and>
     dec env s1 (pb_istream_from_buffer buf n) dest =
       Some (True, s2, buf_adv (pb_istream_from_buffer buf n) (length bs)) \<and>
     load_bytes s2 dest (length bs) = load_bytes s a (length bs)"
proof -
  obtain rest where "buf_view (written s buf bs) (pb_istream_from_buffer buf n) (bs @ rest)"
    by (rule view_written [OF m(4,2,3)])
  from d [OF this] m(6) have "dec env (written s buf bs) (pb_istream_from_buffer buf n) dest =
      Some (True, written (written s buf bs) dest bs, buf_adv (pb_istream_from_buffer buf n) (length bs))"
    by simp
  moreover have "load_bytes (written (written s buf bs) dest bs) dest (length bs) = Some bs"
    using m(6) by (simp add: load_bytes_def written_def)
  ultimately show ?thesis
    using emits_to_buffer [OF e m(1-5)] extends_load [OF m(1) bs] by auto
qed

lemma fixed_variable: "load_bytes s0 a n = Some bs \<Longrightarrow> load_uint n s0 a = Some (le_nat bs) \<and> nat_le n (le_nat bs) = bs"
  using nat_le_le_nat [of bs] by (auto simp: load_uint_def dest: length_load_bytes)

lemma roundtrip_fixed32:
  assumes "load_bytes s0 a 4 = Some bs" "extends s0 s" "4 \<le> n" "n < 2 ^ 64" "valid s buf n"
    "untouched s0 buf n" "valid s dest 4"
  shows "\<exists>s1 s2. pb_encode_fixed32 env s (pb_ostream_from_buffer buf n) a = Some (True, s1, full_to buf n 4) \<and>
     pb_decode_fixed32 env s1 (pb_istream_from_buffer buf n) dest =
       Some (True, s2, buf_adv (pb_istream_from_buffer buf n) 4) \<and>
     load_bytes s2 dest 4 = load_bytes s a 4"
proof -
  have l: "length bs = 4" using assms(1) by (rule length_load_bytes)
  have "std.emits s0 (\<lambda>s str. pb_encode_fixed32 env s str a) bs"
    using std.emits_fixed32 fixed_variable [OF assms(1)] by fastforce
  then show ?thesis
    using roundtrip_fixed [where enc = pb_encode_fixed32 and dec = pb_decode_fixed32, of s0 env a bs dest s n buf]
      decode_fixed32_view [OF _ l] assms by (simp add: l)
qed

lemma roundtrip_fixed64:
  assumes "load_bytes s0 a 8 = Some bs" "extends s0 s" "8 \<le> n" "n < 2 ^ 64" "valid s buf n"
    "untouched s0 buf n" "valid s dest 8"
  shows "\<exists>s1 s2. pb_encode_fixed64 env s (pb_ostream_from_buffer buf n) a = Some (True, s1, full_to buf n 8) \<and>
     pb_decode_fixed64 env s1 (pb_istream_from_buffer buf n) dest =
       Some (True, s2, buf_adv (pb_istream_from_buffer buf n) 8) \<and>
     load_bytes s2 dest 8 = load_bytes s a 8"
proof -
  have l: "length bs = 8" using assms(1) by (rule length_load_bytes)
  have "std.emits s0 (\<lambda>s str. pb_encode_fixed64 env s str a) bs"
    using std.emits_fixed64 fixed_variable [OF assms(1)] by fastforce
  then show ?thesis
    using roundtrip_fixed [where enc = pb_encode_fixed64 and dec = pb_decode_fixed64, of s0 env a bs dest s n buf]
      decode_fixed64_view [OF _ l] assms by (simp add: l)
qed

end
