(* ===== verification/PbSafeMain.thy ===== *)
theory PbSafeMain
  imports PbSafeMessage PbCodec
begin

text \<open>
  The main loop of \<open>pb_decode_noinit\<close> and the entry points on static tables, in the locale
  \<open>bounded_source\<close>; then its interpretation on buffer streams.
\<close>

section \<open>The redirected size pointer does not matter to the iterator\<close>

lemma next_local:
  assumes "PB_HTYPE (f_type (flds ! i)) = PB_HTYPE_REPEATED" and "f_tag (flds ! i) \<noteq> 0"
  shows "pb_field_iter_next ((iter_at flds p i)\<lparr>it_pSize := PSLocal\<rparr>) = pb_field_iter_next (iter_at flds p i)"
  using assms
  by (auto simp: pb_field_iter_next_def same_union_def nth_opt_def Let_def iter_at_def)

lemma find_local:
  assumes "PB_HTYPE (f_type (flds ! i)) = PB_HTYPE_REPEATED" "f_tag (flds ! i) \<noteq> 0" "i < length flds"
    and "\<not> field_matches flds tag i"
  shows "pb_field_iter_find ((iter_at flds p i)\<lparr>it_pSize := PSLocal\<rparr>) tag = pb_field_iter_find (iter_at flds p i) tag"
  using assms next_local [OF assms(1,2)]
  by (simp add: pb_field_iter_find_def field_matches_def iter_find_loop.simps [of i "iter_at flds p i" tag]
      iter_find_loop.simps [of i "(iter_at flds p i)\<lparr>it_pSize := PSLocal\<rparr>" tag] nth_opt_def cong: if_cong) auto

lemma req_count_local:
  assumes "PB_HTYPE (f_type (flds ! i)) = PB_HTYPE_REPEATED" "f_tag (flds ! i) \<noteq> 0"
  shows "req_field_count ((iter_at flds p i)\<lparr>it_pSize := PSLocal\<rparr>) = req_field_count (iter_at flds p i)"
proof -
  have "seek_end ((iter_at flds p i)\<lparr>it_pSize := PSLocal\<rparr>) = seek_end (iter_at flds p i)"
    using next_local [OF assms, of p]
    by (simp add: seek_end.simps [of "iter_at flds p i"] seek_end.simps [of "(iter_at flds p i)\<lparr>it_pSize := PSLocal\<rparr>"]
        it_field_def cong: if_cong)
  then show ?thesis by (simp add: req_field_count_def)
qed

text \<open>A table without extensions: the search for one comes back to where it started.\<close>

lemma find_extension_miss:
  assumes t: "terminated flds" and s: "start < field_count flds" and k: "k < field_count flds"
    and ext: "\<forall>j<field_count flds. PB_LTYPE (f_type (flds ! j)) \<noteq> PB_LTYPE_EXTENSION"
  shows "find_extension_loop start (iter_at flds p ((start + k) mod field_count flds)) =
     Some (False, iter_at flds p start)"
  using k
proof (induction "field_count flds - k" arbitrary: k)
  case 0
  then show ?case by simp
next
  case (Suc n)
  let ?c = "field_count flds"
  let ?j = "(start + k) mod ?c"
  have j: "?j < ?c" using s by simp
  have l: "?j < length flds" using j field_count_less [OF t] by simp
  have nxt: "Suc ?j mod ?c = (start + Suc k) mod ?c" by (simp add: mod_Suc_eq)
  note step = find_extension_loop.simps [of start "iter_at flds p ?j"]
  show ?case
  proof (cases "Suc k < ?c")
    case True
    then have ne: "(start + Suc k) mod ?c \<noteq> start" by (rule cycle_ne [OF s])
    have "find_extension_loop start (iter_at flds p ((start + Suc k) mod ?c)) = Some (False, iter_at flds p start)"
      using Suc.hyps(2) True by (intro Suc.hyps(1)) simp_all
    with ext j ne show ?thesis
      by (simp add: step it_field_at [OF l] iter_next_at [OF t j] nxt)
  next
    case False
    then have "Suc k = ?c" using Suc.prems by simp
    then have "(start + Suc k) mod ?c = start" using s by simp
    with ext j show ?thesis
      by (simp add: step it_field_at [OF l] iter_next_at [OF t j] nxt)
  qed
qed

context bounded_source
begin

definition iter_ok :: "pb_field list \<Rightarrow> nat \<Rightarrow> pb_field_iter \<Rightarrow> bool" where
  "iter_ok flds p iter \<longleftrightarrow> field_count flds = 0 \<and> iter = iter_at flds p 0 \<or>
     (\<exists>i<field_count flds. at_entry flds p i iter)"

text \<open>A search from anywhere: it finds an entry with the tag, or there is none.\<close>

lemma find_entry:
  assumes t: "static_table (Suc d) env live sz flds" and it: "at_entry flds p i iter" and i: "i < field_count flds"
  obtains (miss) "pb_field_iter_find iter tag = Some (False, iter_at flds p i)"
  | (hit) j iter' where "pb_field_iter_find iter tag = Some (True, iter')" "j < field_count flds"
      "at_entry flds p j iter'"
proof (cases "iter = iter_at flds p i")
  case True
  note T = static_tableD [OF t]
  show thesis
    by (rule static_find [OF T(1,6) i, of p tag]) (use True that in \<open>auto simp: at_entry_def\<close>)
next
  case False
  note T = static_tableD [OF t]
  have r: "PB_HTYPE (f_type (flds ! i)) = PB_HTYPE_REPEATED"
    and iter: "iter = (iter_at flds p i)\<lparr>it_pSize := PSLocal\<rparr>" using False it by (auto simp: at_entry_def)
  have tag: "f_tag (flds ! i) \<noteq> 0" by (rule before_count_tag [OF i])
  show thesis
  proof (cases "field_matches flds tag i")
    case True
    then have "pb_field_iter_find iter tag = Some (True, iter)"
      using T(7) [OF i] iter
      by (simp add: pb_field_iter_find_def field_matches_def nth_opt_def
          iter_find_loop.simps [of i "(iter_at flds p i)\<lparr>it_pSize := PSLocal\<rparr>" tag])
    with it i show thesis by (intro hit)
  next
    case False
    have "pb_field_iter_find iter tag = pb_field_iter_find (iter_at flds p i) tag"
      unfolding iter by (rule find_local [OF r tag T(7) [OF i] False])
    note eq = this
    show thesis
      by (rule static_find [OF T(1,6) i, of p tag]) (use that eq in \<open>auto simp: at_entry_def\<close>)
  qed
qed

section \<open>One round\<close>

definition locals_ok :: "pb_field list \<Rightarrow> nat \<Rightarrow> decode_locals \<Rightarrow> bool" where
  "locals_ok flds p l \<longleftrightarrow> iter_ok flds p (d_iter l) \<and>
     (case d_fcf l of None \<Rightarrow> True | Some i \<Rightarrow> i < length flds)"

definition round_ok :: "nat \<Rightarrow> pb_field list \<Rightarrow> nat \<Rightarrow> nat \<Rightarrow> cstate \<Rightarrow> pb_istream \<Rightarrow> round \<Rightarrow> bool" where
  "round_ok e flds p sz s str r \<longleftrightarrow>
     (case r of
        Next s' str' l \<Rightarrow> only_in p sz s s' \<and> inp e s' str' \<and> i_bytes_left str' < i_bytes_left str \<and> locals_ok flds p l
      | Break s' str' l \<Rightarrow> only_in p sz s s' \<and> inp e s' str' \<and> i_bytes_left str' < i_bytes_left str \<and> locals_ok flds p l
      | Fail s' str' \<Rightarrow> only_in p sz s s' \<and> weak str')"

text \<open>The two branches after the search.\<close>

definition branch_ok :: "nat \<Rightarrow> pb_field list \<Rightarrow> nat \<Rightarrow> nat \<Rightarrow> cstate \<Rightarrow> pb_istream \<Rightarrow>
    (bool \<times> cstate \<times> pb_istream \<times> decode_locals) option \<Rightarrow> bool" where
  "branch_ok e flds p sz s str r \<longleftrightarrow> (\<exists>ok s' str' l. r = Some (ok, s', str', l) \<and>
     outcome e p sz s str ok s' str' \<and> (ok \<longrightarrow> locals_ok flds p l))"

lemma branch_step:
  assumes "branch_ok e flds p sz s' str' r" "only_in p sz s s'" "i_bytes_left str' \<le> i_bytes_left str"
  shows "branch_ok e flds p sz s str r"
proof -
  from assms(1) obtain ok s2 str2 l where "r = Some (ok, s2, str2, l)" "outcome e p sz s' str' ok s2 str2"
    "ok \<longrightarrow> locals_ok flds p l" unfolding branch_ok_def by blast
  with outcome_step [OF this(2) assms(2,3)] show ?thesis unfolding branch_ok_def by blast
qed

lemma skip_branch:
  assumes "inp e s str" "valid s p sz" "locals_ok flds p l"
  shows "branch_ok e flds p sz s str
     (do { (ok, s, str) \<leftarrow> pb_skip_field env s str wt; Some (ok, s, str, l) })"
  using safeD [OF safe_skip_field assms(1,2), of wt] assms(3) unfolding safe_on_def branch_ok_def by auto

lemma unknown_safe:
  assumes t: "static_table (Suc d) env live sz flds" and i: "i < field_count flds \<or> i = 0 \<and> field_count flds = 0"
    and inp: "inp e s str" and v: "valid s p sz" and l: "locals_ok flds p l" "d_iter l = iter_at flds p i"
    and tag: "unat tag < 2 ^ 29"
  shows "branch_ok e flds p sz s str (unknown_field env rec s str l tag wt)"
proof -
  note T = static_tableD [OF t]
  have len: "0 < length flds" using field_count_less [OF T(1)] by (cases flds) simp_all
  have find: "find_extension_field (iter_at flds p i) = Some (False, iter_at flds p i)"
  proof (cases "field_count flds")
    case 0
    then have "i = 0" "flds ! 0 = PB_LAST_FIELD" using i T(3) by auto
    with len iter_next_empty [OF T(1) 0, of p] show ?thesis
      by (simp add: find_extension_field_def find_extension_loop.simps [of 0] it_field_at
          PB_LAST_FIELD_def PB_LTYPE_def)
  next
    case (Suc n)
    with i have "i < field_count flds" by auto
    from find_extension_miss [OF T(1) this _ T(6), of 0 p] this show ?thesis
      by (simp add: find_extension_field_def)
  qed
  have "unat tag < unat (- 1 :: 32 word)" using tag by (simp add: unsigned_minus_1_eq_mask mask_eq_exp_minus_1)
  then have "\<not> tag \<ge> - 1" by (simp add: word_le_nat_alt)
  moreover have "locals_ok flds p (l\<lparr>d_iter := iter_at flds p i, d_ext_start := - 1\<rparr>)"
    using l by (simp add: locals_ok_def)
  ultimately show ?thesis
    using skip_branch [OF inp v l(1), of wt] skip_branch [OF inp v, of flds "l\<lparr>d_iter := iter_at flds p i, d_ext_start := - 1\<rparr>" wt] find l(2)
    by (simp add: unknown_field_def Let_def)
qed

lemma mark_seen_sel [simp]: "d_iter (mark_seen l pos) = d_iter l" "d_fcf (mark_seen l pos) = d_fcf l"
    "d_fcs (mark_seen l pos) = d_fcs l"
  by (simp_all add: mark_seen_def Let_def)

lemma known_safe:
  assumes t: "static_table (Suc d) env live sz flds" and r: "rec_ok d rec" and q: "quiet rec flds p sz"
    and i: "i < field_count flds" and inp: "inp e s str" and v: "valid s p sz"
    and l: "locals_ok flds p l" "at_entry flds p i (d_iter l)"
  shows "branch_ok e flds p sz s str (known_field env rec flds s str l wt)"
proof -
  note T = static_tableD [OF t] and I = at_entry_sel [OF l(2)]
  have len: "i < length flds" by (rule T(7) [OF i])
  obtain sh where sh: "fixed_count_short flds (d_fcf l) (d_fcs l) = Some sh"
    using l(1) by (auto simp: locals_ok_def fixed_count_short_def nth_opt_def split: option.splits)
  consider (err) "note_fixed_count flds l (flds ! i) = Some None"
    | (go) l' where "note_fixed_count flds l (flds ! i) = Some (Some l')" "at_entry flds p i (d_iter l')"
        "case d_fcf l' of None \<Rightarrow> True | Some k \<Rightarrow> k < length flds"
  proof (cases "PB_HTYPE (f_type (flds ! i)) = PB_HTYPE_REPEATED \<and> size_is_data (d_iter l)")
    case False
    then have "note_fixed_count flds l (flds ! i) = Some (Some l)" by (auto simp: note_fixed_count_def)
    with l that(2) show thesis by (auto simp: locals_ok_def)
  next
    case True
    then have iter: "d_iter l = iter_at flds p i" using l(2) by (auto simp: at_entry_def size_is_data_def)
    have ae: "at_entry flds p i ((iter_at flds p i)\<lparr>it_pSize := PSLocal\<rparr>)" using True by (simp add: at_entry_def)
    show thesis
    proof (cases "d_fcf l = Some i")
      case same: True
      with True iter ae len that(2) show thesis by (simp add: note_fixed_count_def)
    next
      case new: False
      show thesis
      proof (cases sh)
        case True
        with new \<open>PB_HTYPE (f_type (flds ! i)) = PB_HTYPE_REPEATED \<and> size_is_data (d_iter l)\<close> iter sh that(1)
        show thesis by (simp add: note_fixed_count_def)
      next
        case False
        with new True iter sh ae len that(2) show thesis by (simp add: note_fixed_count_def)
      qed
    qed
  qed
  then show ?thesis
  proof cases
    case err
    with I len weak_error [OF inp_weak [OF inp]] show ?thesis
      by (auto simp: known_field_def branch_ok_def outcome_def intro!: exI [of _ False])
  next
    case (go l')
    obtain ok s' str' iter' fc' where d: "decode_field env rec s str wt (d_iter l') (d_fcs l') = Some (ok, s', str', iter', fc')"
      "outcome e p sz s str ok s' str'" "ok \<longrightarrow> at_entry flds p i iter'"
      using decode_field_safe [OF t r q i go(2) inp v] unfolding field_result_def by blast
    have "ok \<longrightarrow> locals_ok flds p ((mark_seen l' (flds ! i))\<lparr>d_iter := iter', d_fcs := fc'\<rparr>)"
      using d(3) go(3) i by (auto simp: locals_ok_def iter_ok_def)
    with d I len go(1) show ?thesis by (simp add: known_field_def branch_ok_def)
  qed
qed

text \<open>An empty table: only the tag 0 matches the terminator, and that is not decoded.\<close>

lemma empty_known_safe:
  assumes t: "static_table (Suc d) env live sz flds" and c: "field_count flds = 0"
    and inp: "inp e s str" and v: "valid s p sz" and l: "locals_ok flds p l" "d_iter l = iter_at flds p 0"
  shows "branch_ok e flds p sz s str (known_field env rec flds s str l wt)"
proof -
  note T = static_tableD [OF t]
  have len: "0 < length flds" using field_count_less [OF T(1)] by (cases flds) simp_all
  have f: "flds ! 0 = PB_LAST_FIELD" by (rule T(3) [OF c])
  have types: "PB_HTYPE (f_type (flds ! 0)) = 0" "PB_LTYPE (f_type (flds ! 0)) = 0" "PB_ATYPE (f_type (flds ! 0)) = 0"
    by (simp_all add: f PB_LAST_FIELD_def PB_HTYPE_def PB_LTYPE_def PB_ATYPE_def)
  have p: "p + data_at flds 0 = p" by (simp add: f PB_LAST_FIELD_def)
  have "safe p sz (\<lambda>s str. pb_dec_varint env s str (flds ! 0) p)"
    by (rule safe_mono [OF safe_dec_varint(1)]) (simp_all add: f PB_LAST_FIELD_def)
  from safeD [OF this inp v] obtain ok s' str' where d: "pb_dec_varint env s str (flds ! 0) p = Some (ok, s', str')"
    "outcome e p sz s str ok s' str'" unfolding safe_on_def by blast
  have "PB_DECODERS env rec 0 = Some (pb_dec_varint env)" by (simp add: PB_DECODERS_def)
  with d p types len have "decode_field env rec s str wt (iter_at flds p 0) (d_fcs l) =
      Some (ok, s', str', iter_at flds p 0, d_fcs l)"
    by (simp add: decode_field_def decode_static_field_def it_field_at with_fc_def)
  with d l c types len show ?thesis
    by (simp add: known_field_def note_fixed_count_def it_field_at branch_ok_def locals_ok_def iter_ok_def)
qed

lemma round_safe:
  assumes t: "static_table (Suc d) env live sz flds" and r: "rec_ok d rec" and q: "quiet rec flds p sz"
    and inp: "inp e s str" and v: "valid s p sz" and l: "locals_ok flds p l" and left: "i_bytes_left str \<noteq> 0"
  shows "\<exists>r. decode_round env rec flds s str l = Some r \<and> round_ok e flds p sz s str r"
  using inp left
proof (cases rule: decode_tag_inp)
  case (fail str')
  then show ?thesis by (simp add: decode_round_def round_ok_def)
next
  case (stop str')
  with l show ?thesis by (simp add: decode_round_def round_ok_def)
next
  case (tag wt tg str')
  note T = static_tableD [OF t]
  have len: "0 < length flds" using field_count_less [OF T(1)] by (cases flds) simp_all
  have "\<exists>found iter. pb_field_iter_find (d_iter l) tg = Some (found, iter) \<and>
      branch_ok e flds p sz s str' (if \<not> found then unknown_field env rec s str' (l\<lparr>d_iter := iter\<rparr>) tg wt
        else known_field env rec flds s str' (l\<lparr>d_iter := iter\<rparr>) wt)"
  proof (cases "field_count flds = 0")
    case True
    then have iter: "d_iter l = iter_at flds p 0" using l by (auto simp: locals_ok_def iter_ok_def)
    have f: "flds ! 0 = PB_LAST_FIELD" by (rule T(3) [OF True])
    have "pb_field_iter_find (iter_at flds p 0) tg = Some (tg = 0, iter_at flds p 0)"
      using len iter_next_empty [OF T(1) True, of p]
      by (simp add: pb_field_iter_find_def iter_find_loop.simps [of 0] f PB_LAST_FIELD_def PB_LTYPE_def nth_opt_def)
    moreover have "locals_ok flds p (l\<lparr>d_iter := iter_at flds p 0\<rparr>)" using l iter by (simp add: locals_ok_def)
    ultimately show ?thesis
      using empty_known_safe [OF t True tag(2) v, of "l\<lparr>d_iter := iter_at flds p 0\<rparr>" rec wt]
        unknown_safe [OF t _ tag(2) v, of 0 "l\<lparr>d_iter := iter_at flds p 0\<rparr>" tg rec wt] iter True tag(4) by simp
  next
    case False
    then obtain i where i: "i < field_count flds" "at_entry flds p i (d_iter l)"
      using l by (auto simp: locals_ok_def iter_ok_def)
    from t i(2,1) show ?thesis
    proof (cases rule: find_entry [where tag = tg])
      case miss
      have "locals_ok flds p (l\<lparr>d_iter := iter_at flds p i\<rparr>)"
        using l i(1) by (auto simp: locals_ok_def iter_ok_def at_entry_def)
      with unknown_safe [OF t _ tag(2) v this _ tag(4), of i rec wt] i(1) miss show ?thesis
        by (intro exI [of _ False] exI [of _ "iter_at flds p i"]) simp
    next
      case (hit j iter')
      have "locals_ok flds p (l\<lparr>d_iter := iter'\<rparr>)"
        using l hit(2,3) by (auto simp: locals_ok_def iter_ok_def)
      with known_safe [OF t r q hit(2) tag(2) v this, of wt] hit show ?thesis
        by (intro exI [of _ True] exI [of _ iter']) simp
    qed
  qed
  then obtain found iter ok s' str'' l' where b: "pb_field_iter_find (d_iter l) tg = Some (found, iter)"
    "(if \<not> found then unknown_field env rec s str' (l\<lparr>d_iter := iter\<rparr>) tg wt
        else known_field env rec flds s str' (l\<lparr>d_iter := iter\<rparr>) wt) = Some (ok, s', str'', l')"
    "outcome e p sz s str' ok s' str''" "ok \<longrightarrow> locals_ok flds p l'"
    unfolding branch_ok_def by blast
  then show ?thesis
    using tag by (auto simp: decode_round_def round_ok_def outcome_def)
qed

section \<open>The loop and the message\<close>

lemma loop_safe:
  assumes t: "static_table (Suc d) env live sz flds" and r: "rec_ok d rec" and q: "quiet rec flds p sz"
    and "inp e s str" "valid s p sz" "locals_ok flds p l"
  shows "branch_ok e flds p sz s str (decode_loop env rec flds s str l)"
  using assms(4-6)
proof (induction "i_bytes_left str" arbitrary: s str l rule: less_induct)
  case less
  note inp = less.prems(1) and v = less.prems(2) and l = less.prems(3)
  show ?case
  proof (cases "i_bytes_left str = 0")
    case True
    with inp l show ?thesis
      by (auto simp: decode_loop.simps [of env rec flds s str l] branch_ok_def outcome_def intro!: exI [of _ True])
  next
    case False
    obtain rr where rr: "decode_round env rec flds s str l = Some rr" "round_ok e flds p sz s str rr"
      using round_safe [OF t r q inp v l False] by blast
    show ?thesis
    proof (cases rr)
      case (Next s' str' l')
      with rr(2) have n: "only_in p sz s s'" "inp e s' str'" "i_bytes_left str' < i_bytes_left str" "locals_ok flds p l'"
        by (simp_all add: round_ok_def)
      have "branch_ok e flds p sz s' str' (decode_loop env rec flds s' str' l')"
        by (rule less.hyps [OF n(3,2) _ n(4)]) (use v in \<open>simp add: valid_only_in [OF n(1)]\<close>)
      from branch_step [OF this n(1)] n(3) False rr(1) Next show ?thesis
        by (simp add: decode_loop.simps [of env rec flds s str l])
    next
      case (Break s' str' l')
      with rr False show ?thesis
        by (auto simp: decode_loop.simps [of env rec flds s str l] branch_ok_def round_ok_def outcome_def
            intro!: exI [of _ True])
    next
      case (Fail s' str')
      with rr False show ?thesis
        by (auto simp: decode_loop.simps [of env rec flds s str l] branch_ok_def round_ok_def outcome_def
            intro!: exI [of _ False])
    qed
  qed
qed

lemma body_safe:
  assumes t: "static_table (Suc d) env live sz flds" and r: "rec_ok d rec" and q: "quiet rec flds p sz"
  shows "safe p sz (\<lambda>s str. decode_noinit_body env rec s str flds p)"
proof (rule safeI)
  fix e s str assume inp: "inp e s str" and v: "valid s p sz"
  note T = static_tableD [OF t]
  have len: "0 < length flds" using field_count_less [OF T(1)] by (cases flds) simp_all
  have "iter_ok flds p (iter_at flds p 0)" by (auto simp: iter_ok_def at_entry_def)
  then have l0: "locals_ok flds p (initial_locals (iter_at flds p 0))"
    by (simp add: locals_ok_def initial_locals_def)
  obtain ok s' str' l where b: "decode_loop env rec flds s str (initial_locals (iter_at flds p 0)) = Some (ok, s', str', l)"
    "outcome e p sz s str ok s' str'" "ok \<longrightarrow> locals_ok flds p l"
    using loop_safe [OF t r q inp v l0] unfolding branch_ok_def by blast
  show "safe_on e p sz s str (decode_noinit_body env rec s str flds p)"
  proof (cases ok)
    case False
    with b show ?thesis
      by (simp add: decode_noinit_body_def iter_begin_at [OF T(1)] outcome_def safe_on_weak)
  next
    case True
    with b have o: "only_in p sz s s'" "inp e s' str'" "i_bytes_left str' \<le> i_bytes_left str" "locals_ok flds p l"
      by (simp_all add: outcome_def)
    obtain short where short: "fixed_count_short flds (d_fcf l) (d_fcs l) = Some short"
      using o(4) by (auto simp: locals_ok_def fixed_count_short_def nth_opt_def split: option.splits)
    have "\<exists>n. req_field_count (d_iter l) = Some n"
    proof (cases "field_count flds = 0")
      case True
      with o(4) have "d_iter l = iter_at flds p 0" by (auto simp: locals_ok_def iter_ok_def)
      with req_field_count_at [OF T(1) _ T(2)] show ?thesis by simp
    next
      case False
      then obtain i where i: "i < field_count flds" "at_entry flds p i (d_iter l)"
        using o(4) by (auto simp: locals_ok_def iter_ok_def)
      then show ?thesis
        using req_field_count_at [OF T(1) _ T(2), of i p] req_count_local [OF _ before_count_tag [OF i(1)], of p]
        by (auto simp: at_entry_def)
    qed
    then obtain n where "req_field_count (d_iter l) = Some n" by blast
    with True b(1) short o safe_on_weak_fail [OF o(1) inp_weak [OF o(2)]] safe_on_ok [OF o(1-3)] show ?thesis
      by (simp add: decode_noinit_body_def iter_begin_at [OF T(1)])
  qed
qed

lemma static_mono: "static_table d env live sz flds \<Longrightarrow> static_table (Suc d) env live sz flds"
proof (induction d arbitrary: sz flds)
  case (Suc d)
  have "static_entry (static_table (Suc d) env live) env live flds sz i"
    if "static_entry (static_table d env live) env live flds sz i" for i
  proof -
    have "static_entry S env live flds sz i"
      if "static_entry R env live flds sz i" "\<And>sz flds. R sz flds \<Longrightarrow> S sz flds" for R S
      using that unfolding static_entry_def Let_def by blast
    then show ?thesis using that Suc.IH by blast
  qed
  with Suc.prems show ?case unfolding static_table.simps(2) [of "Suc d"] by simp
qed simp

lemma quiet_rec:
  assumes "static_table d env live sz flds" and "d \<le> D"
  shows "quiet (rec_at D env noinit) flds p sz"
  using release_at [OF assms] unfolding quiet_def rec_at_def by simp

lemma rec_ok_at:
  assumes "\<And>flds sz a. static_table d env live sz flds \<Longrightarrow> safe a sz (\<lambda>s str. noinit s str flds a)"
    and "d \<le> D"
  shows "rec_ok d (rec_at D env noinit)"
  unfolding rec_ok_def rec_at_def
  using assms(1) defaults_at [OF _ assms(2)] release_at [OF _ assms(2)] by simp

lemma noinit_safe:
  "static_table d env live sz flds \<Longrightarrow> safe p sz (\<lambda>s str. pb_decode_noinit d env s str flds p)"
proof (induction d arbitrary: sz flds p)
  case (Suc d)
  have "rec_ok d (rec_at (Suc d) env (pb_decode_noinit d env))"
    by (rule rec_ok_at) (use Suc.IH in simp_all)
  from body_safe [OF Suc.prems this quiet_rec [OF Suc.prems order_refl]] show ?case by simp
qed simp

lemma decode_safe:
  assumes "static_table d env live sz flds"
  shows "safe p sz (\<lambda>s str. pb_decode d env s str flds p)"
  unfolding pb_decode_def
  by (rule safe_decode_with [OF rec_ok_at assms]) (use noinit_safe in simp_all)

lemma delimited_safe:
  assumes "static_table d env live sz flds"
  shows "safe p sz (\<lambda>s str. pb_decode_delimited d env s str flds p)"
  using safe_substream [OF decode_safe [OF assms]] by (simp add: pb_decode_delimited_def)

end

section \<open>Buffer streams\<close>

text \<open>A stream over a buffer of which the rest, up to \<open>e\<close>, is live.\<close>

definition buf_inp :: "(nat \<Rightarrow> nat \<Rightarrow> bool) \<Rightarrow> nat \<Rightarrow> cstate \<Rightarrow> pb_istream \<Rightarrow> bool" where
  "buf_inp live e s str \<longleftrightarrow> (\<forall>a k. valid s a k = live a k) \<and> i_callback str = ICB_BUF_READ \<and>
     i_bytes_left str < 2 ^ 64 \<and> i_state str + i_bytes_left str = e \<and>
     live (i_state str) (i_bytes_left str)"

text \<open>A parent stream while its substream, up to \<open>m\<close>, is open: its pointer is behind.\<close>

definition buf_pend :: "(nat \<Rightarrow> nat \<Rightarrow> bool) \<Rightarrow> nat \<Rightarrow> nat \<Rightarrow> cstate \<Rightarrow> pb_istream \<Rightarrow> bool" where
  "buf_pend live e m s str \<longleftrightarrow> (\<forall>a k. valid s a k = live a k) \<and> i_callback str = ICB_BUF_READ \<and>
     i_bytes_left str < 2 ^ 64 \<and> m + i_bytes_left str = e \<and> live m (i_bytes_left str)"

definition buf_weak :: "pb_istream \<Rightarrow> bool" where
  "buf_weak str \<longleftrightarrow> i_callback str = ICB_BUF_READ"

lemma copy_mem_only_in:
  assumes "valid s b (i + n)" and "valid s a (i + n)"
  shows "\<exists>s'. copy_loop s a (BufMem b) i n = Some s' \<and> only_in a (i + n) s s'"
  using assms
proof (induction n arbitrary: s i)
  case (Suc n)
  have "valid s (b + i) 1" "valid s (a + i) 1" by (rule valid_sub, rule Suc.prems; simp)+
  let ?x = "c_mem s (b + i)"
  from \<open>valid s (b + i) 1\<close> \<open>valid s (a + i) 1\<close>
  have x: "buf_byte s (BufMem b) i = Some ?x" and "valid s (a + i) (length [?x])" by (simp_all add: buf_byte_def load_bytes_def)
  from this(2) obtain s1 where s1: "store_bytes s (a + i) [?x] = Some s1" "only_in (a + i) (length [?x]) s s1"
    by (rule store_only_in)
  have o: "only_in a (Suc i + n) s s1" by (rule only_in_mono [OF s1(2)]) simp_all
  obtain s2 where "copy_loop s1 a (BufMem b) (Suc i) n = Some s2" "only_in a (Suc i + n) s1 s2"
    using Suc.IH [of s1 "Suc i"] Suc.prems valid_only_in [OF o] by auto
  with x s1(1) only_in_trans [OF o] show ?case by auto
qed simp

interpretation bufsafe: bounded_source env live "buf_inp live" "buf_pend live" buf_weak for env live
proof unfold_locales
  fix e n s str
  assume i: "buf_inp live e s str" and n: "n \<le> i_bytes_left str"
  let ?str = "str\<lparr>i_state := i_state str + n, i_bytes_left := i_bytes_left str - n\<rparr>"
  have v: "valid s (i_state str) (i_bytes_left str)" using i by (simp add: buf_inp_def)
  have v': "valid s (i_state str + n) (i_bytes_left str - n)" "valid s (i_state str) n"
    by (rule valid_sub [OF v]; use n in simp)+
  have m: "(i_bytes_left str + 2 ^ 64 - n) mod 2 ^ 64 = i_bytes_left str - n"
    using i n by (intro size_sub) (simp_all add: buf_inp_def)
  have "i_bytes_left str - n < 2 ^ 64" using i unfolding buf_inp_def by linarith
  with i n v' have "buf_inp live e s ?str" by (simp add: buf_inp_def)
  moreover have "\<exists>bs. length bs = n \<and> pb_read env s str ILocal n = Some (True, bs, s, ?str)"
    using i n v'(2) m
    by (auto simp: pb_read_def pb_read_direct_def i_call_def buf_read_def buf_inp_def load_bytes_def Let_def)
  moreover have "pb_read env s str INull n = Some (True, [], s, ?str)"
    using i n m by (simp add: pb_read_def pb_read_direct_def i_call_def buf_read_def buf_inp_def Let_def)
  moreover have "\<exists>s'. pb_read env s str (IMem a) n = Some (True, [], s', ?str) \<and> only_in a n s s'"
    if "valid s a n" for a
    using copy_mem_only_in [of s "i_state str" 0 n a] v'(2) that i n m
    by (auto simp: pb_read_def pb_read_direct_def i_call_def buf_read_def buf_inp_def Let_def)
  ultimately show "\<exists>str'. buf_inp live e s str' \<and> i_bytes_left str' + n = i_bytes_left str \<and>
          (\<exists>bs. length bs = n \<and> pb_read env s str ILocal n = Some (True, bs, s, str')) \<and>
          pb_read env s str INull n = Some (True, [], s, str') \<and>
          (\<forall>a. valid s a n \<longrightarrow> (\<exists>s'. pb_read env s str (IMem a) n = Some (True, [], s', str') \<and>
             only_in a n s s'))"
    using n by (intro exI [of _ ?str]) simp
next
  fix e s str assume i: "buf_inp live e s str" and n: "i_bytes_left str \<noteq> 0"
  let ?str = "str\<lparr>i_state := i_state str + 1, i_bytes_left := i_bytes_left str - 1\<rparr>"
  have v: "valid s (i_state str) (i_bytes_left str)" using i by (simp add: buf_inp_def)
  have v': "valid s (i_state str + 1) (i_bytes_left str - 1)" "valid s (i_state str) 1"
    by (rule valid_sub [OF v]; use n in simp)+
  have m: "(i_bytes_left str + 2 ^ 64 - 1) mod 2 ^ 64 = i_bytes_left str - 1"
    using i n by (intro size_sub) (simp_all add: buf_inp_def)
  have "i_bytes_left str - 1 < 2 ^ 64" using i unfolding buf_inp_def by linarith
  with i n v' have "buf_inp live e s ?str" by (simp add: buf_inp_def)
  moreover have "pb_readbyte env s str = Some (Some (c_mem s (i_state str)), s, ?str)"
    using i n v'(2) m
    by (simp add: pb_readbyte_def i_call_def buf_read_def buf_inp_def load_bytes_def Let_def)
  ultimately show "\<exists>b str'. pb_readbyte env s str = Some (Some b, s, str') \<and> buf_inp live e s str' \<and>
          Suc (i_bytes_left str') = i_bytes_left str"
    using n by auto
next
  fix e n buf s str assume "buf_inp live e s str" "i_bytes_left str < n"
  then show "\<exists>str'. pb_read env s str buf n = Some (False, [], s, str') \<and> buf_weak str'"
    by (simp add: pb_read_def pb_read_direct_def buf_inp_def buf_weak_def)
next
  fix s str assume "buf_weak str"
  then show "\<exists>ok str'. pb_read env s str INull (i_bytes_left str) = Some (ok, [], s, str') \<and> buf_weak str'"
    by (auto simp: pb_read_def pb_read_direct_def buf_weak_def i_call_def buf_read_def intro!: exI [of _ True])
next
  fix e n s str assume i: "buf_inp live e s str" and n: "n \<le> i_bytes_left str"
  have v: "valid s (i_state str) (i_bytes_left str)" using i by (simp add: buf_inp_def)
  have "valid s (i_state str + n) (i_bytes_left str - n)" "valid s (i_state str) n"
    by (rule valid_sub [OF v]; use n in simp)+
  moreover have "i_bytes_left str - n < 2 ^ 64" using i unfolding buf_inp_def by linarith
  ultimately show "\<exists>m. buf_inp live m s (str\<lparr>i_bytes_left := n\<rparr>) \<and>
      buf_pend live e m s (str\<lparr>i_bytes_left := i_bytes_left str - n\<rparr>)"
    using i n by (intro exI [of _ "i_state str + n"]) (simp add: buf_inp_def buf_pend_def)
qed (auto simp: buf_inp_def buf_pend_def buf_weak_def valid_only_in)

end
