(* ===== verification/Base64.thy ===== *)
theory Base64
  imports PbPrelude
begin

text \<open>
  \<open>fbase64.c\<close> of FirebaseDatabase's web socket: \<open>f_b64_ntop\<close> and \<open>f_b64_pton\<close>. A C string is
  the list of its bytes before the terminating zero, a buffer the list of its bytes; an
  access outside a buffer is \<open>None\<close>. \<open>target\<close> of the decoder is an optional buffer, \<open>None\<close>
  being the null pointer. The reference encoding is \<open>b64\<close>.
\<close>

section \<open>The alphabet\<close>

definition Base64_chars :: "byte list" where
  "Base64_chars = map of_nat ([65..<91] @ [97..<123] @ [48..<58] @ [43, 47])"

definition Pad64 :: byte where "Pad64 = 61"

text \<open>\<open>isspace\<close> in the C locale.\<close>

definition isspace :: "byte \<Rightarrow> bool" where
  "isspace ch \<longleftrightarrow> ch \<in> {9, 10, 11, 12, 13, 32}"

text \<open>\<open>strchr(Base64, ch) - Base64\<close> for a nonzero \<open>ch\<close>.\<close>

primrec strchr_index :: "byte list \<Rightarrow> byte \<Rightarrow> nat option" where
  "strchr_index [] ch = None"
| "strchr_index (c # cs) ch = (if c = ch then Some 0 else map_option Suc (strchr_index cs ch))"

definition put_byte :: "byte list \<Rightarrow> nat \<Rightarrow> byte \<Rightarrow> byte list option" where
  "put_byte buf i b = (if i < length buf then Some (buf[i := b]) else None)"

section \<open>Encoding\<close>

definition sextet0 :: "byte \<Rightarrow> byte" where "sextet0 a = drop_bit 2 a"
definition sextet1 :: "byte \<Rightarrow> byte \<Rightarrow> byte" where
  "sextet1 a b = push_bit 4 (a AND 0x03) + drop_bit 4 b"
definition sextet2 :: "byte \<Rightarrow> byte \<Rightarrow> byte" where
  "sextet2 b c = push_bit 2 (b AND 0x0F) + drop_bit 6 c"
definition sextet3 :: "byte \<Rightarrow> byte" where "sextet3 c = c AND 0x3F"

definition put_char :: "byte list \<Rightarrow> nat \<Rightarrow> byte \<Rightarrow> byte list option" where
  "put_char target i o6 = do { ch \<leftarrow> nth_opt Base64_chars (unat o6); put_byte target i ch }"

text \<open>The loop over whole groups: what is left of the input, or the \<open>-1\<close> return.\<close>

fun ntop_loop :: "byte list \<Rightarrow> byte list \<Rightarrow> nat \<Rightarrow> nat \<Rightarrow> (byte list option \<times> byte list \<times> nat) option" where
  "ntop_loop (a # b # c # src) target targsize datalength =
     (if datalength + 4 > targsize then Some (None, target, datalength)
      else do { target \<leftarrow> put_char target datalength (sextet0 a);
                target \<leftarrow> put_char target (datalength + 1) (sextet1 a b);
                target \<leftarrow> put_char target (datalength + 2) (sextet2 b c);
                target \<leftarrow> put_char target (datalength + 3) (sextet3 c);
                ntop_loop src target targsize (datalength + 4) })"
| "ntop_loop src target targsize datalength = Some (Some src, target, datalength)"

text \<open>The padding of one or two bytes that are left.\<close>

definition ntop_pad :: "byte list \<Rightarrow> byte list \<Rightarrow> nat \<Rightarrow> nat \<Rightarrow> (bool \<times> byte list \<times> nat) option" where
  "ntop_pad left target targsize datalength =
     (if left = [] then Some (True, target, datalength)
      else (let input0 = left ! 0;
                input1 = (if 1 < length left then left ! 1 else 0)
            in if datalength + 4 > targsize then Some (False, target, datalength)
               else do { target \<leftarrow> put_char target datalength (sextet0 input0);
                         target \<leftarrow> put_char target (datalength + 1) (sextet1 input0 input1);
                         target \<leftarrow> (if length left = 1 then put_byte target (datalength + 2) Pad64
                                   else put_char target (datalength + 2) (sextet2 input1 0));
                         target \<leftarrow> put_byte target (datalength + 3) Pad64;
                         Some (True, target, datalength + 4) }))"

text \<open>The returned length is cast to \<open>int\<close>.\<close>

definition f_b64_ntop :: "byte list \<Rightarrow> byte list \<Rightarrow> nat \<Rightarrow> (int \<times> byte list) option" where
  "f_b64_ntop src target targsize =
     do { (r, target, datalength) \<leftarrow> ntop_loop src target targsize 0;
          case r of
            None \<Rightarrow> Some (- 1, target)
          | Some left \<Rightarrow>
              do { (ok, target, datalength) \<leftarrow> ntop_pad left target targsize datalength;
                   if \<not> ok then Some (- 1, target)
                   else if datalength \<ge> targsize then Some (- 1, target)
                   else do { target \<leftarrow> put_byte target datalength 0;
                             Some (sint (of_nat datalength :: 32 word), target) } } }"

section \<open>Decoding\<close>

text \<open>
  One character of the main loop in the given state: the flag is false for the \<open>-1\<close> return.
  \<open>pos\<close> is the character's index in the alphabet; \<open>tarindex\<close> is a 32-bit counter.
\<close>

definition or_byte :: "byte list \<Rightarrow> nat \<Rightarrow> byte \<Rightarrow> byte list option" where
  "or_byte buf i b = do { x \<leftarrow> nth_opt buf i; put_byte buf i (x OR b) }"

text \<open>What a character leaves for the next byte, in states 1 and 2.\<close>

definition carry1 :: "byte \<Rightarrow> byte" where "carry1 pos = push_bit 4 (pos AND 0x0F)"
definition carry2 :: "byte \<Rightarrow> byte" where "carry2 pos = push_bit 6 (pos AND 0x03)"

definition suc32 :: "nat \<Rightarrow> nat" where "suc32 n = (n + 1) mod 2 ^ 32"

text \<open>\<open>if (target) { if (needed >= targsize) return -1; f }\<close>.\<close>

definition if_target :: "byte list option \<Rightarrow> nat \<Rightarrow> nat \<Rightarrow> (byte list \<Rightarrow> byte list option) \<Rightarrow>
    (bool \<times> byte list option) option" where
  "if_target target targsize needed f =
     (case target of
        None \<Rightarrow> Some (True, None)
      | Some t \<Rightarrow> if needed \<ge> targsize then Some (False, Some t)
                  else do { t \<leftarrow> f t; Some (True, Some t) })"

definition pton_step :: "nat \<Rightarrow> byte \<Rightarrow> byte list option \<Rightarrow> nat \<Rightarrow> nat \<Rightarrow>
    (bool \<times> nat \<times> nat \<times> byte list option) option" where
  "pton_step state pos target targsize tarindex =
     (if state = 0 then
        do { (ok, target) \<leftarrow> if_target target targsize tarindex
               (\<lambda>t. put_byte t tarindex (push_bit 2 pos));
             Some (ok, 1, tarindex, target) }
      else if state = 1 then
        do { (ok, target) \<leftarrow> if_target target targsize (suc32 tarindex)
               (\<lambda>t. do { t \<leftarrow> or_byte t tarindex (drop_bit 4 pos);
                         put_byte t (suc32 tarindex) (carry1 pos) });
             Some (ok, 2, suc32 tarindex, target) }
      else if state = 2 then
        do { (ok, target) \<leftarrow> if_target target targsize (suc32 tarindex)
               (\<lambda>t. do { t \<leftarrow> or_byte t tarindex (drop_bit 2 pos);
                         put_byte t (suc32 tarindex) (carry2 pos) });
             Some (ok, 3, suc32 tarindex, target) }
      else
        do { (ok, target) \<leftarrow> if_target target targsize tarindex (\<lambda>t. or_byte t tarindex pos);
             Some (ok, 0, suc32 tarindex, target) })"

text \<open>The main loop: the string from the character it stopped at, \<open>None\<close> for the \<open>-1\<close> return.\<close>

fun pton_loop :: "byte list \<Rightarrow> byte list option \<Rightarrow> nat \<Rightarrow> nat \<Rightarrow> nat \<Rightarrow>
    (byte list option \<times> nat \<times> nat \<times> byte list option) option" where
  "pton_loop [] target targsize state tarindex = Some (Some [], state, tarindex, target)"
| "pton_loop (ch # src) target targsize state tarindex =
     (if isspace ch then pton_loop src target targsize state tarindex
      else if ch = Pad64 then Some (Some (ch # src), state, tarindex, target)
      else (case strchr_index Base64_chars ch of
              None \<Rightarrow> Some (None, state, tarindex, target)
            | Some i \<Rightarrow>
                do { (ok, state, tarindex, target) \<leftarrow>
                       pton_step state (of_nat i) target targsize tarindex;
                     if \<not> ok then Some (None, state, tarindex, target)
                     else pton_loop src target targsize state tarindex }))"

text \<open>After the main loop. In state 2 a second pad character must follow the first.\<close>

definition pton_trailer :: "byte list \<Rightarrow> nat \<Rightarrow> bool" where
  "pton_trailer rest state \<longleftrightarrow>
     (if state = 0 \<or> state = 1 then False
      else if state = 2 then
        (case dropWhile isspace rest of
           [] \<Rightarrow> False
         | ch # rest \<Rightarrow> ch = Pad64 \<and> list_all isspace rest)
      else list_all isspace rest)"

definition f_b64_pton :: "byte list \<Rightarrow> byte list option \<Rightarrow> nat \<Rightarrow> (int \<times> byte list option) option" where
  "f_b64_pton src target targsize =
     do { (r, state, tarindex, target) \<leftarrow> pton_loop src target targsize 0 0;
          let ret = sint (of_nat tarindex :: 32 word);
          case r of
            None \<Rightarrow> Some (- 1, target)
          | Some [] \<Rightarrow> Some (if state \<noteq> 0 then - 1 else ret, target)
          | Some (ch # rest) \<Rightarrow>
              (if \<not> pton_trailer rest state then Some (- 1, target)
               else (case target of
                       None \<Rightarrow> Some (ret, target)
                     | Some t \<Rightarrow>
                         do { b \<leftarrow> nth_opt t tarindex;
                              Some (if b \<noteq> 0 then - 1 else ret, target) })) }"

section \<open>The reference encoding\<close>

text \<open>Groups of 24 bits as four digits in base 64, the last group padded.\<close>

definition b64_group :: "nat \<Rightarrow> byte list" where
  "b64_group n = map (\<lambda>k. Base64_chars ! (n div 64 ^ k mod 64)) [3, 2, 1, 0]"

fun b64 :: "byte list \<Rightarrow> byte list" where
  "b64 (a # b # c # src) = b64_group (unat a * 65536 + unat b * 256 + unat c) @ b64 src"
| "b64 [a, b] = take 3 (b64_group (unat a * 65536 + unat b * 256)) @ [Pad64]"
| "b64 [a] = take 2 (b64_group (unat a * 65536)) @ [Pad64, Pad64]"
| "b64 [] = []"

section \<open>Sextets\<close>

lemma length_Base64_chars [simp]: "length Base64_chars = 64"
  by (simp add: Base64_chars_def)

lemma Base64_chars_list: "Base64_chars = [65, 66, 67, 68, 69, 70, 71, 72, 73, 74, 75, 76, 77, 78, 79, 80,
  81, 82, 83, 84, 85, 86, 87, 88, 89, 90, 97, 98, 99, 100, 101, 102, 103, 104, 105, 106, 107, 108,
  109, 110, 111, 112, 113, 114, 115, 116, 117, 118, 119, 120, 121, 122, 48, 49, 50, 51, 52, 53, 54,
  55, 56, 57, 43, 47]"
  by (simp add: Base64_chars_def upt_rec)

lemma strchr_index_nth: "distinct xs \<Longrightarrow> i < length xs \<Longrightarrow> strchr_index xs (xs ! i) = Some i"
proof (induction xs arbitrary: i)
  case (Cons x xs)
  then show ?case by (cases i) (auto simp: nth_mem)
qed simp

lemma strchr_index_Some: "strchr_index xs c = Some i \<Longrightarrow> i < length xs \<and> xs ! i = c"
  by (induction xs arbitrary: i) (auto split: if_splits)

lemma distinct_Base64_chars: "distinct Base64_chars"
  unfolding Base64_chars_list by simp

lemma alphabet_chars: "\<forall>c \<in> set Base64_chars. \<not> isspace c \<and> c \<noteq> Pad64 \<and> c \<noteq> 0"
  unfolding Base64_chars_list isspace_def Pad64_def by simp

lemma alphabet:
  assumes "i < 64"
  shows "strchr_index Base64_chars (Base64_chars ! i) = Some i" "\<not> isspace (Base64_chars ! i)"
    "Base64_chars ! i \<noteq> Pad64" "Base64_chars ! i \<noteq> 0"
  using assms strchr_index_nth [OF distinct_Base64_chars] alphabet_chars by simp_all

lemma unat_and_mask: "unat (w AND mask n :: byte) = unat w mod 2 ^ n"
  by (simp only: take_bit_eq_mask [symmetric] unsigned_take_bit_eq) (simp only: take_bit_eq_mod)

lemma masks: "(0x03 :: byte) = mask 2" "(0x0F :: byte) = mask 4" "(0x3F :: byte) = mask 6"
  by (simp_all add: mask_eq_exp_minus_1)

lemma unat_drop_byte: "unat (drop_bit n w :: byte) = unat w div 2 ^ n"
  by (simp only: unat_drop_bit_eq) (simp only: drop_bit_eq_div)

lemma sextet_or:
  "sextet1 a b = push_bit 4 (a AND 0x03) OR drop_bit 4 b"
  "sextet2 b c = push_bit 2 (b AND 0x0F) OR drop_bit 6 c"
proof -
  have "push_bit 4 (a AND 0x03) AND drop_bit 4 b = 0"
    by (rule bit_eqI) (auto simp: bit_simps masks dest: bit_imp_le_length)
  then show "sextet1 a b = push_bit 4 (a AND 0x03) OR drop_bit 4 b"
    using word_plus_and_or [of "push_bit 4 (a AND 0x03)" "drop_bit 4 b"]
    by (simp only: sextet1_def) simp
  have "push_bit 2 (b AND 0x0F) AND drop_bit 6 c = 0"
    by (rule bit_eqI) (auto simp: bit_simps masks dest: bit_imp_le_length)
  then show "sextet2 b c = push_bit 2 (b AND 0x0F) OR drop_bit 6 c"
    using word_plus_and_or [of "push_bit 2 (b AND 0x0F)" "drop_bit 6 c"]
    by (simp only: sextet2_def) simp
qed

lemma unat_sextets:
  "unat (sextet0 a) = unat a div 4" "unat (sextet1 a b) = unat a mod 4 * 16 + unat b div 16"
  "unat (sextet2 b c) = unat b mod 16 * 4 + unat c div 64" "unat (sextet3 c) = unat c mod 64"
proof -
  show "unat (sextet0 a) = unat a div 4" "unat (sextet3 c) = unat c mod 64"
    using unat_drop_byte [of 2 a] unat_and_mask [of c 6]
    by (simp_all only: sextet0_def sextet3_def masks) simp_all
  have push: "unat (push_bit n (w AND mask m) :: byte) = unat w mod 2 ^ m * 2 ^ n" if "m + n \<le> 8" for n m w
  proof -
    have "unat w mod 2 ^ m * 2 ^ n < 2 ^ m * 2 ^ n" by simp
    also have "\<dots> = 2 ^ (m + n)" by (simp add: power_add)
    also have "\<dots> \<le> 2 ^ 8" using that by (intro power_increasing) simp_all
    finally have "unat w mod 2 ^ m * 2 ^ n < 256" by simp
    then show ?thesis
      by (simp only: unsigned_push_bit_eq unat_and_mask) (simp add: push_bit_eq_mult take_bit_eq_mod)
  qed
  have b: "unat b div 16 < 16" "unat c div 64 < 4"
    by (rule less_mult_imp_div_less, simp)+
  have p: "unat (push_bit 4 (a AND mask 2)) = unat a mod 4 * 16"
    "unat (push_bit 2 (b AND mask 4)) = unat b mod 16 * 4"
    using push [of 2 4 a] push [of 4 2 b] by simp_all
  have d: "unat (drop_bit 4 b) = unat b div 16" "unat (drop_bit 6 c) = unat c div 64"
    using unat_drop_byte [of 4 b] unat_drop_byte [of 6 c] by simp_all
  have "unat a mod 4 \<le> 3" "unat b mod 16 \<le> 15" by simp_all
  with b have s: "unat (push_bit 4 (a AND mask 2)) + unat (drop_bit 4 b) < 2 ^ LENGTH(8)"
    "unat (push_bit 2 (b AND mask 4)) + unat (drop_bit 6 c) < 2 ^ LENGTH(8)"
    unfolding p d by simp_all
  note e = iffD1 [OF unat_add_lem s(1)] iffD1 [OF unat_add_lem s(2)]
  show "unat (sextet1 a b) = unat a mod 4 * 16 + unat b div 16"
    "unat (sextet2 b c) = unat b mod 16 * 4 + unat c div 64"
    unfolding sextet1_def sextet2_def masks e p d by (rule refl)+
qed

lemma sextet_less:
  "unat (sextet0 a) < 64" "unat (sextet1 a b) < 64" "unat (sextet2 b c) < 64" "unat (sextet3 c) < 64"
proof -
  have "unat a div 4 < 64" "unat b div 16 < 16" "unat c div 64 < 4"
    by (rule less_mult_imp_div_less, simp)+
  moreover have "unat a mod 4 \<le> 3" "unat b mod 16 \<le> 15" "unat c mod 64 \<le> 63" by simp_all
  ultimately show "unat (sextet0 a) < 64" "unat (sextet1 a b) < 64" "unat (sextet2 b c) < 64"
    "unat (sextet3 c) < 64"
    unfolding unat_sextets by linarith+
qed

lemma base64_digits:
  assumes "x0 < 64" "x1 < 64" "x2 < 64" "x3 < (64::nat)"
  defines "n \<equiv> ((x3 * 64 + x2) * 64 + x1) * 64 + x0"
  shows "n mod 64 = x0" "n div 64 mod 64 = x1" "n div 64 div 64 mod 64 = x2"
    "n div 64 div 64 div 64 mod 64 = x3"
proof -
  have q: "(y * 64 + x) div 64 = y" "(y * 64 + x) mod 64 = x" if "x < 64" for x y :: nat
    using that by simp_all
  show "n mod 64 = x0" "n div 64 mod 64 = x1" "n div 64 div 64 mod 64 = x2"
    "n div 64 div 64 div 64 mod 64 = x3"
    unfolding n_def using assms(1-4) by (simp_all only: q mod_less)
qed

lemma regroup:
  "a = a1 * 4 + a0 \<Longrightarrow> b = b1 * 16 + b0 \<Longrightarrow> c = c1 * 64 + c0 \<Longrightarrow>
   a * 65536 + b * 256 + c = ((a1 * 64 + (a0 * 16 + b1)) * 64 + (b0 * 4 + c1)) * 64 + (c0 :: nat)"
  by simp

text \<open>The code's four characters of a group are the base-64 digits of its 24 bits.\<close>

definition ch64 :: "byte \<Rightarrow> byte" where "ch64 o6 = Base64_chars ! unat o6"

lemma b64_group_sextets:
  "b64_group (unat a * 65536 + unat b * 256 + unat c) =
     [ch64 (sextet0 a), ch64 (sextet1 a b), ch64 (sextet2 b c), ch64 (sextet3 c)]"
proof -
  let ?n = "unat a * 65536 + unat b * 256 + unat c"
  let ?x0 = "unat (sextet3 c)" and ?x1 = "unat (sextet2 b c)"
    and ?x2 = "unat (sextet1 a b)" and ?x3 = "unat (sextet0 a)"
  have n: "?n = ((?x3 * 64 + ?x2) * 64 + ?x1) * 64 + ?x0"
    unfolding unat_sextets by (rule regroup) simp_all
  note d = base64_digits [OF sextet_less(4) [of c] sextet_less(3) [of b c] sextet_less(2) [of a b]
      sextet_less(1) [of a], folded n]
  have pows: "?n div 64 ^ 3 = ?n div 64 div 64 div 64" "?n div 64 ^ 2 = ?n div 64 div 64"
    "?n div 64 ^ 1 = ?n div 64" "?n div 64 ^ 0 = ?n"
    by (simp_all add: div_mult2_eq [symmetric])
  show ?thesis
    unfolding b64_group_def ch64_def list.map pows d ..
qed

section \<open>The encoder is the reference encoding\<close>

definition place :: "byte list \<Rightarrow> nat \<Rightarrow> byte list \<Rightarrow> byte list" where
  "place t k cs = take k t @ cs @ drop (k + length cs) t"

lemma place_Nil [simp]: "place t k [] = t"
  by (simp add: place_def)

lemma length_place: "k + length cs \<le> length t \<Longrightarrow> length (place t k cs) = length t"
  by (simp add: place_def)

lemma place_place:
  "k + length cs + length ds \<le> length t \<Longrightarrow> place (place t k cs) (k + length cs) ds = place t k (cs @ ds)"
  by (simp add: place_def ac_simps)

lemma place_update:
  assumes "k < length t"
  shows "place (t[k := c]) (Suc k) cs = place t k (c # cs)"
proof -
  have "take (Suc k) (t[k := c]) = take k t @ [c]"
    using assms by (simp add: take_Suc_conv_app_nth)
  moreover have "drop (Suc k + length cs) (t[k := c]) = drop (k + length (c # cs)) t"
    by simp
  ultimately show ?thesis by (simp add: place_def)
qed

lemma update_place: "k < length t \<Longrightarrow> t[k := c] = place t k [c]"
  using place_update [of k t c "[]"] by simp

lemma put_char_Some: "i < length t \<Longrightarrow> unat o6 < 64 \<Longrightarrow> put_char t i o6 = Some (t[i := ch64 o6])"
  by (simp add: put_char_def put_byte_def ch64_def nth_opt_def)

lemma place4:
  "k + 4 \<le> length t \<Longrightarrow> t[k := a, k + 1 := b, k + 2 := c, k + 3 := d] = place t k [a, b, c, d]"
  using place_update [of k t a "[b, c, d]"] place_update [of "Suc k" "t[k := a]" b "[c, d]"]
    place_update [of "Suc (Suc k)" "t[k := a, Suc k := b]" c "[d]"]
    update_place [of "Suc (Suc (Suc k))" "t[k := a, Suc k := b, Suc (Suc k) := c]" d]
  by (simp add: eval_nat_numeral)

lemma length_b64_group: "length (b64_group n) = 4"
  by (simp add: b64_group_def)

lemma length_b64: "length (b64 src) = 4 * ((length src + 2) div 3)"
proof (induction src rule: b64.induct)
  case (1 a b c src)
  moreover have "(length src + 3 + 2) div 3 = (length src + 2) div 3 + 1" by simp
  ultimately show ?case by (simp add: b64_group_def)
qed (simp_all add: b64_group_def)

lemma b64_short:
  "b64 [a, b] = [ch64 (sextet0 a), ch64 (sextet1 a b), ch64 (sextet2 b 0), Pad64]"
  "b64 [a] = [ch64 (sextet0 a), ch64 (sextet1 a 0), Pad64, Pad64]"
  using b64_group_sextets [of a b 0] b64_group_sextets [of a 0 0] by simp_all

text \<open>The loop and the padding together.\<close>

definition ntop_from :: "byte list \<Rightarrow> byte list \<Rightarrow> nat \<Rightarrow> nat \<Rightarrow> (bool \<times> byte list \<times> nat) option" where
  "ntop_from src t n k =
     do { (r, t, dl) \<leftarrow> ntop_loop src t n k;
          case r of None \<Rightarrow> Some (False, t, dl) | Some left \<Rightarrow> ntop_pad left t n dl }"

lemma ntop_from_ok:
  "k + length (b64 src) \<le> n \<Longrightarrow> n \<le> length t \<Longrightarrow>
     ntop_from src t n k = Some (True, place t k (b64 src), k + length (b64 src))"
proof (induction src arbitrary: t k rule: b64.induct)
  case (1 a b c src t k)
  have k: "k + 4 + length (b64 src) \<le> n" using "1.prems"(1) by (simp add: b64_group_sextets)
  have puts: "ntop_from (a # b # c # src) t n k =
      ntop_from src (t[k := ch64 (sextet0 a), k + 1 := ch64 (sextet1 a b), k + 2 := ch64 (sextet2 b c),
        k + 3 := ch64 (sextet3 c)]) n (k + 4)"
    using k "1.prems"(2) by (simp add: ntop_from_def put_char_Some sextet_less)
  also have "\<dots> = ntop_from src (place t k (b64_group (unat a * 65536 + unat b * 256 + unat c))) n (k + 4)"
    using k "1.prems"(2) by (simp only: place4 b64_group_sextets)
  also have "\<dots> = Some (True, place (place t k (b64_group (unat a * 65536 + unat b * 256 + unat c))) (k + 4)
      (b64 src), k + 4 + length (b64 src))"
  proof -
    let ?t = "place t k (b64_group (unat a * 65536 + unat b * 256 + unat c))"
    have len: "n \<le> length ?t" using k "1.prems"(2) by (simp add: length_place b64_group_sextets)
    show ?thesis using k len by (intro "1.IH")
  qed
  also have "\<dots> = Some (True, place t k (b64 (a # b # c # src)), k + length (b64 (a # b # c # src)))"
    using place_place [of k "b64_group (unat a * 65536 + unat b * 256 + unat c)" "b64 src" t] k "1.prems"(2)
    by (simp add: length_b64_group)
  finally show ?case .
qed (simp_all add: ntop_from_def ntop_pad_def b64_short put_char_Some sextet_less put_byte_def
    place4 [simplified] Let_def del: b64.simps(2,3))

lemma ntop_from_full:
  "k + length (b64 src) > n \<Longrightarrow> k \<le> n \<Longrightarrow> n \<le> length t \<Longrightarrow> \<exists>t' dl. ntop_from src t n k = Some (False, t', dl)"
proof (induction src arbitrary: t k rule: b64.induct)
  case (1 a b c src t k)
  show ?case
  proof (cases "k + 4 > n")
    case True
    then show ?thesis by (simp add: ntop_from_def)
  next
    case False
    then have "ntop_from (a # b # c # src) t n k =
      ntop_from src (t[k := ch64 (sextet0 a), k + 1 := ch64 (sextet1 a b), k + 2 := ch64 (sextet2 b c),
        k + 3 := ch64 (sextet3 c)]) n (k + 4)"
      using "1.prems" by (simp add: ntop_from_def put_char_Some sextet_less)
    then show ?thesis
      using "1.IH" [of "k + 4"] "1.prems" False by (simp add: b64_group_sextets)
  qed
qed (simp_all add: ntop_from_def ntop_pad_def b64_short del: b64.simps(2,3))

lemma ntop_from_eq:
  "f_b64_ntop src t n = do { (ok, target, datalength) \<leftarrow> ntop_from src t n 0;
      if \<not> ok then Some (- 1, target)
      else if datalength \<ge> n then Some (- 1, target)
      else do { target \<leftarrow> put_byte target datalength 0;
                Some (sint (of_nat datalength :: 32 word), target) } }"
  by (cases "ntop_loop src t n 0")
    (auto simp: f_b64_ntop_def ntop_from_def split: option.splits)

text \<open>
  The encoder writes the reference encoding and its terminating zero if they fit, and returns
  \<open>-1\<close> otherwise; it never writes outside the buffer.
\<close>

lemma ntop_correct:
  assumes "n \<le> length t"
  shows "length (b64 src) < n \<Longrightarrow> f_b64_ntop src t n =
      Some (sint (of_nat (length (b64 src)) :: 32 word), place t 0 (b64 src @ [0]))"
    and "n \<le> length (b64 src) \<Longrightarrow> \<exists>t'. f_b64_ntop src t n = Some (- 1, t')"
proof -
  note f = ntop_from_eq
  {
    assume l: "length (b64 src) < n"
    have "length (place t 0 (b64 src)) = length t" using l assms by (simp add: length_place)
    with l assms ntop_from_ok [of 0 src n t] place_place [of 0 "b64 src" "[0]" t]
      update_place [of "length (b64 src)" "place t 0 (b64 src)" 0]
    show "f_b64_ntop src t n =
      Some (sint (of_nat (length (b64 src)) :: 32 word), place t 0 (b64 src @ [0]))"
      by (simp add: f put_byte_def)
  next
    assume "n \<le> length (b64 src)"
    then show "\<exists>t'. f_b64_ntop src t n = Some (- 1, t')"
      using ntop_from_ok [of 0 src n t] ntop_from_full [of n 0 src t] assms
      by (cases "n = length (b64 src)") (auto simp: f)
  }
qed

section \<open>Decoding inverts encoding\<close>

lemma reassemble:
  "push_bit 2 (sextet0 a) OR drop_bit 4 (sextet1 a b) = a"
  "carry1 (sextet1 a b) OR drop_bit 2 (sextet2 b c) = b"
  "carry2 (sextet2 b c) OR sextet3 c = c"
  "carry1 (sextet1 a 0) = 0" "carry2 (sextet2 b 0) = 0"
proof -
  note bits = bit_or_iff bit_and_iff bit_push_bit_iff bit_drop_bit_eq comp_def bit_mask_iff
    sextet0_def sextet_or sextet3_def carry1_def carry2_def masks bit_0_eq bot_apply
  have high: "bit (w :: byte) n \<Longrightarrow> n < 8" for w n using bit_imp_le_length [of w n] by simp
  show "push_bit 2 (sextet0 a) OR drop_bit 4 (sextet1 a b) = a"
  proof (rule bit_eqI)
    fix n show "bit (push_bit 2 (sextet0 a) OR drop_bit 4 (sextet1 a b)) n = bit a n"
      by (cases "n < 2")
        (auto simp only: bits, auto simp del: add_2_eq_Suc add_2_eq_Suc' dest: high)
  qed
  show "carry1 (sextet1 a b) OR drop_bit 2 (sextet2 b c) = b"
  proof (rule bit_eqI)
    fix n show "bit (carry1 (sextet1 a b) OR drop_bit 2 (sextet2 b c)) n = bit b n"
      by (cases "n < 4") (auto simp only: bits, auto dest: high)
  qed
  show "carry2 (sextet2 b c) OR sextet3 c = c"
  proof (rule bit_eqI)
    fix n show "bit (carry2 (sextet2 b c) OR sextet3 c) n = bit c n"
      by (cases "n < 6") (auto simp only: bits, auto dest: high)
  qed
  show "carry1 (sextet1 a 0) = 0" "carry2 (sextet2 b 0) = 0"
    by (rule bit_eqI, auto simp only: bits, auto dest: high)+
qed

text \<open>One character of the alphabet with a target, in each of the four states.\<close>

declare pton_loop.simps(2) [simp del]

lemma pton_char:
  assumes "unat d < 64"
  shows "pton_loop (ch64 d # src) target n state k =
     do { (ok, state, k, target) \<leftarrow> pton_step state d target n k;
          if \<not> ok then Some (None, state, k, target) else pton_loop src target n state k }"
  using alphabet [OF assms] by (simp add: ch64_def pton_loop.simps(2))

lemma suc32_small: "k + 1 < 2 ^ 32 \<Longrightarrow> suc32 k = k + 1"
  by (simp add: suc32_def)

lemma pton_step_ok:
  assumes "n \<le> length t" and "k + 1 < 2 ^ 32"
  shows "k < n \<Longrightarrow> pton_step 0 d (Some t) n k = Some (True, 1, k, Some (t[k := push_bit 2 d]))"
    and "Suc k < n \<Longrightarrow> pton_step 1 d (Some t) n k =
      Some (True, 2, Suc k, Some (t[k := t ! k OR drop_bit 4 d, Suc k := carry1 d]))"
    and "Suc k < n \<Longrightarrow> pton_step 2 d (Some t) n k =
      Some (True, 3, Suc k, Some (t[k := t ! k OR drop_bit 2 d, Suc k := carry2 d]))"
    and "k < n \<Longrightarrow> pton_step 3 d (Some t) n k = Some (True, 0, Suc k, Some (t[k := t ! k OR d]))"
  using assms
  by (simp_all add: pton_step_def if_target_def or_byte_def put_byte_def nth_opt_def suc32_small)

text \<open>A prefix of two, three or four characters of a group.\<close>

lemma pton_two:
  assumes "n \<le> length t" "Suc k < n" "k + 1 < 2 ^ 32"
  shows "pton_loop (ch64 (sextet0 a) # ch64 (sextet1 a b) # src) (Some t) n 0 k =
     pton_loop src (Some (t[k := a, Suc k := carry1 (sextet1 a b)])) n 2 (Suc k)"
proof -
  let ?t = "t[k := push_bit 2 (sextet0 a)]"
  have "pton_loop (ch64 (sextet0 a) # ch64 (sextet1 a b) # src) (Some t) n 0 k =
      pton_loop (ch64 (sextet1 a b) # src) (Some ?t) n 1 k"
    using assms by (simp add: pton_char sextet_less pton_step_ok(1))
  also have "\<dots> = pton_loop src (Some (?t[k := ?t ! k OR drop_bit 4 (sextet1 a b),
      Suc k := carry1 (sextet1 a b)])) n 2 (Suc k)"
    using assms pton_step_ok(2) [of n ?t k "sextet1 a b"]
    by (simp only: pton_char [OF sextet_less(2)]) simp
  also have "?t[k := ?t ! k OR drop_bit 4 (sextet1 a b), Suc k := carry1 (sextet1 a b)] =
      t[k := a, Suc k := carry1 (sextet1 a b)]"
    using assms by (simp add: reassemble)
  finally show ?thesis .
qed

lemma pton_three:
  assumes "n \<le> length t" "Suc (Suc k) < n" "k + 2 < 2 ^ 32"
  shows "pton_loop (ch64 (sextet0 a) # ch64 (sextet1 a b) # ch64 (sextet2 b c) # src) (Some t) n 0 k =
     pton_loop src (Some (t[k := a, Suc k := b, Suc (Suc k) := carry2 (sextet2 b c)])) n 3 (Suc (Suc k))"
proof -
  let ?t = "t[k := a, Suc k := carry1 (sextet1 a b)]"
  have "pton_loop (ch64 (sextet0 a) # ch64 (sextet1 a b) # ch64 (sextet2 b c) # src) (Some t) n 0 k =
      pton_loop (ch64 (sextet2 b c) # src) (Some ?t) n 2 (Suc k)"
    using assms by (intro pton_two) simp_all
  also have "\<dots> = pton_loop src (Some (?t[Suc k := ?t ! Suc k OR drop_bit 2 (sextet2 b c),
      Suc (Suc k) := carry2 (sextet2 b c)])) n 3 (Suc (Suc k))"
    using assms pton_step_ok(3) [of n ?t "Suc k" "sextet2 b c"]
    by (simp only: pton_char [OF sextet_less(3)]) simp
  also have "?t[Suc k := ?t ! Suc k OR drop_bit 2 (sextet2 b c), Suc (Suc k) := carry2 (sextet2 b c)] =
      t[k := a, Suc k := b, Suc (Suc k) := carry2 (sextet2 b c)]"
    using assms by (simp add: reassemble)
  finally show ?thesis .
qed

lemma pton_group:
  assumes "n \<le> length t" "Suc (Suc k) < n" "k + 3 < 2 ^ 32"
  shows "pton_loop (b64_group (unat a * 65536 + unat b * 256 + unat c) @ src) (Some t) n 0 k =
     pton_loop src (Some (t[k := a, Suc k := b, Suc (Suc k) := c])) n 0 (Suc (Suc (Suc k)))"
proof -
  let ?t = "t[k := a, Suc k := b, Suc (Suc k) := carry2 (sextet2 b c)]"
  have "pton_loop (b64_group (unat a * 65536 + unat b * 256 + unat c) @ src) (Some t) n 0 k =
      pton_loop (ch64 (sextet3 c) # src) (Some ?t) n 3 (Suc (Suc k))"
    unfolding b64_group_sextets using assms by (simp add: pton_three)
  also have "\<dots> = pton_loop src (Some (?t[Suc (Suc k) := ?t ! Suc (Suc k) OR sextet3 c])) n 0
      (Suc (Suc (Suc k)))"
    using assms pton_step_ok(4) [of n ?t "Suc (Suc k)" "sextet3 c"]
    by (simp only: pton_char [OF sextet_less(4)]) simp
  also have "?t[Suc (Suc k) := ?t ! Suc (Suc k) OR sextet3 c] = t[k := a, Suc k := b, Suc (Suc k) := c]"
    using assms by (simp add: reassemble)
  finally show ?thesis .
qed

text \<open>
  What the decoder needs of the buffer: one byte more than the data unless the data is a
  whole number of groups.
\<close>

definition pton_need :: "nat \<Rightarrow> nat" where
  "pton_need len = (if len mod 3 = 0 then len else len + 1)"

lemma place3: "k + 3 \<le> length t \<Longrightarrow> t[k := a, Suc k := b, Suc (Suc k) := c] = place t k [a, b, c]"
  using place_update [of k t a "[b, c]"] place_update [of "Suc k" "t[k := a]" b "[c]"]
    update_place [of "Suc (Suc k)" "t[k := a, Suc k := b]" c]
  by (simp add: eval_nat_numeral)

lemma place2: "k + 2 \<le> length t \<Longrightarrow> t[k := a, Suc k := b] = place t k [a, b]"
  using place_update [of k t a "[b]"] update_place [of "Suc k" "t[k := a]" b]
  by (simp add: eval_nat_numeral)

definition pton_data :: "byte list \<Rightarrow> byte list" where
  "pton_data src = (if length src mod 3 = 0 then src else src @ [0])"

definition pton_rest :: "byte list \<Rightarrow> byte list" where
  "pton_rest src = (if length src mod 3 = 0 then [] else if length src mod 3 = 1 then [Pad64, Pad64]
     else [Pad64])"

definition pton_state :: "byte list \<Rightarrow> nat" where
  "pton_state src = (if length src mod 3 = 0 then 0 else Suc (length src mod 3))"

lemma pton_stop: "pton_loop (Pad64 # src) target n state k = Some (Some (Pad64 # src), state, k, target)"
  by (simp add: pton_loop.simps(2) Pad64_def isspace_def)

lemma pton_loop_b64:
  "n \<le> length t \<Longrightarrow> k + pton_need (length src) \<le> n \<Longrightarrow> k + length src + 1 < 2 ^ 32 \<Longrightarrow>
     pton_loop (b64 src) (Some t) n 0 k =
       Some (Some (pton_rest src), pton_state src, k + length src, Some (place t k (pton_data src)))"
proof (induction src arbitrary: t k rule: b64.induct)
  case (1 a b c src t k)
  have m: "length (a # b # c # src) mod 3 = length src mod 3" by simp
  have l: "k + 3 + pton_need (length src) \<le> n" using "1.prems"(2) unfolding pton_need_def m by (auto split: if_splits)
  then have k: "Suc (Suc k) < n" "k + 3 \<le> length t" using "1.prems"(1) by simp_all
  have "pton_loop (b64 (a # b # c # src)) (Some t) n 0 k =
      pton_loop (b64 src) (Some (place t k [a, b, c])) n 0 (k + 3)"
  proof -
    have "k + 3 < 2 ^ 32" "Suc (Suc (Suc k)) = k + 3" using "1.prems"(3) by simp_all
    then show ?thesis
      unfolding b64.simps using pton_group [OF "1.prems"(1) k(1)] by (simp only: place3 [OF k(2)])
  qed
  also have "\<dots> = Some (Some (pton_rest src), pton_state src, k + 3 + length src,
      Some (place (place t k [a, b, c]) (k + 3) (pton_data src)))"
    using "1.prems" k l by (intro "1.IH") (simp_all add: length_place)
  also have "place (place t k [a, b, c]) (k + 3) (pton_data src) = place t k (pton_data (a # b # c # src))"
  proof -
    have "pton_data (a # b # c # src) = [a, b, c] @ pton_data src"
      unfolding pton_data_def m by simp
    moreover have "k + length [a, b, c] + length (pton_data src) \<le> length t"
      using l "1.prems"(1) by (auto simp: pton_data_def pton_need_def split: if_splits)
    moreover have "k + length [a, b, c] = k + 3" by simp
    ultimately show ?thesis using place_place [of k "[a, b, c]" "pton_data src" t] by (simp only:)
  qed
  finally show ?case unfolding pton_rest_def pton_state_def m by simp
next
  case (2 a b t k)
  have "pton_loop (b64 [a, b]) (Some t) n 0 k =
      pton_loop [Pad64] (Some (t[k := a, Suc k := b, Suc (Suc k) := 0])) n 3 (Suc (Suc k))"
    unfolding b64_short using 2 by (subst pton_three) (simp_all add: pton_need_def reassemble)
  with 2 show ?case
    by (simp only: pton_stop)
      (simp add: pton_need_def place3 pton_rest_def pton_state_def pton_data_def)
next
  case (3 a t k)
  have "pton_loop (b64 [a]) (Some t) n 0 k =
      pton_loop [Pad64, Pad64] (Some (t[k := a, Suc k := 0])) n 2 (Suc k)"
    unfolding b64_short using 3 by (subst pton_two) (simp_all add: pton_need_def reassemble)
  with 3 show ?case
    by (simp only: pton_stop)
      (simp add: pton_need_def place2 pton_rest_def pton_state_def pton_data_def)
qed (simp_all add: pton_rest_def pton_state_def pton_data_def)

text \<open>The decoder returns the encoded data.\<close>

lemma pton_b64:
  assumes "n \<le> length t" "pton_need (length src) \<le> n" "length src + 1 < 2 ^ 31"
  shows "f_b64_pton (b64 src) (Some t) n = Some (int (length src), Some (place t 0 (pton_data src)))"
proof -
  have l: "pton_loop (b64 src) (Some t) n 0 0 =
      Some (Some (pton_rest src), pton_state src, length src, Some (place t 0 (pton_data src)))"
    using pton_loop_b64 [of n t 0 src] assms by simp
  have ret: "sint (of_nat (length src) :: 32 word) = int (length src)"
    using assms(3) by (simp add: sint_uint uint_nat unat_of_nat signed_take_bit_int_eq_self)
  have last: "place t 0 (pton_data src) ! length src = 0" "length src < length t" if "length src mod 3 \<noteq> 0"
    using that assms(1,2) by (simp_all add: place_def pton_data_def pton_need_def nth_append)
  have "length (place t 0 (pton_data src)) = length t"
    using assms(1,2) by (intro length_place) (auto simp: pton_data_def pton_need_def split: if_splits)
  then show ?thesis
    using last
    by (auto simp: f_b64_pton_def l ret pton_rest_def pton_state_def pton_trailer_def nth_opt_def
        isspace_def Pad64_def split: if_splits)
qed

end
