(* ===== verification/PbRequiredLoop.thy ===== *)
theory PbRequiredLoop
  imports PbSafeMain
begin

text \<open>
  The required fields of a whole message: \<open>pb_decode_noinit\<close> on any table and any stream. Through
  every round of its loop the bits set in \<open>fields_seen\<close> are those of the required fields whose
  tags were read, so that its last check fails exactly if a required field was never met.
\<close>

section \<open>The iterator stays on the table\<close>

text \<open>At an entry of the table, the size pointer perhaps redirected to the local counter.\<close>

definition stands_at :: "pb_field list \<Rightarrow> nat \<Rightarrow> nat \<Rightarrow> pb_field_iter \<Rightarrow> bool" where
  "stands_at flds p i iter \<longleftrightarrow> iter = iter_at flds p i \<or>
     PB_HTYPE (f_type (flds ! i)) = PB_HTYPE_REPEATED \<and> iter = (iter_at flds p i)\<lparr>it_pSize := PSLocal\<rparr>"

lemma stands_sel:
  assumes "stands_at flds p i iter"
  shows "it_pos iter = i" "it_required_field_index iter = required_before flds i mod 2 ^ 32"
    "i < length flds \<Longrightarrow> it_field iter = Some (flds ! i)"
  using assms by (auto simp: stands_at_def it_field_def nth_opt_def)

lemma next_stands:
  assumes "terminated flds" "i < field_count flds" "stands_at flds p i iter"
  shows "pb_field_iter_next iter = Some (Suc i < field_count flds, iter_at flds p (Suc i mod field_count flds))"
  using assms(3) iter_next_at [OF assms(1,2), of p] next_local [OF _ before_count_tag [OF assms(2)], of p]
  by (auto simp: stands_at_def)

lemma find_at:
  assumes t: "terminated flds" and i: "i < field_count flds" and it: "stands_at flds p i iter"
    and f: "pb_field_iter_find iter tag = Some (found, iter')"
  obtains j where "j < field_count flds" "stands_at flds p j iter'"
    "found \<longleftrightarrow> (\<exists>k<field_count flds. field_matches flds tag k)" "found \<Longrightarrow> field_matches flds tag j"
proof -
  have l: "i < length flds" using i field_count_less [OF t] by simp
  show thesis
  proof (cases "field_matches flds tag i")
    case True
    then have "iter_find_loop i x tag = Some (True, x)" if "it_start x = flds" "it_pos x = i" for x
      using l that by (subst iter_find_loop.simps) (simp add: field_matches_def nth_opt_def)
    then have "pb_field_iter_find iter tag = Some (True, iter)"
      using it by (auto simp: pb_field_iter_find_def stands_at_def)
    with True f i it that [of i] show thesis by auto
  next
    case False
    then have eq: "pb_field_iter_find (iter_at flds p i) tag = Some (found, iter')"
      using f it find_local [OF _ before_count_tag [OF i] l False, of p] by (auto simp: stands_at_def)
    show thesis
    proof (cases "\<exists>k<field_count flds. field_matches flds tag k")
      case True
      then obtain k where "k < field_count flds" "field_matches flds tag k" by blast
      from iter_find_hit [OF t i this, of p] obtain d where
        "d < field_count flds" "field_matches flds tag ((i + d) mod field_count flds)"
        "pb_field_iter_find (iter_at flds p i) tag = Some (True, iter_at flds p ((i + d) mod field_count flds))"
        by blast
      with eq True i that [of "(i + d) mod field_count flds"] show thesis by (auto simp: stands_at_def)
    next
      case False
      with iter_find_miss [OF t i, of tag p] eq i that [of i] show thesis by (auto simp: stands_at_def)
    qed
  qed
qed

definition on_entry :: "pb_field list \<Rightarrow> nat \<Rightarrow> pb_field_iter \<Rightarrow> bool" where
  "on_entry flds p iter \<longleftrightarrow> (\<exists>i<field_count flds. stands_at flds p i iter)"

lemma on_entryI: "i < field_count flds \<Longrightarrow> stands_at flds p i iter \<Longrightarrow> on_entry flds p iter"
  by (auto simp: on_entry_def)

lemma find_on_entry:
  "pb_field_iter_find iter tag = Some (found, iter') \<Longrightarrow> terminated flds \<Longrightarrow> on_entry flds p iter \<Longrightarrow> on_entry flds p iter'"
  unfolding on_entry_def using find_at by metis

lemma next_on_entry:
  assumes "terminated flds" "on_entry flds p iter"
  shows "\<exists>more iter'. pb_field_iter_next iter = Some (more, iter') \<and> on_entry flds p iter'"
proof -
  from assms(2) obtain i where i: "i < field_count flds" "stands_at flds p i iter" by (auto simp: on_entry_def)
  moreover have "on_entry flds p (iter_at flds p (Suc i mod field_count flds))"
    using i(1) by (intro on_entryI [of "Suc i mod field_count flds"]) (simp_all add: stands_at_def)
  ultimately show ?thesis using next_stands [OF assms(1)] by blast
qed

lemmas find_extension_induct = find_extension_loop.raw_induct [rotated, consumes 1, case_names step]

lemma find_extension_at:
  assumes t: "terminated flds"
  shows "find_extension_loop start iter = Some r \<Longrightarrow> on_entry flds p iter \<longrightarrow> on_entry flds p (snd r)"
proof (induction start iter r rule: find_extension_induct)
  case (step loop start iter r)
  show ?case
  proof
    assume on: "on_entry flds p iter"
    with next_on_entry [OF t] obtain more iter' where
      n: "pb_field_iter_next iter = Some (more, iter')" "on_entry flds p iter'" by blast
    show "on_entry flds p (snd r)"
      using step(2) on n step(1) [of start iter' r] by (auto split: Option.bind_splits if_splits)
  qed
qed

lemma release_union_at:
  assumes "terminated flds" "on_entry flds p iter" "pb_release_union_field rf s str iter = Some (ok, s', str', iter')"
  shows "on_entry flds p iter'"
  using assms(3,2) find_on_entry [OF _ assms(1)]
  by (fastforce simp: pb_release_union_field_def Let_def split: Option.bind_splits if_splits)

lemma decode_field_at:
  assumes "terminated flds" "on_entry flds p iter"
    and "decode_field env rec s str wt iter fc = Some (ok, s', str', iter', fc')"
  shows "on_entry flds p iter'"
  using assms(2,3) release_union_at [OF assms(1,2)]
  by (auto simp: decode_field_def Let_def split: Option.bind_splits if_splits)

section \<open>One round and its mark\<close>

text \<open>The locals between two rounds: the iterator on the table, and two words of bits.\<close>

definition on_table :: "pb_field list \<Rightarrow> nat \<Rightarrow> decode_locals \<Rightarrow> bool" where
  "on_table flds p l \<longleftrightarrow> length (d_seen l) = 2 \<and> on_entry flds p (d_iter l)"

lemma unknown_seen:
  assumes "terminated flds" "on_table flds p l"
    and u: "unknown_field env rec s str l tag wt = Some (ok, s', str', l')"
  shows "on_table flds p l' \<and> d_seen l' = d_seen l"
proof -
  have *: "find_extension_field (d_iter l) = Some (found, iter') \<Longrightarrow> on_entry flds p iter'" for found iter'
    using find_extension_at [OF assms(1)] assms(2) by (fastforce simp: find_extension_field_def on_table_def)
  from u assms(2) show ?thesis
    by (auto simp: unknown_field_def Let_def on_table_def split: Option.bind_splits if_splits prod.splits dest!: *)
qed

lemma note_fixed_seen:
  assumes "note_fixed_count flds l (flds ! i) = Some (Some l')" "stands_at flds p i (d_iter l)"
  shows "d_seen l' = d_seen l \<and> stands_at flds p i (d_iter l')"
  using assms
  by (auto simp: note_fixed_count_def stands_at_def Let_def split: Option.bind_splits if_splits)

lemma known_seen:
  assumes t: "terminated flds" and small: "length flds < 2 ^ 32"
    and i: "i < field_count flds" "stands_at flds p i (d_iter l)" and l: "length (d_seen l) = 2"
    and k: "known_field env rec flds s str l wt = Some (True, s', str', l')"
  shows "on_table flds p l'"
    "j < 64 \<Longrightarrow> seen_bit (d_seen l') j \<longleftrightarrow> seen_bit (d_seen l) j \<or>
       PB_HTYPE (f_type (flds ! i)) = PB_HTYPE_REQUIRED \<and> required_before flds i = j"
proof -
  have len: "i < length flds" using i(1) field_count_less [OF t] by simp
  have "required_before flds i \<le> i"
    unfolding required_before_def using length_filter_le [of _ "take i flds"] by (rule order_trans) simp
  then have r: "required_before flds i mod 2 ^ 32 = required_before flds i" using len small by simp
  from k obtain l1 iter fc where
    n: "note_fixed_count flds l (flds ! i) = Some (Some l1)" and
    d: "decode_field env rec s str wt (d_iter l1) (d_fcs l1) = Some (True, s', str', iter, fc)" and
    l': "l' = (mark_seen l1 (flds ! i))\<lparr>d_iter := iter, d_fcs := fc\<rparr>"
    by (auto simp: known_field_def stands_sel(3) [OF i(2) len] split: Option.bind_splits option.splits)
  note n' = note_fixed_seen [OF n i(2)]
  from decode_field_at [OF t on_entryI [OF i(1) conjunct2 [OF n']] d] l n' show "on_table flds p l'"
    by (simp add: l' on_table_def)
  assume "j < 64"
  with n' l r show "seen_bit (d_seen l') j \<longleftrightarrow> seen_bit (d_seen l) j \<or>
       PB_HTYPE (f_type (flds ! i)) = PB_HTYPE_REQUIRED \<and> required_before flds i = j"
    using seen_bit_mark [of l1 j "flds ! i"] stands_sel(2) [OF conjunct2 [OF n']] by (simp add: l')
qed
section \<open>The tags of a message\<close>

text \<open>
  A run of the loop that ends well, with the tags it read: from a state to the state in which
  the stream is empty or the next tag meets its end.
\<close>

inductive decode_reads :: "pb_env \<Rightarrow> pb_rec \<Rightarrow> pb_field list \<Rightarrow> cstate \<Rightarrow> pb_istream \<Rightarrow> decode_locals \<Rightarrow>
    32 word list \<Rightarrow> cstate \<times> pb_istream \<times> decode_locals \<Rightarrow> bool"
  for env :: pb_env and rec :: pb_rec and flds :: "pb_field list" where
  reads_end: "i_bytes_left str = 0 \<Longrightarrow> decode_reads env rec flds s str l [] (s, str, l)"
| reads_break: "i_bytes_left str \<noteq> 0 \<Longrightarrow> decode_round env rec flds s str l = Some (Break s' str' l') \<Longrightarrow>
    decode_reads env rec flds s str l [] (s', str', l')"
| reads_tag: "i_bytes_left str \<noteq> 0 \<Longrightarrow> pb_decode_tag env s str = Some (True, wt, tag, eof, s1, str1) \<Longrightarrow>
    decode_round env rec flds s str l = Some (Next s2 str2 l2) \<Longrightarrow>
    decode_reads env rec flds s2 str2 l2 tags final \<Longrightarrow> decode_reads env rec flds s str l (tag # tags) final"

lemma reads_loop:
  "decode_reads env rec flds s str l tags final \<Longrightarrow>
   decode_loop env rec flds s str l = Some (True, fst final, fst (snd final), snd (snd final))"
proof (induction rule: decode_reads.induct)
  case (reads_end str s l)
  then show ?case by (simp add: decode_loop.simps)
next
  case (reads_break str s l s' str' l')
  then show ?case by (simp add: decode_loop.simps [of env rec flds s str l])
next
  case (reads_tag str s wt tag eof s1 str1 l s2 str2 l2 tags final)
  then show ?case by (simp add: decode_loop.simps [of env rec flds s str l])
qed

lemma round_next:
  assumes "decode_round env rec flds s str l = Some (Next s2 str2 l2)"
  obtains wt tag eof s1 str1 found iter where "pb_decode_tag env s str = Some (True, wt, tag, eof, s1, str1)"
    "pb_field_iter_find (d_iter l) tag = Some (found, iter)"
    "(if \<not> found then unknown_field env rec s1 str1 (l\<lparr>d_iter := iter\<rparr>) tag wt
      else known_field env rec flds s1 str1 (l\<lparr>d_iter := iter\<rparr>) wt) = Some (True, s2, str2, l2)"
  using assms
  by (auto simp: decode_round_def Let_def split: Option.bind_splits if_splits prod.splits)

lemmas decode_loop_induct = decode_loop.raw_induct [rotated, consumes 1, case_names step]

lemma loop_reads_ex:
  "decode_loop env rec flds s str l = Some r \<Longrightarrow> fst r \<longrightarrow> (\<exists>tags. decode_reads env rec flds s str l tags (snd r))"
proof (induction env rec flds s str l r rule: decode_loop_induct)
  case (step loop env rec flds s str l r)
  show ?case
  proof (cases "i_bytes_left str = 0")
    case True
    with step(2) show ?thesis by (auto intro!: exI [of _ "[]"] reads_end)
  next
    case False
    with step(2) obtain rr where rr: "decode_round env rec flds s str l = Some rr"
      "(case rr of Next s str l \<Rightarrow> loop env rec flds s str l | Break s str l \<Rightarrow> Some (True, s, str, l)
        | Fail s str \<Rightarrow> Some (False, s, str, l)) = Some r" by (auto split: Option.bind_splits)
    show ?thesis
    proof (cases rr)
      case (Next s2 str2 l2)
      with rr have n: "decode_round env rec flds s str l = Some (Next s2 str2 l2)" "loop env rec flds s2 str2 l2 = Some r"
        by simp_all
      obtain wt tag eof s1 str1 where "pb_decode_tag env s str = Some (True, wt, tag, eof, s1, str1)"
        by (rule round_next [OF n(1)]) blast
      with step(1) [OF n(2)] reads_tag [OF False this n(1)] show ?thesis by blast
    next
      case (Break s' str' l')
      with rr False show ?thesis by (auto intro!: exI [of _ "[]"] reads_break)
    next
      case (Fail s' str')
      with rr show ?thesis by auto
    qed
  qed
qed

lemma loop_reads:
  "decode_loop env rec flds s str l = Some (True, s', str', l') \<Longrightarrow>
   \<exists>tags. decode_reads env rec flds s str l tags (s', str', l')"
  using loop_reads_ex by fastforce

section \<open>The numbers of the required fields\<close>

abbreviation required_at :: "pb_field list \<Rightarrow> nat \<Rightarrow> bool" where
  "required_at flds i \<equiv> PB_HTYPE (f_type (flds ! i)) = PB_HTYPE_REQUIRED"

lemma required_before_mono: "i \<le> j \<Longrightarrow> required_before flds i \<le> required_before flds j"
  unfolding required_before_def
  by (metis filter_append le_add_diff_inverse length_append le_add1 take_add)

lemma required_before_less:
  "required_at flds i \<Longrightarrow> i < j \<Longrightarrow> i < length flds \<Longrightarrow> required_before flds i < required_before flds j"
  using required_before_Suc [of i flds] required_before_mono [of "Suc i" j flds] by simp

lemma required_before_inj:
  "required_at flds i \<Longrightarrow> required_at flds j \<Longrightarrow> i < length flds \<Longrightarrow> j < length flds \<Longrightarrow>
   required_before flds i = required_before flds j \<longleftrightarrow> i = j"
  using required_before_less [of flds i j] required_before_less [of flds j i] by (cases i j rule: linorder_cases) auto

lemma required_before_onto:
  "k < required_before flds n \<Longrightarrow> n \<le> length flds \<Longrightarrow> \<exists>i<n. required_at flds i \<and> required_before flds i = k"
proof (induction n)
  case 0
  then show ?case by (simp add: required_before_def)
next
  case (Suc n)
  then show ?case
    using required_before_Suc [of n flds] less_Suc_eq by (cases "k < required_before flds n") (auto split: if_splits)
qed

section \<open>The bits and the tags\<close>

text \<open>A required field is no extension, and its tag is its own.\<close>

definition required_distinct :: "pb_field list \<Rightarrow> bool" where
  "required_distinct flds \<longleftrightarrow> (\<forall>i<field_count flds. required_at flds i \<longrightarrow>
     PB_LTYPE (f_type (flds ! i)) \<noteq> PB_LTYPE_EXTENSION \<and>
     (\<forall>j<field_count flds. f_tag (flds ! j) = f_tag (flds ! i) \<longrightarrow> j = i))"

definition seen_tags :: "pb_field list \<Rightarrow> 32 word set \<Rightarrow> decode_locals \<Rightarrow> bool" where
  "seen_tags flds tags l \<longleftrightarrow>
     (\<forall>k<64. seen_bit (d_seen l) k \<longleftrightarrow>
        (\<exists>i<field_count flds. required_at flds i \<and> required_before flds i = k \<and> f_tag (flds ! i) \<in> tags))"

lemma round_seen:
  assumes t: "terminated flds" and small: "length flds < 2 ^ 32" and d: "required_distinct flds"
    and l: "on_table flds p l" "seen_tags flds tags l"
    and tag: "pb_decode_tag env s str = Some (True, wt, tag, eof, s1, str1)"
    and r: "decode_round env rec flds s str l = Some (Next s2 str2 l2)"
  shows "on_table flds p l2 \<and> seen_tags flds (insert tag tags) l2"
proof -
  obtain found iter where f: "pb_field_iter_find (d_iter l) tag = Some (found, iter)"
    and b: "(if \<not> found then unknown_field env rec s1 str1 (l\<lparr>d_iter := iter\<rparr>) tag wt
      else known_field env rec flds s1 str1 (l\<lparr>d_iter := iter\<rparr>) wt) = Some (True, s2, str2, l2)"
    by (rule round_next [OF r]) (use tag in auto)
  from l(1) obtain i where i: "i < field_count flds" "stands_at flds p i (d_iter l)" and len: "length (d_seen l) = 2"
    by (auto simp: on_table_def on_entry_def)
  obtain j where j: "j < field_count flds" "stands_at flds p j iter"
    "found \<longleftrightarrow> (\<exists>k<field_count flds. field_matches flds tag k)" "found \<Longrightarrow> field_matches flds tag j"
    by (rule find_at [OF t i f]) blast
  let ?l = "l\<lparr>d_iter := iter\<rparr>"
  have on: "on_table flds p ?l" using len on_entryI [OF j(1,2)] by (simp add: on_table_def)
  show ?thesis
  proof (cases found)
    case False
    with b unknown_seen [OF t on] have u: "on_table flds p l2" "d_seen l2 = d_seen l" by fastforce+
    have "f_tag (flds ! k) \<noteq> tag" if "k < field_count flds" "required_at flds k" for k
      using False j(3) d that by (auto simp: field_matches_def required_distinct_def)
    with l(2) u show ?thesis by (auto simp: seen_tags_def)
  next
    case True
    with b have k: "known_field env rec flds s1 str1 ?l wt = Some (True, s2, str2, l2)" by simp
    have it: "stands_at flds p j (d_iter ?l)" "length (d_seen ?l) = 2" using j(2) len by simp_all
    note known = known_seen [OF t small j(1) it k]
    have own: "required_at flds j \<and> required_before flds j = n \<longleftrightarrow>
        (\<exists>i<field_count flds. required_at flds i \<and> required_before flds i = n \<and> f_tag (flds ! i) = tag)" for n
      using j(1) j(4) [OF True] d by (auto simp: field_matches_def required_distinct_def)
    have "seen_tags flds (insert tag tags) l2"
      unfolding seen_tags_def
    proof (intro allI impI)
      fix n :: nat assume n: "n < 64"
      from known(2) [OF n] l(2) n show "seen_bit (d_seen l2) n \<longleftrightarrow>
          (\<exists>i<field_count flds. required_at flds i \<and> required_before flds i = n \<and> f_tag (flds ! i) \<in> insert tag tags)"
        unfolding own by (auto simp: seen_tags_def)
    qed
    with known(1) show ?thesis by simp
  qed
qed

lemma reads_seen:
  assumes "decode_reads env rec flds s str l tags final"
    and t: "terminated flds" and small: "length flds < 2 ^ 32" and d: "required_distinct flds"
    and "on_table flds p l" "seen_tags flds T l"
  shows "on_table flds p (snd (snd final)) \<and> seen_tags flds (T \<union> set tags) (snd (snd final))"
  using assms(1,5,6)
proof (induction arbitrary: T rule: decode_reads.induct)
  case (reads_break str s l s' str' l')
  then have "l' = l" by (auto simp: decode_round_def Let_def split: Option.bind_splits if_splits prod.splits)
  with reads_break show ?case by simp
next
  case (reads_tag str s wt tag eof s1 str1 l s2 str2 l2 tags final)
  from round_seen [OF t small d reads_tag.prems reads_tag.hyps(2,3)]
  have "on_table flds p l2" "seen_tags flds (insert tag T) l2" by simp_all
  from reads_tag.IH [OF this] show ?case by simp
qed simp

section \<open>The last check\<close>

lemma final_check:
  assumes t: "terminated flds" and small: "length flds < 2 ^ 32"
    and l: "on_table flds p l" "seen_tags flds tags l"
  shows "\<exists>n. req_field_count (d_iter l) = Some n \<and> (required_seen n (d_seen l) \<longleftrightarrow>
     (\<forall>i<field_count flds. required_at flds i \<and> required_before flds i < PB_MAX_REQUIRED_FIELDS \<longrightarrow>
        f_tag (flds ! i) \<in> tags))"
proof -
  let ?c = "field_count flds"
  define n where "n = min 64 (required_before flds ?c)"
  have c: "?c \<le> length flds" using field_count_less [OF t] by simp
  from l(1) obtain i where i: "i < ?c" "stands_at flds p i (d_iter l)" by (auto simp: on_table_def on_entry_def)
  have count: "req_field_count (d_iter l) = Some n"
    using i(2) req_field_count_at [OF t disjI1 [OF i(1)] small] req_count_local [OF _ before_count_tag [OF i(1)]]
    by (auto simp: stands_at_def n_def)
  have below: "required_before flds i < required_before flds ?c" if "i < ?c" "required_at flds i" for i
    using that c by (intro required_before_less) simp_all
  have s: "seen_bit (d_seen l) k \<longleftrightarrow> (\<exists>i<?c. required_at flds i \<and> required_before flds i = k \<and> f_tag (flds ! i) \<in> tags)"
    if "k < 64" for k using l(2) that by (simp add: seen_tags_def)
  have none: "\<forall>k<64. n \<le> k \<longrightarrow> \<not> seen_bit (d_seen l) k"
    using s below by (fastforce simp: n_def)
  have "required_seen n (d_seen l) \<longleftrightarrow> (\<forall>k<n. seen_bit (d_seen l) k)"
    using l(1) none by (intro required_seen_iff) (simp_all add: on_table_def n_def)
  also have "\<dots> \<longleftrightarrow> (\<forall>i<?c. required_at flds i \<and> required_before flds i < 64 \<longrightarrow> f_tag (flds ! i) \<in> tags)" (is "?L \<longleftrightarrow> ?R")
  proof
    assume L: ?L
    show ?R
    proof (intro allI impI)
      fix i assume i: "i < ?c" "required_at flds i \<and> required_before flds i < 64"
      with L below [OF i(1)] have "seen_bit (d_seen l) (required_before flds i)" by (simp add: n_def)
      with s i obtain j where "j < ?c" "required_at flds j" "required_before flds j = required_before flds i"
        "f_tag (flds ! j) \<in> tags" by blast
      moreover from this i have "j = i" using required_before_inj [of flds j i] c by simp
      ultimately show "f_tag (flds ! i) \<in> tags" by simp
    qed
  next
    assume R: ?R
    show ?L
    proof (intro allI impI)
      fix k assume k: "k < n"
      then obtain i where "i < ?c" "required_at flds i" "required_before flds i = k"
        using required_before_onto [of k flds ?c] c by (auto simp: n_def)
      with R k s show "seen_bit (d_seen l) k" by (auto simp: n_def)
    qed
  qed
  finally show ?thesis using count by simp
qed

text \<open>The whole function: after the tags of the message, success exactly if every required field is among them.\<close>

lemma noinit_required:
  assumes t: "terminated flds" and small: "length flds < 2 ^ 32" and d: "required_distinct flds"
    and "field_count flds \<noteq> 0"
    and r: "decode_reads env (rec_at (Suc d) env (pb_decode_noinit d env)) flds s str
      (initial_locals (iter_at flds p 0)) tags (s', str', l)"
    and f: "fixed_count_short flds (d_fcf l) (d_fcs l) = Some False"
  shows "pb_decode_noinit (Suc d) env s str flds p =
    (if \<forall>i<field_count flds. required_at flds i \<and> required_before flds i < PB_MAX_REQUIRED_FIELDS \<longrightarrow>
          f_tag (flds ! i) \<in> set tags
     then Some (True, s', str') else i_fail s' str' ''missing required field'')"
proof -
  have "on_entry flds p (iter_at flds p 0)"
    by (rule on_entryI [of 0]) (use assms(4) in \<open>simp_all add: stands_at_def\<close>)
  then have "on_table flds p (initial_locals (iter_at flds p 0))" by (simp add: on_table_def initial_locals_def)
  moreover have "seen_tags flds {} (initial_locals (iter_at flds p 0))"
    using seen_bit_initial by (simp add: seen_tags_def initial_locals_def)
  ultimately have "on_table flds p l" "seen_tags flds (set tags) l" using reads_seen [OF r t small d, of p "{}"] by simp_all
  from final_check [OF t small this] obtain n where
    n: "req_field_count (d_iter l) = Some n" "required_seen n (d_seen l) \<longleftrightarrow>
     (\<forall>i<field_count flds. required_at flds i \<and> required_before flds i < PB_MAX_REQUIRED_FIELDS \<longrightarrow>
        f_tag (flds ! i) \<in> set tags)" by blast
  have "decode_loop env (rec_at (Suc d) env (pb_decode_noinit d env)) flds s str (initial_locals (iter_at flds p 0)) =
      Some (True, s', str', l)" using reads_loop [OF r] by simp
  then show ?thesis
    unfolding n(2) [symmetric] using n(1) f
    by (simp add: decode_noinit_body_def iter_begin_at [OF t])
qed

end
