(* ===== verification/LdbCoding.thy ===== *)
theory LdbCoding
  imports Leb128
begin

text \<open>
  \<open>util/coding.h\<close> and \<open>util/coding.cc\<close> of LevelDB. A \<open>Slice\<close> is the list of the bytes it
  refers to and a \<open>std::string\<close> the list of its characters; a pointer with its limit is the
  list of the bytes from the one to the other. The \<open>Put\<close> functions return the string they
  appended to. The pointer \<open>Get\<close> functions return the value and the bytes behind it, or
  \<open>None\<close> for a null pointer; those on a \<open>Slice\<close> also return the slice after a failure.
  \<open>prefix_codec\<close> is what a client of an encoder and its decoder relies on.
\<close>

section \<open>Fixed-width integers\<close>

text \<open>The targets of the Pod are little-endian; the other branch is kept as the source has it.\<close>

definition kLittleEndian :: bool where "kLittleEndian = True"

definition EncodeFixed32 :: "32 word \<Rightarrow> byte list" where
  "EncodeFixed32 value =
     (if kLittleEndian then nat_le 4 (unat value)
      else [ucast (value AND 0xFF), ucast (drop_bit 8 value AND 0xFF),
            ucast (drop_bit 16 value AND 0xFF), ucast (drop_bit 24 value AND 0xFF)])"

definition EncodeFixed64 :: "64 word \<Rightarrow> byte list" where
  "EncodeFixed64 value =
     (if kLittleEndian then nat_le 8 (unat value)
      else [ucast (value AND 0xFF), ucast (drop_bit 8 value AND 0xFF),
            ucast (drop_bit 16 value AND 0xFF), ucast (drop_bit 24 value AND 0xFF),
            ucast (drop_bit 32 value AND 0xFF), ucast (drop_bit 40 value AND 0xFF),
            ucast (drop_bit 48 value AND 0xFF), ucast (drop_bit 56 value AND 0xFF)])"

definition PutFixed32 :: "byte list \<Rightarrow> 32 word \<Rightarrow> byte list" where
  "PutFixed32 dst value = dst @ EncodeFixed32 value"

definition PutFixed64 :: "byte list \<Rightarrow> 64 word \<Rightarrow> byte list" where
  "PutFixed64 dst value = dst @ EncodeFixed64 value"

text \<open>The argument is what can be read from \<open>ptr\<close> on; \<open>None\<close> is a read past it.\<close>

definition DecodeFixed32 :: "byte list \<Rightarrow> 32 word option" where
  "DecodeFixed32 ptr =
     (if length ptr < 4 then None
      else if kLittleEndian then Some (of_nat (le_nat (take 4 ptr)))
      else Some (ucast (ptr ! 0) OR push_bit 8 (ucast (ptr ! 1)) OR
             push_bit 16 (ucast (ptr ! 2)) OR push_bit 24 (ucast (ptr ! 3))))"

definition DecodeFixed64 :: "byte list \<Rightarrow> 64 word option" where
  "DecodeFixed64 ptr =
     (if length ptr < 8 then None
      else if kLittleEndian then Some (of_nat (le_nat (take 8 ptr)))
      else do { lo \<leftarrow> DecodeFixed32 ptr;
                hi \<leftarrow> DecodeFixed32 (drop 4 ptr);
                Some (push_bit 32 (ucast hi) OR ucast lo) })"

section \<open>Varints\<close>

definition EncodeVarint32 :: "32 word \<Rightarrow> byte list" where
  "EncodeVarint32 v =
     (if v < push_bit 7 1 then [ucast v]
      else if v < push_bit 14 1 then [ucast (v OR 128), ucast (drop_bit 7 v)]
      else if v < push_bit 21 1 then
        [ucast (v OR 128), ucast (drop_bit 7 v OR 128), ucast (drop_bit 14 v)]
      else if v < push_bit 28 1 then
        [ucast (v OR 128), ucast (drop_bit 7 v OR 128), ucast (drop_bit 14 v OR 128),
         ucast (drop_bit 21 v)]
      else
        [ucast (v OR 128), ucast (drop_bit 7 v OR 128), ucast (drop_bit 14 v OR 128),
         ucast (drop_bit 21 v OR 128), ucast (drop_bit 28 v)])"

definition PutVarint32 :: "byte list \<Rightarrow> 32 word \<Rightarrow> byte list" where
  "PutVarint32 dst v = dst @ EncodeVarint32 v"

lemma drop7_less: "(128 :: 64 word) \<le> v \<Longrightarrow> unat (drop_bit 7 v) < unat v"
  by (simp add: word_le_nat_alt unat_drop7)

function EncodeVarint64 :: "64 word \<Rightarrow> byte list" where
  "EncodeVarint64 v =
     (if v \<ge> 128 then ucast ((v AND (128 - 1)) OR 128) # EncodeVarint64 (drop_bit 7 v)
      else [ucast v])"
  by pat_completeness auto
termination by (relation "measure unat") (simp_all add: drop7_less)

declare EncodeVarint64.simps [simp del]

definition PutVarint64 :: "byte list \<Rightarrow> 64 word \<Rightarrow> byte list" where
  "PutVarint64 dst v = dst @ EncodeVarint64 v"

text \<open>\<open>value.size()\<close> is cut to 32 bits.\<close>

definition PutLengthPrefixedSlice :: "byte list \<Rightarrow> byte list \<Rightarrow> byte list" where
  "PutLengthPrefixedSlice dst value = PutVarint32 dst (of_nat (length value)) @ value"

function varint_length_loop :: "int \<Rightarrow> 64 word \<Rightarrow> int" where
  "varint_length_loop len v = (if v \<ge> 128 then varint_length_loop (len + 1) (drop_bit 7 v) else len)"
  by pat_completeness auto
termination by (relation "measure (\<lambda>(len, v). unat v)") (simp_all add: drop7_less)

declare varint_length_loop.simps [simp del]

definition VarintLength :: "64 word \<Rightarrow> int" where
  "VarintLength v = varint_length_loop 1 v"

fun get_varint32_loop :: "nat \<Rightarrow> 32 word \<Rightarrow> byte list \<Rightarrow> (32 word \<times> byte list) option" where
  "get_varint32_loop shift result [] = None"
| "get_varint32_loop shift result (b # p) =
     (if shift \<le> 28 then
        (let byte = ucast b in
         if byte AND 128 \<noteq> 0
         then get_varint32_loop (shift + 7) (result OR push_bit shift (byte AND 127)) p
         else Some (result OR push_bit shift byte, p))
      else None)"

definition GetVarint32PtrFallback :: "byte list \<Rightarrow> (32 word \<times> byte list) option" where
  "GetVarint32PtrFallback p = get_varint32_loop 0 0 p"

definition GetVarint32Ptr :: "byte list \<Rightarrow> (32 word \<times> byte list) option" where
  "GetVarint32Ptr p =
     (case p of
        [] \<Rightarrow> GetVarint32PtrFallback p
      | b # q \<Rightarrow> (let result = ucast b :: 32 word in
                  if result AND 128 = 0 then Some (result, q) else GetVarint32PtrFallback p))"

definition GetVarint32 :: "byte list \<Rightarrow> 32 word option \<times> byte list" where
  "GetVarint32 input =
     (case GetVarint32Ptr input of
        None \<Rightarrow> (None, input)
      | Some (value, q) \<Rightarrow> (Some value, q))"

fun get_varint64_loop :: "nat \<Rightarrow> 64 word \<Rightarrow> byte list \<Rightarrow> (64 word \<times> byte list) option" where
  "get_varint64_loop shift result [] = None"
| "get_varint64_loop shift result (b # p) =
     (if shift \<le> 63 then
        (let byte = ucast b in
         if byte AND 128 \<noteq> 0
         then get_varint64_loop (shift + 7) (result OR push_bit shift (byte AND 127)) p
         else Some (result OR push_bit shift byte, p))
      else None)"

definition GetVarint64Ptr :: "byte list \<Rightarrow> (64 word \<times> byte list) option" where
  "GetVarint64Ptr p = get_varint64_loop 0 0 p"

definition GetVarint64 :: "byte list \<Rightarrow> 64 word option \<times> byte list" where
  "GetVarint64 input =
     (case GetVarint64Ptr input of
        None \<Rightarrow> (None, input)
      | Some (value, q) \<Rightarrow> (Some value, q))"

text \<open>The version on pointers, used where a slice is known to be whole.\<close>

definition GetLengthPrefixedSlicePtr :: "byte list \<Rightarrow> (byte list \<times> byte list) option" where
  "GetLengthPrefixedSlicePtr p =
     (case GetVarint32Ptr p of
        None \<Rightarrow> None
      | Some (len, p) \<Rightarrow>
          if unat len > length p then None else Some (take (unat len) p, drop (unat len) p))"

definition GetLengthPrefixedSlice :: "byte list \<Rightarrow> byte list option \<times> byte list" where
  "GetLengthPrefixedSlice input =
     (case GetVarint32 input of
        (None, input) \<Rightarrow> (None, input)
      | (Some len, input) \<Rightarrow>
          if length input \<ge> unat len
          then (Some (take (unat len) input), drop (unat len) input)
          else (None, input))"

section \<open>Fixed-width integers are little-endian bytes\<close>

lemma unat_32: "unat (v :: 32 word) < 2 ^ 32" and unat_64: "unat (w :: 64 word) < 2 ^ 64"
  using unsigned_less [of v] unsigned_less [of w] by simp_all

lemma sint_of_nat_32: "n < 2 ^ 31 \<Longrightarrow> sint (of_nat n :: 32 word) = int n"
  using sint_sbintrunc' [where ?'a = 32, of "int n"]
  by (simp add: signed_take_bit_int_eq_self)

lemma EncodeFixed32_bytes: "EncodeFixed32 v = nat_le 4 (unat v)"
  by (simp add: EncodeFixed32_def kLittleEndian_def)

lemma EncodeFixed64_bytes: "EncodeFixed64 v = nat_le 8 (unat v)"
  by (simp add: EncodeFixed64_def kLittleEndian_def)

lemma length_EncodeFixed [simp]: "length (EncodeFixed32 v) = 4" "length (EncodeFixed64 w) = 8"
  by (simp_all add: EncodeFixed32_bytes EncodeFixed64_bytes)

lemma DecodeFixed32_value: "4 \<le> length p \<Longrightarrow> DecodeFixed32 p = Some (of_nat (le_nat (take 4 p)))"
  by (simp add: DecodeFixed32_def kLittleEndian_def)

lemma DecodeFixed64_value: "8 \<le> length p \<Longrightarrow> DecodeFixed64 p = Some (of_nat (le_nat (take 8 p)))"
  by (simp add: DecodeFixed64_def kLittleEndian_def)

lemma le_nat_Fixed [simp]:
  "le_nat (EncodeFixed32 v) = unat v" "le_nat (EncodeFixed64 w) = unat w"
  using unat_32 [of v] unat_64 [of w]
  by (simp_all add: EncodeFixed32_bytes EncodeFixed64_bytes le_nat_nat_le)

lemma DecodeFixed32_Encode [simp]: "DecodeFixed32 (EncodeFixed32 v @ rest) = Some v"
  by (simp add: DecodeFixed32_value)

lemma DecodeFixed64_Encode [simp]: "DecodeFixed64 (EncodeFixed64 v @ rest) = Some v"
  by (simp add: DecodeFixed64_value)

lemmas DecodeFixed_Encode_end [simp] =
  DecodeFixed32_Encode [of _ "[]", simplified] DecodeFixed64_Encode [of _ "[]", simplified]

text \<open>The branches for big-endian machines give the same bytes and the same values.\<close>

lemma EncodeFixed32_portable:
  "EncodeFixed32 v = [ucast (v AND 0xFF), ucast (drop_bit 8 v AND 0xFF),
     ucast (drop_bit 16 v AND 0xFF), ucast (drop_bit 24 v AND 0xFF)]"
  using fixed32_bytes [of "unat v"] by (simp add: EncodeFixed32_bytes)

lemma EncodeFixed64_portable:
  "EncodeFixed64 v = [ucast (v AND 0xFF), ucast (drop_bit 8 v AND 0xFF),
     ucast (drop_bit 16 v AND 0xFF), ucast (drop_bit 24 v AND 0xFF),
     ucast (drop_bit 32 v AND 0xFF), ucast (drop_bit 40 v AND 0xFF),
     ucast (drop_bit 48 v AND 0xFF), ucast (drop_bit 56 v AND 0xFF)]"
  using fixed64_bytes [of "unat v"] by (simp add: EncodeFixed64_bytes)

lemma take_4: "4 \<le> length p \<Longrightarrow> take 4 p = [p ! 0, p ! 1, p ! 2, p ! 3]"
  by (cases p; cases "tl p"; cases "tl (tl p)"; cases "tl (tl (tl p))")
    (auto simp: numeral_eq_Suc)

lemma DecodeFixed32_portable:
  assumes "4 \<le> length p"
  shows "DecodeFixed32 p = Some (ucast (p ! 0) OR push_bit 8 (ucast (p ! 1)) OR
     push_bit 16 (ucast (p ! 2)) OR push_bit 24 (ucast (p ! 3)))"
proof -
  have "(of_nat (le_nat [a, b, c, d]) :: 32 word) =
      ucast a OR push_bit 8 (ucast b) OR push_bit 16 (ucast c) OR push_bit 24 (ucast d)" for a b c d
    by (simp only: of_nat_le_Cons) (simp add: push_bit_or push_bit_push_bit or.assoc)
  with assms show ?thesis by (simp only: DecodeFixed32_value take_4)
qed

section \<open>Varints are base-128\<close>

lemma EncodeVarint64_leb128: "EncodeVarint64 v = varint_bytes v"
proof (induction v rule: EncodeVarint64.induct)
  case (1 v)
  have "v \<ge> 128 \<longleftrightarrow> \<not> v \<le> 0x7F" by (simp add: word_le_nat_alt) linarith
  with 1 show ?case
    by (simp add: EncodeVarint64.simps [of v] varint_bytes.simps [of v] ucast_or_0x80)
qed

lemma bit_128 [simp]: "bit (128 :: 'a::len word) i \<longleftrightarrow> i = 7 \<and> 7 < LENGTH('a)"
proof -
  have "(128 :: 'a word) = push_bit 7 1" by simp
  then show ?thesis by (simp only: bit_push_bit_iff bit_1_iff) (auto dest: bit_imp_possible_bit)
qed

lemma ucast_more_byte:
  fixes v :: "32 word"
  shows "(ucast (v OR 128) :: byte) = ucast ((ucast v :: 64 word) AND 0x7F) OR 0x80"
  by (rule bit_eqI) (auto simp: byte_bits)

lemma unat_ucast_32_64 [simp]: "unat (ucast (v :: 32 word) :: 64 word) = unat v"
proof -
  have "unat v < 2 ^ 64" using unat_32 [of v] by simp
  then show ?thesis by (simp add: unsigned_ucast_eq take_bit_nat_eq_self)
qed

lemma ucast_byte_32_64: "(ucast (ucast (v :: 32 word) :: 64 word) :: byte) = ucast v"
  by (rule bit_eqI) (auto simp: bit_simps)

lemma drop_7_ucast: "drop_bit 7 (ucast (v :: 32 word) :: 64 word) = ucast (drop_bit 7 v)"
  by (rule bit_eqI) (auto simp: bit_simps dest: bit_imp_le_length)

lemma varint_bytes_u32_more:
  "128 \<le> (v :: 32 word) \<Longrightarrow> varint_bytes (ucast v) = ucast (v OR 128) # varint_bytes (ucast (drop_bit 7 v))"
  by (subst varint_bytes_large) (simp_all add: ucast_more_byte drop_7_ucast word_le_nat_alt)

lemma varint_bytes_u32_last: "(v :: 32 word) < 128 \<Longrightarrow> varint_bytes (ucast v) = [ucast v]"
  by (subst varint_bytes_small)
    (simp_all add: word_le_nat_alt word_less_nat_alt ucast_byte_32_64)

lemma EncodeVarint32_leb128: "EncodeVarint32 v = varint_bytes (ucast v)"
proof -
  have step: "unat (drop_bit n v) = unat v div 2 ^ n" for n
    by (simp only: unat_drop_bit_eq drop_bit_nat_def)
  have "unat v < 2 ^ 32" using unat_32 [of v] by simp
  then have last: "drop_bit 28 v < 128" by (simp add: word_less_nat_alt step)
  show ?thesis
    using last
    by (auto simp: EncodeVarint32_def varint_bytes_u32_more varint_bytes_u32_last word_less_nat_alt
        word_le_nat_alt step not_less)
qed

lemma varint_length_loop: "varint_length_loop len v = len - 1 + int (length (varint_bytes v))"
proof (induction len v rule: varint_length_loop.induct)
  case (1 len v)
  have "v \<ge> 128 \<longleftrightarrow> \<not> v \<le> 0x7F" by (simp add: word_le_nat_alt) linarith
  with 1 show ?case
    by (simp add: varint_length_loop.simps [of len v] varint_bytes.simps [of v])
qed

lemma VarintLength_leb128: "VarintLength v = int (length (varint_bytes v))"
  by (simp add: VarintLength_def varint_length_loop)

section \<open>The decoders\<close>

lemma more_bit: "7 < LENGTH('w) \<Longrightarrow> (ucast (b :: byte) AND 128 :: 'w::len word) = 0 \<longleftrightarrow> b AND 0x80 = 0"
proof -
  assume w: "7 < LENGTH('w)"
  have "(ucast b AND 128 :: 'w word) = 0 \<longleftrightarrow> \<not> bit b 7"
  proof
    assume "(ucast b AND 128 :: 'w word) = 0"
    then have "\<not> bit (ucast b AND 128 :: 'w word) 7" by simp
    then show "\<not> bit b 7" using w by (simp add: bit_and_iff bit_unsigned_iff)
  next
    assume "\<not> bit b 7"
    then show "(ucast b AND 128 :: 'w word) = 0"
      by (intro bit_eqI) (auto simp: byte_bits)
  qed
  then show ?thesis using byte_and_0x80 [of b] by auto
qed

lemmas more_bit_iff = more_bit [where 'w = 32, simplified] more_bit [where 'w = 64, simplified]

lemma low_bits_ucast:
  "(ucast (b :: byte) AND 127 :: 32 word) = ucast (b AND 0x7F)"
  "(ucast b AND 127 :: 64 word) = ucast (b AND 0x7F)"
proof -
  have "(127 :: 32 word) = mask 7" "(127 :: 64 word) = mask 7" "(0x7F :: byte) = mask 7"
    by (simp_all add: mask_eq_exp_minus_1)
  then have "bit (127 :: 32 word) i \<longleftrightarrow> i < 7" "bit (127 :: 64 word) i \<longleftrightarrow> i < 7"
      "bit (0x7F :: byte) i \<longleftrightarrow> i < 7" for i
    by (simp_all only: bit_mask_iff) auto
  note bits = this bit_and_iff bit_unsigned_iff
  show "(ucast b AND 127 :: 32 word) = ucast (b AND 0x7F)" "(ucast b AND 127 :: 64 word) = ucast (b AND 0x7F)"
    by (rule bit_eqI, simp only: bits, blast)+
qed

lemma whole_byte: "b AND 0x80 = 0 \<Longrightarrow> b AND 0x7F = (b :: byte)"
proof (rule bit_eqI)
  fix i assume "b AND 0x80 = 0" "possible_bit TYPE(byte) i"
  then show "bit (b AND 0x7F) i = bit b i"
    using byte_and_0x80 [of b] by (cases "i = 7") (auto simp: byte_bits)
qed

text \<open>A value that still fits above bit \<open>shift\<close> leaves room for the next seven bits.\<close>

lemma next_shift:
  assumes "unat w * 2 ^ shift < 2 ^ n" and "\<not> (w :: 64 word) \<le> 0x7F"
  shows "shift + 7 < n" and "unat (drop_bit 7 w) * 2 ^ (shift + 7) < 2 ^ n"
proof -
  from assms(2) have "128 \<le> unat w" by (simp add: word_le_nat_alt)
  then have "128 * 2 ^ shift \<le> unat w * 2 ^ shift" by (rule mult_le_mono1)
  with assms(1) have "128 * 2 ^ shift < (2::nat) ^ n" by (rule le_less_trans [rotated])
  then have "(2::nat) ^ (shift + 7) < 2 ^ n" by (simp add: power_add mult.commute)
  then show "shift + 7 < n" by simp
  have "unat w div 128 * 128 * 2 ^ shift \<le> unat w * 2 ^ shift" by (intro mult_le_mono1) simp
  moreover have "unat (drop_bit 7 w) * 2 ^ (shift + 7) = unat w div 128 * 128 * 2 ^ shift"
    by (simp add: unat_drop7 power_add)
  ultimately show "unat (drop_bit 7 w) * 2 ^ (shift + 7) < 2 ^ n" using assms(1) by linarith
qed

lemma get_varint64_loop_leb128:
  "unat w * 2 ^ shift < 2 ^ 64 \<Longrightarrow> shift \<le> 63 \<Longrightarrow>
   get_varint64_loop shift r (varint_bytes w @ rest) = Some (r OR push_bit shift w, rest)"
proof (induction w arbitrary: shift r rule: varint_bytes.induct)
  case (1 w)
  show ?case
  proof (cases "w \<le> 0x7F")
    case True
    obtain b where b: "varint_bytes w = [b]" "b AND 0x80 = 0" "ucast (b AND 0x7F) = w"
      by (rule varint_bytes_last [OF True])
    from b(2) have m: "(ucast b AND 128 :: 64 word) = 0" by (simp only: more_bit_iff)
    from b(2,3) have "ucast b = w" by (simp only: whole_byte)
    note this m
    then show ?thesis using 1(3) b(1) by (simp add: Let_def)
  next
    case False
    obtain b where b: "varint_bytes w = b # varint_bytes (drop_bit 7 w)" "b AND 0x80 \<noteq> 0"
      "ucast (b AND 0x7F) = w AND 0x7F"
      by (rule varint_bytes_step [OF False])
    note n = next_shift [OF 1(2) False]
    have "get_varint64_loop shift r (varint_bytes w @ rest) =
        get_varint64_loop (shift + 7) (r OR push_bit shift (w AND 0x7F)) (varint_bytes (drop_bit 7 w) @ rest)"
      using 1(3) b by (simp add: Let_def more_bit_iff low_bits_ucast)
    also have "\<dots> = Some ((r OR push_bit shift (w AND 0x7F)) OR push_bit (shift + 7) (drop_bit 7 w), rest)"
      using n by (intro 1(1) [OF False]) simp_all
    finally show ?thesis by (simp only: or.assoc push_split_low7)
  qed
qed

lemma get_varint32_loop_leb128:
  "unat w * 2 ^ shift < 2 ^ 32 \<Longrightarrow> shift \<le> 28 \<Longrightarrow> 7 dvd shift \<Longrightarrow>
   get_varint32_loop shift r (varint_bytes w @ rest) = Some (r OR push_bit shift (ucast w), rest)"
proof (induction w arbitrary: shift r rule: varint_bytes.induct)
  case (1 w)
  show ?case
  proof (cases "w \<le> 0x7F")
    case True
    obtain b where b: "varint_bytes w = [b]" "b AND 0x80 = 0" "ucast b = (ucast w :: 32 word)"
      by (rule varint_bytes_last [OF True])
    from b(2) have "(ucast b AND 128 :: 32 word) = 0" by (simp only: more_bit_iff)
    then show ?thesis using 1(3) b(1,3) by (simp add: Let_def)
  next
    case False
    obtain b where b: "varint_bytes w = b # varint_bytes (drop_bit 7 w)" "b AND 0x80 \<noteq> 0"
      "ucast (b AND 0x7F) = (ucast (w AND 0x7F) :: 32 word)"
      by (rule varint_bytes_step [OF False])
    note n = next_shift [OF 1(2) False]
    from n(1) 1(4) have "shift + 7 \<le> 28" by presburger
    have "get_varint32_loop shift r (varint_bytes w @ rest) =
        get_varint32_loop (shift + 7) (r OR push_bit shift (ucast (w AND 0x7F))) (varint_bytes (drop_bit 7 w) @ rest)"
      using 1(3) b by (simp add: Let_def more_bit_iff low_bits_ucast)
    also have "\<dots> = Some ((r OR push_bit shift (ucast (w AND 0x7F))) OR push_bit (shift + 7) (ucast (drop_bit 7 w)), rest)"
      using n \<open>shift + 7 \<le> 28\<close> 1(4) by (intro 1(1) [OF False]) simp_all
    finally show ?thesis by (simp only: or.assoc push_split_low7_32)
  qed
qed

text \<open>The fast path of \<open>GetVarint32Ptr\<close> is the fallback's first round.\<close>

lemma GetVarint32Ptr_loop: "GetVarint32Ptr p = get_varint32_loop 0 0 p"
  by (cases p) (simp_all add: GetVarint32Ptr_def GetVarint32PtrFallback_def Let_def)

lemma GetVarint32_Encode: "GetVarint32 (EncodeVarint32 v @ rest) = (Some v, rest)"
proof -
  have "get_varint32_loop 0 0 (varint_bytes (ucast v) @ rest) = Some (0 OR push_bit 0 (ucast (ucast v :: 64 word)), rest)"
    using unat_32 [of v] by (intro get_varint32_loop_leb128) simp_all
  moreover have "ucast (ucast v :: 64 word) = v" by (rule bit_eqI) (auto simp: bit_simps)
  ultimately show ?thesis by (simp add: GetVarint32_def GetVarint32Ptr_loop EncodeVarint32_leb128)
qed

lemma GetVarint64_Encode: "GetVarint64 (EncodeVarint64 v @ rest) = (Some v, rest)"
  using get_varint64_loop_leb128 [of v 0 0 rest] unat_64 [of v]
  by (simp add: GetVarint64_def GetVarint64Ptr_def EncodeVarint64_leb128)

lemma unat_of_length: "n < 2 ^ 32 \<Longrightarrow> unat (of_nat n :: 32 word) = n"
  by (simp add: unat_of_nat)

lemma GetLengthPrefixedSlice_Encode:
  "length x < 2 ^ 32 \<Longrightarrow>
   GetLengthPrefixedSlice (PutLengthPrefixedSlice [] x @ rest) = (Some x, rest)"
  by (simp add: GetLengthPrefixedSlice_def PutLengthPrefixedSlice_def PutVarint32_def
      GetVarint32_Encode unat_of_length)

lemma PutLengthPrefixedSlice_append:
  "PutLengthPrefixedSlice dst x = dst @ PutLengthPrefixedSlice [] x"
  by (simp add: PutLengthPrefixedSlice_def PutVarint32_def)

section \<open>What a decoder leaves\<close>

text \<open>An array of fixed-width words.\<close>

lemma foldl_PutFixed32: "foldl PutFixed32 dst ws = dst @ concat (map EncodeFixed32 ws)"
  by (induction ws arbitrary: dst) (simp_all add: PutFixed32_def)

lemma word_at: "i < length ws \<Longrightarrow> DecodeFixed32 (drop (i * 4) (concat (map EncodeFixed32 ws) @ rest)) = Some (ws ! i)"
proof (induction ws arbitrary: i)
  case (Cons w ws)
  then show ?case by (cases i) simp_all
qed simp

lemma length_words: "length (concat (map EncodeFixed32 ws)) = length ws * 4"
  by (induction ws) simp_all

text \<open>A decoder takes a prefix of its input, a nonempty one if it succeeds.\<close>

definition takes_prefix :: "(byte list \<Rightarrow> 'a option \<times> byte list) \<Rightarrow> bool" where
  "takes_prefix get \<longleftrightarrow> (\<forall>input r rest. get input = (r, rest) \<longrightarrow>
     (\<exists>taken. input = taken @ rest \<and> (r \<noteq> None \<longrightarrow> taken \<noteq> [])))"

lemma takes_prefixD:
  assumes "takes_prefix get" and "get input = (r, rest)"
  obtains taken where "input = taken @ rest" "r \<noteq> None \<Longrightarrow> taken \<noteq> []"
  using assms unfolding takes_prefix_def by blast

lemma takes_prefix_shorter: "takes_prefix get \<Longrightarrow> get input = (Some x, rest) \<Longrightarrow> length rest < length input"
  by (elim takes_prefixD) auto

lemma get_varint32_loop_takes:
  "get_varint32_loop shift r p = Some (v, rest) \<Longrightarrow> \<exists>taken. p = taken @ rest \<and> taken \<noteq> []"
  by (induction shift r p rule: get_varint32_loop.induct)
    (auto simp: Let_def append_eq_Cons_conv split: if_splits)

lemma get_varint64_loop_takes:
  "get_varint64_loop shift r p = Some (v, rest) \<Longrightarrow> \<exists>taken. p = taken @ rest \<and> taken \<noteq> []"
  by (induction shift r p rule: get_varint64_loop.induct)
    (auto simp: Let_def append_eq_Cons_conv split: if_splits)

lemma GetVarint32_takes: "takes_prefix GetVarint32"
  unfolding takes_prefix_def GetVarint32_def GetVarint32Ptr_loop
  by (auto split: option.splits dest!: get_varint32_loop_takes)

lemma GetVarint64_takes: "takes_prefix GetVarint64"
  unfolding takes_prefix_def GetVarint64_def GetVarint64Ptr_def
  by (auto split: option.splits dest!: get_varint64_loop_takes)

lemma GetLengthPrefixedSlice_takes: "takes_prefix GetLengthPrefixedSlice"
  unfolding takes_prefix_def
proof (intro allI impI)
  fix input r rest assume g: "GetLengthPrefixedSlice input = (r, rest)"
  obtain r0 rest0 where g0: "GetVarint32 input = (r0, rest0)" by fastforce
  obtain taken where t: "input = taken @ rest0" "r0 \<noteq> None \<longrightarrow> taken \<noteq> []"
    using GetVarint32_takes g0 unfolding takes_prefix_def by blast
  show "\<exists>taken. input = taken @ rest \<and> (r \<noteq> None \<longrightarrow> taken \<noteq> [])"
  proof (cases r0)
    case None
    with g g0 t show ?thesis by (auto simp: GetLengthPrefixedSlice_def)
  next
    case (Some len)
    show ?thesis
    proof (cases "unat len \<le> length rest0")
      case True
      then have "r = Some (take (unat len) rest0)" "rest = drop (unat len) rest0"
        using g g0 Some by (simp_all add: GetLengthPrefixedSlice_def)
      then have "input = (taken @ take (unat len) rest0) @ rest" using t(1) by simp
      moreover have "taken \<noteq> []" using t(2) Some by simp
      ultimately show ?thesis by blast
    next
      case False
      with g g0 Some t show ?thesis by (auto simp: GetLengthPrefixedSlice_def)
    qed
  qed
qed

section \<open>The interface of a codec\<close>

text \<open>
  The clients append encodings to a string and later take them off a slice one by one:
  what they need is that the decoder inverts the encoder in front of any other bytes.
\<close>

locale prefix_codec =
  fixes ok :: "'a \<Rightarrow> bool" and enc :: "'a \<Rightarrow> byte list" and dec :: "byte list \<Rightarrow> 'a option \<times> byte list"
  assumes dec_enc: "ok x \<Longrightarrow> dec (enc x @ rest) = (Some x, rest)"
    and dec_takes: "takes_prefix dec"
begin

lemma dec_enc_end: "ok x \<Longrightarrow> dec (enc x) = (Some x, [])"
  using dec_enc [of x "[]"] by simp

lemma enc_nonempty: "ok x \<Longrightarrow> enc x \<noteq> []"
proof
  assume "ok x" "enc x = []"
  then have "dec [] = (Some x, [])" using dec_enc_end [of x] by simp
  from takes_prefix_shorter [OF dec_takes this] show False by simp
qed

text \<open>No encoding is the beginning of another, so a sequence of them is read in one way.\<close>

lemma prefix_free: "ok x \<Longrightarrow> ok y \<Longrightarrow> enc x @ a = enc y @ b \<Longrightarrow> x = y \<and> a = b"
proof -
  assume "ok x" "ok y" and e: "enc x @ a = enc y @ b"
  then have "(Some x, a) = (Some y, b)" by (metis dec_enc)
  then show ?thesis by simp
qed

lemma injective: "ok x \<Longrightarrow> ok y \<Longrightarrow> enc x = enc y \<Longrightarrow> x = y"
  by (drule (1) prefix_free [of x y "[]" "[]"]) simp_all

end

interpretation v32: prefix_codec "\<lambda>_. True" EncodeVarint32 GetVarint32
  by unfold_locales (simp_all add: GetVarint32_Encode GetVarint32_takes)

interpretation v64: prefix_codec "\<lambda>_. True" EncodeVarint64 GetVarint64
  by unfold_locales (simp_all add: GetVarint64_Encode GetVarint64_takes)

interpretation lps: prefix_codec "\<lambda>x. length x < 2 ^ 32" "PutLengthPrefixedSlice []" GetLengthPrefixedSlice
  by (rule prefix_codec.intro [OF GetLengthPrefixedSlice_Encode GetLengthPrefixedSlice_takes])

end
