(* ===== verification/LdbStatus.thy ===== *)
theory LdbStatus
  imports LdbCoding
begin

text \<open>
  \<open>leveldb::Status\<close> (\<open>include/leveldb/status.h\<close>, \<open>util/status.cc\<close>): success is the null
  \<open>state_\<close>, a failure a code with a message of one or two parts.
\<close>

datatype Code = kOk | kNotFound | kCorruption | kNotSupported | kInvalidArgument | kIOError

text \<open>\<open>state_\<close>; the message has its length in front of it in the source.\<close>

type_synonym Status = "(Code \<times> string) option"

definition Status_OK :: Status where "Status_OK = None"

text \<open>The private constructor, with its \<open>assert\<close> on the code.\<close>

definition new_Status :: "Code \<Rightarrow> string \<Rightarrow> string \<Rightarrow> Status option" where
  "new_Status code msg msg2 =
     (if code = kOk then None
      else Some (Some (code, msg @ (if length msg2 > 0 then '': '' @ msg2 else ''''))))"

definition status_of :: "Code \<Rightarrow> string \<Rightarrow> string \<Rightarrow> Status" where
  "status_of code msg msg2 = Some (code, msg @ (if length msg2 > 0 then '': '' @ msg2 else ''''))"

definition NotFound :: "string \<Rightarrow> string \<Rightarrow> Status" where "NotFound = status_of kNotFound"
definition Corruption :: "string \<Rightarrow> string \<Rightarrow> Status" where "Corruption = status_of kCorruption"
definition NotSupported :: "string \<Rightarrow> string \<Rightarrow> Status" where "NotSupported = status_of kNotSupported"
definition InvalidArgument :: "string \<Rightarrow> string \<Rightarrow> Status" where "InvalidArgument = status_of kInvalidArgument"
definition IOError :: "string \<Rightarrow> string \<Rightarrow> Status" where "IOError = status_of kIOError"

definition status_ok :: "Status \<Rightarrow> bool" where "status_ok s \<longleftrightarrow> s = None"

definition status_code :: "Status \<Rightarrow> Code" where
  "status_code s = (case s of None \<Rightarrow> kOk | Some (code, _) \<Rightarrow> code)"

definition IsNotFound :: "Status \<Rightarrow> bool" where "IsNotFound s \<longleftrightarrow> status_code s = kNotFound"
definition IsCorruption :: "Status \<Rightarrow> bool" where "IsCorruption s \<longleftrightarrow> status_code s = kCorruption"
definition IsIOError :: "Status \<Rightarrow> bool" where "IsIOError s \<longleftrightarrow> status_code s = kIOError"
definition IsNotSupportedError :: "Status \<Rightarrow> bool" where
  "IsNotSupportedError s \<longleftrightarrow> status_code s = kNotSupported"
definition IsInvalidArgument :: "Status \<Rightarrow> bool" where
  "IsInvalidArgument s \<longleftrightarrow> status_code s = kInvalidArgument"

fun code_name :: "Code \<Rightarrow> string" where
  "code_name kOk = ''OK''"
| "code_name kNotFound = ''NotFound: ''"
| "code_name kCorruption = ''Corruption: ''"
| "code_name kNotSupported = ''Not implemented: ''"
| "code_name kInvalidArgument = ''Invalid argument: ''"
| "code_name kIOError = ''IO error: ''"

definition status_ToString :: "Status \<Rightarrow> string" where
  "status_ToString s = (case s of None \<Rightarrow> ''OK'' | Some (code, msg) \<Rightarrow> code_name code @ msg)"

lemma status_ok_simps [simp]:
  "status_ok Status_OK" "\<not> status_ok (status_of c m m2)"
  "\<not> status_ok (Corruption m m2)" "\<not> status_ok (IOError m m2)" "\<not> status_ok (NotFound m m2)"
  by (simp_all add: status_ok_def Status_OK_def status_of_def Corruption_def IOError_def NotFound_def)

lemma status_code_simps [simp]:
  "status_code Status_OK = kOk" "status_code (status_of c m m2) = c"
  "status_code (Corruption m m2) = kCorruption" "status_code (NotFound m m2) = kNotFound"
  by (simp_all add: status_code_def Status_OK_def status_of_def Corruption_def NotFound_def)

lemma new_Status_of: "code \<noteq> kOk \<Longrightarrow> new_Status code msg msg2 = Some (status_of code msg msg2)"
  by (simp add: new_Status_def status_of_def)

end
