(* ===== verification/LdbLogging.thy ===== *)
theory LdbLogging
  imports LdbStatus
begin

text \<open>
  \<open>util/logging.cc\<close>: decimal numbers and escaped strings. \<open>ConsumeDecimalNumber\<close> reads back
  what \<open>AppendNumberTo\<close> wrote, with or without leading zeros, and refuses exactly the numbers
  that do not fit 64 bits.
\<close>

section \<open>Printing\<close>

definition digit_char :: "nat \<Rightarrow> char" where "digit_char d = char_of (48 + d)"

text \<open>\<open>%llu\<close> of \<open>snprintf\<close>.\<close>

fun decimal :: "nat \<Rightarrow> string" where
  "decimal n = (if n < 10 then [digit_char n] else decimal (n div 10) @ [digit_char (n mod 10)])"

declare decimal.simps [simp del]

definition hex_digit :: "nat \<Rightarrow> char" where
  "hex_digit d = (if d < 10 then char_of (48 + d) else char_of (87 + d))"

definition AppendNumberTo :: "string \<Rightarrow> 64 word \<Rightarrow> string" where
  "AppendNumberTo str num = str @ decimal (unat num)"

text \<open>A \<open>char\<close> is signed, so the bytes from 128 on are below the space.\<close>

fun AppendEscapedStringTo :: "string \<Rightarrow> byte list \<Rightarrow> string" where
  "AppendEscapedStringTo str [] = str"
| "AppendEscapedStringTo str (c # cs) =
     AppendEscapedStringTo
       (str @ (if 0x20 \<le> c \<and> c \<le> 0x7e then [char_of (unat c)]
               else [CHR 0x5c, CHR ''x'', hex_digit (unat c div 16), hex_digit (unat c mod 16)])) cs"

definition NumberToString :: "64 word \<Rightarrow> string" where
  "NumberToString num = AppendNumberTo [] num"

definition EscapeString :: "byte list \<Rightarrow> string" where
  "EscapeString bs = AppendEscapedStringTo [] bs"

section \<open>Parsing\<close>

definition is_digit :: "char \<Rightarrow> bool" where
  "is_digit c \<longleftrightarrow> 48 \<le> (of_char c :: nat) \<and> (of_char c :: nat) \<le> 57"

definition kMaxUint64 :: "64 word" where "kMaxUint64 = - 1"

text \<open>
  The loop: the value, unless it overflowed, the digits read, and the input left. The count of
  the digits is an \<open>int\<close>, whose overflow is undefined: None.
\<close>

fun consume_digits :: "string \<Rightarrow> 64 word \<Rightarrow> nat \<Rightarrow> (64 word option \<times> nat \<times> string) option" where
  "consume_digits [] v digits = Some (Some v, digits, [])"
| "consume_digits (c # rest) v digits =
     (if is_digit c then
        (let digits = digits + 1; delta = of_char c - 48 :: nat in
         if digits \<ge> 2 ^ 31 then None
         else if v > kMaxUint64 div 10 \<or> v = kMaxUint64 div 10 \<and> delta > unat (kMaxUint64 mod 10)
         then Some (None, digits, c # rest)
         else consume_digits rest (v * 10 + of_nat delta) digits)
      else Some (Some v, digits, c # rest))"

definition ConsumeDecimalNumber :: "string \<Rightarrow> (64 word option \<times> string) option" where
  "ConsumeDecimalNumber input =
     do { (v, digits, rest) \<leftarrow> consume_digits input 0 0;
          Some (case v of None \<Rightarrow> None | Some v \<Rightarrow> if digits > 0 then Some v else None, rest) }"

section \<open>Digits\<close>

lemma of_char_digit [simp]: "d < 10 \<Longrightarrow> of_char (digit_char d) = (48 + d :: nat)"
  by (simp add: digit_char_def)

lemma is_digit_char [simp]: "d < 10 \<Longrightarrow> is_digit (digit_char d)"
  by (simp add: is_digit_def)

fun digits_value :: "string \<Rightarrow> nat \<Rightarrow> nat" where
  "digits_value [] v = v"
| "digits_value (c # cs) v = digits_value cs (v * 10 + (of_char c - 48))"

lemma digits_value_append [simp]: "digits_value (a @ b) v = digits_value b (digits_value a v)"
  by (induction a v rule: digits_value.induct) simp_all

lemma digits_value_ge: "v \<le> digits_value cs v"
proof (induction cs v rule: digits_value.induct)
  case (2 c cs v)
  have "v \<le> v * 10 + (of_char c - 48)" by simp
  with 2 show ?case by (simp del: of_char_of)
qed simp

lemma digits_value_zeros [simp]: "digits_value (replicate n CHR ''0'') 0 = 0"
  by (induction n) simp_all

lemma decimal_digits: "\<forall>c \<in> set (decimal n). is_digit c"
proof (induction n rule: decimal.induct)
  case (1 n)
  then show ?case by (subst decimal.simps) auto
qed

lemma decimal_nonempty [simp]: "decimal n \<noteq> []"
  by (subst decimal.simps) simp

lemma decimal_value: "digits_value (decimal n) 0 = n"
proof (induction n rule: decimal.induct)
  case (1 n)
  then show ?case by (subst decimal.simps) auto
qed

section \<open>What is consumed\<close>

definition no_digit_next :: "string \<Rightarrow> bool" where
  "no_digit_next rest \<longleftrightarrow> (case rest of [] \<Rightarrow> True | c # _ \<Rightarrow> \<not> is_digit c)"

lemma overflow_test:
  assumes "delta < 10"
  shows "(v > kMaxUint64 div 10 \<or> v = kMaxUint64 div 10 \<and> delta > unat (kMaxUint64 mod 10)) \<longleftrightarrow>
     2 ^ 64 \<le> unat v * 10 + delta"
proof -
  have "unat (kMaxUint64 div 10) = 1844674407370955161" "unat (kMaxUint64 mod 10) = 5"
    by (simp_all add: kMaxUint64_def unat_div_distrib unat_mod_distrib)
  then show ?thesis using assms by (simp add: word_less_nat_alt word_unat_eq_iff) linarith
qed

lemma consume_step:
  assumes "is_digit c" "n + 1 < 2 ^ 31"
  defines "delta \<equiv> of_char c - 48 :: nat"
  shows "consume_digits (c # cs) v n =
     (if 2 ^ 64 \<le> unat v * 10 + delta then Some (None, n + 1, c # cs)
      else consume_digits cs (v * 10 + of_nat delta) (n + 1))"
    and "unat v * 10 + delta < 2 ^ 64 \<Longrightarrow> unat (v * 10 + of_nat delta) = unat v * 10 + delta"
proof -
  have d: "delta < 10" using assms(1) unfolding is_digit_def delta_def by linarith
  have b: "(2 ^ 31 \<le> n + 1) = False" using assms(2) by simp
  show "consume_digits (c # cs) v n =
     (if 2 ^ 64 \<le> unat v * 10 + delta then Some (None, n + 1, c # cs)
      else consume_digits cs (v * 10 + of_nat delta) (n + 1))"
    using assms(1)
    by (simp only: consume_digits.simps if_True if_False Let_def b overflow_test [OF d] delta_def [symmetric])
  assume "unat v * 10 + delta < 2 ^ 64"
  moreover have "v * 10 + of_nat delta = of_nat (unat v * 10 + delta)" by simp
  ultimately show "unat (v * 10 + of_nat delta) = unat v * 10 + delta"
    by (simp only: unat_of_nat) simp
qed

lemma consume_rest: "no_digit_next rest \<Longrightarrow> consume_digits rest v n = Some (Some v, n, rest)"
  by (cases rest) (simp_all add: no_digit_next_def)

lemma consume_digits_all:
  assumes "\<forall>c \<in> set ds. is_digit c" "no_digit_next rest" "n + length ds < 2 ^ 31"
  shows "if digits_value ds (unat v) < 2 ^ 64
     then consume_digits (ds @ rest) v n = Some (Some (of_nat (digits_value ds (unat v))), n + length ds, rest)
     else \<exists>m r. consume_digits (ds @ rest) v n = Some (None, m, r)"
  using assms(1,3)
proof (induction ds arbitrary: v n)
  case Nil
  then show ?case using unat_64 [of v] by (simp add: consume_rest [OF assms(2)])
next
  case (Cons c ds)
  let ?w = "unat v * 10 + (of_char c - 48)"
  have n: "n + 1 < 2 ^ 31" "n + 1 + length ds < 2 ^ 31" and c: "is_digit c" using Cons.prems by simp_all
  note step = consume_step(1) [OF c n(1), of "ds @ rest" v] consume_step(2) [OF c n(1), of v]
  show ?case
  proof (cases "?w < 2 ^ 64")
    case True
    then have e: "consume_digits (c # ds @ rest) v n = consume_digits (ds @ rest) (v * 10 + of_nat (of_char c - 48)) (n + 1)"
      and w: "unat (v * 10 + of_nat (of_char c - 48)) = ?w"
      using step by (auto simp: not_le)
    from Cons.prems have "\<forall>c \<in> set ds. is_digit c" by simp
    from Cons.IH [OF this n(2), of "v * 10 + of_nat (of_char c - 48)", unfolded w]
    show ?thesis unfolding append_Cons e digits_value.simps by (simp split: if_splits)
  next
    case False
    then have "\<exists>m r. consume_digits (c # ds @ rest) v n = Some (None, m, r)" using step(1) by simp
    moreover have "\<not> digits_value (c # ds) (unat v) < 2 ^ 64"
      using False digits_value_ge [of ?w ds] by simp
    ultimately show ?thesis by simp
  qed
qed

lemma ConsumeDecimalNumber_digits:
  assumes "\<forall>c \<in> set ds. is_digit c" "ds \<noteq> []" "no_digit_next rest" "length ds < 2 ^ 31"
  shows "if digits_value ds 0 < 2 ^ 64
     then ConsumeDecimalNumber (ds @ rest) = Some (Some (of_nat (digits_value ds 0)), rest)
     else \<exists>left. ConsumeDecimalNumber (ds @ rest) = Some (None, left)"
proof -
  have "0 + length ds < 2 ^ 31" using assms(4) by simp
  from consume_digits_all [OF assms(1,3) this, of 0] assms(2) show ?thesis
    by (auto simp: ConsumeDecimalNumber_def)
qed

lemma ConsumeDecimalNumber_none: "no_digit_next input \<Longrightarrow> ConsumeDecimalNumber input = Some (None, input)"
  by (simp add: ConsumeDecimalNumber_def consume_rest)

lemma decimal_length: "n < 10 ^ Suc k \<Longrightarrow> length (decimal n) \<le> Suc k"
proof (induction k arbitrary: n)
  case 0
  then show ?case by (subst decimal.simps) simp
next
  case (Suc k)
  then have "n div 10 < 10 ^ Suc k" by (simp add: div_less_iff_less_mult)
  with Suc.IH [of "n div 10"] show ?case by (subst decimal.simps) simp
qed

lemma decimal_64: "length (decimal (unat (n :: 64 word))) \<le> 20"
  using decimal_length [of "unat n" 19] unat_64 [of n] by simp

lemma ConsumeDecimalNumber_padded:
  assumes "no_digit_next rest" "k < 2 ^ 30"
  shows "ConsumeDecimalNumber (replicate k CHR ''0'' @ decimal (unat n) @ rest) = Some (Some n, rest)"
proof -
  let ?ds = "replicate k CHR ''0'' @ decimal (unat n)"
  have "\<forall>c \<in> set ?ds. is_digit c" using decimal_digits [of "unat n"] by (auto simp: is_digit_def)
  moreover have "digits_value ?ds 0 = unat n" by (simp add: decimal_value)
  moreover have "length ?ds < 2 ^ 31" using decimal_64 [of n] assms(2) by simp
  ultimately show ?thesis using ConsumeDecimalNumber_digits [of ?ds, OF _ _ assms(1)] unat_64 [of n] by simp
qed

end
