(* ===== verification/LdbPosixEnv.thy ===== *)
theory LdbPosixEnv
  imports LdbStatus "HOL-Library.Monad_Syntax"
begin

text \<open>
  The environment of \<open>include/leveldb/env.h\<close> as far as whole files are written through it,
  \<open>WriteStringToFile\<close> and \<open>WriteStringToFileSync\<close> of \<open>util/env.cc\<close>, and the \<open>PosixEnv\<close> and
  \<open>PosixWritableFile\<close> of \<open>util/env_posix.cc\<close> that implement it. The calls of the C library and of
  the operating system are the fields of \<open>Sys\<close>; \<open>posix_contract\<close> is what their manual pages say
  of them. A call through a null pointer is None.
\<close>

section \<open>The interface\<close>

text \<open>The virtual functions of \<open>Env\<close> and \<open>WritableFile\<close>; \<open>wf_delete\<close> is the destructor.\<close>

record ('f, 'e) Env =
  env_NewWritableFile :: "string \<Rightarrow> 'e \<Rightarrow> Status \<times> 'f option \<times> 'e"
  env_DeleteFile :: "string \<Rightarrow> 'e \<Rightarrow> Status \<times> 'e"
  env_RenameFile :: "string \<Rightarrow> string \<Rightarrow> 'e \<Rightarrow> Status \<times> 'e"
  wf_Append :: "string \<Rightarrow> 'f \<Rightarrow> 'e \<Rightarrow> (Status \<times> 'f \<times> 'e) option"
  wf_Sync :: "'f \<Rightarrow> 'e \<Rightarrow> (Status \<times> 'f \<times> 'e) option"
  wf_Close :: "'f \<Rightarrow> 'e \<Rightarrow> (Status \<times> 'f \<times> 'e) option"
  wf_delete :: "'f \<Rightarrow> 'e \<Rightarrow> 'e"

section \<open>Writing a whole file\<close>

definition DoWriteStringToFile ::
    "('f, 'e) Env \<Rightarrow> string \<Rightarrow> string \<Rightarrow> bool \<Rightarrow> 'e \<Rightarrow> (Status \<times> 'e) option" where
  "DoWriteStringToFile env data fname should_sync e =
     (let (s, result, e) = env_NewWritableFile env fname e in
      if \<not> status_ok s then Some (s, e)
      else do {
        file \<leftarrow> result;
        (s, file, e) \<leftarrow> wf_Append env data file e;
        (s, file, e) \<leftarrow> (if status_ok s \<and> should_sync then wf_Sync env file e else Some (s, file, e));
        (s, file, e) \<leftarrow> (if status_ok s then wf_Close env file e else Some (s, file, e));
        let e = wf_delete env file e;
        let e = (if \<not> status_ok s then snd (env_DeleteFile env fname e) else e);
        Some (s, e) })"

definition WriteStringToFile :: "('f, 'e) Env \<Rightarrow> string \<Rightarrow> string \<Rightarrow> 'e \<Rightarrow> (Status \<times> 'e) option" where
  "WriteStringToFile env data fname e = DoWriteStringToFile env data fname False e"

definition WriteStringToFileSync :: "('f, 'e) Env \<Rightarrow> string \<Rightarrow> string \<Rightarrow> 'e \<Rightarrow> (Status \<times> 'e) option" where
  "WriteStringToFileSync env data fname e = DoWriteStringToFile env data fname True e"

section \<open>The calls below\<close>

text \<open>
  The calls, over the state \<open>'w\<close> of the world and stream pointers \<open>'h\<close>. The bools say that the
  call returned 0, \<open>sys_errno\<close> is what \<open>strerror(errno)\<close> is.
\<close>

record ('h, 'w) Sys =
  sys_fopen_w :: "string \<Rightarrow> 'w \<Rightarrow> 'h option \<times> 'w"
  sys_fwrite :: "string \<Rightarrow> 'h \<Rightarrow> 'w \<Rightarrow> nat \<times> 'w"
  sys_fflush :: "'h \<Rightarrow> 'w \<Rightarrow> bool \<times> 'w"
  sys_fdatasync :: "'h \<Rightarrow> 'w \<Rightarrow> bool \<times> 'w"
  sys_fclose :: "'h \<Rightarrow> 'w \<Rightarrow> bool \<times> 'w"
  sys_unlink :: "string \<Rightarrow> 'w \<Rightarrow> bool \<times> 'w"
  sys_rename :: "string \<Rightarrow> string \<Rightarrow> 'w \<Rightarrow> bool \<times> 'w"
  sys_open_dir :: "string \<Rightarrow> 'w \<Rightarrow> nat option \<times> 'w"
  sys_fsync :: "nat \<Rightarrow> 'w \<Rightarrow> bool \<times> 'w"
  sys_close :: "nat \<Rightarrow> 'w \<Rightarrow> 'w"
  sys_errno :: "'w \<Rightarrow> string"

section \<open>The posix environment\<close>

text \<open>\<open>IOError(context, errno)\<close> after a call that failed.\<close>

definition errno_status :: "('h, 'w) Sys \<Rightarrow> string \<Rightarrow> bool \<Rightarrow> 'w \<Rightarrow> Status" where
  "errno_status sys context0 ok w = (if ok then Status_OK else IOError context0 (sys_errno sys w))"

record 'h PosixWritableFile =
  pw_filename :: string
  pw_file :: "'h option"

definition Posix_NewWritableFile ::
    "('h, 'w) Sys \<Rightarrow> string \<Rightarrow> 'w \<Rightarrow> Status \<times> 'h PosixWritableFile option \<times> 'w" where
  "Posix_NewWritableFile sys fname w =
     (case sys_fopen_w sys fname w of
        (None, w) \<Rightarrow> (IOError fname (sys_errno sys w), None, w)
      | (Some f, w) \<Rightarrow> (Status_OK, Some \<lparr>pw_filename = fname, pw_file = Some f\<rparr>, w))"

definition PosixWritable_Append ::
    "('h, 'w) Sys \<Rightarrow> string \<Rightarrow> 'h PosixWritableFile \<Rightarrow> 'w \<Rightarrow> (Status \<times> 'h PosixWritableFile \<times> 'w) option" where
  "PosixWritable_Append sys data f w =
     do { h \<leftarrow> pw_file f;
          let (r, w) = sys_fwrite sys data h w;
          Some (errno_status sys (pw_filename f) (r = length data) w, f, w) }"

definition PosixWritable_Close ::
    "('h, 'w) Sys \<Rightarrow> 'h PosixWritableFile \<Rightarrow> 'w \<Rightarrow> (Status \<times> 'h PosixWritableFile \<times> 'w) option" where
  "PosixWritable_Close sys f w =
     do { h \<leftarrow> pw_file f;
          let (ok, w) = sys_fclose sys h w;
          Some (errno_status sys (pw_filename f) ok w, f\<lparr>pw_file := None\<rparr>, w) }"

definition PosixWritable_delete :: "('h, 'w) Sys \<Rightarrow> 'h PosixWritableFile \<Rightarrow> 'w \<Rightarrow> 'w" where
  "PosixWritable_delete sys f w = (case pw_file f of None \<Rightarrow> w | Some h \<Rightarrow> snd (sys_fclose sys h w))"

text \<open>\<open>strrchr(f, '/')\<close> splits the name; without a slash the directory is the current one.\<close>

definition base_of :: "string \<Rightarrow> string" where
  "base_of f = rev (takeWhile (\<lambda>c. c \<noteq> CHR ''/'') (rev f))"

definition dir_of :: "string \<Rightarrow> string" where
  "dir_of f = (if CHR ''/'' \<in> set f then take (length f - length (base_of f) - 1) f else ''.'')"

definition PosixWritable_SyncDirIfManifest :: "('h, 'w) Sys \<Rightarrow> 'h PosixWritableFile \<Rightarrow> 'w \<Rightarrow> Status \<times> 'w" where
  "PosixWritable_SyncDirIfManifest sys f w =
     (if take 8 (base_of (pw_filename f)) = ''MANIFEST'' then
        (case sys_open_dir sys (dir_of (pw_filename f)) w of
           (None, w) \<Rightarrow> (IOError (dir_of (pw_filename f)) (sys_errno sys w), w)
         | (Some fd, w) \<Rightarrow>
             let (ok, w) = sys_fsync sys fd w;
                 s = errno_status sys (dir_of (pw_filename f)) ok w in
             (s, sys_close sys fd w))
      else (Status_OK, w))"

definition PosixWritable_Sync ::
    "('h, 'w) Sys \<Rightarrow> 'h PosixWritableFile \<Rightarrow> 'w \<Rightarrow> (Status \<times> 'h PosixWritableFile \<times> 'w) option" where
  "PosixWritable_Sync sys f w =
     (let (s, w) = PosixWritable_SyncDirIfManifest sys f w in
      if \<not> status_ok s then Some (s, f, w)
      else do {
        h \<leftarrow> pw_file f;
        let (ok, w) = sys_fflush sys h w;
        let (ok, w) = (if ok then sys_fdatasync sys h w else (False, w));
        Some (errno_status sys (pw_filename f) ok w, f, w) })"

definition Posix_DeleteFile :: "('h, 'w) Sys \<Rightarrow> string \<Rightarrow> 'w \<Rightarrow> Status \<times> 'w" where
  "Posix_DeleteFile sys fname w = (let (ok, w) = sys_unlink sys fname w in (errno_status sys fname ok w, w))"

definition Posix_RenameFile :: "('h, 'w) Sys \<Rightarrow> string \<Rightarrow> string \<Rightarrow> 'w \<Rightarrow> Status \<times> 'w" where
  "Posix_RenameFile sys src target w =
     (let (ok, w) = sys_rename sys src target w in (errno_status sys src ok w, w))"

definition PosixEnv :: "('h, 'w) Sys \<Rightarrow> ('h PosixWritableFile, 'w) Env" where
  "PosixEnv sys = \<lparr>env_NewWritableFile = Posix_NewWritableFile sys, env_DeleteFile = Posix_DeleteFile sys,
     env_RenameFile = Posix_RenameFile sys, wf_Append = PosixWritable_Append sys, wf_Sync = PosixWritable_Sync sys,
     wf_Close = PosixWritable_Close sys, wf_delete = PosixWritable_delete sys\<rparr>"

section \<open>What the calls do\<close>

text \<open>
  A view of the world: the contents of the files, whether what a file holds has been forced to
  the device, and for a stream that is open for writing its file and the bytes still in its
  buffer.
\<close>

record 'h FileView =
  fv_file :: "string \<Rightarrow> string option"
  fv_synced :: "string \<Rightarrow> bool"
  fv_stream :: "'h \<Rightarrow> (string \<times> string) option"

text \<open>Nothing but \<open>Q\<close> changes among the names \<open>P\<close>, no two of which are one file.\<close>

definition only :: "string set \<Rightarrow> string set \<Rightarrow> 'h FileView \<Rightarrow> 'h FileView \<Rightarrow> bool" where
  "only P Q v v' \<longleftrightarrow> (\<forall>g \<in> P - Q. fv_file v' g = fv_file v g \<and> fv_synced v' g = fv_synced v g)"

text \<open>
  C11 7.21.5 and POSIX. \<open>fopen(path, "w")\<close> makes the file empty. \<open>fwrite\<close> returns how many bytes
  it took, and those are in the file or behind it in the buffer.
\<close>

definition fopen_law :: "('h, 'w) Sys \<Rightarrow> ('w \<Rightarrow> 'h FileView) \<Rightarrow> string set \<Rightarrow> bool" where
  "fopen_law sys V P \<longleftrightarrow> (\<forall>p \<in> P. \<forall>w r w'. sys_fopen_w sys p w = (r, w') \<longrightarrow>
     only P {p} (V w) (V w') \<and>
     (\<forall>h. r = Some h \<longrightarrow> fv_file (V w') p = Some [] \<and> fv_stream (V w') h = Some (p, [])))"

definition fwrite_law :: "('h, 'w) Sys \<Rightarrow> ('w \<Rightarrow> 'h FileView) \<Rightarrow> string set \<Rightarrow> bool" where
  "fwrite_law sys V P \<longleftrightarrow> (\<forall>p \<in> P. \<forall>bs h w r w' buf. sys_fwrite sys bs h w = (r, w') \<longrightarrow>
     fv_stream (V w) h = Some (p, buf) \<longrightarrow>
     only P {p} (V w) (V w') \<and> (\<exists>buf'. fv_stream (V w') h = Some (p, buf') \<and>
       (r = length bs \<longrightarrow> (\<forall>d. fv_file (V w) p = Some d \<longrightarrow>
          (\<exists>d'. fv_file (V w') p = Some d' \<and> d' @ buf' = d @ buf @ bs)))))"

text \<open>\<open>fflush\<close> empties the buffer into the file, \<open>fdatasync\<close> forces the file to the device.\<close>

definition fflush_law :: "('h, 'w) Sys \<Rightarrow> ('w \<Rightarrow> 'h FileView) \<Rightarrow> string set \<Rightarrow> bool" where
  "fflush_law sys V P \<longleftrightarrow> (\<forall>p \<in> P. \<forall>h w ok w' buf. sys_fflush sys h w = (ok, w') \<longrightarrow>
     fv_stream (V w) h = Some (p, buf) \<longrightarrow>
     only P {p} (V w) (V w') \<and> (\<exists>buf'. fv_stream (V w') h = Some (p, buf') \<and>
       (ok \<longrightarrow> buf' = [] \<and> (\<forall>d. fv_file (V w) p = Some d \<longrightarrow> fv_file (V w') p = Some (d @ buf)))))"

definition fdatasync_law :: "('h, 'w) Sys \<Rightarrow> ('w \<Rightarrow> 'h FileView) \<Rightarrow> string set \<Rightarrow> bool" where
  "fdatasync_law sys V P \<longleftrightarrow> (\<forall>p \<in> P. \<forall>h w ok w' buf. sys_fdatasync sys h w = (ok, w') \<longrightarrow>
     fv_stream (V w) h = Some (p, buf) \<longrightarrow>
     only P {p} (V w) (V w') \<and> fv_stream (V w') h = Some (p, buf) \<and> fv_file (V w') p = fv_file (V w) p \<and>
     (ok \<longrightarrow> fv_synced (V w') p))"

text \<open>\<open>fclose\<close> writes out the buffer; with an empty one nothing is left to write.\<close>

definition fclose_law :: "('h, 'w) Sys \<Rightarrow> ('w \<Rightarrow> 'h FileView) \<Rightarrow> string set \<Rightarrow> bool" where
  "fclose_law sys V P \<longleftrightarrow> (\<forall>p \<in> P. \<forall>h w ok w' buf. sys_fclose sys h w = (ok, w') \<longrightarrow>
     fv_stream (V w) h = Some (p, buf) \<longrightarrow>
     only P {p} (V w) (V w') \<and>
     (ok \<longrightarrow> (\<forall>d. fv_file (V w) p = Some d \<longrightarrow> fv_file (V w') p = Some (d @ buf)) \<and>
       (buf = [] \<longrightarrow> fv_synced (V w) p \<longrightarrow> fv_synced (V w') p)))"

definition unlink_law :: "('h, 'w) Sys \<Rightarrow> ('w \<Rightarrow> 'h FileView) \<Rightarrow> string set \<Rightarrow> bool" where
  "unlink_law sys V P \<longleftrightarrow> (\<forall>p \<in> P. \<forall>w ok w'. sys_unlink sys p w = (ok, w') \<longrightarrow>
     only P {p} (V w) (V w') \<and> (ok \<longrightarrow> fv_file (V w') p = None) \<and> (\<not> ok \<longrightarrow> only P {} (V w) (V w')))"

text \<open>
  \<open>rename\<close> of POSIX.1: on success the old name is gone and the new one is the file; on failure
  neither file is changed, unless the error is EIO, for which nothing is promised of the two.
\<close>

definition EIO_text :: string where "EIO_text = ''Input/output error''"

definition rename_law :: "('h, 'w) Sys \<Rightarrow> ('w \<Rightarrow> 'h FileView) \<Rightarrow> string set \<Rightarrow> bool" where
  "rename_law sys V P \<longleftrightarrow> (\<forall>p \<in> P. \<forall>q \<in> P. \<forall>w ok w'. p \<noteq> q \<longrightarrow> sys_rename sys p q w = (ok, w') \<longrightarrow>
     only P {p, q} (V w) (V w') \<and>
     (ok \<longrightarrow> fv_file (V w') p = None \<and> fv_file (V w') q = fv_file (V w) p \<and> fv_synced (V w') q = fv_synced (V w) p) \<and>
     (\<not> ok \<longrightarrow> sys_errno sys w' = EIO_text \<or> only P {} (V w) (V w')))"

definition posix_contract :: "('h, 'w) Sys \<Rightarrow> ('w \<Rightarrow> 'h FileView) \<Rightarrow> string set \<Rightarrow> bool" where
  "posix_contract sys V P \<longleftrightarrow> fopen_law sys V P \<and> fwrite_law sys V P \<and> fflush_law sys V P \<and>
     fdatasync_law sys V P \<and> fclose_law sys V P \<and> unlink_law sys V P \<and> rename_law sys V P"

section \<open>The calls, one by one\<close>

lemma only_trans [trans]: "only P Q v v' \<Longrightarrow> only P Q v' v'' \<Longrightarrow> only P Q v v''"
  by (simp add: only_def)

lemma only_refl [simp]: "only P Q v v"
  by (simp add: only_def)

lemma only_mono: "only P Q v v' \<Longrightarrow> Q \<subseteq> Q' \<Longrightarrow> only P Q' v v'"
  by (auto simp: only_def)

lemma errno_status_ok [simp]: "status_ok (errno_status sys c ok w) = ok"
  by (simp add: errno_status_def)

lemma posix_laws:
  assumes "posix_contract sys V P"
  shows "fopen_law sys V P" "fwrite_law sys V P" "fflush_law sys V P" "fdatasync_law sys V P" "fclose_law sys V P"
    "unlink_law sys V P" "rename_law sys V P"
  using assms by (simp_all add: posix_contract_def)

lemmas fopen_call = fopen_law_def [THEN iffD1, rule_format, OF posix_laws(1)]
lemmas fwrite_call = fwrite_law_def [THEN iffD1, rule_format, OF posix_laws(2)]
lemmas fflush_call = fflush_law_def [THEN iffD1, rule_format, OF posix_laws(3)]
lemmas fdatasync_call = fdatasync_law_def [THEN iffD1, rule_format, OF posix_laws(4)]
lemmas fclose_call = fclose_law_def [THEN iffD1, rule_format, OF posix_laws(5)]
lemmas unlink_call = unlink_law_def [THEN iffD1, rule_format, OF posix_laws(6)]

lemma rename_call:
  assumes "posix_contract sys V P" "p \<in> P" "q \<in> P" "p \<noteq> q" "sys_rename sys p q w = (ok, w')"
  shows "only P {p, q} (V w) (V w')"
    "ok \<Longrightarrow> fv_file (V w') p = None \<and> fv_file (V w') q = fv_file (V w) p \<and> fv_synced (V w') q = fv_synced (V w) p"
    "\<not> ok \<Longrightarrow> sys_errno sys w' = EIO_text \<or> only P {} (V w) (V w')"
  using rename_law_def [THEN iffD1, rule_format, OF posix_laws(7) [OF assms(1)] assms(2-5)] by simp_all

text \<open>The file object: every call keeps its stream on its file and changes no other.\<close>

definition stream_on :: "'h FileView \<Rightarrow> 'h PosixWritableFile \<Rightarrow> string \<Rightarrow> string \<Rightarrow> bool" where
  "stream_on v f p buf \<longleftrightarrow> pw_filename f = p \<and> (\<exists>h. pw_file f = Some h \<and> fv_stream v h = Some (p, buf))"

lemma Append_posix:
  assumes "posix_contract sys V P" "p \<in> P" "stream_on (V w) f p buf"
  shows "\<exists>s w' buf'. PosixWritable_Append sys data f w = Some (s, f, w') \<and> only P {p} (V w) (V w') \<and>
    stream_on (V w') f p buf' \<and>
    (status_ok s \<longrightarrow> (\<forall>d. fv_file (V w) p = Some d \<longrightarrow>
       (\<exists>d'. fv_file (V w') p = Some d' \<and> d' @ buf' = d @ buf @ data)))"
proof -
  from assms(3) obtain h where h: "pw_file f = Some h" "pw_filename f = p" "fv_stream (V w) h = Some (p, buf)"
    by (auto simp: stream_on_def)
  obtain n w' where c: "sys_fwrite sys data h w = (n, w')" by fastforce
  from fwrite_call [OF assms(1,2) c h(3)] show ?thesis
    by (auto simp: PosixWritable_Append_def stream_on_def h c)
qed

lemma Sync_posix:
  assumes "posix_contract sys V P" "p \<in> P" "stream_on (V w) f p buf" "take 8 (base_of p) \<noteq> ''MANIFEST''"
  shows "\<exists>s w' buf'. PosixWritable_Sync sys f w = Some (s, f, w') \<and> only P {p} (V w) (V w') \<and>
    stream_on (V w') f p buf' \<and>
    (status_ok s \<longrightarrow> buf' = [] \<and> fv_synced (V w') p \<and>
       (\<forall>d. fv_file (V w) p = Some d \<longrightarrow> fv_file (V w') p = Some (d @ buf)))"
proof -
  from assms(3) obtain h where h: "pw_file f = Some h" "pw_filename f = p" "fv_stream (V w) h = Some (p, buf)"
    by (auto simp: stream_on_def)
  obtain ok w1 where c: "sys_fflush sys h w = (ok, w1)" by fastforce
  obtain ok2 w2 where c2: "sys_fdatasync sys h w1 = (ok2, w2)" by fastforce
  from fflush_call [OF assms(1,2) c h(3)] obtain buf1 where
    f: "only P {p} (V w) (V w1)" "fv_stream (V w1) h = Some (p, buf1)"
      "ok \<Longrightarrow> buf1 = [] \<and> (\<forall>d. fv_file (V w) p = Some d \<longrightarrow> fv_file (V w1) p = Some (d @ buf))" by blast
  note s = fdatasync_call [OF assms(1,2) c2 f(2)]
  have m: "PosixWritable_SyncDirIfManifest sys f w = (Status_OK, w)"
    using assms(4) by (simp add: PosixWritable_SyncDirIfManifest_def h)
  show ?thesis
  proof (cases ok)
    case True
    have "only P {p} (V w) (V w2)" using only_trans [OF f(1)] s by blast
    with True s f(3) show ?thesis by (auto simp: PosixWritable_Sync_def m stream_on_def h c c2)
  next
    case False
    with f show ?thesis by (auto simp: PosixWritable_Sync_def m stream_on_def h c)
  qed
qed

lemma Close_posix:
  assumes "posix_contract sys V P" "p \<in> P" "stream_on (V w) f p buf"
  shows "\<exists>s w'. PosixWritable_Close sys f w = Some (s, f\<lparr>pw_file := None\<rparr>, w') \<and> only P {p} (V w) (V w') \<and>
    (status_ok s \<longrightarrow> (\<forall>d. fv_file (V w) p = Some d \<longrightarrow> fv_file (V w') p = Some (d @ buf)) \<and>
       (buf = [] \<longrightarrow> fv_synced (V w) p \<longrightarrow> fv_synced (V w') p))"
proof -
  from assms(3) obtain h where h: "pw_file f = Some h" "pw_filename f = p" "fv_stream (V w) h = Some (p, buf)"
    by (auto simp: stream_on_def)
  obtain ok w' where c: "sys_fclose sys h w = (ok, w')" by fastforce
  from fclose_call [OF assms(1,2) c h(3)] show ?thesis
    by (auto simp: PosixWritable_Close_def h c)
qed

lemma delete_posix:
  assumes "posix_contract sys V P" "p \<in> P" "stream_on (V w) f p buf"
  shows "only P {p} (V w) (V (PosixWritable_delete sys f w))"
proof -
  from assms(3) obtain h where h: "pw_file f = Some h" "fv_stream (V w) h = Some (p, buf)"
    by (auto simp: stream_on_def)
  obtain ok w' where c: "sys_fclose sys h w = (ok, w')" by fastforce
  from fclose_call [OF assms(1,2) c h(2)] show ?thesis by (simp add: PosixWritable_delete_def h c)
qed

lemma DeleteFile_posix: "posix_contract sys V P \<Longrightarrow> p \<in> P \<Longrightarrow> only P {p} (V w) (V (snd (Posix_DeleteFile sys p w)))"
  using unlink_call [of sys V P p w] by (auto simp: Posix_DeleteFile_def split: prod.splits)

section \<open>A file is written whole and synced, or the status says no\<close>

lemma DoWriteStringToFile_posix:
  assumes "posix_contract sys V P" "p \<in> P" "take 8 (base_of p) \<noteq> ''MANIFEST''"
  shows "\<exists>s w'. DoWriteStringToFile (PosixEnv sys) data p sync w = Some (s, w') \<and> only P {p} (V w) (V w') \<and>
    (status_ok s \<longrightarrow> fv_file (V w') p = Some data \<and> (sync \<longrightarrow> fv_synced (V w') p))"
proof -
  obtain r w0 where o: "sys_fopen_w sys p w = (r, w0)" by fastforce
  have f0: "only P {p} (V w) (V w0)" using fopen_call [OF assms(1,2) o] by blast
  note posix = assms(1,2)
  show ?thesis
  proof (cases r)
    case None
    with f0 o show ?thesis by (simp add: DoWriteStringToFile_def PosixEnv_def Posix_NewWritableFile_def)
  next
    case (Some h)
    let ?f = "\<lparr>pw_filename = p, pw_file = Some h\<rparr>"
    from fopen_call [OF posix o] Some
    have s0: "fv_file (V w0) p = Some []" "stream_on (V w0) ?f p []" by (auto simp: stream_on_def)
    from Append_posix [OF posix s0(2), of data] s0(1) obtain s1 w1 buf1 where
      a: "PosixWritable_Append sys data ?f w0 = Some (s1, ?f, w1)" "only P {p} (V w0) (V w1)"
        "stream_on (V w1) ?f p buf1"
        "status_ok s1 \<Longrightarrow> \<exists>d. fv_file (V w1) p = Some d \<and> d @ buf1 = data" by auto
    define sr where "sr = (if status_ok s1 \<and> sync then PosixWritable_Sync sys ?f w1 else Some (s1, ?f, w1))"
    from Sync_posix [OF posix a(3) assms(3)] a(3,4) obtain s2 w2 buf2 where
      b: "sr = Some (s2, ?f, w2)" "only P {p} (V w1) (V w2)" "stream_on (V w2) ?f p buf2"
        "status_ok s2 \<Longrightarrow> (\<exists>d. fv_file (V w2) p = Some d \<and> d @ buf2 = data) \<and>
           (sync \<longrightarrow> buf2 = [] \<and> fv_synced (V w2) p)"
      unfolding sr_def by (cases "status_ok s1 \<and> sync") (fastforce, auto)
    have only2: "only P {p} (V w) (V w2)" using f0 a(2) b(2) only_trans by metis
    define cr where "cr = (if status_ok s2 then PosixWritable_Close sys ?f w2 else Some (s2, ?f, w2))"
    have "\<exists>s3 f3 w3. cr = Some (s3, f3, w3) \<and> only P {p} (V w2) (V (PosixWritable_delete sys f3 w3)) \<and>
       (status_ok s3 \<longrightarrow> fv_file (V (PosixWritable_delete sys f3 w3)) p = Some data \<and>
          (sync \<longrightarrow> fv_synced (V (PosixWritable_delete sys f3 w3)) p))"
    proof (cases "status_ok s2")
      case True
      with Close_posix [OF posix b(3)] b(4) show ?thesis
        unfolding cr_def by (fastforce simp: PosixWritable_delete_def)
    next
      case False
      with delete_posix [OF posix b(3)] show ?thesis unfolding cr_def by simp
    qed
    then obtain s3 f3 w3 where
      c: "cr = Some (s3, f3, w3)" "only P {p} (V w2) (V (PosixWritable_delete sys f3 w3))"
        "status_ok s3 \<Longrightarrow> fv_file (V (PosixWritable_delete sys f3 w3)) p = Some data \<and>
          (sync \<longrightarrow> fv_synced (V (PosixWritable_delete sys f3 w3)) p)" by blast
    let ?w = "PosixWritable_delete sys f3 w3"
    have e: "DoWriteStringToFile (PosixEnv sys) data p sync w =
        Some (s3, if \<not> status_ok s3 then snd (Posix_DeleteFile sys p ?w) else ?w)"
      using a(1) b(1) c(1) o Some
      by (simp add: DoWriteStringToFile_def PosixEnv_def Posix_NewWritableFile_def sr_def cr_def Let_def
          split del: if_split cong: if_cong)
    have "only P {p} (V w) (V ?w)" using only2 c(2) by (rule only_trans)
    moreover have "only P {p} (V w) (V (snd (Posix_DeleteFile sys p ?w)))"
      using only_trans [OF calculation] DeleteFile_posix [OF posix] by blast
    ultimately show ?thesis using c(3) unfolding e by auto
  qed
qed

end
