(* ===== verification/LdbFilename.thy ===== *)
theory LdbFilename
  imports LdbLogging LdbPosixEnv
begin

text \<open>
  \<open>db/filename.h\<close> and \<open>db/filename.cc\<close>: the names of a database's files, their parser, and
  the switch of \<open>CURRENT\<close>. \<open>ParseFileName\<close> gives back the number and the type of every name
  the other functions make, temporary files included, which the list of owned names in
  \<open>filename.cc\<close> leaves out. \<open>SetCurrentFile\<close> runs on any environment, and is atomic on
  \<open>PosixEnv\<close> over calls that keep \<open>posix_contract\<close>.
\<close>

section \<open>Making names\<close>

text \<open>\<open>%06llu\<close>; the buffers of 100 characters are never filled.\<close>

definition padded :: "64 word \<Rightarrow> string" where
  "padded number = (let s = decimal (unat number) in replicate (6 - length s) CHR ''0'' @ s)"

definition MakeFileName :: "string \<Rightarrow> 64 word \<Rightarrow> string \<Rightarrow> string" where
  "MakeFileName name number suffix = name @ ''/'' @ padded number @ ''.'' @ suffix"

definition LogFileName :: "string \<Rightarrow> 64 word \<Rightarrow> string option" where
  "LogFileName name number = (if number > 0 then Some (MakeFileName name number ''log'') else None)"

definition TableFileName :: "string \<Rightarrow> 64 word \<Rightarrow> string option" where
  "TableFileName name number = (if number > 0 then Some (MakeFileName name number ''ldb'') else None)"

definition SSTTableFileName :: "string \<Rightarrow> 64 word \<Rightarrow> string option" where
  "SSTTableFileName name number = (if number > 0 then Some (MakeFileName name number ''sst'') else None)"

definition DescriptorFileName :: "string \<Rightarrow> 64 word \<Rightarrow> string option" where
  "DescriptorFileName dbname number =
     (if number > 0 then Some (dbname @ ''/MANIFEST-'' @ padded number) else None)"

definition CurrentFileName :: "string \<Rightarrow> string" where "CurrentFileName dbname = dbname @ ''/CURRENT''"
definition LockFileName :: "string \<Rightarrow> string" where "LockFileName dbname = dbname @ ''/LOCK''"

definition TempFileName :: "string \<Rightarrow> 64 word \<Rightarrow> string option" where
  "TempFileName dbname number = (if number > 0 then Some (MakeFileName dbname number ''dbtmp'') else None)"

definition InfoLogFileName :: "string \<Rightarrow> string" where "InfoLogFileName dbname = dbname @ ''/LOG''"
definition OldInfoLogFileName :: "string \<Rightarrow> string" where "OldInfoLogFileName dbname = dbname @ ''/LOG.old''"

section \<open>Parsing names\<close>

text \<open>The inner None is the answer false, the outer one the undefined overflow of \<open>ConsumeDecimalNumber\<close>.\<close>

datatype FileType = kLogFile | kDBLockFile | kTableFile | kDescriptorFile | kCurrentFile | kTempFile | kInfoLogFile

definition ParseFileName :: "string \<Rightarrow> (64 word \<times> FileType) option option" where
  "ParseFileName fname =
     (if fname = ''CURRENT'' then Some (Some (0, kCurrentFile))
      else if fname = ''LOCK'' then Some (Some (0, kDBLockFile))
      else if fname = ''LOG'' \<or> fname = ''LOG.old'' then Some (Some (0, kInfoLogFile))
      else if take 9 fname = ''MANIFEST-'' then
        do { (num, rest) \<leftarrow> ConsumeDecimalNumber (drop 9 fname);
             Some (case num of
                 None \<Rightarrow> None
               | Some num \<Rightarrow> if rest \<noteq> [] then None else Some (num, kDescriptorFile)) }
      else
        do { (num, suffix) \<leftarrow> ConsumeDecimalNumber fname;
             Some (case num of
                 None \<Rightarrow> None
               | Some num \<Rightarrow>
                   if suffix = ''.log'' then Some (num, kLogFile)
                   else if suffix = ''.sst'' \<or> suffix = ''.ldb'' then Some (num, kTableFile)
                   else if suffix = ''.dbtmp'' then Some (num, kTempFile)
                   else None) })"

section \<open>The current descriptor\<close>

definition SetCurrentFile :: "('f, 'e) Env \<Rightarrow> string \<Rightarrow> 64 word \<Rightarrow> 'e \<Rightarrow> (Status \<times> 'e) option" where
  "SetCurrentFile env dbname descriptor_number e =
     do { manifest \<leftarrow> DescriptorFileName dbname descriptor_number;
          contents \<leftarrow> (if take (length dbname + 1) manifest = dbname @ ''/''
                       then Some (drop (length dbname + 1) manifest) else None);
          tmp \<leftarrow> TempFileName dbname descriptor_number;
          (s, e) \<leftarrow> WriteStringToFileSync env (contents @ [CHR 0x0A]) tmp e;
          let (s, e) = (if status_ok s then env_RenameFile env tmp (CurrentFileName dbname) e else (s, e));
          let e = (if \<not> status_ok s then snd (env_DeleteFile env tmp e) else e);
          Some (s, e) }"

section \<open>Names are parsed back\<close>

lemma padded_parses: "no_digit_next rest \<Longrightarrow> ConsumeDecimalNumber (padded n @ rest) = Some (Some n, rest)"
  using ConsumeDecimalNumber_padded [of rest "6 - length (decimal (unat n))" n] by (simp add: padded_def Let_def)

lemma padded_digits: "\<forall>c \<in> set (padded n). is_digit c" "padded n \<noteq> []"
  using decimal_digits [of "unat n"] by (auto simp: padded_def Let_def is_digit_def)

lemma padded_first: "padded n @ rest \<noteq> c # cs" if "\<not> is_digit c"
  using padded_digits [of n] that by (cases "padded n") auto

lemma no_digit_dot [simp]: "no_digit_next (CHR ''.'' # cs)"
  by (simp add: no_digit_next_def is_digit_def)

lemma parse_number:
  "ParseFileName (padded n @ CHR ''.'' # suffix) =
     Some (if suffix = ''log'' then Some (n, kLogFile)
      else if suffix = ''sst'' \<or> suffix = ''ldb'' then Some (n, kTableFile)
      else if suffix = ''dbtmp'' then Some (n, kTempFile)
      else None)"
proof -
  have "take 9 (padded n @ CHR ''.'' # suffix) \<noteq> ''MANIFEST-''"
    using padded_digits [of n] by (cases "padded n") (auto simp: is_digit_def)
  moreover have "padded n @ CHR ''.'' # suffix \<notin> {''CURRENT'', ''LOCK'', ''LOG'', ''LOG.old''}"
    using padded_first [of "CHR ''C''" n] padded_first [of "CHR ''L''" n] by (auto simp: is_digit_def)
  ultimately show ?thesis by (simp add: ParseFileName_def padded_parses)
qed

lemma parse_manifest: "ParseFileName (''MANIFEST-'' @ padded n) = Some (Some (n, kDescriptorFile))"
  using padded_parses [of "[]" n] by (simp add: ParseFileName_def no_digit_next_def)

text \<open>A name is the directory, a slash and what the parser gets.\<close>

definition file_of :: "string \<Rightarrow> string \<Rightarrow> string" where
  "file_of dbname path = drop (length dbname + 1) path"

lemma file_of_simps [simp]: "file_of dbname (dbname @ CHR ''/'' # rest) = rest"
  by (simp add: file_of_def)

lemma parse_names:
  assumes "n > 0"
  shows "map_option (ParseFileName \<circ> file_of db) (LogFileName db n) = Some (Some (Some (n, kLogFile)))"
    "map_option (ParseFileName \<circ> file_of db) (TableFileName db n) = Some (Some (Some (n, kTableFile)))"
    "map_option (ParseFileName \<circ> file_of db) (SSTTableFileName db n) = Some (Some (Some (n, kTableFile)))"
    "map_option (ParseFileName \<circ> file_of db) (DescriptorFileName db n) = Some (Some (Some (n, kDescriptorFile)))"
    "map_option (ParseFileName \<circ> file_of db) (TempFileName db n) = Some (Some (Some (n, kTempFile)))"
  using assms parse_manifest
  by (simp_all add: LogFileName_def TableFileName_def SSTTableFileName_def DescriptorFileName_def
      TempFileName_def MakeFileName_def parse_number)

lemma parse_fixed_names:
  "ParseFileName (file_of db (CurrentFileName db)) = Some (Some (0, kCurrentFile))"
  "ParseFileName (file_of db (LockFileName db)) = Some (Some (0, kDBLockFile))"
  "ParseFileName (file_of db (InfoLogFileName db)) = Some (Some (0, kInfoLogFile))"
  "ParseFileName (file_of db (OldInfoLogFileName db)) = Some (Some (0, kInfoLogFile))"
  by (simp_all add: CurrentFileName_def LockFileName_def InfoLogFileName_def OldInfoLogFileName_def ParseFileName_def)

section \<open>CURRENT changes at once\<close>

lemma base_of_file:
  assumes "CHR ''/'' \<notin> set b"
  shows "base_of (d @ ''/'' @ b) = b"
proof -
  have "takeWhile (\<lambda>c. c \<noteq> CHR ''/'') (rev b) = rev b"
    by (rule takeWhile_eq_all_conv [THEN iffD2]) (use assms in auto)
  then show ?thesis by (simp add: base_of_def takeWhile_tail del: takeWhile_eq_all_conv)
qed

text \<open>The temporary file is not CURRENT and not a manifest, so \<open>Sync\<close> leaves the directory alone.\<close>

lemma tmp_not_current: "db @ ''/'' @ padded n @ ''.dbtmp'' \<noteq> db @ ''/CURRENT''"
  using padded_first [of "CHR ''C''" n "''.dbtmp''" "''URRENT''"] by (auto simp: is_digit_def)

lemma tmp_not_manifest: "take 8 (base_of (db @ ''/'' @ padded n @ ''.dbtmp'')) \<noteq> ''MANIFEST''"
proof -
  have "CHR ''/'' \<notin> set (padded n)" using padded_digits(1) [of n] by (auto simp: is_digit_def)
  then have "base_of (db @ ''/'' @ padded n @ ''.dbtmp'') = padded n @ ''.dbtmp''"
    using base_of_file [of "padded n @ ''.dbtmp''" db] by simp
  then show ?thesis using padded_digits [of n] by (cases "padded n") (auto simp: is_digit_def)
qed

lemma SetCurrentFile_atomic:
  fixes db :: string
  defines "cur \<equiv> CurrentFileName db"
  assumes "posix_contract sys V P" "n > 0" "TempFileName db n = Some tmp" "tmp \<in> P" "cur \<in> P"
  shows "\<exists>s w'. SetCurrentFile (PosixEnv sys) db n w = Some (s, w') \<and>
     (if status_ok s
      then fv_file (V w') cur = Some (''MANIFEST-'' @ padded n @ [CHR 0x0A]) \<and> fv_synced (V w') cur \<and>
        fv_file (V w') tmp = None
      else s = IOError tmp EIO_text \<or>
        fv_file (V w') cur = fv_file (V w) cur \<and> fv_synced (V w') cur = fv_synced (V w) cur) \<and>
     (\<forall>g \<in> P - {tmp, cur}. fv_file (V w') g = fv_file (V w) g \<and> fv_synced (V w') g = fv_synced (V w) g)"
proof -
  let ?new = "''MANIFEST-'' @ padded n @ [CHR 0x0A]"
  have tmp: "tmp = db @ ''/'' @ padded n @ ''.dbtmp''"
    using assms(3,4) by (simp add: TempFileName_def MakeFileName_def)
  have d: "tmp \<noteq> cur" "take 8 (base_of tmp) \<noteq> ''MANIFEST''"
    using tmp_not_current [of db n] tmp_not_manifest [of db n] by (simp_all add: tmp cur_def CurrentFileName_def)
  from DoWriteStringToFile_posix [OF assms(2,5) d(2), of ?new True w] obtain s1 w1 where
    w: "WriteStringToFileSync (PosixEnv sys) ?new tmp w = Some (s1, w1)" "only P {tmp} (V w) (V w1)"
      "status_ok s1 \<Longrightarrow> fv_file (V w1) tmp = Some ?new \<and> fv_synced (V w1) tmp"
    by (auto simp: WriteStringToFileSync_def)
  obtain ok w2 where m: "sys_rename sys tmp cur w1 = (ok, w2)" by fastforce
  note r = rename_call [OF assms(2,5,6) d(1) m]
  have s: "SetCurrentFile (PosixEnv sys) db n w =
      (if \<not> status_ok s1 then Some (s1, snd (Posix_DeleteFile sys tmp w1))
       else Some (errno_status sys tmp ok w2, if ok then w2 else snd (Posix_DeleteFile sys tmp w2)))"
    using assms(3,4) w(1) m
    by (simp add: SetCurrentFile_def DescriptorFileName_def PosixEnv_def Posix_RenameFile_def cur_def)
  have del: "only P {tmp} (V x) (V (snd (Posix_DeleteFile sys tmp x)))" for x
    using DeleteFile_posix [OF assms(2,5)] .
  consider "\<not> status_ok s1" | "status_ok s1" "ok" | "status_ok s1" "\<not> ok" by blast
  then show ?thesis
  proof cases
    case 1
    with only_trans [OF w(2) del] d(1) assms(6) show ?thesis by (auto simp: s only_def)
  next
    case 2
    with only_trans [OF only_mono [OF w(2)] r(1)] r(2) w(3) show ?thesis by (auto simp: s only_def)
  next
    case 3
    let ?w = "snd (Posix_DeleteFile sys tmp w2)"
    have e: "SetCurrentFile (PosixEnv sys) db n w = Some (IOError tmp (sys_errno sys w2), ?w)"
      using 3 by (simp add: s errno_status_def)
    have "only P {tmp, cur} (V w) (V w2)" using only_trans [OF only_mono [OF w(2)] r(1)] by simp
    then have "only P {tmp, cur} (V w) (V ?w)" using only_trans only_mono [OF del] by blast
    moreover have "sys_errno sys w2 = EIO_text \<or> only P {tmp} (V w) (V ?w)"
      using r(3) [OF 3(2)] only_trans [OF w(2)] only_trans [OF _ del] only_mono by blast
    ultimately show ?thesis using d(1) assms(6) unfolding e by (auto simp: only_def)
  qed
qed

end
