(* ===== verification/Examples.thy ===== *)
theory Examples
  imports PbRequiredLoop Base64 LdbFilename
begin

text \<open>
  A concrete message the witnesses of the properties use: a struct with a \<open>required uint32\<close>
  and a \<open>required\<close> submessage that has one \<open>required int32\<close>, its descriptor tables as the
  macros build them, and stores that hold it.
\<close>

definition ex_member :: "nat \<Rightarrow> nat \<Rightarrow> pb_member" where
  "ex_member off sz = \<lparr>m_offset = off, m_size = sz, m_elem_size = sz, m_aux_offset = off\<rparr>"

definition ex_inner :: "pb_decl list" where
  "ex_inner = [D_FIELD 1 T_INT32 R_REQUIRED A_STATIC (ex_member 0 4) 0]"

definition ex_outer :: "pb_decl list" where
  "ex_outer = [D_FIELD 1 T_UINT32 R_REQUIRED A_STATIC (ex_member 0 4) 0,
     D_FIELD 2 T_MESSAGE R_REQUIRED A_STATIC (ex_member 4 4) 1]"

definition ex_env :: pb_env where
  "ex_env = plain_env\<lparr>e_descr := (\<lambda>p. if p = 1 then message_table ex_inner else [])\<rparr>"

text \<open>The struct at address 64, and with it a buffer of sixteen bytes at address 100.\<close>

definition ex_struct :: cstate where
  "ex_struct = store_with [(64, [44, 1, 0, 0, 1, 0, 0, 0])]"

definition ex_store :: cstate where
  "ex_store = store_with [(64, [44, 1, 0, 0, 1, 0, 0, 0]), (100, replicate 16 0)]"

lemma ex_tables:
  "message_table ex_inner = [\<lparr>f_tag = 1, f_type = 0, f_data_offset = 0, f_size_offset = 0,
     f_data_size = 4, f_array_size = 0, f_ptr = 0\<rparr>, PB_LAST_FIELD]"
  "message_table ex_outer = [\<lparr>f_tag = 1, f_type = 1, f_data_offset = 0, f_size_offset = 0,
     f_data_size = 4, f_array_size = 0, f_ptr = 0\<rparr>,
     \<lparr>f_tag = 2, f_type = 7, f_data_offset = 0, f_size_offset = 0,
     f_data_size = 4, f_array_size = 0, f_ptr = 1\<rparr>, PB_LAST_FIELD]"
  by (simp_all add: message_table_def ex_inner_def ex_outer_def ex_member_def macro_defs
      pb_dataoffset_def dataoffset_first_def dataoffset_other_def)

lemma ex_load:
  "load_uint 4 ex_struct 64 = Some 300" "load_uint 4 ex_struct 68 = Some 1"
  by (simp_all add: load_uint_def load_bytes_def ex_struct_def store_with_def valid_def overwrite_def
      upt_conv_Cons)

lemma ex_varints:
  "varint_bytes 8 = [8]" "varint_bytes 18 = [18]" "varint_bytes 300 = [0xAC, 0x02]"
  "varint_bytes 1 = [1]" "varint_bytes 2 = [2]"
  by code_simp+

lemma ex_tags: "tag_value 0 1 = 8" "tag_value 2 2 = 18"
  by (simp_all add: tag_value_def)

lemmas ex_eval = ex_tables terminated_def field_count_def PB_LAST_FIELD_def entry_bytes_def
  field_bytes_def rule_bytes_def tagged_bytes_def tag_bytes_def value_bytes_def implicit_has_def
  PB_LTYPE_def PB_HTYPE_def PB_ATYPE_def wire_type_of_def ex_env_def descr_def load_unsigned_def
  load_signed_def ex_load ex_varints ex_tags prefixed_def same_union_def prev_field_size_def

lemma ex_message:
  "message_bytes 2 ex_env ex_struct (message_table ex_outer) 64 = Some [8, 0xAC, 2, 18, 2, 8, 1]"
proof -
  have "message_bytes (Suc 0) ex_env ex_struct (message_table ex_inner) 68 = Some [8, 1]"
    by (simp add: ex_eval)
  then have "message_bytes (Suc (Suc 0)) ex_env ex_struct (message_table ex_outer) 64 =
      Some [8, 0xAC, 2, 18, 2, 8, 1]"
    by (simp add: ex_eval upt_conv_Cons del: message_bytes.simps add: message_bytes.simps(2) [of "Suc 0"])
  then show ?thesis by (simp only: numeral_2_eq_2)
qed

lemma ex_seven: "Suc (Suc (Suc (Suc (Suc (Suc (Suc 0)))))) = 7"
  by simp

section \<open>The stores of the example\<close>

lemma ex_buffer: "valid ex_store 100 16" "untouched ex_struct 100 16" "load_bytes ex_store 100 16 = Some (replicate 16 0)"
proof -
  show v: "valid ex_store 100 16" by (simp add: valid_def ex_store_def store_with_def)
  show "untouched ex_struct 100 16" by (auto simp: untouched_def valid_def ex_struct_def store_with_def)
  have "map (overwrite m 100 (replicate 16 0)) [100..<100 + length (replicate 16 (0 :: byte))] = replicate 16 0" for m
    by (rule map_overwrite)
  then have "map (overwrite m 100 (replicate 16 0)) [100..<116] = replicate 16 (0 :: byte)" for m by simp
  moreover have "c_mem ex_store x = overwrite (\<lambda>_. 0) 100 (replicate 16 0) x" if "100 \<le> x" for x
    using that by (simp add: ex_store_def store_with_def overwrite_def)
  then have "map (c_mem ex_store) [100..<116] = map (overwrite (\<lambda>_. 0) 100 (replicate 16 0)) [100..<116]"
    by (intro map_cong) auto
  ultimately show "load_bytes ex_store 100 16 = Some (replicate 16 0)"
    using v by (simp add: load_bytes_def del: map_eq_conv)
qed

lemma ex_extends: "extends ex_struct ex_store"
proof -
  have e: "ex_store = ex_struct\<lparr>c_objs := (64, 8) # [(100, 16)], c_mem := overwrite (c_mem ex_struct) 100 (replicate 16 0)\<rparr>"
    by (auto simp: ex_store_def ex_struct_def store_with_def overwrite_def fun_eq_iff)
  have "extends ex_struct (ex_struct\<lparr>c_objs := (64, 8) # [(100, 16)]\<rparr>)"
    by (auto simp: extends_def valid_def ex_struct_def store_with_def)
  then have "extends ex_struct (ex_struct\<lparr>c_objs := (64, 8) # [(100, 16)]\<rparr>
      \<lparr>c_mem := overwrite (c_mem (ex_struct\<lparr>c_objs := (64, 8) # [(100, 16)]\<rparr>)) 100 (replicate 16 0)\<rparr>)"
    by (rule extends_overwrite) (simp add: ex_buffer)
  then show ?thesis by (simp add: e)
qed

lemma ex_static: "static_table 2 ex_env (valid ex_store) 8 (message_table ex_outer)"
proof -
  have "static_table (Suc 0) ex_env (valid ex_store) 4 (message_table ex_inner)"
    by (simp add: ex_eval static_entry_def data_width_def)
  then have "static_table (Suc (Suc 0)) ex_env (valid ex_store) 8 (message_table ex_outer)"
    by (simp add: ex_eval static_entry_def data_width_def All_less_Suc del: static_table.simps
        add: static_table.simps(2) [of "Suc 0"])
  then show ?thesis by (simp only: numeral_2_eq_2)
qed

lemma ex_live: "valid ex_store 64 8" "valid ex_store 68 4"
  by (simp_all add: valid_def ex_store_def store_with_def)

section \<open>A message on the wire\<close>

text \<open>The bytes of the inner message at address 100: its one required field, with the value 5.\<close>

definition ex_wire :: cstate where
  "ex_wire = store_with [(64, [0, 0, 0, 0]), (100, [8, 5])]"

abbreviation (input) ex_input :: "nat \<Rightarrow> pb_istream" where "ex_input n \<equiv> pb_istream_from_buffer 100 n"
abbreviation (input) ex_rec :: pb_rec where "ex_rec \<equiv> rec_at (Suc 0) ex_env (pb_decode_noinit 0 ex_env)"
abbreviation (input) ex_start :: decode_locals where "ex_start \<equiv> initial_locals (iter_at (message_table ex_inner) 64 0)"

lemma ex_wire_view: "buf_view ex_wire (ex_input 2) [8, 5]"
  by (simp add: buf_view_def pb_istream_from_buffer_def load_bytes_def valid_def ex_wire_def store_with_def overwrite_def)

lemma ex_wire_tag: "pb_decode_tag ex_env ex_wire (ex_input 2) = Some (True, 0, 1, False, ex_wire, buf_adv (ex_input 2) 1)"
  using bufsrc.decode_tag_leb128 [of ex_wire "ex_input 2" 0 1 "[5]"] ex_wire_view by (simp add: ex_tags ex_varints)

lemma ex_wire_value: "pb_decode_varint ex_env ex_wire (buf_adv (ex_input 2) 1) = Some (Some 5, ex_wire, buf_adv (ex_input 2) 2)"
proof -
  have v: "varint_bytes 5 = [5]" by code_simp
  then have "buf_view ex_wire (buf_adv (ex_input 2) 1) (varint_bytes 5 @ [])"
    using bufsrc.view_adv [OF ex_wire_view, of 1] by simp
  from bufsrc.parsesD [OF bufsrc.parses_varint this] show ?thesis by (simp add: v buf_adv_def)
qed

lemma ex_left: "i_bytes_left (buf_adv (ex_input 2) 2) = 0" "i_bytes_left (ex_input n) = n"
  by (simp_all add: buf_adv_def pb_istream_from_buffer_def)

lemma ex_round:
  "\<exists>s str l. decode_round ex_env ex_rec (message_table ex_inner) ex_wire (ex_input 2) ex_start = Some (Next s str l) \<and>
     i_bytes_left str = 0 \<and> d_fcf l = None"
proof -
  have "\<exists>s. store_uint 4 ex_wire 64 5 = Some s"
    by (simp add: store_uint_def store_bytes_def valid_def ex_wire_def store_with_def)
  then show ?thesis
    using ex_wire_value ex_left
    by (auto simp: decode_round_def ex_wire_tag known_field_def initial_locals_def pb_field_iter_find_def
        iter_find_loop.simps nth_opt_def it_field_def ex_tables PB_LTYPE_def PB_HTYPE_def PB_ATYPE_def
        note_fixed_count_def decode_field_def decode_static_field_def PB_DECODERS_def pb_dec_varint_def with_fc_def
        Let_def store_clamped_def clamp_signed_def mark_seen_def)
qed

lemma ex_reads:
  "\<exists>s str l. decode_reads ex_env ex_rec (message_table ex_inner) ex_wire (ex_input 2) ex_start [1] (s, str, l) \<and> d_fcf l = None"
proof -
  obtain s str l where r: "decode_round ex_env ex_rec (message_table ex_inner) ex_wire (ex_input 2) ex_start = Some (Next s str l)"
    "i_bytes_left str = 0" "d_fcf l = None" using ex_round by blast
  have "decode_reads ex_env ex_rec (message_table ex_inner) ex_wire (ex_input 2) ex_start [1] (s, str, l)"
    by (rule reads_tag [OF _ ex_wire_tag r(1) reads_end [OF r(2)]]) (simp add: ex_left)
  with r(3) show ?thesis by blast
qed

lemma ex_inner_table:
  "terminated (message_table ex_inner)" "length (message_table ex_inner) < 2 ^ 32"
  "required_distinct (message_table ex_inner)" "field_count (message_table ex_inner) = 1"
  by (simp_all add: ex_eval required_distinct_def)

lemma ex_inner_entry:
  "f_tag (message_table ex_inner ! 0) = 1" "PB_HTYPE (f_type (message_table ex_inner ! 0)) = PB_HTYPE_REQUIRED"
  "required_before (message_table ex_inner) 0 = 0"
  by (simp_all add: ex_eval required_before_def)

section \<open>A file system\<close>

text \<open>
  Files in a map and one stream with a buffer, for \<open>SetCurrentFile\<close>; \<open>ok\<close> says whether
  \<open>rename\<close> is permitted.
\<close>

record ex_world =
  xw_files :: "string \<Rightarrow> string option"
  xw_stream :: "(string \<times> string) option"

definition ex_flush :: "ex_world \<Rightarrow> ex_world" where
  "ex_flush w = (case xw_stream w of None \<Rightarrow> w
     | Some (p, buf) \<Rightarrow> w\<lparr>xw_files := (xw_files w)(p := map_option (\<lambda>d. d @ buf) (xw_files w p)),
         xw_stream := Some (p, [])\<rparr>)"

definition ex_sys :: "bool \<Rightarrow> (unit, ex_world) Sys" where
  "ex_sys ok = \<lparr>
     sys_fopen_w = (\<lambda>p w. (Some (), w\<lparr>xw_files := (xw_files w)(p \<mapsto> []), xw_stream := Some (p, [])\<rparr>)),
     sys_fwrite = (\<lambda>bs h w. (length bs, w\<lparr>xw_stream := map_option (\<lambda>(p, buf). (p, buf @ bs)) (xw_stream w)\<rparr>)),
     sys_fflush = (\<lambda>h w. (True, ex_flush w)),
     sys_fdatasync = (\<lambda>h w. (True, w)),
     sys_fclose = (\<lambda>h w. (True, (ex_flush w)\<lparr>xw_stream := None\<rparr>)),
     sys_unlink = (\<lambda>p w. (True, w\<lparr>xw_files := (xw_files w)(p := None)\<rparr>)),
     sys_rename = (\<lambda>p q w. if ok then (True, w\<lparr>xw_files := (xw_files w)(q := xw_files w p, p := None)\<rparr>) else (False, w)),
     sys_open_dir = (\<lambda>p w. (None, w)),
     sys_fsync = (\<lambda>fd w. (True, w)),
     sys_close = (\<lambda>fd w. w),
     sys_errno = (\<lambda>w. ''Permission denied'')\<rparr>"

definition ex_view :: "ex_world \<Rightarrow> unit FileView" where
  "ex_view w = \<lparr>fv_file = xw_files w, fv_synced = (\<lambda>p. True), fv_stream = (\<lambda>h. xw_stream w)\<rparr>"

definition ex_disk :: ex_world where
  "ex_disk = \<lparr>xw_files = [''/db/CURRENT'' \<mapsto> ''MANIFEST-000002''], xw_stream = None\<rparr>"

lemma ex_contract: "posix_contract (ex_sys ok) ex_view UNIV"
proof -
  have "fopen_law (ex_sys ok) ex_view UNIV" by (simp add: fopen_law_def ex_sys_def ex_view_def only_def)
  moreover have "fwrite_law (ex_sys ok) ex_view UNIV" by (simp add: fwrite_law_def ex_sys_def ex_view_def only_def)
  moreover have "fflush_law (ex_sys ok) ex_view UNIV"
    by (simp add: fflush_law_def ex_sys_def ex_view_def only_def ex_flush_def)
  moreover have "fdatasync_law (ex_sys ok) ex_view UNIV" by (simp add: fdatasync_law_def ex_sys_def ex_view_def only_def)
  moreover have "fclose_law (ex_sys ok) ex_view UNIV"
    by (simp add: fclose_law_def ex_sys_def ex_view_def only_def ex_flush_def)
  moreover have "unlink_law (ex_sys ok) ex_view UNIV" by (simp add: unlink_law_def ex_sys_def ex_view_def only_def)
  moreover have "rename_law (ex_sys ok) ex_view UNIV"
    by (simp add: rename_law_def ex_sys_def ex_view_def only_def)
  ultimately show ?thesis by (simp add: posix_contract_def)
qed

lemma ex_switch:
  "map_option (status_ok \<circ> fst) (SetCurrentFile (PosixEnv (ex_sys True)) ''/db'' 4 ex_disk) = Some True"
  "map_option (status_ok \<circ> fst) (SetCurrentFile (PosixEnv (ex_sys False)) ''/db'' 4 ex_disk) = Some False"
  "map_option fst (SetCurrentFile (PosixEnv (ex_sys False)) ''/db'' 4 ex_disk) \<noteq>
     Some (IOError ''/db/000004.dbtmp'' EIO_text)"
  by code_simp+

end
