(* ===== verification/LdbComparator.thy ===== *)
theory LdbComparator
  imports LdbCoding "HOL-Library.List_Lexorder"
begin

text \<open>
  Comparison of slices and LevelDB's comparators: \<open>Slice::compare\<close> and its companions
  (\<open>include/leveldb/slice.h\<close>), the bytewise comparator (\<open>util/comparator.cc\<close>), and the
  \<open>Comparator\<close> interface as the locales \<open>three_way\<close> and \<open>comparator\<close>, whose laws are the
  documentation of \<open>include/leveldb/comparator.h\<close>. The bytewise comparator is an instance,
  for the lexicographic order of \<open>List_Lexorder\<close>.
\<close>

section \<open>Slices\<close>

text \<open>
  \<open>memcmp\<close> of the C library on the first \<open>n\<close> bytes: only the sign of its result is
  specified, and the model's is -1, 0 or 1.
\<close>

fun memcmp :: "byte list \<Rightarrow> byte list \<Rightarrow> nat \<Rightarrow> int" where
  "memcmp (a # as) (b # bs) (Suc n) = (if a = b then memcmp as bs n else if a < b then - 1 else 1)"
| "memcmp as bs n = 0"

definition slice_compare :: "byte list \<Rightarrow> byte list \<Rightarrow> int" where
  "slice_compare a b =
     (let min_len = (if length a < length b then length a else length b);
          r = memcmp a b min_len
      in if r = 0 then
           (if length a < length b then - 1 else if length a > length b then 1 else r)
         else r)"

definition starts_with :: "byte list \<Rightarrow> byte list \<Rightarrow> bool" where
  "starts_with s x \<longleftrightarrow> length s \<ge> length x \<and> memcmp s x (length x) = 0"

definition slice_eq :: "byte list \<Rightarrow> byte list \<Rightarrow> bool" where
  "slice_eq x y \<longleftrightarrow> length x = length y \<and> memcmp x y (length x) = 0"

definition slice_ne :: "byte list \<Rightarrow> byte list \<Rightarrow> bool" where
  "slice_ne x y \<longleftrightarrow> \<not> slice_eq x y"

lemma memcmp_0_iff: "n \<le> length a \<Longrightarrow> n \<le> length b \<Longrightarrow> memcmp a b n = 0 \<longleftrightarrow> take n a = take n b"
  by (induction a b n rule: memcmp.induct) auto

lemma slice_eq_iff [simp]: "slice_eq x y \<longleftrightarrow> x = y"
  by (auto simp: slice_eq_def memcmp_0_iff)

lemma starts_with_iff: "starts_with s x \<longleftrightarrow> (\<exists>t. s = x @ t)"
proof
  assume "starts_with s x"
  then have "length x \<le> length s" "memcmp s x (length x) = 0" by (simp_all add: starts_with_def)
  then have "take (length x) s = x" by (simp add: memcmp_0_iff)
  then have "s = x @ drop (length x) s" by (metis append_take_drop_id)
  then show "\<exists>t. s = x @ t" ..
qed (auto simp: starts_with_def memcmp_0_iff)

lemma slice_compare_Nil: "slice_compare [] b = (if b = [] then 0 else - 1)"
  "slice_compare (x # a) [] = 1"
  by (simp_all add: slice_compare_def)

lemma slice_compare_Cons:
  "slice_compare (x # a) (y # b) = (if x = y then slice_compare a b else if x < y then - 1 else 1)"
  by (simp add: slice_compare_def Let_def)

text \<open>The three-way comparison is that of the lexicographic order.\<close>

lemma slice_compare_order: "slice_compare a b = (if a < b then - 1 else if a = b then 0 else 1)"
proof (induction a arbitrary: b)
  case Nil
  then show ?case by (cases b) (simp_all add: slice_compare_Nil)
next
  case (Cons x a)
  then show ?case by (cases b) (auto simp: slice_compare_Nil slice_compare_Cons)
qed

lemma slice_compare_sign:
  "slice_compare a b < 0 \<longleftrightarrow> a < b" "slice_compare a b > 0 \<longleftrightarrow> b < a" "slice_compare a b = 0 \<longleftrightarrow> a = b"
  "slice_compare a b \<le> 0 \<longleftrightarrow> a \<le> b"
  by (auto simp: slice_compare_order)

section \<open>The bytewise comparator\<close>

text \<open>The loop that counts the common prefix.\<close>

fun common_prefix :: "byte list \<Rightarrow> byte list \<Rightarrow> nat" where
  "common_prefix (a # as) (b # bs) = (if a = b then Suc (common_prefix as bs) else 0)"
| "common_prefix as bs = 0"

definition bytewise_separator :: "byte list \<Rightarrow> byte list \<Rightarrow> byte list" where
  "bytewise_separator start limit =
     (let min_length = min (length start) (length limit);
          diff_index = common_prefix start limit
      in if diff_index \<ge> min_length then start
         else (let diff_byte = start ! diff_index in
               if diff_byte < 0xFF \<and> unat diff_byte + 1 < unat (limit ! diff_index)
               then take (diff_index + 1) (start[diff_index := start ! diff_index + 1])
               else start))"

text \<open>The \<open>for\<close> loop, with the bytes already passed.\<close>

fun short_successor_loop :: "byte list \<Rightarrow> byte list \<Rightarrow> byte list" where
  "short_successor_loop passed [] = passed"
| "short_successor_loop passed (byte # key) =
     (if byte \<noteq> 0xFF then passed @ [byte + 1] else short_successor_loop (passed @ [byte]) key)"

definition bytewise_successor :: "byte list \<Rightarrow> byte list" where
  "bytewise_successor key = short_successor_loop [] key"

lemma common_prefix_le: "common_prefix a b \<le> length a" "common_prefix a b \<le> length b"
  by (induction a b rule: common_prefix.induct) auto

lemma take_common_prefix: "take (common_prefix a b) a = take (common_prefix a b) b"
  by (induction a b rule: common_prefix.induct) auto

lemma append_less_append: "(p @ a < p @ b) = (a < b)" for a b :: "byte list"
  by (induction p) auto

lemma less_append_same: "(a :: byte list) < a @ x # b"
  by (induction a) auto

lemma byte_less_Suc: "(b :: byte) < 0xFF \<Longrightarrow> b < b + 1 \<and> unat (b + 1) = unat b + 1"
proof -
  assume "b < 0xFF"
  then have "unat b < 255" by (simp add: word_less_nat_alt)
  then have "unat (b + 1) = unat b + 1" by (simp add: unat_word_ariths)
  then show ?thesis by (simp add: word_less_nat_alt)
qed

text \<open>Two strings that are not prefixes of one another, split at their first difference.\<close>

lemma first_difference:
  assumes "common_prefix a b < min (length a) (length b)"
  obtains p x u y v where "a = p @ x # u" "b = p @ y # v" "x \<noteq> y" "length p = common_prefix a b"
proof -
  have "a ! common_prefix a b \<noteq> b ! common_prefix a b"
    using assms by (induction a b rule: common_prefix.induct) auto
  then show thesis
    using assms that [of "take (common_prefix a b) a" "a ! common_prefix a b"
        "drop (Suc (common_prefix a b)) a" "b ! common_prefix a b" "drop (Suc (common_prefix a b)) b"]
      take_common_prefix [of a b] id_take_nth_drop [of "common_prefix a b" a]
      id_take_nth_drop [of "common_prefix a b" b]
    by simp
qed

lemma separator_cases:
  obtains "bytewise_separator a b = a"
  | p x u y v where "a = p @ x # u" "b = p @ y # v" "x < x + 1" "x + 1 < y"
      "bytewise_separator a b = p @ [x + 1]"
proof (cases "common_prefix a b < min (length a) (length b)")
  case True
  obtain p x u y v where d: "a = p @ x # u" "b = p @ y # v" "x \<noteq> y" "length p = common_prefix a b"
    by (rule first_difference [OF True])
  then have n: "a ! common_prefix a b = x" "b ! common_prefix a b = y"
    by (metis nth_append_length)+
  show thesis
  proof (cases "x < 0xFF \<and> unat x + 1 < unat y")
    case ok: True
    have "take (Suc (length p)) (a[length p := x + 1]) = p @ [x + 1]" by (simp add: d(1))
    moreover have "\<not> min (length a) (length b) \<le> common_prefix a b" using True by (simp only: not_le)
    ultimately have "bytewise_separator a b = p @ [x + 1]"
      using ok n d(4) by (simp only: bytewise_separator_def Let_def if_False if_True simp_thms Suc_eq_plus1 [symmetric])
    moreover have "x < x + 1" "x + 1 < y"
      using ok byte_less_Suc [of x] by (simp_all add: word_less_nat_alt)
    ultimately show thesis using that(2) d(1,2) by blast
  next
    case False
    then have "bytewise_separator a b = a"
      using n by (auto simp: bytewise_separator_def Let_def)
    then show thesis by (rule that(1))
  qed
next
  case False
  then have "min (length a) (length b) \<le> common_prefix a b" by (simp only: not_less)
  then have "bytewise_separator a b = a"
    by (simp only: bytewise_separator_def Let_def if_True)
  then show thesis by (rule that(1))
qed

lemma separator_between: "a < b \<Longrightarrow> a \<le> bytewise_separator a b \<and> bytewise_separator a b < b"
  by (cases rule: separator_cases [of a b]) (auto simp: append_less_append less_imp_le)

lemma separator_unchanged: "\<not> a < b \<Longrightarrow> bytewise_separator a b = a"
  by (cases rule: separator_cases [of a b]) (auto simp: append_less_append)

lemma separator_length: "length (bytewise_separator a b) \<le> length a"
  by (cases rule: separator_cases [of a b]) auto

lemma successor_loop:
  "passed @ key \<le> short_successor_loop passed key \<and>
   length (short_successor_loop passed key) \<le> length (passed @ key)"
proof (induction passed key rule: short_successor_loop.induct)
  case (1 passed)
  then show ?case by simp
next
  case (2 passed byte key)
  show ?case
  proof (cases "byte = 0xFF")
    case True
    with 2 show ?thesis by simp
  next
    case False
    then have "byte < 0xFF"
      using unat_byte_less [of byte] unfolding word_less_nat_alt word_unat_eq_iff
      by (simp del: unat_byte_less)
    then have "byte < byte + 1" using byte_less_Suc by blast
    then have "passed @ byte # key < passed @ [byte + 1]" by (simp add: append_less_append)
    with False show ?thesis by (simp add: less_imp_le)
  qed
qed

lemma successor_above: "key \<le> bytewise_successor key" "length (bytewise_successor key) \<le> length key"
  using successor_loop [of "[]" key] by (simp_all add: bytewise_successor_def)

section \<open>The Comparator interface\<close>

text \<open>\<open>K\<close> are the keys the comparison is meant for.\<close>

locale three_way =
  fixes K :: "'a \<Rightarrow> bool" and cmp :: "'a \<Rightarrow> 'a \<Rightarrow> int"
  assumes cmp_swap: "K a \<Longrightarrow> K b \<Longrightarrow> cmp a b < 0 \<longleftrightarrow> cmp b a > 0"
    and cmp_trans: "K a \<Longrightarrow> K b \<Longrightarrow> K c \<Longrightarrow> cmp a b \<le> 0 \<Longrightarrow> cmp b c \<le> 0 \<Longrightarrow> cmp a c \<le> 0"
begin

lemma cmp_refl: "K a \<Longrightarrow> cmp a a = 0"
  using cmp_swap [of a a] by linarith

lemma cmp_le_swap: "K a \<Longrightarrow> K b \<Longrightarrow> cmp a b \<le> 0 \<longleftrightarrow> cmp b a \<ge> 0"
  using cmp_swap [of b a] by linarith

lemma cmp_eq_swap: "K a \<Longrightarrow> K b \<Longrightarrow> cmp a b = 0 \<longleftrightarrow> cmp b a = 0"
  using cmp_swap [of a b] cmp_swap [of b a] by linarith

lemma cmp_less_le: "K a \<Longrightarrow> K b \<Longrightarrow> K c \<Longrightarrow> cmp a b < 0 \<Longrightarrow> cmp b c \<le> 0 \<Longrightarrow> cmp a c < 0"
  using cmp_trans [of b c a] cmp_le_swap [of a c] cmp_le_swap [of c a] cmp_swap [of a b] by linarith

lemma cmp_le_less: "K a \<Longrightarrow> K b \<Longrightarrow> K c \<Longrightarrow> cmp a b \<le> 0 \<Longrightarrow> cmp b c < 0 \<Longrightarrow> cmp a c < 0"
  using cmp_trans [of c a b] cmp_le_swap [of a c] cmp_le_swap [of c a] cmp_swap [of b c] by linarith

lemma cmp_less_trans: "K a \<Longrightarrow> K b \<Longrightarrow> K c \<Longrightarrow> cmp a b < 0 \<Longrightarrow> cmp b c < 0 \<Longrightarrow> cmp a c < 0"
  by (rule cmp_less_le [of a b c]) simp_all

end

text \<open>
  A separator lies in \<open>[start, limit)\<close> if there is anything between them, and is \<open>start\<close>
  otherwise; a successor is not below its key.
\<close>

locale comparator = three_way K cmp for K :: "byte list \<Rightarrow> bool" and cmp +
  fixes sep :: "byte list \<Rightarrow> byte list \<Rightarrow> byte list" and succ :: "byte list \<Rightarrow> byte list"
  assumes sep_key: "K a \<Longrightarrow> K b \<Longrightarrow> K (sep a b)" and succ_key: "K a \<Longrightarrow> K (succ a)"
    and sep_between: "K a \<Longrightarrow> K b \<Longrightarrow> cmp a b < 0 \<Longrightarrow> cmp a (sep a b) \<le> 0 \<and> cmp (sep a b) b < 0"
    and sep_unchanged: "K a \<Longrightarrow> K b \<Longrightarrow> \<not> cmp a b < 0 \<Longrightarrow> sep a b = a"
    and succ_above: "K a \<Longrightarrow> cmp a (succ a) \<le> 0"

interpretation bytewise: comparator "\<lambda>_. True" slice_compare bytewise_separator bytewise_successor
proof unfold_locales
  fix a b :: "byte list"
  show "slice_compare a b < 0 \<longleftrightarrow> slice_compare b a > 0" by (simp add: slice_compare_sign)
  show "slice_compare a b < 0 \<Longrightarrow> slice_compare a (bytewise_separator a b) \<le> 0 \<and>
      slice_compare (bytewise_separator a b) b < 0"
    using separator_between [of a b] by (simp add: slice_compare_sign)
  show "\<not> slice_compare a b < 0 \<Longrightarrow> bytewise_separator a b = a"
    by (simp add: slice_compare_sign separator_unchanged)
  show "slice_compare a (bytewise_successor a) \<le> 0"
    by (simp add: slice_compare_sign successor_above)
next
  fix a b c :: "byte list"
  show "slice_compare a b \<le> 0 \<Longrightarrow> slice_compare b c \<le> 0 \<Longrightarrow> slice_compare a c \<le> 0"
    by (simp add: slice_compare_sign)
qed simp_all

end
