(* ===== verification/LdbFormat.thy ===== *)
theory LdbFormat
  imports LdbComparator
begin

text \<open>
  \<open>db/dbformat.h\<close> and \<open>db/dbformat.cc\<close>: internal keys, which are a user key followed by the
  sequence number and the value type in eight bytes, their comparator, and lookup keys. A
  violated \<open>assert\<close> or a read outside a key is \<open>None\<close>. \<open>AppendInternalKey\<close> and
  \<open>ParseInternalKey\<close> are inverse, and the internal comparator is a comparator whenever the
  user's is (\<open>ik\<close>): user keys ascending, then sequence numbers descending.
\<close>

section \<open>Internal keys\<close>

text \<open>A value type is the byte it is stored as.\<close>

type_synonym ValueType = byte

abbreviation (input) kTypeDeletion :: ValueType where "kTypeDeletion \<equiv> 0"
abbreviation (input) kTypeValue :: ValueType where "kTypeValue \<equiv> 1"

definition kValueTypeForSeek :: ValueType where "kValueTypeForSeek = kTypeValue"

type_synonym SequenceNumber = "64 word"

definition kMaxSequenceNumber :: SequenceNumber where
  "kMaxSequenceNumber = push_bit 56 1 - 1"

record ParsedInternalKey =
  pk_user_key :: "byte list"
  pk_sequence :: SequenceNumber
  pk_type :: ValueType

definition PackSequenceAndType :: "64 word \<Rightarrow> ValueType \<Rightarrow> 64 word option" where
  "PackSequenceAndType seq t =
     (if seq \<le> kMaxSequenceNumber \<and> t \<le> kValueTypeForSeek
      then Some (push_bit 8 seq OR ucast t) else None)"

definition AppendInternalKey :: "byte list \<Rightarrow> ParsedInternalKey \<Rightarrow> byte list option" where
  "AppendInternalKey result key =
     do { tag \<leftarrow> PackSequenceAndType (pk_sequence key) (pk_type key);
          Some (PutFixed64 (result @ pk_user_key key) tag) }"

definition InternalKeyEncodingLength :: "ParsedInternalKey \<Rightarrow> nat" where
  "InternalKeyEncodingLength key = length (pk_user_key key) + 8"

definition ExtractUserKey :: "byte list \<Rightarrow> byte list option" where
  "ExtractUserKey internal_key =
     (if length internal_key < 8 then None else Some (take (length internal_key - 8) internal_key))"

text \<open>\<open>DecodeFixed64(internal_key.data() + n - 8)\<close>.\<close>

definition key_tag :: "byte list \<Rightarrow> 64 word option" where
  "key_tag internal_key =
     (if length internal_key < 8 then None
      else DecodeFixed64 (drop (length internal_key - 8) internal_key))"

definition ExtractValueType :: "byte list \<Rightarrow> ValueType option" where
  "ExtractValueType internal_key =
     do { num \<leftarrow> key_tag internal_key; Some (ucast (num AND 0xFF)) }"

text \<open>The inner \<open>None\<close> is the result false.\<close>

definition ParseInternalKey :: "byte list \<Rightarrow> ParsedInternalKey option option" where
  "ParseInternalKey internal_key =
     (let n = length internal_key in
      if n < 8 then Some None
      else do { num \<leftarrow> key_tag internal_key;
                let c = (ucast (num AND 0xFF) :: byte);
                Some (if c \<le> kTypeValue
                      then Some \<lparr>pk_user_key = take (n - 8) internal_key,
                                 pk_sequence = drop_bit 8 num, pk_type = c\<rparr>
                      else None) })"

section \<open>The internal key comparator\<close>

definition InternalKeyComparator_Compare ::
  "(byte list \<Rightarrow> byte list \<Rightarrow> int) \<Rightarrow> byte list \<Rightarrow> byte list \<Rightarrow> int option" where
  "InternalKeyComparator_Compare user_compare akey bkey =
     do { auser \<leftarrow> ExtractUserKey akey;
          buser \<leftarrow> ExtractUserKey bkey;
          let r = user_compare auser buser;
          if r = 0 then
            do { anum \<leftarrow> key_tag akey;
                 bnum \<leftarrow> key_tag bkey;
                 Some (if anum > bnum then - 1 else if anum < bnum then 1 else r) }
          else Some r }"

definition InternalKeyComparator_FindShortestSeparator ::
  "(byte list \<Rightarrow> byte list \<Rightarrow> int) \<Rightarrow> (byte list \<Rightarrow> byte list \<Rightarrow> byte list) \<Rightarrow>
   byte list \<Rightarrow> byte list \<Rightarrow> byte list option" where
  "InternalKeyComparator_FindShortestSeparator user_compare user_separator start limit =
     do { user_start \<leftarrow> ExtractUserKey start;
          user_limit \<leftarrow> ExtractUserKey limit;
          let tmp = user_separator user_start user_limit;
          if length tmp < length user_start \<and> user_compare user_start tmp < 0 then
            do { tag \<leftarrow> PackSequenceAndType kMaxSequenceNumber kValueTypeForSeek;
                 let tmp = PutFixed64 tmp tag;
                 below \<leftarrow> InternalKeyComparator_Compare user_compare start tmp;
                 above \<leftarrow> InternalKeyComparator_Compare user_compare tmp limit;
                 if below < 0 \<and> above < 0 then Some tmp else None }
          else Some start }"

definition InternalKeyComparator_FindShortSuccessor ::
  "(byte list \<Rightarrow> byte list \<Rightarrow> int) \<Rightarrow> (byte list \<Rightarrow> byte list) \<Rightarrow> byte list \<Rightarrow> byte list option" where
  "InternalKeyComparator_FindShortSuccessor user_compare user_successor key =
     do { user_key \<leftarrow> ExtractUserKey key;
          let tmp = user_successor user_key;
          if length tmp < length user_key \<and> user_compare user_key tmp < 0 then
            do { tag \<leftarrow> PackSequenceAndType kMaxSequenceNumber kValueTypeForSeek;
                 let tmp = PutFixed64 tmp tag;
                 below \<leftarrow> InternalKeyComparator_Compare user_compare key tmp;
                 if below < 0 then Some tmp else None }
          else Some key }"

section \<open>Lookup keys\<close>

text \<open>
  The array the constructor fills, and where \<open>kstart_\<close> lies in it: behind the varint. Whether
  it is the inline \<open>space_\<close> or allocated makes no difference to its contents.
\<close>

record LookupKey =
  lk_array :: "byte list"
  lk_kstart :: nat

definition new_LookupKey :: "byte list \<Rightarrow> SequenceNumber \<Rightarrow> LookupKey option" where
  "new_LookupKey user_key s =
     (let usize = length user_key; len = EncodeVarint32 (of_nat (usize + 8)) in
      do { tag \<leftarrow> PackSequenceAndType s kValueTypeForSeek;
           Some \<lparr>lk_array = len @ user_key @ EncodeFixed64 tag, lk_kstart = length len\<rparr> })"

definition memtable_key :: "LookupKey \<Rightarrow> byte list" where
  "memtable_key k = lk_array k"

definition internal_key :: "LookupKey \<Rightarrow> byte list" where
  "internal_key k = drop (lk_kstart k) (lk_array k)"

definition lookup_user_key :: "LookupKey \<Rightarrow> byte list" where
  "lookup_user_key k = take (length (lk_array k) - lk_kstart k - 8) (drop (lk_kstart k) (lk_array k))"

section \<open>Keys as a user key and a tag\<close>

lemma ExtractUserKey_tagged [simp]: "ExtractUserKey (u @ EncodeFixed64 n) = Some u"
  by (simp add: ExtractUserKey_def)

lemma key_tag_tagged [simp]: "key_tag (u @ EncodeFixed64 n) = Some n"
  by (simp add: key_tag_def)

lemma tagged_cases:
  assumes "8 \<le> length k"
  obtains u n where "k = u @ EncodeFixed64 n"
proof
  let ?t = "drop (length k - 8) k"
  have "length ?t = 8" using assms by simp
  then have "EncodeFixed64 (of_nat (le_nat ?t)) = ?t"
    using le_nat_bound [of ?t] nat_le_le_nat [of ?t]
    by (simp add: EncodeFixed64_bytes unat_of_nat)
  then show "k = take (length k - 8) k @ EncodeFixed64 (of_nat (le_nat ?t))" by simp
qed

text \<open>The tag of a sequence number and a type.\<close>

definition key_tag_of :: "64 word \<Rightarrow> ValueType \<Rightarrow> 64 word" where
  "key_tag_of seq t = push_bit 8 seq OR ucast t"

lemma max_sequence: "unat kMaxSequenceNumber = 2 ^ 56 - 1"
  by (simp add: kMaxSequenceNumber_def)

lemma unat_key_tag:
  assumes "seq \<le> kMaxSequenceNumber"
  shows "unat (key_tag_of seq t) = unat t + 256 * unat seq"
proof -
  have s: "unat seq < 2 ^ 56" using assms max_sequence by (simp add: word_le_nat_alt)
  have "(of_nat (le_nat (t # nat_le 7 (unat seq))) :: 64 word) =
      ucast t OR push_bit 8 (of_nat (le_nat (nat_le 7 (unat seq))))"
    by (rule of_nat_le_Cons)
  moreover have "le_nat (nat_le 7 (unat seq)) = unat seq" using s by (simp add: le_nat_nat_le)
  ultimately have "key_tag_of seq t = of_nat (le_nat (t # nat_le 7 (unat seq)))"
    by (simp only: key_tag_of_def or.commute [of "push_bit 8 seq"] of_nat_unat ucast_id)
  then have k: "key_tag_of seq t = of_nat (unat t + 256 * unat seq)"
    using \<open>le_nat (nat_le 7 (unat seq)) = unat seq\<close> by (simp only: le_nat.simps)
  have "unat t + 256 * unat seq < 2 ^ 64"
  proof -
    from s have "unat seq < 72057594037927936" by simp
    with unat_byte_less [of t] have "unat t + 256 * unat seq < 18446744073709551616" by linarith
    then show ?thesis by simp
  qed
  then show ?thesis by (simp only: k unat_of_nat) simp
qed

lemma pack_Some:
  "seq \<le> kMaxSequenceNumber \<Longrightarrow> t \<le> kTypeValue \<Longrightarrow> PackSequenceAndType seq t = Some (key_tag_of seq t)"
  by (simp add: PackSequenceAndType_def kValueTypeForSeek_def key_tag_of_def)

lemma unpack_key_tag:
  assumes "seq \<le> kMaxSequenceNumber"
  shows "drop_bit 8 (key_tag_of seq t) = seq" "ucast (key_tag_of seq t AND 0xFF) = t"
proof -
  have "unat (drop_bit 8 (key_tag_of seq t)) = unat seq"
    using unat_byte_less [of t] by (simp only: unat_drop_bit_eq unat_key_tag [OF assms] drop_bit_nat_def) simp
  then show "drop_bit 8 (key_tag_of seq t) = seq" by (simp add: word_unat_eq_iff)
  have "bit (ucast (key_tag_of seq t AND mask 8) :: byte) i = bit t i" for i
    by (auto simp: key_tag_of_def bit_simps dest: bit_imp_le_length)
  then show "ucast (key_tag_of seq t AND 0xFF) = t" by (intro bit_eqI) (simp add: mask8_word)
qed

text \<open>Tags compare as the pair of the sequence number and the type.\<close>

lemma key_tag_less:
  assumes "s \<le> kMaxSequenceNumber" "s' \<le> kMaxSequenceNumber"
  shows "key_tag_of s t < key_tag_of s' t' \<longleftrightarrow> s < s' \<or> s = s' \<and> t < t'"
proof -
  have "unat t + 256 * unat s < unat t' + 256 * unat s' \<longleftrightarrow>
      unat s < unat s' \<or> unat s = unat s' \<and> unat t < unat t'"
    using unat_byte_less [of t] unat_byte_less [of t'] by linarith
  then show ?thesis using assms by (simp add: word_less_nat_alt unat_key_tag word_unat_eq_iff)
qed

lemma AppendInternalKey_tagged:
  "pk_sequence k \<le> kMaxSequenceNumber \<Longrightarrow> pk_type k \<le> kTypeValue \<Longrightarrow>
   AppendInternalKey dst k = Some (dst @ pk_user_key k @ EncodeFixed64 (key_tag_of (pk_sequence k) (pk_type k)))"
  by (simp add: AppendInternalKey_def pack_Some PutFixed64_def)

lemma ParseInternalKey_tagged:
  "ParseInternalKey (u @ EncodeFixed64 n) =
     Some (let c = ucast (n AND 0xFF) in
       if c \<le> kTypeValue then Some \<lparr>pk_user_key = u, pk_sequence = drop_bit 8 n, pk_type = c\<rparr> else None)"
  by (simp add: ParseInternalKey_def Let_def)

lemma parse_append:
  assumes "pk_sequence k \<le> kMaxSequenceNumber" "pk_type k \<le> kTypeValue"
  shows "\<exists>bs. AppendInternalKey [] k = Some bs \<and> ParseInternalKey bs = Some (Some k) \<and>
     length bs = InternalKeyEncodingLength k"
  using assms
  by (cases k) (simp add: AppendInternalKey_tagged ParseInternalKey_tagged unpack_key_tag
      InternalKeyEncodingLength_def)

section \<open>The internal comparator is a comparator\<close>

definition icmp :: "(byte list \<Rightarrow> byte list \<Rightarrow> int) \<Rightarrow> byte list \<Rightarrow> byte list \<Rightarrow> int" where
  "icmp cmp a b = (case InternalKeyComparator_Compare cmp a b of Some r \<Rightarrow> r | None \<Rightarrow> 0)"

definition isep :: "(byte list \<Rightarrow> byte list \<Rightarrow> int) \<Rightarrow> (byte list \<Rightarrow> byte list \<Rightarrow> byte list) \<Rightarrow>
    byte list \<Rightarrow> byte list \<Rightarrow> byte list" where
  "isep cmp sep a b =
     (case InternalKeyComparator_FindShortestSeparator cmp sep a b of Some k \<Rightarrow> k | None \<Rightarrow> [])"

definition isucc :: "(byte list \<Rightarrow> byte list \<Rightarrow> int) \<Rightarrow> (byte list \<Rightarrow> byte list) \<Rightarrow> byte list \<Rightarrow> byte list" where
  "isucc cmp succ a = (case InternalKeyComparator_FindShortSuccessor cmp succ a of Some k \<Rightarrow> k | None \<Rightarrow> [])"

definition ikey :: "(byte list \<Rightarrow> bool) \<Rightarrow> byte list \<Rightarrow> bool" where
  "ikey K k \<longleftrightarrow> 8 \<le> length k \<and> K (take (length k - 8) k)"

lemma ikey_tagged [simp]: "ikey K (u @ EncodeFixed64 n) \<longleftrightarrow> K u"
  by (simp add: ikey_def)

lemma ikey_cases:
  assumes "ikey K k"
  obtains u n where "k = u @ EncodeFixed64 n" "K u"
  using assms tagged_cases [of k] by (metis ikey_def ikey_tagged)

lemma Compare_tagged:
  "InternalKeyComparator_Compare cmp (u @ EncodeFixed64 m) (v @ EncodeFixed64 n) =
     Some (if cmp u v = 0 then if m > n then - 1 else if m < n then 1 else 0 else cmp u v)"
  by (simp add: InternalKeyComparator_Compare_def)

lemma icmp_tagged:
  "icmp cmp (u @ EncodeFixed64 m) (v @ EncodeFixed64 n) =
     (if cmp u v = 0 then if m > n then - 1 else if m < n then 1 else 0 else cmp u v)"
  by (simp add: icmp_def Compare_tagged)

context comparator
begin

lemma internal_swap: "ikey K a \<Longrightarrow> ikey K b \<Longrightarrow> icmp cmp a b < 0 \<longleftrightarrow> icmp cmp b a > 0"
proof -
  assume "ikey K a" "ikey K b"
  then obtain u m v n where a: "a = u @ EncodeFixed64 m" "K u" and b: "b = v @ EncodeFixed64 n" "K v"
    by (metis ikey_cases)
  then show ?thesis
    using cmp_swap [OF a(2) b(2)] cmp_eq_swap [OF a(2) b(2)] by (auto simp: icmp_tagged)
qed

lemma internal_trans:
  assumes "ikey K a" "ikey K b" "ikey K c" and "icmp cmp a b \<le> 0" "icmp cmp b c \<le> 0"
  shows "icmp cmp a c \<le> 0"
proof -
  obtain u l v m w n where a: "a = u @ EncodeFixed64 l" "K u" and b: "b = v @ EncodeFixed64 m" "K v"
    and c: "c = w @ EncodeFixed64 n" "K w" using assms(1-3) by (metis ikey_cases)
  have "cmp u v \<le> 0" "cmp v w \<le> 0" using assms(4,5) a b c by (auto simp: icmp_tagged split: if_splits)
  then have "cmp u w < 0 \<or> cmp u v = 0 \<and> cmp v w = 0"
    using cmp_less_le [OF a(2) b(2) c(2)] cmp_le_less [OF a(2) b(2) c(2)] by linarith
  then show ?thesis
  proof
    assume "cmp u w < 0"
    with a c show ?thesis by (simp add: icmp_tagged)
  next
    assume e: "cmp u v = 0 \<and> cmp v w = 0"
    then have "cmp u w \<le> 0" using cmp_trans [OF a(2) b(2) c(2)] by simp
    moreover have "l \<ge> m" "m \<ge> n" using e assms(4,5) a b c by (auto simp: icmp_tagged split: if_splits)
    ultimately show ?thesis using a c by (auto simp: icmp_tagged)
  qed
qed

text \<open>The asserts in the two shortening functions never fail.\<close>

lemma internal_separator:
  assumes "ikey K a" "ikey K b"
  shows "\<exists>k. InternalKeyComparator_FindShortestSeparator cmp sep a b = Some k \<and> ikey K k \<and>
     (icmp cmp a b < 0 \<longrightarrow> icmp cmp a k \<le> 0 \<and> icmp cmp k b < 0) \<and> (\<not> icmp cmp a b < 0 \<longrightarrow> k = a)"
proof -
  obtain u m v n where a: "a = u @ EncodeFixed64 m" "K u" and b: "b = v @ EncodeFixed64 n" "K v"
    using assms by (metis ikey_cases)
  let ?t = "sep u v"
  have t: "K ?t" using a b by (intro sep_key)
  note pack = pack_Some [of kMaxSequenceNumber kValueTypeForSeek, unfolded kValueTypeForSeek_def, simplified]
  show ?thesis
  proof (cases "length ?t < length u \<and> cmp u ?t < 0")
    case True
    then have "?t \<noteq> u" by auto
    then have uv: "cmp u v < 0" using sep_unchanged [OF a(2) b(2)] by blast
    then have "cmp ?t v < 0" using sep_between [OF a(2) b(2)] by blast
    with True uv show ?thesis
      using a b t by (simp add: InternalKeyComparator_FindShortestSeparator_def kValueTypeForSeek_def
          pack PutFixed64_def Compare_tagged icmp_tagged)
  next
    case False
    then have s: "InternalKeyComparator_FindShortestSeparator cmp sep a b = Some a"
      using a b by (auto simp: InternalKeyComparator_FindShortestSeparator_def)
    have "icmp cmp a a \<le> 0" using internal_swap [OF assms(1,1)] by linarith
    with s assms(1) show ?thesis by simp
  qed
qed

lemma internal_successor:
  assumes "ikey K a"
  shows "\<exists>k. InternalKeyComparator_FindShortSuccessor cmp succ a = Some k \<and> ikey K k \<and> icmp cmp a k \<le> 0"
proof -
  obtain u m where a: "a = u @ EncodeFixed64 m" "K u" using assms by (metis ikey_cases)
  have t: "K (succ u)" using a by (intro succ_key)
  note pack = pack_Some [of kMaxSequenceNumber kValueTypeForSeek, unfolded kValueTypeForSeek_def, simplified]
  show ?thesis
  proof (cases "length (succ u) < length u \<and> cmp u (succ u) < 0")
    case True
    then show ?thesis
      using a t by (simp add: InternalKeyComparator_FindShortSuccessor_def kValueTypeForSeek_def
          pack PutFixed64_def Compare_tagged icmp_tagged)
  next
    case False
    then have s: "InternalKeyComparator_FindShortSuccessor cmp succ a = Some a"
      using a by (auto simp: InternalKeyComparator_FindShortSuccessor_def)
    have "icmp cmp a a \<le> 0" using internal_swap [OF assms assms] by linarith
    with s assms show ?thesis by simp
  qed
qed

lemma internal_comparator: "comparator (ikey K) (icmp cmp) (isep cmp sep) (isucc cmp succ)"
proof (intro comparator.intro three_way.intro comparator_axioms.intro)
  fix a b assume ab: "ikey K a" "ikey K b"
  from internal_separator [OF ab] show "ikey K (isep cmp sep a b)"
    "icmp cmp a b < 0 \<Longrightarrow> icmp cmp a (isep cmp sep a b) \<le> 0 \<and> icmp cmp (isep cmp sep a b) b < 0"
    "\<not> icmp cmp a b < 0 \<Longrightarrow> isep cmp sep a b = a"
    unfolding isep_def by auto
next
  fix a assume "ikey K a"
  from internal_successor [OF this] show "ikey K (isucc cmp succ a)" "icmp cmp a (isucc cmp succ a) \<le> 0"
    unfolding isucc_def by auto
qed (rule internal_swap internal_trans; assumption)+

end

text \<open>The internal keys of a database with the default comparator.\<close>

interpretation ik: comparator "ikey (\<lambda>_. True)" "icmp slice_compare"
  "isep slice_compare bytewise_separator" "isucc slice_compare bytewise_successor"
  by (rule bytewise.internal_comparator)

section \<open>Lookup keys\<close>

lemma lookup_key_parts:
  assumes "s \<le> kMaxSequenceNumber" and "length u + 8 < 2 ^ 32"
  shows "\<exists>k. new_LookupKey u s = Some k \<and> lookup_user_key k = u \<and>
     internal_key k = u @ EncodeFixed64 (key_tag_of s kTypeValue) \<and>
     memtable_key k = PutLengthPrefixedSlice [] (internal_key k)"
  using assms by (simp add: new_LookupKey_def Let_def kValueTypeForSeek_def pack_Some lookup_user_key_def
      internal_key_def memtable_key_def PutLengthPrefixedSlice_def PutVarint32_def)

section \<open>The order of the internal keys\<close>

text \<open>Ascending user keys; of the same user key, newest first.\<close>

definition before :: "ParsedInternalKey \<Rightarrow> ParsedInternalKey \<Rightarrow> bool" where
  "before a b \<longleftrightarrow> pk_user_key a < pk_user_key b \<or> pk_user_key a = pk_user_key b \<and>
     (pk_sequence a > pk_sequence b \<or> pk_sequence a = pk_sequence b \<and> pk_type a > pk_type b)"

definition packable :: "ParsedInternalKey \<Rightarrow> bool" where
  "packable k \<longleftrightarrow> pk_sequence k \<le> kMaxSequenceNumber \<and> pk_type k \<le> kTypeValue"

lemma Compare_appended:
  assumes "packable a" "packable b"
  shows "\<exists>ka kb. AppendInternalKey [] a = Some ka \<and> AppendInternalKey [] b = Some kb \<and>
     InternalKeyComparator_Compare slice_compare ka kb = Some (if before a b then - 1 else if a = b then 0 else 1)"
proof -
  have eq: "a = b \<longleftrightarrow> pk_user_key a = pk_user_key b \<and> pk_sequence a = pk_sequence b \<and> pk_type a = pk_type b"
    by (cases a; cases b) simp
  have "InternalKeyComparator_Compare slice_compare
      (pk_user_key a @ EncodeFixed64 (key_tag_of (pk_sequence a) (pk_type a)))
      (pk_user_key b @ EncodeFixed64 (key_tag_of (pk_sequence b) (pk_type b))) =
      Some (if before a b then - 1 else if a = b then 0 else 1)"
    using assms unfolding packable_def before_def eq
    by (auto simp: Compare_tagged slice_compare_order key_tag_less)
  then show ?thesis using assms by (simp add: AppendInternalKey_tagged packable_def)
qed

end
