(* ===== verification/LdbWriteBatch.thy ===== *)
theory LdbWriteBatch
  imports LdbStatus LdbFormat
begin

text \<open>
  \<open>db/write_batch.cc\<close>: a batch is the string \<open>rep_\<close>, a header of an eight-byte sequence
  number and a four-byte count followed by the records. \<open>Iterate\<close> is modelled by the list
  of the calls it makes on its handler and its status. The lemmas show that a batch built
  by \<open>Put\<close>, \<open>Delete\<close> and \<open>Append\<close> replays exactly the calls that built it.
\<close>

section \<open>The representation\<close>

definition kHeader :: nat where "kHeader = 12"

definition WriteBatch_Clear :: "byte list" where
  "WriteBatch_Clear = replicate kHeader 0"

definition batch_Count :: "byte list \<Rightarrow> int option" where
  "batch_Count rep = do { n \<leftarrow> DecodeFixed32 (drop 8 rep); Some (sint n) }"

text \<open>Bytes stored over the string from an index on.\<close>

definition write_at :: "byte list \<Rightarrow> nat \<Rightarrow> byte list \<Rightarrow> byte list option" where
  "write_at rep i bs =
     (if i + length bs \<le> length rep then Some (take i rep @ bs @ drop (i + length bs) rep) else None)"

definition batch_SetCount :: "byte list \<Rightarrow> int \<Rightarrow> byte list option" where
  "batch_SetCount rep n = write_at rep 8 (EncodeFixed32 (of_int n))"

definition batch_Sequence :: "byte list \<Rightarrow> SequenceNumber option" where
  "batch_Sequence rep = DecodeFixed64 rep"

definition batch_SetSequence :: "byte list \<Rightarrow> SequenceNumber \<Rightarrow> byte list option" where
  "batch_SetSequence rep seq = write_at rep 0 (EncodeFixed64 seq)"

text \<open>Addition of counts in \<open>int\<close>; an overflow is undefined in C++.\<close>

definition int_sum :: "int \<Rightarrow> int \<Rightarrow> int option" where
  "int_sum m n = (if - (2 ^ 31) \<le> m + n \<and> m + n < 2 ^ 31 then Some (m + n) else None)"

definition WriteBatch_Put :: "byte list \<Rightarrow> byte list \<Rightarrow> byte list \<Rightarrow> byte list option" where
  "WriteBatch_Put rep key value =
     do { n \<leftarrow> batch_Count rep;
          n' \<leftarrow> int_sum n 1;
          rep \<leftarrow> batch_SetCount rep n';
          Some (PutLengthPrefixedSlice (PutLengthPrefixedSlice (rep @ [kTypeValue]) key) value) }"

definition WriteBatch_Delete :: "byte list \<Rightarrow> byte list \<Rightarrow> byte list option" where
  "WriteBatch_Delete rep key =
     do { n \<leftarrow> batch_Count rep;
          n' \<leftarrow> int_sum n 1;
          rep \<leftarrow> batch_SetCount rep n';
          Some (PutLengthPrefixedSlice (rep @ [kTypeDeletion]) key) }"

definition batch_SetContents :: "byte list \<Rightarrow> byte list option" where
  "batch_SetContents contents = (if length contents \<ge> kHeader then Some contents else None)"

definition batch_Append :: "byte list \<Rightarrow> byte list \<Rightarrow> byte list option" where
  "batch_Append dst src =
     do { m \<leftarrow> batch_Count dst;
          n \<leftarrow> batch_Count src;
          sum \<leftarrow> int_sum m n;
          dst \<leftarrow> batch_SetCount dst sum;
          if length src \<ge> kHeader then Some (dst @ drop kHeader src) else None }"

section \<open>Iteration\<close>

datatype handler_call = Handler_Put "byte list" "byte list" | Handler_Delete "byte list"

lemma GetLengthPrefixedSlice_shorter:
  "(Some x, rest) = GetLengthPrefixedSlice input \<Longrightarrow> length rest < length input"
  by (rule takes_prefix_shorter [OF GetLengthPrefixedSlice_takes sym])

text \<open>
  The loop of \<open>Iterate\<close>: the calls made, how many records were met, and the error if any.
  \<open>found\<close> is an \<open>int\<close>, whose overflow is undefined: None.
\<close>

function iterate_loop :: "byte list \<Rightarrow> int \<Rightarrow> handler_call list \<Rightarrow> (handler_call list \<times> int \<times> Status) option" where
  "iterate_loop input found calls =
     (case input of
        [] \<Rightarrow> Some (calls, found, Status_OK)
      | tag # input \<Rightarrow>
          (case int_sum found 1 of
             None \<Rightarrow> None
           | Some found \<Rightarrow>
               if tag = kTypeValue then
                 (case GetLengthPrefixedSlice input of
                    (None, _) \<Rightarrow> Some (calls, found, Corruption ''bad WriteBatch Put'' '''')
                  | (Some key, input) \<Rightarrow>
                      (case GetLengthPrefixedSlice input of
                         (None, _) \<Rightarrow> Some (calls, found, Corruption ''bad WriteBatch Put'' '''')
                       | (Some value, input) \<Rightarrow>
                           iterate_loop input found (calls @ [Handler_Put key value])))
               else if tag = kTypeDeletion then
                 (case GetLengthPrefixedSlice input of
                    (None, _) \<Rightarrow> Some (calls, found, Corruption ''bad WriteBatch Delete'' '''')
                  | (Some key, input) \<Rightarrow> iterate_loop input found (calls @ [Handler_Delete key]))
               else Some (calls, found, Corruption ''unknown WriteBatch tag'' '''')))"
  by pat_completeness auto
termination
  by (relation "measure (\<lambda>(input, _, _). length input)")
    (auto dest!: GetLengthPrefixedSlice_shorter)

declare iterate_loop.simps [simp del]

definition WriteBatch_Iterate :: "byte list \<Rightarrow> (handler_call list \<times> Status) option" where
  "WriteBatch_Iterate rep =
     (if length rep < kHeader then Some ([], Corruption ''malformed WriteBatch (too small)'' '''')
      else do {
        (calls, found, s) \<leftarrow> iterate_loop (drop kHeader rep) 0 [];
        if \<not> status_ok s then Some (calls, s)
        else do { n \<leftarrow> batch_Count rep;
                  Some (calls, if found \<noteq> n then Corruption ''WriteBatch has wrong count'' ''''
                               else Status_OK) } })"

text \<open>
  \<open>MemTableInserter\<close>: the additions to the memtable, each with the next sequence number.
\<close>

record mem_entry =
  me_seq :: SequenceNumber
  me_type :: ValueType
  me_key :: "byte list"
  me_value :: "byte list"

fun insert_calls :: "SequenceNumber \<Rightarrow> handler_call list \<Rightarrow> mem_entry list" where
  "insert_calls seq [] = []"
| "insert_calls seq (Handler_Put key value # calls) =
     \<lparr>me_seq = seq, me_type = kTypeValue, me_key = key, me_value = value\<rparr> # insert_calls (seq + 1) calls"
| "insert_calls seq (Handler_Delete key # calls) =
     \<lparr>me_seq = seq, me_type = kTypeDeletion, me_key = key, me_value = []\<rparr> # insert_calls (seq + 1) calls"

definition batch_InsertInto :: "byte list \<Rightarrow> (mem_entry list \<times> Status) option" where
  "batch_InsertInto rep =
     do { seq \<leftarrow> batch_Sequence rep;
          (calls, s) \<leftarrow> WriteBatch_Iterate rep;
          Some (insert_calls seq calls, s) }"

section \<open>A batch and the calls it replays\<close>

fun record_bytes :: "handler_call \<Rightarrow> byte list" where
  "record_bytes (Handler_Put key value) =
     kTypeValue # PutLengthPrefixedSlice [] key @ PutLengthPrefixedSlice [] value"
| "record_bytes (Handler_Delete key) = kTypeDeletion # PutLengthPrefixedSlice [] key"

fun sizes_fit :: "handler_call \<Rightarrow> bool" where
  "sizes_fit (Handler_Put key value) \<longleftrightarrow> length key < 2 ^ 32 \<and> length value < 2 ^ 32"
| "sizes_fit (Handler_Delete key) \<longleftrightarrow> length key < 2 ^ 32"

text \<open>The batch with a sequence number and the records of some calls.\<close>

definition batch_rep :: "SequenceNumber \<Rightarrow> handler_call list \<Rightarrow> byte list" where
  "batch_rep seq calls =
     EncodeFixed64 seq @ EncodeFixed32 (of_nat (length calls)) @ concat (map record_bytes calls)"

lemma length_batch_rep: "kHeader \<le> length (batch_rep seq calls)"
  by (simp add: batch_rep_def kHeader_def)

lemma drop_batch_rep [simp]: "drop kHeader (batch_rep seq calls) = concat (map record_bytes calls)"
  by (simp add: batch_rep_def kHeader_def)

lemma batch_Sequence_rep [simp]: "batch_Sequence (batch_rep seq calls) = Some seq"
  by (simp add: batch_Sequence_def batch_rep_def)

lemma batch_Count_rep [simp]:
  "length calls < 2 ^ 31 \<Longrightarrow> batch_Count (batch_rep seq calls) = Some (int (length calls))"
  by (simp add: batch_Count_def batch_rep_def sint_of_nat_32)

lemma batch_SetCount_rep:
  "batch_SetCount (batch_rep seq calls) n =
     Some (EncodeFixed64 seq @ EncodeFixed32 (of_int n) @ concat (map record_bytes calls))"
  by (simp add: batch_SetCount_def batch_rep_def write_at_def)

lemma WriteBatch_Clear_rep: "WriteBatch_Clear = batch_rep 0 []"
  by (simp add: WriteBatch_Clear_def batch_rep_def kHeader_def EncodeFixed32_bytes EncodeFixed64_bytes
      eval_nat_numeral)

lemma batch_SetSequence_rep: "batch_SetSequence (batch_rep seq calls) seq' = Some (batch_rep seq' calls)"
  by (simp add: batch_SetSequence_def batch_rep_def write_at_def)

lemma WriteBatch_Put_rep:
  "length calls + 1 < 2 ^ 31 \<Longrightarrow>
   WriteBatch_Put (batch_rep seq calls) k v = Some (batch_rep seq (calls @ [Handler_Put k v]))"
  by (simp add: WriteBatch_Put_def batch_SetCount_rep int_sum_def PutLengthPrefixedSlice_append [of "_ @ _"]
      PutLengthPrefixedSlice_append [of "_ # _"]) (simp add: batch_rep_def add.commute)

lemma WriteBatch_Delete_rep:
  "length calls + 1 < 2 ^ 31 \<Longrightarrow>
   WriteBatch_Delete (batch_rep seq calls) k = Some (batch_rep seq (calls @ [Handler_Delete k]))"
  by (simp add: WriteBatch_Delete_def batch_SetCount_rep int_sum_def PutLengthPrefixedSlice_append [of "_ @ _"])
    (simp add: batch_rep_def add.commute)

lemma batch_Append_rep:
  "length xs + length ys < 2 ^ 31 \<Longrightarrow>
   batch_Append (batch_rep seq xs) (batch_rep seq' ys) = Some (batch_rep seq (xs @ ys))"
  using length_batch_rep [of seq' ys]
  by (simp add: batch_Append_def batch_SetCount_rep int_sum_def) (simp add: batch_rep_def)

lemma int_sum_1 [simp]: "0 \<le> n \<Longrightarrow> n + 1 < 2 ^ 31 \<Longrightarrow> int_sum n 1 = Some (n + 1)"
  by (simp add: int_sum_def)

lemma iterate_loop_records:
  "\<forall>c \<in> set calls. sizes_fit c \<Longrightarrow> 0 \<le> found \<Longrightarrow> found + int (length calls) < 2 ^ 31 \<Longrightarrow>
   iterate_loop (concat (map record_bytes calls)) found done =
     Some (done @ calls, found + int (length calls), Status_OK)"
proof (induction calls arbitrary: found "done")
  case Nil
  show ?case by (simp add: iterate_loop.simps)
next
  case (Cons c calls)
  then have "found + 1 < 2 ^ 31" "found + 1 + int (length calls) < 2 ^ 31" by simp_all
  with Cons show ?case
    by (cases c) (simp_all add: iterate_loop.simps [of "_ # _"] lps.dec_enc)
qed

lemma WriteBatch_Iterate_rep:
  assumes "\<forall>c \<in> set calls. sizes_fit c" "length calls < 2 ^ 31"
  shows "WriteBatch_Iterate (batch_rep seq calls) = Some (calls, Status_OK)"
  using assms length_batch_rep [of seq calls]
  by (simp add: WriteBatch_Iterate_def iterate_loop_records)

text \<open>
  Whatever the string, if it is too short for the counter to overflow, \<open>Iterate\<close> ends; it
  reports success only if the count is right.
\<close>

definition iterated :: "int \<Rightarrow> nat \<Rightarrow> (handler_call list \<times> int \<times> Status) option \<Rightarrow> bool" where
  "iterated found k res \<longleftrightarrow> (\<exists>calls n s. res = Some (calls, n, s) \<and> (s = Status_OK \<or> status_code s = kCorruption) \<and>
     (status_ok s \<longrightarrow> n - int (length calls) = found - int k))"

lemma iterate_loop_total:
  "0 \<le> found \<Longrightarrow> found + int (length input) < 2 ^ 31 \<Longrightarrow>
   iterated found (length done) (iterate_loop input found done)"
proof (induction input found "done" rule: iterate_loop.induct)
  case (1 input found "done")
  show ?case
  proof (cases input)
    case Nil
    then show ?thesis by (simp add: iterate_loop.simps iterated_def)
  next
    case (Cons tag rest)
    have f: "int_sum found 1 = Some (found + 1)" "0 \<le> found + 1" using 1(3,4) Cons by simp_all
    have left: "found + 1 + int (length rest') < 2 ^ 31" if "length rest' \<le> length rest" for rest'
      using that 1(4) Cons by simp
    have stop: "iterated found (length done) (Some (done, found + 1, Corruption m m'))" for m m'
      by (simp add: iterated_def Corruption_def)
    have step: "iterated found (length done) (iterate_loop input' (found + 1) (done @ [c]))"
      if "iterated (found + 1) (length (done @ [c])) (iterate_loop input' (found + 1) (done @ [c]))" for c input'
      using that by (simp add: iterated_def)
    note ih = 1(1,2) [OF Cons f(1)]
    obtain k r1 where k: "GetLengthPrefixedSlice rest = (k, r1)" by fastforce
    obtain v r2 where v: "GetLengthPrefixedSlice r1 = (v, r2)" by fastforce
    have r1: "length r1 \<le> length rest" if "k \<noteq> None"
      using that GetLengthPrefixedSlice_shorter [of _ r1 rest] k by fastforce
    have r2: "length r2 \<le> length r1" if "v \<noteq> None"
      using that GetLengthPrefixedSlice_shorter [of _ r2 r1] v by fastforce
    have put: "iterated found (length done) (iterate_loop r2 (found + 1) (done @ [Handler_Put x y]))"
      if "tag = kTypeValue" "k = Some x" "v = Some y" for x y
      using that r1 r2 by (intro step ih(1) [OF _ k [symmetric] _ v [symmetric]] f(2) left) simp_all
    have delete: "iterated found (length done) (iterate_loop r1 (found + 1) (done @ [Handler_Delete x]))"
      if "tag \<noteq> kTypeValue" "tag = kTypeDeletion" "k = Some x" for x
      using that r1 by (intro step ih(2) [OF _ _ k [symmetric]] f(2) left) simp_all
    show ?thesis
      unfolding Cons iterate_loop.simps [of "tag # rest"] list.case f(1) option.case k v prod.case
      using put delete stop by (auto split: option.split)
  qed
qed

lemma WriteBatch_Iterate_total:
  assumes "length rep < 2 ^ 31"
  shows "\<exists>calls s. WriteBatch_Iterate rep = Some (calls, s) \<and>
     (if s = Status_OK then batch_Count rep = Some (int (length calls)) else status_code s = kCorruption)"
proof (cases "length rep < kHeader")
  case True
  then show ?thesis
    by (auto simp: WriteBatch_Iterate_def Corruption_def status_of_def Status_OK_def status_code_def)
next
  case False
  then have "4 \<le> length (drop 8 rep)" by (simp add: kHeader_def)
  then obtain m where m: "batch_Count rep = Some m"
    by (simp add: batch_Count_def DecodeFixed32_value)
  from assms have "0 + int (length (drop kHeader rep)) < 2 ^ 31" by simp
  from iterate_loop_total [OF order_refl this, of "[]"] obtain calls n s where
    l: "iterate_loop (drop kHeader rep) 0 [] = Some (calls, n, s)" "s = Status_OK \<or> status_code s = kCorruption"
      "status_ok s \<longrightarrow> n = int (length calls)" by (auto simp: iterated_def)
  have ok: "s = Status_OK \<longleftrightarrow> status_ok s" for s by (simp add: status_ok_def Status_OK_def)
  show ?thesis
    using False l m by (auto simp: WriteBatch_Iterate_def ok)
qed

text \<open>The entries \<open>InsertInto\<close> adds are those of the calls, numbered from the batch's number on.\<close>

lemma insert_calls_length [simp]: "length (insert_calls seq calls) = length calls"
  by (induction seq calls rule: insert_calls.induct) simp_all

lemma insert_calls_seq:
  "i < length calls \<Longrightarrow> me_seq (insert_calls seq calls ! i) = seq + of_nat i"
proof (induction seq calls arbitrary: i rule: insert_calls.induct)
  case (2 seq k v calls)
  then show ?case by (cases i) (simp_all add: add.assoc)
next
  case (3 seq k calls)
  then show ?case by (cases i) (simp_all add: add.assoc)
qed simp

definition entry_of :: "handler_call \<Rightarrow> ValueType \<times> byte list \<times> byte list" where
  "entry_of c = (case c of Handler_Put k v \<Rightarrow> (kTypeValue, k, v) | Handler_Delete k \<Rightarrow> (kTypeDeletion, k, []))"

lemma insert_calls_entries:
  "map (\<lambda>e. (me_type e, me_key e, me_value e)) (insert_calls seq calls) = map entry_of calls"
  by (induction seq calls rule: insert_calls.induct) (simp_all add: entry_of_def)

lemma batch_InsertInto_rep:
  assumes "\<forall>c \<in> set calls. sizes_fit c" "length calls < 2 ^ 31"
  shows "batch_InsertInto (batch_rep seq calls) = Some (insert_calls seq calls, Status_OK)"
  by (simp add: batch_InsertInto_def WriteBatch_Iterate_rep [OF assms])

text \<open>A client that makes the calls on a cleared batch, one after another.\<close>

fun batch_calls :: "handler_call list \<Rightarrow> byte list \<Rightarrow> byte list option" where
  "batch_calls [] rep = Some rep"
| "batch_calls (Handler_Put key value # calls) rep = do { rep \<leftarrow> WriteBatch_Put rep key value; batch_calls calls rep }"
| "batch_calls (Handler_Delete key # calls) rep = do { rep \<leftarrow> WriteBatch_Delete rep key; batch_calls calls rep }"

lemma batch_calls_rep:
  "length done + length calls < 2 ^ 31 \<Longrightarrow>
   batch_calls calls (batch_rep seq done) = Some (batch_rep seq (done @ calls))"
proof (induction calls arbitrary: "done")
  case (Cons c calls)
  then show ?case by (cases c) (simp_all add: WriteBatch_Put_rep WriteBatch_Delete_rep)
qed simp

end
