(* ===== verification/LdbVersionEdit.thy ===== *)
theory LdbVersionEdit
  imports LdbStatus LdbFormat "HOL-Library.Product_Lexorder"
begin

text \<open>
  \<open>db/version_edit.h\<close> and \<open>db/version_edit.cc\<close>: the edits of the manifest, their setters,
  and their wire form. A \<open>std::set\<close> is its strictly ascending list. Encoding uses the
  \<open>assert\<close> of \<open>InternalKey::Encode\<close>, which fails as \<open>None\<close>. An edit that is decoded
  from what \<open>EncodeTo\<close> wrote is the edit written, behind the compaction pointers the
  receiving object had.
\<close>

section \<open>Internal keys as objects\<close>

text \<open>An \<open>InternalKey\<close> is its string; the empty one is invalid.\<close>

type_synonym InternalKey = "byte list"

definition new_InternalKey :: "byte list \<Rightarrow> SequenceNumber \<Rightarrow> ValueType \<Rightarrow> InternalKey option" where
  "new_InternalKey user_key s t =
     AppendInternalKey [] \<lparr>pk_user_key = user_key, pk_sequence = s, pk_type = t\<rparr>"

definition InternalKey_Encode :: "InternalKey \<Rightarrow> byte list option" where
  "InternalKey_Encode rep = (if rep \<noteq> [] then Some rep else None)"

definition InternalKey_DecodeFrom :: "byte list \<Rightarrow> InternalKey" where
  "InternalKey_DecodeFrom s = s"

definition kNumLevels :: "32 word" where "kNumLevels = 7"

section \<open>The edit\<close>

record FileMetaData =
  f_refs :: int
  f_allowed_seeks :: int
  f_number :: "64 word"
  f_file_size :: "64 word"
  f_smallest :: InternalKey
  f_largest :: InternalKey

text \<open>The constructor leaves \<open>number\<close> unset; every user sets it.\<close>

definition new_FileMetaData :: "64 word \<Rightarrow> FileMetaData" where
  "new_FileMetaData number =
     \<lparr>f_refs = 0, f_allowed_seeks = 2 ^ 30, f_number = number, f_file_size = 0, f_smallest = [], f_largest = []\<rparr>"

record VersionEdit =
  ve_comparator :: "byte list"
  ve_log_number :: "64 word"
  ve_prev_log_number :: "64 word"
  ve_next_file_number :: "64 word"
  ve_last_sequence :: SequenceNumber
  ve_has_comparator :: bool
  ve_has_log_number :: bool
  ve_has_prev_log_number :: bool
  ve_has_next_file_number :: bool
  ve_has_last_sequence :: bool
  ve_compact_pointers :: "(int \<times> InternalKey) list"
  ve_deleted_files :: "(int \<times> 64 word) list"
  ve_new_files :: "(int \<times> FileMetaData) list"

definition VersionEdit_Clear :: "VersionEdit \<Rightarrow> VersionEdit" where
  "VersionEdit_Clear e = e\<lparr>
     ve_comparator := [], ve_log_number := 0, ve_prev_log_number := 0, ve_last_sequence := 0,
     ve_next_file_number := 0, ve_has_comparator := False, ve_has_log_number := False,
     ve_has_prev_log_number := False, ve_has_next_file_number := False, ve_has_last_sequence := False,
     ve_deleted_files := [], ve_new_files := []\<rparr>"

text \<open>The constructor: the vectors start empty and \<open>Clear\<close> sets the rest.\<close>

definition new_VersionEdit :: VersionEdit where
  "new_VersionEdit = \<lparr>
     ve_comparator = [], ve_log_number = 0, ve_prev_log_number = 0, ve_next_file_number = 0, ve_last_sequence = 0,
     ve_has_comparator = False, ve_has_log_number = False, ve_has_prev_log_number = False,
     ve_has_next_file_number = False, ve_has_last_sequence = False,
     ve_compact_pointers = [], ve_deleted_files = [], ve_new_files = []\<rparr>"

definition SetComparatorName :: "byte list \<Rightarrow> VersionEdit \<Rightarrow> VersionEdit" where
  "SetComparatorName name e = e\<lparr>ve_has_comparator := True, ve_comparator := name\<rparr>"

definition SetLogNumber :: "64 word \<Rightarrow> VersionEdit \<Rightarrow> VersionEdit" where
  "SetLogNumber num e = e\<lparr>ve_has_log_number := True, ve_log_number := num\<rparr>"

definition SetPrevLogNumber :: "64 word \<Rightarrow> VersionEdit \<Rightarrow> VersionEdit" where
  "SetPrevLogNumber num e = e\<lparr>ve_has_prev_log_number := True, ve_prev_log_number := num\<rparr>"

definition SetNextFile :: "64 word \<Rightarrow> VersionEdit \<Rightarrow> VersionEdit" where
  "SetNextFile num e = e\<lparr>ve_has_next_file_number := True, ve_next_file_number := num\<rparr>"

definition SetLastSequence :: "SequenceNumber \<Rightarrow> VersionEdit \<Rightarrow> VersionEdit" where
  "SetLastSequence seq e = e\<lparr>ve_has_last_sequence := True, ve_last_sequence := seq\<rparr>"

definition SetCompactPointer :: "int \<Rightarrow> InternalKey \<Rightarrow> VersionEdit \<Rightarrow> VersionEdit" where
  "SetCompactPointer level key e = e\<lparr>ve_compact_pointers := ve_compact_pointers e @ [(level, key)]\<rparr>"

definition AddFile ::
  "int \<Rightarrow> 64 word \<Rightarrow> 64 word \<Rightarrow> InternalKey \<Rightarrow> InternalKey \<Rightarrow> VersionEdit \<Rightarrow> VersionEdit" where
  "AddFile level file file_size smallest largest e =
     e\<lparr>ve_new_files := ve_new_files e @
       [(level, (new_FileMetaData file)\<lparr>f_file_size := file_size, f_smallest := smallest, f_largest := largest\<rparr>)]\<rparr>"

definition edit_DeleteFile :: "int \<Rightarrow> 64 word \<Rightarrow> VersionEdit \<Rightarrow> VersionEdit" where
  "edit_DeleteFile level file e = e\<lparr>ve_deleted_files := insort_insert (level, file) (ve_deleted_files e)\<rparr>"

section \<open>The wire form\<close>

abbreviation (input) kComparator :: "32 word" where "kComparator \<equiv> 1"
abbreviation (input) kLogNumber :: "32 word" where "kLogNumber \<equiv> 2"
abbreviation (input) kNextFileNumber :: "32 word" where "kNextFileNumber \<equiv> 3"
abbreviation (input) kLastSequence :: "32 word" where "kLastSequence \<equiv> 4"
abbreviation (input) kCompactPointer :: "32 word" where "kCompactPointer \<equiv> 5"
abbreviation (input) kDeletedFile :: "32 word" where "kDeletedFile \<equiv> 6"
abbreviation (input) kNewFile :: "32 word" where "kNewFile \<equiv> 7"
abbreviation (input) kPrevLogNumber :: "32 word" where "kPrevLogNumber \<equiv> 9"

definition put_number :: "bool \<Rightarrow> 32 word \<Rightarrow> 64 word \<Rightarrow> byte list \<Rightarrow> byte list" where
  "put_number has tag num dst = (if has then PutVarint64 (PutVarint32 dst tag) num else dst)"

fun put_compact_pointers :: "(int \<times> InternalKey) list \<Rightarrow> byte list \<Rightarrow> byte list option" where
  "put_compact_pointers [] dst = Some dst"
| "put_compact_pointers ((level, key) # rest) dst =
     do { let dst = PutVarint32 (PutVarint32 dst kCompactPointer) (of_int level);
          k \<leftarrow> InternalKey_Encode key;
          put_compact_pointers rest (PutLengthPrefixedSlice dst k) }"

fun put_deleted_files :: "(int \<times> 64 word) list \<Rightarrow> byte list \<Rightarrow> byte list" where
  "put_deleted_files [] dst = dst"
| "put_deleted_files ((level, number) # rest) dst =
     put_deleted_files rest (PutVarint64 (PutVarint32 (PutVarint32 dst kDeletedFile) (of_int level)) number)"

fun put_new_files :: "(int \<times> FileMetaData) list \<Rightarrow> byte list \<Rightarrow> byte list option" where
  "put_new_files [] dst = Some dst"
| "put_new_files ((level, f) # rest) dst =
     do { let dst = PutVarint32 (PutVarint32 dst kNewFile) (of_int level);
          let dst = PutVarint64 (PutVarint64 dst (f_number f)) (f_file_size f);
          s \<leftarrow> InternalKey_Encode (f_smallest f);
          let dst = PutLengthPrefixedSlice dst s;
          l \<leftarrow> InternalKey_Encode (f_largest f);
          put_new_files rest (PutLengthPrefixedSlice dst l) }"

definition VersionEdit_EncodeTo :: "VersionEdit \<Rightarrow> byte list \<Rightarrow> byte list option" where
  "VersionEdit_EncodeTo e dst =
     do { let dst = (if ve_has_comparator e
                     then PutLengthPrefixedSlice (PutVarint32 dst kComparator) (ve_comparator e) else dst);
          let dst = put_number (ve_has_log_number e) kLogNumber (ve_log_number e) dst;
          let dst = put_number (ve_has_prev_log_number e) kPrevLogNumber (ve_prev_log_number e) dst;
          let dst = put_number (ve_has_next_file_number e) kNextFileNumber (ve_next_file_number e) dst;
          let dst = put_number (ve_has_last_sequence e) kLastSequence (ve_last_sequence e) dst;
          dst \<leftarrow> put_compact_pointers (ve_compact_pointers e) dst;
          put_new_files (ve_new_files e) (put_deleted_files (ve_deleted_files e) dst) }"

text \<open>The results are the value, if any, and the input afterwards.\<close>

definition GetInternalKey :: "byte list \<Rightarrow> InternalKey option \<times> byte list" where
  "GetInternalKey input =
     (case GetLengthPrefixedSlice input of
        (Some str, input) \<Rightarrow> (Some (InternalKey_DecodeFrom str), input)
      | (None, input) \<Rightarrow> (None, input))"

definition GetLevel :: "byte list \<Rightarrow> int option \<times> byte list" where
  "GetLevel input =
     (case GetVarint32 input of
        (Some v, input) \<Rightarrow> if v < kNumLevels then (Some (sint v), input) else (None, input)
      | (None, input) \<Rightarrow> (None, input))"

text \<open>One getter after another, as \<open>&&\<close> chains them.\<close>

definition and_then :: "(byte list \<Rightarrow> 'a option \<times> byte list) \<Rightarrow> ('a \<Rightarrow> byte list \<Rightarrow> 'b option \<times> byte list) \<Rightarrow>
    byte list \<Rightarrow> 'b option \<times> byte list" where
  "and_then get next_get input =
     (case get input of (Some x, input) \<Rightarrow> next_get x input | (None, input) \<Rightarrow> (None, input))"

definition done_with :: "'a \<Rightarrow> byte list \<Rightarrow> 'a option \<times> byte list" where
  "done_with x input = (Some x, input)"

text \<open>The field behind a tag: how it changes the edit, or the message of its failure.\<close>

definition decode_edit_field :: "32 word \<Rightarrow> (byte list \<Rightarrow> (VersionEdit \<Rightarrow> VersionEdit) option \<times> byte list) \<times> string" where
  "decode_edit_field tag =
     (if tag = kComparator then
        (and_then GetLengthPrefixedSlice
          (\<lambda>str. done_with (\<lambda>e. e\<lparr>ve_comparator := str, ve_has_comparator := True\<rparr>)), ''comparator name'')
      else if tag = kLogNumber then
        (and_then GetVarint64
          (\<lambda>n. done_with (\<lambda>e. e\<lparr>ve_log_number := n, ve_has_log_number := True\<rparr>)), ''log number'')
      else if tag = kPrevLogNumber then
        (and_then GetVarint64
          (\<lambda>n. done_with (\<lambda>e. e\<lparr>ve_prev_log_number := n, ve_has_prev_log_number := True\<rparr>)), ''previous log number'')
      else if tag = kNextFileNumber then
        (and_then GetVarint64
          (\<lambda>n. done_with (\<lambda>e. e\<lparr>ve_next_file_number := n, ve_has_next_file_number := True\<rparr>)), ''next file number'')
      else if tag = kLastSequence then
        (and_then GetVarint64
          (\<lambda>n. done_with (\<lambda>e. e\<lparr>ve_last_sequence := n, ve_has_last_sequence := True\<rparr>)), ''last sequence number'')
      else if tag = kCompactPointer then
        (and_then GetLevel (\<lambda>level. and_then GetInternalKey
          (\<lambda>key. done_with (\<lambda>e. e\<lparr>ve_compact_pointers := ve_compact_pointers e @ [(level, key)]\<rparr>))),
         ''compaction pointer'')
      else if tag = kDeletedFile then
        (and_then GetLevel (\<lambda>level. and_then GetVarint64
          (\<lambda>n. done_with (\<lambda>e. e\<lparr>ve_deleted_files := insort_insert (level, n) (ve_deleted_files e)\<rparr>))),
         ''deleted file'')
      else if tag = kNewFile then
        (and_then GetLevel (\<lambda>level. and_then GetVarint64 (\<lambda>n. and_then GetVarint64 (\<lambda>sz.
           and_then GetInternalKey (\<lambda>s. and_then GetInternalKey (\<lambda>l.
             done_with (\<lambda>e. e\<lparr>ve_new_files := ve_new_files e @
               [(level, (new_FileMetaData n)\<lparr>f_file_size := sz, f_smallest := s, f_largest := l\<rparr>)]\<rparr>)))))),
         ''new-file entry'')
      else (\<lambda>input. (None, input), ''unknown tag''))"

section \<open>What the getters take\<close>

text \<open>A getter never lengthens its input.\<close>

definition no_longer :: "(byte list \<Rightarrow> 'a option \<times> byte list) \<Rightarrow> bool" where
  "no_longer get \<longleftrightarrow> (\<forall>input. length (snd (get input)) \<le> length input)"

lemma takes_prefix_no_longer: "takes_prefix get \<Longrightarrow> no_longer get"
  unfolding no_longer_def by (metis takes_prefixD le_add2 length_append prod.collapse)

lemma no_longer_and_then: "no_longer get \<Longrightarrow> (\<And>x. no_longer (next_get x)) \<Longrightarrow> no_longer (and_then get next_get)"
  unfolding no_longer_def and_then_def
  by (auto split: prod.splits option.splits) (metis le_trans snd_conv)+

lemma no_longer_done: "no_longer (done_with x)"
  by (simp add: no_longer_def done_with_def)

lemma no_longer_GetVarint32: "no_longer GetVarint32"
  by (rule takes_prefix_no_longer [OF GetVarint32_takes])

lemma no_longer_GetVarint64: "no_longer GetVarint64"
  by (rule takes_prefix_no_longer [OF GetVarint64_takes])

lemma no_longer_slice: "no_longer GetLengthPrefixedSlice"
  by (rule takes_prefix_no_longer [OF GetLengthPrefixedSlice_takes])

lemma no_longer_GetInternalKey: "no_longer GetInternalKey"
  using no_longer_slice unfolding no_longer_def GetInternalKey_def
  by (auto split: prod.splits option.splits) (metis snd_conv)+

lemma no_longer_GetLevel: "no_longer GetLevel"
  using no_longer_GetVarint32 unfolding no_longer_def GetLevel_def
  by (auto split: prod.splits option.splits) (metis snd_conv)+

lemmas no_longer_getters = no_longer_and_then no_longer_done no_longer_GetVarint64 no_longer_slice
  no_longer_GetInternalKey no_longer_GetLevel

lemma no_longer_field: "no_longer (fst (decode_edit_field tag))"
  by (simp add: decode_edit_field_def no_longer_getters) (simp add: no_longer_def)

section \<open>Decoding\<close>

lemma GetVarint32_shorter: "(Some x, rest) = GetVarint32 input \<Longrightarrow> length rest < length input"
  by (rule takes_prefix_shorter [OF GetVarint32_takes sym])

lemma decode_edit_field_shorter:
  "(get, m) = decode_edit_field tag \<Longrightarrow> (r, rest) = get input \<Longrightarrow> length rest \<le> length input"
  using no_longer_field [of tag] unfolding no_longer_def by (metis fst_conv snd_conv)

text \<open>The loop: the edit, the message \<open>msg\<close> points to, and the input it ends with.\<close>

function decode_edit_loop :: "byte list \<Rightarrow> VersionEdit \<Rightarrow> VersionEdit \<times> string option \<times> byte list" where
  "decode_edit_loop input e =
     (case GetVarint32 input of
        (None, input) \<Rightarrow> (e, None, input)
      | (Some tag, input) \<Rightarrow>
          (case decode_edit_field tag of (get, m) \<Rightarrow>
             (case get input of
                (None, input) \<Rightarrow> (e, Some m, input)
              | (Some change, input) \<Rightarrow> decode_edit_loop input (change e))))"
  by pat_completeness auto
termination
  by (relation "measure (\<lambda>(input, _). length input)")
    (auto dest!: GetVarint32_shorter decode_edit_field_shorter)

declare decode_edit_loop.simps [simp del]

definition VersionEdit_DecodeFrom :: "byte list \<Rightarrow> VersionEdit \<Rightarrow> VersionEdit \<times> Status" where
  "VersionEdit_DecodeFrom src e =
     (case decode_edit_loop src (VersionEdit_Clear e) of
        (e, msg, input) \<Rightarrow>
          let msg = (if msg = None \<and> input \<noteq> [] then Some ''invalid tag'' else msg) in
          (e, case msg of None \<Rightarrow> Status_OK | Some m \<Rightarrow> Corruption ''VersionEdit'' m))"

section \<open>Reading what was written\<close>

text \<open>\<open>get\<close> reads \<open>x\<close> off \<open>bs\<close> and leaves what is behind it.\<close>

definition reads :: "(byte list \<Rightarrow> 'a option \<times> byte list) \<Rightarrow> byte list \<Rightarrow> 'a \<Rightarrow> bool" where
  "reads get bs x \<longleftrightarrow> (\<forall>rest. get (bs @ rest) = (Some x, rest))"

lemma reads_and_then: "reads get a x \<Longrightarrow> reads (next_get x) b y \<Longrightarrow> reads (and_then get next_get) (a @ b) y"
  by (simp add: reads_def and_then_def)

lemma reads_done: "reads get a x \<Longrightarrow> reads (and_then get (\<lambda>x. done_with (f x))) a (f x)"
  by (simp add: reads_def and_then_def done_with_def)

lemma reads_GetVarint64: "reads GetVarint64 (EncodeVarint64 n) n"
  by (simp add: reads_def v64.dec_enc)

lemma reads_slice: "length x < 2 ^ 32 \<Longrightarrow> reads GetLengthPrefixedSlice (PutLengthPrefixedSlice [] x) x"
  unfolding reads_def using lps.dec_enc by blast

lemma reads_GetInternalKey: "length x < 2 ^ 32 \<Longrightarrow> reads GetInternalKey (PutLengthPrefixedSlice [] x) x"
  using lps.dec_enc [of x] by (simp add: reads_def GetInternalKey_def InternalKey_DecodeFrom_def)

definition level_ok :: "int \<Rightarrow> bool" where "level_ok level \<longleftrightarrow> 0 \<le> level \<and> level < 7"

lemma reads_GetLevel:
  assumes "level_ok level"
  shows "reads GetLevel (EncodeVarint32 (of_int level)) level"
proof -
  from assms obtain n where n: "level = int n" "n < 7" unfolding level_ok_def by (metis int_nat_eq nat_int of_nat_less_iff of_nat_numeral zero_le_imp_eq_int)
  then have "sint (of_nat n :: 32 word) = int n" by (intro sint_of_nat_32) simp
  moreover have "(of_nat n :: 32 word) < 7" using n(2) by (simp add: word_less_nat_alt unat_of_nat)
  ultimately show ?thesis by (simp add: reads_def GetLevel_def v32.dec_enc kNumLevels_def n(1))
qed

lemmas reads_getters = reads_and_then reads_done reads_GetVarint64 reads_slice reads_GetInternalKey reads_GetLevel

text \<open>\<open>bs\<close> makes the loop apply \<open>f\<close> to the edit.\<close>

definition decodes :: "byte list \<Rightarrow> (VersionEdit \<Rightarrow> VersionEdit) \<Rightarrow> bool" where
  "decodes bs f \<longleftrightarrow> (\<forall>rest e. decode_edit_loop (bs @ rest) e = decode_edit_loop rest (f e))"

lemma decodes_Nil: "decodes [] (\<lambda>e. e)"
  by (simp add: decodes_def)

lemma decodes_append: "decodes a f \<Longrightarrow> decodes b g \<Longrightarrow> decodes (a @ b) (\<lambda>e. g (f e))"
  by (simp add: decodes_def)

lemma decodes_field:
  "reads (fst (decode_edit_field tag)) bs f \<Longrightarrow> decodes (EncodeVarint32 tag @ bs) f"
  by (cases "decode_edit_field tag")
    (simp add: decodes_def reads_def v32.dec_enc decode_edit_loop.simps [of "EncodeVarint32 tag @ _"])

text \<open>What the parts of \<open>EncodeTo\<close> append.\<close>

definition comparator_bytes :: "VersionEdit \<Rightarrow> byte list" where
  "comparator_bytes e =
     (if ve_has_comparator e then EncodeVarint32 kComparator @ PutLengthPrefixedSlice [] (ve_comparator e) else [])"

definition number_bytes :: "bool \<Rightarrow> 32 word \<Rightarrow> 64 word \<Rightarrow> byte list" where
  "number_bytes has tag num = (if has then EncodeVarint32 tag @ EncodeVarint64 num else [])"

definition pointer_bytes :: "int \<times> InternalKey \<Rightarrow> byte list" where
  "pointer_bytes = (\<lambda>(level, key). EncodeVarint32 kCompactPointer @ EncodeVarint32 (of_int level) @
     PutLengthPrefixedSlice [] key)"

definition deleted_bytes :: "int \<times> 64 word \<Rightarrow> byte list" where
  "deleted_bytes = (\<lambda>(level, number). EncodeVarint32 kDeletedFile @ EncodeVarint32 (of_int level) @
     EncodeVarint64 number)"

definition new_file_bytes :: "int \<times> FileMetaData \<Rightarrow> byte list" where
  "new_file_bytes = (\<lambda>(level, f). EncodeVarint32 kNewFile @ EncodeVarint32 (of_int level) @
     EncodeVarint64 (f_number f) @ EncodeVarint64 (f_file_size f) @
     PutLengthPrefixedSlice [] (f_smallest f) @ PutLengthPrefixedSlice [] (f_largest f))"

definition edit_bytes :: "VersionEdit \<Rightarrow> byte list" where
  "edit_bytes e = comparator_bytes e @
     number_bytes (ve_has_log_number e) kLogNumber (ve_log_number e) @
     number_bytes (ve_has_prev_log_number e) kPrevLogNumber (ve_prev_log_number e) @
     number_bytes (ve_has_next_file_number e) kNextFileNumber (ve_next_file_number e) @
     number_bytes (ve_has_last_sequence e) kLastSequence (ve_last_sequence e) @
     concat (map pointer_bytes (ve_compact_pointers e)) @
     concat (map deleted_bytes (ve_deleted_files e)) @
     concat (map new_file_bytes (ve_new_files e))"

lemma put_number_bytes: "put_number has tag num dst = dst @ number_bytes has tag num"
  by (simp add: put_number_def number_bytes_def PutVarint32_def PutVarint64_def)

lemma PutLengthPrefixedSlice_parts:
  "PutLengthPrefixedSlice (a @ b) x = a @ b @ PutLengthPrefixedSlice [] x"
  by (simp add: PutLengthPrefixedSlice_append [of "a @ b"])

lemma put_compact_pointers_bytes:
  "\<forall>(level, key) \<in> set ps. key \<noteq> [] \<Longrightarrow>
   put_compact_pointers ps dst = Some (dst @ concat (map pointer_bytes ps))"
  by (induction ps arbitrary: dst)
    (auto simp: InternalKey_Encode_def PutVarint32_def PutLengthPrefixedSlice_parts pointer_bytes_def)

lemma put_deleted_files_bytes: "put_deleted_files ps dst = dst @ concat (map deleted_bytes ps)"
  by (induction ps arbitrary: dst) (auto simp: PutVarint32_def PutVarint64_def deleted_bytes_def)

lemma put_new_files_bytes:
  "\<forall>(level, f) \<in> set fs. f_smallest f \<noteq> [] \<and> f_largest f \<noteq> [] \<Longrightarrow>
   put_new_files fs dst = Some (dst @ concat (map new_file_bytes fs))"
  by (induction fs arbitrary: dst)
    (auto simp: InternalKey_Encode_def PutVarint32_def PutVarint64_def PutLengthPrefixedSlice_parts
      PutLengthPrefixedSlice_append [of "_ @ _"] new_file_bytes_def Let_def)

text \<open>An edit \<open>EncodeTo\<close> does not refuse.\<close>

definition keys_set :: "VersionEdit \<Rightarrow> bool" where
  "keys_set e \<longleftrightarrow> (\<forall>(level, key) \<in> set (ve_compact_pointers e). key \<noteq> []) \<and>
     (\<forall>(level, f) \<in> set (ve_new_files e). f_smallest f \<noteq> [] \<and> f_largest f \<noteq> [])"

lemma EncodeTo_bytes: "keys_set e \<Longrightarrow> VersionEdit_EncodeTo e dst = Some (dst @ edit_bytes e)"
  by (simp add: keys_set_def VersionEdit_EncodeTo_def edit_bytes_def put_number_bytes Let_def
      put_compact_pointers_bytes put_deleted_files_bytes put_new_files_bytes
      PutVarint32_def PutLengthPrefixedSlice_parts comparator_bytes_def)

section \<open>The round trip\<close>

text \<open>What the edits of a database satisfy.\<close>

definition edit_ok :: "VersionEdit \<Rightarrow> bool" where
  "edit_ok e \<longleftrightarrow>
     length (ve_comparator e) < 2 ^ 32 \<and> (ve_has_comparator e \<or> ve_comparator e = []) \<and>
     (ve_has_log_number e \<or> ve_log_number e = 0) \<and>
     (ve_has_prev_log_number e \<or> ve_prev_log_number e = 0) \<and>
     (ve_has_next_file_number e \<or> ve_next_file_number e = 0) \<and>
     (ve_has_last_sequence e \<or> ve_last_sequence e = 0) \<and>
     (\<forall>(level, key) \<in> set (ve_compact_pointers e). level_ok level \<and> length key < 2 ^ 32) \<and>
     sorted_wrt (<) (ve_deleted_files e) \<and> (\<forall>(level, n) \<in> set (ve_deleted_files e). level_ok level) \<and>
     (\<forall>(level, f) \<in> set (ve_new_files e). level_ok level \<and> f_refs f = 0 \<and> f_allowed_seeks f = 2 ^ 30 \<and>
        length (f_smallest f) < 2 ^ 32 \<and> length (f_largest f) < 2 ^ 32)"

lemma decodes_number:
  "reads (fst (decode_edit_field tag)) (EncodeVarint64 num) f \<Longrightarrow>
   decodes (number_bytes has tag num) (if has then f else (\<lambda>e. e))"
  by (simp add: number_bytes_def decodes_field decodes_Nil)

lemma decodes_comparator:
  "length (ve_comparator e) < 2 ^ 32 \<or> \<not> ve_has_comparator e \<Longrightarrow>
   decodes (comparator_bytes e)
     (if ve_has_comparator e then (\<lambda>x. x\<lparr>ve_comparator := ve_comparator e, ve_has_comparator := True\<rparr>) else (\<lambda>x. x))"
  by (auto simp: comparator_bytes_def decode_edit_field_def decodes_Nil intro!: decodes_field reads_getters)

lemma decodes_pointers:
  "\<forall>(level, key) \<in> set ps. level_ok level \<and> length key < 2 ^ 32 \<Longrightarrow>
   decodes (concat (map pointer_bytes ps)) (\<lambda>e. e\<lparr>ve_compact_pointers := ve_compact_pointers e @ ps\<rparr>)"
proof (induction ps)
  case Nil
  then show ?case using decodes_Nil by simp
next
  case (Cons p ps)
  obtain level key where p: "p = (level, key)" by fastforce
  with Cons.prems have "reads (fst (decode_edit_field kCompactPointer)) (EncodeVarint32 (of_int level) @ PutLengthPrefixedSlice [] key)
      (\<lambda>e. e\<lparr>ve_compact_pointers := ve_compact_pointers e @ [(level, key)]\<rparr>)"
    by (auto simp: decode_edit_field_def intro!: reads_getters)
  from decodes_append [OF decodes_field [OF this] Cons.IH] Cons.prems
  show ?case by (simp add: p pointer_bytes_def)
qed

lemma insort_insert_snoc:
  assumes "sorted_wrt (<) (xs @ [x :: 'a::linorder])"
  shows "insort_insert x xs = xs @ [x]"
proof -
  have "sorted xs" "\<forall>y \<in> set xs. y < x"
    using assms by (simp_all add: sorted_wrt_append strict_sorted_imp_sorted)
  then show ?thesis by (auto simp: insort_insert_key_def intro!: sorted_insort_is_snoc)
qed

lemma decodes_deleted:
  "\<forall>(level, n) \<in> set ps. level_ok level \<Longrightarrow>
   decodes (concat (map deleted_bytes ps)) (\<lambda>e. e\<lparr>ve_deleted_files := fold insort_insert ps (ve_deleted_files e)\<rparr>)"
proof (induction ps)
  case Nil
  then show ?case using decodes_Nil by simp
next
  case (Cons p ps)
  obtain level n where p: "p = (level, n)" by fastforce
  with Cons.prems have "reads (fst (decode_edit_field kDeletedFile)) (EncodeVarint32 (of_int level) @ EncodeVarint64 n)
      (\<lambda>e. e\<lparr>ve_deleted_files := insort_insert (level, n) (ve_deleted_files e)\<rparr>)"
    by (auto simp: decode_edit_field_def intro!: reads_getters)
  from decodes_append [OF decodes_field [OF this] Cons.IH] Cons.prems
  show ?case by (simp add: p deleted_bytes_def)
qed

lemma fold_insort_insert:
  "sorted_wrt (<) (ys @ xs) \<Longrightarrow> fold insort_insert xs ys = ys @ (xs :: 'a::linorder list)"
proof (induction xs arbitrary: ys)
  case (Cons x xs)
  then have "insort_insert x ys = ys @ [x]" by (intro insort_insert_snoc) (simp add: sorted_wrt_append)
  with Cons show ?case by simp
qed simp

lemma decode_kNewFile:
  "fst (decode_edit_field kNewFile) = and_then GetLevel (\<lambda>level. and_then GetVarint64 (\<lambda>n. and_then GetVarint64 (\<lambda>sz.
     and_then GetInternalKey (\<lambda>s. and_then GetInternalKey (\<lambda>l.
       done_with (\<lambda>e. e\<lparr>ve_new_files := ve_new_files e @
         [(level, (new_FileMetaData n)\<lparr>f_file_size := sz, f_smallest := s, f_largest := l\<rparr>)]\<rparr>))))))"
  by (simp add: decode_edit_field_def)

lemma decodes_new_files:
  "\<forall>(level, f) \<in> set fs. level_ok level \<and> f_refs f = 0 \<and> f_allowed_seeks f = 2 ^ 30 \<and>
     length (f_smallest f) < 2 ^ 32 \<and> length (f_largest f) < 2 ^ 32 \<Longrightarrow>
   decodes (concat (map new_file_bytes fs)) (\<lambda>e. e\<lparr>ve_new_files := ve_new_files e @ fs\<rparr>)"
proof (induction fs)
  case Nil
  then show ?case using decodes_Nil by simp
next
  case (Cons p fs)
  obtain level f where p: "p = (level, f)" by fastforce
  let ?f = "(new_FileMetaData (f_number f))\<lparr>f_file_size := f_file_size f, f_smallest := f_smallest f, f_largest := f_largest f\<rparr>"
  from Cons.prems p have ok: "level_ok level" "length (f_smallest f) < 2 ^ 32" "length (f_largest f) < 2 ^ 32"
    and f: "?f = f" by (auto simp: new_FileMetaData_def)
  have "reads (fst (decode_edit_field kNewFile)) (EncodeVarint32 (of_int level) @ EncodeVarint64 (f_number f) @
      EncodeVarint64 (f_file_size f) @ PutLengthPrefixedSlice [] (f_smallest f) @ PutLengthPrefixedSlice [] (f_largest f))
      (\<lambda>e. e\<lparr>ve_new_files := ve_new_files e @ [(level, ?f)]\<rparr>)"
    unfolding decode_kNewFile by (rule reads_getters ok)+
  from decodes_append [OF decodes_field [OF this] Cons.IH] Cons.prems
  show ?case by (simp add: p new_file_bytes_def f)
qed

lemma edit_loop_Nil: "decode_edit_loop [] e = (e, None, [])"
  by (simp add: decode_edit_loop.simps GetVarint32_def GetVarint32Ptr_loop)

lemma reads_numbers:
  "reads (fst (decode_edit_field kLogNumber)) (EncodeVarint64 n) (\<lambda>e. e\<lparr>ve_log_number := n, ve_has_log_number := True\<rparr>)"
  "reads (fst (decode_edit_field kPrevLogNumber)) (EncodeVarint64 n) (\<lambda>e. e\<lparr>ve_prev_log_number := n, ve_has_prev_log_number := True\<rparr>)"
  "reads (fst (decode_edit_field kNextFileNumber)) (EncodeVarint64 n) (\<lambda>e. e\<lparr>ve_next_file_number := n, ve_has_next_file_number := True\<rparr>)"
  "reads (fst (decode_edit_field kLastSequence)) (EncodeVarint64 n) (\<lambda>e. e\<lparr>ve_last_sequence := n, ve_has_last_sequence := True\<rparr>)"
  by (simp add: decode_edit_field_def, rule reads_done, rule reads_GetVarint64)+

lemma edit_round_trip:
  assumes "edit_ok e"
  shows "VersionEdit_DecodeFrom (edit_bytes e) e0 =
     (e\<lparr>ve_compact_pointers := ve_compact_pointers e0 @ ve_compact_pointers e\<rparr>, Status_OK)"
proof -
  note ok = assms [unfolded edit_ok_def]
  have c: "length (ve_comparator e) < 2 ^ 32 \<or> \<not> ve_has_comparator e" using ok by presburger
  from ok have p: "\<forall>(level, key) \<in> set (ve_compact_pointers e). level_ok level \<and> length key < 2 ^ 32"
    and d: "\<forall>(level, n) \<in> set (ve_deleted_files e). level_ok level" "sorted_wrt (<) (ve_deleted_files e)"
    and f: "\<forall>(level, f) \<in> set (ve_new_files e). level_ok level \<and> f_refs f = 0 \<and> f_allowed_seeks f = 2 ^ 30 \<and>
        length (f_smallest f) < 2 ^ 32 \<and> length (f_largest f) < 2 ^ 32" by blast+
  note steps = decodes_append [OF decodes_comparator [OF c]
    decodes_append [OF decodes_number [OF reads_numbers(1)]
    decodes_append [OF decodes_number [OF reads_numbers(2)]
    decodes_append [OF decodes_number [OF reads_numbers(3)]
    decodes_append [OF decodes_number [OF reads_numbers(4)]
    decodes_append [OF decodes_pointers [OF p]
    decodes_append [OF decodes_deleted [OF d(1)] decodes_new_files [OF f]]]]]]]]
  note run = steps [of "ve_has_log_number e" "ve_log_number e" "ve_has_prev_log_number e" "ve_prev_log_number e"
      "ve_has_next_file_number e" "ve_next_file_number e" "ve_has_last_sequence e" "ve_last_sequence e",
      folded edit_bytes_def, unfolded decodes_def, THEN spec, THEN spec,
      of "[]" "VersionEdit_Clear e0", unfolded append_Nil2 edit_loop_Nil]
  from ok have numbers: "\<not> ve_has_log_number e \<longrightarrow> ve_log_number e = 0" "\<not> ve_has_prev_log_number e \<longrightarrow> ve_prev_log_number e = 0"
      "\<not> ve_has_next_file_number e \<longrightarrow> ve_next_file_number e = 0" "\<not> ve_has_last_sequence e \<longrightarrow> ve_last_sequence e = 0"
      "\<not> ve_has_comparator e \<longrightarrow> ve_comparator e = []" by blast+
  have deleted: "fold insort_insert (ve_deleted_files e) [] = ve_deleted_files e"
    using fold_insort_insert [of "[]" "ve_deleted_files e"] d(2) by simp
  have "decode_edit_loop (edit_bytes e) (VersionEdit_Clear e0) =
      (e\<lparr>ve_compact_pointers := ve_compact_pointers e0 @ ve_compact_pointers e\<rparr>, None, [])"
    by (rule trans [OF run], simp only: prod.inject simp_thms, rule VersionEdit.equality;
        insert numbers deleted; simp add: VersionEdit_Clear_def)
  then show ?thesis by (simp add: VersionEdit_DecodeFrom_def)
qed

section \<open>What decoding accepts\<close>

text \<open>Every result of the getter satisfies \<open>P\<close>.\<close>

definition yields :: "('a \<Rightarrow> bool) \<Rightarrow> (byte list \<Rightarrow> 'a option \<times> byte list) \<Rightarrow> bool" where
  "yields P get \<longleftrightarrow> (\<forall>input x rest. get input = (Some x, rest) \<longrightarrow> P x)"

lemma yields_and_then: "yields Q get \<Longrightarrow> (\<And>x. Q x \<Longrightarrow> yields P (next_get x)) \<Longrightarrow> yields P (and_then get next_get)"
  unfolding yields_def and_then_def by (auto split: prod.splits option.splits) blast

lemma yields_done: "P x \<Longrightarrow> yields P (done_with x)"
  by (simp add: yields_def done_with_def)

lemma yields_any: "yields (\<lambda>_. True) get"
  by (simp add: yields_def)

lemma yields_slice: "yields (\<lambda>x. length x < 2 ^ 32) GetLengthPrefixedSlice"
  unfolding yields_def GetLengthPrefixedSlice_def
proof (intro allI impI)
  fix input x rest
  assume "(case GetVarint32 input of (None, input) \<Rightarrow> (None, input)
      | (Some len, input) \<Rightarrow> if unat len \<le> length input then (Some (take (unat len) input), drop (unat len) input)
          else (None, input)) = (Some x, rest)"
  then have "\<exists>len :: 32 word. length x \<le> unat len" by (auto split: prod.splits option.splits if_splits)
  then show "length x < 2 ^ 32" using unat_32 by (meson le_less_trans)
qed

lemma yields_GetInternalKey: "yields (\<lambda>x. length x < 2 ^ 32) GetInternalKey"
  using yields_slice unfolding yields_def GetInternalKey_def InternalKey_DecodeFrom_def
  by (auto split: prod.splits option.splits)

lemma sint_small: "v < (7 :: 32 word) \<Longrightarrow> 0 \<le> sint v \<and> sint v < 7"
proof -
  assume "v < 7"
  then have "unat v < 7" by (simp add: word_less_nat_alt)
  moreover from this have "sint v = int (unat v)" using sint_of_nat_32 [of "unat v"] by simp
  ultimately show ?thesis by linarith
qed

lemma yields_GetLevel: "yields level_ok GetLevel"
  unfolding yields_def GetLevel_def kNumLevels_def level_ok_def
  using sint_small by (auto split: prod.splits option.splits if_splits)

lemma strict_sorted_insort_insert:
  "sorted_wrt (<) xs \<Longrightarrow> sorted_wrt (<) (insort_insert (x :: 'a::linorder) xs)"
  by (auto simp: strict_sorted_iff insort_insert_key_def sorted_insort distinct_insort)

lemma set_insort_insert: "set (insort_insert x xs) = insert x (set (xs :: 'a::linorder list))"
  by (auto simp: insort_insert_key_def set_insort_key)

lemma setters_keep:
  "edit_ok e \<Longrightarrow> length x < 2 ^ 32 \<Longrightarrow> edit_ok (e\<lparr>ve_comparator := x, ve_has_comparator := True\<rparr>)"
  "edit_ok e \<Longrightarrow> edit_ok (e\<lparr>ve_log_number := n, ve_has_log_number := True\<rparr>)"
  "edit_ok e \<Longrightarrow> edit_ok (e\<lparr>ve_prev_log_number := n, ve_has_prev_log_number := True\<rparr>)"
  "edit_ok e \<Longrightarrow> edit_ok (e\<lparr>ve_next_file_number := n, ve_has_next_file_number := True\<rparr>)"
  "edit_ok e \<Longrightarrow> edit_ok (e\<lparr>ve_last_sequence := n, ve_has_last_sequence := True\<rparr>)"
  "edit_ok e \<Longrightarrow> level_ok level \<Longrightarrow> length x < 2 ^ 32 \<Longrightarrow>
     edit_ok (e\<lparr>ve_compact_pointers := ve_compact_pointers e @ [(level, x)]\<rparr>)"
  "edit_ok e \<Longrightarrow> level_ok level \<Longrightarrow>
     edit_ok (e\<lparr>ve_deleted_files := insort_insert (level, n) (ve_deleted_files e)\<rparr>)"
  "edit_ok e \<Longrightarrow> level_ok level \<Longrightarrow> length x < 2 ^ 32 \<Longrightarrow> length y < 2 ^ 32 \<Longrightarrow>
     edit_ok (e\<lparr>ve_new_files := ve_new_files e @
       [(level, (new_FileMetaData n)\<lparr>f_file_size := sz, f_smallest := x, f_largest := y\<rparr>)]\<rparr>)"
  by (simp_all add: edit_ok_def strict_sorted_insort_insert set_insort_insert new_FileMetaData_def ball_Un)

lemma field_keeps: "yields (\<lambda>change. \<forall>e. edit_ok e \<longrightarrow> edit_ok (change e)) (fst (decode_edit_field tag))"
proof -
  note slice = yields_and_then [OF yields_slice] and key = yields_and_then [OF yields_GetInternalKey]
    and level = yields_and_then [OF yields_GetLevel]
    and number = yields_and_then [OF yields_any [where get = GetVarint64]]
  have none: "yields P (\<lambda>input. (None, input))" for P :: "(VersionEdit \<Rightarrow> VersionEdit) \<Rightarrow> bool"
    by (simp add: yields_def)
  show ?thesis
    unfolding decode_edit_field_def
    by (simp only: if_distrib [of fst] fst_conv split: if_split)
      (intro conjI impI slice key level number yields_done allI setters_keep none; assumption)
qed

lemma decode_edit_loop_keeps:
  "edit_ok e \<Longrightarrow> decode_edit_loop input e = (e', msg, rest) \<Longrightarrow> edit_ok e'"
proof (induction input e rule: decode_edit_loop.induct)
  case (1 input e)
  obtain t r where t: "GetVarint32 input = (t, r)" by fastforce
  show ?case
  proof (cases t)
    case None
    with 1(2,3) t show ?thesis by (simp add: decode_edit_loop.simps [of input])
  next
    case (Some tag)
    obtain get m where g: "decode_edit_field tag = (get, m)" by fastforce
    obtain c r' where c: "get r = (c, r')" by fastforce
    note step = 1(3) [unfolded decode_edit_loop.simps [of input] t Some g prod.case option.case c]
    show ?thesis
    proof (cases c)
      case None
      with step 1(2) show ?thesis by simp
    next
      case (Some change)
      then have "edit_ok (change e)" using field_keeps [of tag] g c 1(2) unfolding yields_def by auto
      with step Some show ?thesis
        using 1(1) [OF t [symmetric] _ g [symmetric] c [symmetric]] \<open>t = _\<close> by simp
    qed
  qed
qed

lemma Clear_ok: "ve_compact_pointers e = [] \<Longrightarrow> edit_ok (VersionEdit_Clear e)"
  by (simp add: edit_ok_def VersionEdit_Clear_def)

text \<open>The pointers of the receiving object stay, so they have to be fine before.\<close>

lemma DecodeFrom_keeps:
  assumes "edit_ok e" and "VersionEdit_DecodeFrom src e = (e', s)"
  shows "edit_ok e'"
proof -
  have "edit_ok (VersionEdit_Clear e)" using assms(1) by (simp add: edit_ok_def VersionEdit_Clear_def)
  then show ?thesis
    using assms(2) decode_edit_loop_keeps by (auto simp: VersionEdit_DecodeFrom_def Let_def split: prod.splits)
qed

lemma new_VersionEdit_ok: "edit_ok new_VersionEdit"
  by (simp add: edit_ok_def new_VersionEdit_def)

lemma encode_decode:
  assumes "edit_ok e" "keys_set e"
  shows "\<exists>bs. VersionEdit_EncodeTo e [] = Some bs \<and> VersionEdit_DecodeFrom bs new_VersionEdit = (e, Status_OK)"
  using edit_round_trip [OF assms(1), of new_VersionEdit] EncodeTo_bytes [OF assms(2), of "[]"]
  by (simp add: new_VersionEdit_def)

end
