(* ===== verification/LdbBloom.thy ===== *)
theory LdbBloom
  imports LdbFormat
begin

text \<open>
  \<open>util/hash.cc\<close>, \<open>util/bloom.cc\<close> and the \<open>InternalFilterPolicy\<close> of \<open>db/dbformat.cc\<close>. The
  interface \<open>FilterPolicy\<close> is the locale \<open>filter_policy\<close>: \<open>CreateFilter\<close> appends a filter that
  matches every key it was made from. A bit array is its bytes; an access outside it is
  \<open>None\<close>, and the lemmas show that there is none.
\<close>

section \<open>The hash\<close>

definition hash_mix :: "32 word \<Rightarrow> 32 word \<Rightarrow> 32 word" where
  "hash_mix h w = (let h = h + w; h = h * 0xc6a4a793 in h XOR drop_bit 16 h)"

text \<open>\<open>DecodeFixed32\<close> fails exactly when fewer than four bytes are left.\<close>

function hash_loop :: "byte list \<Rightarrow> 32 word \<Rightarrow> 32 word \<times> byte list" where
  "hash_loop data h =
     (case DecodeFixed32 data of
        Some w \<Rightarrow> hash_loop (drop 4 data) (hash_mix h w)
      | None \<Rightarrow> (h, data))"
  by pat_completeness auto
termination
  by (relation "measure (\<lambda>(data, h). length data)") (auto simp: DecodeFixed32_def split: if_splits)

declare hash_loop.simps [simp del]

definition hash_last :: "32 word \<Rightarrow> 32 word" where
  "hash_last h = (let h = h * 0xc6a4a793 in h XOR drop_bit 24 h)"

definition Hash :: "byte list \<Rightarrow> 32 word \<Rightarrow> 32 word" where
  "Hash data seed =
     (case hash_loop data (seed XOR (of_nat (length data) * 0xc6a4a793)) of
        (h, [a, b, c]) \<Rightarrow> hash_last (h + push_bit 16 (ucast c) + push_bit 8 (ucast b) + ucast a)
      | (h, [a, b]) \<Rightarrow> hash_last (h + push_bit 8 (ucast b) + ucast a)
      | (h, [a]) \<Rightarrow> hash_last (h + ucast a)
      | (h, _) \<Rightarrow> h)"

definition BloomHash :: "byte list \<Rightarrow> 32 word" where
  "BloomHash key = Hash key 0xbc9f1d34"

section \<open>The Bloom filter\<close>

text \<open>
  The constructor's \<open>k_\<close> for \<open>bits_per_key\<close> not negative; from 44 on it is 30, so the product
  with the double 0.69 is exact enough to be rounded down as here.
\<close>

definition bloom_k :: "nat \<Rightarrow> nat" where
  "bloom_k bits_per_key =
     (let k = bits_per_key * 69 div 100; k = (if k < 1 then 1 else k) in if k > 30 then 30 else k)"

definition bloom_bytes :: "nat \<Rightarrow> nat \<Rightarrow> nat" where
  "bloom_bytes bits_per_key n =
     (let bits = n * bits_per_key mod 2 ^ 64; bits = (if bits < 64 then 64 else bits) in
      (bits + 7) mod 2 ^ 64 div 8)"

definition array_set :: "byte list \<Rightarrow> nat \<Rightarrow> byte list option" where
  "array_set array bitpos =
     (if bitpos div 8 < length array
      then Some (array[bitpos div 8 := array ! (bitpos div 8) OR push_bit (bitpos mod 8) 1]) else None)"

definition array_test :: "byte list \<Rightarrow> nat \<Rightarrow> bool option" where
  "array_test array bitpos =
     (if bitpos div 8 < length array
      then Some (array ! (bitpos div 8) AND push_bit (bitpos mod 8) 1 \<noteq> 0) else None)"

definition bloom_delta :: "32 word \<Rightarrow> 32 word" where
  "bloom_delta h = drop_bit 17 h OR push_bit 15 h"

text \<open>The inner loop, with \<open>j\<close> rounds left.\<close>

fun set_probes :: "nat \<Rightarrow> 32 word \<Rightarrow> 32 word \<Rightarrow> nat \<Rightarrow> byte list \<Rightarrow> byte list option" where
  "set_probes 0 h delta bits array = Some array"
| "set_probes (Suc j) h delta bits array =
     do { array \<leftarrow> array_set array (unat h mod bits); set_probes j (h + delta) delta bits array }"

fun set_keys :: "byte list list \<Rightarrow> nat \<Rightarrow> nat \<Rightarrow> byte list \<Rightarrow> byte list option" where
  "set_keys [] k bits array = Some array"
| "set_keys (key # keys) k bits array =
     do { let h = BloomHash key;
          array \<leftarrow> set_probes k h (bloom_delta h) bits array;
          set_keys keys k bits array }"

definition Bloom_CreateFilter :: "nat \<Rightarrow> byte list list \<Rightarrow> byte list \<Rightarrow> byte list option" where
  "Bloom_CreateFilter bits_per_key keys dst =
     do { let bytes = bloom_bytes bits_per_key (length keys);
          let bits = bytes * 8;
          array \<leftarrow> set_keys keys (bloom_k bits_per_key) bits
            (replicate bytes 0 @ [of_nat (bloom_k bits_per_key)]);
          Some (dst @ array) }"

fun test_probes :: "nat \<Rightarrow> 32 word \<Rightarrow> 32 word \<Rightarrow> nat \<Rightarrow> byte list \<Rightarrow> bool option" where
  "test_probes 0 h delta bits array = Some True"
| "test_probes (Suc j) h delta bits array =
     do { t \<leftarrow> array_test array (unat h mod bits);
          if \<not> t then Some False else test_probes j (h + delta) delta bits array }"

definition Bloom_KeyMayMatch :: "byte list \<Rightarrow> byte list \<Rightarrow> bool option" where
  "Bloom_KeyMayMatch key bloom_filter =
     (let len = length bloom_filter in
      if len < 2 then Some False
      else let bits = (len - 1) * 8; k = unat (bloom_filter ! (len - 1)) in
        if k > 30 then Some True
        else let h = BloomHash key in test_probes k h (bloom_delta h) bits bloom_filter)"

section \<open>The filter policy of the internal keys\<close>

fun extract_user_keys :: "byte list list \<Rightarrow> byte list list option" where
  "extract_user_keys [] = Some []"
| "extract_user_keys (key # keys) =
     do { u \<leftarrow> ExtractUserKey key; us \<leftarrow> extract_user_keys keys; Some (u # us) }"

definition InternalFilterPolicy_CreateFilter ::
  "(byte list list \<Rightarrow> byte list \<Rightarrow> byte list option) \<Rightarrow> byte list list \<Rightarrow> byte list \<Rightarrow> byte list option" where
  "InternalFilterPolicy_CreateFilter user_create keys dst =
     do { mkey \<leftarrow> extract_user_keys keys; user_create mkey dst }"

definition InternalFilterPolicy_KeyMayMatch ::
  "(byte list \<Rightarrow> byte list \<Rightarrow> bool option) \<Rightarrow> byte list \<Rightarrow> byte list \<Rightarrow> bool option" where
  "InternalFilterPolicy_KeyMayMatch user_match key f = do { u \<leftarrow> ExtractUserKey key; user_match u f }"

section \<open>The interface\<close>

text \<open>\<open>K\<close> holds of the keys the policy is for; a caller passes the number of keys as an \<open>int\<close>.\<close>

locale filter_policy =
  fixes K :: "byte list \<Rightarrow> bool"
    and create_filter :: "byte list list \<Rightarrow> byte list \<Rightarrow> byte list option"
    and key_may_match :: "byte list \<Rightarrow> byte list \<Rightarrow> bool option"
  assumes create: "\<forall>k \<in> set keys. K k \<Longrightarrow> length keys < 2 ^ 31 \<Longrightarrow>
    \<exists>f. create_filter keys dst = Some (dst @ f) \<and> (\<forall>k \<in> set keys. key_may_match k f = Some True)"
begin

lemma create_obtain:
  assumes "\<forall>k \<in> set keys. K k" "length keys < 2 ^ 31"
  obtains f where "create_filter keys dst = Some (dst @ f)" "\<And>k. k \<in> set keys \<Longrightarrow> key_may_match k f = Some True"
  using create [OF assms, of dst] by blast

lemma internal_policy:
  "filter_policy (ikey K) (InternalFilterPolicy_CreateFilter create_filter)
     (InternalFilterPolicy_KeyMayMatch key_may_match)"
proof
  fix keys :: "byte list list" and dst :: "byte list" assume k: "\<forall>k \<in> set keys. ikey K k" and n: "length keys < 2 ^ 31"
  let ?u = "\<lambda>k. take (length k - 8) k"
  have x: "extract_user_keys keys = Some (map ?u keys)"
    using k by (induction keys) (simp_all add: ikey_def ExtractUserKey_def)
  have "\<forall>k \<in> set (map ?u keys). K k" using k by (auto simp: ikey_def)
  then obtain f where f: "create_filter (map ?u keys) dst = Some (dst @ f)"
      "\<And>k. k \<in> set (map ?u keys) \<Longrightarrow> key_may_match k f = Some True"
    using n by (elim create_obtain [of "map ?u keys" dst]) simp_all
  have "\<forall>k \<in> set keys. InternalFilterPolicy_KeyMayMatch key_may_match k f = Some True"
    using f(2) k by (auto simp: InternalFilterPolicy_KeyMayMatch_def ExtractUserKey_def ikey_def)
  with x f(1) show "\<exists>f. InternalFilterPolicy_CreateFilter create_filter keys dst = Some (dst @ f) \<and>
      (\<forall>k \<in> set keys. InternalFilterPolicy_KeyMayMatch key_may_match k f = Some True)"
    by (auto simp: InternalFilterPolicy_CreateFilter_def)
qed

end

section \<open>The Bloom filter has no false negatives\<close>

text \<open>\<open>more_set a b\<close>: \<open>b\<close> is \<open>a\<close> with more bits set among the first \<open>n\<close> bytes.\<close>

definition more_set :: "nat \<Rightarrow> byte list \<Rightarrow> byte list \<Rightarrow> bool" where
  "more_set n a b \<longleftrightarrow> length b = length a \<and> drop n b = drop n a \<and>
     (\<forall>i < length a. \<forall>j. bit (a ! i) j \<longrightarrow> bit (b ! i) j)"

lemma more_set_refl: "more_set n a a"
  by (simp add: more_set_def)

lemma more_set_trans: "more_set n a b \<Longrightarrow> more_set n b c \<Longrightarrow> more_set n a c"
  by (simp add: more_set_def)

lemma and_one_bit: "a AND push_bit j 1 \<noteq> 0 \<longleftrightarrow> bit a j" for a :: byte
proof -
  have "a AND push_bit j 1 = (if bit a j then push_bit j 1 else 0)"
    by (rule bit_eqI) (auto simp: bit_simps)
  moreover have "bit a j \<Longrightarrow> push_bit j 1 \<noteq> (0 :: byte)"
    by (drule bit_imp_le_length) (auto simp: bit_eq_iff bit_simps)
  ultimately show ?thesis by auto
qed

lemma and_power_bit: "a AND 2 ^ j = 0 \<longleftrightarrow> \<not> bit a j" for a :: byte
  using and_one_bit [of a j] by auto

lemma array_set_ok:
  assumes "bitpos < n * 8" "n \<le> length array"
  shows "\<exists>b. array_set array bitpos = Some b \<and> more_set n array b \<and> array_test b bitpos = Some True"
proof -
  have i: "bitpos div 8 < n" using assms(1) by (simp add: less_mult_imp_div_less)
  then have l: "bitpos div 8 < length array" using assms(2) by simp
  have j: "bit (push_bit (bitpos mod 8) 1 :: byte) (bitpos mod 8)" by (simp add: bit_simps)
  show ?thesis
    using i l j by (auto simp: array_set_def array_test_def more_set_def nth_list_update and_power_bit bit_or_iff)
qed

lemma array_test_more:
  "more_set n a b \<Longrightarrow> array_test a bitpos = Some True \<Longrightarrow> array_test b bitpos = Some True"
  by (auto simp: array_test_def more_set_def and_power_bit split: if_splits)

lemma test_probes_more:
  "more_set n a b \<Longrightarrow> test_probes j h delta bits a = Some True \<Longrightarrow> test_probes j h delta bits b = Some True"
  by (induction j arbitrary: h) (auto simp: array_test_more split: Option.bind_splits if_splits)

lemma set_probes_ok:
  assumes "0 < n" "n \<le> length array"
  shows "\<exists>b. set_probes j h delta (n * 8) array = Some b \<and> more_set n array b \<and>
     test_probes j h delta (n * 8) b = Some True"
  using assms(2)
proof (induction j arbitrary: h array)
  case 0
  then show ?case by (simp add: more_set_refl)
next
  case (Suc j)
  have "unat h mod (n * 8) < n * 8" using assms(1) by simp
  from array_set_ok [OF this Suc.prems] obtain a where a: "array_set array (unat h mod (n * 8)) = Some a"
    "more_set n array a" "array_test a (unat h mod (n * 8)) = Some True" by blast
  then have "n \<le> length a" using Suc.prems by (simp add: more_set_def)
  from Suc.IH [OF this, of "h + delta"] obtain b where b: "set_probes j (h + delta) delta (n * 8) a = Some b"
    "more_set n a b" "test_probes j (h + delta) delta (n * 8) b = Some True" by blast
  have "array_test b (unat h mod (n * 8)) = Some True" by (rule array_test_more [OF b(2) a(3)])
  with a b more_set_trans [OF a(2) b(2)] show ?case by simp
qed

lemma set_keys_ok:
  assumes "0 < n" "n \<le> length array"
  shows "\<exists>b. set_keys keys k (n * 8) array = Some b \<and> more_set n array b \<and>
     (\<forall>key \<in> set keys. test_probes k (BloomHash key) (bloom_delta (BloomHash key)) (n * 8) b = Some True)"
  using assms(2)
proof (induction keys arbitrary: array)
  case Nil
  then show ?case by (simp add: more_set_refl)
next
  case (Cons key keys)
  from set_probes_ok [OF assms(1) Cons.prems, of k "BloomHash key" "bloom_delta (BloomHash key)"]
  obtain a where a: "set_probes k (BloomHash key) (bloom_delta (BloomHash key)) (n * 8) array = Some a"
    "more_set n array a" "test_probes k (BloomHash key) (bloom_delta (BloomHash key)) (n * 8) a = Some True"
    by blast
  then have "n \<le> length a" using Cons.prems by (simp add: more_set_def)
  from Cons.IH [OF this] obtain b where b: "set_keys keys k (n * 8) a = Some b" "more_set n a b"
    "\<forall>key \<in> set keys. test_probes k (BloomHash key) (bloom_delta (BloomHash key)) (n * 8) b = Some True"
    by blast
  with a more_set_trans [OF a(2) b(2)] test_probes_more [OF b(2) a(3)] show ?case by (auto simp: Let_def)
qed

lemma bloom_k_bounds: "1 \<le> bloom_k b" "bloom_k b \<le> 30"
  by (simp_all add: bloom_k_def Let_def)

lemma bloom_bytes_pos: "n * b < 2 ^ 63 \<Longrightarrow> 8 \<le> bloom_bytes b n"
  by (auto simp: bloom_bytes_def Let_def less_eq_div_iff_mult_less_eq)

lemma bloom_no_false_negative:
  assumes "length keys * b < 2 ^ 63"
  shows "\<exists>f. Bloom_CreateFilter b keys dst = Some (dst @ f) \<and> length f = bloom_bytes b (length keys) + 1 \<and>
     (\<forall>key \<in> set keys. Bloom_KeyMayMatch key f = Some True)"
proof -
  let ?n = "bloom_bytes b (length keys)" and ?k = "bloom_k b"
  have n: "8 \<le> ?n" by (rule bloom_bytes_pos [OF assms])
  then have "0 < ?n" "?n \<le> length (replicate ?n (0 :: byte) @ [of_nat ?k])" by simp_all
  from set_keys_ok [OF this, of keys ?k] obtain f where
    f: "set_keys keys ?k (?n * 8) (replicate ?n 0 @ [of_nat ?k]) = Some f"
      "more_set ?n (replicate ?n 0 @ [of_nat ?k]) f"
      "\<forall>key \<in> set keys. test_probes ?k (BloomHash key) (bloom_delta (BloomHash key)) (?n * 8) f = Some True"
    by blast
  from f(2) have l: "length f = ?n + 1" and "drop ?n f = [of_nat ?k]" by (simp_all add: more_set_def)
  then have "f ! ?n = of_nat ?k" by (metis Cons_nth_drop_Suc add.right_neutral less_add_one list.inject)
  moreover have "unat (of_nat ?k :: byte) = ?k" using bloom_k_bounds(2) [of b] by (simp add: unat_of_nat)
  ultimately have "Bloom_KeyMayMatch key f = test_probes ?k (BloomHash key) (bloom_delta (BloomHash key)) (?n * 8) f" for key
    using n l bloom_k_bounds(2) [of b] by (simp add: Bloom_KeyMayMatch_def Let_def)
  with f l show ?thesis by (simp add: Bloom_CreateFilter_def Let_def)
qed

text \<open>No filter, however it was made, is read outside its bytes.\<close>

lemma test_probes_total:
  "0 < n \<Longrightarrow> n \<le> length array \<Longrightarrow> test_probes j h delta (n * 8) array \<noteq> None"
proof (induction j arbitrary: h)
  case (Suc j)
  have "unat h mod (n * 8) < n * 8" using Suc.prems by simp
  then have "unat h mod (n * 8) div 8 < length array" using Suc.prems(2) by (simp add: less_mult_imp_div_less less_le_trans)
  with Suc show ?case by (simp add: array_test_def del: not_None_eq)
qed simp

lemma bloom_match_total: "Bloom_KeyMayMatch key f \<noteq> None"
proof (cases "length f < 2")
  case False
  then have "test_probes j h delta ((length f - 1) * 8) f \<noteq> None" for j h delta
    by (intro test_probes_total) simp_all
  then show ?thesis by (simp add: Bloom_KeyMayMatch_def Let_def del: not_None_eq)
qed (simp add: Bloom_KeyMayMatch_def)

lemma bloom_policy: "b < 2 ^ 31 \<Longrightarrow> filter_policy (\<lambda>_. True) (Bloom_CreateFilter b) Bloom_KeyMayMatch"
proof
  fix keys :: "byte list list" and dst :: "byte list" assume "b < 2 ^ 31" "length keys < 2 ^ 31"
  then have "length keys * b \<le> 2 ^ 31 * 2 ^ 31" by (intro mult_le_mono) simp_all
  also have "(2 ^ 31 * 2 ^ 31 :: nat) < 2 ^ 63" by simp
  finally have "length keys * b < 2 ^ 63" .
  from bloom_no_false_negative [OF this, of dst]
  show "\<exists>f. Bloom_CreateFilter b keys dst = Some (dst @ f) \<and>
      (\<forall>k \<in> set keys. Bloom_KeyMayMatch k f = Some True)" by blast
qed

text \<open>The policy of the database tests and documentation, ten bits a key, alone and on internal keys.\<close>

interpretation bloom: filter_policy "\<lambda>_. True" "Bloom_CreateFilter 10" Bloom_KeyMayMatch
  by (rule bloom_policy) simp

interpretation ibloom: filter_policy "ikey (\<lambda>_. True)"
  "InternalFilterPolicy_CreateFilter (Bloom_CreateFilter 10)" "InternalFilterPolicy_KeyMayMatch Bloom_KeyMayMatch"
  by (rule bloom.internal_policy)

end
