(* ===== verification/LdbFilterBlock.thy ===== *)
theory LdbFilterBlock
  imports LdbBloom
begin

text \<open>
  \<open>table/filter_block.cc\<close>: the builder of a table's filter block and its reader, over any filter
  policy. A block that is built from the keys of the data blocks and read back matches each
  of these keys at the offset of its data block.
\<close>

section \<open>The builder\<close>

definition kFilterBaseLg :: nat where "kFilterBaseLg = 11"
definition kFilterBase :: nat where "kFilterBase = 2 ^ kFilterBaseLg"

record FilterBlockBuilder =
  fbb_keys :: "byte list"
  fbb_start :: "nat list"
  fbb_result :: "byte list"
  fbb_offsets :: "32 word list"

definition new_FilterBlockBuilder :: FilterBlockBuilder where
  "new_FilterBlockBuilder = \<lparr>fbb_keys = [], fbb_start = [], fbb_result = [], fbb_offsets = []\<rparr>"

type_synonym create_filter = "byte list list \<Rightarrow> byte list \<Rightarrow> byte list option"
type_synonym match_filter = "byte list \<Rightarrow> byte list \<Rightarrow> bool option"

definition GenerateFilter :: "create_filter \<Rightarrow> FilterBlockBuilder \<Rightarrow> FilterBlockBuilder option" where
  "GenerateFilter create s =
     (let num_keys = length (fbb_start s);
          filter_offsets = fbb_offsets s @ [of_nat (length (fbb_result s))] in
      if num_keys = 0 then Some (s\<lparr>fbb_offsets := filter_offsets\<rparr>)
      else do { let start = fbb_start s @ [length (fbb_keys s)];
                let tmp_keys = map (\<lambda>i. take (start ! (i + 1) - start ! i) (drop (start ! i) (fbb_keys s)))
                  [0..<num_keys];
                result \<leftarrow> create tmp_keys (fbb_result s);
                Some \<lparr>fbb_keys = [], fbb_start = [], fbb_result = result, fbb_offsets = filter_offsets\<rparr> })"

lemma GenerateFilter_offsets: "GenerateFilter create s = Some s' \<Longrightarrow> length (fbb_offsets s') = Suc (length (fbb_offsets s))"
  by (auto simp: GenerateFilter_def Let_def split: if_splits Option.bind_splits)

function generate_until :: "create_filter \<Rightarrow> nat \<Rightarrow> FilterBlockBuilder \<Rightarrow> FilterBlockBuilder option" where
  "generate_until create filter_index s =
     (if filter_index > length (fbb_offsets s) then
        (case GenerateFilter create s of
           None \<Rightarrow> None
         | Some s' \<Rightarrow> generate_until create filter_index s')
      else Some s)"
  by pat_completeness auto
termination
  by (relation "measure (\<lambda>(create, filter_index, s). filter_index - length (fbb_offsets s))")
    (auto dest!: GenerateFilter_offsets)

declare generate_until.simps [simp del]

definition StartBlock :: "create_filter \<Rightarrow> 64 word \<Rightarrow> FilterBlockBuilder \<Rightarrow> FilterBlockBuilder option" where
  "StartBlock create block_offset s =
     (let filter_index = unat block_offset div kFilterBase in
      if filter_index \<ge> length (fbb_offsets s) then generate_until create filter_index s else None)"

definition AddKey :: "byte list \<Rightarrow> FilterBlockBuilder \<Rightarrow> FilterBlockBuilder" where
  "AddKey key s = s\<lparr>fbb_start := fbb_start s @ [length (fbb_keys s)], fbb_keys := fbb_keys s @ key\<rparr>"

definition FilterBlock_Finish :: "create_filter \<Rightarrow> FilterBlockBuilder \<Rightarrow> (byte list \<times> FilterBlockBuilder) option" where
  "FilterBlock_Finish create s =
     do { s \<leftarrow> (if fbb_start s \<noteq> [] then GenerateFilter create s else Some s);
          let array_offset = of_nat (length (fbb_result s));
          let result = foldl PutFixed32 (fbb_result s) (fbb_offsets s);
          let result = PutFixed32 result array_offset;
          let result = result @ [of_nat kFilterBaseLg];
          Some (result, s\<lparr>fbb_result := result\<rparr>) }"

section \<open>The reader\<close>

text \<open>\<open>fbr_data\<close> is what \<open>data_\<close> points to and \<open>fbr_offset\<close> the distance from it to \<open>offset_\<close>.\<close>

record FilterBlockReader =
  fbr_data :: "byte list"
  fbr_offset :: nat
  fbr_num :: nat
  fbr_base_lg :: nat

definition new_FilterBlockReader :: "byte list \<Rightarrow> FilterBlockReader option" where
  "new_FilterBlockReader contents =
     (let n = length contents; r = \<lparr>fbr_data = [], fbr_offset = 0, fbr_num = 0, fbr_base_lg = 0\<rparr> in
      if n < 5 then Some r
      else do { let r = r\<lparr>fbr_base_lg := unat (contents ! (n - 1))\<rparr>;
                last_word \<leftarrow> DecodeFixed32 (drop (n - 5) contents);
                Some (if unat last_word > n - 5 then r
                      else r\<lparr>fbr_data := contents, fbr_offset := unat last_word,
                             fbr_num := (n - 5 - unat last_word) div 4\<rparr>) })"

text \<open>A shift by 64 or more is undefined.\<close>

definition FilterBlock_KeyMayMatch :: "match_filter \<Rightarrow> FilterBlockReader \<Rightarrow> 64 word \<Rightarrow> byte list \<Rightarrow> bool option" where
  "FilterBlock_KeyMayMatch key_may_match r block_offset key =
     (if fbr_base_lg r \<ge> 64 then None
      else let index = unat (drop_bit (fbr_base_lg r) block_offset) in
        if index < fbr_num r then
          do { start \<leftarrow> DecodeFixed32 (drop (fbr_offset r + index * 4) (fbr_data r));
               limit \<leftarrow> DecodeFixed32 (drop (fbr_offset r + index * 4 + 4) (fbr_data r));
               if start \<le> limit \<and> unat limit \<le> fbr_offset r
               then key_may_match key (take (unat limit - unat start) (drop (unat start) (fbr_data r)))
               else if start = limit then Some False
               else Some True }
        else Some True)"

section \<open>Flattened lists\<close>

text \<open>Where the parts of a flattened list start.\<close>

definition starts :: "'a list list \<Rightarrow> nat list" where
  "starts xs = map (\<lambda>i. length (concat (take i xs))) [0..<length xs]"

lemma starts_Nil [simp]: "starts [] = []"
  by (simp add: starts_def)

lemma starts_snoc [simp]: "starts (xs @ [x]) = starts xs @ [length (concat xs)]"
  by (simp add: starts_def)

lemma length_starts [simp]: "length (starts xs) = length xs"
  by (simp add: starts_def)

lemma starts_eq_Nil [simp]: "starts xs = [] \<longleftrightarrow> xs = []"
  by (simp add: starts_def)

lemma starts_all: "i \<le> length xs \<Longrightarrow> (starts xs @ [length (concat xs)]) ! i = length (concat (take i xs))"
  by (cases "i = length xs") (simp_all add: starts_def nth_append)

lemma slice_part:
  assumes "i < length xs"
  shows "take (length (concat (take (Suc i) xs)) - length (concat (take i xs)))
     (drop (length (concat (take i xs))) (concat xs @ rest)) = xs ! i"
proof -
  have "concat xs = concat (take i xs) @ xs ! i @ concat (drop (Suc i) xs)"
    using assms by (metis concat.simps(2) concat_append id_take_nth_drop)
  moreover have "concat (take (Suc i) xs) = concat (take i xs) @ xs ! i"
    using assms by (simp add: take_Suc_conv_app_nth)
  ultimately show ?thesis by simp
qed

lemma parts_of_starts:
  "map (\<lambda>i. take ((starts xs @ [length (concat xs)]) ! (i + 1) - (starts xs @ [length (concat xs)]) ! i)
      (drop ((starts xs @ [length (concat xs)]) ! i) (concat xs))) [0..<length xs] = xs"
  by (rule nth_equalityI) (use slice_part [of _ xs "[]"] in \<open>simp_all add: starts_all del: take_Suc\<close>)

section \<open>What has been built\<close>

text \<open>The filters made so far and the keys that wait for the next one.\<close>

definition fb_inv :: "FilterBlockBuilder \<Rightarrow> byte list list \<Rightarrow> byte list list \<Rightarrow> bool" where
  "fb_inv s fs pending \<longleftrightarrow> fbb_keys s = concat pending \<and> fbb_start s = starts pending \<and>
     fbb_result s = concat fs \<and> fbb_offsets s = map of_nat (starts fs)"

text \<open>The keys by filter index: each is matched by its filter or waits for it.\<close>

definition covered :: "match_filter \<Rightarrow> byte list list \<Rightarrow> byte list list \<Rightarrow> (nat \<times> byte list) set \<Rightarrow> bool" where
  "covered key_may_match fs pending G \<longleftrightarrow> (\<forall>(i, k) \<in> G.
     i < length fs \<and> key_may_match k (fs ! i) = Some True \<or> i = length fs \<and> k \<in> set pending)"

lemma covered_snoc:
  "covered m fs pending G \<Longrightarrow> \<forall>k \<in> set pending. m k f = Some True \<Longrightarrow> covered m (fs @ [f]) [] G"
  unfolding covered_def by (fastforce simp: nth_append)

lemma covered_add: "covered m fs pending G \<Longrightarrow> covered m fs (pending @ ks) (G \<union> Pair (length fs) ` set ks)"
  by (auto simp: covered_def)

lemma new_FilterBlockBuilder_inv: "fb_inv new_FilterBlockBuilder [] []"
  by (simp add: fb_inv_def new_FilterBlockBuilder_def)

lemma AddKey_inv: "fb_inv s fs pending \<Longrightarrow> fb_inv (AddKey k s) fs (pending @ [k])"
  by (simp add: fb_inv_def AddKey_def)

lemma AddKeys_inv: "fb_inv s fs pending \<Longrightarrow> fb_inv (fold AddKey ks s) fs (pending @ ks)"
proof (induction ks arbitrary: s pending)
  case (Cons k ks)
  from Cons.IH [OF AddKey_inv [OF Cons.prems]] show ?case by simp
qed simp

text \<open>A client's calls: the data blocks' offsets with their keys.\<close>

fun build_filters :: "create_filter \<Rightarrow> (64 word \<times> byte list list) list \<Rightarrow> FilterBlockBuilder \<Rightarrow> FilterBlockBuilder option" where
  "build_filters create [] s = Some s"
| "build_filters create ((block_offset, keys) # blocks) s =
     do { s \<leftarrow> StartBlock create block_offset s;
          build_filters create blocks (fold AddKey keys s) }"

fun filter_keys :: "(64 word \<times> byte list list) list \<Rightarrow> (nat \<times> byte list) set" where
  "filter_keys [] = {}"
| "filter_keys ((block_offset, keys) # blocks) =
     Pair (unat block_offset div kFilterBase) ` set keys \<union> filter_keys blocks"

context filter_policy
begin

lemma generate_inv:
  assumes "fb_inv s fs pending" "\<forall>k \<in> set pending. K k" "length pending < 2 ^ 31"
  shows "\<exists>s' f. GenerateFilter create_filter s = Some s' \<and> fb_inv s' (fs @ [f]) [] \<and>
     (\<forall>k \<in> set pending. key_may_match k f = Some True)"
proof (cases "pending = []")
  case True
  with assms(1) show ?thesis by (intro exI [of _ "_\<lparr>fbb_offsets := _\<rparr>"] exI [of _ "[]"])
    (auto simp: fb_inv_def GenerateFilter_def)
next
  case False
  obtain f where f: "create_filter pending (concat fs) = Some (concat fs @ f)"
    "\<And>k. k \<in> set pending \<Longrightarrow> key_may_match k f = Some True"
    using create_obtain [OF assms(2,3)] by metis
  let ?s = "\<lparr>fbb_keys = [], fbb_start = [], fbb_result = concat fs @ f, fbb_offsets = map of_nat (starts (fs @ [f]))\<rparr>"
  have "GenerateFilter create_filter s = Some ?s"
    using False assms(1) f(1) by (simp add: fb_inv_def GenerateFilter_def Let_def parts_of_starts [simplified])
  moreover have "fb_inv ?s (fs @ [f]) []" by (simp add: fb_inv_def)
  ultimately show ?thesis using f(2) by blast
qed

lemma generate_until_inv:
  assumes "fb_inv s fs pending" "\<forall>k \<in> set pending. K k" "length pending < 2 ^ 31"
    "covered key_may_match fs pending G" "length fs \<le> n"
  shows "\<exists>s' fs' pending'. generate_until create_filter n s = Some s' \<and> fb_inv s' fs' pending' \<and>
     length fs' = n \<and> covered key_may_match fs' pending' G \<and>
     (\<forall>k \<in> set pending'. K k) \<and> length pending' \<le> length pending"
  using assms
proof (induction "n - length fs" arbitrary: s fs pending)
  case 0
  then have "length (fbb_offsets s) = n" by (simp add: fb_inv_def)
  with 0 show ?case by (auto simp: generate_until.simps [of _ _ s])
next
  case (Suc d)
  have more: "n > length (fbb_offsets s)" using Suc by (simp add: fb_inv_def)
  obtain s' f where s': "GenerateFilter create_filter s = Some s'" "fb_inv s' (fs @ [f]) []"
    "\<forall>k \<in> set pending. key_may_match k f = Some True"
    using generate_inv [OF Suc.prems(1-3)] by blast
  have "\<exists>s'' fs' pending'. generate_until create_filter n s' = Some s'' \<and> fb_inv s'' fs' pending' \<and>
      length fs' = n \<and> covered key_may_match fs' pending' G \<and> (\<forall>k \<in> set pending'. K k) \<and> length pending' \<le> length ([] :: byte list list)"
    (is "\<exists>s'' fs' pending'. ?P s'' fs' pending'")
    by (rule Suc.hyps(1) [of "fs @ [f]"]) (use Suc.hyps(2) s'(2) covered_snoc [OF Suc.prems(4) s'(3)] in auto)
  then obtain s'' fs' pending' where p: "?P s'' fs' pending'" by blast
  then have "generate_until create_filter n s = Some s''" "length pending' \<le> length pending"
    using more s'(1) by (simp_all add: generate_until.simps [of _ _ s])
  with p show ?case by blast
qed

lemma build_inv:
  assumes "fb_inv s fs pending" "\<forall>k \<in> set pending. K k"
    "length pending + length (concat (map snd blocks)) < 2 ^ 31"
    "covered key_may_match fs pending G" "\<forall>(_, keys) \<in> set blocks. \<forall>k \<in> set keys. K k"
    "sorted (map fst blocks)" "\<forall>(off, _) \<in> set blocks. length fs \<le> unat off div kFilterBase"
  shows "\<exists>s' fs' pending'. build_filters create_filter blocks s = Some s' \<and> fb_inv s' fs' pending' \<and>
     covered key_may_match fs' pending' (G \<union> filter_keys blocks) \<and>
     (\<forall>k \<in> set pending'. K k) \<and> length pending' < 2 ^ 31"
  using assms
proof (induction blocks arbitrary: s fs pending G)
  case Nil
  then show ?case by auto
next
  case (Cons b blocks)
  obtain off keys where b: "b = (off, keys)" by fastforce
  let ?n = "unat off div kFilterBase"
  have n: "length fs \<le> ?n" and l: "length pending < 2 ^ 31" using Cons.prems(3,7) b by simp_all
  from generate_until_inv [OF Cons.prems(1,2) l Cons.prems(4) n] obtain s1 fs1 p1 where
    s1: "generate_until create_filter ?n s = Some s1" "fb_inv s1 fs1 p1" "length fs1 = ?n"
      "covered key_may_match fs1 p1 G" "\<forall>k \<in> set p1. K k" "length p1 \<le> length pending" by blast
  have start: "StartBlock create_filter off s = Some s1"
    using s1(1) n Cons.prems(1) by (simp add: StartBlock_def Let_def fb_inv_def)
  have later: "\<forall>(off', _) \<in> set blocks. length fs1 \<le> unat off' div kFilterBase"
    using Cons.prems(6) b s1(3) by (auto simp: word_le_nat_alt intro!: div_le_mono)
  have "\<exists>s' fs' pending'. build_filters create_filter blocks (fold AddKey keys s1) = Some s' \<and>
      fb_inv s' fs' pending' \<and>
      covered key_may_match fs' pending' ((G \<union> Pair (length fs1) ` set keys) \<union> filter_keys blocks) \<and>
      (\<forall>k \<in> set pending'. K k) \<and> length pending' < 2 ^ 31"
    by (rule Cons.IH [OF AddKeys_inv [OF s1(2)] _ _ covered_add [OF s1(4)] _ _ later])
      (use Cons.prems s1 b in auto)
  with start s1(3) b show ?case by (simp add: Un_assoc)
qed

end

section \<open>Reading the block\<close>

definition filter_block :: "byte list list \<Rightarrow> byte list" where
  "filter_block fs = concat fs @ concat (map EncodeFixed32 (map of_nat (starts fs @ [length (concat fs)]))) @
     [of_nat kFilterBaseLg]"

lemma FilterBlock_Finish_block:
  "fb_inv s fs [] \<Longrightarrow> \<exists>s'. FilterBlock_Finish create s = Some (filter_block fs, s')"
  by (simp add: FilterBlock_Finish_def fb_inv_def filter_block_def foldl_PutFixed32 PutFixed32_def Let_def)

lemma filter_block_parts:
  "filter_block fs = (concat fs @ concat (map EncodeFixed32 (map of_nat (starts fs)))) @
     EncodeFixed32 (of_nat (length (concat fs))) @ [of_nat kFilterBaseLg]"
  by (simp add: filter_block_def)

lemma length_filter_block: "length (filter_block fs) = length (concat fs) + length fs * 4 + 5"
  by (simp add: filter_block_parts length_words [of "map of_nat (starts fs)", simplified])

lemma filter_block_reader:
  assumes "length (filter_block fs) < 2 ^ 32"
  shows "new_FilterBlockReader (filter_block fs) = Some
    \<lparr>fbr_data = filter_block fs, fbr_offset = length (concat fs), fbr_num = length fs, fbr_base_lg = 11\<rparr>"
proof -
  let ?n = "length (filter_block fs)"
  have n: "?n - 5 = length (concat fs @ concat (map EncodeFixed32 (map of_nat (starts fs))))" "5 \<le> ?n"
    using length_words [of "map of_nat (starts fs)"] by (simp_all add: length_filter_block)
  have d: "drop (?n - 5) (filter_block fs) = EncodeFixed32 (of_nat (length (concat fs))) @ [of_nat kFilterBaseLg]"
    by (subst (2) filter_block_parts) (simp only: n(1) append_eq_conv_conj [THEN iffD1, OF refl, THEN conjunct2, symmetric])
  have lg: "filter_block fs ! (?n - 1) = 11"
    by (simp add: filter_block_parts length_filter_block nth_append length_words [of "map of_nat (starts fs)", simplified]
        kFilterBaseLg_def)
  have "unat (of_nat (length (concat fs)) :: 32 word) = length (concat fs)"
    using assms by (intro unat_of_length) (simp add: length_filter_block)
  with n(2) d lg show ?thesis
    by (simp add: new_FilterBlockReader_def Let_def length_filter_block)
qed

lemma filter_block_word:
  assumes "i \<le> length fs"
  shows "DecodeFixed32 (drop (length (concat fs) + i * 4) (filter_block fs)) = Some (of_nat (length (concat (take i fs))))"
proof -
  have "map of_nat (starts fs @ [length (concat fs)]) ! i = (of_nat (length (concat (take i fs))) :: 32 word)"
    using assms by (subst nth_map) (simp_all add: starts_all)
  moreover have "DecodeFixed32 (drop (i * 4) (concat (map EncodeFixed32 (map of_nat (starts fs @ [length (concat fs)]))) @
      [of_nat kFilterBaseLg])) = Some (map of_nat (starts fs @ [length (concat fs)]) ! i)"
    using assms by (intro word_at) simp
  moreover have "drop (length (concat fs) + i * 4) (filter_block fs) =
      drop (i * 4) (concat (map EncodeFixed32 (map of_nat (starts fs @ [length (concat fs)]))) @ [of_nat kFilterBaseLg])"
    by (simp add: filter_block_def)
  ultimately show ?thesis by (simp only:)
qed

text \<open>The reader gives the policy the filter that was made for the offset.\<close>

lemma filter_block_match:
  assumes "length (filter_block fs) < 2 ^ 32" and "unat off div kFilterBase < length fs"
    and "new_FilterBlockReader (filter_block fs) = Some r"
  shows "FilterBlock_KeyMayMatch m r off key = m key (fs ! (unat off div kFilterBase))"
proof -
  let ?i = "unat off div kFilterBase"
  have r: "r = \<lparr>fbr_data = filter_block fs, fbr_offset = length (concat fs), fbr_num = length fs, fbr_base_lg = 11\<rparr>"
    using filter_block_reader [OF assms(1)] assms(3) by simp
  have i: "unat (drop_bit 11 off) = ?i"
    by (simp only: unat_drop_bit_eq drop_bit_nat_def kFilterBase_def kFilterBaseLg_def)
  have le: "length (concat (take j fs)) \<le> length (concat fs)" for j
    by (metis append_take_drop_id concat_append le_add1 length_append)
  have u: "unat (of_nat (length (concat (take j fs))) :: 32 word) = length (concat (take j fs))" for j
    using assms(1) le [of j] by (intro unat_of_length) (simp add: length_filter_block)
  have s: "DecodeFixed32 (drop (length (concat fs) + ?i * 4) (filter_block fs)) = Some (of_nat (length (concat (take ?i fs))))"
    using assms(2) by (intro filter_block_word) simp
  have l: "DecodeFixed32 (drop (length (concat fs) + ?i * 4 + 4) (filter_block fs)) =
      Some (of_nat (length (concat (take (Suc ?i) fs))))"
    using filter_block_word [of "Suc ?i" fs] assms(2) by (simp add: ac_simps)
  have "length (concat (take ?i fs)) \<le> length (concat (take (Suc ?i) fs))"
    using assms(2) by (simp add: take_Suc_conv_app_nth)
  then have between: "(of_nat (length (concat (take ?i fs))) :: 32 word) \<le> of_nat (length (concat (take (Suc ?i) fs)))"
    by (simp only: word_le_nat_alt u)
  have part: "take (length (concat (take (Suc ?i) fs)) - length (concat (take ?i fs)))
      (drop (length (concat (take ?i fs))) (filter_block fs)) = fs ! ?i"
    unfolding filter_block_def by (rule slice_part [OF assms(2)])
  show ?thesis
    using assms(2) between le [of "Suc ?i"] part
    by (simp add: FilterBlock_KeyMayMatch_def Let_def r i s l u)
qed

lemma FilterBlock_Finish_step:
  "fbb_start s \<noteq> [] \<Longrightarrow> GenerateFilter create s = Some s' \<Longrightarrow> fbb_start s' = [] \<Longrightarrow>
   FilterBlock_Finish create s = FilterBlock_Finish create s'"
  by (simp add: FilterBlock_Finish_def)

lemma filter_keys_mem:
  "(off, keys) \<in> set blocks \<Longrightarrow> k \<in> set keys \<Longrightarrow> (unat off div kFilterBase, k) \<in> filter_keys blocks"
  by (induction blocks) auto

context filter_policy
begin

lemma filter_block_covers:
  assumes "\<forall>(_, keys) \<in> set blocks. \<forall>k \<in> set keys. K k" "sorted (map fst blocks)"
    "length (concat (map snd blocks)) < 2 ^ 31"
  shows "\<exists>s contents s'. build_filters create_filter blocks new_FilterBlockBuilder = Some s \<and>
     FilterBlock_Finish create_filter s = Some (contents, s') \<and>
     (length contents < 2 ^ 32 \<longrightarrow> (\<exists>r. new_FilterBlockReader contents = Some r \<and>
       (\<forall>(off, keys) \<in> set blocks. \<forall>k \<in> set keys. FilterBlock_KeyMayMatch key_may_match r off k = Some True)))"
proof -
  have "\<exists>s fs pending. build_filters create_filter blocks new_FilterBlockBuilder = Some s \<and> fb_inv s fs pending \<and>
      covered key_may_match fs pending ({} \<union> filter_keys blocks) \<and> (\<forall>k \<in> set pending. K k) \<and> length pending < 2 ^ 31"
    by (rule build_inv [OF new_FilterBlockBuilder_inv]) (use assms in \<open>auto simp: covered_def\<close>)
  then obtain s fs pending where b: "build_filters create_filter blocks new_FilterBlockBuilder = Some s"
    and inv: "fb_inv s fs pending" "\<forall>k \<in> set pending. K k" "length pending < 2 ^ 31"
    and c: "covered key_may_match fs pending (filter_keys blocks)" by auto
  have "\<exists>s' fs'. FilterBlock_Finish create_filter s = Some (filter_block fs', s') \<and>
      covered key_may_match fs' [] (filter_keys blocks)"
  proof (cases "pending = []")
    case True
    with inv(1) c FilterBlock_Finish_block [of s fs create_filter] show ?thesis by blast
  next
    case False
    from generate_inv [OF inv] obtain s1 f where g: "GenerateFilter create_filter s = Some s1"
      "fb_inv s1 (fs @ [f]) []" "\<forall>k \<in> set pending. key_may_match k f = Some True" by blast
    have "fbb_start s \<noteq> []" "fbb_start s1 = []"
      using False inv(1) g(2) by (simp_all add: fb_inv_def)
    with FilterBlock_Finish_step [OF _ g(1)] FilterBlock_Finish_block [OF g(2), of create_filter] covered_snoc [OF c g(3)]
    show ?thesis by metis
  qed
  then obtain s' fs' where f: "FilterBlock_Finish create_filter s = Some (filter_block fs', s')"
    and c': "covered key_may_match fs' [] (filter_keys blocks)" by blast
  have "\<exists>r. new_FilterBlockReader (filter_block fs') = Some r \<and>
      (\<forall>(off, keys) \<in> set blocks. \<forall>k \<in> set keys. FilterBlock_KeyMayMatch key_may_match r off k = Some True)"
    if l: "length (filter_block fs') < 2 ^ 32"
  proof -
    obtain r where r: "new_FilterBlockReader (filter_block fs') = Some r"
      using filter_block_reader [OF l] by blast
    have "FilterBlock_KeyMayMatch key_may_match r off k = Some True" if m: "(off, keys) \<in> set blocks" "k \<in> set keys" for off keys k
    proof -
      from filter_keys_mem [OF m] c' have "unat off div kFilterBase < length fs'"
        "key_may_match k (fs' ! (unat off div kFilterBase)) = Some True" by (auto simp: covered_def)
      with filter_block_match [OF l this(1) r] show ?thesis by simp
    qed
    with r show ?thesis by blast
  qed
  with b f show ?thesis by blast
qed

end

end
