(* ===== verification/LdbEnv.thy ===== *)
theory LdbEnv
  imports LdbStatus
begin

text \<open>
  The stream files of \<open>util/env_posix.cc\<close>, over the part of C's \<open>stdio\<close> they use. A
  \<open>FILE\<close> holds the file's bytes and the position reads are at. Reads fail at the byte
  \<open>file_fault\<close>, writes when \<open>file_space\<close> is used up, both as short counts; \<open>file_flush_error\<close>
  makes \<open>fflush\<close> fail.
\<close>

section \<open>Streams of the C library\<close>

record FILE =
  file_data :: "byte list"
  file_pos :: nat
  file_eof :: bool
  file_fault :: "nat option"
  file_space :: "nat option"
  file_flush_error :: bool

text \<open>A healthy file.\<close>

definition plain_file :: "byte list \<Rightarrow> FILE" where
  "plain_file bs = \<lparr>file_data = bs, file_pos = 0, file_eof = False, file_fault = None, file_space = None,
     file_flush_error = False\<rparr>"

definition fread_unlocked :: "nat \<Rightarrow> FILE \<Rightarrow> byte list \<times> FILE" where
  "fread_unlocked n f =
     (let readable = (case file_fault f of None \<Rightarrow> file_data f | Some k \<Rightarrow> take k (file_data f));
          bs = take n (drop (file_pos f) readable) in
      (bs, f\<lparr>file_pos := file_pos f + length bs,
             file_eof := (file_eof f \<or> length bs < n \<and> length readable = length (file_data f))\<rparr>))"

text \<open>
  \<open>fseek(f, offset, SEEK_CUR)\<close>: a position before the start of the file is EINVAL, one that does
  not fit a \<open>long\<close> is EOVERFLOW, and both leave the stream as it is.
\<close>

definition fseek_cur :: "int \<Rightarrow> FILE \<Rightarrow> bool \<times> FILE" where
  "fseek_cur offset f =
     (let p = int (file_pos f) + offset in
      if 0 \<le> p \<and> p < 2 ^ 63 then (True, f\<lparr>file_pos := nat p, file_eof := False\<rparr>) else (False, f))"

definition fwrite_unlocked :: "byte list \<Rightarrow> FILE \<Rightarrow> nat \<times> FILE" where
  "fwrite_unlocked bs f =
     (case file_space f of
        None \<Rightarrow> (length bs, f\<lparr>file_data := file_data f @ bs\<rparr>)
      | Some k \<Rightarrow> (let r = min k (length bs) in
          (r, f\<lparr>file_data := file_data f @ take r bs, file_space := Some (k - r)\<rparr>)))"

definition fflush_unlocked :: "FILE \<Rightarrow> bool" where
  "fflush_unlocked f \<longleftrightarrow> \<not> file_flush_error f"

section \<open>The files of the environment\<close>

text \<open>\<open>pf_errno\<close> is what \<open>strerror(errno)\<close> says after a failure.\<close>

record PosixFile =
  pf_filename :: string
  pf_errno :: string
  pf_file :: FILE

definition posix_IOError :: "PosixFile \<Rightarrow> Status" where
  "posix_IOError f = IOError (pf_filename f) (pf_errno f)"

definition SequentialFile_Read :: "nat \<Rightarrow> PosixFile \<Rightarrow> Status \<times> byte list \<times> PosixFile" where
  "SequentialFile_Read n f =
     (case fread_unlocked n (pf_file f) of
        (bs, file) \<Rightarrow>
          let f = f\<lparr>pf_file := file\<rparr> in
          (if length bs < n then (if file_eof file then Status_OK else posix_IOError f) else Status_OK, bs, f))"

text \<open>The \<open>uint64_t\<close> becomes the \<open>long\<close> of \<open>fseek\<close>: from \<open>2 ^ 63\<close> on it is negative and skips backwards.\<close>

definition SequentialFile_Skip :: "64 word \<Rightarrow> PosixFile \<Rightarrow> Status \<times> PosixFile" where
  "SequentialFile_Skip n f =
     (case fseek_cur (sint n) (pf_file f) of
        (done, file) \<Rightarrow> let f = f\<lparr>pf_file := file\<rparr> in (if done then Status_OK else posix_IOError f, f))"

definition WritableFile_Append :: "byte list \<Rightarrow> PosixFile \<Rightarrow> Status \<times> PosixFile" where
  "WritableFile_Append bs f =
     (case fwrite_unlocked bs (pf_file f) of
        (r, file) \<Rightarrow> let f = f\<lparr>pf_file := file\<rparr> in (if r \<noteq> length bs then posix_IOError f else Status_OK, f))"

definition WritableFile_Flush :: "PosixFile \<Rightarrow> Status" where
  "WritableFile_Flush f = (if fflush_unlocked (pf_file f) then Status_OK else posix_IOError f)"

section \<open>Healthy files\<close>

abbreviation (input) contents :: "PosixFile \<Rightarrow> byte list" where "contents f \<equiv> file_data (pf_file f)"

definition append_to :: "PosixFile \<Rightarrow> byte list \<Rightarrow> PosixFile" where
  "append_to f bs = f\<lparr>pf_file := (pf_file f)\<lparr>file_data := contents f @ bs\<rparr>\<rparr>"

definition writable :: "PosixFile \<Rightarrow> bool" where
  "writable f \<longleftrightarrow> file_space (pf_file f) = None \<and> \<not> file_flush_error (pf_file f)"

lemma writable_append [simp]: "writable (append_to f bs) \<longleftrightarrow> writable f"
  by (simp add: writable_def append_to_def)

lemma contents_append [simp]: "contents (append_to f bs) = contents f @ bs"
  by (simp add: append_to_def)

lemma append_append [simp]: "append_to (append_to f a) b = append_to f (a @ b)"
  by (simp add: append_to_def)

lemma append_Nil [simp]: "append_to f [] = f"
  by (simp add: append_to_def)

lemma Append_writable: "writable f \<Longrightarrow> WritableFile_Append bs f = (Status_OK, append_to f bs)"
  by (simp add: WritableFile_Append_def fwrite_unlocked_def writable_def append_to_def Let_def)

lemma Flush_writable: "writable f \<Longrightarrow> WritableFile_Flush f = Status_OK"
  by (simp add: WritableFile_Flush_def fflush_unlocked_def writable_def)

text \<open>Whatever goes wrong, a write only appends.\<close>

lemma Append_appends: "WritableFile_Append bs f = (s, f') \<Longrightarrow> \<exists>k. contents f' = contents f @ take k bs \<and>
    (status_ok s \<longrightarrow> k = length bs)"
  by (auto simp: WritableFile_Append_def fwrite_unlocked_def Let_def posix_IOError_def Status_OK_def status_ok_def
      IOError_def status_of_def split: option.splits if_splits intro: exI [of _ "length bs"])

end
