(* ===== verification/LdbLog.thy ===== *)
theory LdbLog
  imports LdbEnv LdbCrc32c LdbLogging
begin

text \<open>
  \<open>db/log_format.h\<close>, \<open>db/log_writer.cc\<close> and \<open>db/log_reader.cc\<close>: the write-ahead log. A record is
  cut into physical records that do not cross the 32 KiB blocks of the file. A violated
  \<open>assert\<close> is \<open>None\<close>. Checksums are computed at the address 0, since \<open>Extend_crc32c\<close> shows
  that the address does not matter. The calls on the reporter are a list in the reader.
\<close>

section \<open>Format\<close>

abbreviation (input) kZeroType :: nat where "kZeroType \<equiv> 0"
abbreviation (input) kFullType :: nat where "kFullType \<equiv> 1"
abbreviation (input) kFirstType :: nat where "kFirstType \<equiv> 2"
abbreviation (input) kMiddleType :: nat where "kMiddleType \<equiv> 3"
abbreviation (input) kLastType :: nat where "kLastType \<equiv> 4"

abbreviation (input) kMaxRecordType :: nat where "kMaxRecordType \<equiv> 4"
abbreviation (input) kBlockSize :: nat where "kBlockSize \<equiv> 32768"
abbreviation (input) kHeaderSize :: nat where "kHeaderSize \<equiv> 7"

section \<open>The writer\<close>

record LogWriter =
  lw_dest :: PosixFile
  lw_block_offset :: nat
  lw_type_crc :: "32 word list"

fun InitTypeCrc :: "nat \<Rightarrow> 32 word list option" where
  "InitTypeCrc 0 = do { c \<leftarrow> crc_Value 0 [0]; Some [c] }"
| "InitTypeCrc (Suc i) =
     do { cs \<leftarrow> InitTypeCrc i; c \<leftarrow> crc_Value 0 [of_nat (Suc i)]; Some (cs @ [c]) }"

definition new_LogWriter :: "PosixFile \<Rightarrow> 64 word \<Rightarrow> LogWriter option" where
  "new_LogWriter dest dest_length =
     do { type_crc \<leftarrow> InitTypeCrc kMaxRecordType;
          Some \<lparr>lw_dest = dest, lw_block_offset = unat dest_length mod kBlockSize, lw_type_crc = type_crc\<rparr> }"

definition EmitPhysicalRecord :: "nat \<Rightarrow> byte list \<Rightarrow> LogWriter \<Rightarrow> (Status \<times> LogWriter) option" where
  "EmitPhysicalRecord t ptr w =
     (let n = length ptr in
      if \<not> (n \<le> 0xffff \<and> lw_block_offset w + kHeaderSize + n \<le> kBlockSize) then None
      else do { crc \<leftarrow> Extend 0 (lw_type_crc w ! t) ptr;
                let buf = EncodeFixed32 (crc_Mask crc) @ [of_nat n, of_nat (n div 256), of_nat t];
                let (s, dest) = WritableFile_Append buf (lw_dest w);
                let (s, dest) = (if status_ok s then
                    (case WritableFile_Append ptr dest of
                       (s, dest) \<Rightarrow> (if status_ok s then WritableFile_Flush dest else s, dest))
                  else (s, dest));
                Some (s, w\<lparr>lw_dest := dest, lw_block_offset := lw_block_offset w + kHeaderSize + n\<rparr>) })"

lemma EmitPhysicalRecord_offset:
  "EmitPhysicalRecord t ptr w = Some (s, w') \<Longrightarrow>
   lw_block_offset w' = lw_block_offset w + kHeaderSize + length ptr"
  by (auto simp: EmitPhysicalRecord_def Let_def split: if_splits prod.splits Option.bind_splits)

text \<open>The switch to a new block; the status of the trailer's \<open>Append\<close> is not looked at.\<close>

definition switch_block :: "LogWriter \<Rightarrow> LogWriter" where
  "switch_block w =
     (let leftover = kBlockSize - lw_block_offset w in
      if leftover < kHeaderSize then
        (let w = (if leftover > 0
                  then w\<lparr>lw_dest := snd (WritableFile_Append (take leftover [0, 0, 0, 0, 0, 0]) (lw_dest w))\<rparr>
                  else w) in
         w\<lparr>lw_block_offset := 0\<rparr>)
      else w)"

definition record_type :: "bool \<Rightarrow> bool \<Rightarrow> nat" where
  "record_type begins ends =
     (if begins \<and> ends then kFullType else if begins then kFirstType else if ends then kLastType else kMiddleType)"

function add_record_loop :: "bool \<Rightarrow> byte list \<Rightarrow> LogWriter \<Rightarrow> (Status \<times> LogWriter) option" where
  "add_record_loop begins ptr w =
     (if lw_block_offset w > kBlockSize then None
      else
        (let w = switch_block w;
             avail = kBlockSize - lw_block_offset w - kHeaderSize;
             fragment_length = (if length ptr < avail then length ptr else avail);
             t = record_type begins (length ptr = fragment_length) in
         case EmitPhysicalRecord t (take fragment_length ptr) w of
           None \<Rightarrow> None
         | Some (s, w) \<Rightarrow>
             if status_ok s \<and> length ptr - fragment_length > 0
             then add_record_loop False (drop fragment_length ptr) w
             else Some (s, w)))"
  by pat_completeness auto
termination
proof (relation "measure (\<lambda>(begins, ptr, w). 2 * length ptr + (if lw_block_offset w = 32761 then 1 else 0))", goal_cases)
  case (2 begins ptr w w1 avail frag t x s w2)
  have o: "lw_block_offset w1 = (if 32768 - lw_block_offset w < 7 then 0 else lw_block_offset w)"
    by (simp add: 2(2) switch_block_def Let_def)
  from 2 have "frag \<le> length ptr" "frag \<le> avail" by simp_all
  have w2: "lw_block_offset w2 = lw_block_offset w1 + 7 + frag"
    using 2(6,7,3,4) EmitPhysicalRecord_offset [of t "take frag ptr" w1 s w2] by (simp add: min_def split: if_splits)
  show ?case
  proof (cases "frag = 0")
    case True
    with 2 have "avail = 0" by (simp split: if_splits)
    then have "lw_block_offset w = 32761" using 2(1,3) o by (simp split: if_splits)
    then show ?thesis using True w2 o by simp
  next
    case False
    then have "2 * (length ptr - frag) + 1 < 2 * length ptr" using \<open>frag \<le> length ptr\<close> by simp
    then show ?thesis by (cases "lw_block_offset w2 = 32761"; cases "lw_block_offset w = 32761") simp_all
  qed
qed simp

declare add_record_loop.simps [simp del]

definition AddRecord :: "byte list \<Rightarrow> LogWriter \<Rightarrow> (Status \<times> LogWriter) option" where
  "AddRecord data w = add_record_loop True data w"

section \<open>The reader\<close>

record LogReader =
  lr_file :: PosixFile
  lr_has_reporter :: bool
  lr_checksum :: bool
  lr_buffer :: "byte list"
  lr_eof :: bool
  lr_last_record_offset :: "64 word"
  lr_end_of_buffer_offset :: "64 word"
  lr_initial_offset :: "64 word"
  lr_resyncing :: bool
  lr_corruptions :: "(64 word \<times> Status) list"

definition new_LogReader :: "PosixFile \<Rightarrow> bool \<Rightarrow> bool \<Rightarrow> 64 word \<Rightarrow> LogReader" where
  "new_LogReader file reporter checksum initial_offset = \<lparr>
     lr_file = file, lr_has_reporter = reporter, lr_checksum = checksum, lr_buffer = [], lr_eof = False,
     lr_last_record_offset = 0, lr_end_of_buffer_offset = 0, lr_initial_offset = initial_offset,
     lr_resyncing = (initial_offset > 0), lr_corruptions = []\<rparr>"

abbreviation (input) kEof :: nat where "kEof \<equiv> 5"
abbreviation (input) kBadRecord :: nat where "kBadRecord \<equiv> 6"

definition ReportDrop :: "64 word \<Rightarrow> Status \<Rightarrow> LogReader \<Rightarrow> LogReader" where
  "ReportDrop bytes reason r =
     (if lr_has_reporter r \<and>
         lr_end_of_buffer_offset r - of_nat (length (lr_buffer r)) - bytes \<ge> lr_initial_offset r
      then r\<lparr>lr_corruptions := lr_corruptions r @ [(bytes, reason)]\<rparr> else r)"

definition ReportCorruption :: "64 word \<Rightarrow> string \<Rightarrow> LogReader \<Rightarrow> LogReader" where
  "ReportCorruption bytes reason r = ReportDrop bytes (Corruption reason '''') r"

definition SkipToInitialBlock :: "LogReader \<Rightarrow> bool \<times> LogReader" where
  "SkipToInitialBlock r =
     (let offset_in_block = lr_initial_offset r mod of_nat kBlockSize;
          block_start_location = lr_initial_offset r - offset_in_block;
          block_start_location =
            (if offset_in_block > of_nat (kBlockSize - 6) then block_start_location + of_nat kBlockSize
             else block_start_location);
          r = r\<lparr>lr_end_of_buffer_offset := block_start_location\<rparr> in
      if block_start_location > 0 then
        (case SequentialFile_Skip block_start_location (lr_file r) of
           (skip_status, file) \<Rightarrow>
             let r = r\<lparr>lr_file := file\<rparr> in
             if \<not> status_ok skip_status then (False, ReportDrop block_start_location skip_status r) else (True, r))
      else (True, r))"

text \<open>Filling the buffer at the head of the loop in \<open>ReadPhysicalRecord\<close>; false is \<open>kEof\<close>.\<close>

function fill_buffer :: "LogReader \<Rightarrow> bool \<times> LogReader" where
  "fill_buffer r =
     (if length (lr_buffer r) < kHeaderSize then
        if \<not> lr_eof r then
          (case SequentialFile_Read kBlockSize (lr_file r) of
             (status, bs, file) \<Rightarrow>
               let r = r\<lparr>lr_file := file, lr_buffer := bs,
                         lr_end_of_buffer_offset := lr_end_of_buffer_offset r + of_nat (length bs)\<rparr> in
               if \<not> status_ok status then
                 (False, (ReportDrop (of_nat kBlockSize) status (r\<lparr>lr_buffer := []\<rparr>))\<lparr>lr_eof := True\<rparr>)
               else if length bs < kBlockSize then fill_buffer (r\<lparr>lr_eof := True\<rparr>)
               else fill_buffer r)
        else (False, r\<lparr>lr_buffer := []\<rparr>)
      else (True, r))"
  by pat_completeness auto
termination
  by (relation "measure (\<lambda>r. if length (lr_buffer r) < kHeaderSize then if lr_eof r then 1 else 2 else 0)") auto

declare fill_buffer.simps [simp del]

text \<open>
  The rest of the loop's body, with a header in the buffer: the type, what \<open>*result\<close> is set
  to if it is, and the reader. The type is a signed character turned into an unsigned integer.
\<close>

definition parse_physical :: "LogReader \<Rightarrow> (nat \<times> byte list option \<times> LogReader) option" where
  "parse_physical r =
     (let header = lr_buffer r;
          a = unat (header ! 4);
          b = unat (header ! 5);
          t = unat (scast (header ! 6) :: 32 word);
          len = a + b * 256 in
      if kHeaderSize + len > length (lr_buffer r) then
        (let drop_size = length (lr_buffer r); r = r\<lparr>lr_buffer := []\<rparr> in
         Some (if \<not> lr_eof r
               then (kBadRecord, None, ReportCorruption (of_nat drop_size) ''bad record length'' r)
               else (kEof, None, r)))
      else if t = kZeroType \<and> len = 0 then Some (kBadRecord, None, r\<lparr>lr_buffer := []\<rparr>)
      else
        do { stored \<leftarrow> DecodeFixed32 header;
             actual_crc \<leftarrow> crc_Value 0 (take (1 + len) (drop 6 header));
             if lr_checksum r \<and> actual_crc \<noteq> crc_Unmask stored then
               (let drop_size = length (lr_buffer r); r = r\<lparr>lr_buffer := []\<rparr> in
                Some (kBadRecord, None, ReportCorruption (of_nat drop_size) ''checksum mismatch'' r))
             else
               (let r = r\<lparr>lr_buffer := drop (kHeaderSize + len) (lr_buffer r)\<rparr> in
                if lr_end_of_buffer_offset r - of_nat (length (lr_buffer r)) - of_nat kHeaderSize - of_nat len <
                   lr_initial_offset r
                then Some (kBadRecord, Some [], r)
                else Some (t, Some (take len (drop kHeaderSize header)), r)) })"

definition ReadPhysicalRecord :: "LogReader \<Rightarrow> (nat \<times> byte list option \<times> LogReader) option" where
  "ReadPhysicalRecord r =
     (case fill_buffer r of
        (False, r) \<Rightarrow> Some (kEof, None, r)
      | (True, r) \<Rightarrow> parse_physical r)"

text \<open>What the reader still has in front of it.\<close>

definition unread :: "LogReader \<Rightarrow> nat" where
  "unread r = length (lr_buffer r) + (length (file_data (pf_file (lr_file r))) - file_pos (pf_file (lr_file r)))"

lemma ReportDrop_simps [simp]:
  "lr_file (ReportDrop n s r) = lr_file r" "lr_buffer (ReportDrop n s r) = lr_buffer r"
  "lr_eof (ReportDrop n s r) = lr_eof r" "lr_checksum (ReportDrop n s r) = lr_checksum r"
  "lr_resyncing (ReportDrop n s r) = lr_resyncing r" "lr_initial_offset (ReportDrop n s r) = lr_initial_offset r"
  "lr_end_of_buffer_offset (ReportDrop n s r) = lr_end_of_buffer_offset r"
  by (simp_all add: ReportDrop_def)

lemma ReportCorruption_simps [simp]:
  "lr_file (ReportCorruption n m r) = lr_file r" "lr_buffer (ReportCorruption n m r) = lr_buffer r"
  "lr_eof (ReportCorruption n m r) = lr_eof r"
  by (simp_all add: ReportCorruption_def)

lemma unread_simps [simp]:
  "unread (ReportCorruption n m r) = unread r" "unread (r\<lparr>lr_resyncing := x\<rparr>) = unread r"
  by (simp_all add: unread_def)

lemma SequentialFile_Read_length:
  assumes "SequentialFile_Read n f = (s, bs, f')"
  shows "length bs + (length (file_data (pf_file f')) - file_pos (pf_file f')) \<le>
     length (file_data (pf_file f)) - file_pos (pf_file f)"
proof -
  define readable where "readable = (case file_fault (pf_file f) of None \<Rightarrow> file_data (pf_file f) | Some k \<Rightarrow> take k (file_data (pf_file f)))"
  have "length readable \<le> length (file_data (pf_file f))" by (simp add: readable_def split: option.split)
  moreover have f: "bs = take n (drop (file_pos (pf_file f)) readable)"
    "file_data (pf_file f') = file_data (pf_file f)" "file_pos (pf_file f') = file_pos (pf_file f) + length bs"
    using assms by (auto simp: SequentialFile_Read_def fread_unlocked_def readable_def Let_def)
  moreover from this have "length bs \<le> length readable - file_pos (pf_file f)" by simp
  ultimately have "length bs \<le> length (file_data (pf_file f)) - file_pos (pf_file f)" by linarith
  then show ?thesis unfolding f(2,3) by linarith
qed

lemma fill_buffer_unread:
  "fill_buffer r = (ok, r') \<Longrightarrow> unread r' \<le> unread r \<and> (ok \<longrightarrow> 7 \<le> length (lr_buffer r'))"
proof (induction r rule: fill_buffer.induct)
  case (1 r)
  show ?case
  proof (cases "length (lr_buffer r) < 7 \<and> \<not> lr_eof r")
    case False
    with 1(3) show ?thesis by (auto simp: fill_buffer.simps [of r] unread_def split: if_splits)
  next
    case True
    obtain s bs f where f: "SequentialFile_Read kBlockSize (lr_file r) = (s, bs, f)" by (metis prod_cases3)
    let ?r = "r\<lparr>lr_file := f, lr_buffer := bs, lr_end_of_buffer_offset := lr_end_of_buffer_offset r + of_nat (length bs)\<rparr>"
    have "unread ?r \<le> unread r" using SequentialFile_Read_length [OF f] by (simp add: unread_def)
    moreover have "unread (?r\<lparr>lr_eof := True\<rparr>) = unread ?r" by (simp add: unread_def)
    moreover have "unread (ReportDrop n s (?r\<lparr>lr_buffer := []\<rparr>)\<lparr>lr_eof := True\<rparr>) \<le> unread ?r" for n
      by (simp add: unread_def)
    moreover note step = 1(3) [unfolded fill_buffer.simps [of r] f prod.case Let_def]
    ultimately show ?thesis
    proof (cases "status_ok s")
      case False
      have "ok = False" "unread r' \<le> unread ?r" using step True False by (auto simp: unread_def)
      with \<open>unread ?r \<le> unread r\<close> show ?thesis by simp
    next
      case s: True
      show ?thesis
      proof (cases "length bs < kBlockSize")
        case b: True
        with step True s have "fill_buffer (?r\<lparr>lr_eof := True\<rparr>) = (ok, r')" by simp
        with 1(1) [OF _ _ f [symmetric] refl refl] True s b \<open>unread ?r \<le> unread r\<close> show ?thesis
          by (fastforce simp: unread_def)
      next
        case b: False
        with step True s have "fill_buffer ?r = (ok, r')" by simp
        with 1(2) [OF _ _ f [symmetric] refl refl] True s b \<open>unread ?r \<le> unread r\<close> show ?thesis
          by (fastforce simp: unread_def)
      qed
    qed
  qed
qed

lemma parse_physical_cases:
  assumes "parse_physical r = Some (t, fragment, r')" and "7 \<le> length (lr_buffer r)"
  shows "lr_file r' = lr_file r \<and> length (lr_buffer r') < length (lr_buffer r)"
proof -
  define header where "header = lr_buffer r"
  define len where "len = unat (header ! 4) + unat (header ! 5) * 256"
  define t0 where "t0 = unat (scast (header ! 6) :: 32 word)"
  note parse = assms(1) [unfolded parse_physical_def Let_def, folded header_def, folded len_def t0_def]
  have nonempty: "7 \<le> length header" using assms(2) by (simp add: header_def)
  consider "length header < 7 + len" | "\<not> length header < 7 + len" "t0 = 0 \<and> len = 0"
    | "\<not> length header < 7 + len" "\<not> (t0 = 0 \<and> len = 0)" by blast
  then show ?thesis
  proof cases
    case 1
    with parse nonempty show ?thesis by (auto simp: header_def [symmetric] split: if_splits)
  next
    case 2
    with parse nonempty show ?thesis by (auto simp: header_def [symmetric])
  next
    case 3
    from parse [unfolded if_not_P [OF 3(1)] if_not_P [OF 3(2)]] nonempty show ?thesis
      by (auto simp: header_def [symmetric] split: Option.bind_splits if_splits)
  qed
qed

lemma parse_physical_unread:
  "parse_physical r = Some (t, fragment, r') \<Longrightarrow> 7 \<le> length (lr_buffer r) \<Longrightarrow> unread r' < unread r"
  by (drule (1) parse_physical_cases) (simp add: unread_def)

lemma ReadPhysicalRecord_unread:
  assumes "ReadPhysicalRecord r = Some (t, fragment, r')" and "t \<noteq> kEof"
  shows "unread r' < unread r"
proof -
  obtain ok r1 where f: "fill_buffer r = (ok, r1)" by fastforce
  with assms have ok: "ok" "parse_physical r1 = Some (t, fragment, r')"
    by (auto simp: ReadPhysicalRecord_def split: bool.splits)
  with fill_buffer_unread [OF f] have "unread r1 \<le> unread r" "7 \<le> length (lr_buffer r1)" by simp_all
  with parse_physical_unread [OF ok(2)] show ?thesis by simp
qed

text \<open>
  The loop of \<open>ReadRecord\<close>: \<open>in_fragmented\<close>, \<open>scratch\<close>, \<open>fragment\<close> and the prospective offset
  are its locals. The result is the record, if one was read, and the reader.
\<close>

function read_record_loop ::
  "bool \<Rightarrow> byte list \<Rightarrow> byte list \<Rightarrow> 64 word \<Rightarrow> LogReader \<Rightarrow> (byte list option \<times> LogReader) option" where
  "read_record_loop in_fragmented scratch fragment prospective r =
     (case ReadPhysicalRecord r of
        None \<Rightarrow> None
      | Some (t, result, r) \<Rightarrow>
          let fragment = (case result of None \<Rightarrow> fragment | Some f \<Rightarrow> f);
              physical = lr_end_of_buffer_offset r - of_nat (length (lr_buffer r)) - of_nat kHeaderSize -
                of_nat (length fragment) in
          if lr_resyncing r \<and> t = kMiddleType then
            read_record_loop in_fragmented scratch fragment prospective r
          else if lr_resyncing r \<and> t = kLastType then
            read_record_loop in_fragmented scratch fragment prospective (r\<lparr>lr_resyncing := False\<rparr>)
          else
            let r = r\<lparr>lr_resyncing := False\<rparr> in
            if t = kFullType then
              (let r = (if in_fragmented \<and> scratch \<noteq> []
                        then ReportCorruption (of_nat (length scratch)) ''partial record without end(1)'' r else r) in
               Some (Some fragment, r\<lparr>lr_last_record_offset := physical\<rparr>))
            else if t = kFirstType then
              (let r = (if in_fragmented \<and> scratch \<noteq> []
                        then ReportCorruption (of_nat (length scratch)) ''partial record without end(2)'' r else r) in
               read_record_loop True fragment fragment physical r)
            else if t = kMiddleType then
              (if \<not> in_fragmented
               then read_record_loop in_fragmented scratch fragment prospective
                 (ReportCorruption (of_nat (length fragment)) ''missing start of fragmented record(1)'' r)
               else read_record_loop in_fragmented (scratch @ fragment) fragment prospective r)
            else if t = kLastType then
              (if \<not> in_fragmented
               then read_record_loop in_fragmented scratch fragment prospective
                 (ReportCorruption (of_nat (length fragment)) ''missing start of fragmented record(2)'' r)
               else Some (Some (scratch @ fragment), r\<lparr>lr_last_record_offset := prospective\<rparr>))
            else if t = kEof then Some (None, r)
            else if t = kBadRecord then
              (if in_fragmented
               then read_record_loop False [] fragment prospective
                 (ReportCorruption (of_nat (length scratch)) ''error in middle of record'' r)
               else read_record_loop in_fragmented scratch fragment prospective r)
            else
              read_record_loop False [] fragment prospective
                (ReportCorruption (of_nat (length fragment + (if in_fragmented then length scratch else 0)))
                   (''unknown record type '' @ decimal t) r))"
  by pat_completeness auto
termination
  by (relation "measure (\<lambda>(in_fragmented, scratch, fragment, prospective, r). unread r)")
    (auto intro: ReadPhysicalRecord_unread)

declare read_record_loop.simps [simp del]

definition ReadRecord :: "LogReader \<Rightarrow> (byte list option \<times> LogReader) option" where
  "ReadRecord r =
     (case (if lr_last_record_offset r < lr_initial_offset r then SkipToInitialBlock r else (True, r)) of
        (False, r) \<Rightarrow> Some (None, r)
      | (True, r) \<Rightarrow> read_record_loop False [] [] 0 r)"

end
