(* ===== verification/LdbLogProof.thy ===== *)
theory LdbLogProof
  imports LdbLog
begin

text \<open>
  The layout of a log and the proof that what the writer writes is what the reader reads:
  \<open>fragments\<close> cuts a record as the blocks ask for, \<open>layout\<close> is the bytes of a list of
  physical records from an offset of the file on.
\<close>

section \<open>The layout\<close>

definition pad :: "nat \<Rightarrow> byte list" where
  "pad off = (let left = kBlockSize - off mod kBlockSize in if left < kHeaderSize then replicate left 0 else [])"

definition phys :: "nat \<Rightarrow> byte list \<Rightarrow> byte list" where
  "phys t p = EncodeFixed32 (crc_Mask (crc32c 0 (of_nat t # p))) @
     [of_nat (length p), of_nat (length p div 256), of_nat t] @ p"

fun layout :: "nat \<Rightarrow> (nat \<times> byte list) list \<Rightarrow> byte list" where
  "layout off [] = []"
| "layout off ((t, p) # rs) = pad off @ phys t p @ layout (off + length (pad off) + 7 + length p) rs"

definition avail :: "nat \<Rightarrow> nat" where
  "avail off = kBlockSize - kHeaderSize - (off + length (pad off)) mod kBlockSize"

lemma length_phys [simp]: "length (phys t p) = 7 + length p"
  by (simp add: phys_def)

lemma block_end:
  assumes "off mod kBlockSize = kBlockSize - k" "0 < k" "k \<le> kBlockSize"
  shows "(off + k) mod kBlockSize = 0"
proof -
  have "(off + k) mod kBlockSize = (off mod kBlockSize + k) mod kBlockSize" by presburger
  also have "off mod kBlockSize + k = kBlockSize" using assms by simp
  finally show ?thesis by simp
qed

lemma pad_cases:
  "pad off = [] \<and> off mod kBlockSize \<le> kBlockSize - kHeaderSize \<or>
   off mod kBlockSize > kBlockSize - kHeaderSize \<and> (off + length (pad off)) mod kBlockSize = 0 \<and>
     pad off = replicate (kBlockSize - off mod kBlockSize) 0"
  using block_end [of off "kBlockSize - off mod kBlockSize"] by (auto simp: pad_def Let_def)

lemma after_pad: "(off + length (pad off)) mod kBlockSize \<le> kBlockSize - kHeaderSize"
  using pad_cases [of off] by auto

lemma avail_after: "(off + length (pad off)) mod kBlockSize + 7 + avail off = kBlockSize"
  using after_pad [of off] by (simp add: avail_def)

function fragments :: "nat \<Rightarrow> bool \<Rightarrow> byte list \<Rightarrow> (nat \<times> byte list) list" where
  "fragments off begins data =
     (let n = min (length data) (avail off) in
      (record_type begins (length data = n), take n data) #
        (if n < length data then fragments (off + length (pad off) + 7 + n) False (drop n data) else []))"
  by pat_completeness auto
termination
proof (relation "measure (\<lambda>(off, begins, data). 2 * length data + (if avail off = 0 then 1 else 0))", goal_cases)
  case (2 off begins data n)
  show ?case
  proof (cases "n = 0")
    case True
    with 2 have a: "avail off = 0" by (simp add: min_def split: if_splits)
    let ?o = "off + length (pad off) + 7"
    from a avail_after [of off] have "(off + length (pad off)) mod kBlockSize = kBlockSize - 7" by simp
    from block_end [OF this] have "?o mod kBlockSize = 0" by simp
    then have "avail ?o \<noteq> 0" by (simp add: avail_def pad_def)
    with True a show ?thesis by simp
  next
    case False
    with 2 have "2 * (length data - n) + 1 < 2 * length data" by simp
    then show ?thesis by (cases "avail (off + length (pad off) + 7 + n) = 0"; cases "avail off = 0") simp_all
  qed
qed simp

declare fragments.simps [simp del]

section \<open>The writer writes the layout\<close>

definition type_crcs :: "32 word list" where
  "type_crcs = map (\<lambda>i. crc32c 0 [of_nat i]) [0..<5]"

lemma InitTypeCrc_values: "InitTypeCrc n = Some (map (\<lambda>i. crc32c 0 [of_nat i]) [0..<Suc n])"
  by (induction n) (simp_all add: crc_Value_def Extend_crc32c)

definition writer_at :: "LogWriter \<Rightarrow> byte list \<Rightarrow> bool" where
  "writer_at w D \<longleftrightarrow> writable (lw_dest w) \<and> contents (lw_dest w) = D \<and> lw_type_crc w = type_crcs \<and>
     lw_block_offset w \<le> kBlockSize \<and> lw_block_offset w mod kBlockSize = length D mod kBlockSize"

lemma new_LogWriter_at:
  assumes "writable f" "contents f = D" "length D < 2 ^ 64"
  shows "\<exists>w. new_LogWriter f (of_nat (length D)) = Some w \<and> writer_at w D"
proof -
  have "unat (of_nat (length D) :: 64 word) = length D" using assms(3) by (simp add: unat_of_nat)
  then show ?thesis
    using assms(1,2) InitTypeCrc_values [of 4]
    by (simp add: new_LogWriter_def writer_at_def type_crcs_def)
qed

lemma switch_block_at:
  assumes "writer_at w D"
  shows "writer_at (switch_block w) (D @ pad (length D)) \<and>
     lw_block_offset (switch_block w) = (length D + length (pad (length D))) mod kBlockSize"
proof -
  from assms have w: "writable (lw_dest w)" "contents (lw_dest w) = D" "lw_type_crc w = type_crcs"
    "lw_block_offset w \<le> kBlockSize" "lw_block_offset w mod kBlockSize = length D mod kBlockSize"
    by (simp_all add: writer_at_def)
  show ?thesis
  proof (cases "lw_block_offset w = kBlockSize")
    case True
    then have "length D mod kBlockSize = 0" using w(5) by simp
    then have "pad (length D) = []" by (simp add: pad_def)
    with True w show ?thesis by (simp add: switch_block_def writer_at_def \<open>length D mod kBlockSize = 0\<close>)
  next
    case False
    then have o: "lw_block_offset w = length D mod kBlockSize" using w(4,5) by simp
    from pad_cases [of "length D"] show ?thesis
    proof
      assume "pad (length D) = [] \<and> length D mod kBlockSize \<le> kBlockSize - kHeaderSize"
      moreover from this o have "\<not> kBlockSize - lw_block_offset w < kHeaderSize" by linarith
      then have "switch_block w = w" by (simp add: switch_block_def Let_def)
      ultimately show ?thesis using o assms by simp
    next
      assume p: "length D mod kBlockSize > kBlockSize - kHeaderSize \<and>
        (length D + length (pad (length D))) mod kBlockSize = 0 \<and>
        pad (length D) = replicate (kBlockSize - length D mod kBlockSize) 0"
      let ?k = "kBlockSize - length D mod kBlockSize"
      have "length D mod kBlockSize < kBlockSize" by simp
      with p have k: "0 < ?k" "?k < 7" by linarith+
      have zeros: "[0, 0, 0, 0, 0, 0] = replicate 6 (0 :: byte)" by (simp add: eval_nat_numeral)
      have "take ?k [0, 0, 0, 0, 0, 0] = replicate (min ?k 6) (0 :: byte)" unfolding zeros by (rule take_replicate)
      also have "min ?k 6 = ?k" using k(2) by linarith
      finally have z: "take ?k [0, 0, 0, 0, 0, 0] = pad (length D)" using p by simp
      have sb: "switch_block w = w\<lparr>lw_dest := append_to (lw_dest w) (pad (length D)), lw_block_offset := 0\<rparr>"
        unfolding switch_block_def Let_def o z if_P [OF k(1)] if_P [OF k(2)] Append_writable [OF w(1)] snd_conv by simp
      have "(length D + length (pad (length D))) mod kBlockSize = 0" using p by blast
      then show ?thesis using w(1-3) unfolding sb writer_at_def by simp
    qed
  qed
qed

lemma record_type_range: "1 \<le> record_type b e" "record_type b e \<le> 4"
  by (auto simp: record_type_def)

lemma EmitPhysicalRecord_at:
  assumes "writer_at w D" "t \<le> 4" "lw_block_offset w + 7 + length p \<le> kBlockSize"
  shows "\<exists>w'. EmitPhysicalRecord t p w = Some (Status_OK, w') \<and> writer_at w' (D @ phys t p)"
proof -
  from assms(1) have w: "writable (lw_dest w)" "contents (lw_dest w) = D" "lw_type_crc w = type_crcs"
    "lw_block_offset w \<le> kBlockSize" "lw_block_offset w mod kBlockSize = length D mod kBlockSize"
    by (simp_all add: writer_at_def)
  have "type_crcs ! t = crc32c 0 [of_nat t]" using assms(2) by (simp add: type_crcs_def del: upt_Suc)
  then have crc: "Extend 0 (lw_type_crc w ! t) p = Some (crc32c 0 (of_nat t # p))"
    using crc32c_append [of 0 "[of_nat t]" p] by (simp add: w(3) Extend_crc32c)
  let ?w = "w\<lparr>lw_dest := append_to (lw_dest w) (phys t p), lw_block_offset := lw_block_offset w + kHeaderSize + length p\<rparr>"
  have "EmitPhysicalRecord t p w = Some (Status_OK, ?w)"
    using assms(3) w(1) by (simp add: EmitPhysicalRecord_def crc Append_writable Flush_writable phys_def Let_def)
  moreover have "writer_at ?w (D @ phys t p)"
  proof -
    have "(lw_block_offset w + 7 + length p) mod kBlockSize = (length D + (7 + length p)) mod kBlockSize"
      using w(5) by (metis add.assoc mod_add_left_eq)
    with w assms(3) show ?thesis by (simp add: writer_at_def)
  qed
  ultimately show ?thesis by blast
qed

lemma add_record_at:
  "writer_at w D \<Longrightarrow> \<exists>w'. add_record_loop begins data w = Some (Status_OK, w') \<and>
     writer_at w' (D @ layout (length D) (fragments (length D) begins data))"
proof (induction "length D" begins data arbitrary: w D rule: fragments.induct)
  case (1 begins data)
  define n where "n = min (length data) (avail (length D))"
  define t where "t = record_type begins (length data = n)"
  let ?o = "length D + length (pad (length D))"
  have off: "\<not> lw_block_offset w > kBlockSize" using 1(2) by (simp add: writer_at_def)
  from switch_block_at [OF 1(2)] have s: "writer_at (switch_block w) (D @ pad (length D))"
    "lw_block_offset (switch_block w) = ?o mod kBlockSize" by simp_all
  have ln: "length (take n data) = n" by (simp add: n_def)
  have n: "lw_block_offset (switch_block w) + 7 + length (take n data) \<le> kBlockSize"
    using avail_after [of "length D"] unfolding ln s(2) by (simp add: n_def)
  obtain w1 where w1: "EmitPhysicalRecord t (take n data) (switch_block w) = Some (Status_OK, w1)"
    "writer_at w1 ((D @ pad (length D)) @ phys t (take n data))"
    using EmitPhysicalRecord_at [OF s(1) record_type_range(2) n] unfolding t_def by blast
  have "kBlockSize - lw_block_offset (switch_block w) - kHeaderSize = avail (length D)"
    by (simp add: s(2) avail_def)
  then have n_eq: "(if length data < kBlockSize - lw_block_offset (switch_block w) - kHeaderSize then length data
      else kBlockSize - lw_block_offset (switch_block w) - kHeaderSize) = n" by (simp add: n_def min_def)
  have loop: "add_record_loop begins data w =
      (if length data - n > 0 then add_record_loop False (drop n data) w1 else Some (Status_OK, w1))"
    by (subst add_record_loop.simps) (simp only: off Let_def n_eq t_def [symmetric] w1(1) if_False option.case prod.case
        status_ok_simps simp_thms)
  have frags: "fragments (length D) begins data = (t, take n data) #
      (if n < length data then fragments (?o + 7 + n) False (drop n data) else [])"
    by (simp only: fragments.simps [of "length D" begins data] Let_def n_def t_def)
  let ?D = "(D @ pad (length D)) @ phys t (take n data)"
  have l: "length ?D = ?o + 7 + n" by (simp add: ln [unfolded length_take])
  show ?case
  proof (cases "n < length data")
    case True
    obtain w' where w': "add_record_loop False (drop n data) w1 = Some (Status_OK, w')"
      "writer_at w' (?D @ layout (length ?D) (fragments (length ?D) False (drop n data)))"
      using 1(1) [OF n_def True [unfolded n_def, folded n_def] l [symmetric] w1(2)] by blast
    have "?D @ layout (length ?D) (fragments (length ?D) False (drop n data)) =
        D @ layout (length D) (fragments (length D) begins data)"
      unfolding l frags using True by (simp add: ln [unfolded length_take])
    with w' loop True show ?thesis by auto
  next
    case False
    then have "?D = D @ layout (length D) (fragments (length D) begins data)" unfolding frags by simp
    with w1(2) loop False show ?thesis by auto
  qed
qed

section \<open>Where the reader is\<close>

abbreviation (input) file_at :: "LogReader \<Rightarrow> nat" where "file_at r \<equiv> file_pos (pf_file (lr_file r))"

text \<open>
  The reader stands at the offset \<open>off\<close> of a healthy file with the bytes \<open>D\<close>: its buffer is
  the rest of the block, or of the file.
\<close>

definition reader_at :: "LogReader \<Rightarrow> byte list \<Rightarrow> nat \<Rightarrow> bool" where
  "reader_at r D off \<longleftrightarrow>
     file_fault (pf_file (lr_file r)) = None \<and> contents (lr_file r) = D \<and>
     lr_initial_offset r = 0 \<and> \<not> lr_resyncing r \<and>
     off \<le> file_at r \<and> file_at r \<le> length D \<and> lr_buffer r = drop off (take (file_at r) D) \<and>
     (lr_eof r \<longrightarrow> file_at r = length D) \<and> (\<not> lr_eof r \<longrightarrow> file_at r mod kBlockSize = 0) \<and>
     (off < file_at r \<longrightarrow> file_at r = min (length D) ((off div kBlockSize + 1) * kBlockSize))"

lemma reader_atD:
  assumes "reader_at r D off"
  shows "file_fault (pf_file (lr_file r)) = None" "contents (lr_file r) = D"
    "lr_initial_offset r = 0" "\<not> lr_resyncing r" "off \<le> file_at r" "file_at r \<le> length D"
    "lr_buffer r = drop off (take (file_at r) D)" "lr_eof r \<Longrightarrow> file_at r = length D"
    "\<not> lr_eof r \<Longrightarrow> file_at r mod kBlockSize = 0"
    "off < file_at r \<Longrightarrow> file_at r = min (length D) ((off div kBlockSize + 1) * kBlockSize)"
  using assms by (simp_all add: reader_at_def)

lemma block_parts:
  obtains q m where "off = q * kBlockSize + m" "m < kBlockSize" "off div kBlockSize = q" "off mod kBlockSize = m"
  by (rule that [of "off div kBlockSize" "off mod kBlockSize"]) simp_all

lemma pad_end:
  assumes "pad off \<noteq> []"
  shows "off + length (pad off) = (off div kBlockSize + 1) * kBlockSize" "length (pad off) < 7"
proof -
  obtain q m where q: "off = q * kBlockSize + m" "m < kBlockSize" "off div kBlockSize = q" "off mod kBlockSize = m"
    by (rule block_parts)
  have p: "m > kBlockSize - kHeaderSize" "length (pad off) = kBlockSize - m"
    using assms pad_cases [of off] q(4) by auto
  then show "length (pad off) < 7" using q(2) by simp
  show "off + length (pad off) = (off div kBlockSize + 1) * kBlockSize"
    unfolding q(3) p(2) using q(1,2) by simp
qed

lemma no_pad:
  assumes "pad off = []"
  shows "off + 7 \<le> (off div kBlockSize + 1) * kBlockSize"
proof -
  obtain q m where q: "off = q * kBlockSize + m" "m < kBlockSize" "off div kBlockSize = q" "off mod kBlockSize = m"
    by (rule block_parts)
  have "m \<le> kBlockSize - kHeaderSize" using assms pad_cases [of off] q(4) by auto
  then show ?thesis unfolding q(3) using q(1) by simp
qed

text \<open>What a read at the end of the buffer gives.\<close>

definition refill :: "LogReader \<Rightarrow> LogReader" where
  "refill r =
     (let bs = take kBlockSize (drop (file_at r) (contents (lr_file r))) in
      r\<lparr>lr_file := snd (snd (SequentialFile_Read kBlockSize (lr_file r))), lr_buffer := bs,
        lr_end_of_buffer_offset := lr_end_of_buffer_offset r + of_nat (length bs),
        lr_eof := length bs < kBlockSize\<rparr>)"

lemma healthy_read:
  assumes "file_fault (pf_file f) = None"
  shows "fst (SequentialFile_Read n f) = Status_OK"
    "fst (snd (SequentialFile_Read n f)) = take n (drop (file_pos (pf_file f)) (contents f))"
    "contents (snd (snd (SequentialFile_Read n f))) = contents f"
    "file_fault (pf_file (snd (snd (SequentialFile_Read n f)))) = None"
    "file_pos (pf_file (snd (snd (SequentialFile_Read n f)))) =
       file_pos (pf_file f) + length (take n (drop (file_pos (pf_file f)) (contents f)))"
  using assms by (simp_all add: SequentialFile_Read_def fread_unlocked_def Let_def)

lemma fill_buffer_refill:
  assumes "reader_at r D off" "length (lr_buffer r) < 7" "\<not> lr_eof r"
  shows "fill_buffer r = fill_buffer (refill r)"
proof -
  define bs where "bs = take kBlockSize (drop (file_at r) (contents (lr_file r)))"
  obtain f where f: "SequentialFile_Read kBlockSize (lr_file r) = (Status_OK, bs, f)"
    using healthy_read(1,2) [OF reader_atD(1) [OF assms(1)], of kBlockSize] unfolding bs_def by (metis prod.collapse)
  let ?r = "r\<lparr>lr_file := f, lr_buffer := bs,
      lr_end_of_buffer_offset := lr_end_of_buffer_offset r + of_nat (length bs)\<rparr>"
  have "refill r = (if length bs < kBlockSize then ?r\<lparr>lr_eof := True\<rparr> else ?r)"
    using assms(3) by (intro LogReader.equality) (simp_all add: refill_def Let_def f bs_def [symmetric])
  then show ?thesis
    using assms(2,3) by (subst fill_buffer.simps) (simp add: f Let_def)
qed

lemma refill_at:
  assumes "reader_at r D off" "\<not> lr_eof r"
  shows "reader_at (refill r) D (file_at r)" "lr_corruptions (refill r) = lr_corruptions r"
    "file_at (refill r) = file_at r + min kBlockSize (length D - file_at r)"
proof -
  note r = reader_atD [OF assms(1)]
  let ?p = "file_at r" and ?m = "min kBlockSize (length D - file_at r)"
  note h = healthy_read [OF r(1), of kBlockSize, unfolded r(2)]
  have len: "length (take kBlockSize (drop ?p D)) = ?m" by (simp add: min.commute)
  have m: "?p mod kBlockSize = 0" by (rule r(9) [OF assms(2)])
  obtain q where q: "?p = q * kBlockSize" "?p div kBlockSize = q" by (rule block_parts [of ?p]) (use m in auto)
  show c: "lr_corruptions (refill r) = lr_corruptions r" by (simp add: refill_def Let_def)
  show f: "file_at (refill r) = ?p + ?m" by (simp add: refill_def Let_def h(5) len)
  have sum: "?p + ?m \<le> length D" using r(6) by linarith
  have block: "?p + ?m = min (length D) ((?p div kBlockSize + 1) * kBlockSize)"
  proof (cases "?p + kBlockSize \<le> length D")
    case True
    then have "?m = kBlockSize" by (simp add: min_def le_diff_conv2)
    then show ?thesis unfolding q(2) using True q(1) by (simp add: min_def)
  next
    case False
    then have "?p + ?m = length D" using r(6) by (simp add: min_def)
    then show ?thesis unfolding q(2) using False q(1) by (simp add: min_def)
  qed
  have eof: "lr_eof (refill r) = (?m < kBlockSize)" by (simp only: refill_def Let_def r(2) len) simp
  have buf: "lr_buffer (refill r) = drop ?p (take (?p + ?m) D)"
    by (simp add: refill_def Let_def r(2) drop_take min_def)
  show "reader_at (refill r) D ?p"
    unfolding reader_at_def f eof buf
  proof (intro conjI impI)
    show "file_fault (pf_file (lr_file (refill r))) = None" "contents (lr_file (refill r)) = D"
      "lr_initial_offset (refill r) = 0" "\<not> lr_resyncing (refill r)"
      using r(3,4) h(3,4) by (simp_all add: refill_def Let_def)
    show "?p + ?m = length D" if "?m < kBlockSize" using that r(6) by linarith
    show "(?p + ?m) mod kBlockSize = 0" if "\<not> ?m < kBlockSize"
    proof -
      have "?m = kBlockSize" using that by simp
      then show ?thesis using m by simp
    qed
    show "?p \<le> ?p + ?m" by simp
    show "?p + ?m \<le> length D" by (rule sum)
    show "drop ?p (take (?p + ?m) D) = drop ?p (take (?p + ?m) D)" ..
    show "?p + ?m = min (length D) ((?p div kBlockSize + 1) * kBlockSize)" by (rule block)
  qed
qed

lemma fill_buffer_done: "7 \<le> length (lr_buffer r) \<Longrightarrow> fill_buffer r = (True, r)"
  by (subst fill_buffer.simps) simp

lemma fill_buffer_eof: "length (lr_buffer r) < 7 \<Longrightarrow> lr_eof r \<Longrightarrow> fill_buffer r = (False, r\<lparr>lr_buffer := []\<rparr>)"
  by (subst fill_buffer.simps) simp

lemma buffer_length: "reader_at r D off \<Longrightarrow> length (lr_buffer r) = file_at r - off"
  using reader_atD(6,7) [of r D off] by simp

text \<open>With a whole header ahead the buffer is filled up to it, over the trailer if there is one.\<close>

lemma fill_buffer_header:
  assumes "reader_at r D off" and at: "at = off + length (pad off)" and "at + 7 \<le> length D"
  shows "\<exists>r'. fill_buffer r = (True, r') \<and> reader_at r' D at \<and> at < file_at r' \<and> lr_corruptions r' = lr_corruptions r"
proof -
  note r = reader_atD [OF assms(1)]
  show ?thesis
  proof (cases "off < file_at r \<and> pad off = []")
    case True
    then have "off + 7 \<le> file_at r" using r(10) no_pad [of off] assms(3) at by simp
    then have "fill_buffer r = (True, r)" using buffer_length [OF assms(1)] by (intro fill_buffer_done) simp
    with True at assms(1) show ?thesis by simp
  next
    case False
    have here: "file_at r = at \<and> \<not> lr_eof r \<and> length (lr_buffer r) < 7"
    proof (cases "off < file_at r")
      case True
      with False have p: "pad off \<noteq> []" by simp
      from r(10) [OF True] pad_end [OF p] assms(3) at have "file_at r = at" by simp
      moreover from this have "\<not> lr_eof r" using r(8) assms(3) by auto
      moreover have "length (lr_buffer r) < 7"
        unfolding buffer_length [OF assms(1)] \<open>file_at r = at\<close> at using pad_end(2) [OF p] by simp
      ultimately show ?thesis by blast
    next
      case f: False
      then have o: "file_at r = off" using r(5) by simp
      have e: "\<not> lr_eof r" using r(8) o assms(3) at by auto
      then have "off mod kBlockSize = 0" using r(9) o by simp
      then have "pad off = []" by (simp add: pad_def)
      then show ?thesis using o e buffer_length [OF assms(1)] at by simp
    qed
    then have e: "\<not> lr_eof r" and l: "length (lr_buffer r) < 7" and f: "file_at r = at" by blast+
    note n = refill_at [OF assms(1) e, unfolded f]
    have "at + 7 \<le> file_at (refill r)" unfolding n(3) using assms(3) by linarith
    then have "fill_buffer (refill r) = (True, refill r)" using buffer_length [OF n(1)] by (intro fill_buffer_done) simp
    with fill_buffer_refill [OF assms(1) l e] n \<open>at + 7 \<le> file_at (refill r)\<close> show ?thesis by auto
  qed
qed

text \<open>Without one the end of the file is reported.\<close>

lemma fill_buffer_end:
  assumes "reader_at r D off" and at: "at = off + length (pad off)" and "length D < at + 7"
  shows "\<exists>r'. fill_buffer r = (False, r') \<and> \<not> lr_resyncing r' \<and> lr_corruptions r' = lr_corruptions r"
proof -
  note r = reader_atD [OF assms(1)]
  have l: "length (lr_buffer r) < 7"
  proof (cases "pad off = []")
    case True
    then show ?thesis using buffer_length [OF assms(1)] assms(3) at r(5,6) by simp
  next
    case False
    have "file_at r \<le> at \<or> file_at r = off" using r(5,10) pad_end [OF False] at by force
    with pad_end [OF False] buffer_length [OF assms(1)] at show ?thesis by auto
  qed
  show ?thesis
  proof (cases "lr_eof r")
    case True
    with fill_buffer_eof [OF l] r(4) show ?thesis by simp
  next
    case e: False
    note n = refill_at [OF assms(1) e]
    have short: "length D - file_at r < 7"
    proof (cases "off < file_at r")
      case True
      show ?thesis
      proof (cases "pad off = []")
        case p: True
        have "length D < off + 7" using assms(3) at p by simp
        with True show ?thesis by simp
      next
        case p: False
        from r(10) [OF True] pad_end [OF p] at assms(3) show ?thesis by (auto simp: min_def)
      qed
    next
      case False
      then have o: "file_at r = off" using r(5) by simp
      then have "off mod kBlockSize = 0" using r(9) [OF e] by simp
      then have "pad off = []" by (simp add: pad_def)
      with o assms(3) at show ?thesis by simp
    qed
    then have "length (lr_buffer (refill r)) < 7" "lr_eof (refill r)"
      using r(2) by (simp_all add: refill_def Let_def)
    from fill_buffer_eof [OF this] fill_buffer_refill [OF assms(1) l e] n(2) reader_atD(4) [OF n(1)]
    show ?thesis by simp
  qed
qed

section \<open>One physical record\<close>

lemma phys_header:
  "phys t p ! 4 = of_nat (length p)" "phys t p ! 5 = of_nat (length p div 256)" "phys t p ! 6 = of_nat t"
  by (simp_all add: phys_def nth_append)

lemma phys_length_field:
  assumes "length p < 65536"
  shows "unat (of_nat (length p) :: byte) + unat (of_nat (length p div 256) :: byte) * 256 = length p"
proof -
  have "unat (of_nat (length p) :: byte) = length p mod 256" "unat (of_nat (length p div 256) :: byte) = length p div 256 mod 256"
    by (simp_all add: unat_of_nat)
  moreover have "length p div 256 mod 256 = length p div 256" using assms by simp
  ultimately show ?thesis by simp
qed

lemma type_byte: "t \<le> 4 \<Longrightarrow> unat (scast (of_nat t :: byte) :: 32 word) = t"
proof -
  assume "t \<le> 4"
  then have "t \<in> {0, 1, 2, 3, 4}" by auto
  then show ?thesis by auto
qed

text \<open>A whole record at the head of the buffer is taken off; one cut short ends the log.\<close>

lemma parse_whole:
  assumes "lr_buffer r = phys t p @ rest" "1 \<le> t" "t \<le> 4" "length p < 65536" "lr_initial_offset r = 0"
  shows "parse_physical r = Some (t, Some p, r\<lparr>lr_buffer := rest\<rparr>)"
proof -
  have h: "lr_buffer r ! 4 = of_nat (length p)" "lr_buffer r ! 5 = of_nat (length p div 256)" "lr_buffer r ! 6 = of_nat t"
    by (simp_all add: assms(1) nth_append phys_header)
  have len: "unat (lr_buffer r ! 4) + unat (lr_buffer r ! 5) * 256 = length p"
    unfolding h(1,2) by (rule phys_length_field [OF assms(4)])
  have ty: "unat (scast (lr_buffer r ! 6) :: 32 word) = t" unfolding h(3) by (rule type_byte [OF assms(3)])
  have fits: "\<not> kHeaderSize + length p > length (lr_buffer r)" by (simp add: assms(1))
  have crc: "DecodeFixed32 (lr_buffer r) = Some (crc_Mask (crc32c 0 (of_nat t # p)))"
    by (simp add: assms(1) phys_def)
  have body: "take (1 + length p) (drop 6 (lr_buffer r)) = of_nat t # p"
    by (simp add: assms(1) phys_def)
  have left: "drop (kHeaderSize + length p) (lr_buffer r) = rest"
    by (simp add: assms(1))
  have pay: "take (length p) (drop kHeaderSize (lr_buffer r)) = p"
    by (simp add: assms(1) phys_def)
  have "\<not> (t = 0 \<and> length p = 0)" using assms(2) by simp
  then show ?thesis
    unfolding parse_physical_def Let_def len ty crc body left pay crc_Value_def Extend_crc32c
    using fits assms(5) by simp
qed

lemma parse_torn:
  assumes "lr_buffer r @ x = phys t p" "x \<noteq> []" "7 \<le> length (lr_buffer r)" "length p < 65536" "lr_eof r"
  shows "parse_physical r = Some (kEof, None, r\<lparr>lr_buffer := []\<rparr>)"
proof -
  have n: "lr_buffer r ! i = phys t p ! i" if "i < 7" for i
    using that assms(3) by (simp add: assms(1) [symmetric] nth_append)
  have "unat (lr_buffer r ! 4) + unat (lr_buffer r ! 5) * 256 = length p"
    using phys_length_field [OF assms(4)] by (simp add: n phys_header)
  moreover have "kHeaderSize + length p > length (lr_buffer r)"
  proof -
    have "0 < length x" using assms(2) by simp
    moreover have "length (lr_buffer r) + length x = 7 + length p" using arg_cong [OF assms(1), of length] by simp
    ultimately show ?thesis by linarith
  qed
  ultimately show ?thesis using assms(5) by (simp add: parse_physical_def)
qed

definition fits :: "nat \<Rightarrow> byte list \<Rightarrow> bool" where
  "fits off p \<longleftrightarrow> length p \<le> avail off"

lemma fits_block:
  assumes "fits off p" and at: "at = off + length (pad off)"
  shows "at + 7 + length p \<le> (at div kBlockSize + 1) * kBlockSize"
proof -
  obtain q m where q: "at = q * kBlockSize + m" "m < kBlockSize" "at div kBlockSize = q" "at mod kBlockSize = m"
    by (rule block_parts)
  have "m + 7 + length p \<le> kBlockSize" using assms(1) avail_after [of off] q(4) by (simp add: fits_def at)
  then show ?thesis unfolding q(3) using q(1) by simp
qed

lemma same_block:
  assumes "at \<le> off" "off < (at div kBlockSize + 1) * kBlockSize"
  shows "off div kBlockSize = at div kBlockSize"
proof (rule div_nat_eqI)
  show "kBlockSize * (at div kBlockSize) \<le> off" using assms(1) times_div_less_eq_dividend [of kBlockSize at] by linarith
  show "off < kBlockSize * Suc (at div kBlockSize)" using assms(2) by simp
qed

lemma fits_length: "fits off p \<Longrightarrow> length p < 65536"
  by (simp add: fits_def avail_def)

lemma read_whole:
  assumes "reader_at r D off" "D = pre @ pad off @ phys t p @ post" "length pre = off" "1 \<le> t" "t \<le> 4" "fits off p"
  shows "\<exists>r'. ReadPhysicalRecord r = Some (t, Some p, r') \<and>
     reader_at r' D (off + length (pad off) + 7 + length p) \<and> lr_corruptions r' = lr_corruptions r"
proof -
  define at where "at = off + length (pad off)"
  have D: "D = (pre @ pad off) @ phys t p @ post" "length (pre @ pad off) = at" using assms(2,3) at_def by simp_all
  have lD: "at + 7 + length p \<le> length D" using D(2) by (simp add: D(1))
  then have "at + 7 \<le> length D" by simp
  from fill_buffer_header [OF assms(1) at_def this] obtain r1 where r1: "fill_buffer r = (True, r1)"
    "reader_at r1 D at" "at < file_at r1" "lr_corruptions r1 = lr_corruptions r" by blast
  note s = reader_atD [OF r1(2)]
  have pos: "file_at r1 = min (length D) ((at div kBlockSize + 1) * kBlockSize)" by (rule s(10) [OF r1(3)])
  have enough: "at + 7 + length p \<le> file_at r1"
    unfolding pos using lD fits_block [OF assms(6) at_def] by simp
  let ?rest = "take (file_at r1 - (at + 7 + length p)) post"
  have at_D: "drop at D = phys t p @ post" unfolding D(1) using D(2) by (metis append_eq_conv_conj)
  have "lr_buffer r1 = take (file_at r1 - at) (drop at D)" by (simp only: s(7) drop_take)
  also have "\<dots> = phys t p @ ?rest" unfolding at_D using enough by (simp add: diff_diff_eq add.assoc)
  finally have buf: "lr_buffer r1 = phys t p @ ?rest" .
  let ?r = "r1\<lparr>lr_buffer := ?rest\<rparr>"
  have "parse_physical r1 = Some (t, Some p, ?r)"
    by (rule parse_whole [OF buf assms(4,5) fits_length [OF assms(6)] s(3)])
  then have read: "ReadPhysicalRecord r = Some (t, Some p, ?r)" by (simp add: ReadPhysicalRecord_def r1(1))
  let ?at' = "at + 7 + length p"
  have "drop ?at' D = drop (7 + length p) (drop at D)" by (simp add: add.commute add.left_commute)
  then have "drop ?at' D = post" unfolding at_D by simp
  then have rest: "?rest = drop ?at' (take (file_at r1) D)" by (simp only: drop_take)
  have same: "file_at r1 = min (length D) ((?at' div kBlockSize + 1) * kBlockSize)" if "?at' < file_at r1"
  proof -
    have "?at' div kBlockSize = at div kBlockSize" by (rule same_block) (use that pos in simp_all)
    then show ?thesis using pos by (simp only:)
  qed
  have "reader_at ?r D ?at'"
    unfolding reader_at_def using s(1-4,6,8,9) enough rest same by simp
  with read r1(4) show ?thesis by (simp add: at_def)
qed

lemma read_torn:
  assumes "reader_at r D off" "D = pre @ torn" "length pre = off" "torn @ x = pad off @ phys t p" "x \<noteq> []" "fits off p"
  shows "\<exists>r'. ReadPhysicalRecord r = Some (kEof, None, r') \<and> \<not> lr_resyncing r' \<and> lr_corruptions r' = lr_corruptions r"
proof -
  define at where "at = off + length (pad off)"
  show ?thesis
  proof (cases "at + 7 \<le> length D")
    case False
    then have "length D < at + 7" by simp
    from fill_buffer_end [OF assms(1) at_def this] show ?thesis by (auto simp: ReadPhysicalRecord_def)
  next
    case True
    from fill_buffer_header [OF assms(1) at_def True] obtain r1 where r1: "fill_buffer r = (True, r1)"
      "reader_at r1 D at" "at < file_at r1" "lr_corruptions r1 = lr_corruptions r" by blast
    note s = reader_atD [OF r1(2)]
    have len: "length torn + length x = length (pad off) + (7 + length p)"
      using arg_cong [OF assms(4), of length] by simp
    then have short: "length D < at + 7 + length p" using assms(2,3,5) at_def by (cases x) simp_all
    have blk: "at + 7 + length p \<le> (at div kBlockSize + 1) * kBlockSize" by (rule fits_block [OF assms(6) at_def])
    have pos: "file_at r1 = length D" using s(10) [OF r1(3)] short blk by simp
    have eof: "lr_eof r1"
    proof (rule ccontr)
      assume "\<not> lr_eof r1"
      then have m: "file_at r1 mod kBlockSize = 0" by (rule s(9))
      have "file_at r1 div kBlockSize = at div kBlockSize"
        by (rule same_block) (use r1(3) pos short blk in simp_all)
      with m have "file_at r1 = at div kBlockSize * kBlockSize" by (metis add.right_neutral div_mult_mod_eq)
      also have "\<dots> \<le> at" by (rule div_times_less_eq_dividend)
      finally show False using r1(3) by simp
    qed
    have "length (pad off) \<le> length torn" using True assms(2,3) at_def by simp
    then obtain torn' where torn': "torn = pad off @ torn'" "torn' @ x = phys t p"
      using assms(4) by (metis append_eq_append_conv_if append_eq_conv_conj append_take_drop_id)
    have "lr_buffer r1 = drop at D" using s(7) pos by simp
    also have "\<dots> = torn'" using assms(2,3) torn'(1) by (simp add: at_def)
    finally have buf: "lr_buffer r1 = torn'" .
    have "7 \<le> length torn'" using True assms(2,3) torn'(1) at_def by simp
    with parse_torn [of r1 x t p] torn'(2) assms(5) fits_length [OF assms(6)] eof buf
    have "parse_physical r1 = Some (kEof, None, r1\<lparr>lr_buffer := []\<rparr>)" by simp
    with r1 s(4) show ?thesis by (simp add: ReadPhysicalRecord_def)
  qed
qed

section \<open>One record\<close>

lemma fragments_step:
  assumes n: "n = min (length data) (avail off)"
  shows "fragments off begins data = (record_type begins (\<not> n < length data), take n data) #
       (if n < length data then fragments (off + length (pad off) + 7 + n) False (drop n data) else [])"
    and "fits off (take n data)" and "length (take n data) = n"
proof -
  have "\<not> n < length data \<longleftrightarrow> length data = n" by (auto simp: n)
  then show "fragments off begins data = (record_type begins (\<not> n < length data), take n data) #
       (if n < length data then fragments (off + length (pad off) + 7 + n) False (drop n data) else [])"
    by (simp only: fragments.simps [of off begins data] Let_def n [symmetric])
qed (simp_all add: fits_def n)

lemma record_type_simps:
  "record_type True True = kFullType" "record_type True False = kFirstType"
  "record_type False True = kLastType" "record_type False False = kMiddleType"
  by (simp_all add: record_type_def)

text \<open>One round of the loop in \<open>ReadRecord\<close> on what the writer emits.\<close>

lemma read_round:
  assumes "ReadPhysicalRecord r = Some (record_type begins ends, Some p, r1)" "\<not> lr_resyncing r1"
  shows "\<exists>pr1. read_record_loop (\<not> begins) scratch fragment pr r =
     (if ends then Some (Some ((if begins then [] else scratch) @ p), r1\<lparr>lr_last_record_offset := pr1\<rparr>)
      else read_record_loop True ((if begins then [] else scratch) @ p) p pr1 r1)"
proof -
  have same: "r1\<lparr>lr_resyncing := False\<rparr> = r1" using assms(2) by (cases r1) simp
  show ?thesis
    by (subst read_record_loop.simps, cases begins; cases ends)
      (simp_all add: assms same Let_def record_type_simps exI)
qed

lemma reader_at_last [simp]: "reader_at (r\<lparr>lr_last_record_offset := x\<rparr>) D off \<longleftrightarrow> reader_at r D off"
  by (simp add: reader_at_def)

lemma read_fragments:
  assumes "reader_at r D off" "D = pre @ layout off (fragments off begins data) @ post" "length pre = off"
  shows "\<exists>r'. read_record_loop (\<not> begins) scratch fragment pr r =
       Some (Some ((if begins then [] else scratch) @ data), r') \<and>
     reader_at r' D (off + length (layout off (fragments off begins data))) \<and> lr_corruptions r' = lr_corruptions r"
  using assms
proof (induction off begins data arbitrary: r pre scratch fragment pr rule: fragments.induct)
  case (1 off begins data)
  define n where "n = min (length data) (avail off)"
  define off' where "off' = off + length (pad off) + 7 + n"
  note step = fragments_step(1) [OF n_def, of begins, folded off'_def] fragments_step(2,3) [OF n_def]
  let ?t = "record_type begins (\<not> n < length data)"
  let ?more = "if n < length data then fragments off' False (drop n data) else []"
  have lay: "layout off (fragments off begins data) = pad off @ phys ?t (take n data) @ layout off' ?more"
    unfolding step(1) layout.simps step(3) off'_def ..
  have D: "D = pre @ pad off @ phys ?t (take n data) @ layout off' ?more @ post"
    using 1(3) unfolding lay by simp
  from read_whole [OF 1(2) D 1(4) record_type_range step(2)] obtain r1 where
    r1: "ReadPhysicalRecord r = Some (?t, Some (take n data), r1)" "reader_at r1 D off'"
      "lr_corruptions r1 = lr_corruptions r" unfolding step(3) off'_def by blast
  let ?s = "if begins then [] else scratch"
  obtain pr1 where round: "read_record_loop (\<not> begins) scratch fragment pr r =
     (if \<not> n < length data then Some (Some (?s @ take n data), r1\<lparr>lr_last_record_offset := pr1\<rparr>)
      else read_record_loop True (?s @ take n data) (take n data) pr1 r1)"
    using read_round [OF r1(1) reader_atD(4) [OF r1(2)]] by blast
  have len: "length (layout off (fragments off begins data)) = off' - off + length (layout off' ?more)"
    unfolding lay by (simp add: off'_def step(3) [unfolded length_take])
  have le: "off \<le> off'" by (simp add: off'_def)
  show ?case
  proof (cases "n < length data")
    case False
    with round r1 len le show ?thesis by simp
  next
    case True
    let ?pre = "pre @ pad off @ phys ?t (take n data)"
    have "length ?pre = off'" using 1(4) step(3) by (simp add: off'_def)
    moreover have "D = ?pre @ layout off' (fragments off' False (drop n data)) @ post" using D True by simp
    ultimately have pre: "length ?pre = off'" "D = ?pre @ layout off' (fragments off' False (drop n data)) @ post" .
    note 1(1) [OF n_def True, folded off'_def, OF r1(2) pre(2,1),
        of "?s @ take n data" "take n data" pr1, unfolded not_False_eq_True if_False]
    then obtain r' where r': "read_record_loop True (?s @ take n data) (take n data) pr1 r1 =
        Some (Some ((?s @ take n data) @ drop n data), r')"
      "reader_at r' D (off' + length (layout off' (fragments off' False (drop n data))))"
      "lr_corruptions r' = lr_corruptions r1" by blast
    with round True r1(3) len le show ?thesis by simp
  qed
qed

text \<open>The bytes of a record that was not written to its end give nothing.\<close>

lemma read_fragments_torn:
  assumes "reader_at r D off" "D = pre @ torn" "length pre = off"
    "torn @ x = layout off (fragments off begins data)" "x \<noteq> []"
  shows "\<exists>r'. read_record_loop (\<not> begins) scratch fragment pr r = Some (None, r') \<and>
     lr_corruptions r' = lr_corruptions r"
  using assms
proof (induction off begins data arbitrary: r pre scratch fragment pr torn rule: fragments.induct)
  case (1 off begins data)
  define n where "n = min (length data) (avail off)"
  define off' where "off' = off + length (pad off) + 7 + n"
  note step = fragments_step(1) [OF n_def, of begins, folded off'_def] fragments_step(2,3) [OF n_def]
  let ?t = "record_type begins (\<not> n < length data)"
  let ?more = "if n < length data then fragments off' False (drop n data) else []"
  let ?first = "pad off @ phys ?t (take n data)"
  have lay: "layout off (fragments off begins data) = ?first @ layout off' ?more"
    unfolding step(1) layout.simps step(3) off'_def by simp
  obtain us where "torn = ?first @ us \<and> us @ x = layout off' ?more \<or> torn @ us = ?first \<and> x = us @ layout off' ?more"
    using 1(5) unfolding lay append_eq_append_conv2 by blast
  then consider (part) y where "torn @ y = ?first" "y \<noteq> []"
    | (whole) torn' where "torn = ?first @ torn'" "torn' @ x = layout off' ?more"
    by (cases "us = []") auto
  then show ?case
  proof cases
    case part
    from read_torn [OF 1(2-4) part step(2)] obtain r' where r': "ReadPhysicalRecord r = Some (kEof, None, r')"
      "\<not> lr_resyncing r'" "lr_corruptions r' = lr_corruptions r" by blast
    have "r'\<lparr>lr_resyncing := False\<rparr> = r'" using r'(2) by (cases r') simp
    with r' show ?thesis by (subst read_record_loop.simps) (simp add: Let_def)
  next
    case torn': whole
    have more: "n < length data" using torn'(2) 1(6) by (cases "n < length data") auto
    have D: "D = pre @ pad off @ phys ?t (take n data) @ torn'" using 1(3) torn'(1) by simp
    from read_whole [OF 1(2) D 1(4) record_type_range step(2)] obtain r1 where
      r1: "ReadPhysicalRecord r = Some (?t, Some (take n data), r1)" "reader_at r1 D off'"
        "lr_corruptions r1 = lr_corruptions r" unfolding step(3) off'_def by blast
    let ?s = "if begins then [] else scratch"
    obtain pr1 where round: "read_record_loop (\<not> begins) scratch fragment pr r =
        read_record_loop True (?s @ take n data) (take n data) pr1 r1"
      using read_round [OF r1(1) reader_atD(4) [OF r1(2)], of scratch fragment pr] more by auto
    let ?pre = "pre @ ?first"
    have "length ?pre = off'" using 1(4) step(3) by (simp add: off'_def)
    moreover have "D = ?pre @ torn'" using D by simp
    moreover have "torn' @ x = layout off' (fragments off' False (drop n data))" using torn'(2) more by simp
    ultimately have pre: "length ?pre = off'" "D = ?pre @ torn'"
      "torn' @ x = layout off' (fragments off' False (drop n data))" .
    note 1(1) [OF n_def more, folded off'_def, OF r1(2) pre(2,1,3) 1(6),
        of "?s @ take n data" "take n data" pr1, unfolded not_False_eq_True]
    then obtain r' where "read_record_loop True (?s @ take n data) (take n data) pr1 r1 = Some (None, r')"
      "lr_corruptions r' = lr_corruptions r1" by blast
    with round r1(3) show ?thesis by simp
  qed
qed

section \<open>A whole log\<close>

text \<open>The bytes of a list of records, and the calls of a client.\<close>

fun log_bytes :: "nat \<Rightarrow> byte list list \<Rightarrow> byte list" where
  "log_bytes off [] = []"
| "log_bytes off (d # ds) =
     (let l = layout off (fragments off True d) in l @ log_bytes (off + length l) ds)"

fun add_records :: "byte list list \<Rightarrow> LogWriter \<Rightarrow> (Status \<times> LogWriter) option" where
  "add_records [] w = Some (Status_OK, w)"
| "add_records (d # ds) w =
     do { (s, w) \<leftarrow> AddRecord d w; if status_ok s then add_records ds w else Some (s, w) }"

text \<open>Reading until \<open>ReadRecord\<close> returns false, \<open>n\<close> times at most.\<close>

fun read_records :: "nat \<Rightarrow> LogReader \<Rightarrow> (byte list list \<times> LogReader) option" where
  "read_records 0 r = Some ([], r)"
| "read_records (Suc n) r =
     do { (d, r) \<leftarrow> ReadRecord r;
          case d of
            None \<Rightarrow> Some ([], r)
          | Some d \<Rightarrow> do { (ds, r) \<leftarrow> read_records n r; Some (d # ds, r) } }"

text \<open>How many of the records lie within the first \<open>k\<close> bytes.\<close>

fun whole_records :: "nat \<Rightarrow> nat \<Rightarrow> byte list list \<Rightarrow> nat" where
  "whole_records off k [] = 0"
| "whole_records off k (d # ds) =
     (let n = length (layout off (fragments off True d)) in
      if n \<le> k then Suc (whole_records (off + n) (k - n) ds) else 0)"

lemma whole_records_all: "length (log_bytes off ds) \<le> k \<Longrightarrow> whole_records off k ds = length ds"
  by (induction ds arbitrary: off k) (simp_all add: Let_def)

lemma add_records_at:
  "writer_at w D \<Longrightarrow> \<exists>w'. add_records ds w = Some (Status_OK, w') \<and> writer_at w' (D @ log_bytes (length D) ds)"
proof (induction ds arbitrary: w D)
  case (Cons d ds)
  obtain w1 where w1: "AddRecord d w = Some (Status_OK, w1)"
    "writer_at w1 (D @ layout (length D) (fragments (length D) True d))"
    using add_record_at [OF Cons.prems] unfolding AddRecord_def by blast
  from Cons.IH [OF w1(2)] w1(1) show ?case by (auto simp: Let_def)
qed auto

lemma ReadRecord_loop: "lr_initial_offset r = 0 \<Longrightarrow> ReadRecord r = read_record_loop False [] [] 0 r"
  by (simp add: ReadRecord_def)

lemma read_records_at:
  assumes "reader_at r D off" "D = pre @ take k (log_bytes off ds)" "length pre = off" "length ds < n"
  shows "\<exists>r'. read_records n r = Some (take (whole_records off k ds) ds, r') \<and> lr_corruptions r' = lr_corruptions r"
  using assms
proof (induction ds arbitrary: r off pre k n)
  case Nil
  then obtain m where n: "n = Suc m" by (cases n) auto
  have "length D < off + length (pad off) + 7" using Nil by simp
  from fill_buffer_end [OF Nil(1) refl this] obtain r' where r': "fill_buffer r = (False, r')" "\<not> lr_resyncing r'"
    "lr_corruptions r' = lr_corruptions r" by blast
  have "r'\<lparr>lr_resyncing := False\<rparr> = r'" using r'(2) by (cases r') simp
  then have "ReadRecord r = Some (None, r')"
    using r' unfolding ReadRecord_loop [OF reader_atD(3) [OF Nil(1)]]
    by (subst read_record_loop.simps) (simp add: ReadPhysicalRecord_def Let_def)
  with r'(3) n show ?case by simp
next
  case (Cons d ds)
  then obtain m where n: "n = Suc m" "length ds < m" by (cases n) auto
  let ?l = "layout off (fragments off True d)"
  show ?case
  proof (cases "length ?l \<le> k")
    case True
    have D: "D = pre @ ?l @ take (k - length ?l) (log_bytes (off + length ?l) ds)"
      using Cons.prems(2) True by (simp add: Let_def)
    from read_fragments [OF Cons.prems(1) D Cons.prems(3), of "[]" "[]" 0] obtain r1 where
      r1: "ReadRecord r = Some (Some d, r1)" "reader_at r1 D (off + length ?l)" "lr_corruptions r1 = lr_corruptions r"
      unfolding ReadRecord_loop [OF reader_atD(3) [OF Cons.prems(1)]] by auto
    have "D = (pre @ ?l) @ take (k - length ?l) (log_bytes (off + length ?l) ds)" "length (pre @ ?l) = off + length ?l"
      using D Cons.prems(3) by simp_all
    from Cons.IH [OF r1(2) this n(2)] r1 n(1) True show ?thesis by (auto simp: Let_def)
  next
    case False
    let ?torn = "take k ?l"
    have D: "D = pre @ ?torn" using Cons.prems(2) False by (simp add: Let_def)
    have "?torn @ drop k ?l = ?l" "drop k ?l \<noteq> []" using False by simp_all
    from read_fragments_torn [OF Cons.prems(1) D Cons.prems(3) this, of "[]" "[]" 0] obtain r' where
      "ReadRecord r = Some (None, r')" "lr_corruptions r' = lr_corruptions r"
      unfolding ReadRecord_loop [OF reader_atD(3) [OF Cons.prems(1)]] by auto
    with n(1) False show ?thesis by (simp add: Let_def)
  qed
qed

definition posix_file :: "string \<Rightarrow> byte list \<Rightarrow> PosixFile" where
  "posix_file name bs = \<lparr>pf_filename = name, pf_errno = [], pf_file = plain_file bs\<rparr>"

lemma new_reader_at: "reader_at (new_LogReader (posix_file name D) reporter checksum 0) D 0"
  by (simp add: reader_at_def new_LogReader_def posix_file_def plain_file_def)

lemma new_writer_at: "\<exists>w. new_LogWriter (posix_file name []) 0 = Some w \<and> writer_at w []"
  using new_LogWriter_at [of "posix_file name []" "[]"] by (simp add: writable_def posix_file_def plain_file_def)

end
