(* ===== verification/LdbLogTotal.thy ===== *)
theory LdbLogTotal
  imports LdbLogProof
begin

text \<open>
  The log reader on any file at all: whatever the bytes, the faults of the file, the initial
  offset and the flags, \<open>ReadRecord\<close> returns, and a record it returns has taken bytes from what
  was left to read. So a loop over \<open>ReadRecord\<close>, as \<open>DBImpl::RecoverLogFile\<close> has one, comes to
  the end of the file.
\<close>

lemma parse_physical_total:
  assumes "7 \<le> length (lr_buffer r)"
  shows "parse_physical r \<noteq> None"
proof -
  obtain v where "DecodeFixed32 (lr_buffer r) = Some v"
    using assms by (simp add: DecodeFixed32_value)
  then show ?thesis
    by (simp add: parse_physical_def Let_def crc_Value_def Extend_crc32c del: not_None_eq)
qed

lemma ReadPhysicalRecord_total:
  obtains t result r' where "ReadPhysicalRecord r = Some (t, result, r')" "unread r' \<le> unread r"
    "t \<noteq> kEof \<Longrightarrow> unread r' < unread r"
proof -
  obtain ok r1 where f: "fill_buffer r = (ok, r1)" by fastforce
  note u = fill_buffer_unread [OF f]
  show thesis
  proof (cases ok)
    case False
    with f u show thesis by (intro that [of kEof None r1]) (simp_all add: ReadPhysicalRecord_def)
  next
    case True
    with u parse_physical_total obtain t result r' where p: "parse_physical r1 = Some (t, result, r')" by fastforce
    with f True have q: "ReadPhysicalRecord r = Some (t, result, r')" by (simp add: ReadPhysicalRecord_def)
    have "unread r' < unread r1" using parse_physical_unread [OF p] u True by simp
    with u q show thesis by (intro that [of t result r']) simp_all
  qed
qed

lemma ReportCorruption_offset [simp]: "lr_initial_offset (ReportCorruption n m r) = lr_initial_offset r"
  by (simp add: ReportCorruption_def)

lemma fill_buffer_offset: "fill_buffer r = (ok, r') \<Longrightarrow> lr_initial_offset r' = lr_initial_offset r"
proof (induction r rule: fill_buffer.induct)
  case (1 r)
  obtain s bs f where f: "SequentialFile_Read kBlockSize (lr_file r) = (s, bs, f)" by (metis prod_cases3)
  from 1(3) show ?case
    by (auto simp: fill_buffer.simps [of r] f Let_def split: if_splits dest: 1(1,2) [OF _ _ f [symmetric] refl refl])
qed

lemma parse_physical_offset:
  assumes "parse_physical r = Some (t, result, r')"
  shows "lr_initial_offset r' = lr_initial_offset r"
    "t \<noteq> kEof \<Longrightarrow> t \<noteq> kBadRecord \<Longrightarrow> \<exists>fragment. result = Some fragment \<and>
       lr_initial_offset r \<le> lr_end_of_buffer_offset r' - of_nat (length (lr_buffer r')) - of_nat kHeaderSize -
         of_nat (length fragment)"
proof -
  define header where "header = lr_buffer r"
  define len where "len = unat (header ! 4) + unat (header ! 5) * 256"
  define t0 where "t0 = unat (scast (header ! 6) :: 32 word)"
  note parse = assms [unfolded parse_physical_def Let_def, folded header_def, folded len_def t0_def]
  show "lr_initial_offset r' = lr_initial_offset r"
    using parse by (auto split: if_splits Option.bind_splits)
  assume t: "t \<noteq> kEof" "t \<noteq> kBadRecord"
  then have fits: "\<not> kHeaderSize + len > length header" using parse by (auto split: if_splits)
  then have "length (take len (drop kHeaderSize header)) = len" by simp
  with parse t show "\<exists>fragment. result = Some fragment \<and>
       lr_initial_offset r \<le> lr_end_of_buffer_offset r' - of_nat (length (lr_buffer r')) - of_nat kHeaderSize -
         of_nat (length fragment)"
    unfolding if_not_P [OF fits] by (auto split: if_splits Option.bind_splits simp: not_less)
qed

lemma ReadPhysicalRecord_offset:
  assumes "ReadPhysicalRecord r = Some (t, result, r')"
  shows "lr_initial_offset r' = lr_initial_offset r"
    "t \<noteq> kEof \<Longrightarrow> t \<noteq> kBadRecord \<Longrightarrow> \<exists>fragment. result = Some fragment \<and>
       lr_initial_offset r \<le> lr_end_of_buffer_offset r' - of_nat (length (lr_buffer r')) - of_nat kHeaderSize -
         of_nat (length fragment)"
proof -
  obtain ok r1 where f: "fill_buffer r = (ok, r1)" by fastforce
  note p = assms [unfolded ReadPhysicalRecord_def f prod.case] and o = fill_buffer_offset [OF f]
  show "lr_initial_offset r' = lr_initial_offset r"
    using p o parse_physical_offset(1) [of r1] by (cases ok) auto
  assume "t \<noteq> kEof" "t \<noteq> kBadRecord"
  with p o parse_physical_offset(2) [of r1 t result r'] show "\<exists>fragment. result = Some fragment \<and>
       lr_initial_offset r \<le> lr_end_of_buffer_offset r' - of_nat (length (lr_buffer r')) - of_nat kHeaderSize -
         of_nat (length fragment)" by (cases ok) auto
qed

text \<open>
  What a round of the loop may do with the reader it has: a record it returns has taken bytes,
  and is not before the initial offset, so that the next call does not skip again.
\<close>

definition returns_from :: "nat \<Rightarrow> 64 word \<Rightarrow> (byte list option \<times> LogReader) option \<Rightarrow> bool" where
  "returns_from n offset res \<longleftrightarrow>
     (\<exists>d r. res = Some (d, r) \<and> unread r \<le> n \<and>
        (d \<noteq> None \<longrightarrow> unread r < n \<and> lr_initial_offset r = offset \<and> offset \<le> lr_last_record_offset r))"

lemma unread_update [simp]: "unread (r\<lparr>lr_last_record_offset := x\<rparr>) = unread r"
  by (simp add: unread_def)

lemma read_record_loop_returns:
  "(in_fragmented \<Longrightarrow> lr_initial_offset r \<le> prospective) \<Longrightarrow>
   returns_from (unread r) (lr_initial_offset r) (read_record_loop in_fragmented scratch fragment prospective r)"
proof (induction "unread r" arbitrary: in_fragmented scratch fragment prospective r rule: less_induct)
  case less
  obtain t result r1 where p: "ReadPhysicalRecord r = Some (t, result, r1)" "unread r1 \<le> unread r"
    "t \<noteq> kEof \<Longrightarrow> unread r1 < unread r" by (rule ReadPhysicalRecord_total) blast
  note offset = ReadPhysicalRecord_offset(1) [OF p(1)] ReadPhysicalRecord_offset(2) [OF p(1)]
  have step: "returns_from (unread r) (lr_initial_offset r) (read_record_loop i s f q r2)"
    if "unread r2 = unread r1" "lr_initial_offset r2 = lr_initial_offset r" "t \<noteq> kEof"
      "i \<Longrightarrow> lr_initial_offset r \<le> q" for i s f q r2
    using less(1) [of r2 i q s f] p(3) that unfolding returns_from_def by fastforce
  have here: "returns_from (unread r) (lr_initial_offset r) (Some (Some d, r2))"
    if "unread r2 = unread r1" "t \<noteq> kEof" "lr_initial_offset r2 = lr_initial_offset r"
      "lr_initial_offset r \<le> lr_last_record_offset r2" for d r2
    using that p(3) by (simp add: returns_from_def)
  have "returns_from (unread r) (lr_initial_offset r) (Some (None, r1\<lparr>lr_resyncing := False\<rparr>))"
    using p(2) by (simp add: returns_from_def)
  then show ?case
    unfolding read_record_loop.simps [of in_fragmented scratch fragment prospective r] p(1)
    using offset less(2) by (auto simp: Let_def intro!: step here)
qed

text \<open>
  A skip may go backwards, if the initial offset is near \<open>2 ^ 64\<close>, but not before the start of
  the file.
\<close>

definition ahead :: "LogReader \<Rightarrow> nat" where
  "ahead r = (if lr_last_record_offset r < lr_initial_offset r
     then length (lr_buffer r) + length (file_data (pf_file (lr_file r))) else unread r)"

lemma SkipToInitialBlock_unread:
  "SkipToInitialBlock r = (ok, r') \<Longrightarrow> lr_initial_offset r' = lr_initial_offset r \<and>
     unread r' \<le> length (lr_buffer r) + length (file_data (pf_file (lr_file r)))"
  by (auto simp: SkipToInitialBlock_def SequentialFile_Skip_def fseek_cur_def unread_def Let_def
      split: if_splits prod.splits)

lemma ReadRecord_returns: "returns_from (ahead r) (lr_initial_offset r) (ReadRecord r)"
proof -
  obtain ok r1 where s: "(if lr_last_record_offset r < lr_initial_offset r then SkipToInitialBlock r else (True, r)) = (ok, r1)"
    by fastforce
  then have "unread r1 \<le> ahead r" "lr_initial_offset r1 = lr_initial_offset r"
    using SkipToInitialBlock_unread by (auto simp: ahead_def split: if_splits)
  with read_record_loop_returns [of False r1 0 "[]" "[]"] show ?thesis
    by (cases ok) (fastforce simp: ReadRecord_def s returns_from_def)+
qed

lemma read_records_end:
  "\<exists>ds r'. read_records n r = Some (ds, r') \<and> length ds \<le> min n (ahead r)"
proof (induction n arbitrary: r)
  case (Suc n)
  obtain d r1 where d: "ReadRecord r = Some (d, r1)"
    "d \<noteq> None \<longrightarrow> unread r1 < ahead r \<and> lr_initial_offset r1 \<le> lr_last_record_offset r1"
    using ReadRecord_returns [of r] unfolding returns_from_def by auto
  then have "d \<noteq> None \<longrightarrow> ahead r1 < ahead r" by (auto simp: ahead_def)
  with d(1) Suc [of r1] show ?case by (cases d) auto
qed simp

lemma ahead_le: "ahead r \<le> length (lr_buffer r) + length (file_data (pf_file (lr_file r)))"
  by (simp add: ahead_def unread_def)

end
