(* ===== verification/LdbRandomFile.thy ===== *)
theory LdbRandomFile
  imports LdbEnv
begin

text \<open>
  The two random-access files of \<open>util/env_posix.cc\<close>, over \<open>pread\<close> and over mapped memory. A
  read also says whether its slice points into the caller's scratch space.
\<close>

section \<open>Files read with pread\<close>

text \<open>
  \<open>pread\<close> of the C library: fails at a negative offset or at the byte \<open>fault\<close>, and reads short
  at the end of the file or before that byte. \<open>None\<close> is the result -1.
\<close>

definition pread :: "byte list \<Rightarrow> nat option \<Rightarrow> nat \<Rightarrow> int \<Rightarrow> byte list option" where
  "pread data fault n off =
     (if off < 0 then None
      else let readable = (case fault of None \<Rightarrow> data | Some k \<Rightarrow> take k data);
               bs = take n (drop (nat off) readable) in
        if bs = [] \<and> n > 0 \<and> nat off < length data then None else Some bs)"

text \<open>
  \<open>pr_temporary\<close> is \<open>temporary_fd_\<close>; then every read opens the file, which fails if
  \<open>pr_open_fails\<close>. \<open>pr_errno\<close> is what \<open>strerror(errno)\<close> says after a failure.
\<close>

record PosixRandomAccessFile =
  pr_filename :: string
  pr_errno :: string
  pr_temporary :: bool
  pr_open_fails :: bool
  pr_data :: "byte list"
  pr_fault :: "nat option"

definition PosixRandomAccessFile_Read ::
  "PosixRandomAccessFile \<Rightarrow> 64 word \<Rightarrow> 64 word \<Rightarrow> Status \<times> byte list" where
  "PosixRandomAccessFile_Read f off n =
     (if pr_temporary f \<and> pr_open_fails f then (IOError (pr_filename f) (pr_errno f), [])
      else (case pread (pr_data f) (pr_fault f) (unat n) (sint off) of
              None \<Rightarrow> (IOError (pr_filename f) (pr_errno f), [])
            | Some bs \<Rightarrow> (Status_OK, bs)))"

section \<open>Mapped files\<close>

text \<open>\<open>pm_region\<close> are the \<open>length_\<close> bytes at \<open>mmapped_region_\<close>.\<close>

record PosixMmapReadableFile =
  pm_filename :: string
  pm_region :: "byte list"

text \<open>The sum is one of 64 bits; \<open>None\<close> is a slice that is not inside the region.\<close>

definition PosixMmapReadableFile_Read ::
  "PosixMmapReadableFile \<Rightarrow> 64 word \<Rightarrow> 64 word \<Rightarrow> (Status \<times> byte list) option" where
  "PosixMmapReadableFile_Read f off n =
     (if unat (off + n) > length (pm_region f) then Some (IOError (pm_filename f) ''Invalid argument'', [])
      else if unat off + unat n > length (pm_region f) then None
      else Some (Status_OK, take (unat n) (drop (unat off) (pm_region f))))"

section \<open>Either\<close>

datatype RandomAccessFile = PreadFile PosixRandomAccessFile | MmapFile PosixMmapReadableFile

text \<open>The third component: does the slice point into \<open>scratch\<close>?\<close>

fun RandomAccessFile_Read ::
  "RandomAccessFile \<Rightarrow> 64 word \<Rightarrow> 64 word \<Rightarrow> (Status \<times> byte list \<times> bool) option" where
  "RandomAccessFile_Read (PreadFile f) off n =
     (case PosixRandomAccessFile_Read f off n of (s, bs) \<Rightarrow> Some (s, bs, True))"
| "RandomAccessFile_Read (MmapFile f) off n =
     do { (s, bs) \<leftarrow> PosixMmapReadableFile_Read f off n; Some (s, bs, False) }"

text \<open>A file whose bytes are \<open>data\<close> and whose reads succeed.\<close>

fun readable :: "RandomAccessFile \<Rightarrow> byte list \<Rightarrow> bool" where
  "readable (PreadFile f) data \<longleftrightarrow> pr_data f = data \<and> pr_fault f = None \<and> \<not> (pr_temporary f \<and> pr_open_fails f) \<and>
     length data < 2 ^ 63"
| "readable (MmapFile f) data \<longleftrightarrow> pm_region f = data \<and> length data < 2 ^ 63"

lemma readable_length: "readable f data \<Longrightarrow> length data < 2 ^ 63"
  by (cases f) simp_all

lemma sint_small_64: "unat (w :: 64 word) < 2 ^ 63 \<Longrightarrow> sint w = int (unat w)"
proof -
  assume "unat w < 2 ^ 63"
  then have "int (unat w) < int (2 ^ 63)" by (simp only: of_nat_less_iff)
  then have "int (unat w) < 2 ^ 63" by (simp only: of_nat_power of_nat_numeral)
  moreover have "- (2 ^ 63) \<le> int (unat w)" by (rule order_trans [OF _ of_nat_0_le_iff]) simp
  ultimately have "signed_take_bit 63 (int (unat w)) = int (unat w)" by (intro signed_take_bit_int_eq_self)
  then show ?thesis using sint_uint [of w] by simp
qed

lemma unat_add_64: "unat (a :: 64 word) + unat b < 2 ^ 64 \<Longrightarrow> unat (a + b) = unat a + unat b"
  by (simp add: unat_word_ariths)

lemma readable_read:
  assumes "readable f data" "unat off + unat n \<le> length data"
  shows "\<exists>scratch. RandomAccessFile_Read f off n = Some (Status_OK, take (unat n) (drop (unat off) data), scratch)"
proof (cases f)
  case (PreadFile p)
  with assms have "sint off = int (unat off)" by (intro sint_small_64) simp
  with PreadFile assms show ?thesis
    by (auto simp: PosixRandomAccessFile_Read_def pread_def Let_def)
next
  case (MmapFile p)
  with assms have "unat (off + n) = unat off + unat n" by (intro unat_add_64) simp
  with MmapFile assms show ?thesis by (intro exI [of _ False]) (simp add: PosixMmapReadableFile_Read_def)
qed

text \<open>
  The test of the mapped file overflows: a read of 5 bytes from 5 bytes before the region passes
  it.
\<close>

lemma mmap_overflow:
  assumes "unat off + unat n = 2 ^ 64"
  shows "RandomAccessFile_Read (MmapFile f) off n = None \<or> 2 ^ 64 \<le> length (pm_region f)"
proof -
  have "unat (off + n) = 0" using assms by (simp add: unat_word_ariths)
  with assms show ?thesis by (auto simp: PosixMmapReadableFile_Read_def)
qed

end
