(* ===== verification/LdbTableFormat.thy ===== *)
theory LdbTableFormat
  imports LdbRandomFile LdbCrc32c
begin

text \<open>
  The parts of a table file (\<open>table/format.h\<close>, \<open>table/format.cc\<close>): block handles, the footer,
  and \<open>ReadBlock\<close>. A failed assertion or a read outside a buffer is \<open>None\<close>.
\<close>

section \<open>Handles and the footer\<close>

record BlockHandle =
  bh_offset :: "64 word"
  bh_size :: "64 word"

definition new_BlockHandle :: BlockHandle where
  "new_BlockHandle = \<lparr>bh_offset = NOT 0, bh_size = NOT 0\<rparr>"

definition kMaxEncodedLength :: nat where "kMaxEncodedLength = 10 + 10"

definition BlockHandle_EncodeTo :: "BlockHandle \<Rightarrow> byte list \<Rightarrow> byte list option" where
  "BlockHandle_EncodeTo h dst =
     (if bh_offset h = NOT 0 \<or> bh_size h = NOT 0 then None
      else Some (PutVarint64 (PutVarint64 dst (bh_offset h)) (bh_size h)))"

text \<open>The status, the handle, and what is left of the input.\<close>

definition BlockHandle_DecodeFrom :: "BlockHandle \<Rightarrow> byte list \<Rightarrow> Status \<times> BlockHandle \<times> byte list" where
  "BlockHandle_DecodeFrom h input =
     (case GetVarint64 input of
        (None, input) \<Rightarrow> (Corruption ''bad block handle'' [], h, input)
      | (Some off, input) \<Rightarrow>
          (case GetVarint64 input of
             (None, input) \<Rightarrow> (Corruption ''bad block handle'' [], h\<lparr>bh_offset := off\<rparr>, input)
           | (Some sz, input) \<Rightarrow> (Status_OK, h\<lparr>bh_offset := off, bh_size := sz\<rparr>, input)))"

record Footer =
  ft_metaindex_handle :: BlockHandle
  ft_index_handle :: BlockHandle

definition new_Footer :: Footer where
  "new_Footer = \<lparr>ft_metaindex_handle = new_BlockHandle, ft_index_handle = new_BlockHandle\<rparr>"

definition kEncodedLength :: nat where "kEncodedLength = 2 * kMaxEncodedLength + 8"

definition kTableMagicNumber :: "64 word" where "kTableMagicNumber = 0xdb4775248b80fb57"

definition kBlockTrailerSize :: "64 word" where "kBlockTrailerSize = 5"

text \<open>\<open>std::string::resize\<close>.\<close>

definition resize :: "nat \<Rightarrow> byte list \<Rightarrow> byte list" where
  "resize n s = take n s @ replicate (n - length s) 0"

definition Footer_EncodeTo :: "Footer \<Rightarrow> byte list \<Rightarrow> byte list option" where
  "Footer_EncodeTo f dst =
     (let original_size = length dst in
      do { dst \<leftarrow> BlockHandle_EncodeTo (ft_metaindex_handle f) dst;
           dst \<leftarrow> BlockHandle_EncodeTo (ft_index_handle f) dst;
           let dst = resize (2 * kMaxEncodedLength) dst;
           let dst = PutFixed32 dst (ucast (kTableMagicNumber AND 0xffffffff));
           let dst = PutFixed32 dst (ucast (drop_bit 32 kTableMagicNumber));
           if length dst = original_size + kEncodedLength then Some dst else None })"

definition Footer_DecodeFrom :: "Footer \<Rightarrow> byte list \<Rightarrow> (Status \<times> Footer \<times> byte list) option" where
  "Footer_DecodeFrom f input =
     do { magic_lo \<leftarrow> DecodeFixed32 (drop (kEncodedLength - 8) input);
          magic_hi \<leftarrow> DecodeFixed32 (drop (kEncodedLength - 8 + 4) input);
          let magic = push_bit 32 (ucast magic_hi) OR (ucast magic_lo :: 64 word);
          Some (if magic \<noteq> kTableMagicNumber then (Corruption ''not an sstable (bad magic number)'' [], f, input)
            else
              (case BlockHandle_DecodeFrom (ft_metaindex_handle f) input of
                 (s, metaindex, rest) \<Rightarrow>
                   let f = f\<lparr>ft_metaindex_handle := metaindex\<rparr> in
                   if \<not> status_ok s then (s, f, rest)
                   else
                     (case BlockHandle_DecodeFrom (ft_index_handle f) rest of
                        (s, index, rest) \<Rightarrow>
                          let f = f\<lparr>ft_index_handle := index\<rparr> in
                          (s, f, if status_ok s then drop kEncodedLength input else rest)))) }"

section \<open>Reading a block\<close>

text \<open>
  The Snappy functions of \<open>port/port_posix.h\<close>: they are those of the library, where it is built
  in, and without it they return false.
\<close>

datatype CompressionType = kNoCompression | kSnappyCompression

fun compression_byte :: "CompressionType \<Rightarrow> byte" where
  "compression_byte kNoCompression = 0"
| "compression_byte kSnappyCompression = 1"

record Snappy =
  Snappy_Compress :: "byte list \<Rightarrow> byte list option"
  Snappy_GetUncompressedLength :: "byte list \<Rightarrow> 64 word option"
  Snappy_Uncompress :: "byte list \<Rightarrow> byte list option"

definition no_snappy :: Snappy where
  "no_snappy = \<lparr>Snappy_Compress = (\<lambda>_. None), Snappy_GetUncompressedLength = (\<lambda>_. None),
     Snappy_Uncompress = (\<lambda>_. None)\<rparr>"

record BlockContents =
  bc_data :: "byte list"
  bc_cachable :: bool
  bc_heap_allocated :: bool

definition no_contents :: BlockContents where
  "no_contents = \<lparr>bc_data = [], bc_cachable = False, bc_heap_allocated = False\<rparr>"

text \<open>
  \<open>n + kBlockTrailerSize\<close> is a sum of 64 bits. The library's \<open>Uncompress\<close> fills an array of
  \<open>ulength\<close> bytes; one of another length is \<open>None\<close>.
\<close>

definition block_data_of :: "Snappy \<Rightarrow> byte list \<Rightarrow> nat \<Rightarrow> bool \<Rightarrow> (Status \<times> BlockContents) option" where
  "block_data_of snappy data n scratch =
     do { t \<leftarrow> nth_opt data n;
          if t = compression_byte kNoCompression then
            Some (Status_OK, \<lparr>bc_data = take n data, bc_cachable = scratch, bc_heap_allocated = scratch\<rparr>)
          else if t = compression_byte kSnappyCompression then
            (case Snappy_GetUncompressedLength snappy (take n data) of
               None \<Rightarrow> Some (Corruption ''corrupted compressed block contents'' [], no_contents)
             | Some ulength \<Rightarrow>
                 (case Snappy_Uncompress snappy (take n data) of
                    None \<Rightarrow> Some (Corruption ''corrupted compressed block contents'' [], no_contents)
                  | Some ubuf \<Rightarrow>
                      if length ubuf = unat ulength
                      then Some (Status_OK, \<lparr>bc_data = ubuf, bc_cachable = True, bc_heap_allocated = True\<rparr>)
                      else None))
          else Some (Corruption ''bad block type'' [], no_contents) }"

definition ReadBlock ::
  "Snappy \<Rightarrow> RandomAccessFile \<Rightarrow> bool \<Rightarrow> BlockHandle \<Rightarrow> (Status \<times> BlockContents) option" where
  "ReadBlock snappy file verify_checksums handle =
     (let n = unat (bh_size handle) in
      do { (s, data, scratch) \<leftarrow>
             RandomAccessFile_Read file (bh_offset handle) (bh_size handle + kBlockTrailerSize);
           if \<not> status_ok s then Some (s, no_contents)
           else if length data \<noteq> unat (bh_size handle + kBlockTrailerSize)
           then Some (Corruption ''truncated block read'' [], no_contents)
           else
             do { checked \<leftarrow> (if verify_checksums then
                    do { stored \<leftarrow> DecodeFixed32 (drop (n + 1) data);
                         actual \<leftarrow> crc_Value 0 (take (n + 1) data);
                         Some (actual = crc_Unmask stored) }
                    else Some True);
                  if \<not> checked then Some (Corruption ''block checksum mismatch'' [], no_contents)
                  else block_data_of snappy data n scratch } })"

section \<open>What is written is read\<close>

definition handle_bytes :: "BlockHandle \<Rightarrow> byte list" where
  "handle_bytes h = EncodeVarint64 (bh_offset h) @ EncodeVarint64 (bh_size h)"

definition handle_set :: "BlockHandle \<Rightarrow> bool" where
  "handle_set h \<longleftrightarrow> bh_offset h \<noteq> NOT 0 \<and> bh_size h \<noteq> NOT 0"

lemma BlockHandle_EncodeTo_bytes: "handle_set h \<Longrightarrow> BlockHandle_EncodeTo h dst = Some (dst @ handle_bytes h)"
  by (simp add: BlockHandle_EncodeTo_def handle_set_def handle_bytes_def PutVarint64_def)

lemma BlockHandle_DecodeFrom_bytes:
  "BlockHandle_DecodeFrom h0 (handle_bytes h @ rest) = (Status_OK, h, rest)"
  by (simp add: BlockHandle_DecodeFrom_def handle_bytes_def GetVarint64_Encode)

lemma handle_bytes_length: "length (handle_bytes h) \<le> kMaxEncodedLength"
  using varint_bytes_length_10 [of "bh_offset h"] varint_bytes_length_10 [of "bh_size h"]
  by (simp add: handle_bytes_def kMaxEncodedLength_def EncodeVarint64_leb128)

definition footer_bytes :: "Footer \<Rightarrow> byte list" where
  "footer_bytes f = resize 40 (handle_bytes (ft_metaindex_handle f) @ handle_bytes (ft_index_handle f)) @
     EncodeFixed32 0x8b80fb57 @ EncodeFixed32 0xdb477524"

lemma resize_pad: "length s \<le> n \<Longrightarrow> resize n s = s @ replicate (n - length s) 0"
  by (simp add: resize_def)

lemma handles_length:
  "length (handle_bytes (ft_metaindex_handle f) @ handle_bytes (ft_index_handle f)) \<le> 40"
  using handle_bytes_length [of "ft_metaindex_handle f"] handle_bytes_length [of "ft_index_handle f"]
  by (simp add: kMaxEncodedLength_def)

lemma length_resize [simp]: "length (resize n s) = n"
  by (simp add: resize_def)

lemma length_footer_bytes [simp]: "length (footer_bytes f) = 48"
  by (simp add: footer_bytes_def)

lemma Footer_EncodeTo_bytes:
  assumes "handle_set (ft_metaindex_handle f)" "handle_set (ft_index_handle f)"
  shows "Footer_EncodeTo f [] = Some (footer_bytes f)"
proof -
  have "(ucast (kTableMagicNumber AND 0xffffffff) :: 32 word) = 0x8b80fb57"
    "(ucast (drop_bit 32 kTableMagicNumber) :: 32 word) = 0xdb477524"
    by (simp_all add: kTableMagicNumber_def)
  with assms show ?thesis
    by (simp add: Footer_EncodeTo_def BlockHandle_EncodeTo_bytes footer_bytes_def PutFixed32_def
        kMaxEncodedLength_def kEncodedLength_def)
qed

text \<open>\<open>resize\<close> is to an absolute length: on a string that is not empty the assertion fails.\<close>

lemma Footer_EncodeTo_append: "dst \<noteq> [] \<Longrightarrow> Footer_EncodeTo f dst = None"
  by (cases "Footer_EncodeTo f dst")
    (auto simp: Footer_EncodeTo_def PutFixed32_def kMaxEncodedLength_def kEncodedLength_def Let_def
      split: Option.bind_splits if_splits)

lemma Footer_DecodeFrom_bytes: "Footer_DecodeFrom f0 (footer_bytes f @ rest) = Some (Status_OK, f, rest)"
proof -
  let ?h = "handle_bytes (ft_metaindex_handle f) @ handle_bytes (ft_index_handle f)"
  have b: "footer_bytes f @ rest = ?h @ replicate (40 - length ?h) 0 @ EncodeFixed32 0x8b80fb57 @
      EncodeFixed32 0xdb477524 @ rest"
    using resize_pad [OF handles_length [of f]] by (simp add: footer_bytes_def)
  have d: "drop 40 (footer_bytes f @ rest) = EncodeFixed32 0x8b80fb57 @ EncodeFixed32 0xdb477524 @ rest"
    "drop 44 (footer_bytes f @ rest) = EncodeFixed32 0xdb477524 @ rest"
    "drop 48 (footer_bytes f @ rest) = rest"
    by (simp_all add: footer_bytes_def)
  have handles: "BlockHandle_DecodeFrom h0 (footer_bytes f @ rest) = (Status_OK, ft_metaindex_handle f,
      handle_bytes (ft_index_handle f) @ replicate (40 - length ?h) 0 @ EncodeFixed32 0x8b80fb57 @
      EncodeFixed32 0xdb477524 @ rest)"
    "BlockHandle_DecodeFrom h0 (handle_bytes (ft_index_handle f) @ x) = (Status_OK, ft_index_handle f, x)" for h0 x
    using BlockHandle_DecodeFrom_bytes by (simp_all add: b)
  have "(push_bit 32 (ucast (0xdb477524 :: 32 word)) OR ucast (0x8b80fb57 :: 32 word) :: 64 word) = kTableMagicNumber"
    by (simp add: kTableMagicNumber_def)
  then show ?thesis
    using d handles unfolding Footer_DecodeFrom_def kEncodedLength_def kMaxEncodedLength_def
    by (simp add: Let_def)
qed

text \<open>A block as \<open>WriteRawBlock\<close> leaves it in the file.\<close>

definition raw_block :: "byte list \<Rightarrow> CompressionType \<Rightarrow> byte list" where
  "raw_block data t = data @ [compression_byte t] @
     EncodeFixed32 (crc_Mask (crc32c 0 (data @ [compression_byte t])))"

lemma length_raw_block [simp]: "length (raw_block data t) = length data + 5"
  by (simp add: raw_block_def)

lemma raw_block_parts:
  assumes "whole = before @ raw_block data t @ rest" "unat off = length before" "unat n = length data"
    "length whole < 2 ^ 63"
  shows "take (unat (n + kBlockTrailerSize)) (drop (unat off) whole) = raw_block data t"
    "unat off + unat (n + kBlockTrailerSize) \<le> length whole"
    "unat (n + kBlockTrailerSize) = length data + 5"
proof -
  have l: "unat (n + kBlockTrailerSize) = length data + 5"
    using assms unat_add_64 [of n kBlockTrailerSize] by (simp add: kBlockTrailerSize_def)
  then show "take (unat (n + kBlockTrailerSize)) (drop (unat off) whole) = raw_block data t"
    "unat off + unat (n + kBlockTrailerSize) \<le> length whole"
    "unat (n + kBlockTrailerSize) = length data + 5"
    using assms by simp_all
qed

lemma ReadBlock_raw:
  assumes "readable file (before @ raw_block data t @ rest)" "unat (bh_offset h) = length before"
    "unat (bh_size h) = length data"
  shows "\<exists>scratch. ReadBlock snappy file verify h = block_data_of snappy (raw_block data t) (length data) scratch"
proof -
  note parts = raw_block_parts [OF refl assms(2,3) readable_length [OF assms(1)]]
  obtain scratch where r: "RandomAccessFile_Read file (bh_offset h) (bh_size h + kBlockTrailerSize) =
      Some (Status_OK, raw_block data t, scratch)"
    using readable_read [OF assms(1) parts(2)] parts(1) by auto
  have "DecodeFixed32 (drop (length data + 1) (raw_block data t)) =
      Some (crc_Mask (crc32c 0 (data @ [compression_byte t])))"
    "take (length data + 1) (raw_block data t) = data @ [compression_byte t]"
    by (simp_all add: raw_block_def)
  then have "ReadBlock snappy file verify h = block_data_of snappy (raw_block data t) (length data) scratch"
    unfolding ReadBlock_def by (simp add: Let_def r parts(3) assms(3) crc_Value_def Extend_crc32c)
  then show ?thesis ..
qed

lemma ReadBlock_plain:
  assumes "readable file (before @ raw_block data kNoCompression @ rest)" "unat (bh_offset h) = length before"
    "unat (bh_size h) = length data"
  shows "\<exists>scratch. ReadBlock snappy file verify h =
     Some (Status_OK, \<lparr>bc_data = data, bc_cachable = scratch, bc_heap_allocated = scratch\<rparr>)"
  using ReadBlock_raw [OF assms, of snappy verify]
  by (auto simp: block_data_of_def raw_block_def nth_opt_def)

text \<open>
  What the Snappy library promises, and the code relies on: what was compressed uncompresses.
\<close>

definition snappy_ok :: "Snappy \<Rightarrow> bool" where
  "snappy_ok snappy \<longleftrightarrow> (\<forall>raw c. Snappy_Compress snappy raw = Some c \<longrightarrow> length raw < 2 ^ 32 \<longrightarrow>
     Snappy_GetUncompressedLength snappy c = Some (of_nat (length raw)) \<and> Snappy_Uncompress snappy c = Some raw)"

lemma no_snappy_ok: "snappy_ok no_snappy"
  by (simp add: snappy_ok_def no_snappy_def)

lemma ReadBlock_compressed:
  assumes "readable file (before @ raw_block data kSnappyCompression @ rest)" "unat (bh_offset h) = length before"
    "unat (bh_size h) = length data" "snappy_ok snappy" "Snappy_Compress snappy raw = Some data" "length raw < 2 ^ 32"
  shows "ReadBlock snappy file verify h =
     Some (Status_OK, \<lparr>bc_data = raw, bc_cachable = True, bc_heap_allocated = True\<rparr>)"
proof -
  have "unat (of_nat (length raw) :: 64 word) = length raw" using assms(6) by (simp add: unat_of_nat)
  moreover have "Snappy_GetUncompressedLength snappy data = Some (of_nat (length raw))"
    "Snappy_Uncompress snappy data = Some raw" using assms(4-6) by (simp_all add: snappy_ok_def)
  ultimately show ?thesis
    using ReadBlock_raw [OF assms(1-3), of snappy verify]
    by (auto simp: block_data_of_def raw_block_def nth_opt_def)
qed

section \<open>A corrupt handle\<close>

text \<open>
  A handle of a size close to 2^64 wraps in \<open>n + kBlockTrailerSize\<close>: four bytes are read, the length
  test passes, and the type byte is looked for far outside the buffer.
\<close>

lemma ReadBlock_overflow:
  assumes "readable file data" "4 \<le> length data"
  shows "ReadBlock snappy file False \<lparr>bh_offset = 0, bh_size = NOT 0\<rparr> = None"
proof -
  let ?h = "\<lparr>bh_offset = 0, bh_size = NOT 0\<rparr>"
  have w: "bh_size ?h + kBlockTrailerSize = 4" by (simp add: kBlockTrailerSize_def)
  obtain scratch where
    "RandomAccessFile_Read file (bh_offset ?h) (bh_size ?h + kBlockTrailerSize) = Some (Status_OK, take 4 data, scratch)"
    using readable_read [OF assms(1), of 0 4] assms(2) unfolding w by auto
  moreover have "unat (NOT 0 :: 64 word) = 2 ^ 64 - 1" by (simp add: unsigned_minus_1_eq_mask mask_eq_exp_minus_1)
  ultimately show ?thesis
    using assms(2) w unfolding kBlockTrailerSize_def by (simp add: ReadBlock_def Let_def block_data_of_def nth_opt_def
        kBlockTrailerSize_def)
qed

end
