(* ===== verification/LdbBlock.thy ===== *)
theory LdbBlock
  imports LdbComparator LdbStatus
begin

text \<open>
  Blocks of key-value pairs: the builder of \<open>table/block_builder.cc\<close>, and the block and its
  iterator of \<open>table/block.cc\<close>. A pointer into the block is its offset from \<open>data_\<close>. \<open>None\<close> is a
  failed assertion or a read outside the block.
\<close>

section \<open>The builder\<close>

text \<open>\<open>bb_interval\<close> is \<open>options_->block_restart_interval\<close>.\<close>

record BlockBuilder =
  bb_interval :: int
  bb_buffer :: "byte list"
  bb_restarts :: "32 word list"
  bb_counter :: int
  bb_finished :: bool
  bb_last_key :: "byte list"

definition new_BlockBuilder :: "int \<Rightarrow> BlockBuilder option" where
  "new_BlockBuilder interval =
     (if interval \<ge> 1
      then Some \<lparr>bb_interval = interval, bb_buffer = [], bb_restarts = [0], bb_counter = 0,
        bb_finished = False, bb_last_key = []\<rparr>
      else None)"

definition BlockBuilder_Reset :: "BlockBuilder \<Rightarrow> BlockBuilder" where
  "BlockBuilder_Reset b = b\<lparr>bb_buffer := [], bb_restarts := [0], bb_counter := 0, bb_finished := False,
     bb_last_key := []\<rparr>"

definition CurrentSizeEstimate :: "BlockBuilder \<Rightarrow> nat" where
  "CurrentSizeEstimate b = length (bb_buffer b) + length (bb_restarts b) * 4 + 4"

definition BlockBuilder_empty :: "BlockBuilder \<Rightarrow> bool" where
  "BlockBuilder_empty b \<longleftrightarrow> bb_buffer b = []"

definition BlockBuilder_Finish :: "BlockBuilder \<Rightarrow> byte list \<times> BlockBuilder" where
  "BlockBuilder_Finish b =
     (let buffer = PutFixed32 (foldl PutFixed32 (bb_buffer b) (bb_restarts b)) (of_nat (length (bb_restarts b))) in
      (buffer, b\<lparr>bb_buffer := buffer, bb_finished := True\<rparr>))"

definition BlockBuilder_Add ::
  "(byte list \<Rightarrow> byte list \<Rightarrow> int) \<Rightarrow> byte list \<Rightarrow> byte list \<Rightarrow> BlockBuilder \<Rightarrow> BlockBuilder option" where
  "BlockBuilder_Add compare key value b =
     (let last_key_piece = bb_last_key b in
      if bb_finished b \<or> \<not> bb_counter b \<le> bb_interval b \<or>
         \<not> (bb_buffer b = [] \<or> compare key last_key_piece > 0) then None
      else
        let (shared, b) =
              (if bb_counter b < bb_interval b then (common_prefix last_key_piece key, b)
               else (0, b\<lparr>bb_restarts := bb_restarts b @ [of_nat (length (bb_buffer b))], bb_counter := 0\<rparr>));
            non_shared = length key - shared;
            buffer = PutVarint32 (bb_buffer b) (of_nat shared);
            buffer = PutVarint32 buffer (of_nat non_shared);
            buffer = PutVarint32 buffer (of_nat (length value));
            buffer = buffer @ drop shared key @ value;
            last_key = take shared (bb_last_key b) @ drop shared key in
        if last_key \<noteq> key then None
        else Some (b\<lparr>bb_buffer := buffer, bb_last_key := last_key, bb_counter := bb_counter b + 1\<rparr>))"

section \<open>The block\<close>

record Block =
  bl_data :: "byte list"
  bl_size :: nat
  bl_restart_offset :: "32 word"

definition NumRestarts :: "byte list \<Rightarrow> nat \<Rightarrow> 32 word option" where
  "NumRestarts data sz = (if sz \<ge> 4 then DecodeFixed32 (drop (sz - 4) data) else None)"

text \<open>The constructor leaves \<open>restart_offset_\<close> unset when it marks the block as bad; it is then not used.\<close>

definition new_Block :: "byte list \<Rightarrow> Block option" where
  "new_Block data =
     (let sz = length data; bad = \<lparr>bl_data = data, bl_size = 0, bl_restart_offset = 0\<rparr> in
      if sz < 4 then Some bad
      else do { n \<leftarrow> NumRestarts data sz;
                Some (if unat n > (sz - 4) div 4 then bad
                      else \<lparr>bl_data = data, bl_size = sz, bl_restart_offset = of_nat (sz - unat (1 + n) * 4)\<rparr>) })"

text \<open>
  \<open>DecodeEntry\<close> on the bytes from \<open>p\<close> to \<open>limit\<close>: the three numbers and what follows them.
  The sum of the lengths is one of 32 bits.
\<close>

definition DecodeEntry :: "byte list \<Rightarrow> (32 word \<times> 32 word \<times> 32 word \<times> byte list) option" where
  "DecodeEntry p =
     (if length p < 3 then None
      else
        do { (shared, non_shared, value_length, p) \<leftarrow>
               (if (ucast (p ! 0) OR ucast (p ! 1) OR ucast (p ! 2) :: 32 word) < 128
                then Some (ucast (p ! 0), ucast (p ! 1), ucast (p ! 2), drop 3 p)
                else do { (shared, p) \<leftarrow> GetVarint32Ptr p;
                          (non_shared, p) \<leftarrow> GetVarint32Ptr p;
                          (value_length, p) \<leftarrow> GetVarint32Ptr p;
                          Some (shared, non_shared, value_length, p) });
             if of_nat (length p) < non_shared + value_length then None
             else Some (shared, non_shared, value_length, p) })"

section \<open>The iterator\<close>

text \<open>
  \<open>bi_value\<close> is the slice \<open>value_\<close> as offset and length; \<open>None\<close> is a slice that does not point
  into the block (the empty one the iterator starts with, and the one an error leaves).
\<close>

record BlockIter =
  bi_data :: "byte list"
  bi_restarts :: "32 word"
  bi_num_restarts :: "32 word"
  bi_current :: "32 word"
  bi_restart_index :: "32 word"
  bi_key :: "byte list"
  bi_value :: "(nat \<times> nat) option"
  bi_status :: Status

definition new_BlockIter :: "byte list \<Rightarrow> 32 word \<Rightarrow> 32 word \<Rightarrow> BlockIter option" where
  "new_BlockIter data restarts num_restarts =
     (if num_restarts > 0
      then Some \<lparr>bi_data = data, bi_restarts = restarts, bi_num_restarts = num_restarts, bi_current = restarts,
        bi_restart_index = num_restarts, bi_key = [], bi_value = None, bi_status = Status_OK\<rparr>
      else None)"

text \<open>\<open>NewIterator\<close>: an iterator, or the empty one with its status.\<close>

definition Block_NewIterator :: "Block \<Rightarrow> (Status + BlockIter) option" where
  "Block_NewIterator b =
     (if bl_size b < 4 then Some (Inl (Corruption ''bad block contents'' []))
      else do { num_restarts \<leftarrow> NumRestarts (bl_data b) (bl_size b);
                if num_restarts = 0 then Some (Inl Status_OK)
                else do { it \<leftarrow> new_BlockIter (bl_data b) (bl_restart_offset b) num_restarts; Some (Inr it) } })"

definition BlockIter_Valid :: "BlockIter \<Rightarrow> bool" where
  "BlockIter_Valid it \<longleftrightarrow> bi_current it < bi_restarts it"

definition BlockIter_key :: "BlockIter \<Rightarrow> byte list option" where
  "BlockIter_key it = (if BlockIter_Valid it then Some (bi_key it) else None)"

text \<open>The slice's bytes, which must all be in the block.\<close>

definition BlockIter_value :: "BlockIter \<Rightarrow> byte list option" where
  "BlockIter_value it =
     (if BlockIter_Valid it
      then do { (off, len) \<leftarrow> bi_value it;
                if off + len \<le> length (bi_data it) then Some (take len (drop off (bi_data it))) else None }
      else None)"

definition NextEntryOffset :: "BlockIter \<Rightarrow> 32 word option" where
  "NextEntryOffset it = do { (off, len) \<leftarrow> bi_value it; Some (of_nat (off + len)) }"

definition GetRestartPoint :: "BlockIter \<Rightarrow> 32 word \<Rightarrow> 32 word option" where
  "GetRestartPoint it index =
     (if index < bi_num_restarts it
      then DecodeFixed32 (drop (unat (bi_restarts it) + unat index * 4) (bi_data it)) else None)"

definition SeekToRestartPoint :: "32 word \<Rightarrow> BlockIter \<Rightarrow> BlockIter option" where
  "SeekToRestartPoint index it =
     do { off \<leftarrow> GetRestartPoint it index;
          Some (it\<lparr>bi_key := [], bi_restart_index := index, bi_value := Some (unat off, 0)\<rparr>) }"

definition CorruptionError :: "BlockIter \<Rightarrow> BlockIter" where
  "CorruptionError it = it\<lparr>bi_current := bi_restarts it, bi_restart_index := bi_num_restarts it,
     bi_status := Corruption ''bad entry in block'' [], bi_key := [], bi_value := None\<rparr>"

lemma index_up: "i + 1 < (n :: 32 word) \<Longrightarrow> unat (n - (i + 1) - 1) < unat (n - i - 1)"
proof -
  assume "i + 1 < n"
  then have "n - i - 1 \<noteq> 0" by (auto simp: algebra_simps)
  from measure_unat [OF this] show ?thesis by (simp add: algebra_simps)
qed

text \<open>The loop that moves \<open>restart_index_\<close> up to the entry.\<close>

function advance_restart :: "BlockIter \<Rightarrow> BlockIter option" where
  "advance_restart it =
     (if bi_restart_index it + 1 < bi_num_restarts it then
        (case GetRestartPoint it (bi_restart_index it + 1) of
           None \<Rightarrow> None
         | Some off \<Rightarrow>
             if off < bi_current it then advance_restart (it\<lparr>bi_restart_index := bi_restart_index it + 1\<rparr>)
             else Some it)
      else Some it)"
  by pat_completeness auto

termination
  by (relation "measure (\<lambda>it. unat (bi_num_restarts it - bi_restart_index it - 1))") (auto dest: index_up)

declare advance_restart.simps [simp del]

definition ParseNextKey :: "BlockIter \<Rightarrow> (bool \<times> BlockIter) option" where
  "ParseNextKey it =
     do { off \<leftarrow> NextEntryOffset it;
          let it = it\<lparr>bi_current := off\<rparr>;
          if off \<ge> bi_restarts it
          then Some (False, it\<lparr>bi_current := bi_restarts it, bi_restart_index := bi_num_restarts it\<rparr>)
          else
            (case DecodeEntry (take (unat (bi_restarts it) - unat off) (drop (unat off) (bi_data it))) of
               None \<Rightarrow> Some (False, CorruptionError it)
             | Some (shared, non_shared, value_length, p) \<Rightarrow>
                 if length (bi_key it) < unat shared then Some (False, CorruptionError it)
                 else
                   let pos = unat (bi_restarts it) - length p in
                   if pos + unat non_shared > length (bi_data it) then None
                   else do { it \<leftarrow> advance_restart (it\<lparr>
                               bi_key := take (unat shared) (bi_key it) @ take (unat non_shared) (drop pos (bi_data it)),
                               bi_value := Some (pos + unat non_shared, unat value_length)\<rparr>);
                             Some (True, it) }) }"

definition BlockIter_Next :: "BlockIter \<Rightarrow> BlockIter option" where
  "BlockIter_Next it = (if BlockIter_Valid it then map_option snd (ParseNextKey it) else None)"

definition BlockIter_SeekToFirst :: "BlockIter \<Rightarrow> BlockIter option" where
  "BlockIter_SeekToFirst it = do { it \<leftarrow> SeekToRestartPoint 0 it; map_option snd (ParseNextKey it) }"

section \<open>Every entry is behind the one before\<close>

lemma GetVarint32Ptr_shorter: "GetVarint32Ptr p = Some (v, q) \<Longrightarrow> length q < length p"
  using takes_prefix_shorter [OF GetVarint32_takes, of p v q] by (simp add: GetVarint32_def)

lemma DecodeEntry_bounds:
  assumes "DecodeEntry p = Some (shared, non_shared, value_length, q)"
  shows "length q + 3 \<le> length p \<and> \<not> of_nat (length q) < non_shared + value_length"
  using assms by (auto simp: DecodeEntry_def Let_def split: if_splits Option.bind_splits dest!: GetVarint32Ptr_shorter)

lemma advance_restart_keeps:
  "advance_restart it = Some it' \<Longrightarrow> \<exists>i. it' = it\<lparr>bi_restart_index := i\<rparr>"
proof (induction it rule: advance_restart.induct)
  case (1 it)
  from 1(2) show ?case
    unfolding advance_restart.simps [of it]
    by (auto split: if_splits option.splits intro: exI [of _ "bi_restart_index it"] dest!: 1(1))
qed

lemma ParseNextKey_progress:
  assumes "ParseNextKey it = Some (True, it')"
  shows "\<exists>o1 o2. NextEntryOffset it = Some o1 \<and> NextEntryOffset it' = Some o2 \<and> o1 < o2 \<and> o2 \<le> bi_restarts it \<and>
     bi_current it' = o1 \<and> o1 < bi_restarts it \<and> bi_restarts it' = bi_restarts it"
proof -
  obtain o1 where o1: "NextEntryOffset it = Some o1" "o1 < bi_restarts it"
    using assms by (auto simp: ParseNextKey_def Let_def not_le split: Option.bind_splits if_splits)
  obtain sh ns vl q where d: "DecodeEntry (take (unat (bi_restarts it) - unat o1) (drop (unat o1) (bi_data it))) =
      Some (sh, ns, vl, q)"
    using assms o1 by (auto simp: ParseNextKey_def Let_def split: Option.bind_splits if_splits option.splits)
  define pos where "pos = unat (bi_restarts it) - length q"
  have it': "bi_current it' = o1 \<and> bi_restarts it' = bi_restarts it \<and> bi_value it' = Some (pos + unat ns, unat vl)"
    using assms o1 d unfolding ParseNextKey_def pos_def
    by (auto simp: Let_def not_le [symmetric] split: if_splits Option.bind_splits dest!: advance_restart_keeps)
  have o: "unat o1 < unat (bi_restarts it)" "unat (bi_restarts it) < 2 ^ 32"
    using o1(2) unat_32 by (simp_all add: word_less_nat_alt)
  have q: "length q + 3 \<le> unat (bi_restarts it) - unat o1" "\<not> of_nat (length q) < ns + vl"
    using DecodeEntry_bounds [OF d] by auto
  then have s: "unat (ns + vl) \<le> length q"
    using o unat_of_length [of "length q"] by (simp add: word_less_nat_alt)
  have w: "of_nat (pos + unat ns + unat vl) = (of_nat (pos + unat (ns + vl)) :: 32 word)" by simp
  have u: "pos + unat (ns + vl) \<le> unat (bi_restarts it)" "unat o1 < pos" using s q o by (auto simp: pos_def)
  then have "unat (of_nat (pos + unat (ns + vl)) :: 32 word) = pos + unat (ns + vl)"
    using o by (intro unat_of_length) simp
  moreover have "NextEntryOffset it' = Some (of_nat (pos + unat (ns + vl)))"
    using it' by (simp add: NextEntryOffset_def)
  ultimately show ?thesis using o1 u it' by (simp add: word_less_nat_alt word_le_nat_alt)
qed

definition parse_left :: "BlockIter \<Rightarrow> nat" where
  "parse_left it = (case NextEntryOffset it of None \<Rightarrow> 0 | Some off \<Rightarrow> unat (bi_restarts it) - unat off)"

lemma ParseNextKey_left:
  assumes "ParseNextKey it = Some (True, it')"
  shows "parse_left it' < parse_left it"
proof -
  obtain o1 o2 where "NextEntryOffset it = Some o1" "NextEntryOffset it' = Some o2" "o1 < o2"
    "o1 < bi_restarts it" "bi_restarts it' = bi_restarts it"
    using ParseNextKey_progress [OF assms] by blast
  then show ?thesis by (simp add: parse_left_def word_less_nat_alt)
qed

section \<open>Moving by more than an entry\<close>

text \<open>\<open>SeekToLast\<close>: entries are parsed until one ends at the restart array.\<close>

function parse_until :: "32 word \<Rightarrow> BlockIter \<Rightarrow> BlockIter option" where
  "parse_until limit it =
     (case ParseNextKey it of
        None \<Rightarrow> None
      | Some (False, it) \<Rightarrow> Some it
      | Some (True, it) \<Rightarrow>
          (case NextEntryOffset it of
             None \<Rightarrow> None
           | Some off \<Rightarrow> if off < limit then parse_until limit it else Some it))"
  by pat_completeness auto
termination
  by (relation "measure (\<lambda>(limit, it). parse_left it)") (auto dest: ParseNextKey_left)

declare parse_until.simps [simp del]

definition BlockIter_SeekToLast :: "BlockIter \<Rightarrow> BlockIter option" where
  "BlockIter_SeekToLast it =
     do { it \<leftarrow> SeekToRestartPoint (bi_num_restarts it - 1) it; parse_until (bi_restarts it) it }"

text \<open>\<open>Prev\<close>: first to a restart point before the entry; \<open>None\<close> inside is that there is none.\<close>

function restart_before :: "32 word \<Rightarrow> BlockIter \<Rightarrow> 32 word \<Rightarrow> 32 word option option" where
  "restart_before original it i =
     (case GetRestartPoint it i of
        None \<Rightarrow> None
      | Some off \<Rightarrow>
          if off \<ge> original then (if i = 0 then Some None else restart_before original it (i - 1))
          else Some (Some i))"
  by pat_completeness auto
termination
  by (relation "measure (\<lambda>(original, it, i). unat i)") (auto simp: measure_unat)

declare restart_before.simps [simp del]

definition BlockIter_Prev :: "BlockIter \<Rightarrow> BlockIter option" where
  "BlockIter_Prev it =
     (if \<not> BlockIter_Valid it then None
      else
        (let original = bi_current it in
         case restart_before original it (bi_restart_index it) of
           None \<Rightarrow> None
         | Some None \<Rightarrow> Some (it\<lparr>bi_current := bi_restarts it, bi_restart_index := bi_num_restarts it\<rparr>)
         | Some (Some i) \<Rightarrow> do { it \<leftarrow> SeekToRestartPoint i (it\<lparr>bi_restart_index := i\<rparr>); parse_until original it }))"

text \<open>
  The binary search of \<open>Seek\<close> for the last restart point whose key is below the target. The sum
  \<open>left + right + 1\<close> is one of 32 bits, so with 2^31 restart points or more the loop might not
  end; \<open>Inl\<close> is an entry that cannot be read, or a key that shares a prefix there.
\<close>

partial_function (option) seek_restart ::
  "(byte list \<Rightarrow> byte list \<Rightarrow> int) \<Rightarrow> byte list \<Rightarrow> BlockIter \<Rightarrow> 32 word \<Rightarrow> 32 word \<Rightarrow> (unit + 32 word) option" where
  "seek_restart compare target it left right =
     (if left < right then
        (let mid = (left + right + 1) div 2 in
         do { region_offset \<leftarrow> GetRestartPoint it mid;
              case DecodeEntry (take (unat (bi_restarts it) - unat region_offset)
                (drop (unat region_offset) (bi_data it))) of
                None \<Rightarrow> Some (Inl ())
              | Some (shared, non_shared, value_length, p) \<Rightarrow>
                  if shared \<noteq> 0 then Some (Inl ())
                  else
                    let pos = unat (bi_restarts it) - length p in
                    if pos + unat non_shared > length (bi_data it) then None
                    else if compare (take (unat non_shared) (drop pos (bi_data it))) target < 0
                    then seek_restart compare target it mid right
                    else seek_restart compare target it left (mid - 1) })
      else Some (Inr left))"

function seek_linear :: "(byte list \<Rightarrow> byte list \<Rightarrow> int) \<Rightarrow> byte list \<Rightarrow> BlockIter \<Rightarrow> BlockIter option" where
  "seek_linear compare target it =
     (case ParseNextKey it of
        None \<Rightarrow> None
      | Some (False, it) \<Rightarrow> Some it
      | Some (True, it) \<Rightarrow> if compare (bi_key it) target \<ge> 0 then Some it else seek_linear compare target it)"
  by pat_completeness auto
termination
  by (relation "measure (\<lambda>(compare, target, it). parse_left it)") (auto dest: ParseNextKey_left)

declare seek_linear.simps [simp del]

definition BlockIter_Seek :: "(byte list \<Rightarrow> byte list \<Rightarrow> int) \<Rightarrow> byte list \<Rightarrow> BlockIter \<Rightarrow> BlockIter option" where
  "BlockIter_Seek compare target it =
     do { r \<leftarrow> seek_restart compare target it 0 (bi_num_restarts it - 1);
          case r of
            Inl _ \<Rightarrow> Some (CorruptionError it)
          | Inr left \<Rightarrow> do { it \<leftarrow> SeekToRestartPoint left it; seek_linear compare target it } }"

end
