(* ===== verification/LdbTableBuilder.thy ===== *)
theory LdbTableBuilder
  imports LdbTableFormat LdbBlock LdbFilterBlock
begin

text \<open>
  The builder of table files (\<open>table/table_builder.cc\<close>) over a file of \<open>LdbEnv\<close>, and the options it
  uses (\<open>include/leveldb/options.h\<close>). The methods of a comparator and of a filter policy are
  functions; those of the internal comparator are the total ones of \<open>LdbFormat\<close>, defined as the code
  on the keys it may be given. \<open>None\<close> is a failed assertion.
\<close>

section \<open>Options\<close>

text \<open>\<open>cmp_address\<close> tells comparators apart, as the pointer does.\<close>

record Comparator =
  cmp_address :: nat
  cmp_Compare :: "byte list \<Rightarrow> byte list \<Rightarrow> int"
  cmp_FindShortestSeparator :: "byte list \<Rightarrow> byte list \<Rightarrow> byte list"
  cmp_FindShortSuccessor :: "byte list \<Rightarrow> byte list"

record FilterPolicy =
  fp_Name :: "byte list"
  fp_CreateFilter :: create_filter
  fp_KeyMayMatch :: match_filter

text \<open>Without the environment, the log for messages and the block cache, which are objects of their own.\<close>

record Options =
  opt_comparator :: Comparator
  opt_create_if_missing :: bool
  opt_error_if_exists :: bool
  opt_paranoid_checks :: bool
  opt_write_buffer_size :: "64 word"
  opt_max_open_files :: int
  opt_block_size :: nat
  opt_block_restart_interval :: int
  opt_max_file_size :: "64 word"
  opt_compression :: CompressionType
  opt_reuse_logs :: bool
  opt_filter_policy :: "FilterPolicy option"

section \<open>The builder\<close>

text \<open>
  \<open>Rep\<close>. The block builders' options are those of \<open>tb_options\<close>, with interval 1 for the index;
  \<open>compressed_output\<close> is empty between calls and left out.
\<close>

record TableBuilder =
  tb_options :: Options
  tb_file :: PosixFile
  tb_offset :: "64 word"
  tb_status :: Status
  tb_data_block :: BlockBuilder
  tb_index_block :: BlockBuilder
  tb_last_key :: "byte list"
  tb_num_entries :: int
  tb_closed :: bool
  tb_filter_block :: "(FilterPolicy \<times> FilterBlockBuilder) option"
  tb_pending_index_entry :: bool
  tb_pending_handle :: BlockHandle

abbreviation (input) tb_compare :: "TableBuilder \<Rightarrow> byte list \<Rightarrow> byte list \<Rightarrow> int" where
  "tb_compare t \<equiv> cmp_Compare (opt_comparator (tb_options t))"

definition filter_StartBlock :: "64 word \<Rightarrow> TableBuilder \<Rightarrow> TableBuilder option" where
  "filter_StartBlock off t =
     (case tb_filter_block t of
        None \<Rightarrow> Some t
      | Some (policy, fb) \<Rightarrow>
          do { fb \<leftarrow> StartBlock (fp_CreateFilter policy) off fb;
               Some (t\<lparr>tb_filter_block := Some (policy, fb)\<rparr>) })"

definition new_TableBuilder :: "Options \<Rightarrow> PosixFile \<Rightarrow> TableBuilder option" where
  "new_TableBuilder options file =
     do { data_block \<leftarrow> new_BlockBuilder (opt_block_restart_interval options);
          index_block \<leftarrow> new_BlockBuilder 1;
          filter_StartBlock 0 \<lparr>tb_options = options, tb_file = file, tb_offset = 0, tb_status = Status_OK,
            tb_data_block = data_block, tb_index_block = index_block, tb_last_key = [], tb_num_entries = 0,
            tb_closed = False,
            tb_filter_block = map_option (\<lambda>policy. (policy, new_FilterBlockBuilder)) (opt_filter_policy options),
            tb_pending_index_entry = False, tb_pending_handle = new_BlockHandle\<rparr> }"

definition ChangeOptions :: "Options \<Rightarrow> TableBuilder \<Rightarrow> Status \<times> TableBuilder" where
  "ChangeOptions options t =
     (if cmp_address (opt_comparator options) \<noteq> cmp_address (opt_comparator (tb_options t))
      then (InvalidArgument ''changing comparator while building table'' [], t)
      else (Status_OK, t\<lparr>tb_options := options,
        tb_data_block := (tb_data_block t)\<lparr>bb_interval := opt_block_restart_interval options\<rparr>\<rparr>))"

definition WriteRawBlock ::
  "byte list \<Rightarrow> CompressionType \<Rightarrow> TableBuilder \<Rightarrow> (BlockHandle \<times> TableBuilder) option" where
  "WriteRawBlock block_contents type t =
     (let handle = \<lparr>bh_offset = tb_offset t, bh_size = of_nat (length block_contents)\<rparr>;
          (s, file) = WritableFile_Append block_contents (tb_file t);
          t = t\<lparr>tb_file := file, tb_status := s\<rparr> in
      if \<not> status_ok s then Some (handle, t)
      else
        do { crc \<leftarrow> crc_Value 0 block_contents;
             crc \<leftarrow> Extend 0 crc [compression_byte type];
             let trailer = compression_byte type # EncodeFixed32 (crc_Mask crc);
             let (s, file) = WritableFile_Append trailer (tb_file t);
             let t = t\<lparr>tb_file := file, tb_status := s\<rparr>;
             Some (handle,
               if status_ok s then t\<lparr>tb_offset := tb_offset t + of_nat (length block_contents) + kBlockTrailerSize\<rparr>
               else t) })"

text \<open>What is stored of a block, and how: compressed only if that saves an eighth.\<close>

definition compressed_form :: "Snappy \<Rightarrow> CompressionType \<Rightarrow> byte list \<Rightarrow> byte list \<times> CompressionType" where
  "compressed_form snappy type raw =
     (case type of
        kNoCompression \<Rightarrow> (raw, type)
      | kSnappyCompression \<Rightarrow>
          (case Snappy_Compress snappy raw of
             None \<Rightarrow> (raw, kNoCompression)
           | Some compressed \<Rightarrow>
               if length compressed < length raw - length raw div 8 then (compressed, type)
               else (raw, kNoCompression)))"

definition WriteBlock ::
  "Snappy \<Rightarrow> BlockBuilder \<Rightarrow> TableBuilder \<Rightarrow> (BlockHandle \<times> BlockBuilder \<times> TableBuilder) option" where
  "WriteBlock snappy block t =
     (if \<not> status_ok (tb_status t) then None
      else
        (let (raw, block) = BlockBuilder_Finish block;
             (block_contents, type) = compressed_form snappy (opt_compression (tb_options t)) raw in
         do { (handle, t) \<leftarrow> WriteRawBlock block_contents type t;
              Some (handle, BlockBuilder_Reset block, t) }))"

definition TableBuilder_Flush :: "Snappy \<Rightarrow> TableBuilder \<Rightarrow> TableBuilder option" where
  "TableBuilder_Flush snappy t =
     (if tb_closed t then None
      else if \<not> status_ok (tb_status t) then Some t
      else if BlockBuilder_empty (tb_data_block t) then Some t
      else if tb_pending_index_entry t then None
      else
        do { (handle, block, t) \<leftarrow> WriteBlock snappy (tb_data_block t) t;
             let t = t\<lparr>tb_data_block := block, tb_pending_handle := handle\<rparr>;
             let t = (if status_ok (tb_status t)
                      then t\<lparr>tb_pending_index_entry := True, tb_status := WritableFile_Flush (tb_file t)\<rparr> else t);
             filter_StartBlock (tb_offset t) t })"

text \<open>The index entry of the block before, under the key \<open>last_key\<close>.\<close>

definition add_index_entry :: "byte list \<Rightarrow> TableBuilder \<Rightarrow> TableBuilder option" where
  "add_index_entry last_key t =
     do { handle_encoding \<leftarrow> BlockHandle_EncodeTo (tb_pending_handle t) [];
          index_block \<leftarrow> BlockBuilder_Add (tb_compare t) last_key handle_encoding (tb_index_block t);
          Some (t\<lparr>tb_last_key := last_key, tb_index_block := index_block, tb_pending_index_entry := False\<rparr>) }"

definition filter_AddKey :: "byte list \<Rightarrow> TableBuilder \<Rightarrow> TableBuilder" where
  "filter_AddKey key t = t\<lparr>tb_filter_block := map_option (\<lambda>(policy, fb). (policy, AddKey key fb)) (tb_filter_block t)\<rparr>"

definition TableBuilder_Add :: "Snappy \<Rightarrow> byte list \<Rightarrow> byte list \<Rightarrow> TableBuilder \<Rightarrow> TableBuilder option" where
  "TableBuilder_Add snappy key value t =
     (if tb_closed t then None
      else if \<not> status_ok (tb_status t) then Some t
      else if tb_num_entries t > 0 \<and> \<not> tb_compare t key (tb_last_key t) > 0 then None
      else
        do { t \<leftarrow> (if tb_pending_index_entry t then
                     if \<not> BlockBuilder_empty (tb_data_block t) then None
                     else add_index_entry
                       (cmp_FindShortestSeparator (opt_comparator (tb_options t)) (tb_last_key t) key) t
                   else Some t);
             let t = filter_AddKey key t;
             let t = t\<lparr>tb_last_key := key, tb_num_entries := tb_num_entries t + 1\<rparr>;
             data_block \<leftarrow> BlockBuilder_Add (tb_compare t) key value (tb_data_block t);
             let t = t\<lparr>tb_data_block := data_block\<rparr>;
             if CurrentSizeEstimate data_block \<ge> opt_block_size (tb_options t)
             then TableBuilder_Flush snappy t else Some t })"

text \<open>The four parts of \<open>Finish\<close>, each if all is well so far.\<close>

definition write_filter_block :: "TableBuilder \<Rightarrow> (BlockHandle \<times> TableBuilder) option" where
  "write_filter_block t =
     (case tb_filter_block t of
        None \<Rightarrow> Some (new_BlockHandle, t)
      | Some (policy, fb) \<Rightarrow>
          if status_ok (tb_status t) then
            do { (filter, fb) \<leftarrow> FilterBlock_Finish (fp_CreateFilter policy) fb;
                 WriteRawBlock filter kNoCompression (t\<lparr>tb_filter_block := Some (policy, fb)\<rparr>) }
          else Some (new_BlockHandle, t))"

definition bytes_of :: "string \<Rightarrow> byte list" where
  "bytes_of s = map (\<lambda>c. of_nat (of_char c)) s"

definition write_metaindex_block :: "Snappy \<Rightarrow> BlockHandle \<Rightarrow> TableBuilder \<Rightarrow> (BlockHandle \<times> TableBuilder) option" where
  "write_metaindex_block snappy filter_block_handle t =
     (if \<not> status_ok (tb_status t) then Some (new_BlockHandle, t)
      else
        do { meta_index_block \<leftarrow> new_BlockBuilder (opt_block_restart_interval (tb_options t));
             meta_index_block \<leftarrow>
               (case tb_filter_block t of
                  None \<Rightarrow> Some meta_index_block
                | Some _ \<Rightarrow>
                    do { policy \<leftarrow> opt_filter_policy (tb_options t);
                         let key = bytes_of ''filter.'' @ fp_Name policy;
                         handle_encoding \<leftarrow> BlockHandle_EncodeTo filter_block_handle [];
                         BlockBuilder_Add (tb_compare t) key handle_encoding meta_index_block });
             (handle, block, t) \<leftarrow> WriteBlock snappy meta_index_block t;
             Some (handle, t) })"

definition write_index_block :: "Snappy \<Rightarrow> TableBuilder \<Rightarrow> (BlockHandle \<times> TableBuilder) option" where
  "write_index_block snappy t =
     (if \<not> status_ok (tb_status t) then Some (new_BlockHandle, t)
      else
        do { t \<leftarrow> (if tb_pending_index_entry t
                   then add_index_entry (cmp_FindShortSuccessor (opt_comparator (tb_options t)) (tb_last_key t)) t
                   else Some t);
             (handle, block, t) \<leftarrow> WriteBlock snappy (tb_index_block t) t;
             Some (handle, t\<lparr>tb_index_block := block\<rparr>) })"

definition write_footer :: "BlockHandle \<Rightarrow> BlockHandle \<Rightarrow> TableBuilder \<Rightarrow> TableBuilder option" where
  "write_footer metaindex index t =
     (if \<not> status_ok (tb_status t) then Some t
      else
        do { footer_encoding \<leftarrow> Footer_EncodeTo \<lparr>ft_metaindex_handle = metaindex, ft_index_handle = index\<rparr> [];
             let (s, file) = WritableFile_Append footer_encoding (tb_file t);
             let t = t\<lparr>tb_file := file, tb_status := s\<rparr>;
             Some (if status_ok s then t\<lparr>tb_offset := tb_offset t + of_nat (length footer_encoding)\<rparr> else t) })"

definition TableBuilder_Finish :: "Snappy \<Rightarrow> TableBuilder \<Rightarrow> (Status \<times> TableBuilder) option" where
  "TableBuilder_Finish snappy t =
     do { t \<leftarrow> TableBuilder_Flush snappy t;
          if tb_closed t then None
          else
            do { let t = t\<lparr>tb_closed := True\<rparr>;
                 (filter_block_handle, t) \<leftarrow> write_filter_block t;
                 (metaindex_block_handle, t) \<leftarrow> write_metaindex_block snappy filter_block_handle t;
                 (index_block_handle, t) \<leftarrow> write_index_block snappy t;
                 t \<leftarrow> write_footer metaindex_block_handle index_block_handle t;
                 Some (tb_status t, t) } }"

definition Abandon :: "TableBuilder \<Rightarrow> TableBuilder option" where
  "Abandon t = (if tb_closed t then None else Some (t\<lparr>tb_closed := True\<rparr>))"

definition NumEntries :: "TableBuilder \<Rightarrow> 64 word" where
  "NumEntries t = of_int (tb_num_entries t)"

definition FileSize :: "TableBuilder \<Rightarrow> 64 word" where
  "FileSize t = tb_offset t"

end
