(* ===== verification/LdbIterator.thy ===== *)
theory LdbIterator
  imports LdbComparator LdbStatus
begin

text \<open>
  The \<open>Iterator\<close> interface of \<open>include/leveldb/iterator.h\<close>: a position in a sorted list of
  key-value pairs, or past it. The \<open>assumes\<close> of the locale are what that header promises of each
  operation; \<open>None\<close> is a failed assertion.
\<close>

type_synonym pair = "byte list \<times> byte list"

text \<open>Where \<open>Seek\<close> goes: the first pair whose key is not below the target.\<close>

definition seek_index :: "(byte list \<Rightarrow> byte list \<Rightarrow> int) \<Rightarrow> byte list \<Rightarrow> pair list \<Rightarrow> nat" where
  "seek_index cmp target kvs = length (takeWhile (\<lambda>e. cmp (fst e) target < 0) kvs)"

lemma seek_index_le: "seek_index cmp target kvs \<le> length kvs"
  by (simp add: seek_index_def length_takeWhile_le)

lemma seek_index_below: "i < seek_index cmp target kvs \<Longrightarrow> cmp (fst (kvs ! i)) target < 0"
  using set_takeWhileD [of "takeWhile (\<lambda>e. cmp (fst e) target < 0) kvs ! i"] nth_mem
  by (fastforce simp: seek_index_def takeWhile_nth)

lemma seek_index_at: "seek_index cmp target kvs < length kvs \<Longrightarrow> \<not> cmp (fst (kvs ! seek_index cmp target kvs)) target < 0"
  unfolding seek_index_def by (rule nth_length_takeWhile)

text \<open>Of a sorted list the elements below a place are the first ones.\<close>

lemma filter_prefix:
  assumes "sorted_wrt R xs" "\<And>x y. x \<in> set xs \<Longrightarrow> y \<in> set xs \<Longrightarrow> R x y \<Longrightarrow> P y \<Longrightarrow> P x" "j < length xs"
  shows "P (xs ! j) \<longleftrightarrow> j < length (filter P xs)"
  using assms
proof (induction xs arbitrary: j)
  case (Cons x xs)
  show ?case
  proof (cases "P x")
    case True
    then show ?thesis using Cons by (cases j) auto
  next
    case False
    then have "\<not> P y" if "y \<in> set xs" for y using Cons.prems(1,2) that by auto
    then show ?thesis using False Cons.prems(3) by (cases j) (auto simp: filter_empty_conv)
  qed
qed simp

locale iterator =
  fixes at :: "pair list \<Rightarrow> 'it \<Rightarrow> nat \<Rightarrow> bool"
    and Valid :: "'it \<Rightarrow> bool" and key_of :: "'it \<Rightarrow> byte list option" and value_of :: "'it \<Rightarrow> byte list option"
    and Next :: "'it \<Rightarrow> 'it option" and Prev :: "'it \<Rightarrow> 'it option"
    and SeekToFirst :: "'it \<Rightarrow> 'it option" and SeekToLast :: "'it \<Rightarrow> 'it option"
    and Seek :: "byte list \<Rightarrow> 'it \<Rightarrow> 'it option"
    and K :: "byte list \<Rightarrow> bool" and cmp :: "byte list \<Rightarrow> byte list \<Rightarrow> int"
  assumes at_valid: "at kvs it i \<Longrightarrow> i \<le> length kvs \<and> (Valid it \<longleftrightarrow> i < length kvs)"
    and at_pair: "at kvs it i \<Longrightarrow> i < length kvs \<Longrightarrow>
      key_of it = Some (fst (kvs ! i)) \<and> value_of it = Some (snd (kvs ! i))"
    and at_next: "at kvs it i \<Longrightarrow> i < length kvs \<Longrightarrow> \<exists>it'. Next it = Some it' \<and> at kvs it' (Suc i)"
    and at_prev: "at kvs it i \<Longrightarrow> i < length kvs \<Longrightarrow>
      \<exists>it'. Prev it = Some it' \<and> at kvs it' (if i = 0 then length kvs else i - 1)"
    and at_first: "at kvs it i \<Longrightarrow> \<exists>it'. SeekToFirst it = Some it' \<and> at kvs it' 0"
    and at_last: "at kvs it i \<Longrightarrow> \<exists>it'. SeekToLast it = Some it' \<and> at kvs it' (length kvs - 1)"
    and at_seek: "at kvs it i \<Longrightarrow> K target \<Longrightarrow>
      \<exists>it'. Seek target it = Some it' \<and> at kvs it' (seek_index cmp target kvs)"

text \<open>What a client reads that goes on with one of the two steps while the iterator is valid.\<close>

fun read_pairs :: "('it \<Rightarrow> bool) \<Rightarrow> ('it \<Rightarrow> byte list option) \<Rightarrow> ('it \<Rightarrow> byte list option) \<Rightarrow>
  ('it \<Rightarrow> 'it option) \<Rightarrow> nat \<Rightarrow> 'it \<Rightarrow> pair list option" where
  "read_pairs valid key val step 0 it = (if valid it then None else Some [])"
| "read_pairs valid key val step (Suc n) it =
     (if \<not> valid it then Some []
      else do { k \<leftarrow> key it; v \<leftarrow> val it; it \<leftarrow> step it; kvs \<leftarrow> read_pairs valid key val step n it; Some ((k, v) # kvs) })"

context iterator
begin

lemma read_forward:
  "at kvs it i \<Longrightarrow> length kvs - i \<le> n \<Longrightarrow> read_pairs Valid key_of value_of Next n it = Some (drop i kvs)"
proof (induction n arbitrary: it i)
  case 0
  with at_valid [OF 0(1)] show ?case by simp
next
  case (Suc n)
  show ?case
  proof (cases "i < length kvs")
    case True
    with at_next [OF Suc(2)] obtain it' where it': "Next it = Some it'" "at kvs it' (Suc i)" by blast
    with Suc(1) [OF this(2)] Suc(3) have "read_pairs Valid key_of value_of Next n it' = Some (drop (Suc i) kvs)" by simp
    with True it'(1) at_valid [OF Suc(2)] at_pair [OF Suc(2) True] show ?thesis
      by (simp add: Cons_nth_drop_Suc [symmetric])
  next
    case False
    with at_valid [OF Suc(2)] show ?thesis by simp
  qed
qed

lemma read_backward:
  "at kvs it i \<Longrightarrow> i < length kvs \<Longrightarrow> i < n \<Longrightarrow>
   read_pairs Valid key_of value_of Prev n it = Some (rev (take (Suc i) kvs))"
proof (induction n arbitrary: it i)
  case (Suc n)
  from at_prev [OF Suc(2,3)] obtain it' where
    it': "Prev it = Some it'" "at kvs it' (if i = 0 then length kvs else i - 1)" by blast
  have rest: "read_pairs Valid key_of value_of Prev n it' = Some (rev (take i kvs))"
  proof (cases "i = 0")
    case True
    with it'(2) at_valid have "\<not> Valid it'" by fastforce
    with True show ?thesis by (cases n) simp_all
  next
    case False
    with Suc(1) [of it' "i - 1"] it'(2) Suc(3,4) show ?thesis by simp
  qed
  with it'(1) at_valid [OF Suc(2)] at_pair [OF Suc(2,3)] Suc(3) show ?case
    by (simp add: take_Suc_conv_app_nth)
qed simp

text \<open>From any position the whole list can be read, in both directions, or what \<open>Seek\<close> leaves of it.\<close>

lemma reads_all:
  assumes "at kvs it i"
  shows "\<exists>f l. SeekToFirst it = Some f \<and> read_pairs Valid key_of value_of Next (length kvs) f = Some kvs \<and>
     SeekToLast it = Some l \<and> read_pairs Valid key_of value_of Prev (length kvs) l = Some (rev kvs)"
proof -
  obtain f where f: "SeekToFirst it = Some f" "at kvs f 0" using at_first [OF assms] by blast
  obtain l where l: "SeekToLast it = Some l" "at kvs l (length kvs - 1)" using at_last [OF assms] by blast
  have "read_pairs Valid key_of value_of Prev (length kvs) l = Some (rev kvs)"
  proof (cases "kvs = []")
    case True
    with at_valid [OF l(2)] show ?thesis by simp
  next
    case False
    then show ?thesis using read_backward [OF l(2)] by simp
  qed
  with f l read_forward [OF f(2)] show ?thesis by simp
qed

lemma seek_index_drop: "drop (seek_index cmp target kvs) kvs = dropWhile (\<lambda>e. cmp (fst e) target < 0) kvs"
  by (simp add: seek_index_def dropWhile_eq_drop)

lemma reads_from:
  assumes "at kvs it i" "K target"
  shows "\<exists>it'. Seek target it = Some it' \<and> read_pairs Valid key_of value_of Next (length kvs) it' =
     Some (dropWhile (\<lambda>e. cmp (fst e) target < 0) kvs)"
proof -
  obtain it' where it': "Seek target it = Some it'" "at kvs it' (seek_index cmp target kvs)"
    using at_seek [OF assms] by blast
  with read_forward [OF it'(2)] show ?thesis by (simp add: seek_index_drop)
qed

lemma fewer_targets:
  assumes "\<And>k. K' k \<Longrightarrow> K k"
  shows "iterator at Valid key_of value_of Next Prev SeekToFirst SeekToLast Seek K' cmp"
  by unfold_locales (rule at_valid at_pair at_next at_prev at_first at_last at_seek [OF _ assms]; assumption)+

end

section \<open>Iterators as values\<close>

text \<open>The methods of an implementation, for the iterators built from others.\<close>

record 'it IteratorOps =
  it_Valid :: "'it \<Rightarrow> bool"
  it_key :: "'it \<Rightarrow> byte list option"
  it_value :: "'it \<Rightarrow> byte list option"
  it_Next :: "'it \<Rightarrow> 'it option"
  it_Prev :: "'it \<Rightarrow> 'it option"
  it_SeekToFirst :: "'it \<Rightarrow> 'it option"
  it_SeekToLast :: "'it \<Rightarrow> 'it option"
  it_Seek :: "byte list \<Rightarrow> 'it \<Rightarrow> 'it option"
  it_status :: "'it \<Rightarrow> Status"

abbreviation (input) iterator_ops ::
  "(pair list \<Rightarrow> 'it \<Rightarrow> nat \<Rightarrow> bool) \<Rightarrow> 'it IteratorOps \<Rightarrow> (byte list \<Rightarrow> bool) \<Rightarrow>
   (byte list \<Rightarrow> byte list \<Rightarrow> int) \<Rightarrow> bool" where
  "iterator_ops at ops \<equiv> iterator at (it_Valid ops) (it_key ops) (it_value ops) (it_Next ops) (it_Prev ops)
     (it_SeekToFirst ops) (it_SeekToLast ops) (it_Seek ops)"

text \<open>
  An iterator or the empty one of \<open>table/iterator.cc\<close> (\<open>Inl\<close>, with its status), as \<open>Iterator*\<close> may
  point to either.
\<close>

definition EmptyIterator :: "'it IteratorOps \<Rightarrow> (Status + 'it) IteratorOps" where
  "EmptyIterator ops =
     \<lparr>it_Valid = case_sum (\<lambda>_. False) (it_Valid ops),
      it_key = case_sum (\<lambda>_. None) (it_key ops),
      it_value = case_sum (\<lambda>_. None) (it_value ops),
      it_Next = case_sum (\<lambda>_. None) (map_option Inr \<circ> it_Next ops),
      it_Prev = case_sum (\<lambda>_. None) (map_option Inr \<circ> it_Prev ops),
      it_SeekToFirst = case_sum (Some \<circ> Inl) (map_option Inr \<circ> it_SeekToFirst ops),
      it_SeekToLast = case_sum (Some \<circ> Inl) (map_option Inr \<circ> it_SeekToLast ops),
      it_Seek = (\<lambda>target. case_sum (Some \<circ> Inl) (map_option Inr \<circ> it_Seek ops target)),
      it_status = case_sum id (it_status ops)\<rparr>"

fun empty_at :: "(pair list \<Rightarrow> 'it \<Rightarrow> nat \<Rightarrow> bool) \<Rightarrow> pair list \<Rightarrow> Status + 'it \<Rightarrow> nat \<Rightarrow> bool" where
  "empty_at at kvs (Inl _) i \<longleftrightarrow> kvs = [] \<and> i = 0"
| "empty_at at kvs (Inr it) i \<longleftrightarrow> at kvs it i"

lemma EmptyIterator_iterator:
  assumes "iterator_ops at ops K cmp"
  shows "iterator_ops (empty_at at) (EmptyIterator ops) K cmp"
proof -
  note a = iterator.at_valid [OF assms] iterator.at_pair [OF assms]
  note b = iterator.at_next [OF assms] iterator.at_prev [OF assms]
  note c = iterator.at_first [OF assms] iterator.at_last [OF assms]
  show ?thesis
  proof
    fix kvs it i assume "empty_at at kvs it i"
    then show "i \<le> length kvs \<and> it_Valid (EmptyIterator ops) it = (i < length kvs)"
      using a(1) by (cases it) (simp_all add: EmptyIterator_def)
  next
    fix kvs it i assume "empty_at at kvs it i" "i < length kvs"
    then show "it_key (EmptyIterator ops) it = Some (fst (kvs ! i)) \<and> it_value (EmptyIterator ops) it = Some (snd (kvs ! i))"
      using a(2) by (cases it) (simp_all add: EmptyIterator_def)
  next
    fix kvs it i assume "empty_at at kvs it i" "i < length kvs"
    then show "\<exists>it'. it_Next (EmptyIterator ops) it = Some it' \<and> empty_at at kvs it' (Suc i)"
      using b(1) by (cases it) (fastforce simp: EmptyIterator_def)+
  next
    fix kvs it i assume "empty_at at kvs it i" "i < length kvs"
    then show "\<exists>it'. it_Prev (EmptyIterator ops) it = Some it' \<and> empty_at at kvs it' (if i = 0 then length kvs else i - 1)"
      using b(2) [of kvs _ i] by (cases it) (force simp: EmptyIterator_def)+
  next
    fix kvs it i assume "empty_at at kvs it i"
    then show "\<exists>it'. it_SeekToFirst (EmptyIterator ops) it = Some it' \<and> empty_at at kvs it' 0"
      using c(1) by (cases it) (fastforce simp: EmptyIterator_def)+
  next
    fix kvs it i assume "empty_at at kvs it i"
    then show "\<exists>it'. it_SeekToLast (EmptyIterator ops) it = Some it' \<and> empty_at at kvs it' (length kvs - 1)"
      using c(2) by (cases it) (fastforce simp: EmptyIterator_def)+
  next
    fix kvs it i target assume "empty_at at kvs it i" "K target"
    then show "\<exists>it'. it_Seek (EmptyIterator ops) target it = Some it' \<and> empty_at at kvs it' (seek_index cmp target kvs)"
      using iterator.at_seek [OF assms, of kvs _ i target]
      by (cases it) (fastforce simp: EmptyIterator_def seek_index_def)+
  qed
qed

end
