(* ===== verification/LdbBlockProof.thy ===== *)
theory LdbBlockProof
  imports LdbBlock LdbIterator LdbFormat
begin

text \<open>
  A block is a sequence of entries: the layout the builder gives it, and the iterator as a
  position in the sequence. \<open>SeekToFirst\<close>, \<open>SeekToLast\<close>, \<open>Next\<close>, \<open>Prev\<close> and \<open>Seek\<close> move to
  the position they should.
\<close>

section \<open>One entry\<close>

lemma GetVarint32Ptr_Encode: "GetVarint32Ptr (EncodeVarint32 v @ rest) = Some (v, rest)"
  using GetVarint32_Encode [of v rest] by (auto simp: GetVarint32_def split: option.splits)

lemma GetVarint32Ptr_small: "b AND 0x80 = 0 \<Longrightarrow> GetVarint32Ptr (b # q) = Some (ucast b, q)"
  using more_bit_iff(1) [of b] by (simp add: GetVarint32Ptr_def Let_def)

lemma or_small:
  assumes "(ucast a OR ucast b OR ucast c :: 32 word) < 128"
  shows "a AND 0x80 = (0 :: byte) \<and> b AND 0x80 = (0 :: byte) \<and> c AND 0x80 = (0 :: byte)"
proof -
  define w where "w = (ucast a OR ucast b OR ucast c :: 32 word)"
  have "bit (unat w) 7 = bit w 7" by (simp add: bit_simps)
  moreover have "unat w div 2 ^ 7 = 0" using assms by (simp add: w_def word_less_nat_alt)
  ultimately have "\<not> bit w 7" by (simp only: bit_iff_odd [of "unat w"]) simp
  then have "\<not> bit (ucast a OR ucast b OR ucast c :: 32 word) 7" by (simp only: w_def not_False_eq_True)
  then show ?thesis using byte_and_0x80 [of a] byte_and_0x80 [of b] byte_and_0x80 [of c] by (auto simp: bit_simps)
qed

text \<open>The fast path of \<open>DecodeEntry\<close> is a special case of the other one.\<close>

lemma DecodeEntry_slow:
  assumes "3 \<le> length p"
  shows "DecodeEntry p =
     do { (shared, p) \<leftarrow> GetVarint32Ptr p;
          (non_shared, p) \<leftarrow> GetVarint32Ptr p;
          (value_length, p) \<leftarrow> GetVarint32Ptr p;
          if of_nat (length p) < non_shared + value_length then None
          else Some (shared, non_shared, value_length, p) }"
proof -
  obtain a b c q where p: "p = a # b # c # q"
    using assms by (auto simp: numeral_3_eq_3 Suc_le_length_iff)
  show ?thesis
  proof (cases "(ucast a OR ucast b OR ucast c :: 32 word) < 128")
    case True
    with or_small [OF True] show ?thesis by (simp add: DecodeEntry_def p GetVarint32Ptr_small)
  next
    case False
    then show ?thesis by (simp add: DecodeEntry_def p split: Option.bind_split)
  qed
qed

type_synonym entry = "nat \<times> byte list \<times> byte list"

text \<open>An entry: how much of its key it shares with the one before, the key and the value.\<close>

abbreviation (input) e_shared :: "entry \<Rightarrow> nat" where "e_shared e \<equiv> fst e"
abbreviation (input) e_key :: "entry \<Rightarrow> byte list" where "e_key e \<equiv> fst (snd e)"
abbreviation (input) e_value :: "entry \<Rightarrow> byte list" where "e_value e \<equiv> snd (snd e)"

definition entry_data :: "entry \<Rightarrow> byte list" where
  "entry_data e = EncodeVarint32 (of_nat (e_shared e)) @ EncodeVarint32 (of_nat (length (e_key e) - e_shared e)) @
     EncodeVarint32 (of_nat (length (e_value e))) @ drop (e_shared e) (e_key e) @ e_value e"

lemma EncodeVarint32_nonempty: "EncodeVarint32 v \<noteq> []"
  by (simp add: EncodeVarint32_leb128 varint_bytes_nonempty)

lemma length_entry_data: "length (entry_data e) \<ge> 3"
  using EncodeVarint32_nonempty [of "of_nat (e_shared e)"]
    EncodeVarint32_nonempty [of "of_nat (length (e_key e) - e_shared e)"]
    EncodeVarint32_nonempty [of "of_nat (length (e_value e))"]
  unfolding entry_data_def by (simp add: neq_Nil_conv) (auto simp: numeral_3_eq_3)

lemma DecodeEntry_entry:
  assumes "length (entry_data e @ rest) < 2 ^ 32" "e_shared e \<le> length (e_key e)" "length (e_key e) < 2 ^ 32"
  shows "DecodeEntry (entry_data e @ rest) =
     Some (of_nat (e_shared e), of_nat (length (e_key e) - e_shared e), of_nat (length (e_value e)),
       drop (e_shared e) (e_key e) @ e_value e @ rest)"
proof -
  define q where "q = drop (e_shared e) (e_key e) @ e_value e @ rest"
  have e: "entry_data e @ rest = EncodeVarint32 (of_nat (e_shared e)) @
      EncodeVarint32 (of_nat (length (e_key e) - e_shared e)) @ EncodeVarint32 (of_nat (length (e_value e))) @ q"
    by (simp add: entry_data_def q_def)
  have "length q < 2 ^ 32" using assms(1) by (simp add: e)
  moreover have "length (e_key e) - e_shared e + length (e_value e) \<le> length q" by (simp add: q_def)
  ultimately have "\<not> of_nat (length q) < (of_nat (length (e_key e) - e_shared e) + of_nat (length (e_value e)) :: 32 word)"
    using unat_of_length [of "length q"] unat_of_length [of "length (e_key e) - e_shared e + length (e_value e)"]
    by (simp add: word_less_nat_alt flip: of_nat_add)
  moreover have "3 \<le> length (entry_data e @ rest)" using length_entry_data [of e] by simp
  ultimately show ?thesis
    by (simp add: DecodeEntry_slow e GetVarint32Ptr_Encode flip: q_def)
qed

section \<open>A block of entries\<close>

definition offs :: "entry list \<Rightarrow> nat \<Rightarrow> nat" where
  "offs es i = length (concat (map entry_data (take i es)))"

definition block_data :: "entry list \<Rightarrow> 32 word list \<Rightarrow> byte list" where
  "block_data es rs = concat (map entry_data es) @ concat (map EncodeFixed32 rs) @ EncodeFixed32 (of_nat (length rs))"

text \<open>What an entry may share with the key before it.\<close>

definition shares :: "byte list \<Rightarrow> entry \<Rightarrow> bool" where
  "shares prev e \<longleftrightarrow> e_shared e \<le> length prev \<and> e_shared e \<le> length (e_key e) \<and>
     take (e_shared e) prev = take (e_shared e) (e_key e)"

definition key_before :: "entry list \<Rightarrow> nat \<Rightarrow> byte list" where
  "key_before es i = (if i = 0 then [] else e_key (es ! (i - 1)))"

text \<open>
  The first restart point is 0, and each is the offset of an entry that shares nothing; a block
  without entries has only the first.
\<close>

definition block_ok :: "entry list \<Rightarrow> 32 word list \<Rightarrow> bool" where
  "block_ok es rs \<longleftrightarrow> length (block_data es rs) < 2 ^ 32 \<and> rs \<noteq> [] \<and> rs ! 0 = 0 \<and>
     (es = [] \<longrightarrow> length rs = 1) \<and> (\<forall>i<length es. shares (key_before es i) (es ! i) \<and> length (e_key (es ! i)) < 2 ^ 32) \<and>
     (\<forall>r<length rs. \<exists>i. rs ! r = of_nat (offs es i) \<and>
        (if es = [] then i = 0 else i < length es \<and> e_shared (es ! i) = 0))"

lemma offs_0 [simp]: "offs es 0 = 0"
  by (simp add: offs_def)

lemma offs_end: "offs es (length es) = length (concat (map entry_data es))"
  by (simp add: offs_def)

lemma offs_beyond: "length es \<le> i \<Longrightarrow> offs es i = offs es (length es)"
  by (simp add: offs_def)

lemma offs_Suc: "i < length es \<Longrightarrow> offs es (Suc i) = offs es i + length (entry_data (es ! i))"
  by (simp add: offs_def take_Suc_conv_app_nth)

lemma offs_mono: "i \<le> j \<Longrightarrow> offs es i \<le> offs es j"
proof (induction j rule: dec_induct)
  case (step j)
  then show ?case using offs_beyond [of es j] offs_beyond [of es "Suc j"] offs_Suc [of j es] by (cases "j < length es") simp_all
qed simp

lemma offs_strict: "i < j \<Longrightarrow> i < length es \<Longrightarrow> offs es i < offs es j"
  using offs_mono [of "Suc i" j es] length_entry_data [of "es ! i"] by (simp add: offs_Suc)

lemma offs_less_iff: "i \<le> length es \<Longrightarrow> j \<le> length es \<Longrightarrow> offs es i < offs es j \<longleftrightarrow> i < j"
  using offs_strict [of i j es] offs_mono [of j i es] by (cases "i < j") auto

lemma block_length: "length (block_data es rs) = offs es (length es) + length rs * 4 + 4"
  by (simp add: block_data_def length_words offs_end)

lemma drop_offs:
  assumes "i < length es"
  shows "drop (offs es i) (concat (map entry_data es)) =
     entry_data (es ! i) @ concat (map entry_data (drop (Suc i) es))"
proof -
  have "concat (map entry_data es) = concat (map entry_data (take i es)) @
      entry_data (es ! i) @ concat (map entry_data (drop (Suc i) es))"
    by (subst id_take_nth_drop [OF assms]) simp
  then show ?thesis by (simp add: offs_def)
qed

text \<open>Offsets in a block fit in 32 bits.\<close>

lemma offs_bound: "block_ok es rs \<Longrightarrow> offs es i < 2 ^ 32"
  using offs_mono [of i "length es" es] offs_beyond [of es i] block_length [of es rs]
  by (cases "i \<le> length es") (auto simp: block_ok_def)

lemma unat_offs [simp]: "block_ok es rs \<Longrightarrow> unat (of_nat (offs es i) :: 32 word) = offs es i"
  by (rule unat_of_length) (rule offs_bound)

section \<open>Positions\<close>

definition on_block :: "entry list \<Rightarrow> 32 word list \<Rightarrow> BlockIter \<Rightarrow> bool" where
  "on_block es rs it \<longleftrightarrow> block_ok es rs \<and> bi_data it = block_data es rs \<and>
     bi_restarts it = of_nat (offs es (length es)) \<and> bi_num_restarts it = of_nat (length rs) \<and> bi_status it = Status_OK"

text \<open>About to parse entry \<open>i\<close>; on it; past the last.\<close>

definition before_entry :: "entry list \<Rightarrow> 32 word list \<Rightarrow> BlockIter \<Rightarrow> nat \<Rightarrow> bool" where
  "before_entry es rs it i \<longleftrightarrow> on_block es rs it \<and> i \<le> length es \<and> NextEntryOffset it = Some (of_nat (offs es i)) \<and>
     bi_restart_index it < bi_num_restarts it \<and> (i < length es \<longrightarrow> shares (bi_key it) (es ! i))"

definition at_entry :: "entry list \<Rightarrow> 32 word list \<Rightarrow> BlockIter \<Rightarrow> nat \<Rightarrow> bool" where
  "at_entry es rs it i \<longleftrightarrow> on_block es rs it \<and> i < length es \<and> bi_current it = of_nat (offs es i) \<and>
     bi_key it = e_key (es ! i) \<and>
     bi_value it = Some (offs es (Suc i) - length (e_value (es ! i)), length (e_value (es ! i))) \<and>
     bi_restart_index it < bi_num_restarts it"

definition at_end :: "entry list \<Rightarrow> 32 word list \<Rightarrow> BlockIter \<Rightarrow> bool" where
  "at_end es rs it \<longleftrightarrow> on_block es rs it \<and> bi_current it = bi_restarts it"

lemma on_block_ok: "on_block es rs it \<Longrightarrow> block_ok es rs"
  by (simp add: on_block_def)

lemma restarts_fit: "block_ok es rs \<Longrightarrow> length rs < 2 ^ 30 \<and> unat (of_nat (length rs) :: 32 word) = length rs"
  by (auto simp: block_ok_def block_length intro!: unat_of_length)

lemma index_less:
  assumes "block_ok es rs" and "i < (of_nat (length rs) :: 32 word)"
  shows "unat i < length rs"
  using assms restarts_fit [OF assms(1)] by (simp add: word_less_nat_alt)

lemma drop_restarts:
  "drop (offs es (length es) + k) (block_data es rs) = drop k (concat (map EncodeFixed32 rs) @ EncodeFixed32 (of_nat (length rs)))"
  by (simp add: block_data_def offs_end)

lemma restart_point:
  assumes "on_block es rs it" "i < bi_num_restarts it"
  shows "GetRestartPoint it i = Some (rs ! unat i)"
proof -
  have "block_ok es rs" "i < of_nat (length rs)" using assms by (simp_all add: on_block_def)
  then have "unat i < length rs" by (rule index_less)
  moreover have "unat (bi_restarts it) = offs es (length es)" using assms(1) by (auto simp: on_block_def)
  ultimately show ?thesis
    using assms word_at [of "unat i" rs "EncodeFixed32 (of_nat (length rs))"]
    by (simp add: GetRestartPoint_def on_block_def drop_restarts del: drop_append)
qed

lemma advance_restart_ok:
  assumes "on_block es rs it" "bi_restart_index it < bi_num_restarts it"
  shows "\<exists>i. advance_restart it = Some (it\<lparr>bi_restart_index := i\<rparr>) \<and> i < bi_num_restarts it"
  using assms
proof (induction it rule: advance_restart.induct)
  case (1 it)
  show ?case
  proof (cases "bi_restart_index it + 1 < bi_num_restarts it \<and> rs ! unat (bi_restart_index it + 1) < bi_current it")
    case True
    with restart_point [OF 1(2)] have p: "GetRestartPoint it (bi_restart_index it + 1) =
      Some (rs ! unat (bi_restart_index it + 1))" by blast
    with 1(1) [OF _ p] 1(2) True show ?thesis by (simp add: advance_restart.simps [of it] on_block_def)
  next
    case False
    with restart_point [OF 1(2)] 1(3) show ?thesis
      by (auto simp: advance_restart.simps [of it] intro!: exI [of _ "bi_restart_index it"])
  qed
qed

lemma entries_part:
  assumes "block_ok es rs" "i < length es"
  shows "take (offs es (length es) - offs es i) (drop (offs es i) (block_data es rs)) =
     entry_data (es ! i) @ concat (map entry_data (drop (Suc i) es))" (is "?l = ?r")
proof -
  have "offs es i \<le> offs es (length es)" using assms(2) by (intro offs_mono) simp
  then have "?l = drop (offs es i) (concat (map entry_data es))"
    by (simp add: block_data_def offs_end)
  with drop_offs [OF assms(2)] show ?thesis by simp
qed

lemma key_part:
  assumes "i < length es"
  defines "q \<equiv> drop (e_shared (es ! i)) (e_key (es ! i)) @ e_value (es ! i) @ concat (map entry_data (drop (Suc i) es))"
  shows "drop (offs es (length es) - length q) (block_data es rs) =
     q @ concat (map EncodeFixed32 rs) @ EncodeFixed32 (of_nat (length rs))"
proof -
  obtain hdr where h: "entry_data (es ! i) = hdr @ drop (e_shared (es ! i)) (e_key (es ! i)) @ e_value (es ! i)"
    by (simp add: entry_data_def)
  have c: "concat (map entry_data es) = (concat (map entry_data (take i es)) @ hdr) @ q"
    by (subst id_take_nth_drop [OF assms(1)]) (simp add: h q_def)
  have "offs es (length es) - length q = length (concat (map entry_data (take i es)) @ hdr)"
    by (simp only: offs_end c) simp
  moreover have "drop (length xs) ((xs @ q) @ ys) = q @ ys" for xs ys by simp
  ultimately show ?thesis by (simp only: block_data_def c append_assoc) (simp add: c)
qed

lemma parse_entry:
  assumes "before_entry es rs it i" "i < length es"
  shows "\<exists>it'. ParseNextKey it = Some (True, it') \<and> at_entry es rs it' i"
proof -
  let ?e = "es ! i" and ?n = "length es"
  define rest where "rest = concat (map entry_data (drop (Suc i) es))"
  define k where "k = length (e_key ?e) - e_shared ?e"
  define q where "q = drop (e_shared ?e) (e_key ?e) @ e_value ?e @ rest"
  have b: "block_ok es rs" "on_block es rs it" using assms(1) by (auto simp: before_entry_def on_block_def)
  have sh: "shares (bi_key it) ?e" using assms by (simp add: before_entry_def)
  have len: "offs es ?n < 2 ^ 32" "length (e_key ?e) < 2 ^ 32" using offs_bound [OF b(1)] b(1) assms(2)
    by (auto simp: block_ok_def)
  have part: "take (offs es ?n - offs es i) (drop (offs es i) (block_data es rs)) = entry_data ?e @ rest"
    unfolding rest_def by (rule entries_part [OF b(1) assms(2)])
  have size: "length (entry_data ?e @ rest) = offs es ?n - offs es i"
    using arg_cong [OF part, of length] offs_mono [of i ?n es] assms(2) block_length [of es rs] by simp
  have d: "DecodeEntry (entry_data ?e @ rest) =
      Some (of_nat (e_shared ?e), of_nat k, of_nat (length (e_value ?e)), q)"
    unfolding k_def q_def using size len sh by (intro DecodeEntry_entry) (auto simp: shares_def)
  have q: "length q = k + length (e_value ?e) + length rest" by (simp add: q_def k_def)
  have fits: "length q \<le> offs es ?n - offs es i" "k + length (e_value ?e) \<le> length (entry_data ?e)"
    "offs es (Suc i) + length rest = offs es ?n"
    using size q offs_Suc [OF assms(2)] offs_mono [of i ?n es] assms(2) by (auto simp: entry_data_def k_def q_def)
  then have pos: "offs es ?n - length q + k = offs es (Suc i) - length (e_value ?e)"
    "offs es (Suc i) - length (e_value ?e) + length (e_value ?e) = offs es (Suc i)"
    using q offs_Suc [OF assms(2)] by linarith+
  let ?it = "it\<lparr>bi_current := of_nat (offs es i), bi_key := e_key ?e,
      bi_value := Some (offs es (Suc i) - length (e_value ?e), length (e_value ?e))\<rparr>"
  have "on_block es rs ?it" "bi_restart_index ?it < bi_num_restarts ?it"
    using assms(1) by (auto simp: before_entry_def on_block_def)
  from advance_restart_ok [OF this] obtain j where
    j: "advance_restart ?it = Some (?it\<lparr>bi_restart_index := j\<rparr>)" "j < bi_num_restarts ?it" by blast
  have r: "unat (bi_restarts it) = offs es ?n" "bi_data it = block_data es rs" using b by (auto simp: on_block_def)
  have less: "\<not> bi_restarts it \<le> of_nat (offs es i)"
    using b assms(2) offs_less_iff [of i es ?n] by (simp add: word_le_nat_alt r)
  have u: "unat (of_nat (e_shared ?e) :: 32 word) = e_shared ?e" "unat (of_nat k :: 32 word) = k"
    "unat (of_nat (length (e_value ?e)) :: 32 word) = length (e_value ?e)"
  proof -
    have "k \<le> length (e_key ?e)" by (simp add: k_def)
    then show "unat (of_nat k :: 32 word) = k" using len by (intro unat_of_length) simp
  qed (use sh len fits q in \<open>auto intro!: unat_of_length simp: shares_def\<close>)
  have key: "take (e_shared ?e) (e_key ?e) @ take k (drop (offs es ?n - length q) (block_data es rs)) = e_key ?e"
    using key_part [OF assms(2), of rs] sh by (simp add: k_def shares_def flip: rest_def) (simp add: q_def)
  have dat: "offs es ?n - length q + k \<le> length (block_data es rs)"
    using pos block_length [of es rs] offs_mono [of "Suc i" ?n es] assms(2) by simp
  have n: "NextEntryOffset it = Some (of_nat (offs es i))" using assms(1) by (simp add: before_entry_def)
  have "ParseNextKey it = Some (True, ?it\<lparr>bi_restart_index := j\<rparr>)"
    using less sh dat j(1)
    by (simp add: ParseNextKey_def Let_def n r unat_offs [OF b(1)] part d u shares_def key pos)
  then show ?thesis using b j(2) assms(2) by (auto simp: at_entry_def on_block_def)
qed

lemma parse_end:
  assumes "before_entry es rs it (length es)"
  shows "\<exists>it'. ParseNextKey it = Some (False, it') \<and> at_end es rs it'"
  using assms by (simp add: ParseNextKey_def before_entry_def at_end_def on_block_def)

lemma entry_next: 
  assumes "at_entry es rs it i"
  shows "before_entry es rs it (Suc i)"
proof -
  have b: "block_ok es rs" "i < length es" using assms by (auto simp: at_entry_def on_block_def)
  have "length (e_value (es ! i)) \<le> offs es (Suc i)" using b by (simp add: offs_Suc entry_data_def)
  moreover have "shares (e_key (es ! i)) (es ! Suc i)" if "Suc i < length es"
    using b that unfolding block_ok_def key_before_def by fastforce
  ultimately show ?thesis using assms by (auto simp: at_entry_def before_entry_def NextEntryOffset_def)
qed

section \<open>Seeking\<close>

text \<open>A restart point is just before an entry that shares nothing.\<close>

lemma restart_entry:
  assumes "on_block es rs it" "r < bi_num_restarts it"
  obtains i where "rs ! unat r = of_nat (offs es i)" "i \<le> length es"
    "es \<noteq> [] \<Longrightarrow> i < length es \<and> e_shared (es ! i) = 0" "es = [] \<Longrightarrow> i = 0"
proof -
  have b: "block_ok es rs" using assms(1) by (simp add: on_block_def)
  have "unat r < length rs" using index_less [OF b] assms by (simp add: on_block_def)
  then obtain i where "rs ! unat r = of_nat (offs es i)"
    "if es = [] then i = 0 else i < length es \<and> e_shared (es ! i) = 0"
    using b unfolding block_ok_def by blast
  then show thesis using that [of i] by (auto split: if_splits)
qed

lemma seek_restart_point:
  assumes "on_block es rs it" "r < bi_num_restarts it"
  shows "\<exists>i it'. rs ! unat r = of_nat (offs es i) \<and> SeekToRestartPoint r it = Some it' \<and>
     before_entry es rs it' i \<and> (es \<noteq> [] \<longrightarrow> i < length es)"
proof -
  obtain i where i: "rs ! unat r = of_nat (offs es i)" "i \<le> length es"
    "es \<noteq> [] \<Longrightarrow> i < length es \<and> e_shared (es ! i) = 0" "es = [] \<Longrightarrow> i = 0"
    using restart_entry [OF assms] by blast
  have b: "block_ok es rs" using assms(1) by (simp add: on_block_def)
  let ?it = "it\<lparr>bi_key := [], bi_restart_index := r, bi_value := Some (offs es i, 0)\<rparr>"
  have "shares [] (es ! i)" if "i < length es"
  proof -
    have "es \<noteq> []" using that by auto
    with i(3) show ?thesis by (simp add: shares_def)
  qed
  then have "before_entry es rs ?it i"
    using assms i by (auto simp: before_entry_def on_block_def NextEntryOffset_def)
  moreover have "SeekToRestartPoint r it = Some ?it"
    using restart_point [OF assms] i(1) b by (simp add: SeekToRestartPoint_def)
  ultimately show ?thesis using i by blast
qed

text \<open>\<open>parse_until\<close> from before entry \<open>i\<close> stops at the last entry that starts before the limit.\<close>

lemma parse_until_entry:
  assumes "before_entry es rs it i" "i \<le> j" "j < length es" "limit = of_nat (offs es (Suc j))"
  shows "\<exists>it'. parse_until limit it = Some it' \<and> at_entry es rs it' j"
  using assms
proof (induction "j - i" arbitrary: i it)
  case 0
  then have i: "i = j" by simp
  obtain it' where p: "ParseNextKey it = Some (True, it')" "at_entry es rs it' j"
    using parse_entry [OF 0(2)] 0(4) i by blast
  then have "NextEntryOffset it' = Some limit" using entry_next [OF p(2)] 0(5) by (simp add: before_entry_def)
  with p show ?case by (simp add: parse_until.simps [of limit it])
next
  case (Suc d)
  then have ij: "i < j" by simp
  obtain it' where p: "ParseNextKey it = Some (True, it')" "at_entry es rs it' i"
    using parse_entry [OF Suc(3)] Suc(5) ij by fastforce
  have b: "before_entry es rs it' (Suc i)" by (rule entry_next [OF p(2)])
  then have n: "NextEntryOffset it' = Some (of_nat (offs es (Suc i)))" "block_ok es rs"
    by (simp_all add: before_entry_def on_block_def)
  have "of_nat (offs es (Suc i)) < limit"
    using offs_less_iff [of "Suc i" es "Suc j"] ij Suc(5) n(2) unfolding Suc(6) by (simp add: word_less_nat_alt)
  moreover have "\<exists>it''. parse_until limit it' = Some it'' \<and> at_entry es rs it'' j"
    using Suc(1) [OF _ b] Suc(2,5,6) ij by simp
  ultimately show ?case using p(1) n(1) by (simp add: parse_until.simps [of limit it])
qed

lemma parse_until_empty:
  assumes "before_entry es rs it (length es)"
  shows "\<exists>it'. parse_until limit it = Some it' \<and> at_end es rs it'"
  using parse_end [OF assms] by (auto simp: parse_until.simps [of limit it])

lemma num_restarts_pos: "on_block es rs it \<Longrightarrow> 0 < bi_num_restarts it"
  using restarts_fit [of es rs] by (auto simp: on_block_def block_ok_def word_less_nat_alt)

text \<open>Being at position \<open>i\<close>, the length of the block standing for past the end.\<close>

definition at_pos :: "entry list \<Rightarrow> 32 word list \<Rightarrow> BlockIter \<Rightarrow> nat \<Rightarrow> bool" where
  "at_pos es rs it i \<longleftrightarrow> (if i < length es then at_entry es rs it i else i = length es \<and> at_end es rs it)"

lemma parse_pos:
  assumes "before_entry es rs it i"
  shows "\<exists>it'. map_option snd (ParseNextKey it) = Some it' \<and> at_pos es rs it' i"
proof (cases "i < length es")
  case True
  with parse_entry [OF assms] show ?thesis by (auto simp: at_pos_def)
next
  case False
  with assms have "i = length es" by (simp add: before_entry_def)
  with parse_end [of es rs it] assms show ?thesis by (auto simp: at_pos_def)
qed

lemma at_pos_valid:
  assumes "at_pos es rs it i"
  shows "BlockIter_Valid it \<longleftrightarrow> i < length es"
proof (cases "i < length es")
  case True
  with assms have e: "bi_current it = of_nat (offs es i)" "bi_restarts it = of_nat (offs es (length es))" "block_ok es rs"
    by (simp_all add: at_pos_def at_entry_def on_block_def)
  show ?thesis
    unfolding BlockIter_Valid_def e(1,2) word_less_nat_alt unat_offs [OF e(3)]
    using True offs_less_iff [of i es "length es"] by simp
next
  case False
  with assms show ?thesis by (simp add: at_pos_def at_end_def BlockIter_Valid_def)
qed

lemma seek_to_first:
  assumes "on_block es rs it"
  shows "\<exists>it'. BlockIter_SeekToFirst it = Some it' \<and> at_pos es rs it' 0"
proof -
  obtain i it1 where i: "rs ! unat (0 :: 32 word) = of_nat (offs es i)" "SeekToRestartPoint 0 it = Some it1" "before_entry es rs it1 i"
    using seek_restart_point [OF assms num_restarts_pos [OF assms]] by blast
  have "block_ok es rs" using assms by (simp add: on_block_def)
  then have "unat (of_nat (offs es i) :: 32 word) = 0" using i(1) by (simp add: block_ok_def)
  with \<open>block_ok es rs\<close> have "offs es i = offs es 0" by simp
  moreover have "i \<le> length es" using i(3) by (simp add: before_entry_def)
  ultimately have "i = 0" using offs_less_iff [of 0 es i] by simp
  with parse_pos [OF i(3)] i(2) show ?thesis by (simp add: BlockIter_SeekToFirst_def)
qed

lemma next_pos:
  assumes "at_pos es rs it i" "i < length es"
  shows "\<exists>it'. BlockIter_Next it = Some it' \<and> at_pos es rs it' (Suc i)"
  using parse_pos [OF entry_next, of es rs it i] assms at_pos_valid [OF assms(1)]
  by (simp add: BlockIter_Next_def at_pos_def)

lemma on_block_index [simp]: "on_block es rs (it\<lparr>bi_restart_index := r\<rparr>) \<longleftrightarrow> on_block es rs it"
  by (simp add: on_block_def)

lemma at_pos_on: "at_pos es rs it i \<Longrightarrow> on_block es rs it"
  by (auto simp: at_pos_def at_entry_def at_end_def split: if_splits)

lemma num_restarts_last: "on_block es rs it \<Longrightarrow> bi_num_restarts it - 1 < bi_num_restarts it"
  using num_restarts_pos [of es rs it] measure_unat [of "bi_num_restarts it"]
  by (cases "bi_num_restarts it = 0") (simp_all add: word_less_nat_alt)

lemma seek_to_last:
  assumes "on_block es rs it"
  shows "\<exists>it'. BlockIter_SeekToLast it = Some it' \<and> at_pos es rs it' (length es - 1)"
proof -
  obtain i it1 where i: "SeekToRestartPoint (bi_num_restarts it - 1) it = Some it1" "before_entry es rs it1 i"
    "es \<noteq> [] \<longrightarrow> i < length es"
    using seek_restart_point [OF assms num_restarts_last [OF assms]] by blast
  have r: "bi_restarts it1 = of_nat (offs es (length es))" using i(2) by (simp add: before_entry_def on_block_def)
  show ?thesis
  proof (cases "es = []")
    case True
    with i(2) have "before_entry es rs it1 (length es)" by (simp add: before_entry_def)
    from parse_until_empty [OF this] True i(1) show ?thesis by (auto simp: BlockIter_SeekToLast_def at_pos_def)
  next
    case False
    then have "i \<le> length es - 1" "length es - 1 < length es" "Suc (length es - 1) = length es" using i(3) by auto
    with parse_until_entry [OF i(2), of "length es - 1" "bi_restarts it1"] i(1) r show ?thesis
      by (auto simp: BlockIter_SeekToLast_def at_pos_def)
  qed
qed

lemma restart_before_entry:
  assumes "on_block es rs it" "r < bi_num_restarts it" "i < length es"
  shows "if i = 0 then restart_before (of_nat (offs es i)) it r = Some None
     else \<exists>j. restart_before (of_nat (offs es i)) it r = Some (Some j) \<and> j < bi_num_restarts it \<and>
       rs ! unat j < of_nat (offs es i)"
  using assms(2)
proof (induction "unat r" arbitrary: r rule: less_induct)
  case less
  note p = restart_point [OF assms(1) less(2)]
  have b: "block_ok es rs" using assms(1) by (simp add: on_block_def)
  note u = unat_offs [OF b]
  show ?case
  proof (cases "rs ! unat r < of_nat (offs es i)")
    case True
    then have "i \<noteq> 0" by (intro notI) simp
    moreover have "of_nat (offs es i) \<le> rs ! unat r \<longleftrightarrow> False" using True by simp
    ultimately show ?thesis using True p less(2) by (simp only: restart_before.simps [of _ it r]) auto
  next
    case False
    then have ge: "of_nat (offs es i) \<le> rs ! unat r" by simp
    show ?thesis
    proof (cases "r = 0")
      case True
      then have "rs ! unat r = 0" using b by (simp add: block_ok_def)
      with ge have "offs es i = 0" using u by (simp add: word_le_nat_alt)
      then have "i = 0" using offs_less_iff [of 0 es i] assms(3) by simp
      with True ge p show ?thesis by (simp add: restart_before.simps [of _ it 0])
    next
      case False
      then have d: "unat (r - 1) < unat r" by (rule measure_unat)
      then have "r - 1 < bi_num_restarts it" using less(2) by (simp add: word_less_nat_alt)
      from less(1) [OF d this] show ?thesis
        using ge False p by (cases "i = 0") (simp_all add: restart_before.simps [of _ it r])
    qed
  qed
qed

lemma prev_pos:
  assumes "at_pos es rs it i" "i < length es"
  shows "\<exists>it'. BlockIter_Prev it = Some it' \<and> at_pos es rs it' (if i = 0 then length es else i - 1)"
proof -
  have a: "at_entry es rs it i" using assms by (simp add: at_pos_def)
  then have on: "on_block es rs it" and r: "bi_restart_index it < bi_num_restarts it"
    and c: "bi_current it = of_nat (offs es i)" by (simp_all add: at_entry_def)
  have b: "block_ok es rs" using on by (simp add: on_block_def)
  have v: "BlockIter_Valid it" using at_pos_valid [OF assms(1)] assms(2) by simp
  note before = restart_before_entry [OF on r assms(2)]
  show ?thesis
  proof (cases "i = 0")
    case True
    with before v c on show ?thesis by (auto simp: BlockIter_Prev_def at_pos_def at_end_def on_block_def)
  next
    case False
    with before obtain j where j: "restart_before (of_nat (offs es i)) it (bi_restart_index it) = Some (Some j)"
      "j < bi_num_restarts it" "rs ! unat j < of_nat (offs es i)" by auto
    have "on_block es rs (it\<lparr>bi_restart_index := j\<rparr>)" "j < bi_num_restarts (it\<lparr>bi_restart_index := j\<rparr>)"
      using on j(2) by simp_all
    from seek_restart_point [OF this] obtain k it1 where k: "rs ! unat j = of_nat (offs es k)"
      "SeekToRestartPoint j (it\<lparr>bi_restart_index := j\<rparr>) = Some it1" "before_entry es rs it1 k"
      "es \<noteq> [] \<longrightarrow> k < length es" by blast
    have "k < length es" using k(4) assms(2) by auto
    then have "k < i" using j(3) k(1) b offs_less_iff [of k es i] assms(2) by (simp add: word_less_nat_alt)
    then have "k \<le> i - 1" "i - 1 < length es" "Suc (i - 1) = i" using assms(2) by auto
    then obtain it' where "parse_until (of_nat (offs es i)) it1 = Some it'" "at_entry es rs it' (i - 1)"
      using parse_until_entry [OF k(3), of "i - 1" "of_nat (offs es i)"] assms(2) False by auto
    then show ?thesis using v c j(1) k(2) False \<open>i - 1 < length es\<close> by (simp add: BlockIter_Prev_def Let_def at_pos_def)
  qed
qed

section \<open>The binary search\<close>

lemma mid_between:
  fixes l r :: "32 word"
  assumes "l < r" "unat r < 2 ^ 30"
  shows "l < (l + r + 1) div 2 \<and> (l + r + 1) div 2 \<le> r \<and> (l + r + 1) div 2 \<noteq> 0"
proof -
  have lr: "unat l < unat r" using assms(1) by (simp add: word_less_nat_alt)
  have "unat (l + r + 1) = unat l + unat r + 1"
    using lr assms(2) unat_of_length [of "unat l + unat r + 1"] by (simp add: ac_simps)
  then have "unat ((l + r + 1) div 2) = (unat l + unat r + 1) div 2" by (simp add: unat_div)
  then show ?thesis using lr by (auto simp: word_less_nat_alt word_le_nat_alt simp flip: unat_eq_0)
qed

text \<open>What \<open>Seek\<close> reads at a restart point: the key of its entry.\<close>

lemma restart_key:
  assumes "on_block es rs it" "r < bi_num_restarts it" "r \<noteq> 0"
  obtains i n vl p where "rs ! unat r = of_nat (offs es i)" "i < length es"
    "GetRestartPoint it r = Some (of_nat (offs es i))"
    "DecodeEntry (take (unat (bi_restarts it) - offs es i) (drop (offs es i) (bi_data it))) = Some (0, n, vl, p)"
    "unat (bi_restarts it) - length p + unat n \<le> length (bi_data it)"
    "take (unat n) (drop (unat (bi_restarts it) - length p) (bi_data it)) = e_key (es ! i)"
proof -
  have b: "block_ok es rs" and r: "unat (bi_restarts it) = offs es (length es)" "bi_data it = block_data es rs"
    using assms(1) by (auto simp: on_block_def)
  have "unat r < length rs" "unat r \<noteq> 0"
    using index_less [OF b] assms by (simp_all add: on_block_def unat_eq_0)
  then have "es \<noteq> []" using b by (auto simp: block_ok_def)
  then obtain i where i: "rs ! unat r = of_nat (offs es i)" "i < length es" "e_shared (es ! i) = 0"
    using restart_entry [OF assms(1,2)] by metis
  let ?e = "es ! i" and ?rest = "concat (map entry_data (drop (Suc i) es))"
  let ?q = "e_key ?e @ e_value ?e @ ?rest"
  note part = entries_part [OF b i(2)]
  have size: "length (entry_data ?e @ ?rest) = offs es (length es) - offs es i"
    using arg_cong [OF part, of length] offs_mono [of i "length es" es] i(2) block_length [of es rs] by simp
  have k: "length (e_key ?e) < 2 ^ 32" using b i(2) by (simp add: block_ok_def)
  have "DecodeEntry (entry_data ?e @ ?rest) = Some (0, of_nat (length (e_key ?e)), of_nat (length (e_value ?e)), ?q)"
    using DecodeEntry_entry [of ?e ?rest] size offs_bound [OF b, of "length es"] k i(3) by simp
  moreover have "drop (offs es (length es) - length ?q) (block_data es rs) =
      ?q @ concat (map EncodeFixed32 rs) @ EncodeFixed32 (of_nat (length rs))"
    using key_part [OF i(2), of rs] i(3) by simp
  moreover have "offs es (length es) - length ?q + length (e_key ?e) \<le> length (block_data es rs)"
    using size block_length [of es rs] i(3) by (simp add: entry_data_def)
  ultimately show thesis
    using that [of i "of_nat (length (e_key ?e))" "of_nat (length (e_value ?e))" ?q] part i(1,2)
      restart_point [OF assms(1,2)] unat_of_length [OF k] by (simp add: r)
qed

lemma seek_restart_simps:
  "\<not> left < right \<Longrightarrow> seek_restart compare target it left right = Some (Inr left)"
  by (subst seek_restart.simps) simp

definition keys_sorted :: "(byte list \<Rightarrow> byte list \<Rightarrow> int) \<Rightarrow> entry list \<Rightarrow> bool" where
  "keys_sorted cmp es \<longleftrightarrow> (\<forall>j<length es. \<forall>i<j. cmp (e_key (es ! i)) (e_key (es ! j)) < 0)"

text \<open>All entries before restart point \<open>r\<close> are below the target.\<close>

definition below_restart ::
  "(byte list \<Rightarrow> byte list \<Rightarrow> int) \<Rightarrow> entry list \<Rightarrow> 32 word list \<Rightarrow> byte list \<Rightarrow> 32 word \<Rightarrow> bool" where
  "below_restart cmp es rs target r \<longleftrightarrow>
     (\<forall>i \<le> length es. rs ! unat r = of_nat (offs es i) \<longrightarrow> (\<forall>j<i. cmp (e_key (es ! j)) target < 0))"

locale block_order = three_way K cmp for K :: "byte list \<Rightarrow> bool" and cmp
begin

lemma restart_below:
  assumes "on_block es rs it" "keys_sorted cmp es" "\<forall>e \<in> set es. K (e_key e)" "K target"
    "rs ! unat r = of_nat (offs es i)" "i < length es" "cmp (e_key (es ! i)) target < 0"
  shows "below_restart cmp es rs target r"
  unfolding below_restart_def
proof (intro allI impI)
  fix i' j assume i': "i' \<le> length es" "rs ! unat r = of_nat (offs es i')" and j: "j < i'"
  have b: "block_ok es rs" using assms(1) by (simp add: on_block_def)
  have "offs es i' = offs es i" using i'(2) assms(5) unat_offs [OF b] by metis
  then have "i' = i" using offs_less_iff [of i' es i] offs_less_iff [of i es i'] i'(1) assms(6) by simp
  with j assms(2,6) have "cmp (e_key (es ! j)) (e_key (es ! i)) < 0" by (simp add: keys_sorted_def)
  moreover have "K (e_key (es ! j))" "K (e_key (es ! i))" using assms(3,6) j \<open>i' = i\<close> by simp_all
  ultimately show "cmp (e_key (es ! j)) target < 0" using cmp_less_trans assms(4,7) by blast
qed

lemma seek_restart_ok:
  assumes "on_block es rs it" "keys_sorted cmp es" "\<forall>e \<in> set es. K (e_key e)" "K target"
    and "right < bi_num_restarts it" "left \<le> right" "below_restart cmp es rs target left"
  shows "\<exists>l. seek_restart cmp target it left right = Some (Inr l) \<and> l < bi_num_restarts it \<and>
     below_restart cmp es rs target l"
  using assms(5-7)
proof (induction "unat right - unat left" arbitrary: left right rule: less_induct)
  case less
  show ?case
  proof (cases "left < right")
    case False
    with less(2-4) show ?thesis by (simp add: seek_restart_simps)
  next
    case True
    let ?m = "(left + right + 1) div 2"
    have b: "block_ok es rs" using assms(1) by (simp add: on_block_def)
    then have "unat (bi_num_restarts it) < 2 ^ 30" using restarts_fit [OF b] assms(1) by (simp add: on_block_def)
    then have "unat right < 2 ^ 30" using less(2) by (simp add: word_less_nat_alt)
    from mid_between [OF True this] have m: "left < ?m" "?m \<le> right" "?m \<noteq> 0" by blast+
    then have mr: "?m < bi_num_restarts it" using less(2) by simp
    obtain i n vl p where i: "rs ! unat ?m = of_nat (offs es i)" "i < length es"
      "GetRestartPoint it ?m = Some (of_nat (offs es i))"
      "DecodeEntry (take (unat (bi_restarts it) - offs es i) (drop (offs es i) (bi_data it))) = Some (0, n, vl, p)"
      "unat (bi_restarts it) - length p + unat n \<le> length (bi_data it)"
      "take (unat n) (drop (unat (bi_restarts it) - length p) (bi_data it)) = e_key (es ! i)"
      by (rule restart_key [OF assms(1) mr m(3)])
    have step: "seek_restart cmp target it left right =
        (if cmp (e_key (es ! i)) target < 0 then seek_restart cmp target it ?m right
         else seek_restart cmp target it left (?m - 1))"
      using True i(3-6) unat_offs [OF b] by (subst seek_restart.simps) (simp add: Let_def)
    have less_m: "unat (?m - 1) < unat ?m" by (rule measure_unat [OF m(3)])
    show ?thesis
    proof (cases "cmp (e_key (es ! i)) target < 0")
      case True
      have "below_restart cmp es rs target ?m" by (rule restart_below [OF assms(1-4) i(1,2) True])
      moreover have "unat right - unat ?m < unat right - unat left"
        using m \<open>left < right\<close> by (simp add: word_less_nat_alt word_le_nat_alt)
      ultimately show ?thesis using less(1) [of right ?m] less(2) m True step by simp
    next
      case False
      have "left \<le> ?m - 1"
        using m(1) less_m unat_minus_one [OF m(3)] by (simp add: word_less_nat_alt word_le_nat_alt)
      moreover have "?m - 1 < bi_num_restarts it" using less_m mr by (simp add: word_less_nat_alt)
      moreover have "unat (?m - 1) - unat left < unat right - unat left"
        using m less_m \<open>left < right\<close> by (simp add: word_less_nat_alt word_le_nat_alt)
      ultimately show ?thesis using less(1) [of "?m - 1" left] less(4) False step by simp
    qed
  qed
qed

lemma seek_linear_ok:
  assumes "before_entry es rs it i" "\<forall>j<i. cmp (e_key (es ! j)) target < 0"
  shows "\<exists>it'. seek_linear cmp target it = Some it' \<and>
     at_pos es rs it' (length (takeWhile (\<lambda>e. cmp (e_key e) target < 0) es))"
  using assms
proof (induction "length es - i" arbitrary: i it)
  case 0
  then have "i = length es" by (simp add: before_entry_def)
  with 0(3) have tw: "takeWhile (\<lambda>e. cmp (e_key e) target < 0) es = es"
    by (simp add: takeWhile_eq_all_conv all_set_conv_all_nth)
  obtain it' where "ParseNextKey it = Some (False, it')" "at_end es rs it'"
    using parse_end 0(2) \<open>i = length es\<close> by blast
  then show ?case by (simp add: seek_linear.simps [of cmp target it] at_pos_def tw)
next
  case (Suc d)
  then have i: "i < length es" by simp
  obtain it' where p: "ParseNextKey it = Some (True, it')" "at_entry es rs it' i"
    using parse_entry [OF Suc(3) i] by blast
  then have key: "bi_key it' = e_key (es ! i)" by (simp add: at_entry_def)
  show ?case
  proof (cases "cmp (e_key (es ! i)) target < 0")
    case True
    then have "\<forall>j<Suc i. cmp (e_key (es ! j)) target < 0" using Suc(4) by (auto simp: less_Suc_eq)
    moreover have "\<not> cmp (bi_key it') target \<ge> 0" using True key by simp
    ultimately show ?thesis
      using Suc(1) [OF _ entry_next [OF p(2)]] Suc(2) p(1) by (simp add: seek_linear.simps [of cmp target it])
  next
    case False
    then have "takeWhile (\<lambda>e. cmp (e_key e) target < 0) es = take i es"
      using Suc(4) i by (intro takeWhile_eq_take_P_nth) auto
    with p key False i show ?thesis by (simp add: seek_linear.simps [of cmp target it] at_pos_def)
  qed
qed

lemma seek_pos:
  assumes "on_block es rs it" "keys_sorted cmp es" "\<forall>e \<in> set es. K (e_key e)" "K target"
  shows "\<exists>it'. BlockIter_Seek cmp target it = Some it' \<and>
     at_pos es rs it' (length (takeWhile (\<lambda>e. cmp (e_key e) target < 0) es))"
proof -
  have b: "block_ok es rs" using assms(1) by (simp add: on_block_def)
  have "below_restart cmp es rs target 0"
  proof -
    have "i = 0" if "i \<le> length es" "rs ! unat (0 :: 32 word) = of_nat (offs es i)" for i
    proof -
      have "unat (of_nat (offs es i) :: 32 word) = 0" using b that(2) by (simp add: block_ok_def)
      then have "offs es i = 0" using unat_offs [OF b] by simp
      with that(1) offs_less_iff [of 0 es i] show ?thesis by simp
    qed
    then show ?thesis unfolding below_restart_def by blast
  qed
  from seek_restart_ok [OF assms num_restarts_last [OF assms(1)] _ this]
  obtain l where l: "seek_restart cmp target it 0 (bi_num_restarts it - 1) = Some (Inr l)"
    "l < bi_num_restarts it" "below_restart cmp es rs target l" by auto
  obtain i it1 where i: "rs ! unat l = of_nat (offs es i)" "SeekToRestartPoint l it = Some it1" "before_entry es rs it1 i"
    using seek_restart_point [OF assms(1) l(2)] by blast
  have "\<forall>j<i. cmp (e_key (es ! j)) target < 0"
    using l(3) i(1,3) unfolding below_restart_def before_entry_def by blast
  from seek_linear_ok [OF i(3) this] l(1) i(2) show ?thesis by (simp add: BlockIter_Seek_def)
qed

end

section \<open>The builder makes such a block\<close>

text \<open>Everything in \<open>block_ok\<close> but the bounds on sizes, which hold if the finished block fits in 32 bits.\<close>

definition block_shape :: "entry list \<Rightarrow> 32 word list \<Rightarrow> bool" where
  "block_shape es rs \<longleftrightarrow> rs \<noteq> [] \<and> rs ! 0 = 0 \<and> (es = [] \<longrightarrow> length rs = 1) \<and>
     (\<forall>i<length es. shares (key_before es i) (es ! i)) \<and>
     (\<forall>r<length rs. \<exists>i. rs ! r = of_nat (offs es i) \<and>
        (if es = [] then i = 0 else i < length es \<and> e_shared (es ! i) = 0))"

lemma key_length:
  assumes "block_shape es rs" "i < length es"
  shows "length (e_key (es ! i)) \<le> offs es (Suc i)"
  using assms(2)
proof (induction i)
  case 0
  have "shares [] (es ! 0)" using assms(1) 0 unfolding block_shape_def key_before_def by fastforce
  then show ?case using 0 by (simp add: offs_Suc shares_def entry_data_def)
next
  case (Suc i)
  have "shares (e_key (es ! i)) (es ! Suc i)" using assms(1) Suc(2) unfolding block_shape_def key_before_def by fastforce
  then have "e_shared (es ! Suc i) \<le> length (e_key (es ! i))" by (simp add: shares_def)
  moreover have "length (e_key (es ! Suc i)) - e_shared (es ! Suc i) \<le> length (entry_data (es ! Suc i))"
    by (simp add: entry_data_def)
  ultimately show ?case using Suc offs_Suc [of "Suc i" es] by simp
qed

lemma shape_ok:
  assumes "block_shape es rs" "length (block_data es rs) < 2 ^ 32"
  shows "block_ok es rs"
proof -
  have "length (e_key (es ! i)) < 2 ^ 32" if "i < length es" for i
  proof -
    have "offs es (Suc i) \<le> offs es (length es)" using that by (intro offs_mono) simp
    with key_length [OF assms(1) that] assms(2) show ?thesis unfolding block_length by simp
  qed
  with assms show ?thesis by (simp add: block_ok_def block_shape_def)
qed

definition last_key_of :: "entry list \<Rightarrow> byte list" where
  "last_key_of es = (if es = [] then [] else e_key (last es))"

definition builder_at :: "BlockBuilder \<Rightarrow> entry list \<Rightarrow> bool" where
  "builder_at b es \<longleftrightarrow> block_shape es (bb_restarts b) \<and> bb_buffer b = concat (map entry_data es) \<and>
     \<not> bb_finished b \<and> bb_last_key b = last_key_of es \<and> bb_counter b \<le> bb_interval b \<and> 1 \<le> bb_interval b \<and>
     (es = [] \<longrightarrow> bb_counter b = 0) \<and> length (bb_restarts b) \<le> Suc (length es)"

lemma new_builder_at: "1 \<le> interval \<Longrightarrow> \<exists>b. new_BlockBuilder interval = Some b \<and> builder_at b []"
  by (simp add: new_BlockBuilder_def builder_at_def block_shape_def last_key_of_def)

lemma Reset_at: "1 \<le> bb_interval b \<Longrightarrow> builder_at (BlockBuilder_Reset b) []"
  by (simp add: BlockBuilder_Reset_def builder_at_def block_shape_def last_key_of_def)

lemma Finish_interval [simp]: "bb_interval (snd (BlockBuilder_Finish b)) = bb_interval b"
  by (simp add: BlockBuilder_Finish_def Let_def)

lemma buffer_empty: "concat (map entry_data es) = [] \<longleftrightarrow> es = []"
proof (cases es)
  case (Cons e es')
  with length_entry_data [of e] show ?thesis by (cases "entry_data e") auto
qed simp

lemma offs_snoc: "i \<le> length es \<Longrightarrow> offs (es @ [e]) i = offs es i"
  by (simp add: offs_def)

lemma shape_snoc:
  assumes "block_shape es rs" "shares (last_key_of es) e"
    "rs' = rs \<and> (es = [] \<longrightarrow> e_shared e = 0) \<or> es \<noteq> [] \<and> rs' = rs @ [of_nat (offs es (length es))] \<and> e_shared e = 0"
  shows "block_shape (es @ [e]) rs'"
proof -
  have "shares (key_before (es @ [e]) i) ((es @ [e]) ! i)" if "i < Suc (length es)" for i
  proof (cases "i = length es")
    case True
    then have "key_before (es @ [e]) i = last_key_of es"
      by (auto simp: key_before_def last_key_of_def nth_append last_conv_nth)
    with assms(2) True show ?thesis by simp
  next
    case False
    then have "i < length es" using that by simp
    moreover from this have "key_before (es @ [e]) i = key_before es i" by (auto simp: key_before_def nth_append)
    ultimately show ?thesis using assms(1) by (simp add: block_shape_def nth_append)
  qed
  moreover have "\<exists>i. rs' ! r = of_nat (offs (es @ [e]) i) \<and> i < Suc (length es) \<and> e_shared ((es @ [e]) ! i) = 0"
    if "r < length rs'" for r
  proof (cases "r < length rs")
    case True
    then obtain i where i: "rs ! r = of_nat (offs es i)" "if es = [] then i = 0 else i < length es \<and> e_shared (es ! i) = 0"
      using assms(1) unfolding block_shape_def by blast
    moreover have "rs' ! r = rs ! r" using assms(3) True by (auto simp: nth_append)
    ultimately show ?thesis
      using assms(3) by (intro exI [of _ i]) (auto simp: offs_snoc nth_append split: if_splits)
  next
    case False
    then have "r = length rs" "rs' = rs @ [of_nat (offs es (length es))]" "e_shared e = 0"
      using that assms(3) by auto
    then show ?thesis by (intro exI [of _ "length es"]) (simp add: offs_snoc)
  qed
  moreover have "rs' \<noteq> [] \<and> rs' ! 0 = 0" using assms(1,3) by (auto simp: block_shape_def nth_append)
  ultimately show ?thesis unfolding block_shape_def by auto
qed

lemma shares_common_prefix: "shares prev (common_prefix prev key, key, value)"
  using common_prefix_le [of prev key] take_common_prefix [of prev key] by (simp add: shares_def)

lemma Add_at:
  assumes "builder_at b es" "es = [] \<or> cmp key (last_key_of es) > 0"
  shows "\<exists>b' s. BlockBuilder_Add cmp key value b = Some b' \<and> builder_at b' (es @ [(s, key, value)])"
proof -
  have b: "block_shape es (bb_restarts b)" "bb_buffer b = concat (map entry_data es)" "\<not> bb_finished b"
    "bb_last_key b = last_key_of es" "bb_counter b \<le> bb_interval b" "1 \<le> bb_interval b" "es = [] \<longrightarrow> bb_counter b = 0"
    "length (bb_restarts b) \<le> Suc (length es)"
    using assms(1) by (simp_all add: builder_at_def)
  have ok: "\<not> (bb_finished b \<or> \<not> bb_counter b \<le> bb_interval b \<or> \<not> (bb_buffer b = [] \<or> cmp key (bb_last_key b) > 0))"
    using b assms(2) buffer_empty [of es] by auto
  show ?thesis
  proof (cases "bb_counter b < bb_interval b")
    case True
    let ?e = "(common_prefix (last_key_of es) key, key, value)"
    have sh: "shares (last_key_of es) ?e" by (rule shares_common_prefix)
    have "es = [] \<longrightarrow> e_shared ?e = 0" by (simp add: last_key_of_def)
    then have "block_shape (es @ [?e]) (bb_restarts b)" using shape_snoc [OF b(1) sh] by blast
    moreover have "take (fst ?e) (last_key_of es) @ drop (fst ?e) key = key"
      using sh by (simp add: shares_def)
    ultimately show ?thesis
      using ok True b by (simp add: BlockBuilder_Add_def Let_def builder_at_def entry_data_def PutVarint32_def last_key_of_def)
        (auto simp: entry_data_def)
  next
    case False
    let ?e = "(0 :: nat, key, value)"
    have "es \<noteq> []" using False b(5-7) by auto
    moreover have "shares (last_key_of es) ?e" by (simp add: shares_def)
    ultimately have "block_shape (es @ [?e]) (bb_restarts b @ [of_nat (offs es (length es))])"
      using shape_snoc [OF b(1)] by simp
    then show ?thesis
      using ok False b by (simp add: BlockBuilder_Add_def Let_def builder_at_def entry_data_def PutVarint32_def last_key_of_def offs_end)
        (auto simp: entry_data_def)
  qed
qed

lemma Finish_data:
  "builder_at b es \<Longrightarrow> fst (BlockBuilder_Finish b) = block_data es (bb_restarts b)"
  by (simp add: BlockBuilder_Finish_def builder_at_def block_data_def foldl_PutFixed32 PutFixed32_def Let_def)

section \<open>The block read\<close>

text \<open>A finished block is not much longer than its pairs.\<close>

lemma entry_data_bound: "length (entry_data e) \<le> length (e_key e) + length (e_value e) + 30"
proof -
  have v: "length (EncodeVarint32 w) \<le> 10" for w
    using varint_bytes_length_10 [of "ucast w"] by (simp add: EncodeVarint32_leb128)
  show ?thesis
    using v [of "of_nat (e_shared e)"] v [of "of_nat (length (e_key e) - e_shared e)"] v [of "of_nat (length (e_value e))"]
    unfolding entry_data_def by simp
qed

definition entries_size :: "entry list \<Rightarrow> nat" where
  "entries_size es = sum_list (map (\<lambda>e. length (e_key e) + length (e_value e) + 34) es)"

lemma Finish_length:
  assumes "builder_at b es"
  shows "length (fst (BlockBuilder_Finish b)) \<le> entries_size es + 8"
proof -
  have "length (concat (map entry_data es)) + length es * 4 \<le> entries_size es"
  proof (induction es)
    case (Cons e es)
    then show ?case using entry_data_bound [of e] by (simp add: entries_size_def)
  qed (simp add: entries_size_def)
  moreover have "length (bb_restarts b) \<le> Suc (length es)" using assms by (simp add: builder_at_def)
  ultimately show ?thesis unfolding Finish_data [OF assms] by (simp add: block_length offs_end)
qed

lemma NumRestarts_block:
  "NumRestarts (block_data es rs) (length (block_data es rs)) = Some (of_nat (length rs))"
  unfolding NumRestarts_def block_length by (simp add: block_data_def offs_end length_words)

lemma new_Block_block:
  assumes "block_ok es rs"
  shows "\<exists>b it. new_Block (block_data es rs) = Some b \<and> Block_NewIterator b = Some (Inr it) \<and> at_end es rs it"
proof -
  note fit = restarts_fit [OF assms]
  have l: "unat (of_nat (length rs) :: 32 word) = length rs" "unat (1 + of_nat (length rs) :: 32 word) = length rs + 1"
    using fit unat_of_length [of "length rs + 1"] by simp_all
  have r: "rs \<noteq> []" using assms by (simp add: block_ok_def)
  let ?b = "\<lparr>bl_data = block_data es rs, bl_size = length (block_data es rs), bl_restart_offset = of_nat (offs es (length es))\<rparr>"
  have "new_Block (block_data es rs) = Some ?b"
    unfolding new_Block_def Let_def NumRestarts_block by (simp add: l block_length)
  moreover have "(of_nat (length rs) :: 32 word) \<noteq> 0" using l(1) r by (metis length_0_conv unat_0)
  ultimately show ?thesis
    using assms NumRestarts_block [of es rs]
    by (simp add: Block_NewIterator_def new_BlockIter_def block_length at_end_def on_block_def word_neq_0_conv)
qed

lemma value_part:
  assumes "i < length es"
  shows "take (length (e_value (es ! i))) (drop (offs es (Suc i) - length (e_value (es ! i))) (block_data es rs)) =
    e_value (es ! i)" "offs es (Suc i) - length (e_value (es ! i)) + length (e_value (es ! i)) \<le> length (block_data es rs)"
proof -
  let ?v = "e_value (es ! i)"
  obtain xs where "concat (map entry_data (take (Suc i) es)) = xs @ ?v"
    using assms by (simp add: take_Suc_conv_app_nth entry_data_def)
  moreover have "block_data es rs = concat (map entry_data (take (Suc i) es)) @
      concat (map entry_data (drop (Suc i) es)) @ concat (map EncodeFixed32 rs) @ EncodeFixed32 (of_nat (length rs))"
    unfolding block_data_def by (subst append_take_drop_id [of "Suc i" es, symmetric]) (simp only: map_append concat_append append_assoc)
  ultimately show "take (length ?v) (drop (offs es (Suc i) - length ?v) (block_data es rs)) = ?v"
    "offs es (Suc i) - length ?v + length ?v \<le> length (block_data es rs)"
    by (simp_all add: offs_def)
qed

definition pairs_of :: "entry list \<Rightarrow> pair list" where
  "pairs_of es = map snd es"

lemma pairs_of_simps [simp]: "length (pairs_of es) = length es" "i < length es \<Longrightarrow> pairs_of es ! i = snd (es ! i)"
  by (simp_all add: pairs_of_def)

text \<open>The iterator of a block with these pairs, in order, at position \<open>i\<close>.\<close>

definition block_at ::
  "(byte list \<Rightarrow> bool) \<Rightarrow> (byte list \<Rightarrow> byte list \<Rightarrow> int) \<Rightarrow> pair list \<Rightarrow> BlockIter \<Rightarrow> nat \<Rightarrow> bool" where
  "block_at K cmp kvs it i \<longleftrightarrow>
     (\<exists>es rs. kvs = pairs_of es \<and> at_pos es rs it i \<and> keys_sorted cmp es \<and> (\<forall>e \<in> set es. K (e_key e)))"

context block_order
begin

lemma seek_index_entries:
  "seek_index cmp target (pairs_of es) = length (takeWhile (\<lambda>e. cmp (e_key e) target < 0) es)"
  by (simp add: seek_index_def pairs_of_def takeWhile_map comp_def)

lemma block_iterator:
  "iterator (block_at K cmp) BlockIter_Valid BlockIter_key BlockIter_value BlockIter_Next BlockIter_Prev
     BlockIter_SeekToFirst BlockIter_SeekToLast (BlockIter_Seek cmp) K cmp"
proof
  fix kvs it i assume a: "block_at K cmp kvs it i"
  then obtain es rs where e: "kvs = pairs_of es" "at_pos es rs it i" "keys_sorted cmp es" "\<forall>e \<in> set es. K (e_key e)"
    unfolding block_at_def by blast
  note on = at_pos_on [OF e(2)]
  have here: "block_at K cmp kvs it' j" if "at_pos es rs it' j" for it' j
    using that e unfolding block_at_def by blast
  show v: "i \<le> length kvs \<and> (BlockIter_Valid it \<longleftrightarrow> i < length kvs)"
    using at_pos_valid [OF e(2)] e(1,2) by (auto simp: at_pos_def split: if_splits)
  show "\<exists>it'. BlockIter_SeekToFirst it = Some it' \<and> block_at K cmp kvs it' 0"
    using seek_to_first [OF on] here by blast
  show "\<exists>it'. BlockIter_SeekToLast it = Some it' \<and> block_at K cmp kvs it' (length kvs - 1)"
    using seek_to_last [OF on] here e(1) by auto
  show "\<exists>it'. BlockIter_Seek cmp target it = Some it' \<and> block_at K cmp kvs it' (seek_index cmp target kvs)"
    if "K target" for target
    using seek_pos [OF on e(3,4) that] here e(1) seek_index_entries by auto
  assume "i < length kvs"
  then have i: "i < length es" using e(1) by simp
  then have "at_entry es rs it i" using e(2) by (simp add: at_pos_def)
  then show "BlockIter_key it = Some (fst (kvs ! i)) \<and> BlockIter_value it = Some (snd (kvs ! i))"
    using v i e(1) value_part [OF i, of rs]
    by (simp add: BlockIter_key_def BlockIter_value_def at_entry_def on_block_def)
  show "\<exists>it'. BlockIter_Next it = Some it' \<and> block_at K cmp kvs it' (Suc i)"
    using next_pos [OF e(2) i] here by blast
  show "\<exists>it'. BlockIter_Prev it = Some it' \<and> block_at K cmp kvs it' (if i = 0 then length kvs else i - 1)"
    using prev_pos [OF e(2) i] here e(1) by auto
qed

end

text \<open>A client of the builder that adds pairs in order.\<close>

fun add_pairs ::
  "(byte list \<Rightarrow> byte list \<Rightarrow> int) \<Rightarrow> pair list \<Rightarrow> BlockBuilder \<Rightarrow> BlockBuilder option" where
  "add_pairs cmp [] b = Some b"
| "add_pairs cmp ((k, v) # kvs) b = do { b \<leftarrow> BlockBuilder_Add cmp k v b; add_pairs cmp kvs b }"

context block_order
begin

lemma add_pairs_at:
  assumes "builder_at b es" "sorted_wrt (\<lambda>x y. cmp (fst x) (fst y) < 0) (pairs_of es @ kvs)"
    "\<forall>p \<in> set (pairs_of es @ kvs). K (fst p)"
  shows "\<exists>b' es'. add_pairs cmp kvs b = Some b' \<and> builder_at b' es' \<and> pairs_of es' = pairs_of es @ kvs"
  using assms
proof (induction kvs arbitrary: b es)
  case (Cons kv kvs)
  obtain k v where kv: "kv = (k, v)" by fastforce
  have "cmp k (last_key_of es) > 0" if "es \<noteq> []"
  proof -
    have "cmp (e_key (last es)) k < 0" "K (e_key (last es))" "K k"
      using Cons(3,4) that by (auto simp: sorted_wrt_append kv pairs_of_def)
    then show ?thesis using cmp_swap that by (simp add: last_key_of_def)
  qed
  with Add_at [OF Cons(2), of cmp k v] obtain b' s where
    b': "BlockBuilder_Add cmp k v b = Some b'" "builder_at b' (es @ [(s, k, v)])" by blast
  have "pairs_of (es @ [(s, k, v)]) @ kvs = pairs_of es @ kv # kvs" by (simp add: pairs_of_def kv)
  with Cons(1) [OF b'(2)] Cons(3,4) b'(1) show ?case by (simp add: kv)
next
  case Nil
  then show ?case by auto
qed

lemma finished_block:
  assumes "builder_at b es" "sorted_wrt (\<lambda>x y. cmp (fst x) (fst y) < 0) (pairs_of es)"
    "\<forall>p \<in> set (pairs_of es). K (fst p)" "length (fst (BlockBuilder_Finish b)) < 2 ^ 32"
  shows "\<exists>bl it. new_Block (fst (BlockBuilder_Finish b)) = Some bl \<and> Block_NewIterator bl = Some (Inr it) \<and>
     block_at K cmp (pairs_of es) it (length (pairs_of es))"
proof -
  have "block_ok es (bb_restarts b)"
    using assms(1,4) by (intro shape_ok) (simp_all add: Finish_data [OF assms(1)] builder_at_def)
  from new_Block_block [OF this] obtain bl it where
    it: "new_Block (block_data es (bb_restarts b)) = Some bl" "Block_NewIterator bl = Some (Inr it)"
    "at_end es (bb_restarts b) it" by blast
  have "keys_sorted cmp es" using assms(2) unfolding keys_sorted_def by (simp add: sorted_wrt_iff_nth_less)
  moreover have "at_pos es (bb_restarts b) it (length (pairs_of es))" using it(3) by (simp add: at_pos_def)
  moreover have "\<forall>e \<in> set es. K (e_key e)" using assms(3) by (simp add: pairs_of_def)
  ultimately have "block_at K cmp (pairs_of es) it (length (pairs_of es))" unfolding block_at_def by blast
  with it(1,2) show ?thesis unfolding Finish_data [OF assms(1)] by blast
qed

lemma built_block:
  assumes "1 \<le> interval" "sorted_wrt (\<lambda>x y. cmp (fst x) (fst y) < 0) kvs" "\<forall>p \<in> set kvs. K (fst p)"
  shows "\<exists>b0 b. new_BlockBuilder interval = Some b0 \<and> add_pairs cmp kvs b0 = Some b \<and>
     (length (fst (BlockBuilder_Finish b)) < 2 ^ 32 \<longrightarrow>
       (\<exists>bl it. new_Block (fst (BlockBuilder_Finish b)) = Some bl \<and> Block_NewIterator bl = Some (Inr it) \<and>
          block_at K cmp kvs it (length kvs)))"
proof -
  obtain b0 where b0: "new_BlockBuilder interval = Some b0" "builder_at b0 []" using new_builder_at [OF assms(1)] by blast
  obtain b es where b: "add_pairs cmp kvs b0 = Some b" "builder_at b es" "pairs_of es = kvs"
    using add_pairs_at [OF b0(2), of kvs] assms(2,3) by (auto simp: pairs_of_def)
  from finished_block [OF b(2)] assms(2,3) b0(1) b(1,3) show ?thesis by blast
qed

end

text \<open>Blocks of a table are ordered by the internal comparator, those of a test by the byte-wise one.\<close>

interpretation ikey_block: block_order "ikey (\<lambda>_. True)" "icmp slice_compare"
  by unfold_locales

interpretation bytewise_block: block_order "\<lambda>_. True" slice_compare
  by unfold_locales

interpretation ikey_iter: iterator "block_at (ikey (\<lambda>_. True)) (icmp slice_compare)" BlockIter_Valid BlockIter_key
  BlockIter_value BlockIter_Next BlockIter_Prev BlockIter_SeekToFirst BlockIter_SeekToLast
  "BlockIter_Seek (icmp slice_compare)" "ikey (\<lambda>_. True)" "icmp slice_compare"
  by (rule ikey_block.block_iterator)

interpretation bytewise_iter: iterator "block_at (\<lambda>_. True) slice_compare" BlockIter_Valid BlockIter_key
  BlockIter_value BlockIter_Next BlockIter_Prev BlockIter_SeekToFirst BlockIter_SeekToLast
  "BlockIter_Seek slice_compare" "\<lambda>_. True" slice_compare
  by (rule bytewise_block.block_iterator)

section \<open>A corrupt entry can be read past the block\<close>

text \<open>
  An entry whose two lengths add up to 0 in 32 bits passes the test of \<open>DecodeEntry\<close>; \<open>SeekToFirst\<close>
  on a block of it then reads 2^32 - 1 bytes of key from a block of a few bytes.
\<close>

definition overflow_entry :: "byte list" where
  "overflow_entry = 0 # EncodeVarint32 0xFFFFFFFF @ [1]"

lemma overflow_entry_decodes: "DecodeEntry overflow_entry = Some (0, 0xFFFFFFFF, 1, [])"
proof -
  have "GetVarint32Ptr (1 # q) = Some (1, q)" "GetVarint32Ptr (0 # q) = Some (0, q)" for q
    by (simp_all add: GetVarint32Ptr_small)
  moreover have "3 \<le> length overflow_entry"
    using EncodeVarint32_nonempty [of "0xFFFFFFFF"] by (cases "EncodeVarint32 0xFFFFFFFF") (simp_all add: overflow_entry_def)
  ultimately show ?thesis
    by (simp add: DecodeEntry_slow) (simp add: overflow_entry_def GetVarint32Ptr_Encode)
qed

lemma overflow_read:
  "\<exists>bl it. new_Block (overflow_entry @ EncodeFixed32 0 @ EncodeFixed32 1) = Some bl \<and>
     Block_NewIterator bl = Some (Inr it) \<and> BlockIter_SeekToFirst it = None"
proof -
  let ?data = "overflow_entry @ EncodeFixed32 0 @ EncodeFixed32 1" and ?n = "length overflow_entry"
  have n: "2 \<le> ?n" "?n < 2 ^ 32"
    using varint_bytes_length_10 [of "ucast (0xFFFFFFFF :: 32 word)"]
    by (simp_all add: overflow_entry_def EncodeVarint32_leb128)
  have nz: "(of_nat ?n :: 32 word) \<noteq> 0"
  proof
    assume "(of_nat ?n :: 32 word) = 0"
    then have "unat (of_nat ?n :: 32 word) = 0" by simp
    with n show False by (simp add: unat_of_length)
  qed
  let ?it = "\<lparr>bi_data = ?data, bi_restarts = of_nat ?n, bi_num_restarts = 1, bi_current = of_nat ?n,
      bi_restart_index = 1, bi_key = [], bi_value = None, bi_status = Status_OK\<rparr>"
  have "NumRestarts ?data (length ?data) = Some 1" by (simp add: NumRestarts_def)
  then have "\<exists>bl. new_Block ?data = Some bl \<and> Block_NewIterator bl = Some (Inr ?it)"
    by (simp add: new_Block_def Block_NewIterator_def new_BlockIter_def Let_def)
  moreover have u: "unat (of_nat ?n :: 32 word) = ?n" using n(2) by (rule unat_of_length)
  then have "SeekToRestartPoint 0 ?it = Some (?it\<lparr>bi_key := [], bi_restart_index := 0, bi_value := Some (0, 0)\<rparr>)"
    by (simp add: SeekToRestartPoint_def GetRestartPoint_def)
  moreover have "ParseNextKey (?it\<lparr>bi_key := [], bi_restart_index := 0, bi_value := Some (0, 0)\<rparr>) = None"
    using n u nz by (simp add: ParseNextKey_def NextEntryOffset_def overflow_entry_decodes Let_def)
  ultimately show ?thesis by (auto simp: BlockIter_SeekToFirst_def)
qed

end
