(* ===== verification/LdbTableBuilderProof.thy ===== *)
theory LdbTableBuilderProof
  imports LdbTableBuilder LdbBlockProof
begin

text \<open>
  What a table builder leaves in its file, on a disk that may fill up or fail to flush: no assertion
  fails, and if the status is OK in the end the file is a table of the pairs added (\<open>table_file\<close>).
\<close>

section \<open>Files with finite room\<close>

definition roomy :: "PosixFile \<Rightarrow> bool" where
  "roomy f \<longleftrightarrow> (\<exists>k. file_space (pf_file f) = Some k \<and> length (contents f) + k < 2 ^ 63)"

lemma roomy_length: "roomy f \<Longrightarrow> length (contents f) < 2 ^ 63"
  by (auto simp: roomy_def)

lemma Append_roomy:
  assumes "roomy f"
  shows "\<exists>s f'. WritableFile_Append bs f = (s, f') \<and> roomy f' \<and> (status_ok s \<longrightarrow> contents f' = contents f @ bs)"
proof -
  obtain k where k: "file_space (pf_file f) = Some k" "length (contents f) + k < 2 ^ 63" using assms by (auto simp: roomy_def)
  show ?thesis
    using k by (auto simp: WritableFile_Append_def fwrite_unlocked_def Let_def roomy_def posix_IOError_def)
qed

section \<open>Stored blocks\<close>

text \<open>The block with the bytes \<open>raw\<close> is in the file at the handle, as it is or compressed.\<close>

definition stored_as :: "Snappy \<Rightarrow> byte list \<Rightarrow> byte list \<Rightarrow> CompressionType \<Rightarrow> bool" where
  "stored_as snappy raw data t \<longleftrightarrow>
     t = kNoCompression \<and> data = raw \<or> t = kSnappyCompression \<and> Snappy_Compress snappy raw = Some data"

definition stored_at :: "Snappy \<Rightarrow> byte list \<Rightarrow> BlockHandle \<Rightarrow> byte list \<Rightarrow> bool" where
  "stored_at snappy F h raw \<longleftrightarrow>
     (\<exists>before data t rest. F = before @ raw_block data t @ rest \<and> stored_as snappy raw data t \<and>
        bh_offset h = of_nat (length before) \<and> bh_size h = of_nat (length data))"

lemma stored_at_append: "stored_at snappy F h raw \<Longrightarrow> stored_at snappy (F @ G) h raw"
  unfolding stored_at_def by (metis append.assoc)

lemma unat_of_nat_64: "n < 2 ^ 64 \<Longrightarrow> unat (of_nat n :: 64 word) = n"
  by (simp add: unat_of_nat)

lemma ReadBlock_stored:
  assumes "stored_at snappy F h raw" "readable file F" "snappy_ok snappy" "length raw < 2 ^ 32"
  shows "\<exists>c. ReadBlock snappy file verify h = Some (Status_OK, c) \<and> bc_data c = raw"
proof -
  obtain before data t rest where s: "F = before @ raw_block data t @ rest" "stored_as snappy raw data t"
    "bh_offset h = of_nat (length before)" "bh_size h = of_nat (length data)"
    using assms(1) by (auto simp: stored_at_def)
  have "length F < 2 ^ 63" using readable_length [OF assms(2)] .
  then have u: "unat (bh_offset h) = length before" "unat (bh_size h) = length data"
    using s(1,3,4) unat_of_nat_64 [of "length before"] unat_of_nat_64 [of "length data"] by simp_all
  note r = assms(2) [unfolded s(1)]
  show ?thesis
  proof (cases t)
    case kNoCompression
    then have "data = raw" using s(2) by (simp add: stored_as_def)
    with ReadBlock_plain [OF r [unfolded kNoCompression] u, of snappy verify] show ?thesis by auto
  next
    case kSnappyCompression
    then have "Snappy_Compress snappy raw = Some data" using s(2) by (simp add: stored_as_def)
    from ReadBlock_compressed [OF r [unfolded kSnappyCompression] u assms(3) this assms(4), of verify]
    show ?thesis by auto
  qed
qed

text \<open>A block stored without compression.\<close>

lemma ReadBlock_uncompressed:
  assumes "stored_at no_snappy F h raw" "readable file F"
  shows "\<exists>c. ReadBlock snappy file verify h = Some (Status_OK, c) \<and> bc_data c = raw" "length raw \<le> length F"
proof -
  obtain before data t rest where s: "F = before @ raw_block data t @ rest" "stored_as no_snappy raw data t"
    "bh_offset h = of_nat (length before)" "bh_size h = of_nat (length data)"
    using assms(1) by (auto simp: stored_at_def)
  have d: "data = raw" "t = kNoCompression" using s(2) by (simp_all add: stored_as_def no_snappy_def)
  have "length F < 2 ^ 63" using readable_length [OF assms(2)] .
  then have u: "unat (bh_offset h) = length before" "unat (bh_size h) = length data"
    using s(1,3,4) unat_of_nat_64 [of "length before"] unat_of_nat_64 [of "length data"] by simp_all
  from ReadBlock_plain [OF assms(2) [unfolded s(1) d(2)] u, of snappy verify]
  show "\<exists>c. ReadBlock snappy file verify h = Some (Status_OK, c) \<and> bc_data c = raw" using d(1) by auto
  show "length raw \<le> length F" using s(1) d(1) by simp
qed

section \<open>Writing a block\<close>

text \<open>The builder is at the end of its file.\<close>

definition at_file_end :: "TableBuilder \<Rightarrow> bool" where
  "at_file_end t \<longleftrightarrow> roomy (tb_file t) \<and> tb_offset t = of_nat (length (contents (tb_file t)))"

text \<open>A write changes the file and the status, and the offset if it succeeds.\<close>

definition wrote :: "TableBuilder \<Rightarrow> TableBuilder \<Rightarrow> byte list \<Rightarrow> bool" where
  "wrote t t' bs \<longleftrightarrow> (\<exists>f s off. t' = t\<lparr>tb_file := f, tb_status := s, tb_offset := off\<rparr> \<and>
     (if status_ok s then contents f = contents (tb_file t) @ bs \<and> at_file_end t' else off = tb_offset t))"

lemma wrote_sel:
  assumes "wrote t t' bs"
  shows "tb_options t' = tb_options t" "tb_data_block t' = tb_data_block t" "tb_index_block t' = tb_index_block t"
    "tb_last_key t' = tb_last_key t" "tb_num_entries t' = tb_num_entries t" "tb_closed t' = tb_closed t"
    "tb_filter_block t' = tb_filter_block t" "tb_pending_index_entry t' = tb_pending_index_entry t"
    "tb_pending_handle t' = tb_pending_handle t"
  using assms by (auto simp: wrote_def)

lemma wrote_ok:
  "wrote t t' bs \<Longrightarrow> status_ok (tb_status t') \<Longrightarrow>
   contents (tb_file t') = contents (tb_file t) @ bs \<and> at_file_end t'"
  by (auto simp: wrote_def)

lemma wrote_fail: "wrote t t' bs \<Longrightarrow> \<not> status_ok (tb_status t') \<Longrightarrow> tb_offset t' = tb_offset t"
  by (auto simp: wrote_def)

lemma wrote_failI: "\<not> status_ok s \<Longrightarrow> wrote t (t\<lparr>tb_file := f, tb_status := s\<rparr>) bs"
  unfolding wrote_def by (intro exI [of _ f] exI [of _ s] exI [of _ "tb_offset t"]) simp

lemma wrote_okI:
  "status_ok s \<Longrightarrow> contents f = contents (tb_file t) @ bs \<Longrightarrow> roomy f \<Longrightarrow> off = of_nat (length (contents f)) \<Longrightarrow>
   wrote t (t\<lparr>tb_file := f, tb_status := s, tb_offset := off\<rparr>) bs"
  unfolding wrote_def by (intro exI [of _ f] exI [of _ s] exI [of _ off]) (auto simp: at_file_end_def)

lemma WriteRawBlock_wrote:
  assumes "at_file_end t"
  shows "\<exists>t'. WriteRawBlock data type t = Some (\<lparr>bh_offset = tb_offset t, bh_size = of_nat (length data)\<rparr>, t') \<and>
     wrote t t' (raw_block data type)"
proof -
  let ?f = "tb_file t"
  obtain s1 f1 where w1: "WritableFile_Append data ?f = (s1, f1)" "roomy f1"
    "status_ok s1 \<longrightarrow> contents f1 = contents ?f @ data" using Append_roomy assms unfolding at_file_end_def by blast
  show ?thesis
  proof (cases "status_ok s1")
    case False
    then show ?thesis using w1(1) wrote_failI [OF False] by (auto simp: WriteRawBlock_def Let_def)
  next
    case True
    let ?tr = "compression_byte type # EncodeFixed32 (crc_Mask (crc32c 0 (data @ [compression_byte type])))"
    obtain s2 f2 where w2: "WritableFile_Append ?tr f1 = (s2, f2)" "roomy f2"
      "status_ok s2 \<longrightarrow> contents f2 = contents f1 @ ?tr" using Append_roomy [OF w1(2)] by blast
    have crc: "crc_Value 0 data = Some (crc32c 0 data)" by (simp add: crc_Value_def Extend_crc32c)
    have w: "WriteRawBlock data type t = Some (\<lparr>bh_offset = tb_offset t, bh_size = of_nat (length data)\<rparr>,
        let t = t\<lparr>tb_file := f2, tb_status := s2\<rparr> in
        if status_ok s2 then t\<lparr>tb_offset := tb_offset t + of_nat (length data) + kBlockTrailerSize\<rparr> else t)"
      using True w1(1) w2(1) by (simp add: WriteRawBlock_def crc Extend_crc32c crc32c_append Let_def)
    show ?thesis
    proof (cases "status_ok s2")
      case ok: True
      then have c: "contents f2 = contents ?f @ raw_block data type" using w1(3) w2(3) True by (simp add: raw_block_def)
      have "tb_offset t + of_nat (length data) + kBlockTrailerSize = of_nat (length (contents f2))"
        using assms unfolding c by (simp add: at_file_end_def kBlockTrailerSize_def)
      then show ?thesis using w ok wrote_okI [OF ok c w2(2) refl] by (simp add: Let_def)
    next
      case False
      then show ?thesis using w wrote_failI [OF False] by (simp add: Let_def)
    qed
  qed
qed

lemma compressed_form_stored:
  "compressed_form snappy type raw = (data, t) \<Longrightarrow> stored_as snappy raw data t"
  by (auto simp: compressed_form_def stored_as_def split: CompressionType.splits option.splits if_splits)

lemma stored_at_wrote:
  assumes "at_file_end t" "stored_as snappy raw data type"
    "contents (tb_file t') = contents (tb_file t) @ raw_block data type"
  shows "stored_at snappy (contents (tb_file t')) \<lparr>bh_offset = tb_offset t, bh_size = of_nat (length data)\<rparr> raw"
  unfolding stored_at_def using assms
  by (intro exI [of _ "contents (tb_file t)"] exI [of _ data] exI [of _ type] exI [of _ "[]"]) (simp add: at_file_end_def)

lemma wrote_handle_set:
  assumes "at_file_end t" "wrote t t' (raw_block data type)" "status_ok (tb_status t')"
  shows "handle_set \<lparr>bh_offset = tb_offset t, bh_size = of_nat (length data)\<rparr>"
proof -
  have c: "contents (tb_file t') = contents (tb_file t) @ raw_block data type" "at_file_end t'"
    using wrote_ok [OF assms(2,3)] by simp_all
  have "length (contents (tb_file t')) < 2 ^ 63" using c(2) roomy_length by (simp add: at_file_end_def)
  then have l: "length (contents (tb_file t)) < 2 ^ 63" "length data < 2 ^ 63" unfolding c(1) by simp_all
  have n: "of_nat n \<noteq> (NOT 0 :: 64 word)" if "n < 2 ^ 63" for n
  proof
    assume "of_nat n = (NOT 0 :: 64 word)"
    then have "unat (of_nat n :: 64 word) = 2 ^ 64 - 1" by (simp add: unsigned_minus_1_eq_mask mask_eq_exp_minus_1)
    then show False using that unat_of_nat_64 [of n] by simp
  qed
  show ?thesis using n [OF l(1)] n [OF l(2)] assms(1) by (simp add: handle_set_def at_file_end_def)
qed

lemma WriteBlock_wrote:
  assumes "at_file_end t" "status_ok (tb_status t)"
  shows "\<exists>h t' bs. WriteBlock snappy b t = Some (h, BlockBuilder_Reset (snd (BlockBuilder_Finish b)), t') \<and>
     wrote t t' bs \<and> bh_offset h = tb_offset t \<and>
     (status_ok (tb_status t') \<longrightarrow> stored_at snappy (contents (tb_file t')) h (fst (BlockBuilder_Finish b)) \<and>
        5 \<le> length bs \<and> handle_set h)"
proof -
  obtain raw b' where raw: "BlockBuilder_Finish b = (raw, b')" by fastforce
  obtain data type where f: "compressed_form snappy (opt_compression (tb_options t)) raw = (data, type)" by fastforce
  let ?h = "\<lparr>bh_offset = tb_offset t, bh_size = of_nat (length data)\<rparr>"
  obtain t' where w: "WriteRawBlock data type t = Some (?h, t')" "wrote t t' (raw_block data type)"
    using WriteRawBlock_wrote [OF assms(1)] by blast
  have "WriteBlock snappy b t = Some (?h, BlockBuilder_Reset b', t')"
    using assms(2) by (simp add: WriteBlock_def raw f w(1))
  moreover have "stored_at snappy (contents (tb_file t')) ?h raw \<and> handle_set ?h" if ok: "status_ok (tb_status t')"
  proof -
    have c: "contents (tb_file t') = contents (tb_file t) @ raw_block data type"
      using wrote_ok [OF w(2) ok] by simp
    have "handle_set ?h" by (rule wrote_handle_set [OF assms(1) w(2) ok])
    with stored_at_wrote [OF assms(1) compressed_form_stored [OF f] c] show ?thesis by simp
  qed
  ultimately show ?thesis using w(2) by (auto simp: raw intro!: exI [of _ "raw_block data type"])
qed

section \<open>The state between two additions\<close>

text \<open>The bytes of a block open to an iterator over the pairs.\<close>

definition holds_pairs ::
  "(byte list \<Rightarrow> bool) \<Rightarrow> (byte list \<Rightarrow> byte list \<Rightarrow> int) \<Rightarrow> byte list \<Rightarrow> pair list \<Rightarrow> bool" where
  "holds_pairs K cmp raw kvs \<longleftrightarrow> length raw < 2 ^ 32 \<and>
     (\<exists>bl it. new_Block raw = Some bl \<and> Block_NewIterator bl = Some (Inr it) \<and> block_at K cmp kvs it (length kvs))"

text \<open>The blocks written so far, with their handles; \<open>cur\<close> are the pairs that wait in the data block.\<close>

type_synonym blocks = "(pair list \<times> BlockHandle) list"

abbreviation (input) pairs_in :: "blocks \<Rightarrow> pair list" where "pairs_in done \<equiv> concat (map fst done)"

definition block_stored ::
  "(byte list \<Rightarrow> bool) \<Rightarrow> (byte list \<Rightarrow> byte list \<Rightarrow> int) \<Rightarrow> Snappy \<Rightarrow> byte list \<Rightarrow> pair list \<times> BlockHandle \<Rightarrow> bool" where
  "block_stored K cmp snappy F b \<longleftrightarrow> fst b \<noteq> [] \<and> handle_set (snd b) \<and>
     (\<exists>raw. stored_at snappy F (snd b) raw \<and> holds_pairs K cmp raw (fst b))"

text \<open>An index entry: between the last key of its block and the keys \<open>later\<close>.\<close>

definition index_entry ::
  "(byte list \<Rightarrow> bool) \<Rightarrow> (byte list \<Rightarrow> byte list \<Rightarrow> int) \<Rightarrow> pair \<Rightarrow> pair list \<times> BlockHandle \<Rightarrow> pair list \<Rightarrow> bool" where
  "index_entry K cmp e b later \<longleftrightarrow> snd e = handle_bytes (snd b) \<and> K (fst e) \<and>
     cmp (fst (last (fst b))) (fst e) \<le> 0 \<and> length (fst e) \<le> length (fst (last (fst b))) \<and>
     (\<forall>p \<in> set later. cmp (fst e) (fst p) < 0)"

definition index_ok ::
  "(byte list \<Rightarrow> bool) \<Rightarrow> (byte list \<Rightarrow> byte list \<Rightarrow> int) \<Rightarrow> pair list \<Rightarrow> blocks \<Rightarrow> pair list \<Rightarrow> bool" where
  "index_ok K cmp idx done cur \<longleftrightarrow> length idx \<le> length done \<and>
     (\<forall>i<length idx. index_entry K cmp (idx ! i) (done ! i) (pairs_in (drop (Suc i) done) @ cur))"

text \<open>The blocks of the filter: those of the table, by their offsets.\<close>

definition filter_blocks :: "blocks \<Rightarrow> pair list \<Rightarrow> 64 word \<Rightarrow> (64 word \<times> byte list list) list" where
  "filter_blocks done cur off = map (\<lambda>b. (bh_offset (snd b), map fst (fst b))) done @ [(off, map fst cur)]"

definition filters_at :: "FilterPolicy option \<Rightarrow> TableBuilder \<Rightarrow> (64 word \<times> byte list list) list \<Rightarrow> bool" where
  "filters_at policy t bs \<longleftrightarrow>
     (case policy of
        None \<Rightarrow> tb_filter_block t = None
      | Some p \<Rightarrow> \<exists>fb. tb_filter_block t = Some (p, fb) \<and> build_filters (fp_CreateFilter p) bs new_FilterBlockBuilder = Some fb)"

definition pairs_size :: "pair list \<Rightarrow> nat" where
  "pairs_size kvs = sum_list (map (\<lambda>p. length (fst p) + length (snd p) + 64) kvs)"

text \<open>
  \<open>tb_tail\<close> is what holds of the written blocks and the index while all is well, \<open>tb_core\<close> also of the
  data block and the filters; in \<open>tb_inv\<close> the builder is between two operations.
\<close>

definition tb_tail ::
  "(byte list \<Rightarrow> bool) \<Rightarrow> (byte list \<Rightarrow> byte list \<Rightarrow> int) \<Rightarrow> Snappy \<Rightarrow> Options \<Rightarrow> TableBuilder \<Rightarrow>
   blocks \<Rightarrow> pair list \<Rightarrow> pair list \<Rightarrow> bool" where
  "tb_tail K cmp snappy opts t done cur idx \<longleftrightarrow>
     tb_options t = opts \<and> status_ok (tb_status t) \<and> at_file_end t \<and>
     (\<exists>es. builder_at (tb_index_block t) es \<and> pairs_of es = idx) \<and>
     (if tb_pending_index_entry t
      then cur = [] \<and> length done = Suc (length idx) \<and> tb_pending_handle t = snd (last done)
      else length done = length idx) \<and>
     (\<forall>b \<in> set done. block_stored K cmp snappy (contents (tb_file t)) b) \<and>
     index_ok K cmp idx done cur"

definition tb_core ::
  "(byte list \<Rightarrow> bool) \<Rightarrow> (byte list \<Rightarrow> byte list \<Rightarrow> int) \<Rightarrow> Snappy \<Rightarrow> Options \<Rightarrow> TableBuilder \<Rightarrow>
   blocks \<Rightarrow> pair list \<Rightarrow> pair list \<Rightarrow> bool" where
  "tb_core K cmp snappy opts t done cur idx \<longleftrightarrow> tb_tail K cmp snappy opts t done cur idx \<and>
     (\<exists>es. builder_at (tb_data_block t) es \<and> pairs_of es = cur) \<and>
     sorted_wrt (<) (map (\<lambda>b. bh_offset (snd b)) done @ [tb_offset t]) \<and>
     filters_at (opt_filter_policy opts) t (filter_blocks done cur (tb_offset t))"

definition tb_inv ::
  "(byte list \<Rightarrow> bool) \<Rightarrow> (byte list \<Rightarrow> byte list \<Rightarrow> int) \<Rightarrow> Snappy \<Rightarrow> Options \<Rightarrow> TableBuilder \<Rightarrow>
   blocks \<Rightarrow> pair list \<Rightarrow> pair list \<Rightarrow> bool" where
  "tb_inv K cmp snappy opts t done cur idx \<longleftrightarrow> tb_core K cmp snappy opts t done cur idx \<and> \<not> tb_closed t \<and>
     tb_num_entries t = int (length (pairs_in done @ cur)) \<and>
     (pairs_in done @ cur \<noteq> [] \<longrightarrow> tb_last_key t = fst (last (pairs_in done @ cur))) \<and>
     (\<not> tb_pending_index_entry t \<longrightarrow> cur = [] \<longrightarrow> done = [])"

text \<open>After an error every operation does nothing.\<close>

definition tb_dead :: "TableBuilder \<Rightarrow> bool" where
  "tb_dead t \<longleftrightarrow> \<not> tb_closed t \<and> \<not> status_ok (tb_status t)"

lemma dead_Add: "tb_dead t \<Longrightarrow> TableBuilder_Add snappy k v t = Some t"
  by (simp add: tb_dead_def TableBuilder_Add_def)

lemma dead_Flush: "tb_dead t \<Longrightarrow> TableBuilder_Flush snappy t = Some t"
  by (simp add: tb_dead_def TableBuilder_Flush_def)

lemma dead_Finish:
  "tb_dead t \<Longrightarrow> \<exists>t'. TableBuilder_Finish snappy t = Some (tb_status t', t') \<and> \<not> status_ok (tb_status t')"
  by (simp add: TableBuilder_Finish_def dead_Flush)
    (auto simp: tb_dead_def write_filter_block_def write_metaindex_block_def write_index_block_def
      write_footer_def split: option.splits)

section \<open>The filters\<close>

lemma build_filters_append:
  "build_filters create (bs @ [(off, ks)]) s =
     do { s \<leftarrow> build_filters create bs s; s \<leftarrow> StartBlock create off s; Some (fold AddKey ks s) }"
  by (induction bs arbitrary: s) auto

lemma build_filters_AddKey:
  "build_filters create (bs @ [(off, ks)]) s = Some fb \<Longrightarrow>
   build_filters create (bs @ [(off, ks @ [k])]) s = Some (AddKey k fb)"
  by (auto simp: build_filters_append split: Option.bind_splits)

lemma filters_AddKey:
  assumes "filters_at policy t (filter_blocks done cur off)"
  shows "filters_at policy (filter_AddKey k t) (filter_blocks done (cur @ [(k, v)]) off)"
  using assms build_filters_AddKey
  by (fastforce simp: filters_at_def filter_AddKey_def filter_blocks_def split: option.splits)

lemma filters_same: "tb_filter_block t' = tb_filter_block t \<Longrightarrow> filters_at policy t' bs = filters_at policy t bs"
  by (simp add: filters_at_def split: option.splits)

lemma at_file_end_update [simp]:
  "at_file_end (tb_last_key_update x1 t) = at_file_end t"
  "at_file_end (tb_index_block_update x2 t) = at_file_end t"
  "at_file_end (tb_pending_index_entry_update x3 t) = at_file_end t"
  "at_file_end (tb_num_entries_update x4 t) = at_file_end t"
  "at_file_end (tb_data_block_update x5 t) = at_file_end t"
  "at_file_end (tb_closed_update x6 t) = at_file_end t"
  "at_file_end (tb_status_update x7 t) = at_file_end t"
  "at_file_end (tb_pending_handle_update x8 t) = at_file_end t"
  "at_file_end (tb_filter_block_update x9 t) = at_file_end t"
  by (simp_all add: at_file_end_def)

lemma filters_at_update [simp]:
  "filters_at policy (tb_last_key_update x10 t) bs = filters_at policy t bs"
  "filters_at policy (tb_index_block_update x11 t) bs = filters_at policy t bs"
  "filters_at policy (tb_pending_index_entry_update x12 t) bs = filters_at policy t bs"
  "filters_at policy (tb_num_entries_update x13 t) bs = filters_at policy t bs"
  "filters_at policy (tb_data_block_update x14 t) bs = filters_at policy t bs"
  "filters_at policy (tb_closed_update x15 t) bs = filters_at policy t bs"
  "filters_at policy (tb_status_update x16 t) bs = filters_at policy t bs"
  "filters_at policy (tb_pending_handle_update x17 t) bs = filters_at policy t bs"
  "filters_at policy (tb_file_update x18 t) bs = filters_at policy t bs"
  "filters_at policy (tb_offset_update x19 t) bs = filters_at policy t bs"
  by (simp_all add: filters_at_def split: option.splits)

lemma filter_blocks_done:
  "bh_offset h = off \<Longrightarrow> filter_blocks (done @ [(cur, h)]) [] off' = filter_blocks done cur off @ [(off', [])]"
  by (simp add: filter_blocks_def)

lemma filter_blocks_keys: "concat (map snd (filter_blocks done cur off)) = map fst (pairs_in done @ cur)"
  by (simp add: filter_blocks_def comp_def map_concat)

lemma filter_blocks_fst: "map fst (filter_blocks done cur off) = map (\<lambda>b. bh_offset (snd b)) done @ [off]"
  by (simp add: filter_blocks_def)

context filter_policy
begin

lemma build_filters_ok:
  assumes "\<forall>k \<in> set (concat (map snd bs)). K k" "length (concat (map snd bs)) < 2 ^ 31" "sorted (map fst bs)"
  shows "\<exists>fb. build_filters create_filter bs new_FilterBlockBuilder = Some fb"
proof -
  have "\<forall>(_, keys) \<in> set bs. \<forall>k \<in> set keys. K k" using assms(1) by fastforce
  with filter_block_covers [of bs] assms(2,3) show ?thesis by auto
qed

lemma StartBlock_ok:
  assumes "\<forall>k \<in> set (concat (map snd bs)). K k" "length (concat (map snd bs)) < 2 ^ 31"
    "sorted (map fst bs @ [off])" "build_filters create_filter bs new_FilterBlockBuilder = Some fb"
  shows "\<exists>fb'. StartBlock create_filter off fb = Some fb' \<and>
     build_filters create_filter (bs @ [(off, [])]) new_FilterBlockBuilder = Some fb'"
proof -
  have "\<exists>fb'. build_filters create_filter (bs @ [(off, [])]) new_FilterBlockBuilder = Some fb'"
    by (rule build_filters_ok) (use assms in simp_all)
  then show ?thesis using assms(4) by (auto simp: build_filters_append split: Option.bind_splits)
qed

end

section \<open>Sizes\<close>

lemma pairs_size_simps [simp]:
  "pairs_size [] = 0" "pairs_size (p # ps) = length (fst p) + length (snd p) + 64 + pairs_size ps"
  "pairs_size (ps @ qs) = pairs_size ps + pairs_size qs"
  by (simp_all add: pairs_size_def)

lemma entries_size_pairs: "entries_size es \<le> pairs_size (pairs_of es)"
  by (induction es) (simp_all add: entries_size_def pairs_of_def)

lemma pairs_size_length: "64 * length ps \<le> pairs_size ps"
  by (induction ps) simp_all

lemma pairs_size_mem: "p \<in> set ps \<Longrightarrow> length (fst p) + 64 \<le> pairs_size ps"
  by (induction ps) auto

text \<open>The index has one entry for each block, which is not empty.\<close>

lemma index_size:
  assumes "length idx = length done" "\<forall>b \<in> set done. fst b \<noteq> []"
    "\<forall>i<length idx. snd (idx ! i) = handle_bytes (snd (done ! i)) \<and>
       length (fst (idx ! i)) \<le> length (fst (last (fst (done ! i))))"
    and "pairs_of es = idx"
  shows "entries_size es \<le> pairs_size (pairs_in done)"
  using assms
proof (induction es arbitrary: idx "done")
  case Nil
  then show ?case by (simp add: entries_size_def)
next
  case (Cons e es)
  then obtain b bs where d: "done = b # bs" by (cases "done") (auto simp: pairs_of_def)
  have e: "length (e_value e) \<le> 20" "length (e_key e) \<le> length (fst (last (fst b)))" "fst b \<noteq> []"
    using Cons.prems(2,3) handle_bytes_length [of "snd b"] Cons.prems(4)
    by (auto simp: d pairs_of_def kMaxEncodedLength_def)
  have "length (fst (last (fst b))) + 64 \<le> pairs_size (fst b)" by (rule pairs_size_mem) (use e(3) in simp)
  moreover have "entries_size es \<le> pairs_size (pairs_in bs)"
  proof (rule Cons.IH [of "pairs_of es" bs])
    show "length (pairs_of es) = length bs" "\<forall>b \<in> set bs. fst b \<noteq> []"
      using Cons.prems by (auto simp: d pairs_of_def)
    show "\<forall>i<length (pairs_of es). snd (pairs_of es ! i) = handle_bytes (snd (bs ! i)) \<and>
        length (fst (pairs_of es ! i)) \<le> length (fst (last (fst (bs ! i))))"
      using Cons.prems(3,4) by (auto simp: d pairs_of_def All_less_Suc2)
  qed simp
  ultimately show ?case using e by (simp add: d entries_size_def)
qed

section \<open>The operations\<close>

text \<open>Pairs that can be put into a table.\<close>

definition table_pairs ::
  "(byte list \<Rightarrow> bool) \<Rightarrow> (byte list \<Rightarrow> byte list \<Rightarrow> int) \<Rightarrow> Options \<Rightarrow> pair list \<Rightarrow> bool" where
  "table_pairs K cmp opts kvs \<longleftrightarrow> sorted_wrt (\<lambda>x y. cmp (fst x) (fst y) < 0) kvs \<and> (\<forall>p \<in> set kvs. K (fst p)) \<and>
     pairs_size kvs + (case opt_filter_policy opts of None \<Rightarrow> 0 | Some p \<Rightarrow> length (fp_Name p)) + 200 < 2 ^ 32"

lemma table_pairs_prefix: "table_pairs K cmp opts (kvs @ rest) \<Longrightarrow> table_pairs K cmp opts kvs"
  by (auto simp: table_pairs_def sorted_wrt_append)

lemma table_pairs_part:
  "table_pairs K cmp opts (as @ bs @ cs) \<Longrightarrow> sorted_wrt (\<lambda>x y. cmp (fst x) (fst y) < 0) bs \<and> (\<forall>p \<in> set bs. K (fst p)) \<and>
     pairs_size bs + 200 < 2 ^ 32"
  by (auto simp: table_pairs_def sorted_wrt_append)

locale table_order = comparator K cmp sep succ + block_order K cmp
  for K :: "byte list \<Rightarrow> bool" and cmp :: "byte list \<Rightarrow> byte list \<Rightarrow> int" and sep and succ +
  fixes opts :: Options
  assumes options: "cmp_Compare (opt_comparator opts) = cmp" "cmp_FindShortestSeparator (opt_comparator opts) = sep"
      "cmp_FindShortSuccessor (opt_comparator opts) = succ" "1 \<le> opt_block_restart_interval opts"
    and sep_length: "K a \<Longrightarrow> K b \<Longrightarrow> length (sep a b) \<le> length a"
    and succ_length: "K a \<Longrightarrow> length (succ a) \<le> length a"
    and policy: "opt_filter_policy opts = Some p \<Longrightarrow> filter_policy K (fp_CreateFilter p) (fp_KeyMayMatch p)"
begin

lemma filter_start:
  assumes "filters_at (opt_filter_policy opts) t bs" "\<forall>k \<in> set (concat (map snd bs)). K k"
    "length (concat (map snd bs)) < 2 ^ 31" "sorted (map fst bs @ [off])"
  shows "\<exists>fb. filter_StartBlock off t = Some (t\<lparr>tb_filter_block := fb\<rparr>) \<and>
     filters_at (opt_filter_policy opts) (t\<lparr>tb_filter_block := fb\<rparr>) (bs @ [(off, [])])"
proof (cases "opt_filter_policy opts")
  case None
  then show ?thesis
    using assms(1) by (intro exI [of _ None]) (simp add: filters_at_def filter_StartBlock_def)
next
  case (Some p)
  then obtain fb where fb: "tb_filter_block t = Some (p, fb)"
    "build_filters (fp_CreateFilter p) bs new_FilterBlockBuilder = Some fb"
    using assms(1) by (auto simp: filters_at_def)
  obtain fb' where "StartBlock (fp_CreateFilter p) off fb = Some fb'"
    "build_filters (fp_CreateFilter p) (bs @ [(off, [])]) new_FilterBlockBuilder = Some fb'"
    using filter_policy.StartBlock_ok [OF policy [OF Some] assms(2-4) fb(2)] by blast
  then show ?thesis
    using Some fb(1) by (intro exI [of _ "Some (p, fb')"]) (simp add: filters_at_def filter_StartBlock_def)
qed

lemma core_keys:
  assumes "table_pairs K cmp opts (pairs_in done @ cur)"
  shows "\<forall>k \<in> set (concat (map snd (filter_blocks done cur off))). K k"
    "length (concat (map snd (filter_blocks done cur off))) < 2 ^ 31"
proof -
  show "\<forall>k \<in> set (concat (map snd (filter_blocks done cur off))). K k"
    using assms unfolding filter_blocks_keys table_pairs_def by auto
  have "64 * length (pairs_in done @ cur) < 2 ^ 32"
    using pairs_size_length [of "pairs_in done @ cur"] assms unfolding table_pairs_def by linarith
  then show "length (concat (map snd (filter_blocks done cur off))) < 2 ^ 31" unfolding filter_blocks_keys by simp
qed

text \<open>A data block is small enough, and opens to its pairs.\<close>

lemma finished_holds:
  assumes "builder_at b es" "table_pairs K cmp opts (as @ pairs_of es @ cs)"
  shows "holds_pairs K cmp (fst (BlockBuilder_Finish b)) (pairs_of es)"
proof -
  note tp = table_pairs_part [OF assms(2)]
  have "length (fst (BlockBuilder_Finish b)) < 2 ^ 32"
    using Finish_length [OF assms(1)] entries_size_pairs [of es] tp by linarith
  then show ?thesis using finished_block [OF assms(1)] tp by (simp add: holds_pairs_def)
qed

lemma stored_wrote:
  "wrote t t' bs \<Longrightarrow> status_ok (tb_status t') \<Longrightarrow> block_stored K cmp snappy (contents (tb_file t)) b \<Longrightarrow>
   block_stored K cmp snappy (contents (tb_file t')) b"
  using stored_at_append by (fastforce simp: block_stored_def dest: wrote_ok)

lemma offset_grows:
  assumes "wrote t t' bs" "status_ok (tb_status t')" "at_file_end t" "5 \<le> length bs"
  shows "tb_offset t < tb_offset t'"
proof -
  have c: "contents (tb_file t') = contents (tb_file t) @ bs" "at_file_end t'" using wrote_ok [OF assms(1,2)] by simp_all
  have "length (contents (tb_file t')) < 2 ^ 63" using c(2) roomy_length by (simp add: at_file_end_def)
  then have "length (contents (tb_file t)) < 2 ^ 64" "length (contents (tb_file t')) < 2 ^ 64" unfolding c(1) by simp_all
  moreover have "bs \<noteq> []" using assms(4) by auto
  ultimately show ?thesis using assms(3) c
    by (simp add: at_file_end_def word_less_nat_alt unat_of_nat_64 del: of_nat_add)
qed

lemma index_ok_done: "index_ok K cmp idx done cur \<Longrightarrow> index_ok K cmp idx (done @ [(cur, h)]) []"
  by (auto simp: index_ok_def nth_append)

lemma flush_inv:
  assumes inv: "tb_inv K cmp snappy opts t done cur idx" and pairs: "table_pairs K cmp opts (pairs_in done @ cur)"
  shows "\<exists>t'. TableBuilder_Flush snappy t = Some t' \<and>
     (tb_dead t' \<or> (if cur = [] then t' = t else \<exists>h. tb_inv K cmp snappy opts t' (done @ [(cur, h)]) [] idx))"
proof -
  have core: "tb_core K cmp snappy opts t done cur idx" and inv':
    "\<not> tb_closed t" "tb_num_entries t = int (length (pairs_in done @ cur))"
    "pairs_in done @ cur \<noteq> [] \<Longrightarrow> tb_last_key t = fst (last (pairs_in done @ cur))"
    using inv by (simp_all add: tb_inv_def)
  obtain es where es: "builder_at (tb_data_block t) es" "pairs_of es = cur" using core by (auto simp: tb_core_def tb_tail_def)
  have st: "status_ok (tb_status t)" "at_file_end t" using core by (simp_all add: tb_core_def tb_tail_def)
  have e: "BlockBuilder_empty (tb_data_block t) \<longleftrightarrow> cur = []"
    using es buffer_empty [of es] by (auto simp: BlockBuilder_empty_def builder_at_def pairs_of_def)
  show ?thesis
  proof (cases "cur = []")
    case True
    then show ?thesis using inv'(1) st(1) e by (auto simp: TableBuilder_Flush_def)
  next
    case False
    then have np: "\<not> tb_pending_index_entry t" "length done = length idx" using core by (auto simp: tb_core_def tb_tail_def split: if_splits)
    obtain h t1 bs where w: "WriteBlock snappy (tb_data_block t) t =
        Some (h, BlockBuilder_Reset (snd (BlockBuilder_Finish (tb_data_block t))), t1)"
      "wrote t t1 bs" "bh_offset h = tb_offset t"
      "status_ok (tb_status t1) \<Longrightarrow> stored_at snappy (contents (tb_file t1)) h (fst (BlockBuilder_Finish (tb_data_block t))) \<and>
         5 \<le> length bs \<and> handle_set h"
      using WriteBlock_wrote [OF st(2,1), of snappy "tb_data_block t"] by blast
    let ?b = "BlockBuilder_Reset (snd (BlockBuilder_Finish (tb_data_block t)))"
    let ?t2 = "t1\<lparr>tb_data_block := ?b, tb_pending_handle := h\<rparr>"
    let ?t3 = "if status_ok (tb_status ?t2)
      then ?t2\<lparr>tb_pending_index_entry := True, tb_status := WritableFile_Flush (tb_file ?t2)\<rparr> else ?t2"
    note sel = wrote_sel [OF w(2)]
    have le: "tb_offset t \<le> tb_offset t1"
      using wrote_fail [OF w(2)] offset_grows [OF w(2) _ st(2)] w(4) by (cases "status_ok (tb_status t1)") auto
    have srt: "sorted_wrt (<) (map (\<lambda>b. bh_offset (snd b)) done @ [tb_offset t])" using core by (simp add: tb_core_def tb_tail_def)
    then have "sorted (map fst (filter_blocks done cur (tb_offset t)) @ [tb_offset ?t3])"
      using le strict_sorted_imp_sorted [OF srt] unfolding filter_blocks_fst
      by (auto simp: sorted_append sorted_wrt_append)
    moreover have "filters_at (opt_filter_policy opts) ?t3 (filter_blocks done cur (tb_offset t))"
      using core sel(7) by (simp add: tb_core_def tb_tail_def filters_at_def split: option.splits)
    ultimately obtain fb where f: "filter_StartBlock (tb_offset ?t3) ?t3 = Some (?t3\<lparr>tb_filter_block := fb\<rparr>)"
      "filters_at (opt_filter_policy opts) (?t3\<lparr>tb_filter_block := fb\<rparr>)
         (filter_blocks done cur (tb_offset t) @ [(tb_offset ?t3, [])])"
      using filter_start core_keys [OF pairs] by blast
    let ?t' = "?t3\<lparr>tb_filter_block := fb\<rparr>"
    have flush: "TableBuilder_Flush snappy t = Some ?t'"
      using inv'(1) st(1) e False np(1) w(1) f(1) by (simp add: TableBuilder_Flush_def Let_def)
    show ?thesis
    proof (cases "status_ok (tb_status ?t')")
      case bad: False
      then have "tb_dead ?t'" using sel(6) inv'(1) by (simp add: tb_dead_def)
      with flush show ?thesis by blast
    next
      case ok: True
      then have ok1: "status_ok (tb_status t1)" by (auto split: if_splits)
      note wok = wrote_ok [OF w(2) ok1]
      have "1 \<le> bb_interval (snd (BlockBuilder_Finish (tb_data_block t)))" using es(1) by (simp add: builder_at_def)
      from Reset_at [OF this] have data: "builder_at ?b []" "pairs_of [] = []" by (simp_all add: pairs_of_def)
      have "holds_pairs K cmp (fst (BlockBuilder_Finish (tb_data_block t))) cur"
        using finished_holds [OF es(1), of "pairs_in done" "[]"] pairs es(2) by simp
      then have new: "block_stored K cmp snappy (contents (tb_file t1)) (cur, h)"
        using w(4) [OF ok1] False by (auto simp: block_stored_def)
      have old: "\<forall>b \<in> set done. block_stored K cmp snappy (contents (tb_file t1)) b"
        using core stored_wrote [OF w(2) ok1] by (simp add: tb_core_def tb_tail_def)
      have "sorted_wrt (<) (map (\<lambda>b. bh_offset (snd b)) (done @ [(cur, h)]) @ [tb_offset t1])"
        using srt offset_grows [OF w(2) ok1 st(2)] w(3,4) ok1 by (auto simp: sorted_wrt_append)
      moreover have "filters_at (opt_filter_policy opts) ?t' (filter_blocks (done @ [(cur, h)]) [] (tb_offset t1))"
        using f(2) ok1 filter_blocks_done [OF w(3)] by simp
      moreover have "index_ok K cmp idx (done @ [(cur, h)]) []" by (rule index_ok_done) (use core in \<open>simp add: tb_core_def tb_tail_def\<close>)
      moreover have "\<exists>es. builder_at (tb_index_block ?t') es \<and> pairs_of es = idx" using core sel(3) ok1 by (simp add: tb_core_def tb_tail_def)
      moreover have "\<exists>es. builder_at (tb_data_block ?t') es \<and> pairs_of es = []" using data ok1 by auto
      moreover have "at_file_end ?t'" using wok ok1 by (simp add: at_file_end_def)
      moreover have "tb_options ?t' = opts" using sel(1) core ok1 by (simp add: tb_core_def tb_tail_def)
      ultimately have "tb_core K cmp snappy opts ?t' (done @ [(cur, h)]) [] idx"
        using ok ok1 new old np(2) unfolding tb_core_def tb_tail_def by simp
      then have "tb_inv K cmp snappy opts ?t' (done @ [(cur, h)]) [] idx"
        using inv' sel ok1 False by (simp add: tb_inv_def)
      then show ?thesis using flush False by auto
    qed
  qed
qed

text \<open>An index entry for the block that waits for one.\<close>

lemma last_index_key:
  assumes "index_ok K cmp idx done cur" "i < length idx" "Suc i < length done" "fst (done ! Suc i) \<noteq> []"
  shows "cmp (fst (idx ! i)) (fst (last (fst (done ! Suc i)))) < 0" "K (fst (idx ! i))"
proof -
  have "last (fst (done ! Suc i)) \<in> set (pairs_in (drop (Suc i) done) @ cur)"
    using assms(3,4) by (auto simp: Cons_nth_drop_Suc [symmetric])
  then show "cmp (fst (idx ! i)) (fst (last (fst (done ! Suc i)))) < 0" "K (fst (idx ! i))"
    using assms(1,2) by (auto simp: index_ok_def index_entry_def)
qed

lemma index_step:
  assumes core: "tb_tail K cmp snappy opts t done [] idx" and pending: "tb_pending_index_entry t"
    and key: "K key" "cmp (fst (last (fst (last done)))) key \<le> 0" "length key \<le> length (fst (last (fst (last done))))"
    and last: "K (fst (last (fst (last done))))"
  shows "\<exists>ib. add_index_entry key t = Some (t\<lparr>tb_last_key := key, tb_index_block := ib, tb_pending_index_entry := False\<rparr>) \<and>
     tb_tail K cmp snappy opts (t\<lparr>tb_last_key := key, tb_index_block := ib, tb_pending_index_entry := False\<rparr>)
       done [] (idx @ [(key, handle_bytes (snd (last done)))])"
proof -
  have n: "length done = Suc (length idx)" "tb_pending_handle t = snd (last done)" "tb_options t = opts"
    using core pending by (simp_all add: tb_tail_def)
  then have "done \<noteq> []" by auto
  with n(1) have ld: "last done = done ! length idx" "done \<noteq> []" by (simp_all add: last_conv_nth)
  have stored: "\<forall>b \<in> set done. block_stored K cmp snappy (contents (tb_file t)) b" and ix: "index_ok K cmp idx done []"
    using core by (simp_all add: tb_tail_def)
  then have "handle_set (snd (last done))" using ld(2) by (simp add: block_stored_def)
  then have h: "BlockHandle_EncodeTo (tb_pending_handle t) [] = Some (handle_bytes (snd (last done)))"
    using n(2) by (simp add: BlockHandle_EncodeTo_bytes)
  obtain es where es: "builder_at (tb_index_block t) es" "pairs_of es = idx" using core by (auto simp: tb_tail_def)
  have "cmp key (last_key_of es) > 0" if ne: "es \<noteq> []"
  proof -
    let ?i = "length idx - 1"
    have i: "?i < length idx" "Suc ?i < length done" "Suc ?i = length idx" using ne es(2) n(1) by (auto simp: pairs_of_def)
    have "done ! Suc ?i \<in> set done" using i(2) by simp
    then have "fst (done ! Suc ?i) \<noteq> []" using stored by (simp add: block_stored_def)
    from last_index_key [OF ix i(1,2) this] have k: "cmp (fst (idx ! ?i)) (fst (last (fst (last done)))) < 0" "K (fst (idx ! ?i))"
      using ld(1) i(3) by simp_all
    have "last_key_of es = fst (idx ! ?i)" using ne es(2) by (auto simp: last_key_of_def pairs_of_def last_conv_nth)
    then show ?thesis using cmp_less_le [OF k(2) last key(1) k(1) key(2)] cmp_swap [OF k(2) key(1)] by simp
  qed
  then obtain ib s where ib: "BlockBuilder_Add cmp key (handle_bytes (snd (last done))) (tb_index_block t) = Some ib"
    "builder_at ib (es @ [(s, key, handle_bytes (snd (last done)))])" using Add_at [OF es(1)] by blast
  let ?idx = "idx @ [(key, handle_bytes (snd (last done)))]"
  have "pairs_of (es @ [(s, key, handle_bytes (snd (last done)))]) = ?idx" using es(2) by (simp add: pairs_of_def)
  then have block: "\<exists>es. builder_at ib es \<and> pairs_of es = ?idx" using ib(2) by blast
  have "index_entry K cmp (?idx ! i) (done ! i) (pairs_in (drop (Suc i) done) @ [])" if i: "i < length ?idx" for i
  proof (cases "i < length idx")
    case True
    then show ?thesis using ix by (simp add: index_ok_def nth_append)
  next
    case False
    then have "i = length idx" using i by simp
    then show ?thesis using key ld(1) n(1) by (simp add: index_entry_def)
  qed
  then have "index_ok K cmp ?idx done []" using n(1) by (simp add: index_ok_def)
  then have "tb_tail K cmp snappy opts (t\<lparr>tb_last_key := key, tb_index_block := ib, tb_pending_index_entry := False\<rparr>) done [] ?idx"
    using core block n(1) by (simp add: tb_tail_def)
  moreover have "add_index_entry key t = Some (t\<lparr>tb_last_key := key, tb_index_block := ib, tb_pending_index_entry := False\<rparr>)"
    using ib(1) n(3) options by (simp add: add_index_entry_def h)
  ultimately show ?thesis by blast
qed

lemma core_step:
  assumes "tb_core K cmp snappy opts t done cur idx"
    "tb_tail K cmp snappy opts (t\<lparr>tb_last_key := key, tb_index_block := ib, tb_pending_index_entry := False\<rparr>) done cur idx'"
  shows "tb_core K cmp snappy opts (t\<lparr>tb_last_key := key, tb_index_block := ib, tb_pending_index_entry := False\<rparr>) done cur idx'"
  using assms by (simp add: tb_core_def)

text \<open>A pair above all others joins the data block.\<close>

lemma pair_step:
  assumes core: "tb_core K cmp snappy opts t done cur idx" and np: "\<not> tb_pending_index_entry t"
    and pairs: "table_pairs K cmp opts (pairs_in done @ cur @ [(k, v)])"
    and above: "\<forall>i<length idx. cmp (fst (idx ! i)) k < 0"
  shows "\<exists>db. BlockBuilder_Add cmp k v (tb_data_block t) = Some db \<and>
     tb_core K cmp snappy opts (filter_AddKey k t\<lparr>tb_last_key := k, tb_num_entries := n, tb_data_block := db\<rparr>)
       done (cur @ [(k, v)]) idx"
proof -
  obtain es where es: "builder_at (tb_data_block t) es" "pairs_of es = cur" using core by (auto simp: tb_core_def tb_tail_def)
  have "cmp k (last_key_of es) > 0" if ne: "es \<noteq> []"
  proof -
    have "last cur \<in> set cur" "last_key_of es = fst (last cur)"
      using ne es(2) by (auto simp: last_key_of_def pairs_of_def last_map)
    then show ?thesis
      using pairs cmp_swap [of "fst (last cur)" k] by (auto simp: table_pairs_def sorted_wrt_append)
  qed
  then obtain db s where db: "BlockBuilder_Add cmp k v (tb_data_block t) = Some db" "builder_at db (es @ [(s, k, v)])"
    using Add_at [OF es(1)] by blast
  have "pairs_of (es @ [(s, k, v)]) = cur @ [(k, v)]" using es(2) by (simp add: pairs_of_def)
  then have block: "\<exists>es. builder_at db es \<and> pairs_of es = cur @ [(k, v)]" using db(2) by blast
  have "index_ok K cmp idx done (cur @ [(k, v)])"
    using core above by (auto simp: tb_core_def tb_tail_def index_ok_def index_entry_def)
  moreover have "filters_at (opt_filter_policy opts) (filter_AddKey k t) (filter_blocks done (cur @ [(k, v)]) (tb_offset t))"
    using core filters_AddKey by (simp add: tb_core_def tb_tail_def)
  ultimately show ?thesis
    using core np block db(1)
    by (simp add: tb_core_def tb_tail_def filter_AddKey_def)
qed

lemma index_below:
  assumes "index_ok K cmp idx done cur" "i < length idx" "p \<in> set (pairs_in (drop (Suc i) done) @ cur)"
    "K (fst p)" "K k" "cmp (fst p) k < 0"
  shows "cmp (fst (idx ! i)) k < 0"
proof -
  have "cmp (fst (idx ! i)) (fst p) < 0" "K (fst (idx ! i))" using assms(1-3) by (auto simp: index_ok_def index_entry_def)
  then show ?thesis using cmp_less_trans assms(4-6) by blast
qed

lemma last_pairs: "done \<noteq> [] \<Longrightarrow> fst (last done) \<noteq> [] \<Longrightarrow> last (pairs_in done) = last (fst (last done))"
  by (induction "done" rule: rev_induct) auto

text \<open>Before a new key, the index gets its entry if one is due; all index keys are then below the new one.\<close>

lemma index_before_key:
  assumes inv: "tb_inv K cmp snappy opts t done cur idx"
    and pairs: "table_pairs K cmp opts (pairs_in done @ cur @ [(k, v)])"
  shows "\<exists>t1 idx1. (if tb_pending_index_entry t then
        if \<not> BlockBuilder_empty (tb_data_block t) then None
        else add_index_entry (cmp_FindShortestSeparator (opt_comparator (tb_options t)) (tb_last_key t) k) t
      else Some t) = Some t1 \<and> tb_core K cmp snappy opts t1 done cur idx1 \<and> \<not> tb_pending_index_entry t1 \<and>
     \<not> tb_closed t1 \<and> tb_num_entries t1 = tb_num_entries t \<and> (\<forall>i<length idx1. cmp (fst (idx1 ! i)) k < 0)"
proof -
  have core: "tb_core K cmp snappy opts t done cur idx" and cl: "\<not> tb_closed t" using inv by (simp_all add: tb_inv_def)
  have below: "K (fst p) \<and> cmp (fst p) k < 0" if "p \<in> set (pairs_in done @ cur)" for p
    using pairs that by (auto simp: table_pairs_def sorted_wrt_append)
  have Kk: "K k" using pairs by (auto simp: table_pairs_def)
  have ix: "index_ok K cmp idx done cur" and stored: "\<forall>b \<in> set done. fst b \<noteq> []"
    using core by (auto simp: tb_core_def tb_tail_def block_stored_def)
  have above: "cmp (fst (idx ! i)) k < 0" if i: "i < length idx" "pairs_in (drop (Suc i) done) @ cur \<noteq> []" for i
  proof -
    let ?p = "hd (pairs_in (drop (Suc i) done) @ cur)"
    have p: "?p \<in> set (pairs_in (drop (Suc i) done) @ cur)" using i(2) by (rule hd_in_set)
    then have "?p \<in> set (pairs_in done @ cur)" using set_drop_subset by fastforce
    from below [OF this] show ?thesis using index_below [OF ix i(1) p] Kk by blast
  qed
  show ?thesis
  proof (cases "tb_pending_index_entry t")
    case False
    then have l: "length done = length idx" "cur = [] \<longrightarrow> done = []" using core inv by (simp_all add: tb_core_def tb_tail_def tb_inv_def)
    have "cmp (fst (idx ! i)) k < 0" if "i < length idx" for i using above [OF that] l that by auto
    then show ?thesis using False core cl by auto
  next
    case True
    then have c: "cur = []" "length done = Suc (length idx)" "tb_options t = opts" using core by (simp_all add: tb_core_def tb_tail_def)
    let ?a = "fst (last (fst (last done)))"
    have ne: "done \<noteq> []" using c(2) by auto
    then have lne: "fst (last done) \<noteq> []" using stored by simp
    have a: "tb_last_key t = ?a"
      using inv c(1) last_pairs [OF ne lne] lne ne by (auto simp: tb_inv_def)
    have "last (fst (last done)) \<in> set (pairs_in done @ cur)" using ne lne by (auto intro!: bexI [of _ "last done"])
    from below [OF this] have ak: "K ?a" "cmp ?a k < 0" by simp_all
    have e: "BlockBuilder_empty (tb_data_block t)"
      using core c(1) by (auto simp: tb_core_def tb_tail_def BlockBuilder_empty_def builder_at_def pairs_of_def)
    have sp: "K (sep ?a k)" "cmp ?a (sep ?a k) \<le> 0" "cmp (sep ?a k) k < 0" "length (sep ?a k) \<le> length ?a"
      using sep_key [OF ak(1) Kk] sep_between [OF ak(1) Kk ak(2)] sep_length [OF ak(1) Kk] by simp_all
    obtain ib where ib: "add_index_entry (sep ?a k) t =
        Some (t\<lparr>tb_last_key := sep ?a k, tb_index_block := ib, tb_pending_index_entry := False\<rparr>)"
      "tb_core K cmp snappy opts (t\<lparr>tb_last_key := sep ?a k, tb_index_block := ib, tb_pending_index_entry := False\<rparr>)
         done [] (idx @ [(sep ?a k, handle_bytes (snd (last done)))])"
      using index_step [OF _ True sp(1,2,4) ak(1)] core_step core unfolding c(1) tb_core_def by blast
    have later: "pairs_in (drop (Suc i) done) \<noteq> []" if "i < length idx" for i
    proof -
      have "done ! Suc i \<in> set (drop (Suc i) done)" using that c(2) by (auto simp: Cons_nth_drop_Suc [symmetric])
      moreover have "fst (done ! Suc i) \<noteq> []" using that c(2) stored by simp
      ultimately show ?thesis by auto
    qed
    have "cmp (fst ((idx @ [(sep ?a k, handle_bytes (snd (last done)))]) ! i)) k < 0"
      if "i < length (idx @ [(sep ?a k, handle_bytes (snd (last done)))])" for i
      using that above [of i] later [of i] sp(3) by (cases "i = length idx") (auto simp: nth_append)
    then show ?thesis using True e ib c cl a options by auto
  qed
qed

lemma add_inv:
  assumes inv: "tb_inv K cmp snappy opts t done cur idx"
    and pairs: "table_pairs K cmp opts (pairs_in done @ cur @ [(k, v)])"
  shows "\<exists>t'. TableBuilder_Add snappy k v t = Some t' \<and> (tb_dead t' \<or> (\<exists>done' cur' idx'.
     tb_inv K cmp snappy opts t' done' cur' idx' \<and> pairs_in done' @ cur' = pairs_in done @ cur @ [(k, v)]))"
proof -
  have st: "\<not> tb_closed t" "status_ok (tb_status t)" "tb_options t = opts"
    "tb_num_entries t = int (length (pairs_in done @ cur))" using inv by (simp_all add: tb_inv_def tb_core_def tb_tail_def)
  have order: "tb_compare t k (tb_last_key t) > 0" if "tb_num_entries t > 0"
  proof -
    have ne: "pairs_in done @ cur \<noteq> []" using that st(4) by auto
    let ?l = "last (pairs_in done @ cur)"
    have "?l \<in> set (pairs_in done @ cur)" using ne by (rule last_in_set)
    then have "cmp (fst ?l) k < 0" "K (fst ?l)" "K k" using pairs by (auto simp: table_pairs_def sorted_wrt_append)
    moreover have "tb_last_key t = fst ?l" using inv ne unfolding tb_inv_def by blast
    ultimately show ?thesis using cmp_swap st(3) options by auto
  qed
  obtain t1 idx1 where t1: "(if tb_pending_index_entry t then
        if \<not> BlockBuilder_empty (tb_data_block t) then None
        else add_index_entry (cmp_FindShortestSeparator (opt_comparator (tb_options t)) (tb_last_key t) k) t
      else Some t) = Some t1"
    "tb_core K cmp snappy opts t1 done cur idx1" "\<not> tb_pending_index_entry t1" "\<not> tb_closed t1"
    "tb_num_entries t1 = tb_num_entries t" "\<forall>i<length idx1. cmp (fst (idx1 ! i)) k < 0"
    using index_before_key [OF inv pairs] by blast
  obtain db where db: "BlockBuilder_Add cmp k v (tb_data_block t1) = Some db"
    "tb_core K cmp snappy opts (filter_AddKey k t1\<lparr>tb_last_key := k, tb_num_entries := tb_num_entries t + 1, tb_data_block := db\<rparr>)
       done (cur @ [(k, v)]) idx1"
    using pair_step [OF t1(2,3) pairs t1(6)] by blast
  let ?t2 = "filter_AddKey k t1\<lparr>tb_last_key := k, tb_num_entries := tb_num_entries t + 1, tb_data_block := db\<rparr>"
  have inv2: "tb_inv K cmp snappy opts ?t2 done (cur @ [(k, v)]) idx1"
    using db(2) t1(4) st(4) by (simp add: tb_inv_def filter_AddKey_def)
  have opts1: "tb_options t1 = opts" using t1(2) by (simp add: tb_core_def tb_tail_def)
  have add: "TableBuilder_Add snappy k v t =
      (if CurrentSizeEstimate db \<ge> opt_block_size opts then TableBuilder_Flush snappy ?t2 else Some ?t2)"
    using st order t1(1,5) db(1) opts1 options unfolding TableBuilder_Add_def
    by (simp add: filter_AddKey_def Let_def not_less [symmetric] del: not_less) (auto simp: filter_AddKey_def)
  show ?thesis
  proof (cases "CurrentSizeEstimate db \<ge> opt_block_size opts")
    case True
    from flush_inv [OF inv2] pairs obtain t' where t': "TableBuilder_Flush snappy ?t2 = Some t'"
      "tb_dead t' \<or> (\<exists>h. tb_inv K cmp snappy opts t' (done @ [(cur @ [(k, v)], h)]) [] idx1)" by auto
    have "pairs_in (done @ [(cur @ [(k, v)], h)]) @ [] = pairs_in done @ cur @ [(k, v)]" for h by simp
    with t' add True show ?thesis by metis
  next
    case False
    with add inv2 show ?thesis by auto
  qed
qed

end

section \<open>The finished table\<close>

text \<open>
  The filter block of the policy, reached from the metaindex block, covers the keys of the blocks.
  It is never compressed.
\<close>

definition filter_covers :: "FilterPolicy \<Rightarrow> blocks \<Rightarrow> byte list \<Rightarrow> bool" where
  "filter_covers p done data \<longleftrightarrow> (length data < 2 ^ 32 \<longrightarrow> (\<exists>r. new_FilterBlockReader data = Some r \<and>
     (\<forall>b \<in> set done. \<forall>q \<in> set (fst b). FilterBlock_KeyMayMatch (fp_KeyMayMatch p) r (bh_offset (snd b)) (fst q) = Some True)))"

definition filter_key :: "FilterPolicy \<Rightarrow> byte list" where
  "filter_key p = bytes_of ''filter.'' @ fp_Name p"

definition filter_reached :: "Snappy \<Rightarrow> byte list \<Rightarrow> FilterPolicy \<Rightarrow> blocks \<Rightarrow> BlockHandle \<Rightarrow> bool" where
  "filter_reached snappy F p done meta \<longleftrightarrow> (\<exists>rawm fh data. stored_at snappy F meta rawm \<and>
     holds_pairs (\<lambda>_. True) slice_compare rawm [(filter_key p, handle_bytes fh)] \<and>
     stored_at no_snappy F fh data \<and> filter_covers p done data)"

definition table_file ::
  "(byte list \<Rightarrow> bool) \<Rightarrow> (byte list \<Rightarrow> byte list \<Rightarrow> int) \<Rightarrow> Snappy \<Rightarrow> Options \<Rightarrow> byte list \<Rightarrow> pair list \<Rightarrow> bool" where
  "table_file K cmp snappy opts F kvs \<longleftrightarrow>
     (\<exists>done idx rawi meta index before. kvs = pairs_in done \<and> length F < 2 ^ 63 \<and>
        F = before @ footer_bytes \<lparr>ft_metaindex_handle = meta, ft_index_handle = index\<rparr> \<and>
        (\<forall>b \<in> set done. block_stored K cmp snappy F b) \<and> distinct (map (\<lambda>b. bh_offset (snd b)) done) \<and>
        length idx = length done \<and> index_ok K cmp idx done [] \<and>
        stored_at snappy F index rawi \<and> holds_pairs K cmp rawi idx \<and>
        (\<forall>p. opt_filter_policy opts = Some p \<longrightarrow> filter_reached snappy F p done meta))"

definition filter_written :: "Snappy \<Rightarrow> Options \<Rightarrow> TableBuilder \<Rightarrow> blocks \<Rightarrow> BlockHandle \<Rightarrow> bool" where
  "filter_written snappy opts t done fh \<longleftrightarrow>
     (case opt_filter_policy opts of
        None \<Rightarrow> tb_filter_block t = None
      | Some p \<Rightarrow> tb_filter_block t \<noteq> None \<and> handle_set fh \<and>
          (\<exists>data. stored_at no_snappy (contents (tb_file t)) fh data \<and> filter_covers p done data))"

context table_order
begin

lemma tail_wrote:
  assumes "tb_tail K cmp snappy opts t done cur idx" "wrote t t' bs" "status_ok (tb_status t')"
  shows "tb_tail K cmp snappy opts t' done cur idx"
  using assms wrote_sel [OF assms(2)] wrote_ok [OF assms(2,3)] stored_wrote [OF assms(2,3)]
  by (simp add: tb_tail_def)

lemma filter_step:
  assumes core: "tb_core K cmp snappy opts t done [] idx" and pairs: "table_pairs K cmp opts (pairs_in done)"
  shows "\<exists>fh t'. write_filter_block t = Some (fh, t') \<and> tb_last_key t' = tb_last_key t \<and>
     (status_ok (tb_status t') \<longrightarrow> tb_tail K cmp snappy opts t' done [] idx \<and> filter_written snappy opts t' done fh)"
proof (cases "opt_filter_policy opts")
  case None
  then have "tb_filter_block t = None" using core by (simp add: tb_core_def filters_at_def)
  then show ?thesis using core None by (simp add: write_filter_block_def tb_core_def filter_written_def)
next
  case (Some p)
  let ?bs = "filter_blocks done [] (tb_offset t)"
  obtain fb where fb: "tb_filter_block t = Some (p, fb)"
    "build_filters (fp_CreateFilter p) ?bs new_FilterBlockBuilder = Some fb"
    using core Some by (auto simp: tb_core_def filters_at_def)
  have "\<forall>k \<in> set (concat (map snd ?bs)). K k" "length (concat (map snd ?bs)) < 2 ^ 31"
    using core_keys [of "done" "[]"] pairs by simp_all
  moreover have "sorted (map fst ?bs)"
    using core strict_sorted_imp_sorted unfolding filter_blocks_fst tb_core_def by blast
  ultimately obtain data s' where f: "FilterBlock_Finish (fp_CreateFilter p) fb = Some (data, s')"
    "length data < 2 ^ 32 \<Longrightarrow> \<exists>r. new_FilterBlockReader data = Some r \<and>
       (\<forall>(off, keys) \<in> set ?bs. \<forall>k \<in> set keys. FilterBlock_KeyMayMatch (fp_KeyMayMatch p) r off k = Some True)"
    using filter_policy.filter_block_covers [OF policy [OF Some], of ?bs] fb(2) by fastforce
  have cov: "filter_covers p done data"
    unfolding filter_covers_def
  proof
    assume "length data < 2 ^ 32"
    then obtain r where r: "new_FilterBlockReader data = Some r"
      "\<forall>(off, keys) \<in> set ?bs. \<forall>k \<in> set keys. FilterBlock_KeyMayMatch (fp_KeyMayMatch p) r off k = Some True" using f(2) by blast
    have "FilterBlock_KeyMayMatch (fp_KeyMayMatch p) r (bh_offset (snd b)) (fst q) = Some True"
      if "b \<in> set done" "q \<in> set (fst b)" for b q
    proof -
      have "(bh_offset (snd b), map fst (fst b)) \<in> set ?bs" using that(1) by (auto simp: filter_blocks_def)
      with r(2) that(2) show ?thesis by fastforce
    qed
    with r(1) show "\<exists>r. new_FilterBlockReader data = Some r \<and> (\<forall>b \<in> set done. \<forall>q \<in> set (fst b).
        FilterBlock_KeyMayMatch (fp_KeyMayMatch p) r (bh_offset (snd b)) (fst q) = Some True)" by blast
  qed
  let ?t0 = "t\<lparr>tb_filter_block := Some (p, s')\<rparr>" and ?h = "\<lparr>bh_offset = tb_offset t, bh_size = of_nat (length data)\<rparr>"
  have tail: "tb_tail K cmp snappy opts ?t0 done [] idx" using core by (simp add: tb_core_def tb_tail_def)
  then have afe: "at_file_end ?t0" by (simp add: tb_tail_def)
  obtain t' where w: "WriteRawBlock data kNoCompression ?t0 = Some (?h, t')" "wrote ?t0 t' (raw_block data kNoCompression)"
    using WriteRawBlock_wrote [OF afe] by fastforce
  have "status_ok (tb_status t)" using core by (simp add: tb_core_def tb_tail_def)
  then have wf: "write_filter_block t = Some (?h, t')" using fb(1) f(1) w(1) by (simp add: write_filter_block_def)
  have "tb_tail K cmp snappy opts t' done [] idx \<and> filter_written snappy opts t' done ?h" if ok: "status_ok (tb_status t')"
  proof
    show "tb_tail K cmp snappy opts t' done [] idx" by (rule tail_wrote [OF tail w(2) ok])
    have "stored_at no_snappy (contents (tb_file t')) ?h data"
      using stored_at_wrote [OF afe _ conjunct1 [OF wrote_ok [OF w(2) ok]], of no_snappy data] by (simp add: stored_as_def)
    moreover have "handle_set ?h" using wrote_handle_set [OF afe w(2) ok] by simp
    ultimately show "filter_written snappy opts t' done ?h"
      using Some cov wrote_sel(7) [OF w(2)] by (auto simp: filter_written_def)
  qed
  with wf wrote_sel(4) [OF w(2)] show ?thesis by auto
qed

lemma meta_step:
  assumes tail: "tb_tail K cmp snappy opts t done [] idx" and fw: "filter_written snappy opts t done fh"
    and pairs: "table_pairs K cmp opts (pairs_in done)"
  shows "\<exists>mh t'. write_metaindex_block snappy fh t = Some (mh, t') \<and> tb_last_key t' = tb_last_key t \<and>
     (status_ok (tb_status t') \<longrightarrow> tb_tail K cmp snappy opts t' done [] idx \<and> handle_set mh \<and>
       (\<forall>p. opt_filter_policy opts = Some p \<longrightarrow> filter_reached snappy (contents (tb_file t')) p done mh))"
proof -
  have st: "status_ok (tb_status t)" "at_file_end t" "tb_options t = opts" using tail by (simp_all add: tb_tail_def)
  obtain b0 where b0: "new_BlockBuilder (opt_block_restart_interval opts) = Some b0" "builder_at b0 []"
    using new_builder_at options(4) by blast
  define add where "add = (case tb_filter_block t of
      None \<Rightarrow> Some b0
    | Some _ \<Rightarrow>
        do { policy \<leftarrow> opt_filter_policy opts;
             let key = bytes_of ''filter.'' @ fp_Name policy;
             handle_encoding \<leftarrow> BlockHandle_EncodeTo fh [];
             BlockBuilder_Add cmp key handle_encoding b0 })"
  have "\<exists>b es. add = Some b \<and> builder_at b es \<and>
      (\<forall>p. opt_filter_policy opts = Some p \<longrightarrow> pairs_of es = [(filter_key p, handle_bytes fh)] \<and>
         length (fst (BlockBuilder_Finish b)) < 2 ^ 32)"
  proof (cases "opt_filter_policy opts")
    case None
    then show ?thesis using fw b0(2) by (auto simp: add_def filter_written_def)
  next
    case (Some p)
    then have f: "tb_filter_block t \<noteq> None" "handle_set fh" using fw by (auto simp: filter_written_def)
    obtain b s where b: "BlockBuilder_Add cmp (filter_key p) (handle_bytes fh) b0 = Some b"
      "builder_at b ([] @ [(s, filter_key p, handle_bytes fh)])" using Add_at [OF b0(2)] by blast
    have "length (fp_Name p) + 200 < 2 ^ 32" using pairs Some by (simp add: table_pairs_def)
    then have "entries_size [(s, filter_key p, handle_bytes fh)] + 8 < 2 ^ 32"
      using handle_bytes_length [of fh] by (simp add: entries_size_def filter_key_def bytes_of_def kMaxEncodedLength_def)
    then have "length (fst (BlockBuilder_Finish b)) < 2 ^ 32" using Finish_length [OF b(2)] by simp
    moreover have "add = Some b" using f b(1) Some by (auto simp: add_def BlockHandle_EncodeTo_bytes filter_key_def)
    ultimately show ?thesis using b(2) Some by (auto simp: pairs_of_def intro!: exI [of _ "[(s, filter_key p, handle_bytes fh)]"])
  qed
  then obtain b es where b: "add = Some b" "builder_at b es"
    "\<And>p. opt_filter_policy opts = Some p \<Longrightarrow> pairs_of es = [(filter_key p, handle_bytes fh)] \<and>
       length (fst (BlockBuilder_Finish b)) < 2 ^ 32" by blast
  obtain mh t' bs where w: "WriteBlock snappy b t = Some (mh, BlockBuilder_Reset (snd (BlockBuilder_Finish b)), t')"
    "wrote t t' bs" "status_ok (tb_status t') \<Longrightarrow>
       stored_at snappy (contents (tb_file t')) mh (fst (BlockBuilder_Finish b)) \<and> handle_set mh"
    using WriteBlock_wrote [OF st(2,1), of snappy b] by blast
  have "write_metaindex_block snappy fh t = Some (mh, t')"
    using b(1) unfolding add_def write_metaindex_block_def st(3) options(1) by (simp add: st(1) w(1) b0(1))
  moreover have "filter_reached snappy (contents (tb_file t')) p done mh"
    if ok: "status_ok (tb_status t')" and p: "opt_filter_policy opts = Some p" for p
  proof -
    obtain data where "stored_at no_snappy (contents (tb_file t)) fh data" "filter_covers p done data"
      using fw p by (auto simp: filter_written_def)
    then have "stored_at no_snappy (contents (tb_file t')) fh data" "filter_covers p done data"
      using wrote_ok [OF w(2) ok] stored_at_append by auto
    moreover have "holds_pairs (\<lambda>_. True) slice_compare (fst (BlockBuilder_Finish b)) [(filter_key p, handle_bytes fh)]"
      using bytewise_block.finished_block [OF b(2)] b(3) [OF p] by (simp add: holds_pairs_def)
    ultimately show ?thesis using w(3) [OF ok] by (auto simp: filter_reached_def)
  qed
  ultimately show ?thesis using tail_wrote [OF tail w(2)] w(3) wrote_sel(4) [OF w(2)] by auto
qed

lemma index_sorted:
  assumes "index_ok K cmp idx done []" "length idx = length done" "\<forall>b \<in> set done. fst b \<noteq> []"
    "\<forall>p \<in> set (pairs_in done). K (fst p)"
  shows "sorted_wrt (\<lambda>x y. cmp (fst x) (fst y) < 0) idx" "\<forall>p \<in> set idx. K (fst p)"
proof -
  have e: "index_entry K cmp (idx ! i) (done ! i) (pairs_in (drop (Suc i) done))" if "i < length idx" for i
    using assms(1) that by (simp add: index_ok_def)
  then have "K (fst (idx ! i))" if "i < length idx" for i using that by (simp add: index_entry_def)
  then show "\<forall>p \<in> set idx. K (fst p)" by (metis in_set_conv_nth)
  have "cmp (fst (idx ! i)) (fst (idx ! j)) < 0" if ij: "i < j" "j < length idx" for i j
  proof -
    let ?p = "last (fst (done ! j))"
    have "done ! j \<in> set (drop (Suc i) done)" using ij assms(2)
      by (auto simp: in_set_conv_nth intro!: exI [of _ "j - Suc i"])
    moreover have ne: "fst (done ! j) \<noteq> []" using assms(2,3) ij(2) by simp
    ultimately have p: "?p \<in> set (pairs_in (drop (Suc i) done))"
      by (auto intro!: bexI [of _ "done ! j"])
    then have "K (fst ?p)" using assms(4) set_drop_subset by fastforce
    then show ?thesis
      using cmp_less_le [of "fst (idx ! i)" "fst ?p" "fst (idx ! j)"] e [of i] e [of j] ij p by (auto simp: index_entry_def)
  qed
  then show "sorted_wrt (\<lambda>x y. cmp (fst x) (fst y) < 0) idx" by (simp add: sorted_wrt_iff_nth_less)
qed

lemma index_holds:
  assumes tail: "tb_tail K cmp snappy opts t done [] idx" and np: "\<not> tb_pending_index_entry t"
    and pairs: "table_pairs K cmp opts (pairs_in done)"
  shows "holds_pairs K cmp (fst (BlockBuilder_Finish (tb_index_block t))) idx"
proof -
  obtain es where es: "builder_at (tb_index_block t) es" "pairs_of es = idx" using tail by (auto simp: tb_tail_def)
  have l: "length idx = length done" "index_ok K cmp idx done []" "\<forall>b \<in> set done. fst b \<noteq> []"
    using tail np by (auto simp: tb_tail_def block_stored_def)
  note srt = index_sorted [OF l(2,1,3)]
  have k: "\<forall>p \<in> set (pairs_in done). K (fst p)" "pairs_size (pairs_in done) + 200 < 2 ^ 32"
    using table_pairs_part [of K cmp opts "[]" "pairs_in done" "[]"] pairs by simp_all
  have "entries_size es \<le> pairs_size (pairs_in done)"
    by (rule index_size [OF l(1,3) _ es(2)]) (use l(2) in \<open>simp add: index_ok_def index_entry_def\<close>)
  then have "length (fst (BlockBuilder_Finish (tb_index_block t))) < 2 ^ 32"
    using Finish_length [OF es(1)] k(2) by linarith
  then show ?thesis using finished_block [OF es(1)] srt [OF k(1)] es(2) by (simp add: holds_pairs_def)
qed

lemma index_final:
  assumes tail: "tb_tail K cmp snappy opts t done [] idx" and pairs: "table_pairs K cmp opts (pairs_in done)"
    and last: "done \<noteq> [] \<Longrightarrow> tb_last_key t = fst (last (pairs_in done))"
  shows "\<exists>ih t'. write_index_block snappy t = Some (ih, t') \<and>
     (status_ok (tb_status t') \<longrightarrow> at_file_end t' \<and> handle_set ih \<and> (\<exists>G. contents (tb_file t') = contents (tb_file t) @ G) \<and>
       (\<exists>idx' rawi. length idx' = length done \<and> index_ok K cmp idx' done [] \<and>
          stored_at snappy (contents (tb_file t')) ih rawi \<and> holds_pairs K cmp rawi idx'))"
proof -
  have st: "status_ok (tb_status t)" "tb_options t = opts" using tail by (simp_all add: tb_tail_def)
  have "\<exists>t1 idx'. (if tb_pending_index_entry t
        then add_index_entry (cmp_FindShortSuccessor (opt_comparator (tb_options t)) (tb_last_key t)) t else Some t) = Some t1 \<and>
      tb_tail K cmp snappy opts t1 done [] idx' \<and> \<not> tb_pending_index_entry t1 \<and> tb_file t1 = tb_file t"
  proof (cases "tb_pending_index_entry t")
    case True
    let ?a = "fst (last (fst (last done)))"
    have ne: "done \<noteq> []" using tail True by (auto simp: tb_tail_def)
    then have lne: "fst (last done) \<noteq> []" using tail by (simp add: tb_tail_def block_stored_def)
    have a: "tb_last_key t = ?a" using last [OF ne] last_pairs [OF ne lne] by simp
    have "last (fst (last done)) \<in> set (pairs_in done)" using ne lne by (auto intro!: bexI [of _ "last done"])
    then have Ka: "K ?a" using pairs by (auto simp: table_pairs_def)
    from index_step [OF tail True succ_key [OF Ka] succ_above [OF Ka] succ_length [OF Ka] Ka]
    show ?thesis using True a st(2) options(3) by auto
  qed (use tail in auto)
  then obtain t1 idx' where t1: "(if tb_pending_index_entry t
        then add_index_entry (cmp_FindShortSuccessor (opt_comparator (tb_options t)) (tb_last_key t)) t else Some t) = Some t1"
    "tb_tail K cmp snappy opts t1 done [] idx'" "\<not> tb_pending_index_entry t1" "tb_file t1 = tb_file t" by blast
  have st1: "status_ok (tb_status t1)" "at_file_end t1" "length idx' = length done" "index_ok K cmp idx' done []"
    using t1(2,3) by (simp_all add: tb_tail_def)
  obtain ih t2 bs where w: "WriteBlock snappy (tb_index_block t1) t1 =
      Some (ih, BlockBuilder_Reset (snd (BlockBuilder_Finish (tb_index_block t1))), t2)" "wrote t1 t2 bs"
    "status_ok (tb_status t2) \<Longrightarrow>
       stored_at snappy (contents (tb_file t2)) ih (fst (BlockBuilder_Finish (tb_index_block t1))) \<and> handle_set ih"
    using WriteBlock_wrote [OF st1(2,1), of snappy "tb_index_block t1"] by blast
  let ?t' = "t2\<lparr>tb_index_block := BlockBuilder_Reset (snd (BlockBuilder_Finish (tb_index_block t1)))\<rparr>"
  have "write_index_block snappy t = Some (ih, ?t')" using st(1) t1(1) w(1) by (simp add: write_index_block_def)
  moreover have "at_file_end ?t' \<and> contents (tb_file ?t') = contents (tb_file t) @ bs" if "status_ok (tb_status t2)"
    using wrote_ok [OF w(2) that] t1(4) by simp
  ultimately show ?thesis using w(3) index_holds [OF t1(2,3) pairs] st1(3,4) by fastforce
qed

lemma footer_step:
  assumes "at_file_end t" "status_ok (tb_status t)" "handle_set mh" "handle_set ih"
  shows "\<exists>t'. write_footer mh ih t = Some t' \<and> (status_ok (tb_status t') \<longrightarrow>
     length (contents (tb_file t')) < 2 ^ 63 \<and>
     contents (tb_file t') = contents (tb_file t) @ footer_bytes \<lparr>ft_metaindex_handle = mh, ft_index_handle = ih\<rparr>)"
proof -
  let ?f = "footer_bytes \<lparr>ft_metaindex_handle = mh, ft_index_handle = ih\<rparr>"
  have "Footer_EncodeTo \<lparr>ft_metaindex_handle = mh, ft_index_handle = ih\<rparr> [] = Some ?f"
    using assms(3,4) by (intro Footer_EncodeTo_bytes) simp_all
  moreover obtain s f where "WritableFile_Append ?f (tb_file t) = (s, f)" "roomy f"
    "status_ok s \<longrightarrow> contents f = contents (tb_file t) @ ?f"
    using Append_roomy assms(1) unfolding at_file_end_def by blast
  ultimately show ?thesis using assms(2) roomy_length by (auto simp: write_footer_def Let_def)
qed

lemma write_nothing:
  assumes "\<not> status_ok (tb_status t)"
  shows "write_metaindex_block snappy fh t = Some (new_BlockHandle, t)" "write_index_block snappy t = Some (new_BlockHandle, t)"
    "write_footer mh ih t = Some t"
  using assms by (simp_all add: write_metaindex_block_def write_index_block_def write_footer_def)

text \<open>The four writes of \<open>Finish\<close>, one after the other.\<close>

lemma finish_writes:
  assumes core: "tb_core K cmp snappy opts t done [] idx" and pairs: "table_pairs K cmp opts (pairs_in done)"
    and last: "done \<noteq> [] \<Longrightarrow> tb_last_key t = fst (last (pairs_in done))"
  shows "\<exists>fh t1 mh t2 ih t3 t4. write_filter_block t = Some (fh, t1) \<and> write_metaindex_block snappy fh t1 = Some (mh, t2) \<and>
     write_index_block snappy t2 = Some (ih, t3) \<and> write_footer mh ih t3 = Some t4 \<and>
     (status_ok (tb_status t4) \<longrightarrow> table_file K cmp snappy opts (contents (tb_file t4)) (pairs_in done))"
proof -
  obtain fh t1 where s1: "write_filter_block t = Some (fh, t1)" "tb_last_key t1 = tb_last_key t"
    "status_ok (tb_status t1) \<Longrightarrow> tb_tail K cmp snappy opts t1 done [] idx \<and> filter_written snappy opts t1 done fh"
    using filter_step [OF core pairs] by blast
  show ?thesis
  proof (cases "status_ok (tb_status t1)")
    case False
    then show ?thesis using s1(1) write_nothing by blast
  next
    case ok1: True
    obtain mh t2 where s2: "write_metaindex_block snappy fh t1 = Some (mh, t2)" "tb_last_key t2 = tb_last_key t"
      "status_ok (tb_status t2) \<Longrightarrow> tb_tail K cmp snappy opts t2 done [] idx \<and> handle_set mh \<and>
         (\<forall>p. opt_filter_policy opts = Some p \<longrightarrow> filter_reached snappy (contents (tb_file t2)) p done mh)"
      using meta_step [of snappy t1 "done" idx fh] s1(2,3) ok1 pairs by metis
    show ?thesis
    proof (cases "status_ok (tb_status t2)")
      case False
      then show ?thesis using s1(1) s2(1) write_nothing by blast
    next
      case ok2: True
      have tl: "tb_tail K cmp snappy opts t2 done [] idx" "handle_set mh" using s2(3) [OF ok2] by simp_all
      obtain ih t3 where s3: "write_index_block snappy t2 = Some (ih, t3)"
        "status_ok (tb_status t3) \<Longrightarrow> at_file_end t3 \<and> handle_set ih \<and> (\<exists>G. contents (tb_file t3) = contents (tb_file t2) @ G) \<and>
           (\<exists>idx' rawi. length idx' = length done \<and> index_ok K cmp idx' done [] \<and>
              stored_at snappy (contents (tb_file t3)) ih rawi \<and> holds_pairs K cmp rawi idx')"
        using index_final [OF tl(1) pairs] last s2(2) by metis
      show ?thesis
      proof (cases "status_ok (tb_status t3)")
        case False
        then show ?thesis using s1(1) s2(1) s3(1) write_nothing(3) by blast
      next
        case ok3: True
        let ?f = "footer_bytes \<lparr>ft_metaindex_handle = mh, ft_index_handle = ih\<rparr>"
        obtain G idx' rawi where g: "at_file_end t3" "handle_set ih" "contents (tb_file t3) = contents (tb_file t2) @ G"
          "length idx' = length done" "index_ok K cmp idx' done []" "stored_at snappy (contents (tb_file t3)) ih rawi"
          "holds_pairs K cmp rawi idx'" using s3(2) [OF ok3] by blast
        obtain t4 where s4: "write_footer mh ih t3 = Some t4" "status_ok (tb_status t4) \<Longrightarrow>
            length (contents (tb_file t4)) < 2 ^ 63 \<and> contents (tb_file t4) = contents (tb_file t3) @ ?f"
          using footer_step [OF g(1) ok3 tl(2) g(2)] by blast
        have "table_file K cmp snappy opts (contents (tb_file t4)) (pairs_in done)" if ok4: "status_ok (tb_status t4)"
        proof -
          let ?F = "contents (tb_file t4)"
          have F: "length ?F < 2 ^ 63" "?F = contents (tb_file t3) @ ?f" using s4(2) [OF ok4] by blast+
          then have F3: "?F = contents (tb_file t2) @ G @ ?f" using g(3) by simp
          have st: "stored_at sn ?F h raw" if "stored_at sn (contents (tb_file t2)) h raw" for sn h raw
            unfolding F3 by (rule stored_at_append [OF that])
          have "\<forall>b \<in> set done. block_stored K cmp snappy (contents (tb_file t2)) b" using tl(1) by (simp add: tb_tail_def)
          then have "\<forall>b \<in> set done. block_stored K cmp snappy ?F b" using st unfolding block_stored_def by blast
          moreover have "distinct (map (\<lambda>b. bh_offset (snd b)) done)"
            using core strict_sorted_iff by (fastforce simp: tb_core_def sorted_wrt_append)
          moreover have "stored_at snappy ?F ih rawi" unfolding F(2) by (rule stored_at_append [OF g(6)])
          moreover have "\<forall>p. opt_filter_policy opts = Some p \<longrightarrow> filter_reached snappy ?F p done mh"
            using s2(3) [OF ok2] st unfolding filter_reached_def by blast
          ultimately show ?thesis unfolding table_file_def using F(1,2) g(4,5,7) by blast
        qed
        with s1(1) s2(1) s3(1) s4(1) show ?thesis by blast
      qed
    qed
  qed
qed

lemma core_closed: "tb_core K cmp snappy opts (t\<lparr>tb_closed := b\<rparr>) done cur idx = tb_core K cmp snappy opts t done cur idx"
  by (simp add: tb_core_def tb_tail_def)

lemma finish_inv:
  assumes inv: "tb_inv K cmp snappy opts t done cur idx" and pairs: "table_pairs K cmp opts (pairs_in done @ cur)"
  shows "\<exists>t'. TableBuilder_Finish snappy t = Some (tb_status t', t') \<and>
     (status_ok (tb_status t') \<longrightarrow> table_file K cmp snappy opts (contents (tb_file t')) (pairs_in done @ cur))"
proof -
  obtain t1 where t1: "TableBuilder_Flush snappy t = Some t1"
    "tb_dead t1 \<or> (if cur = [] then t1 = t else \<exists>h. tb_inv K cmp snappy opts t1 (done @ [(cur, h)]) [] idx)"
    using flush_inv [OF inv pairs] by blast
  show ?thesis
  proof (cases "tb_dead t1")
    case True
    then have "TableBuilder_Finish snappy t = TableBuilder_Finish snappy t1"
      using t1(1) by (simp add: TableBuilder_Finish_def dead_Flush)
    with dead_Finish [OF True, of snappy] show ?thesis by metis
  next
    case False
    then obtain done' where d: "tb_inv K cmp snappy opts t1 done' [] idx" "pairs_in done' = pairs_in done @ cur"
      using t1(2) inv by (cases "cur = []") fastforce+
    have d': "tb_core K cmp snappy opts (t1\<lparr>tb_closed := True\<rparr>) done' [] idx" "\<not> tb_closed t1"
      "done' \<noteq> [] \<Longrightarrow> tb_last_key (t1\<lparr>tb_closed := True\<rparr>) = fst (last (pairs_in done'))"
    proof -
      show "tb_core K cmp snappy opts (t1\<lparr>tb_closed := True\<rparr>) done' [] idx" "\<not> tb_closed t1"
        using d(1) by (simp_all add: tb_inv_def core_closed)
      assume "done' \<noteq> []"
      moreover have "\<forall>b \<in> set done'. fst b \<noteq> []" using d(1) by (simp add: tb_inv_def tb_core_def tb_tail_def block_stored_def)
      ultimately have "pairs_in done' @ [] \<noteq> []" by (cases done') auto
      then show "tb_last_key (t1\<lparr>tb_closed := True\<rparr>) = fst (last (pairs_in done'))" using d(1) by (simp add: tb_inv_def)
    qed
    have p': "table_pairs K cmp opts (pairs_in done')" using pairs d(2) by simp
    obtain fh t2 mh t3 ih t4 t5 where "write_filter_block (t1\<lparr>tb_closed := True\<rparr>) = Some (fh, t2)"
      "write_metaindex_block snappy fh t2 = Some (mh, t3)" "write_index_block snappy t3 = Some (ih, t4)"
      "write_footer mh ih t4 = Some t5"
      "status_ok (tb_status t5) \<longrightarrow> table_file K cmp snappy opts (contents (tb_file t5)) (pairs_in done')"
      using finish_writes [OF d'(1) p' d'(3)] by blast
    then show ?thesis using t1(1) d'(2) d(2) by (auto simp: TableBuilder_Finish_def)
  qed
qed

lemma new_inv:
  assumes "roomy f" "contents f = []"
  shows "\<exists>t. new_TableBuilder opts f = Some t \<and> tb_inv K cmp snappy opts t [] [] []"
proof -
  obtain db where db: "new_BlockBuilder (opt_block_restart_interval opts) = Some db" "builder_at db []"
    using new_builder_at [OF options(4)] by blast
  obtain ib where ib: "new_BlockBuilder 1 = Some ib" "builder_at ib []" using new_builder_at [of 1] by auto
  let ?t = "\<lparr>tb_options = opts, tb_file = f, tb_offset = 0, tb_status = Status_OK, tb_data_block = db, tb_index_block = ib,
      tb_last_key = [], tb_num_entries = 0, tb_closed = False,
      tb_filter_block = map_option (\<lambda>policy. (policy, new_FilterBlockBuilder)) (opt_filter_policy opts),
      tb_pending_index_entry = False, tb_pending_handle = new_BlockHandle\<rparr>"
  have "filters_at (opt_filter_policy opts) ?t []" by (simp add: filters_at_def split: option.splits)
  from filter_start [OF this, of 0] obtain fb where f: "filter_StartBlock 0 ?t = Some (?t\<lparr>tb_filter_block := fb\<rparr>)"
    "filters_at (opt_filter_policy opts) (?t\<lparr>tb_filter_block := fb\<rparr>) [(0, [])]" by auto
  have e: "\<exists>es. builder_at b es \<and> pairs_of es = []" if "builder_at b []" for b
    using that by (auto simp: pairs_of_def)
  have "tb_inv K cmp snappy opts (?t\<lparr>tb_filter_block := fb\<rparr>) [] [] []"
    using f(2) e [OF db(2)] e [OF ib(2)] assms
    by (simp add: tb_inv_def tb_core_def tb_tail_def at_file_end_def index_ok_def filter_blocks_def)
  then show ?thesis using db(1) ib(1) f(1) by (simp add: new_TableBuilder_def)
qed

end

text \<open>A client that adds pairs in order and finishes the table.\<close>

fun table_add_pairs :: "Snappy \<Rightarrow> pair list \<Rightarrow> TableBuilder \<Rightarrow> TableBuilder option" where
  "table_add_pairs snappy [] t = Some t"
| "table_add_pairs snappy ((k, v) # kvs) t = do { t \<leftarrow> TableBuilder_Add snappy k v t; table_add_pairs snappy kvs t }"

definition build_table :: "Snappy \<Rightarrow> Options \<Rightarrow> pair list \<Rightarrow> PosixFile \<Rightarrow> (Status \<times> byte list) option" where
  "build_table snappy opts kvs f =
     do { t \<leftarrow> new_TableBuilder opts f; t \<leftarrow> table_add_pairs snappy kvs t;
          (s, t) \<leftarrow> TableBuilder_Finish snappy t; Some (s, contents (tb_file t)) }"

lemma dead_add_pairs: "tb_dead t \<Longrightarrow> table_add_pairs snappy kvs t = Some t"
  by (induction snappy kvs t rule: table_add_pairs.induct) (simp_all add: dead_Add)

context table_order
begin

lemma add_pairs_inv:
  assumes "tb_inv K cmp snappy opts t done cur idx" "table_pairs K cmp opts (pairs_in done @ cur @ kvs)"
  shows "\<exists>t'. table_add_pairs snappy kvs t = Some t' \<and> (tb_dead t' \<or> (\<exists>done' cur' idx'.
     tb_inv K cmp snappy opts t' done' cur' idx' \<and> pairs_in done' @ cur' = pairs_in done @ cur @ kvs))"
  using assms
proof (induction kvs arbitrary: t "done" cur idx)
  case (Cons kv kvs)
  obtain k v where kv: "kv = (k, v)" by fastforce
  have "table_pairs K cmp opts (pairs_in done @ cur @ [(k, v)])"
    using Cons.prems(2) table_pairs_prefix [of K cmp opts "pairs_in done @ cur @ [(k, v)]" kvs] by (simp add: kv)
  from add_inv [OF Cons.prems(1) this] obtain t1 where t1: "TableBuilder_Add snappy k v t = Some t1"
    "tb_dead t1 \<or> (\<exists>done' cur' idx'. tb_inv K cmp snappy opts t1 done' cur' idx' \<and>
       pairs_in done' @ cur' = pairs_in done @ cur @ [(k, v)])" by blast
  show ?case
  proof (cases "tb_dead t1")
    case True
    then show ?thesis using t1(1) by (simp add: kv dead_add_pairs)
  next
    case False
    then obtain done' cur' idx' where i: "tb_inv K cmp snappy opts t1 done' cur' idx'"
      "pairs_in done' @ cur' = pairs_in done @ cur @ [(k, v)]" using t1(2) by blast
    then have e: "pairs_in done' @ cur' @ kvs = pairs_in done @ cur @ kv # kvs" by (simp add: kv flip: append_assoc)
    with Cons.IH [OF i(1)] Cons.prems(2) t1(1) show ?thesis by (simp add: kv)
  qed
qed auto

lemma built_table:
  assumes "roomy f" "contents f = []" "table_pairs K cmp opts kvs"
  shows "\<exists>s F. build_table snappy opts kvs f = Some (s, F) \<and> (status_ok s \<longrightarrow> table_file K cmp snappy opts F kvs)"
proof -
  obtain t where t: "new_TableBuilder opts f = Some t" "tb_inv K cmp snappy opts t [] [] []"
    using new_inv [OF assms(1,2)] by blast
  have pairs: "table_pairs K cmp opts (pairs_in [] @ [] @ kvs)" using assms(3) by simp
  obtain t1 where t1: "table_add_pairs snappy kvs t = Some t1" "tb_dead t1 \<or> (\<exists>done' cur' idx'.
     tb_inv K cmp snappy opts t1 done' cur' idx' \<and> pairs_in done' @ cur' = pairs_in [] @ [] @ kvs)"
    using add_pairs_inv [OF t(2) pairs] by blast
  have "\<exists>t'. TableBuilder_Finish snappy t1 = Some (tb_status t', t') \<and>
      (status_ok (tb_status t') \<longrightarrow> table_file K cmp snappy opts (contents (tb_file t')) kvs)"
  proof (cases "tb_dead t1")
    case True
    with dead_Finish [OF this, of snappy] show ?thesis by metis
  next
    case False
    then obtain done' cur' idx' where i: "tb_inv K cmp snappy opts t1 done' cur' idx'" "pairs_in done' @ cur' = kvs"
      using t1(2) by auto
    with finish_inv [OF i(1)] assms(3) show ?thesis by simp
  qed
  then show ?thesis using t(1) t1(1) by (auto simp: build_table_def)
qed

end

end
