(* ===== verification/LdbTwoLevel.thy ===== *)
theory LdbTwoLevel
  imports LdbIterator "HOL-Library.Multiset"
begin

text \<open>
  \<open>table/two_level_iterator.cc\<close>: an iterator over the blocks an index iterator names. The
  iterators are of any implementation (\<open>io\<close>, \<open>dops\<close>); \<open>bf\<close> is \<open>block_function_\<close>, which may change what
  \<open>arg_\<close> points to and gives the data iterator with the cleanup registered for it, and \<open>cl\<close> runs such a
  cleanup when the iterator is deleted. \<open>IteratorWrapper\<close> keeps copies of \<open>Valid\<close> and \<open>key\<close> of an iterator, which only its
  own methods change; here the iterator is asked.
\<close>

record ('i, 'r, 'd, 'e) TwoLevelIterator =
  tl_index :: 'i
  tl_data :: "('r \<times> 'd) option"
  tl_handle :: "byte list"
  tl_status :: Status
  tl_arg :: 'e

type_synonym ('r, 'd, 'e) block_function = "'e \<Rightarrow> byte list \<Rightarrow> ('r \<times> 'd \<times> 'e) option"

type_synonym ('r, 'e) cleanup = "'r \<Rightarrow> 'e \<Rightarrow> 'e option"

definition NewTwoLevelIterator :: "'i \<Rightarrow> 'e \<Rightarrow> ('i, 'r, 'd, 'e) TwoLevelIterator" where
  "NewTwoLevelIterator index_iter arg =
     \<lparr>tl_index = index_iter, tl_data = None, tl_handle = [], tl_status = Status_OK, tl_arg = arg\<rparr>"

definition TwoLevel_Valid :: "'d IteratorOps \<Rightarrow> ('i, 'r, 'd, 'e) TwoLevelIterator \<Rightarrow> bool" where
  "TwoLevel_Valid dops st \<longleftrightarrow> (case tl_data st of None \<Rightarrow> False | Some (r, d) \<Rightarrow> it_Valid dops d)"

definition TwoLevel_key :: "'d IteratorOps \<Rightarrow> ('i, 'r, 'd, 'e) TwoLevelIterator \<Rightarrow> byte list option" where
  "TwoLevel_key dops st =
     (if TwoLevel_Valid dops st then do { (r, d) \<leftarrow> tl_data st; it_key dops d } else None)"

definition TwoLevel_value :: "'d IteratorOps \<Rightarrow> ('i, 'r, 'd, 'e) TwoLevelIterator \<Rightarrow> byte list option" where
  "TwoLevel_value dops st =
     (if TwoLevel_Valid dops st then do { (r, d) \<leftarrow> tl_data st; it_value dops d } else None)"

definition TwoLevel_status :: "'i IteratorOps \<Rightarrow> 'd IteratorOps \<Rightarrow> ('i, 'r, 'd, 'e) TwoLevelIterator \<Rightarrow> Status" where
  "TwoLevel_status io dops st =
     (if \<not> status_ok (it_status io (tl_index st)) then it_status io (tl_index st)
      else
        (case tl_data st of
           None \<Rightarrow> tl_status st
         | Some (r, d) \<Rightarrow> if \<not> status_ok (it_status dops d) then it_status dops d else tl_status st))"

definition SaveError :: "Status \<Rightarrow> ('i, 'r, 'd, 'e) TwoLevelIterator \<Rightarrow> ('i, 'r, 'd, 'e) TwoLevelIterator" where
  "SaveError s st = (if status_ok (tl_status st) \<and> \<not> status_ok s then st\<lparr>tl_status := s\<rparr> else st)"

text \<open>\<open>Set\<close> of the wrapper deletes the iterator it had.\<close>

definition SetDataIterator ::
  "'d IteratorOps \<Rightarrow> ('r, 'e) cleanup \<Rightarrow> ('r \<times> 'd) option \<Rightarrow> ('i, 'r, 'd, 'e) TwoLevelIterator \<Rightarrow>
   ('i, 'r, 'd, 'e) TwoLevelIterator option" where
  "SetDataIterator dops cl data_iter st =
     (case tl_data st of
        None \<Rightarrow> Some (st\<lparr>tl_data := data_iter\<rparr>)
      | Some (r, d) \<Rightarrow>
          do { let st = SaveError (it_status dops d) st;
               arg \<leftarrow> cl r (tl_arg st);
               Some (st\<lparr>tl_arg := arg, tl_data := data_iter\<rparr>) })"

definition InitDataBlock ::
  "'i IteratorOps \<Rightarrow> 'd IteratorOps \<Rightarrow> ('r, 'd, 'e) block_function \<Rightarrow> ('r, 'e) cleanup \<Rightarrow>
   ('i, 'r, 'd, 'e) TwoLevelIterator \<Rightarrow> ('i, 'r, 'd, 'e) TwoLevelIterator option" where
  "InitDataBlock io dops bf cl st =
     (if \<not> it_Valid io (tl_index st) then SetDataIterator dops cl None st
      else
        do { handle \<leftarrow> it_value io (tl_index st);
             if tl_data st \<noteq> None \<and> slice_compare handle (tl_handle st) = 0 then Some st
             else do { (cleanup, iter, arg) \<leftarrow> bf (tl_arg st) handle;
                       SetDataIterator dops cl (Some (cleanup, iter)) (st\<lparr>tl_arg := arg, tl_handle := handle\<rparr>) } })"

text \<open>\<open>if (data_iter_.iter() != NULL)\<close> one of its methods.\<close>

definition on_data ::
  "('d \<Rightarrow> 'd option) \<Rightarrow> ('i, 'r, 'd, 'e) TwoLevelIterator \<Rightarrow> ('i, 'r, 'd, 'e) TwoLevelIterator option" where
  "on_data f st =
     (case tl_data st of
        None \<Rightarrow> Some st
      | Some (r, d) \<Rightarrow> do { d \<leftarrow> f d; Some (st\<lparr>tl_data := Some (r, d)\<rparr>) })"

partial_function (option) SkipEmptyDataBlocksForward ::
  "'i IteratorOps \<Rightarrow> 'd IteratorOps \<Rightarrow> ('r, 'd, 'e) block_function \<Rightarrow> ('r, 'e) cleanup \<Rightarrow> ('i, 'r, 'd, 'e) TwoLevelIterator \<Rightarrow>
   ('i, 'r, 'd, 'e) TwoLevelIterator option" where
  "SkipEmptyDataBlocksForward io dops bf cl st =
     (if TwoLevel_Valid dops st then Some st
      else if \<not> it_Valid io (tl_index st) then SetDataIterator dops cl None st
      else do { index \<leftarrow> it_Next io (tl_index st);
                st \<leftarrow> InitDataBlock io dops bf cl (st\<lparr>tl_index := index\<rparr>);
                st \<leftarrow> on_data (it_SeekToFirst dops) st;
                SkipEmptyDataBlocksForward io dops bf cl st })"

partial_function (option) SkipEmptyDataBlocksBackward ::
  "'i IteratorOps \<Rightarrow> 'd IteratorOps \<Rightarrow> ('r, 'd, 'e) block_function \<Rightarrow> ('r, 'e) cleanup \<Rightarrow> ('i, 'r, 'd, 'e) TwoLevelIterator \<Rightarrow>
   ('i, 'r, 'd, 'e) TwoLevelIterator option" where
  "SkipEmptyDataBlocksBackward io dops bf cl st =
     (if TwoLevel_Valid dops st then Some st
      else if \<not> it_Valid io (tl_index st) then SetDataIterator dops cl None st
      else do { index \<leftarrow> it_Prev io (tl_index st);
                st \<leftarrow> InitDataBlock io dops bf cl (st\<lparr>tl_index := index\<rparr>);
                st \<leftarrow> on_data (it_SeekToLast dops) st;
                SkipEmptyDataBlocksBackward io dops bf cl st })"

definition TwoLevel_Seek ::
  "'i IteratorOps \<Rightarrow> 'd IteratorOps \<Rightarrow> ('r, 'd, 'e) block_function \<Rightarrow> ('r, 'e) cleanup \<Rightarrow> byte list \<Rightarrow>
   ('i, 'r, 'd, 'e) TwoLevelIterator \<Rightarrow> ('i, 'r, 'd, 'e) TwoLevelIterator option" where
  "TwoLevel_Seek io dops bf cl target st =
     do { index \<leftarrow> it_Seek io target (tl_index st);
          st \<leftarrow> InitDataBlock io dops bf cl (st\<lparr>tl_index := index\<rparr>);
          st \<leftarrow> on_data (it_Seek dops target) st;
          SkipEmptyDataBlocksForward io dops bf cl st }"

definition TwoLevel_SeekToFirst ::
  "'i IteratorOps \<Rightarrow> 'd IteratorOps \<Rightarrow> ('r, 'd, 'e) block_function \<Rightarrow> ('r, 'e) cleanup \<Rightarrow>
   ('i, 'r, 'd, 'e) TwoLevelIterator \<Rightarrow> ('i, 'r, 'd, 'e) TwoLevelIterator option" where
  "TwoLevel_SeekToFirst io dops bf cl st =
     do { index \<leftarrow> it_SeekToFirst io (tl_index st);
          st \<leftarrow> InitDataBlock io dops bf cl (st\<lparr>tl_index := index\<rparr>);
          st \<leftarrow> on_data (it_SeekToFirst dops) st;
          SkipEmptyDataBlocksForward io dops bf cl st }"

definition TwoLevel_SeekToLast ::
  "'i IteratorOps \<Rightarrow> 'd IteratorOps \<Rightarrow> ('r, 'd, 'e) block_function \<Rightarrow> ('r, 'e) cleanup \<Rightarrow>
   ('i, 'r, 'd, 'e) TwoLevelIterator \<Rightarrow> ('i, 'r, 'd, 'e) TwoLevelIterator option" where
  "TwoLevel_SeekToLast io dops bf cl st =
     do { index \<leftarrow> it_SeekToLast io (tl_index st);
          st \<leftarrow> InitDataBlock io dops bf cl (st\<lparr>tl_index := index\<rparr>);
          st \<leftarrow> on_data (it_SeekToLast dops) st;
          SkipEmptyDataBlocksBackward io dops bf cl st }"

definition TwoLevel_Next ::
  "'i IteratorOps \<Rightarrow> 'd IteratorOps \<Rightarrow> ('r, 'd, 'e) block_function \<Rightarrow> ('r, 'e) cleanup \<Rightarrow>
   ('i, 'r, 'd, 'e) TwoLevelIterator \<Rightarrow> ('i, 'r, 'd, 'e) TwoLevelIterator option" where
  "TwoLevel_Next io dops bf cl st =
     (if TwoLevel_Valid dops st
      then do { st \<leftarrow> on_data (it_Next dops) st; SkipEmptyDataBlocksForward io dops bf cl st }
      else None)"

definition TwoLevel_Prev ::
  "'i IteratorOps \<Rightarrow> 'd IteratorOps \<Rightarrow> ('r, 'd, 'e) block_function \<Rightarrow> ('r, 'e) cleanup \<Rightarrow>
   ('i, 'r, 'd, 'e) TwoLevelIterator \<Rightarrow> ('i, 'r, 'd, 'e) TwoLevelIterator option" where
  "TwoLevel_Prev io dops bf cl st =
     (if TwoLevel_Valid dops st
      then do { st \<leftarrow> on_data (it_Prev dops) st; SkipEmptyDataBlocksBackward io dops bf cl st }
      else None)"

text \<open>The destructor deletes the data iterator.\<close>

definition TwoLevel_delete :: "('r, 'e) cleanup \<Rightarrow> ('i, 'r, 'd, 'e) TwoLevelIterator \<Rightarrow> 'e option" where
  "TwoLevel_delete cl st = (case tl_data st of None \<Rightarrow> Some (tl_arg st) | Some (r, d) \<Rightarrow> cl r (tl_arg st))"

definition TwoLevelOps ::
  "'i IteratorOps \<Rightarrow> 'd IteratorOps \<Rightarrow> ('r, 'd, 'e) block_function \<Rightarrow> ('r, 'e) cleanup \<Rightarrow> ('i, 'r, 'd, 'e) TwoLevelIterator IteratorOps" where
  "TwoLevelOps io dops bf cl =
     \<lparr>it_Valid = TwoLevel_Valid dops, it_key = TwoLevel_key dops, it_value = TwoLevel_value dops,
      it_Next = TwoLevel_Next io dops bf cl, it_Prev = TwoLevel_Prev io dops bf cl,
      it_SeekToFirst = TwoLevel_SeekToFirst io dops bf cl, it_SeekToLast = TwoLevel_SeekToLast io dops bf cl,
      it_Seek = TwoLevel_Seek io dops bf cl, it_status = TwoLevel_status io dops\<rparr>"

section \<open>The concatenation of the blocks\<close>

text \<open>
  \<open>blk\<close> is what the block of a handle holds. The index has, for each block, a key that is not
  below the block's keys and below those of the blocks after it.
\<close>

definition index_separates ::
  "(byte list \<Rightarrow> bool) \<Rightarrow> (byte list \<Rightarrow> byte list \<Rightarrow> int) \<Rightarrow> (byte list \<Rightarrow> pair list) \<Rightarrow> pair list \<Rightarrow> bool" where
  "index_separates K cmp blk idx \<longleftrightarrow>
     (\<forall>i<length idx. K (fst (idx ! i)) \<and> (\<forall>e \<in> set (blk (snd (idx ! i))). K (fst e) \<and> cmp (fst e) (fst (idx ! i)) \<le> 0)) \<and>
     (\<forall>j<length idx. \<forall>i<j. \<forall>e \<in> set (blk (snd (idx ! j))). cmp (fst (idx ! i)) (fst e) < 0)"

lemma index_separatesD:
  assumes "index_separates K cmp blk idx" "j < length idx"
  shows "K (fst (idx ! j))"
    and "e \<in> set (blk (snd (idx ! j))) \<Longrightarrow> K (fst e) \<and> cmp (fst e) (fst (idx ! j)) \<le> 0"
    and "i < j \<Longrightarrow> e \<in> set (blk (snd (idx ! j))) \<Longrightarrow> cmp (fst (idx ! i)) (fst e) < 0"
  using assms unfolding index_separates_def by blast+

definition all_pairs :: "(byte list \<Rightarrow> pair list) \<Rightarrow> pair list \<Rightarrow> pair list" where
  "all_pairs blk idx = concat (map (blk \<circ> snd) idx)"

text \<open>How many pairs are in the blocks before the \<open>i\<close>-th.\<close>

definition pairs_before :: "(byte list \<Rightarrow> pair list) \<Rightarrow> pair list \<Rightarrow> nat \<Rightarrow> nat" where
  "pairs_before blk idx i = length (all_pairs blk (take i idx))"

lemma pairs_before_0 [simp]: "pairs_before blk idx 0 = 0"
  by (simp add: pairs_before_def all_pairs_def)

lemma pairs_before_end: "pairs_before blk idx (length idx) = length (all_pairs blk idx)"
  by (simp add: pairs_before_def)

lemma pairs_before_Suc:
  "i < length idx \<Longrightarrow> pairs_before blk idx (Suc i) = pairs_before blk idx i + length (blk (snd (idx ! i)))"
  by (simp add: pairs_before_def all_pairs_def take_Suc_conv_app_nth)

lemma all_pairs_split:
  "i < length idx \<Longrightarrow> all_pairs blk idx = all_pairs blk (take i idx) @ blk (snd (idx ! i)) @ all_pairs blk (drop (Suc i) idx)"
  using id_take_nth_drop [of i idx] by (metis (no_types, lifting) all_pairs_def comp_apply concat.simps(2) concat_append list.simps(9) map_append)

lemma all_pairs_nth:
  "i < length idx \<Longrightarrow> j < length (blk (snd (idx ! i))) \<Longrightarrow>
   all_pairs blk idx ! (pairs_before blk idx i + j) = blk (snd (idx ! i)) ! j \<and>
   pairs_before blk idx i + j < length (all_pairs blk idx)"
  using all_pairs_split [of i idx blk] by (simp add: pairs_before_def nth_append)

lemma all_pairs_mem: "e \<in> set (all_pairs blk xs) \<longleftrightarrow> (\<exists>x \<in> set xs. e \<in> set (blk (snd x)))"
  by (auto simp: all_pairs_def)

lemma takeWhile_stop: "(\<And>z. z \<in> set zs \<Longrightarrow> \<not> P z) \<Longrightarrow> takeWhile P (ys @ zs) = takeWhile P ys"
  by (cases zs) (auto simp: takeWhile_append takeWhile_eq_all_conv [THEN iffD2])

section \<open>Positions\<close>

text \<open>
  \<open>serves e M idx blk\<close>: with the argument \<open>e\<close>, while iterators with the cleanups \<open>M\<close> are open, the block
  function opens the blocks of the index \<open>idx\<close> with the contents \<open>blk\<close>.
\<close>

locale two_level = three_way K cmp for K :: "byte list \<Rightarrow> bool" and cmp +
  fixes iat :: "pair list \<Rightarrow> 'i \<Rightarrow> nat \<Rightarrow> bool" and io :: "'i IteratorOps"
    and dat :: "pair list \<Rightarrow> 'd \<Rightarrow> nat \<Rightarrow> bool" and dops :: "'d IteratorOps"
    and bf :: "('r, 'd, 'e) block_function" and cl :: "('r, 'e) cleanup"
    and serves :: "'e \<Rightarrow> 'r multiset \<Rightarrow> pair list \<Rightarrow> (byte list \<Rightarrow> pair list) \<Rightarrow> bool"
  assumes index_iterator: "iterator_ops iat io K cmp"
    and data_iterator: "iterator_ops dat dops K cmp"
    and opens: "serves e M idx blk \<Longrightarrow> size M \<le> 1 \<Longrightarrow> h \<in> snd ` set idx \<Longrightarrow>
      \<exists>r d e' j. bf e h = Some (r, d, e') \<and> serves e' (add_mset r M) idx blk \<and> dat (blk h) d j"
    and closes: "serves e (add_mset r M) idx blk \<Longrightarrow> \<exists>e'. cl r e = Some e' \<and> serves e' M idx blk"
    and separates: "serves e M idx blk \<Longrightarrow> index_separates K cmp blk idx"

text \<open>The cleanup of the open data iterator, if there is one.\<close>

definition held :: "('i, 'r, 'd, 'e) TwoLevelIterator \<Rightarrow> 'r multiset" where
  "held st = (case tl_data st of None \<Rightarrow> {#} | Some (r, d) \<Rightarrow> {#r#})"

lemma held_simps [simp]:
  "tl_data st = None \<Longrightarrow> held st = {#}" "tl_data st = Some (r, d) \<Longrightarrow> held st = {#r#}" "size (held st) \<le> 1"
  "held (st\<lparr>tl_index := i\<rparr>) = held st"
  by (auto simp: held_def split: option.splits)

text \<open>The iterator is somewhere: at \<open>j\<close> in the block \<open>i\<close>, or at a position of the whole.\<close>

type_synonym ('r, 'e) serving = "'e \<Rightarrow> 'r multiset \<Rightarrow> pair list \<Rightarrow> (byte list \<Rightarrow> pair list) \<Rightarrow> bool"

definition two_open ::
  "(pair list \<Rightarrow> 'i \<Rightarrow> nat \<Rightarrow> bool) \<Rightarrow> (pair list \<Rightarrow> 'd \<Rightarrow> nat \<Rightarrow> bool) \<Rightarrow>
   ('r, 'e) serving \<Rightarrow> pair list \<Rightarrow> (byte list \<Rightarrow> pair list) \<Rightarrow> ('i, 'r, 'd, 'e) TwoLevelIterator \<Rightarrow> bool" where
  "two_open iat dat serves idx blk st \<longleftrightarrow> serves (tl_arg st) (held st) idx blk \<and> (\<exists>i. iat idx (tl_index st) i) \<and>
     (\<forall>r d. tl_data st = Some (r, d) \<longrightarrow> tl_handle st \<in> snd ` set idx \<and> (\<exists>j. dat (blk (tl_handle st)) d j))"

definition in_block ::
  "(pair list \<Rightarrow> 'i \<Rightarrow> nat \<Rightarrow> bool) \<Rightarrow> (pair list \<Rightarrow> 'd \<Rightarrow> nat \<Rightarrow> bool) \<Rightarrow>
   ('r, 'e) serving \<Rightarrow> pair list \<Rightarrow> (byte list \<Rightarrow> pair list) \<Rightarrow>
   ('i, 'r, 'd, 'e) TwoLevelIterator \<Rightarrow> nat \<Rightarrow> nat \<Rightarrow> bool" where
  "in_block iat dat serves idx blk st i j \<longleftrightarrow> serves (tl_arg st) (held st) idx blk \<and> iat idx (tl_index st) i \<and>
     i < length idx \<and> tl_handle st = snd (idx ! i) \<and>
     (\<exists>r d. tl_data st = Some (r, d) \<and> dat (blk (snd (idx ! i))) d j)"

definition two_pos ::
  "(pair list \<Rightarrow> 'i \<Rightarrow> nat \<Rightarrow> bool) \<Rightarrow> (pair list \<Rightarrow> 'd \<Rightarrow> nat \<Rightarrow> bool) \<Rightarrow>
   ('r, 'e) serving \<Rightarrow> pair list \<Rightarrow> (byte list \<Rightarrow> pair list) \<Rightarrow>
   ('i, 'r, 'd, 'e) TwoLevelIterator \<Rightarrow> nat \<Rightarrow> bool" where
  "two_pos iat dat serves idx blk st n \<longleftrightarrow>
     (\<exists>i j. in_block iat dat serves idx blk st i j \<and> j < length (blk (snd (idx ! i))) \<and> n = pairs_before blk idx i + j) \<or>
     n = length (all_pairs blk idx) \<and> tl_data st = None \<and> two_open iat dat serves idx blk st"

definition two_at ::
  "(pair list \<Rightarrow> 'i \<Rightarrow> nat \<Rightarrow> bool) \<Rightarrow> (pair list \<Rightarrow> 'd \<Rightarrow> nat \<Rightarrow> bool) \<Rightarrow>
   ('r, 'e) serving \<Rightarrow> pair list \<Rightarrow> ('i, 'r, 'd, 'e) TwoLevelIterator \<Rightarrow> nat \<Rightarrow> bool" where
  "two_at iat dat serves kvs st n \<longleftrightarrow>
     (\<exists>idx blk. kvs = all_pairs blk idx \<and> two_pos iat dat serves idx blk st n)"

context two_level
begin

abbreviation (input) "open_at \<equiv> two_open iat dat serves"
abbreviation (input) "block_pos \<equiv> in_block iat dat serves"
abbreviation (input) "pos \<equiv> two_pos iat dat serves"

lemmas index_ops = iterator.at_valid [OF index_iterator] iterator.at_pair [OF index_iterator]
lemmas data_ops = iterator.at_valid [OF data_iterator] iterator.at_pair [OF data_iterator]

lemma block_pos_open: "block_pos idx blk st i j \<Longrightarrow> open_at idx blk st"
  by (auto simp: in_block_def two_open_def)

lemma pos_open: "pos idx blk st n \<Longrightarrow> open_at idx blk st"
  by (auto simp: two_pos_def block_pos_open)

lemma set_data:
  assumes "serves (tl_arg st) (M + held st) idx blk"
  shows "\<exists>st'. SetDataIterator dops cl x st = Some st' \<and> tl_index st' = tl_index st \<and> tl_data st' = x \<and>
     tl_handle st' = tl_handle st \<and> serves (tl_arg st') M idx blk"
proof (cases "tl_data st")
  case None
  then show ?thesis using assms by (simp add: SetDataIterator_def)
next
  case (Some rd)
  obtain r d where rd: "rd = (r, d)" by fastforce
  with assms Some obtain e' where "cl r (tl_arg st) = Some e'" "serves e' M idx blk" using closes by fastforce
  then show ?thesis using Some rd by (auto simp: SetDataIterator_def SaveError_def Let_def)
qed

lemma init_block:
  assumes "open_at idx blk st" "iat idx ix i"
  shows "\<exists>st'. InitDataBlock io dops bf cl (st\<lparr>tl_index := ix\<rparr>) = Some st' \<and>
     (if i < length idx then \<exists>j. block_pos idx blk st' i j
      else tl_data st' = None \<and> tl_index st' = ix \<and> serves (tl_arg st') {#} idx blk)"
proof (cases "i < length idx")
  case True
  with index_ops [OF assms(2)] have v: "it_Valid io ix" "it_value io ix = Some (snd (idx ! i))" by auto
  have h: "snd (idx ! i) \<in> snd ` set idx" using True by simp
  show ?thesis
  proof (cases "tl_data st \<noteq> None \<and> tl_handle st = snd (idx ! i)")
    case same: True
    then have "InitDataBlock io dops bf cl (st\<lparr>tl_index := ix\<rparr>) = Some (st\<lparr>tl_index := ix\<rparr>)"
      using v by (simp add: InitDataBlock_def slice_compare_sign)
    moreover have "\<exists>j. block_pos idx blk (st\<lparr>tl_index := ix\<rparr>) i j"
      using same assms True by (auto simp: two_open_def in_block_def)
    ultimately show ?thesis using True by auto
  next
    case False
    obtain r d e' j where d: "bf (tl_arg st) (snd (idx ! i)) = Some (r, d, e')"
      "serves e' (add_mset r (held st)) idx blk" "dat (blk (snd (idx ! i))) d j"
      using opens [OF _ held_simps(3) h, of "tl_arg st" st blk] assms(1) unfolding two_open_def by blast
    let ?st = "st\<lparr>tl_index := ix, tl_arg := e', tl_handle := snd (idx ! i)\<rparr>"
    have "held ?st = held st" by (simp add: held_def)
    with d(2) have "serves (tl_arg ?st) ({#r#} + held ?st) idx blk" by simp
    from set_data [OF this, of "Some (r, d)"] obtain st' where st': "SetDataIterator dops cl (Some (r, d)) ?st = Some st'"
      "tl_index st' = ix" "tl_data st' = Some (r, d)" "tl_handle st' = snd (idx ! i)" "serves (tl_arg st') {#r#} idx blk" by auto
    have "\<not> (tl_data st \<noteq> None \<and> slice_compare (snd (idx ! i)) (tl_handle st) = 0)"
      using False by (auto simp: slice_compare_sign)
    then have "InitDataBlock io dops bf cl (st\<lparr>tl_index := ix\<rparr>) = Some st'"
      using v d(1) st'(1) by (auto simp: InitDataBlock_def)
    then show ?thesis using True d(3) st' assms(2) by (auto simp: in_block_def)
  qed
next
  case False
  with index_ops(1) [OF assms(2)] have v: "\<not> it_Valid io ix" by simp
  let ?st = "st\<lparr>tl_index := ix\<rparr>"
  have "serves (tl_arg ?st) ({#} + held ?st) idx blk" using assms(1) by (simp add: two_open_def)
  from set_data [OF this, of None] False v show ?thesis by (auto simp: InitDataBlock_def)
qed

lemma init_in_block:
  assumes "open_at idx blk st" "iat idx ix i" "i < length idx"
  shows "\<exists>st' j. InitDataBlock io dops bf cl (st\<lparr>tl_index := ix\<rparr>) = Some st' \<and> block_pos idx blk st' i j"
  using init_block [OF assms(1,2)] assms(3) by auto

lemma init_past_end:
  assumes "open_at idx blk st" "iat idx ix i" "\<not> i < length idx"
  shows "\<exists>st'. InitDataBlock io dops bf cl (st\<lparr>tl_index := ix\<rparr>) = Some st' \<and> tl_data st' = None \<and>
     iat idx (tl_index st') i \<and> serves (tl_arg st') {#} idx blk"
  using init_block [OF assms(1,2)] assms(2,3) by auto

lemma block_valid:
  "block_pos idx blk st i j \<Longrightarrow> j \<le> length (blk (snd (idx ! i))) \<and>
   (TwoLevel_Valid dops st \<longleftrightarrow> j < length (blk (snd (idx ! i)))) \<and> it_Valid io (tl_index st)"
  using data_ops(1) index_ops(1) by (fastforce simp: in_block_def TwoLevel_Valid_def)

text \<open>A data iterator is moved within its block.\<close>

lemma move_data:
  assumes "block_pos idx blk st i j" "\<And>d. dat (blk (snd (idx ! i))) d j \<Longrightarrow> \<exists>d'. f d = Some d' \<and> dat (blk (snd (idx ! i))) d' j'"
  shows "\<exists>st'. on_data f st = Some st' \<and> block_pos idx blk st' i j'"
proof -
  obtain r d where d: "tl_data st = Some (r, d)" "dat (blk (snd (idx ! i))) d j" using assms(1) by (auto simp: in_block_def)
  from assms(2) [OF d(2)] obtain d' where "f d = Some d'" "dat (blk (snd (idx ! i))) d' j'" by blast
  then show ?thesis using d(1) assms(1) by (auto simp: on_data_def in_block_def held_def)
qed

lemma skip_at_end:
  assumes "tl_data st = None" "iat idx (tl_index st) i" "\<not> i < length idx" "serves (tl_arg st) {#} idx blk"
  shows "\<exists>st'. SkipEmptyDataBlocksForward io dops bf cl st = Some st' \<and> pos idx blk st' (length (all_pairs blk idx))"
    "\<exists>st'. SkipEmptyDataBlocksBackward io dops bf cl st = Some st' \<and> pos idx blk st' (length (all_pairs blk idx))"
proof -
  have "\<not> TwoLevel_Valid dops st" "\<not> it_Valid io (tl_index st)"
    using assms index_ops(1) [OF assms(2)] by (simp_all add: TwoLevel_Valid_def)
  moreover have "SetDataIterator dops cl None st = Some (st\<lparr>tl_data := None\<rparr>)"
    using assms(1) by (simp add: SetDataIterator_def)
  moreover have "pos idx blk (st\<lparr>tl_data := None\<rparr>) (length (all_pairs blk idx))"
    using assms by (auto simp: two_pos_def two_open_def)
  ultimately show "\<exists>st'. SkipEmptyDataBlocksForward io dops bf cl st = Some st' \<and> pos idx blk st' (length (all_pairs blk idx))"
    "\<exists>st'. SkipEmptyDataBlocksBackward io dops bf cl st = Some st' \<and> pos idx blk st' (length (all_pairs blk idx))"
    by (simp_all add: SkipEmptyDataBlocksForward.simps SkipEmptyDataBlocksBackward.simps)
qed

lemma block_pos_here:
  assumes "block_pos idx blk st i j" "j < length (blk (snd (idx ! i)))"
  shows "SkipEmptyDataBlocksForward io dops bf cl st = Some st" "SkipEmptyDataBlocksBackward io dops bf cl st = Some st"
    "pos idx blk st (pairs_before blk idx i + j)"
  using assms block_valid [OF assms(1)]
  by (auto simp: SkipEmptyDataBlocksForward.simps SkipEmptyDataBlocksBackward.simps two_pos_def)

lemma skip_forward:
  "block_pos idx blk st i j \<Longrightarrow>
   \<exists>st'. SkipEmptyDataBlocksForward io dops bf cl st = Some st' \<and> pos idx blk st' (pairs_before blk idx i + j)"
proof (induction "length idx - i" arbitrary: st i j rule: less_induct)
  case less
  show ?case
  proof (cases "j < length (blk (snd (idx ! i)))")
    case True
    with block_pos_here [OF less(2)] show ?thesis by blast
  next
    case False
    with block_valid [OF less(2)] have v: "j = length (blk (snd (idx ! i)))" "\<not> TwoLevel_Valid dops st"
      "it_Valid io (tl_index st)" by auto
    have i: "i < length idx" "iat idx (tl_index st) i" using less(2) by (simp_all add: in_block_def)
    obtain ix where ix: "it_Next io (tl_index st) = Some ix" "iat idx ix (Suc i)"
      using iterator.at_next [OF index_iterator i(2,1)] by blast
    note opened = block_pos_open [OF less(2)]
    have b: "pairs_before blk idx i + j = pairs_before blk idx (Suc i)" using pairs_before_Suc [OF i(1)] v(1) by simp
    show ?thesis
    proof (cases "Suc i < length idx")
      case True
      obtain st1 j1 where st1: "InitDataBlock io dops bf cl (st\<lparr>tl_index := ix\<rparr>) = Some st1"
        "block_pos idx blk st1 (Suc i) j1" using init_in_block [OF opened ix(2) True] by blast
      then obtain st2 where st2: "on_data (it_SeekToFirst dops) st1 = Some st2" "block_pos idx blk st2 (Suc i) 0"
        using move_data [of idx blk st1 "Suc i" j1 "it_SeekToFirst dops" 0] iterator.at_first [OF data_iterator] by blast
      from less(1) [OF _ st2(2)] i(1) b show ?thesis
        by (subst SkipEmptyDataBlocksForward.simps) (simp add: v ix st1 st2(1))
    next
      case False
      obtain st1 where st1: "InitDataBlock io dops bf cl (st\<lparr>tl_index := ix\<rparr>) = Some st1" and
        e: "tl_data st1 = None" "iat idx (tl_index st1) (Suc i)" "serves (tl_arg st1) {#} idx blk"
        using init_past_end [OF opened ix(2) False] by blast
      have "on_data (it_SeekToFirst dops) st1 = Some st1" using e(1) by (simp add: on_data_def)
      moreover have "length idx = Suc i" using False i(1) by simp
      ultimately show ?thesis
        using skip_at_end(1) [OF e(1,2) False e(3)] b pairs_before_end [of blk idx]
        by (subst SkipEmptyDataBlocksForward.simps) (simp add: v ix(1) st1)
    qed
  qed
qed

text \<open>The pair before position \<open>n\<close>, or past the end.\<close>

abbreviation (input) "previous blk idx n \<equiv> (if n = 0 then length (all_pairs blk idx) else n - 1)"

lemma skip_backward:
  "block_pos idx blk st i (length (blk (snd (idx ! i)))) \<Longrightarrow>
   \<exists>st'. SkipEmptyDataBlocksBackward io dops bf cl st = Some st' \<and> pos idx blk st' (previous blk idx (pairs_before blk idx i))"
proof (induction i arbitrary: st rule: less_induct)
  case (less i)
  have v: "\<not> TwoLevel_Valid dops st" "it_Valid io (tl_index st)" using block_valid [OF less(2)] by auto
  have i: "i < length idx" "iat idx (tl_index st) i" using less(2) by (simp_all add: in_block_def)
  obtain ix where ix: "it_Prev io (tl_index st) = Some ix" "iat idx ix (if i = 0 then length idx else i - 1)"
    using iterator.at_prev [OF index_iterator i(2,1)] by blast
  show ?case
  proof (cases "i = 0")
    case True
    with ix(2) have past: "iat idx ix (length idx)" by simp
    obtain st1 where st1: "InitDataBlock io dops bf cl (st\<lparr>tl_index := ix\<rparr>) = Some st1"
      and e: "tl_data st1 = None" "iat idx (tl_index st1) (length idx)" "serves (tl_arg st1) {#} idx blk"
      using init_past_end [OF block_pos_open [OF less(2)] past] by blast
    then have "on_data (it_SeekToLast dops) st1 = Some st1" by (simp add: on_data_def)
    then show ?thesis
      using skip_at_end(2) [OF e(1,2) less_irrefl e(3)] True
      by (subst SkipEmptyDataBlocksBackward.simps) (simp add: v ix(1) st1)
  next
    case False
    with ix(2) have to: "iat idx ix (i - 1)" by simp
    obtain st1 j1 where st1: "InitDataBlock io dops bf cl (st\<lparr>tl_index := ix\<rparr>) = Some st1"
      and "block_pos idx blk st1 (i - 1) j1"
      using init_in_block [OF block_pos_open [OF less(2)] to less_imp_diff_less [OF i(1)]] by blast
    then obtain st2 where st2: "on_data (it_SeekToLast dops) st1 = Some st2"
      "block_pos idx blk st2 (i - 1) (length (blk (snd (idx ! (i - 1)))) - 1)"
      using move_data [of idx blk st1 "i - 1" j1 "it_SeekToLast dops"] iterator.at_last [OF data_iterator] by blast
    have b: "pairs_before blk idx i = pairs_before blk idx (i - 1) + length (blk (snd (idx ! (i - 1))))"
      using pairs_before_Suc [of "i - 1" idx blk] i(1) False by simp
    have step: "SkipEmptyDataBlocksBackward io dops bf cl st = SkipEmptyDataBlocksBackward io dops bf cl st2"
      by (subst SkipEmptyDataBlocksBackward.simps) (simp add: v ix(1) st1 st2(1))
    show ?thesis
    proof (cases "blk (snd (idx ! (i - 1))) = []")
      case True
      then have "block_pos idx blk st2 (i - 1) (length (blk (snd (idx ! (i - 1)))))" using st2(2) by simp
      have "i - 1 < i" using False by simp
      from less(1) [OF this \<open>block_pos idx blk st2 (i - 1) (length (blk (snd (idx ! (i - 1)))))\<close>]
      have "\<exists>st'. SkipEmptyDataBlocksBackward io dops bf cl st2 = Some st' \<and>
          pos idx blk st' (previous blk idx (pairs_before blk idx (i - 1)))" .
      moreover have "pairs_before blk idx i = pairs_before blk idx (i - 1)" using b True by simp
      ultimately show ?thesis unfolding step by (simp only:)
    next
      case nonempty: False
      then have l: "length (blk (snd (idx ! (i - 1)))) - 1 < length (blk (snd (idx ! (i - 1))))" by simp
      have "previous blk idx (pairs_before blk idx i) = pairs_before blk idx (i - 1) + (length (blk (snd (idx ! (i - 1)))) - 1)"
        using b l by (simp only: split: if_split) linarith
      then show ?thesis using block_pos_here(2,3) [OF st2(2) l] step by simp
    qed
  qed
qed

text \<open>\<open>Seek\<close> in the index and then in the block is \<open>Seek\<close> in the whole.\<close>

lemma seek_index_all:
  assumes "index_separates K cmp blk idx" "K target" "i = seek_index cmp target idx"
  shows "seek_index cmp target (all_pairs blk idx) = pairs_before blk idx i +
     (if i < length idx then seek_index cmp target (blk (snd (idx ! i))) else 0)"
proof -
  have i: "i \<le> length idx" using assms(3) by (simp add: seek_index_le)
  have below: "cmp (fst e) target < 0" if e: "e \<in> set (all_pairs blk (take i idx))" for e
  proof -
    obtain x where "x \<in> set (take i idx)" "e \<in> set (blk (snd x))" using e by (auto simp: all_pairs_mem)
    then obtain j where j: "j < i" "e \<in> set (blk (snd (idx ! j)))"
      using i in_set_conv_nth [of x "take i idx"] by auto
    then have "cmp (fst (idx ! j)) target < 0" using seek_index_below [of j cmp target idx] assms(3) by simp
    moreover have "cmp (fst e) (fst (idx ! j)) \<le> 0" "K (fst e)" "K (fst (idx ! j))"
      using index_separatesD(1,2) [OF assms(1), of j] j i by auto
    ultimately show ?thesis using cmp_le_less [of "fst e" "fst (idx ! j)" target] assms(2) by blast
  qed
  have above: "\<not> cmp (fst e) target < 0" if i': "i < length idx" and e': "e \<in> set (all_pairs blk (drop (Suc i) idx))" for e
  proof
    assume e: "cmp (fst e) target < 0"
    obtain x where "x \<in> set (drop (Suc i) idx)" "e \<in> set (blk (snd x))" using e' by (auto simp: all_pairs_mem)
    then obtain k where k: "k < length idx - Suc i" "idx ! (Suc i + k) = x" "e \<in> set (blk (snd x))"
      using in_set_conv_nth [of x "drop (Suc i) idx"] i' by auto
    define j where "j = Suc i + k"
    have j: "i < j" "j < length idx" "e \<in> set (blk (snd (idx ! j)))" using k by (auto simp: j_def)
    have "cmp (fst (idx ! i)) (fst e) < 0" "K (fst e)" "K (fst (idx ! i))"
      using index_separatesD [OF assms(1) j(2)] index_separatesD(1) [OF assms(1) i'] j by auto
    then have "cmp (fst (idx ! i)) target < 0" using cmp_less_le [of "fst (idx ! i)" "fst e" target] e assms(2) by simp
    then show False using seek_index_at [of cmp target idx] i' assms(3) by simp
  qed
  show ?thesis
  proof (cases "i < length idx")
    case True
    show ?thesis
      unfolding seek_index_def all_pairs_split [OF True, of blk] pairs_before_def
      using below above True by (simp add: takeWhile_stop)
  next
    case False
    with i have all: "take i idx = idx" by simp
    have "takeWhile (\<lambda>e. cmp (fst e) target < 0) (all_pairs blk idx) = all_pairs blk idx"
      using below unfolding all by (intro iffD2 [OF takeWhile_eq_all_conv] ballI)
    then have "seek_index cmp target (all_pairs blk idx) = length (all_pairs blk idx)"
      unfolding seek_index_def by (rule arg_cong)
    moreover have "pairs_before blk idx i = length (all_pairs blk idx)" by (simp add: pairs_before_def all)
    ultimately show ?thesis using False by simp
  qed
qed

section \<open>It is an iterator over all pairs\<close>

lemma two_pos_cases:
  assumes "pos idx blk st n" "n < length (all_pairs blk idx)"
  shows "\<exists>i j. block_pos idx blk st i j \<and> j < length (blk (snd (idx ! i))) \<and> n = pairs_before blk idx i + j"
  using assms by (auto simp: two_pos_def)

lemma two_seek_to_first:
  assumes "open_at idx blk st"
  shows "\<exists>st'. TwoLevel_SeekToFirst io dops bf cl st = Some st' \<and> pos idx blk st' 0"
proof -
  obtain i where "iat idx (tl_index st) i" using assms by (auto simp: two_open_def)
  then obtain ix where ix: "it_SeekToFirst io (tl_index st) = Some ix" "iat idx ix 0"
    using iterator.at_first [OF index_iterator] by blast
  show ?thesis
  proof (cases "idx = []")
    case True
    then have z: "\<not> 0 < length idx" by simp
    obtain st1 where st1: "InitDataBlock io dops bf cl (st\<lparr>tl_index := ix\<rparr>) = Some st1" "tl_data st1 = None"
      "iat idx (tl_index st1) 0" "serves (tl_arg st1) {#} idx blk" using init_past_end [OF assms ix(2) z] by blast
    moreover have "all_pairs blk idx = []" using True by (simp add: all_pairs_def)
    ultimately show ?thesis using skip_at_end(1) [OF st1(2,3) z st1(4)]
      by (simp add: TwoLevel_SeekToFirst_def ix(1) on_data_def)
  next
    case False
    then have "0 < length idx" by simp
    from init_in_block [OF assms ix(2) this] obtain st1 j where
      st1: "InitDataBlock io dops bf cl (st\<lparr>tl_index := ix\<rparr>) = Some st1" "block_pos idx blk st1 0 j" by blast
    then obtain st2 where st2: "on_data (it_SeekToFirst dops) st1 = Some st2" "block_pos idx blk st2 0 0"
      using move_data [of idx blk st1 0 j "it_SeekToFirst dops" 0] iterator.at_first [OF data_iterator] by blast
    from skip_forward [OF st2(2)] show ?thesis by (simp add: TwoLevel_SeekToFirst_def ix(1) st1(1) st2(1))
  qed
qed

lemma two_seek_to_last:
  assumes "open_at idx blk st"
  shows "\<exists>st'. TwoLevel_SeekToLast io dops bf cl st = Some st' \<and> pos idx blk st' (length (all_pairs blk idx) - 1)"
proof -
  obtain i where "iat idx (tl_index st) i" using assms by (auto simp: two_open_def)
  then obtain ix where ix: "it_SeekToLast io (tl_index st) = Some ix" "iat idx ix (length idx - 1)"
    using iterator.at_last [OF index_iterator] by blast
  show ?thesis
  proof (cases "idx = []")
    case True
    then have z: "\<not> length idx - 1 < length idx" by simp
    obtain st1 where st1: "InitDataBlock io dops bf cl (st\<lparr>tl_index := ix\<rparr>) = Some st1" "tl_data st1 = None"
      "iat idx (tl_index st1) (length idx - 1)" "serves (tl_arg st1) {#} idx blk" using init_past_end [OF assms ix(2) z] by blast
    moreover have "all_pairs blk idx = []" using True by (simp add: all_pairs_def)
    ultimately show ?thesis using skip_at_end(2) [OF st1(2,3) z st1(4)]
      by (simp add: TwoLevel_SeekToLast_def ix(1) on_data_def)
  next
    case False
    let ?i = "length idx - 1"
    have l: "?i < length idx" "Suc ?i = length idx" using False by simp_all
    obtain st1 j where st1: "InitDataBlock io dops bf cl (st\<lparr>tl_index := ix\<rparr>) = Some st1" "block_pos idx blk st1 ?i j"
      using init_in_block [OF assms ix(2) l(1)] by blast
    let ?n = "length (blk (snd (idx ! ?i)))"
    obtain st2 where st2: "on_data (it_SeekToLast dops) st1 = Some st2" "block_pos idx blk st2 ?i (?n - 1)"
      using move_data [OF st1(2), of "it_SeekToLast dops" "?n - 1"] iterator.at_last [OF data_iterator] by blast
    have N: "length (all_pairs blk idx) = pairs_before blk idx ?i + ?n"
      using pairs_before_Suc [OF l(1), of blk] unfolding l(2) pairs_before_end .
    have "\<exists>st'. SkipEmptyDataBlocksBackward io dops bf cl st2 = Some st' \<and> pos idx blk st' (length (all_pairs blk idx) - 1)"
    proof (cases "?n = 0")
      case True
      then have b: "block_pos idx blk st2 ?i ?n" using st2(2) by simp
      have "previous blk idx (pairs_before blk idx ?i) = length (all_pairs blk idx) - 1" using N True by simp
      then show ?thesis using skip_backward [OF b] by (simp only:)
    next
      case False
      then have j: "?n - 1 < ?n" by simp
      have "pairs_before blk idx ?i + (?n - 1) = length (all_pairs blk idx) - 1" using N j by linarith
      then show ?thesis using block_pos_here(2,3) [OF st2(2) j] by (simp only:) blast
    qed
    then show ?thesis by (simp add: TwoLevel_SeekToLast_def ix(1) st1(1) st2(1))
  qed
qed

lemma seek_pos:
  assumes "open_at idx blk st" "K target"
  shows "\<exists>st'. TwoLevel_Seek io dops bf cl target st = Some st' \<and> pos idx blk st' (seek_index cmp target (all_pairs blk idx))"
proof -
  let ?i = "seek_index cmp target idx"
  have sep: "index_separates K cmp blk idx" using separates assms(1) by (auto simp: two_open_def)
  obtain i where "iat idx (tl_index st) i" using assms(1) by (auto simp: two_open_def)
  then obtain ix where ix: "it_Seek io target (tl_index st) = Some ix" "iat idx ix ?i"
    using iterator.at_seek [OF index_iterator _ assms(2)] by blast
  show ?thesis
  proof (cases "?i < length idx")
    case True
    let ?j = "seek_index cmp target (blk (snd (idx ! ?i)))"
    obtain st1 j where st1: "InitDataBlock io dops bf cl (st\<lparr>tl_index := ix\<rparr>) = Some st1" "block_pos idx blk st1 ?i j"
      using init_in_block [OF assms(1) ix(2) True] by blast
    obtain st2 where st2: "on_data (it_Seek dops target) st1 = Some st2" "block_pos idx blk st2 ?i ?j"
      using move_data [OF st1(2), of "it_Seek dops target" ?j] iterator.at_seek [OF data_iterator _ assms(2)] by blast
    have "seek_index cmp target (all_pairs blk idx) = pairs_before blk idx ?i + ?j"
      using seek_index_all [OF sep assms(2) refl] True by simp
    with skip_forward [OF st2(2)] show ?thesis by (simp add: TwoLevel_Seek_def ix(1) st1(1) st2(1))
  next
    case False
    obtain st1 where st1: "InitDataBlock io dops bf cl (st\<lparr>tl_index := ix\<rparr>) = Some st1" "tl_data st1 = None"
      "iat idx (tl_index st1) ?i" "serves (tl_arg st1) {#} idx blk" using init_past_end [OF assms(1) ix(2) False] by blast
    have "?i = length idx" using False seek_index_le [of cmp target idx] by simp
    then have "seek_index cmp target (all_pairs blk idx) = length (all_pairs blk idx)"
      using seek_index_all [OF sep assms(2) refl] pairs_before_end [of blk idx] by simp
    with skip_at_end(1) [OF st1(2,3) False st1(4)] show ?thesis
      by (simp add: TwoLevel_Seek_def ix(1) st1(1,2) on_data_def)
  qed
qed

lemma two_next_pos:
  assumes "pos idx blk st n" "n < length (all_pairs blk idx)"
  shows "\<exists>st'. TwoLevel_Next io dops bf cl st = Some st' \<and> pos idx blk st' (Suc n)"
proof -
  obtain i j where b: "block_pos idx blk st i j" "j < length (blk (snd (idx ! i)))" "n = pairs_before blk idx i + j"
    using two_pos_cases [OF assms] by blast
  obtain st1 where st1: "on_data (it_Next dops) st = Some st1" "block_pos idx blk st1 i (Suc j)"
    using move_data [OF b(1), of "it_Next dops" "Suc j"] iterator.at_next [OF data_iterator _ b(2)] by blast
  have "TwoLevel_Valid dops st" using block_valid [OF b(1)] b(2) by simp
  then show ?thesis using skip_forward [OF st1(2)] b(3) by (simp add: TwoLevel_Next_def st1(1))
qed

lemma two_prev_pos:
  assumes "pos idx blk st n" "n < length (all_pairs blk idx)"
  shows "\<exists>st'. TwoLevel_Prev io dops bf cl st = Some st' \<and> pos idx blk st' (previous blk idx n)"
proof -
  obtain i j where b: "block_pos idx blk st i j" "j < length (blk (snd (idx ! i)))" "n = pairs_before blk idx i + j"
    using two_pos_cases [OF assms] by blast
  let ?j = "if j = 0 then length (blk (snd (idx ! i))) else j - 1"
  obtain st1 where st1: "on_data (it_Prev dops) st = Some st1" "block_pos idx blk st1 i ?j"
    using move_data [OF b(1), of "it_Prev dops" ?j] iterator.at_prev [OF data_iterator _ b(2)] by blast
  have "\<exists>st'. SkipEmptyDataBlocksBackward io dops bf cl st1 = Some st' \<and> pos idx blk st' (previous blk idx n)"
  proof (cases "j = 0")
    case True
    then have "block_pos idx blk st1 i (length (blk (snd (idx ! i))))" "n = pairs_before blk idx i" using st1(2) b(3) by simp_all
    then show ?thesis using skip_backward by (simp only:)
  next
    case False
    then have p: "block_pos idx blk st1 i (j - 1)" "j - 1 < length (blk (snd (idx ! i)))"
      "pairs_before blk idx i + (j - 1) = previous blk idx n" using st1(2) b(2,3) by simp_all
    then show ?thesis using block_pos_here(2,3) [OF p(1,2)] by (simp only:) blast
  qed
  moreover have "TwoLevel_Valid dops st" using block_valid [OF b(1)] b(2) by simp
  ultimately show ?thesis by (simp add: TwoLevel_Prev_def st1(1))
qed

lemma pos_pair:
  assumes "pos idx blk st n" "n < length (all_pairs blk idx)"
  shows "TwoLevel_Valid dops st \<and> TwoLevel_key dops st = Some (fst (all_pairs blk idx ! n)) \<and>
     TwoLevel_value dops st = Some (snd (all_pairs blk idx ! n))"
proof -
  obtain i j where b: "block_pos idx blk st i j" "j < length (blk (snd (idx ! i)))" "n = pairs_before blk idx i + j"
    using two_pos_cases [OF assms] by blast
  obtain r d where d: "tl_data st = Some (r, d)" "dat (blk (snd (idx ! i))) d j" "i < length idx"
    using b(1) by (auto simp: in_block_def)
  then have "all_pairs blk idx ! n = blk (snd (idx ! i)) ! j" using all_pairs_nth b(2,3) by blast
  then show ?thesis
    using d(1) block_valid [OF b(1)] b(2) data_ops(2) [OF d(2) b(2)]
    by (simp add: TwoLevel_key_def TwoLevel_value_def)
qed

lemma pos_valid: "pos idx blk st n \<Longrightarrow> n \<le> length (all_pairs blk idx) \<and>
    (TwoLevel_Valid dops st \<longleftrightarrow> n < length (all_pairs blk idx))"
proof (cases "n < length (all_pairs blk idx)")
  case True
  assume "pos idx blk st n"
  with pos_pair [OF this True] True show ?thesis by simp
next
  case False
  assume p: "pos idx blk st n"
  have "\<not> (\<exists>i j. block_pos idx blk st i j \<and> j < length (blk (snd (idx ! i))) \<and> n = pairs_before blk idx i + j)"
    using False all_pairs_nth by (auto simp: in_block_def)
  with p have "n = length (all_pairs blk idx)" "tl_data st = None" by (auto simp: two_pos_def)
  then show ?thesis by (simp add: TwoLevel_Valid_def)
qed

lemma two_level_iterator: "iterator_ops (two_at iat dat serves) (TwoLevelOps io dops bf cl) K cmp"
proof
  fix kvs st n assume "two_at iat dat serves kvs st n"
  then obtain idx blk where k: "kvs = all_pairs blk idx" and p: "pos idx blk st n" by (auto simp: two_at_def)
  have here: "two_at iat dat serves kvs st' m" if "pos idx blk st' m" for st' m
    using that k by (auto simp: two_at_def)
  show "n \<le> length kvs \<and> it_Valid (TwoLevelOps io dops bf cl) st = (n < length kvs)"
    using pos_valid [OF p] by (simp add: TwoLevelOps_def k)
  show "\<exists>st'. it_SeekToFirst (TwoLevelOps io dops bf cl) st = Some st' \<and> two_at iat dat serves kvs st' 0"
    using two_seek_to_first [OF pos_open [OF p]] here by (auto simp: TwoLevelOps_def)
  show "\<exists>st'. it_SeekToLast (TwoLevelOps io dops bf cl) st = Some st' \<and> two_at iat dat serves kvs st' (length kvs - 1)"
    using two_seek_to_last [OF pos_open [OF p]] here k by (auto simp: TwoLevelOps_def)
  show "\<exists>st'. it_Seek (TwoLevelOps io dops bf cl) target st = Some st' \<and>
      two_at iat dat serves kvs st' (seek_index cmp target kvs)" if "K target" for target
    using seek_pos [OF pos_open [OF p] that] here k by (auto simp: TwoLevelOps_def)
  assume n: "n < length kvs"
  show "it_key (TwoLevelOps io dops bf cl) st = Some (fst (kvs ! n)) \<and>
      it_value (TwoLevelOps io dops bf cl) st = Some (snd (kvs ! n))"
    using pos_pair [OF p] n k by (simp add: TwoLevelOps_def)
  show "\<exists>st'. it_Next (TwoLevelOps io dops bf cl) st = Some st' \<and> two_at iat dat serves kvs st' (Suc n)"
    using two_next_pos [OF p] here k n by (auto simp: TwoLevelOps_def)
  show "\<exists>st'. it_Prev (TwoLevelOps io dops bf cl) st = Some st' \<and>
      two_at iat dat serves kvs st' (if n = 0 then length kvs else n - 1)"
    using two_prev_pos [OF p] here k n by (auto simp: TwoLevelOps_def)
qed

end

end
