(* ===== verification/LdbCache.thy ===== *)
theory LdbCache
  imports LdbBloom
begin

text \<open>
  The cache of \<open>util/cache.cc\<close>. Handles live in a heap, and a handle is its address there. The
  circular lists \<open>lru_\<close> and \<open>in_use_\<close> are the lists of their entries, oldest first, and a hash chain is
  the list of its entries. \<open>None\<close> is a failed assertion, a handle that does not exist, or the use of a
  field that was never set. Locking is left out: every operation runs under the mutex.
\<close>

section \<open>Handles\<close>

text \<open>\<open>lh_linked\<close>: the pointers \<open>next\<close> and \<open>prev\<close> have been set.\<close>

record 'v LRUHandle =
  lh_value :: 'v
  lh_linked :: bool
  lh_charge :: "64 word"
  lh_in_cache :: bool
  lh_refs :: "32 word"
  lh_hash :: "32 word"
  lh_key :: "byte list"

type_synonym 'v lru_heap = "nat \<Rightarrow> 'v LRUHandle option"

text \<open>\<open>key\<close> looks at \<open>next\<close> first; an entry's \<open>next\<close> is never the entry itself.\<close>

definition LRUHandle_key :: "'v LRUHandle \<Rightarrow> byte list option" where
  "LRUHandle_key h = (if lh_linked h then Some (lh_key h) else None)"

section \<open>The hash table\<close>

record HandleTable =
  ht_length :: "32 word"
  ht_elems :: "32 word"
  ht_list :: "nat list list"

text \<open>How far \<open>FindPointer\<close> goes in a chain.\<close>

fun find_slot :: "'v lru_heap \<Rightarrow> byte list \<Rightarrow> 32 word \<Rightarrow> nat list \<Rightarrow> nat option" where
  "find_slot heap key hash [] = Some 0"
| "find_slot heap key hash (a # chain) =
     do { h \<leftarrow> heap a;
          other \<leftarrow> (if lh_hash h \<noteq> hash then Some True else do { k \<leftarrow> LRUHandle_key h; Some (slice_ne key k) });
          if other then map_option Suc (find_slot heap key hash chain) else Some 0 }"

definition bucket_of :: "HandleTable \<Rightarrow> 32 word \<Rightarrow> nat" where
  "bucket_of t hash = unat (hash AND (ht_length t - 1))"

definition FindPointer :: "'v lru_heap \<Rightarrow> byte list \<Rightarrow> 32 word \<Rightarrow> HandleTable \<Rightarrow> (nat \<times> nat list \<times> nat) option" where
  "FindPointer heap key hash t =
     (let i = bucket_of t hash in
      do { chain \<leftarrow> nth_opt (ht_list t) i; n \<leftarrow> find_slot heap key hash chain; Some (i, chain, n) })"

definition HandleTable_Lookup :: "'v lru_heap \<Rightarrow> byte list \<Rightarrow> 32 word \<Rightarrow> HandleTable \<Rightarrow> nat option option" where
  "HandleTable_Lookup heap key hash t =
     do { (i, chain, n) \<leftarrow> FindPointer heap key hash t; Some (nth_opt chain n) }"

text \<open>The loop that doubles \<open>new_length\<close>; at 2^31 it would start again at 0.\<close>

partial_function (option) grow_length :: "32 word \<Rightarrow> 32 word \<Rightarrow> 32 word option" where
  "grow_length new_length elems = (if new_length < elems then grow_length (new_length * 2) elems else Some new_length)"

fun rehash_chain ::
  "'v lru_heap \<Rightarrow> 32 word \<Rightarrow> nat list \<Rightarrow> nat list list \<times> 32 word \<Rightarrow> (nat list list \<times> 32 word) option" where
  "rehash_chain heap new_length [] s = Some s"
| "rehash_chain heap new_length (a # chain) (new_list, count) =
     do { h \<leftarrow> heap a;
          let i = unat (lh_hash h AND (new_length - 1));
          bucket \<leftarrow> nth_opt new_list i;
          rehash_chain heap new_length chain (new_list[i := a # bucket], count + 1) }"

fun rehash ::
  "'v lru_heap \<Rightarrow> 32 word \<Rightarrow> nat list list \<Rightarrow> nat list list \<times> 32 word \<Rightarrow> (nat list list \<times> 32 word) option" where
  "rehash heap new_length [] s = Some s"
| "rehash heap new_length (chain # rest) s =
     do { s \<leftarrow> rehash_chain heap new_length chain s; rehash heap new_length rest s }"

definition HandleTable_Resize :: "'v lru_heap \<Rightarrow> HandleTable \<Rightarrow> HandleTable option" where
  "HandleTable_Resize heap t =
     do { new_length \<leftarrow> grow_length 4 (ht_elems t);
          (new_list, count) \<leftarrow> rehash heap new_length (ht_list t) (replicate (unat new_length) [], 0);
          if ht_elems t = count then Some (t\<lparr>ht_list := new_list, ht_length := new_length\<rparr>) else None }"

definition new_HandleTable :: "HandleTable option" where
  "new_HandleTable = HandleTable_Resize (Map.empty :: unit lru_heap) \<lparr>ht_length = 0, ht_elems = 0, ht_list = []\<rparr>"

definition HandleTable_Insert :: "'v lru_heap \<Rightarrow> nat \<Rightarrow> HandleTable \<Rightarrow> (nat option \<times> HandleTable) option" where
  "HandleTable_Insert heap a t =
     do { h \<leftarrow> heap a;
          key \<leftarrow> LRUHandle_key h;
          (i, chain, n) \<leftarrow> FindPointer heap key (lh_hash h) t;
          let old = nth_opt chain n;
          let t = t\<lparr>ht_list := (ht_list t)[i := take n chain @ a # drop (Suc n) chain]\<rparr>;
          if old = None then
            do { let t = t\<lparr>ht_elems := ht_elems t + 1\<rparr>;
                 t \<leftarrow> (if ht_elems t > ht_length t then HandleTable_Resize heap t else Some t);
                 Some (old, t) }
          else Some (old, t) }"

definition HandleTable_Remove ::
  "'v lru_heap \<Rightarrow> byte list \<Rightarrow> 32 word \<Rightarrow> HandleTable \<Rightarrow> (nat option \<times> HandleTable) option" where
  "HandleTable_Remove heap key hash t =
     do { (i, chain, n) \<leftarrow> FindPointer heap key hash t;
          let result = nth_opt chain n;
          Some (result,
            if result \<noteq> None
            then t\<lparr>ht_list := (ht_list t)[i := take n chain @ drop (Suc n) chain], ht_elems := ht_elems t - 1\<rparr>
            else t) }"

section \<open>A shard\<close>

text \<open>\<open>lc_deleted\<close> are the keys and values passed to the deleters, in order.\<close>

record 'v LRUCache =
  lc_capacity :: "64 word"
  lc_usage :: "64 word"
  lc_lru :: "nat list"
  lc_in_use :: "nat list"
  lc_table :: HandleTable
  lc_heap :: "'v lru_heap"
  lc_deleted :: "(byte list \<times> 'v) list"

definition new_LRUCache :: "64 word \<Rightarrow> 'v LRUCache option" where
  "new_LRUCache capacity =
     do { table \<leftarrow> new_HandleTable;
          Some \<lparr>lc_capacity = capacity, lc_usage = 0, lc_lru = [], lc_in_use = [], lc_table = table,
            lc_heap = Map.empty, lc_deleted = []\<rparr> }"

datatype LRUList = LruList | InUseList

text \<open>Unlinking an entry that is in neither list is an access to pointers that lead nowhere.\<close>

definition LRU_Remove :: "nat \<Rightarrow> 'v LRUCache \<Rightarrow> 'v LRUCache option" where
  "LRU_Remove e c =
     (if e \<in> set (lc_lru c) \<union> set (lc_in_use c)
      then Some (c\<lparr>lc_lru := remove1 e (lc_lru c), lc_in_use := remove1 e (lc_in_use c)\<rparr>) else None)"

definition LRU_Append :: "LRUList \<Rightarrow> nat \<Rightarrow> 'v LRUCache \<Rightarrow> 'v LRUCache option" where
  "LRU_Append list e c =
     do { h \<leftarrow> lc_heap c e;
          if e \<in> set (lc_lru c) \<union> set (lc_in_use c) then None
          else
            (let c = c\<lparr>lc_heap := (lc_heap c)(e \<mapsto> h\<lparr>lh_linked := True\<rparr>)\<rparr> in
             Some (case list of LruList \<Rightarrow> c\<lparr>lc_lru := lc_lru c @ [e]\<rparr> | InUseList \<Rightarrow> c\<lparr>lc_in_use := lc_in_use c @ [e]\<rparr>)) }"

definition set_handle :: "nat \<Rightarrow> 'v LRUHandle \<Rightarrow> 'v LRUCache \<Rightarrow> 'v LRUCache" where
  "set_handle e h c = c\<lparr>lc_heap := (lc_heap c)(e \<mapsto> h)\<rparr>"

definition LRU_Ref :: "nat \<Rightarrow> 'v LRUCache \<Rightarrow> 'v LRUCache option" where
  "LRU_Ref e c =
     do { h \<leftarrow> lc_heap c e;
          c \<leftarrow> (if lh_refs h = 1 \<and> lh_in_cache h then do { c \<leftarrow> LRU_Remove e c; LRU_Append InUseList e c } else Some c);
          h \<leftarrow> lc_heap c e;
          Some (set_handle e (h\<lparr>lh_refs := lh_refs h + 1\<rparr>) c) }"

definition LRU_Unref :: "nat \<Rightarrow> 'v LRUCache \<Rightarrow> 'v LRUCache option" where
  "LRU_Unref e c =
     do { h \<leftarrow> lc_heap c e;
          if lh_refs h = 0 then None
          else
            do { let h = h\<lparr>lh_refs := lh_refs h - 1\<rparr>;
                 let c = set_handle e h c;
                 if lh_refs h = 0 then
                   if lh_in_cache h then None
                   else do { k \<leftarrow> LRUHandle_key h;
                             Some (c\<lparr>lc_deleted := lc_deleted c @ [(k, lh_value h)], lc_heap := (lc_heap c)(e := None)\<rparr>) }
                 else if lh_in_cache h \<and> lh_refs h = 1 then do { c \<leftarrow> LRU_Remove e c; LRU_Append LruList e c }
                 else Some c } }"

definition LRUCache_Lookup :: "byte list \<Rightarrow> 32 word \<Rightarrow> 'v LRUCache \<Rightarrow> (nat option \<times> 'v LRUCache) option" where
  "LRUCache_Lookup key hash c =
     do { e \<leftarrow> HandleTable_Lookup (lc_heap c) key hash (lc_table c);
          case e of
            None \<Rightarrow> Some (None, c)
          | Some a \<Rightarrow> do { c \<leftarrow> LRU_Ref a c; Some (Some a, c) } }"

definition LRUCache_Release :: "nat \<Rightarrow> 'v LRUCache \<Rightarrow> 'v LRUCache option" where
  "LRUCache_Release handle c = LRU_Unref handle c"

definition FinishErase :: "nat option \<Rightarrow> 'v LRUCache \<Rightarrow> (bool \<times> 'v LRUCache) option" where
  "FinishErase e c =
     (case e of
        None \<Rightarrow> Some (False, c)
      | Some a \<Rightarrow>
          do { h \<leftarrow> lc_heap c a;
               if \<not> lh_in_cache h then None
               else do { c \<leftarrow> LRU_Remove a c;
                         let c = set_handle a (h\<lparr>lh_in_cache := False\<rparr>) c;
                         let c = c\<lparr>lc_usage := lc_usage c - lh_charge h\<rparr>;
                         c \<leftarrow> LRU_Unref a c;
                         Some (True, c) } })"

text \<open>The body of the loops of \<open>Insert\<close> and \<open>Prune\<close>: the oldest entry goes.\<close>

definition evict_oldest :: "'v LRUCache \<Rightarrow> 'v LRUCache option" where
  "evict_oldest c =
     do { old \<leftarrow> nth_opt (lc_lru c) 0;
          h \<leftarrow> lc_heap c old;
          if lh_refs h \<noteq> 1 then None
          else
            do { key \<leftarrow> LRUHandle_key h;
                 (e, table) \<leftarrow> HandleTable_Remove (lc_heap c) key (lh_hash h) (lc_table c);
                 (erased, c) \<leftarrow> FinishErase e (c\<lparr>lc_table := table\<rparr>);
                 if erased then Some c else None } }"

partial_function (option) evict :: "'v LRUCache \<Rightarrow> 'v LRUCache option" where
  "evict c = (if lc_usage c > lc_capacity c \<and> lc_lru c \<noteq> [] then do { c \<leftarrow> evict_oldest c; evict c } else Some c)"

text \<open>\<open>a\<close> is the address \<open>malloc\<close> returns.\<close>

definition LRUCache_Insert ::
  "nat \<Rightarrow> byte list \<Rightarrow> 32 word \<Rightarrow> 'v \<Rightarrow> 64 word \<Rightarrow> 'v LRUCache \<Rightarrow> (nat \<times> 'v LRUCache) option" where
  "LRUCache_Insert a key hash value charge c =
     do { let h = \<lparr>lh_value = value, lh_linked = False, lh_charge = charge, lh_in_cache = False, lh_refs = 1,
            lh_hash = hash, lh_key = key\<rparr>;
          c \<leftarrow> (if lc_capacity c > 0 then
                 do { let c = set_handle a (h\<lparr>lh_refs := lh_refs h + 1, lh_in_cache := True\<rparr>) c;
                      c \<leftarrow> LRU_Append InUseList a c;
                      let c = c\<lparr>lc_usage := lc_usage c + charge\<rparr>;
                      (old, table) \<leftarrow> HandleTable_Insert (lc_heap c) a (lc_table c);
                      (erased, c) \<leftarrow> FinishErase old (c\<lparr>lc_table := table\<rparr>);
                      Some c }
               else Some (set_handle a h c));
          c \<leftarrow> evict c;
          Some (a, c) }"

definition LRUCache_Erase :: "byte list \<Rightarrow> 32 word \<Rightarrow> 'v LRUCache \<Rightarrow> 'v LRUCache option" where
  "LRUCache_Erase key hash c =
     do { (e, table) \<leftarrow> HandleTable_Remove (lc_heap c) key hash (lc_table c);
          (erased, c) \<leftarrow> FinishErase e (c\<lparr>lc_table := table\<rparr>);
          Some c }"

partial_function (option) LRUCache_Prune :: "'v LRUCache \<Rightarrow> 'v LRUCache option" where
  "LRUCache_Prune c = (if lc_lru c \<noteq> [] then do { c \<leftarrow> evict_oldest c; LRUCache_Prune c } else Some c)"

definition LRUCache_TotalCharge :: "'v LRUCache \<Rightarrow> 64 word" where
  "LRUCache_TotalCharge c = lc_usage c"

text \<open>The destructor's loop over \<open>lru_\<close>; entries are not unlinked there.\<close>

fun delete_entries :: "nat list \<Rightarrow> 'v LRUCache \<Rightarrow> 'v LRUCache option" where
  "delete_entries [] c = Some c"
| "delete_entries (e # es) c =
     do { h \<leftarrow> lc_heap c e;
          if \<not> lh_in_cache h \<or> lh_refs h \<noteq> 1 then None
          else do { c \<leftarrow> LRU_Unref e (set_handle e (h\<lparr>lh_in_cache := False\<rparr>) c); delete_entries es c } }"

definition LRUCache_delete :: "'v LRUCache \<Rightarrow> 'v LRUCache option" where
  "LRUCache_delete c = (if lc_in_use c = [] then delete_entries (lc_lru c) c else None)"

section \<open>The shards\<close>

definition kNumShardBits :: nat where "kNumShardBits = 4"
definition kNumShards :: nat where "kNumShards = 2 ^ kNumShardBits"

record 'v ShardedLRUCache =
  sc_shard :: "'v LRUCache list"
  sc_last_id :: "64 word"

definition HashSlice :: "byte list \<Rightarrow> 32 word" where
  "HashSlice s = Hash s 0"

definition Shard :: "32 word \<Rightarrow> nat" where
  "Shard hash = unat (drop_bit (32 - kNumShardBits) hash)"

fun new_shards :: "nat \<Rightarrow> 64 word \<Rightarrow> 'v LRUCache list option" where
  "new_shards 0 capacity = Some []"
| "new_shards (Suc n) capacity = do { c \<leftarrow> new_LRUCache capacity; cs \<leftarrow> new_shards n capacity; Some (c # cs) }"

definition NewLRUCache :: "64 word \<Rightarrow> 'v ShardedLRUCache option" where
  "NewLRUCache capacity =
     do { shards \<leftarrow> new_shards kNumShards ((capacity + of_nat (kNumShards - 1)) div of_nat kNumShards);
          Some \<lparr>sc_shard = shards, sc_last_id = 0\<rparr> }"

text \<open>An operation on one shard. A handle is its hash, which is stored in it, and its address in the shard.\<close>

definition on_shard :: "32 word \<Rightarrow> ('v LRUCache \<Rightarrow> ('a \<times> 'v LRUCache) option) \<Rightarrow> 'v ShardedLRUCache \<Rightarrow>
  ('a \<times> 'v ShardedLRUCache) option" where
  "on_shard hash f sc =
     do { c \<leftarrow> nth_opt (sc_shard sc) (Shard hash);
          (x, c) \<leftarrow> f c;
          Some (x, sc\<lparr>sc_shard := (sc_shard sc)[Shard hash := c]\<rparr>) }"

type_synonym cache_handle = "32 word \<times> nat"

definition Cache_Insert ::
  "nat \<Rightarrow> byte list \<Rightarrow> 'v \<Rightarrow> 64 word \<Rightarrow> 'v ShardedLRUCache \<Rightarrow> (cache_handle \<times> 'v ShardedLRUCache) option" where
  "Cache_Insert a key value charge sc =
     (let hash = HashSlice key in
      do { (e, sc) \<leftarrow> on_shard hash (LRUCache_Insert a key hash value charge) sc; Some ((hash, e), sc) })"

definition Cache_Lookup :: "byte list \<Rightarrow> 'v ShardedLRUCache \<Rightarrow> (cache_handle option \<times> 'v ShardedLRUCache) option" where
  "Cache_Lookup key sc =
     (let hash = HashSlice key in
      do { (e, sc) \<leftarrow> on_shard hash (LRUCache_Lookup key hash) sc; Some (map_option (Pair hash) e, sc) })"

definition Cache_Release :: "cache_handle \<Rightarrow> 'v ShardedLRUCache \<Rightarrow> 'v ShardedLRUCache option" where
  "Cache_Release handle sc =
     map_option snd (on_shard (fst handle) (\<lambda>c. map_option (Pair ()) (LRUCache_Release (snd handle) c)) sc)"

definition Cache_Erase :: "byte list \<Rightarrow> 'v ShardedLRUCache \<Rightarrow> 'v ShardedLRUCache option" where
  "Cache_Erase key sc =
     (let hash = HashSlice key in
      map_option snd (on_shard hash (\<lambda>c. map_option (Pair ()) (LRUCache_Erase key hash c)) sc))"

definition Cache_Value :: "cache_handle \<Rightarrow> 'v ShardedLRUCache \<Rightarrow> 'v option" where
  "Cache_Value handle sc =
     do { c \<leftarrow> nth_opt (sc_shard sc) (Shard (fst handle)); h \<leftarrow> lc_heap c (snd handle); Some (lh_value h) }"

definition Cache_NewId :: "'v ShardedLRUCache \<Rightarrow> 64 word \<times> 'v ShardedLRUCache" where
  "Cache_NewId sc = (let i = sc_last_id sc + 1 in (i, sc\<lparr>sc_last_id := i\<rparr>))"

fun prune_shards :: "'v LRUCache list \<Rightarrow> 'v LRUCache list option" where
  "prune_shards [] = Some []"
| "prune_shards (c # cs) = do { c \<leftarrow> LRUCache_Prune c; cs \<leftarrow> prune_shards cs; Some (c # cs) }"

definition Cache_Prune :: "'v ShardedLRUCache \<Rightarrow> 'v ShardedLRUCache option" where
  "Cache_Prune sc = do { cs \<leftarrow> prune_shards (sc_shard sc); Some (sc\<lparr>sc_shard := cs\<rparr>) }"

definition Cache_TotalCharge :: "'v ShardedLRUCache \<Rightarrow> 64 word" where
  "Cache_TotalCharge sc = foldl (\<lambda>total c. total + LRUCache_TotalCharge c) 0 (sc_shard sc)"

section \<open>The interface\<close>

text \<open>The virtual functions of \<open>Cache\<close>; \<open>None\<close> is an operation that does not return.\<close>

record ('c, 'h, 'v) CacheOps =
  co_Insert :: "byte list \<Rightarrow> 'v \<Rightarrow> 64 word \<Rightarrow> 'c \<Rightarrow> ('h \<times> 'c) option"
  co_Lookup :: "byte list \<Rightarrow> 'c \<Rightarrow> ('h option \<times> 'c) option"
  co_Release :: "'h \<Rightarrow> 'c \<Rightarrow> 'c option"
  co_Value :: "'h \<Rightarrow> 'c \<Rightarrow> 'v option"
  co_Erase :: "byte list \<Rightarrow> 'c \<Rightarrow> 'c option"
  co_NewId :: "'c \<Rightarrow> 64 word \<times> 'c"
  co_Prune :: "'c \<Rightarrow> 'c option"
  co_TotalCharge :: "'c \<Rightarrow> 64 word"

text \<open>The LRU cache; \<open>malloc\<close> finds room for a handle.\<close>

definition LRUCacheOps :: "('v lru_heap \<Rightarrow> nat) \<Rightarrow> ('v ShardedLRUCache, cache_handle, 'v) CacheOps" where
  "LRUCacheOps malloc =
     \<lparr>co_Insert = (\<lambda>key value charge sc. do { c \<leftarrow> nth_opt (sc_shard sc) (Shard (HashSlice key));
        Cache_Insert (malloc (lc_heap c)) key value charge sc }),
      co_Lookup = Cache_Lookup, co_Release = Cache_Release, co_Value = Cache_Value, co_Erase = Cache_Erase,
      co_NewId = Cache_NewId, co_Prune = Cache_Prune, co_TotalCharge = Cache_TotalCharge\<rparr>"

end
