(* ===== verification/LdbTable.thy ===== *)
theory LdbTable
  imports LdbTableBuilder LdbTwoLevel LdbCache
begin

text \<open>
  Reading tables: \<open>table/table.cc\<close>. A table's block cache is given by its virtual functions (\<open>None\<close>:
  no cache) and its state, which the operations pass on; \<open>None\<close> as a result is a read outside of what was read
  from the file, or an operation of the cache that does not return.
\<close>

section \<open>Iterators over blocks\<close>

definition BlockIterOps :: "(byte list \<Rightarrow> byte list \<Rightarrow> int) \<Rightarrow> BlockIter IteratorOps" where
  "BlockIterOps cmp =
     \<lparr>it_Valid = BlockIter_Valid, it_key = BlockIter_key, it_value = BlockIter_value, it_Next = BlockIter_Next,
      it_Prev = BlockIter_Prev, it_SeekToFirst = BlockIter_SeekToFirst, it_SeekToLast = BlockIter_SeekToLast,
      it_Seek = BlockIter_Seek cmp, it_status = bi_status\<rparr>"

text \<open>What \<open>NewIterator\<close> of a block gives.\<close>

abbreviation block_ops :: "(byte list \<Rightarrow> byte list \<Rightarrow> int) \<Rightarrow> (Status + BlockIter) IteratorOps" where
  "block_ops cmp \<equiv> EmptyIterator (BlockIterOps cmp)"

section \<open>Opening\<close>

text \<open>\<open>Rep\<close>; \<open>filter_data\<close> only owns memory, and \<open>status\<close> is never used.\<close>

record Table =
  tr_options :: Options
  tr_file :: RandomAccessFile
  tr_cache_id :: "64 word"
  tr_filter :: "FilterBlockReader option"
  tr_metaindex_handle :: BlockHandle
  tr_index_block :: Block

record ReadOptions =
  ro_verify_checksums :: bool
  ro_fill_cache :: bool

definition new_ReadOptions :: ReadOptions where
  "new_ReadOptions = \<lparr>ro_verify_checksums = False, ro_fill_cache = True\<rparr>"

definition ReadFilter :: "Snappy \<Rightarrow> byte list \<Rightarrow> Table \<Rightarrow> Table option" where
  "ReadFilter snappy filter_handle_value t =
     (case BlockHandle_DecodeFrom new_BlockHandle filter_handle_value of
        (s, filter_handle, v) \<Rightarrow>
          if \<not> status_ok s then Some t
          else
            do { (s, block) \<leftarrow> ReadBlock snappy (tr_file t) (opt_paranoid_checks (tr_options t)) filter_handle;
                 if \<not> status_ok s then Some t
                 else do { reader \<leftarrow> new_FilterBlockReader (bc_data block); Some (t\<lparr>tr_filter := Some reader\<rparr>) } })"

definition ReadMeta :: "Snappy \<Rightarrow> Footer \<Rightarrow> Table \<Rightarrow> Table option" where
  "ReadMeta snappy footer t =
     (case opt_filter_policy (tr_options t) of
        None \<Rightarrow> Some t
      | Some policy \<Rightarrow>
          do { (s, block) \<leftarrow> ReadBlock snappy (tr_file t) (opt_paranoid_checks (tr_options t)) (ft_metaindex_handle footer);
               if \<not> status_ok s then Some t
               else
                 do { meta \<leftarrow> new_Block (bc_data block);
                      iter \<leftarrow> Block_NewIterator meta;
                      let key = bytes_of ''filter.'' @ fp_Name policy;
                      iter \<leftarrow> it_Seek (block_ops slice_compare) key iter;
                      if it_Valid (block_ops slice_compare) iter then
                        do { k \<leftarrow> it_key (block_ops slice_compare) iter;
                             if slice_eq k key
                             then do { v \<leftarrow> it_value (block_ops slice_compare) iter; ReadFilter snappy v t }
                             else Some t }
                      else Some t } })"

text \<open>
  The footer is decoded from what the read returned, which may be less than was asked for; then the
  decoding goes on in uninitialised bytes.
\<close>

definition Table_Open ::
  "Snappy \<Rightarrow> ('c, 'h, Block) CacheOps option \<Rightarrow> Options \<Rightarrow> RandomAccessFile \<Rightarrow> 64 word \<Rightarrow> 'c \<Rightarrow>
   (Status \<times> Table option \<times> 'c) option" where
  "Table_Open snappy cops options file sz c =
     (if unat sz < kEncodedLength then Some (Corruption ''file is too short to be an sstable'' [], None, c)
      else
        do { (s, footer_input, scratch) \<leftarrow> RandomAccessFile_Read file (sz - of_nat kEncodedLength) (of_nat kEncodedLength);
             if \<not> status_ok s then Some (s, None, c)
             else
               do { (s, footer, footer_input) \<leftarrow> Footer_DecodeFrom new_Footer footer_input;
                    if \<not> status_ok s then Some (s, None, c)
                    else
                      do { (s, block) \<leftarrow> ReadBlock snappy file (opt_paranoid_checks options) (ft_index_handle footer);
                           if \<not> status_ok s then Some (s, None, c)
                           else
                             do { index_block \<leftarrow> new_Block (bc_data block);
                                  let (cache_id, c) = (case cops of None \<Rightarrow> (0, c) | Some ops \<Rightarrow> co_NewId ops c);
                                  table \<leftarrow> ReadMeta snappy footer
                                    \<lparr>tr_options = options, tr_file = file, tr_cache_id = cache_id, tr_filter = None,
                                     tr_metaindex_handle = ft_metaindex_handle footer, tr_index_block = index_block\<rparr>;
                                  Some (s, Some table, c) } } } })"

section \<open>Reading blocks\<close>

text \<open>What is registered to be done when the iterator of a block is deleted.\<close>

datatype 'h block_cleanup = NoCleanup | DeleteBlock | ReleaseBlock 'h

text \<open>\<open>delete\<close> of an iterator runs its cleanup; deleting a block frees its memory only.\<close>

fun run_cleanup :: "('c, 'h, Block) CacheOps option \<Rightarrow> 'h block_cleanup \<Rightarrow> 'c \<Rightarrow> 'c option" where
  "run_cleanup cops NoCleanup c = Some c"
| "run_cleanup cops DeleteBlock c = Some c"
| "run_cleanup cops (ReleaseBlock handle) c = do { ops \<leftarrow> cops; co_Release ops handle c }"

definition block_cache_key :: "Table \<Rightarrow> 64 word \<Rightarrow> byte list" where
  "block_cache_key t off = EncodeFixed64 (tr_cache_id t) @ EncodeFixed64 off"

text \<open>The block of a handle and, if it is the cache's, the cache's handle of it.\<close>

definition read_block ::
  "Snappy \<Rightarrow> ('c, 'h, Block) CacheOps option \<Rightarrow> Table \<Rightarrow> ReadOptions \<Rightarrow> BlockHandle \<Rightarrow> 'c \<Rightarrow>
   (Status \<times> Block option \<times> 'h option \<times> 'c) option" where
  "read_block snappy cops t options handle c =
     (case cops of
        None \<Rightarrow>
          do { (s, block) \<leftarrow> ReadBlock snappy (tr_file t) (ro_verify_checksums options) handle;
               if status_ok s then do { block \<leftarrow> new_Block (bc_data block); Some (s, Some block, None, c) }
               else Some (s, None, None, c) }
      | Some ops \<Rightarrow>
          let key = block_cache_key t (bh_offset handle) in
          do { (cache_handle, c) \<leftarrow> co_Lookup ops key c;
               case cache_handle of
                 Some h \<Rightarrow> do { block \<leftarrow> co_Value ops h c; Some (Status_OK, Some block, Some h, c) }
               | None \<Rightarrow>
                   do { (s, block) \<leftarrow> ReadBlock snappy (tr_file t) (ro_verify_checksums options) handle;
                        if \<not> status_ok s then Some (s, None, None, c)
                        else
                          do { b \<leftarrow> new_Block (bc_data block);
                               if bc_cachable block \<and> ro_fill_cache options
                               then do { (h, c) \<leftarrow> co_Insert ops key b (of_nat (bl_size b)) c; Some (s, Some b, Some h, c) }
                               else Some (s, Some b, None, c) } } })"

definition BlockReader ::
  "Snappy \<Rightarrow> ('c, 'h, Block) CacheOps option \<Rightarrow> Table \<Rightarrow> ReadOptions \<Rightarrow> ('h block_cleanup, Status + BlockIter, 'c) block_function" where
  "BlockReader snappy cops t options c index_value =
     (case BlockHandle_DecodeFrom new_BlockHandle index_value of
        (s, handle, input) \<Rightarrow>
          do { (s, block, cache_handle, c) \<leftarrow>
                 (if status_ok s then read_block snappy cops t options handle c else Some (s, None, None, c));
               case block of
                 None \<Rightarrow> Some (NoCleanup, Inl s, c)
               | Some b \<Rightarrow>
                   do { iter \<leftarrow> Block_NewIterator b;
                        Some (case cache_handle of None \<Rightarrow> DeleteBlock | Some h \<Rightarrow> ReleaseBlock h, iter, c) } })"

section \<open>Reading the table\<close>

type_synonym ('h, 'c) table_iter = "(Status + BlockIter, 'h block_cleanup, Status + BlockIter, 'c) TwoLevelIterator"

definition Table_NewIterator :: "Table \<Rightarrow> 'c \<Rightarrow> ('h, 'c) table_iter option" where
  "Table_NewIterator t c = do { iter \<leftarrow> Block_NewIterator (tr_index_block t); Some (NewTwoLevelIterator iter c) }"

abbreviation table_ops ::
  "Snappy \<Rightarrow> ('c, 'h, Block) CacheOps option \<Rightarrow> Table \<Rightarrow> ReadOptions \<Rightarrow> ('h, 'c) table_iter IteratorOps" where
  "table_ops snappy cops t options \<equiv>
     (let ops = block_ops (cmp_Compare (opt_comparator (tr_options t))) in
      TwoLevelOps ops ops (BlockReader snappy cops t options) (run_cleanup cops))"

text \<open>\<open>InternalGet\<close>: the status, what \<open>saver\<close> was called with, and the cache.\<close>

definition filter_rejects :: "Table \<Rightarrow> byte list \<Rightarrow> byte list \<Rightarrow> bool option" where
  "filter_rejects t handle_value k =
     (case (tr_filter t, opt_filter_policy (tr_options t)) of
        (Some reader, Some policy) \<Rightarrow>
          (case BlockHandle_DecodeFrom new_BlockHandle handle_value of
             (s, handle, rest) \<Rightarrow>
               if status_ok s
               then map_option Not (FilterBlock_KeyMayMatch (fp_KeyMayMatch policy) reader (bh_offset handle) k)
               else Some False)
      | _ \<Rightarrow> Some False)"

definition InternalGet ::
  "Snappy \<Rightarrow> ('c, 'h, Block) CacheOps option \<Rightarrow> Table \<Rightarrow> ReadOptions \<Rightarrow> byte list \<Rightarrow> 'c \<Rightarrow>
   (Status \<times> pair option \<times> 'c) option" where
  "InternalGet snappy cops t options k c =
     (let ops = block_ops (cmp_Compare (opt_comparator (tr_options t))) in
      do { iiter \<leftarrow> Block_NewIterator (tr_index_block t);
           iiter \<leftarrow> it_Seek ops k iiter;
           (s, found, c) \<leftarrow>
             (if it_Valid ops iiter then
                do { handle_value \<leftarrow> it_value ops iiter;
                     rejected \<leftarrow> filter_rejects t handle_value k;
                     if rejected then Some (Status_OK, None, c)
                     else
                       do { (cleanup, block_iter, c) \<leftarrow> BlockReader snappy cops t options c handle_value;
                            block_iter \<leftarrow> it_Seek ops k block_iter;
                            found \<leftarrow> (if it_Valid ops block_iter
                              then do { key \<leftarrow> it_key ops block_iter; val \<leftarrow> it_value ops block_iter; Some (Some (key, val)) }
                              else Some None);
                            c \<leftarrow> run_cleanup cops cleanup c;
                            Some (it_status ops block_iter, found, c) } }
              else Some (Status_OK, None, c));
           Some (if status_ok s then it_status ops iiter else s, found, c) })"

definition ApproximateOffsetOf :: "Table \<Rightarrow> byte list \<Rightarrow> 64 word option" where
  "ApproximateOffsetOf t key =
     (let ops = block_ops (cmp_Compare (opt_comparator (tr_options t))) in
      do { index_iter \<leftarrow> Block_NewIterator (tr_index_block t);
           index_iter \<leftarrow> it_Seek ops key index_iter;
           if it_Valid ops index_iter then
             do { input \<leftarrow> it_value ops index_iter;
                  Some (case BlockHandle_DecodeFrom new_BlockHandle input of
                          (s, handle, rest) \<Rightarrow> if status_ok s then bh_offset handle else bh_offset (tr_metaindex_handle t)) }
           else Some (bh_offset (tr_metaindex_handle t)) })"

section \<open>The options of a database\<close>

text \<open>
  The options of tables that \<open>SanitizeOptions\<close> (\<open>db/db_impl.cc\<close>) makes of the user's. The comparators
  are values; \<open>address\<close> is where the internal one is.
\<close>

definition BytewiseComparator :: "nat \<Rightarrow> Comparator" where
  "BytewiseComparator address =
     \<lparr>cmp_address = address, cmp_Compare = slice_compare, cmp_FindShortestSeparator = bytewise_separator,
      cmp_FindShortSuccessor = bytewise_successor\<rparr>"

definition InternalKeyComparator :: "nat \<Rightarrow> Comparator \<Rightarrow> Comparator" where
  "InternalKeyComparator address c =
     \<lparr>cmp_address = address, cmp_Compare = icmp (cmp_Compare c),
      cmp_FindShortestSeparator = isep (cmp_Compare c) (cmp_FindShortestSeparator c),
      cmp_FindShortSuccessor = isucc (cmp_Compare c) (cmp_FindShortSuccessor c)\<rparr>"

definition BloomFilterPolicy :: "nat \<Rightarrow> FilterPolicy" where
  "BloomFilterPolicy bits_per_key =
     \<lparr>fp_Name = bytes_of ''leveldb.BuiltinBloomFilter2'', fp_CreateFilter = Bloom_CreateFilter bits_per_key,
      fp_KeyMayMatch = Bloom_KeyMayMatch\<rparr>"

definition InternalFilterPolicy :: "FilterPolicy \<Rightarrow> FilterPolicy" where
  "InternalFilterPolicy p =
     \<lparr>fp_Name = fp_Name p, fp_CreateFilter = InternalFilterPolicy_CreateFilter (fp_CreateFilter p),
      fp_KeyMayMatch = InternalFilterPolicy_KeyMayMatch (fp_KeyMayMatch p)\<rparr>"

definition new_Options :: "nat \<Rightarrow> Options" where
  "new_Options address =
     \<lparr>opt_comparator = BytewiseComparator address, opt_create_if_missing = False, opt_error_if_exists = False,
      opt_paranoid_checks = False, opt_write_buffer_size = push_bit 20 4, opt_max_open_files = 1000,
      opt_block_size = 4096, opt_block_restart_interval = 16, opt_max_file_size = push_bit 20 2,
      opt_compression = kSnappyCompression, opt_reuse_logs = False, opt_filter_policy = None\<rparr>"

text \<open>\<open>ClipToRange\<close> for a \<open>size_t\<close>: the bounds are of type \<open>int\<close>, and the value is cast to it. For an \<open>int\<close> there is no cast.\<close>

definition ClipToRange :: "64 word \<Rightarrow> int \<Rightarrow> int \<Rightarrow> 64 word" where
  "ClipToRange ptr minvalue maxvalue =
     (let ptr = (if sint (ucast ptr :: 32 word) > maxvalue then of_int maxvalue else ptr) in
      if sint (ucast ptr :: 32 word) < minvalue then of_int minvalue else ptr)"

definition ClipToRange_int :: "int \<Rightarrow> int \<Rightarrow> int \<Rightarrow> int" where
  "ClipToRange_int ptr minvalue maxvalue =
     (let ptr = (if ptr > maxvalue then maxvalue else ptr) in if ptr < minvalue then minvalue else ptr)"

definition kNumNonTableCacheFiles :: int where "kNumNonTableCacheFiles = 10"

definition SanitizeOptions :: "nat \<Rightarrow> Options \<Rightarrow> Options" where
  "SanitizeOptions address src =
     src\<lparr>opt_comparator := InternalKeyComparator address (opt_comparator src),
       opt_filter_policy := map_option InternalFilterPolicy (opt_filter_policy src),
       opt_max_open_files := ClipToRange_int (opt_max_open_files src) (64 + kNumNonTableCacheFiles) 50000,
       opt_write_buffer_size := ClipToRange (opt_write_buffer_size src) (64 * 2 ^ 10) (2 ^ 30),
       opt_max_file_size := ClipToRange (opt_max_file_size src) (2 ^ 20) (2 ^ 30),
       opt_block_size := unat (ClipToRange (of_nat (opt_block_size src)) (2 ^ 10) (4 * 2 ^ 20))\<rparr>"

text \<open>A write buffer of 4 GiB becomes the smallest there is, because 2^32 is 0 as an \<open>int\<close>.\<close>

lemma ClipToRange_wraps: "opt_write_buffer_size (SanitizeOptions address (src\<lparr>opt_write_buffer_size := 2 ^ 32\<rparr>)) = 64 * 2 ^ 10"
  by (simp add: SanitizeOptions_def ClipToRange_def)

end
