(* ===== verification/LdbCacheProof.thy ===== *)
theory LdbCacheProof
  imports LdbCache "HOL-Library.Multiset"
begin

text \<open>
  The hash table is a set of handles without two of the same key (\<open>table_ok\<close>), and the cache keeps
  its references, lists and charge in order whatever its clients do (\<open>lru_inv\<close>). An abstract cache is
  the map \<open>cached\<close> from keys to values, of which entries may get lost.
\<close>

section \<open>The hash table is a set of handles\<close>

text \<open>The hash and the key of a handle whose pointers are set.\<close>

definition node :: "'v lru_heap \<Rightarrow> nat \<Rightarrow> (32 word \<times> byte list) option" where
  "node heap a = (case heap a of None \<Rightarrow> None | Some h \<Rightarrow> if lh_linked h then Some (lh_hash h, lh_key h) else None)"

lemma node_Some: "node heap a = Some x \<longleftrightarrow> (\<exists>h. heap a = Some h \<and> lh_linked h \<and> x = (lh_hash h, lh_key h))"
  by (auto simp: node_def split: option.splits)

definition in_buckets :: "'v lru_heap \<Rightarrow> 32 word \<Rightarrow> nat list list \<Rightarrow> bool" where
  "in_buckets heap n bs \<longleftrightarrow>
     (\<forall>i<length bs. \<forall>a \<in> set (bs ! i). \<forall>x. node heap a = Some x \<longrightarrow> unat (fst x AND (n - 1)) = i)"

definition table_shape :: "32 word \<Rightarrow> nat list list \<Rightarrow> bool" where
  "table_shape n bs \<longleftrightarrow> (\<exists>k. k < 32 \<and> n = 2 ^ k \<and> length bs = 2 ^ k)"

definition table_ok :: "'v lru_heap \<Rightarrow> HandleTable \<Rightarrow> nat set \<Rightarrow> bool" where
  "table_ok heap t S \<longleftrightarrow> table_shape (ht_length t) (ht_list t) \<and> finite S \<and> card S < 2 ^ 31 \<and>
     ht_elems t = of_nat (card S) \<and> mset (concat (ht_list t)) = mset_set S \<and>
     in_buckets heap (ht_length t) (ht_list t) \<and> (\<forall>a \<in> S. node heap a \<noteq> None) \<and> inj_on (node heap) S"

text \<open>The entry for a key.\<close>

definition entry_for :: "'v lru_heap \<Rightarrow> nat set \<Rightarrow> 32 word \<times> byte list \<Rightarrow> nat option \<Rightarrow> bool" where
  "entry_for heap S x r \<longleftrightarrow>
     (case r of None \<Rightarrow> \<forall>a \<in> S. node heap a \<noteq> Some x | Some a \<Rightarrow> a \<in> S \<and> node heap a = Some x)"

lemma bucket_less: "table_shape n bs \<Longrightarrow> unat (hash AND (n - 1)) < length bs"
proof -
  assume "table_shape n bs"
  then obtain k where k: "k < 32" "n = 2 ^ k" "length bs = 2 ^ k" by (auto simp: table_shape_def)
  have "hash AND (n - 1) = take_bit k hash" by (simp add: k(2) take_bit_eq_mask mask_eq_exp_minus_1)
  moreover have "unat (take_bit k hash) < 2 ^ k" by (simp add: unsigned_take_bit_eq)
  ultimately show ?thesis by (simp add: k(3))
qed

lemma find_slot_spec:
  "\<forall>a \<in> set chain. node heap a \<noteq> None \<Longrightarrow> \<exists>n. find_slot heap key hash chain = Some n \<and> n \<le> length chain \<and>
     (\<forall>a \<in> set (take n chain). node heap a \<noteq> Some (hash, key)) \<and>
     (n < length chain \<longrightarrow> node heap (chain ! n) = Some (hash, key))"
proof (induction chain)
  case (Cons a chain)
  then obtain n where n: "find_slot heap key hash chain = Some n" "n \<le> length chain"
    "\<forall>a \<in> set (take n chain). node heap a \<noteq> Some (hash, key)" "n < length chain \<longrightarrow> node heap (chain ! n) = Some (hash, key)"
    by auto
  obtain h where h: "heap a = Some h" "lh_linked h" using Cons.prems by (auto simp: node_def split: option.splits if_splits)
  show ?case
  proof (cases "lh_hash h = hash \<and> lh_key h = key")
    case True
    then have "find_slot heap key hash (a # chain) = Some 0" using h by (simp add: LRUHandle_key_def slice_ne_def)
    then show ?thesis using True h by (intro exI [of _ 0]) (simp add: node_Some)
  next
    case False
    then have "find_slot heap key hash (a # chain) = Some (Suc n)"
      using h n(1) by (auto simp: LRUHandle_key_def slice_ne_def)
    then show ?thesis using False h n by (intro exI [of _ "Suc n"]) (auto simp: node_Some)
  qed
qed simp

lemma FindPointer_spec:
  assumes "table_ok heap t S"
  shows "\<exists>i n. FindPointer heap key hash t = Some (i, ht_list t ! i, n) \<and> i = bucket_of t hash \<and> i < length (ht_list t) \<and>
     n \<le> length (ht_list t ! i) \<and> entry_for heap S (hash, key) (nth_opt (ht_list t ! i) n)"
proof -
  let ?i = "bucket_of t hash"
  let ?chain = "ht_list t ! ?i"
  have i: "?i < length (ht_list t)" using assms bucket_less by (simp add: table_ok_def bucket_of_def)
  have S: "set (concat (ht_list t)) = S" "finite S"
    using assms by (auto simp: table_ok_def simp flip: set_mset_mset)
  have sub: "set ?chain \<subseteq> S" using i S(1) by auto
  then have "\<forall>a \<in> set ?chain. node heap a \<noteq> None" using assms by (auto simp: table_ok_def)
  from find_slot_spec [OF this, of key hash] obtain n where n: "find_slot heap key hash ?chain = Some n" "n \<le> length ?chain"
    "\<forall>a \<in> set (take n ?chain). node heap a \<noteq> Some (hash, key)" "n < length ?chain \<longrightarrow> node heap (?chain ! n) = Some (hash, key)"
    by blast
  have "entry_for heap S (hash, key) (nth_opt ?chain n)"
  proof (cases "n < length ?chain")
    case True
    then show ?thesis using n(4) sub by (auto simp: entry_for_def nth_opt_def)
  next
    case False
    then have n': "n = length ?chain" using n(2) by simp
    have "node heap a \<noteq> Some (hash, key)" if "a \<in> S" for a
    proof
      assume k: "node heap a = Some (hash, key)"
      obtain c where "c \<in> set (ht_list t)" "a \<in> set c" using \<open>a \<in> S\<close> unfolding S(1) [symmetric] by auto
      then obtain j where j: "j < length (ht_list t)" "a \<in> set (ht_list t ! j)" by (auto simp: in_set_conv_nth [of c])
      then have "unat (hash AND (ht_length t - 1)) = j" using assms k by (auto simp: table_ok_def in_buckets_def)
      then show False using n(3) n' j(2) k by (simp add: bucket_of_def)
    qed
    then show ?thesis using n' by (simp add: entry_for_def nth_opt_def)
  qed
  then show ?thesis using i n(1,2) by (auto simp: FindPointer_def Let_def nth_opt_def)
qed

lemma entry_unique: "inj_on (node heap) S \<Longrightarrow> entry_for heap S x (Some a) \<Longrightarrow> entry_for heap S x r \<Longrightarrow> r = Some a"
  by (cases r) (auto simp: entry_for_def inj_on_def)

lemma Lookup_spec:
  assumes "table_ok heap t S"
  shows "\<exists>r. HandleTable_Lookup heap key hash t = Some r \<and> entry_for heap S (hash, key) r"
  using FindPointer_spec [OF assms, of key hash] by (auto simp: HandleTable_Lookup_def)

text \<open>A chain is replaced by one with other entries.\<close>

lemma concat_update:
  assumes "i < length bs" "mset chain' + D = mset (bs ! i) + A"
  shows "mset (concat (bs[i := chain'])) + D = mset (concat bs) + A"
proof -
  have "concat bs = concat (take i bs) @ bs ! i @ concat (drop (Suc i) bs)"
    using id_take_nth_drop [OF assms(1)] by (metis concat.simps(2) concat_append)
  moreover have "concat (bs[i := chain']) = concat (take i bs) @ chain' @ concat (drop (Suc i) bs)"
    using assms(1) by (simp add: upd_conv_take_nth_drop)
  ultimately show ?thesis using assms(2) by (simp add: ac_simps)
qed

lemma in_buckets_update:
  assumes "in_buckets heap n bs" "\<forall>a \<in> set chain'. a \<in> set (bs ! i) \<or> (\<forall>x. node heap a = Some x \<longrightarrow> unat (fst x AND (n - 1)) = i)"
    "i < length bs"
  shows "in_buckets heap n (bs[i := chain'])"
  using assms by (auto simp: in_buckets_def nth_list_update)

lemma shape_update [simp]: "table_shape n (bs[i := c]) \<longleftrightarrow> table_shape n bs"
  by (simp add: table_shape_def)

lemma Remove_spec:
  assumes "table_ok heap t S"
  shows "\<exists>r t'. HandleTable_Remove heap key hash t = Some (r, t') \<and> entry_for heap S (hash, key) r \<and>
     table_ok heap t' (S - set_option r)"
proof -
  obtain i n where f: "FindPointer heap key hash t = Some (i, ht_list t ! i, n)" "i < length (ht_list t)"
    "n \<le> length (ht_list t ! i)" "entry_for heap S (hash, key) (nth_opt (ht_list t ! i) n)"
    using FindPointer_spec [OF assms] by blast
  let ?chain = "ht_list t ! i"
  show ?thesis
  proof (cases "n < length ?chain")
    case False
    then have none: "nth_opt ?chain n = None" by (simp add: nth_opt_def)
    then show ?thesis using f(1) f(4) [unfolded none] assms by (intro exI [of _ None] exI [of _ t]) (simp add: HandleTable_Remove_def)
  next
    case True
    let ?a = "?chain ! n" and ?chain' = "take n ?chain @ drop (Suc n) ?chain"
    let ?t' = "t\<lparr>ht_list := (ht_list t)[i := ?chain'], ht_elems := ht_elems t - 1\<rparr>"
    have a: "nth_opt ?chain n = Some ?a" "?a \<in> S" using True f(4) by (simp_all add: nth_opt_def entry_for_def)
    have "?chain = take n ?chain @ ?a # drop (Suc n) ?chain" using id_take_nth_drop [OF True] .
    then have "mset ?chain' + {#?a#} = mset ?chain + {#}" by (metis add_mset_add_single add_0_right mset_append mset.simps(2) union_mset_add_mset_right mset_append)
    from concat_update [OF f(2) this] have m: "mset (concat ((ht_list t)[i := ?chain'])) + {#?a#} = mset_set S"
      using assms by (simp add: table_ok_def)
    have fin: "finite S" using assms by (simp add: table_ok_def)
    have "mset_set S = mset_set (S - {?a}) + {#?a#}" using a(2) fin by (simp add: mset_set.remove)
    then have m': "mset (concat ((ht_list t)[i := ?chain'])) = mset_set (S - {?a})" using m by simp
    have "set ?chain' \<subseteq> set ?chain" by (auto dest: in_set_takeD in_set_dropD)
    then have b: "in_buckets heap (ht_length t) ((ht_list t)[i := ?chain'])"
      using assms f(2) by (intro in_buckets_update) (auto simp: table_ok_def)
    have c: "card S \<noteq> 0" "card (S - {?a}) = card S - 1" using a(2) fin by (auto simp: card_Diff_singleton)
    then have "table_ok heap ?t' (S - {?a})"
      using assms m' b by (cases "card S") (auto simp: table_ok_def inj_on_diff)
    then show ?thesis using f(1,4) True by (simp add: HandleTable_Remove_def a(1))
  qed
qed

section \<open>Resizing\<close>

lemma unat_pow2: "k < 32 \<Longrightarrow> unat (2 ^ k :: 32 word) = 2 ^ k"
proof -
  assume "k < 32"
  then have "(2 :: nat) ^ k < 2 ^ 32" by (intro power_strict_increasing) simp_all
  then show ?thesis using unat_of_length [of "2 ^ k"] by simp
qed

lemma grow_length_spec:
  "k \<le> 31 \<Longrightarrow> unat e < 2 ^ 31 \<Longrightarrow> \<exists>m. k \<le> m \<and> m < 32 \<and> grow_length (2 ^ k) e = Some (2 ^ m)"
proof (induction "31 - k" arbitrary: k rule: less_induct)
  case less
  have u: "unat (2 ^ k :: 32 word) = 2 ^ k" using less.prems(1) by (simp add: unat_pow2)
  show ?case
  proof (cases "(2 ^ k :: 32 word) < e")
    case True
    then have "(2 :: nat) ^ k < 2 ^ 31" using u less.prems(2) by (simp add: word_less_nat_alt)
    then have "k < 31" using power_less_imp_less_exp [of 2 k 31] by simp
    with less.hyps [of "Suc k"] less.prems(2) obtain m where "Suc k \<le> m" "m < 32"
      "grow_length (2 ^ Suc k) e = Some (2 ^ m)" by fastforce
    then show ?thesis using True by (intro exI [of _ m]) (simp add: grow_length.simps [of "2 ^ k"] mult.commute)
  next
    case False
    then show ?thesis using less.prems(1) by (intro exI [of _ k]) (simp add: grow_length.simps [of "2 ^ k"])
  qed
qed

lemma rehash_chain_spec:
  "\<forall>a \<in> set chain. node heap a \<noteq> None \<Longrightarrow> table_shape n new \<Longrightarrow> in_buckets heap n new \<Longrightarrow>
   \<exists>new'. rehash_chain heap n chain (new, c) = Some (new', c + of_nat (length chain)) \<and> table_shape n new' \<and>
     in_buckets heap n new' \<and> mset (concat new') = mset (concat new) + mset chain"
proof (induction chain arbitrary: new c)
  case (Cons a chain)
  obtain h where h: "heap a = Some h" "lh_linked h" using Cons.prems(1) by (auto simp: node_def split: option.splits if_splits)
  let ?i = "unat (lh_hash h AND (n - 1))"
  have i: "?i < length new" by (rule bucket_less [OF Cons.prems(2)])
  let ?new = "new[?i := a # new ! ?i]"
  have "in_buckets heap n ?new"
    by (rule in_buckets_update [OF Cons.prems(3) _ i]) (use h in \<open>auto simp: node_Some\<close>)
  moreover have "mset (concat ?new) = mset (concat new) + {#a#}"
    using concat_update [OF i, of "a # new ! ?i" "{#}" "{#a#}"] by simp
  ultimately show ?case
    using Cons.IH [of ?new "c + 1"] Cons.prems(1,2) h(1) i by (auto simp: Let_def nth_opt_def ac_simps)
qed simp

lemma rehash_spec:
  "\<forall>a \<in> set (concat bs). node heap a \<noteq> None \<Longrightarrow> table_shape n new \<Longrightarrow> in_buckets heap n new \<Longrightarrow>
   \<exists>new'. rehash heap n bs (new, c) = Some (new', c + of_nat (length (concat bs))) \<and> table_shape n new' \<and>
     in_buckets heap n new' \<and> mset (concat new') = mset (concat new) + mset (concat bs)"
proof (induction bs arbitrary: new c)
  case (Cons chain bs)
  from rehash_chain_spec [OF _ Cons.prems(2,3), of chain c] Cons.prems(1) obtain new1 where
    n1: "rehash_chain heap n chain (new, c) = Some (new1, c + of_nat (length chain))" "table_shape n new1"
    "in_buckets heap n new1" "mset (concat new1) = mset (concat new) + mset chain" by auto
  from Cons.IH [OF _ n1(2,3), of "c + of_nat (length chain)"] Cons.prems(1) n1(1,4) show ?case
    by (auto simp: ac_simps)
qed simp

lemma Resize_spec:
  assumes "finite S" "card S < 2 ^ 31" "ht_elems t = of_nat (card S)" "mset (concat (ht_list t)) = mset_set S"
    "\<forall>a \<in> S. node heap a \<noteq> None" "inj_on (node heap) S"
  shows "\<exists>t'. HandleTable_Resize heap t = Some t' \<and> table_ok heap t' S"
proof -
  have "unat (ht_elems t) < 2 ^ 31" using assms(2) by (simp add: assms(3) unat_of_nat)
  then obtain m where m: "m < 32" "grow_length 4 (ht_elems t) = Some (2 ^ m)"
    using grow_length_spec [of 2 "ht_elems t"] by auto
  have len: "unat (2 ^ m :: 32 word) = 2 ^ m" using m(1) by (simp add: unat_pow2)
  let ?new = "replicate (unat (2 ^ m :: 32 word)) []"
  have sh: "table_shape (2 ^ m) ?new" "in_buckets heap (2 ^ m) ?new"
    using m(1) len by (auto simp: table_shape_def in_buckets_def)
  have set: "set (concat (ht_list t)) = S" using assms(1,4) by (metis finite_set_mset_mset_set set_mset_mset)
  have l: "length (concat (ht_list t)) = card S" using assms(1,4) by (metis size_mset size_mset_set)
  obtain new' where r: "rehash heap (2 ^ m) (ht_list t) (?new, 0) = Some (new', 0 + of_nat (length (concat (ht_list t))))"
    "table_shape (2 ^ m) new'" "in_buckets heap (2 ^ m) new'" "mset (concat new') = mset (concat ?new) + mset (concat (ht_list t))"
    using rehash_spec [OF _ sh, of "ht_list t" 0] assms(5) unfolding set by blast
  have "concat ?new = []" by simp
  then show ?thesis
    using assms m(2) r l by (simp add: HandleTable_Resize_def table_ok_def)
qed

lemma new_table: "\<exists>t. new_HandleTable = Some t \<and> table_ok heap t {}"
proof -
  have "\<exists>t'. HandleTable_Resize (Map.empty :: unit lru_heap) \<lparr>ht_length = 0, ht_elems = 0, ht_list = []\<rparr> = Some t' \<and>
      table_ok (Map.empty :: unit lru_heap) t' {}" by (rule Resize_spec) simp_all
  then show ?thesis by (fastforce simp: new_HandleTable_def table_ok_def in_buckets_def dest: nth_mem)
qed

lemma Insert_spec:
  assumes "table_ok heap t S" "heap a = Some h" "lh_linked h" "a \<notin> S" "card S + 1 < 2 ^ 31"
  shows "\<exists>r t'. HandleTable_Insert heap a t = Some (r, t') \<and> entry_for heap S (lh_hash h, lh_key h) r \<and>
     table_ok heap t' (insert a (S - set_option r))"
proof -
  obtain i n where f: "FindPointer heap (lh_key h) (lh_hash h) t = Some (i, ht_list t ! i, n)" "i = bucket_of t (lh_hash h)"
    "i < length (ht_list t)" "n \<le> length (ht_list t ! i)"
    "entry_for heap S (lh_hash h, lh_key h) (nth_opt (ht_list t ! i) n)"
    using FindPointer_spec [OF assms(1)] by blast
  let ?chain = "ht_list t ! i"
  let ?r = "nth_opt ?chain n" and ?chain' = "take n ?chain @ a # drop (Suc n) ?chain"
  let ?S = "insert a (S - set_option ?r)" and ?bs = "(ht_list t)[i := ?chain']"
  have key: "LRUHandle_key h = Some (lh_key h)" by (simp add: LRUHandle_key_def assms(3))
  have na: "node heap a = Some (lh_hash h, lh_key h)" by (simp add: node_Some assms(2,3))
  have fin: "finite S" using assms(1) by (simp add: table_ok_def)
  have split: "n < length ?chain \<Longrightarrow> ?chain = take n ?chain @ ?chain ! n # drop (Suc n) ?chain" by (rule id_take_nth_drop)
  have "mset ?chain' + mset_set (set_option ?r) = mset ?chain + {#a#}"
  proof (cases "n < length ?chain")
    case True
    then show ?thesis using arg_cong [OF split [OF True], of mset] by (simp add: nth_opt_def)
  qed (use f(4) in \<open>simp add: nth_opt_def\<close>)
  from concat_update [OF f(3) this] have m: "mset (concat ?bs) + mset_set (set_option ?r) = mset_set S + {#a#}"
    using assms(1) by (simp add: table_ok_def)
  have r: "set_option ?r \<subseteq> S" using f(5) by (auto simp: entry_for_def)
  have "mset_set S = mset_set (S - set_option ?r) + mset_set (set_option ?r)"
    using fin r by (metis Diff_disjoint Diff_partition finite_Diff finite_subset mset_set_Union Un_commute Int_commute)
  then have m': "mset (concat ?bs) = mset_set ?S" using m assms(4) fin by simp
  have b: "in_buckets heap (ht_length t) ?bs"
    using assms(1) f(2,3) na
    by (intro in_buckets_update) (auto simp: table_ok_def bucket_of_def dest: in_set_takeD in_set_dropD)
  have inj: "inj_on (node heap) ?S"
    using assms(1) f(5) na by (auto simp: table_ok_def entry_for_def inj_on_insert inj_on_diff split: option.splits)
      (auto simp: inj_on_def)
  have nn: "\<forall>a \<in> ?S. node heap a \<noteq> None" using assms(1) na by (auto simp: table_ok_def)
  show ?thesis
  proof (cases ?r)
    case None
    then have c: "card ?S = Suc (card S)" "?S = insert a S" using assms(4) fin by (simp_all only: None) simp_all
    let ?t = "t\<lparr>ht_list := ?bs, ht_elems := ht_elems t + 1\<rparr>"
    have e: "ht_elems ?t = of_nat (card ?S)" using assms(1) c(1) by (simp add: table_ok_def)
    have "\<exists>t'. (if ht_elems ?t > ht_length ?t then HandleTable_Resize heap ?t else Some ?t) = Some t' \<and> table_ok heap t' ?S"
    proof (cases "ht_elems ?t > ht_length ?t")
      case True
      have "\<exists>t'. HandleTable_Resize heap ?t = Some t' \<and> table_ok heap t' ?S"
        by (rule Resize_spec) (use fin c assms(5) e m' nn inj in simp_all)
      then show ?thesis using True by simp
    next
      case False
      have "table_ok heap ?t ?S"
        using assms(1,5) c e m' nn inj b fin by (simp add: table_ok_def)
      then show ?thesis using False by simp
    qed
    then obtain t' where "(if ht_elems ?t > ht_length ?t then HandleTable_Resize heap ?t else Some ?t) = Some t'"
      "table_ok heap t' ?S" by blast
    then have "HandleTable_Insert heap a t = Some (?r, t')"
      using assms(2) key f(1) by (simp add: HandleTable_Insert_def Let_def None del: nth_opt_None)
    then show ?thesis using f(5) \<open>table_ok heap t' ?S\<close> by blast
  next
    case (Some b')
    then have "b' \<in> S" using r by (simp only: Some) simp
    then have c: "card ?S = card S"
      using assms(4) fin card_Suc_Diff1 [OF fin] by (simp only: Some) simp
    have "table_ok heap (t\<lparr>ht_list := ?bs\<rparr>) ?S"
      using assms(1) c m' nn inj b fin by (simp add: table_ok_def)
    moreover have "HandleTable_Insert heap a t = Some (?r, t\<lparr>ht_list := ?bs\<rparr>)"
      using assms(2) key f(1) Some by (simp add: HandleTable_Insert_def Let_def)
    ultimately show ?thesis using f(5) by blast
  qed
qed

section \<open>References, lists and charge\<close>

abbreviation entries :: "'v LRUCache \<Rightarrow> nat set" where
  "entries c \<equiv> set (lc_lru c @ lc_in_use c)"

text \<open>\<open>M\<close> are the handles the clients hold, each as often as they have it.\<close>

definition handle_ok :: "'v LRUCache \<Rightarrow> nat multiset \<Rightarrow> nat \<Rightarrow> bool" where
  "handle_ok c M a \<longleftrightarrow>
     (case lc_heap c a of
        None \<Rightarrow> a \<notin> entries c \<and> a \<notin># M
      | Some h \<Rightarrow> lh_linked h \<and> (lh_in_cache h \<longleftrightarrow> a \<in> entries c) \<and> (a \<in> entries c \<or> a \<in># M) \<and>
          unat (lh_refs h) = count M a + of_bool (a \<in> entries c))"

definition charge_of :: "'v lru_heap \<Rightarrow> nat \<Rightarrow> 64 word" where
  "charge_of heap a = (case heap a of None \<Rightarrow> 0 | Some h \<Rightarrow> lh_charge h)"

definition lru_lists :: "'v LRUCache \<Rightarrow> nat multiset \<Rightarrow> bool" where
  "lru_lists c M \<longleftrightarrow> distinct (lc_lru c @ lc_in_use c) \<and> (\<forall>a. handle_ok c M a) \<and>
     (\<forall>a \<in> entries c. a \<in> set (lc_lru c) \<longleftrightarrow> a \<notin># M) \<and> lc_usage c = (\<Sum>a \<in> entries c. charge_of (lc_heap c) a)"

definition lru_inv :: "'v LRUCache \<Rightarrow> nat multiset \<Rightarrow> bool" where
  "lru_inv c M \<longleftrightarrow> lru_lists c M \<and> table_ok (lc_heap c) (lc_table c) (entries c)"

text \<open>What of a handle never changes.\<close>

definition payload :: "'v LRUCache \<Rightarrow> nat \<Rightarrow> ((32 word \<times> byte list) \<times> 'v \<times> 64 word) option" where
  "payload c a = map_option (\<lambda>h. ((lh_hash h, lh_key h), lh_value h, lh_charge h)) (lc_heap c a)"

lemma table_ok_cong:
  assumes "table_ok heap t S" "\<forall>a \<in> S. node heap' a = node heap a"
  shows "table_ok heap' t S"
proof -
  have "set (concat (ht_list t)) = S" using assms(1) by (metis table_ok_def finite_set_mset_mset_set set_mset_mset)
  then have "in_buckets heap' (ht_length t) (ht_list t)"
    using assms unfolding table_ok_def in_buckets_def by (metis UN_I nth_mem set_concat)
  moreover have "inj_on (node heap') S" using assms by (simp add: table_ok_def inj_on_def)
  ultimately show ?thesis using assms by (simp add: table_ok_def)
qed

lemma node_payload: "lru_lists c M \<Longrightarrow> node (lc_heap c) a = map_option fst (payload c a)"
  unfolding lru_lists_def handle_ok_def by (drule conjunct2, drule conjunct1, drule spec [of _ a])
    (auto simp: node_def payload_def split: option.splits)

lemma charge_payload: "charge_of (lc_heap c) a = (case payload c a of None \<Rightarrow> 0 | Some (_, _, n) \<Rightarrow> n)"
  by (simp add: charge_of_def payload_def split: option.splits)

text \<open>An invariant survives a step that keeps the entries and what is known of them.\<close>

lemma lru_inv_step:
  assumes "lru_inv c M" "lru_lists c' M'" "lc_table c' = lc_table c" "entries c' = entries c"
    "\<forall>a \<in> entries c. payload c' a = payload c a"
  shows "lru_inv c' M'"
proof -
  have "table_ok (lc_heap c') (lc_table c) (entries c)"
    by (rule table_ok_cong) (use assms(1,2,5) in \<open>auto simp: lru_inv_def node_payload\<close>)
  then show ?thesis using assms(2-4) by (simp add: lru_inv_def)
qed

lemma lists_handle:
  assumes "lru_lists c M" "a \<in> entries c \<or> a \<in># M"
  shows "\<exists>h. lc_heap c a = Some h \<and> lh_linked h \<and> (lh_in_cache h \<longleftrightarrow> a \<in> entries c) \<and>
     unat (lh_refs h) = count M a + of_bool (a \<in> entries c)"
proof -
  have "handle_ok c M a" using assms(1) by (simp only: lru_lists_def)
  then show ?thesis using assms(2) by (auto simp: handle_ok_def split: option.splits)
qed

text \<open>The operations touch one handle each.\<close>

lemma lists_change:
  assumes "lru_lists c M" "distinct (lc_lru c' @ lc_in_use c')"
    and others: "\<forall>b. b \<noteq> a \<longrightarrow> lc_heap c' b = lc_heap c b \<and> (b \<in> set (lc_lru c') \<longleftrightarrow> b \<in> set (lc_lru c)) \<and>
      (b \<in> set (lc_in_use c') \<longleftrightarrow> b \<in> set (lc_in_use c)) \<and> count M' b = count M b"
    and "handle_ok c' M' a" "a \<in> entries c' \<Longrightarrow> a \<in> set (lc_lru c') \<longleftrightarrow> a \<notin># M'"
    and "lc_usage c' = lc_usage c - (if a \<in> entries c then charge_of (lc_heap c) a else 0) +
      (if a \<in> entries c' then charge_of (lc_heap c') a else 0)"
  shows "lru_lists c' M'"
proof -
  have "handle_ok c' M' b" for b
  proof (cases "b = a")
    case False
    then have "lc_heap c' b = lc_heap c b" "b \<in> entries c' \<longleftrightarrow> b \<in> entries c" "count M' b = count M b" using others by auto
    moreover from this have "b \<in># M' \<longleftrightarrow> b \<in># M" by (metis count_greater_zero_iff)
    moreover have "handle_ok c M b" using assms(1) by (simp add: lru_lists_def)
    ultimately show ?thesis by (simp only: handle_ok_def)
  qed (use assms(4) in simp)
  moreover have "b \<in> set (lc_lru c') \<longleftrightarrow> b \<notin># M'" if b: "b \<in> entries c'" for b
  proof (cases "b = a")
    case False
    then have "b \<in> set (lc_lru c') \<longleftrightarrow> b \<in> set (lc_lru c)" "b \<in> entries c" "b \<in># M' \<longleftrightarrow> b \<in># M"
      using others b by (auto simp: count_greater_zero_iff [symmetric] simp del: count_greater_zero_iff)
    then show ?thesis using assms(1) unfolding lru_lists_def by blast
  qed (use assms(5) b in simp)
  moreover have "lc_usage c' = (\<Sum>b \<in> entries c'. charge_of (lc_heap c') b)"
  proof -
    have sum: "(\<Sum>b \<in> E. f b) = (if a \<in> E then f a else 0) + (\<Sum>b \<in> E - {a}. f b)" if "finite E" for E and f :: "nat \<Rightarrow> 64 word"
      using that by (cases "a \<in> E") (simp_all add: sum.remove)
    have "entries c' - {a} = entries c - {a}" using others by auto
    then have "(\<Sum>b \<in> entries c' - {a}. charge_of (lc_heap c') b) = (\<Sum>b \<in> entries c - {a}. charge_of (lc_heap c) b)"
      using others by (intro sum.cong) (auto simp: charge_of_def)
    moreover have "lc_usage c = (\<Sum>b \<in> entries c. charge_of (lc_heap c) b)" using assms(1) by (simp add: lru_lists_def)
    ultimately show ?thesis
      using assms(6) sum [of "entries c" "charge_of (lc_heap c)"] sum [of "entries c'" "charge_of (lc_heap c')"]
      by (simp only: finite_set) (simp add: algebra_simps)
  qed
  ultimately show ?thesis using assms(2) by (simp only: lru_lists_def) blast
qed

lemma linked_update [simp]: "lh_linked h \<Longrightarrow> h\<lparr>lh_linked := True\<rparr> = h"
  by (cases h) simp

lemma remove1_other: "distinct (xs @ ys) \<Longrightarrow> a \<in> set xs \<Longrightarrow> remove1 a ys = ys"
  by (rule remove1_idem) auto

lemma Ref_spec:
  assumes "lru_inv c M" "a \<in> entries c" "count M a + 2 < 2 ^ 32"
  shows "\<exists>c'. LRU_Ref a c = Some c' \<and> lru_inv c' (add_mset a M) \<and> entries c' = entries c \<and> payload c' = payload c \<and>
     lc_capacity c' = lc_capacity c \<and> lc_deleted c' = lc_deleted c"
proof -
  have L: "lru_lists c M" using assms(1) by (simp add: lru_inv_def)
  obtain h where h: "lc_heap c a = Some h" "lh_linked h" "lh_in_cache h" "unat (lh_refs h) = count M a + 1"
    using lists_handle [OF L, of a] assms(2) by auto
  have d: "distinct (lc_lru c @ lc_in_use c)" "a \<in> set (lc_lru c) \<longleftrightarrow> a \<notin># M" "lc_usage c = (\<Sum>a \<in> entries c. charge_of (lc_heap c) a)"
    using L assms(2) by (simp_all only: lru_lists_def)
  have one: "lh_refs h = 1 \<longleftrightarrow> a \<notin># M" "unat (lh_refs h + 1) = count M a + 2"
    using h(4) assms(3) by (auto simp: word_unat_eq_iff unat_word_ariths not_in_iff)
  define h' where "h' = h\<lparr>lh_refs := lh_refs h + 1\<rparr>"
  define c' where "c' = c\<lparr>lc_lru := remove1 a (lc_lru c),
    lc_in_use := (if a \<in> set (lc_lru c) then lc_in_use c @ [a] else lc_in_use c), lc_heap := (lc_heap c)(a \<mapsto> h')\<rparr>"
  have ref: "LRU_Ref a c = Some c'"
  proof (cases "a \<in># M")
    case True
    then show ?thesis using h one(1) d(2) by (simp add: LRU_Ref_def set_handle_def c'_def h'_def remove1_idem)
  next
    case False
    then have "a \<in> set (lc_lru c)" using d(2) by simp
    moreover from remove1_other [OF d(1) this] have "remove1 a (lc_in_use c) = lc_in_use c" .
    moreover note one(1)
    ultimately show ?thesis using h(1-3) False d(1) assms(2)
      by (auto simp: LRU_Ref_def LRU_Remove_def LRU_Append_def set_handle_def c'_def h'_def Let_def)
  qed
  have e: "entries c' = entries c" using d(1) by (auto simp: c'_def)
  have p: "payload c' = payload c" using h(1) by (auto simp: payload_def c'_def h'_def fun_eq_iff)
  have "lru_lists c' (add_mset a M)"
  proof (rule lists_change [OF L, where a = a])
    show "distinct (lc_lru c' @ lc_in_use c')" using d(1) by (auto simp: c'_def)
    show "handle_ok c' (add_mset a M) a" using h(1-3) one(2) assms(2) unfolding handle_ok_def e by (simp add: c'_def h'_def)
    show "lc_usage c' = lc_usage c - (if a \<in> entries c then charge_of (lc_heap c) a else 0) +
        (if a \<in> entries c' then charge_of (lc_heap c') a else 0)"
      using assms(2) h(1) by (simp only: e) (simp add: charge_of_def c'_def h'_def)
  qed (use d(1,2) in \<open>auto simp: c'_def\<close>)
  then have "lru_inv c' (add_mset a M)"
    by (rule lru_inv_step [OF assms(1)]) (use e p in \<open>simp_all add: c'_def\<close>)
  then show ?thesis using ref e p by (auto simp: c'_def)
qed

lemma Unref_lists:
  assumes "lru_lists c (add_mset a M)"
  shows "\<exists>c'. LRU_Unref a c = Some c' \<and> lru_lists c' M \<and> entries c' = entries c \<and> lc_table c' = lc_table c \<and>
     lc_capacity c' = lc_capacity c \<and> (\<forall>b. b \<noteq> a \<or> b \<in> entries c \<or> b \<in># M \<longrightarrow> payload c' b = payload c b) \<and>
     lc_lru c' = (if a \<in> entries c \<and> a \<notin># M then lc_lru c @ [a] else lc_lru c)"
proof -
  let ?E = "a \<in> entries c"
  obtain h where h: "lc_heap c a = Some h" "lh_linked h" "lh_in_cache h \<longleftrightarrow> ?E" "unat (lh_refs h) = count M a + 1 + of_bool ?E"
    using lists_handle [OF assms, of a] by auto
  have d: "distinct (lc_lru c @ lc_in_use c)" "?E \<Longrightarrow> a \<notin> set (lc_lru c)"
    using assms unfolding lru_lists_def by fastforce+
  have "lh_refs h \<noteq> 0" using h(4) by (auto simp: word_unat_eq_iff)
  then have refs: "unat (lh_refs h - 1) = count M a + of_bool ?E" using h(4) by (simp add: unat_minus_one)
  then have refs01: "lh_refs h - 1 = 0 \<longleftrightarrow> a \<notin># M \<and> \<not> ?E" "?E \<Longrightarrow> lh_refs h - 1 = 1 \<longleftrightarrow> a \<notin># M"
    by (auto simp: word_unat_eq_iff not_in_iff)
  define h' where "h' = h\<lparr>lh_refs := lh_refs h - 1\<rparr>"
  define moved where "moved \<longleftrightarrow> ?E \<and> a \<notin># M"
  define c' where "c' = c\<lparr>lc_lru := (if moved then lc_lru c @ [a] else lc_lru c),
    lc_in_use := (if moved then remove1 a (lc_in_use c) else lc_in_use c),
    lc_heap := (lc_heap c)(a := if a \<in># M \<or> ?E then Some h' else None),
    lc_deleted := (if a \<in># M \<or> ?E then lc_deleted c else lc_deleted c @ [(lh_key h, lh_value h)])\<rparr>"
  have unref: "LRU_Unref a c = Some c'"
  proof (cases moved)
    case True
    then have "lh_refs h - 1 = 1" "lh_in_cache h" "?E" "a \<notin># M" using refs01 h(3) by (simp_all add: moved_def)
    then show ?thesis using h(1,2) True d \<open>lh_refs h \<noteq> 0\<close>
      by (auto simp: LRU_Unref_def LRU_Remove_def LRU_Append_def set_handle_def c'_def h'_def Let_def remove1_idem)
  next
    case False
    show ?thesis
    proof (cases "a \<in># M \<or> ?E")
      case True
      then have "\<not> (lh_in_cache h \<and> lh_refs h - 1 = 1)" using False refs01(2) h(3) by (auto simp: moved_def)
      moreover have "lh_refs h - 1 \<noteq> 0" using True refs01(1) by blast
      ultimately show ?thesis using h(1,2) True False \<open>lh_refs h \<noteq> 0\<close>
        by (auto simp: LRU_Unref_def set_handle_def c'_def h'_def Let_def)
    next
      case f: False
      then have "lh_refs h - 1 = 0" using refs01(1) by blast
      then show ?thesis using h(1-3) f False \<open>lh_refs h \<noteq> 0\<close>
        by (simp add: LRU_Unref_def set_handle_def c'_def h'_def Let_def LRUHandle_key_def)
    qed
  qed
  have e: "entries c' = entries c" using d by (auto simp: c'_def moved_def)
  have p: "payload c' b = payload c b" if "b \<noteq> a \<or> b \<in> entries c \<or> b \<in># M" for b
    using h(1) that by (auto simp: payload_def c'_def h'_def)
  have "lru_lists c' M"
  proof (rule lists_change [OF assms, where a = a])
    show "distinct (lc_lru c' @ lc_in_use c')" using d by (auto simp: c'_def moved_def)
    show "handle_ok c' M a" using h(2,3) refs unfolding handle_ok_def e by (simp add: c'_def h'_def)
    show "lc_usage c' = lc_usage c - (if a \<in> entries c then charge_of (lc_heap c) a else 0) +
        (if a \<in> entries c' then charge_of (lc_heap c') a else 0)"
      using h(1) by (simp only: e) (simp add: charge_of_def c'_def h'_def)
  qed (use d in \<open>auto simp: c'_def moved_def\<close>)
  then show ?thesis using unref e p by (intro exI [of _ c']) (simp add: c'_def moved_def)
qed

lemma Release_spec:
  assumes "lru_inv c (add_mset a M)"
  shows "\<exists>c'. LRUCache_Release a c = Some c' \<and> lru_inv c' M \<and> entries c' = entries c \<and> lc_capacity c' = lc_capacity c \<and>
     (\<forall>b. b \<noteq> a \<or> b \<in> entries c \<or> b \<in># M \<longrightarrow> payload c' b = payload c b)"
proof -
  have "lru_lists c (add_mset a M)" using assms by (simp add: lru_inv_def)
  from Unref_lists [OF this] obtain c' where c': "LRU_Unref a c = Some c'" "lru_lists c' M" "entries c' = entries c"
    "lc_table c' = lc_table c" "lc_capacity c' = lc_capacity c"
    "\<forall>b. b \<noteq> a \<or> b \<in> entries c \<or> b \<in># M \<longrightarrow> payload c' b = payload c b" by blast
  have "lru_inv c' M" by (rule lru_inv_step [OF assms c'(2,4,3)]) (use c'(6) in blast)
  then show ?thesis using c' by (auto simp: LRUCache_Release_def)
qed

text \<open>An entry that is out of the table is unlinked, and the cache gives up its reference.\<close>

lemma FinishErase_spec:
  assumes "lru_lists c M" "a \<in> entries c" "table_ok (lc_heap c) (lc_table c) (entries c - {a})"
  shows "\<exists>c'. FinishErase (Some a) c = Some (True, c') \<and> lru_inv c' M \<and> entries c' = entries c - {a} \<and>
     lc_capacity c' = lc_capacity c \<and> (\<forall>b. b \<noteq> a \<or> b \<in># M \<longrightarrow> payload c' b = payload c b) \<and>
     lc_lru c' = remove1 a (lc_lru c)"
proof -
  obtain h where h: "lc_heap c a = Some h" "lh_linked h" "lh_in_cache h" "unat (lh_refs h) = count M a + 1"
    using lists_handle [OF assms(1), of a] assms(2) by auto
  have d: "distinct (lc_lru c @ lc_in_use c)" using assms(1) by (simp only: lru_lists_def)
  define c1 where "c1 = c\<lparr>lc_lru := remove1 a (lc_lru c), lc_in_use := remove1 a (lc_in_use c),
    lc_heap := (lc_heap c)(a \<mapsto> h\<lparr>lh_in_cache := False\<rparr>), lc_usage := lc_usage c - lh_charge h\<rparr>"
  have e1: "entries c1 = entries c - {a}" using d by (auto simp: c1_def)
  have p1: "payload c1 = payload c" using h(1) by (auto simp: payload_def c1_def fun_eq_iff)
  have "lru_lists c1 (add_mset a M)"
  proof (rule lists_change [OF assms(1), where a = a])
    show "distinct (lc_lru c1 @ lc_in_use c1)" using d by (auto simp: c1_def)
    show "handle_ok c1 (add_mset a M) a" using h unfolding handle_ok_def e1 by (simp add: c1_def)
    show "lc_usage c1 = lc_usage c - (if a \<in> entries c then charge_of (lc_heap c) a else 0) +
        (if a \<in> entries c1 then charge_of (lc_heap c1) a else 0)"
      using h(1) assms(2) by (simp only: e1) (simp add: charge_of_def c1_def)
  qed (use d in \<open>auto simp: c1_def\<close>)
  from Unref_lists [OF this] obtain c' where c': "LRU_Unref a c1 = Some c'" "lru_lists c' M" "entries c' = entries c1"
    "lc_table c' = lc_table c1" "lc_capacity c' = lc_capacity c1"
    "\<forall>b. b \<noteq> a \<or> b \<in> entries c1 \<or> b \<in># M \<longrightarrow> payload c' b = payload c1 b" "lc_lru c' = lc_lru c1"
    unfolding e1 by auto
  have "FinishErase (Some a) c = Some (True, c')"
    using h(1,3) assms(2) c'(1) by (simp add: FinishErase_def LRU_Remove_def set_handle_def Let_def c1_def)
  moreover have "table_ok (lc_heap c') (lc_table c) (entries c - {a})"
    by (rule table_ok_cong [OF assms(3)])
      (use node_payload [OF c'(2)] node_payload [OF assms(1)] c'(6) p1 in \<open>auto\<close>)
  ultimately show ?thesis using c' e1 p1 by (auto simp: lru_inv_def c1_def)
qed

section \<open>The cache as a map\<close>

definition cached :: "'v LRUCache \<Rightarrow> 32 word \<times> byte list \<Rightarrow> 'v option" where
  "cached c x =
     (case find (\<lambda>a. map_option fst (payload c a) = Some x) (lc_lru c @ lc_in_use c) of
        None \<Rightarrow> None
      | Some a \<Rightarrow> map_option (fst \<circ> snd) (payload c a))"

lemma no_payload: "\<forall>a \<in> A. map_option fst (f a) \<noteq> Some x \<Longrightarrow> \<not> (\<exists>a \<in> A. \<exists>n. f a = Some (x, v, n))"
  by force

lemma cached_Some:
  assumes "lru_inv c M"
  shows "cached c x = Some v \<longleftrightarrow> (\<exists>a \<in> entries c. \<exists>n. payload c a = Some (x, v, n))"
proof -
  have L: "lru_lists c M" and T: "table_ok (lc_heap c) (lc_table c) (entries c)" using assms by (simp_all only: lru_inv_def)
  have inj: "a = b" if "a \<in> entries c" "b \<in> entries c" "payload c a = Some (x, p)" "payload c b = Some (x, q)" for a b p q
  proof (rule inj_onD [of "node (lc_heap c)"])
    show "inj_on (node (lc_heap c)) (entries c)" using T by (simp only: table_ok_def)
  qed (use that node_payload [OF L] in simp_all)
  show ?thesis
  proof (cases "find (\<lambda>a. map_option fst (payload c a) = Some x) (lc_lru c @ lc_in_use c)")
    case None
    then have "cached c x = None" by (simp only: cached_def option.case)
    moreover have "\<forall>a \<in> entries c. map_option fst (payload c a) \<noteq> Some x" using None unfolding find_None_iff by blast
    from no_payload [OF this, of v] have "\<not> (\<exists>a \<in> entries c. \<exists>n. payload c a = Some (x, v, n))" .
    ultimately show ?thesis by (metis option.distinct(1))
  next
    case (Some a)
    then have a: "a \<in> entries c" "map_option fst (payload c a) = Some x"
      unfolding find_Some_iff by (auto simp: in_set_conv_nth simp del: set_append)
    then obtain u n where u: "payload c a = Some (x, u, n)" by auto
    then have cu: "cached c x = Some u" using Some by (simp only: cached_def option.case) simp
    have "u = v" if b: "b \<in> entries c" "payload c b = Some (x, v, m)" for b m
      using inj [OF a(1) b(1) u b(2)] u b(2) by simp
    then have "u = v \<longleftrightarrow> (\<exists>a \<in> entries c. \<exists>n. payload c a = Some (x, v, n))" using a(1) u by blast
    then show ?thesis by (simp only: cu option.inject)
  qed
qed

lemma cached_le:
  assumes "lru_inv c M" "lru_inv c' M'" "\<forall>a \<in> entries c'. a \<in> entries c \<and> payload c' a = payload c a"
  shows "cached c' \<subseteq>\<^sub>m cached c"
proof -
  have "cached c x = Some v" if "cached c' x = Some v" for x v
    using that assms(3) unfolding cached_Some [OF assms(1)] cached_Some [OF assms(2)] by metis
  then show ?thesis by (fastforce simp: map_le_def dom_def)
qed

lemma cached_eq:
  assumes "lru_inv c M" "lru_inv c' M'" "entries c' = entries c" "\<forall>a \<in> entries c. payload c' a = payload c a"
  shows "cached c' = cached c"
proof (rule map_le_antisym)
  show "cached c' \<subseteq>\<^sub>m cached c" by (rule cached_le [OF assms(1,2)]) (use assms(3,4) in blast)
  show "cached c \<subseteq>\<^sub>m cached c'" by (rule cached_le [OF assms(2,1)]) (use assms(3,4) in simp)
qed

lemma entry_cached:
  assumes "lru_inv c M" "entry_for (lc_heap c) (entries c) x r"
  shows "cached c x = (case r of None \<Rightarrow> None | Some a \<Rightarrow> map_option (fst \<circ> snd) (payload c a)) \<and> (r \<noteq> None \<longrightarrow> cached c x \<noteq> None)"
proof -
  have L: "lru_lists c M" using assms by (simp only: lru_inv_def)
  show ?thesis
  proof (cases r)
    case None
    then have "\<forall>a \<in> entries c. map_option fst (payload c a) \<noteq> Some x"
      using assms(2) node_payload [OF L] by (simp add: entry_for_def)
    then have "cached c x \<noteq> Some v" for v unfolding cached_Some [OF assms(1)] by (rule no_payload)
    then show ?thesis using None by (cases "cached c x") auto
  next
    case (Some a)
    then have "a \<in> entries c" "map_option fst (payload c a) = Some x" using assms(2) node_payload [OF L] by (simp_all add: entry_for_def)
    then obtain u n where u: "payload c a = Some (x, u, n)" by auto
    then have "cached c x = Some u" unfolding cached_Some [OF assms(1)] using \<open>a \<in> entries c\<close> by blast
    then show ?thesis using u Some by simp
  qed
qed

lemma Lookup_step:
  assumes "lru_inv c M" "\<forall>a. count M a + 2 < 2 ^ 32"
  shows "\<exists>r c'. LRUCache_Lookup key hash c = Some (r, c') \<and> lru_inv c' (M + mset_set (set_option r)) \<and> cached c' = cached c \<and>
     cached c (hash, key) = (case r of None \<Rightarrow> None | Some a \<Rightarrow> map_option (fst \<circ> snd) (payload c' a)) \<and>
     (r \<noteq> None \<longrightarrow> cached c (hash, key) \<noteq> None) \<and> payload c' = payload c \<and> lc_capacity c' = lc_capacity c"
proof -
  have T: "table_ok (lc_heap c) (lc_table c) (entries c)" using assms by (simp only: lru_inv_def)
  obtain r where r: "HandleTable_Lookup (lc_heap c) key hash (lc_table c) = Some r" "entry_for (lc_heap c) (entries c) (hash, key) r"
    using Lookup_spec [OF T] by blast
  note cr = entry_cached [OF assms(1) r(2)]
  show ?thesis
  proof (cases r)
    case None
    then show ?thesis using r(1) assms(1) cr by (intro exI [of _ None] exI [of _ c]) (simp add: LRUCache_Lookup_def)
  next
    case (Some a)
    then have "a \<in> entries c" using r(2) by (simp add: entry_for_def)
    from Ref_spec [OF assms(1) this] assms(2) obtain c' where c': "LRU_Ref a c = Some c'" "lru_inv c' (add_mset a M)"
      "entries c' = entries c" "payload c' = payload c" "lc_capacity c' = lc_capacity c" by blast
    have "cached c' = cached c" by (rule cached_eq [OF assms(1) c'(2,3)]) (simp add: c'(4))
    moreover have "LRUCache_Lookup key hash c = Some (Some a, c')" using Some r(1) c'(1) by (simp add: LRUCache_Lookup_def)
    moreover have "M + mset_set (set_option (Some a)) = add_mset a M" by simp
    moreover note cr [unfolded Some, THEN conjunct1] cr [unfolded Some, THEN conjunct2]
    ultimately show ?thesis using c'(2,4,5) by (intro exI [of _ "Some a"] exI [of _ c'] conjI) (simp_all only: simp_thms)
  qed
qed

text \<open>\<open>Erase\<close>, and the step of the loops.\<close>

lemma lists_table [simp]: "lru_lists (c\<lparr>lc_table := t\<rparr>) M \<longleftrightarrow> lru_lists c M"
proof -
  have "handle_ok (c\<lparr>lc_table := t\<rparr>) M a \<longleftrightarrow> handle_ok c M a" for a
    by (simp add: handle_ok_def split: option.splits)
  then show ?thesis by (simp add: lru_lists_def)
qed

lemma erase_key:
  assumes "lru_inv c M"
  shows "\<exists>r t c'. HandleTable_Remove (lc_heap c) key hash (lc_table c) = Some (r, t) \<and>
     FinishErase r (c\<lparr>lc_table := t\<rparr>) = Some (r \<noteq> None, c') \<and> lru_inv c' M \<and>
     entry_for (lc_heap c) (entries c) (hash, key) r \<and> entries c' = entries c - set_option r \<and> lc_capacity c' = lc_capacity c \<and>
     (\<forall>b. b \<notin> set_option r \<or> b \<in># M \<longrightarrow> payload c' b = payload c b) \<and>
     lc_lru c' = (case r of None \<Rightarrow> lc_lru c | Some a \<Rightarrow> remove1 a (lc_lru c))"
proof -
  have L: "lru_lists c M" and T: "table_ok (lc_heap c) (lc_table c) (entries c)" using assms by (simp_all only: lru_inv_def)
  obtain r t where r: "HandleTable_Remove (lc_heap c) key hash (lc_table c) = Some (r, t)"
    "entry_for (lc_heap c) (entries c) (hash, key) r" "table_ok (lc_heap c) t (entries c - set_option r)"
    using Remove_spec [OF T] by blast
  let ?c = "c\<lparr>lc_table := t\<rparr>"
  have L': "lru_lists ?c M" using L by simp
  show ?thesis
  proof (cases r)
    case None
    then have "lru_inv ?c M" using L' r(3) by (simp add: lru_inv_def)
    then show ?thesis using r None by (intro exI [of _ None] exI [of _ t] exI [of _ ?c]) (simp add: FinishErase_def payload_def)
  next
    case (Some a)
    have a: "a \<in> entries ?c" using r(2) Some by (simp add: entry_for_def)
    have "table_ok (lc_heap ?c) (lc_table ?c) (entries ?c - {a})" using r(3) Some by simp
    from FinishErase_spec [OF L' a this] obtain c' where c': "FinishErase (Some a) ?c = Some (True, c')" "lru_inv c' M"
      "entries c' = entries ?c - {a}" "lc_capacity c' = lc_capacity ?c" "\<forall>b. b \<noteq> a \<or> b \<in># M \<longrightarrow> payload c' b = payload ?c b"
      "lc_lru c' = remove1 a (lc_lru ?c)" by blast
    then show ?thesis using r(1,2) Some by (intro exI [of _ r] exI [of _ t] exI [of _ c']) (simp add: payload_def)
  qed
qed

lemma Erase_step:
  assumes "lru_inv c M"
  shows "\<exists>c'. LRUCache_Erase key hash c = Some c' \<and> lru_inv c' M \<and> cached c' = (cached c)((hash, key) := None) \<and>
     (\<forall>b \<in># M. payload c' b = payload c b) \<and> lc_capacity c' = lc_capacity c"
proof -
  obtain r t c' where r: "HandleTable_Remove (lc_heap c) key hash (lc_table c) = Some (r, t)"
    "FinishErase r (c\<lparr>lc_table := t\<rparr>) = Some (r \<noteq> None, c')" "lru_inv c' M" "entry_for (lc_heap c) (entries c) (hash, key) r"
    "entries c' = entries c - set_option r" "lc_capacity c' = lc_capacity c"
    "\<forall>b. b \<notin> set_option r \<or> b \<in># M \<longrightarrow> payload c' b = payload c b"
    using erase_key [OF assms] by blast
  have L: "lru_lists c M" and inj: "inj_on (node (lc_heap c)) (entries c)"
    using assms by (simp_all only: lru_inv_def table_ok_def)
  have e: "a \<in> entries c' \<longleftrightarrow> a \<in> entries c \<and> map_option fst (payload c a) \<noteq> Some (hash, key)" for a
  proof (cases "a \<in> entries c \<and> node (lc_heap c) a = Some (hash, key)")
    case True
    then have "entry_for (lc_heap c) (entries c) (hash, key) (Some a)" by (simp add: entry_for_def)
    from entry_unique [OF inj this r(4)] show ?thesis using True r(5) by (simp add: node_payload [OF L])
  next
    case False
    then have "a \<in> entries c \<Longrightarrow> a \<notin> set_option r" using r(4) by (auto simp: entry_for_def)
    then show ?thesis using False r(5) by (auto simp: node_payload [OF L])
  qed
  have "cached c' x = Some v \<longleftrightarrow> ((cached c)((hash, key) := None)) x = Some v" for x v
  proof -
    have "cached c' x = Some v \<longleftrightarrow> (\<exists>a \<in> entries c'. \<exists>n. payload c a = Some (x, v, n))"
      unfolding cached_Some [OF r(3)] using r(5,7) by (metis DiffD2)
    also have "\<dots> \<longleftrightarrow> x \<noteq> (hash, key) \<and> cached c x = Some v" unfolding cached_Some [OF assms] using e by fastforce
    finally show ?thesis by simp
  qed
  then have "cached c' = (cached c)((hash, key) := None)" by (intro ext) (metis not_Some_eq)
  then show ?thesis using r by (auto simp: LRUCache_Erase_def)
qed

lemma evict_oldest_step:
  assumes "lru_inv c M" "lc_lru c = a # rest"
  shows "\<exists>c'. evict_oldest c = Some c' \<and> lru_inv c' M \<and> lc_lru c' = rest \<and> entries c' = entries c - {a} \<and>
     lc_capacity c' = lc_capacity c \<and> (\<forall>b. b \<noteq> a \<or> b \<in># M \<longrightarrow> payload c' b = payload c b)"
proof -
  have L: "lru_lists c M" and inj: "inj_on (node (lc_heap c)) (entries c)"
    using assms by (simp_all only: lru_inv_def table_ok_def)
  have a: "a \<in> entries c" "a \<notin># M" using assms(2) L unfolding lru_lists_def by fastforce+
  obtain h where h: "lc_heap c a = Some h" "lh_linked h" "unat (lh_refs h) = count M a + 1"
    using lists_handle [OF L, of a] a(1) by auto
  then have refs: "lh_refs h = 1" using a(2) by (simp add: word_unat_eq_iff not_in_iff)
  obtain r t c' where r: "HandleTable_Remove (lc_heap c) (lh_key h) (lh_hash h) (lc_table c) = Some (r, t)"
    "FinishErase r (c\<lparr>lc_table := t\<rparr>) = Some (r \<noteq> None, c')" "lru_inv c' M"
    "entry_for (lc_heap c) (entries c) (lh_hash h, lh_key h) r"
    "entries c' = entries c - set_option r" "lc_capacity c' = lc_capacity c"
    "\<forall>b. b \<notin> set_option r \<or> b \<in># M \<longrightarrow> payload c' b = payload c b"
    "lc_lru c' = (case r of None \<Rightarrow> lc_lru c | Some a \<Rightarrow> remove1 a (lc_lru c))"
    using erase_key [OF assms(1), of "lh_key h" "lh_hash h"] by blast
  have "entry_for (lc_heap c) (entries c) (lh_hash h, lh_key h) (Some a)"
    using a(1) h(1,2) by (simp add: entry_for_def node_Some)
  from entry_unique [OF inj this r(4)] have ra: "r = Some a" .
  have "evict_oldest c = Some c'"
    using assms(2) h(1,2) refs r(1,2) ra by (simp add: evict_oldest_def nth_opt_def LRUHandle_key_def)
  then show ?thesis using r(3,5-8) ra assms(2) by (intro exI [of _ c']) simp
qed

text \<open>What the loops of \<open>Insert\<close> and \<open>Prune\<close> keep: the entries that stay, and all that a client holds.\<close>

definition shrunk :: "nat multiset \<Rightarrow> 'v LRUCache \<Rightarrow> 'v LRUCache \<Rightarrow> bool" where
  "shrunk M c c' \<longleftrightarrow> lru_inv c' M \<and> entries c' \<subseteq> entries c \<and> lc_capacity c' = lc_capacity c \<and>
     (\<forall>b. b \<in> entries c' \<or> b \<in># M \<longrightarrow> payload c' b = payload c b) \<and> (\<forall>b \<in> entries c. b \<in># M \<longrightarrow> b \<in> entries c')"

lemma shrunk_step: "lru_inv c1 M \<Longrightarrow> entries c1 = entries c - {a} \<Longrightarrow> lc_capacity c1 = lc_capacity c \<Longrightarrow> a \<notin># M \<Longrightarrow>
    \<forall>b. b \<noteq> a \<or> b \<in># M \<longrightarrow> payload c1 b = payload c b \<Longrightarrow> shrunk M c1 c2 \<Longrightarrow> shrunk M c c2"
  by (auto simp: shrunk_def simp del: set_append)

lemma lru_unheld: "lru_inv c M \<Longrightarrow> a \<in> set (lc_lru c) \<Longrightarrow> a \<notin># M"
  by (auto simp: lru_inv_def lru_lists_def)

lemma evict_spec:
  "lru_inv c M \<Longrightarrow> \<exists>c'. evict c = Some c' \<and> shrunk M c c' \<and> (lc_usage c' \<le> lc_capacity c' \<or> lc_lru c' = [])"
proof (induction "lc_lru c" arbitrary: c)
  case Nil
  then show ?case by (intro exI [of _ c]) (simp add: evict.simps shrunk_def)
next
  case (Cons a rest)
  show ?case
  proof (cases "lc_usage c > lc_capacity c")
    case True
    obtain c1 where c1: "evict_oldest c = Some c1" "lru_inv c1 M" "lc_lru c1 = rest" "entries c1 = entries c - {a}"
      "lc_capacity c1 = lc_capacity c" "\<forall>b. b \<noteq> a \<or> b \<in># M \<longrightarrow> payload c1 b = payload c b"
      using evict_oldest_step [OF Cons.prems Cons.hyps(2) [symmetric]] by blast
    have "a \<notin># M" using lru_unheld [OF Cons.prems, of a] Cons.hyps(2) by (metis list.set_intros(1))
    from Cons.hyps(1) [OF c1(3) [symmetric] c1(2)] shrunk_step [OF c1(2,4,5) this c1(6)] obtain c' where
      "evict c1 = Some c'" "shrunk M c c'" "lc_usage c' \<le> lc_capacity c' \<or> lc_lru c' = []" by blast
    then show ?thesis using True c1(1) Cons.hyps(2) [symmetric] by (intro exI [of _ c']) (simp add: evict.simps [of c])
  next
    case False
    then show ?thesis using Cons.prems by (intro exI [of _ c]) (auto simp: evict.simps [of c] shrunk_def)
  qed
qed

lemma Prune_spec: "lru_inv c M \<Longrightarrow> \<exists>c'. LRUCache_Prune c = Some c' \<and> shrunk M c c' \<and> lc_lru c' = []"
proof (induction "lc_lru c" arbitrary: c)
  case Nil
  then show ?case by (intro exI [of _ c]) (simp add: LRUCache_Prune.simps shrunk_def)
next
  case (Cons a rest)
  obtain c1 where c1: "evict_oldest c = Some c1" "lru_inv c1 M" "lc_lru c1 = rest" "entries c1 = entries c - {a}"
    "lc_capacity c1 = lc_capacity c" "\<forall>b. b \<noteq> a \<or> b \<in># M \<longrightarrow> payload c1 b = payload c b"
    using evict_oldest_step [OF Cons.prems Cons.hyps(2) [symmetric]] by blast
  have "a \<notin># M" using lru_unheld [OF Cons.prems, of a] Cons.hyps(2) by (metis list.set_intros(1))
  from Cons.hyps(1) [OF c1(3) [symmetric] c1(2)] shrunk_step [OF c1(2,4,5) this c1(6)] obtain c' where
    "LRUCache_Prune c1 = Some c'" "shrunk M c c'" "lc_lru c' = []" by blast
  then show ?case using c1(1) Cons.hyps(2) [symmetric] by (intro exI [of _ c']) (simp add: LRUCache_Prune.simps [of c])
qed

lemma shrunk_le: "lru_inv c M \<Longrightarrow> shrunk M c c' \<Longrightarrow> cached c' \<subseteq>\<^sub>m cached c"
  by (rule cached_le) (auto simp: shrunk_def)

lemma unused_handle: "lru_lists c M \<Longrightarrow> lc_heap c a = None \<Longrightarrow> a \<notin> entries c \<and> a \<notin># M"
  unfolding lru_lists_def handle_ok_def by (metis (mono_tags) option.case(1))

text \<open>The new entry is in use and so survives; the one it replaces goes.\<close>

lemma Insert_step:
  assumes "lru_inv c M" "lc_heap c a = None" "lc_capacity c > 0" "card (entries c) + 1 < 2 ^ 31"
  shows "\<exists>c'. LRUCache_Insert a key hash v n c = Some (a, c') \<and> lru_inv c' (add_mset a M) \<and>
     cached c' \<subseteq>\<^sub>m (cached c)((hash, key) \<mapsto> v) \<and> cached c' (hash, key) = Some v \<and>
     (\<forall>b \<in># M. payload c' b = payload c b) \<and> payload c' a = Some ((hash, key), v, n) \<and> lc_capacity c' = lc_capacity c \<and>
     (lc_usage c' \<le> lc_capacity c' \<or> lc_lru c' = []) \<and>
     (\<forall>b \<in> entries c'. b = a \<or> b \<in> entries c \<and> payload c' b = payload c b)"
proof -
  have L: "lru_lists c M" and T: "table_ok (lc_heap c) (lc_table c) (entries c)" using assms(1) by (simp_all only: lru_inv_def)
  note un = unused_handle [OF L assms(2)]
  have d: "distinct (lc_lru c @ lc_in_use c)" using L by (simp only: lru_lists_def)
  define h where "h = \<lparr>lh_value = v, lh_linked = True, lh_charge = n, lh_in_cache = True, lh_refs = 2, lh_hash = hash, lh_key = key\<rparr>"
  define c1 where "c1 = c\<lparr>lc_heap := (lc_heap c)(a \<mapsto> h), lc_in_use := lc_in_use c @ [a], lc_usage := lc_usage c + n\<rparr>"
  have e1: "entries c1 = insert a (entries c)" by (auto simp: c1_def)
  have p1: "payload c1 b = (if b = a then Some ((hash, key), v, n) else payload c b)" for b by (simp add: payload_def c1_def h_def)
  have L1: "lru_lists c1 (add_mset a M)"
  proof (rule lists_change [OF L, where a = a])
    show "handle_ok c1 (add_mset a M) a" using un unfolding handle_ok_def e1 by (simp add: c1_def h_def not_in_iff)
    show "lc_usage c1 = lc_usage c - (if a \<in> entries c then charge_of (lc_heap c) a else 0) +
        (if a \<in> entries c1 then charge_of (lc_heap c1) a else 0)"
      using un unfolding e1 by (simp add: charge_of_def c1_def h_def)
  qed (use d un in \<open>auto simp: c1_def\<close>)
  have T1: "table_ok (lc_heap c1) (lc_table c) (entries c)"
    by (rule table_ok_cong [OF T]) (use un in \<open>auto simp: c1_def node_def\<close>)
  have ha: "lc_heap c1 a = Some h" "lh_linked h" "lh_hash h = hash" "lh_key h = key" by (simp_all add: c1_def h_def)
  obtain r t where r: "HandleTable_Insert (lc_heap c1) a (lc_table c) = Some (r, t)"
    "entry_for (lc_heap c1) (entries c) (hash, key) r" "table_ok (lc_heap c1) t (insert a (entries c - set_option r))"
    using Insert_spec [OF T1 ha(1,2) conjunct1 [OF un] assms(4)] unfolding ha(3,4) by blast
  have "\<exists>c2. FinishErase r (c1\<lparr>lc_table := t\<rparr>) = Some (r \<noteq> None, c2) \<and> lru_inv c2 (add_mset a M) \<and>
      entries c2 = entries c1 - set_option r \<and> lc_capacity c2 = lc_capacity c1 \<and>
      (\<forall>b. b \<notin> set_option r \<or> b \<in># M \<longrightarrow> payload c2 b = payload c1 b)"
  proof (cases r)
    case None
    then have "lru_inv (c1\<lparr>lc_table := t\<rparr>) (add_mset a M)" using L1 r(3) e1 by (simp add: lru_inv_def)
    then show ?thesis using None by (simp add: FinishErase_def payload_def)
  next
    case (Some b)
    then have b: "b \<in> entries c" "b \<noteq> a" using r(2) un by (auto simp: entry_for_def)
    have "insert a (entries c - set_option r) = entries c1 - {b}" using e1 Some b by auto
    then have t1: "table_ok (lc_heap (c1\<lparr>lc_table := t\<rparr>)) (lc_table (c1\<lparr>lc_table := t\<rparr>)) (entries (c1\<lparr>lc_table := t\<rparr>) - {b})"
      using r(3) by simp
    have "lru_lists (c1\<lparr>lc_table := t\<rparr>) (add_mset a M)" "b \<in> entries (c1\<lparr>lc_table := t\<rparr>)" using L1 b(1) e1 by simp_all
    from FinishErase_spec [OF this t1] show ?thesis using Some b by (fastforce simp: payload_def)
  qed
  then obtain c2 where c2: "FinishErase r (c1\<lparr>lc_table := t\<rparr>) = Some (r \<noteq> None, c2)" "lru_inv c2 (add_mset a M)"
    "entries c2 = entries c1 - set_option r" "lc_capacity c2 = lc_capacity c1"
    "\<forall>b. b \<notin> set_option r \<or> b \<in># M \<longrightarrow> payload c2 b = payload c1 b" by blast
  obtain c3 where c3: "evict c2 = Some c3" "shrunk (add_mset a M) c2 c3" "lc_usage c3 \<le> lc_capacity c3 \<or> lc_lru c3 = []"
    using evict_spec [OF c2(2)] by blast
  have ins: "LRUCache_Insert a key hash v n c = Some (a, c3)"
    using assms(3) r(1) c2(1) c3(1) un
    by (simp add: LRUCache_Insert_def Let_def set_handle_def LRU_Append_def h_def c1_def)
  have ra: "a \<notin> set_option r" using r(2) un by (auto simp: entry_for_def)
  have inv3: "lru_inv c3 (add_mset a M)" using c3(2) by (simp only: shrunk_def)
  have p3: "payload c3 a = Some ((hash, key), v, n)" "a \<in> entries c3"
    using c3(2) c2(3,5) ra p1 e1 by (auto simp: shrunk_def)
  then have new: "cached c3 (hash, key) = Some v" unfolding cached_Some [OF inv3] by blast
  have "cached c3 \<subseteq>\<^sub>m (cached c)((hash, key) \<mapsto> v)"
  proof -
    have "((cached c)((hash, key) \<mapsto> v)) x = Some u" if "cached c3 x = Some u" for x u
    proof (cases "x = (hash, key)")
      case False
      from \<open>cached c3 x = Some u\<close> obtain b m where b: "b \<in> entries c3" "payload c3 b = Some (x, u, m)"
        unfolding cached_Some [OF inv3] by blast
      then have "b \<noteq> a" using p3(1) False by auto
      moreover have "b \<in> entries c1" "b \<notin> set_option r" "payload c1 b = Some (x, u, m)"
        using b c3(2) c2(3,5) unfolding shrunk_def by auto
      ultimately have "b \<in> entries c" "payload c b = Some (x, u, m)" using e1 p1 by auto
      then have "cached c x = Some u" unfolding cached_Some [OF assms(1)] by blast
      then show ?thesis using False by simp
    qed (use that new in simp)
    then show ?thesis by (fastforce simp: map_le_def dom_def)
  qed
  moreover have "\<forall>b \<in># M. payload c3 b = payload c b"
    using c3(2) c2(5) p1 un by (auto simp: shrunk_def)
  moreover have "lc_capacity c3 = lc_capacity c" using c3(2) c2(4) by (simp add: shrunk_def c1_def)
  moreover have "\<forall>b \<in> entries c3. b = a \<or> b \<in> entries c \<and> payload c3 b = payload c b"
    using c3(2) c2(3,5) p1 e1 by (auto simp: shrunk_def)
  ultimately show ?thesis using ins inv3 new p3(1) c3(3) by blast
qed

text \<open>What the entries of a shard really weigh, without the wrap-around of \<open>usage_\<close>.\<close>

definition total_charge :: "'v LRUCache \<Rightarrow> nat" where
  "total_charge c = (\<Sum>a \<in> entries c. unat (charge_of (lc_heap c) a))"

lemma charge_of_payload: "payload c a = Some (x, v, n) \<Longrightarrow> charge_of (lc_heap c) a = n"
  by (auto simp: payload_def charge_of_def split: option.splits)

lemma usage_total:
  assumes "lru_inv c M" "total_charge c < 2 ^ 64"
  shows "unat (lc_usage c) = total_charge c"
proof -
  have "lc_usage c = of_nat (total_charge c)"
    using assms(1) by (simp add: lru_inv_def lru_lists_def total_charge_def)
  then show ?thesis using assms(2) by (simp add: unat_of_nat)
qed

lemma Insert_total:
  assumes "lru_inv c M" "lc_heap c a = None" "lc_capacity c > 0" "card (entries c) + 1 < 2 ^ 31"
    and "total_charge c + unat n < 2 ^ 64"
  shows "\<exists>c'. LRUCache_Insert a key hash v n c = Some (a, c') \<and> lru_inv c' (add_mset a M) \<and> lc_capacity c' = lc_capacity c \<and>
     unat (lc_usage c') = total_charge c' \<and> (total_charge c' \<le> unat (lc_capacity c) \<or> lc_lru c' = [])"
proof -
  obtain c' where c': "LRUCache_Insert a key hash v n c = Some (a, c')" "lru_inv c' (add_mset a M)"
    "payload c' a = Some ((hash, key), v, n)" "lc_capacity c' = lc_capacity c"
    "lc_usage c' \<le> lc_capacity c' \<or> lc_lru c' = []"
    "\<forall>b \<in> entries c'. b = a \<or> b \<in> entries c \<and> payload c' b = payload c b"
    using Insert_step [OF assms(1-4), of key hash v n] by blast
  have L: "lru_inv c M" by (rule assms(1))
  have un: "a \<notin> entries c" using unused_handle [OF _ assms(2)] L by (auto simp: lru_inv_def)
  have same: "charge_of (lc_heap c') b = charge_of (lc_heap c) b" if "b \<in> entries c' - {a}" for b
  proof -
    have "payload c' b = payload c b" using c'(6) that by blast
    then show ?thesis by (auto simp: payload_def charge_of_def split: option.splits)
  qed
  have "total_charge c' \<le> (\<Sum>b \<in> insert a (entries c' - {a}). unat (charge_of (lc_heap c') b))"
    unfolding total_charge_def by (rule sum_mono2) auto
  also have "\<dots> = unat n + (\<Sum>b \<in> entries c' - {a}. unat (charge_of (lc_heap c) b))"
    using same charge_of_payload [OF c'(3)] by (subst sum.insert) auto
  also have "\<dots> \<le> unat n + total_charge c"
    unfolding total_charge_def using c'(6) by (intro add_left_mono sum_mono2) auto
  finally have "total_charge c' < 2 ^ 64" using assms(5) by simp
  from usage_total [OF c'(2) this] c' show ?thesis by (auto simp: word_le_nat_alt)
qed

text \<open>Entries that are not on the list for eviction are in use by a client.\<close>

lemma unused_entries: "lru_inv c M \<Longrightarrow> lc_lru c = [] \<Longrightarrow> entries c \<subseteq> set_mset M"
  unfolding lru_inv_def lru_lists_def by auto

text \<open>With capacity 0 an inserted entry is linked nowhere.\<close>

lemma capacity_zero_step:
  assumes "lc_capacity c = 0" "lc_usage c = 0"
  shows "\<exists>c'. LRUCache_Insert a key hash v n c = Some (a, c') \<and> LRUCache_Release a c' = None"
  using assms
  by (simp add: LRUCache_Insert_def set_handle_def evict.simps LRUCache_Release_def LRU_Unref_def LRUHandle_key_def Let_def)

end
