(* ===== verification/LdbCacheShards.thy ===== *)
theory LdbCacheShards
  imports LdbCacheProof
begin

text \<open>
  The shards together are one cache: what a client of any cache may rely on is the locale
  \<open>block_cache\<close>, which the LRU cache is an instance of.
\<close>

section \<open>What a cache promises\<close>

text \<open>
  \<open>inv c M\<close>: the cache is in order while its clients hold the handles \<open>M\<close>. \<open>get\<close> is what it would
  find; an insertion may make it forget.
\<close>

locale block_cache =
  fixes ops :: "('c, 'h, 'v) CacheOps" and inv :: "'c \<Rightarrow> 'h multiset \<Rightarrow> bool" and get :: "'c \<Rightarrow> byte list \<Rightarrow> 'v option"
  assumes lookup: "inv c M \<Longrightarrow> size M + 2 < 2 ^ 32 \<Longrightarrow>
      \<exists>r c'. co_Lookup ops key c = Some (r, c') \<and> inv c' (M + mset_set (set_option r)) \<and> get c' = get c \<and>
        get c key = (case r of None \<Rightarrow> None | Some h \<Rightarrow> co_Value ops h c') \<and> (r \<noteq> None \<longrightarrow> get c key \<noteq> None) \<and>
        (\<forall>h \<in># M. co_Value ops h c' = co_Value ops h c)"
    and insert: "inv c M \<Longrightarrow> card (dom (get c)) + 1 < 2 ^ 31 \<Longrightarrow>
      \<exists>h c'. co_Insert ops key v n c = Some (h, c') \<and> inv c' (add_mset h M) \<and> get c' \<subseteq>\<^sub>m (get c)(key \<mapsto> v) \<and>
        co_Value ops h c' = Some v \<and> (\<forall>h \<in># M. co_Value ops h c' = co_Value ops h c)"
    and release: "inv c (add_mset h M) \<Longrightarrow>
      \<exists>c'. co_Release ops h c = Some c' \<and> inv c' M \<and> get c' = get c \<and> (\<forall>h \<in># M. co_Value ops h c' = co_Value ops h c)"
    and finite_get: "inv c M \<Longrightarrow> finite (dom (get c))"

section \<open>The shards\<close>

definition shard_handles :: "nat \<Rightarrow> cache_handle multiset \<Rightarrow> nat multiset" where
  "shard_handles i M = image_mset snd (filter_mset (\<lambda>h. Shard (fst h) = i) M)"

lemma shard_handles_simps [simp]:
  "shard_handles i {#} = {#}"
  "shard_handles i (add_mset (hash, a) M) = (if Shard hash = i then add_mset a (shard_handles i M) else shard_handles i M)"
  by (simp_all add: shard_handles_def)

lemma count_shard_handles: "count (shard_handles i M) a \<le> size M"
proof -
  have "size (shard_handles i M) \<le> size M" by (simp add: shard_handles_def size_filter_mset_lesseq)
  from le_trans [OF count_le_size this] show ?thesis .
qed

definition shard_inv :: "nat \<Rightarrow> 'v LRUCache \<Rightarrow> nat multiset \<Rightarrow> bool" where
  "shard_inv i c M \<longleftrightarrow> lru_inv c M \<and> 0 < lc_capacity c \<and>
     (\<forall>x \<in> dom (cached c). fst x = HashSlice (snd x) \<and> Shard (fst x) = i)"

definition cache_inv :: "'v ShardedLRUCache \<Rightarrow> cache_handle multiset \<Rightarrow> bool" where
  "cache_inv sc M \<longleftrightarrow> length (sc_shard sc) = kNumShards \<and>
     (\<forall>i<kNumShards. shard_inv i (sc_shard sc ! i) (shard_handles i M))"

definition cache_get :: "'v ShardedLRUCache \<Rightarrow> byte list \<Rightarrow> 'v option" where
  "cache_get sc key = cached (sc_shard sc ! Shard (HashSlice key)) (HashSlice key, key)"

lemma Shard_less: "Shard hash < kNumShards"
proof -
  have b: "unat hash < 2 ^ 32" using unsigned_less [of hash, where 'a = nat] by simp
  then have "unat (drop_bit 28 hash) = drop_bit 28 (unat hash)" by (simp add: unsigned_drop_bit_eq take_bit_nat_eq_self)
  with b have "unat (drop_bit 28 hash) < 2 ^ 4" by (simp add: drop_bit_eq_div)
  then show ?thesis by (simp add: Shard_def kNumShards_def kNumShardBits_def)
qed

lemma cache_inv_shard:
  "cache_inv sc M \<Longrightarrow> nth_opt (sc_shard sc) (Shard hash) = Some (sc_shard sc ! Shard hash) \<and>
     shard_inv (Shard hash) (sc_shard sc ! Shard hash) (shard_handles (Shard hash) M)"
  using Shard_less by (simp add: cache_inv_def nth_opt_def)

lemma shard_inv_step: "shard_inv i c M \<Longrightarrow> lru_inv c' M' \<Longrightarrow> lc_capacity c' = lc_capacity c \<Longrightarrow> cached c' \<subseteq>\<^sub>m cached c \<Longrightarrow>
    shard_inv i c' M'"
  unfolding shard_inv_def map_le_def by (metis domI domD)

lemma cache_inv_update:
  assumes "cache_inv sc M" "shard_inv i c (shard_handles i M')" "\<forall>j. j \<noteq> i \<longrightarrow> shard_handles j M' = shard_handles j M"
  shows "cache_inv (sc\<lparr>sc_shard := (sc_shard sc)[i := c]\<rparr>) M'"
proof -
  have "shard_inv j ((sc_shard sc)[i := c] ! j) (shard_handles j M')" if "j < kNumShards" for j
    using assms that by (cases "j = i") (simp_all add: cache_inv_def)
  then show ?thesis using assms(1) by (simp add: cache_inv_def)
qed

text \<open>The effect of a change of one shard on what is found, and on the values of handles.\<close>

lemma cache_get_update:
  "cache_inv sc M \<Longrightarrow> cache_get (sc\<lparr>sc_shard := (sc_shard sc)[Shard hash := c]\<rparr>) key =
     (if Shard (HashSlice key) = Shard hash then cached c (HashSlice key, key) else cache_get sc key)"
  using Shard_less [of hash] by (simp add: cache_get_def cache_inv_def nth_list_update)

lemma Cache_Value_payload:
  "cache_inv sc M \<Longrightarrow> Cache_Value (hash, a) sc = map_option (fst \<circ> snd) (payload (sc_shard sc ! Shard hash) a)"
  by (cases "lc_heap (sc_shard sc ! Shard hash) a") (simp_all add: Cache_Value_def cache_inv_shard payload_def)

lemma cache_get_shard: "cache_get sc key = cached (sc_shard sc ! Shard (HashSlice key)) (HashSlice key, key)"
  by (simp add: cache_get_def)

lemma finite_cached: "lru_inv c M \<Longrightarrow> finite (dom (cached c)) \<and> card (entries c) \<le> card (dom (cached c))"
proof -
  assume inv: "lru_inv c M"
  then have L: "lru_lists c M" and inj: "inj_on (node (lc_heap c)) (entries c)" by (simp_all only: lru_inv_def table_ok_def)
  have "dom (cached c) \<subseteq> (\<lambda>a. the (node (lc_heap c) a)) ` entries c"
  proof
    fix x
    assume "x \<in> dom (cached c)"
    then obtain v where "cached c x = Some v" by blast
    then obtain a n where "a \<in> entries c" "payload c a = Some (x, v, n)" unfolding cached_Some [OF inv] by blast
    then show "x \<in> (\<lambda>a. the (node (lc_heap c) a)) ` entries c"
      by (intro image_eqI [of _ _ a]) (simp_all add: node_payload [OF L])
  qed
  then have fin: "finite (dom (cached c))" by (rule finite_subset) simp
  have def: "\<exists>x. node (lc_heap c) a = Some x \<and> x \<in> dom (cached c)" if a: "a \<in> entries c" for a
  proof -
    obtain h where "lc_heap c a = Some h" using lists_handle [OF L, of a] a by blast
    then have "payload c a = Some ((lh_hash h, lh_key h), lh_value h, lh_charge h)" by (simp add: payload_def)
    moreover from this have "cached c (lh_hash h, lh_key h) = Some (lh_value h)" unfolding cached_Some [OF inv] using a by blast
    ultimately show ?thesis by (intro exI [of _ "(lh_hash h, lh_key h)"]) (simp add: node_payload [OF L] domI)
  qed
  have "card (entries c) \<le> card (dom (cached c))"
  proof (rule card_inj_on_le [OF _ _ fin])
    show "inj_on (\<lambda>a. the (node (lc_heap c) a)) (entries c)"
      by (rule inj_onI) (metis def inj inj_onD option.sel)
    show "(\<lambda>a. the (node (lc_heap c) a)) ` entries c \<subseteq> dom (cached c)" using def by fastforce
  qed
  with fin show ?thesis by blast
qed

lemma cache_inv_finite: "cache_inv sc M \<Longrightarrow> finite (dom (cache_get sc))"
proof -
  assume inv: "cache_inv sc M"
  have "dom (cache_get sc) \<subseteq> (\<Union>i<kNumShards. snd ` dom (cached (sc_shard sc ! i)))"
  proof
    fix key
    assume "key \<in> dom (cache_get sc)"
    then have "(HashSlice key, key) \<in> dom (cached (sc_shard sc ! Shard (HashSlice key)))" by (auto simp: cache_get_def)
    then show "key \<in> (\<Union>i<kNumShards. snd ` dom (cached (sc_shard sc ! i)))"
      using Shard_less [of "HashSlice key"] by force
  qed
  moreover have "finite (dom (cached (sc_shard sc ! i)))" if "i < kNumShards" for i
    using inv that finite_cached by (auto simp: cache_inv_def shard_inv_def)
  then have "finite (\<Union>i<kNumShards. snd ` dom (cached (sc_shard sc ! i)))" by simp
  ultimately show ?thesis by (rule finite_subset)
qed

text \<open>The keys of a shard are among those of the cache.\<close>

lemma shard_entries: "cache_inv sc M \<Longrightarrow> i < kNumShards \<Longrightarrow> card (entries (sc_shard sc ! i)) \<le> card (dom (cache_get sc))"
proof -
  assume inv: "cache_inv sc M" and i: "i < kNumShards"
  let ?c = "sc_shard sc ! i"
  have s: "shard_inv i ?c (shard_handles i M)" using inv i by (simp add: cache_inv_def)
  then have hash: "fst x = HashSlice (snd x)" "Shard (fst x) = i" if "x \<in> dom (cached ?c)" for x
    using that unfolding shard_inv_def by blast+
  have "card (entries ?c) \<le> card (dom (cached ?c))" using s finite_cached by (auto simp: shard_inv_def)
  also have "\<dots> \<le> card (dom (cache_get sc))"
  proof (rule card_inj_on_le [OF _ _ cache_inv_finite [OF inv]])
    show "inj_on snd (dom (cached ?c))" using hash(1) by (intro inj_onI) (metis prod.expand)
    show "snd ` dom (cached ?c) \<subseteq> dom (cache_get sc)"
    proof
      fix k
      assume "k \<in> snd ` dom (cached ?c)"
      then obtain x where x: "x \<in> dom (cached ?c)" "k = snd x" by blast
      then have "x = (HashSlice k, k)" "Shard (HashSlice k) = i" using hash [OF x(1)] by (metis prod.collapse)+
      then show "k \<in> dom (cache_get sc)" using x(1) by (auto simp: cache_get_def)
    qed
  qed
  finally show ?thesis .
qed

section \<open>The operations\<close>

lemma Cache_Value_update:
  assumes "cache_inv sc M" "cache_inv (sc\<lparr>sc_shard := (sc_shard sc)[Shard hash := c]\<rparr>) M'"
    "\<forall>a \<in># shard_handles (Shard hash) N. payload c a = payload (sc_shard sc ! Shard hash) a"
  shows "\<forall>h \<in># N. Cache_Value h (sc\<lparr>sc_shard := (sc_shard sc)[Shard hash := c]\<rparr>) = Cache_Value h sc"
proof
  fix h
  assume h: "h \<in># N"
  obtain hash' a where ha: "h = (hash', a)" by fastforce
  have len: "length (sc_shard sc) = kNumShards" using assms(1) by (simp only: cache_inv_def)
  show "Cache_Value h (sc\<lparr>sc_shard := (sc_shard sc)[Shard hash := c]\<rparr>) = Cache_Value h sc"
  proof (cases "Shard hash' = Shard hash")
    case True
    then have "a \<in># shard_handles (Shard hash) N" using h ha by (force simp: shard_handles_def)
    then show ?thesis using assms(3) True len Shard_less [of hash]
      by (simp add: ha Cache_Value_payload [OF assms(1)] Cache_Value_payload [OF assms(2)])
  next
    case False
    then show ?thesis by (simp add: ha Cache_Value_payload [OF assms(1)] Cache_Value_payload [OF assms(2)])
  qed
qed

lemma Cache_Lookup_step:
  assumes "cache_inv sc M" "size M + 2 < 2 ^ 32"
  shows "\<exists>r sc'. Cache_Lookup key sc = Some (r, sc') \<and> cache_inv sc' (M + mset_set (set_option r)) \<and> cache_get sc' = cache_get sc \<and>
     cache_get sc key = (case r of None \<Rightarrow> None | Some h \<Rightarrow> Cache_Value h sc') \<and>
     (r \<noteq> None \<longrightarrow> cache_get sc key \<noteq> None) \<and> (\<forall>h \<in># M. Cache_Value h sc' = Cache_Value h sc) \<and> set_option r \<subseteq> {h. fst h = HashSlice key}"
proof -
  let ?hash = "HashSlice key"
  let ?i = "Shard ?hash"
  let ?c = "sc_shard sc ! ?i" and ?M = "shard_handles (Shard (HashSlice key)) M"
  have c: "nth_opt (sc_shard sc) ?i = Some ?c" "shard_inv ?i ?c ?M" using cache_inv_shard [OF assms(1)] by blast+
  have inv: "lru_inv ?c ?M" using c(2) by (simp only: shard_inv_def)
  have "\<forall>a. count ?M a + 2 < 2 ^ 32" using count_shard_handles [of ?i M] assms(2) by (meson add_le_mono1 le_less_trans)
  from Lookup_step [OF inv this, of key ?hash] obtain r c' where r: "LRUCache_Lookup key ?hash ?c = Some (r, c')"
    "lru_inv c' (?M + mset_set (set_option r))" "cached c' = cached ?c"
    "cached ?c (?hash, key) = (case r of None \<Rightarrow> None | Some a \<Rightarrow> map_option (fst \<circ> snd) (payload c' a))"
    "payload c' = payload ?c" "lc_capacity c' = lc_capacity ?c" "r \<noteq> None \<longrightarrow> cached ?c (?hash, key) \<noteq> None" by blast
  let ?r = "map_option (Pair ?hash) r" and ?sc = "sc\<lparr>sc_shard := (sc_shard sc)[?i := c']\<rparr>"
  let ?N = "M + mset_set (set_option (map_option (Pair (HashSlice key)) r))"
  have look: "Cache_Lookup key sc = Some (?r, ?sc)"
    using r(1) by (simp add: c(1) Cache_Lookup_def on_shard_def Let_def)
  have h: "shard_handles ?i ?N = ?M + mset_set (set_option r)" "\<forall>j. j \<noteq> ?i \<longrightarrow> shard_handles j ?N = shard_handles j M"
    by (cases r; simp)+
  have "shard_inv ?i c' (shard_handles ?i ?N)"
    unfolding h(1) by (rule shard_inv_step [OF c(2) r(2,6)]) (simp add: r(3))
  from cache_inv_update [OF assms(1) this h(2)] have inv': "cache_inv ?sc ?N" .
  have get: "cache_get ?sc = cache_get sc"
  proof
    fix k
    show "cache_get ?sc k = cache_get sc k" unfolding cache_get_update [OF assms(1)] by (simp add: r(3) cache_get_def)
  qed
  have i: "?sc = sc\<lparr>sc_shard := (sc_shard sc)[?i := c']\<rparr>" "sc_shard ?sc ! ?i = c'"
    using assms(1) Shard_less by (simp_all add: cache_inv_def)
  have "cache_get sc key = (case ?r of None \<Rightarrow> None | Some h \<Rightarrow> Cache_Value h ?sc)"
    using r(4) i(2) by (cases r) (simp_all add: cache_get_def Cache_Value_payload [OF inv'])
  moreover have "\<forall>h \<in># M. Cache_Value h ?sc = Cache_Value h sc"
    by (rule Cache_Value_update [OF assms(1) inv']) (simp add: r(5))
  moreover have "?r \<noteq> None \<longrightarrow> cache_get sc key \<noteq> None" using r(7) unfolding cache_get_def by simp
  ultimately show ?thesis using look inv' get by (intro exI [of _ ?r] exI [of _ ?sc]) auto
qed

lemma Cache_Release_step:
  assumes "cache_inv sc (add_mset h M)"
  shows "\<exists>sc'. Cache_Release h sc = Some sc' \<and> cache_inv sc' M \<and> cache_get sc' = cache_get sc \<and>
     (\<forall>h \<in># M. Cache_Value h sc' = Cache_Value h sc)"
proof -
  obtain hash a where ha: "h = (hash, a)" by fastforce
  let ?i = "Shard hash"
  let ?c = "sc_shard sc ! ?i" and ?M = "shard_handles (Shard hash) M"
  have c: "nth_opt (sc_shard sc) ?i = Some ?c" "shard_inv ?i ?c (add_mset a ?M)"
    using cache_inv_shard [OF assms, of hash] by (simp_all add: ha)
  then have inv: "lru_inv ?c (add_mset a ?M)" by (simp only: shard_inv_def)
  from Release_spec [OF this] obtain c' where r: "LRUCache_Release a ?c = Some c'" "lru_inv c' ?M"
    "entries c' = entries ?c" "lc_capacity c' = lc_capacity ?c"
    "\<forall>b. b \<noteq> a \<or> b \<in> entries ?c \<or> b \<in># ?M \<longrightarrow> payload c' b = payload ?c b" by blast
  let ?sc = "sc\<lparr>sc_shard := (sc_shard sc)[?i := c']\<rparr>"
  have rel: "Cache_Release h sc = Some ?sc" using r(1) by (simp add: c(1) ha Cache_Release_def on_shard_def)
  have ce: "cached c' = cached ?c" by (rule cached_eq [OF inv r(2,3)]) (use r(5) in blast)
  have "shard_inv ?i c' ?M" by (rule shard_inv_step [OF c(2) r(2,4)]) (simp add: ce)
  moreover have "\<forall>j. j \<noteq> ?i \<longrightarrow> shard_handles j M = shard_handles j (add_mset h M)" by (simp add: ha)
  ultimately have inv': "cache_inv ?sc M" by (rule cache_inv_update [OF assms])
  have "cache_get ?sc = cache_get sc"
  proof
    fix k
    show "cache_get ?sc k = cache_get sc k" unfolding cache_get_update [OF assms] by (simp add: ce cache_get_def)
  qed
  moreover have "\<forall>h \<in># M. Cache_Value h ?sc = Cache_Value h sc"
    by (rule Cache_Value_update [OF assms inv']) (use r(5) in blast)
  ultimately show ?thesis using rel inv' by blast
qed

lemma Cache_Erase_step:
  assumes "cache_inv sc M"
  shows "\<exists>sc'. Cache_Erase key sc = Some sc' \<and> cache_inv sc' M \<and> cache_get sc' = (cache_get sc)(key := None) \<and>
     (\<forall>h \<in># M. Cache_Value h sc' = Cache_Value h sc)"
proof -
  let ?hash = "HashSlice key"
  let ?i = "Shard ?hash"
  let ?c = "sc_shard sc ! ?i" and ?M = "shard_handles (Shard (HashSlice key)) M"
  have c: "nth_opt (sc_shard sc) ?i = Some ?c" "shard_inv ?i ?c ?M" using cache_inv_shard [OF assms(1)] by blast+
  have inv: "lru_inv ?c ?M" using c(2) by (simp only: shard_inv_def)
  from Erase_step [OF this, of key ?hash] obtain c' where r: "LRUCache_Erase key ?hash ?c = Some c'" "lru_inv c' ?M"
    "cached c' = (cached ?c)((?hash, key) := None)" "\<forall>b \<in># ?M. payload c' b = payload ?c b" "lc_capacity c' = lc_capacity ?c"
    by blast
  let ?sc = "sc\<lparr>sc_shard := (sc_shard sc)[?i := c']\<rparr>"
  have rel: "Cache_Erase key sc = Some ?sc" using r(1) by (simp add: c(1) Cache_Erase_def on_shard_def Let_def)
  have "shard_inv ?i c' ?M" by (rule shard_inv_step [OF c(2) r(2,5)]) (simp add: r(3) map_le_def)
  then have inv': "cache_inv ?sc M" by (rule cache_inv_update [OF assms]) simp
  have "cache_get ?sc = (cache_get sc)(key := None)"
  proof
    fix k
    show "cache_get ?sc k = ((cache_get sc)(key := None)) k" unfolding cache_get_update [OF assms] by (simp add: r(3) cache_get_def)
  qed
  moreover have "\<forall>h \<in># M. Cache_Value h ?sc = Cache_Value h sc"
    by (rule Cache_Value_update [OF assms inv']) (use r(4) in blast)
  ultimately show ?thesis using rel inv' by blast
qed

text \<open>\<open>malloc\<close> finds an unused address as long as there is one.\<close>

definition allocates :: "('v lru_heap \<Rightarrow> nat) \<Rightarrow> bool" where
  "allocates malloc \<longleftrightarrow> (\<forall>heap. finite (dom heap) \<longrightarrow> heap (malloc heap) = None)"

lemma finite_heap: "lru_lists c M \<Longrightarrow> finite (dom (lc_heap c))"
proof -
  assume L: "lru_lists c M"
  have "dom (lc_heap c) \<subseteq> entries c \<union> set_mset M"
  proof
    fix a
    assume "a \<in> dom (lc_heap c)"
    then obtain h where "lc_heap c a = Some h" by blast
    moreover have "handle_ok c M a" using L by (simp only: lru_lists_def)
    ultimately show "a \<in> entries c \<union> set_mset M" by (simp add: handle_ok_def)
  qed
  then show ?thesis by (rule finite_subset) simp
qed

lemma Cache_Insert_step:
  assumes "cache_inv sc M" "card (dom (cache_get sc)) + 1 < 2 ^ 31" "allocates malloc"
  shows "\<exists>h sc'. co_Insert (LRUCacheOps malloc) key v n sc = Some (h, sc') \<and> cache_inv sc' (add_mset h M) \<and>
     cache_get sc' \<subseteq>\<^sub>m (cache_get sc)(key \<mapsto> v) \<and> cache_get sc' key = Some v \<and> Cache_Value h sc' = Some v \<and>
     (\<forall>h \<in># M. Cache_Value h sc' = Cache_Value h sc)"
proof -
  let ?hash = "HashSlice key"
  let ?i = "Shard ?hash"
  let ?c = "sc_shard sc ! ?i" and ?M = "shard_handles (Shard (HashSlice key)) M"
  have c: "nth_opt (sc_shard sc) ?i = Some ?c" "shard_inv ?i ?c ?M" using cache_inv_shard [OF assms(1)] by blast+
  have inv: "lru_inv ?c ?M" and cap: "0 < lc_capacity ?c" using c(2) by (simp_all only: shard_inv_def)
  let ?a = "malloc (lc_heap ?c)"
  have "lru_lists ?c ?M" using inv by (simp only: lru_inv_def)
  from finite_heap [OF this] have new: "lc_heap ?c ?a = None" using assms(3) by (simp add: allocates_def)
  have "card (entries ?c) + 1 < 2 ^ 31" using shard_entries [OF assms(1) Shard_less, of ?hash] assms(2) by simp
  from Insert_step [OF inv new cap this, of key ?hash v n] obtain c' where r: "LRUCache_Insert ?a key ?hash v n ?c = Some (?a, c')"
    "lru_inv c' (add_mset ?a ?M)" "cached c' \<subseteq>\<^sub>m (cached ?c)((?hash, key) \<mapsto> v)" "cached c' (?hash, key) = Some v"
    "\<forall>b \<in># ?M. payload c' b = payload ?c b" "payload c' ?a = Some ((?hash, key), v, n)" "lc_capacity c' = lc_capacity ?c" by blast
  let ?sc = "sc\<lparr>sc_shard := (sc_shard sc)[?i := c']\<rparr>" and ?h = "(?hash, ?a)"
  have ins: "co_Insert (LRUCacheOps malloc) key v n sc = Some (?h, ?sc)"
    using r(1) by (simp add: LRUCacheOps_def c(1) Cache_Insert_def on_shard_def Let_def)
  have d: "dom (cached c') \<subseteq> insert (?hash, key) (dom (cached ?c))" using map_le_implies_dom_le [OF r(3)] by simp
  have "\<forall>x \<in> dom (cached ?c). fst x = HashSlice (snd x) \<and> Shard (fst x) = ?i" using c(2) unfolding shard_inv_def by blast
  then have "\<forall>x \<in> insert (?hash, key) (dom (cached ?c)). fst x = HashSlice (snd x) \<and> Shard (fst x) = ?i"
    unfolding ball_simps by (intro conjI) (simp_all only: fst_conv snd_conv)
  then have d': "\<forall>x \<in> dom (cached c'). fst x = HashSlice (snd x) \<and> Shard (fst x) = ?i" using d by blast
  have "lru_inv c' (shard_handles ?i (add_mset ?h M))" "0 < lc_capacity c'" using cap r(2,7) by simp_all
  with d' have "shard_inv ?i c' (shard_handles ?i (add_mset ?h M))" unfolding shard_inv_def by blast
  then have inv': "cache_inv ?sc (add_mset ?h M)" by (rule cache_inv_update [OF assms(1)]) simp
  have get: "cache_get ?sc k = (if Shard (HashSlice k) = ?i then cached c' (HashSlice k, k) else cache_get sc k)" for k
    by (rule cache_get_update [OF assms(1)])
  have "cache_get ?sc \<subseteq>\<^sub>m (cache_get sc)(key \<mapsto> v)"
  proof -
    have "((cache_get sc)(key \<mapsto> v)) k = Some u" if "cache_get ?sc k = Some u" for k u
    proof (cases "Shard (HashSlice k) = ?i \<and> k \<noteq> key")
      case True
      then have "cached c' (HashSlice k, k) = Some u" using that get by simp
      then have "((cached ?c)((?hash, key) \<mapsto> v)) (HashSlice k, k) = Some u" using r(3) unfolding map_le_def by (metis domI)
      then show ?thesis using True by (simp add: cache_get_def)
    next
      case False
      then show ?thesis using that get r(4) by (auto split: if_splits)
    qed
    then show ?thesis by (fastforce simp: map_le_def dom_def)
  qed
  moreover have "cache_get ?sc key = Some v" using get r(4) by simp
  moreover have "Cache_Value ?h ?sc = Some v"
    using r(6) assms(1) Shard_less [of ?hash] by (simp add: Cache_Value_payload [OF inv']) (simp add: cache_inv_def)
  moreover have "\<forall>h \<in># M. Cache_Value h ?sc = Cache_Value h sc"
    by (rule Cache_Value_update [OF assms(1) inv']) (use r(5) in blast)
  ultimately show ?thesis using ins inv' by blast
qed

lemma LRUCacheOps_simps [simp]:
  "co_Lookup (LRUCacheOps malloc) = Cache_Lookup" "co_Release (LRUCacheOps malloc) = Cache_Release"
  "co_Value (LRUCacheOps malloc) = Cache_Value" "co_Erase (LRUCacheOps malloc) = Cache_Erase"
  "co_NewId (LRUCacheOps malloc) = Cache_NewId"
  by (simp_all add: LRUCacheOps_def)

lemma lru_block_cache: "allocates malloc \<Longrightarrow> block_cache (LRUCacheOps malloc) cache_inv cache_get"
proof
  fix c :: "'a ShardedLRUCache" and M key
  assume "cache_inv c M" "size M + 2 < 2 ^ 32"
  from Cache_Lookup_step [OF this, of key]
  show "\<exists>r c'. co_Lookup (LRUCacheOps malloc) key c = Some (r, c') \<and> cache_inv c' (M + mset_set (set_option r)) \<and>
      cache_get c' = cache_get c \<and>
      cache_get c key = (case r of None \<Rightarrow> None | Some h \<Rightarrow> co_Value (LRUCacheOps malloc) h c') \<and>
      (r \<noteq> None \<longrightarrow> cache_get c key \<noteq> None) \<and>
      (\<forall>h \<in># M. co_Value (LRUCacheOps malloc) h c' = co_Value (LRUCacheOps malloc) h c)"
    unfolding LRUCacheOps_simps by blast
next
  fix c :: "'a ShardedLRUCache" and M key v n
  assume "allocates malloc" "cache_inv c M" "card (dom (cache_get c)) + 1 < 2 ^ 31"
  from Cache_Insert_step [OF this(2,3,1), of key v n]
  show "\<exists>h c'. co_Insert (LRUCacheOps malloc) key v n c = Some (h, c') \<and> cache_inv c' (add_mset h M) \<and>
      cache_get c' \<subseteq>\<^sub>m (cache_get c)(key \<mapsto> v) \<and> co_Value (LRUCacheOps malloc) h c' = Some v \<and>
      (\<forall>h \<in># M. co_Value (LRUCacheOps malloc) h c' = co_Value (LRUCacheOps malloc) h c)"
    unfolding LRUCacheOps_simps by blast
next
  fix c :: "'a ShardedLRUCache" and M h
  assume "cache_inv c (add_mset h M)"
  from Cache_Release_step [OF this]
  show "\<exists>c'. co_Release (LRUCacheOps malloc) h c = Some c' \<and> cache_inv c' M \<and> cache_get c' = cache_get c \<and>
      (\<forall>h \<in># M. co_Value (LRUCacheOps malloc) h c' = co_Value (LRUCacheOps malloc) h c)"
    unfolding LRUCacheOps_simps by blast
qed (rule cache_inv_finite)

definition first_free :: "'v lru_heap \<Rightarrow> nat" where
  "first_free heap = (LEAST a. heap a = None)"

lemma first_free: "allocates first_free"
  unfolding allocates_def first_free_def
proof (intro allI impI)
  fix heap :: "'v lru_heap"
  assume "finite (dom heap)"
  then obtain a where "a \<notin> dom heap" using ex_new_if_finite [OF infinite_UNIV_nat] by blast
  then have "heap a = None" by (simp add: domIff)
  then show "heap (LEAST a. heap a = None) = None" by (rule LeastI)
qed

interpretation lru: block_cache "LRUCacheOps first_free" cache_inv cache_get
  by (rule lru_block_cache [OF first_free])

lemma prune_shards_spec:
  "\<forall>c \<in> set cs. \<exists>M. lru_inv c M \<Longrightarrow> \<exists>cs'. prune_shards cs = Some cs' \<and> length cs' = length cs \<and>
     (\<forall>i<length cs. \<forall>M. lru_inv (cs ! i) M \<longrightarrow> shrunk M (cs ! i) (cs' ! i) \<and> lc_lru (cs' ! i) = [])"
proof (induction cs)
  case (Cons c cs)
  then obtain cs' where cs': "prune_shards cs = Some cs'" "length cs' = length cs"
    "\<forall>i<length cs. \<forall>M. lru_inv (cs ! i) M \<longrightarrow> shrunk M (cs ! i) (cs' ! i) \<and> lc_lru (cs' ! i) = []" by auto
  obtain M0 where "lru_inv c M0" using Cons.prems by auto
  from Prune_spec [OF this] obtain c' where c': "LRUCache_Prune c = Some c'" by blast
  have c'': "shrunk M c c' \<and> lc_lru c' = []" if "lru_inv c M" for M using Prune_spec [OF that] c' by auto
  have "shrunk M ((c # cs) ! i) ((c' # cs') ! i) \<and> lc_lru ((c' # cs') ! i) = []"
    if "i < length (c # cs)" "lru_inv ((c # cs) ! i) M" for i M
    using that c'' cs'(2,3) by (cases i) simp_all
  then show ?case using cs'(1,2) c' by (intro exI [of _ "c' # cs'"]) simp
qed simp

lemma Cache_Prune_step:
  assumes "cache_inv sc M"
  shows "\<exists>sc'. Cache_Prune sc = Some sc' \<and> cache_inv sc' M \<and> cache_get sc' \<subseteq>\<^sub>m cache_get sc \<and>
     (\<forall>i<kNumShards. lc_lru (sc_shard sc' ! i) = [])"
proof -
  let ?cs = "sc_shard sc"
  have len: "length ?cs = kNumShards" and inv: "\<And>i. i < kNumShards \<Longrightarrow> shard_inv i (?cs ! i) (shard_handles i M)"
    using assms by (simp_all add: cache_inv_def)
  have "\<forall>c \<in> set ?cs. \<exists>M. lru_inv c M"
  proof
    fix c
    assume "c \<in> set ?cs"
    then obtain i where "i < kNumShards" "c = ?cs ! i" using len by (metis in_set_conv_nth)
    with inv show "\<exists>M. lru_inv c M" unfolding shard_inv_def by blast
  qed
  from prune_shards_spec [OF this] obtain cs' where cs': "prune_shards ?cs = Some cs'" "length cs' = length ?cs"
    "\<forall>i<length ?cs. \<forall>M. lru_inv (?cs ! i) M \<longrightarrow> shrunk M (?cs ! i) (cs' ! i) \<and> lc_lru (cs' ! i) = []" by blast
  have s: "shrunk (shard_handles i M) (?cs ! i) (cs' ! i)" "lc_lru (cs' ! i) = []" "lru_inv (?cs ! i) (shard_handles i M)"
    if "i < kNumShards" for i
    using inv [OF that] cs'(3) that unfolding shard_inv_def len by blast+
  have "cache_inv (sc\<lparr>sc_shard := cs'\<rparr>) M"
  proof -
    have "shard_inv i (cs' ! i) (shard_handles i M)" if "i < kNumShards" for i
      by (rule shard_inv_step [OF inv [OF that] _ _ shrunk_le [OF s(3,1) [OF that]]])
        (use s(1) [OF that] in \<open>simp_all only: shrunk_def\<close>)
    then show ?thesis using cs'(2) len by (simp add: cache_inv_def)
  qed
  moreover have "cache_get (sc\<lparr>sc_shard := cs'\<rparr>) \<subseteq>\<^sub>m cache_get sc"
  proof -
    have "cached (cs' ! Shard hash) \<subseteq>\<^sub>m cached (?cs ! Shard hash)" for hash using shrunk_le s(1,3) Shard_less by blast
    then show ?thesis by (simp add: map_le_def cache_get_def dom_def)
  qed
  moreover have "Cache_Prune sc = Some (sc\<lparr>sc_shard := cs'\<rparr>)" using cs'(1) by (simp add: Cache_Prune_def)
  ultimately show ?thesis using s(2) by (intro exI [of _ "sc\<lparr>sc_shard := cs'\<rparr>"]) simp
qed

section \<open>All that clients can do\<close>

lemma new_LRUCache_inv: "\<exists>c :: 'v LRUCache. new_LRUCache capacity = Some c \<and> lru_inv c {#} \<and> lc_capacity c = capacity \<and> cached c = Map.empty"
proof -
  obtain t where t: "new_HandleTable = Some t" "table_ok (Map.empty :: 'v lru_heap) t {}" using new_table by blast
  let ?c = "\<lparr>lc_capacity = capacity, lc_usage = 0, lc_lru = [], lc_in_use = [], lc_table = t,
    lc_heap = Map.empty, lc_deleted = []\<rparr> :: 'v LRUCache"
  have "lru_inv ?c {#}" using t(2) by (simp add: lru_inv_def lru_lists_def handle_ok_def)
  moreover have "cached ?c = Map.empty" by (simp add: cached_def fun_eq_iff)
  moreover have "new_LRUCache capacity = Some ?c" unfolding new_LRUCache_def t(1) by simp
  ultimately show ?thesis by (intro exI [of _ ?c]) simp
qed

lemma new_shards_spec:
  "\<exists>cs :: 'v LRUCache list. new_shards n capacity = Some cs \<and> length cs = n \<and>
     (\<forall>c \<in> set cs. lru_inv c {#} \<and> lc_capacity c = capacity \<and> cached c = Map.empty)"
proof (induction n)
  case (Suc n)
  then obtain cs :: "'v LRUCache list" where cs: "new_shards n capacity = Some cs" "length cs = n"
    "\<forall>c \<in> set cs. lru_inv c {#} \<and> lc_capacity c = capacity \<and> cached c = Map.empty" by blast
  obtain c :: "'v LRUCache" where "new_LRUCache capacity = Some c" "lru_inv c {#}" "lc_capacity c = capacity" "cached c = Map.empty"
    using new_LRUCache_inv by blast
  then show ?case using cs by (intro exI [of _ "c # cs"]) simp
qed simp

definition shard_capacity :: "64 word \<Rightarrow> 64 word" where
  "shard_capacity capacity = (capacity + of_nat (kNumShards - 1)) div of_nat kNumShards"

lemma NewLRUCache_inv:
  "0 < shard_capacity capacity \<Longrightarrow>
   \<exists>sc :: 'v ShardedLRUCache. NewLRUCache capacity = Some sc \<and> cache_inv sc {#} \<and> cache_get sc = Map.empty"
proof -
  assume pos: "0 < shard_capacity capacity"
  obtain cs :: "'v LRUCache list" where cs: "new_shards kNumShards (shard_capacity capacity) = Some cs" "length cs = kNumShards"
    "\<forall>c \<in> set cs. lru_inv c {#} \<and> lc_capacity c = shard_capacity capacity \<and> cached c = Map.empty"
    using new_shards_spec by blast
  let ?sc = "\<lparr>sc_shard = cs, sc_last_id = 0\<rparr>"
  have c: "lru_inv (cs ! i) {#}" "lc_capacity (cs ! i) = shard_capacity capacity" "cached (cs ! i) = Map.empty"
    if "i < kNumShards" for i using cs(2,3) that by simp_all
  have "cache_inv ?sc {#}" using cs(2) c pos by (simp add: cache_inv_def shard_inv_def)
  moreover have "cache_get ?sc = Map.empty" using c(3) Shard_less by (simp add: cache_get_def fun_eq_iff)
  ultimately show ?thesis using cs(1) by (simp add: NewLRUCache_def shard_capacity_def)
qed

text \<open>Nothing is in a new cache.\<close>

lemma empty_cache:
  assumes "lru_inv c {#}" "cached c = Map.empty"
  shows "entries c = {}" "lc_usage c = 0" "lc_heap c a = None"
proof -
  have "card (entries c) = 0" using finite_cached [OF assms(1)] assms(2) by simp
  then show e: "entries c = {}" by simp
  have L: "lru_lists c {#}" using assms(1) by (simp only: lru_inv_def)
  then show "lc_usage c = 0" unfolding lru_lists_def e by simp
  have "handle_ok c {#} a" using L by (simp only: lru_lists_def)
  moreover have "a \<notin> entries c" unfolding e by simp
  ultimately show "lc_heap c a = None" unfolding handle_ok_def by (cases "lc_heap c a") auto
qed

text \<open>What a client of a cache with capacity 0 meets.\<close>

lemma capacity_zero_handle:
  "\<exists>(sc :: 'v ShardedLRUCache) h sc'. NewLRUCache 0 = Some sc \<and> co_Insert (LRUCacheOps malloc) key v n sc = Some (h, sc') \<and>
     Cache_Release h sc' = None"
proof -
  obtain cs :: "'v LRUCache list" where cs: "new_shards kNumShards 0 = Some cs" "length cs = kNumShards"
    "\<forall>c \<in> set cs. lru_inv c {#} \<and> lc_capacity c = 0 \<and> cached c = Map.empty"
    using new_shards_spec by blast
  let ?hash = "HashSlice key" and ?sc = "\<lparr>sc_shard = cs, sc_last_id = 0\<rparr>"
  let ?c = "cs ! Shard ?hash"
  let ?a = "malloc (lc_heap ?c)"
  have "?c \<in> set cs" and nth: "nth_opt cs (Shard ?hash) = Some ?c"
    using cs(2) Shard_less [of ?hash] by (simp_all add: nth_opt_def)
  with cs(3) have c: "lc_capacity ?c = 0" "lc_usage ?c = 0" using empty_cache(2) by blast+
  obtain c' where c': "LRUCache_Insert ?a key ?hash v n ?c = Some (?a, c')" "LRUCache_Release ?a c' = None"
    using capacity_zero_step [OF c] by blast
  have nth': "nth_opt (cs[Shard ?hash := c']) (Shard ?hash) = Some c'"
    using cs(2) Shard_less [of ?hash] by (simp add: nth_opt_def)
  have "Cache_Release (?hash, ?a) (?sc\<lparr>sc_shard := cs[Shard ?hash := c']\<rparr>) = None"
    by (simp add: Cache_Release_def on_shard_def nth' c'(2))
  moreover have "co_Insert (LRUCacheOps malloc) key v n ?sc = Some ((?hash, ?a), ?sc\<lparr>sc_shard := cs[Shard ?hash := c']\<rparr>)"
    by (simp add: LRUCacheOps_def Cache_Insert_def on_shard_def Let_def nth c'(1))
  moreover have "(0 + of_nat (kNumShards - 1)) div of_nat kNumShards = (0 :: 64 word)"
    by (simp add: kNumShards_def kNumShardBits_def)
  then have "NewLRUCache 0 = Some ?sc" using cs(1) unfolding NewLRUCache_def by simp
  ultimately show ?thesis by blast
qed

text \<open>The states that clients can bring a cache to, and the handles they then hold.\<close>

inductive cache_reach :: "('v lru_heap \<Rightarrow> nat) \<Rightarrow> 64 word \<Rightarrow> 'v ShardedLRUCache \<Rightarrow> cache_handle multiset \<Rightarrow> bool"
  for malloc :: "'v lru_heap \<Rightarrow> nat" and capacity :: "64 word" where
  new: "NewLRUCache capacity = Some sc \<Longrightarrow> cache_reach malloc capacity sc {#}"
| lookup: "cache_reach malloc capacity sc M \<Longrightarrow> size M + 2 < 2 ^ 32 \<Longrightarrow> Cache_Lookup key sc = Some (r, sc') \<Longrightarrow>
    cache_reach malloc capacity sc' (M + mset_set (set_option r))"
| insert: "cache_reach malloc capacity sc M \<Longrightarrow> card (dom (cache_get sc)) + 1 < 2 ^ 31 \<Longrightarrow>
    co_Insert (LRUCacheOps malloc) key v n sc = Some (h, sc') \<Longrightarrow> cache_reach malloc capacity sc' (add_mset h M)"
| release: "cache_reach malloc capacity sc (add_mset h M) \<Longrightarrow> Cache_Release h sc = Some sc' \<Longrightarrow> cache_reach malloc capacity sc' M"
| erase: "cache_reach malloc capacity sc M \<Longrightarrow> Cache_Erase key sc = Some sc' \<Longrightarrow> cache_reach malloc capacity sc' M"
| prune: "cache_reach malloc capacity sc M \<Longrightarrow> Cache_Prune sc = Some sc' \<Longrightarrow> cache_reach malloc capacity sc' M"
| new_id: "cache_reach malloc capacity sc M \<Longrightarrow> Cache_NewId sc = (i, sc') \<Longrightarrow> cache_reach malloc capacity sc' M"

lemma reach_inv:
  assumes "cache_reach malloc capacity sc M" "allocates malloc" "0 < shard_capacity capacity"
  shows "cache_inv sc M"
  using assms(1)
proof induction
  case (new sc)
  then show ?case using NewLRUCache_inv [OF assms(3), where 'v = 'a] by auto
next
  case (lookup sc M key r sc')
  then show ?case using Cache_Lookup_step [OF lookup.IH lookup.hyps(2), of key] by fastforce
next
  case (insert sc M key v n h sc')
  then show ?case using Cache_Insert_step [OF insert.IH insert.hyps(2) assms(2), of key v n] by fastforce
next
  case (release sc h M sc')
  then show ?case using Cache_Release_step by fastforce
next
  case (erase sc M key sc')
  then show ?case using Cache_Erase_step [OF erase.IH, of key] by fastforce
next
  case (prune sc M sc')
  then show ?case using Cache_Prune_step by fastforce
next
  case (new_id sc M i sc')
  then show ?case by (auto simp: Cache_NewId_def Let_def cache_inv_def)
qed

end
