(* ===== verification/LdbTableProof.thy ===== *)
theory LdbTableProof
  imports LdbTableBuilderProof LdbTable LdbCacheShards
begin

text \<open>
  A table file opens (\<open>opened\<close>), an iterator over the open table is one over its pairs, and
  \<open>InternalGet\<close> finds every key, with or without a filter and a block cache: the locales
  \<open>two_level\<close>, \<open>table_order\<close> and \<open>block_cache\<close> are put together here.
\<close>

section \<open>Handles and blocks\<close>

lemma DecodeFrom_handle [simp]: "BlockHandle_DecodeFrom h0 (handle_bytes h) = (Status_OK, h, [])"
  using BlockHandle_DecodeFrom_bytes [of h0 h "[]"] by simp

lemma handle_bytes_inj: "handle_bytes h = handle_bytes h' \<Longrightarrow> h = h'"
  by (drule arg_cong [of _ _ "BlockHandle_DecodeFrom new_BlockHandle"]) simp

definition opens ::
  "(byte list \<Rightarrow> bool) \<Rightarrow> (byte list \<Rightarrow> byte list \<Rightarrow> int) \<Rightarrow> Block \<Rightarrow> pair list \<Rightarrow> bool" where
  "opens K cmp bl kvs \<longleftrightarrow> (\<exists>it. Block_NewIterator bl = Some (Inr it) \<and> block_at K cmp kvs it (length kvs))"

lemma holds_opens: "holds_pairs K cmp raw kvs \<longleftrightarrow> length raw < 2 ^ 32 \<and> (\<exists>bl. new_Block raw = Some bl \<and> opens K cmp bl kvs)"
  by (auto simp: holds_pairs_def opens_def)

text \<open>The pairs of the block that a handle's bytes name.\<close>

definition block_pairs :: "blocks \<Rightarrow> byte list \<Rightarrow> pair list" where
  "block_pairs done hb = (case find (\<lambda>b. handle_bytes (snd b) = hb) done of None \<Rightarrow> [] | Some b \<Rightarrow> fst b)"

lemma block_pairs:
  assumes "distinct (map (\<lambda>b. bh_offset (snd b)) done)" "b \<in> set done"
  shows "block_pairs done (handle_bytes (snd b)) = fst b"
proof (cases "find (\<lambda>b'. handle_bytes (snd b') = handle_bytes (snd b)) done")
  case None
  then have False using assms(2) unfolding find_None_iff by blast
  then show ?thesis ..
next
  case (Some b')
  then have "b' \<in> set done" "handle_bytes (snd b') = handle_bytes (snd b)" unfolding find_Some_iff by auto
  then have "b' \<in> set done" "snd b' = snd b" by (simp_all add: handle_bytes_inj)
  then have "b' = b" using assms by (auto simp: distinct_map dest: inj_onD [of _ _ b' b])
  then show ?thesis using Some by (simp add: block_pairs_def)
qed

section \<open>Open tables\<close>

definition opened ::
  "(byte list \<Rightarrow> bool) \<Rightarrow> (byte list \<Rightarrow> byte list \<Rightarrow> int) \<Rightarrow> Snappy \<Rightarrow> Table \<Rightarrow> byte list \<Rightarrow> blocks \<Rightarrow> pair list \<Rightarrow> bool" where
  "opened K cmp snappy t F done idx \<longleftrightarrow> readable (tr_file t) F \<and> snappy_ok snappy \<and>
     cmp_Compare (opt_comparator (tr_options t)) = cmp \<and>
     (\<forall>b \<in> set done. block_stored K cmp snappy F b) \<and> distinct (map (\<lambda>b. bh_offset (snd b)) done) \<and>
     length idx = length done \<and> index_ok K cmp idx done [] \<and> opens K cmp (tr_index_block t) idx \<and>
     (\<forall>r p. tr_filter t = Some r \<longrightarrow> opt_filter_policy (tr_options t) = Some p \<longrightarrow> (\<forall>b \<in> set done. \<forall>q \<in> set (fst b).
        FilterBlock_KeyMayMatch (fp_KeyMayMatch p) r (bh_offset (snd b)) (fst q) = Some True))"

context block_order
begin

lemma block_iterator_ops: "iterator_ops (block_at K cmp) (BlockIterOps cmp) K cmp"
  using block_iterator by (simp add: BlockIterOps_def)

lemma empty_iterator_ops: "iterator_ops (empty_at (block_at K cmp)) (block_ops cmp) K cmp"
  by (rule EmptyIterator_iterator [OF block_iterator_ops])

text \<open>The pairs of a block are in order, and the index separates the blocks.\<close>

lemma opens_pairs: "opens K cmp bl kvs \<Longrightarrow> sorted_wrt (\<lambda>x y. cmp (fst x) (fst y) < 0) kvs \<and> (\<forall>p \<in> set kvs. K (fst p))"
  by (auto simp: opens_def block_at_def keys_sorted_def sorted_wrt_iff_nth_less) (auto simp: pairs_of_def)

lemma last_above:
  assumes "sorted_wrt (\<lambda>x y. cmp (fst x) (fst y) < 0) kvs" "\<forall>p \<in> set kvs. K (fst p)" "p \<in> set kvs"
  shows "cmp (fst p) (fst (last kvs)) \<le> 0"
proof -
  obtain ys y where "kvs = ys @ [y]" using assms(3) by (cases kvs rule: rev_exhaust) auto
  then show ?thesis using assms cmp_refl by (auto simp: sorted_wrt_append less_imp_le)
qed

lemma opened_separates:
  assumes "opened K cmp snappy t F done idx"
  shows "index_separates K cmp (block_pairs done) idx" "all_pairs (block_pairs done) idx = pairs_in done"
proof -
  have d: "\<forall>b \<in> set done. block_stored K cmp snappy F b" "distinct (map (\<lambda>b. bh_offset (snd b)) done)"
    "length idx = length done" "index_ok K cmp idx done []" using assms by (simp_all add: opened_def)
  have e: "index_entry K cmp (idx ! i) (done ! i) (pairs_in (drop (Suc i) done))" if "i < length idx" for i
    using d(4) that by (simp add: index_ok_def)
  have b: "block_pairs done (snd (idx ! i)) = fst (done ! i)" if "i < length idx" for i
    using block_pairs [OF d(2), of "done ! i"] e [OF that] that d(3) by (simp add: index_entry_def)
  have s: "sorted_wrt (\<lambda>x y. cmp (fst x) (fst y) < 0) (fst (done ! i))" "\<forall>p \<in> set (fst (done ! i)). K (fst p)" "fst (done ! i) \<noteq> []"
    if "i < length idx" for i
    using d(1,3) that opens_pairs unfolding block_stored_def holds_opens by (metis nth_mem)+
  have first: "K (fst (idx ! i)) \<and> (\<forall>q \<in> set (block_pairs done (snd (idx ! i))). K (fst q) \<and> cmp (fst q) (fst (idx ! i)) \<le> 0)"
    if i: "i < length idx" for i
  proof (intro conjI ballI)
    show k: "K (fst (idx ! i))" using e [OF i] by (simp add: index_entry_def)
    fix q
    assume "q \<in> set (block_pairs done (snd (idx ! i)))"
    then have q: "q \<in> set (fst (done ! i))" using b [OF i] by simp
    then show "K (fst q)" using s(2) [OF i] by blast
    moreover have "cmp (fst (last (fst (done ! i)))) (fst (idx ! i)) \<le> 0" using e [OF i] by (simp add: index_entry_def)
    moreover have "K (fst (last (fst (done ! i))))" using s(2,3) [OF i] by simp
    ultimately show "cmp (fst q) (fst (idx ! i)) \<le> 0" using last_above [OF s(1,2) [OF i] q] k cmp_trans by blast
  qed
  have later: "cmp (fst (idx ! i)) (fst q) < 0" if ij: "j < length idx" "i < j" and q: "q \<in> set (block_pairs done (snd (idx ! j)))" for i j q
  proof -
    have "done ! j \<in> set (drop (Suc i) done)"
      using ij d(3) by (auto simp: in_set_conv_nth intro!: exI [of _ "j - Suc i"])
    then have "q \<in> set (pairs_in (drop (Suc i) done))" using q b [OF ij(1)] by auto
    moreover have "\<forall>p \<in> set (pairs_in (drop (Suc i) done)). cmp (fst (idx ! i)) (fst p) < 0"
      using e [of i] ij unfolding index_entry_def by simp
    ultimately show ?thesis by blast
  qed
  show "index_separates K cmp (block_pairs done) idx"
    unfolding index_separates_def using first later by blast
  have "map (block_pairs done \<circ> snd) idx = map fst done"
    by (rule nth_equalityI) (use b d(3) in simp_all)
  then show "all_pairs (block_pairs done) idx = pairs_in done" by (simp add: all_pairs_def)
qed

end

text \<open>What the file holds of a stored block opens.\<close>

lemma read_stored_block:
  assumes "block_stored K cmp snappy F b" "readable file F" "snappy_ok snappy"
  shows "\<exists>c bl. ReadBlock snappy file verify (snd b) = Some (Status_OK, c) \<and> new_Block (bc_data c) = Some bl \<and> opens K cmp bl (fst b)"
proof -
  obtain raw bl where r: "stored_at snappy F (snd b) raw" "length raw < 2 ^ 32" "new_Block raw = Some bl" "opens K cmp bl (fst b)"
    using assms(1) unfolding block_stored_def holds_opens by blast
  from ReadBlock_stored [OF r(1) assms(2,3) r(2)] r(3,4) show ?thesis by blast
qed

lemma read_filter:
  assumes "stored_at no_snappy F fh data" "filter_covers p done data" "readable (tr_file t) F" "length F < 2 ^ 32"
  shows "\<exists>r. ReadFilter snappy (handle_bytes fh) t = Some (t\<lparr>tr_filter := Some r\<rparr>) \<and>
     (\<forall>b \<in> set done. \<forall>q \<in> set (fst b). FilterBlock_KeyMayMatch (fp_KeyMayMatch p) r (bh_offset (snd b)) (fst q) = Some True)"
proof -
  obtain c where c: "ReadBlock snappy (tr_file t) (opt_paranoid_checks (tr_options t)) fh = Some (Status_OK, c)" "bc_data c = data"
    using ReadBlock_uncompressed(1) [OF assms(1,3)] by blast
  have "length data < 2 ^ 32" using ReadBlock_uncompressed(2) [OF assms(1,3)] assms(4) by simp
  then obtain r where "new_FilterBlockReader data = Some r"
    "\<forall>b \<in> set done. \<forall>q \<in> set (fst b). FilterBlock_KeyMayMatch (fp_KeyMayMatch p) r (bh_offset (snd b)) (fst q) = Some True"
    using assms(2) by (auto simp: filter_covers_def)
  moreover from this have "ReadFilter snappy (handle_bytes fh) t = Some (t\<lparr>tr_filter := Some r\<rparr>)"
    using c by (simp add: ReadFilter_def)
  ultimately show ?thesis by blast
qed

lemma read_meta:
  assumes "\<forall>p. opt_filter_policy (tr_options t) = Some p \<longrightarrow> filter_reached snappy F p done (ft_metaindex_handle footer)"
    "readable (tr_file t) F" "length F < 2 ^ 32" "snappy_ok snappy" "tr_filter t = None"
  shows "\<exists>f. ReadMeta snappy footer t = Some (t\<lparr>tr_filter := f\<rparr>) \<and>
     (\<forall>r p. f = Some r \<longrightarrow> opt_filter_policy (tr_options t) = Some p \<longrightarrow> (\<forall>b \<in> set done. \<forall>q \<in> set (fst b).
        FilterBlock_KeyMayMatch (fp_KeyMayMatch p) r (bh_offset (snd b)) (fst q) = Some True))"
proof (cases "opt_filter_policy (tr_options t)")
  case None
  then show ?thesis using assms(5) by (intro exI [of _ None]) (simp add: ReadMeta_def)
next
  case (Some p)
  then obtain rawm fh data where m: "stored_at snappy F (ft_metaindex_handle footer) rawm"
    "holds_pairs (\<lambda>_. True) slice_compare rawm [(filter_key p, handle_bytes fh)]"
    "stored_at no_snappy F fh data" "filter_covers p done data"
    using assms(1) by (auto simp: filter_reached_def)
  have "length rawm < 2 ^ 32" using m(2) by (simp only: holds_pairs_def)
  from ReadBlock_stored [OF m(1) assms(2,4) this] obtain c where
    c: "ReadBlock snappy (tr_file t) (opt_paranoid_checks (tr_options t)) (ft_metaindex_handle footer) = Some (Status_OK, c)"
    "bc_data c = rawm" by blast
  obtain bl it where it: "new_Block rawm = Some bl" "Block_NewIterator bl = Some (Inr it)"
    "block_at (\<lambda>_. True) slice_compare [(filter_key p, handle_bytes fh)] it 1" using m(2) by (auto simp: holds_pairs_def)
  note ops = bytewise_block.empty_iterator_ops
  have "empty_at (block_at (\<lambda>_. True) slice_compare) [(filter_key p, handle_bytes fh)] (Inr it) 1" using it(3) by simp
  from iterator.at_seek [OF ops this, of "filter_key p"] obtain it' where
    it': "it_Seek (block_ops slice_compare) (filter_key p) (Inr it) = Some it'"
    "empty_at (block_at (\<lambda>_. True) slice_compare) [(filter_key p, handle_bytes fh)] it' 0"
    by (auto simp: seek_index_def bytewise.cmp_refl)
  have at: "it_Valid (block_ops slice_compare) it'" "it_key (block_ops slice_compare) it' = Some (filter_key p)"
    "it_value (block_ops slice_compare) it' = Some (handle_bytes fh)"
    using iterator.at_valid [OF ops it'(2)] iterator.at_pair [OF ops it'(2)] by simp_all
  have k: "bytes_of ''filter.'' @ fp_Name p = filter_key p" by (simp only: filter_key_def)
  have "ReadMeta snappy footer t = ReadFilter snappy (handle_bytes fh) t"
    unfolding ReadMeta_def Let_def Some option.case k using c it(1,2) it'(1) at by simp
  moreover obtain r where "ReadFilter snappy (handle_bytes fh) t = Some (t\<lparr>tr_filter := Some r\<rparr>)"
    "\<forall>b \<in> set done. \<forall>q \<in> set (fst b). FilterBlock_KeyMayMatch (fp_KeyMayMatch p) r (bh_offset (snd b)) (fst q) = Some True"
    using read_filter [OF m(3,4) assms(2,3)] by blast
  ultimately show ?thesis using Some by (intro exI [of _ "Some r"]) simp
qed

text \<open>A table file opens.\<close>

lemma open_table:
  assumes "table_file K cmp snappy opts F kvs" "readable file F" "length F < 2 ^ 32" "snappy_ok snappy"
    "cmp_Compare (opt_comparator opts) = cmp"
  shows "\<exists>t c' done idx. Table_Open snappy cops opts file (of_nat (length F)) c = Some (Status_OK, Some t, c') \<and>
     opened K cmp snappy t F done idx \<and> kvs = pairs_in done \<and>
     (tr_cache_id t, c') = (case cops of None \<Rightarrow> (0, c) | Some ops \<Rightarrow> co_NewId ops c)"
proof -
  obtain "done" idx rawi meta index before where f: "kvs = pairs_in done"
    "F = before @ footer_bytes \<lparr>ft_metaindex_handle = meta, ft_index_handle = index\<rparr>"
    "\<forall>b \<in> set done. block_stored K cmp snappy F b" "distinct (map (\<lambda>b. bh_offset (snd b)) done)"
    "length idx = length done" "index_ok K cmp idx done []" "stored_at snappy F index rawi" "holds_pairs K cmp rawi idx"
    "\<forall>p. opt_filter_policy opts = Some p \<longrightarrow> filter_reached snappy F p done meta"
    using assms(1) by (auto simp: table_file_def)
  let ?footer = "\<lparr>ft_metaindex_handle = meta, ft_index_handle = index\<rparr>"
  have l: "length F = length before + 48" using f(2) by simp
  have sz: "unat (of_nat (length F) :: 64 word) = length F" using assms(3) by (intro unat_of_nat_64) simp
  have "of_nat (length F) - of_nat kEncodedLength = (of_nat (length before) :: 64 word)"
    using l by (simp add: kEncodedLength_def kMaxEncodedLength_def)
  moreover have "unat (of_nat (length before) :: 64 word) = length before" "unat (48 :: 64 word) = 48"
    using assms(3) l by (simp_all add: unat_of_nat_64)
  moreover have "(of_nat kEncodedLength :: 64 word) = 48" by (simp add: kEncodedLength_def kMaxEncodedLength_def)
  ultimately obtain scratch where
    read: "RandomAccessFile_Read file (of_nat (length F) - of_nat kEncodedLength) (of_nat kEncodedLength) =
      Some (Status_OK, footer_bytes ?footer, scratch)"
    using readable_read [OF assms(2), of "of_nat (length before)" 48] l f(2) by auto
  have foot: "Footer_DecodeFrom new_Footer (footer_bytes ?footer) = Some (Status_OK, ?footer, [])"
    using Footer_DecodeFrom_bytes [of new_Footer ?footer "[]"] by simp
  have hi: "length rawi < 2 ^ 32" using f(8) by (simp only: holds_pairs_def)
  obtain bl where bl: "new_Block rawi = Some bl" "opens K cmp bl idx" using f(8) unfolding holds_opens by blast
  obtain block where block: "ReadBlock snappy file (opt_paranoid_checks opts) index = Some (Status_OK, block)" "bc_data block = rawi"
    using ReadBlock_stored [OF f(7) assms(2,4) hi] by blast
  obtain id c' where id: "(case cops of None \<Rightarrow> (0, c) | Some ops \<Rightarrow> co_NewId ops c) = (id, c')" by fastforce
  let ?t = "\<lparr>tr_options = opts, tr_file = file, tr_cache_id = id, tr_filter = None, tr_metaindex_handle = meta,
    tr_index_block = bl\<rparr>"
  obtain fl where fl: "ReadMeta snappy ?footer ?t = Some (?t\<lparr>tr_filter := fl\<rparr>)"
    "\<forall>r p. fl = Some r \<longrightarrow> opt_filter_policy (tr_options ?t) = Some p \<longrightarrow> (\<forall>b \<in> set done. \<forall>q \<in> set (fst b).
        FilterBlock_KeyMayMatch (fp_KeyMayMatch p) r (bh_offset (snd b)) (fst q) = Some True)"
    using read_meta [of ?t snappy F "done" ?footer] f(9) assms(2-4) by auto
  have "opened K cmp snappy (?t\<lparr>tr_filter := fl\<rparr>) F done idx"
    unfolding opened_def using assms(2,4,5) f(3-6) bl(2) fl(2) by simp
  moreover have "Table_Open snappy cops opts file (of_nat (length F)) c = Some (Status_OK, Some (?t\<lparr>tr_filter := fl\<rparr>), c')"
    unfolding Table_Open_def
    by (simp add: sz read foot block bl(1) id) (use l fl(1) in \<open>simp add: kEncodedLength_def kMaxEncodedLength_def\<close>)
  ultimately show ?thesis using f(1) id by (intro exI [of _ "?t\<lparr>tr_filter := fl\<rparr>"] exI [of _ c'] exI [of _ "done"] exI [of _ idx]) simp
qed

section \<open>Blocks through the cache\<close>

fun handle_of :: "'h block_cleanup \<Rightarrow> 'h multiset" where
  "handle_of (ReleaseBlock h) = {#h#}"
| "handle_of _ = {#}"

definition handles_of :: "'h block_cleanup multiset \<Rightarrow> 'h multiset" where
  "handles_of M = \<Sum>\<^sub># (image_mset handle_of M)"

lemma handles_of_simps [simp]: "handles_of {#} = {#}" "handles_of (add_mset r M) = handle_of r + handles_of M"
  by (simp_all add: handles_of_def)

lemma size_handles_of: "size (handles_of M) \<le> size M"
proof (induction M)
  case (add r M)
  then show ?case by (cases r) simp_all
qed simp

text \<open>The cache holds nothing wrong for this table, and has room for its blocks.\<close>

definition cache_content ::
  "(byte list \<Rightarrow> bool) \<Rightarrow> (byte list \<Rightarrow> byte list \<Rightarrow> int) \<Rightarrow> Table \<Rightarrow> blocks \<Rightarrow> (byte list \<Rightarrow> Block option) \<Rightarrow> bool" where
  "cache_content K cmp t done g \<longleftrightarrow>
     (\<forall>off bl. g (block_cache_key t off) = Some bl \<longrightarrow> (\<exists>b \<in> set done. bh_offset (snd b) = off \<and> opens K cmp bl (fst b))) \<and>
     finite (dom g) \<and> card (dom g \<union> (\<lambda>b. block_cache_key t (bh_offset (snd b))) ` set done) + 1 < 2 ^ 31"

lemma block_cache_key_inj: "block_cache_key t off = block_cache_key t off' \<Longrightarrow> off = off'"
  by (drule arg_cong [of _ _ "\<lambda>x. DecodeFixed64 (drop 8 x)"]) (simp add: block_cache_key_def)

lemma cache_content_insert:
  assumes "cache_content K cmp t done g" "g' \<subseteq>\<^sub>m g(block_cache_key t (bh_offset (snd b)) \<mapsto> bl)" "b \<in> set done" "opens K cmp bl (fst b)"
  shows "cache_content K cmp t done g'"
proof -
  let ?keys = "(\<lambda>b. block_cache_key t (bh_offset (snd b))) ` set done"
  have sub: "dom g' \<subseteq> insert (block_cache_key t (bh_offset (snd b))) (dom g)" using map_le_implies_dom_le [OF assms(2)] by simp
  have fin: "finite (dom g)" "card (dom g \<union> ?keys) + 1 < 2 ^ 31" using assms(1) by (simp_all only: cache_content_def)
  have "dom g' \<union> ?keys \<subseteq> dom g \<union> ?keys" using sub assms(3) by blast
  then have "card (dom g' \<union> ?keys) \<le> card (dom g \<union> ?keys)" using fin(1) by (intro card_mono) simp_all
  moreover have "finite (dom g')" using finite_subset [OF sub] fin(1) by simp
  moreover have "\<exists>b \<in> set done. bh_offset (snd b) = off \<and> opens K cmp bl' (fst b)" if "g' (block_cache_key t off) = Some bl'" for off bl'
  proof -
    have "(g(block_cache_key t (bh_offset (snd b)) \<mapsto> bl)) (block_cache_key t off) = Some bl'"
      using assms(2) that unfolding map_le_def by (metis domI)
    then show ?thesis using assms(1,3,4) block_cache_key_inj unfolding cache_content_def by (auto split: if_splits)
  qed
  ultimately show ?thesis using fin(2) by (simp add: cache_content_def)
qed

definition cache_ready ::
  "(byte list \<Rightarrow> bool) \<Rightarrow> (byte list \<Rightarrow> byte list \<Rightarrow> int) \<Rightarrow> ('c, 'h, Block) CacheOps option \<Rightarrow>
   ('c \<Rightarrow> 'h multiset \<Rightarrow> bool) \<Rightarrow> ('c \<Rightarrow> byte list \<Rightarrow> Block option) \<Rightarrow> Table \<Rightarrow> blocks \<Rightarrow> 'h multiset \<Rightarrow>
   'c \<Rightarrow> 'h block_cleanup multiset \<Rightarrow> bool" where
  "cache_ready K cmp cops cinv get t done M0 c M \<longleftrightarrow>
     (case cops of
        None \<Rightarrow> handles_of M = {#}
      | Some ops \<Rightarrow> block_cache ops cinv get \<and> cinv c (M0 + handles_of M) \<and> size M0 + 4 < 2 ^ 32 \<and> cache_content K cmp t done (get c))"

lemma run_cleanup_ready:
  assumes "cache_ready K cmp cops cinv get t done M0 c (add_mset r M)"
  shows "\<exists>c'. run_cleanup cops r c = Some c' \<and> cache_ready K cmp cops cinv get t done M0 c' M"
proof (cases r)
  case (ReleaseBlock h)
  then obtain ops where ops: "cops = Some ops" "block_cache ops cinv get" "cinv c (add_mset h (M0 + handles_of M))" "size M0 + 4 < 2 ^ 32"
    "cache_content K cmp t done (get c)"
    using assms by (auto simp: cache_ready_def split: option.splits)
  from block_cache.release [OF ops(2,3)] obtain c' where "co_Release ops h c = Some c'" "cinv c' (M0 + handles_of M)" "get c' = get c"
    by blast
  then show ?thesis using ops ReleaseBlock by (simp add: cache_ready_def)
qed (use assms in \<open>auto simp: cache_ready_def split: option.splits\<close>)

context block_order
begin

lemma read_block_ready:
  assumes "opened K cmp snappy t F done idx" "cache_ready K cmp cops cinv get t done M0 c M" "size M \<le> 1" "b \<in> set done"
  shows "\<exists>bl h c'. read_block snappy cops t ro (snd b) c = Some (Status_OK, Some bl, h, c') \<and> opens K cmp bl (fst b) \<and>
     cache_ready K cmp cops cinv get t done M0 c' (add_mset (case h of None \<Rightarrow> DeleteBlock | Some h \<Rightarrow> ReleaseBlock h) M)"
proof -
  have st: "block_stored K cmp snappy F b" "readable (tr_file t) F" "snappy_ok snappy" "distinct (map (\<lambda>b. bh_offset (snd b)) done)"
    using assms(1,4) by (simp_all add: opened_def)
  obtain bc bl where rb: "ReadBlock snappy (tr_file t) (ro_verify_checksums ro) (snd b) = Some (Status_OK, bc)"
    "new_Block (bc_data bc) = Some bl" "opens K cmp bl (fst b)" using read_stored_block [OF st(1-3)] by blast
  show ?thesis
  proof (cases cops)
    case None
    then have "handle_of DeleteBlock + handles_of M = {#}" using assms(2) by (simp add: cache_ready_def)
    with None rb show ?thesis by (simp add: read_block_def cache_ready_def)
  next
    case (Some ops)
    have r: "block_cache ops cinv get" "cinv c (M0 + handles_of M)" "size M0 + 4 < 2 ^ 32" "cache_content K cmp t done (get c)"
      using assms(2) Some by (simp_all add: cache_ready_def)
    let ?key = "block_cache_key t (bh_offset (snd b))"
    have sz: "size (M0 + handles_of M) + 2 < 2 ^ 32" using r(3) size_handles_of [of M] assms(3) by simp
    obtain h c1 where look: "co_Lookup ops ?key c = Some (h, c1)" "cinv c1 (M0 + handles_of M + mset_set (set_option h))" "get c1 = get c"
      "get c ?key = (case h of None \<Rightarrow> None | Some h \<Rightarrow> co_Value ops h c1)" "h \<noteq> None \<longrightarrow> get c ?key \<noteq> None"
      using block_cache.lookup [OF r(1,2) sz] by blast
    show ?thesis
    proof (cases h)
      case None
      have i1: "cinv c1 (M0 + handles_of M)" using look(2) None by simp
      show ?thesis
      proof (cases "bc_cachable bc \<and> ro_fill_cache ro")
        case True
        have fin: "finite (dom (get c))" "card (dom (get c) \<union> (\<lambda>b. block_cache_key t (bh_offset (snd b))) ` set done) + 1 < 2 ^ 31"
          using r(4) by (simp_all only: cache_content_def)
        have "card (dom (get c)) \<le> card (dom (get c) \<union> (\<lambda>b. block_cache_key t (bh_offset (snd b))) ` set done)"
          using fin(1) by (intro card_mono) simp_all
        then have "card (dom (get c1)) + 1 < 2 ^ 31" using fin(2) look(3) by simp
        from block_cache.insert [OF r(1) i1 this] obtain h' c2 where ins: "co_Insert ops ?key bl (of_nat (bl_size bl)) c1 = Some (h', c2)"
          "cinv c2 (add_mset h' (M0 + handles_of M))" "get c2 \<subseteq>\<^sub>m (get c1)(?key \<mapsto> bl)" by blast
        have "cache_content K cmp t done (get c2)"
          by (rule cache_content_insert [OF r(4) _ assms(4) rb(3)]) (use ins(3) look(3) in simp)
        then have "cache_ready K cmp cops cinv get t done M0 c2 (add_mset (ReleaseBlock h') M)"
          using r(1,3) ins(2) Some by (simp add: cache_ready_def)
        moreover have "read_block snappy cops t ro (snd b) c = Some (Status_OK, Some bl, Some h', c2)"
          using Some look(1) None rb(1,2) True ins(1) by (simp add: read_block_def)
        ultimately show ?thesis using rb(3) by (intro exI [of _ bl] exI [of _ "Some h'"] exI [of _ c2]) simp
      next
        case False
        have "cache_ready K cmp cops cinv get t done M0 c1 (add_mset DeleteBlock M)"
          using r i1 look(3) Some by (simp add: cache_ready_def)
        moreover have "read_block snappy cops t ro (snd b) c = Some (Status_OK, Some bl, None, c1)"
          using Some look(1) None rb(1,2) False by (auto simp: read_block_def)
        ultimately show ?thesis using rb(3) by (intro exI [of _ bl] exI [of _ None] exI [of _ c1]) simp
      qed
    next
      case h: (Some h')
      then obtain bl' where v: "co_Value ops h' c1 = Some bl'" "get c ?key = Some bl'" using look(4,5) by auto
      then obtain b' where b': "b' \<in> set done" "bh_offset (snd b') = bh_offset (snd b)" "opens K cmp bl' (fst b')"
        using r(4) unfolding cache_content_def by blast
      then have "b' = b" using st(4) assms(4) by (auto simp: distinct_map dest: inj_onD [of _ _ b' b])
      moreover have "cache_ready K cmp cops cinv get t done M0 c1 (add_mset (ReleaseBlock h') M)"
        using r look(2,3) h Some by (simp add: cache_ready_def)
      moreover have "read_block snappy cops t ro (snd b) c = Some (Status_OK, Some bl', Some h', c1)"
        using Some look(1) h v(1) by (simp add: read_block_def)
      ultimately show ?thesis using b'(3) by (intro exI [of _ bl'] exI [of _ "Some h'"] exI [of _ c1]) simp
    qed
  qed
qed

lemma BlockReader_ready:
  assumes "opened K cmp snappy t F done idx" "cache_ready K cmp cops cinv get t done M0 c M" "size M \<le> 1" "b \<in> set done"
  shows "\<exists>r it c'. BlockReader snappy cops t ro c (handle_bytes (snd b)) = Some (r, Inr it, c') \<and>
     cache_ready K cmp cops cinv get t done M0 c' (add_mset r M) \<and> block_at K cmp (fst b) it (length (fst b))"
proof -
  obtain bl h c' where r: "read_block snappy cops t ro (snd b) c = Some (Status_OK, Some bl, h, c')" "opens K cmp bl (fst b)"
    "cache_ready K cmp cops cinv get t done M0 c' (add_mset (case h of None \<Rightarrow> DeleteBlock | Some h \<Rightarrow> ReleaseBlock h) M)"
    using read_block_ready [OF assms] by blast
  obtain it where it: "Block_NewIterator bl = Some (Inr it)" "block_at K cmp (fst b) it (length (fst b))"
    using r(2) by (auto simp: opens_def)
  have "BlockReader snappy cops t ro c (handle_bytes (snd b)) =
      Some (case h of None \<Rightarrow> DeleteBlock | Some h \<Rightarrow> ReleaseBlock h, Inr it, c')"
    using r(1) it(1) by (simp add: BlockReader_def)
  then show ?thesis using r(3) it(2) by blast
qed

end

section \<open>Iterators over tables\<close>

definition table_serves ::
  "(byte list \<Rightarrow> bool) \<Rightarrow> (byte list \<Rightarrow> byte list \<Rightarrow> int) \<Rightarrow> Snappy \<Rightarrow> ('c, 'h, Block) CacheOps option \<Rightarrow>
   ('c \<Rightarrow> 'h multiset \<Rightarrow> bool) \<Rightarrow> ('c \<Rightarrow> byte list \<Rightarrow> Block option) \<Rightarrow> Table \<Rightarrow> 'h multiset \<Rightarrow>
   ('h block_cleanup, 'c) serving" where
  "table_serves K cmp snappy cops cinv get t M0 c M idx blk \<longleftrightarrow>
     (\<exists>F done. opened K cmp snappy t F done idx \<and> blk = block_pairs done \<and> cache_ready K cmp cops cinv get t done M0 c M)"

context block_order
begin

lemma table_two_level:
  "two_level K cmp (empty_at (block_at K cmp)) (block_ops cmp) (empty_at (block_at K cmp)) (block_ops cmp)
     (BlockReader snappy cops t ro) (run_cleanup cops) (table_serves K cmp snappy cops cinv get t M0)"
proof (intro two_level.intro two_level_axioms.intro)
  show "three_way K cmp" by unfold_locales
  show "iterator_ops (empty_at (block_at K cmp)) (block_ops cmp) K cmp" by (rule empty_iterator_ops)
  then show "iterator_ops (empty_at (block_at K cmp)) (block_ops cmp) K cmp" .
next
  fix c M idx blk h
  assume "table_serves K cmp snappy cops cinv get t M0 c M idx blk" and m: "size M \<le> 1" and h: "h \<in> snd ` set idx"
  then obtain F "done" where s: "opened K cmp snappy t F done idx" "blk = block_pairs done" "cache_ready K cmp cops cinv get t done M0 c M"
    by (auto simp: table_serves_def)
  have d: "distinct (map (\<lambda>b. bh_offset (snd b)) done)" "length idx = length done" "index_ok K cmp idx done []"
    using s(1) by (simp_all add: opened_def)
  obtain i where i: "i < length idx" "h = snd (idx ! i)" using h by (auto simp: in_set_conv_nth)
  then have b: "done ! i \<in> set done" "h = handle_bytes (snd (done ! i))" using d(2,3) by (simp_all add: index_ok_def index_entry_def)
  obtain r it c' where r: "BlockReader snappy cops t ro c h = Some (r, Inr it, c')"
    "cache_ready K cmp cops cinv get t done M0 c' (add_mset r M)" "block_at K cmp (fst (done ! i)) it (length (fst (done ! i)))"
    using BlockReader_ready [OF s(1,3) m b(1)] b(2) by blast
  have "empty_at (block_at K cmp) (blk h) (Inr it) (length (fst (done ! i)))" using r(3) s(2) b(2) block_pairs [OF d(1) b(1)] by simp
  moreover have "table_serves K cmp snappy cops cinv get t M0 c' (add_mset r M) idx blk"
    unfolding table_serves_def using s(1,2) r(2) by blast
  ultimately show "\<exists>r d e' j. BlockReader snappy cops t ro c h = Some (r, d, e') \<and>
      table_serves K cmp snappy cops cinv get t M0 e' (add_mset r M) idx blk \<and> empty_at (block_at K cmp) (blk h) d j"
    using r(1) by blast
next
  fix c r M idx blk
  assume "table_serves K cmp snappy cops cinv get t M0 c (add_mset r M) idx blk"
  then obtain F "done" where s: "opened K cmp snappy t F done idx" "blk = block_pairs done"
    "cache_ready K cmp cops cinv get t done M0 c (add_mset r M)" by (auto simp: table_serves_def)
  from run_cleanup_ready [OF s(3)] s(1,2)
  show "\<exists>c'. run_cleanup cops r c = Some c' \<and> table_serves K cmp snappy cops cinv get t M0 c' M idx blk"
    unfolding table_serves_def by blast
next
  fix c M idx blk
  assume "table_serves K cmp snappy cops cinv get t M0 c M idx blk"
  then show "index_separates K cmp blk idx" using opened_separates(1) by (auto simp: table_serves_def)
qed

end

text \<open>The iterator of a table, at a position of its pairs.\<close>

definition table_at ::
  "(byte list \<Rightarrow> bool) \<Rightarrow> (byte list \<Rightarrow> byte list \<Rightarrow> int) \<Rightarrow> Snappy \<Rightarrow> ('c, 'h, Block) CacheOps option \<Rightarrow>
   ('c \<Rightarrow> 'h multiset \<Rightarrow> bool) \<Rightarrow> ('c \<Rightarrow> byte list \<Rightarrow> Block option) \<Rightarrow> Table \<Rightarrow> 'h multiset \<Rightarrow>
   pair list \<Rightarrow> ('h, 'c) table_iter \<Rightarrow> nat \<Rightarrow> bool" where
  "table_at K cmp snappy cops cinv get t M0 =
     two_at (empty_at (block_at K cmp)) (empty_at (block_at K cmp)) (table_serves K cmp snappy cops cinv get t M0)"

context block_order
begin

lemma table_iterator:
  assumes "cmp_Compare (opt_comparator (tr_options t)) = cmp"
  shows "iterator_ops (table_at K cmp snappy cops cinv get t M0) (table_ops snappy cops t ro) K cmp"
  using two_level.two_level_iterator [OF table_two_level] by (simp add: assms Let_def table_at_def)

lemma NewIterator_at:
  assumes "opened K cmp snappy t F done idx" "cache_ready K cmp cops cinv get t done M0 c {#}"
  shows "\<exists>it. Table_NewIterator t c = Some it \<and> table_at K cmp snappy cops cinv get t M0 (pairs_in done) it (length (pairs_in done))"
proof -
  obtain it where it: "Block_NewIterator (tr_index_block t) = Some (Inr it)" "block_at K cmp idx it (length idx)"
    using assms(1) by (auto simp: opened_def opens_def)
  let ?st = "NewTwoLevelIterator (Inr it) c :: ('b, 'a) table_iter"
  have "table_serves K cmp snappy cops cinv get t M0 c {#} idx (block_pairs done)"
    unfolding table_serves_def using assms by blast
  then have "two_open (empty_at (block_at K cmp)) (empty_at (block_at K cmp)) (table_serves K cmp snappy cops cinv get t M0)
      idx (block_pairs done) ?st"
    using it(2) by (auto simp: two_open_def NewTwoLevelIterator_def held_def intro!: exI [of _ "length idx"])
  then have "two_at (empty_at (block_at K cmp)) (empty_at (block_at K cmp)) (table_serves K cmp snappy cops cinv get t M0)
      (pairs_in done) ?st (length (pairs_in done))"
    unfolding two_at_def two_pos_def
    by (intro exI [of _ idx] exI [of _ "block_pairs done"]) (simp add: opened_separates(2) [OF assms(1)] NewTwoLevelIterator_def)
  then show ?thesis using it(1) by (simp add: Table_NewIterator_def table_at_def)
qed

end

section \<open>Single lookups\<close>

lemma seek_index_eq:
  "i < length kvs \<Longrightarrow> \<forall>j<i. cmp (fst (kvs ! j)) target < 0 \<Longrightarrow> \<not> cmp (fst (kvs ! i)) target < 0 \<Longrightarrow> seek_index cmp target kvs = i"
  by (subst seek_index_def, subst takeWhile_eq_take_P_nth [of i]) simp_all

lemma block_at_status: "block_at K cmp kvs it i \<Longrightarrow> bi_status it = Status_OK"
  using at_pos_on by (fastforce simp: block_at_def on_block_def)

context block_order
begin

lemma seek_in_block:
  assumes "block_at K cmp kvs it j" "K target"
  shows "\<exists>it'. it_Seek (block_ops cmp) target (Inr it) = Some (Inr it') \<and> it_status (block_ops cmp) (Inr it') = Status_OK \<and>
     (it_Valid (block_ops cmp) (Inr it') \<longleftrightarrow> seek_index cmp target kvs < length kvs) \<and>
     (seek_index cmp target kvs < length kvs \<longrightarrow>
       it_key (block_ops cmp) (Inr it') = Some (fst (kvs ! seek_index cmp target kvs)) \<and>
       it_value (block_ops cmp) (Inr it') = Some (snd (kvs ! seek_index cmp target kvs)))"
proof -
  obtain it' where it': "BlockIter_Seek cmp target it = Some it'" "block_at K cmp kvs it' (seek_index cmp target kvs)"
    using iterator.at_seek [OF block_iterator assms] by blast
  have "it_Seek (block_ops cmp) target (Inr it) = Some (Inr it')"
    using it'(1) by (simp add: EmptyIterator_def BlockIterOps_def)
  moreover have "it_status (block_ops cmp) (Inr it') = Status_OK"
    using block_at_status [OF it'(2)] by (simp add: EmptyIterator_def BlockIterOps_def)
  moreover have at: "empty_at (block_at K cmp) kvs (Inr it') (seek_index cmp target kvs)" using it'(2) by simp
  ultimately show ?thesis
    using iterator.at_valid [OF empty_iterator_ops at] iterator.at_pair [OF empty_iterator_ops at] by blast
qed

text \<open>The index entry of the block a key is in is where \<open>Seek\<close> goes in the index.\<close>

lemma seek_block:
  assumes "opened K cmp snappy t F done idx" "i < length done" "p \<in> set (fst (done ! i))"
  shows "seek_index cmp (fst p) idx = i \<and> K (fst p) \<and> snd (idx ! i) = handle_bytes (snd (done ! i)) \<and>
     p = fst (done ! i) ! seek_index cmp (fst p) (fst (done ! i)) \<and> seek_index cmp (fst p) (fst (done ! i)) < length (fst (done ! i))"
proof -
  note sep = opened_separates(1) [OF assms(1)]
  have d: "\<forall>b \<in> set done. block_stored K cmp snappy F b" "distinct (map (\<lambda>b. bh_offset (snd b)) done)"
    "length idx = length done" "index_ok K cmp idx done []" using assms(1) by (simp_all add: opened_def)
  have i: "i < length idx" "done ! i \<in> set done" using assms(2) d(3) by simp_all
  have h: "snd (idx ! i) = handle_bytes (snd (done ! i))" using d(4) i(1) by (simp add: index_ok_def index_entry_def)
  then have p: "p \<in> set (block_pairs done (snd (idx ! i)))" using assms(3) block_pairs [OF d(2) i(2)] by simp
  have Kp: "K (fst p)" "cmp (fst p) (fst (idx ! i)) \<le> 0" "K (fst (idx ! i))"
    using index_separatesD(1,2) [OF sep i(1)] p by blast+
  have "\<not> cmp (fst (idx ! i)) (fst p) < 0" using cmp_le_swap [OF Kp(1,3)] Kp(2) by simp
  moreover have "\<forall>j<i. cmp (fst (idx ! j)) (fst p) < 0" using index_separatesD(3) [OF sep i(1) _ p] by blast
  ultimately have "seek_index cmp (fst p) idx = i" using i(1) seek_index_eq by blast
  moreover obtain n where n: "n < length (fst (done ! i))" "p = fst (done ! i) ! n" using assms(3) by (auto simp: in_set_conv_nth)
  moreover have "seek_index cmp (fst p) (fst (done ! i)) = n"
  proof (rule seek_index_eq [OF n(1)])
    have s: "sorted_wrt (\<lambda>x y. cmp (fst x) (fst y) < 0) (fst (done ! i))"
      using d(1) i(2) opens_pairs unfolding block_stored_def holds_opens by blast
    then show "\<forall>j<n. cmp (fst (fst (done ! i) ! j)) (fst p) < 0" using n by (simp add: sorted_wrt_iff_nth_less)
    show "\<not> cmp (fst (fst (done ! i) ! n)) (fst p) < 0" using cmp_refl [OF Kp(1)] n(2) by simp
  qed
  ultimately show ?thesis using Kp(1) h by simp
qed

lemma InternalGet_present:
  assumes "opened K cmp snappy t F done idx" "cache_ready K cmp cops cinv get t done M0 c {#}" "p \<in> set (pairs_in done)"
  shows "\<exists>c'. InternalGet snappy cops t ro (fst p) c = Some (Status_OK, Some p, c') \<and> cache_ready K cmp cops cinv get t done M0 c' {#}"
proof -
  have cmp: "cmp_Compare (opt_comparator (tr_options t)) = cmp" using assms(1) by (simp add: opened_def)
  obtain b where "b \<in> set done" "p \<in> set (fst b)" using assms(3) by auto
  then obtain i where i: "i < length done" "p \<in> set (fst (done ! i))" by (auto simp: in_set_conv_nth)
  let ?b = "done ! i"
  have b: "?b \<in> set done" and lidx: "length idx = length done" using i(1) assms(1) by (simp_all add: opened_def)
  from seek_block [OF assms(1) i] have s: "seek_index cmp (fst p) idx = i" "K (fst p)" "snd (idx ! i) = handle_bytes (snd ?b)"
    "p = fst ?b ! seek_index cmp (fst p) (fst ?b)" "seek_index cmp (fst p) (fst ?b) < length (fst ?b)" by blast+
  obtain it where it: "Block_NewIterator (tr_index_block t) = Some (Inr it)" "block_at K cmp idx it (length idx)"
    using assms(1) by (auto simp: opened_def opens_def)
  obtain it' where it': "it_Seek (block_ops cmp) (fst p) (Inr it) = Some (Inr it')" "it_status (block_ops cmp) (Inr it') = Status_OK"
    "it_Valid (block_ops cmp) (Inr it')" "it_value (block_ops cmp) (Inr it') = Some (handle_bytes (snd ?b))"
    using seek_in_block [OF it(2) s(2)] s(1,3) i(1) lidx by auto
  have rej: "filter_rejects t (handle_bytes (snd ?b)) (fst p) = Some False"
    using assms(1) b i(2) by (auto simp: filter_rejects_def opened_def split: option.splits)
  obtain r d c1 where r: "BlockReader snappy cops t ro c (handle_bytes (snd ?b)) = Some (r, Inr d, c1)"
    "cache_ready K cmp cops cinv get t done M0 c1 (add_mset r {#})" "block_at K cmp (fst ?b) d (length (fst ?b))"
    using BlockReader_ready [OF assms(1,2) _ b, of ro] by (auto simp del: run_cleanup.simps)
  obtain d' where d': "it_Seek (block_ops cmp) (fst p) (Inr d) = Some (Inr d')" "it_status (block_ops cmp) (Inr d') = Status_OK"
    "it_Valid (block_ops cmp) (Inr d')" "it_key (block_ops cmp) (Inr d') = Some (fst p)"
    "it_value (block_ops cmp) (Inr d') = Some (snd p)"
    using seek_in_block [OF r(3) s(2)] s(4,5) by auto
  obtain c2 where c2: "run_cleanup cops r c1 = Some c2" "cache_ready K cmp cops cinv get t done M0 c2 {#}"
    using run_cleanup_ready [OF r(2)] by blast
  have "InternalGet snappy cops t ro (fst p) c = Some (Status_OK, Some p, c2)"
    unfolding InternalGet_def Let_def cmp by (simp add: it(1) it' rej r(1) d' c2(1))
  then show ?thesis using c2(2) by blast
qed

text \<open>The offset of the block a key is in.\<close>

lemma ApproximateOffsetOf_block:
  assumes "opened K cmp snappy t F done idx" "i < length done" "p \<in> set (fst (done ! i))"
  shows "ApproximateOffsetOf t (fst p) = Some (bh_offset (snd (done ! i)))"
proof -
  have cmp: "cmp_Compare (opt_comparator (tr_options t)) = cmp" and lidx: "length idx = length done"
    using assms(1) by (simp_all add: opened_def)
  from seek_block [OF assms] have s: "seek_index cmp (fst p) idx = i" "K (fst p)" "snd (idx ! i) = handle_bytes (snd (done ! i))" by blast+
  obtain it where it: "Block_NewIterator (tr_index_block t) = Some (Inr it)" "block_at K cmp idx it (length idx)"
    using assms(1) by (auto simp: opened_def opens_def)
  obtain it' where "it_Seek (block_ops cmp) (fst p) (Inr it) = Some (Inr it')" "it_Valid (block_ops cmp) (Inr it')"
    "it_value (block_ops cmp) (Inr it') = Some (handle_bytes (snd (done ! i)))"
    using seek_in_block [OF it(2) s(2)] s(1,3) assms(2) lidx by auto
  then show ?thesis unfolding ApproximateOffsetOf_def Let_def cmp by (simp add: it(1))
qed

end

section \<open>The tables of a database\<close>

abbreviation (input) "dbkey \<equiv> ikey (\<lambda>_. True)"
abbreviation (input) "dbcmp \<equiv> icmp slice_compare"

text \<open>Options of a user with the byte-wise comparator and no filter, or a Bloom filter.\<close>

definition plain_options :: "Options \<Rightarrow> bool" where
  "plain_options opts \<longleftrightarrow> (\<exists>address. opt_comparator opts = BytewiseComparator address) \<and>
     1 \<le> opt_block_restart_interval opts \<and>
     (case opt_filter_policy opts of None \<Rightarrow> True | Some p \<Rightarrow> \<exists>bits. bits < 2 ^ 31 \<and> p = BloomFilterPolicy bits)"

lemma isep_length: "dbkey a \<Longrightarrow> dbkey b \<Longrightarrow> length (isep slice_compare bytewise_separator a b) \<le> length a"
  by (auto simp: isep_def InternalKeyComparator_FindShortestSeparator_def ExtractUserKey_def ikey_def PutFixed64_def Let_def
      split: option.splits Option.bind_splits if_splits)

lemma isucc_length: "dbkey a \<Longrightarrow> length (isucc slice_compare bytewise_successor a) \<le> length a"
  by (auto simp: isucc_def InternalKeyComparator_FindShortSuccessor_def ExtractUserKey_def ikey_def PutFixed64_def Let_def
      split: option.splits Option.bind_splits if_splits)

lemma plain_order:
  assumes "plain_options opts"
  shows "table_order dbkey dbcmp (isep slice_compare bytewise_separator) (isucc slice_compare bytewise_successor)
     (SanitizeOptions address opts)"
proof (intro table_order.intro table_order_axioms.intro)
  show "comparator dbkey dbcmp (isep slice_compare bytewise_separator) (isucc slice_compare bytewise_successor)" by unfold_locales
  show "block_order dbkey dbcmp" by unfold_locales
  show "cmp_Compare (opt_comparator (SanitizeOptions address opts)) = dbcmp"
    "cmp_FindShortestSeparator (opt_comparator (SanitizeOptions address opts)) = isep slice_compare bytewise_separator"
    "cmp_FindShortSuccessor (opt_comparator (SanitizeOptions address opts)) = isucc slice_compare bytewise_successor"
    "1 \<le> opt_block_restart_interval (SanitizeOptions address opts)"
    using assms by (auto simp: plain_options_def SanitizeOptions_def InternalKeyComparator_def BytewiseComparator_def)
  show "length (isep slice_compare bytewise_separator a b) \<le> length a" if "dbkey a" "dbkey b" for a b using that by (rule isep_length)
  show "length (isucc slice_compare bytewise_successor a) \<le> length a" if "dbkey a" for a using that by (rule isucc_length)
  show "filter_policy dbkey (fp_CreateFilter p) (fp_KeyMayMatch p)"
    if pol: "opt_filter_policy (SanitizeOptions address opts) = Some p" for p
  proof -
    obtain bits where "bits < 2 ^ 31" "p = InternalFilterPolicy (BloomFilterPolicy bits)"
      using assms pol by (auto simp: plain_options_def SanitizeOptions_def split: option.splits)
    then show ?thesis
      using filter_policy.internal_policy [OF bloom_policy] by (simp add: InternalFilterPolicy_def BloomFilterPolicy_def)
  qed
qed

lemma plain_comparator: "plain_options opts \<Longrightarrow> cmp_Compare (opt_comparator (SanitizeOptions address opts)) = dbcmp"
  by (auto simp: plain_options_def SanitizeOptions_def InternalKeyComparator_def BytewiseComparator_def)

lemma plain_table_file:
  assumes "plain_options opts" "table_pairs dbkey dbcmp (SanitizeOptions address opts) kvs" "roomy f" "contents f = []"
    "build_table snappy (SanitizeOptions address opts) kvs f = Some (s, F)" "status_ok s"
  shows "table_file dbkey dbcmp snappy (SanitizeOptions address opts) F kvs"
  using table_order.built_table [OF plain_order [OF assms(1)] assms(3,4,2), of snappy] assms(5,6) by auto

lemma new_Options_plain: "plain_options (new_Options address)"
  by (auto simp: plain_options_def new_Options_def)

interpretation db_order: table_order dbkey dbcmp "isep slice_compare bytewise_separator" "isucc slice_compare bytewise_successor"
  "SanitizeOptions address (new_Options a)" for address a
  by (rule plain_order [OF new_Options_plain])

interpretation db_blocks: two_level dbkey dbcmp "empty_at (block_at dbkey dbcmp)" "block_ops dbcmp"
  "empty_at (block_at dbkey dbcmp)" "block_ops dbcmp" "BlockReader snappy (Some (LRUCacheOps first_free)) t ro"
  "run_cleanup (Some (LRUCacheOps first_free))"
  "table_serves dbkey dbcmp snappy (Some (LRUCacheOps first_free)) cache_inv cache_get t M0" for snappy t ro M0
  by (rule ikey_block.table_two_level)

text \<open>
  An LRU cache in which a new table can be opened: it is in order while clients hold the handles \<open>M\<close>, has
  nothing under the next id, and room for \<open>n\<close> blocks.
\<close>

definition lru_fresh :: "Block ShardedLRUCache \<Rightarrow> cache_handle multiset \<Rightarrow> nat \<Rightarrow> bool" where
  "lru_fresh c M n \<longleftrightarrow> cache_inv c M \<and> size M + 4 < 2 ^ 32 \<and>
     (\<forall>off. cache_get c (EncodeFixed64 (sc_last_id c + 1) @ EncodeFixed64 off) = None) \<and> card (dom (cache_get c)) + n + 1 < 2 ^ 31"

lemma new_cache_fresh:
  assumes "0 < shard_capacity capacity" "n + 1 < 2 ^ 31"
  shows "\<exists>c. NewLRUCache capacity = Some c \<and> lru_fresh c {#} n"
  using NewLRUCache_inv [OF assms(1), where 'v = Block] assms(2) by (auto simp: lru_fresh_def)

abbreviation (input) lru_ops :: "(Block ShardedLRUCache, cache_handle, Block) CacheOps option" where
  "lru_ops \<equiv> Some (LRUCacheOps first_free)"

lemma blocks_le_pairs: "\<forall>b \<in> set done. fst b \<noteq> [] \<Longrightarrow> length done \<le> length (pairs_in done)"
proof (induction "done")
  case (Cons b bs)
  then have "1 \<le> length (fst b)" by (simp add: Suc_le_eq)
  then show ?case using Cons by simp
qed simp

lemma open_with_lru:
  assumes "table_file dbkey dbcmp snappy opts F kvs" "readable file F" "length F < 2 ^ 32" "snappy_ok snappy"
    "cmp_Compare (opt_comparator opts) = dbcmp" "lru_fresh c M (length kvs)"
  shows "\<exists>t c' done idx. Table_Open snappy lru_ops opts file (of_nat (length F)) c = Some (Status_OK, Some t, c') \<and>
     opened dbkey dbcmp snappy t F done idx \<and> kvs = pairs_in done \<and>
     cache_ready dbkey dbcmp lru_ops cache_inv cache_get t done M c' {#}"
proof -
  obtain t c' "done" idx where o: "Table_Open snappy lru_ops opts file (of_nat (length F)) c = Some (Status_OK, Some t, c')"
    "opened dbkey dbcmp snappy t F done idx" "kvs = pairs_in done" "(tr_cache_id t, c') = Cache_NewId c"
    using open_table [OF assms(1-5), of lru_ops c] by auto
  have id: "tr_cache_id t = sc_last_id c + 1" and c': "c' = c\<lparr>sc_last_id := sc_last_id c + 1\<rparr>"
    using o(4) by (auto simp: Cache_NewId_def Let_def)
  have inv: "cache_inv c' M" "cache_get c' = cache_get c"
    using assms(6) by (simp_all add: c' lru_fresh_def cache_inv_def cache_get_def fun_eq_iff)
  have fin: "finite (dom (cache_get c'))" by (rule cache_inv_finite [OF inv(1)])
  let ?keys = "(\<lambda>b. block_cache_key t (bh_offset (snd b))) ` set done"
  have "card ?keys \<le> length done" using card_image_le [of "set done" "\<lambda>b. block_cache_key t (bh_offset (snd b))"] card_length [of "done"] by simp
  also have "length done \<le> length kvs"
    unfolding o(3) by (rule blocks_le_pairs) (use o(2) in \<open>auto simp: opened_def block_stored_def\<close>)
  finally have "card (dom (cache_get c') \<union> ?keys) + 1 < 2 ^ 31"
    using card_Un_le [of "dom (cache_get c')" ?keys] assms(6) unfolding inv(2) lru_fresh_def by linarith
  moreover have "cache_get c' (block_cache_key t off) = None" for off
    using assms(6) unfolding inv(2) lru_fresh_def block_cache_key_def id by blast
  ultimately have "cache_content dbkey dbcmp t done (cache_get c')" using fin by (simp add: cache_content_def)
  then have "cache_ready dbkey dbcmp lru_ops cache_inv cache_get t done M c' {#}"
    using assms(6) inv(1) lru.block_cache_axioms by (simp add: cache_ready_def lru_fresh_def)
  then show ?thesis using o(1-3) by blast
qed

text \<open>An iterator over the open table reads all its pairs, in both directions, and those from a target on.\<close>

lemma table_reads:
  assumes "opened dbkey dbcmp snappy t F done idx" "cache_ready dbkey dbcmp lru_ops cache_inv cache_get t done M c {#}" "kvs = pairs_in done"
  shows "\<exists>it first last. Table_NewIterator t c = Some it \<and>
     it_SeekToFirst (table_ops snappy lru_ops t ro) it = Some first \<and>
     read_pairs (it_Valid (table_ops snappy lru_ops t ro)) (it_key (table_ops snappy lru_ops t ro))
       (it_value (table_ops snappy lru_ops t ro)) (it_Next (table_ops snappy lru_ops t ro)) (length kvs) first = Some kvs \<and>
     it_SeekToLast (table_ops snappy lru_ops t ro) it = Some last \<and>
     read_pairs (it_Valid (table_ops snappy lru_ops t ro)) (it_key (table_ops snappy lru_ops t ro))
       (it_value (table_ops snappy lru_ops t ro)) (it_Prev (table_ops snappy lru_ops t ro)) (length kvs) last = Some (rev kvs) \<and>
     (\<forall>target. dbkey target \<longrightarrow> (\<exists>it'. it_Seek (table_ops snappy lru_ops t ro) target it = Some it' \<and>
       read_pairs (it_Valid (table_ops snappy lru_ops t ro)) (it_key (table_ops snappy lru_ops t ro))
         (it_value (table_ops snappy lru_ops t ro)) (it_Next (table_ops snappy lru_ops t ro)) (length kvs) it' =
       Some (dropWhile (\<lambda>e. dbcmp (fst e) target < 0) kvs)))"
proof -
  obtain it where it: "Table_NewIterator t c = Some it"
    "table_at dbkey dbcmp snappy lru_ops cache_inv cache_get t M kvs it (length kvs)"
    using ikey_block.NewIterator_at [OF assms(1,2)] assms(3) by blast
  have "cmp_Compare (opt_comparator (tr_options t)) = dbcmp" using assms(1) by (simp only: opened_def)
  note ops = ikey_block.table_iterator [OF this, where snappy = snappy and cops = "Some (LRUCacheOps first_free)" and cinv = cache_inv and get = cache_get and ?M0.0 = M and ro = ro]
  from iterator.reads_all [OF ops it(2)] iterator.reads_from [OF ops it(2)] it(1) show ?thesis by blast
qed

end
