(* ===== verification/LdbTableSmall.thy ===== *)
theory LdbTableSmall
  imports LdbTableProof
begin

text \<open>
  A table of one pair, byte by byte: what \<open>build_table\<close> writes to a disk with room for it. The
  CRCs stay as they are.
\<close>

section \<open>With room on the disk, blocks are written\<close>

definition disk :: "byte list \<Rightarrow> nat \<Rightarrow> PosixFile" where
  "disk data space = \<lparr>pf_filename = ''t'', pf_errno = '''', pf_file = \<lparr>file_data = data, file_pos = 0, file_eof = False,
     file_fault = None, file_space = Some space, file_flush_error = False\<rparr>\<rparr>"

lemma Append_disk: "length bs \<le> n \<Longrightarrow> WritableFile_Append bs (disk data n) = (Status_OK, disk (data @ bs) (n - length bs))"
  by (simp add: WritableFile_Append_def fwrite_unlocked_def disk_def Let_def)

lemma disk_contents: "contents (disk data n) = data"
  by (simp add: disk_def)

lemma Flush_disk: "WritableFile_Flush (disk data n) = Status_OK"
  by (simp add: WritableFile_Flush_def fflush_unlocked_def disk_def)

lemma WriteRawBlock_disk:
  "tb_file t = disk data n \<Longrightarrow> length bs + 5 \<le> n \<Longrightarrow> WriteRawBlock bs type t =
     Some (\<lparr>bh_offset = tb_offset t, bh_size = of_nat (length bs)\<rparr>,
       t\<lparr>tb_file := disk (data @ raw_block bs type) (n - (length bs + 5)), tb_status := Status_OK,
         tb_offset := tb_offset t + of_nat (length bs) + kBlockTrailerSize\<rparr>)"
  by (simp add: WriteRawBlock_def Append_disk crc_Value_def Extend_crc32c Let_def raw_block_def crc32c_append)

lemma WriteBlock_disk:
  assumes "tb_file t = disk data n" "status_ok (tb_status t)" "BlockBuilder_Finish b = (raw, b')" "length raw + 5 \<le> n"
    "opt_compression (tb_options t) = kNoCompression"
  shows "WriteBlock snappy b t =
     Some (\<lparr>bh_offset = tb_offset t, bh_size = of_nat (length raw)\<rparr>, BlockBuilder_Reset b',
       t\<lparr>tb_file := disk (data @ raw_block raw kNoCompression) (n - (length raw + 5)), tb_status := Status_OK,
         tb_offset := tb_offset t + of_nat (length raw) + kBlockTrailerSize\<rparr>)"
  using assms by (simp add: WriteBlock_def compressed_form_def WriteRawBlock_disk)

section \<open>A table of one pair\<close>

definition small_options :: Options where
  "small_options = (new_Options 0)\<lparr>opt_compression := kNoCompression\<rparr>"

definition small_key :: "byte list" where
  "small_key = [97, 1, 1, 0, 0, 0, 0, 0, 0]"

lemma small_options_simps:
  "opt_compression (SanitizeOptions a small_options) = kNoCompression" "opt_block_restart_interval (SanitizeOptions a small_options) = 16"
  "opt_filter_policy (SanitizeOptions a small_options) = None" "opt_block_size (SanitizeOptions a small_options) = 4096"
  "cmp_FindShortSuccessor (opt_comparator (SanitizeOptions a small_options)) small_key = small_key"
  by (simp_all add: SanitizeOptions_def small_options_def new_Options_def ClipToRange_def InternalKeyComparator_def
      BytewiseComparator_def) code_simp

definition small_block :: "byte list" where
  "small_block = [0, 9, 1] @ small_key @ [7]"

definition small_index :: "byte list" where
  "small_index = [0, 9, 2] @ small_key @ [0, 21]"

abbreviation finished :: "byte list \<Rightarrow> byte list" where
  "finished buf \<equiv> buf @ EncodeFixed32 0 @ EncodeFixed32 1"

lemma Finish_one: "bb_buffer b = buf \<Longrightarrow> bb_restarts b = [0] \<Longrightarrow> fst (BlockBuilder_Finish b) = finished buf"
  by (simp add: BlockBuilder_Finish_def PutFixed32_def Let_def)

lemma small_add: "BlockBuilder_Add cmp small_key [7]
     \<lparr>bb_interval = 16, bb_buffer = [], bb_restarts = [0], bb_counter = 0, bb_finished = False, bb_last_key = []\<rparr> =
   Some \<lparr>bb_interval = 16, bb_buffer = small_block, bb_restarts = [0], bb_counter = 1, bb_finished = False, bb_last_key = small_key\<rparr>"
  by (simp add: BlockBuilder_Add_def Let_def small_key_def small_block_def PutVarint32_def EncodeVarint32_def)

lemma small_index_add: "BlockBuilder_Add cmp small_key [0, 21]
     \<lparr>bb_interval = 1, bb_buffer = [], bb_restarts = [0], bb_counter = 0, bb_finished = False, bb_last_key = []\<rparr> =
   Some \<lparr>bb_interval = 1, bb_buffer = small_index, bb_restarts = [0], bb_counter = 1, bb_finished = False, bb_last_key = small_key\<rparr>"
  by (simp add: BlockBuilder_Add_def Let_def small_key_def small_index_def PutVarint32_def EncodeVarint32_def)

lemma small_finish:
  "BlockBuilder_Finish \<lparr>bb_interval = k, bb_buffer = buf, bb_restarts = [0], bb_counter = n, bb_finished = False, bb_last_key = l\<rparr> =
   (finished buf, \<lparr>bb_interval = k, bb_buffer = finished buf, bb_restarts = [0], bb_counter = n, bb_finished = True, bb_last_key = l\<rparr>)"
  by (simp add: BlockBuilder_Finish_def PutFixed32_def Let_def)

lemma small_lengths [simp]: "length small_block = 13" "length small_index = 14"
  by (simp_all add: small_block_def small_index_def small_key_def)

definition small_tb :: TableBuilder where
  "small_tb = \<lparr>tb_options = SanitizeOptions 1 small_options, tb_file = disk [] 1000, tb_offset = 0, tb_status = Status_OK,
     tb_data_block = \<lparr>bb_interval = 16, bb_buffer = small_block, bb_restarts = [0], bb_counter = 1, bb_finished = False, bb_last_key = small_key\<rparr>,
     tb_index_block = \<lparr>bb_interval = 1, bb_buffer = [], bb_restarts = [0], bb_counter = 0, bb_finished = False, bb_last_key = []\<rparr>,
     tb_last_key = small_key, tb_num_entries = 1, tb_closed = False, tb_filter_block = None, tb_pending_index_entry = False,
     tb_pending_handle = new_BlockHandle\<rparr>"

lemma small_added: "do { t \<leftarrow> new_TableBuilder (SanitizeOptions 1 small_options) (disk [] 1000); table_add_pairs snappy [(small_key, [7])] t } =
   Some small_tb"
  by (simp add: new_TableBuilder_def new_BlockBuilder_def filter_StartBlock_def small_options_simps TableBuilder_Add_def
      filter_AddKey_def small_add small_tb_def CurrentSizeEstimate_def Let_def)

definition small_file :: "byte list" where
  "small_file = raw_block (finished small_block) kNoCompression @ raw_block (finished []) kNoCompression @
     raw_block (finished small_index) kNoCompression @
     footer_bytes \<lparr>ft_metaindex_handle = \<lparr>bh_offset = 26, bh_size = 8\<rparr>, ft_index_handle = \<lparr>bh_offset = 39, bh_size = 22\<rparr>\<rparr>"

definition small_flushed :: TableBuilder where
  "small_flushed = small_tb\<lparr>tb_file := disk (raw_block (finished small_block) kNoCompression) 974, tb_offset := 26,
     tb_data_block := \<lparr>bb_interval = 16, bb_buffer = [], bb_restarts = [0], bb_counter = 0, bb_finished = False, bb_last_key = []\<rparr>,
     tb_pending_index_entry := True, tb_pending_handle := \<lparr>bh_offset = 0, bh_size = 21\<rparr>\<rparr>"

lemma small_flush: "TableBuilder_Flush snappy small_tb = Some small_flushed"
  unfolding TableBuilder_Flush_def
  by (simp add: small_tb_def WriteBlock_disk small_options_simps small_finish BlockBuilder_empty_def small_block_def
      BlockBuilder_Reset_def Flush_disk filter_StartBlock_def kBlockTrailerSize_def small_flushed_def small_key_def)

lemma small_metaindex:
  "write_metaindex_block snappy h (small_flushed\<lparr>tb_closed := True\<rparr>) = Some (\<lparr>bh_offset = 26, bh_size = 8\<rparr>,
     small_flushed\<lparr>tb_closed := True, tb_file := disk (raw_block (finished small_block) kNoCompression @
       raw_block (finished []) kNoCompression) 961, tb_offset := 39\<rparr>)"
  by (simp add: write_metaindex_block_def small_flushed_def small_tb_def small_options_simps new_BlockBuilder_def
      WriteBlock_disk small_finish kBlockTrailerSize_def)

lemma small_handle: "BlockHandle_EncodeTo \<lparr>bh_offset = 0, bh_size = 21\<rparr> [] = Some [0, 21]"
  by (simp add: BlockHandle_EncodeTo_def PutVarint64_def EncodeVarint64.simps)

lemma small_write_index:
  "\<exists>t. write_index_block snappy (small_flushed\<lparr>tb_closed := True, tb_file := disk (raw_block (finished small_block) kNoCompression @
       raw_block (finished []) kNoCompression) 961, tb_offset := 39\<rparr>) = Some (\<lparr>bh_offset = 39, bh_size = 22\<rparr>, t) \<and>
     tb_file t = disk (raw_block (finished small_block) kNoCompression @ raw_block (finished []) kNoCompression @
       raw_block (finished small_index) kNoCompression) 934 \<and> tb_status t = Status_OK"
  by (simp add: write_index_block_def small_flushed_def small_tb_def small_options_simps add_index_entry_def
      WriteBlock_disk small_finish small_handle small_index_add)

lemma small_footer:
  "Footer_EncodeTo \<lparr>ft_metaindex_handle = \<lparr>bh_offset = 26, bh_size = 8\<rparr>, ft_index_handle = \<lparr>bh_offset = 39, bh_size = 22\<rparr>\<rparr> [] =
   Some (footer_bytes \<lparr>ft_metaindex_handle = \<lparr>bh_offset = 26, bh_size = 8\<rparr>, ft_index_handle = \<lparr>bh_offset = 39, bh_size = 22\<rparr>\<rparr>)"
  by (rule Footer_EncodeTo_bytes) (simp_all add: handle_set_def)

lemma small_table:
  "build_table snappy (SanitizeOptions 1 small_options) [(small_key, [7])] (disk [] 1000) = Some (Status_OK, small_file)"
proof -
  obtain t where t: "write_index_block snappy (small_flushed\<lparr>tb_closed := True, tb_file := disk (raw_block (finished small_block) kNoCompression @
       raw_block (finished []) kNoCompression) 961, tb_offset := 39\<rparr>) = Some (\<lparr>bh_offset = 39, bh_size = 22\<rparr>, t)"
    "tb_file t = disk (raw_block (finished small_block) kNoCompression @ raw_block (finished []) kNoCompression @
       raw_block (finished small_index) kNoCompression) 934" "tb_status t = Status_OK"
    using small_write_index by blast
  have "write_filter_block (small_flushed\<lparr>tb_closed := True\<rparr>) = Some (new_BlockHandle, small_flushed\<lparr>tb_closed := True\<rparr>)"
    by (simp add: write_filter_block_def small_flushed_def small_tb_def)
  moreover have "\<not> tb_closed small_flushed" by (simp add: small_flushed_def small_tb_def)
  moreover have "\<exists>t'. write_footer \<lparr>bh_offset = 26, bh_size = 8\<rparr> \<lparr>bh_offset = 39, bh_size = 22\<rparr> t = Some t' \<and>
      tb_status t' = Status_OK \<and> contents (tb_file t') = small_file"
    using t(2,3) by (simp add: write_footer_def small_footer Append_disk Let_def disk_contents small_file_def)
  ultimately have "\<exists>t'. TableBuilder_Finish snappy small_tb = Some (Status_OK, t') \<and> contents (tb_file t') = small_file"
    using t(1) by (auto simp: TableBuilder_Finish_def small_flush small_metaindex Let_def)
  moreover obtain t0 where "new_TableBuilder (SanitizeOptions 1 small_options) (disk [] 1000) = Some t0"
    "table_add_pairs snappy [(small_key, [7])] t0 = Some small_tb"
    using small_added [of snappy] by (cases "new_TableBuilder (SanitizeOptions 1 small_options) (disk [] 1000)") auto
  ultimately show ?thesis unfolding build_table_def by (auto simp del: table_add_pairs.simps)
qed

section \<open>It may be built and read\<close>

lemma small_plain: "plain_options small_options"
  by (auto simp: plain_options_def small_options_def new_Options_def)

lemma small_roomy: "roomy (disk [] 1000)" "contents (disk [] 1000) = []"
  by (simp_all add: roomy_def disk_def)

lemma small_pairs: "table_pairs dbkey dbcmp (SanitizeOptions a small_options) [(small_key, [7])]"
  by (simp add: table_pairs_def small_options_simps pairs_size_def small_key_def ikey_def)

lemma small_length: "length small_file < 2 ^ 32"
  by (simp add: small_file_def)

lemma small_readable: "readable (MmapFile \<lparr>pm_filename = [], pm_region = small_file\<rparr>) small_file"
  by (simp add: small_file_def)

lemma small_capacity: "0 < shard_capacity 100"
  by (simp add: shard_capacity_def kNumShards_def kNumShardBits_def)

lemma small_cache: "\<exists>c. NewLRUCache 100 = Some c \<and> lru_fresh c {#} (length [(small_key, [7 :: byte])])"
  by (rule new_cache_fresh [OF small_capacity]) simp

end
