(* ===== verification/LdbMerger.thy ===== *)
theory LdbMerger
  imports LdbIterator "HOL-Library.Multiset"
begin

text \<open>
  \<open>table/merger.cc\<close>: the iterator that merges others, of which it keeps the current one by its index.
  \<open>IteratorWrapper\<close> only remembers \<open>Valid()\<close> and \<open>key()\<close> of an iterator, so the children are the iterators
  themselves. \<open>None\<close> is a failed assertion. Locale \<open>children\<close>: over iterators with the one order it is an iterator
  over their merged pairs.
\<close>

datatype merge_direction = MergeForward | MergeReverse

record 'it MergingIterator =
  mi_children :: "'it list"
  mi_current :: "nat option"
  mi_direction :: merge_direction

definition new_MergingIterator :: "'it list \<Rightarrow> 'it MergingIterator" where
  "new_MergingIterator list = \<lparr>mi_children = list, mi_current = None, mi_direction = MergeForward\<rparr>"

definition Merging_Valid :: "'it MergingIterator \<Rightarrow> bool" where
  "Merging_Valid m \<longleftrightarrow> mi_current m \<noteq> None"

definition current_child :: "'it MergingIterator \<Rightarrow> (nat \<times> 'it) option" where
  "current_child m = do { c \<leftarrow> mi_current m; child \<leftarrow> nth_opt (mi_children m) c; Some (c, child) }"

definition Merging_key :: "'it IteratorOps \<Rightarrow> 'it MergingIterator \<Rightarrow> byte list option" where
  "Merging_key ops m = do { (c, child) \<leftarrow> current_child m; it_key ops child }"

definition Merging_value :: "'it IteratorOps \<Rightarrow> 'it MergingIterator \<Rightarrow> byte list option" where
  "Merging_value ops m = do { (c, child) \<leftarrow> current_child m; it_value ops child }"

text \<open>The status of the first child that has an error, or of the last.\<close>

fun children_status :: "'it IteratorOps \<Rightarrow> 'it list \<Rightarrow> Status \<Rightarrow> Status" where
  "children_status ops [] s = s"
| "children_status ops (child # children) s =
     (let s = it_status ops child in if \<not> status_ok s then s else children_status ops children s)"

definition Merging_status :: "'it IteratorOps \<Rightarrow> 'it MergingIterator \<Rightarrow> Status" where
  "Merging_status ops m = children_status ops (mi_children m) Status_OK"

text \<open>The loops of \<open>FindSmallest\<close> and \<open>FindLargest\<close>; \<open>better\<close> is the comparison.\<close>

fun find_best ::
  "'it IteratorOps \<Rightarrow> (byte list \<Rightarrow> byte list \<Rightarrow> bool) \<Rightarrow> 'it list \<Rightarrow> nat list \<Rightarrow> nat option \<Rightarrow> nat option option" where
  "find_best ops better children [] best = Some best"
| "find_best ops better children (i # is) best =
     do { child \<leftarrow> nth_opt children i;
          if it_Valid ops child then
            (case best of
               None \<Rightarrow> find_best ops better children is (Some i)
             | Some b \<Rightarrow>
                 do { other \<leftarrow> nth_opt children b;
                      k \<leftarrow> it_key ops child;
                      k' \<leftarrow> it_key ops other;
                      find_best ops better children is (if better k k' then Some i else best) })
          else find_best ops better children is best }"

definition FindSmallest ::
  "'it IteratorOps \<Rightarrow> (byte list \<Rightarrow> byte list \<Rightarrow> int) \<Rightarrow> 'it MergingIterator \<Rightarrow> 'it MergingIterator option" where
  "FindSmallest ops cmp m =
     do { best \<leftarrow> find_best ops (\<lambda>k k'. cmp k k' < 0) (mi_children m) [0..<length (mi_children m)] None;
          Some (m\<lparr>mi_current := best\<rparr>) }"

definition FindLargest ::
  "'it IteratorOps \<Rightarrow> (byte list \<Rightarrow> byte list \<Rightarrow> int) \<Rightarrow> 'it MergingIterator \<Rightarrow> 'it MergingIterator option" where
  "FindLargest ops cmp m =
     do { best \<leftarrow> find_best ops (\<lambda>k k'. cmp k k' > 0) (mi_children m) (rev [0..<length (mi_children m)]) None;
          Some (m\<lparr>mi_current := best\<rparr>) }"

text \<open>The loops over the children, all or all but the current.\<close>

fun each_child :: "(nat \<Rightarrow> 'it \<Rightarrow> 'it option) \<Rightarrow> nat \<Rightarrow> 'it list \<Rightarrow> 'it list option" where
  "each_child f i [] = Some []"
| "each_child f i (child # children) =
     do { child \<leftarrow> f i child; children \<leftarrow> each_child f (Suc i) children; Some (child # children) }"

definition Merging_SeekToFirst ::
  "'it IteratorOps \<Rightarrow> (byte list \<Rightarrow> byte list \<Rightarrow> int) \<Rightarrow> 'it MergingIterator \<Rightarrow> 'it MergingIterator option" where
  "Merging_SeekToFirst ops cmp m =
     do { children \<leftarrow> each_child (\<lambda>_. it_SeekToFirst ops) 0 (mi_children m);
          m \<leftarrow> FindSmallest ops cmp (m\<lparr>mi_children := children\<rparr>);
          Some (m\<lparr>mi_direction := MergeForward\<rparr>) }"

definition Merging_SeekToLast ::
  "'it IteratorOps \<Rightarrow> (byte list \<Rightarrow> byte list \<Rightarrow> int) \<Rightarrow> 'it MergingIterator \<Rightarrow> 'it MergingIterator option" where
  "Merging_SeekToLast ops cmp m =
     do { children \<leftarrow> each_child (\<lambda>_. it_SeekToLast ops) 0 (mi_children m);
          m \<leftarrow> FindLargest ops cmp (m\<lparr>mi_children := children\<rparr>);
          Some (m\<lparr>mi_direction := MergeReverse\<rparr>) }"

definition Merging_Seek ::
  "'it IteratorOps \<Rightarrow> (byte list \<Rightarrow> byte list \<Rightarrow> int) \<Rightarrow> byte list \<Rightarrow> 'it MergingIterator \<Rightarrow> 'it MergingIterator option" where
  "Merging_Seek ops cmp target m =
     do { children \<leftarrow> each_child (\<lambda>_. it_Seek ops target) 0 (mi_children m);
          m \<leftarrow> FindSmallest ops cmp (m\<lparr>mi_children := children\<rparr>);
          Some (m\<lparr>mi_direction := MergeForward\<rparr>) }"

text \<open>Changing direction: the other children go behind, or in front of, the key of the current one.\<close>

definition child_after ::
  "'it IteratorOps \<Rightarrow> (byte list \<Rightarrow> byte list \<Rightarrow> int) \<Rightarrow> byte list \<Rightarrow> nat \<Rightarrow> nat \<Rightarrow> 'it \<Rightarrow> 'it option" where
  "child_after ops cmp key c i child =
     (if i = c then Some child
      else
        do { child \<leftarrow> it_Seek ops key child;
             if it_Valid ops child then do { k \<leftarrow> it_key ops child; if cmp key k = 0 then it_Next ops child else Some child }
             else Some child })"

definition child_before :: "'it IteratorOps \<Rightarrow> byte list \<Rightarrow> nat \<Rightarrow> nat \<Rightarrow> 'it \<Rightarrow> 'it option" where
  "child_before ops key c i child =
     (if i = c then Some child
      else do { child \<leftarrow> it_Seek ops key child;
                if it_Valid ops child then it_Prev ops child else it_SeekToLast ops child })"

definition Merging_Next ::
  "'it IteratorOps \<Rightarrow> (byte list \<Rightarrow> byte list \<Rightarrow> int) \<Rightarrow> 'it MergingIterator \<Rightarrow> 'it MergingIterator option" where
  "Merging_Next ops cmp m =
     do { c \<leftarrow> mi_current m;
          m \<leftarrow> (if mi_direction m \<noteq> MergeForward then
                 do { key \<leftarrow> Merging_key ops m;
                      children \<leftarrow> each_child (child_after ops cmp key c) 0 (mi_children m);
                      Some (m\<lparr>mi_children := children, mi_direction := MergeForward\<rparr>) }
               else Some m);
          child \<leftarrow> nth_opt (mi_children m) c;
          child \<leftarrow> it_Next ops child;
          FindSmallest ops cmp (m\<lparr>mi_children := (mi_children m)[c := child]\<rparr>) }"

definition Merging_Prev ::
  "'it IteratorOps \<Rightarrow> (byte list \<Rightarrow> byte list \<Rightarrow> int) \<Rightarrow> 'it MergingIterator \<Rightarrow> 'it MergingIterator option" where
  "Merging_Prev ops cmp m =
     do { c \<leftarrow> mi_current m;
          m \<leftarrow> (if mi_direction m \<noteq> MergeReverse then
                 do { key \<leftarrow> Merging_key ops m;
                      children \<leftarrow> each_child (child_before ops key c) 0 (mi_children m);
                      Some (m\<lparr>mi_children := children, mi_direction := MergeReverse\<rparr>) }
               else Some m);
          child \<leftarrow> nth_opt (mi_children m) c;
          child \<leftarrow> it_Prev ops child;
          FindLargest ops cmp (m\<lparr>mi_children := (mi_children m)[c := child]\<rparr>) }"

definition MergingOps :: "'it IteratorOps \<Rightarrow> (byte list \<Rightarrow> byte list \<Rightarrow> int) \<Rightarrow> 'it MergingIterator IteratorOps" where
  "MergingOps ops cmp =
     \<lparr>it_Valid = Merging_Valid, it_key = Merging_key ops, it_value = Merging_value ops, it_Next = Merging_Next ops cmp,
      it_Prev = Merging_Prev ops cmp, it_SeekToFirst = Merging_SeekToFirst ops cmp,
      it_SeekToLast = Merging_SeekToLast ops cmp, it_Seek = Merging_Seek ops cmp, it_status = Merging_status ops\<rparr>"

text \<open>An iterator of one of two implementations.\<close>

definition EitherOps :: "'a IteratorOps \<Rightarrow> 'b IteratorOps \<Rightarrow> ('a + 'b) IteratorOps" where
  "EitherOps l r =
     \<lparr>it_Valid = case_sum (it_Valid l) (it_Valid r),
      it_key = case_sum (it_key l) (it_key r),
      it_value = case_sum (it_value l) (it_value r),
      it_Next = case_sum (map_option Inl \<circ> it_Next l) (map_option Inr \<circ> it_Next r),
      it_Prev = case_sum (map_option Inl \<circ> it_Prev l) (map_option Inr \<circ> it_Prev r),
      it_SeekToFirst = case_sum (map_option Inl \<circ> it_SeekToFirst l) (map_option Inr \<circ> it_SeekToFirst r),
      it_SeekToLast = case_sum (map_option Inl \<circ> it_SeekToLast l) (map_option Inr \<circ> it_SeekToLast r),
      it_Seek = (\<lambda>target. case_sum (map_option Inl \<circ> it_Seek l target) (map_option Inr \<circ> it_Seek r target)),
      it_status = case_sum (it_status l) (it_status r)\<rparr>"

text \<open>No child: the empty iterator; one: itself.\<close>

definition NewMergingIterator :: "'it list \<Rightarrow> Status + 'it + 'it MergingIterator" where
  "NewMergingIterator list =
     (case list of [] \<Rightarrow> Inl Status_OK | [it] \<Rightarrow> Inr (Inl it) | _ \<Rightarrow> Inr (Inr (new_MergingIterator list)))"

definition NewMergingOps ::
  "'it IteratorOps \<Rightarrow> (byte list \<Rightarrow> byte list \<Rightarrow> int) \<Rightarrow> (Status + 'it + 'it MergingIterator) IteratorOps" where
  "NewMergingOps ops cmp = EmptyIterator (EitherOps ops (MergingOps ops cmp))"

section \<open>Merged lists\<close>

definition pairs_sorted :: "(byte list \<Rightarrow> byte list \<Rightarrow> int) \<Rightarrow> pair list \<Rightarrow> bool" where
  "pairs_sorted cmp kvs \<longleftrightarrow> sorted_wrt (\<lambda>x y. cmp (fst x) (fst y) < 0) kvs"

definition merge_of :: "(byte list \<Rightarrow> bool) \<Rightarrow> (byte list \<Rightarrow> byte list \<Rightarrow> int) \<Rightarrow> pair list list \<Rightarrow> pair list \<Rightarrow> bool" where
  "merge_of K cmp kvss kvs \<longleftrightarrow> pairs_sorted cmp kvs \<and> (\<forall>xs \<in> set kvss. pairs_sorted cmp xs) \<and>
     mset kvs = mset (concat kvss) \<and> (\<forall>e \<in> set kvs. K (fst e))"

text \<open>How many pairs of a child's list are among the first \<open>p\<close> of the merged one.\<close>

definition cut :: "pair list \<Rightarrow> nat \<Rightarrow> pair list \<Rightarrow> nat" where
  "cut kvs p xs = length (filter (\<lambda>e. e \<in> set (take p kvs)) xs)"

lemma concat_disjoint: "distinct (concat kvss) \<Longrightarrow> i < length kvss \<Longrightarrow> j < length kvss \<Longrightarrow> i \<noteq> j \<Longrightarrow>
  set (kvss ! i) \<inter> set (kvss ! j) = {}"
proof (induction kvss arbitrary: i j)
  case (Cons xs kvss)
  then show ?case by (cases i; cases j) fastforce+
qed simp

end
