(* ===== verification/LdbMergerProof.thy ===== *)
theory LdbMergerProof
  imports LdbMerger
begin

text \<open>
  The merging iterator is an iterator over the merged list (locale \<open>children\<close>). Going forwards every child
  is at its first pair that is not among those passed (\<open>cut\<close>); going backwards the current child is at the
  pair and all others in front of their first.
\<close>

section \<open>Either of two iterators\<close>

fun either_at :: "(pair list \<Rightarrow> 'a \<Rightarrow> nat \<Rightarrow> bool) \<Rightarrow> (pair list \<Rightarrow> 'b \<Rightarrow> nat \<Rightarrow> bool) \<Rightarrow> pair list \<Rightarrow> 'a + 'b \<Rightarrow> nat \<Rightarrow> bool" where
  "either_at l r kvs (Inl it) i \<longleftrightarrow> l kvs it i"
| "either_at l r kvs (Inr it) i \<longleftrightarrow> r kvs it i"

lemma either_iterator:
  assumes "iterator_ops l lo K cmp" "iterator_ops r ro K cmp"
  shows "iterator_ops (either_at l r) (EitherOps lo ro) K cmp"
proof -
  note L = iterator.at_valid [OF assms(1)] iterator.at_pair [OF assms(1)]
  note R = iterator.at_valid [OF assms(2)] iterator.at_pair [OF assms(2)]
  note steps = iterator.at_next [OF assms(1)] iterator.at_next [OF assms(2)]
    iterator.at_prev [OF assms(1)] iterator.at_prev [OF assms(2)]
    iterator.at_first [OF assms(1)] iterator.at_first [OF assms(2)]
    iterator.at_last [OF assms(1)] iterator.at_last [OF assms(2)]
    iterator.at_seek [OF assms(1)] iterator.at_seek [OF assms(2)]
  show ?thesis
  proof
    fix kvs it i assume at: "either_at l r kvs it i"
    show "i \<le> length kvs \<and> it_Valid (EitherOps lo ro) it = (i < length kvs)"
      using at L(1) R(1) by (cases it) (simp_all add: EitherOps_def)
    show "\<exists>it'. it_SeekToFirst (EitherOps lo ro) it = Some it' \<and> either_at l r kvs it' 0"
      using at steps(5,6) by (cases it) (fastforce simp: EitherOps_def)+
    show "\<exists>it'. it_SeekToLast (EitherOps lo ro) it = Some it' \<and> either_at l r kvs it' (length kvs - 1)"
      using at steps(7,8) by (cases it) (fastforce simp: EitherOps_def)+
    show "\<exists>it'. it_Seek (EitherOps lo ro) target it = Some it' \<and> either_at l r kvs it' (seek_index cmp target kvs)" if "K target" for target
      using at steps(9) [OF _ that] steps(10) [OF _ that] by (cases it) (fastforce simp: EitherOps_def)+
    assume i: "i < length kvs"
    show "it_key (EitherOps lo ro) it = Some (fst (kvs ! i)) \<and> it_value (EitherOps lo ro) it = Some (snd (kvs ! i))"
      using at i L(2) R(2) by (cases it) (simp_all add: EitherOps_def)
    show "\<exists>it'. it_Next (EitherOps lo ro) it = Some it' \<and> either_at l r kvs it' (Suc i)"
      using at steps(1) [OF _ i] steps(2) [OF _ i] by (cases it) (fastforce simp: EitherOps_def)+
    show "\<exists>it'. it_Prev (EitherOps lo ro) it = Some it' \<and> either_at l r kvs it' (if i = 0 then length kvs else i - 1)"
      using at steps(3) [OF _ i] steps(4) [OF _ i] by (cases it) (fastforce simp: EitherOps_def split del: if_split)+
  qed
qed

section \<open>The loops over the children\<close>

lemma each_child_spec:
  "\<forall>i<length its. \<exists>it'. f (s + i) (its ! i) = Some it' \<and> Q i it' \<Longrightarrow>
   \<exists>its'. each_child f s its = Some its' \<and> length its' = length its \<and> (\<forall>i<length its. Q i (its' ! i))"
proof (induction its arbitrary: s Q)
  case (Cons it its)
  obtain it' where it': "f s it = Some it'" "Q 0 it'" using Cons.prems by fastforce
  have "\<forall>i<length its. \<exists>it'. f (Suc s + i) (its ! i) = Some it' \<and> Q (Suc i) it'" using Cons.prems by fastforce
  from Cons.IH [OF this] obtain its' where "each_child f (Suc s) its = Some its'" "length its' = length its"
    "\<forall>i<length its. Q (Suc i) (its' ! i)" by blast
  then show ?case using it' by (intro exI [of _ "it' # its'"]) (auto simp: nth_Cons split: nat.splits)
qed simp

definition looks_like :: "'it IteratorOps \<Rightarrow> 'it list \<Rightarrow> (nat \<Rightarrow> bool) \<Rightarrow> (nat \<Rightarrow> byte list) \<Rightarrow> bool" where
  "looks_like ops its V k \<longleftrightarrow> (\<forall>i<length its. (it_Valid ops (its ! i) \<longleftrightarrow> V i) \<and> (V i \<longrightarrow> it_key ops (its ! i) = Some (k i)))"

lemma find_best_some:
  assumes "looks_like ops its V k" "c < length its" "V c"
    "\<forall>i<length its. V i \<longrightarrow> i \<noteq> c \<longrightarrow> better (k c) (k i) \<and> \<not> better (k i) (k c)"
  shows "set is \<subseteq> {..<length its} \<Longrightarrow> (case best of None \<Rightarrow> True | Some b \<Rightarrow> b < length its \<and> V b) \<Longrightarrow>
    c \<in> set is \<or> best = Some c \<Longrightarrow> find_best ops better its is best = Some (Some c)"
proof (induction "is" arbitrary: best)
  case (Cons i "is")
  have i: "i < length its" using Cons.prems(1) by simp
  have nth: "nth_opt its j = Some (its ! j)" if "j < length its" for j using that by (simp add: nth_opt_def)
  have like: "it_Valid ops (its ! j) \<longleftrightarrow> V j" "V j \<Longrightarrow> it_key ops (its ! j) = Some (k j)" if "j < length its" for j
    using assms(1) that by (simp_all add: looks_like_def)
  show ?case
  proof (cases "V i")
    case False
    then have "c \<in> set is \<or> best = Some c" using Cons.prems(3) assms(3) by auto
    then show ?thesis using Cons.IH [of best] Cons.prems(1,2) False i by (simp add: nth like del: nth_opt_Some)
  next
    case True
    show ?thesis
    proof (cases best)
      case None
      then show ?thesis using Cons.IH [of "Some i"] Cons.prems True i by (auto simp: nth like simp del: nth_opt_Some)
    next
      case (Some b)
      then have b: "b < length its" "V b" using Cons.prems(2) by simp_all
      let ?best = "if better (k i) (k b) then Some i else best"
      have "c \<in> set is \<or> ?best = Some c" using Cons.prems(3) assms(3,4) True i b Some by auto
      moreover have "case ?best of None \<Rightarrow> True | Some b \<Rightarrow> b < length its \<and> V b" using Some b True i by simp
      ultimately have "find_best ops better its is ?best = Some (Some c)" using Cons.IH Cons.prems(1) by simp
      then show ?thesis using Some True i b by (cases "better (k i) (k b)") (simp_all add: nth like del: nth_opt_Some)
    qed
  qed
qed simp

lemma find_best_none:
  assumes "looks_like ops its V k" "\<forall>i<length its. \<not> V i"
  shows "set is \<subseteq> {..<length its} \<Longrightarrow> find_best ops better its is None = Some None"
  using assms by (induction "is") (simp_all add: nth_opt_def looks_like_def)

section \<open>Over any children\<close>

locale children = three_way K cmp for K :: "byte list \<Rightarrow> bool" and cmp +
  fixes ops :: "'it IteratorOps" and at :: "pair list \<Rightarrow> 'it \<Rightarrow> nat \<Rightarrow> bool"
  assumes child: "iterator_ops at ops K cmp"
begin

text \<open>What is known of a merged list.\<close>

lemma merged_distinct: "pairs_sorted cmp xs \<Longrightarrow> \<forall>e \<in> set xs. K (fst e) \<Longrightarrow> distinct xs"
proof (induction xs)
  case (Cons x xs)
  then have "x \<notin> set xs" using cmp_refl [of "fst x"] by (force simp: pairs_sorted_def)
  with Cons show ?case by (simp add: pairs_sorted_def)
qed simp

lemma mergeD:
  assumes "merge_of K cmp kvss kvs"
  shows "distinct kvs" "distinct (concat kvss)" "set (concat kvss) = set kvs" "\<And>e. e \<in> set kvs \<Longrightarrow> K (fst e)"
    "\<And>i. i < length kvss \<Longrightarrow> pairs_sorted cmp (kvss ! i) \<and> set (kvss ! i) \<subseteq> set kvs"
    "\<And>a b. a < b \<Longrightarrow> b < length kvs \<Longrightarrow> cmp (fst (kvs ! a)) (fst (kvs ! b)) < 0"
proof -
  have m: "pairs_sorted cmp kvs" "mset kvs = mset (concat kvss)" "\<forall>e \<in> set kvs. K (fst e)" "\<forall>xs \<in> set kvss. pairs_sorted cmp xs"
    using assms by (simp_all add: merge_of_def)
  show d: "distinct kvs" by (rule merged_distinct [OF m(1,3)])
  then show "distinct (concat kvss)" using m(2) mset_eq_imp_distinct_iff by blast
  show s: "set (concat kvss) = set kvs" using m(2) by (metis set_mset_mset)
  show "K (fst e)" if "e \<in> set kvs" for e using m(3) that by blast
  show "pairs_sorted cmp (kvss ! i) \<and> set (kvss ! i) \<subseteq> set kvs" if "i < length kvss" for i
    using m(4) that s nth_mem [OF that] by auto
  show "cmp (fst (kvs ! a)) (fst (kvs ! b)) < 0" if "a < b" "b < length kvs" for a b
    using m(1) that unfolding pairs_sorted_def by (rule sorted_wrt_nth_less)
qed

lemma merged_index:
  assumes "merge_of K cmp kvss kvs" "a < length kvs" "b < length kvs"
  shows "cmp (fst (kvs ! a)) (fst (kvs ! b)) < 0 \<longleftrightarrow> a < b"
proof -
  have "\<not> cmp (fst (kvs ! a)) (fst (kvs ! b)) < 0" if "b \<le> a"
  proof (cases "a = b")
    case True
    then show ?thesis using cmp_refl mergeD(4) [OF assms(1)] assms(2) by simp
  next
    case False
    then have "cmp (fst (kvs ! b)) (fst (kvs ! a)) < 0" using mergeD(6) [OF assms(1)] that assms(2) by simp
    then show ?thesis using cmp_swap mergeD(4) [OF assms(1)] assms(2,3) by fastforce
  qed
  then show ?thesis using mergeD(6) [OF assms(1)] assms(3) by (meson not_le)
qed

lemma child_cut:
  assumes "merge_of K cmp kvss kvs" "i < length kvss" "j < length (kvss ! i)"
  shows "kvss ! i ! j \<in> set (take p kvs) \<longleftrightarrow> j < cut kvs p (kvss ! i)"
  unfolding cut_def
proof (rule filter_prefix [OF _ _ assms(3)])
  show "sorted_wrt (\<lambda>x y. cmp (fst x) (fst y) < 0) (kvss ! i)" using mergeD(5) [OF assms(1,2)] by (simp add: pairs_sorted_def)
  fix x y
  assume xy: "x \<in> set (kvss ! i)" "y \<in> set (kvss ! i)" "cmp (fst x) (fst y) < 0" "y \<in> set (take p kvs)"
  then obtain b where b: "b < p" "b < length kvs" "y = kvs ! b" by (auto simp: in_set_conv_nth)
  have "x \<in> set kvs" using mergeD(5) [OF assms(1,2)] xy(1) by blast
  then obtain a where a: "a < length kvs" "x = kvs ! a" by (auto simp: in_set_conv_nth)
  have "a < b" using merged_index [OF assms(1) a(1) b(2)] xy(3) a(2) b(3) by simp
  then have "a < p" using b(1) by simp
  then show "x \<in> set (take p kvs)" using a nth_mem [of a "take p kvs"] by simp
qed

lemma cut_le: "cut kvs p xs \<le> length xs"
  by (simp add: cut_def)

lemma cut_0: "cut kvs 0 xs = 0"
  by (simp add: cut_def)

lemma cut_all: "merge_of K cmp kvss kvs \<Longrightarrow> i < length kvss \<Longrightarrow> cut kvs (length kvs) (kvss ! i) = length (kvss ! i)"
  using mergeD(5) [of kvss kvs i] by (auto simp: cut_def intro!: arg_cong [of _ _ length] filter_True)

lemma filter_length_mono: "(\<And>x. P x \<Longrightarrow> Q x) \<Longrightarrow> length (filter P xs) \<le> length (filter Q xs)"
  by (induction xs) auto

text \<open>The child that has the pair at \<open>p\<close>, at its \<open>cut\<close>, and the others.\<close>

lemma owner:
  assumes "merge_of K cmp kvss kvs" "p < length kvs"
  shows "\<exists>c<length kvss. kvs ! p \<in> set (kvss ! c)"
proof -
  have "kvs ! p \<in> set (concat kvss)" using mergeD(3) [OF assms(1)] assms(2) by simp
  then show ?thesis by (auto simp: in_set_conv_nth [of _ kvss])
qed

lemma owner_cut:
  assumes "merge_of K cmp kvss kvs" "p < length kvs" "c < length kvss" "kvs ! p \<in> set (kvss ! c)"
  shows "cut kvs p (kvss ! c) < length (kvss ! c)" "kvss ! c ! cut kvs p (kvss ! c) = kvs ! p"
    "cut kvs (Suc p) (kvss ! c) = Suc (cut kvs p (kvss ! c))"
    "\<And>i. i < length kvss \<Longrightarrow> i \<noteq> c \<Longrightarrow> cut kvs (Suc p) (kvss ! i) = cut kvs p (kvss ! i)"
proof -
  have d: "distinct kvs" using mergeD(1) [OF assms(1)] .
  then have p: "kvs ! p \<notin> set (take p kvs)" "set (take (Suc p) kvs) = insert (kvs ! p) (set (take p kvs))"
    using assms(2) by (auto simp: in_set_conv_nth nth_eq_iff_index_eq take_Suc_conv_app_nth)
  have only: "kvss ! i ! j = kvs ! p \<and> \<not> j < cut kvs p (kvss ! i)"
    if "i < length kvss" "j < length (kvss ! i)" "\<not> j < cut kvs p (kvss ! i)" "j < cut kvs (Suc p) (kvss ! i)" for i j
    using child_cut [OF assms(1) that(1,2), of p] child_cut [OF assms(1) that(1,2), of "Suc p"] that p(2) by auto
  have mono: "cut kvs p (kvss ! i) \<le> cut kvs (Suc p) (kvss ! i)" for i
    unfolding cut_def p(2) by (rule filter_length_mono) simp
  obtain j where j: "j < length (kvss ! c)" "kvss ! c ! j = kvs ! p" using assms(4) by (auto simp: in_set_conv_nth)
  have c: "distinct (kvss ! c)"
    using merged_distinct mergeD(4,5) [OF assms(1)] assms(3) by blast
  have jc: "\<not> j < cut kvs p (kvss ! c)" "j < cut kvs (Suc p) (kvss ! c)"
    using child_cut [OF assms(1,3) j(1)] j(2) p by auto
  have same: "k = j" if "\<not> k < cut kvs p (kvss ! c)" "k < cut kvs (Suc p) (kvss ! c)" for k
  proof -
    have "k < length (kvss ! c)" using that(2) cut_le less_le_trans by blast
    then show ?thesis using only [OF assms(3) _ that] j c by (metis nth_eq_iff_index_eq)
  qed
  have "j = cut kvs p (kvss ! c)" using same [of "cut kvs p (kvss ! c)"] jc by simp
  moreover have "cut kvs (Suc p) (kvss ! c) = Suc j" using same [of "Suc j"] jc(2) calculation by fastforce
  ultimately show "cut kvs p (kvss ! c) < length (kvss ! c)" "kvss ! c ! cut kvs p (kvss ! c) = kvs ! p"
    "cut kvs (Suc p) (kvss ! c) = Suc (cut kvs p (kvss ! c))" using j by simp_all
  show "cut kvs (Suc p) (kvss ! i) = cut kvs p (kvss ! i)" if i: "i < length kvss" "i \<noteq> c" for i
  proof (rule ccontr)
    assume "cut kvs (Suc p) (kvss ! i) \<noteq> cut kvs p (kvss ! i)"
    then have less: "cut kvs p (kvss ! i) < cut kvs (Suc p) (kvss ! i)" using mono [of i] by simp
    then have "cut kvs p (kvss ! i) < length (kvss ! i)" using cut_le less_le_trans by blast
    then have "kvs ! p \<in> set (kvss ! i)" using only [OF i(1) _ _ less] by (metis less_irrefl nth_mem)
    then show False using concat_disjoint [OF mergeD(2) [OF assms(1)] i(1) assms(3) i(2)] assms(4) by blast
  qed
qed

text \<open>What the children show going forwards, and going backwards.\<close>

definition prev_of :: "nat \<Rightarrow> pair list \<Rightarrow> nat" where
  "prev_of j xs = (if j = 0 then length xs else j - 1)"

definition all_at :: "pair list list \<Rightarrow> 'it list \<Rightarrow> (nat \<Rightarrow> nat) \<Rightarrow> bool" where
  "all_at kvss its js \<longleftrightarrow> length its = length kvss \<and> (\<forall>i<length kvss. at (kvss ! i) (its ! i) (js i))"

lemma all_at_looks:
  "all_at kvss its js \<Longrightarrow> looks_like ops its (\<lambda>i. js i < length (kvss ! i)) (\<lambda>i. fst (kvss ! i ! js i))"
  using iterator.at_valid [OF child] iterator.at_pair [OF child] by (auto simp: all_at_def looks_like_def)

lemma rest_key:
  assumes "merge_of K cmp kvss kvs" "i < length kvss" "j < length (kvss ! i)"
  shows "\<exists>a<length kvs. kvss ! i ! j = kvs ! a \<and> (a < p \<longleftrightarrow> j < cut kvs p (kvss ! i))"
proof -
  have "kvss ! i ! j \<in> set kvs" using mergeD(5) [OF assms(1,2)] assms(3) nth_mem by blast
  then obtain a where a: "a < length kvs" "kvss ! i ! j = kvs ! a" by (auto simp: in_set_conv_nth)
  have "kvs ! a \<in> set (take p kvs) \<longleftrightarrow> a < p"
    using mergeD(1) [OF assms(1)] a(1) by (auto simp: in_set_conv_nth nth_eq_iff_index_eq)
  then show ?thesis using child_cut [OF assms, of p] a by auto
qed

lemma smallest:
  assumes "merge_of K cmp kvss kvs" "all_at kvss its (\<lambda>i. cut kvs p (kvss ! i))" "p < length kvs" "c < length kvss"
    "kvs ! p \<in> set (kvss ! c)"
  shows "find_best ops (\<lambda>k k'. cmp k k' < 0) its [0..<length its] None = Some (Some c)"
proof (rule find_best_some [OF all_at_looks [OF assms(2)]])
  have len: "length its = length kvss" using assms(2) by (simp add: all_at_def)
  note c = owner_cut [OF assms(1,3-5)]
  show "c < length its" "cut kvs p (kvss ! c) < length (kvss ! c)" using len assms(4) c(1) by simp_all
  show "c \<in> set [0..<length its] \<or> None = Some c" using len assms(4) by simp
  show "\<forall>i<length its. cut kvs p (kvss ! i) < length (kvss ! i) \<longrightarrow> i \<noteq> c \<longrightarrow>
      cmp (fst (kvss ! c ! cut kvs p (kvss ! c))) (fst (kvss ! i ! cut kvs p (kvss ! i))) < 0 \<and>
      \<not> cmp (fst (kvss ! i ! cut kvs p (kvss ! i))) (fst (kvss ! c ! cut kvs p (kvss ! c))) < 0"
  proof (intro allI impI)
    fix i
    assume i: "i < length its" "cut kvs p (kvss ! i) < length (kvss ! i)" "i \<noteq> c"
    obtain a where a: "a < length kvs" "kvss ! i ! cut kvs p (kvss ! i) = kvs ! a" "\<not> a < p"
      using rest_key [OF assms(1) _ i(2), of p] i(1) len by auto
    have "a \<noteq> p"
      using concat_disjoint [OF mergeD(2) [OF assms(1)] _ assms(4) i(3)] assms(5) a(2) i(1,2) len nth_mem by fastforce
    then show "cmp (fst (kvss ! c ! cut kvs p (kvss ! c))) (fst (kvss ! i ! cut kvs p (kvss ! i))) < 0 \<and>
      \<not> cmp (fst (kvss ! i ! cut kvs p (kvss ! i))) (fst (kvss ! c ! cut kvs p (kvss ! c))) < 0"
      using a merged_index [OF assms(1)] assms(3) by (simp add: c(2))
  qed
qed auto

lemma smallest_end:
  assumes "merge_of K cmp kvss kvs" "all_at kvss its (\<lambda>i. cut kvs (length kvs) (kvss ! i))"
  shows "find_best ops better its [0..<length its] None = Some None"
  by (rule find_best_none [OF all_at_looks [OF assms(2)]]) (use assms(2) cut_all [OF assms(1)] in \<open>auto simp: all_at_def\<close>)

lemma largest:
  assumes "merge_of K cmp kvss kvs" "all_at kvss its (\<lambda>i. prev_of (cut kvs (Suc p) (kvss ! i)) (kvss ! i))" "p < length kvs"
    "c < length kvss" "kvs ! p \<in> set (kvss ! c)"
  shows "find_best ops (\<lambda>k k'. cmp k k' > 0) its (rev [0..<length its]) None = Some (Some c)"
proof (rule find_best_some [OF all_at_looks [OF assms(2)]])
  have len: "length its = length kvss" using assms(2) by (simp add: all_at_def)
  note c = owner_cut [OF assms(1,3-5)]
  have pc: "prev_of (cut kvs (Suc p) (kvss ! c)) (kvss ! c) = cut kvs p (kvss ! c)" by (simp add: prev_of_def c(3))
  show "c < length its" "prev_of (cut kvs (Suc p) (kvss ! c)) (kvss ! c) < length (kvss ! c)" using len assms(4) c(1) pc by simp_all
  show "c \<in> set (rev [0..<length its]) \<or> None = Some c" using len assms(4) by simp
  show "\<forall>i<length its. prev_of (cut kvs (Suc p) (kvss ! i)) (kvss ! i) < length (kvss ! i) \<longrightarrow> i \<noteq> c \<longrightarrow>
      cmp (fst (kvss ! c ! prev_of (cut kvs (Suc p) (kvss ! c)) (kvss ! c))) (fst (kvss ! i ! prev_of (cut kvs (Suc p) (kvss ! i)) (kvss ! i))) > 0 \<and>
      \<not> cmp (fst (kvss ! i ! prev_of (cut kvs (Suc p) (kvss ! i)) (kvss ! i))) (fst (kvss ! c ! prev_of (cut kvs (Suc p) (kvss ! c)) (kvss ! c))) > 0"
  proof (intro allI impI)
    fix i
    let ?j = "prev_of (cut kvs (Suc p) (kvss ! i)) (kvss ! i)"
    assume i: "i < length its" "?j < length (kvss ! i)" "i \<noteq> c"
    then have "?j < cut kvs (Suc p) (kvss ! i)" by (auto simp: prev_of_def split: if_splits)
    then obtain a where a: "a < length kvs" "kvss ! i ! ?j = kvs ! a" "a < Suc p"
      using rest_key [OF assms(1) _ i(2), of "Suc p"] i(1) len by auto
    have "a \<noteq> p"
      using concat_disjoint [OF mergeD(2) [OF assms(1)] _ assms(4) i(3)] assms(5) a(2) i(1,2) len nth_mem by fastforce
    then have "cmp (fst (kvs ! a)) (fst (kvs ! p)) < 0" using merged_index [OF assms(1)] assms(3) a by simp
    moreover have "K (fst (kvs ! a))" "K (fst (kvs ! p))" using mergeD(4) [OF assms(1)] a(1) assms(3) by simp_all
    ultimately have "cmp (fst (kvs ! p)) (fst (kvs ! a)) > 0 \<and> \<not> cmp (fst (kvs ! a)) (fst (kvs ! p)) > 0" using cmp_swap by fastforce
    then show "cmp (fst (kvss ! c ! prev_of (cut kvs (Suc p) (kvss ! c)) (kvss ! c))) (fst (kvss ! i ! ?j)) > 0 \<and>
      \<not> cmp (fst (kvss ! i ! ?j)) (fst (kvss ! c ! prev_of (cut kvs (Suc p) (kvss ! c)) (kvss ! c))) > 0"
      by (simp add: pc c(2) a(2))
  qed
qed auto

lemma largest_end:
  assumes "all_at kvss its (\<lambda>i. prev_of (cut kvs 0 (kvss ! i)) (kvss ! i))"
  shows "find_best ops better its (rev [0..<length its]) None = Some None"
  by (rule find_best_none [OF all_at_looks [OF assms]]) (auto simp: prev_of_def cut_0)

text \<open>\<open>Seek\<close> cuts every child at the place where it cuts the merged list.\<close>

lemma seek_filter:
  assumes "pairs_sorted cmp xs" "\<forall>e \<in> set xs. K (fst e)" "K target"
  shows "takeWhile (\<lambda>e. cmp (fst e) target < 0) xs = filter (\<lambda>e. cmp (fst e) target < 0) xs"
  using assms(1,2)
proof (induction xs)
  case (Cons x xs)
  have "\<not> cmp (fst e) target < 0" if "\<not> cmp (fst x) target < 0" "e \<in> set xs" for e
  proof
    assume e: "cmp (fst e) target < 0"
    have "cmp (fst x) (fst e) < 0" using Cons.prems(1) that(2) by (simp add: pairs_sorted_def)
    then have "cmp (fst x) target < 0" using cmp_less_trans [of "fst x" "fst e" target] e Cons.prems(2) that(2) assms(3) by simp
    with that(1) show False by contradiction
  qed
  with Cons show ?case by (auto simp: pairs_sorted_def filter_empty_conv)
qed simp

lemma seek_cut:
  assumes "merge_of K cmp kvss kvs" "i < length kvss" "K target"
  shows "seek_index cmp target (kvss ! i) = cut kvs (seek_index cmp target kvs) (kvss ! i)"
proof -
  let ?P = "\<lambda>e. cmp (fst e) target < 0"
  have sub: "set (kvss ! i) \<subseteq> set kvs" and keys: "\<forall>e \<in> set kvs. K (fst e)" using mergeD(4,5) [OF assms(1)] assms(2) by simp_all
  have "take (seek_index cmp target kvs) kvs = takeWhile ?P kvs" by (simp add: seek_index_def flip: takeWhile_eq_take)
  also have "\<dots> = filter ?P kvs" using seek_filter [OF _ keys assms(3)] assms(1) by (simp add: merge_of_def)
  finally have "cut kvs (seek_index cmp target kvs) (kvss ! i) = length (filter (\<lambda>e. e \<in> set (filter ?P kvs)) (kvss ! i))"
    by (simp add: cut_def)
  also have "filter (\<lambda>e. e \<in> set (filter ?P kvs)) (kvss ! i) = filter ?P (kvss ! i)" using sub by (intro filter_cong) auto
  finally have c: "cut kvs (seek_index cmp target kvs) (kvss ! i) = length (filter ?P (kvss ! i))" .
  have "\<forall>e \<in> set (kvss ! i). K (fst e)" using keys sub by blast
  from seek_filter [OF _ this assms(3)] show ?thesis using mergeD(5) [OF assms(1,2)] by (simp add: c) (simp add: seek_index_def)
qed

lemma seek_self:
  assumes "merge_of K cmp kvss kvs" "p < length kvs"
  shows "seek_index cmp (fst (kvs ! p)) kvs = p"
proof -
  have "takeWhile (\<lambda>e. cmp (fst e) (fst (kvs ! p)) < 0) kvs = take p kvs"
    using merged_index [OF assms(1)] assms(2) by (intro takeWhile_eq_take_P_nth) auto
  then show ?thesis using assms(2) by (simp add: seek_index_def)
qed

section \<open>The merging iterator\<close>

definition merge_at :: "pair list \<Rightarrow> 'it MergingIterator \<Rightarrow> nat \<Rightarrow> bool" where
  "merge_at kvs m p \<longleftrightarrow> (\<exists>kvss js. merge_of K cmp kvss kvs \<and> all_at kvss (mi_children m) js \<and>
     (case mi_current m of
        None \<Rightarrow> p = length kvs
      | Some c \<Rightarrow> p < length kvs \<and> c < length kvss \<and> kvs ! p \<in> set (kvss ! c) \<and>
          (\<forall>i<length kvss. js i = (if mi_direction m = MergeForward then cut kvs p (kvss ! i)
                                   else prev_of (cut kvs (Suc p) (kvss ! i)) (kvss ! i)))))"

lemma merge_atI:
  assumes "merge_of K cmp kvss kvs" "all_at kvss (mi_children m) js"
    "case mi_current m of
        None \<Rightarrow> p = length kvs
      | Some c \<Rightarrow> p < length kvs \<and> c < length kvss \<and> kvs ! p \<in> set (kvss ! c) \<and>
          (\<forall>i<length kvss. js i = (if mi_direction m = MergeForward then cut kvs p (kvss ! i)
                                   else prev_of (cut kvs (Suc p) (kvss ! i)) (kvss ! i)))"
  shows "merge_at kvs m p"
  unfolding merge_at_def by (intro exI [of _ kvss] exI [of _ js] conjI assms)

lemma found_smallest:
  assumes "merge_of K cmp kvss kvs" "all_at kvss (mi_children m) (\<lambda>i. cut kvs p (kvss ! i))" "p \<le> length kvs"
  shows "\<exists>m'. FindSmallest ops cmp m = Some m' \<and> merge_at kvs (m'\<lparr>mi_direction := MergeForward\<rparr>) p \<and>
    mi_direction m' = mi_direction m"
proof (cases "p < length kvs")
  case True
  obtain c where c: "c < length kvss" "kvs ! p \<in> set (kvss ! c)" using owner [OF assms(1) True] by blast
  have "merge_at kvs (m\<lparr>mi_current := Some c, mi_direction := MergeForward\<rparr>) p"
    by (rule merge_atI [OF assms(1)]) (use assms(2) True c in \<open>auto\<close>)
  then show ?thesis using smallest [OF assms(1,2) True c] by (simp add: FindSmallest_def)
next
  case False
  with assms(3) have p: "p = length kvs" by simp
  have "merge_at kvs (m\<lparr>mi_current := None, mi_direction := MergeForward\<rparr>) p"
    by (rule merge_atI [OF assms(1)]) (use assms(2) p in simp_all)
  then show ?thesis using smallest_end [OF assms(1)] assms(2) p by (simp add: FindSmallest_def)
qed

lemma found_largest:
  assumes "merge_of K cmp kvss kvs" "all_at kvss (mi_children m) (\<lambda>i. prev_of (cut kvs p (kvss ! i)) (kvss ! i))" "p \<le> length kvs"
  shows "\<exists>m'. FindLargest ops cmp m = Some m' \<and>
    merge_at kvs (m'\<lparr>mi_direction := MergeReverse\<rparr>) (if p = 0 then length kvs else p - 1) \<and> mi_direction m' = mi_direction m"
proof (cases p)
  case 0
  have "merge_at kvs (m\<lparr>mi_current := None, mi_direction := MergeReverse\<rparr>) (length kvs)"
    by (rule merge_atI [OF assms(1)]) (use assms(2) in simp_all)
  then show ?thesis using largest_end assms(2) 0 by (simp add: FindLargest_def)
next
  case (Suc q)
  then have q: "q < length kvs" using assms(3) by simp
  obtain c where c: "c < length kvss" "kvs ! q \<in> set (kvss ! c)" using owner [OF assms(1) q] by blast
  have "merge_at kvs (m\<lparr>mi_current := Some c, mi_direction := MergeReverse\<rparr>) q"
    by (rule merge_atI [OF assms(1)]) (use assms(2) Suc q c in \<open>auto\<close>)
  then show ?thesis using largest [OF assms(1) _ q c] assms(2) Suc by (simp add: FindLargest_def)
qed

text \<open>One loop over the children.\<close>

lemma each_child_at:
  assumes "all_at kvss its js"
    "\<And>i it. i < length kvss \<Longrightarrow> at (kvss ! i) it (js i) \<Longrightarrow> \<exists>it'. f i it = Some it' \<and> at (kvss ! i) it' (js' i)"
  shows "\<exists>its'. each_child f 0 its = Some its' \<and> all_at kvss its' js'"
  using each_child_spec [of its f 0 "\<lambda>i it. at (kvss ! i) it (js' i)"] assms by (auto simp: all_at_def)

lemma seek_children:
  assumes "merge_of K cmp kvss kvs" "all_at kvss its js" "K target"
  shows "\<exists>its'. each_child (\<lambda>_. it_Seek ops target) 0 its = Some its' \<and>
    all_at kvss its' (\<lambda>i. cut kvs (seek_index cmp target kvs) (kvss ! i))"
  using each_child_at [OF assms(2), of "\<lambda>_. it_Seek ops target" "\<lambda>i. cut kvs (seek_index cmp target kvs) (kvss ! i)"]
    iterator.at_seek [OF child _ assms(3)] seek_cut [OF assms(1) _ assms(3)] by force

lemma merging_seek:
  assumes "merge_at kvs m p" "K target"
  shows "\<exists>m'. Merging_Seek ops cmp target m = Some m' \<and> merge_at kvs m' (seek_index cmp target kvs)"
proof -
  obtain kvss js where m: "merge_of K cmp kvss kvs" "all_at kvss (mi_children m) js" using assms(1) unfolding merge_at_def by blast
  obtain its where its: "each_child (\<lambda>_. it_Seek ops target) 0 (mi_children m) = Some its"
    "all_at kvss its (\<lambda>i. cut kvs (seek_index cmp target kvs) (kvss ! i))"
    using seek_children [OF m assms(2)] by blast
  obtain m' where "FindSmallest ops cmp (m\<lparr>mi_children := its\<rparr>) = Some m'"
    "merge_at kvs (m'\<lparr>mi_direction := MergeForward\<rparr>) (seek_index cmp target kvs)"
    using found_smallest [OF m(1), of "m\<lparr>mi_children := its\<rparr>" "seek_index cmp target kvs"] its(2) seek_index_le [of cmp target kvs] by auto
  then show ?thesis using its(1) by (simp add: Merging_Seek_def)
qed

lemma merging_first:
  assumes "merge_at kvs m p"
  shows "\<exists>m'. Merging_SeekToFirst ops cmp m = Some m' \<and> merge_at kvs m' 0"
proof -
  obtain kvss js where m: "merge_of K cmp kvss kvs" "all_at kvss (mi_children m) js" using assms unfolding merge_at_def by blast
  obtain its where its: "each_child (\<lambda>_. it_SeekToFirst ops) 0 (mi_children m) = Some its" "all_at kvss its (\<lambda>i. 0)"
    using each_child_at [OF m(2), of "\<lambda>_. it_SeekToFirst ops" "\<lambda>_. 0"] iterator.at_first [OF child] by blast
  obtain m' where "FindSmallest ops cmp (m\<lparr>mi_children := its\<rparr>) = Some m'" "merge_at kvs (m'\<lparr>mi_direction := MergeForward\<rparr>) 0"
    using found_smallest [OF m(1), of "m\<lparr>mi_children := its\<rparr>" 0] its(2) by (auto simp: cut_0)
  then show ?thesis using its(1) by (simp add: Merging_SeekToFirst_def)
qed

lemma merging_last:
  assumes "merge_at kvs m p"
  shows "\<exists>m'. Merging_SeekToLast ops cmp m = Some m' \<and> merge_at kvs m' (length kvs - 1)"
proof -
  obtain kvss js where m: "merge_of K cmp kvss kvs" "all_at kvss (mi_children m) js" using assms unfolding merge_at_def by blast
  let ?js = "\<lambda>i. prev_of (cut kvs (length kvs) (kvss ! i)) (kvss ! i)"
  have ends: "?js i = length (kvss ! i) - 1" if "i < length kvss" for i using cut_all [OF m(1) that] by (simp add: prev_of_def)
  obtain its where its: "each_child (\<lambda>_. it_SeekToLast ops) 0 (mi_children m) = Some its" "all_at kvss its ?js"
    using each_child_at [OF m(2), of "\<lambda>_. it_SeekToLast ops" ?js] iterator.at_last [OF child] ends by force
  have p: "(if length kvs = 0 then length kvs else length kvs - 1) = length kvs - 1" by simp
  obtain m' where "FindLargest ops cmp (m\<lparr>mi_children := its\<rparr>) = Some m'"
    "merge_at kvs (m'\<lparr>mi_direction := MergeReverse\<rparr>) (length kvs - 1)"
    using found_largest [OF m(1), of "m\<lparr>mi_children := its\<rparr>" "length kvs"] its(2) unfolding p by auto
  then show ?thesis using its(1) by (simp add: Merging_SeekToLast_def)
qed

text \<open>A valid one, and its children once they are turned round.\<close>

lemma merging_valid:
  assumes "merge_at kvs m p" "p < length kvs"
  obtains kvss c where "merge_of K cmp kvss kvs" "mi_current m = Some c" "c < length kvss" "kvs ! p \<in> set (kvss ! c)"
    "mi_direction m = MergeForward \<longrightarrow> all_at kvss (mi_children m) (\<lambda>i. cut kvs p (kvss ! i))"
    "mi_direction m = MergeReverse \<longrightarrow> all_at kvss (mi_children m) (\<lambda>i. prev_of (cut kvs (Suc p) (kvss ! i)) (kvss ! i))"
    "at (kvss ! c) (mi_children m ! c) (cut kvs p (kvss ! c))" "length (mi_children m) = length kvss"
proof -
  obtain kvss js where m: "merge_of K cmp kvss kvs" "all_at kvss (mi_children m) js"
     "case mi_current m of
        None \<Rightarrow> p = length kvs
      | Some c \<Rightarrow> p < length kvs \<and> c < length kvss \<and> kvs ! p \<in> set (kvss ! c) \<and>
          (\<forall>i<length kvss. js i = (if mi_direction m = MergeForward then cut kvs p (kvss ! i)
                                   else prev_of (cut kvs (Suc p) (kvss ! i)) (kvss ! i)))"
    using assms(1) unfolding merge_at_def by blast
  obtain c where c: "mi_current m = Some c" "c < length kvss" "kvs ! p \<in> set (kvss ! c)"
      "\<forall>i<length kvss. js i = (if mi_direction m = MergeForward then cut kvs p (kvss ! i)
                                   else prev_of (cut kvs (Suc p) (kvss ! i)) (kvss ! i))"
    using m(3) assms(2) by (auto split: option.splits)
  have "js c = cut kvs p (kvss ! c)" using c owner_cut(3) [OF m(1) assms(2) c(2,3)] by (simp add: prev_of_def)
  then have "at (kvss ! c) (mi_children m ! c) (cut kvs p (kvss ! c))" using m(2) c(2) by (auto simp: all_at_def)
  moreover have "all_at kvss (mi_children m) (\<lambda>i. cut kvs p (kvss ! i))" if "mi_direction m = MergeForward"
    using m(2) c(4) that by (simp add: all_at_def)
  moreover have "all_at kvss (mi_children m) (\<lambda>i. prev_of (cut kvs (Suc p) (kvss ! i)) (kvss ! i))" if "mi_direction m = MergeReverse"
    using m(2) c(4) that by (simp add: all_at_def)
  moreover have "length (mi_children m) = length kvss" using m(2) by (simp add: all_at_def)
  ultimately show thesis using that [OF m(1) c(1-3)] by blast
qed

lemma others_ahead:
  assumes "merge_of K cmp kvss kvs" "p < length kvs" "c < length kvss" "kvs ! p \<in> set (kvss ! c)"
    "i < length kvss" "i \<noteq> c" "cut kvs p (kvss ! i) < length (kvss ! i)"
  shows "cmp (fst (kvs ! p)) (fst (kvss ! i ! cut kvs p (kvss ! i))) < 0"
proof -
  obtain a where a: "a < length kvs" "kvss ! i ! cut kvs p (kvss ! i) = kvs ! a" "\<not> a < p"
    using rest_key [OF assms(1,5,7), of p] by auto
  have "kvss ! i ! cut kvs p (kvss ! i) \<in> set (kvss ! i)" using assms(7) by simp
  then have "a \<noteq> p" using concat_disjoint [OF mergeD(2) [OF assms(1)] assms(5,3,6)] assms(4) a(2) by auto
  then show ?thesis using a mergeD(6) [OF assms(1), of p a] by simp
qed

lemma seek_child:
  assumes "merge_of K cmp kvss kvs" "p < length kvs" "i < length kvss" "at (kvss ! i) it j"
  shows "\<exists>it'. it_Seek ops (fst (kvs ! p)) it = Some it' \<and> at (kvss ! i) it' (cut kvs p (kvss ! i))"
proof -
  have K: "K (fst (kvs ! p))" using mergeD(4) [OF assms(1)] assms(2) by simp
  show ?thesis using iterator.at_seek [OF child assms(4) K] seek_cut [OF assms(1,3) K] seek_self [OF assms(1,2)] by simp
qed

lemma children_after:
  assumes "merge_of K cmp kvss kvs" "p < length kvs" "c < length kvss" "kvs ! p \<in> set (kvss ! c)"
    "all_at kvss its js" "js c = cut kvs p (kvss ! c)"
  shows "\<exists>its'. each_child (child_after ops cmp (fst (kvs ! p)) c) 0 its = Some its' \<and> all_at kvss its' (\<lambda>i. cut kvs p (kvss ! i))"
proof (rule each_child_at [OF assms(5)])
  fix i it
  assume i: "i < length kvss" "at (kvss ! i) it (js i)"
  show "\<exists>it'. child_after ops cmp (fst (kvs ! p)) c i it = Some it' \<and> at (kvss ! i) it' (cut kvs p (kvss ! i))"
  proof (cases "i = c")
    case True
    then show ?thesis using i assms(6) by (simp add: child_after_def)
  next
    case False
    obtain it' where it': "it_Seek ops (fst (kvs ! p)) it = Some it'" "at (kvss ! i) it' (cut kvs p (kvss ! i))"
      using seek_child [OF assms(1,2) i] by blast
    have "cmp (fst (kvs ! p)) (fst (kvss ! i ! cut kvs p (kvss ! i))) \<noteq> 0" if "cut kvs p (kvss ! i) < length (kvss ! i)"
      using others_ahead [OF assms(1-4) i(1) False that] by simp
    then show ?thesis
      using it' False iterator.at_valid [OF child it'(2)] iterator.at_pair [OF child it'(2)] by (auto simp: child_after_def)
  qed
qed

lemma children_before:
  assumes "merge_of K cmp kvss kvs" "p < length kvs" "c < length kvss" "kvs ! p \<in> set (kvss ! c)"
    "all_at kvss its js" "js c = cut kvs p (kvss ! c)"
  shows "\<exists>its'. each_child (child_before ops (fst (kvs ! p)) c) 0 its = Some its' \<and>
    all_at kvss its' (\<lambda>i. prev_of (cut kvs (Suc p) (kvss ! i)) (kvss ! i))"
proof (rule each_child_at [OF assms(5)])
  note c = owner_cut [OF assms(1-4)]
  fix i it
  assume i: "i < length kvss" "at (kvss ! i) it (js i)"
  let ?j = "cut kvs p (kvss ! i)"
  show "\<exists>it'. child_before ops (fst (kvs ! p)) c i it = Some it' \<and> at (kvss ! i) it' (prev_of (cut kvs (Suc p) (kvss ! i)) (kvss ! i))"
  proof (cases "i = c")
    case True
    then show ?thesis using i assms(6) c(3) by (simp add: child_before_def prev_of_def)
  next
    case False
    obtain it' where it': "it_Seek ops (fst (kvs ! p)) it = Some it'" "at (kvss ! i) it' ?j"
      using seek_child [OF assms(1,2) i] by blast
    have same: "cut kvs (Suc p) (kvss ! i) = ?j" by (rule c(4) [OF i(1) False])
    show ?thesis
    proof (cases "?j < length (kvss ! i)")
      case True
      then show ?thesis using it' False iterator.at_valid [OF child it'(2)] iterator.at_prev [OF child it'(2) True]
        by (simp add: child_before_def same prev_of_def)
    next
      case ge: False
      have le: "?j \<le> length (kvss ! i)" by (rule cut_le)
      show ?thesis using it' False iterator.at_valid [OF child it'(2)] iterator.at_last [OF child it'(2)] ge le
        by (auto simp add: child_before_def same prev_of_def)
    qed
  qed
qed

lemma update_at:
  assumes "all_at kvss its js" "c < length kvss" "at (kvss ! c) it (js' c)" "\<And>i. i < length kvss \<Longrightarrow> i \<noteq> c \<Longrightarrow> js' i = js i"
  shows "all_at kvss (its[c := it]) js'"
  using assms by (auto simp: all_at_def nth_list_update)

lemma merging_pair:
  assumes "merge_at kvs m p" "p < length kvs"
  shows "Merging_key ops m = Some (fst (kvs ! p))" "Merging_value ops m = Some (snd (kvs ! p))"
proof -
  obtain kvss c where m: "merge_of K cmp kvss kvs" "mi_current m = Some c" "c < length kvss" "kvs ! p \<in> set (kvss ! c)"
    "mi_direction m = MergeForward \<longrightarrow> all_at kvss (mi_children m) (\<lambda>i. cut kvs p (kvss ! i))"
    "mi_direction m = MergeReverse \<longrightarrow> all_at kvss (mi_children m) (\<lambda>i. prev_of (cut kvs (Suc p) (kvss ! i)) (kvss ! i))"
    "at (kvss ! c) (mi_children m ! c) (cut kvs p (kvss ! c))" "length (mi_children m) = length kvss"
    by (rule merging_valid [OF assms]) (rule that)
  note c = owner_cut(1,2) [OF m(1) assms(2) m(3,4)]
  have cc: "current_child m = Some (c, mi_children m ! c)" using m(2,3,8) by (simp add: current_child_def nth_opt_def)
  show "Merging_key ops m = Some (fst (kvs ! p))" "Merging_value ops m = Some (snd (kvs ! p))"
    using iterator.at_pair [OF child m(7) c(1)] by (simp_all add: Merging_key_def Merging_value_def cc c(2))
qed

lemma merging_next:
  assumes "merge_at kvs m p" "p < length kvs"
  shows "\<exists>m'. Merging_Next ops cmp m = Some m' \<and> merge_at kvs m' (Suc p)"
proof -
  obtain kvss c where m: "merge_of K cmp kvss kvs" "mi_current m = Some c" "c < length kvss" "kvs ! p \<in> set (kvss ! c)"
    "mi_direction m = MergeForward \<longrightarrow> all_at kvss (mi_children m) (\<lambda>i. cut kvs p (kvss ! i))"
    "mi_direction m = MergeReverse \<longrightarrow> all_at kvss (mi_children m) (\<lambda>i. prev_of (cut kvs (Suc p) (kvss ! i)) (kvss ! i))"
    "at (kvss ! c) (mi_children m ! c) (cut kvs p (kvss ! c))" "length (mi_children m) = length kvss"
    by (rule merging_valid [OF assms]) (rule that)
  note c = owner_cut [OF m(1) assms(2) m(3,4)]
  have "\<exists>its. (if mi_direction m \<noteq> MergeForward then
                 do { key \<leftarrow> Merging_key ops m;
                      children \<leftarrow> each_child (child_after ops cmp key c) 0 (mi_children m);
                      Some (m\<lparr>mi_children := children, mi_direction := MergeForward\<rparr>) }
               else Some m) = Some (m\<lparr>mi_children := its, mi_direction := MergeForward\<rparr>) \<and>
      all_at kvss its (\<lambda>i. cut kvs p (kvss ! i))"
  proof (cases "mi_direction m")
    case MergeForward
    then show ?thesis using m(5) by (intro exI [of _ "mi_children m"]) simp
  next
    case MergeReverse
    have "prev_of (cut kvs (Suc p) (kvss ! c)) (kvss ! c) = cut kvs p (kvss ! c)" by (simp add: c(3) prev_of_def)
    then show ?thesis using children_after [OF m(1) assms(2) m(3,4) m(6) [rule_format]] MergeReverse merging_pair(1) [OF assms] by auto
  qed
  then obtain its where its: "(if mi_direction m \<noteq> MergeForward then
                 do { key \<leftarrow> Merging_key ops m;
                      children \<leftarrow> each_child (child_after ops cmp key c) 0 (mi_children m);
                      Some (m\<lparr>mi_children := children, mi_direction := MergeForward\<rparr>) }
               else Some m) = Some (m\<lparr>mi_children := its, mi_direction := MergeForward\<rparr>)"
      "all_at kvss its (\<lambda>i. cut kvs p (kvss ! i))" by blast
  have "at (kvss ! c) (its ! c) (cut kvs p (kvss ! c))" "c < length its" using its(2) m(3) by (simp_all add: all_at_def)
  then obtain it where it: "nth_opt its c = Some (its ! c)" "it_Next ops (its ! c) = Some it" "at (kvss ! c) it (cut kvs (Suc p) (kvss ! c))"
    using iterator.at_next [OF child _ c(1)] by (auto simp: nth_opt_def c(3))
  have "all_at kvss (its[c := it]) (\<lambda>i. cut kvs (Suc p) (kvss ! i))"
    by (rule update_at [OF its(2) m(3) it(3) c(4)])
  then obtain m' where m': "FindSmallest ops cmp (m\<lparr>mi_direction := MergeForward, mi_children := its[c := it]\<rparr>) = Some m'"
      "merge_at kvs (m'\<lparr>mi_direction := MergeForward\<rparr>) (Suc p)" "mi_direction m' = MergeForward"
    using found_smallest [OF m(1), of "m\<lparr>mi_direction := MergeForward, mi_children := its[c := it]\<rparr>" "Suc p"] assms(2) by auto
  have "m'\<lparr>mi_direction := MergeForward\<rparr> = m'" using m'(3) by simp
  then show ?thesis using m'(1,2) it(1,2) unfolding Merging_Next_def m(2) by (simp add: its(1) del: nth_opt_Some)
qed

lemma merging_prev:
  assumes "merge_at kvs m p" "p < length kvs"
  shows "\<exists>m'. Merging_Prev ops cmp m = Some m' \<and> merge_at kvs m' (if p = 0 then length kvs else p - 1)"
proof -
  obtain kvss c where m: "merge_of K cmp kvss kvs" "mi_current m = Some c" "c < length kvss" "kvs ! p \<in> set (kvss ! c)"
    "mi_direction m = MergeForward \<longrightarrow> all_at kvss (mi_children m) (\<lambda>i. cut kvs p (kvss ! i))"
    "mi_direction m = MergeReverse \<longrightarrow> all_at kvss (mi_children m) (\<lambda>i. prev_of (cut kvs (Suc p) (kvss ! i)) (kvss ! i))"
    "at (kvss ! c) (mi_children m ! c) (cut kvs p (kvss ! c))" "length (mi_children m) = length kvss"
    by (rule merging_valid [OF assms]) (rule that)
  note c = owner_cut [OF m(1) assms(2) m(3,4)]
  have "\<exists>its. (if mi_direction m \<noteq> MergeReverse then
                 do { key \<leftarrow> Merging_key ops m;
                      children \<leftarrow> each_child (child_before ops key c) 0 (mi_children m);
                      Some (m\<lparr>mi_children := children, mi_direction := MergeReverse\<rparr>) }
               else Some m) = Some (m\<lparr>mi_children := its, mi_direction := MergeReverse\<rparr>) \<and>
      all_at kvss its (\<lambda>i. prev_of (cut kvs (Suc p) (kvss ! i)) (kvss ! i))"
  proof (cases "mi_direction m")
    case MergeReverse
    then show ?thesis using m(6) by (intro exI [of _ "mi_children m"]) simp
  next
    case MergeForward
    then show ?thesis using children_before [OF m(1) assms(2) m(3,4) m(5) [rule_format]] merging_pair(1) [OF assms] by auto
  qed
  then obtain its where its: "(if mi_direction m \<noteq> MergeReverse then
                 do { key \<leftarrow> Merging_key ops m;
                      children \<leftarrow> each_child (child_before ops key c) 0 (mi_children m);
                      Some (m\<lparr>mi_children := children, mi_direction := MergeReverse\<rparr>) }
               else Some m) = Some (m\<lparr>mi_children := its, mi_direction := MergeReverse\<rparr>)"
      "all_at kvss its (\<lambda>i. prev_of (cut kvs (Suc p) (kvss ! i)) (kvss ! i))" by blast
  have pc: "prev_of (cut kvs (Suc p) (kvss ! c)) (kvss ! c) = cut kvs p (kvss ! c)" by (simp add: c(3) prev_of_def)
  have "at (kvss ! c) (its ! c) (cut kvs p (kvss ! c))" "c < length its" using its(2) m(3) pc by (auto simp: all_at_def)
  then obtain it where it: "nth_opt its c = Some (its ! c)" "it_Prev ops (its ! c) = Some it"
      "at (kvss ! c) it (prev_of (cut kvs p (kvss ! c)) (kvss ! c))"
    using iterator.at_prev [OF child _ c(1)] by (auto simp: nth_opt_def prev_of_def)
  have "all_at kvss (its[c := it]) (\<lambda>i. prev_of (cut kvs p (kvss ! i)) (kvss ! i))"
    using update_at [OF its(2) m(3), of it "\<lambda>i. prev_of (cut kvs p (kvss ! i)) (kvss ! i)"] it(3) c(4) by simp
  then obtain m' where m': "FindLargest ops cmp (m\<lparr>mi_direction := MergeReverse, mi_children := its[c := it]\<rparr>) = Some m'"
      "merge_at kvs (m'\<lparr>mi_direction := MergeReverse\<rparr>) (if p = 0 then length kvs else p - 1)" "mi_direction m' = MergeReverse"
    using found_largest [OF m(1), of "m\<lparr>mi_direction := MergeReverse, mi_children := its[c := it]\<rparr>" p] assms(2) by auto
  have "m'\<lparr>mi_direction := MergeReverse\<rparr> = m'" using m'(3) by simp
  then show ?thesis using m'(1,2) it(1,2) unfolding Merging_Prev_def m(2) by (simp add: its(1) del: nth_opt_Some)
qed

lemma merging_iterator: "iterator_ops merge_at (MergingOps ops cmp) K cmp"
proof
  fix kvs m p assume at: "merge_at kvs m p"
  show "p \<le> length kvs \<and> it_Valid (MergingOps ops cmp) m = (p < length kvs)"
    using at by (auto simp: merge_at_def MergingOps_def Merging_Valid_def split: option.splits)
  show "\<exists>m'. it_SeekToFirst (MergingOps ops cmp) m = Some m' \<and> merge_at kvs m' 0"
    using merging_first [OF at] by (simp add: MergingOps_def)
  show "\<exists>m'. it_SeekToLast (MergingOps ops cmp) m = Some m' \<and> merge_at kvs m' (length kvs - 1)"
    using merging_last [OF at] by (simp add: MergingOps_def)
  show "\<exists>m'. it_Seek (MergingOps ops cmp) target m = Some m' \<and> merge_at kvs m' (seek_index cmp target kvs)" if "K target" for target
    using merging_seek [OF at that] by (simp add: MergingOps_def)
  assume p: "p < length kvs"
  show "it_key (MergingOps ops cmp) m = Some (fst (kvs ! p)) \<and> it_value (MergingOps ops cmp) m = Some (snd (kvs ! p))"
    using merging_pair [OF at p] by (simp add: MergingOps_def)
  show "\<exists>m'. it_Next (MergingOps ops cmp) m = Some m' \<and> merge_at kvs m' (Suc p)"
    using merging_next [OF at p] by (simp add: MergingOps_def)
  show "\<exists>m'. it_Prev (MergingOps ops cmp) m = Some m' \<and> merge_at kvs m' (if p = 0 then length kvs else p - 1)"
    using merging_prev [OF at p] by (simp add: MergingOps_def)
qed

text \<open>A new one, over children that are anywhere.\<close>

lemma new_merging_at:
  assumes "merge_of K cmp kvss kvs" "all_at kvss its js"
  shows "merge_at kvs (new_MergingIterator its) (length kvs)"
  by (rule merge_atI [OF assms(1), of _ js]) (use assms(2) in \<open>simp_all add: new_MergingIterator_def\<close>)

end

end
