(* ===== verification/LdbArena.thy ===== *)
theory LdbArena
  imports PbPrelude "HOL-Library.Monad_Syntax" "HOL-Library.Sublist"
begin

text \<open>
  \<open>util/arena.cc\<close>: a pointer is the number of its block and the offset in it, \<open>None\<close> is \<open>NULL\<close>. \<open>new\<close> gives a
  block of its own, aligned as any object needs it, so that an address is aligned if its offset is; it does not
  fail here. \<open>None\<close> as a result is a failed assertion. What is allocated was free before and never is
  again (\<open>takes\<close>), so allocations do not overlap.
\<close>

type_synonym arena_ptr = "nat \<times> nat"

record Arena =
  ar_ptr :: "arena_ptr option"
  ar_remaining :: nat
  ar_blocks :: "nat list"
  ar_memory_usage :: "64 word"

definition kArenaBlockSize :: nat where "kArenaBlockSize = 4096"

definition new_Arena :: Arena where
  "new_Arena = \<lparr>ar_ptr = None, ar_remaining = 0, ar_blocks = [], ar_memory_usage = 0\<rparr>"

definition MemoryUsage :: "Arena \<Rightarrow> 64 word" where
  "MemoryUsage ar = ar_memory_usage ar"

definition AllocateNewBlock :: "nat \<Rightarrow> Arena \<Rightarrow> arena_ptr \<times> Arena" where
  "AllocateNewBlock block_bytes ar =
     ((length (ar_blocks ar), 0),
      ar\<lparr>ar_blocks := ar_blocks ar @ [block_bytes], ar_memory_usage := MemoryUsage ar + of_nat block_bytes + 8\<rparr>)"

definition AllocateFallback :: "nat \<Rightarrow> Arena \<Rightarrow> arena_ptr \<times> Arena" where
  "AllocateFallback bytes ar =
     (if bytes > kArenaBlockSize div 4 then AllocateNewBlock bytes ar
      else
        (let (result, ar) = AllocateNewBlock kArenaBlockSize ar in
          (result, ar\<lparr>ar_ptr := Some (fst result, snd result + bytes), ar_remaining := kArenaBlockSize - bytes\<rparr>)))"

definition Arena_Allocate :: "nat \<Rightarrow> Arena \<Rightarrow> (arena_ptr option \<times> Arena) option" where
  "Arena_Allocate bytes ar =
     (if bytes = 0 then None
      else if bytes \<le> ar_remaining ar then
        Some (ar_ptr ar, ar\<lparr>ar_ptr := map_option (\<lambda>(b, off). (b, off + bytes)) (ar_ptr ar), ar_remaining := ar_remaining ar - bytes\<rparr>)
      else (let (result, ar) = AllocateFallback bytes ar in Some (Some result, ar)))"

definition AllocateAligned :: "nat \<Rightarrow> Arena \<Rightarrow> (arena_ptr option \<times> Arena) option" where
  "AllocateAligned bytes ar =
     (let align = 8;
          current_mod = (case ar_ptr ar of None \<Rightarrow> 0 | Some (b, off) \<Rightarrow> off mod align);
          slop = (if current_mod = 0 then 0 else align - current_mod);
          needed = (bytes + slop) mod 2 ^ 64;
          (result, ar) =
            (if needed \<le> ar_remaining ar then
               (map_option (\<lambda>(b, off). (b, off + slop)) (ar_ptr ar),
                ar\<lparr>ar_ptr := map_option (\<lambda>(b, off). (b, off + needed)) (ar_ptr ar), ar_remaining := ar_remaining ar - needed\<rparr>)
             else (let (result, ar) = AllocateFallback bytes ar in (Some result, ar))) in
      case result of
        None \<Rightarrow> Some (None, ar)
      | Some (b, off) \<Rightarrow> if off mod align = 0 then Some (Some (b, off), ar) else None)"

section \<open>What is free\<close>

definition arena_inv :: "Arena \<Rightarrow> bool" where
  "arena_inv ar \<longleftrightarrow>
     (case ar_ptr ar of
        None \<Rightarrow> ar_remaining ar = 0
      | Some (b, off) \<Rightarrow> b < length (ar_blocks ar) \<and> off + ar_remaining ar = ar_blocks ar ! b)"

definition is_free :: "Arena \<Rightarrow> arena_ptr \<Rightarrow> bool" where
  "is_free ar p \<longleftrightarrow> fst p \<ge> length (ar_blocks ar) \<or>
     (case ar_ptr ar of None \<Rightarrow> False | Some (b, off) \<Rightarrow> fst p = b \<and> off \<le> snd p \<and> snd p < off + ar_remaining ar)"

text \<open>The \<open>bytes\<close> bytes from \<open>p\<close> on.\<close>

definition region :: "arena_ptr \<Rightarrow> nat \<Rightarrow> arena_ptr set" where
  "region p bytes = {(fst p, off) |off. snd p \<le> off \<and> off < snd p + bytes}"

text \<open>An allocation: inside a block, of what was free, and nothing becomes free by it.\<close>

definition takes :: "Arena \<Rightarrow> arena_ptr \<Rightarrow> nat \<Rightarrow> Arena \<Rightarrow> bool" where
  "takes ar p bytes ar' \<longleftrightarrow> arena_inv ar' \<and> prefix (ar_blocks ar) (ar_blocks ar') \<and> fst p < length (ar_blocks ar') \<and> snd p + bytes \<le> ar_blocks ar' ! fst p \<and>
     (\<forall>q \<in> region p bytes. is_free ar q \<and> \<not> is_free ar' q) \<and> (\<forall>q. is_free ar' q \<longrightarrow> is_free ar q)"

lemma new_Arena_inv: "arena_inv new_Arena"
  by (simp add: arena_inv_def new_Arena_def)

lemma AllocateFallback_takes:
  assumes "arena_inv ar" "AllocateFallback bytes ar = (p, ar')"
  shows "takes ar p bytes ar' \<and> snd p = 0"
proof (cases "bytes > kArenaBlockSize div 4")
  case True
  then have p: "p = (length (ar_blocks ar), 0)"
    "ar' = ar\<lparr>ar_blocks := ar_blocks ar @ [bytes], ar_memory_usage := MemoryUsage ar + of_nat bytes + 8\<rparr>"
    using assms(2) by (simp_all add: AllocateFallback_def AllocateNewBlock_def)
  show ?thesis
    using assms(1) unfolding p
    by (auto simp: takes_def arena_inv_def is_free_def region_def nth_append split: option.splits)
next
  case False
  then have "bytes \<le> 4096" by (simp add: kArenaBlockSize_def)
  with False show ?thesis
    using assms by (auto simp: AllocateFallback_def AllocateNewBlock_def kArenaBlockSize_def takes_def arena_inv_def is_free_def region_def
        nth_append split: option.splits)
qed

lemma Arena_Allocate_takes:
  assumes "arena_inv ar" "0 < bytes"
  shows "\<exists>p ar'. Arena_Allocate bytes ar = Some (Some p, ar') \<and> takes ar p bytes ar'"
proof (cases "bytes \<le> ar_remaining ar")
  case True
  then obtain b off where p: "ar_ptr ar = Some (b, off)" using assms by (cases "ar_ptr ar") (auto simp: arena_inv_def)
  then show ?thesis
    using True assms by (auto simp: Arena_Allocate_def takes_def arena_inv_def is_free_def region_def)
next
  case False
  then show ?thesis
    using AllocateFallback_takes [OF assms(1)] assms(2) by (cases "AllocateFallback bytes ar") (auto simp: Arena_Allocate_def)
qed

lemma AllocateAligned_takes:
  assumes "arena_inv ar" "0 < bytes" "bytes < 2 ^ 63"
  shows "\<exists>p ar'. AllocateAligned bytes ar = Some (Some p, ar') \<and> takes ar p bytes ar' \<and> snd p mod 8 = 0"
proof -
  define cm where "cm = (case ar_ptr ar of None \<Rightarrow> 0 | Some (b, off) \<Rightarrow> off mod 8)"
  define slop where "slop = (if cm = 0 then 0 else 8 - cm)"
  have cm: "cm < 8" by (simp add: cm_def split: option.splits)
  then have needed: "(bytes + slop) mod 2 ^ 64 = bytes + slop" using assms(3) by (simp add: slop_def)
  show ?thesis
  proof (cases "bytes + slop \<le> ar_remaining ar")
    case True
    then obtain b off where p: "ar_ptr ar = Some (b, off)" using assms by (cases "ar_ptr ar") (auto simp: arena_inv_def)
    have "(off + slop) mod 8 = 0"
      using cm by (auto simp: slop_def cm_def p mod_add_left_eq [of off 8, symmetric])
    then show ?thesis
      using True assms unfolding AllocateAligned_def Let_def cm_def [symmetric] slop_def [symmetric] needed
      by (auto simp: p takes_def arena_inv_def is_free_def region_def)
  next
    case False
    obtain p ar' where f: "AllocateFallback bytes ar = (p, ar')" by fastforce
    from AllocateFallback_takes [OF assms(1) this] have "takes ar p bytes ar'" "snd p = 0" by simp_all
    then show ?thesis
      using False f unfolding AllocateAligned_def Let_def cm_def [symmetric] slop_def [symmetric] needed
      by (cases p) simp
  qed
qed

section \<open>Any allocations\<close>

datatype arena_request = Request_Allocate nat | Request_Aligned nat

fun request_bytes :: "arena_request \<Rightarrow> nat" where
  "request_bytes (Request_Allocate n) = n"
| "request_bytes (Request_Aligned n) = n"

fun serve :: "arena_request \<Rightarrow> Arena \<Rightarrow> (arena_ptr option \<times> Arena) option" where
  "serve (Request_Allocate n) ar = Arena_Allocate n ar"
| "serve (Request_Aligned n) ar = AllocateAligned n ar"

fun serve_all :: "arena_request list \<Rightarrow> Arena \<Rightarrow> (arena_ptr list \<times> Arena) option" where
  "serve_all [] ar = Some ([], ar)"
| "serve_all (r # rs) ar =
     do { (p, ar) \<leftarrow> serve r ar; p \<leftarrow> p; (ps, ar) \<leftarrow> serve_all rs ar; Some (p # ps, ar) }"

lemma serve_takes:
  assumes "arena_inv ar" "0 < request_bytes r" "request_bytes r < 2 ^ 63"
  shows "\<exists>p ar'. serve r ar = Some (Some p, ar') \<and> takes ar p (request_bytes r) ar' \<and>
    ((\<exists>n. r = Request_Aligned n) \<longrightarrow> snd p mod 8 = 0)"
  using assms Arena_Allocate_takes [OF assms(1)] AllocateAligned_takes [OF assms(1)] by (cases r) auto

definition placed :: "Arena \<Rightarrow> arena_request \<Rightarrow> arena_ptr \<Rightarrow> bool" where
  "placed ar r p \<longleftrightarrow> fst p < length (ar_blocks ar) \<and> snd p + request_bytes r \<le> ar_blocks ar ! fst p \<and>
     (case r of Request_Allocate _ \<Rightarrow> True | Request_Aligned _ \<Rightarrow> snd p mod 8 = 0)"

definition regions :: "arena_request list \<Rightarrow> arena_ptr list \<Rightarrow> arena_ptr set list" where
  "regions rs ps = map2 (\<lambda>r p. region p (request_bytes r)) rs ps"

lemma placed_prefix: "placed ar r p \<Longrightarrow> prefix (ar_blocks ar) (ar_blocks ar') \<Longrightarrow> placed ar' r p"
  by (auto simp: placed_def nth_append elim!: prefixE)

lemma serve_all_takes:
  assumes "\<forall>r \<in> set rs. 0 < request_bytes r \<and> request_bytes r < 2 ^ 63" "arena_inv ar"
  shows "\<exists>ps ar'. serve_all rs ar = Some (ps, ar') \<and> arena_inv ar' \<and> prefix (ar_blocks ar) (ar_blocks ar') \<and>
    list_all2 (placed ar') rs ps \<and> (\<forall>A \<in> set (regions rs ps). \<forall>q \<in> A. is_free ar q) \<and>
    sorted_wrt (\<lambda>A B. A \<inter> B = {}) (regions rs ps)"
  using assms
proof (induction rs arbitrary: ar)
  case Nil
  then show ?case by (simp add: regions_def)
next
  case (Cons r rs)
  obtain p ar1 where p: "serve r ar = Some (Some p, ar1)" "takes ar p (request_bytes r) ar1"
      "(\<exists>n. r = Request_Aligned n) \<longrightarrow> snd p mod 8 = 0"
    using serve_takes [of ar r] Cons.prems by auto
  have "\<forall>r \<in> set rs. 0 < request_bytes r \<and> request_bytes r < 2 ^ 63" "arena_inv ar1"
    using Cons.prems(1) p(2) by (simp_all add: takes_def)
  from Cons.IH [OF this] obtain ps ar' where ps: "serve_all rs ar1 = Some (ps, ar')" "arena_inv ar'"
    "prefix (ar_blocks ar1) (ar_blocks ar')" "list_all2 (placed ar') rs ps"
    "\<forall>A \<in> set (regions rs ps). \<forall>q \<in> A. is_free ar1 q" "sorted_wrt (\<lambda>A B. A \<inter> B = {}) (regions rs ps)" by blast
  have "placed ar1 r p" using p(2,3) by (auto simp: placed_def takes_def split: arena_request.splits)
  then have "placed ar' r p" using placed_prefix ps(3) by blast
  moreover have "\<forall>A \<in> set (regions rs ps). region p (request_bytes r) \<inter> A = {}" using p(2) ps(5) by (auto simp: takes_def)
  moreover have "prefix (ar_blocks ar) (ar_blocks ar')" using p(2) ps(3) prefix_order.trans by (auto simp: takes_def)
  moreover have "\<forall>A \<in> set (regions (r # rs) (p # ps)). \<forall>q \<in> A. is_free ar q"
    using p(2) ps(5) by (auto simp: regions_def takes_def)
  ultimately show ?case using p(1) ps by (simp add: regions_def)
qed

end
