(* ===== verification/LdbRandom.thy ===== *)
theory LdbRandom
  imports PbPrelude
begin

text \<open>
  \<open>util/random.h\<close>: the generator that multiplies by 16807 modulo 2^31 - 1. The state is \<open>seed_\<close>. Of two
  consecutive calls of \<open>Uniform\<close> for a power of two up to 2^21 at least one gives a positive number.
\<close>

definition new_Random :: "32 word \<Rightarrow> 32 word" where
  "new_Random s = (let seed = s AND 0x7fffffff in if seed = 0 \<or> seed = 2147483647 then 1 else seed)"

definition Random_Next :: "32 word \<Rightarrow> 32 word" where
  "Random_Next seed =
     (let product = ucast seed * (16807 :: 64 word);
          seed = ucast (drop_bit 31 product + (product AND 2147483647)) in
      if seed > 2147483647 then seed - 2147483647 else seed)"

definition Random_Uniform :: "int \<Rightarrow> 32 word \<Rightarrow> 32 word \<times> 32 word" where
  "Random_Uniform n seed = (let seed = Random_Next seed in (seed mod of_int n, seed))"

definition Random_OneIn :: "int \<Rightarrow> 32 word \<Rightarrow> bool \<times> 32 word" where
  "Random_OneIn n seed = (let seed = Random_Next seed in (seed mod of_int n = 0, seed))"

definition Random_Skewed :: "nat \<Rightarrow> 32 word \<Rightarrow> 32 word \<times> 32 word" where
  "Random_Skewed max_log seed =
     (case Random_Uniform (int max_log + 1) seed of (base, seed) \<Rightarrow> Random_Uniform (2 ^ unat base) seed)"

text \<open>What is computed is the product modulo 2^31 - 1, with 2^31 - 1 itself in the place of 0.\<close>

lemma unat_Random_Next:
  assumes "unat seed < 2 ^ 31"
  shows "unat (Random_Next seed) =
    (let p = 16807 * unat seed; s = p div 2 ^ 31 + p mod 2 ^ 31 in if s > 2147483647 then s - 2147483647 else s)"
proof -
  let ?p = "16807 * unat seed"
  have b: "?p < 2 ^ 46" using assms by simp
  have u: "unat (ucast seed * (16807 :: 64 word)) = ?p"
    using assms by (simp add: unat_word_ariths unsigned_ucast_eq take_bit_nat_eq_self mult.commute)
  have d: "unat (drop_bit 31 (ucast seed * (16807 :: 64 word))) = ?p div 2 ^ 31"
    by (simp only: unat_drop_bit_eq u drop_bit_nat_def)
  have "(2147483647 :: 64 word) = mask 31" by (simp add: mask_eq_exp_minus_1)
  then have "ucast seed * (16807 :: 64 word) AND 2147483647 = take_bit 31 (ucast seed * (16807 :: 64 word))"
    by (simp only: take_bit_eq_mask)
  then have m: "unat (ucast seed * (16807 :: 64 word) AND 2147483647) = ?p mod 2 ^ 31"
    by (simp only: unsigned_take_bit_eq u) (simp only: take_bit_nat_def)
  define s where "s = ?p div 2 ^ 31 + ?p mod 2 ^ 31"
  have s: "s < 2 ^ 32"
  proof -
    have "?p div 2 ^ 31 < 2 ^ 15" using b by (simp add: less_mult_imp_div_less)
    moreover have "?p mod 2 ^ 31 < 2 ^ 31" by simp
    ultimately show ?thesis unfolding s_def by simp
  qed
  then have "unat (drop_bit 31 (ucast seed * (16807 :: 64 word)) + (ucast seed * (16807 :: 64 word) AND 2147483647)) = s"
    by (simp only: unat_word_ariths d m s_def) simp
  then have "unat (ucast (drop_bit 31 (ucast seed * (16807 :: 64 word)) + (ucast seed * (16807 :: 64 word) AND 2147483647)) :: 32 word) = s"
    using s by (simp only: unsigned_ucast_eq) (simp add: take_bit_nat_eq_self)
  then show ?thesis
    unfolding Random_Next_def Let_def s_def [symmetric] by (simp add: word_less_nat_alt unat_sub_if_size word_size)
qed

lemma Random_Next_range:
  assumes "0 < unat seed" "unat seed < 2 ^ 31"
  shows "0 < unat (Random_Next seed)" "unat (Random_Next seed) < 2 ^ 31"
proof -
  let ?p = "16807 * unat seed"
  define a b where "a = ?p div 2 ^ 31" and "b = ?p mod 2 ^ 31"
  have p: "?p = 2 ^ 31 * a + b" by (simp add: a_def b_def)
  have "b < 2 ^ 31" "a < 2 ^ 15" using assms(2) by (simp_all add: a_def b_def less_mult_imp_div_less)
  moreover have "0 < a + b" using p assms(1) by (cases "a + b = 0") simp_all
  moreover have "unat (Random_Next seed) = (if a + b > 2147483647 then a + b - 2147483647 else a + b)"
    using unat_Random_Next [OF assms(2)] by (simp add: Let_def a_def b_def)
  ultimately show "0 < unat (Random_Next seed)" "unat (Random_Next seed) < 2 ^ 31" by auto
qed

lemma new_Random_range: "0 < unat (new_Random s)" "unat (new_Random s) < 2 ^ 31"
proof -
  have "(0x7fffffff :: 32 word) = mask 31" by (simp add: mask_eq_exp_minus_1)
  then have "s AND 0x7fffffff = take_bit 31 s" by (simp only: take_bit_eq_mask)
  then have "unat (s AND 0x7fffffff) = unat s mod 2 ^ 31"
    by (simp only: unsigned_take_bit_eq) (simp only: take_bit_nat_def)
  then have "unat (s AND 0x7fffffff) < 2 ^ 31" by simp
  then show "unat (new_Random s) < 2 ^ 31" by (auto simp: new_Random_def Let_def)
  show "0 < unat (new_Random s)" by (auto simp: new_Random_def Let_def unat_gt_0)
qed

text \<open>After a multiple of 2^21 comes a number that is none.\<close>

lemma Uniform_positive:
  assumes "0 < unat seed" "unat seed < 2 ^ 31" "unat seed mod 2 ^ 21 = 0"
  shows "0 < unat (Random_Next seed) mod 2 ^ 21"
proof -
  define m where "m = unat seed div 2 ^ 21"
  have m: "unat seed = 2 ^ 21 * m" using assms(3) by (auto simp: m_def)
  have "0 < m" "m < 2 ^ 10" using assms(1,2) by (simp_all add: m)
  define a b where "a = 16807 * m div 2 ^ 10" and "b = 16807 * m mod 2 ^ 10"
  have "16807 * m = 2 ^ 10 * a + b" by (simp add: a_def b_def)
  then have p: "16807 * unat seed = 2 ^ 31 * a + 2 ^ 21 * b" by (simp add: m)
  have b: "b < 2 ^ 10" by (simp add: b_def)
  have a: "0 < a" "a < 2 ^ 15" using \<open>0 < m\<close> \<open>m < 2 ^ 10\<close> unfolding a_def by (simp_all add: div_greater_zero_iff less_mult_imp_div_less)
  have "2 ^ 21 * b < 2 ^ 31" using b by simp
  then have "16807 * unat seed div 2 ^ 31 = a" "16807 * unat seed mod 2 ^ 31 = 2 ^ 21 * b" unfolding p by simp_all
  moreover have "a + 2 ^ 21 * b \<le> 2147483647" using a(2) b by simp
  ultimately have "unat (Random_Next seed) = a + 2 ^ 21 * b" using unat_Random_Next [OF assms(2)] by (simp add: Let_def)
  then have "unat (Random_Next seed) mod 2 ^ 21 = a" using a(2) by simp
  with a(1) show ?thesis by simp
qed

end
