(* ===== verification/LdbSkipList.thy ===== *)
theory LdbSkipList
  imports LdbArena LdbRandom LdbIterator
begin

text \<open>
  \<open>db/skiplist.h\<close>: a node is named by the order of its allocation, node 0 is the head. The keys are of any type;
  the comparator may fail on a key it cannot read. \<open>None\<close> as a result is a failed assertion, or a use of
  a pointer that is \<open>NULL\<close> or was never set, or of an array past its end. Readers see the list between two
  operations.
\<close>

definition kMaxHeight :: nat where "kMaxHeight = 12"

text \<open>A pointer to a node or \<open>NULL\<close>; in a new node the links are not yet set.\<close>

type_synonym node_ptr = "nat option"

record 'k Node =
  n_key :: "'k option"
  n_next :: "node_ptr option list"

record 'k SkipList =
  sl_nodes :: "'k Node list"
  sl_max_height :: nat
  sl_rnd :: "32 word"
  sl_arena :: Arena

definition Node_Next :: "'k SkipList \<Rightarrow> nat \<Rightarrow> nat \<Rightarrow> node_ptr option" where
  "Node_Next sl x n = do { nd \<leftarrow> nth_opt (sl_nodes sl) x; link \<leftarrow> nth_opt (n_next nd) n; link }"

definition Node_SetNext :: "nat \<Rightarrow> nat \<Rightarrow> node_ptr \<Rightarrow> 'k SkipList \<Rightarrow> 'k SkipList option" where
  "Node_SetNext x n p sl =
     do { nd \<leftarrow> nth_opt (sl_nodes sl) x;
          if n < length (n_next nd)
          then Some (sl\<lparr>sl_nodes := (sl_nodes sl)[x := nd\<lparr>n_next := (n_next nd)[n := Some p]\<rparr>]\<rparr>) else None }"

definition Node_key :: "'k SkipList \<Rightarrow> nat \<Rightarrow> 'k option" where
  "Node_key sl x = do { nd \<leftarrow> nth_opt (sl_nodes sl) x; n_key nd }"

text \<open>A node takes 16 bytes and 8 for each link but the first.\<close>

definition NewNode :: "'k option \<Rightarrow> nat \<Rightarrow> 'k SkipList \<Rightarrow> (nat \<times> 'k SkipList) option" where
  "NewNode key height sl =
     do { (mem, ar) \<leftarrow> AllocateAligned (16 + 8 * (height - 1)) (sl_arena sl);
          mem \<leftarrow> mem;
          Some (length (sl_nodes sl),
            sl\<lparr>sl_nodes := sl_nodes sl @ [\<lparr>n_key = key, n_next = replicate height None\<rparr>], sl_arena := ar\<rparr>) }"

fun set_null :: "nat list \<Rightarrow> nat \<Rightarrow> 'k SkipList \<Rightarrow> 'k SkipList option" where
  "set_null [] x sl = Some sl"
| "set_null (i # is) x sl = do { sl \<leftarrow> Node_SetNext x i None sl; set_null is x sl }"

definition new_SkipList :: "Arena \<Rightarrow> 'k SkipList option" where
  "new_SkipList arena =
     do { (head, sl) \<leftarrow> NewNode None kMaxHeight
            \<lparr>sl_nodes = [], sl_max_height = 1, sl_rnd = new_Random 0xdeadbeef, sl_arena = arena\<rparr>;
          set_null [0..<kMaxHeight] head sl }"

section \<open>Searching\<close>

definition KeyIsAfterNode :: "('k \<Rightarrow> 'k \<Rightarrow> int option) \<Rightarrow> 'k SkipList \<Rightarrow> 'k \<Rightarrow> node_ptr \<Rightarrow> bool option" where
  "KeyIsAfterNode compare sl key n =
     (case n of None \<Rightarrow> Some False | Some x \<Rightarrow> do { k \<leftarrow> Node_key sl x; c \<leftarrow> compare k key; Some (c < 0) })"

text \<open>
  The loop of the three searches. It goes on to the next node while \<open>go\<close> says so, and down a level
  otherwise; \<open>check\<close> is the assertion of \<open>FindLessThan\<close>. \<open>prev\<close> is the array that is filled, if any.
\<close>

definition set_prev :: "nat \<Rightarrow> nat \<Rightarrow> nat option list option \<Rightarrow> nat option list option option" where
  "set_prev level x prev =
     (case prev of
        None \<Rightarrow> Some None
      | Some p \<Rightarrow> if level < length p then Some (Some (p[level := Some x])) else None)"

partial_function (option) find_loop ::
  "(nat \<Rightarrow> bool option) \<Rightarrow> (node_ptr \<Rightarrow> bool option) \<Rightarrow> 'k SkipList \<Rightarrow> nat option list option \<Rightarrow> nat \<Rightarrow> nat \<Rightarrow>
   (nat \<times> node_ptr \<times> nat option list option) option" where
  "find_loop check go sl prev x level =
     do { ok \<leftarrow> check x;
          if \<not> ok then None
          else do { link \<leftarrow> Node_Next sl x level;
                    further \<leftarrow> go link;
                    if further then do { y \<leftarrow> link; find_loop check go sl prev y level }
                    else do { prev \<leftarrow> set_prev level x prev;
                              if level = 0 then Some (x, link, prev)
                              else find_loop check go sl prev x (level - 1) } } }"

definition FindGreaterOrEqual ::
  "('k \<Rightarrow> 'k \<Rightarrow> int option) \<Rightarrow> 'k SkipList \<Rightarrow> 'k \<Rightarrow> nat option list option \<Rightarrow> (node_ptr \<times> nat option list option) option" where
  "FindGreaterOrEqual compare sl key prev =
     (if sl_max_height sl = 0 then None
      else do { (x, link, prev) \<leftarrow>
                  find_loop (\<lambda>_. Some True) (KeyIsAfterNode compare sl key) sl prev 0 (sl_max_height sl - 1);
                Some (link, prev) })"

definition FindLessThan :: "('k \<Rightarrow> 'k \<Rightarrow> int option) \<Rightarrow> 'k SkipList \<Rightarrow> 'k \<Rightarrow> nat option" where
  "FindLessThan compare sl key =
     (if sl_max_height sl = 0 then None
      else do { (x, _) \<leftarrow>
                  find_loop (\<lambda>x. if x = 0 then Some True else KeyIsAfterNode compare sl key (Some x))
                    (\<lambda>link. case link of None \<Rightarrow> Some False
                       | Some n \<Rightarrow> do { k \<leftarrow> Node_key sl n; c \<leftarrow> compare k key; Some (\<not> c \<ge> 0) })
                    sl None 0 (sl_max_height sl - 1);
                Some x })"

definition FindLast :: "'k SkipList \<Rightarrow> nat option" where
  "FindLast sl =
     (if sl_max_height sl = 0 then None
      else do { (x, _) \<leftarrow> find_loop (\<lambda>_. Some True) (\<lambda>link. Some (link \<noteq> None)) sl None 0 (sl_max_height sl - 1); Some x })"

definition Equal :: "('k \<Rightarrow> 'k \<Rightarrow> int option) \<Rightarrow> 'k \<Rightarrow> 'k \<Rightarrow> bool option" where
  "Equal compare a b = map_option (\<lambda>c. c = 0) (compare a b)"

definition SkipList_Contains :: "('k \<Rightarrow> 'k \<Rightarrow> int option) \<Rightarrow> 'k SkipList \<Rightarrow> 'k \<Rightarrow> bool option" where
  "SkipList_Contains compare sl key =
     do { (x, _) \<leftarrow> FindGreaterOrEqual compare sl key None;
          case x of None \<Rightarrow> Some False | Some x \<Rightarrow> do { k \<leftarrow> Node_key sl x; Equal compare key k } }"

section \<open>Inserting\<close>

text \<open>The loop of \<open>RandomHeight\<close>; what it returns is between 1 and \<open>kMaxHeight\<close>.\<close>

function random_height :: "nat \<Rightarrow> 32 word \<Rightarrow> nat \<times> 32 word" where
  "random_height height rnd =
     (if height < kMaxHeight then
        (let rnd = Random_Next rnd in if rnd mod 4 = 0 then random_height (height + 1) rnd else (height, rnd))
      else (height, rnd))"
  by pat_completeness auto
termination by (relation "measure (\<lambda>(height, _). kMaxHeight - height)") auto

declare random_height.simps [simp del]

definition RandomHeight :: "32 word \<Rightarrow> (nat \<times> 32 word) option" where
  "RandomHeight rnd =
     (case random_height 1 rnd of (height, rnd) \<Rightarrow> if height > 0 \<and> height \<le> kMaxHeight then Some (height, rnd) else None)"

text \<open>Linking node \<open>x\<close> into a level, behind \<open>prev[i]\<close>.\<close>

definition link_level :: "nat \<Rightarrow> nat option list \<Rightarrow> nat \<Rightarrow> 'k SkipList \<Rightarrow> 'k SkipList option" where
  "link_level x prev i sl =
     do { p \<leftarrow> nth_opt prev i;
          p \<leftarrow> p;
          next \<leftarrow> Node_Next sl p i;
          sl \<leftarrow> Node_SetNext x i next sl;
          Node_SetNext p i (Some x) sl }"

fun link_levels :: "nat \<Rightarrow> nat option list \<Rightarrow> nat list \<Rightarrow> 'k SkipList \<Rightarrow> 'k SkipList option" where
  "link_levels x prev [] sl = Some sl"
| "link_levels x prev (i # is) sl = do { sl \<leftarrow> link_level x prev i sl; link_levels x prev is sl }"

definition prepare_insert ::
  "('k \<Rightarrow> 'k \<Rightarrow> int option) \<Rightarrow> 'k \<Rightarrow> 'k SkipList \<Rightarrow> (nat \<times> nat \<times> nat option list \<times> 'k SkipList) option" where
  "prepare_insert compare key sl =
     do { (x, prev) \<leftarrow> FindGreaterOrEqual compare sl key (Some (replicate kMaxHeight None));
          prev \<leftarrow> prev;
          equal \<leftarrow> (case x of None \<Rightarrow> Some False | Some x \<Rightarrow> do { k \<leftarrow> Node_key sl x; Equal compare key k });
          if equal then None
          else do { (height, rnd) \<leftarrow> RandomHeight (sl_rnd sl);
                    let max_height = sl_max_height sl;
                    let prev = map (\<lambda>i. if max_height \<le> i \<and> i < height then Some 0 else prev ! i) [0..<length prev];
                    let sl = sl\<lparr>sl_rnd := rnd, sl_max_height := max max_height height\<rparr>;
                    (x, sl) \<leftarrow> NewNode (Some key) height sl;
                    Some (x, height, prev, sl) } }"

definition SkipList_Insert :: "('k \<Rightarrow> 'k \<Rightarrow> int option) \<Rightarrow> 'k \<Rightarrow> 'k SkipList \<Rightarrow> 'k SkipList option" where
  "SkipList_Insert compare key sl =
     do { (x, height, prev, sl) \<leftarrow> prepare_insert compare key sl; link_levels x prev [0..<height] sl }"

section \<open>The iterator\<close>

type_synonym SkipIter = node_ptr

definition SkipIter_Valid :: "SkipIter \<Rightarrow> bool" where
  "SkipIter_Valid node \<longleftrightarrow> node \<noteq> None"

definition SkipIter_key :: "'k SkipList \<Rightarrow> SkipIter \<Rightarrow> 'k option" where
  "SkipIter_key sl node = do { x \<leftarrow> node; Node_key sl x }"

definition SkipIter_Next :: "'k SkipList \<Rightarrow> SkipIter \<Rightarrow> SkipIter option" where
  "SkipIter_Next sl node = do { x \<leftarrow> node; Node_Next sl x 0 }"

definition SkipIter_Prev :: "('k \<Rightarrow> 'k \<Rightarrow> int option) \<Rightarrow> 'k SkipList \<Rightarrow> SkipIter \<Rightarrow> SkipIter option" where
  "SkipIter_Prev compare sl node =
     do { x \<leftarrow> node; key \<leftarrow> Node_key sl x; x \<leftarrow> FindLessThan compare sl key; Some (if x = 0 then None else Some x) }"

definition SkipIter_Seek :: "('k \<Rightarrow> 'k \<Rightarrow> int option) \<Rightarrow> 'k SkipList \<Rightarrow> 'k \<Rightarrow> SkipIter option" where
  "SkipIter_Seek compare sl target = map_option fst (FindGreaterOrEqual compare sl target None)"

definition SkipIter_SeekToFirst :: "'k SkipList \<Rightarrow> SkipIter option" where
  "SkipIter_SeekToFirst sl = Node_Next sl 0 0"

definition SkipIter_SeekToLast :: "'k SkipList \<Rightarrow> SkipIter option" where
  "SkipIter_SeekToLast sl = do { x \<leftarrow> FindLast sl; Some (if x = 0 then None else Some x) }"

end
