(* ===== verification/LdbSkipListProof.thy ===== *)
theory LdbSkipListProof
  imports LdbSkipList
begin

text \<open>
  The links of a skip list make sorted lists of nodes, each level part of the one below (\<open>skip_inv\<close>), and the
  searches find the place of a key in the lowest. Inserting keeps this, also between the steps that link
  the new node into the levels: locale \<open>skip_order\<close>.
\<close>

section \<open>Links\<close>

definition has_link :: "'k SkipList \<Rightarrow> nat \<Rightarrow> nat \<Rightarrow> bool" where
  "has_link sl x i \<longleftrightarrow> x < length (sl_nodes sl) \<and> i < length (n_next (sl_nodes sl ! x))"

text \<open>All but the links.\<close>

definition same_nodes :: "'k SkipList \<Rightarrow> 'k SkipList \<Rightarrow> bool" where
  "same_nodes sl sl' \<longleftrightarrow> (\<forall>x. Node_key sl' x = Node_key sl x) \<and> (\<forall>x i. has_link sl' x i \<longleftrightarrow> has_link sl x i) \<and>
     sl_max_height sl' = sl_max_height sl \<and> sl_arena sl' = sl_arena sl"

lemma same_nodes_trans: "same_nodes a b \<Longrightarrow> same_nodes b c \<Longrightarrow> same_nodes a c"
  by (simp add: same_nodes_def)

lemma has_link_Next: "Node_Next sl x i = Some p \<Longrightarrow> has_link sl x i"
  by (auto simp: Node_Next_def has_link_def split: Option.bind_splits)

lemma SetNext_spec:
  assumes "has_link sl x i"
  shows "\<exists>sl'. Node_SetNext x i p sl = Some sl' \<and> same_nodes sl sl' \<and>
    (\<forall>y j. Node_Next sl' y j = (if y = x \<and> j = i then Some p else Node_Next sl y j))"
proof -
  have x: "x < length (sl_nodes sl)" "i < length (n_next (sl_nodes sl ! x))" using assms by (simp_all add: has_link_def)
  let ?nd = "sl_nodes sl ! x"
  let ?sl = "sl\<lparr>sl_nodes := (sl_nodes sl)[x := ?nd\<lparr>n_next := (n_next ?nd)[i := Some p]\<rparr>]\<rparr>"
  have "Node_SetNext x i p sl = Some ?sl" using x by (simp add: Node_SetNext_def nth_opt_def)
  moreover have "same_nodes sl ?sl" using x by (auto simp: same_nodes_def Node_key_def has_link_def nth_opt_def nth_list_update)
  moreover have "Node_Next ?sl y j = (if y = x \<and> j = i then Some p else Node_Next sl y j)" for y j
    using x by (auto simp: Node_Next_def nth_opt_def nth_list_update)
  ultimately show ?thesis by blast
qed

text \<open>The nodes of a level in order.\<close>

definition chained :: "'k SkipList \<Rightarrow> nat \<Rightarrow> nat list \<Rightarrow> bool" where
  "chained sl i xs \<longleftrightarrow>
     (\<forall>j\<le>length xs. Node_Next sl ((0 # xs) ! j) i = Some (if j < length xs then Some (xs ! j) else None))"

lemma chainedD: "chained sl i xs \<Longrightarrow> j \<le> length xs \<Longrightarrow>
  Node_Next sl ((0 # xs) ! j) i = Some (if j < length xs then Some (xs ! j) else None)"
  by (simp add: chained_def)

definition ins_at :: "nat \<Rightarrow> 'a \<Rightarrow> 'a list \<Rightarrow> 'a list" where
  "ins_at n x xs = take n xs @ x # drop n xs"

lemma ins_at_simps [simp]: "length (ins_at n x xs) = Suc (length xs)" "set (ins_at n x xs) = insert x (set xs)"
  using set_append [of "take n xs" "drop n xs"] by (simp_all add: ins_at_def)

lemma ins_at_nth: "n \<le> length xs \<Longrightarrow> j \<le> length xs \<Longrightarrow>
    ins_at n x xs ! j = (if j < n then xs ! j else if j = n then x else xs ! (j - 1))"
  by (auto simp: ins_at_def nth_append nth_Cons')

lemma chained_insert:
  assumes "chained sl i xs" "n \<le> length xs" "distinct (x # 0 # xs)" "has_link sl x i"
    and "nth_opt prev i = Some (Some ((0 # xs) ! n))"
  shows "\<exists>sl'. link_level x prev i sl = Some sl' \<and> same_nodes sl sl' \<and> chained sl' i (ins_at n x xs) \<and>
    (\<forall>y j. j \<noteq> i \<longrightarrow> Node_Next sl' y j = Node_Next sl y j)"
proof -
  let ?p = "(0 # xs) ! n" and ?next = "if n < length xs then Some (xs ! n) else None"
  have p: "Node_Next sl ?p i = Some ?next" by (rule chainedD [OF assms(1,2)])
  obtain sl1 where sl1: "Node_SetNext x i ?next sl = Some sl1" "same_nodes sl sl1"
    "\<forall>y j. Node_Next sl1 y j = (if y = x \<and> j = i then Some ?next else Node_Next sl y j)"
    using SetNext_spec [OF assms(4)] by blast
  have "has_link sl1 ?p i" using has_link_Next [OF p] sl1(2) by (simp add: same_nodes_def)
  from SetNext_spec [OF this, of "Some x"] obtain sl2 where sl2: "Node_SetNext ?p i (Some x) sl1 = Some sl2" "same_nodes sl1 sl2"
    "\<forall>y j. Node_Next sl2 y j = (if y = ?p \<and> j = i then Some (Some x) else Node_Next sl1 y j)" by blast
  have "link_level x prev i sl = Some sl2" unfolding link_level_def assms(5) using p sl1(1) sl2(1) by simp
  moreover have "same_nodes sl sl2" using same_nodes_trans sl1(2) sl2(2) by blast
  moreover have "Node_Next sl2 y j = Node_Next sl y j" if "j \<noteq> i" for y j using sl1(3) sl2(3) that by simp
  moreover have "chained sl2 i (ins_at n x xs)"
    unfolding chained_def
  proof (intro allI impI)
    fix j
    assume j: "j \<le> length (ins_at n x xs)"
    have next2: "Node_Next sl2 y i = (if y = ?p then Some (Some x) else if y = x then Some ?next else Node_Next sl y i)" for y
      using sl1(3) sl2(3) by simp
    have mem: "?p \<in> set (0 # xs)" using assms(2) nth_mem [of n "0 # xs"] by simp
    then have xp: "x \<noteq> ?p" using assms(3) by auto
    have eqn: "(0 # xs) ! k = ?p \<longleftrightarrow> k = n" "(0 # xs) ! k \<noteq> x" if "k \<le> length xs" for k
      using assms(2,3) that nth_eq_iff_index_eq [of "0 # xs" k n] nth_mem [of k "0 # xs"] by auto
    consider "j < n" | "j = n" | "j = Suc n" | "Suc n < j" by linarith
    then show "Node_Next sl2 ((0 # ins_at n x xs) ! j) i =
        Some (if j < length (ins_at n x xs) then Some (ins_at n x xs ! j) else None)"
    proof cases
      case 1
      then have e: "(0 # ins_at n x xs) ! j = (0 # xs) ! j" using assms(2) by (auto simp: nth_Cons' ins_at_nth)
      show ?thesis unfolding e next2 using 1 assms(2) eqn [of j] chainedD [OF assms(1), of j] by (simp add: ins_at_nth)
    next
      case 2
      then have e: "(0 # ins_at n x xs) ! j = ?p" using assms(2) by (auto simp: nth_Cons' ins_at_nth)
      show ?thesis unfolding e next2 using 2 assms(2) by (simp add: ins_at_nth)
    next
      case 3
      then have e: "(0 # ins_at n x xs) ! j = x" using assms(2) by (auto simp: ins_at_nth)
      show ?thesis unfolding e next2 using 3 assms(2) xp by (auto simp: ins_at_nth)
    next
      case 4
      then have jl: "j - 1 \<le> length xs" "j - 1 \<noteq> n" using j by simp_all
      have e: "(0 # ins_at n x xs) ! j = (0 # xs) ! (j - 1)" using 4 j assms(2) by (auto simp: nth_Cons' ins_at_nth)
      show ?thesis unfolding e next2 using 4 j jl assms(2) eqn [of "j - 1"] chainedD [OF assms(1) jl(1)]
        by (auto simp: ins_at_nth)
    qed
  qed
  ultimately show ?thesis by blast
qed

section \<open>The loop of the searches\<close>

text \<open>What a search passes on a level.\<close>

definition passed :: "(nat \<Rightarrow> bool) \<Rightarrow> nat list \<Rightarrow> nat" where
  "passed Q xs = length (filter Q xs)"

definition end_at :: "nat list \<Rightarrow> nat \<Rightarrow> node_ptr" where
  "end_at xs n = (if n < length xs then Some (xs ! n) else None)"

lemma passed_le: "passed Q xs \<le> length xs"
  by (simp add: passed_def)

lemma fill_0: "length p = n \<Longrightarrow> 0 < n \<Longrightarrow> p[0 := f 0] = map (\<lambda>i. if i \<le> (0 :: nat) then f i else p ! i) [0..<n]"
  by (intro nth_equalityI) (auto simp: nth_list_update)

lemma fill_Suc: "length p = n \<Longrightarrow> Suc l < n \<Longrightarrow>
    map (\<lambda>i. if i \<le> l then f i else p[Suc l := f (Suc l)] ! i) [0..<n] = map (\<lambda>i. if i \<le> Suc l then f i else p ! i) [0..<n]"
  by (intro nth_equalityI) (auto simp: nth_list_update le_Suc_eq)

text \<open>The parts of a search: levels that are linked, a condition that holds of the first nodes of each, and tests for it.\<close>

definition searches ::
  "'k SkipList \<Rightarrow> (nat \<Rightarrow> nat list) \<Rightarrow> nat \<Rightarrow> (nat \<Rightarrow> bool option) \<Rightarrow> (node_ptr \<Rightarrow> bool option) \<Rightarrow> (nat \<Rightarrow> bool) \<Rightarrow> bool" where
  "searches sl lv n check go Q \<longleftrightarrow>
     (\<forall>i<n. chained sl i (lv i)) \<and> (\<forall>i. Suc i < n \<longrightarrow> set (lv (Suc i)) \<subseteq> set (lv i)) \<and>
     (\<forall>i<n. \<forall>j<length (lv i). Q (lv i ! j) \<longleftrightarrow> j < passed Q (lv i)) \<and>
     check 0 = Some True \<and> (\<forall>x \<in> set (lv 0). Q x \<longrightarrow> check x = Some True) \<and>
     go None = Some False \<and> (\<forall>x \<in> set (lv 0). go (Some x) = Some (Q x))"

lemma searchesD:
  assumes "searches sl lv n check go Q"
  shows "\<And>i. i < n \<Longrightarrow> chained sl i (lv i)" "\<And>i. Suc i < n \<Longrightarrow> set (lv (Suc i)) \<subseteq> set (lv i)"
    "\<And>i j. i < n \<Longrightarrow> j < length (lv i) \<Longrightarrow> Q (lv i ! j) \<longleftrightarrow> j < passed Q (lv i)"
    "check 0 = Some True" "\<And>x. x \<in> set (lv 0) \<Longrightarrow> Q x \<Longrightarrow> check x = Some True"
    "go None = Some False" "\<And>x. x \<in> set (lv 0) \<Longrightarrow> go (Some x) = Some (Q x)"
  using assms unfolding searches_def by blast+

lemma search_bottom: "searches sl lv n check go Q \<Longrightarrow> i < n \<Longrightarrow> set (lv i) \<subseteq> set (lv 0)"
proof (induction i)
  case (Suc i)
  then show ?case using searchesD(2) [OF Suc.prems(1), of i] by auto
qed simp

lemma search_node_at:
  assumes S: "searches sl lv n check go Q" and i: "i < n" and j: "j \<le> passed Q (lv i)"
  shows "check ((0 # lv i) ! j) = Some True" "Node_Next sl ((0 # lv i) ! j) i = Some (end_at (lv i) j)"
proof -
  have jl: "j \<le> length (lv i)" using j passed_le [of Q "lv i"] by simp
  then show "Node_Next sl ((0 # lv i) ! j) i = Some (end_at (lv i) j)"
    using chainedD [OF searchesD(1) [OF S i] jl] by (simp add: end_at_def)
  show "check ((0 # lv i) ! j) = Some True"
  proof (cases j)
    case 0
    then show ?thesis using searchesD(4) [OF S] by simp
  next
    case (Suc k)
    then have k: "k < length (lv i)" "Q (lv i ! k)" using j jl searchesD(3) [OF S i, of k] by simp_all
    then have "lv i ! k \<in> set (lv 0)" using search_bottom [OF S i] nth_mem by blast
    then show ?thesis using searchesD(5) [OF S] Suc k(2) by simp
  qed
qed

lemma search_along:
  assumes S: "searches sl lv n check go Q" and i: "i < n" and "j \<le> passed Q (lv i)"
  shows "find_loop check go sl prev ((0 # lv i) ! j) i = find_loop check go sl prev ((0 # lv i) ! passed Q (lv i)) i"
  using assms(3)
proof (induction "passed Q (lv i) - j" arbitrary: j)
  case (Suc m)
  then have j: "j < passed Q (lv i)" by simp
  then have jl: "j < length (lv i)" using passed_le [of Q "lv i"] by simp
  then have "lv i ! j \<in> set (lv 0)" using search_bottom [OF S i] nth_mem by blast
  then have "go (Some (lv i ! j)) = Some True" using searchesD(7) [OF S] searchesD(3) [OF S i jl] j by simp
  then have "find_loop check go sl prev ((0 # lv i) ! j) i = find_loop check go sl prev ((0 # lv i) ! Suc j) i"
    using search_node_at [OF S i, of j] j jl by (subst find_loop.simps) (simp add: end_at_def)
  also have "\<dots> = find_loop check go sl prev ((0 # lv i) ! passed Q (lv i)) i" using Suc(1) [of "Suc j"] Suc(2) j by simp
  finally show ?case .
qed simp

lemma search_go_stops:
  assumes S: "searches sl lv n check go Q" and i: "i < n"
  shows "go (end_at (lv i) (passed Q (lv i))) = Some False"
proof (cases "passed Q (lv i) < length (lv i)")
  case True
  then have "lv i ! passed Q (lv i) \<in> set (lv 0)" using search_bottom [OF S i] nth_mem by blast
  then show ?thesis using searchesD(7) [OF S] searchesD(3) [OF S i True] True by (simp add: end_at_def)
qed (simp add: end_at_def searchesD(6) [OF S])

lemma search_stop_step:
  assumes S: "searches sl lv n check go Q" and i: "i < n" and p: "set_prev i ((0 # lv i) ! passed Q (lv i)) prev = Some p"
  shows "find_loop check go sl prev ((0 # lv i) ! passed Q (lv i)) i =
    (if i = 0 then Some ((0 # lv i) ! passed Q (lv i), end_at (lv i) (passed Q (lv i)), p)
     else find_loop check go sl p ((0 # lv i) ! passed Q (lv i)) (i - 1))"
proof -
  define x where "x = (0 # lv i) ! passed Q (lv i)"
  show ?thesis
    using search_node_at [OF S i order_refl] search_go_stops [OF S i] p unfolding x_def [symmetric]
    by (subst find_loop.simps) simp
qed

lemma search_down:
  assumes S: "searches sl lv n check go Q" and i: "Suc i < n"
  shows "\<exists>j\<le>passed Q (lv i). (0 # lv (Suc i)) ! passed Q (lv (Suc i)) = (0 # lv i) ! j"
proof (cases "passed Q (lv (Suc i))")
  case 0
  then show ?thesis by (intro exI [of _ 0]) simp
next
  case (Suc k)
  then have k: "k < length (lv (Suc i))" "Q (lv (Suc i) ! k)"
    using passed_le [of Q "lv (Suc i)"] searchesD(3) [OF S i, of k] by simp_all
  then have "lv (Suc i) ! k \<in> set (lv i)" using searchesD(2) [OF S i] nth_mem [OF k(1)] by blast
  then obtain j where j: "j < length (lv i)" "lv i ! j = lv (Suc i) ! k" by (auto simp: in_set_conv_nth)
  have "i < n" using i by simp
  then have "j < passed Q (lv i)" using searchesD(3) [OF S _ j(1)] j(2) k(2) by simp
  then show ?thesis using Suc j by (intro exI [of _ "Suc j"]) simp
qed

lemma search_finds:
  assumes S: "searches sl lv n check go Q"
  shows "level < n \<Longrightarrow> j \<le> passed Q (lv level) \<Longrightarrow> (case prev of None \<Rightarrow> True | Some p \<Rightarrow> length p = n) \<Longrightarrow>
    find_loop check go sl prev ((0 # lv level) ! j) level =
      Some ((0 # lv 0) ! passed Q (lv 0), end_at (lv 0) (passed Q (lv 0)),
        map_option (\<lambda>p. map (\<lambda>i. if i \<le> level then Some ((0 # lv i) ! passed Q (lv i)) else p ! i) [0..<n]) prev)"
proof (induction level arbitrary: j prev)
  case 0
  have p: "set_prev 0 ((0 # lv 0) ! passed Q (lv 0)) prev =
      Some (map_option (\<lambda>p. map (\<lambda>i. if i \<le> 0 then Some ((0 # lv i) ! passed Q (lv i)) else p ! i) [0..<n]) prev)"
    using 0(1,3) fill_0 [of _ n "\<lambda>i. Some ((0 # lv i) ! passed Q (lv i))"] by (cases prev) (simp_all add: set_prev_def)
  show ?case unfolding search_along [OF S 0(1,2)] search_stop_step [OF S 0(1) p] by simp
next
  case (Suc level)
  obtain j' where j': "j' \<le> passed Q (lv level)" "(0 # lv (Suc level)) ! passed Q (lv (Suc level)) = (0 # lv level) ! j'"
    using search_down [OF S Suc.prems(1)] by blast
  let ?p = "map_option (\<lambda>p. p[Suc level := Some ((0 # lv (Suc level)) ! passed Q (lv (Suc level)))]) prev"
  have p: "set_prev (Suc level) ((0 # lv (Suc level)) ! passed Q (lv (Suc level))) prev = Some ?p"
    using Suc.prems(1,3) by (cases prev) (simp_all add: set_prev_def)
  have "find_loop check go sl prev ((0 # lv (Suc level)) ! passed Q (lv (Suc level))) (Suc level) =
      find_loop check go sl ?p ((0 # lv level) ! j') level"
    unfolding search_stop_step [OF S Suc.prems(1) p] by (simp add: j'(2))
  also have "\<dots> = Some ((0 # lv 0) ! passed Q (lv 0), end_at (lv 0) (passed Q (lv 0)),
        map_option (\<lambda>p. map (\<lambda>i. if i \<le> level then Some ((0 # lv i) ! passed Q (lv i)) else p ! i) [0..<n]) ?p)"
    by (rule Suc.IH [OF _ j'(1)]) (use Suc.prems(1,3) in \<open>simp_all split: option.splits\<close>)
  also have "map_option (\<lambda>p. map (\<lambda>i. if i \<le> level then Some ((0 # lv i) ! passed Q (lv i)) else p ! i) [0..<n]) ?p =
      map_option (\<lambda>p. map (\<lambda>i. if i \<le> Suc level then Some ((0 # lv i) ! passed Q (lv i)) else p ! i) [0..<n]) prev"
    using Suc.prems(1,3) fill_Suc [of _ n level "\<lambda>i. Some ((0 # lv i) ! passed Q (lv i))"] by (cases prev) simp_all
  finally show ?case unfolding search_along [OF S Suc.prems(1,2)] .
qed

section \<open>New nodes\<close>

lemma random_height_range: "1 \<le> height \<Longrightarrow> height \<le> kMaxHeight \<Longrightarrow>
    1 \<le> fst (random_height height rnd) \<and> fst (random_height height rnd) \<le> kMaxHeight"
proof (induction height rnd rule: random_height.induct)
  case (1 height rnd)
  show ?case
  proof (cases "height < kMaxHeight \<and> Random_Next rnd mod 4 = 0")
    case True
    then show ?thesis using 1 by (subst (1 2) random_height.simps) (simp add: Let_def)
  next
    case False
    then show ?thesis using 1 by (subst (1 2) random_height.simps) (auto simp: Let_def)
  qed
qed

lemma RandomHeight_range: "\<exists>h rnd'. RandomHeight rnd = Some (h, rnd') \<and> 1 \<le> h \<and> h \<le> kMaxHeight"
  using random_height_range [of 1 rnd] by (cases "random_height 1 rnd") (simp add: RandomHeight_def kMaxHeight_def)

lemma NewNode_spec:
  assumes "arena_inv (sl_arena sl)" "h \<le> kMaxHeight"
  shows "\<exists>sl'. NewNode key h sl = Some (length (sl_nodes sl), sl') \<and> arena_inv (sl_arena sl') \<and>
    sl_max_height sl' = sl_max_height sl \<and> Node_key sl' (length (sl_nodes sl)) = key \<and>
    (\<forall>i<h. has_link sl' (length (sl_nodes sl)) i) \<and>
    (\<forall>x<length (sl_nodes sl). Node_key sl' x = Node_key sl x \<and> (\<forall>i. Node_Next sl' x i = Node_Next sl x i))"
proof -
  have "16 + 8 * (h - 1) < 2 ^ 63" using assms(2) by (simp add: kMaxHeight_def)
  then obtain p ar where ar: "AllocateAligned (16 + 8 * (h - 1)) (sl_arena sl) = Some (Some p, ar)" "arena_inv ar"
    using AllocateAligned_takes [OF assms(1), of "16 + 8 * (h - 1)"] unfolding takes_def by auto
  let ?sl = "sl\<lparr>sl_nodes := sl_nodes sl @ [\<lparr>n_key = key, n_next = replicate h None\<rparr>], sl_arena := ar\<rparr>"
  have "NewNode key h sl = Some (length (sl_nodes sl), ?sl)" using ar(1) by (simp add: NewNode_def)
  then show ?thesis
    using ar(2) by (intro exI [of _ ?sl]) (auto simp: Node_key_def Node_Next_def has_link_def nth_opt_def nth_append)
qed

lemma set_null_spec:
  "\<forall>i \<in> set is. has_link sl x i \<Longrightarrow> \<exists>sl'. set_null is x sl = Some sl' \<and> same_nodes sl sl' \<and>
    (\<forall>i. i \<in> set is \<or> Node_Next sl x i = Some None \<longrightarrow> Node_Next sl' x i = Some None)"
proof (induction "is" arbitrary: sl)
  case Nil
  then show ?case by (simp add: same_nodes_def)
next
  case (Cons i "is")
  then obtain sl1 where sl1: "Node_SetNext x i None sl = Some sl1" "same_nodes sl sl1"
    "\<forall>y j. Node_Next sl1 y j = (if y = x \<and> j = i then Some None else Node_Next sl y j)"
    using SetNext_spec [of sl x i None] by auto
  have "\<forall>i \<in> set is. has_link sl1 x i" using Cons.prems sl1(2) by (simp add: same_nodes_def)
  from Cons.IH [OF this] obtain sl' where "set_null is x sl1 = Some sl'" "same_nodes sl1 sl'"
    "\<forall>i. i \<in> set is \<or> Node_Next sl1 x i = Some None \<longrightarrow> Node_Next sl' x i = Some None" by blast
  then show ?case using sl1 same_nodes_trans by (intro exI [of _ sl']) auto
qed

lemma Node_bound: "Node_Next sl x i = Some p \<Longrightarrow> x < length (sl_nodes sl)" "Node_key sl x = Some k \<Longrightarrow> x < length (sl_nodes sl)"
  by (auto simp: Node_Next_def Node_key_def split: Option.bind_splits)

section \<open>Sorted levels\<close>

locale skip_order = three_way K cmp for K :: "'k \<Rightarrow> bool" and cmp :: "'k \<Rightarrow> 'k \<Rightarrow> int" +
  fixes compare :: "'k \<Rightarrow> 'k \<Rightarrow> int option"
  assumes compare: "K a \<Longrightarrow> K b \<Longrightarrow> compare a b = Some (cmp a b)"
begin

definition skip_inv :: "'k SkipList \<Rightarrow> (nat \<Rightarrow> nat list) \<Rightarrow> (nat \<Rightarrow> 'k) \<Rightarrow> bool" where
  "skip_inv sl lv key \<longleftrightarrow>
     (\<forall>i<kMaxHeight. chained sl i (lv i)) \<and> (\<forall>i. Suc i < kMaxHeight \<longrightarrow> set (lv (Suc i)) \<subseteq> set (lv i)) \<and>
     (\<forall>i<kMaxHeight. sorted_wrt (\<lambda>x y. cmp (key x) (key y) < 0) (lv i)) \<and>
     (\<forall>x \<in> set (lv 0). 0 < x \<and> Node_key sl x = Some (key x) \<and> K (key x)) \<and>
     0 < sl_max_height sl \<and> sl_max_height sl \<le> kMaxHeight \<and> (\<forall>i<kMaxHeight. sl_max_height sl \<le> i \<longrightarrow> lv i = []) \<and>
     arena_inv (sl_arena sl)"

lemma skip_invD:
  assumes "skip_inv sl lv key"
  shows "\<And>i. i < kMaxHeight \<Longrightarrow> chained sl i (lv i)" "\<And>i. Suc i < kMaxHeight \<Longrightarrow> set (lv (Suc i)) \<subseteq> set (lv i)"
    "\<And>i. i < kMaxHeight \<Longrightarrow> sorted_wrt (\<lambda>x y. cmp (key x) (key y) < 0) (lv i)"
    "\<And>x. x \<in> set (lv 0) \<Longrightarrow> 0 < x \<and> Node_key sl x = Some (key x) \<and> K (key x)"
    "0 < sl_max_height sl" "sl_max_height sl \<le> kMaxHeight" "\<And>i. i < kMaxHeight \<Longrightarrow> sl_max_height sl \<le> i \<Longrightarrow> lv i = []"
    "arena_inv (sl_arena sl)"
  using assms unfolding skip_inv_def by blast+

lemma level_bottom: "skip_inv sl lv key \<Longrightarrow> i < kMaxHeight \<Longrightarrow> set (lv i) \<subseteq> set (lv 0)"
proof (induction i)
  case (Suc i)
  then show ?case using skip_invD(2) [OF Suc.prems(1), of i] by auto
qed simp

lemma level_distinct:
  assumes "skip_inv sl lv key" "i < kMaxHeight"
  shows "distinct (0 # lv i)"
proof -
  have K: "K (key x)" "0 < x" if "x \<in> set (lv i)" for x using skip_invD(4) [OF assms(1)] level_bottom [OF assms] that by blast+
  have "sorted_wrt (\<lambda>x y. cmp (key x) (key y) < 0) xs \<Longrightarrow> (\<forall>x \<in> set xs. K (key x)) \<Longrightarrow> distinct xs" for xs
    by (induction xs) (use cmp_refl in fastforce)+
  then show ?thesis using skip_invD(3) [OF assms] K by auto
qed

lemma below_prefix:
  assumes "skip_inv sl lv key" "i < kMaxHeight" "K target" "j < length (lv i)"
  shows "cmp (key (lv i ! j)) target < 0 \<longleftrightarrow> j < passed (\<lambda>x. cmp (key x) target < 0) (lv i)"
  unfolding passed_def
proof (rule filter_prefix [OF skip_invD(3) [OF assms(1,2)] _ assms(4)])
  fix x y
  assume "x \<in> set (lv i)" "y \<in> set (lv i)" "cmp (key x) (key y) < 0" "cmp (key y) target < 0"
  then show "cmp (key x) target < 0"
    using cmp_less_trans [of "key x" "key y" target] skip_invD(4) [OF assms(1)] level_bottom [OF assms(1,2)] assms(3) by blast
qed

abbreviation (input) "place key target xs \<equiv> passed (\<lambda>x. cmp (key x) target < 0) xs"

lemma is_after:
  assumes "skip_inv sl lv key" "K target" "x \<in> set (lv 0)"
  shows "KeyIsAfterNode compare sl target (Some x) = Some (cmp (key x) target < 0)"
  using skip_invD(4) [OF assms(1,3)] compare [of "key x" target] assms(2) by (simp add: KeyIsAfterNode_def)

lemma height_index: "skip_inv sl lv key \<Longrightarrow> sl_max_height sl - 1 < kMaxHeight"
  using skip_invD(5,6) [of sl lv key] by linarith

lemma find_greater_or_equal:
  assumes inv: "skip_inv sl lv key" and "K target" and prev: "case prev of None \<Rightarrow> True | Some p \<Rightarrow> length p = kMaxHeight"
  shows "FindGreaterOrEqual compare sl target prev = Some (end_at (lv 0) (place key target (lv 0)),
    map_option (\<lambda>p. map (\<lambda>i. if i < sl_max_height sl then Some ((0 # lv i) ! place key target (lv i)) else p ! i) [0..<kMaxHeight]) prev)"
proof -
  have S: "searches sl lv kMaxHeight (\<lambda>_. Some True) (KeyIsAfterNode compare sl target) (\<lambda>x. cmp (key x) target < 0)"
    unfolding searches_def using skip_invD(1,2) [OF inv] below_prefix [OF inv _ assms(2)] is_after [OF inv assms(2)]
    by (simp add: KeyIsAfterNode_def)
  have le: "i \<le> sl_max_height sl - Suc 0 \<longleftrightarrow> i < sl_max_height sl" for i using skip_invD(5) [OF inv] by linarith
  show ?thesis
    using search_finds [OF S height_index [OF inv], of 0 prev] prev skip_invD(5) [OF inv]
    by (simp add: FindGreaterOrEqual_def le)
qed

lemma find_less_than:
  assumes inv: "skip_inv sl lv key" and "K target"
  shows "FindLessThan compare sl target = Some ((0 # lv 0) ! place key target (lv 0))"
proof -
  let ?go = "\<lambda>link. case link of None \<Rightarrow> Some False | Some n \<Rightarrow> do { k \<leftarrow> Node_key sl n; c \<leftarrow> compare k target; Some (\<not> c \<ge> 0) }"
  have "?go (Some x) = Some (cmp (key x) target < 0)" if "x \<in> set (lv 0)" for x
    using skip_invD(4) [OF inv that] compare [of "key x" target] assms(2) by (simp add: not_le)
  then have S: "searches sl lv kMaxHeight (\<lambda>x. if x = 0 then Some True else KeyIsAfterNode compare sl target (Some x)) ?go
      (\<lambda>x. cmp (key x) target < 0)"
    unfolding searches_def using skip_invD(1,2) [OF inv] below_prefix [OF inv _ assms(2)] is_after [OF inv assms(2)] by auto
  show ?thesis
    using search_finds [OF S height_index [OF inv], of 0 None] skip_invD(5) [OF inv] by (simp add: FindLessThan_def)
qed

lemma find_last:
  assumes inv: "skip_inv sl lv key"
  shows "FindLast sl = Some ((0 # lv 0) ! length (lv 0))"
proof -
  have S: "searches sl lv kMaxHeight (\<lambda>_. Some True) (\<lambda>link. Some (link \<noteq> None)) (\<lambda>_. True)"
    unfolding searches_def using skip_invD(1,2) [OF inv] by (simp add: passed_def)
  have "passed (\<lambda>_. True) (lv 0) = length (lv 0)" by (simp add: passed_def)
  then show ?thesis
    using search_finds [OF S height_index [OF inv], of 0 None] skip_invD(5) [OF inv] by (simp add: FindLast_def)
qed

text \<open>Linking a node into one level.\<close>

lemma sorted_ins_at:
  assumes "sorted_wrt (\<lambda>x y. cmp (key x) (key y) < 0) xs" "\<forall>y \<in> set xs. K (key y) \<and> cmp (key y) (key x) \<noteq> 0" "K (key x)"
    and "\<And>j. j < length xs \<Longrightarrow> cmp (key (xs ! j)) (key x) < 0 \<longleftrightarrow> j < n"
  shows "sorted_wrt (\<lambda>x y. cmp (key x) (key y) < 0) (ins_at n x xs)"
proof -
  have a: "cmp (key y) (key x) < 0" if "y \<in> set (take n xs)" for y
    using that assms(4) by (auto simp: in_set_conv_nth)
  have b: "cmp (key x) (key y) < 0" if y: "y \<in> set (drop n xs)" for y
  proof -
    obtain j where j: "j < length xs - n" "y = xs ! (n + j)" using y by (auto simp: in_set_conv_nth)
    have "y \<in> set xs" using y by (rule in_set_dropD)
    then show ?thesis using assms(2,3) assms(4) [of "n + j"] cmp_swap [of "key x" "key y"] j by fastforce
  qed
  have "sorted_wrt (\<lambda>x y. cmp (key x) (key y) < 0) (take n xs @ drop n xs)" using assms(1) by simp
  then have "sorted_wrt (\<lambda>x y. cmp (key x) (key y) < 0) (take n xs)" "sorted_wrt (\<lambda>x y. cmp (key x) (key y) < 0) (drop n xs)"
    "\<forall>y \<in> set (take n xs). \<forall>z \<in> set (drop n xs). cmp (key y) (key z) < 0" unfolding sorted_wrt_append by blast+
  then show ?thesis using a b by (auto simp: ins_at_def sorted_wrt_append)
qed

lemma link_step:
  assumes inv: "skip_inv sl lv key" and j: "j < sl_max_height sl" and x: "has_link sl x j" "0 < x" "Node_key sl x = Some (key x)" "K (key x)"
    and fresh: "x \<notin> set (lv j)" "\<forall>y \<in> set (lv 0). y \<noteq> x \<longrightarrow> cmp (key y) (key x) \<noteq> 0" and low: "0 < j \<Longrightarrow> x \<in> set (lv (j - 1))"
    and prev: "nth_opt prev j = Some (Some ((0 # lv j) ! place key (key x) (lv j)))"
  shows "\<exists>sl'. link_level x prev j sl = Some sl' \<and> same_nodes sl sl' \<and>
    skip_inv sl' (lv(j := ins_at (place key (key x) (lv j)) x (lv j))) key"
proof -
  let ?n = "place key (key x) (lv j)"
  let ?lv = "lv(j := ins_at ?n x (lv j))"
  have j12: "j < kMaxHeight" using j skip_invD(6) [OF inv] by simp
  obtain sl' where sl': "link_level x prev j sl = Some sl'" "same_nodes sl sl'" "chained sl' j (ins_at ?n x (lv j))"
    "\<forall>y i. i \<noteq> j \<longrightarrow> Node_Next sl' y i = Node_Next sl y i"
    using chained_insert [OF skip_invD(1) [OF inv j12] passed_le _ x(1) prev] level_distinct [OF inv j12] x(2) fresh(1) by auto
  have "chained sl' i (?lv i)" if "i < kMaxHeight" for i
    using sl'(3,4) skip_invD(1) [OF inv that] by (auto simp: chained_def)
  moreover have "set (?lv (Suc i)) \<subseteq> set (?lv i)" if "Suc i < kMaxHeight" for i
    using skip_invD(2) [OF inv that] low by auto
  moreover have "sorted_wrt (\<lambda>x y. cmp (key x) (key y) < 0) (?lv i)" if i: "i < kMaxHeight" for i
  proof (cases "i = j")
    case True
    have "\<forall>y \<in> set (lv j). K (key y) \<and> cmp (key y) (key x) \<noteq> 0"
    proof
      fix y
      assume y: "y \<in> set (lv j)"
      then have "y \<in> set (lv 0)" "y \<noteq> x" using level_bottom [OF inv j12] fresh(1) by blast+
      then show "K (key y) \<and> cmp (key y) (key x) \<noteq> 0" using skip_invD(4) [OF inv] fresh(2) by simp
    qed
    then have "sorted_wrt (\<lambda>x y. cmp (key x) (key y) < 0) (ins_at ?n x (lv j))"
      by (intro sorted_ins_at skip_invD(3) [OF inv j12] below_prefix [OF inv j12] x(4))
    then show ?thesis using True by simp
  next
    case False
    then show ?thesis using skip_invD(3) [OF inv i] by simp
  qed
  moreover have "0 < y \<and> Node_key sl' y = Some (key y) \<and> K (key y)" if y: "y \<in> set (?lv 0)" for y
  proof (cases "y = x")
    case True
    then show ?thesis using x sl'(2) by (simp add: same_nodes_def)
  next
    case False
    then have "y \<in> set (lv 0)" using y by (simp split: if_splits)
    then show ?thesis using skip_invD(4) [OF inv] sl'(2) by (simp add: same_nodes_def)
  qed
  moreover have "?lv i = []" if "i < kMaxHeight" "sl_max_height sl' \<le> i" for i
    using skip_invD(7) [OF inv] that sl'(2) j by (auto simp: same_nodes_def)
  ultimately have "skip_inv sl' ?lv key"
    using skip_invD(5,6,8) [OF inv] sl'(2) unfolding skip_inv_def same_nodes_def by simp
  then show ?thesis using sl'(1,2) by blast
qed

text \<open>Linking it into all its levels, from the lowest up; between two steps the list is in order.\<close>

lemma link_levels_append:
  "link_levels x prev (is @ js) sl = Option.bind (link_levels x prev is sl) (link_levels x prev js)"
  by (induction "is" arbitrary: sl) (auto split: Option.bind_splits)

definition with_node :: "(nat \<Rightarrow> nat list) \<Rightarrow> (nat \<Rightarrow> 'k) \<Rightarrow> nat \<Rightarrow> nat \<Rightarrow> nat \<Rightarrow> nat list" where
  "with_node lv key x h i = (if i < h then ins_at (place key (key x) (lv i)) x (lv i) else lv i)"

lemma link_levels_inv:
  assumes inv: "skip_inv sl lv key" and h: "h \<le> sl_max_height sl" and x: "\<forall>j<h. has_link sl x j" "0 < x" "Node_key sl x = Some (key x)" "K (key x)"
    and fresh: "x \<notin> set (lv 0)" "\<forall>y \<in> set (lv 0). cmp (key y) (key x) \<noteq> 0"
    and prev: "\<forall>j<h. nth_opt prev j = Some (Some ((0 # lv j) ! place key (key x) (lv j)))"
  shows "j \<le> h \<Longrightarrow> \<exists>sl'. link_levels x prev [0..<j] sl = Some sl' \<and> same_nodes sl sl' \<and> skip_inv sl' (with_node lv key x j) key"
proof (induction j)
  case 0
  have "with_node lv key x 0 = lv" by (auto simp: with_node_def)
  then show ?case using inv by (simp add: same_nodes_def)
next
  case (Suc j)
  then obtain sl' where sl': "link_levels x prev [0..<j] sl = Some sl'" "same_nodes sl sl'" "skip_inv sl' (with_node lv key x j) key" by auto
  have j: "j < h" "j < kMaxHeight" using Suc.prems h skip_invD(6) [OF inv] by simp_all
  have lvj: "with_node lv key x j j = lv j" by (simp add: with_node_def)
  have "x \<notin> set (lv j)" using level_bottom [OF inv j(2)] fresh(1) by blast
  moreover have "\<forall>y \<in> set (with_node lv key x j 0). y \<noteq> x \<longrightarrow> cmp (key y) (key x) \<noteq> 0" using fresh(2) by (auto simp: with_node_def)
  moreover have "x \<in> set (with_node lv key x j (j - 1))" if "0 < j" using that by (simp add: with_node_def)
  ultimately obtain sl'' where "link_level x prev j sl' = Some sl''" "same_nodes sl' sl''"
    "skip_inv sl'' ((with_node lv key x j)(j := ins_at (place key (key x) (lv j)) x (lv j))) key"
    using link_step [OF sl'(3), of j x prev] j(1) h x prev sl'(2) unfolding lvj same_nodes_def by auto
  moreover have "(with_node lv key x j)(j := ins_at (place key (key x) (lv j)) x (lv j)) = with_node lv key x (Suc j)"
    by (auto simp: with_node_def)
  ultimately show ?case using sl'(1,2) same_nodes_trans by (auto simp: link_levels_append)
qed

text \<open>A new list is empty.\<close>

lemma new_SkipList_inv:
  assumes "arena_inv ar"
  shows "\<exists>sl. new_SkipList ar = Some sl \<and> skip_inv sl (\<lambda>_. []) key"
proof -
  let ?sl = "\<lparr>sl_nodes = [], sl_max_height = 1, sl_rnd = new_Random 0xdeadbeef, sl_arena = ar\<rparr> :: 'k SkipList"
  obtain sl1 where sl1: "NewNode None kMaxHeight ?sl = Some (0, sl1)" "arena_inv (sl_arena sl1)" "sl_max_height sl1 = 1"
    "\<forall>i<kMaxHeight. has_link sl1 0 i"
    using NewNode_spec [of ?sl kMaxHeight None] assms by auto
  then obtain sl where sl: "set_null [0..<kMaxHeight] 0 sl1 = Some sl" "same_nodes sl1 sl"
    "\<forall>i<kMaxHeight. Node_Next sl 0 i = Some None"
    using set_null_spec [of "[0..<kMaxHeight]" sl1 0] by auto
  have "skip_inv sl (\<lambda>_. []) key"
    using sl(2,3) sl1(2,3) by (simp add: skip_inv_def chained_def same_nodes_def kMaxHeight_def)
  then show ?thesis using sl1(1) sl(1) by (simp add: new_SkipList_def)
qed

text \<open>Inserting a key that is not there.\<close>

lemma skip_inv_key:
  assumes "skip_inv sl lv key" "x \<notin> set (lv 0)"
  shows "skip_inv sl lv (key(x := k))"
proof -
  have "x \<notin> set (lv i)" if "i < kMaxHeight" for i using level_bottom [OF assms(1) that] assms(2) by blast
  then have "sorted_wrt (\<lambda>y z. cmp ((key(x := k)) y) ((key(x := k)) z) < 0) (lv i)" if "i < kMaxHeight" for i
    using skip_invD(3) [OF assms(1) that] that by (auto elim!: sorted_wrt_mono_rel [rotated])
  then show ?thesis using assms unfolding skip_inv_def by auto
qed

lemma prepare_inv:
  assumes inv: "skip_inv sl lv key" and k: "K k" and new: "\<forall>y \<in> set (lv 0). cmp (key y) k \<noteq> 0"
  shows "\<exists>x h prev sl1. prepare_insert compare k sl = Some (x, h, prev, sl1) \<and> 1 \<le> h \<and> h \<le> sl_max_height sl1 \<and> x \<notin> set (lv 0) \<and>
    0 < x \<and> skip_inv sl1 lv (key(x := k)) \<and> Node_key sl1 x = Some k \<and> (\<forall>i<h. has_link sl1 x i) \<and>
    (\<forall>i<h. nth_opt prev i = Some (Some ((0 # lv i) ! place key k (lv i))))"
proof -
  obtain h rnd where h: "RandomHeight (sl_rnd sl) = Some (h, rnd)" "1 \<le> h" "h \<le> kMaxHeight" using RandomHeight_range by blast
  let ?m = "sl_max_height sl"
  let ?sl = "sl\<lparr>sl_rnd := rnd, sl_max_height := max ?m h\<rparr>" and ?x = "length (sl_nodes sl)"
  let ?f = "\<lambda>i. (0 # lv i) ! place key k (lv i)"
  define prev0 where "prev0 = map (\<lambda>i. if i < ?m then Some (?f i) else replicate kMaxHeight None ! i) [0..<kMaxHeight]"
  let ?prev = "map (\<lambda>i. if ?m \<le> i \<and> i < h then Some 0 else prev0 ! i) [0..<length prev0]"
  have find: "FindGreaterOrEqual compare sl k (Some (replicate kMaxHeight None)) = Some (end_at (lv 0) (place key k (lv 0)), Some prev0)"
    using find_greater_or_equal [OF inv k, of "Some (replicate kMaxHeight None)"] unfolding prev0_def by simp
  have equal: "(case end_at (lv 0) (place key k (lv 0)) of None \<Rightarrow> Some False | Some x \<Rightarrow> do { k' \<leftarrow> Node_key sl x; Equal compare k k' }) = Some False"
  proof (cases "place key k (lv 0) < length (lv 0)")
    case True
    then have y: "lv 0 ! place key k (lv 0) \<in> set (lv 0)" by simp
    then show ?thesis
      using True skip_invD(4) [OF inv y] new compare [OF k] cmp_eq_swap [OF k] by (auto simp: end_at_def Equal_def)
  qed (simp add: end_at_def)
  obtain sl1 where sl1: "NewNode (Some k) h ?sl = Some (?x, sl1)" "arena_inv (sl_arena sl1)" "sl_max_height sl1 = max ?m h"
    "Node_key sl1 ?x = Some k" "\<forall>i<h. has_link sl1 ?x i"
    "\<forall>y<?x. Node_key sl1 y = Node_key ?sl y \<and> (\<forall>i. Node_Next sl1 y i = Node_Next ?sl y i)"
    using NewNode_spec [of ?sl h "Some k"] skip_invD(8) [OF inv] h(3) by auto
  have same: "Node_key ?sl y = Node_key sl y" "Node_Next ?sl y i = Node_Next sl y i" for y i
    by (simp_all add: Node_key_def Node_Next_def)
  have prep: "prepare_insert compare k sl = Some (?x, h, ?prev, sl1)"
    unfolding prepare_insert_def find Option.bind.bind_lunit equal h(1) prod.case Let_def
    using sl1(1) by simp
  have node: "Node_key sl1 y = Some (key y)" "y < ?x" if "y \<in> set (lv 0)" for y
    using skip_invD(4) [OF inv that] Node_bound(2) [of sl y "key y"] sl1(6) same by auto
  have chain: "chained sl1 i (lv i)" if "i < kMaxHeight" for i
    unfolding chained_def
  proof (intro allI impI)
    fix j
    assume "j \<le> length (lv i)"
    from chainedD [OF skip_invD(1) [OF inv that] this] show
      "Node_Next sl1 ((0 # lv i) ! j) i = Some (if j < length (lv i) then Some (lv i ! j) else None)"
      using sl1(6) same Node_bound(1) [of sl "(0 # lv i) ! j" i] by simp
  qed
  have x: "?x \<notin> set (lv 0)" using node(2) by blast
  have "skip_inv sl1 lv key"
    using skip_invD [OF inv] chain node(1) sl1(2,3) h(3) unfolding skip_inv_def by simp
  then have inv1: "skip_inv sl1 lv (key(?x := k))" using x by (rule skip_inv_key)
  have "Node_Next sl ((0 # lv 0) ! 0) 0 \<noteq> None" using chainedD [OF skip_invD(1) [OF inv], of 0 0] by (simp add: kMaxHeight_def)
  then have pos: "0 < ?x" using Node_bound(1) [of sl 0 0] by fastforce
  have "nth_opt ?prev i = Some (Some (?f i))" if i: "i < h" for i
  proof (cases "?m \<le> i")
    case True
    then have "lv i = []" using skip_invD(7) [OF inv] i h(3) by simp
    then show ?thesis using True i h(3) by (simp add: nth_opt_def passed_def prev0_def)
  next
    case False
    then show ?thesis using i h(3) by (simp add: nth_opt_def prev0_def)
  qed
  then have "\<forall>i<h. nth_opt ?prev i = Some (Some (?f i))" by blast
  moreover have "h \<le> sl_max_height sl1" by (simp add: sl1(3))
  ultimately show ?thesis using prep h(2) sl1(4,5) x pos inv1 by blast
qed

lemma insert_inv:
  assumes inv: "skip_inv sl lv key" and k: "K k" and new: "\<forall>y \<in> set (lv 0). cmp (key y) k \<noteq> 0"
  shows "\<exists>x h prev sl1. prepare_insert compare k sl = Some (x, h, prev, sl1) \<and> 1 \<le> h \<and> x \<notin> set (lv 0) \<and>
    (\<forall>j\<le>h. \<exists>sl'. link_levels x prev [0..<j] sl1 = Some sl' \<and> skip_inv sl' (with_node lv (key(x := k)) x j) (key(x := k)))"
proof -
  obtain x h prev sl1 where p: "prepare_insert compare k sl = Some (x, h, prev, sl1)" "1 \<le> h" "h \<le> sl_max_height sl1" "x \<notin> set (lv 0)"
    "0 < x" "skip_inv sl1 lv (key(x := k))" "Node_key sl1 x = Some k" "\<forall>i<h. has_link sl1 x i"
    "\<forall>i<h. nth_opt prev i = Some (Some ((0 # lv i) ! place key k (lv i)))"
    using prepare_inv [OF assms] by blast
  have "place (key(x := k)) k (lv i) = place key k (lv i)" if "i < kMaxHeight" for i
    using level_bottom [OF inv that] p(4) unfolding passed_def by (intro arg_cong [of _ _ length] filter_cong) auto
  moreover have "i < kMaxHeight" if "i < h" for i using that p(3) skip_invD(6) [OF p(6)] by simp
  ultimately have prev: "\<forall>i<h. nth_opt prev i = Some (Some ((0 # lv i) ! place (key(x := k)) ((key(x := k)) x) (lv i)))"
    using p(9) by simp
  have neq: "\<forall>y \<in> set (lv 0). cmp ((key(x := k)) y) ((key(x := k)) x) \<noteq> 0" using new p(4) by auto
  have kx: "Node_key sl1 x = Some ((key(x := k)) x)" "K ((key(x := k)) x)" using p(7) k by simp_all
  from link_levels_inv [OF p(6,3,8,5) kx p(4) neq prev] show ?thesis using p(1,2,4) by blast
qed

text \<open>The nodes of the lowest level with the new one.\<close>

lemma insert_bottom:
  assumes inv: "skip_inv sl lv key" and k: "K k" and new: "\<forall>y \<in> set (lv 0). cmp (key y) k \<noteq> 0"
  shows "\<exists>x sl' lv'. SkipList_Insert compare k sl = Some sl' \<and> x \<notin> set (lv 0) \<and> skip_inv sl' lv' (key(x := k)) \<and>
    lv' 0 = ins_at (place key k (lv 0)) x (lv 0)"
proof -
  obtain x h prev sl1 where p: "prepare_insert compare k sl = Some (x, h, prev, sl1)" "1 \<le> h" "x \<notin> set (lv 0)"
    "\<forall>j\<le>h. \<exists>sl'. link_levels x prev [0..<j] sl1 = Some sl' \<and> skip_inv sl' (with_node lv (key(x := k)) x j) (key(x := k))"
    using insert_inv [OF assms] by blast
  then obtain sl' where sl': "link_levels x prev [0..<h] sl1 = Some sl'" "skip_inv sl' (with_node lv (key(x := k)) x h) (key(x := k))" by blast
  have "place (key(x := k)) k (lv 0) = place key k (lv 0)"
    using p(3) unfolding passed_def by (intro arg_cong [of _ _ length] filter_cong) auto
  then have "with_node lv (key(x := k)) x h 0 = ins_at (place key k (lv 0)) x (lv 0)" using p(2) by (simp add: with_node_def)
  then show ?thesis using sl' p(1,3) by (auto simp: SkipList_Insert_def)
qed

text \<open>If a key is in the list, it is at its place.\<close>

lemma equal_at_place:
  assumes inv: "skip_inv sl lv key" and k: "K k" and y: "y \<in> set (lv 0)" "cmp (key y) k = 0"
  shows "place key k (lv 0) < length (lv 0)" "cmp (key (lv 0 ! place key k (lv 0))) k = 0"
proof -
  have zero: "0 < kMaxHeight" by (simp add: kMaxHeight_def)
  let ?p = "place key k (lv 0)"
  obtain j where j: "j < length (lv 0)" "lv 0 ! j = y" using y(1) by (auto simp: in_set_conv_nth)
  have nj: "\<not> j < ?p" using below_prefix [OF inv zero k j(1)] j(2) y(2) by simp
  then show p: "?p < length (lv 0)" using j(1) by simp
  then have z: "lv 0 ! ?p \<in> set (lv 0)" by simp
  show "cmp (key (lv 0 ! ?p)) k = 0"
  proof (cases "j = ?p")
    case False
    then have "cmp (key (lv 0 ! ?p)) (key y) < 0"
      using skip_invD(3) [OF inv zero] j nj sorted_wrt_nth_less [of _ "lv 0" ?p j] by auto
    then have "cmp (key (lv 0 ! ?p)) k < 0"
      using cmp_less_le [of "key (lv 0 ! ?p)" "key y" k] skip_invD(4) [OF inv z] skip_invD(4) [OF inv y(1)] k y(2) by simp
    then show ?thesis using below_prefix [OF inv zero k p] by simp
  qed (use j y in simp)
qed

lemma insert_duplicate:
  assumes inv: "skip_inv sl lv key" and k: "K k" and dup: "y \<in> set (lv 0)" "cmp (key y) k = 0"
  shows "SkipList_Insert compare k sl = None"
proof -
  let ?p = "place key k (lv 0)"
  note p = equal_at_place [OF assms]
  have z: "lv 0 ! ?p \<in> set (lv 0)" using p(1) by simp
  then have "Equal compare k (key (lv 0 ! ?p)) = Some True"
    using p(2) compare [OF k] skip_invD(4) [OF inv z] cmp_eq_swap [OF k] by (simp add: Equal_def)
  then have "prepare_insert compare k sl = None"
    unfolding prepare_insert_def
    using find_greater_or_equal [OF inv k, of "Some (replicate kMaxHeight None)"] p(1) skip_invD(4) [OF inv z] by (simp add: end_at_def)
  then show ?thesis by (simp add: SkipList_Insert_def)
qed

lemma contains_node:
  assumes inv: "skip_inv sl lv key" and k: "K k"
  shows "SkipList_Contains compare sl k = Some (\<exists>y \<in> set (lv 0). cmp (key y) k = 0)"
proof (cases "place key k (lv 0) < length (lv 0)")
  case True
  then have z: "lv 0 ! place key k (lv 0) \<in> set (lv 0)" by simp
  then have "(\<exists>y \<in> set (lv 0). cmp (key y) k = 0) \<longleftrightarrow> cmp k (key (lv 0 ! place key k (lv 0))) = 0"
    using equal_at_place(2) [OF inv k] cmp_eq_swap [OF k] skip_invD(4) [OF inv z] by blast
  then show ?thesis
    using find_greater_or_equal [OF inv k, of None] True skip_invD(4) [OF inv z] compare [OF k]
    by (simp add: SkipList_Contains_def end_at_def Equal_def)
next
  case False
  then have "\<not> (\<exists>y \<in> set (lv 0). cmp (key y) k = 0)" using equal_at_place(1) [OF inv k] by blast
  then show ?thesis
    using find_greater_or_equal [OF inv k, of None] False by (simp add: SkipList_Contains_def end_at_def)
qed

end

end
