(* ===== verification/LdbMemTable.thy ===== *)
theory LdbMemTable
  imports LdbSkipListProof LdbFormat LdbWriteBatch
begin

text \<open>
  \<open>db/memtable.cc\<close>: entries are byte strings in an arena, named by the bytes from their address on, and the
  skip list orders them by the internal keys in front. \<open>None\<close> is a failed assertion or a read past an
  entry. Locks and the lifetime of readers are left out.
\<close>

section \<open>Entries\<close>

text \<open>\<open>GetLengthPrefixedSlice\<close> of \<open>memtable.cc\<close>, with the bytes behind the slice.\<close>

definition get_varint32_at :: "byte list \<Rightarrow> (32 word \<times> byte list) option" where
  "get_varint32_at p =
     do { (len, q) \<leftarrow> GetVarint32Ptr (take 5 p); Some (len, drop (length (take 5 p) - length q) p) }"

definition MemSlice :: "byte list \<Rightarrow> (byte list \<times> byte list) option" where
  "MemSlice data =
     do { (len, p) \<leftarrow> get_varint32_at data;
          if unat len \<le> length p then Some (take (unat len) p, drop (unat len) p) else None }"

definition MemTable_compare :: "(byte list \<Rightarrow> byte list \<Rightarrow> int) \<Rightarrow> byte list \<Rightarrow> byte list \<Rightarrow> int option" where
  "MemTable_compare cmp aptr bptr =
     do { (a, _) \<leftarrow> MemSlice aptr; (b, _) \<leftarrow> MemSlice bptr; InternalKeyComparator_Compare cmp a b }"

definition EncodeKey :: "byte list \<Rightarrow> byte list" where
  "EncodeKey target = PutVarint32 [] (of_nat (length target)) @ target"

section \<open>The table\<close>

record MemTable =
  mt_refs :: int
  mt_table :: "byte list SkipList"

definition new_MemTable :: "MemTable option" where
  "new_MemTable = do { table \<leftarrow> new_SkipList new_Arena; Some \<lparr>mt_refs = 0, mt_table = table\<rparr> }"

definition MemTable_Ref :: "MemTable \<Rightarrow> MemTable" where
  "MemTable_Ref m = m\<lparr>mt_refs := mt_refs m + 1\<rparr>"

text \<open>\<open>Some None\<close>: the table has been deleted.\<close>

definition MemTable_Unref :: "MemTable \<Rightarrow> MemTable option option" where
  "MemTable_Unref m =
     (let refs = mt_refs m - 1 in
      if refs < 0 then None
      else if refs \<le> 0 then (if refs = 0 then Some None else None)
      else Some (Some (m\<lparr>mt_refs := refs\<rparr>)))"

definition ApproximateMemoryUsage :: "MemTable \<Rightarrow> 64 word" where
  "ApproximateMemoryUsage m = MemoryUsage (sl_arena (mt_table m))"

definition MemTable_Add ::
  "(byte list \<Rightarrow> byte list \<Rightarrow> int) \<Rightarrow> SequenceNumber \<Rightarrow> ValueType \<Rightarrow> byte list \<Rightarrow> byte list \<Rightarrow> MemTable \<Rightarrow> MemTable option" where
  "MemTable_Add cmp s type key val m =
     (let key_size = length key;
          val_size = length val;
          internal_key_size = key_size + 8;
          encoded_len = VarintLength (of_nat internal_key_size) + int internal_key_size + VarintLength (of_nat val_size) + int val_size;
          table = mt_table m in
      do { (_, arena) \<leftarrow> Arena_Allocate (nat encoded_len) (sl_arena table);
           let buf = EncodeVarint32 (of_nat internal_key_size) @ key @ EncodeFixed64 (push_bit 8 s OR ucast type) @
             EncodeVarint32 (of_nat val_size) @ val;
           if int (length buf) \<noteq> encoded_len then None
           else do { table \<leftarrow> SkipList_Insert (MemTable_compare cmp) buf (table\<lparr>sl_arena := arena\<rparr>);
                     Some (m\<lparr>mt_table := table\<rparr>) } })"

text \<open>\<open>Get\<close> with what \<open>*value\<close> and \<open>*s\<close> hold before and after.\<close>

definition MemTable_Get ::
  "(byte list \<Rightarrow> byte list \<Rightarrow> int) \<Rightarrow> LookupKey \<Rightarrow> byte list \<times> Status \<Rightarrow> MemTable \<Rightarrow> (bool \<times> byte list \<times> Status) option" where
  "MemTable_Get cmp key out m =
     do { iter \<leftarrow> SkipIter_Seek (MemTable_compare cmp) (mt_table m) (memtable_key key);
          if SkipIter_Valid iter then
            do { entry \<leftarrow> SkipIter_key (mt_table m) iter;
                 (key_length, key_ptr) \<leftarrow> get_varint32_at entry;
                 if unat (key_length - 8) > length key_ptr then None
                 else if cmp (take (unat (key_length - 8)) key_ptr) (lookup_user_key key) = 0 then
                   do { tag \<leftarrow> DecodeFixed64 (drop (unat key_length - 8) key_ptr);
                        let type = (ucast (tag AND 0xff) :: ValueType);
                        if type = kTypeValue then
                          do { (v, _) \<leftarrow> MemSlice (drop (unat key_length) key_ptr); Some (True, v, snd out) }
                        else if type = kTypeDeletion then Some (True, fst out, NotFound [] [])
                        else Some (False, out) }
                 else Some (False, out) }
          else Some (False, out) }"

section \<open>The iterator\<close>

definition MemTableIterator_key :: "MemTable \<Rightarrow> SkipIter \<Rightarrow> byte list option" where
  "MemTableIterator_key m iter = do { entry \<leftarrow> SkipIter_key (mt_table m) iter; (k, _) \<leftarrow> MemSlice entry; Some k }"

definition MemTableIterator_value :: "MemTable \<Rightarrow> SkipIter \<Rightarrow> byte list option" where
  "MemTableIterator_value m iter =
     do { entry \<leftarrow> SkipIter_key (mt_table m) iter; (_, rest) \<leftarrow> MemSlice entry; (v, _) \<leftarrow> MemSlice rest; Some v }"

definition MemTableOps :: "(byte list \<Rightarrow> byte list \<Rightarrow> int) \<Rightarrow> MemTable \<Rightarrow> SkipIter IteratorOps" where
  "MemTableOps cmp m =
     \<lparr>it_Valid = SkipIter_Valid, it_key = MemTableIterator_key m, it_value = MemTableIterator_value m,
      it_Next = SkipIter_Next (mt_table m), it_Prev = SkipIter_Prev (MemTable_compare cmp) (mt_table m),
      it_SeekToFirst = (\<lambda>_. SkipIter_SeekToFirst (mt_table m)), it_SeekToLast = (\<lambda>_. SkipIter_SeekToLast (mt_table m)),
      it_Seek = (\<lambda>k _. SkipIter_Seek (MemTable_compare cmp) (mt_table m) (EncodeKey k)), it_status = (\<lambda>_. Status_OK)\<rparr>"

definition MemTable_NewIterator :: SkipIter where "MemTable_NewIterator = None"

text \<open>The additions that a write batch makes, one after the other (\<open>db/write_batch.cc\<close>, \<open>MemTableInserter\<close>).\<close>

fun add_entries :: "(byte list \<Rightarrow> byte list \<Rightarrow> int) \<Rightarrow> mem_entry list \<Rightarrow> MemTable \<Rightarrow> MemTable option" where
  "add_entries cmp [] m = Some m"
| "add_entries cmp (e # es) m =
     do { m \<leftarrow> MemTable_Add cmp (me_seq e) (me_type e) (me_key e) (me_value e) m; add_entries cmp es m }"

end
