(* ===== verification/LdbDBIter.thy ===== *)
theory LdbDBIter
  imports LdbIterator LdbFormat LdbRandom
begin

text \<open>
  \<open>db/db_iter.cc\<close>: the iterator of a database, which makes of the entries of an internal iterator what
  a user sees at a sequence number: of each user key the newest entry that is not newer, unless it is a
  deletion. \<open>None\<close> is a failed assertion. The database is only told of samples of the keys read;
  \<open>di_samples\<close> are the calls of \<open>RecordReadSample\<close>.
\<close>

datatype Direction = kForward | kReverse

definition kReadBytesPeriod :: int where "kReadBytesPeriod = 1048576"

record 'it DBIter =
  di_iter :: 'it
  di_sequence :: SequenceNumber
  di_status :: Status
  di_saved_key :: "byte list"
  di_saved_value :: "byte list"
  di_direction :: Direction
  di_valid :: bool
  di_rnd :: "32 word"
  di_bytes_counter :: int
  di_samples :: "byte list list"

definition RandomPeriod :: "32 word \<Rightarrow> int \<times> 32 word" where
  "RandomPeriod rnd = (case Random_Uniform (2 * kReadBytesPeriod) rnd of (r, rnd) \<Rightarrow> (uint r, rnd))"

definition new_DBIter :: "'it \<Rightarrow> SequenceNumber \<Rightarrow> 32 word \<Rightarrow> 'it DBIter" where
  "new_DBIter iter s seed =
     (case RandomPeriod (new_Random seed) of (period, rnd) \<Rightarrow>
        \<lparr>di_iter = iter, di_sequence = s, di_status = Status_OK, di_saved_key = [], di_saved_value = [],
         di_direction = kForward, di_valid = False, di_rnd = rnd, di_bytes_counter = period, di_samples = []\<rparr>)"

definition DBIter_key :: "'it IteratorOps \<Rightarrow> 'it DBIter \<Rightarrow> byte list option" where
  "DBIter_key ops st =
     (if \<not> di_valid st then None
      else if di_direction st = kForward then do { k \<leftarrow> it_key ops (di_iter st); ExtractUserKey k }
      else Some (di_saved_key st))"

definition DBIter_value :: "'it IteratorOps \<Rightarrow> 'it DBIter \<Rightarrow> byte list option" where
  "DBIter_value ops st =
     (if \<not> di_valid st then None
      else if di_direction st = kForward then it_value ops (di_iter st)
      else Some (di_saved_value st))"

definition DBIter_status :: "'it IteratorOps \<Rightarrow> 'it DBIter \<Rightarrow> Status" where
  "DBIter_status ops st = (if status_ok (di_status st) then it_status ops (di_iter st) else di_status st)"

section \<open>Reading an entry\<close>

partial_function (option) sample_loop :: "byte list \<Rightarrow> 'it DBIter \<Rightarrow> 'it DBIter option" where
  "sample_loop k st =
     (if di_bytes_counter st < 0
      then sample_loop k
        (st\<lparr>di_bytes_counter := di_bytes_counter st + fst (RandomPeriod (di_rnd st)),
            di_rnd := snd (RandomPeriod (di_rnd st)), di_samples := di_samples st @ [k]\<rparr>)
      else Some st)"

text \<open>The sizes of a key and a value in memory add up to less than 2^63.\<close>

definition ParseKey :: "'it IteratorOps \<Rightarrow> 'it DBIter \<Rightarrow> (ParsedInternalKey option \<times> 'it DBIter) option" where
  "ParseKey ops st =
     do { k \<leftarrow> it_key ops (di_iter st);
          v \<leftarrow> it_value ops (di_iter st);
          st \<leftarrow> sample_loop k (st\<lparr>di_bytes_counter := di_bytes_counter st - int (length k + length v)\<rparr>);
          parsed \<leftarrow> ParseInternalKey k;
          Some (parsed, if parsed = None then st\<lparr>di_status := Corruption ''corrupted internal key in DBIter'' []\<rparr> else st) }"

section \<open>Forwards\<close>

text \<open>What the loop of \<open>FindNextUserEntry\<close> does with an entry: is it the one to yield, and is it skipping now?\<close>

definition next_entry ::
  "(byte list \<Rightarrow> byte list \<Rightarrow> int) \<Rightarrow> ParsedInternalKey option \<Rightarrow> bool \<Rightarrow> 'it DBIter \<Rightarrow> bool \<times> bool \<times> 'it DBIter" where
  "next_entry cmp parsed skipping st =
     (case parsed of
        None \<Rightarrow> (False, skipping, st)
      | Some ik \<Rightarrow>
          if pk_sequence ik \<le> di_sequence st then
            if pk_type ik = kTypeDeletion then (False, True, st\<lparr>di_saved_key := pk_user_key ik\<rparr>)
            else if skipping \<and> cmp (pk_user_key ik) (di_saved_key st) \<le> 0 then (False, skipping, st)
            else (True, skipping, st\<lparr>di_valid := True, di_saved_key := []\<rparr>)
          else (False, skipping, st))"

partial_function (option) find_next_loop ::
  "'it IteratorOps \<Rightarrow> (byte list \<Rightarrow> byte list \<Rightarrow> int) \<Rightarrow> bool \<Rightarrow> 'it DBIter \<Rightarrow> 'it DBIter option" where
  "find_next_loop ops cmp skipping st =
     do { (parsed, st) \<leftarrow> ParseKey ops st;
          let (yield, skipping, st) = next_entry cmp parsed skipping st;
          if yield then Some st
          else do { iter \<leftarrow> it_Next ops (di_iter st);
                    let st = st\<lparr>di_iter := iter\<rparr>;
                    if it_Valid ops iter then find_next_loop ops cmp skipping st
                    else Some (st\<lparr>di_saved_key := [], di_valid := False\<rparr>) } }"

text \<open>\<open>skip\<close> is always \<open>saved_key_\<close>.\<close>

definition FindNextUserEntry ::
  "'it IteratorOps \<Rightarrow> (byte list \<Rightarrow> byte list \<Rightarrow> int) \<Rightarrow> bool \<Rightarrow> 'it DBIter \<Rightarrow> 'it DBIter option" where
  "FindNextUserEntry ops cmp skipping st =
     (if \<not> it_Valid ops (di_iter st) \<or> di_direction st \<noteq> kForward then None else find_next_loop ops cmp skipping st)"

definition DBIter_Next :: "'it IteratorOps \<Rightarrow> (byte list \<Rightarrow> byte list \<Rightarrow> int) \<Rightarrow> 'it DBIter \<Rightarrow> 'it DBIter option" where
  "DBIter_Next ops cmp st =
     (if \<not> di_valid st then None
      else if di_direction st = kReverse then
        do { let st = st\<lparr>di_direction := kForward\<rparr>;
             iter \<leftarrow> (if \<not> it_Valid ops (di_iter st) then it_SeekToFirst ops (di_iter st) else it_Next ops (di_iter st));
             let st = st\<lparr>di_iter := iter\<rparr>;
             if \<not> it_Valid ops iter then Some (st\<lparr>di_valid := False, di_saved_key := []\<rparr>)
             else FindNextUserEntry ops cmp True st }
      else
        do { k \<leftarrow> it_key ops (di_iter st);
             u \<leftarrow> ExtractUserKey k;
             FindNextUserEntry ops cmp True (st\<lparr>di_saved_key := u\<rparr>) })"

section \<open>Backwards\<close>

text \<open>An entry in the loop of \<open>FindPrevUserEntry\<close>: is it to stop there, and the type of the last entry that counted.\<close>

definition prev_entry ::
  "'it IteratorOps \<Rightarrow> (byte list \<Rightarrow> byte list \<Rightarrow> int) \<Rightarrow> ParsedInternalKey option \<Rightarrow> ValueType \<Rightarrow> 'it DBIter \<Rightarrow>
   (bool \<times> ValueType \<times> 'it DBIter) option" where
  "prev_entry ops cmp parsed value_type st =
     (case parsed of
        None \<Rightarrow> Some (False, value_type, st)
      | Some ik \<Rightarrow>
          if pk_sequence ik \<le> di_sequence st then
            if value_type \<noteq> kTypeDeletion \<and> cmp (pk_user_key ik) (di_saved_key st) < 0 then Some (True, value_type, st)
            else if pk_type ik = kTypeDeletion then Some (False, pk_type ik, st\<lparr>di_saved_key := [], di_saved_value := []\<rparr>)
            else
              do { raw_value \<leftarrow> it_value ops (di_iter st);
                   k \<leftarrow> it_key ops (di_iter st);
                   u \<leftarrow> ExtractUserKey k;
                   Some (False, pk_type ik, st\<lparr>di_saved_key := u, di_saved_value := raw_value\<rparr>) }
          else Some (False, value_type, st))"

partial_function (option) find_prev_loop ::
  "'it IteratorOps \<Rightarrow> (byte list \<Rightarrow> byte list \<Rightarrow> int) \<Rightarrow> ValueType \<Rightarrow> 'it DBIter \<Rightarrow> (ValueType \<times> 'it DBIter) option" where
  "find_prev_loop ops cmp value_type st =
     do { (parsed, st) \<leftarrow> ParseKey ops st;
          (stop, value_type, st) \<leftarrow> prev_entry ops cmp parsed value_type st;
          if stop then Some (value_type, st)
          else do { iter \<leftarrow> it_Prev ops (di_iter st);
                    let st = st\<lparr>di_iter := iter\<rparr>;
                    if it_Valid ops iter then find_prev_loop ops cmp value_type st else Some (value_type, st) } }"

definition FindPrevUserEntry ::
  "'it IteratorOps \<Rightarrow> (byte list \<Rightarrow> byte list \<Rightarrow> int) \<Rightarrow> 'it DBIter \<Rightarrow> 'it DBIter option" where
  "FindPrevUserEntry ops cmp st =
     (if di_direction st \<noteq> kReverse then None
      else
        do { (value_type, st) \<leftarrow> (if it_Valid ops (di_iter st) then find_prev_loop ops cmp kTypeDeletion st
                                 else Some (kTypeDeletion, st));
             Some (if value_type = kTypeDeletion
                   then st\<lparr>di_valid := False, di_saved_key := [], di_saved_value := [], di_direction := kForward\<rparr>
                   else st\<lparr>di_valid := True\<rparr>) })"

text \<open>The scan of \<open>Prev\<close> back to an earlier user key; \<open>False\<close>: there is none.\<close>

partial_function (option) prev_key_loop ::
  "'it IteratorOps \<Rightarrow> (byte list \<Rightarrow> byte list \<Rightarrow> int) \<Rightarrow> 'it DBIter \<Rightarrow> (bool \<times> 'it DBIter) option" where
  "prev_key_loop ops cmp st =
     do { iter \<leftarrow> it_Prev ops (di_iter st);
          let st = st\<lparr>di_iter := iter\<rparr>;
          if \<not> it_Valid ops iter then Some (False, st\<lparr>di_valid := False, di_saved_key := [], di_saved_value := []\<rparr>)
          else do { k \<leftarrow> it_key ops iter;
                    u \<leftarrow> ExtractUserKey k;
                    if cmp u (di_saved_key st) < 0 then Some (True, st) else prev_key_loop ops cmp st } }"

definition DBIter_Prev :: "'it IteratorOps \<Rightarrow> (byte list \<Rightarrow> byte list \<Rightarrow> int) \<Rightarrow> 'it DBIter \<Rightarrow> 'it DBIter option" where
  "DBIter_Prev ops cmp st =
     (if \<not> di_valid st then None
      else if di_direction st = kForward then
        if \<not> it_Valid ops (di_iter st) then None
        else do { k \<leftarrow> it_key ops (di_iter st);
                  u \<leftarrow> ExtractUserKey k;
                  (found, st) \<leftarrow> prev_key_loop ops cmp (st\<lparr>di_saved_key := u\<rparr>);
                  if found then FindPrevUserEntry ops cmp (st\<lparr>di_direction := kReverse\<rparr>) else Some st }
      else FindPrevUserEntry ops cmp st)"

section \<open>Seeking\<close>

definition DBIter_Seek ::
  "'it IteratorOps \<Rightarrow> (byte list \<Rightarrow> byte list \<Rightarrow> int) \<Rightarrow> byte list \<Rightarrow> 'it DBIter \<Rightarrow> 'it DBIter option" where
  "DBIter_Seek ops cmp target st =
     do { saved_key \<leftarrow> AppendInternalKey []
            \<lparr>pk_user_key = target, pk_sequence = di_sequence st, pk_type = kValueTypeForSeek\<rparr>;
          iter \<leftarrow> it_Seek ops saved_key (di_iter st);
          let st = st\<lparr>di_direction := kForward, di_saved_value := [], di_saved_key := saved_key, di_iter := iter\<rparr>;
          if it_Valid ops iter then FindNextUserEntry ops cmp False st else Some (st\<lparr>di_valid := False\<rparr>) }"

definition DBIter_SeekToFirst ::
  "'it IteratorOps \<Rightarrow> (byte list \<Rightarrow> byte list \<Rightarrow> int) \<Rightarrow> 'it DBIter \<Rightarrow> 'it DBIter option" where
  "DBIter_SeekToFirst ops cmp st =
     do { iter \<leftarrow> it_SeekToFirst ops (di_iter st);
          let st = st\<lparr>di_direction := kForward, di_saved_value := [], di_iter := iter\<rparr>;
          if it_Valid ops iter then FindNextUserEntry ops cmp False st else Some (st\<lparr>di_valid := False\<rparr>) }"

definition DBIter_SeekToLast ::
  "'it IteratorOps \<Rightarrow> (byte list \<Rightarrow> byte list \<Rightarrow> int) \<Rightarrow> 'it DBIter \<Rightarrow> 'it DBIter option" where
  "DBIter_SeekToLast ops cmp st =
     do { iter \<leftarrow> it_SeekToLast ops (di_iter st);
          FindPrevUserEntry ops cmp (st\<lparr>di_direction := kReverse, di_saved_value := [], di_iter := iter\<rparr>) }"

definition DBIterOps :: "'it IteratorOps \<Rightarrow> (byte list \<Rightarrow> byte list \<Rightarrow> int) \<Rightarrow> 'it DBIter IteratorOps" where
  "DBIterOps ops cmp =
     \<lparr>it_Valid = di_valid, it_key = DBIter_key ops, it_value = DBIter_value ops, it_Next = DBIter_Next ops cmp,
      it_Prev = DBIter_Prev ops cmp, it_SeekToFirst = DBIter_SeekToFirst ops cmp, it_SeekToLast = DBIter_SeekToLast ops cmp,
      it_Seek = DBIter_Seek ops cmp, it_status = DBIter_status ops\<rparr>"

end
