(* ===== verification/LdbDBIterProof.thy ===== *)
theory LdbDBIterProof
  imports LdbDBIter
begin

text \<open>
  The iterator of a database is an iterator over what a user sees (\<open>user_view\<close>), over any iterator of
  the internal entries: locale \<open>user_iterator\<close>.
\<close>

section \<open>What a user sees\<close>

text \<open>The parts of the internal key of an entry.\<close>

definition entry_user :: "pair list \<Rightarrow> nat \<Rightarrow> byte list" where
  "entry_user kvs j = take (length (fst (kvs ! j)) - 8) (fst (kvs ! j))"

definition entry_tag :: "pair list \<Rightarrow> nat \<Rightarrow> 64 word" where
  "entry_tag kvs j = the (key_tag (fst (kvs ! j)))"

definition entry_type :: "pair list \<Rightarrow> nat \<Rightarrow> ValueType" where
  "entry_type kvs j = ucast (entry_tag kvs j AND 0xFF)"

definition entry_visible :: "SequenceNumber \<Rightarrow> pair list \<Rightarrow> nat \<Rightarrow> bool" where
  "entry_visible s kvs j \<longleftrightarrow> drop_bit 8 (entry_tag kvs j) \<le> s"

text \<open>The entries of a database: in order, each with a type that there is.\<close>

definition db_entries :: "(byte list \<Rightarrow> bool) \<Rightarrow> (byte list \<Rightarrow> byte list \<Rightarrow> int) \<Rightarrow> pair list \<Rightarrow> bool" where
  "db_entries K cmp kvs \<longleftrightarrow> sorted_wrt (\<lambda>x y. icmp cmp (fst x) (fst y) < 0) kvs \<and> (\<forall>p \<in> set kvs. ikey K (fst p)) \<and>
     (\<forall>j<length kvs. entry_type kvs j \<le> kTypeValue)"

text \<open>The newest visible entry of its user key, and not a deletion.\<close>

definition shown :: "(byte list \<Rightarrow> byte list \<Rightarrow> int) \<Rightarrow> SequenceNumber \<Rightarrow> pair list \<Rightarrow> nat \<Rightarrow> bool" where
  "shown cmp s kvs j \<longleftrightarrow> j < length kvs \<and> entry_visible s kvs j \<and> entry_type kvs j = kTypeValue \<and>
     (\<forall>i<j. cmp (entry_user kvs i) (entry_user kvs j) = 0 \<longrightarrow> \<not> entry_visible s kvs i)"

definition user_view :: "(byte list \<Rightarrow> byte list \<Rightarrow> int) \<Rightarrow> SequenceNumber \<Rightarrow> pair list \<Rightarrow> pair list" where
  "user_view cmp s kvs =
     map (\<lambda>j. (entry_user kvs j, snd (kvs ! j))) (filter (shown cmp s kvs) [0..<length kvs])"

text \<open>How many are shown before a position.\<close>

definition shown_before :: "(byte list \<Rightarrow> byte list \<Rightarrow> int) \<Rightarrow> SequenceNumber \<Rightarrow> pair list \<Rightarrow> nat \<Rightarrow> nat" where
  "shown_before cmp s kvs j = length (filter (shown cmp s kvs) [0..<j])"

lemma filter_upt_split: "j \<le> n \<Longrightarrow> filter P [0..<n] = filter P [0..<j] @ filter P [j..<n]"
  using upt_add_eq_append [of 0 j "n - j"] by (simp flip: filter_append)

lemma shown_before_same:
  "j \<le> n \<Longrightarrow> \<forall>k. j \<le> k \<and> k < n \<longrightarrow> \<not> shown cmp s kvs k \<Longrightarrow> shown_before cmp s kvs n = shown_before cmp s kvs j"
  unfolding shown_before_def filter_upt_split [of j n] by (auto simp: filter_empty_conv)

lemma shown_before_Suc: "shown_before cmp s kvs (Suc j) = shown_before cmp s kvs j + of_bool (shown cmp s kvs j)"
  by (simp add: shown_before_def)

lemma length_user_view: "length (user_view cmp s kvs) = shown_before cmp s kvs (length kvs)"
  by (simp add: user_view_def shown_before_def)

lemma shown_nth:
  assumes "shown cmp s kvs j"
  shows "shown_before cmp s kvs j < length (user_view cmp s kvs)"
    "user_view cmp s kvs ! shown_before cmp s kvs j = (entry_user kvs j, snd (kvs ! j))"
proof -
  have j: "j < length kvs" using assms by (simp add: shown_def)
  then have "filter (shown cmp s kvs) [0..<length kvs] =
      filter (shown cmp s kvs) [0..<j] @ j # filter (shown cmp s kvs) [Suc j..<length kvs]"
    using assms by (simp add: filter_upt_split [of j "length kvs"] upt_conv_Cons)
  then show "shown_before cmp s kvs j < length (user_view cmp s kvs)"
    "user_view cmp s kvs ! shown_before cmp s kvs j = (entry_user kvs j, snd (kvs ! j))"
    by (simp_all add: user_view_def shown_before_def nth_append)
qed

lemma filter_upt_nth: "p < length (filter P [0..<n]) \<Longrightarrow> \<exists>j<n. P j \<and> length (filter P [0..<j]) = p"
proof (induction n)
  case (Suc n)
  show ?case
  proof (cases "p < length (filter P [0..<n])")
    case True
    with Suc.IH show ?thesis using less_Suc_eq by blast
  next
    case False
    with Suc.prems have "P n \<and> length (filter P [0..<n]) = p" by (auto split: if_splits)
    then show ?thesis by blast
  qed
qed simp

lemma view_nth: "p < length (user_view cmp s kvs) \<Longrightarrow> \<exists>j. shown cmp s kvs j \<and> shown_before cmp s kvs j = p"
  using filter_upt_nth [of p "shown cmp s kvs" "length kvs"] by (auto simp: user_view_def shown_before_def)

lemma entry_parsed:
  assumes "db_entries K cmp kvs" "j < length kvs"
  shows "ParseInternalKey (fst (kvs ! j)) =
    Some (Some \<lparr>pk_user_key = entry_user kvs j, pk_sequence = drop_bit 8 (entry_tag kvs j), pk_type = entry_type kvs j\<rparr>)"
    "ExtractUserKey (fst (kvs ! j)) = Some (entry_user kvs j)" "K (entry_user kvs j)"
    "fst (kvs ! j) = entry_user kvs j @ EncodeFixed64 (entry_tag kvs j)"
proof -
  have "ikey K (fst (kvs ! j))" and t: "entry_type kvs j \<le> kTypeValue" using assms by (simp_all add: db_entries_def)
  then obtain u n where k: "fst (kvs ! j) = u @ EncodeFixed64 n" "K u" by (metis ikey_cases)
  then have "entry_user kvs j = u" "entry_tag kvs j = n" by (simp_all add: entry_user_def entry_tag_def)
  then show "ParseInternalKey (fst (kvs ! j)) =
    Some (Some \<lparr>pk_user_key = entry_user kvs j, pk_sequence = drop_bit 8 (entry_tag kvs j), pk_type = entry_type kvs j\<rparr>)"
    "ExtractUserKey (fst (kvs ! j)) = Some (entry_user kvs j)" "K (entry_user kvs j)"
    "fst (kvs ! j) = entry_user kvs j @ EncodeFixed64 (entry_tag kvs j)"
    using k t by (simp_all add: ParseInternalKey_tagged Let_def entry_type_def)
qed

lemma shown_before_mono: "i \<le> j \<Longrightarrow> shown_before cmp s kvs i \<le> shown_before cmp s kvs j"
  unfolding shown_before_def filter_upt_split [of i j] by simp

lemma seek_index_unique:
  assumes "p \<le> length kvs" "\<And>j. j < p \<Longrightarrow> cmp (fst (kvs ! j)) target < 0"
    "p < length kvs \<Longrightarrow> \<not> cmp (fst (kvs ! p)) target < 0"
  shows "seek_index cmp target kvs = p"
proof (rule antisym)
  show "seek_index cmp target kvs \<le> p"
    using assms(3) seek_index_below [of p cmp target kvs] seek_index_le [of cmp target kvs] by linarith
  show "p \<le> seek_index cmp target kvs"
    using assms(1,2) seek_index_at [of cmp target kvs] by (meson linorder_not_le order_less_le_trans)
qed

text \<open>A tag is its sequence number and type.\<close>

lemma key_tag_of_parts: "key_tag_of (drop_bit 8 n) (ucast (n AND 0xFF)) = n"
proof (rule bit_eqI)
  fix i
  have m: "(0xFF :: 64 word) = mask 8" by (simp add: mask_eq_exp_minus_1)
  show "bit (key_tag_of (drop_bit 8 n) (ucast (n AND 0xFF))) i = bit n i"
    unfolding key_tag_of_def m by (cases "8 \<le> i") (auto simp: bit_simps dest: bit_imp_le_length)
qed

lemma drop_sequence: "drop_bit 8 n \<le> kMaxSequenceNumber"
proof -
  have "unat n < 2 ^ 64" using unsigned_less [of n, where 'a = nat] by simp
  then have "unat n div 256 \<le> 2 ^ 56 - 1" by (simp add: less_mult_imp_div_less Suc_le_eq flip: less_Suc_eq_le)
  then show ?thesis by (simp add: word_le_nat_alt max_sequence unat_drop_bit_eq drop_bit_nat_def)
qed

lemma newer_tag:
  assumes "s \<le> kMaxSequenceNumber" "ucast (n AND 0xFF) \<le> kTypeValue"
  shows "key_tag_of s kTypeValue < n \<longleftrightarrow> \<not> drop_bit 8 n \<le> s"
proof -
  have "key_tag_of s kTypeValue < key_tag_of (drop_bit 8 n) (ucast (n AND 0xFF)) \<longleftrightarrow> s < drop_bit 8 n"
    unfolding key_tag_less [OF assms(1) drop_sequence] using assms(2) by auto
  then show ?thesis unfolding key_tag_of_parts by (simp add: not_le)
qed

section \<open>Sampling\<close>

text \<open>All but the sampling, and that the generator is in order.\<close>

definition sampled :: "'it DBIter \<Rightarrow> 'it DBIter \<Rightarrow> bool" where
  "sampled st st' \<longleftrightarrow> di_iter st' = di_iter st \<and> di_sequence st' = di_sequence st \<and> di_status st' = di_status st \<and>
     di_saved_key st' = di_saved_key st \<and> di_saved_value st' = di_saved_value st \<and> di_direction st' = di_direction st \<and>
     di_valid st' = di_valid st"

definition rnd_ok :: "'it DBIter \<Rightarrow> bool" where
  "rnd_ok st \<longleftrightarrow> 0 < unat (di_rnd st) \<and> unat (di_rnd st) < 2 ^ 31"

lemma RandomPeriod_next:
  "RandomPeriod rnd = (int (unat (Random_Next rnd) mod 2 ^ 21), Random_Next rnd)"
proof -
  have "uint (Random_Next rnd mod 2097152) = int (unat (Random_Next rnd) mod 2097152)"
    by (simp only: uint_nat unat_mod) simp
  then show ?thesis by (simp add: RandomPeriod_def Random_Uniform_def kReadBytesPeriod_def Let_def)
qed

lemma sample_loop_returns:
  assumes "rnd_ok st"
  shows "\<exists>st'. sample_loop k st = Some st' \<and> sampled st st' \<and> rnd_ok st'"
  using assms
proof (induction "nat (- di_bytes_counter st) * 2 + of_bool (unat (di_rnd st) mod 2 ^ 21 \<noteq> 0)" arbitrary: st rule: less_induct)
  case less
  show ?case
  proof (cases "di_bytes_counter st < 0")
    case True
    let ?r = "Random_Next (di_rnd st)"
    let ?st = "st\<lparr>di_bytes_counter := di_bytes_counter st + int (unat ?r mod 2 ^ 21), di_rnd := ?r, di_samples := di_samples st @ [k]\<rparr>"
    have ok: "rnd_ok ?st" using Random_Next_range less.prems by (simp add: rnd_ok_def)
    have "unat (di_rnd st) mod 2 ^ 21 = 0 \<longrightarrow> 0 < unat ?r mod 2 ^ 21" using Uniform_positive less.prems by (simp add: rnd_ok_def)
    then have "nat (- di_bytes_counter ?st) * 2 + of_bool (unat (di_rnd ?st) mod 2 ^ 21 \<noteq> 0) <
        nat (- di_bytes_counter st) * 2 + of_bool (unat (di_rnd st) mod 2 ^ 21 \<noteq> 0)"
      using True by (cases "unat ?r mod 2 ^ 21 = 0") auto
    from less.hyps [OF this ok] obtain st' where "sample_loop k ?st = Some st'" "sampled ?st st'" "rnd_ok st'" by blast
    then show ?thesis using True by (subst sample_loop.simps) (simp add: RandomPeriod_next sampled_def)
  next
    case False
    then show ?thesis using less.prems by (subst sample_loop.simps) (simp add: sampled_def)
  qed
qed

section \<open>Over any internal iterator\<close>

locale user_iterator = three_way K cmp for K :: "byte list \<Rightarrow> bool" and cmp +
  fixes ops :: "'it IteratorOps" and at :: "pair list \<Rightarrow> 'it \<Rightarrow> nat \<Rightarrow> bool"
  assumes internal: "iterator_ops at ops (ikey K) (icmp cmp)"
begin

text \<open>User keys ascend, and of one user key the visible entries are the last.\<close>

lemma user_order:
  assumes "db_entries K cmp kvs" "i \<le> j" "j < length kvs"
  shows "cmp (entry_user kvs i) (entry_user kvs j) \<le> 0"
proof (cases "i = j")
  case True
  then show ?thesis using cmp_refl entry_parsed(3) [OF assms(1,3)] by simp
next
  case False
  then have "i < j" using assms(2) by simp
  moreover have "sorted_wrt (\<lambda>x y. icmp cmp (fst x) (fst y) < 0) kvs" using assms(1) by (simp only: db_entries_def)
  ultimately have "icmp cmp (fst (kvs ! i)) (fst (kvs ! j)) < 0" using sorted_wrt_nth_less assms(3) by blast
  moreover have "fst (kvs ! i) = entry_user kvs i @ EncodeFixed64 (entry_tag kvs i)" using entry_parsed(4) assms \<open>i < j\<close> by simp
  moreover have "fst (kvs ! j) = entry_user kvs j @ EncodeFixed64 (entry_tag kvs j)" using entry_parsed(4) assms by simp
  ultimately have "icmp cmp (entry_user kvs i @ EncodeFixed64 (entry_tag kvs i))
      (entry_user kvs j @ EncodeFixed64 (entry_tag kvs j)) < 0" by metis
  then show ?thesis unfolding icmp_tagged by (auto split: if_splits)
qed

lemma same_user:
  assumes "db_entries K cmp kvs" "i \<le> j" "j < length kvs" "cmp (entry_user kvs j) (entry_user kvs i) \<le> 0"
  shows "cmp (entry_user kvs i) (entry_user kvs j) = 0"
  using user_order [OF assms(1-3)] assms(4) cmp_le_swap entry_parsed(3) [OF assms(1)] assms(2,3)
  by (metis order.antisym order.strict_trans1)

lemma entry_types:
  assumes "db_entries K cmp kvs" "j < length kvs"
  shows "entry_type kvs j = kTypeDeletion \<or> entry_type kvs j = kTypeValue"
proof -
  have "entry_type kvs j \<le> 1" using assms by (simp add: db_entries_def)
  then have "unat (entry_type kvs j) = 0 \<or> unat (entry_type kvs j) = 1" by (simp add: word_le_nat_alt le_Suc_eq)
  then show ?thesis by (simp add: word_unat_eq_iff)
qed

lemma ParseKey_at:
  assumes "db_entries K cmp kvs" "at kvs (di_iter st) j" "j < length kvs" "rnd_ok st"
  shows "\<exists>st'. ParseKey ops st = Some (Some \<lparr>pk_user_key = entry_user kvs j, pk_sequence = drop_bit 8 (entry_tag kvs j),
       pk_type = entry_type kvs j\<rparr>, st') \<and> sampled st st' \<and> rnd_ok st'"
proof -
  have kv: "it_key ops (di_iter st) = Some (fst (kvs ! j))" "it_value ops (di_iter st) = Some (snd (kvs ! j))"
    using iterator.at_pair [OF internal assms(2,3)] by simp_all
  let ?st = "st\<lparr>di_bytes_counter := di_bytes_counter st - int (length (fst (kvs ! j)) + length (snd (kvs ! j)))\<rparr>"
  have "rnd_ok ?st" using assms(4) by (simp add: rnd_ok_def)
  from sample_loop_returns [OF this] obtain st' where st': "sample_loop (fst (kvs ! j)) ?st = Some st'" "sampled ?st st'" "rnd_ok st'"
    by blast
  then have "sampled st st'" by (simp add: sampled_def)
  with st' show ?thesis by (simp add: ParseKey_def kv entry_parsed(1) [OF assms(1,3)])
qed

text \<open>
  Forwards from \<open>i\<close>, for entries from \<open>lo\<close> on: nothing that is skipped is shown, all visible entries of a user
  key of which one was passed are skipped, and those before \<open>lo\<close> are invisible or skipped.
\<close>

definition skips :: "bool \<Rightarrow> 'it DBIter \<Rightarrow> pair list \<Rightarrow> nat \<Rightarrow> bool" where
  "skips skipping st kvs k \<longleftrightarrow> skipping \<and> cmp (entry_user kvs k) (di_saved_key st) \<le> 0"

definition next_ready :: "bool \<Rightarrow> 'it DBIter \<Rightarrow> pair list \<Rightarrow> nat \<Rightarrow> nat \<Rightarrow> bool" where
  "next_ready skipping st kvs lo i \<longleftrightarrow> (skipping \<longrightarrow> K (di_saved_key st)) \<and>
     (\<forall>k. i \<le> k \<and> lo \<le> k \<and> k < length kvs \<and> skips skipping st kvs k \<longrightarrow> \<not> shown cmp (di_sequence st) kvs k) \<and>
     (\<forall>k k'. i \<le> k \<and> lo \<le> k \<and> k < length kvs \<and> k' < i \<and> entry_visible (di_sequence st) kvs k' \<and>
        cmp (entry_user kvs k') (entry_user kvs k) = 0 \<longrightarrow> skips skipping st kvs k) \<and>
     (\<forall>k. i \<le> k \<and> k < lo \<and> entry_visible (di_sequence st) kvs k \<longrightarrow>
        skips skipping st kvs k \<and> entry_type kvs k = kTypeValue)"

definition found_next :: "'it DBIter \<Rightarrow> 'it DBIter \<Rightarrow> pair list \<Rightarrow> nat \<Rightarrow> nat \<Rightarrow> bool" where
  "found_next st st' kvs lo i \<longleftrightarrow> rnd_ok st' \<and> di_sequence st' = di_sequence st \<and> di_status st' = di_status st \<and>
     di_direction st' = di_direction st \<and>
     (\<exists>j. at kvs (di_iter st') j \<and> i \<le> j \<and> (\<forall>k. lo \<le> k \<and> i \<le> k \<and> k < j \<longrightarrow> \<not> shown cmp (di_sequence st) kvs k) \<and>
        (if di_valid st' then lo \<le> j \<and> shown cmp (di_sequence st) kvs j else j = length kvs))"

lemma next_ready_step:
  assumes "db_entries K cmp kvs" "i < length kvs" "next_ready skipping st kvs lo i" "di_sequence st' = di_sequence st"
    and pass: "\<not> (entry_visible (di_sequence st) kvs i \<and> entry_type kvs i \<noteq> kTypeDeletion \<and> \<not> skips skipping st kvs i)"
    and del: "entry_visible (di_sequence st) kvs i \<and> entry_type kvs i = kTypeDeletion \<Longrightarrow>
      skipping' \<and> di_saved_key st' = entry_user kvs i"
    and other: "\<not> (entry_visible (di_sequence st) kvs i \<and> entry_type kvs i = kTypeDeletion) \<Longrightarrow>
      skipping' = skipping \<and> di_saved_key st' = di_saved_key st"
  shows "next_ready skipping' st' kvs lo (Suc i)"
proof (cases "entry_visible (di_sequence st) kvs i \<and> entry_type kvs i = kTypeDeletion")
  case True
  note del = del [OF True]
  have Ku: "K (entry_user kvs k)" if "k < length kvs" for k using entry_parsed(3) [OF assms(1) that] .
  have lo: "lo \<le> i" using assms(3) True unfolding next_ready_def by (metis le_refl not_le zero_neq_one)
  have skips': "skips skipping' st' kvs k \<longleftrightarrow> cmp (entry_user kvs k) (entry_user kvs i) \<le> 0" for k
    using del by (simp add: skips_def)
  have "\<not> shown cmp (di_sequence st) kvs k" if "Suc i \<le> k" "k < length kvs" "skips skipping' st' kvs k" for k
    using same_user [OF assms(1), of i k] that True unfolding skips' shown_def by (meson Suc_le_lessD less_imp_le)
  moreover have "skips skipping' st' kvs k"
    if "Suc i \<le> k" "k < length kvs" "k' < Suc i" "cmp (entry_user kvs k') (entry_user kvs k) = 0" for k k'
  proof -
    have k': "k' < length kvs" using that by simp
    have "cmp (entry_user kvs k) (entry_user kvs k') \<le> 0" using cmp_eq_swap [OF Ku [OF k'] Ku [OF that(2)]] that(4) by simp
    moreover have "cmp (entry_user kvs k') (entry_user kvs i) \<le> 0" using user_order [OF assms(1), of k' i] that(3) assms(2) by simp
    ultimately show ?thesis unfolding skips' using cmp_trans Ku that(2) k' assms(2) by blast
  qed
  ultimately show ?thesis using del lo Ku [OF assms(2)] unfolding next_ready_def assms(4) by auto
next
  case False
  note other = other [OF False]
  have Ku: "K (entry_user kvs k)" if "k < length kvs" for k using entry_parsed(3) [OF assms(1) that] .
  have skips': "skips skipping' st' kvs k \<longleftrightarrow> skips skipping st kvs k" for k using other by (simp add: skips_def)
  have "skips skipping st kvs k"
    if "entry_visible (di_sequence st) kvs i" "k < length kvs" "cmp (entry_user kvs i) (entry_user kvs k) = 0" for k
  proof -
    have sk: "skips skipping st kvs i" "K (di_saved_key st)"
      using False pass that(1) assms(3) by (auto simp: skips_def next_ready_def)
    have "cmp (entry_user kvs k) (entry_user kvs i) \<le> 0" using cmp_eq_swap [OF Ku [OF assms(2)] Ku [OF that(2)]] that(3) by simp
    then show ?thesis using sk cmp_trans Ku assms(2) that(2) unfolding skips_def by blast
  qed
  then have "skips skipping st kvs k"
    if "Suc i \<le> k" "lo \<le> k" "k < length kvs" "k' < Suc i" "entry_visible (di_sequence st) kvs k'"
      "cmp (entry_user kvs k') (entry_user kvs k) = 0" for k k'
  proof (cases "k' = i")
    case True
    with \<open>\<And>k. entry_visible (di_sequence st) kvs i \<Longrightarrow> k < length kvs \<Longrightarrow> cmp (entry_user kvs i) (entry_user kvs k) = 0 \<Longrightarrow>
      skips skipping st kvs k\<close> that show ?thesis by blast
  next
    case False
    with that have "i \<le> k" "k' < i" by simp_all
    with assms(3) that show ?thesis unfolding next_ready_def by blast
  qed
  moreover have "\<not> shown cmp (di_sequence st) kvs k" if "Suc i \<le> k" "lo \<le> k" "k < length kvs" "skips skipping st kvs k" for k
    using assms(3) that unfolding next_ready_def by auto
  moreover have "skips skipping st kvs k \<and> entry_type kvs k = kTypeValue"
    if "Suc i \<le> k" "k < lo" "entry_visible (di_sequence st) kvs k" for k
    using assms(3) that unfolding next_ready_def by auto
  moreover have "skipping' \<longrightarrow> K (di_saved_key st')" using assms(3) other unfolding next_ready_def by simp
  ultimately show ?thesis unfolding next_ready_def assms(4) skips' by blast
qed

lemma found_next_later:
  assumes "found_next st st' kvs lo (Suc i)" "di_sequence st = di_sequence st0" "di_status st = di_status st0"
    "di_direction st = di_direction st0" "lo \<le> i \<Longrightarrow> \<not> shown cmp (di_sequence st0) kvs i"
  shows "found_next st0 st' kvs lo i"
proof -
  obtain j where j: "at kvs (di_iter st') j" "Suc i \<le> j"
    "\<forall>k. lo \<le> k \<and> Suc i \<le> k \<and> k < j \<longrightarrow> \<not> shown cmp (di_sequence st0) kvs k"
    "if di_valid st' then lo \<le> j \<and> shown cmp (di_sequence st0) kvs j else j = length kvs"
    using assms(1) unfolding found_next_def assms(2) by blast
  have "\<not> shown cmp (di_sequence st0) kvs k" if "lo \<le> k" "i \<le> k" "k < j" for k
    using j(3) assms(5) that by (cases "k = i") simp_all
  with j assms(1) show ?thesis
    unfolding found_next_def assms(2-4) by (intro conjI exI [of _ j]) (simp_all only: Suc_leD | blast)+
qed

lemma find_next:
  assumes "db_entries K cmp kvs"
  shows "at kvs (di_iter st) i \<Longrightarrow> i < length kvs \<Longrightarrow> rnd_ok st \<Longrightarrow> next_ready skipping st kvs lo i \<Longrightarrow>
    \<exists>st'. find_next_loop ops cmp skipping st = Some st' \<and> found_next st st' kvs lo i"
proof (induction "length kvs - i" arbitrary: st i skipping rule: less_induct)
  case less
  let ?s = "di_sequence st"
  note i = \<open>at kvs (di_iter st) i\<close> \<open>i < length kvs\<close> and ready = \<open>next_ready skipping st kvs lo i\<close>
  obtain st1 where st1: "ParseKey ops st = Some (Some \<lparr>pk_user_key = entry_user kvs i,
      pk_sequence = drop_bit 8 (entry_tag kvs i), pk_type = entry_type kvs i\<rparr>, st1)" "sampled st st1" "rnd_ok st1"
    using ParseKey_at [OF assms i \<open>rnd_ok st\<close>] by blast
  note ty = entry_types [OF assms i(2)]
  have Ku: "K (entry_user kvs k)" if "k < length kvs" for k using entry_parsed(3) [OF assms that] .
  show ?case
  proof (cases "entry_visible ?s kvs i \<and> entry_type kvs i \<noteq> kTypeDeletion \<and> \<not> skips skipping st kvs i")
    case True
    have "lo \<le> i" using ready True i(2) unfolding next_ready_def by (metis le_refl not_le)
    moreover have "shown cmp ?s kvs i"
      using True ty i(2) ready \<open>lo \<le> i\<close> unfolding shown_def next_ready_def by (metis le_refl)
    moreover have "find_next_loop ops cmp skipping st = Some (st1\<lparr>di_valid := True, di_saved_key := []\<rparr>)"
      using True st1(1,2) by (subst find_next_loop.simps)
        (auto simp: next_entry_def skips_def sampled_def entry_visible_def)
    ultimately show ?thesis using st1(2,3) i
      by (intro exI [of _ "st1\<lparr>di_valid := True, di_saved_key := []\<rparr>"])
        (auto simp: found_next_def sampled_def rnd_ok_def)
  next
    case False
    define del where "del \<longleftrightarrow> entry_visible ?s kvs i \<and> entry_type kvs i = kTypeDeletion"
    define skipping' where "skipping' \<longleftrightarrow> skipping \<or> del"
    define st2 where "st2 = (if del then st1\<lparr>di_saved_key := entry_user kvs i\<rparr> else st1)"
    obtain it where it: "it_Next ops (di_iter st2) = Some it" "at kvs it (Suc i)"
      using iterator.at_next [OF internal i] st1(2) by (auto simp: st2_def sampled_def)
    let ?st = "st2\<lparr>di_iter := it\<rparr>"
    have valid: "it_Valid ops it \<longleftrightarrow> Suc i < length kvs" using iterator.at_valid [OF internal it(2)] by blast
    have entry: "next_entry cmp (Some \<lparr>pk_user_key = entry_user kvs i, pk_sequence = drop_bit 8 (entry_tag kvs i),
        pk_type = entry_type kvs i\<rparr>) skipping st1 = (False, skipping', st2)"
      using False st1(2) by (auto simp: next_entry_def skips_def sampled_def entry_visible_def del_def skipping'_def st2_def)
    have loop: "find_next_loop ops cmp skipping st =
        (if it_Valid ops it then find_next_loop ops cmp skipping' ?st else Some (?st\<lparr>di_saved_key := [], di_valid := False\<rparr>))"
      by (subst find_next_loop.simps) (simp add: st1(1) entry it(1))
    have same: "di_sequence ?st = ?s" "di_status ?st = di_status st" "di_direction ?st = di_direction st" "rnd_ok ?st" "di_iter ?st = it"
      using st1(2,3) by (auto simp: st2_def sampled_def rnd_ok_def)
    have hidden: "\<not> shown cmp ?s kvs i" if "lo \<le> i"
      using False ready i(2) that unfolding next_ready_def shown_def by (metis le_refl zero_neq_one)
    have ready': "next_ready skipping' ?st kvs lo (Suc i)"
    proof (rule next_ready_step [OF assms i(2) ready same(1)])
      show "\<not> (entry_visible ?s kvs i \<and> entry_type kvs i \<noteq> kTypeDeletion \<and> \<not> skips skipping st kvs i)" by (rule False)
      show "skipping' \<and> di_saved_key ?st = entry_user kvs i" if "entry_visible ?s kvs i \<and> entry_type kvs i = kTypeDeletion"
        using that by (simp add: skipping'_def st2_def del_def)
      show "skipping' = skipping \<and> di_saved_key ?st = di_saved_key st"
        if "\<not> (entry_visible ?s kvs i \<and> entry_type kvs i = kTypeDeletion)"
        using that st1(2) by (auto simp: skipping'_def st2_def del_def sampled_def)
    qed
    show ?thesis
    proof (cases "Suc i < length kvs")
      case True
      have "at kvs (di_iter ?st) (Suc i)" using it(2) by simp
      moreover have "length kvs - Suc i < length kvs - i" using i(2) by simp
      ultimately obtain st' where "find_next_loop ops cmp skipping' ?st = Some st'" "found_next ?st st' kvs lo (Suc i)"
        using less.hyps True same(4) ready' by blast
      moreover have "found_next st st' kvs lo i"
        by (rule found_next_later [OF \<open>found_next ?st st' kvs lo (Suc i)\<close> same(1-3) hidden])
      ultimately show ?thesis using loop valid True by simp
    next
      case last: False
      then have n: "Suc i = length kvs" using i(2) by simp
      have "found_next ?st (?st\<lparr>di_saved_key := [], di_valid := False\<rparr>) kvs lo (Suc i)"
        using it(2) same(4) unfolding found_next_def n
        by (intro conjI exI [of _ "length kvs"] allI impI) (auto simp: rnd_ok_def)
      from found_next_later [OF this same(1-3) hidden]
      have "found_next st (?st\<lparr>di_saved_key := [], di_valid := False\<rparr>) kvs lo i" .
      then show ?thesis using loop valid last by simp
    qed
  qed
qed

section \<open>Backwards\<close>

text \<open>
  The entries from \<open>a\<close> on have been passed, up to \<open>hi\<close>: if the last that counted is not a deletion, it is the
  entry \<open>m\<close> whose key and value are saved, and only that may be shown.
\<close>

definition saved_entry :: "'it DBIter \<Rightarrow> pair list \<Rightarrow> nat \<Rightarrow> bool" where
  "saved_entry st kvs m \<longleftrightarrow> di_saved_key st = entry_user kvs m \<and> di_saved_value st = snd (kvs ! m)"

definition prev_inv :: "ValueType \<Rightarrow> 'it DBIter \<Rightarrow> pair list \<Rightarrow> nat \<Rightarrow> nat \<Rightarrow> bool" where
  "prev_inv vt st kvs hi a \<longleftrightarrow>
     (if vt = kTypeDeletion then \<forall>k. a \<le> k \<and> k \<le> hi \<longrightarrow> \<not> shown cmp (di_sequence st) kvs k
      else \<exists>m. a \<le> m \<and> m \<le> hi \<and> m < length kvs \<and> entry_visible (di_sequence st) kvs m \<and> entry_type kvs m = kTypeValue \<and>
        saved_entry st kvs m \<and> (\<forall>k. a \<le> k \<and> k < m \<longrightarrow> \<not> entry_visible (di_sequence st) kvs k) \<and>
        (\<forall>k. m < k \<and> k \<le> hi \<longrightarrow> \<not> shown cmp (di_sequence st) kvs k))"

text \<open>Where the internal iterator is left: before all visible entries of the user key.\<close>

definition before_group :: "SequenceNumber \<Rightarrow> pair list \<Rightarrow> nat \<Rightarrow> nat \<Rightarrow> bool" where
  "before_group s kvs q r \<longleftrightarrow>
     (r < q \<and> cmp (entry_user kvs r) (entry_user kvs q) < 0 \<and> (\<forall>k. r < k \<and> k < q \<longrightarrow> \<not> entry_visible s kvs k)) \<or>
     (r = length kvs \<and> (\<forall>k<q. \<not> entry_visible s kvs k))"

definition found_prev :: "'it DBIter \<Rightarrow> ValueType \<Rightarrow> 'it DBIter \<Rightarrow> pair list \<Rightarrow> nat \<Rightarrow> bool" where
  "found_prev st vt st' kvs hi \<longleftrightarrow> rnd_ok st' \<and> di_sequence st' = di_sequence st \<and> di_status st' = di_status st \<and>
     di_direction st' = di_direction st \<and>
     (if vt = kTypeDeletion then (\<exists>r. at kvs (di_iter st') r) \<and> (\<forall>k\<le>hi. \<not> shown cmp (di_sequence st) kvs k)
      else \<exists>q r. q \<le> hi \<and> shown cmp (di_sequence st) kvs q \<and> (\<forall>k. q < k \<and> k \<le> hi \<longrightarrow> \<not> shown cmp (di_sequence st) kvs k) \<and>
        saved_entry st' kvs q \<and> at kvs (di_iter st') r \<and> before_group (di_sequence st) kvs q r)"

lemma shown_group:
  assumes "db_entries K cmp kvs" "shown cmp s kvs q" "k < q" "entry_visible s kvs k"
  shows "cmp (entry_user kvs k) (entry_user kvs q) < 0"
proof -
  have "q < length kvs" using assms(2) by (simp add: shown_def)
  then have "cmp (entry_user kvs k) (entry_user kvs q) \<le> 0" using user_order [OF assms(1), of k q] assms(3) by simp
  moreover have "cmp (entry_user kvs k) (entry_user kvs q) \<noteq> 0" using assms(2-4) by (auto simp: shown_def)
  ultimately show ?thesis by simp
qed

lemma user_less:
  assumes "db_entries K cmp kvs" "i \<le> j" "j < length kvs" "cmp (entry_user kvs j) u < 0" "K u"
  shows "cmp (entry_user kvs i) u < 0"
  using cmp_le_less [OF _ _ assms(5) user_order [OF assms(1-3)] assms(4)] entry_parsed(3) [OF assms(1)] assms(2,3) by simp

text \<open>All entries passed.\<close>

lemma prev_inv_end:
  assumes "prev_inv vt st kvs hi 0" "at kvs (di_iter st) (length kvs)" "rnd_ok st" "di_sequence st = di_sequence st0"
    "di_status st = di_status st0" "di_direction st = di_direction st0"
  shows "found_prev st0 vt st kvs hi"
proof (cases "vt = kTypeDeletion")
  case True
  then show ?thesis using assms unfolding found_prev_def prev_inv_def by auto
next
  case False
  with assms(1) obtain m where m: "m \<le> hi" "m < length kvs" "entry_visible (di_sequence st) kvs m" "entry_type kvs m = kTypeValue"
    "saved_entry st kvs m" "\<forall>k<m. \<not> entry_visible (di_sequence st) kvs k"
    "\<forall>k. m < k \<and> k \<le> hi \<longrightarrow> \<not> shown cmp (di_sequence st) kvs k"
    by (auto simp: prev_inv_def)
  then have "shown cmp (di_sequence st) kvs m" by (simp add: shown_def)
  moreover have "before_group (di_sequence st) kvs m (length kvs)" using m(6) by (simp add: before_group_def)
  ultimately show ?thesis using False m(1,5,7) assms(2-6) unfolding found_prev_def by auto
qed

text \<open>One entry more.\<close>

lemma prev_inv_step:
  assumes "db_entries K cmp kvs" "i < length kvs" "prev_inv vt st kvs hi (Suc i)" "i \<le> hi" "di_sequence st' = di_sequence st"
    and go: "\<not> (entry_visible (di_sequence st) kvs i \<and> vt \<noteq> kTypeDeletion \<and> cmp (entry_user kvs i) (di_saved_key st) < 0)"
    and counts: "entry_visible (di_sequence st) kvs i \<Longrightarrow> vt' = entry_type kvs i \<and> (vt' = kTypeDeletion \<or> saved_entry st' kvs i)"
    and other: "\<not> entry_visible (di_sequence st) kvs i \<Longrightarrow> vt' = vt \<and> di_saved_key st' = di_saved_key st \<and>
      di_saved_value st' = di_saved_value st"
  shows "prev_inv vt' st' kvs hi i"
proof (cases "entry_visible (di_sequence st) kvs i")
  case True
  note counts = counts [OF True]
  have rest: "\<not> shown cmp (di_sequence st) kvs k" if "i < k" "k \<le> hi" for k
  proof (cases "vt = kTypeDeletion")
    case True
    then show ?thesis using assms(3) that by (simp add: prev_inv_def)
  next
    case False
    with assms(3) obtain m where m: "Suc i \<le> m" "m < length kvs" "saved_entry st kvs m"
      "\<forall>k. Suc i \<le> k \<and> k < m \<longrightarrow> \<not> entry_visible (di_sequence st) kvs k"
      "\<forall>k. m < k \<and> k \<le> hi \<longrightarrow> \<not> shown cmp (di_sequence st) kvs k"
      by (auto simp: prev_inv_def)
    have "\<not> shown cmp (di_sequence st) kvs m"
      using shown_group [OF assms(1) _ _ True, of m] go True False m(1,3) by (auto simp: saved_entry_def)
    then show ?thesis using m(4,5) that by (cases k m rule: linorder_cases) (auto simp: shown_def)
  qed
  show ?thesis
  proof (cases "vt' = kTypeDeletion")
    case del: True
    then have "\<not> shown cmp (di_sequence st) kvs i" using counts by (simp add: shown_def)
    then have "\<not> shown cmp (di_sequence st) kvs k" if "i \<le> k" "k \<le> hi" for k
      using rest [of k] that by (cases "k = i") simp_all
    then show ?thesis using del by (simp add: prev_inv_def assms(5))
  next
    case False
    then have "entry_type kvs i = kTypeValue" using counts entry_types [OF assms(1,2)] by simp
    then show ?thesis using False counts rest True assms(2,4) unfolding prev_inv_def assms(5) by auto
  qed
next
  case False
  note other = other [OF False]
  have i: "\<not> shown cmp (di_sequence st) kvs i" using False by (simp add: shown_def)
  have sv: "saved_entry st' kvs m \<longleftrightarrow> saved_entry st kvs m" for m using other by (simp add: saved_entry_def)
  show ?thesis
  proof (cases "vt = kTypeDeletion")
    case True
    have "\<not> shown cmp (di_sequence st) kvs k" if "i \<le> k" "k \<le> hi" for k
      using assms(3) True i that by (cases "k = i") (simp_all add: prev_inv_def)
    then show ?thesis using True other by (simp add: prev_inv_def assms(5))
  next
    case vt: False
    with assms(3) obtain m where m: "Suc i \<le> m" "m \<le> hi" "m < length kvs" "entry_visible (di_sequence st) kvs m"
      "entry_type kvs m = kTypeValue" "saved_entry st kvs m" "\<forall>k. Suc i \<le> k \<and> k < m \<longrightarrow> \<not> entry_visible (di_sequence st) kvs k"
      "\<forall>k. m < k \<and> k \<le> hi \<longrightarrow> \<not> shown cmp (di_sequence st) kvs k"
      by (auto simp: prev_inv_def)
    have "\<not> entry_visible (di_sequence st) kvs k" if "i \<le> k" "k < m" for k
      using m(7) False that by (cases "k = i") simp_all
    then have "i \<le> m \<and> (\<forall>k. i \<le> k \<and> k < m \<longrightarrow> \<not> entry_visible (di_sequence st) kvs k)" using m(1) by simp
    then show ?thesis using vt other m(2-6,8) unfolding prev_inv_def assms(5) sv by auto
  qed
qed

text \<open>The entry at which the loop stops.\<close>

lemma prev_stop:
  assumes "db_entries K cmp kvs" "i < length kvs" "prev_inv vt st kvs hi (Suc i)" "vt \<noteq> kTypeDeletion"
    "cmp (entry_user kvs i) (di_saved_key st) < 0" "at kvs (di_iter st) i" "rnd_ok st" "di_sequence st = di_sequence st0"
    "di_status st = di_status st0" "di_direction st = di_direction st0"
  shows "found_prev st0 vt st kvs hi"
proof -
  let ?s = "di_sequence st"
  obtain m where m: "Suc i \<le> m" "m \<le> hi" "m < length kvs" "entry_visible ?s kvs m" "entry_type kvs m = kTypeValue"
    "saved_entry st kvs m" "\<forall>k. Suc i \<le> k \<and> k < m \<longrightarrow> \<not> entry_visible ?s kvs k"
    "\<forall>k. m < k \<and> k \<le> hi \<longrightarrow> \<not> shown cmp ?s kvs k"
    using assms(3,4) by (auto simp: prev_inv_def)
  have less: "cmp (entry_user kvs i) (entry_user kvs m) < 0" using assms(5) m(6) by (simp add: saved_entry_def)
  have "\<not> entry_visible ?s kvs k" if "k < m" "cmp (entry_user kvs k) (entry_user kvs m) = 0" for k
  proof (cases "Suc i \<le> k")
    case False
    then have "cmp (entry_user kvs k) (entry_user kvs m) < 0"
      using user_less [OF assms(1) _ assms(2) less, of k] entry_parsed(3) [OF assms(1) m(3)] by simp
    with that show ?thesis by simp
  qed (use m(7) that in blast)
  then have "shown cmp ?s kvs m" using m(3-5) unfolding shown_def by blast
  moreover have "before_group ?s kvs m i" using m(1,7) less by (simp add: before_group_def Suc_le_eq)
  ultimately show ?thesis using m(2,6,8) assms(4,6-10) unfolding found_prev_def by auto
qed

lemma found_prev_start:
  "di_sequence st1 = di_sequence st0 \<Longrightarrow> di_status st1 = di_status st0 \<Longrightarrow> di_direction st1 = di_direction st0 \<Longrightarrow>
   found_prev st1 vt st kvs hi \<longleftrightarrow> found_prev st0 vt st kvs hi"
  by (simp add: found_prev_def)

lemma find_prev:
  assumes "db_entries K cmp kvs"
  shows "at kvs (di_iter st) i \<Longrightarrow> i < length kvs \<Longrightarrow> i \<le> hi \<Longrightarrow> rnd_ok st \<Longrightarrow> prev_inv vt st kvs hi (Suc i) \<Longrightarrow>
    \<exists>vt' st'. find_prev_loop ops cmp vt st = Some (vt', st') \<and> found_prev st vt' st' kvs hi"
proof (induction i arbitrary: st vt rule: less_induct)
  case (less i)
  let ?s = "di_sequence st"
  note i = \<open>at kvs (di_iter st) i\<close> \<open>i < length kvs\<close> and inv = \<open>prev_inv vt st kvs hi (Suc i)\<close>
  let ?parsed = "\<lparr>pk_user_key = entry_user kvs i, pk_sequence = drop_bit 8 (entry_tag kvs i), pk_type = entry_type kvs i\<rparr>"
  obtain st1 where st1: "ParseKey ops st = Some (Some ?parsed, st1)" "sampled st st1" "rnd_ok st1"
    using ParseKey_at [OF assms i \<open>rnd_ok st\<close>] by blast
  have same1: "di_iter st1 = di_iter st" "di_sequence st1 = ?s" "di_status st1 = di_status st" "di_direction st1 = di_direction st"
    "di_saved_key st1 = di_saved_key st" "di_saved_value st1 = di_saved_value st" using st1(2) by (simp_all add: sampled_def)
  have sv1: "saved_entry st1 kvs m = saved_entry st kvs m" for m by (simp add: saved_entry_def same1)
  have inv1: "prev_inv vt st1 kvs hi (Suc i)" using inv unfolding prev_inv_def sv1 same1 .
  have kv: "it_key ops (di_iter st) = Some (fst (kvs ! i))" "it_value ops (di_iter st) = Some (snd (kvs ! i))"
    using iterator.at_pair [OF internal i] by simp_all
  let ?vis = "entry_visible ?s kvs i"
  show ?case
  proof (cases "?vis \<and> vt \<noteq> kTypeDeletion \<and> cmp (entry_user kvs i) (di_saved_key st) < 0")
    case True
    then have "find_prev_loop ops cmp vt st = Some (vt, st1)"
      by (subst find_prev_loop.simps) (simp add: st1(1) prev_entry_def same1 entry_visible_def)
    moreover have "found_prev st vt st1 kvs hi"
      by (rule prev_stop [OF assms i(2) inv1]) (use True i st1(3) in \<open>simp_all add: same1\<close>)
    ultimately show ?thesis by blast
  next
    case False
    define vt2 where "vt2 = (if ?vis then entry_type kvs i else vt)"
    define st2 where "st2 = (if \<not> ?vis then st1
      else if entry_type kvs i = kTypeDeletion then st1\<lparr>di_saved_key := [], di_saved_value := []\<rparr>
      else st1\<lparr>di_saved_key := entry_user kvs i, di_saved_value := snd (kvs ! i)\<rparr>)"
    have entry: "prev_entry ops cmp (Some ?parsed) vt st1 = Some (False, vt2, st2)"
      using False by (auto simp: prev_entry_def entry_visible_def same1 vt2_def st2_def kv entry_parsed(2) [OF assms i(2)])
    have "di_iter st2 = di_iter st" by (simp add: st2_def same1)
    then obtain it where it: "it_Prev ops (di_iter st2) = Some it" "at kvs it (if i = 0 then length kvs else i - 1)"
      using iterator.at_prev [OF internal i] by metis
    let ?st = "st2\<lparr>di_iter := it\<rparr>"
    have loop: "find_prev_loop ops cmp vt st = (if it_Valid ops it then find_prev_loop ops cmp vt2 ?st else Some (vt2, ?st))"
      by (subst find_prev_loop.simps) (simp add: st1(1) entry it(1))
    have same: "di_sequence ?st = ?s" "di_status ?st = di_status st" "di_direction ?st = di_direction st" "rnd_ok ?st"
      using st1(3) by (auto simp: st2_def same1 rnd_ok_def)
    have inv2: "prev_inv vt2 ?st kvs hi i"
    proof (rule prev_inv_step [OF assms i(2) inv \<open>i \<le> hi\<close> same(1) False])
      show "vt2 = entry_type kvs i \<and> (vt2 = kTypeDeletion \<or> saved_entry ?st kvs i)" if ?vis
        using that by (simp add: vt2_def st2_def saved_entry_def)
      show "vt2 = vt \<and> di_saved_key ?st = di_saved_key st \<and> di_saved_value ?st = di_saved_value st" if "\<not> ?vis"
        using that by (simp add: vt2_def st2_def same1)
    qed
    show ?thesis
    proof (cases i)
      case 0
      then have "\<not> it_Valid ops it" using iterator.at_valid [OF internal it(2)] by simp
      moreover have "found_prev st vt2 ?st kvs hi"
        by (rule prev_inv_end) (use inv2 it(2) same 0 in simp_all)
      ultimately show ?thesis using loop by simp
    next
      case (Suc i')
      then have at': "at kvs (di_iter ?st) i'" "i' < length kvs" "i' \<le> hi" "i' < i" using it(2) i(2) \<open>i \<le> hi\<close> by simp_all
      moreover have "it_Valid ops it" using iterator.at_valid [OF internal it(2)] Suc i(2) by simp
      moreover have "prev_inv vt2 ?st kvs hi (Suc i')" using inv2 Suc by simp
      ultimately show ?thesis using less.IH [OF at'(4,1-3) same(4)] loop found_prev_start [OF same(1-3)] by fastforce
    qed
  qed
qed

text \<open>The whole of \<open>FindPrevUserEntry\<close>, from an entry or from before the first.\<close>

definition view_prev :: "'it DBIter \<Rightarrow> 'it DBIter \<Rightarrow> pair list \<Rightarrow> nat \<Rightarrow> bool" where
  "view_prev st st' kvs hi \<longleftrightarrow> rnd_ok st' \<and> di_sequence st' = di_sequence st \<and> di_status st' = di_status st \<and>
     (if di_valid st' then di_direction st' = kReverse \<and>
        (\<exists>q r. q < hi \<and> shown cmp (di_sequence st) kvs q \<and> (\<forall>k. q < k \<and> k < hi \<longrightarrow> \<not> shown cmp (di_sequence st) kvs k) \<and>
          saved_entry st' kvs q \<and> at kvs (di_iter st') r \<and> before_group (di_sequence st) kvs q r)
      else (\<exists>r. at kvs (di_iter st') r) \<and> (\<forall>k<hi. \<not> shown cmp (di_sequence st) kvs k))"

lemma FindPrev_at:
  assumes "db_entries K cmp kvs" "at kvs (di_iter st) j" "rnd_ok st" "di_direction st = kReverse"
  shows "\<exists>st'. FindPrevUserEntry ops cmp st = Some st' \<and> view_prev st st' kvs (if j < length kvs then Suc j else 0)"
proof (cases "j < length kvs")
  case False
  then have "\<not> it_Valid ops (di_iter st)" using iterator.at_valid [OF internal assms(2)] by simp
  then show ?thesis using assms(2-4) False by (auto simp: FindPrevUserEntry_def view_prev_def rnd_ok_def)
next
  case True
  have "prev_inv kTypeDeletion st kvs j (Suc j)" by (auto simp: prev_inv_def)
  from find_prev [OF assms(1,2) True _ assms(3) this] obtain vt st1 where
    st1: "find_prev_loop ops cmp kTypeDeletion st = Some (vt, st1)" "found_prev st vt st1 kvs j" by auto
  have v: "it_Valid ops (di_iter st)" using iterator.at_valid [OF internal assms(2)] True by simp
  show ?thesis
  proof (cases "vt = kTypeDeletion")
    case True
    then show ?thesis using st1 assms(4) v \<open>j < length kvs\<close> unfolding found_prev_def
      by (auto simp: FindPrevUserEntry_def view_prev_def rnd_ok_def less_Suc_eq_le)
  next
    case False
    with st1(2) obtain q r where qr: "q \<le> j" "shown cmp (di_sequence st) kvs q"
      "\<forall>k. q < k \<and> k \<le> j \<longrightarrow> \<not> shown cmp (di_sequence st) kvs k" "saved_entry st1 kvs q" "at kvs (di_iter st1) r"
      "before_group (di_sequence st) kvs q r" unfolding found_prev_def by auto
    have "view_prev st (st1\<lparr>di_valid := True\<rparr>) kvs (Suc j)"
      using qr st1(2) assms(4) unfolding view_prev_def found_prev_def
      by (auto simp: rnd_ok_def less_Suc_eq_le saved_entry_def)
    then show ?thesis using st1(1) assms(4) v False \<open>j < length kvs\<close> by (simp add: FindPrevUserEntry_def)
  qed
qed

text \<open>The scan back to an earlier user key.\<close>

lemma prev_key:
  assumes "db_entries K cmp kvs" "q < length kvs"
  shows "at kvs (di_iter st) i \<Longrightarrow> i \<le> q \<Longrightarrow> di_saved_key st = entry_user kvs q \<Longrightarrow> rnd_ok st \<Longrightarrow>
    \<forall>k. i \<le> k \<and> k < q \<longrightarrow> \<not> cmp (entry_user kvs k) (entry_user kvs q) < 0 \<Longrightarrow>
    \<exists>found st' j. prev_key_loop ops cmp st = Some (found, st') \<and> rnd_ok st' \<and> di_sequence st' = di_sequence st \<and>
      di_status st' = di_status st \<and> at kvs (di_iter st') j \<and>
      (\<forall>k<q. j < k \<or> \<not> found \<longrightarrow> \<not> cmp (entry_user kvs k) (entry_user kvs q) < 0) \<and>
      (if found then j < q else \<not> di_valid st')"
proof (induction i arbitrary: st rule: less_induct)
  case (less i)
  have i: "i < length kvs" using less.prems(2) assms(2) by simp
  obtain it where it: "it_Prev ops (di_iter st) = Some it" "at kvs it (if i = 0 then length kvs else i - 1)"
    using iterator.at_prev [OF internal less.prems(1) i] by blast
  let ?st = "st\<lparr>di_iter := it\<rparr>"
  have ok: "rnd_ok ?st" using less.prems(4) by (simp add: rnd_ok_def)
  note valid = iterator.at_valid [OF internal it(2)]
  show ?case
  proof (cases i)
    case 0
    then have "prev_key_loop ops cmp st = Some (False, ?st\<lparr>di_valid := False, di_saved_key := [], di_saved_value := []\<rparr>)"
      using it(1) valid by (subst prev_key_loop.simps) simp
    then show ?thesis using 0 it(2) ok less.prems(5)
      by (intro exI [of _ False] exI [of _ "?st\<lparr>di_valid := False, di_saved_key := [], di_saved_value := []\<rparr>"]
          exI [of _ "length kvs"]) (simp add: rnd_ok_def)
  next
    case (Suc i')
    then have i': "at kvs it i'" "i' < length kvs" "i' < q" "i' < i" using it(2) i less.prems(2) by simp_all
    have v: "it_Valid ops it" using valid Suc i by simp
    have "it_key ops it = Some (fst (kvs ! i'))" using iterator.at_pair [OF internal i'(1,2)] by simp
    then have loop: "prev_key_loop ops cmp st =
        (if cmp (entry_user kvs i') (entry_user kvs q) < 0 then Some (True, ?st) else prev_key_loop ops cmp ?st)"
      using it(1) v less.prems(3) by (subst prev_key_loop.simps) (simp add: entry_parsed(2) [OF assms(1) i'(2)])
    show ?thesis
    proof (cases "cmp (entry_user kvs i') (entry_user kvs q) < 0")
      case True
      have "\<not> cmp (entry_user kvs k) (entry_user kvs q) < 0" if "k < q" "i' < k" for k using less.prems(5) that Suc by simp
      then show ?thesis using loop True i' ok
        by (intro exI [of _ True] exI [of _ ?st] exI [of _ i']) simp
    next
      case False
      have "\<forall>k. i' \<le> k \<and> k < q \<longrightarrow> \<not> cmp (entry_user kvs k) (entry_user kvs q) < 0"
        using less.prems(5) False Suc by (metis Suc_leI le_neq_implies_less)
      moreover have "at kvs (di_iter ?st) i'" "di_saved_key ?st = entry_user kvs q" using i'(1) less.prems(3) by simp_all
      ultimately show ?thesis using less.IH [OF i'(4) _ _ _ ok] i'(3) loop False by fastforce
    qed
  qed
qed

section \<open>An iterator over the view\<close>

text \<open>
  At position \<open>p\<close> of the view \<open>uv\<close>. Forwards the internal iterator is at the shown entry, backwards in front of
  its user key, and the entry is saved.
\<close>

definition view_pos :: "'it DBIter \<Rightarrow> pair list \<Rightarrow> nat \<Rightarrow> nat \<Rightarrow> bool" where
  "view_pos st kvs j q \<longleftrightarrow> shown cmp (di_sequence st) kvs q \<and>
     (case di_direction st of kForward \<Rightarrow> j = q
      | kReverse \<Rightarrow> saved_entry st kvs q \<and> before_group (di_sequence st) kvs q j)"

definition view_at :: "SequenceNumber \<Rightarrow> pair list \<Rightarrow> 'it DBIter \<Rightarrow> nat \<Rightarrow> bool" where
  "view_at s uv st p \<longleftrightarrow> s \<le> kMaxSequenceNumber \<and> di_sequence st = s \<and> status_ok (di_status st) \<and> rnd_ok st \<and>
     (\<exists>kvs j. db_entries K cmp kvs \<and> uv = user_view cmp s kvs \<and> at kvs (di_iter st) j \<and>
        (if di_valid st then \<exists>q. view_pos st kvs j q \<and> p = shown_before cmp s kvs q else p = length uv))"

lemma view_atI:
  assumes "s \<le> kMaxSequenceNumber" "di_sequence st = s" "status_ok (di_status st)" "rnd_ok st" "db_entries K cmp kvs"
    "at kvs (di_iter st) j"
    "if di_valid st then \<exists>q. view_pos st kvs j q \<and> p = shown_before cmp s kvs q else p = length (user_view cmp s kvs)"
  shows "view_at s (user_view cmp s kvs) st p"
  unfolding view_at_def using assms by blast

lemma view_next:
  assumes "s \<le> kMaxSequenceNumber" "di_sequence st = s" "status_ok (di_status st)" "di_direction st = kForward"
    "db_entries K cmp kvs" "found_next st st' kvs lo i" "i \<le> lo" "lo \<le> length kvs"
  shows "view_at s (user_view cmp s kvs) st' (shown_before cmp s kvs lo)"
proof -
  obtain j where j: "at kvs (di_iter st') j" "\<forall>k. lo \<le> k \<and> i \<le> k \<and> k < j \<longrightarrow> \<not> shown cmp s kvs k"
    "if di_valid st' then lo \<le> j \<and> shown cmp s kvs j else j = length kvs"
    and st': "rnd_ok st'" "di_sequence st' = s" "status_ok (di_status st')" "di_direction st' = kForward"
    using assms(2-4,6) unfolding found_next_def by auto
  have "lo \<le> j" using j(3) assms(8) by (cases "di_valid st'") simp_all
  then have "shown_before cmp s kvs j = shown_before cmp s kvs lo" using shown_before_same [of lo j] j(2) assms(7) by simp
  moreover have "view_pos st' kvs j j" if "di_valid st'" using that j(3) st'(2,4) by (simp add: view_pos_def)
  ultimately show ?thesis
    using j(3) by (intro view_atI [OF assms(1) st'(2,3,1) assms(5) j(1)]) (auto simp: length_user_view)
qed

lemma view_prev_at:
  assumes "s \<le> kMaxSequenceNumber" "di_sequence st = s" "status_ok (di_status st)" "db_entries K cmp kvs"
    "view_prev st st' kvs hi" "hi \<le> length kvs"
  shows "view_at s (user_view cmp s kvs) st'
    (if shown_before cmp s kvs hi = 0 then length (user_view cmp s kvs) else shown_before cmp s kvs hi - 1)"
proof (cases "di_valid st'")
  case True
  with assms(2,5) obtain q r where qr: "q < hi" "shown cmp s kvs q" "\<forall>k. q < k \<and> k < hi \<longrightarrow> \<not> shown cmp s kvs k"
    "saved_entry st' kvs q" "at kvs (di_iter st') r" "before_group s kvs q r" unfolding view_prev_def by auto
  have "shown_before cmp s kvs hi = shown_before cmp s kvs (Suc q)"
    using shown_before_same [of "Suc q" hi] qr(1,3) by (simp add: Suc_le_eq)
  then have "shown_before cmp s kvs hi = Suc (shown_before cmp s kvs q)" using qr(2) by (simp add: shown_before_Suc)
  moreover have "view_pos st' kvs r q" using qr True assms(2,5) by (simp add: view_pos_def view_prev_def)
  ultimately show ?thesis using True assms(2,3,5) qr(5)
    by (intro view_atI [OF assms(1) _ _ _ assms(4) qr(5)]) (auto simp: view_prev_def)
next
  case False
  then obtain r where r: "at kvs (di_iter st') r" "\<forall>k<hi. \<not> shown cmp s kvs k" using assms(2,5) unfolding view_prev_def by auto
  then have "shown_before cmp s kvs hi = shown_before cmp s kvs 0" by (intro shown_before_same) auto
  then have "shown_before cmp s kvs hi = 0" by (simp add: shown_before_def)
  then show ?thesis using False assms(2,3,5) r(1)
    by (intro view_atI [OF assms(1) _ _ _ assms(4) r(1)]) (auto simp: view_prev_def)
qed

lemma next_ready_after:
  assumes "db_entries K cmp kvs" "shown cmp (di_sequence st) kvs q" "di_saved_key st = entry_user kvs q" "i \<le> q"
    "\<forall>k. i \<le> k \<and> k < q \<longrightarrow> \<not> entry_visible (di_sequence st) kvs k"
  shows "next_ready True st kvs (Suc q) i"
proof -
  have q: "q < length kvs" using assms(2) by (simp add: shown_def)
  have Ku: "K (entry_user kvs k)" if "k < length kvs" for k using entry_parsed(3) [OF assms(1) that] .
  have skips: "skips True st kvs k \<longleftrightarrow> cmp (entry_user kvs k) (entry_user kvs q) \<le> 0" for k by (simp add: skips_def assms(3))
  have "\<not> shown cmp (di_sequence st) kvs k" if "Suc q \<le> k" "k < length kvs" "skips True st kvs k" for k
    using same_user [OF assms(1), of q k] that assms(2) unfolding skips shown_def by (meson Suc_le_lessD less_imp_le)
  moreover have False
    if k: "Suc q \<le> k" "k < length kvs" "k' < i" "entry_visible (di_sequence st) kvs k'" "cmp (entry_user kvs k') (entry_user kvs k) = 0"
    for k k'
  proof -
    have k': "k' < q" "k' < length kvs" using k assms(4) q by simp_all
    have "cmp (entry_user kvs k') (entry_user kvs q) < 0" using shown_group [OF assms(1,2) k'(1) k(4)] .
    moreover have "cmp (entry_user kvs q) (entry_user kvs k) \<le> 0" using user_order [OF assms(1), of q k] k(1,2) by simp
    ultimately have "cmp (entry_user kvs k') (entry_user kvs k) < 0" using cmp_less_le Ku k' q k(2) by blast
    then show False using k(5) by simp
  qed
  moreover have "skips True st kvs k \<and> entry_type kvs k = kTypeValue"
    if "i \<le> k" "k < Suc q" "entry_visible (di_sequence st) kvs k" for k
  proof -
    have "k = q" using assms(5) that by (cases "k = q") auto
    then show ?thesis using assms(2) cmp_refl [OF Ku [OF q]] by (simp add: skips shown_def)
  qed
  ultimately show ?thesis using Ku [OF q] unfolding next_ready_def assms(3) by blast
qed

lemma DBIter_Next_view:
  assumes "view_at s uv st p" "p < length uv"
  shows "\<exists>st'. DBIter_Next ops cmp st = Some st' \<and> view_at s uv st' (Suc p)"
proof -
  obtain kvs j q where v: "s \<le> kMaxSequenceNumber" "di_sequence st = s" "status_ok (di_status st)" "rnd_ok st"
    "db_entries K cmp kvs" "uv = user_view cmp s kvs" "at kvs (di_iter st) j" "di_valid st" "view_pos st kvs j q"
    "p = shown_before cmp s kvs q" using assms unfolding view_at_def by (auto split: if_splits)
  have q: "shown cmp s kvs q" "q < length kvs" using v(2,9) by (simp_all add: view_pos_def shown_def)
  have p: "Suc p = shown_before cmp s kvs (Suc q)" using v(10) q(1) by (simp add: shown_before_Suc)
  obtain st1 i where st1: "DBIter_Next ops cmp st = FindNextUserEntry ops cmp True st1" "at kvs (di_iter st1) i" "i \<le> q"
    "\<forall>k. i \<le> k \<and> k < q \<longrightarrow> \<not> entry_visible s kvs k" "di_saved_key st1 = entry_user kvs q" "di_sequence st1 = s"
    "di_status st1 = di_status st" "di_direction st1 = kForward" "rnd_ok st1"
  proof (cases "di_direction st")
    case kForward
    then have j: "j = q" using v(9) by (simp add: view_pos_def)
    have "it_key ops (di_iter st) = Some (fst (kvs ! q))" using iterator.at_pair [OF internal v(7)] q(2) j by simp
    then have "DBIter_Next ops cmp st = FindNextUserEntry ops cmp True (st\<lparr>di_saved_key := entry_user kvs q\<rparr>)"
      using v(8) kForward by (simp add: DBIter_Next_def entry_parsed(2) [OF v(5) q(2)])
    moreover have "\<forall>k. q \<le> k \<and> k < q \<longrightarrow> \<not> entry_visible s kvs k" by auto
    ultimately show ?thesis using that [of "st\<lparr>di_saved_key := entry_user kvs q\<rparr>" q] v(2,4,7) j kForward by (simp add: rnd_ok_def)
  next
    case kReverse
    then have sv: "di_saved_key st = entry_user kvs q" and bg: "before_group s kvs q j"
      using v(2,9) by (simp_all add: view_pos_def saved_entry_def)
    obtain it i where it: "(if \<not> it_Valid ops (di_iter st) then it_SeekToFirst ops (di_iter st) else it_Next ops (di_iter st)) = Some it"
      "at kvs it i" "i \<le> q" "\<forall>k. i \<le> k \<and> k < q \<longrightarrow> \<not> entry_visible s kvs k"
    proof (cases "j < length kvs")
      case True
      then have "it_Valid ops (di_iter st)" "j < q" "\<forall>k. j < k \<and> k < q \<longrightarrow> \<not> entry_visible s kvs k"
        using iterator.at_valid [OF internal v(7)] bg by (auto simp: before_group_def)
      moreover obtain it where "it_Next ops (di_iter st) = Some it" "at kvs it (Suc j)"
        using iterator.at_next [OF internal v(7) True] by blast
      ultimately show ?thesis using that [of it "Suc j"] by (simp add: Suc_le_eq)
    next
      case False
      then have "\<not> it_Valid ops (di_iter st)" "\<forall>k<q. \<not> entry_visible s kvs k"
        using iterator.at_valid [OF internal v(7)] bg q(2) by (auto simp: before_group_def)
      moreover obtain it where "it_SeekToFirst ops (di_iter st) = Some it" "at kvs it 0"
        using iterator.at_first [OF internal v(7)] by blast
      ultimately show ?thesis using that [of it 0] by simp
    qed
    let ?st = "st\<lparr>di_direction := kForward, di_iter := it\<rparr>"
    have "it_Valid ops it" using iterator.at_valid [OF internal it(2)] it(3) q(2) by simp
    then have "DBIter_Next ops cmp st = FindNextUserEntry ops cmp True ?st"
      using v(8) kReverse it(1) by (cases "it_Valid ops (di_iter st)") (simp_all add: DBIter_Next_def Let_def)
    then show ?thesis using that [of ?st i] it(2-4) sv v(2,4) by (simp add: rnd_ok_def)
  qed
  have i: "i < length kvs" using st1(3) q(2) by simp
  have "next_ready True st1 kvs (Suc q) i" using next_ready_after [OF v(5), of st1 q i] q(1) st1(3-6) by simp
  from find_next [OF v(5) st1(2) i st1(9) this] obtain st' where
    st': "find_next_loop ops cmp True st1 = Some st'" "found_next st1 st' kvs (Suc q) i" by blast
  have "view_at s uv st' (Suc p)" unfolding p v(6)
    by (rule view_next [OF v(1) st1(6) _ st1(8) v(5) st'(2)]) (use st1(3,7) v(3) q(2) in simp_all)
  moreover have "it_Valid ops (di_iter st1)" using iterator.at_valid [OF internal st1(2)] i by simp
  ultimately show ?thesis using st1(1,8) st'(1) by (simp add: FindNextUserEntry_def)
qed

lemma DBIter_Prev_view:
  assumes "view_at s uv st p" "p < length uv"
  shows "\<exists>st'. DBIter_Prev ops cmp st = Some st' \<and> view_at s uv st' (if p = 0 then length uv else p - 1)"
proof -
  obtain kvs j q where v: "s \<le> kMaxSequenceNumber" "di_sequence st = s" "status_ok (di_status st)" "rnd_ok st"
    "db_entries K cmp kvs" "uv = user_view cmp s kvs" "at kvs (di_iter st) j" "di_valid st" "view_pos st kvs j q"
    "p = shown_before cmp s kvs q" using assms unfolding view_at_def by (auto split: if_splits)
  have q: "shown cmp s kvs q" "q < length kvs" using v(2,9) by (simp_all add: view_pos_def shown_def)
  have found: "\<exists>st'. FindPrevUserEntry ops cmp st1 = Some st' \<and> view_at s uv st' (if p = 0 then length uv else p - 1)"
    if f: "at kvs (di_iter st1) i" "di_direction st1 = kReverse" "rnd_ok st1" "di_sequence st1 = s" "di_status st1 = di_status st"
      "hi = (if i < length kvs then Suc i else 0)" "hi \<le> q" "\<forall>k. hi \<le> k \<and> k < q \<longrightarrow> \<not> shown cmp s kvs k" for st1 i hi
  proof -
    obtain st' where st': "FindPrevUserEntry ops cmp st1 = Some st'" "view_prev st1 st' kvs hi"
      using FindPrev_at [OF v(5) f(1,3,2)] f(6) by blast
    have p: "shown_before cmp s kvs hi = p" using shown_before_same [OF f(7,8)] v(10) by simp
    have "hi \<le> length kvs" "status_ok (di_status st1)" using f(5,7) q(2) v(3) by simp_all
    then have "view_at s uv st' (if p = 0 then length uv else p - 1)"
      using view_prev_at [OF v(1) f(4) _ v(5) st'(2)] unfolding p v(6) by blast
    with st'(1) show ?thesis by blast
  qed
  show ?thesis
  proof (cases "di_direction st")
    case kReverse
    then have bg: "before_group s kvs q j" using v(2,9) by (simp add: view_pos_def)
    let ?hi = "if j < length kvs then Suc j else 0"
    have "?hi \<le> q" "\<forall>k. ?hi \<le> k \<and> k < q \<longrightarrow> \<not> shown cmp s kvs k"
      using bg q(2) by (auto simp: before_group_def shown_def)
    from found [OF v(7) kReverse v(4,2) _ refl this] show ?thesis using v(8) kReverse by (simp add: DBIter_Prev_def)
  next
    case kForward
    then have j: "j = q" using v(9) by (simp add: view_pos_def)
    have kv: "it_key ops (di_iter st) = Some (fst (kvs ! q))" "it_Valid ops (di_iter st)"
      using iterator.at_pair [OF internal v(7)] iterator.at_valid [OF internal v(7)] q(2) j by simp_all
    let ?st = "st\<lparr>di_saved_key := entry_user kvs q\<rparr>"
    have "at kvs (di_iter ?st) q" "rnd_ok ?st" "di_saved_key ?st = entry_user kvs q" using v(4,7) j by (simp_all add: rnd_ok_def)
    from prev_key [OF v(5) q(2) this(1) _ this(3,2)] obtain fnd st1 i where st1: "prev_key_loop ops cmp ?st = Some (fnd, st1)"
      "rnd_ok st1" "di_sequence st1 = s" "di_status st1 = di_status st" "at kvs (di_iter st1) i"
      "\<forall>k<q. i < k \<or> \<not> fnd \<longrightarrow> \<not> cmp (entry_user kvs k) (entry_user kvs q) < 0" "if fnd then i < q else \<not> di_valid st1"
      using v(2) by auto
    have prev: "DBIter_Prev ops cmp st =
        (if fnd then FindPrevUserEntry ops cmp (st1\<lparr>di_direction := kReverse\<rparr>) else Some st1)"
      using v(8) kForward kv st1(1) by (simp add: DBIter_Prev_def entry_parsed(2) [OF v(5) q(2)])
    have none: "\<not> shown cmp s kvs k" if "k < q" "\<not> cmp (entry_user kvs k) (entry_user kvs q) < 0" for k
      using shown_group [OF v(5) q(1) that(1)] that(2) by (auto simp: shown_def)
    show ?thesis
    proof (cases fnd)
      case True
      have i: "i < q" using st1(7) True by simp
      have "\<forall>k. Suc i \<le> k \<and> k < q \<longrightarrow> \<not> shown cmp s kvs k" using none st1(6) by (simp add: Suc_le_eq)
      then show ?thesis
        using found [of "st1\<lparr>di_direction := kReverse\<rparr>" i "Suc i"] i st1(2-5) q(2) True prev by (simp add: rnd_ok_def)
    next
      case False
      have "\<forall>k. 0 \<le> k \<and> k < q \<longrightarrow> \<not> shown cmp s kvs k" using none st1(6) False by simp
      then have "p = 0" using shown_before_same [of 0 q] v(10) by (simp add: shown_before_def)
      moreover have "view_at s uv st1 (length uv)" unfolding v(6)
        by (rule view_atI [OF v(1) st1(3) _ st1(2) v(5) st1(5)]) (use st1(4,7) v(3) False in simp_all)
      ultimately show ?thesis using prev False by simp
    qed
  qed
qed

text \<open>Seeking: from wherever the internal iterator goes, forwards with nothing skipped.\<close>

lemma seek_forward:
  assumes "s \<le> kMaxSequenceNumber" "di_sequence st = s" "status_ok (di_status st)" "rnd_ok st" "di_direction st = kForward"
    "db_entries K cmp kvs" "at kvs (di_iter st) i"
    "\<forall>k k'. i \<le> k \<and> k < length kvs \<and> k' < i \<and> entry_visible s kvs k' \<longrightarrow> cmp (entry_user kvs k') (entry_user kvs k) \<noteq> 0"
  shows "\<exists>st'. (if it_Valid ops (di_iter st) then FindNextUserEntry ops cmp False st else Some (st\<lparr>di_valid := False\<rparr>)) = Some st' \<and>
     view_at s (user_view cmp s kvs) st' (shown_before cmp s kvs i)"
proof -
  note valid = iterator.at_valid [OF internal assms(7)]
  show ?thesis
  proof (cases "i < length kvs")
    case True
    have "next_ready False st kvs i i" using assms(2,8) by (auto simp: next_ready_def skips_def)
    from find_next [OF assms(6,7) True assms(4) this] obtain st' where
      st': "find_next_loop ops cmp False st = Some st'" "found_next st st' kvs i i" by blast
    have "view_at s (user_view cmp s kvs) st' (shown_before cmp s kvs i)"
      by (rule view_next [OF assms(1-3,5,6) st'(2)]) (use True in simp_all)
    then show ?thesis using st'(1) valid True assms(5) by (simp add: FindNextUserEntry_def)
  next
    case False
    then have "i = length kvs" using valid by simp
    then have "view_at s (user_view cmp s kvs) (st\<lparr>di_valid := False\<rparr>) (shown_before cmp s kvs i)"
      using assms(2-4,7) by (intro view_atI [OF assms(1) _ _ _ assms(6), of _ i]) (simp_all add: rnd_ok_def length_user_view)
    then show ?thesis using valid False by simp
  qed
qed

lemma seek_view:
  assumes "db_entries K cmp kvs" "s \<le> kMaxSequenceNumber" "K target"
    "i = seek_index (icmp cmp) (target @ EncodeFixed64 (key_tag_of s kTypeValue)) kvs"
  shows "shown_before cmp s kvs i = seek_index cmp target (user_view cmp s kvs)"
    "\<forall>k k'. i \<le> k \<and> k < length kvs \<and> k' < i \<and> entry_visible s kvs k' \<longrightarrow> cmp (entry_user kvs k') (entry_user kvs k) \<noteq> 0"
proof -
  let ?key = "target @ EncodeFixed64 (key_tag_of s kTypeValue)"
  have Ku: "K (entry_user kvs k)" if "k < length kvs" for k using entry_parsed(3) [OF assms(1) that] .
  have below: "icmp cmp (fst (kvs ! k)) ?key < 0 \<longleftrightarrow> cmp (entry_user kvs k) target < 0 \<or>
      cmp (entry_user kvs k) target = 0 \<and> \<not> entry_visible s kvs k" if "k < length kvs" for k
  proof -
    have "ucast (entry_tag kvs k AND 0xFF) \<le> kTypeValue" using assms(1) that by (simp add: db_entries_def entry_type_def)
    from newer_tag [OF assms(2) this] show ?thesis
      by (subst entry_parsed(4) [OF assms(1) that]) (auto simp: icmp_tagged entry_visible_def)
  qed
  have len: "i \<le> length kvs" by (simp add: assms(4) seek_index_le)
  have early: "cmp (entry_user kvs k) target < 0" if "k < i" "entry_visible s kvs k" for k
    using seek_index_below [of k "icmp cmp" ?key kvs] below [of k] that len assms(4) by simp
  have late: "\<not> cmp (entry_user kvs k) target < 0" if "i \<le> k" "k < length kvs" for k
  proof -
    have i: "i < length kvs" using that by simp
    then have "\<not> cmp (entry_user kvs i) target < 0"
      using seek_index_at [of "icmp cmp" ?key kvs] below [OF i] assms(4) by simp
    then show ?thesis using user_less [OF assms(1) that _ assms(3)] by blast
  qed
  show "\<forall>k k'. i \<le> k \<and> k < length kvs \<and> k' < i \<and> entry_visible s kvs k' \<longrightarrow> cmp (entry_user kvs k') (entry_user kvs k) \<noteq> 0"
  proof (intro allI impI notI)
    fix k k'
    assume k: "i \<le> k \<and> k < length kvs \<and> k' < i \<and> entry_visible s kvs k'" "cmp (entry_user kvs k') (entry_user kvs k) = 0"
    then have "k' < length kvs" by simp
    then have "cmp (entry_user kvs k) (entry_user kvs k') = 0" using cmp_eq_swap [OF Ku Ku] k by simp
    then have "cmp (entry_user kvs k) target < 0"
      using cmp_le_less [OF Ku Ku assms(3)] early k \<open>k' < length kvs\<close> by (metis order_refl)
    then show False using late k by blast
  qed
  show "shown_before cmp s kvs i = seek_index cmp target (user_view cmp s kvs)"
  proof (rule seek_index_unique [symmetric])
    show "shown_before cmp s kvs i \<le> length (user_view cmp s kvs)" unfolding length_user_view by (rule shown_before_mono [OF len])
    show "cmp (fst (user_view cmp s kvs ! j)) target < 0" if j: "j < shown_before cmp s kvs i" for j
    proof -
      have "j < length (user_view cmp s kvs)" using j shown_before_mono [OF len] unfolding length_user_view by (rule less_le_trans)
      then obtain k where k: "shown cmp s kvs k" "shown_before cmp s kvs k = j" using view_nth by blast
      have "k < i" using j k(2) shown_before_mono [of i k cmp s kvs] by linarith
      then have "cmp (entry_user kvs k) target < 0" using early k(1) by (simp add: shown_def)
      then show ?thesis using shown_nth(2) [OF k(1)] k(2) by simp
    qed
    show "\<not> cmp (fst (user_view cmp s kvs ! shown_before cmp s kvs i)) target < 0"
      if p: "shown_before cmp s kvs i < length (user_view cmp s kvs)"
    proof -
      obtain k where k: "shown cmp s kvs k" "shown_before cmp s kvs k = shown_before cmp s kvs i" using view_nth [OF p] by blast
      have "\<not> Suc k \<le> i" using k shown_before_mono [of "Suc k" i cmp s kvs] by (auto simp: shown_before_Suc)
      then have "i \<le> k" by simp
      then have "\<not> cmp (entry_user kvs k) target < 0" using late k(1) by (simp add: shown_def)
      then show ?thesis using shown_nth(2) [OF k(1)] k(2) by simp
    qed
  qed
qed

lemma view_iterator: "iterator_ops (view_at s) (DBIterOps ops cmp) K cmp"
proof
  fix uv st p
  assume at: "view_at s uv st p"
  obtain kvs j where v: "s \<le> kMaxSequenceNumber" "di_sequence st = s" "status_ok (di_status st)" "rnd_ok st"
    "db_entries K cmp kvs" "uv = user_view cmp s kvs" "at kvs (di_iter st) j"
    and pos: "if di_valid st then \<exists>q. view_pos st kvs j q \<and> p = shown_before cmp s kvs q else p = length uv"
    using at unfolding view_at_def by blast
  have shown: "\<exists>q. view_pos st kvs j q \<and> p = shown_before cmp s kvs q \<and> shown cmp s kvs q" if "di_valid st"
    using pos that v(2) by (auto simp: view_pos_def)
  show "p \<le> length uv \<and> it_Valid (DBIterOps ops cmp) st = (p < length uv)"
  proof (cases "di_valid st")
    case True
    with shown obtain q where "p = shown_before cmp s kvs q" "shown cmp s kvs q" by blast
    then have "p < length uv" using shown_nth(1) v(6) by blast
    then show ?thesis using True by (simp add: DBIterOps_def)
  next
    case False
    then show ?thesis using pos by (simp add: DBIterOps_def)
  qed
  show "\<exists>it'. it_SeekToFirst (DBIterOps ops cmp) st = Some it' \<and> view_at s uv it' 0"
  proof -
    obtain it where it: "it_SeekToFirst ops (di_iter st) = Some it" "at kvs it 0" using iterator.at_first [OF internal v(7)] by blast
    let ?st = "st\<lparr>di_direction := kForward, di_saved_value := [], di_iter := it\<rparr>"
    have "\<exists>st'. (if it_Valid ops (di_iter ?st) then FindNextUserEntry ops cmp False ?st else Some (?st\<lparr>di_valid := False\<rparr>)) = Some st' \<and>
       view_at s (user_view cmp s kvs) st' (shown_before cmp s kvs 0)"
      by (rule seek_forward [OF v(1) _ _ _ _ v(5)]) (use it(2) v(2-4) in \<open>simp_all add: rnd_ok_def\<close>)
    then show ?thesis using it(1) unfolding v(6) by (simp add: DBIterOps_def DBIter_SeekToFirst_def shown_before_def Let_def)
  qed
  show "\<exists>it'. it_SeekToLast (DBIterOps ops cmp) st = Some it' \<and> view_at s uv it' (length uv - 1)"
  proof -
    obtain it where it: "it_SeekToLast ops (di_iter st) = Some it" "at kvs it (length kvs - 1)"
      using iterator.at_last [OF internal v(7)] by blast
    let ?st = "st\<lparr>di_direction := kReverse, di_saved_value := [], di_iter := it\<rparr>"
    have "at kvs (di_iter ?st) (length kvs - 1)" "rnd_ok ?st" "di_direction ?st = kReverse" using it(2) v(4) by (simp_all add: rnd_ok_def)
    from FindPrev_at [OF v(5) this] obtain st' where st': "FindPrevUserEntry ops cmp ?st = Some st'"
      "view_prev ?st st' kvs (length kvs)" by (cases "length kvs") auto
    have "view_at s uv st' (if length uv = 0 then length uv else length uv - 1)"
      using view_prev_at [OF v(1) _ _ v(5) st'(2)] v(2,3) unfolding v(6) length_user_view by simp
    then have "view_at s uv st' (length uv - 1)" by (simp split: if_splits)
    then show ?thesis using it(1) st'(1) by (simp add: DBIterOps_def DBIter_SeekToLast_def)
  qed
  show "\<exists>it'. it_Seek (DBIterOps ops cmp) target st = Some it' \<and> view_at s uv it' (seek_index cmp target uv)" if "K target" for target
  proof -
    let ?key = "target @ EncodeFixed64 (key_tag_of s kTypeValue)"
    have key: "AppendInternalKey [] \<lparr>pk_user_key = target, pk_sequence = di_sequence st, pk_type = kValueTypeForSeek\<rparr> = Some ?key"
      using v(1,2) by (simp add: AppendInternalKey_tagged kValueTypeForSeek_def)
    obtain it where it: "it_Seek ops ?key (di_iter st) = Some it" "at kvs it (seek_index (icmp cmp) ?key kvs)"
      using iterator.at_seek [OF internal v(7), of ?key] \<open>K target\<close> by auto
    let ?st = "st\<lparr>di_direction := kForward, di_saved_value := [], di_saved_key := ?key, di_iter := it\<rparr>"
    note sv = seek_view [OF v(5,1) \<open>K target\<close> refl]
    have "\<exists>st'. (if it_Valid ops (di_iter ?st) then FindNextUserEntry ops cmp False ?st else Some (?st\<lparr>di_valid := False\<rparr>)) = Some st' \<and>
       view_at s (user_view cmp s kvs) st' (shown_before cmp s kvs (seek_index (icmp cmp) ?key kvs))"
      by (rule seek_forward [OF v(1) _ _ _ _ v(5) _ sv(2)]) (use it(2) v(2-4) in \<open>simp_all add: rnd_ok_def\<close>)
    then show ?thesis using it(1) key unfolding v(6) sv(1) by (simp add: DBIterOps_def DBIter_Seek_def Let_def)
  qed
  assume p: "p < length uv"
  then have valid: "di_valid st" using pos by (auto split: if_splits)
  obtain q where q: "view_pos st kvs j q" "p = shown_before cmp s kvs q" "shown cmp s kvs q" using shown [OF valid] by blast
  have "q < length kvs" using q(3) by (simp add: shown_def)
  moreover have "j = q" if "di_direction st = kForward" using q(1) that by (simp add: view_pos_def)
  moreover have "saved_entry st kvs q" if "di_direction st = kReverse" using q(1) that by (simp add: view_pos_def)
  ultimately show "it_key (DBIterOps ops cmp) st = Some (fst (uv ! p)) \<and> it_value (DBIterOps ops cmp) st = Some (snd (uv ! p))"
    using valid iterator.at_pair [OF internal v(7)] entry_parsed(2) [OF v(5)] shown_nth(2) [OF q(3)] q(2) v(6)
    by (cases "di_direction st") (simp_all add: DBIterOps_def DBIter_key_def DBIter_value_def saved_entry_def)
  show "\<exists>it'. it_Next (DBIterOps ops cmp) st = Some it' \<and> view_at s uv it' (Suc p)"
    using DBIter_Next_view [OF at p] by (simp add: DBIterOps_def)
  show "\<exists>it'. it_Prev (DBIterOps ops cmp) st = Some it' \<and> view_at s uv it' (if p = 0 then length uv else p - 1)"
    using DBIter_Prev_view [OF at p] by (simp add: DBIterOps_def)
qed

text \<open>A new iterator is not valid.\<close>

lemma new_DBIter_at:
  assumes "s \<le> kMaxSequenceNumber" "db_entries K cmp kvs" "at kvs it j"
  shows "view_at s (user_view cmp s kvs) (new_DBIter it s seed) (length (user_view cmp s kvs))"
  by (rule view_atI [OF assms(1) _ _ _ assms(2)])
    (use assms(3) new_Random_range [of seed] Random_Next_range [OF new_Random_range]
      in \<open>simp_all add: new_DBIter_def RandomPeriod_next rnd_ok_def\<close>)

end

end
