(* ===== verification/LdbMemTableProof.thy ===== *)
theory LdbMemTableProof
  imports LdbMemTable LdbDBIterProof
begin

text \<open>
  The entries of a memtable are a sorted list of pairs (\<open>mem_at\<close>): \<open>Add\<close> inserts into it, the iterator is one over
  it (so that the locale \<open>user_iterator\<close> applies), and \<open>Get\<close> finds the newest addition of a key that a
  snapshot sees (\<open>newest\<close>).
\<close>

section \<open>Entries\<close>

text \<open>Keys whose length fits the four bytes of a varint.\<close>

definition short_key :: "byte list \<Rightarrow> bool" where
  "short_key u \<longleftrightarrow> length u + 8 < 2 ^ 32"

abbreviation (input) "mkey \<equiv> ikey short_key"
abbreviation (input) "mcmp \<equiv> icmp slice_compare"

lemma mkey_length: "mkey k \<longleftrightarrow> 8 \<le> length k \<and> length k < 2 ^ 32"
  by (auto simp: ikey_def short_key_def)

definition prefixed_with :: "byte list \<Rightarrow> byte list \<Rightarrow> byte list" where
  "prefixed_with k rest = EncodeVarint32 (of_nat (length k)) @ k @ rest"

definition mem_entry_bytes :: "pair \<Rightarrow> byte list" where
  "mem_entry_bytes p = prefixed_with (fst p) (EncodeVarint32 (of_nat (length (snd p))) @ snd p)"

lemma length_EncodeVarint32: "length (EncodeVarint32 v) \<le> 5"
proof -
  have "unat (ucast v :: 64 word) = unat v" by (simp add: unsigned_ucast_eq take_bit_nat_eq_self unat_32)
  then have "unat (ucast v :: 64 word) < 2 ^ (7 * Suc 4)" using unat_32 [of v] by simp
  from varint_bytes_length_le [OF this] show ?thesis by (simp add: EncodeVarint32_leb128)
qed

lemma get_varint32_at_Encode: "get_varint32_at (EncodeVarint32 v @ p) = Some (v, p)"
proof -
  let ?n = "5 - length (EncodeVarint32 v)"
  have t: "take 5 (EncodeVarint32 v @ p) = EncodeVarint32 v @ take ?n p" using length_EncodeVarint32 [of v] by simp
  have "GetVarint32Ptr (EncodeVarint32 v @ take ?n p) = Some (v, take ?n p)"
    using GetVarint32_Encode [of v "take ?n p"] by (auto simp: GetVarint32_def split: option.splits)
  then show ?thesis unfolding get_varint32_at_def t by simp
qed

lemma MemSlice_prefixed: "length k < 2 ^ 32 \<Longrightarrow> MemSlice (prefixed_with k rest) = Some (k, rest)"
  by (simp add: MemSlice_def prefixed_with_def get_varint32_at_Encode unat_of_length)

text \<open>The keys of the skip list, with their order.\<close>

definition mem_key :: "byte list \<Rightarrow> bool" where
  "mem_key a \<longleftrightarrow> (case MemSlice a of None \<Rightarrow> False | Some (k, _) \<Rightarrow> mkey k)"

definition slice_of :: "byte list \<Rightarrow> byte list" where
  "slice_of a = (case MemSlice a of None \<Rightarrow> [] | Some (k, _) \<Rightarrow> k)"

definition mem_cmp :: "byte list \<Rightarrow> byte list \<Rightarrow> int" where
  "mem_cmp a b = mcmp (slice_of a) (slice_of b)"

lemma mem_key_prefixed: "mkey k \<Longrightarrow> mem_key (prefixed_with k rest) \<and> slice_of (prefixed_with k rest) = k"
  by (simp add: mem_key_def slice_of_def MemSlice_prefixed mkey_length)

lemma mem_key_slice: "mem_key a \<Longrightarrow> mkey (slice_of a) \<and> (\<exists>rest. MemSlice a = Some (slice_of a, rest))"
  by (auto simp: mem_key_def slice_of_def split: option.splits)

lemma mcmp_key: "mkey k \<Longrightarrow> ikey (\<lambda>_. True) k"
  by (simp add: ikey_def)

interpretation mem: skip_order mem_key mem_cmp "MemTable_compare slice_compare"
proof (intro skip_order.intro three_way.intro skip_order_axioms.intro)
  fix a b assume ab: "mem_key a" "mem_key b"
  then have k: "mkey (slice_of a)" "mkey (slice_of b)" by (simp_all add: mem_key_slice)
  show "mem_cmp a b < 0 \<longleftrightarrow> mem_cmp b a > 0"
    using ik.cmp_swap mcmp_key k by (simp add: mem_cmp_def)
  obtain u m v n where t: "slice_of a = u @ EncodeFixed64 m" "slice_of b = v @ EncodeFixed64 n"
    using k by (metis ikey_cases)
  obtain ra rb where "MemSlice a = Some (slice_of a, ra)" "MemSlice b = Some (slice_of b, rb)"
    using ab mem_key_slice by blast
  then show "MemTable_compare slice_compare a b = Some (mem_cmp a b)"
    by (simp add: MemTable_compare_def mem_cmp_def t Compare_tagged icmp_tagged)
next
  fix a b c assume "mem_key a" "mem_key b" "mem_key c" "mem_cmp a b \<le> 0" "mem_cmp b c \<le> 0"
  then show "mem_cmp a c \<le> 0"
    using ik.cmp_trans [of "slice_of a" "slice_of b" "slice_of c"] mcmp_key by (simp add: mem_cmp_def mem_key_slice)
qed

lemma mcmp_zero: "mkey a \<Longrightarrow> mkey b \<Longrightarrow> mcmp a b = 0 \<longleftrightarrow> a = b"
proof -
  assume "mkey a" "mkey b"
  then obtain u m v n where t: "a = u @ EncodeFixed64 m" "b = v @ EncodeFixed64 n" by (metis ikey_cases)
  have "EncodeFixed64 m = EncodeFixed64 n \<longleftrightarrow> m = n" by (metis key_tag_tagged option.inject)
  then show ?thesis by (auto simp: t icmp_tagged slice_compare_sign append_eq_append_conv)
qed

section \<open>The pairs of a memtable\<close>

definition pair_ok :: "pair \<Rightarrow> bool" where
  "pair_ok p \<longleftrightarrow> mkey (fst p) \<and> length (snd p) < 2 ^ 32"

text \<open>The nodes and keys of a table that has these pairs.\<close>

definition mem_nodes :: "MemTable \<Rightarrow> pair list \<Rightarrow> (nat \<Rightarrow> nat list) \<Rightarrow> (nat \<Rightarrow> byte list) \<Rightarrow> bool" where
  "mem_nodes m es lv key \<longleftrightarrow> mem.skip_inv (mt_table m) lv key \<and> map key (lv 0) = map mem_entry_bytes es \<and> (\<forall>p \<in> set es. pair_ok p)"

definition mem_at :: "MemTable \<Rightarrow> pair list \<Rightarrow> bool" where
  "mem_at m es \<longleftrightarrow> (\<exists>lv key. mem_nodes m es lv key)"

lemma mem_nodesD:
  assumes "mem_nodes m es lv key"
  shows "length (lv 0) = length es" "\<And>i. i < length es \<Longrightarrow> key (lv 0 ! i) = mem_entry_bytes (es ! i)"
    "\<And>i. i < length es \<Longrightarrow> slice_of (key (lv 0 ! i)) = fst (es ! i)"
    "sorted_wrt (\<lambda>x y. mcmp (fst x) (fst y) < 0) es"
proof -
  have eq: "map key (lv 0) = map mem_entry_bytes es" using assms by (simp add: mem_nodes_def)
  then show len: "length (lv 0) = length es" by (metis length_map)
  show k: "key (lv 0 ! i) = mem_entry_bytes (es ! i)" if "i < length es" for i using eq len that by (metis nth_map)
  show sl: "slice_of (key (lv 0 ! i)) = fst (es ! i)" if "i < length es" for i
    using k [OF that] assms that mem_key_prefixed by (simp add: mem_entry_bytes_def mem_nodes_def pair_ok_def)
  have "sorted_wrt (\<lambda>x y. mem_cmp (key x) (key y) < 0) (lv 0)"
    using assms mem.skip_invD(3) [of "mt_table m" lv key 0] by (simp add: mem_nodes_def kMaxHeight_def)
  then show "sorted_wrt (\<lambda>x y. mcmp (fst x) (fst y) < 0) es"
    unfolding sorted_wrt_iff_nth_less len using sl by (simp add: mem_cmp_def)
qed

lemma place_seek:
  assumes "mem_nodes m es lv key" "mkey target" "mem_key a" "slice_of a = target"
  shows "passed (\<lambda>x. mem_cmp (key x) a < 0) (lv 0) = seek_index mcmp target es"
proof -
  have inv: "mem.skip_inv (mt_table m) lv key" using assms(1) by (simp add: mem_nodes_def)
  have zero: "0 < kMaxHeight" by (simp add: kMaxHeight_def)
  note d = mem_nodesD [OF assms(1)]
  have below: "mcmp (fst (es ! j)) target < 0 \<longleftrightarrow> j < passed (\<lambda>x. mem_cmp (key x) a < 0) (lv 0)" if "j < length es" for j
    using mem.below_prefix [OF inv zero assms(3), of j] d(1,3) that assms(4) by (simp add: mem_cmp_def)
  show ?thesis
    by (rule seek_index_unique [symmetric]) (use below passed_le [of _ "lv 0"] d(1) in \<open>auto simp: order_less_le_trans\<close>)
qed

lemma new_MemTable_at: "\<exists>m. new_MemTable = Some m \<and> mem_at m []"
proof -
  obtain sl :: "byte list SkipList" where "new_SkipList new_Arena = Some sl" "mem.skip_inv sl (\<lambda>_. []) (\<lambda>_. [])"
    using mem.new_SkipList_inv [OF new_Arena_inv, of "\<lambda>_. []"] by blast
  then show ?thesis by (auto simp: new_MemTable_def mem_at_def mem_nodes_def)
qed

section \<open>Adding\<close>

lemma VarintLength_Encode:
  assumes "n < 2 ^ 32"
  shows "VarintLength (of_nat n) = int (length (EncodeVarint32 (of_nat n)))"
proof -
  have "unat (ucast (of_nat n :: 32 word) :: 64 word) = unat (of_nat n :: 64 word)"
    using assms by (simp add: unsigned_ucast_eq unat_of_nat take_bit_nat_eq_self)
  then have "(ucast (of_nat n :: 32 word) :: 64 word) = of_nat n" by (simp only: word_unat_eq_iff)
  then show ?thesis by (simp add: VarintLength_leb128 EncodeVarint32_leb128)
qed

lemma skip_inv_arena:
  assumes "mem.skip_inv sl lv key" "arena_inv ar"
  shows "mem.skip_inv (sl\<lparr>sl_arena := ar\<rparr>) lv key"
proof -
  have "Node_Next (sl\<lparr>sl_arena := ar\<rparr>) x i = Node_Next sl x i" "Node_key (sl\<lparr>sl_arena := ar\<rparr>) x = Node_key sl x" for x i
    by (simp_all add: Node_Next_def Node_key_def)
  then show ?thesis using assms by (simp add: mem.skip_inv_def chained_def)
qed

lemma map_ins_at: "map f (ins_at n x xs) = ins_at n (f x) (map f xs)"
  by (simp add: ins_at_def take_map drop_map)

text \<open>Between any two steps that link a new entry the table has the old pairs, or those with the new one.\<close>

lemma insert_steps:
  assumes "mem_at m es" "pair_ok p" "fst p \<notin> fst ` set es"
  shows "\<exists>x h prev sl. prepare_insert (MemTable_compare slice_compare) (mem_entry_bytes p) (mt_table m) = Some (x, h, prev, sl) \<and> 1 \<le> h \<and>
    (\<forall>j\<le>h. \<exists>sl'. link_levels x prev [0..<j] sl = Some sl' \<and>
       mem_at (m\<lparr>mt_table := sl'\<rparr>) (if j = 0 then es else ins_at (seek_index mcmp (fst p) es) p es))"
proof -
  let ?buf = "mem_entry_bytes p"
  obtain lv key where m: "mem_nodes m es lv key" using assms(1) by (auto simp: mem_at_def)
  then have inv: "mem.skip_inv (mt_table m) lv key" and ok: "\<forall>p \<in> set es. pair_ok p" by (simp_all add: mem_nodes_def)
  note d = mem_nodesD [OF m]
  have ik: "mkey (fst p)" using assms(2) by (simp add: pair_ok_def)
  have buf: "mem_key ?buf" "slice_of ?buf = fst p" using mem_key_prefixed [OF ik] by (simp_all add: mem_entry_bytes_def)
  have new: "\<forall>y \<in> set (lv 0). mem_cmp (key y) ?buf \<noteq> 0"
  proof
    fix y
    assume "y \<in> set (lv 0)"
    then obtain i where i: "i < length es" "y = lv 0 ! i" using d(1) by (auto simp: in_set_conv_nth)
    have mem: "es ! i \<in> set es" using i(1) by simp
    then have "fst (es ! i) \<noteq> fst p" "mkey (fst (es ! i))" using assms(3) ok by (metis imageI) (use mem ok in \<open>simp add: pair_ok_def\<close>)
    then show "mem_cmp (key y) ?buf \<noteq> 0" using mcmp_zero ik d(3) i buf(2) by (simp add: mem_cmp_def)
  qed
  obtain x h prev sl where p: "prepare_insert (MemTable_compare slice_compare) ?buf (mt_table m) = Some (x, h, prev, sl)" "1 \<le> h"
    "x \<notin> set (lv 0)" "\<forall>j\<le>h. \<exists>sl'. link_levels x prev [0..<j] sl = Some sl' \<and>
       mem.skip_inv sl' (mem.with_node lv (key(x := ?buf)) x j) (key(x := ?buf))"
    using mem.insert_inv [OF inv buf(1) new] by blast
  have place: "passed (\<lambda>y. mem_cmp ((key(x := ?buf)) y) ?buf < 0) (lv 0) = seek_index mcmp (fst p) es"
    using p(3) unfolding place_seek [OF m ik buf, symmetric] passed_def by (intro arg_cong [of _ _ length] filter_cong) auto
  have old: "map (key(x := ?buf)) (lv 0) = map mem_entry_bytes es" using p(3) m by (simp add: mem_nodes_def)
  have "mem_at (m\<lparr>mt_table := sl'\<rparr>) (if j = 0 then es else ins_at (seek_index mcmp (fst p) es) p es)"
    if sl': "mem.skip_inv sl' (mem.with_node lv (key(x := ?buf)) x j) (key(x := ?buf))" for j sl'
  proof -
    have "map (key(x := ?buf)) (mem.with_node lv (key(x := ?buf)) x j 0) =
        map mem_entry_bytes (if j = 0 then es else ins_at (seek_index mcmp (fst p) es) p es)"
      using place old by (simp add: mem.with_node_def map_ins_at)
    then have "mem_nodes (m\<lparr>mt_table := sl'\<rparr>) (if j = 0 then es else ins_at (seek_index mcmp (fst p) es) p es)
        (mem.with_node lv (key(x := ?buf)) x j) (key(x := ?buf))"
      using sl' ok assms(2) by (simp add: mem_nodes_def)
    then show ?thesis unfolding mem_at_def by blast
  qed
  then show ?thesis using p(1,2,4) by blast
qed

lemma add_at:
  assumes "mem_at m es" "short_key u" "length v < 2 ^ 32" "u @ EncodeFixed64 (key_tag_of s t) \<notin> fst ` set es"
  shows "\<exists>m'. MemTable_Add slice_compare s t u v m = Some m' \<and>
    mem_at m' (ins_at (seek_index mcmp (u @ EncodeFixed64 (key_tag_of s t)) es) (u @ EncodeFixed64 (key_tag_of s t), v) es)"
proof -
  let ?ik = "u @ EncodeFixed64 (key_tag_of s t)"
  let ?buf = "mem_entry_bytes (?ik, v)"
  obtain lv key where m: "mem_nodes m es lv key" using assms(1) by (auto simp: mem_at_def)
  then have inv: "mem.skip_inv (mt_table m) lv key" by (simp add: mem_nodes_def)
  have len: "VarintLength (of_nat (length u + 8)) + int (length u + 8) + VarintLength (of_nat (length v)) + int (length v) = int (length ?buf)"
    using assms(2,3) VarintLength_Encode [of "length u + 8"] VarintLength_Encode [of "length v"]
    by (simp add: mem_entry_bytes_def prefixed_with_def short_key_def)
  have "0 < length ?buf" by (simp add: mem_entry_bytes_def prefixed_with_def)
  then obtain p ar where ar: "Arena_Allocate (length ?buf) (sl_arena (mt_table m)) = Some (p, ar)" "arena_inv ar"
    using Arena_Allocate_takes [OF mem.skip_invD(8) [OF inv], of "length ?buf"] by (auto simp: takes_def)
  let ?m = "m\<lparr>mt_table := (mt_table m)\<lparr>sl_arena := ar\<rparr>\<rparr>"
  have "mem_nodes ?m es lv key" using m skip_inv_arena [OF inv ar(2)] by (simp add: mem_nodes_def)
  then have at: "mem_at ?m es" by (auto simp: mem_at_def)
  have ok: "pair_ok (?ik, v)" "fst (?ik, v) \<notin> fst ` set es" using assms(2-4) by (simp_all add: pair_ok_def)
  obtain x h prev sl where p: "prepare_insert (MemTable_compare slice_compare) ?buf (mt_table ?m) = Some (x, h, prev, sl)"
    "1 \<le> h" "\<forall>j\<le>h. \<exists>sl'. link_levels x prev [0..<j] sl = Some sl' \<and>
       mem_at (?m\<lparr>mt_table := sl'\<rparr>) (if j = 0 then es else ins_at (seek_index mcmp (fst (?ik, v)) es) (?ik, v) es)"
    using insert_steps [OF at ok] by blast
  from p(2,3) obtain sl' where sl': "link_levels x prev [0..<h] sl = Some sl'"
    "mem_at (m\<lparr>mt_table := sl'\<rparr>) (ins_at (seek_index mcmp ?ik es) (?ik, v) es)"
    by auto
  have "MemTable_Add slice_compare s t u v m = Some (m\<lparr>mt_table := sl'\<rparr>)"
    using ar(1) p(1) sl'(1) unfolding MemTable_Add_def Let_def len nat_int
    by (simp add: SkipList_Insert_def mem_entry_bytes_def prefixed_with_def key_tag_of_def add.commute)
  then show ?thesis using sl'(2) by blast
qed

section \<open>The iterator\<close>

definition mem_iter_at :: "MemTable \<Rightarrow> pair list \<Rightarrow> SkipIter \<Rightarrow> nat \<Rightarrow> bool" where
  "mem_iter_at m es it i \<longleftrightarrow> i \<le> length es \<and> (\<exists>lv key. mem_nodes m es lv key \<and> it = end_at (lv 0) i)"

lemma EncodeKey_prefixed: "EncodeKey k = prefixed_with k []"
  by (simp add: EncodeKey_def prefixed_with_def PutVarint32_def)

lemma first_link: "mem.skip_inv sl lv key \<Longrightarrow> j \<le> length (lv 0) \<Longrightarrow> Node_Next sl ((0 # lv 0) ! j) 0 = Some (end_at (lv 0) j)"
  using chainedD [OF mem.skip_invD(1), of sl lv key 0 j] by (simp add: end_at_def kMaxHeight_def)

lemma not_head: "mem.skip_inv sl lv key \<Longrightarrow> j < length (lv 0) \<Longrightarrow> lv 0 ! j \<noteq> 0"
  using mem.skip_invD(4) [of sl lv key "lv 0 ! j"] by simp

lemma node_entry:
  assumes "mem_nodes m es lv key" "i < length es"
  shows "Node_key (mt_table m) (lv 0 ! i) = Some (mem_entry_bytes (es ! i))" "mem_key (mem_entry_bytes (es ! i))"
    "MemSlice (mem_entry_bytes (es ! i)) =
       Some (fst (es ! i), EncodeVarint32 (of_nat (length (snd (es ! i)))) @ snd (es ! i))"
    "MemSlice (EncodeVarint32 (of_nat (length (snd (es ! i)))) @ snd (es ! i)) = Some (snd (es ! i), [])"
proof -
  have inv: "mem.skip_inv (mt_table m) lv key" and ok: "pair_ok (es ! i)" using assms by (simp_all add: mem_nodes_def)
  note d = mem_nodesD [OF assms(1)]
  have "lv 0 ! i \<in> set (lv 0)" using assms(2) d(1) by simp
  then show "Node_key (mt_table m) (lv 0 ! i) = Some (mem_entry_bytes (es ! i))" "mem_key (mem_entry_bytes (es ! i))"
    using mem.skip_invD(4) [OF inv, of "lv 0 ! i"] d(2) [OF assms(2)] by simp_all
  show "MemSlice (mem_entry_bytes (es ! i)) = Some (fst (es ! i), EncodeVarint32 (of_nat (length (snd (es ! i)))) @ snd (es ! i))"
    using ok by (simp add: mem_entry_bytes_def MemSlice_prefixed pair_ok_def mkey_length)
  show "MemSlice (EncodeVarint32 (of_nat (length (snd (es ! i)))) @ snd (es ! i)) = Some (snd (es ! i), [])"
    using ok MemSlice_prefixed [of "snd (es ! i)" "[]"] by (simp add: pair_ok_def prefixed_with_def)
qed

lemma mem_iterator: "iterator_ops (mem_iter_at m) (MemTableOps slice_compare m) mkey mcmp"
proof
  fix es it i
  assume at: "mem_iter_at m es it i"
  then obtain lv key where m: "mem_nodes m es lv key" and it: "it = end_at (lv 0) i" and le: "i \<le> length es" by (auto simp: mem_iter_at_def)
  have inv: "mem.skip_inv (mt_table m) lv key" using m by (simp add: mem_nodes_def)
  note d = mem_nodesD [OF m]
  have atI: "mem_iter_at m es (end_at (lv 0) j) j" if "j \<le> length es" for j using m that by (auto simp: mem_iter_at_def)
  show "i \<le> length es \<and> it_Valid (MemTableOps slice_compare m) it = (i < length es)"
    using le by (simp add: it end_at_def d(1) MemTableOps_def SkipIter_Valid_def)
  show "\<exists>it'. it_SeekToFirst (MemTableOps slice_compare m) it = Some it' \<and> mem_iter_at m es it' 0"
    using first_link [OF inv, of 0] atI [of 0] by (simp add: MemTableOps_def SkipIter_SeekToFirst_def)
  show "\<exists>it'. it_SeekToLast (MemTableOps slice_compare m) it = Some it' \<and> mem_iter_at m es it' (length es - 1)"
  proof (cases "es = []")
    case True
    then show ?thesis using mem.find_last [OF inv] d(1) atI [of 0] by (simp add: MemTableOps_def SkipIter_SeekToLast_def end_at_def)
  next
    case False
    then have l: "length es - 1 < length (lv 0)" using d(1) by simp
    have "FindLast (mt_table m) = Some (lv 0 ! (length es - 1))" using mem.find_last [OF inv] False d(1) by (simp add: nth_Cons')
    then show ?thesis
      using atI [of "length es - 1"] l not_head [OF inv l] by (simp add: MemTableOps_def SkipIter_SeekToLast_def end_at_def)
  qed
  show "\<exists>it'. it_Seek (MemTableOps slice_compare m) target it = Some it' \<and> mem_iter_at m es it' (seek_index mcmp target es)"
    if K: "mkey target" for target
  proof -
    have a: "mem_key (EncodeKey target)" "slice_of (EncodeKey target) = target"
      using mem_key_prefixed [OF K] by (simp_all add: EncodeKey_prefixed)
    have "SkipIter_Seek (MemTable_compare slice_compare) (mt_table m) (EncodeKey target) = Some (end_at (lv 0) (seek_index mcmp target es))"
      using mem.find_greater_or_equal [OF inv a(1), of None] by (simp add: SkipIter_Seek_def place_seek [OF m K a])
    then show ?thesis using atI [OF seek_index_le] by (simp add: MemTableOps_def)
  qed
  assume i: "i < length es"
  then have node: "it = Some (lv 0 ! i)" by (simp add: it end_at_def d(1))
  note e = node_entry [OF m i]
  show "it_key (MemTableOps slice_compare m) it = Some (fst (es ! i)) \<and> it_value (MemTableOps slice_compare m) it = Some (snd (es ! i))"
    using e by (simp add: MemTableOps_def MemTableIterator_key_def MemTableIterator_value_def SkipIter_key_def node)
  show "\<exists>it'. it_Next (MemTableOps slice_compare m) it = Some it' \<and> mem_iter_at m es it' (Suc i)"
    using first_link [OF inv, of "Suc i"] atI [of "Suc i"] i d(1) by (simp add: MemTableOps_def SkipIter_Next_def node)
  have p: "passed (\<lambda>x. mem_cmp (key x) (mem_entry_bytes (es ! i)) < 0) (lv 0) = i"
  proof -
    have ok: "mkey (fst (es ! i))" using m i by (simp add: mem_nodes_def pair_ok_def)
    have sl: "slice_of (mem_entry_bytes (es ! i)) = fst (es ! i)" using d(2,3) i by simp
    have "seek_index mcmp (fst (es ! i)) es = i"
    proof (rule seek_index_unique)
      show "mcmp (fst (es ! j)) (fst (es ! i)) < 0" if "j < i" for j using sorted_wrt_nth_less [OF d(4)] that i by blast
      show "\<not> mcmp (fst (es ! i)) (fst (es ! i)) < 0" using mcmp_zero [OF ok ok] by simp
    qed (use i in simp)
    then show ?thesis using place_seek [OF m ok e(2) sl] by simp
  qed
  show "\<exists>it'. it_Prev (MemTableOps slice_compare m) it = Some it' \<and> mem_iter_at m es it' (if i = 0 then length es else i - 1)"
  proof (cases i)
    case 0
    then have "SkipIter_Prev (MemTable_compare slice_compare) (mt_table m) it = Some None"
      using mem.find_less_than [OF inv e(2)] e(1) p by (simp add: SkipIter_Prev_def node)
    then show ?thesis using 0 atI [of "length es"] by (simp add: MemTableOps_def end_at_def d(1))
  next
    case (Suc j)
    then have j: "j < length (lv 0)" using i d(1) by simp
    then have "SkipIter_Prev (MemTable_compare slice_compare) (mt_table m) it = Some (Some (lv 0 ! j))"
      using mem.find_less_than [OF inv e(2)] e(1) p Suc not_head [OF inv j] by (simp add: SkipIter_Prev_def node)
    then show ?thesis using Suc atI [of j] j d(1) by (simp add: MemTableOps_def end_at_def)
  qed
qed

section \<open>Looking up\<close>

lemma get_entry:
  assumes "mem_at m es" "short_key u" "s \<le> kMaxSequenceNumber"
  shows "\<exists>k. new_LookupKey u s = Some k \<and> MemTable_Get slice_compare k out m = Some
    (let n = seek_index mcmp (u @ EncodeFixed64 (key_tag_of s kTypeValue)) es in
     if n < length es \<and> entry_user es n = u then
       (if entry_type es n = kTypeValue then (True, snd (es ! n), snd out)
        else if entry_type es n = kTypeDeletion then (True, fst out, NotFound [] []) else (False, out))
     else (False, out))"
proof -
  let ?lk = "u @ EncodeFixed64 (key_tag_of s kTypeValue)"
  define n where "n = seek_index mcmp ?lk es"
  obtain k where k: "new_LookupKey u s = Some k" "lookup_user_key k = u" "memtable_key k = prefixed_with ?lk []"
    using lookup_key_parts [OF assms(3), of u] assms(2)
    by (auto simp: short_key_def PutLengthPrefixedSlice_def PutVarint32_def prefixed_with_def)
  obtain lv key where m: "mem_nodes m es lv key" using assms(1) by (auto simp: mem_at_def)
  then have inv: "mem.skip_inv (mt_table m) lv key" by (simp add: mem_nodes_def)
  have lk: "mkey ?lk" using assms(2) by simp
  note a = mem_key_prefixed [OF lk, of "[]"]
  have seek: "SkipIter_Seek (MemTable_compare slice_compare) (mt_table m) (memtable_key k) = Some (end_at (lv 0) n)"
    using mem.find_greater_or_equal [OF inv, of _ None] a place_seek [OF m lk] unfolding k(3) n_def by (simp add: SkipIter_Seek_def)
  show ?thesis
  proof (cases "n < length es")
    case False
    then show ?thesis using seek k(1) mem_nodesD(1) [OF m] by (simp add: MemTable_Get_def SkipIter_Valid_def end_at_def n_def [symmetric])
  next
    case True
    have ok: "pair_ok (es ! n)" using m True by (simp add: mem_nodes_def)
    then obtain w tg where f: "fst (es ! n) = w @ EncodeFixed64 tg" "short_key w" by (metis ikey_cases pair_ok_def)
    have parts: "entry_user es n = w" "entry_type es n = ucast (tg AND 0xff)"
      by (simp_all add: entry_user_def entry_type_def entry_tag_def f(1))
    have len: "unat (of_nat (length w + 8) :: 32 word) = length w + 8" "unat (of_nat (length w + 8) - 8 :: 32 word) = length w"
    proof -
      show l: "unat (of_nat (length w + 8) :: 32 word) = length w + 8" using f(2) by (intro unat_of_length) (simp add: short_key_def)
      have "(8 :: 32 word) \<le> of_nat (length w + 8)" by (simp only: word_le_nat_alt l) simp
      then show "unat (of_nat (length w + 8) - 8 :: 32 word) = length w" by (simp only: unat_sub l) simp
    qed
    have entry: "get_varint32_at (mem_entry_bytes (es ! n)) =
        Some (of_nat (length w + 8), fst (es ! n) @ EncodeVarint32 (of_nat (length (snd (es ! n)))) @ snd (es ! n))"
      by (simp add: mem_entry_bytes_def prefixed_with_def get_varint32_at_Encode f(1))
    have it: "end_at (lv 0) n = Some (lv 0 ! n)" using True mem_nodesD(1) [OF m] by (simp add: end_at_def)
    have eq: "slice_compare w u = 0 \<longleftrightarrow> w = u" by (simp add: slice_compare_sign)
    have get: "MemTable_Get slice_compare k out m = Some
      (if w = u then
         (if ucast (tg AND 0xff) = kTypeValue then (True, snd (es ! n), snd out)
          else if ucast (tg AND 0xff) = kTypeDeletion then (True, fst out, NotFound [] []) else (False, out))
       else (False, out))"
      unfolding MemTable_Get_def seek it SkipIter_key_def Option.bind.bind_lunit node_entry(1) [OF m True] entry prod.case len k(2) eq f(1)
      using node_entry(4) [OF m True] eq by (cases "w = u") (simp_all add: SkipIter_Valid_def Let_def)
    show ?thesis using k(1) get True unfolding n_def [symmetric] Let_def parts by simp
  qed
qed

section \<open>Additions\<close>

text \<open>The newest addition of a key up to a sequence number.\<close>

fun newest :: "SequenceNumber \<Rightarrow> byte list \<Rightarrow> mem_entry list \<Rightarrow> mem_entry option" where
  "newest s u [] = None"
| "newest s u (e # es) =
     (case newest s u es of
        None \<Rightarrow> if me_key e = u \<and> me_seq e \<le> s then Some e else None
      | Some e' \<Rightarrow> if me_key e = u \<and> me_seq e \<le> s \<and> me_seq e > me_seq e' then Some e else Some e')"

lemma newest_None: "newest s u es = None \<longleftrightarrow> (\<forall>e \<in> set es. \<not> (me_key e = u \<and> me_seq e \<le> s))"
  by (induction es) (auto split: option.splits)

lemma newest_Some: "newest s u es = Some e \<Longrightarrow> e \<in> set es \<and> me_key e = u \<and> me_seq e \<le> s \<and>
    (\<forall>e' \<in> set es. me_key e' = u \<and> me_seq e' \<le> s \<longrightarrow> me_seq e' \<le> me_seq e)"
proof (induction es arbitrary: e)
  case (Cons a es)
  show ?case
  proof (cases "newest s u es")
    case None
    then show ?thesis using Cons.prems newest_None [of s u es] by (auto split: if_splits)
  next
    case (Some e')
    from Cons.IH [OF this] Cons.prems Some show ?thesis by (auto split: if_splits)
  qed
qed simp

definition pair_of_add :: "mem_entry \<Rightarrow> pair" where
  "pair_of_add e = (me_key e @ EncodeFixed64 (key_tag_of (me_seq e) (me_type e)), me_value e)"

definition adds_ok :: "mem_entry list \<Rightarrow> bool" where
  "adds_ok es \<longleftrightarrow> distinct (map (\<lambda>e. (me_key e, me_seq e)) es) \<and>
     (\<forall>e \<in> set es. short_key (me_key e) \<and> length (me_value e) < 2 ^ 32 \<and> me_seq e \<le> kMaxSequenceNumber \<and> me_type e \<le> kTypeValue)"

lemma pair_of_add_key:
  assumes "fst (pair_of_add a) = fst (pair_of_add b)" "me_seq a \<le> kMaxSequenceNumber" "me_seq b \<le> kMaxSequenceNumber"
  shows "me_key a = me_key b \<and> me_seq a = me_seq b"
proof -
  have "key_tag (fst (pair_of_add a)) = key_tag (fst (pair_of_add b))" "ExtractUserKey (fst (pair_of_add a)) = ExtractUserKey (fst (pair_of_add b))"
    using assms(1) by simp_all
  then have "me_key a = me_key b" "key_tag_of (me_seq a) (me_type a) = key_tag_of (me_seq b) (me_type b)"
    by (simp_all add: pair_of_add_def)
  then show ?thesis using unpack_key_tag(1) [OF assms(2)] unpack_key_tag(1) [OF assms(3)] by metis
qed

lemma add_entries_at:
  assumes "adds_ok (done @ es)" "mem_at m ps" "set ps = pair_of_add ` set done"
  shows "\<exists>m' ps'. add_entries slice_compare es m = Some m' \<and> mem_at m' ps' \<and> set ps' = pair_of_add ` set (done @ es)"
  using assms
proof (induction es arbitrary: "done" m ps)
  case Nil
  then show ?case by auto
next
  case (Cons e es)
  have e: "short_key (me_key e)" "length (me_value e) < 2 ^ 32" "me_seq e \<le> kMaxSequenceNumber"
    using Cons.prems(1) by (simp_all add: adds_ok_def)
  have "fst (pair_of_add e) \<noteq> fst (pair_of_add d)" if "d \<in> set done" for d
    using pair_of_add_key [of e d] e(3) Cons.prems(1) that by (force simp: adds_ok_def)
  then have "fst (pair_of_add e) \<notin> fst ` set ps" unfolding Cons.prems(3) by blast
  then have new: "me_key e @ EncodeFixed64 (key_tag_of (me_seq e) (me_type e)) \<notin> fst ` set ps" by (simp add: pair_of_add_def)
  from add_at [OF Cons.prems(2) e(1,2) new] obtain m' where m':
    "MemTable_Add slice_compare (me_seq e) (me_type e) (me_key e) (me_value e) m = Some m'"
    "mem_at m' (ins_at (seek_index mcmp (fst (pair_of_add e)) ps) (pair_of_add e) ps)"
    by (auto simp: pair_of_add_def)
  have ok: "adds_ok ((done @ [e]) @ es)" using Cons.prems(1) by simp
  have sets: "set (ins_at (seek_index mcmp (fst (pair_of_add e)) ps) (pair_of_add e) ps) = pair_of_add ` set (done @ [e])"
    by (simp add: Cons.prems(3))
  from Cons.IH [OF ok m'(2) sets] m'(1) show ?case by simp
qed

lemma add_below:
  assumes "me_seq e \<le> kMaxSequenceNumber" "me_type e \<le> kTypeValue" "s \<le> kMaxSequenceNumber"
  shows "mcmp (fst (pair_of_add e)) (u @ EncodeFixed64 (key_tag_of s kTypeValue)) < 0 \<longleftrightarrow>
    slice_compare (me_key e) u < 0 \<or> me_key e = u \<and> s < me_seq e"
proof -
  have "key_tag_of s kTypeValue < key_tag_of (me_seq e) (me_type e) \<longleftrightarrow> s < me_seq e"
    unfolding key_tag_less [OF assms(3,1)] using assms(2) by auto
  moreover have "slice_compare (me_key e) u = 0 \<longleftrightarrow> me_key e = u" by (simp add: slice_compare_sign)
  moreover have "slice_compare u u = 0" by (simp add: slice_compare_sign)
  ultimately show ?thesis by (auto simp: pair_of_add_def icmp_tagged)
qed

lemma get_newest:
  assumes "mem_at m ps" "adds_ok es" "set ps = pair_of_add ` set es" "short_key u" "s \<le> kMaxSequenceNumber"
  shows "\<exists>k. new_LookupKey u s = Some k \<and> MemTable_Get slice_compare k out m = Some
    (case newest s u es of
       None \<Rightarrow> (False, out)
     | Some e \<Rightarrow> if me_type e = kTypeValue then (True, me_value e, snd out) else (True, fst out, NotFound [] []))"
proof -
  let ?lk = "u @ EncodeFixed64 (key_tag_of s kTypeValue)"
  define n where "n = seek_index mcmp ?lk ps"
  obtain k where k: "new_LookupKey u s = Some k" "MemTable_Get slice_compare k out m = Some
    (if n < length ps \<and> entry_user ps n = u then
       (if entry_type ps n = kTypeValue then (True, snd (ps ! n), snd out)
        else if entry_type ps n = kTypeDeletion then (True, fst out, NotFound [] []) else (False, out))
     else (False, out))"
    using get_entry [OF assms(1,4,5), of out] unfolding n_def Let_def by blast
  have parts: "entry_user ps i = me_key e \<and> entry_type ps i = me_type e \<and> snd (ps ! i) = me_value e"
    if "ps ! i = pair_of_add e" "e \<in> set es" for i e
    using that assms(2) unpack_key_tag(2) [of "me_seq e" "me_type e"]
    by (simp add: pair_of_add_def entry_user_def entry_type_def entry_tag_def adds_ok_def)
  have at_n: "\<exists>e \<in> set es. ps ! n = pair_of_add e \<and> \<not> slice_compare (me_key e) u < 0 \<and> (me_key e = u \<longrightarrow> me_seq e \<le> s)" if n: "n < length ps"
  proof -
    have "ps ! n \<in> pair_of_add ` set es" using n assms(3) nth_mem by blast
    then obtain e where e: "e \<in> set es" "ps ! n = pair_of_add e" by blast
    have "\<not> mcmp (fst (ps ! n)) ?lk < 0" using seek_index_at [of mcmp ?lk ps] n unfolding n_def by simp
    then show ?thesis using add_below [of e s u] e assms(2,5) by (auto simp: adds_ok_def not_less)
  qed
  show ?thesis
  proof (cases "newest s u es")
    case None
    have "\<not> (n < length ps \<and> entry_user ps n = u)"
    proof
      assume n: "n < length ps \<and> entry_user ps n = u"
      then obtain e where "e \<in> set es" "ps ! n = pair_of_add e" "me_key e = u \<longrightarrow> me_seq e \<le> s" using at_n by blast
      then have "me_key e = u" using parts [of n e] n by simp
      then show False using \<open>e \<in> set es\<close> \<open>me_key e = u \<longrightarrow> me_seq e \<le> s\<close> None newest_None [of s u es] by simp
    qed
    then show ?thesis using k None by auto
  next
    case (Some e)
    note e = newest_Some [OF Some]
    have eok: "me_seq e \<le> kMaxSequenceNumber" "me_type e \<le> kTypeValue" using e assms(2) by (simp_all add: adds_ok_def)
    obtain a where a: "a < length ps" "ps ! a = pair_of_add e" using e assms(3) by (metis imageI in_set_conv_nth)
    have "\<not> mcmp (fst (ps ! a)) ?lk < 0" using add_below [OF eok assms(5), of u] e by (simp add: a(2) slice_compare_sign not_less)
    then have "n \<le> a" using seek_index_below [of a mcmp ?lk ps] unfolding n_def by linarith
    then have n: "n < length ps" using a(1) by simp
    obtain e' where e': "e' \<in> set es" "ps ! n = pair_of_add e'" "\<not> slice_compare (me_key e') u < 0" "me_key e' = u \<longrightarrow> me_seq e' \<le> s"
      using at_n [OF n] by blast
    have "ps ! n = pair_of_add e"
    proof (cases "n = a")
      case False
      obtain lv key where nodes: "mem_nodes m ps lv key" using assms(1) by (auto simp: mem_at_def)
      have "mcmp (fst (ps ! n)) (fst (ps ! a)) < 0"
        using sorted_wrt_nth_less [OF mem_nodesD(4) [OF nodes]] \<open>n \<le> a\<close> False a(1) by simp
      then have c: "slice_compare (me_key e') u < 0 \<or> me_key e' = u \<and> key_tag_of (me_seq e) (me_type e) < key_tag_of (me_seq e') (me_type e')"
        using e by (auto simp: e'(2) a(2) pair_of_add_def icmp_tagged slice_compare_sign split: if_splits)
      then have same: "me_key e' = u" "me_seq e' \<le> me_seq e" using e e' by auto
      have e'ok: "me_seq e' \<le> kMaxSequenceNumber" using e'(1) assms(2) by (simp add: adds_ok_def)
      have "me_seq e' = me_seq e" using c same e'(3) key_tag_less [OF eok(1) e'ok] by auto
      then have "e' = e" using same(1) e e'(1) assms(2) unfolding adds_ok_def distinct_map inj_on_def by auto
      then show ?thesis using e'(2) by simp
    qed (use a in simp)
    then have "entry_user ps n = u" "entry_type ps n = me_type e" "snd (ps ! n) = me_value e" using parts [of n e] e by simp_all
    moreover have "me_type e = kTypeValue \<or> me_type e = kTypeDeletion" using eok(2) by (auto simp: word_le_nat_alt le_Suc_eq word_unat_eq_iff)
    ultimately show ?thesis using k n Some by auto
  qed
qed

lemma memtable_of_adds:
  assumes "adds_ok es"
  shows "\<exists>m0 m ps. new_MemTable = Some m0 \<and> add_entries slice_compare es m0 = Some m \<and> mem_at m ps \<and> set ps = pair_of_add ` set es"
proof -
  obtain m0 where m0: "new_MemTable = Some m0" "mem_at m0 []" using new_MemTable_at by blast
  then show ?thesis using add_entries_at [of "[]" es m0 "[]"] assms by auto
qed

section \<open>After a write batch\<close>

fun call_key :: "handler_call \<Rightarrow> byte list" where
  "call_key (Handler_Put key _) = key"
| "call_key (Handler_Delete key) = key"

text \<open>What the last call for a key left: nothing known, a value, or that it is deleted.\<close>

fun last_call :: "byte list \<Rightarrow> handler_call list \<Rightarrow> byte list option option" where
  "last_call u [] = None"
| "last_call u (c # cs) =
     (case last_call u cs of
        Some r \<Rightarrow> Some r
      | None \<Rightarrow> if call_key c = u then (case c of Handler_Put _ v \<Rightarrow> Some (Some v) | Handler_Delete _ \<Rightarrow> Some None) else None)"

lemma next_seq: "unat (seq :: 64 word) + Suc n \<le> 2 ^ 64 \<Longrightarrow> 0 < n \<Longrightarrow> unat (seq + 1) = Suc (unat seq)"
  by (simp add: unat_add_lem [THEN iffD1])

lemma insert_calls_above:
  "unat seq + length calls \<le> 2 ^ 64 \<Longrightarrow> e \<in> set (insert_calls seq calls) \<Longrightarrow> seq \<le> me_seq e \<and> unat (me_seq e) < unat seq + length calls"
proof (induction seq calls rule: insert_calls.induct)
  case (2 seq k v calls)
  then show ?case
  proof (cases "calls = []")
    case False
    then have s: "unat (seq + 1) = Suc (unat seq)" using 2(2) by (intro next_seq [of seq "length calls"]) auto
    then show ?thesis using 2 by (auto simp: word_le_nat_alt)
  qed simp
next
  case (3 seq k calls)
  then show ?case
  proof (cases "calls = []")
    case False
    then have s: "unat (seq + 1) = Suc (unat seq)" using 3(2) by (intro next_seq [of seq "length calls"]) auto
    then show ?thesis using 3 by (auto simp: word_le_nat_alt)
  qed simp
qed simp

lemma insert_calls_distinct:
  "unat seq + length calls \<le> 2 ^ 64 \<Longrightarrow> distinct (map me_seq (insert_calls seq calls))"
proof (induction seq calls rule: insert_calls.induct)
  case (2 seq k v calls)
  then show ?case
  proof (cases "calls = []")
    case False
    then have s: "unat (seq + 1) = Suc (unat seq)" using 2(2) by (intro next_seq [of seq "length calls"]) auto
    then show ?thesis using 2 insert_calls_above [of "seq + 1" calls] by (fastforce simp: word_le_nat_alt)
  qed simp
next
  case (3 seq k calls)
  then show ?case
  proof (cases "calls = []")
    case False
    then have s: "unat (seq + 1) = Suc (unat seq)" using 3(2) by (intro next_seq [of seq "length calls"]) auto
    then show ?thesis using 3 insert_calls_above [of "seq + 1" calls] by (fastforce simp: word_le_nat_alt)
  qed simp
qed simp

definition result_of :: "mem_entry \<Rightarrow> byte list option" where
  "result_of e = (if me_type e = kTypeValue then Some (me_value e) else None)"

lemma newest_calls:
  "unat seq + length calls \<le> Suc (unat s) \<Longrightarrow> last_call u calls = map_option result_of (newest s u (insert_calls seq calls))"
proof (induction u calls arbitrary: seq rule: last_call.induct)
  case (2 u c cs)
  obtain e es where e: "insert_calls seq (c # cs) = e # es" "es = insert_calls (seq + 1) cs" "me_seq e = seq" "me_key e = call_key c"
    "result_of e = (case c of Handler_Put _ v \<Rightarrow> Some v | Handler_Delete _ \<Rightarrow> None)"
    by (cases c) (simp_all add: result_of_def)
  have seq: "seq \<le> s" using 2(2) by (simp add: word_le_nat_alt)
  have "unat s < 2 ^ 64" using unsigned_less [of s, where 'a = nat] by simp
  then have bound: "unat seq + Suc (length cs) \<le> 2 ^ 64" using 2(2) by simp
  have above: "seq < me_seq e'" if "e' \<in> set es" for e'
  proof -
    have "0 < length cs" using that e(2) by (cases cs) simp_all
    with bound have s: "unat (seq + 1) = Suc (unat seq)" by (rule next_seq)
    then show ?thesis using insert_calls_above [of "seq + 1" cs e'] that bound by (simp add: e(2) word_le_nat_alt word_less_nat_alt)
  qed
  have IH: "last_call u cs = map_option result_of (newest s u es)"
  proof (cases cs)
    case (Cons c' cs')
    then have "unat (seq + 1) = Suc (unat seq)" using bound by (intro next_seq [of seq "length cs"]) simp_all
    then show ?thesis unfolding e(2) using 2 by (intro 2(1)) simp
  qed (simp add: e(2))
  show ?case
  proof (cases "newest s u es")
    case None
    then show ?thesis using IH e seq by (cases c) simp_all
  next
    case (Some e')
    then have "\<not> seq > me_seq e'" using above newest_Some by fastforce
    then show ?thesis using IH e Some by simp
  qed
qed simp

lemma adds_ok_calls:
  assumes "\<forall>c \<in> set calls. sizes_fit c \<and> short_key (call_key c)" "unat seq + length calls \<le> Suc (unat s)" "s \<le> kMaxSequenceNumber"
  shows "adds_ok (insert_calls seq calls)"
proof -
  have "unat s < 2 ^ 64" using unsigned_less [of s, where 'a = nat] by simp
  then have bound: "unat seq + length calls \<le> 2 ^ 64" using assms(2) by simp
  have "distinct (map (\<lambda>e. (me_key e, me_seq e)) es)" if "distinct (map me_seq es)" for es
    using that by (auto simp: distinct_map inj_on_def)
  moreover have "me_seq e \<le> kMaxSequenceNumber" if "e \<in> set (insert_calls seq calls)" for e
    using insert_calls_above [OF bound that] assms(2,3) by (simp add: word_le_nat_alt)
  moreover have "short_key (me_key e) \<and> length (me_value e) < 2 ^ 32 \<and> me_type e \<le> kTypeValue" if "e \<in> set (insert_calls seq calls)" for e
    using that assms(1) by (induction seq calls rule: insert_calls.induct) auto
  ultimately show ?thesis using insert_calls_distinct [OF bound] by (simp add: adds_ok_def)
qed

text \<open>
  A batch that was built, numbered and applied to a new memtable, and then read at any sequence
  number from the batch's last on: the last call for the key decides.
\<close>

lemma batch_then_get:
  assumes "\<forall>c \<in> set calls. sizes_fit c \<and> short_key (call_key c)" "length calls < 2 ^ 31"
    and "unat seq + length calls \<le> Suc (unat s)" "s \<le> kMaxSequenceNumber" "short_key u"
  shows "\<exists>rep rep' es m0 m k. batch_calls calls WriteBatch_Clear = Some rep \<and> batch_SetSequence rep seq = Some rep' \<and>
     batch_InsertInto rep' = Some (es, Status_OK) \<and> new_MemTable = Some m0 \<and> add_entries slice_compare es m0 = Some m \<and>
     new_LookupKey u s = Some k \<and> MemTable_Get slice_compare k out m = Some
       (case last_call u calls of
          None \<Rightarrow> (False, out)
        | Some (Some v) \<Rightarrow> (True, v, snd out)
        | Some None \<Rightarrow> (True, fst out, NotFound [] []))"
proof -
  let ?es = "insert_calls seq calls"
  have fit: "\<forall>c \<in> set calls. sizes_fit c" using assms(1) by blast
  have b: "batch_calls calls WriteBatch_Clear = Some (batch_rep 0 calls)"
    using batch_calls_rep [of "[]" calls 0] assms(2) by (simp add: WriteBatch_Clear_rep)
  have ok: "adds_ok ?es" by (rule adds_ok_calls [OF assms(1,3,4)])
  obtain m0 m ps where m: "new_MemTable = Some m0" "add_entries slice_compare ?es m0 = Some m" "mem_at m ps"
    "set ps = pair_of_add ` set ?es" using memtable_of_adds [OF ok] by blast
  obtain k where k: "new_LookupKey u s = Some k" "MemTable_Get slice_compare k out m = Some
    (case newest s u ?es of
       None \<Rightarrow> (False, out)
     | Some e \<Rightarrow> if me_type e = kTypeValue then (True, me_value e, snd out) else (True, fst out, NotFound [] []))"
    using get_newest [OF m(3) ok m(4) assms(5,4)] by blast
  have "MemTable_Get slice_compare k out m = Some
       (case last_call u calls of
          None \<Rightarrow> (False, out)
        | Some (Some v) \<Rightarrow> (True, v, snd out)
        | Some None \<Rightarrow> (True, fst out, NotFound [] []))"
    unfolding k(2) newest_calls [OF assms(3), of u] by (simp add: result_of_def split: option.split)
  then show ?thesis
    using b m(1,2) k(1) batch_SetSequence_rep [of 0 calls seq] batch_InsertInto_rep [OF fit assms(2), of seq] by blast
qed

end
