(* ===== verification/LdbReadPath.thy ===== *)
theory LdbReadPath
  imports LdbTableProof LdbMergerProof LdbMemTableProof
begin

text \<open>
  The iterators put together as \<open>DBImpl::NewIterator\<close> does: a \<open>DBIter\<close> over \<open>NewMergingIterator\<close> over the iterators
  of a memtable and of blocks. What a client sees that makes any calls in any order is a cursor on a list (\<open>run_cursor\<close>).
\<close>

section \<open>Clients of an iterator\<close>

datatype iter_call = Call_Next | Call_Prev | Call_SeekToFirst | Call_SeekToLast | Call_Seek "byte list"

fun run_call :: "'it IteratorOps \<Rightarrow> iter_call \<Rightarrow> 'it \<Rightarrow> 'it option" where
  "run_call ops Call_Next it = it_Next ops it"
| "run_call ops Call_Prev it = it_Prev ops it"
| "run_call ops Call_SeekToFirst it = it_SeekToFirst ops it"
| "run_call ops Call_SeekToLast it = it_SeekToLast ops it"
| "run_call ops (Call_Seek target) it = it_Seek ops target it"

fun run_calls :: "'it IteratorOps \<Rightarrow> iter_call list \<Rightarrow> 'it \<Rightarrow> 'it option" where
  "run_calls ops [] it = Some it"
| "run_calls ops (call # calls) it = do { it \<leftarrow> run_call ops call it; run_calls ops calls it }"

text \<open>The cursor; \<open>None\<close> is a call that \<open>iterator.h\<close> forbids.\<close>

fun cursor_call ::
  "(byte list \<Rightarrow> bool) \<Rightarrow> (byte list \<Rightarrow> byte list \<Rightarrow> int) \<Rightarrow> pair list \<Rightarrow> iter_call \<Rightarrow> nat \<Rightarrow> nat option" where
  "cursor_call K cmp kvs Call_Next i = (if i < length kvs then Some (Suc i) else None)"
| "cursor_call K cmp kvs Call_Prev i = (if i < length kvs then Some (if i = 0 then length kvs else i - 1) else None)"
| "cursor_call K cmp kvs Call_SeekToFirst i = Some 0"
| "cursor_call K cmp kvs Call_SeekToLast i = Some (length kvs - 1)"
| "cursor_call K cmp kvs (Call_Seek target) i = (if K target then Some (seek_index cmp target kvs) else None)"

fun run_cursor ::
  "(byte list \<Rightarrow> bool) \<Rightarrow> (byte list \<Rightarrow> byte list \<Rightarrow> int) \<Rightarrow> pair list \<Rightarrow> iter_call list \<Rightarrow> nat \<Rightarrow> nat option" where
  "run_cursor K cmp kvs [] i = Some i"
| "run_cursor K cmp kvs (call # calls) i = do { i \<leftarrow> cursor_call K cmp kvs call i; run_cursor K cmp kvs calls i }"

definition shows_pair :: "'it IteratorOps \<Rightarrow> pair list \<Rightarrow> nat \<Rightarrow> 'it \<Rightarrow> bool" where
  "shows_pair ops kvs i it \<longleftrightarrow> (it_Valid ops it \<longleftrightarrow> i < length kvs) \<and>
     (i < length kvs \<longrightarrow> it_key ops it = Some (fst (kvs ! i)) \<and> it_value ops it = Some (snd (kvs ! i)))"

lemma call_at:
  assumes "iterator_ops at ops K cmp" "at kvs it i" "cursor_call K cmp kvs call i = Some j"
  shows "\<exists>it'. run_call ops call it = Some it' \<and> at kvs it' j"
proof (cases call)
  case Call_Next
  then show ?thesis using iterator.at_next [OF assms(1,2)] assms(3) by (auto split: if_splits)
next
  case Call_Prev
  then show ?thesis using iterator.at_prev [OF assms(1,2)] assms(3) by (auto split: if_splits)
next
  case Call_SeekToFirst
  then show ?thesis using iterator.at_first [OF assms(1,2)] assms(3) by simp
next
  case Call_SeekToLast
  then show ?thesis using iterator.at_last [OF assms(1,2)] assms(3) by simp
next
  case (Call_Seek target)
  then show ?thesis using iterator.at_seek [OF assms(1,2)] assms(3) by (auto split: if_splits)
qed

lemma calls_at:
  assumes "iterator_ops at ops K cmp" "at kvs it i" "run_cursor K cmp kvs calls i = Some j"
  shows "\<exists>it'. run_calls ops calls it = Some it' \<and> shows_pair ops kvs j it'"
  using assms(2,3)
proof (induction calls arbitrary: it i)
  case Nil
  then show ?case using iterator.at_valid [OF assms(1)] iterator.at_pair [OF assms(1)] by (simp add: shows_pair_def)
next
  case (Cons call calls)
  then obtain k where k: "cursor_call K cmp kvs call i = Some k" "run_cursor K cmp kvs calls k = Some j"
    by (cases "cursor_call K cmp kvs call i") auto
  obtain it' where "run_call ops call it = Some it'" "at kvs it' k" using call_at [OF assms(1) Cons.prems(1) k(1)] by blast
  then show ?case using Cons.IH [OF _ k(2)] by simp
qed

section \<open>Any number of children\<close>

context children
begin

lemma new_merging_iterator: "iterator_ops (empty_at (either_at at merge_at)) (NewMergingOps ops cmp) K cmp"
  unfolding NewMergingOps_def by (rule EmptyIterator_iterator [OF either_iterator [OF child merging_iterator]])

lemma merge_of_one:
  assumes "merge_of K cmp [xs] kvs"
  shows "kvs = xs"
proof -
  have len: "length kvs = length xs" using assms by (auto simp: merge_of_def dest: mset_eq_length)
  have "p \<le> length kvs \<Longrightarrow> cut kvs p xs = p" for p
  proof (induction p)
    case (Suc p)
    then show ?case using owner [OF assms, of p] owner_cut(3) [OF assms, of p 0] by simp
  qed (simp add: cut_0)
  then show ?thesis using len owner [OF assms] owner_cut(2) [OF assms, of _ 0] by (intro nth_equalityI) auto
qed

lemma NewMergingIterator_at:
  assumes "merge_of K cmp kvss kvs" "all_at kvss its (\<lambda>i. length (kvss ! i))"
  shows "empty_at (either_at at merge_at) kvs (NewMergingIterator its) (length kvs)"
proof (cases its)
  case Nil
  then have "kvs = []" using assms by (simp add: all_at_def merge_of_def)
  then show ?thesis using Nil by (simp add: NewMergingIterator_def)
next
  case (Cons it rest)
  show ?thesis
  proof (cases rest)
    case Nil
    then have len: "length kvss = 1" using assms(2) Cons by (simp add: all_at_def)
    then obtain xs where xs: "kvss = [xs]" by (cases kvss) auto
    then show ?thesis using assms merge_of_one Cons Nil by (auto simp: NewMergingIterator_def all_at_def)
  next
    case (Cons it' rest')
    then show ?thesis using new_merging_at [OF assms] \<open>its = it # rest\<close> by (simp add: NewMergingIterator_def)
  qed
qed

end

text \<open>What clients see of a database iterator.\<close>

context user_iterator
begin

lemma client_calls:
  assumes "s \<le> kMaxSequenceNumber" "db_entries K cmp kvs" "at kvs it i"
    and calls: "run_cursor K cmp (user_view cmp s kvs) calls (length (user_view cmp s kvs)) = Some j"
  shows "\<exists>st. run_calls (DBIterOps ops cmp) calls (new_DBIter it s seed) = Some st \<and>
     shows_pair (DBIterOps ops cmp) (user_view cmp s kvs) j st"
proof -
  have "view_at s (user_view cmp s kvs) (new_DBIter it s seed) (length (user_view cmp s kvs))"
    by (rule new_DBIter_at [OF assms(1-3)])
  from calls_at [OF view_iterator this calls] show ?thesis .
qed

end

section \<open>Over blocks\<close>

text \<open>The iterator of a block that was built of a list of pairs.\<close>

definition open_run :: "pair list \<Rightarrow> (Status + BlockIter) option" where
  "open_run kvs =
     do { b \<leftarrow> new_BlockBuilder 16;
          b \<leftarrow> add_pairs (icmp slice_compare) kvs b;
          bl \<leftarrow> (if length (fst (BlockBuilder_Finish b)) < 2 ^ 32 then new_Block (fst (BlockBuilder_Finish b)) else None);
          Block_NewIterator bl }"

definition opened_runs :: "pair list list \<Rightarrow> BlockIter list \<Rightarrow> bool" where
  "opened_runs kvss its \<longleftrightarrow> map open_run kvss = map (Some \<circ> Inr) its"

lemma open_run_at:
  assumes "open_run kvs = Some (Inr it)" "pairs_sorted dbcmp kvs" "\<forall>p \<in> set kvs. dbkey (fst p)"
  shows "block_at dbkey dbcmp kvs it (length kvs)"
proof -
  obtain b0 b where b: "new_BlockBuilder 16 = Some b0" "add_pairs dbcmp kvs b0 = Some b"
    "length (fst (BlockBuilder_Finish b)) < 2 ^ 32 \<longrightarrow>
       (\<exists>bl it. new_Block (fst (BlockBuilder_Finish b)) = Some bl \<and> Block_NewIterator bl = Some (Inr it) \<and>
          block_at dbkey dbcmp kvs it (length kvs))"
    using ikey_block.built_block [of 16 kvs] assms(2,3) by (auto simp: pairs_sorted_def)
  from b(3) show ?thesis using assms(1) unfolding open_run_def b(1) by (auto simp: b(2) split: if_splits)
qed

interpretation runs: children dbkey dbcmp "BlockIterOps dbcmp" "block_at dbkey dbcmp"
  by (intro children.intro children_axioms.intro ik.three_way_axioms ikey_block.block_iterator_ops)

interpretation read_path: user_iterator "\<lambda>_. True" slice_compare "NewMergingOps (BlockIterOps dbcmp) dbcmp"
  "empty_at (either_at (block_at dbkey dbcmp) runs.merge_at)"
  by (intro user_iterator.intro user_iterator_axioms.intro bytewise.three_way_axioms runs.new_merging_iterator)

lemma opened_runs_length: "opened_runs kvss its \<Longrightarrow> length its = length kvss"
  unfolding opened_runs_def by (metis length_map)

lemma opened_run_at:
  assumes "opened_runs kvss its" "i < length kvss" "pairs_sorted dbcmp (kvss ! i)" "\<forall>p \<in> set (kvss ! i). dbkey (fst p)"
  shows "block_at dbkey dbcmp (kvss ! i) (its ! i) (length (kvss ! i))"
proof -
  have "open_run (kvss ! i) = Some (Inr (its ! i))"
    using assms(1,2) opened_runs_length [OF assms(1)] nth_map [of i kvss open_run] by (simp add: opened_runs_def)
  then show ?thesis using open_run_at assms(3,4) by blast
qed

lemma opened_runs_at:
  assumes "merge_of dbkey dbcmp kvss kvs" "opened_runs kvss its"
  shows "runs.all_at kvss its (\<lambda>i. length (kvss ! i))"
  unfolding runs.all_at_def
  using opened_runs_length [OF assms(2)] opened_run_at [OF assms(2)] runs.mergeD(4,5) [OF assms(1)] by blast

text \<open>Small enough pairs make a block.\<close>

definition run_size :: "pair list \<Rightarrow> nat" where
  "run_size kvs = sum_list (map (\<lambda>p. length (fst p) + length (snd p) + 34) kvs)"

lemma entries_size_run: "entries_size es = run_size (pairs_of es)"
  by (simp add: entries_size_def run_size_def pairs_of_def comp_def)

lemma open_run_small:
  assumes "pairs_sorted dbcmp kvs" "\<forall>p \<in> set kvs. dbkey (fst p)" "run_size kvs + 8 < 2 ^ 32"
  shows "\<exists>it. open_run kvs = Some (Inr it)"
proof -
  have one: "(1 :: int) \<le> 16" by simp
  obtain b0 where b0: "new_BlockBuilder 16 = Some b0" "builder_at b0 []" using new_builder_at [OF one] by blast
  obtain b es where b: "add_pairs dbcmp kvs b0 = Some b" "builder_at b es" "pairs_of es = kvs"
    using ikey_block.add_pairs_at [OF b0(2), of kvs] assms(1,2) by (auto simp: pairs_sorted_def pairs_of_def)
  have len: "length (fst (BlockBuilder_Finish b)) < 2 ^ 32"
    using Finish_length [OF b(2)] assms(3) by (simp add: entries_size_run b(3))
  obtain bl it where "new_Block (fst (BlockBuilder_Finish b)) = Some bl" "Block_NewIterator bl = Some (Inr it)"
    using ikey_block.finished_block [OF b(2) _ _ len] assms(1,2) unfolding b(3) pairs_sorted_def by blast
  then show ?thesis using b0(1) b(1) len by (simp add: open_run_def)
qed

lemma opened_runs_small:
  assumes "merge_of dbkey dbcmp kvss kvs" "\<forall>xs \<in> set kvss. run_size xs + 8 < 2 ^ 32"
  shows "\<exists>its. opened_runs kvss its"
proof -
  have "\<exists>it. open_run xs = Some (Inr it)" if xs: "xs \<in> set kvss" for xs
  proof -
    obtain i where i: "i < length kvss" "xs = kvss ! i" using xs by (auto simp: in_set_conv_nth)
    show ?thesis using open_run_small [of xs] runs.mergeD(4,5) [OF assms(1)] i assms(2) xs by blast
  qed
  then have "\<exists>f. \<forall>xs \<in> set kvss. open_run xs = Some (Inr (f xs))" by (rule bchoice [OF ballI])
  then obtain f where "\<forall>xs \<in> set kvss. open_run xs = Some (Inr (f xs))" by blast
  then show ?thesis by (intro exI [of _ "map f kvss"]) (simp add: opened_runs_def)
qed

section \<open>Over a memtable and blocks\<close>

lemma mem_block_iterator:
  "iterator_ops (either_at (mem_iter_at m) (block_at dbkey dbcmp)) (EitherOps (MemTableOps slice_compare m) (BlockIterOps dbcmp)) mkey dbcmp"
  by (rule either_iterator [OF mem_iterator iterator.fewer_targets [OF ikey_block.block_iterator_ops]]) (rule mcmp_key)

lemma three_way_fewer: "three_way K cmp \<Longrightarrow> (\<And>k. K' k \<Longrightarrow> K k) \<Longrightarrow> three_way K' cmp"
  unfolding three_way_def by blast

interpretation db_children: children mkey dbcmp "EitherOps (MemTableOps slice_compare m) (BlockIterOps dbcmp)"
  "either_at (mem_iter_at m) (block_at dbkey dbcmp)" for m
  by (intro children.intro children_axioms.intro mem_block_iterator three_way_fewer [OF ik.three_way_axioms mcmp_key])

interpretation db_path: user_iterator short_key slice_compare
  "NewMergingOps (EitherOps (MemTableOps slice_compare m) (BlockIterOps dbcmp)) dbcmp"
  "empty_at (either_at (either_at (mem_iter_at m) (block_at dbkey dbcmp)) (db_children.merge_at m))" for m
  by (intro user_iterator.intro user_iterator_axioms.intro three_way_fewer [OF bytewise.three_way_axioms TrueI]
      db_children.new_merging_iterator)

lemma db_children_at:
  assumes "mem_at m ps" "merge_of mkey dbcmp (ps # kvss) kvs" "opened_runs kvss its"
  shows "db_children.all_at m (ps # kvss) (Inl MemTable_NewIterator # map Inr its) (\<lambda>i. length ((ps # kvss) ! i))"
  unfolding db_children.all_at_def
proof (intro conjI allI impI)
  show len: "length (Inl MemTable_NewIterator # map Inr its) = length (ps # kvss)" using opened_runs_length [OF assms(3)] by simp
  fix i
  assume i: "i < length (ps # kvss)"
  show "either_at (mem_iter_at m) (block_at dbkey dbcmp) ((ps # kvss) ! i) ((Inl MemTable_NewIterator # map Inr its) ! i) (length ((ps # kvss) ! i))"
  proof (cases i)
    case 0
    obtain lv key where m: "mem_nodes m ps lv key" using assms(1) by (auto simp: mem_at_def)
    then have "MemTable_NewIterator = end_at (lv 0) (length ps)" using mem_nodesD(1) by (simp add: MemTable_NewIterator_def end_at_def)
    then have "mem_iter_at m ps MemTable_NewIterator (length ps)" using m by (auto simp: mem_iter_at_def)
    then show ?thesis using 0 by simp
  next
    case (Suc j)
    have "pairs_sorted dbcmp ((ps # kvss) ! i) \<and> set ((ps # kvss) ! i) \<subseteq> set kvs" by (rule db_children.mergeD(5) [OF assms(2) i])
    moreover have "dbkey (fst p)" if "p \<in> set kvs" for p using mcmp_key db_children.mergeD(4) [OF assms(2) that] by blast
    ultimately have "pairs_sorted dbcmp (kvss ! j)" "\<forall>p \<in> set (kvss ! j). dbkey (fst p)" using Suc by auto
    moreover have "j < length kvss" using i Suc by simp
    ultimately have "block_at dbkey dbcmp (kvss ! j) (its ! j) (length (kvss ! j))" by (intro opened_run_at [OF assms(3)])
    then show ?thesis using Suc i opened_runs_length [OF assms(3)] by simp
  qed
qed

text \<open>What a client of \<open>DBImpl::NewIterator\<close> sees: the entries that were added to the memtable and those of the blocks, as one view.\<close>

lemma db_memtable_view:
  assumes "adds_ok es" "s \<le> kMaxSequenceNumber" "opened_runs kvss its"
    and "\<And>ps. pairs_sorted mcmp ps \<Longrightarrow> set ps = pair_of_add ` set es \<Longrightarrow>
      merge_of mkey dbcmp (ps # kvss) kvs \<and> db_entries short_key slice_compare kvs"
    and "run_cursor short_key slice_compare (user_view slice_compare s kvs) calls (length (user_view slice_compare s kvs)) = Some j"
  shows "\<exists>m0 m st. new_MemTable = Some m0 \<and> add_entries slice_compare es m0 = Some m \<and>
     run_calls (DBIterOps (NewMergingOps (EitherOps (MemTableOps slice_compare m) (BlockIterOps dbcmp)) dbcmp) slice_compare) calls
       (new_DBIter (NewMergingIterator (Inl MemTable_NewIterator # map Inr its)) s seed) = Some st \<and>
     shows_pair (DBIterOps (NewMergingOps (EitherOps (MemTableOps slice_compare m) (BlockIterOps dbcmp)) dbcmp) slice_compare)
       (user_view slice_compare s kvs) j st"
proof -
  obtain m0 m ps where m: "new_MemTable = Some m0" "add_entries slice_compare es m0 = Some m" "mem_at m ps"
    "set ps = pair_of_add ` set es" using memtable_of_adds [OF assms(1)] by blast
  then obtain lv key where "mem_nodes m ps lv key" by (auto simp: mem_at_def)
  then have "pairs_sorted mcmp ps" using mem_nodesD(4) by (simp add: pairs_sorted_def)
  from assms(4) [OF this m(4)] have k: "merge_of mkey dbcmp (ps # kvss) kvs" "db_entries short_key slice_compare kvs" by blast+
  from db_children.NewMergingIterator_at [OF k(1) db_children_at [OF m(3) k(1) assms(3)]]
    db_path.client_calls [OF assms(2) k(2) _ assms(5), where seed = seed and m = m] m(1,2) show ?thesis by blast
qed

lemma mem_at_single:
  assumes "mem_at m ps" "set ps = {p}"
  shows "ps = [p]"
proof -
  obtain lv key where m: "mem_nodes m ps lv key" using assms(1) by (auto simp: mem_at_def)
  obtain qs where ps: "ps = p # qs" using assms(2) by (cases ps) auto
  have "mkey (fst p)" using m assms(2) by (simp add: mem_nodes_def pair_ok_def)
  then have refl: "\<not> mcmp (fst p) (fst p) < 0" using mcmp_zero [of "fst p" "fst p"] by simp
  have "q \<notin> set qs" for q
  proof
    assume q: "q \<in> set qs"
    then have "q = p" "mcmp (fst p) (fst q) < 0" using mem_nodesD(4) [OF m] assms(2) by (auto simp: ps)
    then show False using refl by simp
  qed
  then show ?thesis using ps by (cases qs) auto
qed

section \<open>A database of two runs\<close>

text \<open>Key 7 was written twice, key 8 deleted after it was written.\<close>

definition two_runs :: "pair list list" where
  "two_runs = [[([7, 1, 3, 0, 0, 0, 0, 0, 0], [5]), ([8, 0, 4, 0, 0, 0, 0, 0, 0], [])],
               [([7, 1, 2, 0, 0, 0, 0, 0, 0], [6]), ([8, 1, 1, 0, 0, 0, 0, 0, 0], [9]), ([9, 1, 1, 0, 0, 0, 0, 0, 0], [10])]]"

definition two_merged :: "pair list" where
  "two_merged = [([7, 1, 3, 0, 0, 0, 0, 0, 0], [5]), ([7, 1, 2, 0, 0, 0, 0, 0, 0], [6]), ([8, 0, 4, 0, 0, 0, 0, 0, 0], []),
     ([8, 1, 1, 0, 0, 0, 0, 0, 0], [9]), ([9, 1, 1, 0, 0, 0, 0, 0, 0], [10])]"

lemma two_sorted: "pairs_sorted dbcmp two_merged" "list_all (pairs_sorted dbcmp) two_runs" "list_all (\<lambda>p. dbkey (fst p)) two_merged"
  by code_simp+

lemma two_merge: "merge_of dbkey dbcmp two_runs two_merged"
proof -
  have "mset two_merged = mset (concat two_runs)" by (simp add: two_merged_def two_runs_def)
  then show ?thesis using two_sorted by (simp add: merge_of_def list_all_iff)
qed

lemma two_entries: "db_entries (\<lambda>_. True) slice_compare two_merged"
proof -
  have "list_all (\<lambda>j. entry_type two_merged j \<le> kTypeValue) [0..<length two_merged]" by code_simp
  then show ?thesis using two_sorted by (simp add: db_entries_def pairs_sorted_def list_all_iff)
qed

lemma two_opened: "\<exists>its. opened_runs two_runs its"
  by (rule opened_runs_small [OF two_merge]) (simp add: two_runs_def run_size_def)

lemma two_view: "user_view slice_compare 5 two_merged = [([7], [5]), ([9], [10])]"
    "user_view slice_compare 2 two_merged = [([7], [6]), ([8], [9]), ([9], [10])]"
  by code_simp+

text \<open>And a memtable in which key 7 has since been deleted.\<close>

definition two_added :: "mem_entry list" where
  "two_added = [\<lparr>me_seq = 6, me_type = kTypeDeletion, me_key = [7], me_value = []\<rparr>]"

definition two_all :: "pair list" where
  "two_all = ([7, 0, 6, 0, 0, 0, 0, 0, 0], []) # two_merged"

lemma two_added_pair: "map pair_of_add two_added = [([7, 0, 6, 0, 0, 0, 0, 0, 0], [])]"
  by code_simp

lemma two_memtable:
  "\<exists>m0 m. new_MemTable = Some m0 \<and> add_entries slice_compare two_added m0 = Some m \<and> mem_at m [([7, 0, 6, 0, 0, 0, 0, 0, 0], [])]"
proof -
  have "adds_ok two_added" by (simp add: adds_ok_def two_added_def short_key_def kMaxSequenceNumber_def)
  from memtable_of_adds [OF this] obtain m0 m ps where m: "new_MemTable = Some m0" "add_entries slice_compare two_added m0 = Some m"
    "mem_at m ps" "set ps = pair_of_add ` set two_added" by blast
  have "set ps = {([7, 0, 6, 0, 0, 0, 0, 0, 0], [])}" using arg_cong [OF two_added_pair, of set] by (simp add: m(4))
  from mem_at_single [OF m(3) this] m show ?thesis by blast
qed

lemma two_all_sorted: "pairs_sorted dbcmp two_all" "list_all (\<lambda>p. mkey (fst p)) two_all"
  by code_simp (simp add: two_all_def two_merged_def ikey_def short_key_def)

lemma two_all_merge: "merge_of mkey dbcmp ([([7, 0, 6, 0, 0, 0, 0, 0, 0], [])] # two_runs) two_all"
proof -
  have "mset two_all = mset (concat ([([7, 0, 6, 0, 0, 0, 0, 0, 0], [])] # two_runs))" by (simp add: two_all_def two_merged_def two_runs_def)
  moreover have "pairs_sorted dbcmp [([7, 0, 6, 0, 0, 0, 0, 0, 0], [])]" by (simp add: pairs_sorted_def)
  ultimately show ?thesis using two_sorted(2) two_all_sorted by (simp add: merge_of_def list_all_iff)
qed

lemma two_all_entries: "db_entries short_key slice_compare two_all"
proof -
  have "list_all (\<lambda>j. entry_type two_all j \<le> kTypeValue) [0..<length two_all]" by code_simp
  then show ?thesis using two_all_sorted by (simp add: db_entries_def pairs_sorted_def list_all_iff)
qed

lemma two_all_view: "user_view slice_compare 6 two_all = [([9], [10])]" "user_view slice_compare 5 two_all = [([7], [5]), ([9], [10])]"
  by code_simp+

end
