(* ===== verification/Spec2Isabelle.thy ===== *)
theory Spec2Isabelle
  imports PbSafeMain Base64 Examples LdbWriteBatch LdbVersionEdit LdbFilterBlock LdbFilename LdbLogTotal LdbTableSmall LdbReadPath PbRequiredLoop
begin

text \<open>
  A model of the C and C++ code of the AppChat pods whose behaviour is data: the protocol buffer
  library nanopb (\<open>Pods/nanopb\<close>), the storage engine LevelDB (\<open>Pods/leveldb-library\<close>) and the
  Base64 codec of the database's web socket (\<open>fbase64.c\<close>). The Firebase database client keeps its
  offline state in LevelDB and sends frames over the web socket; the analytics libraries encode
  their events with nanopb. The definitions bear the names of the C functions where Isabelle
  allows it, and \<open>PROJECT.json\<close> maps each to its lines. The properties below, C1 to C40, are numbered
  by importance and stand in the order of the components.

  \<^bold>\<open>nanopb.\<close> \<open>CMemory\<close> is the memory: live bytes, the heap, loads and stores, where \<open>None\<close> is
  undefined behaviour. \<open>PbTypes\<close> has the field descriptors and the streams of \<open>pb.h\<close>;
  \<open>PbCommon\<close> the descriptor macros and the iterator of \<open>pb_common.c\<close>; \<open>PbOstream\<close> and \<open>PbEncode\<close>
  are \<open>pb_encode.c\<close>; \<open>PbIstream\<close>, \<open>PbRelease\<close>, \<open>PbDecode\<close> and \<open>PbDecodeMain\<close> are \<open>pb_decode.c\<close>.
  Callbacks and the allocator are parameters in \<open>pb_env\<close>. Messages nest, and the calls of
  \<open>pb_encode\<close> and \<open>pb_decode\<close> on submessages are a recursion on the depth \<open>d\<close> of the descriptor
  tables; a bound that the tables respect (\<open>message_bytes d\<close> defined, \<open>static_table d\<close>) is enough.
  \<open>PbEncodeSpec\<close> says what bytes a message has on the wire and shows the encoder writes them
  (locale \<open>msg_sink\<close>, for any stream that takes bytes). \<open>Leb128\<close> and \<open>PbVarint\<close> show
  the primitive codecs against base-128 digits (locale \<open>byte_source\<close>), \<open>PbTotal\<close>
  that skipping ends on any input, \<open>PbSafe\<close> to \<open>PbSafeMain\<close> that decoding arbitrary bytes stays
  inside the struct (locale \<open>bounded_source\<close>), \<open>PbRequired\<close> the bit set of required
  fields and \<open>PbRequiredLoop\<close>, through every round of the loop, which tags set its bits,
  \<open>PbCommon\<close> the tables and the iterator. \<open>PbCodec\<close> puts encoder and decoder together
  through a buffer.

  \<^bold>\<open>LevelDB, keys and records.\<close> Strings and slices are byte lists; a failed \<open>assert\<close>, a read past the
  end or a signed overflow is \<open>None\<close>, counters of type \<open>int\<close> included (\<open>iterate_loop\<close>, \<open>consume_digits\<close>); an
  error of the code is a \<open>Status\<close> (\<open>LdbStatus\<close>).
  \<open>LdbCoding\<close> is \<open>util/coding.cc\<close>; \<open>LdbComparator\<close> slices and the
  byte-wise comparator (locale \<open>comparator\<close>), \<open>LdbFormat\<close> the internal keys of \<open>db/dbformat.cc\<close>, for
  which the comparator is again one. \<open>LdbCrc32c\<close> is \<open>util/crc32c.cc\<close>.
  \<open>LdbEnv\<close> is the part of \<open>util/env_posix.cc\<close> the log uses, over a model of \<open>stdio\<close> with faults, where
  \<open>fseek\<close> takes a signed offset;
  \<open>LdbLog\<close> the log writer and reader, \<open>LdbLogProof\<close> that a log cut anywhere reads back its whole
  records, \<open>LdbLogTotal\<close> that reading any file ends. \<open>LdbWriteBatch\<close> and
  \<open>LdbVersionEdit\<close> are the records written to the two kinds of log.
  \<open>LdbBloom\<close> and \<open>LdbFilterBlock\<close> are the Bloom filter and the filter blocks (locale
  \<open>filter_policy\<close>), \<open>LdbLogging\<close> and \<open>LdbFilename\<close> numbers and file names. \<open>LdbPosixEnv\<close> is the writing of a
  whole file (\<open>util/env.cc\<close>) over \<open>Env\<close>, and the \<open>PosixEnv\<close> below it over system calls, of which
  \<open>posix_contract\<close> says what C and POSIX promise; \<open>SetCurrentFile\<close> rests on it.

  \<^bold>\<open>LevelDB, memtable.\<close> \<open>LdbArena\<close> is \<open>util/arena.cc\<close>; it shows that what the arena gives out is apart.
  \<open>LdbSkipList\<close> is \<open>db/skiplist.h\<close> with its searches, its link steps and its iterator, and \<open>LdbSkipListProof\<close>
  shows the list sorted on every level after every single link step of an insertion (\<open>skip_inv\<close>, in the locale
  \<open>skip_order\<close>, for any order of the keys). \<open>LdbMemTable\<close> is \<open>db/memtable.cc\<close>; \<open>LdbMemTableProof\<close> interprets the
  locale on its entries, shows the memtable's iterator to be one, and what \<open>Get\<close> finds (\<open>get_newest\<close>), also after a
  write batch (\<open>batch_then_get\<close>).

  \<^bold>\<open>LevelDB, tables.\<close> \<open>LdbIterator\<close> says what an iterator over a list of pairs does (locale \<open>iterator\<close>;
  \<open>IteratorOps\<close> is the virtual class). \<open>LdbBlock\<close> is the block builder and the block with its iterator,
  shown in \<open>LdbBlockProof\<close> to be such an iterator (locale \<open>block_order\<close>, for any order of the keys).
  \<open>LdbTableFormat\<close> has handles, footer and \<open>ReadBlock\<close> (\<open>table/format.cc\<close>), over the random-access files of
  \<open>LdbRandomFile\<close>; \<open>LdbTableBuilder\<close> is \<open>table/table_builder.cc\<close>, and \<open>LdbTableBuilderProof\<close> shows what
  file it writes (locale \<open>table_order\<close>; \<open>table_file\<close> is the form of a table). \<open>LdbTwoLevel\<close> is the two-level
  iterator over an index and blocks that are opened as they are reached (locale \<open>two_level\<close>).
  \<open>LdbCache\<close> is \<open>util/cache.cc\<close>: \<open>LdbCacheProof\<close> shows the hash table to be a map and the lists and
  reference counts of a shard to be in order (\<open>lru_inv\<close>), \<open>LdbCacheShards\<close> that the shards are one cache
  (locale \<open>block_cache\<close>, \<open>cache_inv\<close>) in every state that clients reach (\<open>cache_reach\<close>). \<open>LdbTable\<close> is
  \<open>table/table.cc\<close> over any cache, with the options that \<open>SanitizeOptions\<close> makes; \<open>LdbTableProof\<close> shows
  that opening, iterating and looking up serve the pairs of a \<open>table_file\<close>, and \<open>LdbTableSmall\<close>
  evaluates the builder on a table of one pair.

  \<^bold>\<open>LevelDB, reading a database.\<close> \<open>LdbMerger\<close> is \<open>table/merger.cc\<close>; \<open>LdbMergerProof\<close> shows that the merging iterator
  is an iterator over the merged list (locale \<open>children\<close>, for any iterators of one order). \<open>LdbRandom\<close> is
  \<open>util/random.h\<close>, which draws when a \<open>DBIter\<close> samples. \<open>LdbDBIter\<close> is \<open>db/db_iter.cc\<close>; \<open>LdbDBIterProof\<close> says what a user
  sees at a snapshot (\<open>user_view\<close>) and shows \<open>DBIter\<close> to be an iterator over that (locale \<open>user_iterator\<close>, for any
  internal iterator). \<open>LdbReadPath\<close> interprets both, one over the other, on blocks and on a memtable with blocks, for
  clients that make any calls in any order (\<open>run_calls\<close> against \<open>run_cursor\<close>).

  \<^bold>\<open>Base64.\<close> \<open>Base64\<close> is \<open>fbase64.c\<close>: the encoder writes the alphabet's digits of the bits, the
  decoder inverts it.

  \<^bold>\<open>Loops.\<close> Loops that a measure bounds are \<open>fun\<close>; those that end only because of an invariant
  (\<open>evict\<close>, \<open>grow_length\<close>, the skipping of empty blocks, the log reader, the searches of \<open>DBIter\<close>) are \<open>partial_function\<close>, and the
  lemmas show that they return.

  \<^bold>\<open>Not modelled.\<close> The Swift application, the Objective-C frameworks (their C-language files are
  headers that declare interfaces) and the binary frameworks; of LevelDB the version set,
  the threads (of the skip list, the readers that run beside a writer see one of the states after a link step) and
  the background work of \<open>db_impl.cc\<close>, the C binding, the tools and test support, the parts of \<open>env_posix.cc\<close>
  for directories, locks, threads and time, and the \<open>DebugString\<close> functions.
\<close>

section \<open>The message encoder\<close>

text \<open>C2. \<open>pb_encode\<close> into a buffer that is large enough and apart from the message succeeds and
  has written exactly the wire form of the message, from the start of the buffer, and nothing
  else. \<open>s0\<close> is the memory without the buffer.\<close>

theorem encode_writes_message:
  assumes "message_bytes d env s0 flds src = Some bs" and "extends s0 s"
    and "length bs \<le> n" "n < 2 ^ 64" and "valid s buf n" "untouched s0 buf n"
  shows "pb_encode d env s (pb_ostream_from_buffer buf n) flds src =
     Some (True, written s buf bs, full_to buf n (length bs))"
  by (rule emits_to_buffer [OF stdm.emits_message [OF assms(1)] assms(2-6)])

theorem encode_writes_message_witness:
  "pb_encode 2 ex_env ex_store (pb_ostream_from_buffer 100 16) (message_table ex_outer) 64 =
     Some (True, written ex_store 100 [8, 0xAC, 2, 18, 2, 8, 1], full_to 100 16 7)"
  using encode_writes_message [OF ex_message ex_extends _ _ ex_buffer(1,2)] by (simp add: ex_seven)

text \<open>C27. \<open>pb_get_encoded_size\<close> returns the length of what \<open>pb_encode\<close> writes, and writes nothing.\<close>

theorem encoded_size:
  assumes "message_bytes d env s flds src = Some bs" and "length bs < 2 ^ 64"
  shows "pb_get_encoded_size d env s flds src = Some (Some (length bs), s)"
proof (rule stdm.get_encoded_size [OF assms(1)])
  show "std_room s s PB_OSTREAM_SIZING (length bs)"
    using assms(2) by (simp add: std_room_def PB_OSTREAM_SIZING_def)
qed

theorem encoded_size_witness:
  "pb_get_encoded_size 2 ex_env ex_struct (message_table ex_outer) 64 = Some (Some 7, ex_struct)"
  using encoded_size [OF ex_message] by simp

text \<open>C28. \<open>pb_encode_delimited\<close> writes the varint of the message's length and then the message.\<close>

theorem encode_delimited_writes:
  assumes "message_bytes d env s0 flds src = Some bs" and "extends s0 s"
    and "length (prefixed bs) \<le> n" "n < 2 ^ 64" and "valid s buf n" "untouched s0 buf n"
  shows "pb_encode_delimited d env s (pb_ostream_from_buffer buf n) flds src =
     Some (True, written s buf (varint_bytes (of_nat (length bs)) @ bs), full_to buf n (length (prefixed bs)))"
  using emits_to_buffer [OF stdm.emits_delimited [OF assms(1)] assms(2-6)] by (simp add: prefixed_def)

theorem encode_delimited_writes_witness:
  "pb_encode_delimited 2 ex_env ex_store (pb_ostream_from_buffer 100 16) (message_table ex_outer) 64 =
     Some (True, written ex_store 100 [7, 8, 0xAC, 2, 18, 2, 8, 1], full_to 100 16 8)"
proof -
  have "varint_bytes 7 = [7]" by code_simp
  then show ?thesis
    using encode_delimited_writes [OF ex_message ex_extends _ _ ex_buffer(1,2)]
    by (simp add: prefixed_def ex_seven)
qed

text \<open>\<open>pb_encode_nullterminated\<close> writes the message and one zero byte.\<close>

theorem encode_nullterminated_writes:
  assumes "message_bytes d env s0 flds src = Some bs" and "extends s0 s"
    and "length bs < n" "n < 2 ^ 64" and "valid s buf n" "untouched s0 buf n"
  shows "pb_encode_nullterminated d env s (pb_ostream_from_buffer buf n) flds src =
     Some (True, written s buf (bs @ [0]), full_to buf n (Suc (length bs)))"
  using emits_to_buffer [OF stdm.emits_nullterminated [OF assms(1)] assms(2) _ assms(4-6)] assms(3) by simp

theorem encode_nullterminated_writes_witness:
  "pb_encode_nullterminated 2 ex_env ex_store (pb_ostream_from_buffer 100 16) (message_table ex_outer) 64 =
     Some (True, written ex_store 100 [8, 0xAC, 2, 18, 2, 8, 1, 0], full_to 100 16 8)"
  using encode_nullterminated_writes [OF ex_message ex_extends _ _ ex_buffer(1,2)] by (simp add: ex_seven)

section \<open>Primitive codecs\<close>

text \<open>C25. Every 64-bit value survives \<open>pb_encode_varint\<close> followed by \<open>pb_decode_varint\<close> through a
  buffer of at least ten bytes, and the decoder stops where the encoder did.\<close>

theorem varint_roundtrip:
  assumes "valid s buf n" "10 \<le> n" "n < 2 ^ 64"
  shows "\<exists>s' k. k \<le> 10 \<and> pb_encode_varint env s (pb_ostream_from_buffer buf n) v = Some (True, s', full_to buf n k) \<and>
     pb_decode_varint env s' (pb_istream_from_buffer buf n) =
       Some (Some v, s', buf_adv (pb_istream_from_buffer buf n) k)"
  using roundtrip_buffer [OF std.emits_varint bufsrc.parses_varint
      length_zigzag_varint [OF assms(2)] assms(3,1)] varint_bytes_length_10 by blast

theorem varint_roundtrip_witness:
  "\<exists>s' k. k \<le> 10 \<and> pb_encode_varint plain_env ex_store (pb_ostream_from_buffer 100 16) (- 1) =
       Some (True, s', full_to 100 16 k) \<and>
     pb_decode_varint plain_env s' (pb_istream_from_buffer 100 16) =
       Some (Some (- 1), s', buf_adv (pb_istream_from_buffer 100 16) k)"
  by (rule varint_roundtrip [OF ex_buffer(1)]) simp_all

text \<open>The same for \<open>pb_encode_svarint\<close> and \<open>pb_decode_svarint\<close>: zig-zag is inverted.\<close>

theorem svarint_roundtrip:
  assumes "valid s buf n" "10 \<le> n" "n < 2 ^ 64"
  shows "\<exists>s' k. k \<le> 10 \<and> pb_encode_svarint env s (pb_ostream_from_buffer buf n) v = Some (True, s', full_to buf n k) \<and>
     pb_decode_svarint env s' (pb_istream_from_buffer buf n) =
       Some (Some v, s', buf_adv (pb_istream_from_buffer buf n) k)"
  using roundtrip_buffer [OF std.emits_svarint bufsrc.parses_svarint
      length_zigzag_varint [OF assms(2)] assms(3,1)] varint_bytes_length_10 by blast

theorem svarint_roundtrip_witness:
  "\<exists>s' k. k \<le> 10 \<and> pb_encode_svarint plain_env ex_store (pb_ostream_from_buffer 100 16) (- 300) =
       Some (True, s', full_to 100 16 k) \<and>
     pb_decode_svarint plain_env s' (pb_istream_from_buffer 100 16) =
       Some (Some (- 300), s', buf_adv (pb_istream_from_buffer 100 16) k)"
  by (rule svarint_roundtrip [OF ex_buffer(1)]) simp_all

text \<open>A 32-bit variable encoded with \<open>pb_encode_fixed32\<close> and decoded into another with
  \<open>pb_decode_fixed32\<close> is copied byte for byte, through four bytes of the buffer.\<close>

theorem fixed32_roundtrip:
  assumes "load_bytes s0 a 4 = Some bs" "extends s0 s" "4 \<le> n" "n < 2 ^ 64" "valid s buf n"
    "untouched s0 buf n" "valid s dest 4"
  shows "\<exists>s1 s2. pb_encode_fixed32 env s (pb_ostream_from_buffer buf n) a = Some (True, s1, full_to buf n 4) \<and>
     pb_decode_fixed32 env s1 (pb_istream_from_buffer buf n) dest =
       Some (True, s2, buf_adv (pb_istream_from_buffer buf n) 4) \<and>
     load_bytes s2 dest 4 = load_bytes s a 4"
  by (rule roundtrip_fixed32 [OF assms])

theorem fixed32_roundtrip_witness:
  "\<exists>s1 s2. pb_encode_fixed32 plain_env ex_store (pb_ostream_from_buffer 100 16) 64 =
       Some (True, s1, full_to 100 16 4) \<and>
     pb_decode_fixed32 plain_env s1 (pb_istream_from_buffer 100 16) 68 =
       Some (True, s2, buf_adv (pb_istream_from_buffer 100 16) 4) \<and>
     load_bytes s2 68 4 = load_bytes ex_store 64 4"
proof -
  have "load_bytes ex_struct 64 4 = Some [44, 1, 0, 0]" "valid ex_store 68 4"
    by (simp_all add: load_bytes_def valid_def ex_struct_def ex_store_def store_with_def overwrite_def
        upt_conv_Cons)
  from fixed32_roundtrip [OF this(1) ex_extends _ _ ex_buffer(1,2) this(2), of plain_env]
  show ?thesis by simp
qed

text \<open>The same for 64-bit variables.\<close>

theorem fixed64_roundtrip:
  assumes "load_bytes s0 a 8 = Some bs" "extends s0 s" "8 \<le> n" "n < 2 ^ 64" "valid s buf n"
    "untouched s0 buf n" "valid s dest 8"
  shows "\<exists>s1 s2. pb_encode_fixed64 env s (pb_ostream_from_buffer buf n) a = Some (True, s1, full_to buf n 8) \<and>
     pb_decode_fixed64 env s1 (pb_istream_from_buffer buf n) dest =
       Some (True, s2, buf_adv (pb_istream_from_buffer buf n) 8) \<and>
     load_bytes s2 dest 8 = load_bytes s a 8"
  by (rule roundtrip_fixed64 [OF assms])

theorem fixed64_roundtrip_witness:
  "\<exists>s1 s2. pb_encode_fixed64 plain_env ex_store (pb_ostream_from_buffer 100 16) 64 =
       Some (True, s1, full_to 100 16 8) \<and>
     pb_decode_fixed64 plain_env s1 (pb_istream_from_buffer 100 16) 108 =
       Some (True, s2, buf_adv (pb_istream_from_buffer 100 16) 8) \<and>
     load_bytes s2 108 8 = load_bytes ex_store 64 8"
proof -
  have "load_bytes ex_struct 64 8 = Some [44, 1, 0, 0, 1, 0, 0, 0]" "valid ex_store 108 8"
    by (simp_all add: load_bytes_def valid_def ex_struct_def ex_store_def store_with_def overwrite_def
        upt_conv_Cons)
  from fixed64_roundtrip [OF this(1) ex_extends _ _ ex_buffer(1,2) this(2), of plain_env]
  show ?thesis by simp
qed

text \<open>C26. \<open>pb_decode_tag\<close> reads back the field number and the wire type \<open>pb_encode_tag\<close> wrote, for
  every field number protobuf allows and every wire type.\<close>

theorem tag_roundtrip:
  assumes "valid s buf n" "10 \<le> n" "n < 2 ^ 64" and "unat num < 2 ^ 29" "num \<noteq> 0" "unat wt < 8"
  shows "\<exists>s' k. pb_encode_tag env s (pb_ostream_from_buffer buf n) wt num = Some (True, s', full_to buf n k) \<and>
     pb_decode_tag env s' (pb_istream_from_buffer buf n) =
       Some (True, wt, num, False, s', buf_adv (pb_istream_from_buffer buf n) k)"
proof -
  obtain rest where v: "buf_view (written s buf (varint_bytes (tag_value wt num))) (pb_istream_from_buffer buf n)
      (varint_bytes (tag_value wt num) @ rest)"
    by (rule view_written [OF assms(1) length_zigzag_varint [OF assms(2)] assms(3)])
  from bufsrc.decode_tag_leb128 [OF v assms(4,5)] assms(6)
    emits_anywhere [OF std.emits_tag length_zigzag_varint [OF assms(2)] assms(3,1)]
  show ?thesis by auto
qed

theorem tag_roundtrip_witness:
  "\<exists>s' k. pb_encode_tag plain_env ex_store (pb_ostream_from_buffer 100 16) PB_WT_STRING 1000 =
       Some (True, s', full_to 100 16 k) \<and>
     pb_decode_tag plain_env s' (pb_istream_from_buffer 100 16) =
       Some (True, PB_WT_STRING, 1000, False, s', buf_adv (pb_istream_from_buffer 100 16) k)"
  by (rule tag_roundtrip [OF ex_buffer(1)]) simp_all

section \<open>The message decoder\<close>

text \<open>C1. On a message kept entirely in its struct (\<open>static_table\<close>: scalars, bytes, strings, arrays,
  oneofs and submessages, to any depth), \<open>pb_decode\<close> of an arbitrary byte buffer always returns,
  without undefined behaviour: it reads nothing outside live memory, writes nothing outside the
  struct, and on success has consumed a prefix of the buffer.\<close>

theorem decode_memory_safe:
  assumes "static_table d env (valid s) sz flds" and "valid s dest sz"
    and "valid s buf n" "n < 2 ^ 64"
  shows "\<exists>ok s' str'. pb_decode d env s (pb_istream_from_buffer buf n) flds dest = Some (ok, s', str') \<and>
     only_in dest sz s s' \<and> (ok \<longrightarrow> i_state str' + i_bytes_left str' = buf + n \<and> i_bytes_left str' \<le> n)"
proof -
  have "buf_inp (valid s) (buf + n) s (pb_istream_from_buffer buf n)"
    using assms(3,4) by (simp add: buf_inp_def pb_istream_from_buffer_def)
  from bufsafe.safeD [OF bufsafe.decode_safe [OF assms(1)] this assms(2)] show ?thesis
    by (auto simp: bufsafe.safe_on_def bufsafe.outcome_def buf_inp_def pb_istream_from_buffer_def)
qed

theorem decode_memory_safe_witness:
  "\<exists>ok s' str'. pb_decode 2 ex_env ex_store (pb_istream_from_buffer 100 16) (message_table ex_outer) 64 =
       Some (ok, s', str') \<and> only_in 64 8 ex_store s' \<and>
     (ok \<longrightarrow> i_state str' + i_bytes_left str' = 100 + 16 \<and> i_bytes_left str' \<le> 16)"
  by (rule decode_memory_safe [OF ex_static ex_live(1) ex_buffer(1)]) simp

text \<open>The same for \<open>pb_decode_delimited\<close>.\<close>

theorem decode_delimited_memory_safe:
  assumes "static_table d env (valid s) sz flds" and "valid s dest sz"
    and "valid s buf n" "n < 2 ^ 64"
  shows "\<exists>ok s' str'. pb_decode_delimited d env s (pb_istream_from_buffer buf n) flds dest = Some (ok, s', str') \<and>
     only_in dest sz s s' \<and> (ok \<longrightarrow> i_state str' + i_bytes_left str' = buf + n \<and> i_bytes_left str' \<le> n)"
proof -
  have "buf_inp (valid s) (buf + n) s (pb_istream_from_buffer buf n)"
    using assms(3,4) by (simp add: buf_inp_def pb_istream_from_buffer_def)
  from bufsafe.safeD [OF bufsafe.delimited_safe [OF assms(1)] this assms(2)] show ?thesis
    by (auto simp: bufsafe.safe_on_def bufsafe.outcome_def buf_inp_def pb_istream_from_buffer_def)
qed

theorem decode_delimited_memory_safe_witness:
  "\<exists>ok s' str'. pb_decode_delimited 2 ex_env ex_store (pb_istream_from_buffer 100 16) (message_table ex_outer) 64 =
       Some (ok, s', str') \<and> only_in 64 8 ex_store s' \<and>
     (ok \<longrightarrow> i_state str' + i_bytes_left str' = 100 + 16 \<and> i_bytes_left str' \<le> 16)"
  by (rule decode_delimited_memory_safe [OF ex_static ex_live(1) ex_buffer(1)]) simp

text \<open>The required-field check of \<open>pb_decode_noinit\<close>: wherever the loop left the iterator,
  \<open>req_field_count\<close> is the number of required fields of the whole table, capped at 64.\<close>

theorem required_count:
  assumes "terminated flds" "length flds < 2 ^ 32" "i < field_count flds"
  shows "req_field_count (iter_at flds dest i) =
     Some (min 64 (length (filter (\<lambda>f. PB_HTYPE (f_type f) = PB_HTYPE_REQUIRED) (take (field_count flds) flds))))"
  using req_field_count_at [OF assms(1) _ assms(2)] assms(3) by (simp add: required_before_def)

theorem required_count_witness:
  "req_field_count (iter_at (message_table ex_outer) 64 1) = Some 2"
proof -
  have "terminated (message_table ex_outer)" "length (message_table ex_outer) < 2 ^ 32"
    "1 < field_count (message_table ex_outer)" by (simp_all add: ex_eval)
  from required_count [OF this, of 64] show ?thesis by (simp add: ex_eval)
qed

text \<open>C19. Required fields are checked: if the loop of \<open>pb_decode_noinit\<close> ends well after reading the tags
  \<open>tags\<close> (\<open>decode_reads\<close>, for any table and stream), the message is accepted if each of the first 64 required
  fields has its tag among them, and is otherwise refused with "missing required field". Required fields past
  the 64th are not checked.\<close>

theorem required_check:
  assumes "terminated flds" "length flds < 2 ^ 32" "required_distinct flds" "field_count flds \<noteq> 0"
    and "decode_reads env (rec_at (Suc d) env (pb_decode_noinit d env)) flds s str
      (initial_locals (iter_at flds dest 0)) tags (s', str', l)"
    and "fixed_count_short flds (d_fcf l) (d_fcs l) = Some False"
  shows "pb_decode_noinit (Suc d) env s str flds dest =
    (if \<forall>i<field_count flds. PB_HTYPE (f_type (flds ! i)) = PB_HTYPE_REQUIRED \<and>
          required_before flds i < PB_MAX_REQUIRED_FIELDS \<longrightarrow> f_tag (flds ! i) \<in> set tags
     then Some (True, s', str') else i_fail s' str' ''missing required field'')"
  by (rule noinit_required [OF assms])

theorem required_check_witness:
  "(\<exists>s str. pb_decode_noinit 1 ex_env ex_wire (pb_istream_from_buffer 100 2) (message_table ex_inner) 64 =
      Some (True, s, str)) \<and>
   pb_decode_noinit 1 ex_env ex_wire (pb_istream_from_buffer 100 0) (message_table ex_inner) 64 =
      i_fail ex_wire (pb_istream_from_buffer 100 0) ''missing required field''"
proof
  have ne: "field_count (message_table ex_inner) \<noteq> 0" by (simp add: ex_inner_table)
  note check = required_check [OF ex_inner_table(1-3) ne, where env = ex_env and d = 0 and dest = 64 and s = ex_wire]
  have none: "fixed_count_short (message_table ex_inner) None k = Some False" for k by (simp add: fixed_count_short_def)
  obtain s str l where "decode_reads ex_env ex_rec (message_table ex_inner) ex_wire (ex_input 2) ex_start [1] (s, str, l)"
    "d_fcf l = None" using ex_reads by blast
  from check [OF this(1)] this(2) none
  show "\<exists>s str. pb_decode_noinit 1 ex_env ex_wire (ex_input 2) (message_table ex_inner) 64 = Some (True, s, str)"
    by (simp add: ex_inner_table(4) ex_inner_entry)
  have "decode_reads ex_env ex_rec (message_table ex_inner) ex_wire (ex_input 0) ex_start [] (ex_wire, ex_input 0, ex_start)"
    by (rule reads_end) (simp add: ex_left)
  from check [OF this] none
  show "pb_decode_noinit 1 ex_env ex_wire (ex_input 0) (message_table ex_inner) 64 =
      i_fail ex_wire (ex_input 0) ''missing required field''"
    by (auto simp: ex_inner_table(4) ex_inner_entry initial_locals_def split: if_splits)
qed

text \<open>C29. \<open>pb_skip_field\<close> takes exactly the payload of a field, for each of the four wire types.\<close>

theorem skip_field_exact:
  assumes "wire_payload wt bs" and "buf_view s str (bs @ rest)"
  shows "pb_skip_field env s str wt = Some (True, s, buf_adv str (length bs))"
  using bufsrc.skips_field [OF assms(1)] assms(2) unfolding bufsrc.skips_def by blast

theorem skip_field_exact_witness:
  "pb_skip_field plain_env ex_store (pb_istream_from_buffer 100 16) PB_WT_64BIT =
     Some (True, ex_store, buf_adv (pb_istream_from_buffer 100 16) 8)"
proof -
  have "wire_payload PB_WT_64BIT (replicate 8 0)" by (simp add: wire_payload_def)
  moreover have "replicate 8 (0 :: byte) @ replicate 8 0 = replicate 16 0" by (simp add: replicate_add [symmetric])
  then have "buf_view ex_store (pb_istream_from_buffer 100 16) (replicate 8 0 @ replicate 8 0)"
    using buf_view_from_buffer [OF ex_buffer(3)] by simp
  ultimately show ?thesis using skip_field_exact [of _ "replicate 8 0"] by fastforce
qed

text \<open>C30. On any bytes whatever, \<open>pb_skip_field\<close> returns, leaves memory as it was, and the stream
  shows a suffix of what it showed.\<close>

theorem skip_field_total:
  assumes "buf_view s str bs"
  shows "\<exists>ok str' k. pb_skip_field env s str wt = Some (ok, s, str') \<and> k \<le> length bs \<and>
     buf_view s str' (drop k bs)"
  using bufsrc.readsD [OF bufsrc.reads_skip_field assms] by metis

theorem skip_field_total_witness:
  "\<exists>ok str' k. pb_skip_field plain_env ex_store (pb_istream_from_buffer 100 16) 7 = Some (ok, ex_store, str') \<and>
     k \<le> length (replicate 16 (0 :: byte)) \<and> buf_view ex_store str' (drop k (replicate 16 0))"
  by (rule skip_field_total [OF buf_view_from_buffer [OF ex_buffer(3)]]) simp

text \<open>A substream shows only the bytes of its string, and closing it from any point inside
  leaves the parent just behind the string.\<close>

theorem substream_exact:
  assumes "buf_view s str (prefixed bs @ rest)" and "length bs < 2 ^ 32"
  shows "\<exists>sub par. pb_make_string_substream env s str = Some (Some sub, s, par) \<and> buf_view s sub bs \<and>
     (\<forall>k \<le> length bs. pb_close_string_substream env s par (buf_adv sub k) =
        Some (True, s, buf_adv str (length (prefixed bs))))"
proof -
  have "buf_view s str (varint_bytes (of_nat (length bs)) @ bs @ rest)"
    using assms(1) by (simp add: prefixed_def)
  note m = bufsrc.make_substream [OF this assms(2)]
  from m(1) m(2) [of env] show ?thesis unfolding prefixed_def by blast
qed

theorem substream_exact_witness:
  "\<exists>sub par. pb_make_string_substream plain_env ex_store (pb_istream_from_buffer 100 16) = Some (Some sub, ex_store, par) \<and>
     buf_view ex_store sub [] \<and> (\<forall>k \<le> length ([] :: byte list). pb_close_string_substream plain_env ex_store par (buf_adv sub k) =
        Some (True, ex_store, buf_adv (pb_istream_from_buffer 100 16) (length (prefixed []))))"
proof -
  have "varint_bytes 0 = [0]" by (simp add: varint_bytes_small)
  moreover have "[0] @ replicate 15 (0 :: byte) = replicate 16 0" by (simp add: replicate_add [symmetric, of 1] numeral_eq_Suc)
  ultimately have "buf_view ex_store (pb_istream_from_buffer 100 16) (prefixed [] @ replicate 15 0)"
    using buf_view_from_buffer [OF ex_buffer(3)] by (simp add: prefixed_def)
  from substream_exact [OF this] show ?thesis by simp
qed

section \<open>Descriptor tables and the iterator\<close>

text \<open>C31. Over a table built by the descriptor macros the iterator visits the entries in order and
  wraps round; at each, \<open>pData\<close> is the address of the struct member and \<open>pSize\<close> that of its
  \<open>has_\<close>, \<open>_count\<close> or \<open>which_\<close> companion.\<close>

theorem table_describes_struct:
  assumes "wf_layout ds"
  shows "pb_field_iter_begin (message_table ds) dest = Some (True, iter_at (message_table ds) dest 0) \<and>
     (\<forall>i<length ds.
        pb_field_iter_next (iter_at (message_table ds) dest i) =
          Some (Suc i < length ds, iter_at (message_table ds) dest (Suc i mod length ds)) \<and>
        it_pData (iter_at (message_table ds) dest i) = dest + m_offset (d_member (ds ! i)) \<and>
        (has_companion (ds ! i) \<longrightarrow>
           it_pSize (iter_at (message_table ds) dest i) = PSMem (dest + m_aux_offset (d_member (ds ! i)))))"
proof -
  have c: "field_count (message_table ds) = length ds" by (rule table_count [OF assms])
  have "ds \<noteq> []" using assms by (simp add: wf_layout_def)
  then show ?thesis
    using iter_begin_at [OF table_terminated, of ds dest] iter_next_at [OF table_terminated, of _ ds dest]
      table_data_at [OF assms] table_size_at [OF assms] by (auto simp: c)
qed

theorem table_describes_struct_witness:
  "pb_field_iter_next (iter_at (message_table ex_outer) 64 0) = Some (True, iter_at (message_table ex_outer) 64 1) \<and>
     it_pData (iter_at (message_table ex_outer) 64 1) = 68"
proof -
  have "wf_layout ex_outer"
    by (simp add: wf_layout_def ex_outer_def ex_member_def All_less_Suc less_Suc_eq)
  from table_describes_struct [OF this, of 64] show ?thesis
    by (simp add: ex_outer_def ex_member_def All_less_Suc)
qed

text \<open>C18. \<open>pb_field_iter_find\<close> returns from any position and for any tag. It finds an entry exactly if
  the table has one with that tag (and no extension), and is then at such an entry; otherwise it
  is back where it was.\<close>

theorem iter_find_correct:
  assumes "terminated flds" and "i < field_count flds"
  shows "if \<exists>j<field_count flds. field_matches flds tag j
     then \<exists>j<field_count flds. field_matches flds tag j \<and>
       pb_field_iter_find (iter_at flds dest i) tag = Some (True, iter_at flds dest j)
     else pb_field_iter_find (iter_at flds dest i) tag = Some (False, iter_at flds dest i)"
proof (cases "\<exists>j<field_count flds. field_matches flds tag j")
  case True
  then obtain j where j: "j < field_count flds" "field_matches flds tag j" by blast
  obtain d where "field_matches flds tag ((i + d) mod field_count flds)"
    "pb_field_iter_find (iter_at flds dest i) tag = Some (True, iter_at flds dest ((i + d) mod field_count flds))"
    by (rule iter_find_hit [OF assms j, of dest])
  moreover have "(i + d) mod field_count flds < field_count flds" using assms(2) by simp
  ultimately show ?thesis using True by auto
next
  case False
  with iter_find_miss [OF assms, of tag dest] show ?thesis by simp
qed

theorem iter_find_correct_witness:
  "pb_field_iter_find (iter_at (message_table ex_outer) 64 1) 99 = Some (False, iter_at (message_table ex_outer) 64 1)"
proof -
  have t: "terminated (message_table ex_outer)" and c: "field_count (message_table ex_outer) = 2"
    by (simp_all add: ex_eval)
  have n: "\<not> (\<exists>j<field_count (message_table ex_outer). field_matches (message_table ex_outer) 99 j)"
  proof -
    have "f_tag (message_table ex_outer ! j) \<noteq> 99" if "j < 2" for j
    proof -
      from that have "j = 0 \<or> j = 1" by auto
      then show ?thesis by (auto simp: ex_tables)
    qed
    then show ?thesis unfolding c field_matches_def by blast
  qed
  have "1 < field_count (message_table ex_outer)" by (simp add: c)
  from iter_find_correct [OF t this, of 99 64] n show ?thesis by (simp only: if_False)
qed

section \<open>LevelDB: numbers, keys and their order\<close>

text \<open>C37. LevelDB and nanopb write the same varints: \<open>pb_decode_varint\<close> reads what \<open>EncodeVarint64\<close>
  wrote, \<open>pb_encode_varint\<close> writes the same bytes, and \<open>VarintLength\<close> is their number.\<close>

theorem varint_interop:
  assumes "buf_view s str (EncodeVarint64 v @ rest)" and "valid s buf n" "10 \<le> n" "n < 2 ^ 64"
  shows "pb_decode_varint env s str = Some (Some v, s, buf_adv str (nat (VarintLength v))) \<and>
     pb_encode_varint env s (pb_ostream_from_buffer buf n) v =
       Some (True, written s buf (EncodeVarint64 v), full_to buf n (nat (VarintLength v)))"
proof -
  have "length (varint_bytes v) \<le> n" using varint_bytes_length_10 [of v] assms(3) by simp
  with bufsrc.parsesD [OF bufsrc.parses_varint] assms emits_anywhere [OF std.emits_varint]
  show ?thesis by (simp add: EncodeVarint64_leb128 VarintLength_leb128)
qed

theorem varint_interop_witness:
  "pb_decode_varint plain_env ex_store (pb_istream_from_buffer 100 16) =
     Some (Some 0, ex_store, buf_adv (pb_istream_from_buffer 100 16) 1)"
proof -
  have e: "EncodeVarint64 0 = [0]" by (simp add: EncodeVarint64_leb128 varint_bytes_small)
  then have "VarintLength 0 = 1" by (simp add: VarintLength_leb128 flip: EncodeVarint64_leb128)
  moreover have "[0] @ replicate 15 (0 :: byte) = replicate 16 0"
    by (simp add: replicate_add [symmetric, of 1] numeral_eq_Suc)
  then have "buf_view ex_store (pb_istream_from_buffer 100 16) (EncodeVarint64 0 @ replicate 15 0)"
    using buf_view_from_buffer [OF ex_buffer(3)] by (simp add: e)
  ultimately show ?thesis using varint_interop [OF _ ex_buffer(1), of "pb_istream_from_buffer 100 16" 0] by simp
qed

text \<open>Numbers and length-prefixed slices written by the \<open>Put\<close> functions one after another are
  read back by the \<open>Get\<close> functions, each leaving what follows it.\<close>

theorem coding_roundtrip:
  assumes "length x < 2 ^ 32"
  shows "GetVarint32 (PutVarint64 (PutLengthPrefixedSlice (PutVarint32 [] v) x) w) =
       (Some v, PutVarint64 (PutLengthPrefixedSlice [] x) w) \<and>
     GetLengthPrefixedSlice (PutVarint64 (PutLengthPrefixedSlice [] x) w) = (Some x, PutVarint64 [] w) \<and>
     GetVarint64 (PutVarint64 [] w) = (Some w, []) \<and>
     DecodeFixed32 (PutFixed32 [] v) = Some v \<and> DecodeFixed64 (PutFixed64 [] w) = Some w"
proof -
  have p: "PutVarint64 dst w = dst @ EncodeVarint64 w" "PutVarint32 dst v = dst @ EncodeVarint32 v" for dst
    by (simp_all add: PutVarint64_def PutVarint32_def)
  show ?thesis
    using GetLengthPrefixedSlice_Encode [OF assms, of "EncodeVarint64 w"] GetVarint64_Encode [of w "[]"]
      DecodeFixed32_Encode [of v "[]"] DecodeFixed64_Encode [of w "[]"]
      PutLengthPrefixedSlice_append [of "EncodeVarint32 v" x]
    by (simp add: p GetVarint32_Encode PutFixed32_def PutFixed64_def)
qed

theorem coding_roundtrip_witness:
  "GetLengthPrefixedSlice (PutVarint64 (PutLengthPrefixedSlice [] [104, 105]) 300) = (Some [104, 105], PutVarint64 [] 300)"
  using coding_roundtrip [of "[104, 105]" 0 300] by simp

text \<open>C38. \<open>Slice::compare\<close> is the lexicographic order of the bytes, a proper prefix coming first.\<close>

theorem slice_compare_lexicographic:
  "slice_compare a b = (if a < b then - 1 else if a = b then 0 else 1)"
  by (rule slice_compare_order)

text \<open>C34. \<open>FindShortestSeparator\<close> gives a key between its arguments that is no longer than the first,
  and \<open>FindShortSuccessor\<close> one that is not below and no longer.\<close>

theorem separator_successor:
  "(slice_compare a b < 0 \<longrightarrow>
      slice_compare a (bytewise_separator a b) \<le> 0 \<and> slice_compare (bytewise_separator a b) b < 0) \<and>
   (slice_compare a b \<ge> 0 \<longrightarrow> bytewise_separator a b = a) \<and> length (bytewise_separator a b) \<le> length a \<and>
   slice_compare a (bytewise_successor a) \<le> 0 \<and> length (bytewise_successor a) \<le> length a"
proof -
  have "slice_compare a b \<ge> 0 \<longleftrightarrow> \<not> a < b" using slice_compare_sign(1) [of a b] by linarith
  then show ?thesis
    using separator_between [of a b] separator_unchanged [of a b] separator_length [of a b] successor_above [of a]
    by (simp add: slice_compare_sign)
qed

theorem separator_successor_witness:
  "slice_compare [1, 5, 9] (bytewise_separator [1, 5, 9] [1, 8]) \<le> 0 \<and>
     slice_compare (bytewise_separator [1, 5, 9] [1, 8]) [1, 8] < 0"
proof -
  have "slice_compare [1, 5, 9] [1, 8] < 0" by (simp add: slice_compare_sign)
  then show ?thesis using separator_successor [of "[1, 5, 9]" "[1, 8]"] by blast
qed

text \<open>\<open>ParseInternalKey\<close> gives back the key that \<open>AppendInternalKey\<close> wrote, for every sequence number
  and type a database uses, in the bytes \<open>InternalKeyEncodingLength\<close> says.\<close>

theorem internal_key_roundtrip:
  assumes "pk_sequence k \<le> kMaxSequenceNumber" "pk_type k \<le> kTypeValue"
  shows "\<exists>bs. AppendInternalKey [] k = Some bs \<and> ParseInternalKey bs = Some (Some k) \<and>
     ExtractUserKey bs = Some (pk_user_key k) \<and> length bs = InternalKeyEncodingLength k"
  using parse_append [OF assms] AppendInternalKey_tagged [OF assms, of "[]"] by auto

theorem internal_key_roundtrip_witness:
  "\<exists>bs. AppendInternalKey [] \<lparr>pk_user_key = [107], pk_sequence = 7, pk_type = kTypeValue\<rparr> = Some bs \<and>
     ParseInternalKey bs = Some (Some \<lparr>pk_user_key = [107], pk_sequence = 7, pk_type = kTypeValue\<rparr>)"
  using internal_key_roundtrip [of "\<lparr>pk_user_key = [107], pk_sequence = 7, pk_type = kTypeValue\<rparr>"]
  by (auto simp: kMaxSequenceNumber_def)

text \<open>C20. The internal comparator orders the keys as the records they encode: by user key ascending,
  then by sequence number and by type descending, so that the newest entry of a user key is first.\<close>

theorem internal_order:
  assumes "packable a" "packable b"
  shows "\<exists>ka kb. AppendInternalKey [] a = Some ka \<and> AppendInternalKey [] b = Some kb \<and>
     InternalKeyComparator_Compare slice_compare ka kb = Some (if before a b then - 1 else if a = b then 0 else 1)"
  by (rule Compare_appended [OF assms])

theorem internal_order_witness:
  "\<exists>ka kb. AppendInternalKey [] \<lparr>pk_user_key = [107], pk_sequence = 9, pk_type = 0\<rparr> = Some ka \<and>
     AppendInternalKey [] \<lparr>pk_user_key = [107], pk_sequence = 7, pk_type = 1\<rparr> = Some kb \<and>
     InternalKeyComparator_Compare slice_compare ka kb = Some (- 1)"
  using internal_order [of "\<lparr>pk_user_key = [107], pk_sequence = 9, pk_type = 0\<rparr>"
      "\<lparr>pk_user_key = [107], pk_sequence = 7, pk_type = 1\<rparr>"]
  by (simp add: packable_def before_def kMaxSequenceNumber_def)

text \<open>C33. The asserts in the internal comparator's \<open>FindShortestSeparator\<close> never fail, and its result is
  an internal key between the two.\<close>

theorem internal_separator_safe:
  assumes "8 \<le> length a" "8 \<le> length b"
  shows "\<exists>k c. InternalKeyComparator_FindShortestSeparator slice_compare bytewise_separator a b = Some k \<and>
     8 \<le> length k \<and> InternalKeyComparator_Compare slice_compare a b = Some c \<and>
     (if c < 0 then \<exists>x y. InternalKeyComparator_Compare slice_compare a k = Some x \<and> x \<le> 0 \<and>
        InternalKeyComparator_Compare slice_compare k b = Some y \<and> y < 0 else k = a)"
proof -
  have ab: "ikey (\<lambda>_. True) a" "ikey (\<lambda>_. True) b" using assms by (simp_all add: ikey_def)
  obtain k where k: "InternalKeyComparator_FindShortestSeparator slice_compare bytewise_separator a b = Some k"
    "ikey (\<lambda>_. True) k" "icmp slice_compare a b < 0 \<longrightarrow> icmp slice_compare a k \<le> 0 \<and> icmp slice_compare k b < 0"
    "\<not> icmp slice_compare a b < 0 \<longrightarrow> k = a"
    using bytewise.internal_separator [OF ab] by blast
  have c: "InternalKeyComparator_Compare slice_compare x y = Some (icmp slice_compare x y)"
    if "ikey (\<lambda>_. True) x" "ikey (\<lambda>_. True) y" for x y
    using that by (auto elim!: ikey_cases simp: Compare_tagged icmp_tagged)
  from k(2) have "8 \<le> length k" by (simp add: ikey_def)
  then show ?thesis using k c ab by auto
qed

theorem internal_separator_safe_witness:
  "\<exists>k. InternalKeyComparator_FindShortestSeparator slice_compare bytewise_separator
     (replicate 9 1) (replicate 9 2) = Some k \<and> 8 \<le> length k"
  using internal_separator_safe [of "replicate 9 1" "replicate 9 2"] by auto

section \<open>LevelDB: checksums and the log\<close>

text \<open>C15. \<open>Extend\<close>, with its four tables and its sixteen bytes a round, is the bit-by-bit CRC-32C for
  data at any address, continues a checksum, and \<open>Unmask\<close> inverts \<open>Mask\<close>.\<close>

theorem extend_is_crc32c:
  "Extend pval crc data = Some (crc32c crc data) \<and>
   crc32c (crc32c crc data) more_data = crc32c crc (data @ more_data) \<and> crc_Unmask (crc_Mask crc) = crc"
  by (simp add: Extend_crc32c crc32c_append)

text \<open>C5. The log survives a crash: of the file that \<open>AddRecord\<close> made of any records, cut off after any
  number of bytes, the reader returns exactly the records that are whole in it, in order, and
  reports no corruption. Uncut, it returns all of them.\<close>

theorem log_torn_tail:
  "\<exists>w w'. new_LogWriter (posix_file name []) 0 = Some w \<and> add_records ds w = Some (Status_OK, w') \<and>
     (\<forall>k. \<exists>r. read_records (Suc (length ds))
         (new_LogReader (posix_file name (take k (file_data (pf_file (lw_dest w'))))) True True 0) =
         Some (take (whole_records 0 k ds) ds, r) \<and> lr_corruptions r = []) \<and>
     whole_records 0 (length (file_data (pf_file (lw_dest w')))) ds = length ds"
proof -
  obtain w where w: "new_LogWriter (posix_file name []) 0 = Some w" "writer_at w []"
    using new_writer_at by blast
  obtain w' where w': "add_records ds w = Some (Status_OK, w')" "writer_at w' (log_bytes 0 ds)"
    using add_records_at [OF w(2), of ds] by auto
  have d: "file_data (pf_file (lw_dest w')) = log_bytes 0 ds" using w'(2) by (simp add: writer_at_def)
  have "\<exists>r. read_records (Suc (length ds)) (new_LogReader (posix_file name (take k (log_bytes 0 ds))) True True 0) =
      Some (take (whole_records 0 k ds) ds, r) \<and> lr_corruptions r = []" for k
    using read_records_at [OF new_reader_at, where pre = "[]" and k = k and ds = ds and n = "Suc (length ds)"]
    by (simp add: new_LogReader_def)
  with w(1) w'(1) whole_records_all [of 0 ds] show ?thesis by (auto simp: d)
qed

text \<open>C23. On any file whatever, with any faults, flags and initial offset, reading comes to its end: as
  many calls of \<open>ReadRecord\<close> as there are bytes in the file and in the reader's buffer, and one more, all
  return, and the last finds no record. The bound is the whole file, not what is left of it, since with an
  initial offset near 2^64 \<open>Skip\<close> goes backwards.\<close>

theorem log_reader_ends:
  "\<exists>ds r'. read_records (Suc (length (lr_buffer r) + length (file_data (pf_file (lr_file r))))) r = Some (ds, r') \<and>
     length ds \<le> length (lr_buffer r) + length (file_data (pf_file (lr_file r)))"
  using read_records_end [of "Suc (length (lr_buffer r) + length (file_data (pf_file (lr_file r))))" r] ahead_le [of r]
  by (meson le_trans min.boundedE)

section \<open>LevelDB: batches and edits\<close>

text \<open>C10. A batch replays what was put into it: after any \<open>Put\<close> and \<open>Delete\<close> calls on a cleared batch,
  \<open>InsertInto\<close> adds exactly those entries to the memtable, in order, numbered from the batch's
  sequence number.\<close>

theorem batch_replay:
  assumes "\<forall>c \<in> set calls. sizes_fit c" "length calls < 2 ^ 31"
  shows "\<exists>rep rep' es. batch_calls calls WriteBatch_Clear = Some rep \<and> batch_SetSequence rep seq = Some rep' \<and>
     batch_InsertInto rep' = Some (es, Status_OK) \<and>
     map (\<lambda>e. (me_type e, me_key e, me_value e)) es = map entry_of calls \<and>
     (\<forall>i<length es. me_seq (es ! i) = seq + of_nat i)"
proof -
  have "batch_calls calls WriteBatch_Clear = Some (batch_rep 0 calls)"
    using batch_calls_rep [of "[]" calls 0] assms(2) by (simp add: WriteBatch_Clear_rep)
  then show ?thesis
    by (simp add: batch_SetSequence_rep batch_InsertInto_rep [OF assms] insert_calls_entries insert_calls_seq)
qed

theorem batch_replay_witness:
  "\<exists>rep rep' x y. batch_calls [Handler_Put [107] [118], Handler_Delete [107]] WriteBatch_Clear = Some rep \<and>
     batch_SetSequence rep 5 = Some rep' \<and> batch_InsertInto rep' = Some ([x, y], Status_OK) \<and>
     me_type x = kTypeValue \<and> me_value x = [118] \<and> me_type y = kTypeDeletion \<and> me_seq y = 6"
  using batch_replay [of "[Handler_Put [107] [118], Handler_Delete [107]]" 5]
  by (auto simp: entry_of_def All_less_Suc simp del: batch_calls.simps)

text \<open>C24. \<open>Iterate\<close> on any bytes, fewer than 2^31, so that the count of the records fits its \<open>int\<close>, returns
  without reading past them: the calls it made, and a status that is OK or Corruption; OK only if the header's
  count is the number of calls.\<close>

theorem batch_iterate_total:
  assumes "length rep < 2 ^ 31"
  shows "\<exists>calls s. WriteBatch_Iterate rep = Some (calls, s) \<and>
     (if s = Status_OK then batch_Count rep = Some (int (length calls)) else status_code s = kCorruption)"
  by (rule WriteBatch_Iterate_total [OF assms])

theorem batch_iterate_total_witness:
  "\<exists>calls s. WriteBatch_Iterate (replicate 12 0 @ [1, 1, 107, 9]) = Some (calls, s) \<and>
     (if s = Status_OK then batch_Count (replicate 12 0 @ [1, 1, 107, 9]) = Some (int (length calls))
      else status_code s = kCorruption)"
  by (rule batch_iterate_total) simp

text \<open>C11. An edit written by \<open>EncodeTo\<close> is read back by \<open>DecodeFrom\<close> into a fresh edit.\<close>

theorem version_edit_roundtrip:
  assumes "edit_ok e" "keys_set e"
  shows "\<exists>bs. VersionEdit_EncodeTo e [] = Some bs \<and> VersionEdit_DecodeFrom bs new_VersionEdit = (e, Status_OK)"
  by (rule encode_decode [OF assms])

theorem version_edit_roundtrip_witness:
  "\<exists>bs. VersionEdit_EncodeTo (AddFile 2 7 4096 [1] [9] (edit_DeleteFile 1 3 (SetLogNumber 5 new_VersionEdit))) [] = Some bs \<and>
     VersionEdit_DecodeFrom bs new_VersionEdit =
       (AddFile 2 7 4096 [1] [9] (edit_DeleteFile 1 3 (SetLogNumber 5 new_VersionEdit)), Status_OK)"
  by (rule version_edit_roundtrip)
    (simp_all add: edit_ok_def keys_set_def level_ok_def AddFile_def edit_DeleteFile_def SetLogNumber_def
      new_VersionEdit_def new_FileMetaData_def insort_insert_key_def)

text \<open>C22. Whatever bytes it is given, \<open>DecodeFrom\<close> into a well-formed edit leaves a well-formed edit: levels in
  range, the set of deleted files a set, no value without its flag.\<close>

theorem version_edit_decode_ok:
  assumes "edit_ok e" and "VersionEdit_DecodeFrom src e = (e', s)"
  shows "edit_ok e' \<and> (s = Status_OK \<or> status_code s = kCorruption)"
  using DecodeFrom_keeps [OF assms] assms(2) by (auto simp: VersionEdit_DecodeFrom_def split: prod.splits if_splits option.splits)

theorem version_edit_decode_ok_witness:
  "edit_ok (fst (VersionEdit_DecodeFrom [6, 9, 1] new_VersionEdit))"
  using version_edit_decode_ok [OF new_VersionEdit_ok surjective_pairing, of "[6, 9, 1]"] by blast

section \<open>LevelDB: filters\<close>

text \<open>C17. The Bloom filter has no false negatives, takes the size it should, and matching any key against
  any bytes never reads outside them.\<close>

theorem bloom_filter_sound:
  assumes "length keys * bits_per_key < 2 ^ 63"
  shows "(\<exists>f. Bloom_CreateFilter bits_per_key keys dst = Some (dst @ f) \<and>
       length f = bloom_bytes bits_per_key (length keys) + 1 \<and>
       (\<forall>key \<in> set keys. Bloom_KeyMayMatch key f = Some True)) \<and> Bloom_KeyMayMatch any_key any_bytes \<noteq> None"
  using bloom_no_false_negative [OF assms] bloom_match_total by blast

theorem bloom_filter_sound_witness:
  "\<exists>f. Bloom_CreateFilter 10 [[1], [2, 3]] [] = Some f \<and> Bloom_KeyMayMatch [2, 3] f = Some True"
  using bloom_filter_sound [of "[[1], [2, 3]]" 10 "[]"] by auto

text \<open>C14. In a filter block of any blocks in the order of their offsets, the reader finds every key of every
  block, by the offset the block has in the file; so \<open>InternalGet\<close> skips no block that holds its key.\<close>

theorem filter_block_sound:
  assumes "\<forall>(_, keys) \<in> set blocks. \<forall>k \<in> set keys. 8 \<le> length k" "sorted (map fst blocks)"
    "length (concat (map snd blocks)) < 2 ^ 31"
  shows "\<exists>s contents s'.
     build_filters (InternalFilterPolicy_CreateFilter (Bloom_CreateFilter 10)) blocks new_FilterBlockBuilder = Some s \<and>
     FilterBlock_Finish (InternalFilterPolicy_CreateFilter (Bloom_CreateFilter 10)) s = Some (contents, s') \<and>
     (length contents < 2 ^ 32 \<longrightarrow> (\<exists>r. new_FilterBlockReader contents = Some r \<and>
       (\<forall>(off, keys) \<in> set blocks. \<forall>k \<in> set keys.
          FilterBlock_KeyMayMatch (InternalFilterPolicy_KeyMayMatch Bloom_KeyMayMatch) r off k = Some True)))"
  using ibloom.filter_block_covers [of blocks] assms by (simp add: ikey_def)

theorem filter_block_sound_witness:
  "\<exists>s. build_filters (InternalFilterPolicy_CreateFilter (Bloom_CreateFilter 10))
     [(0, [replicate 9 1]), (5000, [replicate 10 2])] new_FilterBlockBuilder = Some s"
  using filter_block_sound [of "[(0, [replicate 9 1]), (5000, [replicate 10 2])]"] by auto

section \<open>LevelDB: names of files\<close>

text \<open>C35. \<open>ParseFileName\<close> recognises every name the other functions make, with its number and type: of logs,
  tables in both spellings, manifests and temporary files, the last against the list of owned names in
  \<open>filename.cc\<close>, which leaves them out; and the fixed names CURRENT, LOCK, LOG and LOG.old.\<close>

theorem file_names_parse:
  assumes "n > 0"
  shows "map_option (ParseFileName \<circ> file_of db) (LogFileName db n) = Some (Some (Some (n, kLogFile))) \<and>
     map_option (ParseFileName \<circ> file_of db) (TableFileName db n) = Some (Some (Some (n, kTableFile))) \<and>
     map_option (ParseFileName \<circ> file_of db) (SSTTableFileName db n) = Some (Some (Some (n, kTableFile))) \<and>
     map_option (ParseFileName \<circ> file_of db) (DescriptorFileName db n) = Some (Some (Some (n, kDescriptorFile))) \<and>
     map_option (ParseFileName \<circ> file_of db) (TempFileName db n) = Some (Some (Some (n, kTempFile))) \<and>
     ParseFileName (file_of db (CurrentFileName db)) = Some (Some (0, kCurrentFile)) \<and>
     ParseFileName (file_of db (LockFileName db)) = Some (Some (0, kDBLockFile)) \<and>
     ParseFileName (file_of db (InfoLogFileName db)) = Some (Some (0, kInfoLogFile)) \<and>
     ParseFileName (file_of db (OldInfoLogFileName db)) = Some (Some (0, kInfoLogFile))"
  by (simp add: parse_names [OF assms] parse_fixed_names)

theorem file_names_parse_witness:
  "map_option (ParseFileName \<circ> file_of ''/db'') (DescriptorFileName ''/db'' 12) =
     Some (Some (Some (12, kDescriptorFile)))"
  using file_names_parse [of 12] by simp

text \<open>C36. \<open>ConsumeDecimalNumber\<close> reads the longest run of digits exactly, and fails exactly if the number
  does not fit in 64 bits; the run is shorter than 2^31, so that the count of the digits fits its \<open>int\<close>.\<close>

theorem decimal_number_exact:
  assumes "\<forall>c \<in> set ds. is_digit c" "ds \<noteq> []" "no_digit_next rest" "length ds < 2 ^ 31"
  shows "if digits_value ds 0 < 2 ^ 64
     then ConsumeDecimalNumber (ds @ rest) = Some (Some (of_nat (digits_value ds 0)), rest)
     else \<exists>left. ConsumeDecimalNumber (ds @ rest) = Some (None, left)"
  by (rule ConsumeDecimalNumber_digits [OF assms])

theorem decimal_number_exact_witness:
  "\<exists>left. ConsumeDecimalNumber ''18446744073709551616.log'' = Some (None, left)"
proof -
  have "\<forall>c \<in> set ''18446744073709551616''. is_digit c" "no_digit_next ''.log''"
    "\<not> digits_value ''18446744073709551616'' 0 < 2 ^ 64" by (simp_all add: is_digit_def)
  with decimal_number_exact [of "''18446744073709551616''" "''.log''"] show ?thesis by simp
qed



section \<open>Blocks\<close>

text \<open>C9. The pairs added to a \<open>BlockBuilder\<close> in the order of the internal comparator come back from the
  iterator of the finished block, forward with \<open>Next\<close> and backward with \<open>Prev\<close>, whatever the
  restart interval.\<close>

theorem block_roundtrip:
  assumes "1 \<le> interval" "sorted_wrt (\<lambda>x y. icmp slice_compare (fst x) (fst y) < 0) kvs"
    "\<forall>p \<in> set kvs. ikey (\<lambda>_. True) (fst p)"
  shows "\<exists>b0 b. new_BlockBuilder interval = Some b0 \<and> add_pairs (icmp slice_compare) kvs b0 = Some b \<and>
     (length (fst (BlockBuilder_Finish b)) < 2 ^ 32 \<longrightarrow>
       (\<exists>bl it f l. new_Block (fst (BlockBuilder_Finish b)) = Some bl \<and> Block_NewIterator bl = Some (Inr it) \<and>
          BlockIter_SeekToFirst it = Some f \<and>
          read_pairs BlockIter_Valid BlockIter_key BlockIter_value BlockIter_Next (length kvs) f = Some kvs \<and>
          BlockIter_SeekToLast it = Some l \<and>
          read_pairs BlockIter_Valid BlockIter_key BlockIter_value BlockIter_Prev (length kvs) l = Some (rev kvs)))"
  using ikey_block.built_block [OF assms] ikey_iter.reads_all by blast

theorem block_roundtrip_witness:
  "\<exists>b0 b. new_BlockBuilder 16 = Some b0 \<and> add_pairs (icmp slice_compare) [([7, 1, 0, 0, 0, 0, 0, 0, 0], [5])] b0 = Some b"
proof -
  have "ikey (\<lambda>_. True) [7, 1, 0, 0, 0, 0, 0, 0, 0]" by (simp add: ikey_def)
  with block_roundtrip [of 16 "[([7, 1, 0, 0, 0, 0, 0, 0, 0], [5])]"] show ?thesis by fastforce
qed

text \<open>C21. \<open>Seek\<close> on such a block goes to the first pair whose key is not below the target: its binary search over
  the restart points and its scan from there are the scan of the whole list.\<close>

theorem block_seek:
  assumes "1 \<le> interval" "sorted_wrt (\<lambda>x y. icmp slice_compare (fst x) (fst y) < 0) kvs"
    "\<forall>p \<in> set kvs. ikey (\<lambda>_. True) (fst p)" "ikey (\<lambda>_. True) target"
  shows "\<exists>b0 b. new_BlockBuilder interval = Some b0 \<and> add_pairs (icmp slice_compare) kvs b0 = Some b \<and>
     (length (fst (BlockBuilder_Finish b)) < 2 ^ 32 \<longrightarrow>
       (\<exists>bl it it'. new_Block (fst (BlockBuilder_Finish b)) = Some bl \<and> Block_NewIterator bl = Some (Inr it) \<and>
          BlockIter_Seek (icmp slice_compare) target it = Some it' \<and>
          read_pairs BlockIter_Valid BlockIter_key BlockIter_value BlockIter_Next (length kvs) it' =
            Some (dropWhile (\<lambda>e. icmp slice_compare (fst e) target < 0) kvs)))"
  using ikey_block.built_block [OF assms(1-3)] ikey_iter.reads_from [OF _ assms(4)] by blast

theorem block_seek_witness:
  "\<exists>b0 b. new_BlockBuilder 1 = Some b0 \<and> add_pairs (icmp slice_compare) [([7, 1, 0, 0, 0, 0, 0, 0, 0], [5])] b0 = Some b"
proof -
  have "ikey (\<lambda>_. True) [7, 1, 0, 0, 0, 0, 0, 0, 0]" "ikey (\<lambda>_. True) [8, 1, 0, 0, 0, 0, 0, 0, 0]"
    by (simp_all add: ikey_def)
  with block_seek [of 1 "[([7, 1, 0, 0, 0, 0, 0, 0, 0], [5])]" "[8, 1, 0, 0, 0, 0, 0, 0, 0]"] show ?thesis by fastforce
qed

text \<open>C40. What was added to a memtable is found in it: after any entries, with different sequence numbers for
  one key, \<open>Get\<close> at any sequence number returns of the key the newest entry that is not newer than that: its
  value, or NotFound if it is a deletion; and says so if there is none. The skip list chooses its heights as
  its generator draws them.\<close>

theorem memtable_get:
  assumes "adds_ok es" "short_key u" "s \<le> kMaxSequenceNumber"
  shows "\<exists>m0 m k. new_MemTable = Some m0 \<and> add_entries slice_compare es m0 = Some m \<and> new_LookupKey u s = Some k \<and>
     MemTable_Get slice_compare k out m = Some
       (case newest s u es of
          None \<Rightarrow> (False, out)
        | Some e \<Rightarrow> if me_type e = kTypeValue then (True, me_value e, snd out) else (True, fst out, NotFound [] []))"
proof -
  obtain m0 m ps where m: "new_MemTable = Some m0" "add_entries slice_compare es m0 = Some m" "mem_at m ps"
    "set ps = pair_of_add ` set es" using memtable_of_adds [OF assms(1)] by blast
  from get_newest [OF m(3) assms(1) m(4) assms(2,3), of out] m(1,2) show ?thesis by blast
qed

theorem memtable_get_witness:
  "\<exists>m0 m k. new_MemTable = Some m0 \<and> add_entries slice_compare two_added m0 = Some m \<and> new_LookupKey [7] 8 = Some k \<and>
     MemTable_Get slice_compare k ([], Status_OK) m = Some (True, [], NotFound [] [])"
proof -
  have "adds_ok two_added" "short_key [7]" "(8 :: 64 word) \<le> kMaxSequenceNumber"
    by (simp_all add: adds_ok_def two_added_def short_key_def kMaxSequenceNumber_def)
  from memtable_get [OF this, of "([], Status_OK)"] show ?thesis by (simp add: two_added_def)
qed

section \<open>LevelDB: tables\<close>

text \<open>C3. A table that was built of any sorted pairs, with the options of any database that orders its keys
  byte-wise, opens, and an iterator over it, with an LRU cache between it and the file, reads exactly those
  pairs: forwards, backwards, and from any target on.\<close>

theorem table_roundtrip:
  assumes "plain_options opts" "table_pairs dbkey dbcmp (SanitizeOptions address opts) kvs"
    and "roomy f" "contents f = []" "snappy_ok snappy"
    and "build_table snappy (SanitizeOptions address opts) kvs f = Some (s, F)" "status_ok s"
    and "readable file F" "length F < 2 ^ 32" "lru_fresh c M (length kvs)"
  shows "\<exists>t c' it first last. Table_Open snappy lru_ops (SanitizeOptions address opts) file (of_nat (length F)) c =
       Some (Status_OK, Some t, c') \<and>
     Table_NewIterator t c' = Some it \<and>
     it_SeekToFirst (table_ops snappy lru_ops t ro) it = Some first \<and>
     read_pairs (it_Valid (table_ops snappy lru_ops t ro)) (it_key (table_ops snappy lru_ops t ro))
       (it_value (table_ops snappy lru_ops t ro)) (it_Next (table_ops snappy lru_ops t ro)) (length kvs) first = Some kvs \<and>
     it_SeekToLast (table_ops snappy lru_ops t ro) it = Some last \<and>
     read_pairs (it_Valid (table_ops snappy lru_ops t ro)) (it_key (table_ops snappy lru_ops t ro))
       (it_value (table_ops snappy lru_ops t ro)) (it_Prev (table_ops snappy lru_ops t ro)) (length kvs) last = Some (rev kvs) \<and>
     (\<forall>target. dbkey target \<longrightarrow> (\<exists>it'. it_Seek (table_ops snappy lru_ops t ro) target it = Some it' \<and>
       read_pairs (it_Valid (table_ops snappy lru_ops t ro)) (it_key (table_ops snappy lru_ops t ro))
         (it_value (table_ops snappy lru_ops t ro)) (it_Next (table_ops snappy lru_ops t ro)) (length kvs) it' =
       Some (dropWhile (\<lambda>e. dbcmp (fst e) target < 0) kvs)))"
proof -
  have F: "table_file dbkey dbcmp snappy (SanitizeOptions address opts) F kvs"
    by (rule plain_table_file [OF assms(1-4,6,7)])
  obtain t c' "done" idx where o: "Table_Open snappy lru_ops (SanitizeOptions address opts) file (of_nat (length F)) c =
      Some (Status_OK, Some t, c')" "opened dbkey dbcmp snappy t F done idx" "kvs = pairs_in done"
    "cache_ready dbkey dbcmp lru_ops cache_inv cache_get t done M c' {#}"
    using open_with_lru [OF F assms(8,9,5) plain_comparator [OF assms(1)] assms(10)] by blast
  from table_reads [OF o(2,4,3), of ro] o(1) show ?thesis by blast
qed

theorem table_roundtrip_witness:
  "\<exists>c t c' it first. NewLRUCache 100 = Some c \<and>
     Table_Open no_snappy lru_ops (SanitizeOptions 1 small_options) (MmapFile \<lparr>pm_filename = [], pm_region = small_file\<rparr>)
       (of_nat (length small_file)) c = Some (Status_OK, Some t, c') \<and>
     Table_NewIterator t c' = Some it \<and> it_SeekToFirst (table_ops no_snappy lru_ops t new_ReadOptions) it = Some first \<and>
     read_pairs (it_Valid (table_ops no_snappy lru_ops t new_ReadOptions)) (it_key (table_ops no_snappy lru_ops t new_ReadOptions))
       (it_value (table_ops no_snappy lru_ops t new_ReadOptions)) (it_Next (table_ops no_snappy lru_ops t new_ReadOptions))
       (length [(small_key, [7 :: byte])]) first = Some [(small_key, [7])]"
proof -
  obtain c where c: "NewLRUCache 100 = Some c" "lru_fresh c {#} (length [(small_key, [7 :: byte])])"
    using small_cache by blast
  have "status_ok Status_OK" by simp
  from table_roundtrip [OF small_plain small_pairs small_roomy no_snappy_ok small_table this small_readable small_length c(2),
      of new_ReadOptions] c(1)
  show ?thesis by blast
qed

text \<open>C8. A lookup in an open table finds every pair of it: neither the index nor the filter loses a key,
  whether the block is in the cache or not. The cache then serves the next lookup.\<close>

theorem table_get:
  assumes "table_file dbkey dbcmp snappy opts F kvs" "cmp_Compare (opt_comparator opts) = dbcmp" "snappy_ok snappy"
    and "readable file F" "length F < 2 ^ 32" "lru_fresh c M (length kvs)" "p \<in> set kvs" "q \<in> set kvs"
  shows "\<exists>t c' c1 c2. Table_Open snappy lru_ops opts file (of_nat (length F)) c = Some (Status_OK, Some t, c') \<and>
     InternalGet snappy lru_ops t ro (fst p) c' = Some (Status_OK, Some p, c1) \<and>
     InternalGet snappy lru_ops t ro' (fst q) c1 = Some (Status_OK, Some q, c2)"
proof -
  obtain t c' "done" idx where o: "Table_Open snappy lru_ops opts file (of_nat (length F)) c = Some (Status_OK, Some t, c')"
    "opened dbkey dbcmp snappy t F done idx" "kvs = pairs_in done"
    "cache_ready dbkey dbcmp lru_ops cache_inv cache_get t done M c' {#}"
    using open_with_lru [OF assms(1,4,5,3,2,6)] by blast
  obtain c1 where c1: "InternalGet snappy lru_ops t ro (fst p) c' = Some (Status_OK, Some p, c1)"
    "cache_ready dbkey dbcmp lru_ops cache_inv cache_get t done M c1 {#}"
    using ikey_block.InternalGet_present [OF o(2,4)] assms(7) o(3) by blast
  with ikey_block.InternalGet_present [OF o(2) c1(2)] assms(8) o(1,3) show ?thesis by blast
qed

theorem table_get_witness:
  "\<exists>c t c' c1. NewLRUCache 100 = Some c \<and>
     Table_Open no_snappy lru_ops (SanitizeOptions 1 small_options) (MmapFile \<lparr>pm_filename = [], pm_region = small_file\<rparr>)
       (of_nat (length small_file)) c = Some (Status_OK, Some t, c') \<and>
     InternalGet no_snappy lru_ops t new_ReadOptions small_key c' = Some (Status_OK, Some (small_key, [7]), c1)"
proof -
  obtain c where c: "NewLRUCache 100 = Some c" "lru_fresh c {#} (length [(small_key, [7 :: byte])])"
    using small_cache by blast
  have F: "table_file dbkey dbcmp no_snappy (SanitizeOptions 1 small_options) small_file [(small_key, [7])]"
    by (rule plain_table_file [OF small_plain small_pairs small_roomy small_table]) simp
  from table_get [OF F plain_comparator [OF small_plain] no_snappy_ok small_readable small_length c(2),
      of "(small_key, [7])" "(small_key, [7])" new_ReadOptions new_ReadOptions] c(1)
  show ?thesis by fastforce
qed

text \<open>C13. Whatever faults the file has, building a table returns; and if the status is OK the file holds the
  pairs in blocks, an index over them, and the filter.\<close>

theorem table_build_safe:
  assumes "plain_options opts" "table_pairs dbkey dbcmp (SanitizeOptions address opts) kvs" "roomy f" "contents f = []"
  shows "\<exists>s F. build_table snappy (SanitizeOptions address opts) kvs f = Some (s, F) \<and>
     (status_ok s \<longrightarrow> table_file dbkey dbcmp snappy (SanitizeOptions address opts) F kvs)"
  by (rule table_order.built_table [OF plain_order [OF assms(1)] assms(3,4,2)])

theorem table_build_safe_witness:
  "table_file dbkey dbcmp no_snappy (SanitizeOptions 1 small_options) small_file [(small_key, [7])]"
  using table_build_safe [OF small_plain small_pairs small_roomy, of no_snappy 1] small_table [of no_snappy] by simp

section \<open>LevelDB: reading a database\<close>

text \<open>C12. Whatever calls a client makes of the merging iterator over blocks, changes of direction included, it
  behaves as one iterator over the sorted union of their pairs.\<close>

theorem merging_iterator_cursor:
  assumes "merge_of dbkey dbcmp kvss kvs" "opened_runs kvss its"
    and "run_cursor dbkey dbcmp kvs calls (length kvs) = Some j"
  shows "\<exists>it. run_calls (NewMergingOps (BlockIterOps dbcmp) dbcmp) calls (NewMergingIterator its) = Some it \<and>
     shows_pair (NewMergingOps (BlockIterOps dbcmp) dbcmp) kvs j it"
  by (rule calls_at [OF runs.new_merging_iterator runs.NewMergingIterator_at [OF assms(1) opened_runs_at [OF assms(1,2)]] assms(3)])

theorem merging_iterator_cursor_witness:
  "\<exists>its it. opened_runs two_runs its \<and>
     run_calls (NewMergingOps (BlockIterOps dbcmp) dbcmp) [Call_SeekToLast, Call_Prev, Call_Prev, Call_Next, Call_Prev]
       (NewMergingIterator its) = Some it \<and>
     shows_pair (NewMergingOps (BlockIterOps dbcmp) dbcmp) two_merged 2 it"
proof -
  obtain its where its: "opened_runs two_runs its" using two_opened by blast
  have "run_cursor dbkey dbcmp two_merged [Call_SeekToLast, Call_Prev, Call_Prev, Call_Next, Call_Prev] (length two_merged) = Some 2"
    by (simp add: two_merged_def)
  from merging_iterator_cursor [OF two_merge its this] its show ?thesis by blast
qed

text \<open>C4. Whatever calls a client makes of a database iterator over merged runs of entries, it sees a cursor on the
  list that has of each user key the newest value at the snapshot \<open>s\<close>, unless that is a deletion.\<close>

theorem db_iterator_view:
  assumes "merge_of dbkey dbcmp kvss kvs" "opened_runs kvss its"
    and "db_entries (\<lambda>_. True) slice_compare kvs" "s \<le> kMaxSequenceNumber"
    and "run_cursor (\<lambda>_. True) slice_compare (user_view slice_compare s kvs) calls (length (user_view slice_compare s kvs)) = Some j"
  shows "\<exists>st. run_calls (DBIterOps (NewMergingOps (BlockIterOps dbcmp) dbcmp) slice_compare) calls
       (new_DBIter (NewMergingIterator its) s seed) = Some st \<and>
     shows_pair (DBIterOps (NewMergingOps (BlockIterOps dbcmp) dbcmp) slice_compare) (user_view slice_compare s kvs) j st"
proof -
  have at: "empty_at (either_at (block_at dbkey dbcmp) runs.merge_at) kvs (NewMergingIterator its) (length kvs)"
    by (rule runs.NewMergingIterator_at [OF assms(1) opened_runs_at [OF assms(1,2)]])
  show ?thesis
    by (rule read_path.client_calls [OF assms(4,3) at assms(5)])
qed

theorem db_iterator_view_witness:
  "\<exists>its st. opened_runs two_runs its \<and>
     run_calls (DBIterOps (NewMergingOps (BlockIterOps dbcmp) dbcmp) slice_compare)
       [Call_SeekToFirst, Call_Next, Call_Prev, Call_Next] (new_DBIter (NewMergingIterator its) 5 301) = Some st \<and>
     shows_pair (DBIterOps (NewMergingOps (BlockIterOps dbcmp) dbcmp) slice_compare) [([7], [5]), ([9], [10])] 1 st"
proof -
  obtain its where its: "opened_runs two_runs its" using two_opened by blast
  have s: "5 \<le> kMaxSequenceNumber" by (simp add: kMaxSequenceNumber_def)
  have "run_cursor (\<lambda>_. True) slice_compare (user_view slice_compare 5 two_merged)
      [Call_SeekToFirst, Call_Next, Call_Prev, Call_Next] (length (user_view slice_compare 5 two_merged)) = Some 1"
    by (simp add: two_view)
  from db_iterator_view [OF two_merge its two_entries s this] its show ?thesis unfolding two_view by blast
qed

section \<open>LevelDB: the cache\<close>

text \<open>C6. In every state that clients can bring a cache to, every operation returns, none reads a freed or
  unlinked entry, and the handles a client holds keep the values they had.\<close>

theorem cache_reachable:
  assumes "cache_reach malloc capacity sc M" "allocates malloc" "0 < shard_capacity capacity"
  shows "(size M + 2 < 2 ^ 32 \<longrightarrow> (\<exists>r sc'. Cache_Lookup key sc = Some (r, sc') \<and> (\<forall>h \<in># M. Cache_Value h sc' = Cache_Value h sc))) \<and>
     (card (dom (cache_get sc)) + 1 < 2 ^ 31 \<longrightarrow>
       (\<exists>h sc'. co_Insert (LRUCacheOps malloc) key v n sc = Some (h, sc') \<and> Cache_Value h sc' = Some v \<and>
         (\<forall>h \<in># M. Cache_Value h sc' = Cache_Value h sc))) \<and>
     (\<exists>sc'. Cache_Erase key sc = Some sc' \<and> (\<forall>h \<in># M. Cache_Value h sc' = Cache_Value h sc)) \<and>
     (\<exists>sc'. Cache_Prune sc = Some sc') \<and>
     (\<forall>h \<in># M. \<exists>sc'. Cache_Release h sc = Some sc' \<and> (\<forall>k \<in># M - {#h#}. Cache_Value k sc' = Cache_Value k sc))"
proof -
  note inv = reach_inv [OF assms]
  have "\<exists>sc'. Cache_Release h sc = Some sc' \<and> (\<forall>k \<in># M - {#h#}. Cache_Value k sc' = Cache_Value k sc)" if "h \<in># M" for h
    using Cache_Release_step [of sc h "M - {#h#}"] inv that by auto
  with Cache_Lookup_step [OF inv, of key] Cache_Insert_step [OF inv _ assms(2), of key v n]
    Cache_Erase_step [OF inv, of key] Cache_Prune_step [OF inv] show ?thesis by blast
qed

theorem cache_reachable_witness:
  "\<exists>sc h sc' sc2. NewLRUCache 100 = Some sc \<and> co_Insert (LRUCacheOps first_free) [107] (5 :: nat) 1 sc = Some (h, sc') \<and>
     Cache_Erase [107] sc' = Some sc2 \<and> Cache_Value h sc2 = Some 5"
proof -
  obtain sc :: "nat ShardedLRUCache" where sc: "NewLRUCache 100 = Some sc" "cache_get sc = Map.empty"
    using NewLRUCache_inv [OF small_capacity, where 'v = nat] by blast
  note r = cache_reach.new [OF sc(1), of first_free]
  from cache_reachable [OF r first_free small_capacity, of "[107]" 5 1] sc(2)
  obtain h sc' where i: "co_Insert (LRUCacheOps first_free) [107] 5 1 sc = Some (h, sc')" "Cache_Value h sc' = Some 5" by auto
  have r': "cache_reach first_free 100 sc' {#h#}" by (rule cache_reach.insert [OF r _ i(1)]) (simp add: sc(2))
  obtain sc2 where "Cache_Erase [107] sc' = Some sc2" "\<forall>h \<in># {#h#}. Cache_Value h sc2 = Cache_Value h sc'"
    using cache_reachable [OF r' first_free small_capacity, of "[107]" 5 1] by blast
  with i sc(1) show ?thesis by (intro exI [of _ sc] exI [of _ h] exI [of _ sc'] exI [of _ sc2]) simp
qed

text \<open>C7. The cache is a map that may forget: a lookup finds what the map holds and changes nothing, an insertion
  stores the value and changes no other, except by forgetting it, and an erased key is gone.\<close>

theorem cache_refines_map:
  assumes "cache_inv sc M" "size M + 2 < 2 ^ 32" "card (dom (cache_get sc)) + 1 < 2 ^ 31" "allocates malloc"
  shows "\<exists>r sc1 h sc2 sc3. Cache_Lookup key sc = Some (r, sc1) \<and> cache_get sc1 = cache_get sc \<and>
       (case r of None \<Rightarrow> None | Some h \<Rightarrow> Cache_Value h sc1) = cache_get sc key \<and> cache_inv sc1 (M + mset_set (set_option r)) \<and>
     co_Insert (LRUCacheOps malloc) key v n sc = Some (h, sc2) \<and> cache_get sc2 \<subseteq>\<^sub>m (cache_get sc)(key \<mapsto> v) \<and>
       cache_get sc2 key = Some v \<and> cache_inv sc2 (add_mset h M) \<and>
     Cache_Erase key sc = Some sc3 \<and> cache_get sc3 = (cache_get sc)(key := None) \<and> cache_inv sc3 M"
proof -
  obtain r sc1 where l: "Cache_Lookup key sc = Some (r, sc1)" "cache_inv sc1 (M + mset_set (set_option r))"
    "cache_get sc1 = cache_get sc" "cache_get sc key = (case r of None \<Rightarrow> None | Some h \<Rightarrow> Cache_Value h sc1)"
    using Cache_Lookup_step [OF assms(1,2), of key] by blast
  obtain h sc2 where i: "co_Insert (LRUCacheOps malloc) key v n sc = Some (h, sc2)" "cache_inv sc2 (add_mset h M)"
    "cache_get sc2 \<subseteq>\<^sub>m (cache_get sc)(key \<mapsto> v)" "cache_get sc2 key = Some v"
    using Cache_Insert_step [OF assms(1,3,4), of key v n] by blast
  show ?thesis
    using Cache_Erase_step [OF assms(1), of key] l(1-3) l(4) [symmetric] i by blast
qed

theorem cache_refines_map_witness:
  "\<exists>sc h sc'. NewLRUCache 100 = Some sc \<and> co_Insert (LRUCacheOps first_free) [107] (5 :: nat) 1 sc = Some (h, sc') \<and>
     cache_get sc' [107] = Some 5"
proof -
  obtain sc :: "nat ShardedLRUCache" where sc: "NewLRUCache 100 = Some sc" "cache_inv sc {#}" "cache_get sc = Map.empty"
    using NewLRUCache_inv [OF small_capacity, where 'v = nat] by blast
  from cache_refines_map [OF sc(2) _ _ first_free, of "[107]" 5 1] sc(1,3) show ?thesis by auto
qed

text \<open>C32. After an insertion the charges of the entries in a shard add up to at most its capacity, or every entry
  left in it is in use by a client; and \<open>TotalCharge\<close> is that sum, as long as it fits in 64 bits.\<close>

theorem cache_capacity:
  assumes "lru_inv c M" "lc_heap c a = None" "0 < lc_capacity c" "card (entries c) + 1 < 2 ^ 31"
    and "(\<Sum>b \<in> entries c. unat (charge_of (lc_heap c) b)) + unat n < 2 ^ 64"
  shows "\<exists>c'. LRUCache_Insert a key hash v n c = Some (a, c') \<and> lc_capacity c' = lc_capacity c \<and>
     unat (LRUCache_TotalCharge c') = (\<Sum>b \<in> entries c'. unat (charge_of (lc_heap c') b)) \<and>
     ((\<Sum>b \<in> entries c'. unat (charge_of (lc_heap c') b)) \<le> unat (lc_capacity c) \<or>
      (lc_lru c' = [] \<and> entries c' \<subseteq> insert a (set_mset M)))"
proof -
  obtain c' where c': "LRUCache_Insert a key hash v n c = Some (a, c')" "lru_inv c' (add_mset a M)"
    "lc_capacity c' = lc_capacity c" "unat (lc_usage c') = total_charge c'"
    "total_charge c' \<le> unat (lc_capacity c) \<or> lc_lru c' = []"
    using Insert_total [OF assms(1-4), of n key hash v] assms(5) unfolding total_charge_def by blast
  with unused_entries [OF c'(2)] show ?thesis by (auto simp: LRUCache_TotalCharge_def total_charge_def)
qed

theorem cache_capacity_witness:
  "\<exists>c c'. new_LRUCache 1 = Some c \<and> LRUCache_Insert 0 [107] 3 (5 :: nat) 1 c = Some (0, c') \<and> lc_capacity c' = 1"
proof -
  obtain c :: "nat LRUCache" where c: "new_LRUCache 1 = Some c" "lru_inv c {#}" "lc_capacity c = 1" "cached c = Map.empty"
    using new_LRUCache_inv by blast
  have "lc_heap c 0 = None" "card (entries c) + 1 < 2 ^ 31" "entries c = {}" using empty_cache [OF c(2,4)] by simp_all
  with cache_capacity [OF c(2), of 0 1 "[107]" 3 5] c(1,3) show ?thesis by auto
qed

text \<open>C39. With capacity 0, which the interface allows to turn caching off, a handle cannot be released: the
  entry is never linked, and \<open>key()\<close>, which \<open>Unref\<close> calls for the deleter, reads its \<open>next\<close> pointer
  uninitialised.\<close>

theorem cache_capacity_zero:
  "\<exists>(sc :: 'v ShardedLRUCache) h sc'. NewLRUCache 0 = Some sc \<and> co_Insert (LRUCacheOps malloc) key v n sc = Some (h, sc') \<and>
     Cache_Release h sc' = None"
  by (rule capacity_zero_handle)

end
